(* ===== verification/Prelude.thy ===== *)
theory Prelude
  imports Main "HOL-Library.Word"
begin

text \<open>
  What every component of the development shares: the types that stand for Rust's
  primitive types, the arithmetic of \<open>u16\<close> that saturates or clamps, the small
  part of IEEE single precision that the layout engine computes with, and the generic
  lemmas on lists and options that the component proofs use.  The collections
  \<open>layout_simps\<close>, \<open>keymap_simps\<close> and \<open>undo_simps\<close> are filled by the component
  theories.
\<close>

section \<open>Collections of the components\<close>

named_theorems layout_simps \<open>unfolding the layout operations\<close>
named_theorems keymap_simps \<open>unfolding the keymap operations\<close>
named_theorems undo_simps \<open>field access after an undo-tree update\<close>

section \<open>Rust's primitive types\<close>

text \<open>
  \<open>usize\<close> values are indices and lengths; the model uses \<open>nat\<close> for them and writes a
  saturation or a checked operation out where the source has one.  A Rust \<open>char\<close> is a
  Unicode scalar value, modelled by its code point, and a \<open>String\<close> is the list of its
  chars.
\<close>

type_synonym u16 = "16 word"
type_synonym u8 = "8 word"
type_synonym rchar = nat
type_synonym rstring = "nat list"

abbreviation ch :: "char \<Rightarrow> rchar" where
  "ch c \<equiv> of_char c"

text \<open>\<open>usize::MAX\<close> of a 64-bit target.\<close>

definition usize_max :: nat where
  "usize_max = 2 ^ 64 - 1"

definition str :: "string \<Rightarrow> rstring" where
  "str s = map of_char s"

lemma str_simps [simp, code]:
  "str [] = []"
  "str (c # cs) = ch c # str cs"
  by (simp_all add: str_def)

section \<open>Saturating and clamping arithmetic of u16\<close>

definition saturating_sub16 :: "u16 \<Rightarrow> u16 \<Rightarrow> u16" where
  "saturating_sub16 a b = (if a < b then 0 else a - b)"

definition saturating_add16 :: "u16 \<Rightarrow> u16 \<Rightarrow> u16" where
  "saturating_add16 a b = (if unat a + unat b > 65535 then 65535 else a + b)"

definition clamp16 :: "u16 \<Rightarrow> u16 \<Rightarrow> u16 \<Rightarrow> u16" where
  "clamp16 a lo hi = (if a < lo then lo else if hi < a then hi else a)"

lemma unat_u16_bound: "unat (a :: u16) < 65536"
  using unsigned_less [of a] by simp

lemma unat_add16:
  "unat a + unat b < 65536 \<Longrightarrow> unat ((a :: u16) + b) = unat a + unat b"
  by (simp add: unat_word_ariths)

lemma unat_saturating_sub16 [simp]:
  "unat (saturating_sub16 a b) = unat a - unat b"
  by (auto simp: saturating_sub16_def word_less_nat_alt unat_sub word_le_nat_alt)

lemma unat_saturating_add16 [simp]:
  "unat (saturating_add16 a b) = min 65535 (unat a + unat b)"
  by (auto simp: saturating_add16_def unat_add16)

lemma unat_clamp16:
  "unat (clamp16 a lo hi) =
     (if unat a < unat lo then unat lo else if unat hi < unat a then unat hi else unat a)"
  by (simp add: clamp16_def word_less_nat_alt)

section \<open>Single-precision floats\<close>

text \<open>
  A finite \<open>f32\<close> is \<open>m * 2 ^ e\<close> with an integer \<open>m\<close> of at most 24 bits; the sign of a
  zero is not kept, because nothing the source does with a ratio depends on it.
\<close>

datatype f32 = F32 int int | F32Inf bool | F32NaN

fun nbits :: "nat \<Rightarrow> nat" where
  "nbits n = (if n = 0 then 0 else Suc (nbits (n div 2)))"

declare nbits.simps [simp del]

definition shift_round_even :: "nat \<Rightarrow> nat \<Rightarrow> nat" where
  "shift_round_even m k =
     (let q = m div 2 ^ k; r = m mod 2 ^ k in
      if 2 * r < 2 ^ k then q
      else if 2 * r > 2 ^ k then q + 1
      else if even q then q else q + 1)"

text \<open>Round an exact product to the nearest \<open>f32\<close>, ties to even, overflow to infinity.\<close>

definition f32_round :: "int \<Rightarrow> int \<Rightarrow> f32" where
  "f32_round m e =
     (let n = nat \<bar>m\<bar>; k = max (nbits n - 24) (nat (- 149 - e)); q = shift_round_even n k;
          e' = e + int k
      in if nbits q + nat (e' + 149) > 128 + 149 \<and> q \<noteq> 0 then F32Inf (m < 0)
         else F32 (sgn m * int q) e')"

fun f32_mul :: "f32 \<Rightarrow> f32 \<Rightarrow> f32" where
  "f32_mul F32NaN _ = F32NaN"
| "f32_mul _ F32NaN = F32NaN"
| "f32_mul (F32 m e) (F32 m' e') = f32_round (m * m') (e + e')"
| "f32_mul (F32 m e) (F32Inf s) = (if m = 0 then F32NaN else F32Inf ((m < 0) \<noteq> s))"
| "f32_mul (F32Inf s) (F32 m e) = (if m = 0 then F32NaN else F32Inf ((m < 0) \<noteq> s))"
| "f32_mul (F32Inf s) (F32Inf s') = F32Inf (s \<noteq> s')"

definition f32_of_u16 :: "u16 \<Rightarrow> f32" where
  "f32_of_u16 a = F32 (uint a) 0"

text \<open>\<open>f32::round\<close> (halves away from zero) followed by the saturating cast \<open>as u16\<close>.\<close>

fun f32_round_as_u16 :: "f32 \<Rightarrow> u16" where
  "f32_round_as_u16 F32NaN = 0"
| "f32_round_as_u16 (F32Inf neg) = (if neg then 0 else 65535)"
| "f32_round_as_u16 (F32 m e) =
     (let v = (if 0 \<le> e then \<bar>m\<bar> * 2 ^ nat e
               else (2 * \<bar>m\<bar> + 2 ^ nat (- e)) div (2 * 2 ^ nat (- e)))
      in if m \<le> 0 then 0 else if v > 65535 then 65535 else word_of_int v)"

abbreviation f32_half :: f32 where
  "f32_half \<equiv> F32 1 (- 1)"

section \<open>Lists and options\<close>

fun position :: "('a \<Rightarrow> bool) \<Rightarrow> 'a list \<Rightarrow> nat option" where
  "position P [] = None"
| "position P (x # xs) = (if P x then Some 0 else map_option Suc (position P xs))"

lemma position_SomeD:
  "position P xs = Some i \<Longrightarrow> i < length xs \<and> P (xs ! i) \<and> (\<forall>j<i. \<not> P (xs ! j))"
  by (induction xs arbitrary: i) (force split: if_splits simp: less_Suc_eq_0_disj)+

lemma position_None_iff: "position P xs = None \<longleftrightarrow> (\<forall>x\<in>set xs. \<not> P x)"
  by (induction xs) auto

lemma position_distinct:
  "distinct xs \<Longrightarrow> i < length xs \<Longrightarrow> position (\<lambda>y. y = xs ! i) xs = Some i"
proof (induction xs arbitrary: i)
  case (Cons x xs)
  then show ?case by (cases i) (auto simp: nth_mem)
qed simp

lemma position_nth_iff:
  assumes "distinct xs"
  shows "position (\<lambda>y. y = x) xs = Some k \<longleftrightarrow> k < length xs \<and> xs ! k = x"
proof
  assume "position (\<lambda>y. y = x) xs = Some k"
  from position_SomeD [OF this] show "k < length xs \<and> xs ! k = x" by blast
next
  assume "k < length xs \<and> xs ! k = x"
  with position_distinct [OF assms, of k] show "position (\<lambda>y. y = x) xs = Some k" by simp
qed

lemma retain_ne_id: "a \<notin> set xs \<Longrightarrow> filter (\<lambda>n. n \<noteq> a) xs = xs"
  by (induction xs) auto

end
