(* ===== verification/Layout.thy ===== *)
theory Layout
  imports Prelude "HOL-Library.Multiset"
begin

text \<open>
  The window layout tree of \<open>crates/hjkl-layout/src/lib.rs\<close>: rectangles and the geometry
  of one split, the tree with its traversals, directional navigation, resizing hooks,
  equalising, \<open>:only\<close>, sibling swap and leaf removal.  A method that takes
  \<open>&mut self\<close> returns the updated tree beside its result; a \<open>Vec\<close> that the source
  passes as an output buffer is an accumulator argument.  The \<open>&mut f32\<close> that
  \<open>enclosing_split_mut\<close> returns is the path (\<open>True\<close> for the first child) to the split
  it borrows from.
\<close>

section \<open>Data\<close>

type_synonym window_id = nat

record layout_rect =
  rect_x :: u16
  rect_y :: u16
  rect_w :: u16
  rect_h :: u16

definition rect_new :: "u16 \<Rightarrow> u16 \<Rightarrow> u16 \<Rightarrow> u16 \<Rightarrow> layout_rect" where
  "rect_new x y w h = \<lparr>rect_x = x, rect_y = y, rect_w = w, rect_h = h\<rparr>"

datatype split_dir = Horizontal | Vertical

datatype axis = AxisRow | AxisCol

fun split_dir_axis :: "split_dir \<Rightarrow> axis" where
  "split_dir_axis Horizontal = AxisRow"
| "split_dir_axis Vertical = AxisCol"

datatype fixed = First u16 | Second u16

datatype layout_tree =
    Leaf window_id
  | Split split_dir f32 "fixed option" layout_tree layout_tree "layout_rect option"

record tab =
  tab_layout :: layout_tree
  tab_focused_window :: window_id

definition tab_new :: "layout_tree \<Rightarrow> window_id \<Rightarrow> tab" where
  "tab_new l f = \<lparr>tab_layout = l, tab_focused_window = f\<rparr>"

definition split_new :: "split_dir \<Rightarrow> f32 \<Rightarrow> layout_tree \<Rightarrow> layout_tree \<Rightarrow> layout_tree" where
  "split_new dir ratio a b = Split dir ratio None a b None"

definition split_fixed ::
    "split_dir \<Rightarrow> f32 \<Rightarrow> fixed \<Rightarrow> layout_tree \<Rightarrow> layout_tree \<Rightarrow> layout_tree" where
  "split_fixed dir ratio f a b = Split dir ratio (Some f) a b None"

section \<open>Leaves\<close>

fun collect_leaves :: "layout_tree \<Rightarrow> window_id list \<Rightarrow> window_id list" where
  "collect_leaves (Leaf i) out = out @ [i]"
| "collect_leaves (Split _ _ _ a b _) out = collect_leaves b (collect_leaves a out)"

definition leaves :: "layout_tree \<Rightarrow> window_id list" where
  "leaves t = collect_leaves t []"

definition next_leaf :: "layout_tree \<Rightarrow> window_id \<Rightarrow> window_id option" where
  "next_leaf t i =
     (case position (\<lambda>l. l = i) (leaves t) of
        None \<Rightarrow> None
      | Some pos \<Rightarrow> Some (leaves t ! ((pos + 1) mod length (leaves t))))"

definition prev_leaf :: "layout_tree \<Rightarrow> window_id \<Rightarrow> window_id option" where
  "prev_leaf t i =
     (case position (\<lambda>l. l = i) (leaves t) of
        None \<Rightarrow> None
      | Some pos \<Rightarrow>
          (let len = length (leaves t) in Some (leaves t ! ((pos + len - 1) mod len))))"

fun contains :: "layout_tree \<Rightarrow> window_id \<Rightarrow> bool" where
  "contains (Leaf l) i = (l = i)"
| "contains (Split _ _ _ a b _) i = (contains a i \<or> contains b i)"

fun replace_leaf_boxed ::
    "layout_tree \<Rightarrow> window_id \<Rightarrow> (window_id \<Rightarrow> layout_tree) \<Rightarrow> bool \<times> layout_tree" where
  "replace_leaf_boxed (Leaf l) i f = (if l = i then (True, f i) else (False, Leaf l))"
| "replace_leaf_boxed (Split d r fx a b lr) i f =
     (if contains a i
      then (case replace_leaf_boxed a i f of (ok, a') \<Rightarrow> (ok, Split d r fx a' b lr))
      else (case replace_leaf_boxed b i f of (ok, b') \<Rightarrow> (ok, Split d r fx a b' lr)))"

definition replace_leaf ::
    "layout_tree \<Rightarrow> window_id \<Rightarrow> (window_id \<Rightarrow> layout_tree) \<Rightarrow> bool \<times> layout_tree" where
  "replace_leaf t i f = replace_leaf_boxed t i f"

section \<open>Directional navigation\<close>

datatype nav_dir = NavBelow | NavAbove | NavLeft | NavRight

fun first_leaf :: "layout_tree \<Rightarrow> window_id" where
  "first_leaf (Leaf i) = i"
| "first_leaf (Split _ _ _ a _ _) = first_leaf a"

fun last_leaf :: "layout_tree \<Rightarrow> window_id" where
  "last_leaf (Leaf i) = i"
| "last_leaf (Split _ _ _ _ b _) = last_leaf b"

fun neighbor_direction :: "layout_tree \<Rightarrow> window_id \<Rightarrow> nav_dir \<Rightarrow> window_id option" where
  "neighbor_direction (Leaf _) i dir = None"
| "neighbor_direction (Split sd _ _ a b _) i dir =
     (let active_split = (case dir of NavBelow \<Rightarrow> Horizontal | NavAbove \<Rightarrow> Horizontal
                                    | NavLeft \<Rightarrow> Vertical | NavRight \<Rightarrow> Vertical);
          forward = (dir = NavBelow \<or> dir = NavRight)
      in if sd = active_split then
           if contains a i then
             if forward then
               (case neighbor_direction a i dir of
                  Some n \<Rightarrow> Some n
                | None \<Rightarrow> Some (first_leaf b))
             else neighbor_direction a i dir
           else if contains b i then
             if forward then neighbor_direction b i dir
             else
               (case neighbor_direction b i dir of
                  Some n \<Rightarrow> Some n
                | None \<Rightarrow> Some (last_leaf a))
           else None
         else
           if contains a i then neighbor_direction a i dir
           else if contains b i then neighbor_direction b i dir
           else None)"

definition neighbor_below :: "layout_tree \<Rightarrow> window_id \<Rightarrow> window_id option" where
  "neighbor_below t i = neighbor_direction t i NavBelow"

definition neighbor_above :: "layout_tree \<Rightarrow> window_id \<Rightarrow> window_id option" where
  "neighbor_above t i = neighbor_direction t i NavAbove"

definition neighbor_left :: "layout_tree \<Rightarrow> window_id \<Rightarrow> window_id option" where
  "neighbor_left t i = neighbor_direction t i NavLeft"

definition neighbor_right :: "layout_tree \<Rightarrow> window_id \<Rightarrow> window_id option" where
  "neighbor_right t i = neighbor_direction t i NavRight"

section \<open>Resizing\<close>

type_synonym split_path = "bool list"

fun enclosing_split_mut ::
    "layout_tree \<Rightarrow> window_id \<Rightarrow> split_dir \<Rightarrow> (split_path \<times> layout_rect option \<times> bool) option" where
  "enclosing_split_mut (Leaf _) i dir = None"
| "enclosing_split_mut (Split my_dir ratio fx a b last_rect) i dir =
     (let in_a = contains a i; in_b = contains b i
      in if \<not> in_a \<and> \<not> in_b then None
         else
           (case (if in_a then enclosing_split_mut a i dir else enclosing_split_mut b i dir) of
              Some (p, r, side) \<Rightarrow> Some (in_a # p, r, side)
            | None \<Rightarrow>
                if my_dir = dir \<and> fx = None then Some ([], last_rect, in_a) else None))"

text \<open>Reading and writing through the reference that \<open>enclosing_split_mut\<close> returns.\<close>

fun subtree_at :: "layout_tree \<Rightarrow> split_path \<Rightarrow> layout_tree option" where
  "subtree_at t [] = Some t"
| "subtree_at (Leaf _) (_ # _) = None"
| "subtree_at (Split _ _ _ a b _) (s # p) = subtree_at (if s then a else b) p"

fun write_ratio :: "layout_tree \<Rightarrow> split_path \<Rightarrow> f32 \<Rightarrow> layout_tree" where
  "write_ratio (Leaf i) _ r = Leaf i"
| "write_ratio (Split d _ fx a b lr) [] r = Split d r fx a b lr"
| "write_ratio (Split d r0 fx a b lr) (s # p) r =
     (if s then Split d r0 fx (write_ratio a p r) b lr
      else Split d r0 fx a (write_ratio b p r) lr)"

text \<open>The \<open>FnMut\<close> callback of \<open>for_each_ancestor\<close> threads its captured state.\<close>

fun for_each_ancestor ::
    "layout_tree \<Rightarrow> window_id \<Rightarrow>
     (split_dir \<Rightarrow> f32 \<Rightarrow> bool \<Rightarrow> layout_rect option \<Rightarrow> 's \<Rightarrow> f32 \<times> 's) \<Rightarrow> 's \<Rightarrow> layout_tree \<times> 's" where
  "for_each_ancestor (Leaf l) i f s = (Leaf l, s)"
| "for_each_ancestor (Split d r fx a b lr) i f s =
     (let in_a = contains a i; in_b = contains b i
      in if \<not> in_a \<and> \<not> in_b then (Split d r fx a b lr, s)
         else
           (let (r', s') = (if fx = None then f d r in_a lr s else (r, s))
            in if in_a
               then (case for_each_ancestor a i f s' of (a', s'') \<Rightarrow> (Split d r' fx a' b lr, s''))
               else (case for_each_ancestor b i f s' of (b', s'') \<Rightarrow> (Split d r' fx a b' lr, s''))))"

section \<open>Pinned windows: equalize, only, swap, remove\<close>

fun is_pinned_leaf :: "layout_tree \<Rightarrow> window_id list \<Rightarrow> bool" where
  "is_pinned_leaf (Leaf i) pinned = (i \<in> set pinned)"
| "is_pinned_leaf (Split _ _ _ _ _ _) pinned = False"

fun contains_pinned :: "layout_tree \<Rightarrow> window_id list \<Rightarrow> bool" where
  "contains_pinned (Leaf i) pinned = (i \<in> set pinned)"
| "contains_pinned (Split _ _ _ a b _) pinned = (contains_pinned a pinned \<or> contains_pinned b pinned)"

fun equalize_all :: "layout_tree \<Rightarrow> window_id list \<Rightarrow> layout_tree" where
  "equalize_all (Leaf i) pinned = Leaf i"
| "equalize_all (Split d r fx a b lr) pinned =
     (let touches_pinned = (fx \<noteq> None \<or> is_pinned_leaf a pinned \<or> is_pinned_leaf b pinned)
      in Split d (if \<not> touches_pinned then f32_half else r) fx
           (equalize_all a pinned) (equalize_all b pinned) lr)"

fun retains_any :: "layout_tree \<Rightarrow> window_id \<Rightarrow> window_id list \<Rightarrow> bool" where
  "retains_any (Leaf i) keep pinned = (i = keep \<or> i \<in> set pinned)"
| "retains_any (Split _ _ _ a b _) keep pinned = (retains_any a keep pinned \<or> retains_any b keep pinned)"

fun prune_to ::
    "layout_tree \<Rightarrow> window_id \<Rightarrow> window_id list \<Rightarrow> window_id list \<Rightarrow> layout_tree \<times> window_id list" where
  "prune_to (Leaf i) keep pinned removed = (Leaf i, removed)"
| "prune_to (Split d r fx a b lr) keep pinned removed =
     (case (retains_any a keep pinned, retains_any b keep pinned) of
        (True, True) \<Rightarrow>
          (case prune_to a keep pinned removed of
             (a', removed1) \<Rightarrow>
               (case prune_to b keep pinned removed1 of
                  (b', removed2) \<Rightarrow> (Split d r fx a' b' lr, removed2)))
      | (True, False) \<Rightarrow> prune_to a keep pinned (collect_leaves b removed)
      | (False, True) \<Rightarrow> prune_to b keep pinned (collect_leaves a removed)
      | (False, False) \<Rightarrow> (Split d r fx a b lr, removed))"

definition only :: "layout_tree \<Rightarrow> window_id \<Rightarrow> window_id list \<Rightarrow> layout_tree \<times> window_id list" where
  "only t keep pinned =
     (if \<not> contains t keep then (t, []) else prune_to t keep pinned [])"

fun is_leaf_of :: "layout_tree \<Rightarrow> window_id \<Rightarrow> bool" where
  "is_leaf_of (Leaf l) i = (l = i)"
| "is_leaf_of (Split _ _ _ _ _ _) i = False"

fun swap_with_sibling_inner :: "layout_tree \<Rightarrow> window_id \<Rightarrow> window_id list \<Rightarrow> bool \<times> layout_tree" where
  "swap_with_sibling_inner (Leaf l) i pinned = (False, Leaf l)"
| "swap_with_sibling_inner (Split d r fx a b lr) i pinned =
     (if is_leaf_of a i \<or> is_leaf_of b i then
        (if (if is_leaf_of a i then contains_pinned b pinned else contains_pinned a pinned)
         then (False, Split d r fx a b lr)
         else (True, Split d r fx b a lr))
      else if contains a i then
        (case swap_with_sibling_inner a i pinned of (ok, a') \<Rightarrow> (ok, Split d r fx a' b lr))
      else if contains b i then
        (case swap_with_sibling_inner b i pinned of (ok, b') \<Rightarrow> (ok, Split d r fx a b' lr))
      else (False, Split d r fx a b lr))"

definition swap_with_sibling :: "layout_tree \<Rightarrow> window_id \<Rightarrow> window_id list \<Rightarrow> bool \<times> layout_tree" where
  "swap_with_sibling t i pinned =
     (if i \<in> set pinned then (False, t) else swap_with_sibling_inner t i pinned)"

fun try_remove_leaf :: "layout_tree \<Rightarrow> window_id \<Rightarrow> window_id option \<times> layout_tree" where
  "try_remove_leaf (Leaf l) i = (None, Leaf l)"
| "try_remove_leaf (Split d r fx a b lr) i =
     (if is_leaf_of a i then (Some (first_leaf b), b)
      else if is_leaf_of b i then (Some (last_leaf a), a)
      else if contains a i then
        (case try_remove_leaf a i of (foc, a') \<Rightarrow> (foc, Split d r fx a' b lr))
      else if contains b i then
        (case try_remove_leaf b i of (foc, b') \<Rightarrow> (foc, Split d r fx a b' lr))
      else (None, Split d r fx a b lr))"

datatype layout_error = E444_cannot_close_last_window

fun is_leaf :: "layout_tree \<Rightarrow> bool" where
  "is_leaf (Leaf _) = True"
| "is_leaf (Split _ _ _ _ _ _) = False"

definition remove_leaf :: "layout_tree \<Rightarrow> window_id \<Rightarrow> (layout_error + window_id) \<times> layout_tree" where
  "remove_leaf t i =
     (if is_leaf t then (Inl E444_cannot_close_last_window, t)
      else
        (case try_remove_leaf t i of
           (Some foc, t') \<Rightarrow> (Inr foc, t')
         | (None, t') \<Rightarrow> (Inl E444_cannot_close_last_window, t')))"

section \<open>Geometry\<close>

record split_geo =
  geo_a :: layout_rect
  geo_b :: layout_rect
  geo_separator :: "layout_rect option"

definition first_child_cells :: "u16 \<Rightarrow> f32 \<Rightarrow> fixed option \<Rightarrow> u16" where
  "first_child_cells len ratio fx =
     (case fx of
        Some (First n) \<Rightarrow> saturating_add16 n 1
      | Some (Second n) \<Rightarrow> saturating_sub16 len n
      | None \<Rightarrow> f32_round_as_u16 (f32_mul (f32_of_u16 len) ratio))"

definition split_geometry ::
    "layout_rect \<Rightarrow> split_dir \<Rightarrow> f32 \<Rightarrow> fixed option \<Rightarrow> split_geo" where
  "split_geometry area dir ratio fx =
     (case split_dir_axis dir of
        AxisRow \<Rightarrow>
          if rect_h area = 0 then
            (let empty = rect_new (rect_x area) (rect_y area) (rect_w area) 0
             in \<lparr>geo_a = empty, geo_b = empty, geo_separator = None\<rparr>)
          else
            (let a_h0 = first_child_cells (rect_h area) ratio fx;
                 a_h = clamp16 a_h0 1 (max (saturating_sub16 (rect_h area) 1) 1);
                 b_h = saturating_sub16 (rect_h area) a_h;
                 rect_a = rect_new (rect_x area) (rect_y area) (rect_w area) a_h;
                 rect_b = rect_new (rect_x area) (rect_y area + a_h) (rect_w area) b_h
             in if rect_h rect_a \<ge> 2 \<and> rect_h rect_b > 0 then
                  (let rect_a' = rect_a\<lparr>rect_h := rect_h rect_a - 1\<rparr>
                   in \<lparr>geo_a = rect_a', geo_b = rect_b,
                       geo_separator =
                         Some (rect_new (rect_x rect_a') (rect_y rect_a' + rect_h rect_a')
                                 (rect_w rect_a') 1)\<rparr>)
                else \<lparr>geo_a = rect_a, geo_b = rect_b, geo_separator = None\<rparr>)
      | AxisCol \<Rightarrow>
          if rect_w area = 0 then
            (let empty = rect_new (rect_x area) (rect_y area) 0 (rect_h area)
             in \<lparr>geo_a = empty, geo_b = empty, geo_separator = None\<rparr>)
          else
            (let a_w0 = first_child_cells (rect_w area) ratio fx;
                 a_w = clamp16 a_w0 1 (max (saturating_sub16 (rect_w area) 1) 1);
                 b_w = saturating_sub16 (rect_w area) a_w;
                 rect_a = rect_new (rect_x area) (rect_y area) a_w (rect_h area);
                 rect_b = rect_new (rect_x area + a_w) (rect_y area) b_w (rect_h area)
             in if rect_w rect_a \<ge> 2 \<and> rect_w rect_b > 0 then
                  (let rect_a' = rect_a\<lparr>rect_w := rect_w rect_a - 1\<rparr>
                   in \<lparr>geo_a = rect_a', geo_b = rect_b,
                       geo_separator =
                         Some (rect_new (rect_x rect_a' + rect_w rect_a') (rect_y rect_a')
                                 1 (rect_h rect_a'))\<rparr>)
                else \<lparr>geo_a = rect_a, geo_b = rect_b, geo_separator = None\<rparr>))"

fun collect_rects ::
    "layout_tree \<Rightarrow> layout_rect \<Rightarrow> (window_id \<times> layout_rect) list \<Rightarrow> (window_id \<times> layout_rect) list" where
  "collect_rects (Leaf i) area out = out @ [(i, area)]"
| "collect_rects (Split dir ratio fx a b _) area out =
     (let geo = split_geometry area dir ratio fx
      in collect_rects b (geo_b geo) (collect_rects a (geo_a geo) out))"

definition window_rects :: "layout_tree \<Rightarrow> layout_rect \<Rightarrow> (window_id \<times> layout_rect) list" where
  "window_rects t area = collect_rects t area []"

section \<open>Leaves: lemmas\<close>

lemma collect_leaves_acc: "collect_leaves t out = out @ leaves t"
proof -
  have "collect_leaves t (out @ xs) = out @ collect_leaves t xs" for xs
    by (induction t arbitrary: xs) simp_all
  from this [of "[]"] show ?thesis by (simp add: leaves_def)
qed

lemma leaves_simps [simp]:
  "leaves (Leaf i) = [i]"
  "leaves (Split d r fx a b lr) = leaves a @ leaves b"
  by (simp_all add: leaves_def collect_leaves_acc [of b "collect_leaves a []"])

lemma contains_iff [simp]: "contains t i \<longleftrightarrow> i \<in> set (leaves t)"
  by (induction t) auto

lemma leaves_nonempty [simp]: "leaves t \<noteq> []"
  by (induction t) auto

lemma first_leaf_hd [simp]: "first_leaf t = hd (leaves t)"
  by (induction t) auto

lemma last_leaf_last [simp]: "last_leaf t = last (leaves t)"
  by (induction t) auto

lemma is_leaf_of_iff: "is_leaf_of t i \<longleftrightarrow> t = Leaf i"
  by (cases t) auto

lemma is_leaf_iff: "is_leaf t \<longleftrightarrow> (\<exists>i. t = Leaf i)"
  by (cases t) auto

lemma contains_pinned_iff [simp]: "contains_pinned t ps \<longleftrightarrow> set (leaves t) \<inter> set ps \<noteq> {}"
  by (induction t) auto

lemma retains_any_iff [simp]:
  "retains_any t keep ps \<longleftrightarrow> (\<exists>i\<in>set (leaves t). i = keep \<or> i \<in> set ps)"
  by (induction t) auto

section \<open>Geometry: lemmas\<close>

definition rect_fits :: "layout_rect \<Rightarrow> bool" where
  "rect_fits r \<longleftrightarrow>
     unat (rect_x r) + unat (rect_w r) < 65536 \<and> unat (rect_y r) + unat (rect_h r) < 65536"

text \<open>The cells of the terminal that a rectangle covers, as (column, row) pairs.\<close>

definition rect_cells :: "layout_rect \<Rightarrow> (nat \<times> nat) set" where
  "rect_cells r =
     {unat (rect_x r)..<unat (rect_x r) + unat (rect_w r)} \<times>
     {unat (rect_y r)..<unat (rect_y r) + unat (rect_h r)}"

fun separator_cells :: "layout_rect option \<Rightarrow> (nat \<times> nat) set" where
  "separator_cells None = {}"
| "separator_cells (Some r) = rect_cells r"

lemma rect_new_simps [simp]:
  "rect_x (rect_new x y w h) = x" "rect_y (rect_new x y w h) = y"
  "rect_w (rect_new x y w h) = w" "rect_h (rect_new x y w h) = h"
  by (simp_all add: rect_new_def)

text \<open>The number of cells the first child is allotted, after the clamp.\<close>

definition first_alloc :: "u16 \<Rightarrow> f32 \<Rightarrow> fixed option \<Rightarrow> u16" where
  "first_alloc len ratio fx =
     clamp16 (first_child_cells len ratio fx) 1 (max (saturating_sub16 len 1) 1)"

lemma first_alloc_bounds:
  assumes "len \<noteq> 0"
  shows "1 \<le> unat (first_alloc len ratio fx)"
    and "unat (first_alloc len ratio fx) \<le> unat len"
    and "2 \<le> unat len \<Longrightarrow> unat (first_alloc len ratio fx) < unat len"
proof -
  have pos: "0 < unat len" using assms by (simp add: unat_gt_0)
  have hi: "unat (max (saturating_sub16 len 1) 1) = max (unat len - 1) 1"
    by (simp add: max_def word_le_nat_alt)
  show "1 \<le> unat (first_alloc len ratio fx)"
    by (auto simp: first_alloc_def unat_clamp16 hi)
  show "unat (first_alloc len ratio fx) \<le> unat len"
    using pos by (auto simp: first_alloc_def unat_clamp16 hi)
  show "2 \<le> unat len \<Longrightarrow> unat (first_alloc len ratio fx) < unat len"
    by (auto simp: first_alloc_def unat_clamp16 hi)
qed

definition has_separator :: "u16 \<Rightarrow> u16 \<Rightarrow> bool" where
  "has_separator len alloc \<longleftrightarrow> 2 \<le> unat alloc \<and> unat alloc < unat len"

lemma split_geometry_row:
  fixes ratio fx
  assumes h: "rect_h area \<noteq> 0"
  defines "n \<equiv> first_alloc (rect_h area) ratio fx"
  shows "split_geometry area Horizontal ratio fx =
    (if has_separator (rect_h area) n then
       \<lparr>geo_a = rect_new (rect_x area) (rect_y area) (rect_w area) (n - 1),
        geo_b = rect_new (rect_x area) (rect_y area + n) (rect_w area) (rect_h area - n),
        geo_separator = Some (rect_new (rect_x area) (rect_y area + n - 1) (rect_w area) 1)\<rparr>
     else
       \<lparr>geo_a = rect_new (rect_x area) (rect_y area) (rect_w area) n,
        geo_b = rect_new (rect_x area) (rect_y area + n) (rect_w area) (rect_h area - n),
        geo_separator = None\<rparr>)"
proof -
  have le: "unat n \<le> unat (rect_h area)"
    unfolding n_def by (rule first_alloc_bounds(2) [OF h])
  then have b: "saturating_sub16 (rect_h area) n = rect_h area - n"
    by (simp add: saturating_sub16_def word_less_nat_alt)
  have sep: "2 \<le> n \<and> 0 < rect_h area - n \<longleftrightarrow> has_separator (rect_h area) n"
    using le by (auto simp: has_separator_def word_le_nat_alt word_less_nat_alt unat_sub)
  show ?thesis
    using h unfolding split_geometry_def
    by (simp add: Let_def n_def [unfolded first_alloc_def, symmetric] b sep rect_new_def algebra_simps)
qed

lemma split_geometry_col:
  fixes ratio fx
  assumes w: "rect_w area \<noteq> 0"
  defines "n \<equiv> first_alloc (rect_w area) ratio fx"
  shows "split_geometry area Vertical ratio fx =
    (if has_separator (rect_w area) n then
       \<lparr>geo_a = rect_new (rect_x area) (rect_y area) (n - 1) (rect_h area),
        geo_b = rect_new (rect_x area + n) (rect_y area) (rect_w area - n) (rect_h area),
        geo_separator = Some (rect_new (rect_x area + n - 1) (rect_y area) 1 (rect_h area))\<rparr>
     else
       \<lparr>geo_a = rect_new (rect_x area) (rect_y area) n (rect_h area),
        geo_b = rect_new (rect_x area + n) (rect_y area) (rect_w area - n) (rect_h area),
        geo_separator = None\<rparr>)"
proof -
  have le: "unat n \<le> unat (rect_w area)"
    unfolding n_def by (rule first_alloc_bounds(2) [OF w])
  then have b: "saturating_sub16 (rect_w area) n = rect_w area - n"
    by (simp add: saturating_sub16_def word_less_nat_alt)
  have sep: "2 \<le> n \<and> 0 < rect_w area - n \<longleftrightarrow> has_separator (rect_w area) n"
    using le by (auto simp: has_separator_def word_le_nat_alt word_less_nat_alt unat_sub)
  show ?thesis
    using w unfolding split_geometry_def
    by (simp add: Let_def n_def [unfolded first_alloc_def, symmetric] b sep rect_new_def algebra_simps)
qed

definition rect_within :: "layout_rect \<Rightarrow> layout_rect \<Rightarrow> bool" where
  "rect_within r area \<longleftrightarrow>
     unat (rect_x area) \<le> unat (rect_x r) \<and>
     unat (rect_x r) + unat (rect_w r) \<le> unat (rect_x area) + unat (rect_w area) \<and>
     unat (rect_y area) \<le> unat (rect_y r) \<and>
     unat (rect_y r) + unat (rect_h r) \<le> unat (rect_y area) + unat (rect_h area)"

lemma rect_within_refl [simp]: "rect_within r r"
  by (simp add: rect_within_def)

lemma rect_within_trans: "rect_within r s \<Longrightarrow> rect_within s u \<Longrightarrow> rect_within r u"
  by (auto simp: rect_within_def)

lemma rect_within_cells: "rect_within r s \<Longrightarrow> rect_cells r \<subseteq> rect_cells s"
  by (auto simp: rect_within_def rect_cells_def)

lemma rect_within_fits: "rect_within r s \<Longrightarrow> rect_fits s \<Longrightarrow> rect_fits r"
  by (auto simp: rect_within_def rect_fits_def)

text \<open>How two rectangles lie when the second is reached from the first in a direction.\<close>

fun rect_beyond :: "nav_dir \<Rightarrow> layout_rect \<Rightarrow> layout_rect \<Rightarrow> bool" where
  "rect_beyond NavBelow r r' = (unat (rect_y r) + unat (rect_h r) \<le> unat (rect_y r'))"
| "rect_beyond NavAbove r r' = (unat (rect_y r') + unat (rect_h r') \<le> unat (rect_y r))"
| "rect_beyond NavRight r r' = (unat (rect_x r) + unat (rect_w r) \<le> unat (rect_x r'))"
| "rect_beyond NavLeft r r' = (unat (rect_x r') + unat (rect_w r') \<le> unat (rect_x r))"

text \<open>
  Offsets inside one extent: \<open>pos\<close> and \<open>len\<close> are the start and the size of the parent
  along the split axis, \<open>n\<close> is the first child's allotment.
\<close>

lemma extent_offsets:
  fixes ratio fx
  assumes fit: "unat (pos :: u16) + unat len < 65536" and len: "len \<noteq> 0"
  defines "n \<equiv> first_alloc len ratio fx"
  shows "unat (pos + n) = unat pos + unat n"
    and "unat (len - n) = unat len - unat n"
    and "unat (n - 1) = unat n - 1"
    and "unat (pos + n - 1) = unat pos + unat n - 1"
    and "1 \<le> unat n" and "unat n \<le> unat len"
proof -
  have le: "unat n \<le> unat len" and ge: "1 \<le> unat n"
    unfolding n_def using first_alloc_bounds [OF len] by blast+
  then show "1 \<le> unat n" and "unat n \<le> unat len" by blast+
  show sum: "unat (pos + n) = unat pos + unat n"
    using le fit by (simp add: unat_add16)
  show "unat (len - n) = unat len - unat n"
    using le by (simp add: unat_sub word_le_nat_alt)
  show "unat (n - 1) = unat n - 1"
    using ge by (simp add: unat_sub word_le_nat_alt)
  have "1 \<le> pos + n"
    using sum ge by (simp add: word_le_nat_alt)
  then show "unat (pos + n - 1) = unat pos + unat n - 1"
    using sum by (simp add: unat_sub)
qed

lemma geo_within:
  assumes "rect_fits area"
  shows "rect_within (geo_a (split_geometry area dir ratio fx)) area"
    and "rect_within (geo_b (split_geometry area dir ratio fx)) area"
proof -
  let ?g = "split_geometry area dir ratio fx"
  have "rect_within (geo_a ?g) area \<and> rect_within (geo_b ?g) area"
  proof (cases dir)
    case Horizontal
    show ?thesis
    proof (cases "rect_h area = 0")
      case True
      then show ?thesis
        by (simp add: Horizontal split_geometry_def rect_within_def Let_def)
    next
      case False
      note off = extent_offsets [OF _ False, of "rect_y area" ratio fx]
      have "unat (rect_y area) + unat (rect_h area) < 65536"
        using assms by (simp add: rect_fits_def)
      note off = off [OF this]
      show ?thesis
        unfolding Horizontal split_geometry_row [OF False] rect_within_def
        using off(5,6) by (auto simp: off(1-4))
    qed
  next
    case Vertical
    show ?thesis
    proof (cases "rect_w area = 0")
      case True
      then show ?thesis
        by (simp add: Vertical split_geometry_def rect_within_def Let_def)
    next
      case False
      note off = extent_offsets [OF _ False, of "rect_x area" ratio fx]
      have "unat (rect_x area) + unat (rect_w area) < 65536"
        using assms by (simp add: rect_fits_def)
      note off = off [OF this]
      show ?thesis
        unfolding Vertical split_geometry_col [OF False] rect_within_def
        using off(5,6) by (auto simp: off(1-4))
    qed
  qed
  then show "rect_within (geo_a ?g) area" and "rect_within (geo_b ?g) area" by blast+
qed

lemma geo_order:
  fixes dir ratio fx
  assumes "rect_fits area"
  defines "g \<equiv> split_geometry area dir ratio fx"
  shows "dir = Horizontal \<Longrightarrow> unat (rect_y (geo_a g)) + unat (rect_h (geo_a g)) \<le> unat (rect_y (geo_b g))"
    and "dir = Vertical \<Longrightarrow> unat (rect_x (geo_a g)) + unat (rect_w (geo_a g)) \<le> unat (rect_x (geo_b g))"
proof -
  assume d: "dir = Horizontal"
  show "unat (rect_y (geo_a g)) + unat (rect_h (geo_a g)) \<le> unat (rect_y (geo_b g))"
  proof (cases "rect_h area = 0")
    case True
    then show ?thesis by (simp add: d g_def split_geometry_def Let_def)
  next
    case False
    have "unat (rect_y area) + unat (rect_h area) < 65536"
      using assms(1) by (simp add: rect_fits_def)
    note off = extent_offsets [OF this False, of ratio fx]
    show ?thesis
      unfolding d g_def split_geometry_row [OF False] using off(5,6) by (auto simp: off(1-4))
  qed
next
  assume d: "dir = Vertical"
  show "unat (rect_x (geo_a g)) + unat (rect_w (geo_a g)) \<le> unat (rect_x (geo_b g))"
  proof (cases "rect_w area = 0")
    case True
    then show ?thesis by (simp add: d g_def split_geometry_def Let_def)
  next
    case False
    have "unat (rect_x area) + unat (rect_w area) < 65536"
      using assms(1) by (simp add: rect_fits_def)
    note off = extent_offsets [OF this False, of ratio fx]
    show ?thesis
      unfolding d g_def split_geometry_col [OF False] using off(5,6) by (auto simp: off(1-4))
  qed
qed

section \<open>Window rectangles: lemmas\<close>

lemma collect_rects_acc: "collect_rects t area out = out @ window_rects t area"
proof -
  have "collect_rects t area (out @ xs) = out @ collect_rects t area xs" for xs
    by (induction t arbitrary: area xs) (simp_all add: Let_def)
  from this [of "[]"] show ?thesis by (simp add: window_rects_def)
qed

lemma window_rects_simps [simp]:
  "window_rects (Leaf i) area = [(i, area)]"
  "window_rects (Split dir ratio fx a b lr) area =
     window_rects a (geo_a (split_geometry area dir ratio fx)) @
     window_rects b (geo_b (split_geometry area dir ratio fx))"
  by (simp_all add: window_rects_def Let_def
        collect_rects_acc [of b _ "collect_rects a (geo_a (split_geometry area dir ratio fx)) []"])

lemma map_fst_window_rects [simp]: "map fst (window_rects t area) = leaves t"
  by (induction t arbitrary: area) auto

lemma fst_window_rects [simp]: "fst ` set (window_rects t area) = set (leaves t)"
  by (metis list.set_map map_fst_window_rects)

lemma window_rects_within:
  "rect_fits area \<Longrightarrow> (i, r) \<in> set (window_rects t area) \<Longrightarrow> rect_within r area"
proof (induction t arbitrary: area)
  case (Split dir ratio fx a b lr)
  let ?g = "split_geometry area dir ratio fx"
  have w: "rect_within (geo_a ?g) area" "rect_within (geo_b ?g) area"
    using geo_within [OF Split.prems(1)] by blast+
  note f = w [THEN rect_within_fits, OF Split.prems(1)]
  from Split.prems(2) show ?case
    using Split.IH(1) [OF f(1)] Split.IH(2) [OF f(2)] w
    by (auto intro: rect_within_trans)
qed simp

lemma rects_apart:
  assumes "rect_fits area"
    and "(i, r) \<in> set (window_rects a (geo_a (split_geometry area dir ratio fx)))"
    and "(j, r') \<in> set (window_rects b (geo_b (split_geometry area dir ratio fx)))"
  shows "rect_beyond (if dir = Horizontal then NavBelow else NavRight) r r'"
    and "rect_beyond (if dir = Horizontal then NavAbove else NavLeft) r' r"
proof -
  let ?g = "split_geometry area dir ratio fx"
  note w = geo_within [OF assms(1), of dir ratio fx]
  have "rect_within r (geo_a ?g)" and "rect_within r' (geo_b ?g)"
    using window_rects_within [OF rect_within_fits [OF w(1) assms(1)] assms(2)]
      window_rects_within [OF rect_within_fits [OF w(2) assms(1)] assms(3)] by blast+
  then show "rect_beyond (if dir = Horizontal then NavBelow else NavRight) r r'"
    and "rect_beyond (if dir = Horizontal then NavAbove else NavLeft) r' r"
    using geo_order [OF assms(1), of dir ratio fx]
    by (cases dir; auto simp: rect_within_def)+
qed

lemma rect_beyond_disjoint: "rect_beyond d r r' \<Longrightarrow> rect_cells r \<inter> rect_cells r' = {}"
  by (cases d) (auto simp: rect_cells_def)

lemma sorted_wrt_map_of:
  assumes "distinct (map fst ps)" and "sorted_wrt (\<lambda>p q. R (snd p) (snd q)) ps"
    and "i \<noteq> j" and "map_of ps i = Some r" and "map_of ps j = Some r'"
  shows "R r r' \<or> R r' r"
  using assms
proof (induction ps)
  case (Cons p ps)
  have "R r r' \<or> R r' r" if "fst p = i"
    using that Cons.prems by (auto dest!: map_of_SomeD split: if_splits)
  moreover have "R r r' \<or> R r' r" if "fst p = j"
    using that Cons.prems by (auto dest!: map_of_SomeD split: if_splits)
  ultimately show ?case using Cons by (auto split: if_splits)
qed simp

section \<open>Layout properties\<close>

text \<open>
  Splitting a rectangle never loses or doubles a cell of the terminal: for every
  direction, ratio (NaN and infinities included) and fixed size, the cells of the parent
  are exactly those of the first child, the separator strip and the second child, and
  the three are pairwise disjoint.
\<close>

lemma split_geometry_partition:
  assumes "rect_fits area"
  shows "rect_cells area =
      rect_cells (geo_a (split_geometry area dir ratio fx)) \<union>
      separator_cells (geo_separator (split_geometry area dir ratio fx)) \<union>
      rect_cells (geo_b (split_geometry area dir ratio fx))
    \<and> rect_cells (geo_a (split_geometry area dir ratio fx)) \<inter>
      separator_cells (geo_separator (split_geometry area dir ratio fx)) = {}
    \<and> rect_cells (geo_b (split_geometry area dir ratio fx)) \<inter>
      separator_cells (geo_separator (split_geometry area dir ratio fx)) = {}
    \<and> rect_cells (geo_a (split_geometry area dir ratio fx)) \<inter>
      rect_cells (geo_b (split_geometry area dir ratio fx)) = {}"
proof (cases dir)
  case Horizontal
  show ?thesis
  proof (cases "rect_h area = 0")
    case True
    then show ?thesis by (simp add: Horizontal split_geometry_def Let_def rect_cells_def)
  next
    case False
    have "unat (rect_y area) + unat (rect_h area) < 65536"
      using assms by (simp add: rect_fits_def)
    note off = extent_offsets [OF this False, of ratio fx]
    show ?thesis
      unfolding Horizontal split_geometry_row [OF False] using off(5,6)
      by (auto simp: off(1-4) rect_cells_def)
  qed
next
  case Vertical
  show ?thesis
  proof (cases "rect_w area = 0")
    case True
    then show ?thesis by (simp add: Vertical split_geometry_def Let_def rect_cells_def)
  next
    case False
    have "unat (rect_x area) + unat (rect_w area) < 65536"
      using assms by (simp add: rect_fits_def)
    note off = extent_offsets [OF this False, of ratio fx]
    show ?thesis
      unfolding Vertical split_geometry_col [OF False] using off(5,6)
      by (auto simp: off(1-4) rect_cells_def)
  qed
qed

text \<open>
  C32: The rectangles that \<open>window_rects\<close> computes cover the tree's leaves in order, stay
  inside the area, and no two of them share a cell.
\<close>

theorem window_rects_tile:
  assumes "rect_fits area"
  shows "map fst (window_rects t area) = leaves t
    \<and> list_all (\<lambda>p. rect_fits (snd p) \<and> rect_cells (snd p) \<subseteq> rect_cells area) (window_rects t area)
    \<and> sorted_wrt (\<lambda>p q. rect_cells (snd p) \<inter> rect_cells (snd q) = {}) (window_rects t area)"
proof (intro conjI)
  show "list_all (\<lambda>p. rect_fits (snd p) \<and> rect_cells (snd p) \<subseteq> rect_cells area) (window_rects t area)"
    using window_rects_within [OF assms]
    by (force simp: list_all_iff dest: rect_within_cells rect_within_fits [OF _ assms])
  show "sorted_wrt (\<lambda>p q. rect_cells (snd p) \<inter> rect_cells (snd q) = {}) (window_rects t area)"
    using assms
  proof (induction t arbitrary: area)
    case (Split dir ratio fx a b lr)
    note f = geo_within [OF Split.prems, THEN rect_within_fits, OF Split.prems]
    let ?g = "split_geometry area dir ratio fx"
    have "rect_cells (snd p) \<inter> rect_cells (snd q) = {}"
      if "p \<in> set (window_rects a (geo_a ?g))" "q \<in> set (window_rects b (geo_b ?g))" for p q
      using rects_apart(1) [OF Split.prems, THEN rect_beyond_disjoint] that
      by (metis prod.collapse)
    then show ?case
      using Split.IH(1) [OF f(1)] Split.IH(2) [OF f(2)] by (simp add: sorted_wrt_append)
  qed simp
qed simp

theorem window_rects_tile_witness:
  "rect_fits (rect_new 0 0 80 24) \<and>
   map fst (window_rects (split_new Vertical f32_half (Leaf 0)
     (split_new Horizontal f32_half (Leaf 1) (Leaf 2))) (rect_new 0 0 80 24)) = [0, 1, 2]"
proof -
  have "rect_fits (rect_new 0 0 80 24)" by (simp add: rect_fits_def)
  then show ?thesis
    using window_rects_tile [of "rect_new 0 0 80 24" "split_new Vertical f32_half (Leaf 0)
     (split_new Horizontal f32_half (Leaf 1) (Leaf 2))"]
    by (simp add: split_new_def)
qed

text \<open>The extent of a rectangle along the axis that a split divides.\<close>

definition rect_extent :: "split_dir \<Rightarrow> layout_rect \<Rightarrow> u16" where
  "rect_extent dir r = (case dir of Horizontal \<Rightarrow> rect_h r | Vertical \<Rightarrow> rect_w r)"

lemma first_alloc_fixed:
  assumes "1 \<le> unat n" and "unat n + 2 \<le> unat len"
  shows "first_alloc len ratio (Some (First n)) = n + 1"
    and "first_alloc len ratio (Some (Second n)) = len - n"
    and "has_separator len (n + 1)"
proof -
  have lt: "unat len < 65536" by (rule unat_u16_bound)
  have hi: "unat (max (saturating_sub16 len 1) 1) = unat len - 1"
    using assms by (simp add: max_def word_le_nat_alt)
  have n1: "unat (n + 1) = unat n + 1"
    using assms lt by (simp add: unat_add16)
  show "first_alloc len ratio (Some (First n)) = n + 1"
    using assms lt n1
    by (auto simp: word_unat_eq_iff first_alloc_def first_child_cells_def unat_clamp16 hi)
  have "unat (len - n) = unat len - unat n"
    using assms by (simp add: unat_sub word_le_nat_alt)
  then show "first_alloc len ratio (Some (Second n)) = len - n"
    using assms
    by (auto simp: word_unat_eq_iff first_alloc_def first_child_cells_def unat_clamp16 hi)
  show "has_separator len (n + 1)"
    using assms by (simp add: has_separator_def n1)
qed

text \<open>
  A fixed size is rendered exactly: when the parent's extent along the split axis can
  hold the requested cells, the separator and one cell of the sibling, \<open>First n\<close> makes the
  first child and \<open>Second n\<close> the second child exactly \<open>n\<close> cells long, whatever the ratio.
\<close>

lemma split_geometry_fixed_exact:
  assumes "1 \<le> unat n" and "unat n + 2 \<le> unat (rect_extent dir area)"
  shows "rect_extent dir (geo_a (split_geometry area dir ratio (Some (First n)))) = n
    \<and> rect_extent dir (geo_b (split_geometry area dir ratio (Some (Second n)))) = n"
proof (cases dir)
  case Horizontal
  then have len: "unat n + 2 \<le> unat (rect_h area)" and h0: "rect_h area \<noteq> 0"
    using assms by (auto simp: rect_extent_def)
  show ?thesis
    using first_alloc_fixed [OF assms(1) len]
    by (simp add: Horizontal rect_extent_def split_geometry_row [OF h0])
next
  case Vertical
  then have len: "unat n + 2 \<le> unat (rect_w area)" and w0: "rect_w area \<noteq> 0"
    using assms by (auto simp: rect_extent_def)
  show ?thesis
    using first_alloc_fixed [OF assms(1) len]
    by (simp add: Vertical rect_extent_def split_geometry_col [OF w0])
qed

text \<open>Whether a window touches the border of the area that a direction points to.\<close>

fun rect_touches :: "nav_dir \<Rightarrow> layout_rect \<Rightarrow> layout_rect \<Rightarrow> bool" where
  "rect_touches NavBelow r area =
     (unat (rect_y r) + unat (rect_h r) = unat (rect_y area) + unat (rect_h area))"
| "rect_touches NavAbove r area = (rect_y r = rect_y area)"
| "rect_touches NavRight r area =
     (unat (rect_x r) + unat (rect_w r) = unat (rect_x area) + unat (rect_w area))"
| "rect_touches NavLeft r area = (rect_x r = rect_x area)"

fun nav_axis :: "nav_dir \<Rightarrow> split_dir" where
  "nav_axis NavBelow = Horizontal"
| "nav_axis NavAbove = Horizontal"
| "nav_axis NavLeft = Vertical"
| "nav_axis NavRight = Vertical"

fun nav_forward :: "nav_dir \<Rightarrow> bool" where
  "nav_forward NavBelow = True"
| "nav_forward NavAbove = False"
| "nav_forward NavLeft = False"
| "nav_forward NavRight = True"

lemma geo_touches:
  fixes sd ratio fx d
  assumes "rect_fits area"
  defines "g \<equiv> split_geometry area sd ratio fx"
  shows "(sd \<noteq> nav_axis d \<or> \<not> nav_forward d \<longrightarrow> rect_touches d (geo_a g) area) \<and>
         (sd \<noteq> nav_axis d \<or> nav_forward d \<longrightarrow> rect_touches d (geo_b g) area)"
proof (cases sd)
  case Horizontal
  show ?thesis
  proof (cases "rect_h area = 0")
    case True
    then show ?thesis by (cases d) (simp_all add: Horizontal g_def split_geometry_def Let_def)
  next
    case False
    have "unat (rect_y area) + unat (rect_h area) < 65536"
      using assms(1) by (simp add: rect_fits_def)
    note off = extent_offsets [OF this False, of ratio fx]
    show ?thesis
      unfolding Horizontal g_def split_geometry_row [OF False] using off(5,6)
      by (cases d) (simp_all add: off(1-4))
  qed
next
  case Vertical
  show ?thesis
  proof (cases "rect_w area = 0")
    case True
    then show ?thesis by (cases d) (simp_all add: Vertical g_def split_geometry_def Let_def)
  next
    case False
    have "unat (rect_x area) + unat (rect_w area) < 65536"
      using assms(1) by (simp add: rect_fits_def)
    note off = extent_offsets [OF this False, of ratio fx]
    show ?thesis
      unfolding Vertical g_def split_geometry_col [OF False] using off(5,6)
      by (cases d) (simp_all add: off(1-4))
  qed
qed

lemma rect_touches_trans:
  "rect_touches d r s \<Longrightarrow> rect_touches d s area \<Longrightarrow> rect_touches d r area"
  by (cases d) auto

lemma neighbor_direction_Split:
  "neighbor_direction (Split sd ratio fx a b lr) i d =
     (if i \<in> set (leaves a) then
        (if sd = nav_axis d \<and> nav_forward d
         then (case neighbor_direction a i d of Some n \<Rightarrow> Some n | None \<Rightarrow> Some (hd (leaves b)))
         else neighbor_direction a i d)
      else if i \<in> set (leaves b) then
        (if sd = nav_axis d \<and> \<not> nav_forward d
         then (case neighbor_direction b i d of Some n \<Rightarrow> Some n | None \<Rightarrow> Some (last (leaves a)))
         else neighbor_direction b i d)
      else None)"
  by (cases d; cases sd) (simp_all add: Let_def split: option.splits)

lemma window_rects_leaf: "(i, r) \<in> set (window_rects t area) \<Longrightarrow> i \<in> set (leaves t)"
  by (metis fst_conv fst_window_rects image_eqI)

lemma neighbor_leaf: "neighbor_direction t i d = Some n \<Longrightarrow> n \<in> set (leaves t)"
proof (induction t)
  case (Split sd ratio fx a b lr)
  then show ?case
    by (auto simp: neighbor_direction_Split simp del: neighbor_direction.simps
        split: if_splits option.splits)
qed simp

lemma neighbor_beyond:
  assumes "distinct (leaves t)" and "rect_fits area" and "neighbor_direction t i d = Some n"
    and "(i, r) \<in> set (window_rects t area)" and "(n, r') \<in> set (window_rects t area)"
  shows "n \<noteq> i \<and> rect_beyond d r r'"
  using assms
proof (induction t arbitrary: area)
  case (Split sd ratio fx a b lr)
  let ?g = "split_geometry area sd ratio fx"
  note fa = geo_within(1) [OF Split.prems(2), THEN rect_within_fits, OF Split.prems(2)]
  note fb = geo_within(2) [OF Split.prems(2), THEN rect_within_fits, OF Split.prems(2)]
  have da: "distinct (leaves a)" and db: "distinct (leaves b)"
    and disj: "set (leaves a) \<inter> set (leaves b) = {}"
    using Split.prems(1) by auto
  have in_a: "(j, q) \<in> set (window_rects a (geo_a ?g))"
    if "j \<in> set (leaves a)" "(j, q) \<in> set (window_rects (Split sd ratio fx a b lr) area)" for j q
    using that disj by (auto dest: window_rects_leaf)
  have in_b: "(j, q) \<in> set (window_rects b (geo_b ?g))"
    if "j \<in> set (leaves b)" "(j, q) \<in> set (window_rects (Split sd ratio fx a b lr) area)" for j q
    using that disj by (auto dest: window_rects_leaf)
  have nb: "neighbor_direction (Split sd ratio fx a b lr) i d = Some n" by (rule Split.prems(3))
  show ?case
  proof (cases "i \<in> set (leaves a)")
    case True
    note ia = in_a [OF True Split.prems(4)]
    show ?thesis
    proof (cases "neighbor_direction a i d")
      case (Some m)
      with nb True have "m = n"
        by (auto simp: neighbor_direction_Split simp del: neighbor_direction.simps split: if_splits)
      with Some have "neighbor_direction a i d = Some n" by simp
      from Split.IH(1) [OF da fa this ia in_a [OF neighbor_leaf [OF this] Split.prems(5)]]
      show ?thesis .
    next
      case None
      with nb True have n: "n = hd (leaves b)" and ax: "sd = nav_axis d" "nav_forward d"
        by (auto simp: neighbor_direction_Split simp del: neighbor_direction.simps split: if_splits)
      from n have "n \<in> set (leaves b)" by simp
      with rects_apart(1) [OF Split.prems(2) ia in_b [OF _ Split.prems(5)]] True disj ax
      show ?thesis by (cases d) auto
    qed
  next
    case False
    with nb have ib0: "i \<in> set (leaves b)"
      by (auto simp: neighbor_direction_Split simp del: neighbor_direction.simps split: if_splits)
    note ib = in_b [OF ib0 Split.prems(4)]
    show ?thesis
    proof (cases "neighbor_direction b i d")
      case (Some m)
      with nb False ib0 have "m = n"
        by (auto simp: neighbor_direction_Split simp del: neighbor_direction.simps split: if_splits)
      with Some have "neighbor_direction b i d = Some n" by simp
      from Split.IH(2) [OF db fb this ib in_b [OF neighbor_leaf [OF this] Split.prems(5)]]
      show ?thesis .
    next
      case None
      with nb False ib0 have n: "n = last (leaves a)" and ax: "sd = nav_axis d" "\<not> nav_forward d"
        by (auto simp: neighbor_direction_Split simp del: neighbor_direction.simps split: if_splits)
      from n have "n \<in> set (leaves a)" by simp
      with rects_apart(2) [OF Split.prems(2) in_a [OF _ Split.prems(5)] ib] ib0 disj ax
      show ?thesis by (cases d) auto
    qed
  qed
qed simp

lemma neighbor_none_touches:
  assumes "distinct (leaves t)" and "rect_fits area" and "neighbor_direction t i d = None"
    and "(i, r) \<in> set (window_rects t area)"
  shows "rect_touches d r area"
  using assms
proof (induction t arbitrary: area)
  case (Leaf j)
  then show ?case by (cases d) auto
next
  case (Split sd ratio fx a b lr)
  let ?g = "split_geometry area sd ratio fx"
  note fa = geo_within(1) [OF Split.prems(2), THEN rect_within_fits, OF Split.prems(2)]
  note fb = geo_within(2) [OF Split.prems(2), THEN rect_within_fits, OF Split.prems(2)]
  note touch = geo_touches [OF Split.prems(2), of sd d ratio fx]
  from Split.prems(4) consider (a) "(i, r) \<in> set (window_rects a (geo_a ?g))"
    | (b) "(i, r) \<in> set (window_rects b (geo_b ?g))" by auto
  then show ?case
  proof cases
    case a
    then have i: "i \<in> set (leaves a)" by (rule window_rects_leaf)
    with Split.prems(3) have none: "neighbor_direction a i d = None"
      and ax: "sd \<noteq> nav_axis d \<or> \<not> nav_forward d"
      by (auto simp: neighbor_direction_Split simp del: neighbor_direction.simps
          split: if_splits option.splits)
    have "rect_touches d r (geo_a ?g)"
      using Split.IH(1) [OF _ fa none a] Split.prems(1) by simp
    then show ?thesis using touch ax by (blast intro: rect_touches_trans)
  next
    case b
    then have i: "i \<in> set (leaves b)" by (rule window_rects_leaf)
    then have "i \<notin> set (leaves a)" using Split.prems(1) by auto
    with i Split.prems(3) have none: "neighbor_direction b i d = None"
      and ax: "sd \<noteq> nav_axis d \<or> nav_forward d"
      by (auto simp: neighbor_direction_Split simp del: neighbor_direction.simps
          split: if_splits option.splits)
    have "rect_touches d r (geo_b ?g)"
      using Split.IH(2) [OF _ fb none b] Split.prems(1) by simp
    then show ?thesis using touch ax by (blast intro: rect_touches_trans)
  qed
qed

text \<open>
  Directional navigation is geometrically sound and complete: the neighbour found in a
  direction is another window of the tree, drawn entirely beyond the current one in that
  direction, and when there is none the current window touches the area's border there.
\<close>

lemma neighbor_direction_geometry:
  assumes "distinct (leaves t)" and "rect_fits area" and "(i, r) \<in> set (window_rects t area)"
  shows "case neighbor_direction t i d of
      Some n \<Rightarrow> \<exists>r'. map_of (window_rects t area) n = Some r' \<and> n \<noteq> i \<and> rect_beyond d r r'
    | None \<Rightarrow> rect_touches d r area"
proof (cases "neighbor_direction t i d")
  case None
  with neighbor_none_touches [OF assms(1,2) None assms(3)] show ?thesis by simp
next
  case (Some n)
  then have "n \<in> fst ` set (window_rects t area)" by (simp add: neighbor_leaf)
  then obtain r' where r': "map_of (window_rects t area) n = Some r'"
    by (metis map_of_eq_None_iff not_None_eq)
  with neighbor_beyond [OF assms(1,2) Some assms(3) map_of_SomeD [OF r']] Some
  show ?thesis by simp
qed

lemma try_remove_leaf_some:
  assumes "i \<in> set (leaves t)" and "t \<noteq> Leaf i"
  shows "\<exists>foc t' us vs. try_remove_leaf t i = (Some foc, t') \<and> leaves t = us @ i # vs \<and>
           leaves t' = us @ vs \<and> (vs \<noteq> [] \<and> foc = hd vs \<or> us \<noteq> [] \<and> foc = last us)"
  using assms
proof (induction t)
  case (Split d r fx a b lr)
  show ?case
  proof (cases "a = Leaf i \<or> b = Leaf i")
    case True
    then show ?thesis
      by (cases "a = Leaf i") (force simp: is_leaf_of_iff)+
  next
    case False
    show ?thesis
    proof (cases "i \<in> set (leaves a)")
      case True
      with Split.IH(1) False obtain foc a' us vs where
        "try_remove_leaf a i = (Some foc, a')" "leaves a = us @ i # vs" "leaves a' = us @ vs"
        "vs \<noteq> [] \<and> foc = hd vs \<or> us \<noteq> [] \<and> foc = last us" by blast
      with False True show ?thesis
        by (intro exI [of _ foc] exI [of _ "Split d r fx a' b lr"] exI [of _ us]
              exI [of _ "vs @ leaves b"]) (auto simp: is_leaf_of_iff)
    next
      case na: False
      with Split.prems have "i \<in> set (leaves b)" by simp
      with Split.IH(2) False obtain foc b' us vs where
        "try_remove_leaf b i = (Some foc, b')" "leaves b = us @ i # vs" "leaves b' = us @ vs"
        "vs \<noteq> [] \<and> foc = hd vs \<or> us \<noteq> [] \<and> foc = last us" by blast
      with False na \<open>i \<in> set (leaves b)\<close> show ?thesis
        by (intro exI [of _ foc] exI [of _ "Split d r fx a b' lr"] exI [of _ "leaves a @ us"]
              exI [of _ vs]) (auto simp: is_leaf_of_iff)
    qed
  qed
qed simp

lemma try_remove_leaf_none:
  "i \<notin> set (leaves t) \<Longrightarrow> try_remove_leaf t i = (None, t)"
  by (cases t) (auto simp: is_leaf_of_iff)

text \<open>
  C36: Closing a window removes exactly that leaf and keeps the order of the others, and the
  focus goes to a window that was next to it; closing fails, and changes nothing, exactly
  when the window is the only one or is not in the tree.
\<close>

theorem remove_leaf_correct:
  "case remove_leaf t i of
     (Inr foc, t') \<Rightarrow>
       \<exists>us vs. leaves t = us @ i # vs \<and> leaves t' = us @ vs \<and>
               (vs \<noteq> [] \<and> foc = hd vs \<or> us \<noteq> [] \<and> foc = last us)
   | (Inl e, t') \<Rightarrow> t' = t \<and> (length (leaves t) = 1 \<or> i \<notin> set (leaves t))"
proof (cases "is_leaf t \<or> i \<notin> set (leaves t)")
  case True
  then show ?thesis
    by (auto simp: remove_leaf_def is_leaf_iff try_remove_leaf_none)
next
  case False
  then have "i \<in> set (leaves t)" and "t \<noteq> Leaf i" by (auto simp: is_leaf_iff)
  from try_remove_leaf_some [OF this] obtain foc t' us vs where
    "try_remove_leaf t i = (Some foc, t')" "leaves t = us @ i # vs" "leaves t' = us @ vs"
    "vs \<noteq> [] \<and> foc = hd vs \<or> us \<noteq> [] \<and> foc = last us" by blast
  moreover from this False have R: "remove_leaf t i = (Inr foc, t')" by (simp add: remove_leaf_def)
  ultimately show ?thesis
    unfolding R case_prod_conv sum.case by blast
qed

theorem remove_leaf_correct_witness:
  "\<exists>us vs. leaves (split_new Vertical f32_half (Leaf 1) (split_new Horizontal f32_half (Leaf 2) (Leaf 3)))
       = us @ 1 # vs \<and>
     leaves (snd (remove_leaf (split_new Vertical f32_half (Leaf 1)
       (split_new Horizontal f32_half (Leaf 2) (Leaf 3))) 1)) = us @ vs"
  using remove_leaf_correct [of "split_new Vertical f32_half (Leaf 1)
       (split_new Horizontal f32_half (Leaf 2) (Leaf 3))" 1]
  by (auto simp: remove_leaf_def split_new_def)

lemma prune_to_leaves:
  assumes "retains_any t keep pinned"
  shows "leaves (fst (prune_to t keep pinned removed)) =
           filter (\<lambda>i. i = keep \<or> i \<in> set pinned) (leaves t) \<and>
         mset (snd (prune_to t keep pinned removed)) =
           mset removed + mset (filter (\<lambda>i. \<not> (i = keep \<or> i \<in> set pinned)) (leaves t))"
  using assms
proof (induction t arbitrary: removed)
  case (Split d r fx a b lr)
  have drop: "filter (\<lambda>i. i = keep \<or> i \<in> set pinned) (leaves c) = []"
      "filter (\<lambda>i. \<not> (i = keep \<or> i \<in> set pinned)) (leaves c) = leaves c"
    if "\<not> retains_any c keep pinned" for c
    using that by (auto simp: filter_empty_conv intro: filter_True)
  show ?case
  proof (cases "retains_any a keep pinned"; cases "retains_any b keep pinned")
    assume ab: "retains_any a keep pinned" "retains_any b keep pinned"
    show ?thesis
      using ab Split.IH(1) [OF ab(1), of removed]
        Split.IH(2) [OF ab(2), of "snd (prune_to a keep pinned removed)"]
      by (simp del: retains_any_iff split: prod.split add: case_prod_beta)
  next
    assume ab: "retains_any a keep pinned" "\<not> retains_any b keep pinned"
    show ?thesis
      using ab Split.IH(1) [OF ab(1), of "collect_leaves b removed"] drop [OF ab(2)]
      by (simp del: retains_any_iff add: collect_leaves_acc)
  next
    assume ab: "\<not> retains_any a keep pinned" "retains_any b keep pinned"
    show ?thesis
      using ab Split.IH(2) [OF ab(2), of "collect_leaves a removed"] drop [OF ab(1)]
      by (simp del: retains_any_iff add: collect_leaves_acc)
  next
    assume "\<not> retains_any a keep pinned" "\<not> retains_any b keep pinned"
    with Split.prems show ?thesis by (auto simp del: retains_any_iff)
  qed
qed auto

text \<open>
  \<open>:only\<close> keeps the window and every pinned window, in their order, and reports each
  removed window exactly once; a window that is not in the tree leaves everything alone.
\<close>

lemma only_correct:
  "(if keep \<in> set (leaves t)
    then leaves (fst (only t keep pinned)) = filter (\<lambda>i. i = keep \<or> i \<in> set pinned) (leaves t)
      \<and> mset (snd (only t keep pinned)) =
          mset (filter (\<lambda>i. i \<noteq> keep \<and> i \<notin> set pinned) (leaves t))
    else only t keep pinned = (t, []))"
proof (cases "keep \<in> set (leaves t)")
  case True
  then have "retains_any t keep pinned" by auto
  from prune_to_leaves [OF this, of "[]"] True show ?thesis
    by (simp add: only_def del: retains_any_iff)
qed (simp add: only_def)

lemma mod_Suc_inverse:
  assumes "i < n" and "j < (n :: nat)"
  shows "(i + 1) mod n = j \<longleftrightarrow> (j + n - 1) mod n = i"
proof -
  have A: "(i + 1) mod n = (if i + 1 = n then 0 else i + 1)" using assms(1) by simp
  have B: "(j + n - 1) mod n = (if j = 0 then n - 1 else j - 1)"
  proof (cases "j = 0")
    case False
    then have "j + n - 1 = (j - 1) + n" by simp
    then have "(j + n - 1) mod n = (j - 1) mod n" by (simp only: mod_add_self2)
    with False assms(2) show ?thesis by (simp only: mod_less if_False less_imp_diff_less)
  next
    case True
    then show ?thesis using assms(2) by simp
  qed
  show ?thesis unfolding A B using assms by presburger
qed

text \<open>
  Cycling forwards and backwards through the windows are inverse to each other: in a
  tree without repeated ids, \<open>j\<close> is the next leaf after \<open>i\<close> iff \<open>i\<close> is the previous leaf
  before \<open>j\<close>.
\<close>

lemma next_prev_leaf:
  assumes "distinct (leaves t)"
  shows "next_leaf t i = Some j \<longleftrightarrow> prev_leaf t j = Some i"
proof -
  let ?ls = "leaves t" let ?n = "length ?ls"
  have n0: "0 < ?n" by simp
  have "next_leaf t i = Some j \<longleftrightarrow>
      (\<exists>p. position (\<lambda>l. l = i) ?ls = Some p \<and> ?ls ! ((p + 1) mod ?n) = j)"
    by (simp add: next_leaf_def split: option.split)
  then have N: "next_leaf t i = Some j \<longleftrightarrow>
      (\<exists>p q. p < ?n \<and> q < ?n \<and> ?ls ! p = i \<and> ?ls ! q = j \<and> (p + 1) mod ?n = q)"
    unfolding position_nth_iff [OF assms] using mod_less_divisor [OF n0] by blast
  have "prev_leaf t j = Some i \<longleftrightarrow>
      (\<exists>q. position (\<lambda>l. l = j) ?ls = Some q \<and> ?ls ! ((q + ?n - 1) mod ?n) = i)"
    by (simp add: prev_leaf_def Let_def split: option.split)
  then have P: "prev_leaf t j = Some i \<longleftrightarrow>
      (\<exists>p q. p < ?n \<and> q < ?n \<and> ?ls ! p = i \<and> ?ls ! q = j \<and> (q + ?n - 1) mod ?n = p)"
    unfolding position_nth_iff [OF assms] using mod_less_divisor [OF n0] by blast
  show ?thesis unfolding N P using mod_Suc_inverse by blast
qed

lemma swap_inner_mset:
  "mset (leaves (snd (swap_with_sibling_inner t i pinned))) = mset (leaves t)"
  by (induction t) (auto simp: case_prod_beta ac_simps)

lemma swap_inner_set [simp]:
  "set (leaves (snd (swap_with_sibling_inner t i pinned))) = set (leaves t)"
  using swap_inner_mset by (rule mset_eq_setD)

lemma swap_inner_is_leaf_of [simp]:
  "is_leaf_of (snd (swap_with_sibling_inner t i pinned)) j = is_leaf_of t j"
  by (cases t) (auto simp: case_prod_beta)

lemma swap_inner_involutive:
  "fst (swap_with_sibling_inner t i pinned) \<Longrightarrow>
   swap_with_sibling_inner (snd (swap_with_sibling_inner t i pinned)) i pinned = (True, t)"
proof (induction t)
  case (Split d r fx a b lr)
  show ?case
  proof (cases "is_leaf_of a i \<or> is_leaf_of b i")
    case True
    with Split.prems show ?thesis by (auto simp: is_leaf_of_iff split: if_splits)
  next
    case False
    with Split show ?thesis
      by (cases "i \<in> set (leaves a)") (auto simp: case_prod_beta split: if_splits)
  qed
qed simp

text \<open>
  Exchanging a window with its sibling loses no window and is its own inverse; a pinned
  window is never moved.
\<close>

lemma swap_with_sibling_involutive:
  "case swap_with_sibling t i pinned of
     (True, t') \<Rightarrow> swap_with_sibling t' i pinned = (True, t) \<and>
                   mset (leaves t') = mset (leaves t) \<and> i \<notin> set pinned
   | (False, t') \<Rightarrow> mset (leaves t') = mset (leaves t)"
proof (cases "i \<in> set pinned")
  case True
  then show ?thesis by (simp add: swap_with_sibling_def)
next
  case False
  then show ?thesis
    using swap_inner_mset [of t i pinned] swap_inner_involutive [of t i pinned]
    by (cases "swap_with_sibling_inner t i pinned")
      (auto simp: swap_with_sibling_def split: bool.split)
qed

lemma enclosing_split_sound:
  assumes "enclosing_split_mut t i dir = Some (p, rect, side)"
  shows "\<exists>r a b. subtree_at t p = Some (Split dir r None a b rect) \<and>
           side = (i \<in> set (leaves a)) \<and> (i \<in> set (leaves a) \<or> i \<in> set (leaves b)) \<and>
           enclosing_split_mut (if side then a else b) i dir = None"
  using assms
proof (induction t arbitrary: p)
  case (Split d r fx a b lr)
  let ?sub = "if i \<in> set (leaves a) then a else b"
  have mem: "i \<in> set (leaves a) \<or> i \<in> set (leaves b)"
    using Split.prems by (auto simp: Let_def split: if_splits)
  show ?case
  proof (cases "enclosing_split_mut ?sub i dir")
    case None
    then have "d = dir \<and> fx = None \<and> p = [] \<and> rect = lr \<and> side = (i \<in> set (leaves a))"
      using Split.prems mem by (auto simp: Let_def split: if_splits)
    with None mem show ?thesis by auto
  next
    case (Some q)
    obtain p' where "p = (i \<in> set (leaves a)) # p'"
      and sub: "enclosing_split_mut ?sub i dir = Some (p', rect, side)"
      using Split.prems mem Some by (cases q) (auto simp: Let_def split: if_splits)
    then show ?thesis
      using Split.IH by (cases "i \<in> set (leaves a)") auto
  qed
qed simp

lemma leaves_write_ratio [simp]: "leaves (write_ratio t p r) = leaves t"
  by (induction t p r rule: write_ratio.induct) auto

lemma write_ratio_frame:
  assumes "subtree_at t p = Some u" and "(j, q) \<in> set (window_rects t area)"
    and "j \<notin> set (leaves u)"
  shows "(j, q) \<in> set (window_rects (write_ratio t p r) area)"
  using assms
proof (induction t p r arbitrary: area rule: write_ratio.induct)
  case (1 i p r)
  then show ?case by simp
next
  case (2 d r0 fx a b lr r)
  then show ?case by (auto dest: window_rects_leaf)
next
  case (3 d r0 fx a b lr s p r)
  then show ?case by (cases s) auto
qed

text \<open>
  A resize command finds the innermost split around the window along its axis that is
  not of fixed size, and writing that split's ratio keeps every window and moves none
  outside that split.
\<close>

lemma resize_frame:
  assumes "enclosing_split_mut t i dir = Some (p, rect, side)"
  shows "\<exists>r a b. subtree_at t p = Some (Split dir r None a b rect)
     \<and> i \<in> set (leaves (if side then a else b))
     \<and> enclosing_split_mut (if side then a else b) i dir = None
     \<and> leaves (write_ratio t p r') = leaves t
     \<and> set (filter (\<lambda>w. fst w \<notin> set (leaves a @ leaves b)) (window_rects t area)) \<subseteq>
         set (window_rects (write_ratio t p r') area)"
proof -
  from enclosing_split_sound [OF assms] obtain r a b where
    sub: "subtree_at t p = Some (Split dir r None a b rect)" and
    side: "side = (i \<in> set (leaves a))" "i \<in> set (leaves a) \<or> i \<in> set (leaves b)" and
    inner: "enclosing_split_mut (if side then a else b) i dir = None" by blast
  have "w \<in> set (window_rects (write_ratio t p r') area)"
    if "w \<in> set (window_rects t area)" "fst w \<notin> set (leaves a @ leaves b)" for w
    using write_ratio_frame [OF sub, of "fst w" "snd w" area r'] that by simp
  with sub side inner show ?thesis by auto
qed

section \<open>Ancestors and equalising: lemmas\<close>

lemma leaves_equalize_all [simp]: "leaves (equalize_all t pinned) = leaves t"
  by (induction t) (auto simp: Let_def)

lemma is_pinned_leaf_equalize [simp]:
  "is_pinned_leaf (equalize_all t ps) qs = is_pinned_leaf t qs"
  by (cases t) (auto simp: Let_def)

lemma equalize_all_idem: "equalize_all (equalize_all t ps) ps = equalize_all t ps"
  by (induction t) (auto simp: Let_def)

text \<open>A callback that keeps every ratio leaves the tree unchanged.\<close>

lemma for_each_ancestor_leaves:
  "leaves (fst (for_each_ancestor t i f s)) = leaves t"
  by (induction t arbitrary: s) (auto simp: Let_def case_prod_beta)

end
