(* ===== verification/Chord.thy ===== *)
theory Chord
  imports Prelude
begin

text \<open>
  Key events (\<open>crates/hjkl-keymap/src/key.rs\<close>) and the vim notation for chords
  (\<open>chord.rs\<close>): the parser with its three errors, the printer, and the round trip
  between them.  \<open>KeyModifiers\<close> is the \<open>u8\<close> bit set of the source.
\<close>

unbundle bit_operations_syntax

section \<open>Key events\<close>

datatype key_code =
    KChar rchar | KEnter | KEsc | KTab | KBackspace | KDelete | KInsert | KUp | KDown
  | KLeft | KRight | KHome | KEnd | KPageUp | KPageDown | KF nat

type_synonym key_modifiers = u8

definition MOD_NONE :: key_modifiers where "MOD_NONE = 0"
definition MOD_SHIFT :: key_modifiers where "MOD_SHIFT = push_bit 0 1"
definition MOD_CTRL :: key_modifiers where "MOD_CTRL = push_bit 1 1"
definition MOD_ALT :: key_modifiers where "MOD_ALT = push_bit 2 1"

lemma mod_simps [simp]: "MOD_NONE = 0" "MOD_SHIFT = 1" "MOD_CTRL = 2" "MOD_ALT = 4"
  by (simp_all add: MOD_NONE_def MOD_SHIFT_def MOD_CTRL_def MOD_ALT_def push_bit_eq_mult)

definition mod_contains :: "key_modifiers \<Rightarrow> key_modifiers \<Rightarrow> bool" where
  "mod_contains m x \<longleftrightarrow> m AND x = x"

datatype key_event = KeyEvent (key_code: key_code) (key_mods: key_modifiers)

definition key_char :: "rchar \<Rightarrow> key_event" where
  "key_char c = KeyEvent (KChar c) MOD_NONE"

definition key_ctrl :: "rchar \<Rightarrow> key_event" where
  "key_ctrl c = KeyEvent (KChar c) MOD_CTRL"

type_synonym chord = "key_event list"

section \<open>String functions the parser calls\<close>

definition ascii_lower :: "rchar \<Rightarrow> rchar" where
  "ascii_lower c = (if 65 \<le> c \<and> c \<le> 90 then c + 32 else c)"

definition ascii_upper :: "rchar \<Rightarrow> rchar" where
  "ascii_upper c = (if 97 \<le> c \<and> c \<le> 122 then c - 32 else c)"

text \<open>\<open>str::split\<close> on a single char: always at least one part.\<close>

fun split_on :: "rchar \<Rightarrow> rstring \<Rightarrow> rstring list" where
  "split_on d [] = [[]]"
| "split_on d (c # cs) =
     (if c = d then [] # split_on d cs
      else (case split_on d cs of [] \<Rightarrow> [[c]] | p # ps \<Rightarrow> (c # p) # ps))"

fun join_with :: "rchar \<Rightarrow> rstring list \<Rightarrow> rstring" where
  "join_with d [] = []"
| "join_with d [p] = p"
| "join_with d (p # q # ps) = p @ d # join_with d (q # ps)"

definition is_digit :: "rchar \<Rightarrow> bool" where
  "is_digit c \<longleftrightarrow> 48 \<le> c \<and> c \<le> 57"

fun dec_value :: "rstring \<Rightarrow> nat \<Rightarrow> nat" where
  "dec_value [] acc = acc"
| "dec_value (c # cs) acc = dec_value cs (10 * acc + (c - 48))"

text \<open>\<open>str::parse::<u8>\<close>: an optional plus sign, then digits, at most 255.\<close>

definition parse_u8 :: "rstring \<Rightarrow> nat option" where
  "parse_u8 s =
     (let ds = (case s of c # cs \<Rightarrow> if c = ch CHR ''+'' then cs else s | [] \<Rightarrow> [])
      in if ds = [] \<or> \<not> list_all is_digit ds then None
         else if dec_value ds 0 \<le> 255 then Some (dec_value ds 0) else None)"

definition strip_prefix_char :: "rchar \<Rightarrow> rstring \<Rightarrow> rstring option" where
  "strip_prefix_char c s = (case s of d # ds \<Rightarrow> if d = c then Some ds else None | [] \<Rightarrow> None)"

text \<open>The decimal digits \<open>format!\<close> prints for a \<open>u8\<close>.\<close>

fun dec_digits :: "nat \<Rightarrow> rstring" where
  "dec_digits n = (if n < 10 then [48 + n] else dec_digits (n div 10) @ [48 + n mod 10])"

declare dec_digits.simps [simp del]

section \<open>Parsing\<close>

datatype chord_parse_error =
    UnclosedAngle rstring
  | UnknownSpecial rstring
  | BadModifierTarget rstring

definition parse_f_key :: "rstring \<Rightarrow> nat option" where
  "parse_f_key lower =
     (case strip_prefix_char (ch CHR ''f'') lower of
        None \<Rightarrow> None
      | Some rest \<Rightarrow>
          (case parse_u8 rest of
             None \<Rightarrow> None
           | Some n \<Rightarrow> if 1 \<le> n \<and> n \<le> 12 then Some n else None))"

definition parse_key_name :: "rstring \<Rightarrow> rstring \<Rightarrow> chord_parse_error + key_code" where
  "parse_key_name name original_tag =
     (let lower = map ascii_lower name in
      if lower = str ''space'' then Inr (KChar (ch CHR '' ''))
      else if lower = str ''lt'' then Inr (KChar (ch CHR ''<''))
      else if lower = str ''gt'' then Inr (KChar (ch CHR ''>''))
      else if lower = str ''cr'' \<or> lower = str ''enter'' \<or> lower = str ''return'' then Inr KEnter
      else if lower = str ''esc'' \<or> lower = str ''escape'' then Inr KEsc
      else if lower = str ''tab'' then Inr KTab
      else if lower = str ''bs'' \<or> lower = str ''backspace'' then Inr KBackspace
      else if lower = str ''del'' \<or> lower = str ''delete'' then Inr KDelete
      else if lower = str ''insert'' \<or> lower = str ''ins'' then Inr KInsert
      else if lower = str ''up'' then Inr KUp
      else if lower = str ''down'' then Inr KDown
      else if lower = str ''left'' then Inr KLeft
      else if lower = str ''right'' then Inr KRight
      else if lower = str ''home'' then Inr KHome
      else if lower = str ''end'' then Inr KEnd
      else if lower = str ''pageup'' then Inr KPageUp
      else if lower = str ''pagedown'' then Inr KPageDown
      else
        (case parse_f_key lower of
           Some n \<Rightarrow> Inr (KF n)
         | None \<Rightarrow>
             (case name of
                [c] \<Rightarrow> Inr (KChar c)
              | _ \<Rightarrow> Inl (BadModifierTarget original_tag))))"

text \<open>The \<open>while parts.len() > 1\<close> loop that consumes the leading modifiers.\<close>

fun consume_modifiers :: "rstring list \<Rightarrow> key_modifiers \<Rightarrow> rstring list \<times> key_modifiers" where
  "consume_modifiers (p # q # ps) m =
     (let up = map ascii_upper p in
      if up = str ''C'' then consume_modifiers (q # ps) (m OR MOD_CTRL)
      else if up = str ''S'' then consume_modifiers (q # ps) (m OR MOD_SHIFT)
      else if up = str ''A'' \<or> up = str ''M'' then consume_modifiers (q # ps) (m OR MOD_ALT)
      else (p # q # ps, m))"
| "consume_modifiers ps m = (ps, m)"

definition parse_modifier_tag :: "rstring \<Rightarrow> chord_parse_error + key_event" where
  "parse_modifier_tag tag =
     (let parts = split_on (ch CHR ''-'') tag in
      if parts = [] then Inl (UnknownSpecial tag)
      else
        (case consume_modifiers parts MOD_NONE of
           (parts', modifiers) \<Rightarrow>
             if modifiers = 0 then Inl (UnknownSpecial tag)
             else
               (let key_name = join_with (ch CHR ''-'') parts' in
                case parse_key_name key_name tag of
                  Inl e \<Rightarrow> Inl e
                | Inr code \<Rightarrow> Inr (KeyEvent code modifiers))))"

definition parse_angle_tag :: "rstring \<Rightarrow> rchar \<Rightarrow> chord_parse_error + key_event" where
  "parse_angle_tag tag leader =
     (let lower = map ascii_lower tag in
      if lower = str ''leader'' then Inr (KeyEvent (KChar leader) MOD_NONE)
      else if lower = str ''space'' then Inr (KeyEvent (KChar (ch CHR '' '')) MOD_NONE)
      else if lower = str ''lt'' then Inr (KeyEvent (KChar (ch CHR ''<'')) MOD_NONE)
      else if lower = str ''gt'' then Inr (KeyEvent (KChar (ch CHR ''>'')) MOD_NONE)
      else if lower = str ''cr'' \<or> lower = str ''enter'' \<or> lower = str ''return''
        then Inr (KeyEvent KEnter MOD_NONE)
      else if lower = str ''esc'' \<or> lower = str ''escape'' then Inr (KeyEvent KEsc MOD_NONE)
      else if lower = str ''tab'' then Inr (KeyEvent KTab MOD_NONE)
      else if lower = str ''bs'' \<or> lower = str ''backspace'' then Inr (KeyEvent KBackspace MOD_NONE)
      else if lower = str ''del'' \<or> lower = str ''delete'' then Inr (KeyEvent KDelete MOD_NONE)
      else if lower = str ''insert'' \<or> lower = str ''ins'' then Inr (KeyEvent KInsert MOD_NONE)
      else if lower = str ''up'' then Inr (KeyEvent KUp MOD_NONE)
      else if lower = str ''down'' then Inr (KeyEvent KDown MOD_NONE)
      else if lower = str ''left'' then Inr (KeyEvent KLeft MOD_NONE)
      else if lower = str ''right'' then Inr (KeyEvent KRight MOD_NONE)
      else if lower = str ''home'' then Inr (KeyEvent KHome MOD_NONE)
      else if lower = str ''end'' then Inr (KeyEvent KEnd MOD_NONE)
      else if lower = str ''pageup'' then Inr (KeyEvent KPageUp MOD_NONE)
      else if lower = str ''pagedown'' then Inr (KeyEvent KPageDown MOD_NONE)
      else
        (case parse_f_key lower of
           Some n \<Rightarrow> Inr (KeyEvent (KF n) MOD_NONE)
         | None \<Rightarrow> parse_modifier_tag tag))"

text \<open>The inner \<open>for next in chars.by_ref()\<close>: the tag, whether it closed, the rest.\<close>

fun take_tag :: "rstring \<Rightarrow> rstring \<Rightarrow> rstring \<times> bool \<times> rstring" where
  "take_tag tag [] = (tag, False, [])"
| "take_tag tag (c # cs) =
     (if c = ch CHR ''>'' then (tag, True, cs) else take_tag (tag @ [c]) cs)"

lemma take_tag_length: "length (snd (snd (take_tag tag cs))) \<le> length cs"
  by (induction tag cs rule: take_tag.induct) auto

lemma take_tag_rest: "(tag', closed, rest) = take_tag tag cs \<Longrightarrow> length rest \<le> length cs"
  using take_tag_length [of tag cs] by (metis snd_conv)

function chord_parse_from :: "key_event list \<Rightarrow> rstring \<Rightarrow> rchar \<Rightarrow> chord_parse_error + chord" where
  "chord_parse_from events [] leader = Inr events"
| "chord_parse_from events (c # cs) leader =
     (if c = ch CHR ''<'' then
        (case take_tag [] cs of
           (tag, closed, rest) \<Rightarrow>
             if \<not> closed then Inl (UnclosedAngle (ch CHR ''<'' # tag))
             else
               (case parse_angle_tag tag leader of
                  Inl e \<Rightarrow> Inl e
                | Inr ev \<Rightarrow> chord_parse_from (events @ [ev]) rest leader))
      else chord_parse_from (events @ [KeyEvent (KChar c) MOD_NONE]) cs leader)"
  by pat_completeness auto
termination
  by (relation "measure (\<lambda>(_, cs, _). length cs)") (auto dest!: take_tag_rest)

definition chord_parse :: "rstring \<Rightarrow> rchar \<Rightarrow> chord_parse_error + chord" where
  "chord_parse s leader = chord_parse_from [] s leader"

section \<open>Printing\<close>

fun key_str :: "key_code \<Rightarrow> rstring" where
  "key_str (KChar c) =
     (if c = ch CHR '' '' then str ''Space''
      else if c = ch CHR ''<'' then str ''lt''
      else if c = ch CHR ''>'' then str ''gt''
      else [c])"
| "key_str KEnter = str ''CR''"
| "key_str KEsc = str ''Esc''"
| "key_str KTab = str ''Tab''"
| "key_str KBackspace = str ''BS''"
| "key_str KDelete = str ''Del''"
| "key_str KInsert = str ''Insert''"
| "key_str KUp = str ''Up''"
| "key_str KDown = str ''Down''"
| "key_str KLeft = str ''Left''"
| "key_str KRight = str ''Right''"
| "key_str KHome = str ''Home''"
| "key_str KEnd = str ''End''"
| "key_str KPageUp = str ''PageUp''"
| "key_str KPageDown = str ''PageDown''"
| "key_str (KF n) = ch CHR ''F'' # dec_digits n"

definition event_to_notation :: "key_event \<Rightarrow> rchar \<Rightarrow> rstring" where
  "event_to_notation ev leader =
     (if key_mods ev = MOD_NONE \<and> key_code ev = KChar leader then str ''<leader>''
      else
        (let has_ctrl = mod_contains (key_mods ev) MOD_CTRL;
             has_shift = mod_contains (key_mods ev) MOD_SHIFT;
             has_alt = mod_contains (key_mods ev) MOD_ALT;
             has_any_mod = (has_ctrl \<or> has_shift \<or> has_alt);
             ks = key_str (key_code ev)
         in if \<not> has_any_mod then
              (case key_code ev of
                 KChar c \<Rightarrow>
                   if c = ch CHR '' '' then str ''<Space>''
                   else if c = ch CHR ''<'' then str ''<lt>''
                   else [c]
               | _ \<Rightarrow> str ''<'' @ ks @ str ''>'')
            else
              str ''<'' @
              (if has_ctrl then str ''C-'' else []) @
              (if has_shift then str ''S-'' else []) @
              (if has_alt then str ''A-'' else []) @ ks @ str ''>''))"

definition chord_to_notation :: "key_event list \<Rightarrow> rchar \<Rightarrow> rstring" where
  "chord_to_notation keys leader = concat (map (\<lambda>ev. event_to_notation ev leader) keys)"

section \<open>Chord notation: lemmas\<close>

text \<open>The key events that have a notation: the function keys the parser knows, and no
  modifier bit beyond the three of the source.\<close>

fun key_code_ok :: "key_code \<Rightarrow> bool" where
  "key_code_ok (KF n) = (1 \<le> n \<and> n \<le> 12)"
| "key_code_ok _ = True"

definition key_event_ok :: "key_event \<Rightarrow> bool" where
  "key_event_ok ev \<longleftrightarrow> key_code_ok (key_code ev) \<and> unat (key_mods ev) < 8"

lemma take_tag_closed:
  "ch CHR ''>'' \<notin> set tag \<Longrightarrow> take_tag acc (tag @ ch CHR ''>'' # rest) = (acc @ tag, True, rest)"
  by (induction tag arbitrary: acc) auto

lemma split_on_nonempty [simp]: "split_on d s \<noteq> []"
  by (induction s) (auto split: list.split)

lemma split_on_id: "d \<notin> set s \<Longrightarrow> split_on d s = [s]"
  by (induction s) auto

lemma join_split [simp]: "join_with d (split_on d s) = s"
proof (induction s)
  case (Cons c s)
  then show ?case
    by (cases "split_on d s"; cases "tl (split_on d s)") auto
qed simp

lemma consume_split:
  "consume_modifiers ([x] # split_on d s) m =
     (if ascii_upper x = ch CHR ''C'' then consume_modifiers (split_on d s) (m OR MOD_CTRL)
      else if ascii_upper x = ch CHR ''S'' then consume_modifiers (split_on d s) (m OR MOD_SHIFT)
      else if ascii_upper x = ch CHR ''A'' \<or> ascii_upper x = ch CHR ''M''
        then consume_modifiers (split_on d s) (m OR MOD_ALT)
      else ([x] # split_on d s, m))"
  using split_on_nonempty [of d s] by (cases "split_on d s") simp_all

lemma f_key_cases:
  assumes "1 \<le> n" and "n \<le> (12 :: nat)"
  obtains (one_digit) "n = 1" | "n = 2" | "n = 3" | "n = 4" | "n = 5" | "n = 6" | "n = 7"
      | "n = 8" | "n = 9"
    | (two_digits) "n = 10" | "n = 11" | "n = 12"
proof -
  have "n \<in> set [1..<13]"
    using assms by simp
  then show ?thesis using that by (auto simp: upt_rec)
qed

lemma parse_f_key_digits:
  assumes "1 \<le> n" and "n \<le> 12"
  shows "parse_f_key (ch CHR ''f'' # map ascii_lower (dec_digits n)) = Some n"
  using assms
  by (cases rule: f_key_cases)
    (simp_all add: parse_f_key_def strip_prefix_char_def parse_u8_def is_digit_def
      dec_digits.simps ascii_lower_def)

lemma parse_f_key_other:
  "c \<noteq> ch CHR ''f'' \<Longrightarrow> parse_f_key (c # cs) = None"
  "parse_f_key [c] = None"
  by (auto simp: parse_f_key_def strip_prefix_char_def parse_u8_def)

lemma dec_digits_range: "c \<in> set (dec_digits n) \<Longrightarrow> 48 \<le> c \<and> c \<le> 57"
  by (induction n rule: dec_digits.induct) (subst (asm) (2) dec_digits.simps, auto split: if_splits)

lemma key_str_no_gt: "ch CHR ''>'' \<notin> set (key_str c)"
  by (cases c) (auto dest: dec_digits_range)

lemma key_str_split: "\<exists>p ps. split_on (ch CHR ''-'') (key_str c) = p # ps \<and>
   (ps = [] \<or> p = []) \<and> join_with (ch CHR ''-'') (p # ps) = key_str c"
proof (cases "ch CHR ''-'' \<in> set (key_str c)")
  case True
  then have "key_str c = [ch CHR ''-'']"
    by (cases c) (auto dest: dec_digits_range split: if_splits)
  then show ?thesis by simp
next
  case False
  then show ?thesis using split_on_id [OF False] by simp
qed

lemma consume_key_str:
  "\<exists>parts. consume_modifiers (split_on (ch CHR ''-'') (key_str c)) m = (parts, m) \<and>
     join_with (ch CHR ''-'') parts = key_str c"
proof -
  obtain p ps where s: "split_on (ch CHR ''-'') (key_str c) = p # ps"
    and p: "ps = [] \<or> p = []" and j: "join_with (ch CHR ''-'') (p # ps) = key_str c"
    using key_str_split [of c] by blast
  have "consume_modifiers (p # ps) m = (p # ps, m)"
    using p by (cases ps) auto
  with s j show ?thesis by auto
qed

lemma lower_key_str_F: "map ascii_lower (key_str (KF n)) = ch CHR ''f'' # map ascii_lower (dec_digits n)"
  by (simp add: ascii_lower_def)

lemma lower_digits: "map ascii_lower (dec_digits n) = dec_digits n"
  by (auto simp: map_idI ascii_lower_def dest: dec_digits_range intro!: map_idI)

lemma parse_key_name_str:
  assumes "key_code_ok c"
  shows "parse_key_name (key_str c) tag = Inr c"
proof (cases c)
  case (KChar x)
  then show ?thesis
    by (simp add: parse_key_name_def parse_f_key_other ascii_lower_def Let_def)
next
  case (KF n)
  with assms have n: "1 \<le> n" "n \<le> 12" by auto
  then show ?thesis
    unfolding KF using parse_f_key_digits [OF n]
    by (cases rule: f_key_cases)
      (simp_all add: parse_key_name_def Let_def ascii_lower_def dec_digits.simps)
qed (simp_all add: parse_key_name_def ascii_lower_def Let_def)

lemma parse_angle_tag_plain:
  assumes "key_code_ok c" and "\<And>x. c = KChar x \<Longrightarrow> x = ch CHR '' '' \<or> x = ch CHR ''<''"
  shows "parse_angle_tag (key_str c) leader = Inr (KeyEvent c 0)"
proof (cases c)
  case (KChar x)
  with assms(2) show ?thesis by (auto simp: parse_angle_tag_def ascii_lower_def Let_def)
next
  case (KF n)
  with assms have n: "1 \<le> n" "n \<le> 12" by auto
  then show ?thesis
    unfolding KF using parse_f_key_digits [OF n]
    by (cases rule: f_key_cases)
      (simp_all add: parse_angle_tag_def Let_def ascii_lower_def dec_digits.simps)
qed (simp_all add: parse_angle_tag_def ascii_lower_def Let_def)

text \<open>The modifier prefix that the printer writes.\<close>

definition mod_prefix :: "key_modifiers \<Rightarrow> rstring" where
  "mod_prefix m =
     (if mod_contains m MOD_CTRL then str ''C-'' else []) @
     (if mod_contains m MOD_SHIFT then str ''S-'' else []) @
     (if mod_contains m MOD_ALT then str ''A-'' else [])"

lemma mods_cases:
  assumes "unat (m :: key_modifiers) < 8"
  obtains "m = 0" | "m = 1" | "m = 2" | "m = 3" | "m = 4" | "m = 5" | "m = 6" | "m = 7"
proof -
  have "unat m \<in> set [0..<8]"
    using assms by simp
  then have "m \<in> {0, 1, 2, 3, 4, 5, 6, 7}"
    by (auto simp: word_unat_eq_iff upt_rec)
  then show ?thesis using that by blast
qed

lemma consume_mod_prefix:
  assumes "unat m < 8"
  shows "consume_modifiers (split_on (ch CHR ''-'') (mod_prefix m @ s)) 0 =
    consume_modifiers (split_on (ch CHR ''-'') s) m"
  using assms
  by (cases rule: mods_cases)
    (simp_all add: mod_prefix_def mod_contains_def consume_split ascii_upper_def)

lemma mod_prefix_head:
  assumes "unat m < 8" and "m \<noteq> 0"
  shows "\<exists>x p. mod_prefix m = x # ch CHR ''-'' # p \<and>
    (x = ch CHR ''C'' \<or> x = ch CHR ''S'' \<or> x = ch CHR ''A'')"
  using assms
  by (cases rule: mods_cases) (simp_all add: mod_prefix_def mod_contains_def)

lemma parse_angle_tag_mod:
  assumes "unat m < 8" and "m \<noteq> 0" and "key_code_ok c"
  shows "parse_angle_tag (mod_prefix m @ key_str c) leader = Inr (KeyEvent c m)"
proof -
  obtain x p where pre: "mod_prefix m = x # ch CHR ''-'' # p"
    and x: "x = ch CHR ''C'' \<or> x = ch CHR ''S'' \<or> x = ch CHR ''A''"
    using mod_prefix_head [OF assms(1,2)] by blast
  have "parse_angle_tag (mod_prefix m @ key_str c) leader =
      parse_modifier_tag (mod_prefix m @ key_str c)"
    unfolding pre using x
    by (auto simp: parse_angle_tag_def Let_def ascii_lower_def parse_f_key_other)
  also have "\<dots> = Inr (KeyEvent c m)"
    using consume_key_str [of c m] assms parse_key_name_str [OF assms(3)]
    by (auto simp: parse_modifier_tag_def Let_def consume_mod_prefix [simplified])
  finally show ?thesis .
qed

lemma event_to_notation_cases:
  assumes "unat (key_mods ev) < 8"
  shows "event_to_notation ev leader =
    (if key_mods ev = 0 \<and> key_code ev = KChar leader then str ''<leader>''
     else if key_mods ev = 0 \<and> (\<exists>x. key_code ev = KChar x \<and> x \<noteq> ch CHR '' '' \<and> x \<noteq> ch CHR ''<'')
       then (case key_code ev of KChar x \<Rightarrow> [x] | _ \<Rightarrow> [])
     else ch CHR ''<'' # mod_prefix (key_mods ev) @ key_str (key_code ev) @ [ch CHR ''>''])"
  using assms
  by (cases rule: mods_cases)
    (cases "key_code ev"; simp add: event_to_notation_def mod_prefix_def mod_contains_def Let_def)+

lemma mod_prefix_no_gt: "ch CHR ''>'' \<notin> set (mod_prefix m)"
  by (simp add: mod_prefix_def)

lemma parse_tagged:
  assumes "ch CHR ''>'' \<notin> set tag" and "parse_angle_tag tag leader = Inr ev"
  shows "chord_parse_from events (ch CHR ''<'' # tag @ ch CHR ''>'' # rest) leader =
    chord_parse_from (events @ [ev]) rest leader"
  using take_tag_closed [OF assms(1), of "[]" rest] assms(2) by simp

lemma parse_event_notation:
  assumes "key_event_ok ev"
  shows "chord_parse_from events (event_to_notation ev leader @ rest) leader =
    chord_parse_from (events @ [ev]) rest leader"
proof -
  obtain c m where ev: "ev = KeyEvent c m" by (cases ev)
  have ok: "key_code_ok c" "unat m < 8" using assms by (auto simp: key_event_ok_def ev)
  have pr: "event_to_notation ev leader =
    (if m = 0 \<and> c = KChar leader then str ''<leader>''
     else if m = 0 \<and> (\<exists>x. c = KChar x \<and> x \<noteq> ch CHR '' '' \<and> x \<noteq> ch CHR ''<'')
       then (case c of KChar x \<Rightarrow> [x] | _ \<Rightarrow> [])
     else ch CHR ''<'' # mod_prefix m @ key_str c @ [ch CHR ''>''])"
    using event_to_notation_cases [of "KeyEvent c m" leader] ok
    unfolding ev by (simp only: key_event.sel)
  consider (lead) "m = 0 \<and> c = KChar leader"
    | (bare) x where "m = 0" "c = KChar x" "x \<noteq> leader" "x \<noteq> ch CHR '' ''" "x \<noteq> ch CHR ''<''"
    | (plain) "m = 0" "c \<noteq> KChar leader" "\<And>x. c = KChar x \<Longrightarrow> x = ch CHR '' '' \<or> x = ch CHR ''<''"
    | (mods) "m \<noteq> 0" by blast
  then show ?thesis
  proof cases
    case lead
    have "parse_angle_tag (str ''leader'') leader = Inr ev"
      using lead by (simp add: parse_angle_tag_def ascii_lower_def ev)
    from parse_tagged [OF _ this, of events rest] show ?thesis
      unfolding pr using lead by simp
  next
    case bare
    then show ?thesis unfolding pr by (simp add: ev)
  next
    case plain
    have "parse_angle_tag (mod_prefix 0 @ key_str c) leader = Inr ev"
      using parse_angle_tag_plain [OF ok(1) plain(3)] plain(1)
      by (simp add: ev mod_prefix_def mod_contains_def)
    from parse_tagged [OF _ this, of events rest] plain show ?thesis
      unfolding pr using key_str_no_gt [of c] mod_prefix_no_gt by auto
  next
    case mods
    have "parse_angle_tag (mod_prefix m @ key_str c) leader = Inr ev"
      using parse_angle_tag_mod [OF ok(2) mods ok(1)] by (simp add: ev)
    from parse_tagged [OF _ this, of events rest] mods show ?thesis
      unfolding pr using key_str_no_gt [of c] mod_prefix_no_gt by auto
  qed
qed

section \<open>Chord properties\<close>

text \<open>
  C35: The notation round-trips: printing any chord whose keys have a notation and parsing
  it back with the same leader gives the chord again, whatever the leader, including chords
  with the characters that the notation itself uses.
\<close>

theorem chord_notation_roundtrip:
  assumes "list_all key_event_ok c"
  shows "chord_parse (chord_to_notation c leader) leader = Inr c"
proof -
  have "chord_parse_from events (chord_to_notation c leader) leader = Inr (events @ c)" for events
    using assms
    by (induction c arbitrary: events) (simp_all add: chord_to_notation_def parse_event_notation)
  then show ?thesis by (simp add: chord_parse_def)
qed

theorem chord_notation_roundtrip_witness:
  "chord_parse (chord_to_notation
      [KeyEvent (KChar (ch CHR ''<'')) 2, KeyEvent (KF 12) 1, KeyEvent (KChar (ch CHR ''-'')) 6,
       KeyEvent (KChar 32) 0] 32) 32 =
   Inr [KeyEvent (KChar (ch CHR ''<'')) 2, KeyEvent (KF 12) 1, KeyEvent (KChar (ch CHR ''-'')) 6,
       KeyEvent (KChar 32) 0]"
  by (rule chord_notation_roundtrip) (simp add: key_event_ok_def)

lemma take_tag_spec:
  "take_tag acc cs =
     (if ch CHR ''>'' \<in> set cs
      then (acc @ takeWhile (\<lambda>c. c \<noteq> ch CHR ''>'') cs, True, tl (dropWhile (\<lambda>c. c \<noteq> ch CHR ''>'') cs))
      else (acc @ cs, False, []))"
  by (induction cs arbitrary: acc) auto

lemma chord_parse_from_extends:
  "chord_parse_from events s leader = Inr c \<Longrightarrow>
     \<exists>more. c = events @ more \<and> (s \<noteq> [] \<longrightarrow> more \<noteq> []) \<and> length more \<le> length s"
proof (induction events s leader rule: chord_parse_from.induct)
  case (2 events k cs leader)
  show ?case
  proof (cases "k = ch CHR ''<''")
    case True
    obtain tag closed rest where t: "take_tag [] cs = (tag, closed, rest)" by (cases "take_tag [] cs")
    then have len: "length rest \<le> length cs" using take_tag_rest [of tag closed rest "[]" cs] by simp
    from "2.prems" True t have closed: closed by (auto split: if_splits)
    with "2.prems" True t obtain ev where ev: "parse_angle_tag tag leader = Inr ev"
      and r: "chord_parse_from (events @ [ev]) rest leader = Inr c"
      by (cases "parse_angle_tag tag leader") auto
    from "2.IH"(1) [OF True t [symmetric] refl _ ev r] closed obtain more
      where "c = (events @ [ev]) @ more" and "length more \<le> length rest" by auto
    with len show ?thesis by (intro exI [of _ "ev # more"]) simp
  next
    case False
    with "2.IH"(2) "2.prems" obtain more
      where "c = (events @ [KeyEvent (KChar k) MOD_NONE]) @ more" and "length more \<le> length cs"
      by auto
    then show ?thesis by (intro exI [of _ "KeyEvent (KChar k) MOD_NONE # more"]) simp
  qed
qed simp

lemma chord_parse_empty: "chord_parse s leader = Inr [] \<longleftrightarrow> s = []"
  using chord_parse_from_extends [of "[]" s leader "[]"] by (auto simp: chord_parse_def)

text \<open>
  Where parsing fails and where it does not: text without \<open><\<close> always parses, one key
  per char; an opening \<open><\<close> after which no \<open>>\<close> follows is the error \<open>UnclosedAngle\<close> with
  the rest of the text, whatever stands before it without brackets.
\<close>

lemma chord_parse_brackets:
  assumes "ch CHR ''<'' \<notin> set pre" and "ch CHR ''>'' \<notin> set rest"
  shows "chord_parse pre leader = Inr (map key_char pre) \<and>
    chord_parse (pre @ ch CHR ''<'' # rest) leader = Inl (UnclosedAngle (ch CHR ''<'' # rest))"
proof -
  have "chord_parse_from events (pre @ cs) leader =
      chord_parse_from (events @ map key_char pre) cs leader" for events cs
    using assms(1) by (induction pre arbitrary: events) (simp_all add: key_char_def)
  from this [of "[]" "[]"] this [of "[]" "ch CHR ''<'' # rest"] show ?thesis
    using assms(2) by (simp add: chord_parse_def take_tag_spec)
qed

end
