(* ===== verification/Trie.thy ===== *)
theory Trie
  imports Chord "HOL-Library.AList"
begin

text \<open>
  The prefix tree behind the keymap (\<open>crates/hjkl-keymap/src/trie.rs\<close>).  A \<open>HashMap\<close> is an
  association list in an arbitrary order that the code never relies on.  A predicate
  closure reads runtime state, so it is a function of that state, and every operation that
  evaluates predicates takes the state as its last argument.  The locale \<open>chord_map\<close> is
  the contract the keymap needs from a chord store; the trie is its interpretation.
\<close>

section \<open>Nodes and operations\<close>

datatype ('a, 's) binding =
  Binding (action: 'a) (desc: rstring) (recursive: bool) (condition: "('s \<Rightarrow> bool) option")

definition is_active :: "('a, 's) binding \<Rightarrow> 's \<Rightarrow> bool" where
  "is_active b st = (case condition b of None \<Rightarrow> True | Some pred \<Rightarrow> pred st)"

datatype ('a, 's) trie_node =
  TrieNode (node_action: "('a, 's) binding option")
           (node_children: "(key_event \<times> ('a, 's) trie_node) list")

definition trie_default :: "('a, 's) trie_node" where
  "trie_default = TrieNode None []"

fun trie_insert :: "('a, 's) trie_node \<Rightarrow> key_event list \<Rightarrow> ('a, 's) binding \<Rightarrow> ('a, 's) trie_node" where
  "trie_insert (TrieNode act kids) [] b = TrieNode (Some b) kids"
| "trie_insert (TrieNode act kids) (e # es) b =
     (let child = (case map_of kids e of None \<Rightarrow> trie_default | Some c \<Rightarrow> c)
      in TrieNode act (AList.update e (trie_insert child es b) kids))"

fun trie_remove :: "('a, 's) trie_node \<Rightarrow> key_event list \<Rightarrow> bool \<times> ('a, 's) trie_node" where
  "trie_remove (TrieNode act kids) [] = (act \<noteq> None, TrieNode None kids)"
| "trie_remove (TrieNode act kids) (e # es) =
     (case map_of kids e of
        None \<Rightarrow> (False, TrieNode act kids)
      | Some child \<Rightarrow>
          (case trie_remove child es of
             (removed, child') \<Rightarrow>
               if node_action child' = None \<and> node_children child' = []
               then (removed, TrieNode act (AList.delete e kids))
               else (removed, TrieNode act (AList.update e child' kids))))"

fun trie_lookup :: "('a, 's) trie_node \<Rightarrow> key_event list \<Rightarrow> 's \<Rightarrow> ('a, 's) binding option" where
  "trie_lookup (TrieNode act kids) [] st =
     (case act of None \<Rightarrow> None | Some b \<Rightarrow> if is_active b st then Some b else None)"
| "trie_lookup (TrieNode act kids) (e # es) st =
     (case map_of kids e of None \<Rightarrow> None | Some child \<Rightarrow> trie_lookup child es st)"

fun has_prefix :: "('a, 's) trie_node \<Rightarrow> key_event list \<Rightarrow> bool" where
  "has_prefix (TrieNode act kids) [] = (kids \<noteq> [])"
| "has_prefix (TrieNode act kids) (e # es) =
     (case map_of kids e of None \<Rightarrow> False | Some child \<Rightarrow> has_prefix child es)"

fun children_of :: "('a, 's) trie_node \<Rightarrow> key_event list \<Rightarrow> (key_event \<times> ('a, 's) binding) list" where
  "children_of (TrieNode act kids) [] =
     List.map_filter (\<lambda>(k, node). map_option (\<lambda>b. (k, b)) (node_action node)) kids"
| "children_of (TrieNode act kids) (e # es) =
     (case map_of kids e of None \<Rightarrow> [] | Some child \<Rightarrow> children_of child es)"

fun all_children_of ::
    "('a, 's) trie_node \<Rightarrow> key_event list \<Rightarrow> (key_event \<times> ('a, 's) binding option) list" where
  "all_children_of (TrieNode act kids) [] =
     map (\<lambda>(k, node). (k, node_action node))
       (filter (\<lambda>(k, node). node_action node \<noteq> None \<or> node_children node \<noteq> []) kids)"
| "all_children_of (TrieNode act kids) (e # es) =
     (case map_of kids e of None \<Rightarrow> [] | Some child \<Rightarrow> all_children_of child es)"

section \<open>The finite map a trie stands for\<close>

text \<open>The binding stored for a chord, active or not.\<close>

fun stored :: "('a, 's) trie_node \<Rightarrow> key_event list \<Rightarrow> ('a, 's) binding option" where
  "stored (TrieNode act kids) [] = act"
| "stored (TrieNode act kids) (e # es) =
     (case map_of kids e of None \<Rightarrow> None | Some child \<Rightarrow> stored child es)"

text \<open>
  The invariant: one entry per key, and no dead child, that is every child leads to some
  binding.  The root may be empty.
\<close>

fun trie_wf :: "('a, 's) trie_node \<Rightarrow> bool" where
  "trie_wf (TrieNode act kids) =
     (distinct (map fst kids) \<and>
      list_all (\<lambda>kc. (node_action (snd kc) \<noteq> None \<or> node_children (snd kc) \<noteq> []) \<and> trie_wf (snd kc)) kids)"

lemma trie_wf_default [simp]: "trie_wf trie_default"
  by (simp add: trie_default_def)

lemma stored_default [simp]: "stored trie_default es = None"
  by (cases es) (simp_all add: trie_default_def)

lemma trie_wf_child:
  assumes "trie_wf (TrieNode act kids)" and "map_of kids e = Some c"
  shows "trie_wf c" and "node_action c \<noteq> None \<or> node_children c \<noteq> []"
  using assms map_of_SomeD [OF assms(2)] by (auto simp: list_all_iff)

lemma stored_insert:
  "stored (trie_insert t es b) = (stored t)(es \<mapsto> b)"
proof
  show "stored (trie_insert t es b) xs = ((stored t)(es \<mapsto> b)) xs" for xs
  proof (induction t es b arbitrary: xs rule: trie_insert.induct)
    case (1 act kids b)
    then show ?case by (cases xs) auto
  next
    case (2 act kids e es b)
    show ?case
      by (cases xs; cases "map_of kids e")
        (use 2 [OF refl] in \<open>auto simp: Let_def update_conv' split: option.split\<close>)
  qed
qed

lemma insert_not_dead:
  "node_action (trie_insert t es b) \<noteq> None \<or> node_children (trie_insert t es b) \<noteq> []"
proof (cases t)
  case (TrieNode act kids)
  then show ?thesis
    by (cases es) (auto simp: Let_def split: option.split dest!: arg_cong [of _ _ "map fst"])
qed

lemma list_all_update:
  "list_all P kids \<Longrightarrow> P (e, c) \<Longrightarrow> list_all P (AList.update e c kids)"
  by (induction kids) auto

lemma list_all_delete: "list_all P kids \<Longrightarrow> list_all P (AList.delete e kids)"
  by (induction kids) auto

lemma trie_wf_insert: "trie_wf t \<Longrightarrow> trie_wf (trie_insert t es b)"
proof (induction t es b rule: trie_insert.induct)
  case (2 act kids e es b)
  let ?c = "case map_of kids e of None \<Rightarrow> trie_default | Some c \<Rightarrow> c"
  have "trie_wf ?c"
  proof (cases "map_of kids e")
    case (Some c)
    with trie_wf_child(1) [OF "2.prems" Some] show ?thesis by simp
  qed simp
  then have wf: "trie_wf (trie_insert ?c es b)" by (rule "2.IH" [OF refl])
  show ?case
    using "2.prems" wf insert_not_dead [of ?c es b]
    by (simp add: Let_def list_all_update distinct_update del: not_None_eq)
qed simp

lemma map_of_delete: "map_of (AList.delete e kids) = (map_of kids)(e := None)"
  by (rule delete_conv')

lemma stored_dead:
  "node_action t = None \<Longrightarrow> node_children t = [] \<Longrightarrow> stored t es = None"
  by (cases t; cases es) auto

lemma stored_remove:
  "stored (snd (trie_remove t es)) = (stored t)(es := None) \<and>
   fst (trie_remove t es) = (stored t es \<noteq> None)"
proof (induction t es rule: trie_remove.induct)
  case (1 act kids)
  have "stored (TrieNode None kids) xs = ((stored (TrieNode act kids))([] := None)) xs" for xs
    by (cases xs) auto
  then show ?case by auto
next
  case (2 act kids e es)
  show ?case
  proof (cases "map_of kids e")
    case None
    then have "stored (TrieNode act kids) xs = ((stored (TrieNode act kids))(e # es := None)) xs" for xs
      by (cases xs) auto
    with None show ?thesis by auto
  next
    case (Some c)
    let ?c' = "snd (trie_remove c es)"
    have IH: "stored ?c' = (stored c)(es := None)" "fst (trie_remove c es) = (stored c es \<noteq> None)"
      using "2.IH" [OF Some] by auto
    show ?thesis
    proof (cases "node_action ?c' = None \<and> node_children ?c' = []")
      case True
      then have "stored ?c' ys = None" for ys by (simp add: stored_dead)
      then have none: "stored c ys = None" if "ys \<noteq> es" for ys
        using fun_cong [OF IH(1), of ys] that by simp
      have "stored (TrieNode act (AList.delete e kids)) xs =
          ((stored (TrieNode act kids))(e # es := None)) xs" for xs
        by (cases xs) (auto simp: map_of_delete Some none split: option.split)
      with True Some IH(2) show ?thesis by (auto simp: case_prod_beta)
    next
      case False
      have "stored (TrieNode act (AList.update e ?c' kids)) xs =
          ((stored (TrieNode act kids))(e # es := None)) xs" for xs
        by (cases xs) (auto simp: update_conv' Some IH(1) split: option.split)
      with False Some IH(2) show ?thesis by (auto simp: case_prod_beta)
    qed
  qed
qed

lemma trie_wf_remove: "trie_wf t \<Longrightarrow> trie_wf (snd (trie_remove t es))"
proof (induction t es rule: trie_remove.induct)
  case (2 act kids e es)
  show ?case
  proof (cases "map_of kids e")
    case (Some c)
    let ?c' = "snd (trie_remove c es)"
    have wf: "trie_wf ?c'"
      using "2.IH" [OF Some trie_wf_child(1) [OF "2.prems" Some]] .
    show ?thesis
      using "2.prems" wf Some
      by (simp add: list_all_update list_all_delete distinct_update distinct_delete case_prod_beta
          del: not_None_eq)
  qed (use "2.prems" in simp)
qed simp

lemma trie_lookup_stored:
  "trie_lookup t es st =
     (case stored t es of None \<Rightarrow> None | Some b \<Rightarrow> if is_active b st then Some b else None)"
  by (induction t es st rule: trie_lookup.induct) (auto split: option.split)

text \<open>In a well-formed trie every node with an action or a child leads to a binding.\<close>

lemma live_stored:
  "trie_wf t \<Longrightarrow> node_action t \<noteq> None \<or> node_children t \<noteq> [] \<Longrightarrow> \<exists>es. stored t es \<noteq> None"
proof (induction t rule: trie_wf.induct)
  case (1 act kids)
  show ?case
  proof (cases kids)
    case Nil
    with "1.prems" have "stored (TrieNode act kids) [] \<noteq> None" by simp
    then show ?thesis by blast
  next
    case (Cons kc ks)
    obtain e c where kc: "kc = (e, c)" by (cases kc)
    have in_kids: "(e, c) \<in> set kids" by (simp add: Cons kc)
    with "1.prems"(1) have "trie_wf c" "node_action c \<noteq> None \<or> node_children c \<noteq> []"
      by (auto simp: list_all_iff)
    then obtain es where "stored c es \<noteq> None"
      using "1.IH" [OF in_kids] by auto
    then have "stored (TrieNode act kids) (e # es) \<noteq> None" by (simp add: Cons kc)
    then show ?thesis by blast
  qed
qed

lemma has_prefix_stored:
  "trie_wf t \<Longrightarrow> has_prefix t es \<longleftrightarrow> (\<exists>k ext. stored t (es @ k # ext) \<noteq> None)"
proof (induction t es rule: has_prefix.induct)
  case (1 act kids)
  show ?case
  proof
    assume "has_prefix (TrieNode act kids) []"
    then obtain e c ks where kids: "kids = (e, c) # ks" by (cases kids) auto
    with "1.prems" have "trie_wf c" "node_action c \<noteq> None \<or> node_children c \<noteq> []" by auto
    from live_stored [OF this] obtain ext where "stored c ext \<noteq> None" by blast
    then have "stored (TrieNode act kids) ([] @ e # ext) \<noteq> None" by (simp add: kids)
    then show "\<exists>k ext. stored (TrieNode act kids) ([] @ k # ext) \<noteq> None" by blast
  next
    assume "\<exists>k ext. stored (TrieNode act kids) ([] @ k # ext) \<noteq> None"
    then show "has_prefix (TrieNode act kids) []" by (cases kids) auto
  qed
next
  case (2 act kids e es)
  show ?case
  proof (cases "map_of kids e")
    case (Some c)
    with "2.IH" [OF Some trie_wf_child(1) [OF "2.prems" Some]] show ?thesis by simp
  qed simp
qed

section \<open>The contract of a chord store\<close>

locale chord_map =
  fixes empty :: "'t"
    and insert :: "'t \<Rightarrow> 'k list \<Rightarrow> 'b \<Rightarrow> 't"
    and remove :: "'t \<Rightarrow> 'k list \<Rightarrow> bool \<times> 't"
    and lookup :: "'t \<Rightarrow> 'k list \<Rightarrow> 'w \<Rightarrow> 'b option"
    and longer :: "'t \<Rightarrow> 'k list \<Rightarrow> bool"
    and active :: "'b \<Rightarrow> 'w \<Rightarrow> bool"
    and content :: "'t \<Rightarrow> 'k list \<Rightarrow> 'b option"
    and invar :: "'t \<Rightarrow> bool"
  assumes content_empty: "content empty = (\<lambda>_. None)"
    and content_insert: "content (insert t es b) = (content t)(es \<mapsto> b)"
    and content_remove: "content (snd (remove t es)) = (content t)(es := None)"
    and remove_result: "fst (remove t es) = (content t es \<noteq> None)"
    and lookup_content: "lookup t es w = Option.bind (content t es) (\<lambda>b. if active b w then Some b else None)"
    and longer_content: "invar t \<Longrightarrow> longer t es \<longleftrightarrow> (\<exists>k ext. content t (es @ k # ext) \<noteq> None)"
    and invar_empty: "invar empty"
    and invar_insert: "invar t \<Longrightarrow> invar (insert t es b)"
    and invar_remove: "invar t \<Longrightarrow> invar (snd (remove t es))"
begin

lemma lookup_insert:
  "lookup (insert t es b) xs w =
     (if xs = es then (if active b w then Some b else None) else lookup t xs w)"
  by (simp add: lookup_content content_insert)

lemma lookup_remove:
  "lookup (snd (remove t es)) xs w = (if xs = es then None else lookup t xs w)"
  by (simp add: lookup_content content_remove)

lemma remove_insert:
  "content t es = None \<Longrightarrow>
   fst (remove (insert t es b) es) \<and> content (snd (remove (insert t es b) es)) = content t"
  by (simp add: remove_result content_insert content_remove fun_upd_idem)

lemma lookup_active: "lookup t es w = Some b \<Longrightarrow> active b w \<and> content t es = Some b"
  by (auto simp: lookup_content split: if_splits bind_splits)

lemma longer_prefix:
  assumes "invar t" and "longer t (es @ xs)"
  shows "longer t es"
proof -
  obtain k ext where c: "content t ((es @ xs) @ k # ext) \<noteq> None"
    using assms longer_content by blast
  show ?thesis
  proof (cases xs)
    case Nil
    with c show ?thesis using longer_content [OF assms(1)] by auto
  next
    case (Cons x ys)
    with c have "content t (es @ x # (ys @ k # ext)) \<noteq> None" by simp
    then show ?thesis using longer_content [OF assms(1)] by blast
  qed
qed

end

interpretation trie: chord_map trie_default trie_insert trie_remove trie_lookup has_prefix
  is_active stored trie_wf
proof unfold_locales
  show "trie_lookup t es w = Option.bind (stored t es) (\<lambda>b. if is_active b w then Some b else None)"
    for t :: "('a, 's) trie_node" and es w
    by (simp add: trie_lookup_stored split: option.split)
qed (simp_all add: fun_eq_iff stored_insert stored_remove has_prefix_stored
       trie_wf_insert trie_wf_remove)

end
