(* ===== verification/Keymap.thy ===== *)
theory Keymap
  imports Trie
begin

text \<open>
  The modal keymap (\<open>crates/hjkl-keymap/src/keymap.rs\<close>): one trie and one buffer of pending
  keys per mode.  \<open>HashMap\<close>s keyed by the mode are partial functions.  The runtime state
  that binding predicates read is the argument \<open>st\<close>; \<open>Duration\<close> is a number of
  milliseconds.  The lemmas on resolution come from the contract \<open>chord_map\<close> of the trie.
\<close>

section \<open>State and operations\<close>

datatype keymap_error = ParseError chord_parse_error | EmptyChord

datatype ('a, 's) key_resolve =
    Pending
  | Match "('a, 's) binding"
  | Ambiguous
  | Unbound "key_event list"

record ('a, 's, 'm) keymap =
  km_trees :: "'m \<Rightarrow> ('a, 's) trie_node option"
  km_leader :: rchar
  km_timeout :: nat
  km_state :: "'m \<Rightarrow> key_event list option"

definition keymap_new :: "rchar \<Rightarrow> ('a, 's, 'm) keymap" where
  "keymap_new leader =
     \<lparr>km_trees = (\<lambda>_. None), km_leader = leader, km_timeout = 500, km_state = (\<lambda>_. None)\<rparr>"

definition set_leader :: "('a, 's, 'm) keymap \<Rightarrow> rchar \<Rightarrow> ('a, 's, 'm) keymap" where
  "set_leader km c = km\<lparr>km_leader := c\<rparr>"

definition set_timeout :: "('a, 's, 'm) keymap \<Rightarrow> nat \<Rightarrow> ('a, 's, 'm) keymap" where
  "set_timeout km t = km\<lparr>km_timeout := t\<rparr>"

definition add_chord ::
    "('a, 's, 'm) keymap \<Rightarrow> 'm \<Rightarrow> chord \<Rightarrow> ('a, 's) binding \<Rightarrow> ('a, 's, 'm) keymap" where
  "add_chord km mode c b =
     (let tree = (case km_trees km mode of None \<Rightarrow> trie_default | Some t \<Rightarrow> t)
      in km\<lparr>km_trees := (km_trees km)(mode \<mapsto> trie_insert tree c b)\<rparr>)"

definition keymap_add ::
    "('a, 's, 'm) keymap \<Rightarrow> 'm \<Rightarrow> rstring \<Rightarrow> 'a \<Rightarrow> rstring \<Rightarrow>
     (keymap_error + unit) \<times> ('a, 's, 'm) keymap" where
  "keymap_add km mode chord_str act dsc =
     (case chord_parse chord_str (km_leader km) of
        Inl e \<Rightarrow> (Inl (ParseError e), km)
      | Inr c \<Rightarrow>
          if c = [] then (Inl EmptyChord, km)
          else (Inr (), add_chord km mode c (Binding act dsc False None)))"

definition keymap_add_if ::
    "('a, 's, 'm) keymap \<Rightarrow> 'm \<Rightarrow> rstring \<Rightarrow> 'a \<Rightarrow> rstring \<Rightarrow> ('s \<Rightarrow> bool) \<Rightarrow>
     (keymap_error + unit) \<times> ('a, 's, 'm) keymap" where
  "keymap_add_if km mode chord_str act dsc predicate =
     (case chord_parse chord_str (km_leader km) of
        Inl e \<Rightarrow> (Inl (ParseError e), km)
      | Inr c \<Rightarrow>
          if c = [] then (Inl EmptyChord, km)
          else (Inr (), add_chord km mode c (Binding act dsc False (Some predicate))))"

definition keymap_remove ::
    "('a, 's, 'm) keymap \<Rightarrow> 'm \<Rightarrow> rstring \<Rightarrow> (keymap_error + bool) \<times> ('a, 's, 'm) keymap" where
  "keymap_remove km mode chord_str =
     (case chord_parse chord_str (km_leader km) of
        Inl e \<Rightarrow> (Inl (ParseError e), km)
      | Inr c \<Rightarrow>
          if c = [] then (Inl EmptyChord, km)
          else
            (case km_trees km mode of
               None \<Rightarrow> (Inr False, km)
             | Some t \<Rightarrow>
                 (case trie_remove t c of
                    (removed, t') \<Rightarrow>
                      (Inr removed, km\<lparr>km_trees := (km_trees km)(mode \<mapsto> t')\<rparr>))))"

definition keymap_children ::
    "('a, 's, 'm) keymap \<Rightarrow> 'm \<Rightarrow> chord \<Rightarrow> (key_event \<times> ('a, 's) binding) list" where
  "keymap_children km mode prefix =
     (case km_trees km mode of None \<Rightarrow> [] | Some tree \<Rightarrow> children_of tree prefix)"

definition keymap_children_all ::
    "('a, 's, 'm) keymap \<Rightarrow> 'm \<Rightarrow> chord \<Rightarrow> (key_event \<times> ('a, 's) binding option) list" where
  "keymap_children_all km mode prefix =
     (case km_trees km mode of None \<Rightarrow> [] | Some tree \<Rightarrow> all_children_of tree prefix)"

text \<open>\<open>state.entry(mode).or_default().buffer\<close>, read and written.\<close>

definition mode_buffer :: "('a, 's, 'm) keymap \<Rightarrow> 'm \<Rightarrow> key_event list" where
  "mode_buffer km mode = (case km_state km mode of None \<Rightarrow> [] | Some buf \<Rightarrow> buf)"

definition set_buffer :: "('a, 's, 'm) keymap \<Rightarrow> 'm \<Rightarrow> key_event list \<Rightarrow> ('a, 's, 'm) keymap" where
  "set_buffer km mode buf = km\<lparr>km_state := (km_state km)(mode \<mapsto> buf)\<rparr>"

definition feed ::
    "('a, 's, 'm) keymap \<Rightarrow> 'm \<Rightarrow> key_event \<Rightarrow> 's \<Rightarrow> ('a, 's) key_resolve \<times> ('a, 's, 'm) keymap" where
  "feed km mode ev st =
     (let km1 = set_buffer km mode (mode_buffer km mode @ [ev]);
          buf = mode_buffer km1 mode
      in case km_trees km1 mode of
           None \<Rightarrow> (Unbound (mode_buffer km1 mode), set_buffer km1 mode [])
         | Some tree \<Rightarrow>
             (case (trie_lookup tree buf st, has_prefix tree buf) of
                (Some b, True) \<Rightarrow> (Ambiguous, km1)
              | (Some b, False) \<Rightarrow> (Match b, set_buffer km1 mode [])
              | (None, True) \<Rightarrow> (Pending, km1)
              | (None, False) \<Rightarrow> (Unbound (mode_buffer km1 mode), set_buffer km1 mode [])))"

definition timeout_resolve ::
    "('a, 's, 'm) keymap \<Rightarrow> 'm \<Rightarrow> 's \<Rightarrow> ('a, 's) key_resolve \<times> ('a, 's, 'm) keymap" where
  "timeout_resolve km mode st =
     (case km_state km mode of
        None \<Rightarrow> (Unbound [], km)
      | Some buf \<Rightarrow>
          if buf = [] then (Unbound [], km)
          else
            (case km_trees km mode of
               None \<Rightarrow> (Unbound (mode_buffer km mode), set_buffer km mode [])
             | Some tree \<Rightarrow>
                 (case trie_lookup tree buf st of
                    Some b \<Rightarrow> (Match b, set_buffer km mode [])
                  | None \<Rightarrow>
                      if has_prefix tree buf then (Unbound [], km)
                      else (Unbound (mode_buffer km mode), set_buffer km mode []))))"

definition km_pending :: "('a, 's, 'm) keymap \<Rightarrow> 'm \<Rightarrow> key_event list" where
  "km_pending km mode = (case km_state km mode of None \<Rightarrow> [] | Some buf \<Rightarrow> buf)"

definition km_reset :: "('a, 's, 'm) keymap \<Rightarrow> 'm \<Rightarrow> ('a, 's, 'm) keymap" where
  "km_reset km mode =
     (case km_state km mode of None \<Rightarrow> km | Some _ \<Rightarrow> set_buffer km mode [])"

definition km_pop :: "('a, 's, 'm) keymap \<Rightarrow> 'm \<Rightarrow> key_event option \<times> ('a, 's, 'm) keymap" where
  "km_pop km mode =
     (case km_state km mode of
        None \<Rightarrow> (None, km)
      | Some buf \<Rightarrow>
          if buf = [] then (None, km)
          else (Some (last buf), set_buffer km mode (butlast buf)))"

section \<open>Lemmas\<close>

definition mode_tree :: "('a, 's, 'm) keymap \<Rightarrow> 'm \<Rightarrow> ('a, 's) trie_node" where
  "mode_tree km mode = (case km_trees km mode of None \<Rightarrow> trie_default | Some t \<Rightarrow> t)"

definition km_wf :: "('a, 's, 'm) keymap \<Rightarrow> bool" where
  "km_wf km \<longleftrightarrow> (\<forall>m. trie_wf (mode_tree km m))"

lemma km_pending_set_buffer [simp, keymap_simps]:
  "km_pending (set_buffer km m buf) m' = (if m' = m then buf else km_pending km m')"
  "mode_buffer (set_buffer km m buf) m' = (if m' = m then buf else mode_buffer km m')"
  "km_trees (set_buffer km m buf) = km_trees km"
  "mode_tree (set_buffer km m buf) = mode_tree km"
  by (simp_all add: km_pending_def mode_buffer_def set_buffer_def mode_tree_def fun_eq_iff)

lemma set_buffer_twice [simp]: "set_buffer (set_buffer km m buf) m buf' = set_buffer km m buf'"
  by (simp add: set_buffer_def)

lemma mode_buffer_pending [keymap_simps]: "mode_buffer km m = km_pending km m"
  by (simp add: mode_buffer_def km_pending_def)

lemma default_queries [simp]:
  "trie_lookup trie_default es st = None" "\<not> has_prefix trie_default es"
  by (simp_all add: trie_lookup_stored) (cases es; simp add: trie_default_def)

text \<open>A mode without a tree behaves as one whose tree is empty.\<close>

lemma feed_eq:
  "feed km m ev st =
     (let buf = km_pending km m @ [ev]; t = mode_tree km m in
      case (trie_lookup t buf st, has_prefix t buf) of
        (Some b, True) \<Rightarrow> (Ambiguous, set_buffer km m buf)
      | (Some b, False) \<Rightarrow> (Match b, set_buffer (set_buffer km m buf) m [])
      | (None, True) \<Rightarrow> (Pending, set_buffer km m buf)
      | (None, False) \<Rightarrow> (Unbound buf, set_buffer (set_buffer km m buf) m []))"
  by (simp add: feed_def mode_tree_def keymap_simps Let_def split: option.split bool.split)

lemma mode_tree_add_chord:
  "mode_tree (add_chord km m c b) m' =
     (if m' = m then trie_insert (mode_tree km m) c b else mode_tree km m')"
  by (simp add: add_chord_def mode_tree_def Let_def)

lemma km_pending_add_chord [simp]: "km_pending (add_chord km m c b) = km_pending km"
  by (simp add: add_chord_def km_pending_def Let_def fun_eq_iff)

lemma km_wf_add_chord: "km_wf km \<Longrightarrow> km_wf (add_chord km m c b)"
  by (simp add: km_wf_def mode_tree_add_chord trie.invar_insert)

lemma km_wf_set_buffer [simp]: "km_wf (set_buffer km m buf) = km_wf km"
  by (simp add: km_wf_def)

lemma km_wf_new: "km_wf (keymap_new leader)"
  by (simp add: km_wf_def keymap_new_def mode_tree_def)

lemma trees_feed [simp]: "mode_tree (snd (feed km m ev st)) = mode_tree km"
  by (auto simp: feed_eq Let_def split: option.split bool.split)

text \<open>Whether some chord of the mode is strictly longer than the given keys.\<close>

definition extends_to_chord :: "('a, 's, 'm) keymap \<Rightarrow> 'm \<Rightarrow> key_event list \<Rightarrow> bool" where
  "extends_to_chord km m es \<longleftrightarrow> (\<exists>k ext. stored (mode_tree km m) (es @ k # ext) \<noteq> None)"

lemma has_prefix_mode: "km_wf km \<Longrightarrow> has_prefix (mode_tree km m) es = extends_to_chord km m es"
  by (simp add: km_wf_def extends_to_chord_def trie.longer_content)

lemma extends_prefix: "km_wf km \<Longrightarrow> extends_to_chord km m (es @ xs) \<Longrightarrow> extends_to_chord km m es"
  using trie.longer_prefix [of "mode_tree km m" es xs]
  by (simp add: km_wf_def has_prefix_mode [unfolded km_wf_def])

section \<open>Keymap properties\<close>

text \<open>
  C37: The trie is a finite map from chords to bindings: storing a binding changes the entry
  of exactly that chord, removing one clears exactly that entry and reports whether there
  was one, and looking a chord up returns its entry iff the entry's condition holds.
\<close>

theorem trie_refines_map:
  "stored (trie_insert t es b) = (stored t)(es \<mapsto> b) \<and>
   stored (snd (trie_remove t es)) = (stored t)(es := None) \<and>
   fst (trie_remove t es) = (stored t es \<noteq> None) \<and>
   trie_lookup t xs st = Option.bind (stored t xs) (\<lambda>b. if is_active b st then Some b else None)"
  by (simp add: trie.content_insert trie.content_remove trie.remove_result trie.lookup_content)

text \<open>
  In a trie built by inserting and removing, \<open>has_prefix\<close> holds of exactly the proper
  prefixes of stored chords, because removing prunes the nodes it empties.
\<close>

lemma has_prefix_exact:
  assumes "trie_wf t"
  shows "trie_wf (trie_insert t es b) \<and> trie_wf (snd (trie_remove t es)) \<and>
    (has_prefix (snd (trie_remove t es)) xs \<longleftrightarrow>
       (\<exists>k ext. xs @ k # ext \<noteq> es \<and> stored t (xs @ k # ext) \<noteq> None))"
  using trie.invar_insert [OF assms] trie.invar_remove [OF assms]
    trie.longer_content [OF trie.invar_remove [OF assms]]
  by (auto simp: trie.content_remove)

text \<open>
  C33: Feeding one key never loses a key.  The key joins the pending ones; the whole sequence
  is handed back as \<open>Unbound\<close> (and the buffer cleared) iff no active binding and no longer
  chord matches it, \<open>Match\<close> fires an active binding stored for exactly that sequence when
  no longer chord exists, and \<open>Pending\<close> and \<open>Ambiguous\<close> keep the sequence.
\<close>

theorem feed_correct:
  assumes "km_wf km" and "buf = km_pending km m @ [ev]"
  shows "(case fst (feed km m ev st) of
      Match b \<Rightarrow> stored (mode_tree km m) buf = Some b \<and> is_active b st \<and> \<not> extends_to_chord km m buf
          \<and> km_pending (snd (feed km m ev st)) m = []
    | Ambiguous \<Rightarrow> trie_lookup (mode_tree km m) buf st \<noteq> None \<and> extends_to_chord km m buf
          \<and> km_pending (snd (feed km m ev st)) m = buf
    | Pending \<Rightarrow> trie_lookup (mode_tree km m) buf st = None \<and> extends_to_chord km m buf
          \<and> km_pending (snd (feed km m ev st)) m = buf
    | Unbound ks \<Rightarrow> ks = buf \<and> trie_lookup (mode_tree km m) buf st = None
          \<and> \<not> extends_to_chord km m buf \<and> km_pending (snd (feed km m ev st)) m = [])
    \<and> (\<forall>m'. m' \<noteq> m \<longrightarrow> km_pending (snd (feed km m ev st)) m' = km_pending km m')
    \<and> mode_tree (snd (feed km m ev st)) = mode_tree km"
  using has_prefix_mode [OF assms(1), of m buf]
    trie.lookup_active [of "mode_tree km m" buf st]
  by (cases "trie_lookup (mode_tree km m) buf st"; cases "has_prefix (mode_tree km m) buf")
    (auto simp: feed_eq assms(2) Let_def)

definition km_example :: "(nat, nat, nat) keymap" where
  "km_example =
     add_chord (add_chord (keymap_new 32) 0 (map key_char (str ''gd'')) (Binding 7 [] False None))
       0 (map key_char (str ''gg'')) (Binding 8 [] False (Some (\<lambda>st. st > 2)))"

lemma km_example_wf: "km_wf km_example"
  by (simp add: km_example_def km_wf_add_chord km_wf_new)

lemma km_example_tree:
  "mode_tree km_example 0 =
     TrieNode None [(key_char 103, TrieNode None
       [(key_char 100, TrieNode (Some (Binding 7 [] False None)) []),
        (key_char 103, TrieNode (Some (Binding 8 [] False (Some (\<lambda>st. st > 2)))) [])])]"
  by (simp add: km_example_def add_chord_def keymap_new_def mode_tree_def key_char_def
      trie_default_def)

theorem feed_correct_witness:
  "\<exists>r km'. feed km_example 0 (key_char 103) 5 = (r, km') \<and> r = Pending \<and>
     km_pending km' 0 = [key_char 103]"
proof -
  have look: "trie_lookup (mode_tree km_example 0) [key_char 103] 5 = None"
    "has_prefix (mode_tree km_example 0) [key_char 103]"
    by (simp_all add: km_example_tree)
  have pend: "km_pending km_example 0 = []"
    by (simp add: km_example_def) (simp add: keymap_new_def km_pending_def)
  have fst: "fst (feed km_example 0 (key_char 103) 5) = Pending"
    using look by (simp add: feed_eq pend Let_def)
  have "km_pending (snd (feed km_example 0 (key_char 103) 5)) 0 = [key_char 103]"
    using feed_correct [OF km_example_wf, of "[key_char 103]" 0 "key_char 103" 5] fst
    by (simp add: pend)
  with fst show ?thesis by (metis prod.collapse)
qed

text \<open>
  The steps a client can make the keymap do: set the leader or the timeout, register a binding, remove one,
  feed a key, let the timeout fire, reset or pop the pending keys.  The runtime state that the
  predicates read changes freely in between.  A binding may be removed while keys are pending: the
  set collects the modes where that happened since their pending keys were last looked up or dropped.
\<close>

inductive km_step ::
    "('a, 's, 'm) keymap \<times> 'm set \<Rightarrow> ('a, 's, 'm) keymap \<times> 'm set \<Rightarrow> bool" where
  step_leader: "km_step (km, M) (set_leader km c, M)"
| step_set_timeout: "km_step (km, M) (set_timeout km ms, M)"
| step_add: "km_step (km, M) (snd (keymap_add km m s act dsc), M)"
| step_add_if: "km_step (km, M) (snd (keymap_add_if km m s act dsc pred), M)"
| step_add_chord: "km_step (km, M) (add_chord km m chord b, M)"
| step_remove: "km_step (km, M) (snd (keymap_remove km m s), if km_pending km m = [] then M else insert m M)"
| step_feed: "km_step (km, M) (snd (feed km m ev st), M - {m})"
| step_timeout: "km_step (km, M) (snd (timeout_resolve km m st), M - {m})"
| step_reset: "km_step (km, M) (km_reset km m, M - {m})"
| step_pop: "km_step (km, M) (snd (km_pop km m), M)"

inductive km_reachable :: "('a, 's, 'm) keymap \<times> 'm set \<Rightarrow> bool" where
  reach_new: "km_reachable (keymap_new leader, {})"
| reach_step: "km_reachable x \<Longrightarrow> km_step x y \<Longrightarrow> km_reachable y"

definition km_inv :: "('a, 's, 'm) keymap \<times> 'm set \<Rightarrow> bool" where
  "km_inv x \<longleftrightarrow> km_wf (fst x) \<and>
     (\<forall>m. m \<notin> snd x \<longrightarrow> km_pending (fst x) m \<noteq> [] \<longrightarrow> extends_to_chord (fst x) m (km_pending (fst x) m))"

lemma extends_add_chord:
  "extends_to_chord km m' es \<Longrightarrow> extends_to_chord (add_chord km m c b) m' es"
  by (auto simp: extends_to_chord_def mode_tree_add_chord trie.content_insert)

lemma km_inv_add_chord: "km_inv (km, M) \<Longrightarrow> km_inv (add_chord km m c b, M)"
  by (simp add: km_inv_def km_wf_add_chord extends_add_chord)

lemma km_inv_set_leader: "km_inv (km, M) \<Longrightarrow> km_inv (set_leader km c, M)"
  by (simp add: km_inv_def km_wf_def extends_to_chord_def set_leader_def mode_tree_def km_pending_def)

lemma km_inv_set_timeout: "km_inv (km, M) \<Longrightarrow> km_inv (set_timeout km ms, M)"
  by (simp add: km_inv_def km_wf_def extends_to_chord_def set_timeout_def mode_tree_def km_pending_def)

lemma extends_set_buffer [simp]: "extends_to_chord (set_buffer km m buf) = extends_to_chord km"
  by (simp add: extends_to_chord_def fun_eq_iff)

lemma km_inv_set_buffer:
  "km_inv (km, M) \<Longrightarrow> buf = [] \<or> extends_to_chord km m buf \<Longrightarrow> km_inv (set_buffer km m buf, M - {m})"
  by (auto simp: km_inv_def)

lemma km_inv_mono: "km_inv (km, M) \<Longrightarrow> M \<subseteq> M' \<Longrightarrow> km_inv (km, M')"
  by (auto simp: km_inv_def)

lemma km_inv_fresh:
  "km_inv (km, M) \<Longrightarrow> km_pending km m = [] \<or> extends_to_chord km m (km_pending km m) \<Longrightarrow> km_inv (km, M - {m})"
  by (auto simp: km_inv_def)

lemma mode_tree_remove:
  "mode_tree (snd (keymap_remove km m s)) m' = mode_tree km m' \<or>
   (\<exists>c. mode_tree (snd (keymap_remove km m s)) m' = snd (trie_remove (mode_tree km m') c))"
  by (cases "m' = m"; cases "km_trees km m"; cases "chord_parse s (km_leader km)")
    (auto simp: keymap_remove_def mode_tree_def case_prod_beta)

lemma km_wf_remove: "km_wf km \<Longrightarrow> km_wf (snd (keymap_remove km m s))"
  unfolding km_wf_def using mode_tree_remove [of km m s] trie.invar_remove by metis

lemma remove_frame:
  "km_pending (snd (keymap_remove km m s)) = km_pending km"
  "m' \<noteq> m \<Longrightarrow> mode_tree (snd (keymap_remove km m s)) m' = mode_tree km m'"
  by (auto simp: keymap_remove_def mode_tree_def km_pending_def fun_eq_iff case_prod_beta
      split: sum.split option.split)

lemma km_step_inv: "km_step x y \<Longrightarrow> km_inv x \<Longrightarrow> km_inv y"
proof (induction rule: km_step.induct)
  case (step_add km M m s act dsc)
  then show ?case by (auto simp: keymap_add_def km_inv_add_chord split: sum.split)
next
  case (step_add_if km M m s act dsc pred)
  then show ?case by (auto simp: keymap_add_if_def km_inv_add_chord split: sum.split)
next
  case (step_remove km M m s)
  let ?km = "snd (keymap_remove km m s)"
  let ?M = "if km_pending km m = [] then M else insert m M"
  have "extends_to_chord ?km m' (km_pending km m')" if "m' \<notin> ?M" "km_pending km m' \<noteq> []" for m'
  proof -
    have "m' \<noteq> m" "m' \<notin> M" using that by (auto split: if_splits)
    then show ?thesis
      using step_remove that(2) remove_frame(2) [of m' m km s] by (simp add: km_inv_def extends_to_chord_def)
  qed
  then show ?case
    using step_remove by (simp add: km_inv_def km_wf_remove remove_frame(1))
next
  case (step_feed km M m ev st)
  let ?buf = "km_pending km m @ [ev]"
  have wf: "km_wf km" using step_feed by (simp add: km_inv_def)
  show ?case
    using step_feed has_prefix_mode [OF wf, of m ?buf]
    by (cases "trie_lookup (mode_tree km m) ?buf st"; cases "has_prefix (mode_tree km m) ?buf")
      (auto simp: feed_eq Let_def intro!: km_inv_set_buffer)
next
  case (step_timeout km M m st)
  have wf: "km_wf km" using step_timeout by (simp add: km_inv_def)
  show ?case
  proof (cases "km_state km m")
    case None
    then show ?thesis using step_timeout km_inv_fresh [of km M m] by (simp add: timeout_resolve_def km_pending_def)
  next
    case (Some buf)
    have p: "km_pending km m = buf" using Some by (simp add: km_pending_def)
    have "extends_to_chord km m buf" if "km_trees km m = Some tree" "has_prefix tree buf" for tree
      using that has_prefix_mode [OF wf, of m buf] by (simp add: mode_tree_def)
    then show ?thesis
      using step_timeout Some p km_inv_fresh [of km M m]
      by (auto simp: timeout_resolve_def km_inv_set_buffer split: option.split)
  qed
next
  case (step_reset km M m)
  then show ?case
    using km_inv_fresh [of km M m] by (auto simp: km_reset_def km_inv_set_buffer km_pending_def split: option.split)
next
  case (step_pop km M m)
  show ?case
  proof (cases "km_state km m")
    case (Some buf)
    then have p: "km_pending km m = buf" by (simp add: km_pending_def)
    have "extends_to_chord km m (butlast buf)" if "buf \<noteq> []" "m \<notin> M"
      using step_pop that p extends_prefix [of km m "butlast buf" "[last buf]"]
      by (auto simp: km_inv_def)
    then have "km_inv (set_buffer km m (butlast buf), M)" if "buf \<noteq> []"
      using step_pop that by (auto simp: km_inv_def)
    with step_pop Some show ?thesis by (auto simp: km_pop_def)
  qed (use step_pop in \<open>simp add: km_pop_def\<close>)
qed (simp_all add: km_inv_set_leader km_inv_set_timeout km_inv_add_chord)

text \<open>
  C34: In every reachable keymap all tries are well-formed, and the pending keys of a mode are either none
  or a proper prefix of some registered chord, so a chord in progress can be completed; the
  exception are modes from which a binding was removed while keys were pending, until the next key,
  timeout or reset of that mode.
\<close>

theorem km_reachable_pending:
  assumes "km_reachable (km, M)"
  shows "trie_wf (mode_tree km m) \<and>
    (m \<notin> M \<longrightarrow> km_pending km m = [] \<or> (\<exists>k ext. stored (mode_tree km m) (km_pending km m @ k # ext) \<noteq> None))"
proof -
  have "km_inv x" if "km_reachable x" for x :: "('a, 'b, 'c) keymap \<times> 'c set"
    using that
  proof induction
    case (reach_new leader)
    then show ?case by (simp add: km_inv_def km_wf_new) (simp add: keymap_new_def km_pending_def)
  next
    case (reach_step x y)
    then show ?case by (blast intro: km_step_inv)
  qed
  from this [OF assms] show ?thesis by (auto simp: km_inv_def km_wf_def extends_to_chord_def)
qed

text \<open>A chord begun, its binding removed, and the next key.\<close>

definition km_removed :: "(nat, nat, nat) keymap" where
  "km_removed = snd (feed (snd (keymap_remove (snd (feed (snd (keymap_add (keymap_new 32) 0 (str ''gd'') 7 []))
     0 (key_char 103) 0)) 0 (str ''gd''))) 0 (key_char 100) 0)"

theorem km_reachable_pending_witness:
  "trie_wf (mode_tree km_removed 0) \<and>
   (km_pending km_removed 0 = [] \<or>
    (\<exists>k ext. stored (mode_tree km_removed 0) (km_pending km_removed 0 @ k # ext) \<noteq> None))"
proof -
  obtain M where "km_reachable (km_removed, M - {0})"
    using reach_step [OF reach_step [OF reach_step [OF reach_step [OF reach_new step_add] step_feed] step_remove] step_feed]
    unfolding km_removed_def by metis
  from km_reachable_pending [OF this, of 0] show ?thesis by simp
qed

fun feed_keys ::
    "('a, 's, 'm) keymap \<Rightarrow> 'm \<Rightarrow> key_event list \<Rightarrow> 's \<Rightarrow>
     ('a, 's) key_resolve list \<times> ('a, 's, 'm) keymap" where
  "feed_keys km m [] st = ([], km)"
| "feed_keys km m (ev # evs) st =
     (case feed km m ev st of
        (r, km1) \<Rightarrow> (case feed_keys km1 m evs st of (rs, km2) \<Rightarrow> (r # rs, km2)))"

lemma feed_keys_snoc:
  "feed_keys km m (evs @ [ev]) st =
     (case feed_keys km m evs st of
        (rs, km1) \<Rightarrow> (case feed km1 m ev st of (r, km2) \<Rightarrow> (rs @ [r], km2)))"
  by (induction evs arbitrary: km) (auto split: prod.split)

lemma feed_keys_prefix:
  assumes "km_wf km" and "km_pending km m = []"
    and "stored (mode_tree km m) (es @ k # ext) \<noteq> None"
  shows "\<forall>r\<in>set (fst (feed_keys km m es st)). r = Pending \<or> r = Ambiguous"
    and "km_pending (snd (feed_keys km m es st)) m = es"
    and "mode_tree (snd (feed_keys km m es st)) = mode_tree km"
proof -
  have "(\<forall>r\<in>set (fst (feed_keys km m es st)). r = Pending \<or> r = Ambiguous) \<and>
      km_pending (snd (feed_keys km m es st)) m = es \<and>
      mode_tree (snd (feed_keys km m es st)) = mode_tree km"
    using assms(3)
  proof (induction es arbitrary: k ext rule: rev_induct)
    case Nil
    then show ?case using assms(2) by simp
  next
    case (snoc e es)
    obtain rs km1 where f: "feed_keys km m es st = (rs, km1)" by (cases "feed_keys km m es st")
    from snoc.IH [of e "k # ext"] snoc.prems f have IH:
      "\<forall>r\<in>set rs. r = Pending \<or> r = Ambiguous" "km_pending km1 m = es" "mode_tree km1 = mode_tree km"
      by auto
    have "has_prefix (mode_tree km m) (es @ [e])"
      using has_prefix_mode [OF assms(1)] snoc.prems by (auto simp: extends_to_chord_def)
    then show ?case
      using IH f by (auto simp: feed_keys_snoc feed_eq Let_def split: option.split prod.split)
  qed
  then show "\<forall>r\<in>set (fst (feed_keys km m es st)). r = Pending \<or> r = Ambiguous"
    and "km_pending (snd (feed_keys km m es st)) m = es"
    and "mode_tree (snd (feed_keys km m es st)) = mode_tree km" by blast+
qed

text \<open>
  Typing a bound chord fires it.  With nothing pending, feeding the keys of a chord
  whose binding is active and which no longer chord extends answers \<open>Pending\<close> or
  \<open>Ambiguous\<close> on every key but the last, \<open>Match\<close> with that binding on the last, and
  leaves nothing pending.
\<close>

lemma typed_chord_fires:
  assumes "km_wf km" and "km_pending km m = []"
    and "stored (mode_tree km m) (es @ [e]) = Some b" and "is_active b st"
    and "\<not> extends_to_chord km m (es @ [e])"
  shows "\<exists>rs. fst (feed_keys km m (es @ [e]) st) = rs @ [Match b] \<and> length rs = length es \<and>
    set rs \<subseteq> {Pending, Ambiguous} \<and> km_pending (snd (feed_keys km m (es @ [e]) st)) m = []"
proof -
  obtain rs km1 where f: "feed_keys km m es st = (rs, km1)" by (cases "feed_keys km m es st")
  note pre = feed_keys_prefix [OF assms(1,2), of es e "[]" st] 
  have len: "length (fst (feed_keys km m xs st)) = length xs" for xs
    by (induction xs arbitrary: km) (auto simp: case_prod_beta)
  have look: "trie_lookup (mode_tree km m) (es @ [e]) st = Some b"
    using assms(3,4) by (simp add: trie.lookup_content)
  have no: "\<not> has_prefix (mode_tree km m) (es @ [e])"
    using assms(5) has_prefix_mode [OF assms(1)] by simp
  have "fst (feed_keys km m (es @ [e]) st) = rs @ [Match b]"
    and "km_pending (snd (feed_keys km m (es @ [e]) st)) m = []"
    using pre assms(3) look no f by (auto simp: feed_keys_snoc feed_eq Let_def)
  moreover have "set rs \<subseteq> {Pending, Ambiguous}" using pre(1) assms(3) f by auto
  moreover have "length rs = length es" using len [of es] f by simp
  ultimately show ?thesis by blast
qed

end
