(* ===== verification/Rope.thy ===== *)
theory Rope
  imports Prelude
begin

text \<open>
  The rope library \<open>ropey\<close> is a third-party crate: its operations are the fields of the
  record \<open>rope_ops\<close>, an argument of every definition that uses a rope, and what the
  source relies on of them is the predicate \<open>rope_laws\<close>, each law a sentence of the
  crate's documentation.  A rope is a sequence of scalar values stored as UTF-8 in
  chunks; the chunks are slices of memory, so two chunks at one address with one length
  hold the same bytes.

  The theory also holds the UTF-8 encoding of Rust's \<open>str\<close> with the facts the delta code
  needs (it is a prefix code, and a byte starts a char exactly when it is no continuation
  byte), and \<open>flat_rope\<close>, a concrete rope whose leaves are single chars, which satisfies
  every law.
\<close>

section \<open>UTF-8\<close>

definition scalar_ok :: "rchar \<Rightarrow> bool" where
  "scalar_ok c \<longleftrightarrow> c < 0x110000"

definition valid_str :: "rstring \<Rightarrow> bool" where
  "valid_str s \<longleftrightarrow> (\<forall>c \<in> set s. scalar_ok c)"

definition as_u8 :: "nat \<Rightarrow> u8" where
  "as_u8 n = of_nat n"

definition utf8_char :: "rchar \<Rightarrow> u8 list" where
  "utf8_char c =
     (if c < 0x80 then [as_u8 c]
      else if c < 0x800 then [as_u8 (0xC0 + c div 64), as_u8 (0x80 + c mod 64)]
      else if c < 0x10000 then
        [as_u8 (0xE0 + c div 4096), as_u8 (0x80 + c div 64 mod 64), as_u8 (0x80 + c mod 64)]
      else
        [as_u8 (0xF0 + c div 262144), as_u8 (0x80 + c div 4096 mod 64),
         as_u8 (0x80 + c div 64 mod 64), as_u8 (0x80 + c mod 64)])"

definition utf8 :: "rstring \<Rightarrow> u8 list" where
  "utf8 s = concat (map utf8_char s)"

text \<open>The standard library's \<open>str::is_char_boundary\<close>: both ends, and every index whose
  byte is not a continuation byte (\<open>b as i8 >= -0x40\<close>).\<close>

definition continuation_byte :: "u8 \<Rightarrow> bool" where
  "continuation_byte b \<longleftrightarrow> 0x80 \<le> b \<and> b < 0xC0"

definition str_is_char_boundary :: "u8 list \<Rightarrow> nat \<Rightarrow> bool" where
  "str_is_char_boundary bs i =
     (if i = 0 then True
      else if i < length bs then \<not> continuation_byte (bs ! i)
      else i = length bs)"

lemma unat_as_u8: "n < 256 \<Longrightarrow> unat (as_u8 n) = n"
  by (simp add: as_u8_def unat_of_nat)

lemma continuation_as_u8:
  "n < 256 \<Longrightarrow> continuation_byte (as_u8 n) \<longleftrightarrow> 128 \<le> n \<and> n < 192"
  by (simp add: continuation_byte_def word_le_nat_alt word_less_nat_alt unat_as_u8)

lemma utf8_simps [simp]:
  "utf8 [] = []"
  "utf8 (c # s) = utf8_char c @ utf8 s"
  "utf8 (s @ s') = utf8 s @ utf8 s'"
  by (simp_all add: utf8_def)

lemma valid_str_simps [simp]:
  "valid_str []"
  "valid_str (c # s) \<longleftrightarrow> scalar_ok c \<and> valid_str s"
  "valid_str (s @ s') \<longleftrightarrow> valid_str s \<and> valid_str s'"
  by (auto simp: valid_str_def)

lemma valid_str_take [simp]: "valid_str s \<Longrightarrow> valid_str (take n s)"
  and valid_str_drop [simp]: "valid_str s \<Longrightarrow> valid_str (drop n s)"
  by (auto simp: valid_str_def dest: in_set_takeD in_set_dropD)

lemma utf8_char_nonempty [simp]: "utf8_char c \<noteq> []"
  by (simp add: utf8_char_def)

lemma utf8_char_bounds:
  assumes "scalar_ok c"
  shows "c < 0x800 \<Longrightarrow> c div 64 < 32" and "c < 0x10000 \<Longrightarrow> c div 4096 < 16"
    and "c div 262144 < 8" and "c mod 64 < 64" and "c div 64 mod 64 < 64"
    and "c div 4096 mod 64 < 64"
  using assms by (auto simp: scalar_ok_def)

lemma utf8_char_cons:
  assumes "scalar_ok c"
  obtains b bs where "utf8_char c = b # bs" and "\<not> continuation_byte b"
    and "\<forall>x \<in> set bs. continuation_byte x"
proof -
  have "\<exists>b bs. utf8_char c = b # bs \<and> \<not> continuation_byte b \<and>
      (\<forall>x \<in> set bs. continuation_byte x)"
  proof -
    note b = utf8_char_bounds [OF assms]
    consider "c < 0x80" | "0x80 \<le> c" "c < 0x800" | "0x800 \<le> c" "c < 0x10000" | "0x10000 \<le> c"
      by linarith
    then show ?thesis
    proof cases
      case 1
      then show ?thesis by (simp add: utf8_char_def continuation_as_u8)
    next
      case 2
      with b(1,4) show ?thesis by (simp add: utf8_char_def continuation_as_u8)
    next
      case 3
      with b(2,4,5) show ?thesis by (simp add: utf8_char_def continuation_as_u8)
    next
      case 4
      with b(3,4,5,6) show ?thesis by (simp add: utf8_char_def continuation_as_u8)
    qed
  qed
  then show ?thesis using that by blast
qed

text \<open>A decoder of the first char, which shows that the encoding is a prefix code.\<close>

definition utf8_next :: "u8 list \<Rightarrow> rchar \<times> u8 list" where
  "utf8_next bs =
     (let b = unat (bs ! 0); x = unat (bs ! 1) mod 64; y = unat (bs ! 2) mod 64;
          z = unat (bs ! 3) mod 64
      in if b < 0x80 then (b, drop 1 bs)
         else if b < 0xE0 then ((b - 0xC0) * 64 + x, drop 2 bs)
         else if b < 0xF0 then ((b - 0xE0) * 4096 + x * 64 + y, drop 3 bs)
         else ((b - 0xF0) * 262144 + x * 4096 + y * 64 + z, drop 4 bs))"

lemma mod_64_shift: "(128 + n) mod 64 = n mod (64 :: nat)"
proof -
  have "128 + n = n + 64 * 2" by simp
  then show ?thesis by (simp only: mod_mult_self2)
qed

lemma div_parts3: "(c :: nat) div 4096 * 4096 + c div 64 mod 64 * 64 + c mod 64 = c"
proof -
  have "c div 4096 = c div 64 div 64" by (simp add: div_mult2_eq [symmetric])
  then have "c div 4096 * 64 + c div 64 mod 64 = c div 64"
    by (simp only: div_mult_mod_eq)
  with div_mult_mod_eq [of c 64] show ?thesis by linarith
qed

lemma div_parts4:
  "(c :: nat) div 262144 * 262144 + c div 4096 mod 64 * 4096 + c div 64 mod 64 * 64 + c mod 64 = c"
proof -
  have "c div 262144 = c div 4096 div 64" by (simp add: div_mult2_eq [symmetric])
  then have "c div 262144 * 64 + c div 4096 mod 64 = c div 4096"
    by (simp only: div_mult_mod_eq)
  with div_parts3 [of c] show ?thesis by linarith
qed

lemma utf8_next_char:
  assumes "scalar_ok c"
  shows "utf8_next (utf8_char c @ rest) = (c, rest)"
proof -
  note b = utf8_char_bounds [OF assms]
  consider "c < 0x80" | "0x80 \<le> c" "c < 0x800" | "0x800 \<le> c" "c < 0x10000" | "0x10000 \<le> c"
    by linarith
  then show ?thesis
  proof cases
    case 1
    then show ?thesis by (simp add: utf8_next_def utf8_char_def unat_as_u8)
  next
    case 2
    then show ?thesis
      using b(1,4) by (simp add: utf8_next_def utf8_char_def unat_as_u8 Let_def mod_64_shift)
  next
    case 3
    then show ?thesis
      using b(2,4,5) div_parts3 [of c]
      by (simp add: utf8_next_def utf8_char_def unat_as_u8 Let_def mod_64_shift)
  next
    case 4
    then show ?thesis
      using b(3,4,5,6) div_parts4 [of c]
      by (simp add: utf8_next_def utf8_char_def unat_as_u8 Let_def mod_64_shift)
  qed
qed

lemma utf8_char_prefix_code:
  assumes "scalar_ok c" and "scalar_ok d" and "utf8_char c @ xs = utf8_char d @ ys"
  shows "c = d \<and> xs = ys"
proof -
  have "(c, xs) = utf8_next (utf8_char c @ xs)" by (simp only: utf8_next_char [OF assms(1)])
  also have "\<dots> = utf8_next (utf8_char d @ ys)" by (simp only: assms(3))
  also have "\<dots> = (d, ys)" by (simp only: utf8_next_char [OF assms(2)])
  finally show ?thesis by simp
qed

lemma utf8_prefix_split:
  assumes "valid_str s" and "valid_str t" and "utf8 t = utf8 s @ zs"
  shows "\<exists>u. t = s @ u \<and> utf8 u = zs"
  using assms
proof (induction s arbitrary: t)
  case Nil
  then show ?case by simp
next
  case (Cons c s)
  then obtain d t' where t: "t = d # t'" by (cases t) auto
  with Cons.prems have "c = d" and "utf8 t' = utf8 s @ zs"
    using utf8_char_prefix_code [of d c "utf8 t'" "utf8 s @ zs"] by auto
  with Cons t show ?case by auto
qed

lemma utf8_eq_Nil [simp]: "utf8 s = [] \<longleftrightarrow> s = []"
  by (cases s) auto

lemma utf8_inject:
  assumes "valid_str s" and "valid_str t" and "utf8 s = utf8 t"
  shows "s = t"
  using utf8_prefix_split [OF assms(1,2), of "[]"] assms(3) by auto

section \<open>Char boundaries of an encoded string\<close>

definition boff :: "rstring \<Rightarrow> nat \<Rightarrow> nat" where
  "boff s i = length (utf8 (take i s))"

lemma boff_simps [simp]:
  "boff s 0 = 0"
  "length s \<le> i \<Longrightarrow> boff s i = length (utf8 s)"
  by (simp_all add: boff_def)

lemma boff_Suc_Cons [simp]: "boff (c # s) (Suc i) = length (utf8_char c) + boff s i"
  by (simp add: boff_def)

lemma boff_append_left: "i \<le> length s \<Longrightarrow> boff (s @ t) i = boff s i"
  by (simp add: boff_def)

lemma boff_mono: "i \<le> j \<Longrightarrow> boff s i \<le> boff s j"
proof -
  assume "i \<le> j"
  then have "take j s = take i s @ take (j - i) (drop i s)"
    by (metis le_add_diff_inverse take_add)
  then show ?thesis by (simp add: boff_def)
qed

lemma boff_le [simp]: "boff s i \<le> length (utf8 s)"
  by (metis boff_def append_take_drop_id utf8_simps(3) length_append le_add1)

lemma take_boff [simp]: "take (boff s i) (utf8 s) = utf8 (take i s)"
proof -
  have "utf8 s = utf8 (take i s) @ utf8 (drop i s)"
    by (metis append_take_drop_id utf8_simps(3))
  then show ?thesis by (simp add: boff_def)
qed

lemma drop_boff [simp]: "drop (boff s i) (utf8 s) = utf8 (drop i s)"
proof -
  have "utf8 s = utf8 (take i s) @ utf8 (drop i s)"
    by (metis append_take_drop_id utf8_simps(3))
  then show ?thesis by (simp add: boff_def)
qed

lemma boundary_iff_boff:
  assumes "valid_str s" and "k \<le> length (utf8 s)"
  shows "str_is_char_boundary (utf8 s) k \<longleftrightarrow> (\<exists>i \<le> length s. k = boff s i)"
  using assms
proof (induction s arbitrary: k)
  case Nil
  then show ?case by (auto simp: str_is_char_boundary_def)
next
  case (Cons c s)
  obtain b bs where u: "utf8_char c = b # bs" and b: "\<not> continuation_byte b"
    and bs: "\<forall>x \<in> set bs. continuation_byte x"
    using utf8_char_cons Cons.prems(1) by (metis valid_str_simps(2))
  have ex: "(\<exists>i \<le> length (c # s). k = boff (c # s) i) \<longleftrightarrow>
      k = 0 \<or> (\<exists>i \<le> length s. k = length (utf8_char c) + boff s i)"
  proof
    assume "\<exists>i \<le> length (c # s). k = boff (c # s) i"
    then obtain i where "i \<le> length (c # s)" and "k = boff (c # s) i" by blast
    then show "k = 0 \<or> (\<exists>i \<le> length s. k = length (utf8_char c) + boff s i)"
      by (cases i) auto
  next
    assume "k = 0 \<or> (\<exists>i \<le> length s. k = length (utf8_char c) + boff s i)"
    then show "\<exists>i \<le> length (c # s). k = boff (c # s) i"
    proof
      assume "k = 0"
      then show ?thesis by (intro exI [of _ 0]) simp
    next
      assume "\<exists>i \<le> length s. k = length (utf8_char c) + boff s i"
      then obtain i where "i \<le> length s" "k = length (utf8_char c) + boff s i" by blast
      then show ?thesis by (intro exI [of _ "Suc i"]) simp
    qed
  qed
  show ?case
  proof (cases "k < length (utf8_char c)")
    case True
    then have no: "\<not> (\<exists>i \<le> length s. k = length (utf8_char c) + boff s i)" by auto
    show ?thesis
    proof (cases "k = 0")
      case True
      then show ?thesis using ex by (simp add: str_is_char_boundary_def)
    next
      case False
      have "utf8 (c # s) ! k = bs ! (k - 1)"
        using True False by (auto simp: u nth_append nth_Cons')
      moreover have "bs ! (k - 1) \<in> set bs" using True False by (simp add: u)
      ultimately have "continuation_byte (utf8 (c # s) ! k)" using bs by simp
      then show ?thesis
        using ex no False True by (auto simp: str_is_char_boundary_def)
    qed
  next
    case False
    define j where "j = k - length (utf8_char c)"
    have k: "k = length (utf8_char c) + j" using False by (simp add: j_def)
    have j: "j \<le> length (utf8 s)" using Cons.prems(2) k by simp
    have head: "j = 0 \<Longrightarrow> 0 < length (utf8 s) \<Longrightarrow> \<not> continuation_byte (utf8 s ! 0)"
    proof -
      assume "0 < length (utf8 s)"
      then obtain d s' where s: "s = d # s'" by (cases s) auto
      then have "scalar_ok d" using Cons.prems(1) by simp
      then obtain x xs where "utf8_char d = x # xs" and "\<not> continuation_byte x"
        using utf8_char_cons by blast
      then show ?thesis by (simp add: s)
    qed
    have "str_is_char_boundary (utf8 (c # s)) k \<longleftrightarrow> str_is_char_boundary (utf8 s) j"
      using head k j by (auto simp: str_is_char_boundary_def nth_append)
    also have "\<dots> \<longleftrightarrow> (\<exists>i \<le> length s. j = boff s i)"
      using Cons.IH [of j] Cons.prems(1) j by simp
    also have "\<dots> \<longleftrightarrow> (\<exists>i \<le> length (c # s). k = boff (c # s) i)"
      using ex k by auto
    finally show ?thesis .
  qed
qed

section \<open>The rope operations\<close>

text \<open>A chunk is a slice: its address and its bytes.  \<open>rp_remove\<close> and \<open>rp_insert\<close> panic
  (\<open>None\<close>) on a char range outside the rope.\<close>

type_synonym slice = "nat \<times> u8 list"

record 'r rope_ops =
  rp_text :: "'r \<Rightarrow> rstring"
  rp_from_str :: "rstring \<Rightarrow> 'r"
  rp_len_bytes :: "'r \<Rightarrow> nat"
  rp_chunks :: "'r \<Rightarrow> slice list"
  rp_chunk_at_byte :: "'r \<Rightarrow> nat \<Rightarrow> u8 list \<times> nat"
  rp_byte_to_char :: "'r \<Rightarrow> nat \<Rightarrow> nat"
  rp_byte_slice :: "'r \<Rightarrow> nat \<Rightarrow> nat \<Rightarrow> rstring"
  rp_remove :: "'r \<Rightarrow> nat \<Rightarrow> nat \<Rightarrow> 'r option"
  rp_insert :: "'r \<Rightarrow> nat \<Rightarrow> rstring \<Rightarrow> 'r option"
  rp_eq :: "'r \<Rightarrow> 'r \<Rightarrow> bool"
  rp_is_instance :: "'r \<Rightarrow> 'r \<Rightarrow> bool"

definition rp_bytes :: "'r rope_ops \<Rightarrow> 'r \<Rightarrow> u8 list" where
  "rp_bytes R r = utf8 (rp_text R r)"

definition slice_in :: "(nat \<Rightarrow> u8) \<Rightarrow> slice \<Rightarrow> bool" where
  "slice_in mem sl \<longleftrightarrow> snd sl = map mem [fst sl ..< fst sl + length (snd sl)]"

definition law_strings :: "'r rope_ops \<Rightarrow> bool" where
  "law_strings R \<longleftrightarrow>
     (\<forall>r. valid_str (rp_text R r)) \<and>
     (\<forall>s. valid_str s \<longrightarrow> rp_text R (rp_from_str R s) = s) \<and>
     (\<forall>r r'. rp_eq R r r' \<longleftrightarrow> rp_text R r = rp_text R r') \<and>
     (\<forall>r r'. rp_is_instance R r r' \<longrightarrow> rp_text R r = rp_text R r')"

definition law_chunks :: "'r rope_ops \<Rightarrow> bool" where
  "law_chunks R \<longleftrightarrow>
     (\<forall>r. rp_len_bytes R r = length (rp_bytes R r)) \<and>
     (\<forall>r. concat (map snd (rp_chunks R r)) = rp_bytes R r) \<and>
     (\<forall>r. \<forall>sl \<in> set (rp_chunks R r). \<exists>s. valid_str s \<and> snd sl = utf8 s) \<and>
     (\<exists>mem. \<forall>r. \<forall>sl \<in> set (rp_chunks R r). slice_in mem sl) \<and>
     (\<forall>r i. i < length (rp_bytes R r) \<longrightarrow>
        (\<exists>xs sl ys. rp_chunks R r = xs @ sl # ys \<and>
           rp_chunk_at_byte R r i = (snd sl, length (concat (map snd xs))) \<and>
           length (concat (map snd xs)) \<le> i \<and>
           i < length (concat (map snd xs)) + length (snd sl)))"

definition law_offsets :: "'r rope_ops \<Rightarrow> bool" where
  "law_offsets R \<longleftrightarrow>
     (\<forall>r i. i \<le> length (rp_text R r) \<longrightarrow> rp_byte_to_char R r (boff (rp_text R r) i) = i) \<and>
     (\<forall>r i j. i \<le> j \<longrightarrow> j \<le> length (rp_text R r) \<longrightarrow>
        rp_byte_slice R r (boff (rp_text R r) i) (boff (rp_text R r) j) =
          take (j - i) (drop i (rp_text R r)))"

definition law_edits :: "'r rope_ops \<Rightarrow> bool" where
  "law_edits R \<longleftrightarrow>
     (\<forall>r i j. i \<le> j \<and> j \<le> length (rp_text R r) \<longrightarrow>
        (\<exists>r'. rp_remove R r i j = Some r' \<and>
           rp_text R r' = take i (rp_text R r) @ drop j (rp_text R r))) \<and>
     (\<forall>r i j. \<not> (i \<le> j \<and> j \<le> length (rp_text R r)) \<longrightarrow> rp_remove R r i j = None) \<and>
     (\<forall>r i s. i \<le> length (rp_text R r) \<and> valid_str s \<longrightarrow>
        (\<exists>r'. rp_insert R r i s = Some r' \<and>
           rp_text R r' = take i (rp_text R r) @ s @ drop i (rp_text R r))) \<and>
     (\<forall>r i s. length (rp_text R r) < i \<longrightarrow> rp_insert R r i s = None)"

definition rope_laws :: "'r rope_ops \<Rightarrow> bool" where
  "rope_laws R \<longleftrightarrow> law_strings R \<and> law_chunks R \<and> law_offsets R \<and> law_edits R"

lemma rope_lawsD:
  assumes "rope_laws R"
  shows rope_valid: "valid_str (rp_text R r)"
    and rope_from_str: "valid_str s \<Longrightarrow> rp_text R (rp_from_str R s) = s"
    and rope_eq: "rp_eq R r r' \<longleftrightarrow> rp_text R r = rp_text R r'"
    and rope_is_instance: "rp_is_instance R r r' \<Longrightarrow> rp_text R r = rp_text R r'"
    and rope_len_bytes: "rp_len_bytes R r = length (rp_bytes R r)"
    and rope_chunks: "concat (map snd (rp_chunks R r)) = rp_bytes R r"
    and rope_byte_to_char:
      "i \<le> length (rp_text R r) \<Longrightarrow> rp_byte_to_char R r (boff (rp_text R r) i) = i"
    and rope_byte_slice:
      "i \<le> j \<Longrightarrow> j \<le> length (rp_text R r) \<Longrightarrow>
        rp_byte_slice R r (boff (rp_text R r) i) (boff (rp_text R r) j) =
          take (j - i) (drop i (rp_text R r))"
  using assms
  by (simp_all add: rope_laws_def law_strings_def law_chunks_def law_offsets_def)

lemma rope_memory:
  "rope_laws R \<Longrightarrow> \<exists>mem. \<forall>r. \<forall>sl \<in> set (rp_chunks R r). slice_in mem sl"
  unfolding rope_laws_def law_chunks_def by blast

lemma rope_chunk_at_byte:
  assumes "rope_laws R" and "i < length (rp_bytes R r)"
  obtains xs sl ys s where "rp_chunks R r = xs @ sl # ys"
    and "rp_chunk_at_byte R r i = (snd sl, length (concat (map snd xs)))"
    and "length (concat (map snd xs)) \<le> i"
    and "i < length (concat (map snd xs)) + length (snd sl)"
    and "valid_str s" and "snd sl = utf8 s"
proof -
  obtain xs sl ys where c: "rp_chunks R r = xs @ sl # ys"
    "rp_chunk_at_byte R r i = (snd sl, length (concat (map snd xs)))"
    "length (concat (map snd xs)) \<le> i"
    "i < length (concat (map snd xs)) + length (snd sl)"
    using assms unfolding rope_laws_def law_chunks_def by blast
  then have "sl \<in> set (rp_chunks R r)" by simp
  then obtain s where "valid_str s" "snd sl = utf8 s"
    using assms(1) unfolding rope_laws_def law_chunks_def by blast
  with c that show ?thesis by blast
qed

lemma rope_remove:
  assumes "rope_laws R" and "i \<le> j" and "j \<le> length (rp_text R r)"
  obtains r' where "rp_remove R r i j = Some r'"
    and "rp_text R r' = take i (rp_text R r) @ drop j (rp_text R r)"
  using assms unfolding rope_laws_def law_edits_def by blast

lemma rope_insert:
  assumes "rope_laws R" and "i \<le> length (rp_text R r)" and "valid_str s"
  obtains r' where "rp_insert R r i s = Some r'"
    and "rp_text R r' = take i (rp_text R r) @ s @ drop i (rp_text R r)"
  using assms unfolding rope_laws_def law_edits_def by blast

lemma rope_remove_panics:
  "rope_laws R \<Longrightarrow> \<not> (i \<le> j \<and> j \<le> length (rp_text R r)) \<Longrightarrow> rp_remove R r i j = None"
  unfolding rope_laws_def law_edits_def by blast

section \<open>A rope that satisfies the laws\<close>

text \<open>
  The flat rope is the list of its chars, each one a leaf of its own at the address
  \<open>4 * c\<close> of a table of all encoded chars; a code point outside the range reads as the
  replacement character, as in a lossy decoder.
\<close>

definition to_scalar :: "rchar \<Rightarrow> rchar" where
  "to_scalar c = (if scalar_ok c then c else 0xFFFD)"

definition flat_text :: "rstring \<Rightarrow> rstring" where
  "flat_text s = map to_scalar s"

definition flat_chunks :: "rstring \<Rightarrow> slice list" where
  "flat_chunks s = map (\<lambda>c. (4 * c, utf8_char c)) (flat_text s)"

fun char_at_byte :: "rstring \<Rightarrow> nat \<Rightarrow> nat \<Rightarrow> u8 list \<times> nat" where
  "char_at_byte [] start i = ([], start)"
| "char_at_byte (c # s) start i =
     (if i < length (utf8_char c) then (utf8_char c, start)
      else char_at_byte s (start + length (utf8_char c)) (i - length (utf8_char c)))"

fun chars_in_bytes :: "rstring \<Rightarrow> nat \<Rightarrow> nat" where
  "chars_in_bytes [] k = 0"
| "chars_in_bytes (c # s) k =
     (if k < length (utf8_char c) then 0 else Suc (chars_in_bytes s (k - length (utf8_char c))))"

definition flat_rope :: "rstring rope_ops" where
  "flat_rope = \<lparr>
     rp_text = flat_text,
     rp_from_str = (\<lambda>s. s),
     rp_len_bytes = (\<lambda>r. length (utf8 (flat_text r))),
     rp_chunks = flat_chunks,
     rp_chunk_at_byte = (\<lambda>r i. char_at_byte (flat_text r) 0 i),
     rp_byte_to_char = (\<lambda>r k. chars_in_bytes (flat_text r) k),
     rp_byte_slice = (\<lambda>r a b.
       let s = flat_text r; i = chars_in_bytes s a; j = chars_in_bytes s b
       in take (j - i) (drop i s)),
     rp_remove = (\<lambda>r i j. if i \<le> j \<and> j \<le> length r then Some (take i r @ drop j r) else None),
     rp_insert = (\<lambda>r i s. if i \<le> length r then Some (take i r @ s @ drop i r) else None),
     rp_eq = (\<lambda>r r'. flat_text r = flat_text r'),
     rp_is_instance = (\<lambda>r r'. r = r')\<rparr>"

lemma to_scalar_ok [simp]: "scalar_ok (to_scalar c)"
  by (simp add: to_scalar_def) (simp add: scalar_ok_def)

lemma flat_text_valid [simp]: "valid_str (flat_text s)"
  by (auto simp: valid_str_def flat_text_def)

lemma flat_text_id: "valid_str s \<Longrightarrow> flat_text s = s"
  by (induction s) (auto simp: flat_text_def to_scalar_def)

lemma chars_in_bytes_boff: "i \<le> length s \<Longrightarrow> chars_in_bytes s (boff s i) = i"
proof (induction s arbitrary: i)
  case (Cons c s)
  then show ?case by (cases i) auto
qed simp

lemma char_at_byte_split:
  assumes "i < length (utf8 s)"
  shows "\<exists>us c vs. s = us @ c # vs \<and>
    char_at_byte s st i = (utf8_char c, st + length (utf8 us)) \<and>
    length (utf8 us) \<le> i \<and> i < length (utf8 us) + length (utf8_char c)"
  using assms
proof (induction s arbitrary: st i)
  case (Cons c s)
  show ?case
  proof (cases "i < length (utf8_char c)")
    case True
    then have "c # s = [] @ c # s \<and> char_at_byte (c # s) st i = (utf8_char c, st + length (utf8 [])) \<and>
        length (utf8 []) \<le> i \<and> i < length (utf8 []) + length (utf8_char c)" by simp
    then show ?thesis by blast
  next
    case False
    then have "i - length (utf8_char c) < length (utf8 s)" using Cons.prems by simp
    then obtain us d vs where "s = us @ d # vs"
      "char_at_byte s (st + length (utf8_char c)) (i - length (utf8_char c)) =
         (utf8_char d, st + length (utf8_char c) + length (utf8 us))"
      "length (utf8 us) \<le> i - length (utf8_char c)"
      "i - length (utf8_char c) < length (utf8 us) + length (utf8_char d)"
      using Cons.IH by blast
    moreover from this(3,4) False
    have "length (utf8 (c # us)) \<le> i" "i < length (utf8 (c # us)) + length (utf8_char d)" by auto
    ultimately have "c # s = (c # us) @ d # vs \<and>
        char_at_byte (c # s) st i = (utf8_char d, st + length (utf8 (c # us))) \<and>
        length (utf8 (c # us)) \<le> i \<and> i < length (utf8 (c # us)) + length (utf8_char d)"
      using False by simp
    then show ?thesis by blast
  qed
qed simp

lemma utf8_char_length: "length (utf8_char c) \<le> 4"
  by (simp add: utf8_char_def)

lemma flat_chunk_slice: "slice_in (\<lambda>a. utf8_char (a div 4) ! (a mod 4)) (4 * c, utf8_char c)"
proof -
  let ?at = "\<lambda>a. utf8_char (a div 4) ! (a mod 4)"
  have "utf8_char c = map ?at [4 * c ..< 4 * c + length (utf8_char c)]"
  proof (rule nth_equalityI)
    fix i
    assume i: "i < length (utf8_char c)"
    then have "i < 4" using utf8_char_length [of c] by simp
    then have "(4 * c + i) div 4 = c" "(4 * c + i) mod 4 = i" by simp_all
    with i show "utf8_char c ! i = map ?at [4 * c ..< 4 * c + length (utf8_char c)] ! i"
      by (simp del: div_mult_self1 div_mult_self2 mod_mult_self1 mod_mult_self2)
  qed simp
  then show ?thesis by (simp only: slice_in_def fst_conv snd_conv)
qed

lemma flat_rope_laws: "rope_laws flat_rope"
  unfolding rope_laws_def
proof (intro conjI)
  show "law_strings flat_rope"
    by (simp add: law_strings_def flat_rope_def flat_text_id)
  have chunks: "concat (map snd (flat_chunks s)) = utf8 (flat_text s)" for s
    by (simp add: flat_chunks_def utf8_def comp_def)
  have at: "\<exists>xs sl ys. flat_chunks r = xs @ sl # ys \<and>
      char_at_byte (flat_text r) 0 i = (snd sl, length (concat (map snd xs))) \<and>
      length (concat (map snd xs)) \<le> i \<and> i < length (concat (map snd xs)) + length (snd sl)"
    if i: "i < length (utf8 (flat_text r))" for r i
  proof -
    obtain us c vs where s: "flat_text r = us @ c # vs"
      "char_at_byte (flat_text r) 0 i = (utf8_char c, length (utf8 us))"
      "length (utf8 us) \<le> i" "i < length (utf8 us) + length (utf8_char c)"
      using char_at_byte_split [OF i, of 0] by auto
    let ?f = "\<lambda>c. (4 * c, utf8_char c)"
    have "concat (map snd (map ?f us)) = utf8 us" by (simp add: utf8_def comp_def)
    with s show ?thesis
      by (intro exI [of _ "map ?f us"] exI [of _ "?f c"] exI [of _ "map ?f vs"])
        (simp add: flat_chunks_def)
  qed
  have valid: "\<exists>s. valid_str s \<and> snd sl = utf8 s" if sl: "sl \<in> set (flat_chunks r)" for sl r
  proof -
    obtain c where c: "c \<in> set (flat_text r)" "sl = (4 * c, utf8_char c)"
      using sl by (auto simp: flat_chunks_def)
    then have "scalar_ok c" using flat_text_valid [of r] by (simp add: valid_str_def)
    with c show ?thesis by (intro exI [of _ "[c]"]) simp
  qed
  have mem: "\<forall>r. \<forall>sl \<in> set (flat_chunks r). slice_in (\<lambda>a. utf8_char (a div 4) ! (a mod 4)) sl"
    by (auto simp: flat_chunks_def flat_chunk_slice)
  show "law_chunks flat_rope"
    unfolding law_chunks_def rp_bytes_def
    using chunks at valid mem by (auto simp: flat_rope_def)
  show "law_offsets flat_rope"
    by (simp add: law_offsets_def flat_rope_def chars_in_bytes_boff Let_def)
  show "law_edits flat_rope"
    by (auto simp: law_edits_def flat_rope_def)
      (auto simp: flat_text_id [unfolded flat_text_def] flat_text_def take_map drop_map)
qed

end
