(* ===== verification/RopeDelta.thy ===== *)
theory RopeDelta
  imports Rope "HOL-Library.Sublist"
begin

text \<open>
  The reversible edge delta of the undo tree (\<open>crates/hjkl-buffer/src/undo.rs\<close>, type
  \<open>Delta\<close>): the chunk walks that find the longest common byte prefix and suffix of two
  ropes, the snapping of both cut points to char boundaries, and the two ways to apply a
  delta.  The lemmas show that the walks compute the reference values on the ropes'
  bytes, and that a delta takes the parent's text to the child's and back.
\<close>

section \<open>The definitions of the source\<close>

record delta =
  d_start :: nat
  d_old :: rstring
  d_new :: rstring

definition delta_default :: delta where
  "delta_default = \<lparr>d_start = 0, d_old = [], d_new = []\<rparr>"

definition is_char_boundary :: "'r rope_ops \<Rightarrow> 'r \<Rightarrow> nat \<Rightarrow> bool" where
  "is_char_boundary R r byte_idx =
     (if byte_idx = 0 \<or> byte_idx = rp_len_bytes R r then True
      else case rp_chunk_at_byte R r byte_idx of
        (chunk, chunk_start) \<Rightarrow> str_is_char_boundary chunk (byte_idx - chunk_start))"

text \<open>The loop \<open>while at[i] == bt[i] { i += 1 }\<close>, run on slices that differ.\<close>

fun mismatch_at :: "u8 list \<Rightarrow> u8 list \<Rightarrow> nat" where
  "mismatch_at (a # at) (b # bt) = (if a = b then Suc (mismatch_at at bt) else 0)"
| "mismatch_at _ _ = 0"

text \<open>One state of the walk: the chunks not yet fetched on both sides, the rest of the
  chunk each side stands in (with its address), and the bytes matched so far.\<close>

function common_prefix_loop ::
  "nat \<Rightarrow> slice list \<Rightarrow> slice list \<Rightarrow> slice \<Rightarrow> slice \<Rightarrow> nat \<Rightarrow> nat" where
  "common_prefix_loop cap a_chunks b_chunks at bt n =
     (if n < cap then
        (if snd at = [] then
           (case a_chunks of
              c # cs \<Rightarrow> common_prefix_loop cap cs b_chunks c bt n
            | [] \<Rightarrow> n)
         else if snd bt = [] then
           (case b_chunks of
              c # cs \<Rightarrow> common_prefix_loop cap a_chunks cs at c n
            | [] \<Rightarrow> n)
         else if fst at = fst bt \<and> length (snd at) = length (snd bt) \<and>
             length (snd at) \<le> cap - n then
           common_prefix_loop cap a_chunks b_chunks (0, []) (0, []) (n + length (snd at))
         else
           (let m = min (min (length (snd at)) (length (snd bt))) (cap - n) in
            if take m (snd at) = take m (snd bt) then
              common_prefix_loop cap a_chunks b_chunks
                (fst at + m, drop m (snd at)) (fst bt + m, drop m (snd bt)) (n + m)
            else n + mismatch_at (snd at) (snd bt)))
      else n)"
  by pat_completeness auto

definition walk_measure :: "slice list \<Rightarrow> slice \<Rightarrow> nat" where
  "walk_measure cs s = sum_list (map (\<lambda>c. Suc (length (snd c))) cs) + length (snd s)"

termination common_prefix_loop
  by (relation "measure (\<lambda>(cap, ac, bc, at, bt, n). walk_measure ac at + walk_measure bc bt)")
    (auto simp: walk_measure_def)

declare common_prefix_loop.simps [simp del]

definition common_prefix_bytes :: "'r rope_ops \<Rightarrow> 'r \<Rightarrow> 'r \<Rightarrow> nat \<Rightarrow> nat" where
  "common_prefix_bytes R a b cap =
     common_prefix_loop cap (rp_chunks R a) (rp_chunks R b) (0, []) (0, []) 0"

text \<open>The mirror image: the chunk cursors start at the end and step back.\<close>

function common_suffix_loop ::
  "nat \<Rightarrow> slice list \<Rightarrow> slice list \<Rightarrow> slice \<Rightarrow> slice \<Rightarrow> nat \<Rightarrow> nat" where
  "common_suffix_loop cap a_chunks b_chunks at bt n =
     (if n < cap then
        (if snd at = [] then
           (case a_chunks of
              c # cs \<Rightarrow> common_suffix_loop cap cs b_chunks c bt n
            | [] \<Rightarrow> n)
         else if snd bt = [] then
           (case b_chunks of
              c # cs \<Rightarrow> common_suffix_loop cap a_chunks cs at c n
            | [] \<Rightarrow> n)
         else if fst at = fst bt \<and> length (snd at) = length (snd bt) \<and>
             length (snd at) \<le> cap - n then
           common_suffix_loop cap a_chunks b_chunks (0, []) (0, []) (n + length (snd at))
         else
           (let m = min (min (length (snd at)) (length (snd bt))) (cap - n);
                a_tail = drop (length (snd at) - m) (snd at);
                b_tail = drop (length (snd bt) - m) (snd bt)
            in if a_tail = b_tail then
                 common_suffix_loop cap a_chunks b_chunks
                   (fst at, take (length (snd at) - m) (snd at))
                   (fst bt, take (length (snd bt) - m) (snd bt)) (n + m)
               else n + mismatch_at (rev a_tail) (rev b_tail)))
      else n)"
  by pat_completeness auto

termination common_suffix_loop
  by (relation "measure (\<lambda>(cap, ac, bc, at, bt, n). walk_measure ac at + walk_measure bc bt)")
    (auto simp: walk_measure_def)

declare common_suffix_loop.simps [simp del]

definition common_suffix_bytes :: "'r rope_ops \<Rightarrow> 'r \<Rightarrow> 'r \<Rightarrow> nat \<Rightarrow> nat" where
  "common_suffix_bytes R a b cap =
     common_suffix_loop cap (rev (rp_chunks R a)) (rev (rp_chunks R b)) (0, []) (0, []) 0"

text \<open>The two snapping loops of \<open>diff\<close>.\<close>

fun snap_down :: "'r rope_ops \<Rightarrow> 'r \<Rightarrow> nat \<Rightarrow> nat" where
  "snap_down R r 0 = 0"
| "snap_down R r (Suc pre) =
     (if is_char_boundary R r (Suc pre) then Suc pre else snap_down R r pre)"

function snap_up :: "'r rope_ops \<Rightarrow> 'r \<Rightarrow> nat \<Rightarrow> nat \<Rightarrow> nat" where
  "snap_up R r a_len a_end =
     (if a_end < a_len \<and> \<not> is_char_boundary R r a_end then snap_up R r a_len (Suc a_end)
      else a_end)"
  by pat_completeness auto

termination snap_up
  by (relation "measure (\<lambda>(R, r, a_len, a_end). a_len - a_end)") auto

declare snap_up.simps [simp del]

definition diff :: "'r rope_ops \<Rightarrow> 'r \<Rightarrow> 'r \<Rightarrow> delta" where
  "diff R parent child =
     (let a_len = rp_len_bytes R parent;
          b_len = rp_len_bytes R child;
          max_pre = min a_len b_len;
          pre = snap_down R parent (common_prefix_bytes R parent child max_pre);
          suf = common_suffix_bytes R parent child (max_pre - pre);
          a_end = snap_up R parent a_len (a_len - suf);
          b_end = b_len - (a_len - a_end)
      in \<lparr>d_start = rp_byte_to_char R parent pre,
          d_old = rp_byte_slice R parent pre a_end,
          d_new = rp_byte_slice R child pre b_end\<rparr>)"

definition apply_forward :: "'r rope_ops \<Rightarrow> 'r \<Rightarrow> delta \<Rightarrow> 'r option" where
  "apply_forward R parent d =
     (case rp_remove R parent (d_start d) (d_start d + length (d_old d)) of
        None \<Rightarrow> None
      | Some r \<Rightarrow> rp_insert R r (d_start d) (d_new d))"

definition apply_inverse :: "'r rope_ops \<Rightarrow> 'r \<Rightarrow> delta \<Rightarrow> 'r option" where
  "apply_inverse R child d =
     (case rp_remove R child (d_start d) (d_start d + length (d_new d)) of
        None \<Rightarrow> None
      | Some r \<Rightarrow> rp_insert R r (d_start d) (d_old d))"

section \<open>The chunk walks compute the common prefix and suffix\<close>

text \<open>The reference: the length of the longest common prefix of two byte strings.\<close>

definition lcp :: "u8 list \<Rightarrow> u8 list \<Rightarrow> nat" where
  "lcp xs ys = length (longest_common_prefix xs ys)"

lemma lcp_simps [simp]:
  "lcp [] ys = 0"
  "lcp xs [] = 0"
  "lcp (x # xs) (y # ys) = (if x = y then Suc (lcp xs ys) else 0)"
  by (simp_all add: lcp_def)

lemma lcp_append_same [simp]: "lcp (xs @ ys) (xs @ zs) = length xs + lcp ys zs"
  by (induction xs) auto

lemma lcp_take: "take (lcp xs ys) xs = take (lcp xs ys) ys"
  by (induction xs ys rule: list_induct2') auto

lemma lcp_take_le: "s \<le> lcp xs ys \<Longrightarrow> take s xs = take s ys"
  by (metis lcp_take min.absorb1 take_take)

lemma lcp_le: "lcp xs ys \<le> length xs" "lcp xs ys \<le> length ys"
  by (induction xs ys rule: list_induct2') auto

lemma lcp_greatest: "take k xs = take k ys \<Longrightarrow> k \<le> length xs \<Longrightarrow> k \<le> length ys \<Longrightarrow> k \<le> lcp xs ys"
proof (induction xs ys arbitrary: k rule: list_induct2')
  case (4 x xs y ys)
  then show ?case by (cases k) auto
qed auto

lemma mismatch_lcp:
  assumes "take m xs \<noteq> take m ys" and "m \<le> length xs" and "m \<le> length ys"
  shows "mismatch_at xs ys = lcp (xs @ us) (ys @ vs) \<and> lcp (xs @ us) (ys @ vs) < m"
  using assms
proof (induction xs ys arbitrary: m rule: list_induct2')
  case (4 x xs y ys)
  then obtain k where "m = Suc k" by (cases m) auto
  with 4 show ?case by auto
qed auto

lemma slice_in_empty [simp]: "slice_in mem (p, [])"
  by (simp add: slice_in_def)

lemma slice_in_nth: "slice_in mem (p, bs) \<longleftrightarrow> (\<forall>i < length bs. bs ! i = mem (p + i))"
proof -
  have "length bs = length (map mem [p ..< p + length bs])" by simp
  moreover have "map mem [p ..< p + length bs] ! i = mem (p + i)" if "i < length bs" for i
    using that by simp
  ultimately show ?thesis
    unfolding slice_in_def fst_conv snd_conv
    by (subst list_eq_iff_nth_eq) metis
qed

lemma slice_in_drop: "slice_in mem s \<Longrightarrow> slice_in mem (fst s + m, drop m (snd s))"
  by (cases s) (auto simp: slice_in_nth add.assoc)

lemma slice_in_take: "slice_in mem s \<Longrightarrow> slice_in mem (fst s, take m (snd s))"
  by (cases s) (auto simp: slice_in_nth)

lemma slice_in_same:
  "slice_in mem s \<Longrightarrow> slice_in mem t \<Longrightarrow> fst s = fst t \<Longrightarrow> length (snd s) = length (snd t) \<Longrightarrow>
    snd s = snd t"
  by (simp add: slice_in_def)

definition bytes_ahead :: "slice \<Rightarrow> slice list \<Rightarrow> u8 list" where
  "bytes_ahead s cs = snd s @ concat (map snd cs)"

definition bytes_behind :: "slice \<Rightarrow> slice list \<Rightarrow> u8 list" where
  "bytes_behind s cs = rev (snd s) @ concat (map (rev \<circ> snd) cs)"

lemma bytes_ahead_simps [simp]:
  "bytes_ahead (p, []) [] = []"
  "bytes_ahead (p, []) (c # cs) = bytes_ahead c cs"
  by (simp_all add: bytes_ahead_def)

lemma bytes_behind_simps [simp]:
  "bytes_behind (p, []) [] = []"
  "bytes_behind (p, []) (c # cs) = bytes_behind c cs"
  by (simp_all add: bytes_behind_def)

lemma bytes_ahead_fetch:
  "snd s = [] \<Longrightarrow> bytes_ahead s (c # cs) = bytes_ahead c cs"
  "snd s = [] \<Longrightarrow> bytes_ahead s [] = []"
  by (simp_all add: bytes_ahead_def)

lemma bytes_behind_fetch:
  "snd s = [] \<Longrightarrow> bytes_behind s (c # cs) = bytes_behind c cs"
  "snd s = [] \<Longrightarrow> bytes_behind s [] = []"
  by (simp_all add: bytes_behind_def)

lemma bytes_ahead_take:
  "m \<le> length (snd s) \<Longrightarrow>
    bytes_ahead s cs = take m (snd s) @ bytes_ahead (p, drop m (snd s)) cs"
  by (simp add: bytes_ahead_def flip: append_assoc)

lemma bytes_behind_take:
  "m \<le> length (snd s) \<Longrightarrow>
    bytes_behind s cs =
      rev (drop (length (snd s) - m) (snd s)) @ bytes_behind (p, take (length (snd s) - m) (snd s)) cs"
  by (simp add: bytes_behind_def flip: append_assoc rev_append)

lemma min_shift: "m \<le> c - n \<Longrightarrow> n + m + min (c - (n + m)) l = n + min (c - n) (m + l)"
  for n m c l :: nat
  by arith

lemma common_prefix_loop_lcp:
  assumes "n \<le> cap" and "slice_in mem at" and "slice_in mem bt"
    and "\<forall>c \<in> set ac. slice_in mem c" and "\<forall>c \<in> set bc. slice_in mem c"
  shows "common_prefix_loop cap ac bc at bt n =
    n + min (cap - n) (lcp (bytes_ahead at ac) (bytes_ahead bt bc))"
  using assms
proof (induction cap ac bc at bt n rule: common_prefix_loop.induct)
  case (1 cap ac bc at bt n)
  let ?m = "min (min (length (snd at)) (length (snd bt))) (cap - n)"
  consider (full) "\<not> n < cap"
    | (fetch_a) "n < cap" "snd at = []"
    | (fetch_b) "n < cap" "snd at \<noteq> []" "snd bt = []"
    | (shared) "n < cap" "snd at \<noteq> []" "snd bt \<noteq> []" "fst at = fst bt"
        "length (snd at) = length (snd bt)" "length (snd at) \<le> cap - n"
    | (equal) "n < cap" "snd at \<noteq> []" "snd bt \<noteq> []"
        "\<not> (fst at = fst bt \<and> length (snd at) = length (snd bt) \<and> length (snd at) \<le> cap - n)"
        "take ?m (snd at) = take ?m (snd bt)"
    | (differ) "n < cap" "snd at \<noteq> []" "snd bt \<noteq> []"
        "\<not> (fst at = fst bt \<and> length (snd at) = length (snd bt) \<and> length (snd at) \<le> cap - n)"
        "take ?m (snd at) \<noteq> take ?m (snd bt)"
    by blast
  then show ?case
  proof cases
    case full
    then show ?thesis using "1.prems" by (simp add: common_prefix_loop.simps)
  next
    case fetch_a
    then show ?thesis
      using "1.IH"(1) "1.prems"
      by (cases ac) (simp_all add: common_prefix_loop.simps [of _ _ _ at] bytes_ahead_fetch)
  next
    case fetch_b
    then show ?thesis
      using "1.IH"(2) "1.prems"
      by (cases bc) (simp_all add: common_prefix_loop.simps [of _ _ _ _ bt] bytes_ahead_fetch)
  next
    case shared
    have same: "snd at = snd bt" using slice_in_same "1.prems"(2,3) shared(4,5) by blast
    have "common_prefix_loop cap ac bc at bt n =
        common_prefix_loop cap ac bc (0, []) (0, []) (n + length (snd at))"
      using shared by (subst common_prefix_loop.simps) simp
    also have "\<dots> = n + length (snd at) + min (cap - (n + length (snd at)))
        (lcp (bytes_ahead (0, []) ac) (bytes_ahead (0, []) bc))"
      using shared "1.prems" by (intro "1.IH"(3)) auto
    finally show ?thesis
      using shared(6) by (simp add: bytes_ahead_def same)
  next
    case equal
    let ?at = "(fst at + ?m, drop ?m (snd at))"
    let ?bt = "(fst bt + ?m, drop ?m (snd bt))"
    have "common_prefix_loop cap ac bc at bt n = common_prefix_loop cap ac bc ?at ?bt (n + ?m)"
      by (subst common_prefix_loop.simps) (simp only: equal if_True if_False Let_def refl)
    also have "\<dots> = n + ?m + min (cap - (n + ?m)) (lcp (bytes_ahead ?at ac) (bytes_ahead ?bt bc))"
      using equal "1.prems" by (intro "1.IH"(4)) (auto simp: slice_in_drop)
    also have "\<dots> = n + min (cap - n) (?m + lcp (bytes_ahead ?at ac) (bytes_ahead ?bt bc))"
      by (rule min_shift) simp
    also have "?m + lcp (bytes_ahead ?at ac) (bytes_ahead ?bt bc) =
        lcp (bytes_ahead at ac) (bytes_ahead bt bc)"
    proof -
      have l: "length (take ?m (snd bt)) = ?m" by simp
      have "bytes_ahead at ac = take ?m (snd bt) @ bytes_ahead ?at ac"
        using bytes_ahead_take [of ?m at ac "fst at + ?m"] by (simp only: equal(5))
      moreover have "bytes_ahead bt bc = take ?m (snd bt) @ bytes_ahead ?bt bc"
        by (rule bytes_ahead_take) simp
      ultimately show ?thesis by (simp only: lcp_append_same l)
    qed
    finally show ?thesis .
  next
    case differ
    have "common_prefix_loop cap ac bc at bt n = n + mismatch_at (snd at) (snd bt)"
      by (subst common_prefix_loop.simps) (simp only: differ if_True if_False Let_def refl)
    with mismatch_lcp [OF differ(5), of "concat (map snd ac)" "concat (map snd bc)"]
    show ?thesis by (simp add: bytes_ahead_def)
  qed
qed

lemma common_suffix_loop_lcp:
  assumes "n \<le> cap" and "slice_in mem at" and "slice_in mem bt"
    and "\<forall>c \<in> set ac. slice_in mem c" and "\<forall>c \<in> set bc. slice_in mem c"
  shows "common_suffix_loop cap ac bc at bt n =
    n + min (cap - n) (lcp (bytes_behind at ac) (bytes_behind bt bc))"
  using assms
proof (induction cap ac bc at bt n rule: common_suffix_loop.induct)
  case (1 cap ac bc at bt n)
  let ?m = "min (min (length (snd at)) (length (snd bt))) (cap - n)"
  let ?a_tail = "drop (length (snd at) - ?m) (snd at)"
  let ?b_tail = "drop (length (snd bt) - ?m) (snd bt)"
  let ?at = "(fst at, take (length (snd at) - ?m) (snd at))"
  let ?bt = "(fst bt, take (length (snd bt) - ?m) (snd bt))"
  have a_split: "bytes_behind at ac = rev ?a_tail @ bytes_behind ?at ac"
    and b_split: "bytes_behind bt bc = rev ?b_tail @ bytes_behind ?bt bc"
    by (rule bytes_behind_take, simp)+
  consider (full) "\<not> n < cap"
    | (fetch_a) "n < cap" "snd at = []"
    | (fetch_b) "n < cap" "snd at \<noteq> []" "snd bt = []"
    | (shared) "n < cap" "snd at \<noteq> []" "snd bt \<noteq> []" "fst at = fst bt"
        "length (snd at) = length (snd bt)" "length (snd at) \<le> cap - n"
    | (equal) "n < cap" "snd at \<noteq> []" "snd bt \<noteq> []"
        "\<not> (fst at = fst bt \<and> length (snd at) = length (snd bt) \<and> length (snd at) \<le> cap - n)"
        "?a_tail = ?b_tail"
    | (differ) "n < cap" "snd at \<noteq> []" "snd bt \<noteq> []"
        "\<not> (fst at = fst bt \<and> length (snd at) = length (snd bt) \<and> length (snd at) \<le> cap - n)"
        "?a_tail \<noteq> ?b_tail"
    by blast
  then show ?case
  proof cases
    case full
    then show ?thesis using "1.prems" by (simp add: common_suffix_loop.simps)
  next
    case fetch_a
    then show ?thesis
      using "1.IH"(1) "1.prems"
      by (cases ac) (simp_all add: common_suffix_loop.simps [of _ _ _ at] bytes_behind_fetch)
  next
    case fetch_b
    then show ?thesis
      using "1.IH"(2) "1.prems"
      by (cases bc) (simp_all add: common_suffix_loop.simps [of _ _ _ _ bt] bytes_behind_fetch)
  next
    case shared
    have same: "snd at = snd bt" using slice_in_same "1.prems"(2,3) shared(4,5) by blast
    have "common_suffix_loop cap ac bc at bt n =
        common_suffix_loop cap ac bc (0, []) (0, []) (n + length (snd at))"
      using shared by (subst common_suffix_loop.simps) simp
    also have "\<dots> = n + length (snd at) + min (cap - (n + length (snd at)))
        (lcp (bytes_behind (0, []) ac) (bytes_behind (0, []) bc))"
      using shared "1.prems" by (intro "1.IH"(3)) auto
    finally show ?thesis
      using shared(6) by (simp add: bytes_behind_def same)
  next
    case equal
    have "common_suffix_loop cap ac bc at bt n = common_suffix_loop cap ac bc ?at ?bt (n + ?m)"
      by (subst common_suffix_loop.simps) (simp only: equal if_True if_False Let_def refl)
    also have "\<dots> = n + ?m + min (cap - (n + ?m)) (lcp (bytes_behind ?at ac) (bytes_behind ?bt bc))"
      using equal "1.prems" by (intro "1.IH"(4)) (auto simp: slice_in_take)
    also have "\<dots> = n + min (cap - n) (?m + lcp (bytes_behind ?at ac) (bytes_behind ?bt bc))"
      by (rule min_shift) simp
    also have "?m + lcp (bytes_behind ?at ac) (bytes_behind ?bt bc) =
        lcp (bytes_behind at ac) (bytes_behind bt bc)"
    proof -
      have "length (rev ?b_tail) = ?m" by simp
      then show ?thesis by (simp only: a_split b_split equal(5) lcp_append_same)
    qed
    finally show ?thesis .
  next
    case differ
    have "common_suffix_loop cap ac bc at bt n = n + mismatch_at (rev ?a_tail) (rev ?b_tail)"
      by (subst common_suffix_loop.simps) (simp only: differ if_True if_False Let_def refl)
    moreover have "mismatch_at (rev ?a_tail) (rev ?b_tail) =
        lcp (bytes_behind at ac) (bytes_behind bt bc) \<and>
        lcp (bytes_behind at ac) (bytes_behind bt bc) < ?m"
      unfolding a_split b_split using differ(5) by (intro mismatch_lcp) auto
    ultimately show ?thesis by simp
  qed
qed

lemma common_prefix_bytes_lcp:
  assumes "rope_laws R"
  shows "common_prefix_bytes R a b cap = min cap (lcp (rp_bytes R a) (rp_bytes R b))"
proof -
  obtain mem where "\<forall>r. \<forall>sl \<in> set (rp_chunks R r). slice_in mem sl"
    using rope_memory [OF assms] by blast
  then show ?thesis
    unfolding common_prefix_bytes_def
    by (subst common_prefix_loop_lcp [where mem = mem])
      (auto simp: bytes_ahead_def rope_chunks [OF assms])
qed

lemma rev_concat_chunks: "concat (map (rev \<circ> snd) (rev cs)) = rev (concat (map snd cs))"
  by (induction cs) auto

lemma common_suffix_bytes_lcp:
  assumes "rope_laws R"
  shows "common_suffix_bytes R a b cap =
    min cap (lcp (rev (rp_bytes R a)) (rev (rp_bytes R b)))"
proof -
  obtain mem where "\<forall>r. \<forall>sl \<in> set (rp_chunks R r). slice_in mem sl"
    using rope_memory [OF assms] by blast
  then show ?thesis
    unfolding common_suffix_bytes_def
    by (subst common_suffix_loop_lcp [where mem = mem])
      (auto simp: bytes_behind_def rev_concat_chunks rope_chunks [OF assms])
qed

section \<open>Snapping to char boundaries\<close>

lemma is_char_boundary_bytes:
  assumes "rope_laws R" and "k \<le> length (rp_bytes R r)"
  shows "is_char_boundary R r k \<longleftrightarrow> str_is_char_boundary (rp_bytes R r) k"
proof (cases "k = 0 \<or> k = length (rp_bytes R r)")
  case True
  then show ?thesis
    by (auto simp: is_char_boundary_def str_is_char_boundary_def rope_len_bytes [OF assms(1)])
next
  case False
  then have k: "k < length (rp_bytes R r)" using assms(2) by simp
  obtain xs sl ys s where c: "rp_chunks R r = xs @ sl # ys"
    "rp_chunk_at_byte R r k = (snd sl, length (concat (map snd xs)))"
    "length (concat (map snd xs)) \<le> k"
    "k < length (concat (map snd xs)) + length (snd sl)"
    and s: "valid_str s" "snd sl = utf8 s"
    using rope_chunk_at_byte [OF assms(1) k] .
  define p where "p = concat (map snd xs)"
  have b: "rp_bytes R r = p @ snd sl @ concat (map snd ys)"
    using rope_chunks [OF assms(1), of r] c(1) by (simp add: p_def)
  have nth: "rp_bytes R r ! k = snd sl ! (k - length p)"
    using c(3,4) by (auto simp: b nth_append p_def)
  have start: "\<not> continuation_byte (snd sl ! 0)"
  proof -
    have "utf8 s \<noteq> []" using c(3,4) s(2) by auto
    then obtain d s' where d: "s = d # s'" by (cases s) auto
    with s have "scalar_ok d" by simp
    then obtain x zs where "utf8_char d = x # zs" "\<not> continuation_byte x"
      using utf8_char_cons by blast
    with d s show ?thesis by simp
  qed
  have "is_char_boundary R r k \<longleftrightarrow> str_is_char_boundary (snd sl) (k - length p)"
    using False c(2) by (simp add: is_char_boundary_def rope_len_bytes [OF assms(1)] p_def)
  also have "\<dots> \<longleftrightarrow> \<not> continuation_byte (rp_bytes R r ! k)"
    using c(3,4) start nth by (auto simp: str_is_char_boundary_def p_def)
  finally show ?thesis using False k by (simp add: str_is_char_boundary_def)
qed

lemma is_char_boundary_iff:
  assumes "rope_laws R" and "k \<le> length (rp_bytes R r)"
  shows "is_char_boundary R r k \<longleftrightarrow>
    (\<exists>i \<le> length (rp_text R r). k = boff (rp_text R r) i)"
  using is_char_boundary_bytes [OF assms]
    boundary_iff_boff [OF rope_valid [OF assms(1)] assms(2) [unfolded rp_bytes_def]]
  by (simp add: rp_bytes_def)

lemma snap_down_boundary:
  assumes "rope_laws R" and "k \<le> length (rp_bytes R r)"
  shows "snap_down R r k \<le> k \<and> is_char_boundary R r (snap_down R r k)"
  using assms(2)
  by (induction k) (auto simp: is_char_boundary_def)

lemma snap_up_boundary:
  assumes "k \<le> n" and "n = rp_len_bytes R r"
  shows "k \<le> snap_up R r n k \<and> snap_up R r n k \<le> n \<and> is_char_boundary R r (snap_up R r n k)"
  using assms
proof (induction R r n k rule: snap_up.induct)
  case (1 R r n k)
  show ?case
  proof (cases "k < n \<and> \<not> is_char_boundary R r k")
    case True
    then have "snap_up R r n k = snap_up R r n (Suc k)" by (subst snap_up.simps) simp
    with "1.IH" [OF True] "1.prems" True show ?thesis by simp
  next
    case False
    then have "snap_up R r n k = k" by (subst snap_up.simps) (rule if_not_P)
    with False "1.prems" show ?thesis
      by (cases "k = n") (auto simp: is_char_boundary_def)
  qed
qed

lemma snap_down_greatest:
  "is_char_boundary R r q \<Longrightarrow> q \<le> k \<Longrightarrow> q \<le> snap_down R r k"
proof (induction k)
  case (Suc k)
  then show ?case by (cases "q = Suc k") auto
qed simp

lemma snap_up_least:
  "is_char_boundary R r q \<Longrightarrow> k \<le> q \<Longrightarrow> snap_up R r n k \<le> q"
proof (induction R r n k rule: snap_up.induct)
  case (1 R r n k)
  show ?case
  proof (cases "k < n \<and> \<not> is_char_boundary R r k")
    case True
    then have "snap_up R r n k = snap_up R r n (Suc k)" by (subst snap_up.simps) simp
    moreover have "k \<noteq> q" using True "1.prems"(1) by auto
    ultimately show ?thesis using "1.IH" [OF True] "1.prems" by simp
  next
    case False
    then have "snap_up R r n k = k" by (subst snap_up.simps) (rule if_not_P)
    with "1.prems" show ?thesis by simp
  qed
qed

lemma boff_less: "i < j \<Longrightarrow> j \<le> length s \<Longrightarrow> boff s i < boff s j"
proof (induction s arbitrary: i j)
  case (Cons c s)
  then show ?case by (cases i; cases j) auto
qed simp

lemma boff_le_iff: "i \<le> length s \<Longrightarrow> boff s i \<le> boff s j \<Longrightarrow> j \<le> length s \<Longrightarrow> i \<le> j"
  using boff_less [of j i s] by (cases "i \<le> j") auto

section \<open>What a delta means on texts\<close>

definition delta_links :: "delta \<Rightarrow> rstring \<Rightarrow> rstring \<Rightarrow> bool" where
  "delta_links d s t \<longleftrightarrow>
     d_start d + length (d_old d) \<le> length s \<and>
     take (length (d_old d)) (drop (d_start d) s) = d_old d \<and>
     t = take (d_start d) s @ d_new d @ drop (d_start d + length (d_old d)) s"

lemma delta_links_split:
  "delta_links d s t \<longleftrightarrow>
    (\<exists>p q. s = p @ d_old d @ q \<and> t = p @ d_new d @ q \<and> length p = d_start d)"
proof
  assume l: "delta_links d s t"
  then have s: "s = take (d_start d) s @ d_old d @ drop (d_start d + length (d_old d)) s"
    unfolding delta_links_def
    by (metis add.commute append_take_drop_id drop_drop)
  moreover have "length (take (d_start d) s) = d_start d"
    using l by (simp add: delta_links_def)
  ultimately show "\<exists>p q. s = p @ d_old d @ q \<and> t = p @ d_new d @ q \<and> length p = d_start d"
    using l unfolding delta_links_def by blast
next
  assume "\<exists>p q. s = p @ d_old d @ q \<and> t = p @ d_new d @ q \<and> length p = d_start d"
  then show "delta_links d s t" unfolding delta_links_def by auto
qed

lemma delta_links_unique: "delta_links d s t \<Longrightarrow> delta_links d s t' \<Longrightarrow> t = t'"
  by (simp add: delta_links_def)

lemma delta_links_default: "delta_links delta_default s t \<longleftrightarrow> t = s"
  by (auto simp: delta_links_def delta_default_def)

lemma apply_forward_links:
  assumes "rope_laws R" and "delta_links d (rp_text R r) t" and "valid_str (d_new d)"
  shows "\<exists>r'. apply_forward R r d = Some r' \<and> rp_text R r' = t"
proof -
  obtain p q where pq: "rp_text R r = p @ d_old d @ q" "t = p @ d_new d @ q"
    "length p = d_start d"
    using assms(2) delta_links_split by auto
  obtain r1 where r1: "rp_remove R r (d_start d) (d_start d + length (d_old d)) = Some r1"
    "rp_text R r1 = p @ q"
    using rope_remove [OF assms(1), of "d_start d" "d_start d + length (d_old d)" r] pq by auto
  obtain r2 where "rp_insert R r1 (d_start d) (d_new d) = Some r2" "rp_text R r2 = t"
    using rope_insert [OF assms(1) _ assms(3), of "d_start d" r1] pq r1(2) by auto
  with r1 show ?thesis by (simp add: apply_forward_def)
qed

lemma apply_inverse_links:
  assumes "rope_laws R" and "delta_links d s (rp_text R r)" and "valid_str s"
  shows "\<exists>r'. apply_inverse R r d = Some r' \<and> rp_text R r' = s"
proof -
  obtain p q where pq: "s = p @ d_old d @ q" "rp_text R r = p @ d_new d @ q"
    "length p = d_start d"
    using assms(2) delta_links_split by auto
  obtain r1 where r1: "rp_remove R r (d_start d) (d_start d + length (d_new d)) = Some r1"
    "rp_text R r1 = p @ q"
    using rope_remove [OF assms(1), of "d_start d" "d_start d + length (d_new d)" r] pq by auto
  have "valid_str (d_old d)" using assms(3) pq(1) by simp
  then obtain r2 where "rp_insert R r1 (d_start d) (d_old d) = Some r2" "rp_text R r2 = s"
    using rope_insert [OF assms(1), of "d_start d" r1 "d_old d"] pq r1(2) by auto
  with r1 show ?thesis by (simp add: apply_inverse_def)
qed

section \<open>The cut points of diff\<close>

text \<open>
  The cut points on both ropes in chars: \<open>i\<close> ends the common prefix, and the common
  suffix starts at \<open>j\<close> in the parent and at \<open>k\<close> in the child.
\<close>

definition cut_points :: "rstring \<Rightarrow> rstring \<Rightarrow> nat \<Rightarrow> nat \<Rightarrow> nat \<Rightarrow> bool" where
  "cut_points a b i j k \<longleftrightarrow>
     i \<le> j \<and> j \<le> length a \<and> i \<le> k \<and> k \<le> length b \<and>
     take i a = take i b \<and> drop j a = drop k b"

lemma prefix_cut:
  assumes "rope_laws R"
    and "pre = snap_down R r (min cap (lcp (rp_bytes R r) (rp_bytes R r')))"
    and "cap = min (length (rp_bytes R r)) (length (rp_bytes R r'))"
  shows "\<exists>i. pre = boff (rp_text R r) i \<and> i = length (longest_common_prefix (rp_text R r) (rp_text R r')) \<and>
    pre = boff (rp_text R r') i"
proof -
  let ?a = "rp_text R r" and ?b = "rp_text R r'"
  let ?k = "min cap (lcp (rp_bytes R r) (rp_bytes R r'))"
  have va: "valid_str ?a" and vb: "valid_str ?b" using rope_valid [OF assms(1)] by auto
  have k: "?k = lcp (utf8 ?a) (utf8 ?b)" "?k \<le> length (rp_bytes R r)"
    using lcp_le [of "utf8 ?a" "utf8 ?b"] by (simp_all add: assms(3) rp_bytes_def)
  have pre: "pre \<le> ?k" and bd: "is_char_boundary R r pre"
    using snap_down_boundary [OF assms(1) k(2)] by (simp_all add: assms(2))
  have "pre \<le> length (rp_bytes R r)" using pre k(2) by (rule order_trans)
  then obtain i where i: "i \<le> length ?a" "pre = boff ?a i"
    using is_char_boundary_iff [OF assms(1)] bd by blast
  have "take pre (utf8 ?a) = take pre (utf8 ?b)"
    using pre k(1) by (intro lcp_take_le) simp
  then have "utf8 ?b = utf8 (take i ?a) @ drop pre (utf8 ?b)"
    by (metis append_take_drop_id i(2) take_boff)
  then obtain u where u: "?b = take i ?a @ u"
    using utf8_prefix_split [of "take i ?a" ?b] va vb by auto
  then have tk: "take i ?b = take i ?a" using i(1) by simp
  have le: "i \<le> length (longest_common_prefix ?a ?b)"
    using longest_common_prefix_max_prefix [of "take i ?a" ?a ?b] u i(1)
    by (metis length_take min.absorb2 prefix_def prefix_length_le take_is_prefix)
  define m where "m = length (longest_common_prefix ?a ?b)"
  have ma: "m \<le> length ?a" and mb: "m \<le> length ?b" and mt: "take m ?a = take m ?b"
    unfolding m_def
    using longest_common_prefix_prefix1 [of ?a ?b] longest_common_prefix_prefix2 [of ?a ?b]
    by (auto simp: prefix_length_le) (metis append_eq_conv_conj prefix_def)
  have "boff ?a m \<le> lcp (utf8 ?a) (utf8 ?b)"
  proof (rule lcp_greatest)
    show "take (boff ?a m) (utf8 ?a) = take (boff ?a m) (utf8 ?b)"
      by (metis boff_def mt take_boff)
    show "boff ?a m \<le> length (utf8 ?b)"
      by (metis boff_def boff_le mt)
  qed simp
  then have "boff ?a m \<le> ?k" using k(1) by simp
  moreover have "is_char_boundary R r (boff ?a m)"
    using is_char_boundary_iff [OF assms(1), of "boff ?a m" r] ma
    by (auto simp: rp_bytes_def)
  ultimately have "boff ?a m \<le> pre"
    unfolding assms(2) by (intro snap_down_greatest)
  then have "m \<le> i" using boff_le_iff [OF ma] i by simp
  with le have "i = m" by (simp add: m_def)
  moreover have "pre = boff ?b i" using i(2) tk by (simp add: boff_def)
  ultimately show ?thesis using i(2) m_def by blast
qed

lemma rev_take_drop_eq:
  assumes "take s (rev xs) = take s (rev ys)" and "s \<le> length xs" and "s \<le> length ys"
  shows "drop (length xs - s) xs = drop (length ys - s) ys"
  using assms by (simp add: take_rev)

lemma suffix_cut:
  assumes R: "rope_laws R"
    and i: "i \<le> length (rp_text R r)" and pre: "pre = boff (rp_text R r) i" "pre = boff (rp_text R r') i"
    and same: "take i (rp_text R r) = take i (rp_text R r')"
    and cap: "cap = min (length (rp_bytes R r)) (length (rp_bytes R r')) - pre"
    and suf: "suf = min cap (lcp (rev (rp_bytes R r)) (rev (rp_bytes R r')))"
    and a_end: "a_end = snap_up R r (length (rp_bytes R r)) (length (rp_bytes R r) - suf)"
    and b_end: "b_end = length (rp_bytes R r') - (length (rp_bytes R r) - a_end)"
  shows "\<exists>j k. cut_points (rp_text R r) (rp_text R r') i j k \<and>
    a_end = boff (rp_text R r) j \<and> b_end = boff (rp_text R r') k \<and>
    (\<forall>j' k'. cut_points (rp_text R r) (rp_text R r') i j' k' \<longrightarrow> j \<le> j')"
proof -
  let ?a = "rp_text R r" and ?b = "rp_text R r'"
  let ?A = "rp_bytes R r" and ?B = "rp_bytes R r'"
  have va: "valid_str ?a" and vb: "valid_str ?b" using rope_valid [OF R] by auto
  have pA: "pre \<le> length ?A" and pB: "pre \<le> length ?B"
    using pre boff_le [of ?a i] boff_le [of ?b i] by (simp_all add: rp_bytes_def)
  have sufA: "suf \<le> length ?A - pre" and sufB: "suf \<le> length ?B - pre"
    using suf cap by auto
  have up: "length ?A - suf \<le> a_end" "a_end \<le> length ?A" "is_char_boundary R r a_end"
    using snap_up_boundary [OF diff_le_self rope_len_bytes [OF R, symmetric], of r suf]
    unfolding a_end by blast+
  define s where "s = length ?A - a_end"
  have s: "s \<le> suf" "a_end = length ?A - s" "s \<le> length ?A" "s \<le> length ?B" "b_end = length ?B - s"
    using up sufA sufB pA pB by (auto simp: s_def b_end)
  obtain j where j: "j \<le> length ?a" "a_end = boff ?a j"
    using is_char_boundary_iff [OF R up(2)] up(3) by blast
  have "pre \<le> a_end" using s(1,2) sufA pA by linarith
  then have ij: "i \<le> j" using boff_le_iff [OF i] j pre(1) by simp
  have "take s (rev ?A) = take s (rev ?B)"
    using s(1) suf by (intro lcp_take_le) simp
  then have tail: "drop a_end ?A = drop b_end ?B"
    using rev_take_drop_eq s by simp
  have "str_is_char_boundary ?B b_end"
  proof (cases "s = 0")
    case True
    then show ?thesis using s(5) by (simp add: str_is_char_boundary_def)
  next
    case False
    then have lt: "a_end < length ?A" "b_end < length ?B" using s by auto
    then have "?A ! a_end = ?B ! b_end"
      using tail by (metis hd_drop_conv_nth)
    moreover have "str_is_char_boundary ?A a_end"
      using up(2,3) is_char_boundary_bytes [OF R] by simp
    moreover have "a_end = 0 \<Longrightarrow> \<not> continuation_byte (?A ! 0)"
    proof -
      assume "a_end = 0"
      then have "?a \<noteq> []" using lt(1) by (auto simp: rp_bytes_def)
      then obtain d a' where d: "?a = d # a'" by (cases ?a) auto
      with va have "scalar_ok d" by simp
      then obtain x xs where "utf8_char d = x # xs" "\<not> continuation_byte x"
        using utf8_char_cons by blast
      with d show ?thesis by (simp add: rp_bytes_def)
    qed
    ultimately show ?thesis
      using lt by (cases "a_end = 0") (auto simp: str_is_char_boundary_def)
  qed
  then obtain k where k: "k \<le> length ?b" "b_end = boff ?b k"
    using boundary_iff_boff [OF vb, of b_end] s(5) by (auto simp: rp_bytes_def)
  have "utf8 (drop j ?a) = utf8 (drop k ?b)"
    using tail j(2) k(2) by (simp add: rp_bytes_def)
  then have dr: "drop j ?a = drop k ?b" using va vb by (intro utf8_inject) auto
  have ib: "i \<le> length ?b" using same i by (metis length_take min.absorb_iff2)
  have "pre \<le> b_end" using s(1,5) sufB pB by linarith
  then have "i \<le> k" using boff_le_iff [OF ib] k pre(2) by simp
  have "j \<le> j'" if c: "cut_points ?a ?b i j' k'" for j' k'
  proof -
    have c': "i \<le> j'" "j' \<le> length ?a" "i \<le> k'" "k' \<le> length ?b" "drop j' ?a = drop k' ?b"
      using c by (auto simp: cut_points_def)
    define s' where "s' = length (utf8 (drop j' ?a))"
    have sa: "length ?A = boff ?a j' + s'" and sb: "length ?B = boff ?b k' + s'"
      using drop_boff [of ?a j'] drop_boff [of ?b k'] c'(5) boff_le [of ?a j'] boff_le [of ?b k']
      unfolding s'_def rp_bytes_def by (metis le_add_diff_inverse length_drop)+
    have "take s' (rev ?A) = take s' (rev ?B)"
      using drop_boff [of ?a j'] drop_boff [of ?b k'] c'(5) sa sb
      by (simp add: take_rev rp_bytes_def)
    then have "s' \<le> lcp (rev ?A) (rev ?B)"
      using sa sb by (intro lcp_greatest) auto
    moreover have "s' \<le> length ?A - pre" "s' \<le> length ?B - pre"
      using sa sb boff_mono [OF c'(1), of ?a] boff_mono [OF c'(3), of ?b] pre by auto
    ultimately have "s' \<le> suf" using suf cap by auto
    then have "length ?A - suf \<le> boff ?a j'" using sa by simp
    moreover have "is_char_boundary R r (boff ?a j')"
      using is_char_boundary_iff [OF R, of "boff ?a j'" r] c'(2) by (auto simp: rp_bytes_def)
    ultimately have "a_end \<le> boff ?a j'" unfolding a_end by (intro snap_up_least)
    then show ?thesis using boff_le_iff [OF j(1)] j(2) c'(2) by simp
  qed
  with \<open>i \<le> k\<close> show ?thesis
    using ij j k same dr unfolding cut_points_def by blast
qed

lemma diff_cuts:
  assumes R: "rope_laws R"
  shows "\<exists>i j k. cut_points (rp_text R a) (rp_text R b) i j k \<and>
    (\<forall>j' k'. cut_points (rp_text R a) (rp_text R b) i j' k' \<longrightarrow> j \<le> j') \<and>
    i = length (longest_common_prefix (rp_text R a) (rp_text R b)) \<and>
    diff R a b = \<lparr>d_start = i, d_old = take (j - i) (drop i (rp_text R a)),
      d_new = take (k - i) (drop i (rp_text R b))\<rparr>"
proof -
  let ?A = "rp_bytes R a" and ?B = "rp_bytes R b"
  let ?max = "min (length ?A) (length ?B)"
  define pre where "pre = snap_down R a (min ?max (lcp ?A ?B))"
  define suf where "suf = min (?max - pre) (lcp (rev ?A) (rev ?B))"
  define a_end where "a_end = snap_up R a (length ?A) (length ?A - suf)"
  define b_end where "b_end = length ?B - (length ?A - a_end)"
  obtain i where i: "pre = boff (rp_text R a) i" "pre = boff (rp_text R b) i"
    "i = length (longest_common_prefix (rp_text R a) (rp_text R b))"
    using prefix_cut [OF R pre_def refl] by blast
  have il: "i \<le> length (rp_text R a)" "i \<le> length (rp_text R b)"
    by (simp_all add: i(3) prefix_length_le longest_common_prefix_prefix1
        longest_common_prefix_prefix2)
  have same: "take i (rp_text R a) = take i (rp_text R b)"
    unfolding i(3) by (metis append_eq_conv_conj longest_common_prefix_prefix1
        longest_common_prefix_prefix2 prefix_def)
  obtain j k where jk: "cut_points (rp_text R a) (rp_text R b) i j k"
    "a_end = boff (rp_text R a) j" "b_end = boff (rp_text R b) k"
    "\<forall>j' k'. cut_points (rp_text R a) (rp_text R b) i j' k' \<longrightarrow> j \<le> j'"
    using suffix_cut [OF R il(1) i(1,2) same refl suf_def a_end_def b_end_def] by blast
  have "diff R a b = \<lparr>d_start = rp_byte_to_char R a pre, d_old = rp_byte_slice R a pre a_end,
      d_new = rp_byte_slice R b pre b_end\<rparr>"
    by (simp add: diff_def Let_def common_prefix_bytes_lcp [OF R] common_suffix_bytes_lcp [OF R]
        rope_len_bytes [OF R] pre_def suf_def a_end_def b_end_def)
  moreover have "rp_byte_to_char R a pre = i"
    using rope_byte_to_char [OF R il(1)] i(1) by simp
  moreover have "rp_byte_slice R a pre a_end = take (j - i) (drop i (rp_text R a))"
    using rope_byte_slice [OF R, of i j a] jk i(1) by (simp add: cut_points_def)
  moreover have "rp_byte_slice R b pre b_end = take (k - i) (drop i (rp_text R b))"
    using rope_byte_slice [OF R, of i k b] jk i(2) by (simp add: cut_points_def)
  ultimately show ?thesis using jk(1,4) i(3) by auto
qed

lemma cut_points_split:
  assumes "cut_points a b i j k"
  shows "a = take i a @ take (j - i) (drop i a) @ drop j a"
    and "b = take i a @ take (k - i) (drop i b) @ drop j a"
proof -
  have split: "s = take i s @ take (m - i) (drop i s) @ drop m s" if "i \<le> m" for m and s :: rstring
    using that by (metis add_diff_inverse_nat append_take_drop_id drop_drop leD le_add_diff_inverse2)
  show "a = take i a @ take (j - i) (drop i a) @ drop j a"
    and "b = take i a @ take (k - i) (drop i b) @ drop j a"
    using assms split [of j a] split [of k b] by (auto simp: cut_points_def)
qed

lemma diff_links:
  assumes R: "rope_laws R"
  shows "delta_links (diff R a b) (rp_text R a) (rp_text R b)"
    and "valid_str (d_old (diff R a b))" and "valid_str (d_new (diff R a b))"
proof -
  obtain i j k where c: "cut_points (rp_text R a) (rp_text R b) i j k"
    and d: "diff R a b = \<lparr>d_start = i, d_old = take (j - i) (drop i (rp_text R a)),
      d_new = take (k - i) (drop i (rp_text R b))\<rparr>"
    using diff_cuts [OF R] by blast
  have "length (take i (rp_text R a)) = i" using c by (simp add: cut_points_def)
  with cut_points_split [OF c] show "delta_links (diff R a b) (rp_text R a) (rp_text R b)"
    unfolding delta_links_split d delta.simps by blast
  show "valid_str (d_old (diff R a b))" and "valid_str (d_new (diff R a b))"
    using rope_valid [OF R] by (simp_all add: d)
qed

section \<open>The properties\<close>

text \<open>
  The chunk walks, with the shortcut that accepts a shared leaf without reading it,
  compute the length of the longest common byte prefix and suffix of the two ropes,
  capped.
\<close>

lemma chunk_walks_correct:
  assumes "rope_laws R"
  shows "common_prefix_bytes R a b cap = min cap (lcp (rp_bytes R a) (rp_bytes R b)) \<and>
    common_suffix_bytes R a b cap = min cap (lcp (rev (rp_bytes R a)) (rev (rp_bytes R b)))"
  using common_prefix_bytes_lcp [OF assms] common_suffix_bytes_lcp [OF assms] by simp

text \<open>
  C18: For all ropes \<open>a\<close> and \<open>b\<close>, multi-byte chars included, applying the delta of the two
  forwards to \<open>a\<close> gives the text of \<open>b\<close>, applying it backwards to \<open>b\<close> gives the text of
  \<open>a\<close>, and neither panics.
\<close>

lemma diff_roundtrip:
  assumes "rope_laws R"
  shows "\<exists>rb ra. apply_forward R a (diff R a b) = Some rb \<and> rp_text R rb = rp_text R b \<and>
    apply_inverse R b (diff R a b) = Some ra \<and> rp_text R ra = rp_text R a"
  using apply_forward_links [OF assms diff_links(1) [OF assms] diff_links(3) [OF assms]]
    apply_inverse_links [OF assms diff_links(1) [OF assms] rope_valid [OF assms]]
  by blast

text \<open>An edit inside two-byte chars that share their first byte: both cuts snap.\<close>

lemma diff_roundtrip_witness:
  "\<exists>rb ra. apply_forward flat_rope [97, 0xE9, 98] (diff flat_rope [97, 0xE9, 98] [97, 0xE8, 98]) = Some rb \<and>
     rp_text flat_rope rb = rp_text flat_rope [97, 0xE8, 98] \<and>
     apply_inverse flat_rope [97, 0xE8, 98] (diff flat_rope [97, 0xE9, 98] [97, 0xE8, 98]) = Some ra \<and>
     rp_text flat_rope ra = rp_text flat_rope [97, 0xE9, 98]"
  by (rule diff_roundtrip [OF flat_rope_laws])

text \<open>
  The delta is the minimal spanning replacement: it starts at the end of the longest
  common prefix of the two texts in chars, and its two sides never end in one char, so no
  shorter region replaced at that place gives the child.
\<close>

lemma diff_minimal:
  assumes "rope_laws R"
  shows "d_start (diff R a b) = length (longest_common_prefix (rp_text R a) (rp_text R b)) \<and>
    (d_old (diff R a b) = [] \<or> d_new (diff R a b) = [] \<or>
      last (d_old (diff R a b)) \<noteq> last (d_new (diff R a b)))"
proof -
  let ?a = "rp_text R a" and ?b = "rp_text R b"
  obtain i j k where c: "cut_points ?a ?b i j k"
    and least: "\<forall>j' k'. cut_points ?a ?b i j' k' \<longrightarrow> j \<le> j'"
    and i: "i = length (longest_common_prefix ?a ?b)"
    and d: "diff R a b = \<lparr>d_start = i, d_old = take (j - i) (drop i ?a),
      d_new = take (k - i) (drop i ?b)\<rparr>"
    using diff_cuts [OF assms] by blast
  have "last (take (j - i) (drop i ?a)) \<noteq> last (take (k - i) (drop i ?b))"
    if ij: "i < j" "i < k"
  proof
    assume l: "last (take (j - i) (drop i ?a)) = last (take (k - i) (drop i ?b))"
    have le: "j \<le> length ?a" "k \<le> length ?b" "drop j ?a = drop k ?b"
      using c by (auto simp: cut_points_def)
    have "last (take (m - i) (drop i s)) = s ! (m - 1)"
      if "i < m" "m \<le> length s" for m and s :: rstring
      using that by (subst last_conv_nth) (auto simp: nth_append)
    with l ij le have "?a ! (j - 1) = ?b ! (k - 1)" by simp
    then have "drop (j - 1) ?a = drop (k - 1) ?b"
      using ij le Cons_nth_drop_Suc [of "j - 1" ?a] Cons_nth_drop_Suc [of "k - 1" ?b] by simp
    with c ij have "cut_points ?a ?b i (j - 1) (k - 1)" by (auto simp: cut_points_def)
    with least ij show False by fastforce
  qed
  moreover have "i \<le> j" "i \<le> k" "j \<le> length ?a" "k \<le> length ?b"
    using c by (auto simp: cut_points_def)
  ultimately show ?thesis using i by (cases "i = j"; cases "i = k") (auto simp: d)
qed

end
