(* ===== verification/UndoTree.thy ===== *)
theory UndoTree
  imports RopeDelta "HOL-Library.Monad_Syntax"
begin

text \<open>
  The undo tree of a buffer (\<open>crates/hjkl-buffer/src/undo.rs\<close>, type \<open>UndoTree\<close>): an
  arena of nodes with delta edges, the two caches of materialized ropes, the index by
  change number and every operation of the tree.  An operation returns \<open>None\<close> where the
  source panics (a dead node id, a missing delta, a rope edit out of range) and where a
  loop of the source would not end; the loops without a structural bound are
  \<open>partial_function (option)\<close>.  Node ids, depths, change numbers and positions are \<open>nat\<close>:
  the \<open>u64\<close> counter of change numbers grows by one per edit.  A \<open>SystemTime\<close> is the
  number of nanoseconds since the UNIX epoch, an \<open>int\<close>.  \<open>Arc\<close> is transparent.
\<close>

section \<open>Data\<close>

type_synonym upos = "nat \<times> nat"

record mark_snapshot =
  ms_local_marks :: "rchar \<rightharpoonup> upos"
  ms_jump_back :: "upos list"
  ms_jump_fwd :: "upos list"
  ms_change_last_edit :: "upos option"
  ms_change_list :: "upos list"
  ms_change_cursor :: "nat option"
  ms_global_marks :: "rchar \<rightharpoonup> upos"

definition marks_default :: mark_snapshot where
  "marks_default = \<lparr>ms_local_marks = Map.empty, ms_jump_back = [], ms_jump_fwd = [],
     ms_change_last_edit = None, ms_change_list = [], ms_change_cursor = None,
     ms_global_marks = Map.empty\<rparr>"

record 'r undo_entry =
  ue_rope :: 'r
  ue_cursor :: upos
  ue_timestamp :: int
  ue_marks :: mark_snapshot

definition KEYFRAME_INTERVAL :: nat where "KEYFRAME_INTERVAL = 16"
definition KEYFRAME_CAP :: nat where "KEYFRAME_CAP = 512"
definition WARM_CAP :: nat where "WARM_CAP = 32"

record 'r undo_node =
  un_parent :: "nat option"
  un_children :: "nat list"
  un_last_child :: "nat option"
  un_delta :: "delta option"
  un_base :: "'r option"
  un_rope_cache :: "'r option"
  un_depth :: nat
  un_cursor :: upos
  un_timestamp :: int
  un_marks :: mark_snapshot
  un_seq :: nat
  un_on_path :: bool

record 'r undo_tree =
  ut_nodes :: "'r undo_node option list"
  ut_free :: "nat list"
  ut_warm :: "nat list"
  ut_keyframes :: "nat list"
  ut_by_seq :: "(nat \<times> nat) list"
  ut_root :: nat
  ut_current :: nat
  ut_next_seq :: nat

text \<open>The \<open>BTreeMap\<close> of the index by change number: its entries in key order.\<close>

fun bt_insert :: "nat \<Rightarrow> 'v \<Rightarrow> (nat \<times> 'v) list \<Rightarrow> (nat \<times> 'v) list" where
  "bt_insert k v [] = [(k, v)]"
| "bt_insert k v ((k', v') # m) =
     (if k < k' then (k, v) # (k', v') # m
      else if k = k' then (k, v) # m
      else (k', v') # bt_insert k v m)"

definition bt_remove :: "nat \<Rightarrow> (nat \<times> 'v) list \<Rightarrow> (nat \<times> 'v) list" where
  "bt_remove k m = filter (\<lambda>e. fst e \<noteq> k) m"

section \<open>Cache eviction\<close>

definition remove_at :: "nat \<Rightarrow> 'a list \<Rightarrow> 'a list" where
  "remove_at i xs = take i xs @ drop (Suc i) xs"

lemma length_remove_at [simp]: "i < length xs \<Longrightarrow> length (remove_at i xs) = length xs - 1"
  by (simp add: remove_at_def)

function evict_to ::
  "nat list \<Rightarrow> 'r undo_node option list \<Rightarrow> nat \<Rightarrow> nat \<Rightarrow>
    (nat list \<times> 'r undo_node option list) option" where
  "evict_to list nodes current cap =
     (if length list > cap then
        (case position (\<lambda>n. n \<noteq> current) list of
           None \<Rightarrow> Some (list, nodes)
         | Some pos \<Rightarrow>
             (let victim = list ! pos in
              if victim < length nodes then
                evict_to (remove_at pos list)
                  (nodes[victim := map_option (\<lambda>n. n\<lparr>un_rope_cache := None\<rparr>) (nodes ! victim)])
                  current cap
              else None))
      else Some (list, nodes))"
  by pat_completeness auto

termination evict_to
  by (relation "measure (\<lambda>(list, nodes, current, cap). length list)")
    (auto dest: position_SomeD)

declare evict_to.simps [simp del]

section \<open>The arena\<close>

definition new_tree :: "'r \<Rightarrow> int \<Rightarrow> 'r undo_tree" where
  "new_tree rope now = \<lparr>
     ut_nodes = [Some \<lparr>un_parent = None, un_children = [], un_last_child = None,
       un_delta = None, un_base = Some rope, un_rope_cache = None, un_depth = 0,
       un_cursor = (0, 0), un_timestamp = now, un_marks = marks_default, un_seq = 0,
       un_on_path = True\<rparr>],
     ut_free = [], ut_warm = [], ut_keyframes = [], ut_by_seq = [(0, 0)],
     ut_root = 0, ut_current = 0, ut_next_seq = 1\<rparr>"

definition node_get :: "'r undo_tree \<Rightarrow> nat \<Rightarrow> 'r undo_node option" where
  "node_get t i = (if i < length (ut_nodes t) then ut_nodes t ! i else None)"

text \<open>\<open>get_mut(id)\<close> followed by an assignment to fields.\<close>

definition node_mod ::
  "nat \<Rightarrow> ('r undo_node \<Rightarrow> 'r undo_node) \<Rightarrow> 'r undo_tree \<Rightarrow> 'r undo_tree option" where
  "node_mod i f t = do {
     n \<leftarrow> node_get t i;
     Some (t\<lparr>ut_nodes := (ut_nodes t)[i := Some (f n)]\<rparr>)
   }"

definition alloc :: "'r undo_node \<Rightarrow> 'r undo_tree \<Rightarrow> nat \<times> 'r undo_tree" where
  "alloc node t =
     (let (i, t) =
        (if ut_free t = [] then
           (length (ut_nodes t), t\<lparr>ut_nodes := ut_nodes t @ [Some node]\<rparr>)
         else
           (last (ut_free t),
            t\<lparr>ut_free := butlast (ut_free t),
              ut_nodes := (ut_nodes t)[last (ut_free t) := Some node]\<rparr>))
      in (i, t\<lparr>ut_by_seq := bt_insert (un_seq node) i (ut_by_seq t)\<rparr>))"

definition free_node :: "nat \<Rightarrow> 'r undo_tree \<Rightarrow> 'r undo_tree option" where
  "free_node i t =
     (if i < length (ut_nodes t) then
        Some (t\<lparr>
          ut_by_seq := (case ut_nodes t ! i of
              Some n \<Rightarrow> bt_remove (un_seq n) (ut_by_seq t) | None \<Rightarrow> ut_by_seq t),
          ut_nodes := (ut_nodes t)[i := None],
          ut_free := ut_free t @ [i],
          ut_warm := filter (\<lambda>n. n \<noteq> i) (ut_warm t),
          ut_keyframes := filter (\<lambda>n. n \<noteq> i) (ut_keyframes t)\<rparr>)
      else None)"

section \<open>Materialization\<close>

definition is_keyframe :: "'r undo_tree \<Rightarrow> nat \<Rightarrow> bool option" where
  "is_keyframe t i =
     (if i = ut_root t then Some False
      else do { n \<leftarrow> node_get t i; Some (un_depth n mod KEYFRAME_INTERVAL = 0) })"

definition touch_warm :: "nat \<Rightarrow> 'r undo_tree \<Rightarrow> 'r undo_tree option" where
  "touch_warm i t =
     (if i = ut_root t then Some t
      else do {
        k \<leftarrow> is_keyframe t i;
        if k then do {
          (list, nodes) \<leftarrow> evict_to (filter (\<lambda>n. n \<noteq> i) (ut_keyframes t) @ [i])
            (ut_nodes t) (ut_current t) KEYFRAME_CAP;
          Some (t\<lparr>ut_keyframes := list, ut_nodes := nodes\<rparr>)
        } else do {
          (list, nodes) \<leftarrow> evict_to (filter (\<lambda>n. n \<noteq> i) (ut_warm t) @ [i])
            (ut_nodes t) (ut_current t) WARM_CAP;
          Some (t\<lparr>ut_warm := list, ut_nodes := nodes\<rparr>)
        }
      })"

text \<open>The walk up to the nearest ancestor that holds content: the path, target first, and
  the rope found there.\<close>

partial_function (option) anchor_walk ::
  "'r undo_tree \<Rightarrow> nat \<Rightarrow> nat list \<Rightarrow> (nat list \<times> 'r) option" where
  "anchor_walk t anchor path = do {
     n \<leftarrow> node_get t anchor;
     par \<leftarrow> un_parent n;
     p \<leftarrow> node_get t par;
     (case un_rope_cache p of
        Some r \<Rightarrow> Some (path @ [anchor], r)
      | None \<Rightarrow>
          (case un_base p of
             Some b \<Rightarrow> Some (path @ [anchor], b)
           | None \<Rightarrow> anchor_walk t par (path @ [anchor])))
   }"

fun replay ::
  "'r rope_ops \<Rightarrow> nat list \<Rightarrow> 'r \<Rightarrow> 'r undo_tree \<Rightarrow> ('r \<times> 'r undo_tree) option" where
  "replay R [] rope t = Some (rope, t)"
| "replay R (i # path) rope t = do {
     n \<leftarrow> node_get t i;
     d \<leftarrow> un_delta n;
     rope \<leftarrow> apply_forward R rope d;
     t \<leftarrow> node_mod i (\<lambda>n. n\<lparr>un_rope_cache := Some rope\<rparr>) t;
     t \<leftarrow> touch_warm i t;
     replay R path rope t
   }"

definition materialize ::
  "'r rope_ops \<Rightarrow> nat \<Rightarrow> 'r undo_tree \<Rightarrow> ('r \<times> 'r undo_tree) option" where
  "materialize R i t = do {
     n \<leftarrow> node_get t i;
     (case un_rope_cache n of
        Some r \<Rightarrow> Some (r, t)
      | None \<Rightarrow>
          (case un_base n of
             Some b \<Rightarrow> Some (b, t)
           | None \<Rightarrow> do {
               (path, rope) \<leftarrow> anchor_walk t i [];
               replay R (rev path) rope t
             }))
   }"

definition entry_of ::
  "'r rope_ops \<Rightarrow> nat \<Rightarrow> 'r undo_tree \<Rightarrow> ('r undo_entry \<times> 'r undo_tree) option" where
  "entry_of R i t = do {
     (rope, t) \<leftarrow> materialize R i t;
     n \<leftarrow> node_get t i;
     Some (\<lparr>ue_rope = rope, ue_cursor = un_cursor n, ue_timestamp = un_timestamp n,
       ue_marks = un_marks n\<rparr>, t)
   }"

definition same_rope :: "'r rope_ops \<Rightarrow> 'r \<Rightarrow> 'r option \<Rightarrow> bool" where
  "same_rope R rope a = (case a of
     None \<Rightarrow> False | Some a \<Rightarrow> rp_is_instance R a rope \<or> rp_eq R a rope)"

definition set_node_state ::
  "'r rope_ops \<Rightarrow> nat \<Rightarrow> 'r \<Rightarrow> upos \<Rightarrow> int \<Rightarrow> mark_snapshot \<Rightarrow> 'r undo_tree \<Rightarrow>
    'r undo_tree option" where
  "set_node_state R i rope cursor timestamp marks t = do {
     n \<leftarrow> node_get t i;
     let is_root = (un_parent n = None);
     let unchanged = (same_rope R rope (un_rope_cache n) \<or> (is_root \<and> same_rope R rope (un_base n)));
     t \<leftarrow> node_mod i (\<lambda>n. n\<lparr>un_cursor := cursor, un_timestamp := timestamp, un_marks := marks\<rparr>) t;
     if unchanged then Some t
     else if is_root then do {
       t \<leftarrow> node_mod i (\<lambda>n. n\<lparr>un_base := Some rope\<rparr>) t;
       t \<leftarrow> node_mod i (\<lambda>n. n\<lparr>un_rope_cache := None\<rparr>) t;
       Some (t\<lparr>ut_warm := filter (\<lambda>n. n \<noteq> i) (ut_warm t),
         ut_keyframes := filter (\<lambda>n. n \<noteq> i) (ut_keyframes t)\<rparr>)
     } else do {
       n \<leftarrow> node_get t i;
       par \<leftarrow> un_parent n;
       (par_rope, t) \<leftarrow> materialize R par t;
       let d = diff R par_rope rope;
       t \<leftarrow> node_mod i (\<lambda>n. n\<lparr>un_delta := Some d, un_rope_cache := Some rope\<rparr>) t;
       touch_warm i t
     }
   }"

partial_function (option) free_loop ::
  "nat list \<Rightarrow> 'r undo_tree \<Rightarrow> 'r undo_tree option" where
  "free_loop stack t =
     (if stack = [] then Some t
      else do {
        n \<leftarrow> node_get t (last stack);
        t' \<leftarrow> node_mod (last stack) (\<lambda>n. n\<lparr>un_children := []\<rparr>) t;
        t'' \<leftarrow> free_node (last stack) t';
        free_loop (butlast stack @ un_children n) t''
      })"

definition free_subtree :: "nat \<Rightarrow> 'r undo_tree \<Rightarrow> 'r undo_tree option" where
  "free_subtree i t = free_loop [i] t"

fun free_subtrees :: "nat list \<Rightarrow> 'r undo_tree \<Rightarrow> 'r undo_tree option" where
  "free_subtrees [] t = Some t"
| "free_subtrees (c # cs) t = do { t \<leftarrow> free_subtree c t; free_subtrees cs t }"

section \<open>Read-only queries\<close>

definition is_at_root :: "'r undo_tree \<Rightarrow> bool option" where
  "is_at_root t = do { n \<leftarrow> node_get t (ut_current t); Some (un_parent n = None) }"

definition has_redo :: "'r undo_tree \<Rightarrow> bool option" where
  "has_redo t = do { n \<leftarrow> node_get t (ut_current t); Some (un_last_child n \<noteq> None) }"

partial_function (option) depth_walk :: "'r undo_tree \<Rightarrow> nat option \<Rightarrow> nat \<Rightarrow> nat option" where
  "depth_walk t n d = (case n of
     None \<Rightarrow> Some d
   | Some p \<Rightarrow> do { pn \<leftarrow> node_get t p; depth_walk t (un_parent pn) (Suc d) })"

definition depth_from_root :: "'r undo_tree \<Rightarrow> nat option" where
  "depth_from_root t = do { n \<leftarrow> node_get t (ut_current t); depth_walk t (un_parent n) 0 }"

definition parent_timestamp :: "'r undo_tree \<Rightarrow> int option option" where
  "parent_timestamp t = do {
     n \<leftarrow> node_get t (ut_current t);
     (case un_parent n of
        None \<Rightarrow> Some None
      | Some p \<Rightarrow> do { pn \<leftarrow> node_get t p; Some (Some (un_timestamp pn)) })
   }"

definition child_timestamp :: "'r undo_tree \<Rightarrow> int option option" where
  "child_timestamp t = do {
     n \<leftarrow> node_get t (ut_current t);
     (case un_last_child n of
        None \<Rightarrow> Some None
      | Some c \<Rightarrow> do { cn \<leftarrow> node_get t c; Some (Some (un_timestamp cn)) })
   }"

section \<open>Push, undo, redo\<close>

definition push :: "'r rope_ops \<Rightarrow> 'r undo_entry \<Rightarrow> 'r undo_tree \<Rightarrow> 'r undo_tree option" where
  "push R entry t = do {
     let cur = ut_current t;
     t \<leftarrow> set_node_state R cur (ue_rope entry) (ue_cursor entry) (ue_timestamp entry)
       (ue_marks entry) t;
     let seq = ut_next_seq t;
     let t = t\<lparr>ut_next_seq := ut_next_seq t + 1\<rparr>;
     n \<leftarrow> node_get t cur;
     let (child, t) = alloc \<lparr>un_parent = Some cur, un_children = [], un_last_child = None,
       un_delta = Some delta_default, un_base = None, un_rope_cache = Some (ue_rope entry),
       un_depth = un_depth n + 1, un_cursor = ue_cursor entry,
       un_timestamp = ue_timestamp entry, un_marks = ue_marks entry, un_seq = seq,
       un_on_path = True\<rparr> t;
     t \<leftarrow> node_mod cur (\<lambda>n. n\<lparr>un_children := un_children n @ [child],
       un_last_child := Some child\<rparr>) t;
     let t = t\<lparr>ut_current := child\<rparr>;
     touch_warm child t
   }"

definition current_cursor :: "'r undo_tree \<Rightarrow> upos option" where
  "current_cursor t = do { n \<leftarrow> node_get t (ut_current t); Some (un_cursor n) }"

definition departed_cursor :: "'r undo_tree \<Rightarrow> nat \<Rightarrow> upos \<Rightarrow> upos option" where
  "departed_cursor t i live = do {
     n \<leftarrow> node_get t i;
     Some (if un_children n = [] then live else un_cursor n)
   }"

definition undo_step ::
  "'r rope_ops \<Rightarrow> 'r \<Rightarrow> upos \<Rightarrow> mark_snapshot \<Rightarrow> 'r undo_tree \<Rightarrow>
    ('r undo_entry option \<times> 'r undo_tree) option" where
  "undo_step R rope cursor marks t = do {
     let cur = ut_current t;
     n \<leftarrow> node_get t cur;
     (case un_parent n of
        None \<Rightarrow> Some (None, t)
      | Some par \<Rightarrow> do {
          pn \<leftarrow> node_get t par;
          let dest_ts = un_timestamp pn;
          cursor \<leftarrow> departed_cursor t cur cursor;
          t \<leftarrow> set_node_state R cur rope cursor dest_ts marks t;
          t \<leftarrow> node_mod par (\<lambda>n. n\<lparr>un_last_child := Some cur\<rparr>) t;
          t \<leftarrow> node_mod cur (\<lambda>n. n\<lparr>un_on_path := False\<rparr>) t;
          let t = t\<lparr>ut_current := par\<rparr>;
          pn \<leftarrow> node_get t par;
          t \<leftarrow> (if un_rope_cache pn = None \<and> un_base pn = None then do {
                 cn \<leftarrow> node_get t cur;
                 (case (un_rope_cache cn, un_delta cn) of
                    (Some cr, Some d) \<Rightarrow> do {
                      par_rope \<leftarrow> apply_inverse R cr d;
                      t \<leftarrow> node_mod par (\<lambda>n. n\<lparr>un_rope_cache := Some par_rope\<rparr>) t;
                      touch_warm par t
                    }
                  | _ \<Rightarrow> Some t)
               } else Some t);
          (e, t) \<leftarrow> entry_of R par t;
          Some (Some e, t)
        })
   }"

definition redo_step ::
  "'r rope_ops \<Rightarrow> 'r \<Rightarrow> upos \<Rightarrow> mark_snapshot \<Rightarrow> 'r undo_tree \<Rightarrow>
    ('r undo_entry option \<times> 'r undo_tree) option" where
  "redo_step R rope cursor marks t = do {
     let cur = ut_current t;
     n \<leftarrow> node_get t cur;
     (case un_last_child n of
        None \<Rightarrow> Some (None, t)
      | Some child \<Rightarrow> do {
          cn \<leftarrow> node_get t child;
          let dest_ts = un_timestamp cn;
          cursor \<leftarrow> departed_cursor t cur cursor;
          t \<leftarrow> set_node_state R cur rope cursor dest_ts marks t;
          t \<leftarrow> node_mod child (\<lambda>n. n\<lparr>un_on_path := True\<rparr>) t;
          let t = t\<lparr>ut_current := child\<rparr>;
          (e, t) \<leftarrow> entry_of R child t;
          Some (Some e, t)
        })
   }"

section \<open>The walk by change number\<close>

definition current_seq :: "'r undo_tree \<Rightarrow> nat option" where
  "current_seq t = do { n \<leftarrow> node_get t (ut_current t); Some (un_seq n) }"

definition node_below :: "'r undo_tree \<Rightarrow> nat \<Rightarrow> nat option" where
  "node_below t s =
     (let r = takeWhile (\<lambda>e. fst e < s) (ut_by_seq t)
      in if r = [] then None else Some (snd (last r)))"

definition node_above :: "'r undo_tree \<Rightarrow> nat \<Rightarrow> nat option" where
  "node_above t s =
     (case dropWhile (\<lambda>e. fst e \<le> s) (ut_by_seq t) of
        [] \<Rightarrow> None | e # _ \<Rightarrow> Some (snd e))"

partial_function (option) link_up :: "nat \<Rightarrow> 'r undo_tree \<Rightarrow> (nat \<times> 'r undo_tree) option" where
  "link_up node t = do {
     n \<leftarrow> node_get t node;
     if un_on_path n then Some (node, t)
     else do {
       p \<leftarrow> un_parent n;
       t' \<leftarrow> node_mod p (\<lambda>n. n\<lparr>un_last_child := Some node\<rparr>) t;
       t'' \<leftarrow> node_mod node (\<lambda>n. n\<lparr>un_on_path := True\<rparr>) t';
       link_up p t''
     }
   }"

partial_function (option) unflag_down :: "nat \<Rightarrow> nat \<Rightarrow> 'r undo_tree \<Rightarrow> 'r undo_tree option" where
  "unflag_down leaving fork t =
     (if leaving = fork then Some t
      else do {
        t' \<leftarrow> node_mod leaving (\<lambda>n. n\<lparr>un_on_path := False\<rparr>) t;
        n \<leftarrow> node_get t' leaving;
        p \<leftarrow> un_parent n;
        unflag_down p fork t'
      })"

definition retarget_current :: "nat \<Rightarrow> 'r undo_tree \<Rightarrow> 'r undo_tree option" where
  "retarget_current target t = do {
     (fork, t) \<leftarrow> link_up target t;
     t \<leftarrow> unflag_down (ut_current t) fork t;
     Some (t\<lparr>ut_current := target\<rparr>)
   }"

definition stash_and_move ::
  "'r rope_ops \<Rightarrow> nat \<Rightarrow> 'r \<Rightarrow> upos \<Rightarrow> mark_snapshot \<Rightarrow> 'r undo_tree \<Rightarrow> 'r undo_tree option" where
  "stash_and_move R target rope cursor marks t = do {
     let cur = ut_current t;
     n \<leftarrow> node_get t cur;
     t \<leftarrow> set_node_state R cur rope cursor (un_timestamp n) marks t;
     retarget_current target t
   }"

definition seq_earlier_step ::
  "'r rope_ops \<Rightarrow> 'r \<Rightarrow> upos \<Rightarrow> mark_snapshot \<Rightarrow> 'r undo_tree \<Rightarrow>
    ('r undo_entry option \<times> 'r undo_tree) option" where
  "seq_earlier_step R rope cursor marks t = do {
     s \<leftarrow> current_seq t;
     (case node_below t s of
        None \<Rightarrow> Some (None, t)
      | Some target \<Rightarrow> do {
          t \<leftarrow> stash_and_move R target rope cursor marks t;
          (e, t) \<leftarrow> entry_of R target t;
          Some (Some e, t)
        })
   }"

definition seq_later_step ::
  "'r rope_ops \<Rightarrow> 'r \<Rightarrow> upos \<Rightarrow> mark_snapshot \<Rightarrow> 'r undo_tree \<Rightarrow>
    ('r undo_entry option \<times> 'r undo_tree) option" where
  "seq_later_step R rope cursor marks t = do {
     s \<leftarrow> current_seq t;
     (case node_above t s of
        None \<Rightarrow> Some (None, t)
      | Some target \<Rightarrow> do {
          t \<leftarrow> stash_and_move R target rope cursor marks t;
          (e, t) \<leftarrow> entry_of R target t;
          Some (Some e, t)
        })
   }"

definition seq_earlier_timestamp :: "'r undo_tree \<Rightarrow> int option option" where
  "seq_earlier_timestamp t = do {
     s \<leftarrow> current_seq t;
     (case node_below t s of
        None \<Rightarrow> Some None
      | Some i \<Rightarrow> do { n \<leftarrow> node_get t i; Some (Some (un_timestamp n)) })
   }"

definition seq_later_timestamp :: "'r undo_tree \<Rightarrow> int option option" where
  "seq_later_timestamp t = do {
     s \<leftarrow> current_seq t;
     (case node_above t s of
        None \<Rightarrow> Some None
      | Some i \<Rightarrow> do { n \<leftarrow> node_get t i; Some (Some (un_timestamp n)) })
   }"

text \<open>\<open>leaves\<close>: one row per leaf other than the root, by a scan of the arena; the
  source's stable sort by change number is \<open>sort_key\<close>.\<close>

type_synonym leaf_row = "nat \<times> nat \<times> int \<times> bool"

fun leaf_rows :: "'r undo_tree \<Rightarrow> nat list \<Rightarrow> leaf_row list option" where
  "leaf_rows t [] = Some []"
| "leaf_rows t (i # is) =
     (case ut_nodes t ! i of
        None \<Rightarrow> leaf_rows t is
      | Some n \<Rightarrow>
          if i = ut_root t \<or> un_children n \<noteq> [] then leaf_rows t is
          else do {
            depth \<leftarrow> depth_walk t (un_parent n) 0;
            rows \<leftarrow> leaf_rows t is;
            Some ((un_seq n, depth, un_timestamp n, i = ut_current t) # rows)
          })"

definition leaves :: "'r undo_tree \<Rightarrow> leaf_row list option" where
  "leaves t = do {
     rows \<leftarrow> leaf_rows t [0 ..< length (ut_nodes t)];
     Some (sort_key fst rows)
   }"

definition live_count :: "'r undo_tree \<Rightarrow> nat" where
  "live_count t = length (filter (\<lambda>n. n \<noteq> None) (ut_nodes t))"

section \<open>Dropping states\<close>

definition last_opt :: "'a list \<Rightarrow> 'a option" where
  "last_opt xs = (if xs = [] then None else Some (last xs))"

definition pop_committed :: "'r undo_tree \<Rightarrow> (bool \<times> 'r undo_tree) option" where
  "pop_committed t = do {
     let cur = ut_current t;
     n \<leftarrow> node_get t cur;
     if un_children n \<noteq> [] then Some (False, t)
     else (case un_parent n of
         None \<Rightarrow> Some (False, t)
       | Some par \<Rightarrow> do {
           t \<leftarrow> node_mod par (\<lambda>p. p\<lparr>un_children := filter (\<lambda>c. c \<noteq> cur) (un_children p)\<rparr>) t;
           t \<leftarrow> node_mod par (\<lambda>p. p\<lparr>un_last_child := last_opt (un_children p)\<rparr>) t;
           t \<leftarrow> node_mod cur (\<lambda>n. n\<lparr>un_on_path := False\<rparr>) t;
           let t = t\<lparr>ut_current := par\<rparr>;
           n \<leftarrow> node_get t cur;
           let t = (if un_seq n + 1 = ut_next_seq t then t\<lparr>ut_next_seq := ut_next_seq t - 1\<rparr> else t);
           t \<leftarrow> free_node cur t;
           Some (True, t)
         })
   }"

definition lowest_offpath_leaf :: "'r undo_tree \<Rightarrow> nat option" where
  "lowest_offpath_leaf t =
     map_option snd
       (fold (\<lambda>i best.
          (case ut_nodes t ! i of
             None \<Rightarrow> best
           | Some n \<Rightarrow>
               if un_children n = [] \<and> \<not> un_on_path n \<and>
                 (case best of None \<Rightarrow> True | Some (bs, _) \<Rightarrow> un_seq n < bs)
               then Some (un_seq n, i) else best))
        [0 ..< length (ut_nodes t)] None)"

definition detach_leaf :: "nat \<Rightarrow> 'r undo_tree \<Rightarrow> 'r undo_tree option" where
  "detach_leaf leaf t = do {
     n \<leftarrow> node_get t leaf;
     t \<leftarrow> (case un_parent n of
           None \<Rightarrow> Some t
         | Some par \<Rightarrow>
             node_mod par (\<lambda>p.
               let p = p\<lparr>un_children := filter (\<lambda>c. c \<noteq> leaf) (un_children p)\<rparr>
               in if un_last_child p = Some leaf
                  then p\<lparr>un_last_child := last_opt (un_children p)\<rparr> else p) t);
     free_node leaf t
   }"

text \<open>\<open>children.iter().find(|c| self.get(**c).on_path)\<close>: the search dereferences each
  child up to the first hit.\<close>

fun find_on_path :: "'r undo_tree \<Rightarrow> nat list \<Rightarrow> nat option option" where
  "find_on_path t [] = Some None"
| "find_on_path t (c # cs) = do {
     n \<leftarrow> node_get t c;
     if un_on_path n then Some (Some c) else find_on_path t cs
   }"

definition prune_root_side :: "'r rope_ops \<Rightarrow> 'r undo_tree \<Rightarrow> (bool \<times> 'r undo_tree) option" where
  "prune_root_side R t =
     (if ut_root t = ut_current t then Some (False, t)
      else do {
        let root = ut_root t;
        rn \<leftarrow> node_get t root;
        found \<leftarrow> find_on_path t (un_children rn);
        (case found of
           None \<Rightarrow> Some (False, t)
         | Some child \<Rightarrow> do {
             t \<leftarrow> free_subtrees (filter (\<lambda>c. c \<noteq> child) (un_children rn)) t;
             (base, t) \<leftarrow> materialize R child t;
             t \<leftarrow> node_mod child (\<lambda>n. n\<lparr>un_parent := None, un_base := Some base,
               un_delta := None, un_rope_cache := None\<rparr>) t;
             let t = t\<lparr>ut_warm := filter (\<lambda>n. n \<noteq> child) (ut_warm t),
               ut_keyframes := filter (\<lambda>n. n \<noteq> child) (ut_keyframes t)\<rparr>;
             t \<leftarrow> node_mod root (\<lambda>n. n\<lparr>un_on_path := False\<rparr>) t;
             let t = t\<lparr>ut_root := child\<rparr>;
             t \<leftarrow> free_node root t;
             Some (True, t)
           })
      })"

text \<open>The loop of \<open>cap\<close>, bounded by its own \<open>budget_iters\<close>.\<close>

fun cap_loop :: "'r rope_ops \<Rightarrow> nat \<Rightarrow> nat \<Rightarrow> 'r undo_tree \<Rightarrow> 'r undo_tree option" where
  "cap_loop R cap 0 t = Some t"
| "cap_loop R cap (Suc budget_iters) t =
     (if live_count t - 1 > cap then
        (case lowest_offpath_leaf t of
           Some leaf \<Rightarrow> do {
             t \<leftarrow> detach_leaf leaf t;
             cap_loop R cap budget_iters t
           }
         | None \<Rightarrow> do {
             (pruned, t) \<leftarrow> prune_root_side R t;
             if pruned then cap_loop R cap budget_iters t else Some t
           })
      else Some t)"

definition cap_tree :: "'r rope_ops \<Rightarrow> nat \<Rightarrow> 'r undo_tree \<Rightarrow> 'r undo_tree option" where
  "cap_tree R cap t = (if cap = 0 then Some t else cap_loop R cap (live_count t + 1) t)"

definition clear_redo :: "'r undo_tree \<Rightarrow> 'r undo_tree option" where
  "clear_redo t = do {
     let cur = ut_current t;
     n \<leftarrow> node_get t cur;
     t \<leftarrow> node_mod cur (\<lambda>n. n\<lparr>un_children := []\<rparr>) t;
     t \<leftarrow> node_mod cur (\<lambda>n. n\<lparr>un_last_child := None\<rparr>) t;
     free_subtrees (un_children n) t
   }"

definition clear_all :: "'r rope_ops \<Rightarrow> 'r undo_tree \<Rightarrow> 'r undo_tree option" where
  "clear_all R t = do {
     let cur = ut_current t;
     (base, t) \<leftarrow> materialize R cur t;
     let dead = filter (\<lambda>i. i \<noteq> cur \<and> ut_nodes t ! i \<noteq> None) [0 ..< length (ut_nodes t)];
     let t = t\<lparr>ut_nodes := map (\<lambda>i. if i = cur then ut_nodes t ! i else None)
           [0 ..< length (ut_nodes t)],
         ut_free := ut_free t @ dead, ut_warm := [], ut_keyframes := []\<rparr>;
     n \<leftarrow> node_get t cur;
     let t = t\<lparr>ut_by_seq := [(un_seq n, cur)]\<rparr>;
     t \<leftarrow> node_mod cur (\<lambda>n. n\<lparr>un_parent := None, un_children := [], un_last_child := None,
       un_delta := None, un_base := Some base, un_rope_cache := None, un_depth := 0,
       un_on_path := True\<rparr>) t;
     Some (t\<lparr>ut_root := cur\<rparr>)
   }"

definition current_content :: "'r rope_ops \<Rightarrow> 'r undo_tree \<Rightarrow> ('r \<times> 'r undo_tree) option" where
  "current_content R t = materialize R (ut_current t) t"

definition sync_current :: "'r rope_ops \<Rightarrow> 'r \<Rightarrow> 'r undo_tree \<Rightarrow> 'r undo_tree option" where
  "sync_current R rope t = do {
     let cur = ut_current t;
     n \<leftarrow> node_get t cur;
     set_node_state R cur rope (un_cursor n) (un_timestamp n) (un_marks n) t
   }"

end
