(* ===== verification/UndoSpec.thy ===== *)
theory UndoSpec
  imports UndoTree
begin

text \<open>
  What the undo tree promises: an arena of FULL text snapshots without deltas, caches,
  path flags or an index, where landing on a node rewrites the redo direction of the
  whole chain of its ancestors.  The theory holds the abstract state and operations, the
  facts about ancestor chains, the well-formedness \<open>spec_wf\<close> of an abstract tree and its
  preservation by every abstract operation.
\<close>

section \<open>Ancestors\<close>

text \<open>\<open>anc P i j\<close>: walking up the parent map \<open>P\<close> from \<open>i\<close> meets \<open>j\<close>.\<close>

inductive anc :: "(nat \<Rightarrow> nat option) \<Rightarrow> nat \<Rightarrow> nat \<Rightarrow> bool" for P where
  anc_self: "anc P i i"
| anc_up: "P i = Some p \<Longrightarrow> anc P p j \<Longrightarrow> anc P i j"

inductive_cases anc_cases: "anc P i j"

text \<open>A depth function that grows along every edge rules out cycles.\<close>

definition depths_ok :: "(nat \<Rightarrow> nat option) \<Rightarrow> (nat \<Rightarrow> nat) \<Rightarrow> bool" where
  "depths_ok P dep \<longleftrightarrow> (\<forall>i p. P i = Some p \<longrightarrow> dep i = Suc (dep p))"

lemma anc_trans: "anc P i j \<Longrightarrow> anc P j k \<Longrightarrow> anc P i k"
  by (induction rule: anc.induct) (auto intro: anc.intros)

lemma anc_parent: "anc P i j \<Longrightarrow> P j = Some p \<Longrightarrow> anc P i p"
  by (blast intro: anc_trans anc.intros)

lemma anc_depth: "anc P i j \<Longrightarrow> depths_ok P dep \<Longrightarrow> i = j \<or> dep j < dep i"
  by (induction rule: anc.induct) (auto simp: depths_ok_def)

lemma anc_antisym: "anc P i j \<Longrightarrow> anc P j i \<Longrightarrow> depths_ok P dep \<Longrightarrow> i = j"
  using anc_depth [of P i j dep] anc_depth [of P j i dep] by auto

lemma anc_no_loop: "depths_ok P dep \<Longrightarrow> P i = Some p \<Longrightarrow> \<not> anc P p i"
  using anc_depth [of P p i dep] unfolding depths_ok_def by fastforce

lemma anc_step: "anc P i j \<Longrightarrow> i = j \<or> (\<exists>p. P i = Some p \<and> anc P p j)"
  by (erule anc_cases) auto

lemma anc_root: "anc P r j \<Longrightarrow> P r = None \<Longrightarrow> j = r"
  by (erule anc_cases) auto

lemma anc_linear: "anc P i j \<Longrightarrow> anc P i k \<Longrightarrow> anc P j k \<or> anc P k j"
proof (induction rule: anc.induct)
  case (anc_up i p j)
  from anc_step [OF anc_up.prems] anc_up show ?case by (auto intro: anc.intros)
qed simp

text \<open>Below a strict ancestor there is a child of it on the chain.\<close>

lemma anc_child:
  "anc P i j \<Longrightarrow> i \<noteq> j \<Longrightarrow> \<exists>c. anc P i c \<and> P c = Some j"
proof (induction rule: anc.induct)
  case (anc_up i p j)
  show ?case
  proof (cases "p = j")
    case True
    with anc_up show ?thesis by (blast intro: anc.intros)
  next
    case False
    with anc_up.IH obtain c where "anc P p c" "P c = Some j" by blast
    with anc_up.hyps(1) show ?thesis by (blast intro: anc.intros)
  qed
qed simp

lemma anc_child_unique:
  assumes "depths_ok P dep" and "anc P i c" and "anc P i c'" and "P c = Some j" and "P c' = Some j"
  shows "c = c'"
proof -
  have d: "dep c = dep c'" using assms(1,4,5) by (auto simp: depths_ok_def)
  from anc_linear [OF assms(2,3)] show ?thesis
    using anc_depth [of P c c' dep] anc_depth [of P c' c dep] assms(1) d by auto
qed

lemma anc_cong_above:
  assumes "anc P i j" and "\<And>k. anc P i k \<Longrightarrow> k \<noteq> j \<Longrightarrow> Q k = P k"
  shows "anc Q i j"
  using assms
proof (induction rule: anc.induct)
  case (anc_up i p j)
  show ?case
  proof (cases "i = j")
    case False
    then have "Q i = Some p" using anc_up.prems [of i] anc_up.hyps(1) by (auto intro: anc.intros)
    moreover have "anc Q p j"
      using anc_up.IH anc_up.prems anc_up.hyps(1) by (blast intro: anc.intros)
    ultimately show ?thesis by (rule anc.anc_up)
  qed (auto intro: anc.intros)
qed (auto intro: anc.intros)

section \<open>The abstract tree\<close>

record snap_node =
  sn_parent :: "nat option"
  sn_children :: "nat list"
  sn_last :: "nat option"
  sn_text :: rstring
  sn_depth :: nat
  sn_cursor :: upos
  sn_timestamp :: int
  sn_marks :: mark_snapshot
  sn_seq :: nat

record snap_tree =
  st_nodes :: "nat \<rightharpoonup> snap_node"
  st_root :: nat
  st_current :: nat
  st_next_seq :: nat

record snap_entry =
  se_text :: rstring
  se_cursor :: upos
  se_timestamp :: int
  se_marks :: mark_snapshot

definition spar :: "snap_tree \<Rightarrow> nat \<Rightarrow> nat option" where
  "spar A i = Option.bind (st_nodes A i) sn_parent"

definition sdep :: "snap_tree \<Rightarrow> nat \<Rightarrow> nat" where
  "sdep A i = (case st_nodes A i of Some a \<Rightarrow> sn_depth a | None \<Rightarrow> 0)"

definition on_chain :: "snap_tree \<Rightarrow> nat \<Rightarrow> bool" where
  "on_chain A i = anc (spar A) (st_current A) i"

definition snode :: "snap_tree \<Rightarrow> nat \<Rightarrow> snap_node" where
  "snode A i = the (st_nodes A i)"

text \<open>
  Well-formedness: the parent links and the child lists describe one tree with the root
  at depth 0 or more, the redo direction of a node is one of its children, every node of
  the chain to \<open>current\<close> is the redo direction of its parent, and change numbers are
  distinct and below the next one.
\<close>

definition links_wf :: "(nat \<rightharpoonup> snap_node) \<Rightarrow> nat \<Rightarrow> bool" where
  "links_wf N root \<longleftrightarrow>
     (\<forall>i a. N i = Some a \<longrightarrow>
        (case sn_parent a of
           None \<Rightarrow> i = root
         | Some p \<Rightarrow> i \<noteq> root \<and> (\<exists>b. N p = Some b \<and> i \<in> set (sn_children b) \<and>
             sn_depth a = Suc (sn_depth b))) \<and>
        distinct (sn_children a) \<and>
        (\<forall>c \<in> set (sn_children a). \<exists>b. N c = Some b \<and> sn_parent b = Some i) \<and>
        (\<forall>c. sn_last a = Some c \<longrightarrow> c \<in> set (sn_children a)))"

definition seqs_wf :: "(nat \<rightharpoonup> snap_node) \<Rightarrow> nat \<Rightarrow> bool" where
  "seqs_wf N next \<longleftrightarrow>
     (\<forall>i a. N i = Some a \<longrightarrow> sn_seq a < next) \<and>
     (\<forall>i a j b. N i = Some a \<longrightarrow> N j = Some b \<longrightarrow> sn_seq a = sn_seq b \<longrightarrow> i = j)"

definition chain_wf :: "snap_tree \<Rightarrow> bool" where
  "chain_wf A \<longleftrightarrow>
     (\<forall>i p. on_chain A i \<longrightarrow> spar A i = Some p \<longrightarrow> sn_last (snode A p) = Some i)"

definition spec_wf :: "snap_tree \<Rightarrow> bool" where
  "spec_wf A \<longleftrightarrow>
     finite (dom (st_nodes A)) \<and> st_root A \<in> dom (st_nodes A) \<and> st_current A \<in> dom (st_nodes A) \<and>
     links_wf (st_nodes A) (st_root A) \<and> seqs_wf (st_nodes A) (st_next_seq A) \<and> chain_wf A"

lemma spec_wfD:
  assumes "spec_wf A"
  shows "finite (dom (st_nodes A))" and "st_root A \<in> dom (st_nodes A)"
    and "st_current A \<in> dom (st_nodes A)" and "links_wf (st_nodes A) (st_root A)"
    and "seqs_wf (st_nodes A) (st_next_seq A)" and "chain_wf A"
  using assms by (simp_all add: spec_wf_def)

lemma links_parent_case:
  assumes "links_wf N root" and "N i = Some a"
  shows "case sn_parent a of
      None \<Rightarrow> i = root
    | Some p \<Rightarrow> i \<noteq> root \<and> (\<exists>b. N p = Some b \<and> i \<in> set (sn_children b) \<and>
        sn_depth a = Suc (sn_depth b))"
  using assms unfolding links_wf_def by blast

lemma links_parent:
  assumes "links_wf N root" and "N i = Some a" and "sn_parent a = Some p"
  shows "\<exists>b. N p = Some b \<and> i \<in> set (sn_children b) \<and> sn_depth a = Suc (sn_depth b)" and "i \<noteq> root"
  using links_parent_case [OF assms(1,2)] assms(3) by simp_all

lemma links_no_parent:
  assumes "links_wf N root" and "N i = Some a" and "sn_parent a = None"
  shows "i = root"
  using links_parent_case [OF assms(1,2)] assms(3) by simp

lemma links_child:
  assumes "links_wf N root" and "N i = Some a" and "c \<in> set (sn_children a)"
  shows "\<exists>b. N c = Some b \<and> sn_parent b = Some i"
  using assms unfolding links_wf_def by blast

lemma links_children_distinct:
  "links_wf N root \<Longrightarrow> N i = Some a \<Longrightarrow> distinct (sn_children a)"
  unfolding links_wf_def by blast

lemma links_last:
  "links_wf N root \<Longrightarrow> N i = Some a \<Longrightarrow> sn_last a = Some c \<Longrightarrow> c \<in> set (sn_children a)"
  unfolding links_wf_def by blast

lemma links_depths: "links_wf (st_nodes A) root \<Longrightarrow> depths_ok (spar A) (sdep A)"
  unfolding depths_ok_def spar_def sdep_def
  by (auto simp: bind_eq_Some_conv dest!: links_parent(1))

lemma spar_Some: "st_nodes A i = Some a \<Longrightarrow> spar A i = sn_parent a"
  by (simp add: spar_def)

lemma links_child_spar:
  "links_wf (st_nodes A) root \<Longrightarrow> st_nodes A i = Some a \<Longrightarrow> c \<in> set (sn_children a) \<Longrightarrow>
    spar A c = Some i"
  by (auto simp: spar_def dest: links_child)

lemma spar_dom: "spar A i = Some p \<Longrightarrow> i \<in> dom (st_nodes A)"
  by (auto simp: spar_def bind_eq_Some_conv)

lemma anc_dom:
  assumes "links_wf (st_nodes A) root" and "anc (spar A) i j" and "i \<in> dom (st_nodes A)"
  shows "j \<in> dom (st_nodes A)"
  using assms(2,3)
proof (induction rule: anc.induct)
  case (anc_up i p j)
  from anc_up.hyps(1) obtain a where "st_nodes A i = Some a" "sn_parent a = Some p"
    by (auto simp: spar_def bind_eq_Some_conv)
  then have "p \<in> dom (st_nodes A)" using links_parent(1) [OF assms(1)] by blast
  then show ?case by (rule anc_up.IH)
qed simp

lemma anc_reaches_root:
  assumes "links_wf (st_nodes A) root" and "i \<in> dom (st_nodes A)"
  shows "anc (spar A) i root"
  using assms(2)
proof (induction "sdep A i" arbitrary: i rule: less_induct)
  case less
  then obtain a where a: "st_nodes A i = Some a" by blast
  show ?case
  proof (cases "sn_parent a")
    case None
    with links_no_parent [OF assms(1) a] show ?thesis by (simp add: anc_self)
  next
    case (Some p)
    then obtain b where b: "st_nodes A p = Some b" "sn_depth a = Suc (sn_depth b)"
      using links_parent(1) [OF assms(1) a] by blast
    then have "anc (spar A) p root" using a by (intro less.hyps) (auto simp: sdep_def)
    with a Some show ?thesis by (auto simp: spar_def intro: anc.anc_up)
  qed
qed

section \<open>The abstract operations\<close>

definition s_upd :: "nat \<Rightarrow> (snap_node \<Rightarrow> snap_node) \<Rightarrow> snap_tree \<Rightarrow> snap_tree" where
  "s_upd i f A = A\<lparr>st_nodes := (st_nodes A)(i := map_option f (st_nodes A i))\<rparr>"

definition s_set :: "nat \<Rightarrow> rstring \<Rightarrow> upos \<Rightarrow> int \<Rightarrow> mark_snapshot \<Rightarrow> snap_tree \<Rightarrow> snap_tree" where
  "s_set i text cursor ts marks A =
     s_upd i (\<lambda>a. a\<lparr>sn_text := text, sn_cursor := cursor, sn_timestamp := ts, sn_marks := marks\<rparr>) A"

definition s_push :: "nat \<Rightarrow> snap_entry \<Rightarrow> snap_tree \<Rightarrow> snap_tree" where
  "s_push child e A =
     (let cur = st_current A;
          A = s_set cur (se_text e) (se_cursor e) (se_timestamp e) (se_marks e) A;
          A = s_upd cur (\<lambda>a. a\<lparr>sn_children := sn_children a @ [child], sn_last := Some child\<rparr>) A
      in A\<lparr>st_nodes := (st_nodes A)(child \<mapsto> \<lparr>sn_parent = Some cur, sn_children = [],
             sn_last = None, sn_text = se_text e, sn_depth = Suc (sdep A cur),
             sn_cursor = se_cursor e, sn_timestamp = se_timestamp e, sn_marks = se_marks e,
             sn_seq = st_next_seq A\<rparr>),
           st_current := child, st_next_seq := Suc (st_next_seq A)\<rparr>)"

definition s_departed :: "snap_tree \<Rightarrow> nat \<Rightarrow> upos \<Rightarrow> upos" where
  "s_departed A i live =
     (if sn_children (snode A i) = [] then live else sn_cursor (snode A i))"

definition s_entry :: "snap_tree \<Rightarrow> nat \<Rightarrow> snap_entry" where
  "s_entry A i = \<lparr>se_text = sn_text (snode A i), se_cursor = sn_cursor (snode A i),
     se_timestamp = sn_timestamp (snode A i), se_marks = sn_marks (snode A i)\<rparr>"

definition s_undo ::
  "rstring \<Rightarrow> upos \<Rightarrow> mark_snapshot \<Rightarrow> snap_tree \<Rightarrow> snap_entry option \<times> snap_tree" where
  "s_undo text cursor marks A =
     (let cur = st_current A in
      case spar A cur of
        None \<Rightarrow> (None, A)
      | Some p \<Rightarrow>
          (let A = s_set cur text (s_departed A cur cursor) (sn_timestamp (snode A p)) marks A;
               A = (s_upd p (\<lambda>a. a\<lparr>sn_last := Some cur\<rparr>) A)\<lparr>st_current := p\<rparr>
           in (Some (s_entry A p), A)))"

definition s_redo ::
  "rstring \<Rightarrow> upos \<Rightarrow> mark_snapshot \<Rightarrow> snap_tree \<Rightarrow> snap_entry option \<times> snap_tree" where
  "s_redo text cursor marks A =
     (let cur = st_current A in
      case sn_last (snode A cur) of
        None \<Rightarrow> (None, A)
      | Some c \<Rightarrow>
          (let A = (s_set cur text (s_departed A cur cursor) (sn_timestamp (snode A c)) marks A)
                \<lparr>st_current := c\<rparr>
           in (Some (s_entry A c), A)))"

text \<open>Landing on a node: every ancestor of it takes its child on the chain as its redo
  direction.\<close>

fun chain_up :: "(nat \<Rightarrow> nat option) \<Rightarrow> nat \<Rightarrow> nat \<Rightarrow> nat list" where
  "chain_up P 0 i = [i]"
| "chain_up P (Suc k) i = i # (case P i of None \<Rightarrow> [] | Some p \<Rightarrow> chain_up P k p)"

fun relink :: "nat list \<Rightarrow> (nat \<rightharpoonup> snap_node) \<Rightarrow> (nat \<rightharpoonup> snap_node)" where
  "relink (c # p # rest) N =
     relink (p # rest) (N(p := map_option (\<lambda>a. a\<lparr>sn_last := Some c\<rparr>) (N p)))"
| "relink _ N = N"

definition s_retarget :: "nat \<Rightarrow> snap_tree \<Rightarrow> snap_tree" where
  "s_retarget target A =
     A\<lparr>st_nodes := relink (chain_up (spar A) (sdep A target) target) (st_nodes A),
       st_current := target\<rparr>"

text \<open>The neighbours in the order of change numbers, tree-wide.\<close>

definition seq_before :: "snap_tree \<Rightarrow> nat \<Rightarrow> nat \<Rightarrow> bool" where
  "seq_before A s i \<longleftrightarrow>
     (\<exists>a. st_nodes A i = Some a \<and> sn_seq a < s \<and>
        (\<forall>j b. st_nodes A j = Some b \<longrightarrow> sn_seq b < s \<longrightarrow> sn_seq b \<le> sn_seq a))"

definition seq_after :: "snap_tree \<Rightarrow> nat \<Rightarrow> nat \<Rightarrow> bool" where
  "seq_after A s i \<longleftrightarrow>
     (\<exists>a. st_nodes A i = Some a \<and> s < sn_seq a \<and>
        (\<forall>j b. st_nodes A j = Some b \<longrightarrow> s < sn_seq b \<longrightarrow> sn_seq a \<le> sn_seq b))"

definition s_move ::
  "nat \<Rightarrow> rstring \<Rightarrow> upos \<Rightarrow> mark_snapshot \<Rightarrow> snap_tree \<Rightarrow> snap_entry option \<times> snap_tree" where
  "s_move target text cursor marks A =
     (let cur = st_current A;
          A = s_retarget target (s_set cur text cursor (sn_timestamp (snode A cur)) marks A)
      in (Some (s_entry A target), A))"

definition s_delete :: "nat set \<Rightarrow> snap_tree \<Rightarrow> snap_tree" where
  "s_delete D A = A\<lparr>st_nodes := (st_nodes A) |` (- D)\<rparr>"

definition s_unlink :: "nat \<Rightarrow> nat \<Rightarrow> snap_tree \<Rightarrow> snap_tree" where
  "s_unlink p c A = s_upd p (\<lambda>a. a\<lparr>sn_children := filter (\<lambda>x. x \<noteq> c) (sn_children a)\<rparr>) A"

definition s_pop :: "snap_tree \<Rightarrow> bool \<times> snap_tree" where
  "s_pop A =
     (let cur = st_current A; a = snode A cur in
      if sn_children a \<noteq> [] then (False, A)
      else case sn_parent a of
        None \<Rightarrow> (False, A)
      | Some p \<Rightarrow>
          (True, (s_delete {cur} (s_upd p (\<lambda>b. b\<lparr>sn_last := last_opt (sn_children b)\<rparr>)
               (s_unlink p cur A)))
             \<lparr>st_current := p,
              st_next_seq := (if sn_seq a + 1 = st_next_seq A then st_next_seq A - 1
                else st_next_seq A)\<rparr>))"

definition s_detach :: "nat \<Rightarrow> snap_tree \<Rightarrow> snap_tree" where
  "s_detach leaf A =
     (case spar A leaf of
        None \<Rightarrow> s_delete {leaf} A
      | Some p \<Rightarrow> s_delete {leaf} (s_upd p (\<lambda>b.
          if sn_last b = Some leaf then b\<lparr>sn_last := last_opt (sn_children b)\<rparr> else b)
            (s_unlink p leaf A)))"

definition below :: "snap_tree \<Rightarrow> nat \<Rightarrow> nat set" where
  "below A i = {j. j \<in> dom (st_nodes A) \<and> anc (spar A) j i}"

definition s_prune :: "nat \<Rightarrow> snap_tree \<Rightarrow> snap_tree" where
  "s_prune child A =
     (s_delete (dom (st_nodes A) - below A child) (s_upd child (\<lambda>a. a\<lparr>sn_parent := None\<rparr>) A))
       \<lparr>st_root := child\<rparr>"

definition s_clear_redo :: "snap_tree \<Rightarrow> snap_tree" where
  "s_clear_redo A =
     s_delete (below A (st_current A) - {st_current A})
       (s_upd (st_current A) (\<lambda>a. a\<lparr>sn_children := [], sn_last := None\<rparr>) A)"

definition s_clear_all :: "snap_tree \<Rightarrow> snap_tree" where
  "s_clear_all A =
     (s_delete (- {st_current A}) (s_upd (st_current A) (\<lambda>a. a\<lparr>sn_parent := None,
        sn_children := [], sn_last := None, sn_depth := 0\<rparr>) A))\<lparr>st_root := st_current A\<rparr>"

section \<open>Preservation of well-formedness\<close>

lemma s_upd_simps [simp]:
  "st_nodes (s_upd i f A) j = (if j = i then map_option f (st_nodes A i) else st_nodes A j)"
  "st_root (s_upd i f A) = st_root A"
  "st_current (s_upd i f A) = st_current A"
  "st_next_seq (s_upd i f A) = st_next_seq A"
  "dom (st_nodes (s_upd i f A)) = dom (st_nodes A)"
  by (auto simp: s_upd_def split: if_splits)

lemma s_set_simps [simp]:
  "st_root (s_set i x c ts m A) = st_root A"
  "st_current (s_set i x c ts m A) = st_current A"
  "st_next_seq (s_set i x c ts m A) = st_next_seq A"
  "dom (st_nodes (s_set i x c ts m A)) = dom (st_nodes A)"
  by (simp_all add: s_set_def)

text \<open>An update that keeps the parent, the children and the depth of a node.\<close>

lemma spar_upd:
  "(\<And>a. st_nodes A i = Some a \<Longrightarrow> sn_parent (f a) = sn_parent a) \<Longrightarrow> spar (s_upd i f A) = spar A"
  by (cases "st_nodes A i") (auto simp: spar_def fun_eq_iff)

lemma sdep_upd:
  "(\<And>a. st_nodes A i = Some a \<Longrightarrow> sn_depth (f a) = sn_depth a) \<Longrightarrow> sdep (s_upd i f A) = sdep A"
  by (cases "st_nodes A i") (auto simp: sdep_def fun_eq_iff)

lemma links_wf_upd:
  assumes "links_wf N root" and "N i = Some a"
    and "sn_parent b = sn_parent a" and "sn_children b = sn_children a"
    and "sn_depth b = sn_depth a"
    and "\<And>c. sn_last b = Some c \<Longrightarrow> c \<in> set (sn_children a)"
  shows "links_wf (N(i \<mapsto> b)) root"
  unfolding links_wf_def
proof (intro allI impI conjI)
  fix j x
  assume x: "(N(i \<mapsto> b)) j = Some x"
  define y where "y = (if j = i then a else x)"
  have y: "N j = Some y" "sn_parent x = sn_parent y" "sn_children x = sn_children y"
    "sn_depth x = sn_depth y"
    using x assms(2-5) by (auto simp: y_def split: if_splits)
  have lift: "\<exists>z. (N(i \<mapsto> b)) k = Some z \<and> sn_parent z = sn_parent w \<and>
      sn_children z = sn_children w \<and> sn_depth z = sn_depth w" if "N k = Some w" for k w
    using that assms(2-5) by auto
  show "case sn_parent x of None \<Rightarrow> j = root
      | Some p \<Rightarrow> j \<noteq> root \<and> (\<exists>z. (N(i \<mapsto> b)) p = Some z \<and> j \<in> set (sn_children z) \<and>
          sn_depth x = Suc (sn_depth z))"
  proof (cases "sn_parent y")
    case None
    then show ?thesis using y links_no_parent [OF assms(1)] by simp
  next
    case (Some p)
    obtain w where w: "N p = Some w" "j \<in> set (sn_children w)" "sn_depth y = Suc (sn_depth w)"
      using links_parent(1) [OF assms(1) y(1) Some] by blast
    obtain z where "(N(i \<mapsto> b)) p = Some z" "sn_children z = sn_children w" "sn_depth z = sn_depth w"
      using lift [OF w(1)] by blast
    then show ?thesis using Some y w links_parent(2) [OF assms(1) y(1) Some] by auto
  qed
  show "distinct (sn_children x)"
    using links_children_distinct [OF assms(1) y(1)] y(3) by simp
  show "\<forall>c \<in> set (sn_children x). \<exists>z. (N(i \<mapsto> b)) c = Some z \<and> sn_parent z = Some j"
  proof
    fix c
    assume "c \<in> set (sn_children x)"
    then obtain w where w: "N c = Some w" "sn_parent w = Some j"
      using links_child [OF assms(1) y(1)] y(3) by auto
    from lift [OF w(1)] w(2) show "\<exists>z. (N(i \<mapsto> b)) c = Some z \<and> sn_parent z = Some j" by auto
  qed
  show "c \<in> set (sn_children x)" if "sn_last x = Some c" for c
    using that x assms(4,6) links_last [OF assms(1)] by (auto split: if_splits)
qed

lemma seqs_wf_upd:
  "seqs_wf N next \<Longrightarrow> N i = Some a \<Longrightarrow> sn_seq b = sn_seq a \<Longrightarrow> seqs_wf (N(i \<mapsto> b)) next"
  unfolding seqs_wf_def by (auto split: if_splits)

lemma seqs_wf_sub:
  assumes "seqs_wf N next" and "\<And>i a. N' i = Some a \<Longrightarrow> \<exists>b. N i = Some b \<and> sn_seq b = sn_seq a"
  shows "seqs_wf N' next"
  unfolding seqs_wf_def
proof (intro conjI allI impI)
  fix i a
  assume "N' i = Some a"
  with assms(2) obtain b where "N i = Some b" "sn_seq b = sn_seq a" by blast
  with assms(1) show "sn_seq a < next" unfolding seqs_wf_def by metis
next
  fix i a j b
  assume "N' i = Some a" "N' j = Some b" "sn_seq a = sn_seq b"
  with assms(2) obtain x y where "N i = Some x" "N j = Some y" "sn_seq x = sn_seq y" by metis
  with assms(1) show "i = j" unfolding seqs_wf_def by blast
qed

lemma snode_simps: "st_nodes A i = Some a \<Longrightarrow> snode A i = a"
  by (simp add: snode_def)

lemma spec_wf_upd:
  assumes wf: "spec_wf A" and i: "st_nodes A i = Some a"
    and f: "sn_parent (f a) = sn_parent a" "sn_children (f a) = sn_children a"
      "sn_depth (f a) = sn_depth a" "sn_seq (f a) = sn_seq a"
    and last: "\<And>c. sn_last (f a) = Some c \<Longrightarrow> c \<in> set (sn_children a)"
    and chain: "\<And>c. on_chain A c \<Longrightarrow> spar A c = Some i \<Longrightarrow> sn_last (f a) = Some c"
  shows "spec_wf (s_upd i f A)"
proof -
  note w = spec_wfD [OF wf]
  have nodes: "st_nodes (s_upd i f A) = (st_nodes A)(i \<mapsto> f a)"
    by (simp add: s_upd_def i)
  have par: "spar (s_upd i f A) = spar A" using i f by (intro spar_upd) auto
  have "chain_wf (s_upd i f A)"
    unfolding chain_wf_def
  proof (intro allI impI)
    fix c p
    assume "on_chain (s_upd i f A) c" and "spar (s_upd i f A) c = Some p"
    then have c: "on_chain A c" "spar A c = Some p" by (simp_all add: on_chain_def par)
    then have "sn_last (snode A p) = Some c" using w(6) by (auto simp: chain_wf_def)
    with c chain i show "sn_last (snode (s_upd i f A) p) = Some c"
      by (auto simp: snode_def nodes)
  qed
  moreover have "links_wf (st_nodes (s_upd i f A)) (st_root A)"
    unfolding nodes using w(4) i f(1-3) last by (rule links_wf_upd)
  moreover have "seqs_wf (st_nodes (s_upd i f A)) (st_next_seq A)"
    unfolding nodes using w(5) i f(4) by (rule seqs_wf_upd)
  ultimately show ?thesis using w(1-3) by (simp add: spec_wf_def)
qed

lemma spec_wf_set:
  assumes wf: "spec_wf A" and i: "i \<in> dom (st_nodes A)"
  shows "spec_wf (s_set i text cursor ts marks A)"
proof -
  obtain a where a: "st_nodes A i = Some a" using i by blast
  note w = spec_wfD [OF wf]
  show ?thesis
    unfolding s_set_def
  proof (rule spec_wf_upd [OF wf a])
    show "c \<in> set (sn_children a)" if "sn_last (a\<lparr>sn_text := text, sn_cursor := cursor,
        sn_timestamp := ts, sn_marks := marks\<rparr>) = Some c" for c
      using links_last [OF w(4) a] that by simp
    show "sn_last (a\<lparr>sn_text := text, sn_cursor := cursor, sn_timestamp := ts, sn_marks := marks\<rparr>) =
        Some c" if "on_chain A c" "spar A c = Some i" for c
      using w(6) that a by (auto simp: chain_wf_def snode_simps)
  qed simp_all
qed

lemma s_set_lookup:
  "st_nodes (s_set i x c ts m A) j =
    (if j = i then map_option (\<lambda>a. a\<lparr>sn_text := x, sn_cursor := c, sn_timestamp := ts, sn_marks := m\<rparr>)
      (st_nodes A i) else st_nodes A j)"
  by (simp add: s_set_def)

lemma spar_set [simp]: "spar (s_set i x c ts m A) = spar A"
  unfolding s_set_def by (rule spar_upd) simp

lemma sdep_set [simp]: "sdep (s_set i x c ts m A) = sdep A"
  unfolding s_set_def by (rule sdep_upd) simp

lemma on_chain_set [simp]: "on_chain (s_set i x c ts m A) = on_chain A"
  by (simp add: on_chain_def fun_eq_iff)

lemma st_current_simps [simp]:
  "spar (A\<lparr>st_current := c\<rparr>) = spar A"
  "snode (A\<lparr>st_current := c\<rparr>) = snode A"
  "sdep (A\<lparr>st_current := c\<rparr>) = sdep A"
  by (simp_all add: spar_def snode_def sdep_def fun_eq_iff)

lemma spec_wf_move_up:
  assumes wf: "spec_wf A" and "on_chain A j"
  shows "spec_wf (A\<lparr>st_current := j\<rparr>)"
proof -
  note w = spec_wfD [OF wf]
  have "on_chain A i" if "on_chain (A\<lparr>st_current := j\<rparr>) i" for i
    using that assms(2) by (auto simp: on_chain_def intro: anc_trans)
  moreover have "j \<in> dom (st_nodes A)"
    using anc_dom [OF w(4)] assms(2) w(3) by (simp add: on_chain_def)
  ultimately show ?thesis using w by (auto simp: spec_wf_def chain_wf_def)
qed

lemma spec_wf_move_down:
  assumes wf: "spec_wf A" and "spar A c = Some (st_current A)"
    and "sn_last (snode A (st_current A)) = Some c"
  shows "spec_wf (A\<lparr>st_current := c\<rparr>)"
proof -
  note w = spec_wfD [OF wf]
  have "i = c \<or> on_chain A i" if "on_chain (A\<lparr>st_current := c\<rparr>) i" for i
    using that assms(2) anc_step [of "spar A" c i] by (auto simp: on_chain_def)
  then have "chain_wf (A\<lparr>st_current := c\<rparr>)"
    using w(6) assms(2,3) unfolding chain_wf_def st_current_simps by fastforce
  then show ?thesis
    using w spar_dom [OF assms(2)] by (simp add: spec_wf_def)
qed

lemma current_child_facts:
  assumes wf: "spec_wf A" and "st_nodes A i = Some a" and "sn_last a = Some c"
  shows "spar A c = Some i"
proof -
  have "c \<in> set (sn_children a)" using links_last [OF spec_wfD(4) [OF wf] assms(2,3)] .
  from links_child [OF spec_wfD(4) [OF wf] assms(2) this] show ?thesis by (auto simp: spar_def)
qed

lemma s_redo_wf:
  assumes wf: "spec_wf A"
  shows "spec_wf (snd (s_redo text cursor marks A))"
proof -
  obtain a where a: "st_nodes A (st_current A) = Some a" using spec_wfD(3) [OF wf] by blast
  show ?thesis
  proof (cases "sn_last a")
    case None
    then show ?thesis using wf a by (simp add: s_redo_def snode_simps)
  next
    case (Some c)
    let ?B = "s_set (st_current A) text (s_departed A (st_current A) cursor)
      (sn_timestamp (snode A c)) marks A"
    have "spec_wf ?B" using wf a by (intro spec_wf_set) auto
    then have "spec_wf (?B\<lparr>st_current := c\<rparr>)"
      by (rule spec_wf_move_down)
        (use current_child_facts [OF wf a Some] Some a in \<open>auto simp: snode_def s_set_lookup\<close>)
    then show ?thesis using Some a by (simp add: s_redo_def snode_simps Let_def)
  qed
qed

lemma s_undo_wf:
  assumes wf: "spec_wf A"
  shows "spec_wf (snd (s_undo text cursor marks A))"
proof (cases "spar A (st_current A)")
  case None
  then show ?thesis using wf by (simp add: s_undo_def)
next
  case (Some p)
  note w = spec_wfD [OF wf]
  obtain a where a: "st_nodes A (st_current A) = Some a" using w(3) by blast
  obtain b where b: "st_nodes A p = Some b" "st_current A \<in> set (sn_children b)"
    using links_parent [OF w(4) a] Some a by (auto simp: spar_def)
  let ?B = "s_set (st_current A) text (s_departed A (st_current A) cursor)
    (sn_timestamp (snode A p)) marks A"
  let ?C = "s_upd p (\<lambda>a. a\<lparr>sn_last := Some (st_current A)\<rparr>) ?B"
  have np: "p \<noteq> st_current A"
    using links_parent [OF w(4) a] Some a b(1) by (auto simp: spar_def)
  have wB: "spec_wf ?B" using wf w(3) by (rule spec_wf_set)
  have bB: "st_nodes ?B p = Some b" using b(1) np by (simp add: s_set_lookup)
  have "spec_wf ?C"
  proof (rule spec_wf_upd [OF wB bB])
    fix c
    assume c: "on_chain ?B c" "spar ?B c = Some p"
    then have "c = st_current A"
      using anc_child_unique [OF links_depths [OF w(4)], of "st_current A" c "st_current A" p] Some
      by (simp add: on_chain_def anc_self)
    then show "sn_last (b\<lparr>sn_last := Some (st_current A)\<rparr>) = Some c" by simp
  qed (use b in auto)
  moreover have "on_chain ?C p"
  proof -
    have "spar ?C = spar A" by (subst spar_upd) simp_all
    then show ?thesis using Some by (auto simp: on_chain_def intro: anc.intros)
  qed
  ultimately have "spec_wf (?C\<lparr>st_current := p\<rparr>)" by (rule spec_wf_move_up)
  then show ?thesis using Some by (simp add: s_undo_def Let_def)
qed

lemma seqs_wf_fresh:
  assumes N: "seqs_wf N next"
    and old: "\<And>i x. N' i = Some x \<Longrightarrow> i \<noteq> child \<Longrightarrow> \<exists>y. N i = Some y \<and> sn_seq y = sn_seq x"
    and new: "N' child = Some new" "sn_seq new = next"
  shows "seqs_wf N' (Suc next)"
proof -
  have lt: "sn_seq x < next" if "N' i = Some x" "i \<noteq> child" for i x
    using old [OF that] N unfolding seqs_wf_def by fastforce
  have eq: "i = j" if ij: "N' i = Some x" "i \<noteq> child" "N' j = Some y" "j \<noteq> child" "sn_seq x = sn_seq y"
    for i j x y
  proof -
    obtain x' y' where "N i = Some x'" "N j = Some y'" "sn_seq x' = sn_seq y'"
      using old [OF ij(1,2)] old [OF ij(3,4)] ij(5) by auto
    then show ?thesis using N unfolding seqs_wf_def by blast
  qed
  show ?thesis
    unfolding seqs_wf_def
  proof (intro conjI allI impI)
    fix i x
    assume "N' i = Some x"
    then show "sn_seq x < Suc next" using lt [of i x] new by (cases "i = child") auto
  next
    fix i x j y
    assume "N' i = Some x" "N' j = Some y" "sn_seq x = sn_seq y"
    then show "i = j"
      using lt [of i x] lt [of j y] eq [of i x j y] new by (cases "i = child"; cases "j = child") auto
  qed
qed

text \<open>A push: the new node hangs under \<open>current\<close> and becomes it.\<close>

lemma s_push_wf:
  assumes wf: "spec_wf A" and fresh: "st_nodes A child = None"
  shows "spec_wf (s_push child e A)"
proof -
  let ?cur = "st_current A"
  let ?B = "s_set ?cur (se_text e) (se_cursor e) (se_timestamp e) (se_marks e) A"
  have wB: "spec_wf ?B" using wf spec_wfD(3) [OF wf] by (rule spec_wf_set)
  note w = spec_wfD [OF wB]
  have freshB: "st_nodes ?B child = None" using fresh by (auto simp: s_set_lookup)
  obtain b where b: "st_nodes ?B ?cur = Some b" using w(3) by (auto simp: dom_def)
  define b' where "b' = b\<lparr>sn_children := sn_children b @ [child], sn_last := Some child\<rparr>"
  define new where "new = \<lparr>sn_parent = Some ?cur, sn_children = [],
     sn_last = None, sn_text = se_text e, sn_depth = Suc (sdep A ?cur),
     sn_cursor = se_cursor e, sn_timestamp = se_timestamp e, sn_marks = se_marks e,
     sn_seq = st_next_seq A\<rparr>"
  define C where "C = s_push child e A"
  have ne: "child \<noteq> ?cur" using b freshB by auto
  have nodes: "st_nodes C = (st_nodes ?B)(?cur \<mapsto> b', child \<mapsto> new)"
    using b ne by (auto simp: C_def s_push_def Let_def s_upd_def b'_def new_def)
      (auto simp: s_upd_def sdep_def s_set_def fun_eq_iff)
  have heads: "st_root C = st_root A" "st_current C = child" "st_next_seq C = Suc (st_next_seq A)"
    by (simp_all add: C_def s_push_def Let_def)
  have depth: "sdep A ?cur = sn_depth b"
    using b by (metis sdep_def sdep_set option.simps(5))
  have nochild: "child \<notin> set (sn_children a)" if "st_nodes ?B i = Some a" for i a
    using links_child [OF w(4) that, of child] freshB by auto
  have noparent: "sn_parent a \<noteq> Some child" if "st_nodes ?B i = Some a" for i a
    using links_parent(1) [OF w(4) that] freshB by auto
  have nopar: "spar ?B k \<noteq> Some child" for k
    using noparent by (auto simp: spar_def bind_eq_Some_conv simp del: spar_set)
  have links: "links_wf (st_nodes C) (st_root A)"
    unfolding links_wf_def
  proof (intro allI impI conjI)
    fix i x
    assume x: "st_nodes C i = Some x"
    show "case sn_parent x of None \<Rightarrow> i = st_root A
        | Some p \<Rightarrow> i \<noteq> st_root A \<and> (\<exists>z. st_nodes C p = Some z \<and> i \<in> set (sn_children z) \<and>
            sn_depth x = Suc (sn_depth z))"
    proof (cases "i = child")
      case True
      then have "i \<noteq> st_root A" using fresh spec_wfD(2) [OF wf] by auto
      then show ?thesis using True x ne depth by (auto simp: nodes new_def b'_def)
    next
      case False
      define y where "y = (if i = ?cur then b else x)"
      have y: "st_nodes ?B i = Some y" "sn_parent x = sn_parent y" "sn_depth x = sn_depth y"
        using x False b by (auto simp: y_def nodes b'_def split: if_splits)
      show ?thesis
      proof (cases "sn_parent y")
        case None
        then show ?thesis using links_no_parent [OF w(4) y(1)] y by simp
      next
        case (Some p)
        obtain z where z: "st_nodes ?B p = Some z" "i \<in> set (sn_children z)"
          "sn_depth y = Suc (sn_depth z)" "i \<noteq> st_root A"
          using links_parent [OF w(4) y(1) Some] by auto
        have "p \<noteq> child" using z(1) freshB by auto
        then have "\<exists>z'. st_nodes C p = Some z' \<and> i \<in> set (sn_children z') \<and>
            sn_depth z' = sn_depth z"
          using z b by (auto simp: nodes b'_def)
        then show ?thesis using Some y z by auto
      qed
    qed
    show "distinct (sn_children x)"
      using x nochild [OF b] links_children_distinct [OF w(4)] b
      by (auto simp: nodes new_def b'_def split: if_splits)
    show "\<forall>c \<in> set (sn_children x). \<exists>z. st_nodes C c = Some z \<and> sn_parent z = Some i"
    proof
      fix c
      assume c: "c \<in> set (sn_children x)"
      show "\<exists>z. st_nodes C c = Some z \<and> sn_parent z = Some i"
      proof (cases "c = child")
        case True
        then have "i = ?cur"
          using c x nochild by (auto simp: nodes new_def split: if_splits)
        then show ?thesis using True by (simp add: nodes new_def)
      next
        case False
        then have "\<exists>y. st_nodes ?B i = Some y \<and> c \<in> set (sn_children y)"
          using c x b by (auto simp: nodes new_def b'_def split: if_splits)
        then obtain z where z: "st_nodes ?B c = Some z" "sn_parent z = Some i"
          using links_child [OF w(4)] by blast
        then show ?thesis using False b by (auto simp: nodes b'_def)
      qed
    qed
    show "c \<in> set (sn_children x)" if "sn_last x = Some c" for c
      using that x links_last [OF w(4)] b by (auto simp: nodes new_def b'_def split: if_splits)
  qed
  have seqs: "seqs_wf (st_nodes C) (Suc (st_next_seq A))"
  proof -
    have "\<exists>y. st_nodes ?B i = Some y \<and> sn_seq y = sn_seq x"
      if "st_nodes C i = Some x" "i \<noteq> child" for i x
      using that b by (auto simp: nodes b'_def split: if_splits)
    then show ?thesis
      using w(5) by (intro seqs_wf_fresh [of "st_nodes ?B" _ _ child new]) (auto simp: nodes new_def)
  qed
  have par: "spar C i = (if i = child then Some ?cur else spar ?B i)" for i
    using b by (auto simp: spar_def nodes new_def b'_def simp del: spar_set)
  have "chain_wf C"
    unfolding chain_wf_def
  proof (intro allI impI)
    fix i p
    assume i: "on_chain C i" "spar C i = Some p"
    show "sn_last (snode C p) = Some i"
    proof (cases "i = child")
      case True
      then show ?thesis using i ne par by (simp add: snode_def nodes b'_def)
    next
      case False
      then have "anc (spar C) ?cur i"
        using i(1) anc_step [of "spar C" child i] par [of child] by (auto simp: on_chain_def heads)
      then have "anc (spar ?B) ?cur i"
      proof (rule anc_cong_above)
        fix k
        assume "anc (spar C) ?cur k"
        have "k \<noteq> child"
        proof
          assume "k = child"
          with \<open>anc (spar C) ?cur k\<close> have "?cur = child \<or> (\<exists>q. anc (spar C) ?cur q \<and> spar C q = Some child)"
            using anc_child [of "spar C" ?cur child] by auto
          then obtain q where q: "spar C q = Some child" using ne by auto
          then have "spar ?B q = Some child" using par [of q] ne by (auto split: if_splits)
          then show False using nopar by blast
        qed
        then show "spar ?B k = spar C k" using par by simp
      qed
      then have "on_chain ?B i" by (simp add: on_chain_def)
      moreover have "spar ?B i = Some p" using i(2) False par by simp
      ultimately have last: "sn_last (snode ?B p) = Some i" using w(6) by (auto simp: chain_wf_def)
      have "p \<noteq> ?cur"
      proof
        assume "p = ?cur"
        with \<open>spar ?B i = Some p\<close> have "spar A i = Some ?cur" by simp
        moreover have "anc (spar A) ?cur i" using \<open>on_chain ?B i\<close> by (simp add: on_chain_def)
        ultimately show False
          using anc_no_loop [OF links_depths [OF spec_wfD(4) [OF wf]]] by blast
      qed
      moreover have "p \<noteq> child"
        using \<open>spar ?B i = Some p\<close> nopar by blast
      ultimately show ?thesis using last by (simp add: snode_def nodes)
    qed
  qed
  then show ?thesis
    using links seqs w(1,2) by (simp add: spec_wf_def heads nodes flip: C_def)
qed

section \<open>Landing on a node\<close>

definition relast :: "(nat \<Rightarrow> nat option) \<Rightarrow> nat \<Rightarrow> nat \<Rightarrow> nat option \<Rightarrow> nat option" where
  "relast P i x old =
     (if \<exists>c. anc P i c \<and> P c = Some x then Some (THE c. anc P i c \<and> P c = Some x) else old)"

lemma relast_eq:
  assumes "depths_ok P dep" and "anc P i c" and "P c = Some x"
  shows "relast P i x old = Some c"
proof -
  have "(THE c. anc P i c \<and> P c = Some x) = c"
    using assms anc_child_unique [OF assms(1)] by (intro the_equality) auto
  then show ?thesis using assms(2,3) by (auto simp: relast_def)
qed

lemma relast_none: "(\<And>c. anc P i c \<Longrightarrow> P c \<noteq> Some x) \<Longrightarrow> relast P i x old = old"
  by (auto simp: relast_def)

lemma relast_up:
  assumes d: "depths_ok P dep" and p: "P i = Some p"
  shows "relast P i x old = (if x = p then Some i else relast P p x old)"
proof (cases "x = p")
  case True
  then show ?thesis using relast_eq [OF d anc_self p] by simp
next
  case False
  show ?thesis
  proof (cases "\<exists>c. anc P p c \<and> P c = Some x")
    case True
    then obtain c where "anc P p c" "P c = Some x" by blast
    then show ?thesis
      using False relast_eq [OF d, of p c x] relast_eq [OF d, of i c x] p
      by (auto intro: anc.intros)
  next
    case none: False
    then have "P c \<noteq> Some x" if "anc P i c" for c
      using anc_step [OF that] p False by auto
    then show ?thesis using False none by (simp add: relast_none)
  qed
qed

lemma chain_up_hd: "\<exists>rest. chain_up P k i = i # rest"
  by (cases k) auto

lemma relink_lookup:
  assumes d: "depths_ok P dep" and "dep i \<le> k"
  shows "relink (chain_up P k i) N x =
    map_option (\<lambda>a. a\<lparr>sn_last := relast P i x (sn_last a)\<rparr>) (N x)"
  using assms(2)
proof (induction k arbitrary: i N)
  case 0
  have "P c \<noteq> Some x" if "anc P i c" for c
    using anc_step [OF that] 0 d that by (auto simp: depths_ok_def)
  then show ?case by (cases "N x") (auto simp: relast_none)
next
  case (Suc k)
  show ?case
  proof (cases "P i")
    case None
    then have "P c \<noteq> Some x" if "anc P i c" for c
      using anc_root [OF that] by auto
    then show ?thesis using None by (cases "N x") (auto simp: relast_none)
  next
    case (Some p)
    obtain rest where r: "chain_up P k p = p # rest" using chain_up_hd by blast
    have "dep p \<le> k" using d Some Suc.prems by (auto simp: depths_ok_def)
    note IH = Suc.IH [OF this, of "N(p := map_option (\<lambda>a. a\<lparr>sn_last := Some i\<rparr>) (N p))"]
    have p: "relast P p p old = old" for old
      using anc_no_loop [OF d] by (intro relast_none) blast
    show ?thesis
    proof -
      have "relink (chain_up P (Suc k) i) N x =
          relink (chain_up P k p) (N(p := map_option (\<lambda>a. a\<lparr>sn_last := Some i\<rparr>) (N p))) x"
        by (simp add: Some r)
      also have "\<dots> = map_option (\<lambda>a. a\<lparr>sn_last := relast P i x (sn_last a)\<rparr>) (N x)"
        unfolding IH relast_up [OF d Some]
        by (cases "x = p"; cases "N x") (simp_all add: p)
      finally show ?thesis .
    qed
  qed
qed

lemma s_retarget_lookup:
  assumes "links_wf (st_nodes A) root"
  shows "st_nodes (s_retarget target A) x =
    map_option (\<lambda>a. a\<lparr>sn_last := relast (spar A) target x (sn_last a)\<rparr>) (st_nodes A x)"
  using relink_lookup [OF links_depths [OF assms] order_refl] by (simp add: s_retarget_def)

lemma s_retarget_heads [simp]:
  "st_root (s_retarget target A) = st_root A"
  "st_current (s_retarget target A) = target"
  "st_next_seq (s_retarget target A) = st_next_seq A"
  by (simp_all add: s_retarget_def)

text \<open>Changing redo directions only keeps the links.\<close>

lemma links_wf_last:
  assumes w: "links_wf N root"
    and N': "\<And>x. N' x = map_option (\<lambda>a. a\<lparr>sn_last := g x a\<rparr>) (N x)"
    and g: "\<And>x a c. N x = Some a \<Longrightarrow> g x a = Some c \<Longrightarrow> c \<in> set (sn_children a)"
  shows "links_wf N' root"
  unfolding links_wf_def
proof (intro allI impI conjI)
  fix i x
  assume "N' i = Some x"
  then obtain a where a: "N i = Some a" "x = a\<lparr>sn_last := g i a\<rparr>" by (auto simp: N')
  have lift: "\<exists>z. N' k = Some z \<and> sn_parent z = sn_parent v \<and> sn_children z = sn_children v \<and>
      sn_depth z = sn_depth v" if "N k = Some v" for k v
    using that by (auto simp: N')
  show "case sn_parent x of None \<Rightarrow> i = root
      | Some p \<Rightarrow> i \<noteq> root \<and> (\<exists>z. N' p = Some z \<and> i \<in> set (sn_children z) \<and>
          sn_depth x = Suc (sn_depth z))"
  proof (cases "sn_parent a")
    case None
    then show ?thesis using links_no_parent [OF w a(1)] a(2) by simp
  next
    case (Some p)
    obtain v where v: "N p = Some v" "i \<in> set (sn_children v)" "sn_depth a = Suc (sn_depth v)"
      "i \<noteq> root"
      using links_parent [OF w a(1) Some] by blast
    then show ?thesis using lift [OF v(1)] Some a(2) by auto
  qed
  show "distinct (sn_children x)" using links_children_distinct [OF w a(1)] a(2) by simp
  show "\<forall>c \<in> set (sn_children x). \<exists>z. N' c = Some z \<and> sn_parent z = Some i"
  proof
    fix c
    assume "c \<in> set (sn_children x)"
    then obtain v where v: "N c = Some v" "sn_parent v = Some i"
      using links_child [OF w a(1)] a(2) by auto
    then show "\<exists>z. N' c = Some z \<and> sn_parent z = Some i" using lift [OF v(1)] by auto
  qed
  show "c \<in> set (sn_children x)" if "sn_last x = Some c" for c
    using that a g [OF a(1)] by simp
qed

lemma s_retarget_wf:
  assumes wf: "spec_wf A" and target: "target \<in> dom (st_nodes A)"
  shows "spec_wf (s_retarget target A)"
proof -
  note w = spec_wfD [OF wf]
  note look = s_retarget_lookup [OF w(4)]
  have d: "depths_ok (spar A) (sdep A)" using links_depths [OF w(4)] .
  have dom: "dom (st_nodes (s_retarget target A)) = dom (st_nodes A)" by (auto simp: look dom_def)
  have par: "spar (s_retarget target A) = spar A"
    by (rule ext) (auto simp: spar_def look split: option.split; case_tac "st_nodes A x"; simp)
  have "links_wf (st_nodes (s_retarget target A)) (st_root A)"
  proof (rule links_wf_last [OF w(4) look])
    fix x a c
    assume a: "st_nodes A x = Some a" and c: "relast (spar A) target x (sn_last a) = Some c"
    show "c \<in> set (sn_children a)"
    proof (cases "\<exists>c. anc (spar A) target c \<and> spar A c = Some x")
      case True
      then obtain c' where c': "anc (spar A) target c'" "spar A c' = Some x" by blast
      then have "c = c'" using c relast_eq [OF d c'] by simp
      obtain b where b: "st_nodes A c' = Some b" "sn_parent b = Some x"
        using c'(2) by (auto simp: spar_def bind_eq_Some_conv)
      then show ?thesis using links_parent(1) [OF w(4) b] a \<open>c = c'\<close> by auto
    next
      case False
      then have "sn_last a = Some c" using c by (metis relast_none)
      then show ?thesis by (rule links_last [OF w(4) a])
    qed
  qed
  moreover have "seqs_wf (st_nodes (s_retarget target A)) (st_next_seq A)"
    using w(5) by (rule seqs_wf_sub) (auto simp: look)
  moreover have "chain_wf (s_retarget target A)"
    unfolding chain_wf_def
  proof (intro allI impI)
    fix i p
    assume i: "on_chain (s_retarget target A) i" "spar (s_retarget target A) i = Some p"
    then have a: "anc (spar A) target i" "spar A i = Some p" by (simp_all add: on_chain_def par)
    obtain b where "st_nodes A i = Some b" "sn_parent b = Some p"
      using a(2) by (auto simp: spar_def bind_eq_Some_conv)
    then obtain z where "st_nodes A p = Some z" using links_parent(1) [OF w(4)] by blast
    then show "sn_last (snode (s_retarget target A) p) = Some i"
      using relast_eq [OF d a] by (simp add: snode_def look)
  qed
  ultimately show ?thesis
    using w(1,2) target by (simp add: spec_wf_def dom)
qed

lemma spar_retarget:
  assumes "links_wf (st_nodes A) root"
  shows "spar (s_retarget target A) = spar A"
proof
  fix x
  show "spar (s_retarget target A) x = spar A x"
    by (cases "st_nodes A x") (simp_all add: spar_def s_retarget_lookup [OF assms])
qed

lemma s_move_wf:
  assumes "spec_wf A" and "target \<in> dom (st_nodes A)"
  shows "spec_wf (snd (s_move target text cursor marks A))"
  unfolding s_move_def Let_def snd_conv
  using assms by (intro s_retarget_wf spec_wf_set) (simp_all add: spec_wf_def)

section \<open>Dropping nodes\<close>

lemma links_wf_restrict:
  assumes w: "links_wf N root" and S: "S \<subseteq> dom N" "root' \<in> S"
    and N': "\<And>i. N' i = (if i \<in> S then map_option (f i) (N i) else None)"
    and f_parent: "\<And>i a. i \<in> S \<Longrightarrow> N i = Some a \<Longrightarrow>
      sn_parent (f i a) = (if i = root' then None else sn_parent a)"
    and f_children: "\<And>i a. i \<in> S \<Longrightarrow> N i = Some a \<Longrightarrow>
      sn_children (f i a) = filter (\<lambda>c. c \<in> S) (sn_children a)"
    and f_depth: "\<And>i a. i \<in> S \<Longrightarrow> N i = Some a \<Longrightarrow> sn_depth (f i a) = sn_depth a"
    and f_last: "\<And>i a c. i \<in> S \<Longrightarrow> N i = Some a \<Longrightarrow> sn_last (f i a) = Some c \<Longrightarrow>
      c \<in> set (sn_children (f i a))"
    and up: "\<And>i a. i \<in> S \<Longrightarrow> i \<noteq> root' \<Longrightarrow> N i = Some a \<Longrightarrow> \<exists>p \<in> S. sn_parent a = Some p"
    and top: "\<And>i a. i \<in> S \<Longrightarrow> N i = Some a \<Longrightarrow> root' \<notin> set (sn_children a)"
  shows "links_wf N' root'"
  unfolding links_wf_def
proof (intro allI impI conjI)
  fix i x
  assume "N' i = Some x"
  then obtain a where a: "i \<in> S" "N i = Some a" "x = f i a" by (auto simp: N' split: if_splits)
  show "case sn_parent x of None \<Rightarrow> i = root'
      | Some p \<Rightarrow> i \<noteq> root' \<and> (\<exists>z. N' p = Some z \<and> i \<in> set (sn_children z) \<and>
          sn_depth x = Suc (sn_depth z))"
  proof (cases "i = root'")
    case True
    then show ?thesis using f_parent [OF a(1,2)] a(3) by simp
  next
    case False
    obtain p where p: "p \<in> S" "sn_parent a = Some p" using up [OF a(1) False a(2)] by blast
    obtain b where b: "N p = Some b" "i \<in> set (sn_children b)" "sn_depth a = Suc (sn_depth b)"
      using links_parent(1) [OF w a(2) p(2)] by blast
    then show ?thesis
      using False a p f_parent [OF a(1,2)] f_children [OF p(1) b(1)] f_depth [OF a(1,2)]
        f_depth [OF p(1) b(1)]
      by (simp add: N')
  qed
  show "distinct (sn_children x)"
    using links_children_distinct [OF w a(2)] f_children [OF a(1,2)] a(3) by simp
  show "\<forall>c \<in> set (sn_children x). \<exists>z. N' c = Some z \<and> sn_parent z = Some i"
  proof
    fix c
    assume "c \<in> set (sn_children x)"
    then have c: "c \<in> S" "c \<in> set (sn_children a)" using f_children [OF a(1,2)] a(3) by auto
    then obtain b where b: "N c = Some b" "sn_parent b = Some i" using links_child [OF w a(2)] by blast
    have "c \<noteq> root'" using top [OF a(1,2)] c(2) by auto
    then show "\<exists>z. N' c = Some z \<and> sn_parent z = Some i"
      using c(1) b f_parent [OF c(1) b(1)] by (simp add: N')
  qed
  show "c \<in> set (sn_children x)" if "sn_last x = Some c" for c
    using f_last [OF a(1,2)] a(3) that by simp
qed

lemma anc_mono: "anc P i j \<Longrightarrow> (\<And>k p. P k = Some p \<Longrightarrow> Q k = Some p) \<Longrightarrow> anc Q i j"
  by (induction rule: anc.induct) (auto intro: anc.intros)

lemma chain_wf_restrict:
  assumes c: "chain_wf A" and cur: "on_chain A (st_current B)"
    and par: "\<And>i p. spar B i = Some p \<Longrightarrow> spar A i = Some p"
    and last: "\<And>i p. on_chain B i \<Longrightarrow> spar B i = Some p \<Longrightarrow> sn_last (snode A p) = Some i \<Longrightarrow>
      sn_last (snode B p) = Some i"
  shows "chain_wf B"
  unfolding chain_wf_def
proof (intro allI impI)
  fix i p
  assume i: "on_chain B i" "spar B i = Some p"
  have "anc (spar A) (st_current B) i"
    using i(1) anc_mono [OF _ par] by (simp add: on_chain_def)
  then have "on_chain A i" using cur by (auto simp: on_chain_def intro: anc_trans)
  then have "sn_last (snode A p) = Some i" using c par [OF i(2)] by (auto simp: chain_wf_def)
  then show "sn_last (snode B p) = Some i" using last i by blast
qed

lemma last_opt_mem: "last_opt xs = Some x \<Longrightarrow> x \<in> set xs"
  by (auto simp: last_opt_def split: if_splits)

definition s_cut :: "nat \<Rightarrow> nat \<Rightarrow> nat option \<Rightarrow> snap_tree \<Rightarrow> snap_tree" where
  "s_cut p leaf l A = s_delete {leaf} (s_upd p (\<lambda>b. b\<lparr>sn_children := filter (\<lambda>x. x \<noteq> leaf) (sn_children b),
     sn_last := l\<rparr>) A)"

lemma s_cut_lookup:
  "st_nodes (s_cut p leaf l A) i =
    (if i = leaf then None
     else if i = p then map_option (\<lambda>b. b\<lparr>sn_children := filter (\<lambda>x. x \<noteq> leaf) (sn_children b),
       sn_last := l\<rparr>) (st_nodes A p)
     else st_nodes A i)"
  by (simp add: s_cut_def s_delete_def)

lemma s_cut_heads [simp]:
  "st_root (s_cut p leaf l A) = st_root A"
  "st_current (s_cut p leaf l A) = st_current A"
  "st_next_seq (s_cut p leaf l A) = st_next_seq A"
  by (simp_all add: s_cut_def s_delete_def)

lemma spar_cut: "spar (s_cut p leaf l A) i = (if i = leaf then None else spar A i)"
  by (cases "st_nodes A p") (auto simp: spar_def s_cut_lookup)

lemma s_cut_wf:
  assumes wf: "spec_wf A" and leaf: "st_nodes A leaf = Some a" "sn_children a = []"
    and p: "sn_parent a = Some p" "st_nodes A p = Some b"
    and l: "\<And>c. l = Some c \<Longrightarrow> c \<in> set (sn_children b) \<and> c \<noteq> leaf"
  shows "links_wf (st_nodes (s_cut p leaf l A)) (st_root A)"
    and "seqs_wf (st_nodes (s_cut p leaf l A)) (st_next_seq A)"
    and "finite (dom (st_nodes (s_cut p leaf l A)))"
    and "st_root A \<in> dom (st_nodes (s_cut p leaf l A))"
proof -
  note w = spec_wfD [OF wf]
  let ?N = "st_nodes A"
  let ?S = "dom ?N - {leaf}"
  let ?f = "\<lambda>i x. if i = p then x\<lparr>sn_children := filter (\<lambda>x. x \<noteq> leaf) (sn_children x), sn_last := l\<rparr> else x"
  have root: "leaf \<noteq> st_root A" using links_parent(2) [OF w(4) leaf(1) p(1)] .
  have np: "p \<noteq> leaf" using links_parent(1) [OF w(4) leaf(1) p(1)] leaf(1) by auto
  have other: "leaf \<notin> set (sn_children x)" if "?N i = Some x" "i \<noteq> p" for i x
    using links_child [OF w(4) that(1), of leaf] leaf(1) p(1) that(2) by auto
  have keep: "filter (\<lambda>c. c \<in> ?S) (sn_children x) = filter (\<lambda>c. c \<noteq> leaf) (sn_children x)"
    if "?N i = Some x" for i x
    using links_child [OF w(4) that] by (intro filter_cong) auto
  show "links_wf (st_nodes (s_cut p leaf l A)) (st_root A)"
  proof (rule links_wf_restrict [OF w(4), of ?S "st_root A" _ ?f])
    show "sn_children (?f i x) = filter (\<lambda>c. c \<in> ?S) (sn_children x)"
      if "i \<in> ?S" "?N i = Some x" for i x
    proof (cases "i = p")
      case False
      have "filter (\<lambda>c. c \<noteq> leaf) (sn_children x) = sn_children x"
        using other [OF that(2) False] by (intro filter_True) auto
      then show ?thesis using keep [OF that(2)] False by simp
    qed (use keep [OF that(2)] in simp)
    show "\<exists>q \<in> ?S. sn_parent x = Some q" if h: "i \<in> ?S" "i \<noteq> st_root A" "?N i = Some x" for i x
    proof (cases "sn_parent x")
      case None
      then show ?thesis using links_no_parent [OF w(4) h(3)] h(2) by simp
    next
      case (Some q)
      obtain y where y: "?N q = Some y" "i \<in> set (sn_children y)"
        using links_parent(1) [OF w(4) h(3) Some] by blast
      then have "q \<noteq> leaf" using leaf by auto
      then show ?thesis using Some y by auto
    qed
    show "st_root A \<notin> set (sn_children x)" if h: "i \<in> ?S" "?N i = Some x" for i x
    proof
      assume "st_root A \<in> set (sn_children x)"
      then obtain y where "?N (st_root A) = Some y" "sn_parent y = Some i"
        using links_child [OF w(4) h(2)] by blast
      then show False using links_parent(2) [OF w(4)] by blast
    qed
    show "c \<in> set (sn_children (?f i x))"
      if "i \<in> ?S" "?N i = Some x" "sn_last (?f i x) = Some c" for i x c
      using that l [of c] links_last [OF w(4) that(2), of c] p(2) by (auto split: if_splits)
    show "sn_parent (?f i x) = (if i = st_root A then None else sn_parent x)"
      if "i \<in> ?S" "?N i = Some x" for i x
      using links_parent(2) [OF w(4), of "st_root A" x] that by (cases "sn_parent x") auto
  qed (use w(2) root in \<open>auto simp: s_cut_lookup dom_def\<close>)
  show "seqs_wf (st_nodes (s_cut p leaf l A)) (st_next_seq A)"
    using w(5) by (rule seqs_wf_sub) (auto simp: s_cut_lookup split: if_splits)
  have "dom (st_nodes (s_cut p leaf l A)) = ?S"
    by (auto simp: s_cut_lookup split: if_splits)
  then show "finite (dom (st_nodes (s_cut p leaf l A)))" and "st_root A \<in> dom (st_nodes (s_cut p leaf l A))"
    using w(1,2) root by auto
qed

text \<open>Popping the leaf \<open>current\<close> and detaching a leaf off the chain are two cuts.\<close>

lemma s_pop_wf:
  assumes wf: "spec_wf A"
  shows "spec_wf (snd (s_pop A))"
proof -
  note w = spec_wfD [OF wf]
  let ?cur = "st_current A"
  obtain a where a: "st_nodes A ?cur = Some a" using w(3) by blast
  show ?thesis
  proof (cases "sn_children a = [] \<and> sn_parent a \<noteq> None")
    case False
    then show ?thesis using wf a by (auto simp: s_pop_def snode_simps Let_def)
  next
    case True
    then obtain p where p: "sn_parent a = Some p" by auto
    obtain b where b: "st_nodes A p = Some b" using links_parent(1) [OF w(4) a p] by blast
    have np: "p \<noteq> ?cur" using links_parent(1) [OF w(4) a p] a by auto
    define l where "l = last_opt (filter (\<lambda>x. x \<noteq> ?cur) (sn_children b))"
    define nxt where "nxt = (if sn_seq a + 1 = st_next_seq A then st_next_seq A - 1 else st_next_seq A)"
    let ?C = "s_cut p ?cur l A"
    let ?B = "?C\<lparr>st_current := p, st_next_seq := nxt\<rparr>"
    have eq: "snd (s_pop A) = ?B"
      using True a p b np
      by (simp add: s_pop_def snode_simps Let_def nxt_def s_cut_def s_unlink_def l_def s_upd_def
          s_delete_def fun_upd_def cong: if_cong)
    have "c \<in> set (sn_children b) \<and> c \<noteq> ?cur" if "l = Some c" for c
      using last_opt_mem [OF that [unfolded l_def]] by simp
    note cut = s_cut_wf [OF wf a _ p b this]
    have sq: "sn_seq x < nxt" if "st_nodes ?C i = Some x" for i x
    proof -
      have ne: "i \<noteq> ?cur" "\<exists>y. st_nodes A i = Some y \<and> sn_seq y = sn_seq x"
        using that by (auto simp: s_cut_lookup split: if_splits)
      then have "sn_seq x \<noteq> sn_seq a" "sn_seq x < st_next_seq A"
        using w(5) a unfolding seqs_wf_def by metis+
      then show ?thesis by (auto simp: nxt_def)
    qed
    have "chain_wf ?B"
    proof (rule chain_wf_restrict [OF w(6)])
      show "on_chain A (st_current ?B)"
        using a p by (auto simp: on_chain_def spar_def intro: anc.intros)
      have par: "spar ?B i = (if i = ?cur then None else spar A i)" for i
        by (simp add: spar_def s_cut_lookup) (metis (no_types) spar_cut spar_def s_cut_lookup)
      then show "spar A i = Some q" if "spar ?B i = Some q" for i q
        using that by (auto split: if_splits)
      show "sn_last (snode ?B q) = Some i"
        if i: "on_chain ?B i" "spar ?B i = Some q" "sn_last (snode A q) = Some i" for i q
      proof -
        have q: "spar A i = Some q" "i \<noteq> ?cur" using i(2) par by (auto split: if_splits)
        have "anc (spar A) p i"
          using i(1) par by (auto simp: on_chain_def intro: anc_mono split: if_splits)
        then have "q \<noteq> p" using anc_no_loop [OF links_depths [OF w(4)]] q(1) by blast
        moreover have "q \<noteq> ?cur"
        proof
          assume "q = ?cur"
          then obtain x where "st_nodes A i = Some x" "sn_parent x = Some ?cur"
            using q(1) by (auto simp: spar_def bind_eq_Some_conv)
          then show False using links_parent(1) [OF w(4)] a True by fastforce
        qed
        ultimately show ?thesis using i(3) by (simp add: snode_def s_cut_lookup)
      qed
    qed
    moreover have "seqs_wf (st_nodes ?C) nxt"
      using cut(2) True sq unfolding seqs_wf_def by blast
    ultimately show ?thesis
      unfolding eq using cut True b np by (simp add: spec_wf_def s_cut_lookup dom_def)
  qed
qed

lemma s_detach_cut:
  assumes "st_nodes A leaf = Some a" and "sn_parent a = Some p" and "st_nodes A p = Some b"
  shows "s_detach leaf A = s_cut p leaf (if sn_last b = Some leaf
    then last_opt (filter (\<lambda>x. x \<noteq> leaf) (sn_children b)) else sn_last b) A"
  using assms
  by (simp add: s_detach_def spar_Some s_cut_def s_unlink_def s_upd_def s_delete_def fun_upd_def
      cong: if_cong)

lemma s_detach_wf:
  assumes wf: "spec_wf A" and leaf: "st_nodes A leaf = Some a" "sn_children a = []"
    and off: "\<not> on_chain A leaf"
  shows "spec_wf (s_detach leaf A)"
proof -
  note w = spec_wfD [OF wf]
  have "leaf \<noteq> st_root A"
    using off anc_reaches_root [OF w(4)] w(3) by (auto simp: on_chain_def)
  then obtain p where p: "sn_parent a = Some p"
    using links_no_parent [OF w(4) leaf(1)] by (cases "sn_parent a") auto
  obtain b where b: "st_nodes A p = Some b" using links_parent(1) [OF w(4) leaf(1) p] by blast
  define l where "l = (if sn_last b = Some leaf
    then last_opt (filter (\<lambda>x. x \<noteq> leaf) (sn_children b)) else sn_last b)"
  let ?B = "s_cut p leaf l A"
  have eq: "s_detach leaf A = ?B" unfolding l_def by (rule s_detach_cut [OF leaf(1) p b])
  have "c \<in> set (sn_children b) \<and> c \<noteq> leaf" if "l = Some c" for c
    using that last_opt_mem [of "filter (\<lambda>x. x \<noteq> leaf) (sn_children b)" c] links_last [OF w(4) b, of c]
    by (auto simp: l_def split: if_splits)
  note cut = s_cut_wf [OF wf leaf p b this]
  have "chain_wf ?B"
  proof (rule chain_wf_restrict [OF w(6)])
    show "on_chain A (st_current ?B)" by (simp add: on_chain_def anc_self)
    show par: "spar A i = Some q" if "spar ?B i = Some q" for i q
      using that by (auto simp: spar_cut split: if_splits)
    show "sn_last (snode ?B q) = Some i"
      if i: "on_chain ?B i" "spar ?B i = Some q" "sn_last (snode A q) = Some i" for i q
    proof -
      have "on_chain A i" using i(1) par by (auto simp: on_chain_def intro: anc_mono)
      then have chain: "on_chain A q"
        using par [OF i(2)] by (auto simp: on_chain_def intro: anc_parent)
      then have "q \<noteq> leaf" and "i \<noteq> leaf" using off \<open>on_chain A i\<close> by auto
      then show ?thesis
        using i(3) b by (auto simp: snode_def s_cut_lookup l_def)
    qed
  qed
  moreover have "st_current A \<noteq> leaf" using off by (auto simp: on_chain_def anc_self)
  then have "st_current A \<in> dom (st_nodes ?B)"
    using w(3) by (auto simp: s_cut_lookup)
  ultimately show ?thesis using cut unfolding eq by (simp add: spec_wf_def)
qed

lemma below_closed:
  assumes "links_wf (st_nodes A) root" and "i \<in> below A j" and "st_nodes A i = Some a"
    and "c \<in> set (sn_children a)"
  shows "c \<in> below A j"
  using assms links_child [OF assms(1,3,4)]
  by (auto simp: below_def spar_def intro: anc.intros)

lemma s_prune_lookup:
  "st_nodes (s_prune child A) i =
    (if i \<in> below A child then
       map_option (\<lambda>a. if i = child then a\<lparr>sn_parent := None\<rparr> else a) (st_nodes A i)
     else None)"
  by (cases "st_nodes A i") (auto simp: s_prune_def s_delete_def restrict_map_def below_def dom_def)

lemma s_prune_heads [simp]:
  "st_root (s_prune child A) = child"
  "st_current (s_prune child A) = st_current A"
  "st_next_seq (s_prune child A) = st_next_seq A"
  by (simp_all add: s_prune_def s_delete_def)

lemma s_prune_wf:
  assumes wf: "spec_wf A" and child: "on_chain A child" "spar A child = Some p"
  shows "spec_wf (s_prune child A)"
proof -
  note w = spec_wfD [OF wf]
  let ?N = "st_nodes A" and ?S = "below A child" and ?B = "s_prune child A"
  let ?f = "\<lambda>i a. if i = child then a\<lparr>sn_parent := None\<rparr> else a"
  have d: "depths_ok (spar A) (sdep A)" using links_depths [OF w(4)] .
  have c: "child \<in> ?S" using spar_dom [OF child(2)] by (simp add: below_def anc_self)
  have links: "links_wf (st_nodes ?B) child"
  proof (rule links_wf_restrict [OF w(4), of ?S child _ ?f])
    show "sn_children (?f i x) = filter (\<lambda>c. c \<in> ?S) (sn_children x)"
      if "i \<in> ?S" "?N i = Some x" for i x
    proof -
      have "filter (\<lambda>c. c \<in> ?S) (sn_children x) = sn_children x"
        using below_closed [OF w(4) that] by (intro filter_True) auto
      then show ?thesis by simp
    qed
    show "\<exists>q \<in> ?S. sn_parent x = Some q" if h: "i \<in> ?S" "i \<noteq> child" "?N i = Some x" for i x
    proof -
      obtain q where q: "spar A i = Some q" "anc (spar A) q child"
        using h(1,2) anc_step [of "spar A" i child] by (auto simp: below_def)
      then have "sn_parent x = Some q" using h(3) by (simp add: spar_Some)
      then show ?thesis using q(2) links_parent(1) [OF w(4) h(3)] by (auto simp: below_def)
    qed
    show "child \<notin> set (sn_children x)" if h: "i \<in> ?S" "?N i = Some x" for i x
    proof
      assume "child \<in> set (sn_children x)"
      then have "spar A child = Some i"
        by (rule links_child_spar [OF w(4) h(2)])
      then show False using anc_no_loop [OF d] h(1) by (auto simp: below_def)
    qed
    show "c \<in> set (sn_children (?f i x))"
      if h: "i \<in> ?S" "?N i = Some x" "sn_last (?f i x) = Some c" for i x c
      using links_last [OF w(4) h(2), of c] h(3) by (auto split: if_splits)
  qed (use c in \<open>auto simp: s_prune_lookup below_def\<close>)
  have seqs: "seqs_wf (st_nodes ?B) (st_next_seq A)"
    using w(5) by (rule seqs_wf_sub) (auto simp: s_prune_lookup split: if_splits)
  have dom: "dom (st_nodes ?B) = ?S"
    by (auto simp: s_prune_lookup below_def split: if_splits)
  have cur: "st_current A \<in> ?S" using child(1) w(3) by (auto simp: below_def on_chain_def)
  have par: "spar A i = Some q \<and> i \<noteq> child" if h: "spar ?B i = Some q" for i q
  proof (cases "i = child")
    case True
    then show ?thesis using h by (cases "st_nodes A child") (simp_all add: spar_def s_prune_lookup split: if_splits)
  next
    case False
    then show ?thesis using h by (auto simp: spar_def s_prune_lookup bind_eq_Some_conv split: if_splits)
  qed
  have "chain_wf ?B"
  proof (rule chain_wf_restrict [OF w(6)])
    show "on_chain A (st_current ?B)" by (simp add: on_chain_def anc_self)
    show "spar A i = Some q" if "spar ?B i = Some q" for i q
      using par [OF that] by simp
    show "sn_last (snode ?B q) = Some i"
      if h: "on_chain ?B i" "spar ?B i = Some q" "sn_last (snode A q) = Some i" for i q
    proof -
      obtain x where "st_nodes ?B i = Some x" "sn_parent x = Some q"
        using h(2) by (auto simp: spar_def bind_eq_Some_conv)
      then obtain z where "st_nodes ?B q = Some z" using links_parent(1) [OF links] by blast
      then show ?thesis using h(3) by (auto simp: snode_def s_prune_lookup split: if_splits)
    qed
  qed
  moreover have "finite ?S" by (rule finite_subset [OF _ w(1)]) (auto simp: below_def)
  ultimately show ?thesis
    using links seqs c cur by (simp add: spec_wf_def dom)
qed

lemma s_clear_redo_lookup:
  assumes "st_current A \<in> dom (st_nodes A)"
  shows "st_nodes (s_clear_redo A) i =
    (if i \<in> below A (st_current A) \<and> i \<noteq> st_current A then None
     else map_option (\<lambda>a. if i = st_current A then a\<lparr>sn_children := [], sn_last := None\<rparr> else a)
       (st_nodes A i))"
  using assms
  by (cases "st_nodes A i") (auto simp: s_clear_redo_def s_delete_def restrict_map_def)

lemma s_clear_redo_heads [simp]:
  "st_root (s_clear_redo A) = st_root A"
  "st_current (s_clear_redo A) = st_current A"
  "st_next_seq (s_clear_redo A) = st_next_seq A"
  by (simp_all add: s_clear_redo_def s_delete_def)

lemma s_clear_redo_wf:
  assumes wf: "spec_wf A"
  shows "spec_wf (s_clear_redo A)"
proof -
  note w = spec_wfD [OF wf]
  let ?N = "st_nodes A" and ?cur = "st_current A" and ?B = "s_clear_redo A"
  let ?S = "dom ?N - (below A ?cur - {?cur})"
  let ?f = "\<lambda>i a. if i = ?cur then a\<lparr>sn_children := [], sn_last := None\<rparr> else a"
  note look = s_clear_redo_lookup [OF w(3)]
  have d: "depths_ok (spar A) (sdep A)" using links_depths [OF w(4)] .
  have kid: "c \<in> below A ?cur \<and> c \<noteq> ?cur \<longleftrightarrow> i \<in> below A ?cur"
    if h: "?N i = Some x" "c \<in> set (sn_children x)" for i x c
  proof -
    obtain y where y: "?N c = Some y" "sn_parent y = Some i" using links_child [OF w(4) h] by blast
    then have p: "spar A c = Some i" by (simp add: spar_Some)
    have "anc (spar A) c ?cur \<and> c \<noteq> ?cur \<longleftrightarrow> anc (spar A) i ?cur"
      using p anc_step [of "spar A" c ?cur] anc_no_loop [OF d p] by (auto intro: anc.intros)
    then show ?thesis using y h by (auto simp: below_def)
  qed
  have root: "st_root A \<in> ?S"
  proof -
    have "spar A (st_root A) = None"
      using w(2,4) links_parent(2) [OF w(4)] by (fastforce simp: spar_def)
    then have "anc (spar A) (st_root A) ?cur \<Longrightarrow> ?cur = st_root A" by (rule anc_root [rotated])
    then show ?thesis using w(2) by (auto simp: below_def)
  qed
  have links: "links_wf (st_nodes ?B) (st_root A)"
  proof (rule links_wf_restrict [OF w(4), of ?S "st_root A" _ ?f])
    show "sn_children (?f i x) = filter (\<lambda>c. c \<in> ?S) (sn_children x)"
      if h: "i \<in> ?S" "?N i = Some x" for i x
    proof -
      have live: "c \<in> dom ?N" if "c \<in> set (sn_children x)" for c
        using links_child [OF w(4) h(2) that] by auto
      show ?thesis
      proof (cases "i = ?cur")
        case True
        then have "i \<in> below A ?cur" using w(3) by (auto simp: below_def anc_self)
        then have "filter (\<lambda>c. c \<in> ?S) (sn_children x) = []"
          using kid [OF h(2)] by (intro filter_False) auto
        then show ?thesis using True by simp
      next
        case False
        then have "i \<notin> below A ?cur" using h(1) by auto
        then have "filter (\<lambda>c. c \<in> ?S) (sn_children x) = sn_children x"
          using kid [OF h(2)] live by (intro filter_True) auto
        then show ?thesis using False by simp
      qed
    qed
    show "\<exists>q \<in> ?S. sn_parent x = Some q" if h: "i \<in> ?S" "i \<noteq> st_root A" "?N i = Some x" for i x
    proof (cases "sn_parent x")
      case None
      then show ?thesis using links_no_parent [OF w(4) h(3)] h(2) by simp
    next
      case (Some q)
      obtain y where y: "?N q = Some y" "i \<in> set (sn_children y)"
        using links_parent(1) [OF w(4) h(3) Some] by blast
      then have "q \<in> ?S" using kid [OF y] h(1,3) w(3)
        by (cases "q = ?cur") auto
      then show ?thesis using Some by blast
    qed
    show "st_root A \<notin> set (sn_children x)" if h: "i \<in> ?S" "?N i = Some x" for i x
    proof
      assume "st_root A \<in> set (sn_children x)"
      then obtain y where "?N (st_root A) = Some y" "sn_parent y = Some i"
        using links_child [OF w(4) h(2)] by blast
      then show False using links_parent(2) [OF w(4)] by blast
    qed
    show "c \<in> set (sn_children (?f i x))"
      if h: "i \<in> ?S" "?N i = Some x" "sn_last (?f i x) = Some c" for i x c
      using links_last [OF w(4) h(2), of c] h(3) by (auto split: if_splits)
    show "sn_parent (?f i x) = (if i = st_root A then None else sn_parent x)"
      if h: "i \<in> ?S" "?N i = Some x" for i x
      using links_parent(2) [OF w(4), of "st_root A" x] h by (cases "sn_parent x") auto
  qed (use root in \<open>auto simp: look\<close>)
  have "seqs_wf (st_nodes ?B) (st_next_seq A)"
    using w(5) by (rule seqs_wf_sub) (auto simp: look split: if_splits)
  moreover have "chain_wf ?B"
  proof (rule chain_wf_restrict [OF w(6)])
    show "on_chain A (st_current ?B)" by (simp add: on_chain_def anc_self)
    show par: "spar A i = Some q" if "spar ?B i = Some q" for i q
      using that by (auto simp: spar_def look bind_eq_Some_conv split: if_splits)
    show "sn_last (snode ?B q) = Some i"
      if h: "on_chain ?B i" "spar ?B i = Some q" "sn_last (snode A q) = Some i" for i q
    proof -
      have a: "anc (spar A) ?cur i" using h(1) par by (auto simp: on_chain_def intro: anc_mono)
      have q: "spar A i = Some q" using par [OF h(2)] .
      have "q \<noteq> ?cur" using anc_no_loop [OF d q] a by auto
      moreover have "q \<notin> below A ?cur"
      proof
        assume "q \<in> below A ?cur"
        then have "anc (spar A) q i" using a by (auto simp: below_def intro: anc_trans)
        then show False using anc_no_loop [OF d q] by simp
      qed
      ultimately show ?thesis using h(3) by (auto simp: snode_def look)
        (cases "st_nodes A q"; simp add: option.map_id0 option.map_ident)
    qed
  qed
  moreover have dom: "dom (st_nodes ?B) = ?S" by (auto simp: look split: if_splits)
  ultimately show ?thesis
    using links root w(1,3) by (simp add: spec_wf_def dom)
qed

lemma s_clear_all_lookup:
  "st_nodes (s_clear_all A) i =
    (if i = st_current A then map_option (\<lambda>a. a\<lparr>sn_parent := None, sn_children := [],
       sn_last := None, sn_depth := 0\<rparr>) (st_nodes A i) else None)"
  by (simp add: s_clear_all_def s_delete_def restrict_map_def)

lemma s_clear_all_wf:
  assumes wf: "spec_wf A"
  shows "spec_wf (s_clear_all A)"
proof -
  note w = spec_wfD [OF wf]
  obtain a where a: "st_nodes A (st_current A) = Some a" using w(3) by blast
  have heads: "st_root (s_clear_all A) = st_current A" "st_current (s_clear_all A) = st_current A"
    "st_next_seq (s_clear_all A) = st_next_seq A"
    by (simp_all add: s_clear_all_def s_delete_def)
  have dom: "dom (st_nodes (s_clear_all A)) = {st_current A}"
    using a by (auto simp: s_clear_all_lookup split: if_splits)
  have par: "spar (s_clear_all A) i = None" for i
    using a by (auto simp: spar_def s_clear_all_lookup)
  have "links_wf (st_nodes (s_clear_all A)) (st_current A)"
    using a by (auto simp: links_wf_def s_clear_all_lookup)
  moreover have "seqs_wf (st_nodes (s_clear_all A)) (st_next_seq A)"
    using w(5) by (rule seqs_wf_sub) (auto simp: s_clear_all_lookup split: if_splits)
  ultimately show ?thesis by (simp add: spec_wf_def heads dom chain_wf_def par)
qed

end
