(* ===== verification/UndoSim.thy ===== *)
theory UndoSim
  imports UndoSpec
begin

text \<open>
  The detailed undo tree implements the abstract one.  \<open>refines R t A\<close> relates an arena
  with deltas, caches, path flags and an index to an abstract tree of snapshots; the
  lemmas show, operation by operation, that under the relation no operation panics or
  runs forever, that its result is the abstract one and that the relation is kept.
\<close>

section \<open>The relation\<close>

definition node_ok ::
  "'r rope_ops \<Rightarrow> (nat \<rightharpoonup> snap_node) \<Rightarrow> (nat \<Rightarrow> bool) \<Rightarrow> nat \<Rightarrow> 'r undo_node \<Rightarrow> snap_node \<Rightarrow> bool" where
  "node_ok R N F i n a \<longleftrightarrow>
     un_parent n = sn_parent a \<and> un_children n = sn_children a \<and> un_last_child n = sn_last a \<and>
     un_depth n = sn_depth a \<and> un_cursor n = sn_cursor a \<and> un_timestamp n = sn_timestamp a \<and>
     un_marks n = sn_marks a \<and> un_seq n = sn_seq a \<and> un_on_path n = F i \<and>
     valid_str (sn_text a) \<and>
     (case sn_parent a of
        None \<Rightarrow> un_delta n = None \<and> un_rope_cache n = None \<and>
          (\<exists>b. un_base n = Some b \<and> rp_text R b = sn_text a)
      | Some p \<Rightarrow> un_base n = None \<and>
          (\<exists>d b. un_delta n = Some d \<and> valid_str (d_new d) \<and> N p = Some b \<and>
             delta_links d (sn_text b) (sn_text a))) \<and>
     (\<forall>r. un_rope_cache n = Some r \<longrightarrow> rp_text R r = sn_text a)"

definition nodes_ok ::
  "'r rope_ops \<Rightarrow> (nat \<rightharpoonup> snap_node) \<Rightarrow> (nat \<Rightarrow> bool) \<Rightarrow> (nat \<rightharpoonup> 'r undo_node) \<Rightarrow> bool" where
  "nodes_ok R N F M \<longleftrightarrow>
     (\<forall>i. (M i = None \<longleftrightarrow> N i = None) \<and>
        (\<forall>n a. M i = Some n \<longrightarrow> N i = Some a \<longrightarrow> node_ok R N F i n a))"

definition cached :: "'r undo_tree \<Rightarrow> nat \<Rightarrow> bool" where
  "cached t i \<longleftrightarrow> (\<exists>n. node_get t i = Some n \<and> un_rope_cache n \<noteq> None)"

definition kf_depth :: "'r undo_tree \<Rightarrow> nat \<Rightarrow> bool" where
  "kf_depth t i \<longleftrightarrow> (\<exists>n. node_get t i = Some n \<and> un_depth n mod KEYFRAME_INTERVAL = 0)"

text \<open>The caches: a rope is cached exactly at the nodes of the two lists, which keep
  their bounds.  \<open>lists_ok_but t i\<close> is the state in which \<open>i\<close> was just cached.\<close>

definition lists_ok_but :: "'r undo_tree \<Rightarrow> nat set \<Rightarrow> bool" where
  "lists_ok_but t E \<longleftrightarrow>
     distinct (ut_warm t) \<and> distinct (ut_keyframes t) \<and>
     length (ut_warm t) \<le> WARM_CAP \<and> length (ut_keyframes t) \<le> KEYFRAME_CAP \<and>
     (\<forall>i. i \<notin> E \<longrightarrow> (i \<in> set (ut_warm t) \<longleftrightarrow> cached t i \<and> \<not> kf_depth t i)) \<and>
     (\<forall>i. i \<notin> E \<longrightarrow> (i \<in> set (ut_keyframes t) \<longleftrightarrow> cached t i \<and> kf_depth t i)) \<and>
     (\<forall>i \<in> set (ut_warm t). \<not> kf_depth t i \<and> node_get t i \<noteq> None) \<and>
     (\<forall>i \<in> set (ut_keyframes t). kf_depth t i)"

abbreviation lists_ok :: "'r undo_tree \<Rightarrow> bool" where
  "lists_ok t \<equiv> lists_ok_but t {}"

definition index_ok :: "'r undo_tree \<Rightarrow> bool" where
  "index_ok t \<longleftrightarrow> sorted_wrt (<) (map fst (ut_by_seq t)) \<and>
     (\<forall>s i. (s, i) \<in> set (ut_by_seq t) \<longleftrightarrow> (\<exists>n. node_get t i = Some n \<and> un_seq n = s))"

definition arena_ok :: "'r undo_tree \<Rightarrow> bool" where
  "arena_ok t \<longleftrightarrow> distinct (ut_free t) \<and>
     (\<forall>i. i \<in> set (ut_free t) \<longleftrightarrow> i < length (ut_nodes t) \<and> node_get t i = None)"

definition refines :: "'r rope_ops \<Rightarrow> 'r undo_tree \<Rightarrow> snap_tree \<Rightarrow> bool" where
  "refines R t A \<longleftrightarrow>
     nodes_ok R (st_nodes A) (on_chain A) (node_get t) \<and> lists_ok t \<and> index_ok t \<and> arena_ok t \<and>
     ut_root t = st_root A \<and> ut_current t = st_current A \<and> ut_next_seq t = st_next_seq A"

section \<open>Access to the arena\<close>

lemma node_get_length: "node_get t i = Some n \<Longrightarrow> i < length (ut_nodes t)"
  by (simp add: node_get_def split: if_splits)

lemma node_mod_eq:
  "node_get t i = Some n \<Longrightarrow>
    node_mod i f t = Some (t\<lparr>ut_nodes := (ut_nodes t)[i := Some (f n)]\<rparr>)"
  by (simp add: node_mod_def)

lemma node_get_update:
  "i < length (ut_nodes t) \<Longrightarrow>
    node_get (t\<lparr>ut_nodes := (ut_nodes t)[i := x]\<rparr>) j = (if j = i then x else node_get t j)"
  by (auto simp: node_get_def)

lemma node_get_simps [simp]:
  "node_get (t\<lparr>ut_free := a\<rparr>) = node_get t"
  "node_get (t\<lparr>ut_warm := b\<rparr>) = node_get t"
  "node_get (t\<lparr>ut_keyframes := b\<rparr>) = node_get t"
  "node_get (t\<lparr>ut_by_seq := c\<rparr>) = node_get t"
  "node_get (t\<lparr>ut_root := d\<rparr>) = node_get t"
  "node_get (t\<lparr>ut_current := d\<rparr>) = node_get t"
  "node_get (t\<lparr>ut_next_seq := d\<rparr>) = node_get t"
  by (simp_all add: node_get_def fun_eq_iff)

text \<open>The tree after one field update of a live node.\<close>

definition modified :: "nat \<Rightarrow> ('r undo_node \<Rightarrow> 'r undo_node) \<Rightarrow> 'r undo_tree \<Rightarrow> 'r undo_tree" where
  "modified i f t = t\<lparr>ut_nodes := (ut_nodes t)[i := map_option f (node_get t i)]\<rparr>"

lemma node_mod_modified: "node_get t i = Some n \<Longrightarrow> node_mod i f t = Some (modified i f t)"
  by (simp add: node_mod_eq modified_def)

lemma modified_heads [simp]:
  "ut_free (modified i f t) = ut_free t" "ut_warm (modified i f t) = ut_warm t"
  "ut_keyframes (modified i f t) = ut_keyframes t" "ut_by_seq (modified i f t) = ut_by_seq t"
  "ut_root (modified i f t) = ut_root t" "ut_current (modified i f t) = ut_current t"
  "ut_next_seq (modified i f t) = ut_next_seq t"
  "length (ut_nodes (modified i f t)) = length (ut_nodes t)"
  by (simp_all add: modified_def)

lemma node_get_modified [simp]:
  "node_get (modified i f t) j = (if j = i then map_option f (node_get t i) else node_get t j)"
  by (cases "node_get t i") (auto simp: modified_def node_get_def)

lemma modified_modified: "node_get t i = Some n \<Longrightarrow> modified i g (modified i f t) = modified i (g \<circ> f) t"
  by (auto simp: modified_def node_get_def split: if_splits)

section \<open>Eviction\<close>

definition drop_cache :: "'r undo_node \<Rightarrow> 'r undo_node" where
  "drop_cache n = n\<lparr>un_rope_cache := None\<rparr>"

lemma drop_cache_simps [simp]:
  "un_parent (drop_cache n) = un_parent n" "un_children (drop_cache n) = un_children n"
  "un_last_child (drop_cache n) = un_last_child n" "un_delta (drop_cache n) = un_delta n"
  "un_base (drop_cache n) = un_base n" "un_rope_cache (drop_cache n) = None"
  "un_depth (drop_cache n) = un_depth n" "un_cursor (drop_cache n) = un_cursor n"
  "un_timestamp (drop_cache n) = un_timestamp n" "un_marks (drop_cache n) = un_marks n"
  "un_seq (drop_cache n) = un_seq n" "un_on_path (drop_cache n) = un_on_path n"
  "drop_cache (drop_cache n) = drop_cache n"
  by (simp_all add: drop_cache_def)

lemma set_remove_at: "distinct xs \<Longrightarrow> i < length xs \<Longrightarrow> set (remove_at i xs) = set xs - {xs ! i}"
proof -
  assume d: "distinct xs" and i: "i < length xs"
  have x: "xs = take i xs @ xs ! i # drop (Suc i) xs" using i by (rule id_take_nth_drop)
  then have "distinct (take i xs @ xs ! i # drop (Suc i) xs)" using d by simp
  moreover have "set xs = set (take i xs) \<union> {xs ! i} \<union> set (drop (Suc i) xs)"
    using x by (metis Un_insert_right list.simps(15) set_append sup_bot_right Un_insert_left)
  ultimately show ?thesis by (auto simp: remove_at_def)
qed

lemma distinct_remove_at: "distinct xs \<Longrightarrow> distinct (remove_at i xs)"
  unfolding remove_at_def using set_take_disj_set_drop_if_distinct [of xs i "Suc i"] by auto

lemma evict_to_spec:
  assumes "distinct list" and "\<forall>v \<in> set list. v < length nodes" and "1 \<le> cap"
  shows "\<exists>list' nodes'. evict_to list nodes cur cap = Some (list', nodes') \<and>
    distinct list' \<and> set list' \<subseteq> set list \<and> length list' \<le> cap \<and>
    (cur \<in> set list \<longrightarrow> cur \<in> set list') \<and> length nodes' = length nodes \<and>
    (\<forall>j < length nodes. nodes' ! j = (if j \<in> set list - set list' then map_option drop_cache (nodes ! j)
       else nodes ! j))"
  using assms
proof (induction list nodes cur cap rule: evict_to.induct)
  case (1 list nodes cur cap)
  show ?case
  proof (cases "cap < length list")
    case False
    then show ?thesis using "1.prems" by (simp add: evict_to.simps)
  next
    case True
    show ?thesis
    proof (cases "position (\<lambda>n. n \<noteq> cur) list")
      case None
      then have "set list \<subseteq> {cur}" by (auto simp: position_None_iff)
      then have "length list \<le> 1"
        using "1.prems"(1) by (metis card_mono card_insert_disjoint card.empty distinct_card
            empty_iff finite.intros One_nat_def)
      then show ?thesis using True "1.prems"(3) by simp
    next
      case (Some pos)
      from position_SomeD [OF this] have pos: "pos < length list" "list ! pos \<noteq> cur" by auto
      define v where "v = list ! pos"
      define list1 where "list1 = remove_at pos list"
      define nodes1 where "nodes1 = nodes[v := map_option drop_cache (nodes ! v)]"
      have v: "v < length nodes" "v \<in> set list" using pos "1.prems"(2) by (auto simp: v_def)
      have s1: "set list1 = set list - {v}"
        using set_remove_at [OF "1.prems"(1) pos(1)] by (simp add: list1_def v_def)
      have step: "evict_to list nodes cur cap = evict_to list1 nodes1 cur cap"
        using True Some v
        by (subst evict_to.simps) (simp add: v_def list1_def nodes1_def drop_cache_def [abs_def] Let_def)
      have "\<exists>list' nodes'. evict_to list1 nodes1 cur cap = Some (list', nodes') \<and>
          distinct list' \<and> set list' \<subseteq> set list1 \<and> length list' \<le> cap \<and>
          (cur \<in> set list1 \<longrightarrow> cur \<in> set list') \<and> length nodes' = length nodes1 \<and>
          (\<forall>j < length nodes1. nodes' ! j =
            (if j \<in> set list1 - set list' then map_option drop_cache (nodes1 ! j) else nodes1 ! j))"
        unfolding list1_def nodes1_def v_def drop_cache_def [abs_def]
      proof (rule "1.IH" [OF True Some refl, unfolded drop_cache_def [abs_def]])
        show "list ! pos < length nodes" using v by (simp add: v_def)
        show "distinct (remove_at pos list)" using "1.prems"(1) by (rule distinct_remove_at)
        show "\<forall>w \<in> set (remove_at pos list). w < length (nodes[list ! pos :=
            map_option (un_rope_cache_update (\<lambda>_. None)) (nodes ! (list ! pos))])"
          using "1.prems"(2) s1 by (auto simp: list1_def)
        show "1 \<le> cap" by (rule "1.prems"(3))
      qed
      then obtain list' nodes' where r: "evict_to list1 nodes1 cur cap = Some (list', nodes')"
        "distinct list'" "set list' \<subseteq> set list1" "length list' \<le> cap"
        "cur \<in> set list1 \<longrightarrow> cur \<in> set list'" "length nodes' = length nodes1"
        "\<forall>j < length nodes1. nodes' ! j =
          (if j \<in> set list1 - set list' then map_option drop_cache (nodes1 ! j) else nodes1 ! j)"
        by blast
      have len: "length nodes1 = length nodes" by (simp add: nodes1_def)
      have "nodes' ! j = (if j \<in> set list - set list' then map_option drop_cache (nodes ! j) else nodes ! j)"
        if j: "j < length nodes" for j
      proof (cases "j = v")
        case True
        then have "j \<notin> set list1" using s1 by simp
        then have "nodes' ! j = nodes1 ! j" using r(7) j len by simp
        then show ?thesis using True v r(3) s1 by (auto simp: nodes1_def)
      next
        case False
        then have "nodes1 ! j = nodes ! j" by (simp add: nodes1_def)
        then show ?thesis using r(7) j len s1 False by auto
      qed
      moreover have "cur \<in> set list \<longrightarrow> cur \<in> set list'" using r(5) s1 pos(2) by (auto simp: v_def)
      ultimately show ?thesis using step r s1 len by auto
    qed
  qed
qed

text \<open>\<open>dropped t t'\<close>: from \<open>t\<close> to \<open>t'\<close> only cached ropes were dropped; the lists of the
  caches are not compared.\<close>

definition same_frame :: "'r undo_tree \<Rightarrow> 'r undo_tree \<Rightarrow> bool" where
  "same_frame t t' \<longleftrightarrow> ut_free t' = ut_free t \<and> ut_by_seq t' = ut_by_seq t \<and> ut_root t' = ut_root t \<and>
     ut_current t' = ut_current t \<and> ut_next_seq t' = ut_next_seq t \<and>
     length (ut_nodes t') = length (ut_nodes t)"

definition dropped :: "'r undo_tree \<Rightarrow> 'r undo_tree \<Rightarrow> bool" where
  "dropped t t' \<longleftrightarrow> same_frame t t' \<and>
     (\<forall>j. node_get t' j = node_get t j \<or> node_get t' j = map_option drop_cache (node_get t j))"

lemma same_frame_refl [simp]: "same_frame t t"
  by (simp add: same_frame_def)

lemma same_frame_trans: "same_frame t t' \<Longrightarrow> same_frame t' t'' \<Longrightarrow> same_frame t t''"
  by (simp add: same_frame_def)

lemma same_frame_modified [simp]: "same_frame t (modified i f t)"
  by (simp add: same_frame_def)

lemma lists_okD:
  assumes "lists_ok_but t E"
  shows "distinct (ut_warm t)" "distinct (ut_keyframes t)"
    "length (ut_warm t) \<le> WARM_CAP" "length (ut_keyframes t) \<le> KEYFRAME_CAP"
    "i \<notin> E \<Longrightarrow> i \<in> set (ut_warm t) \<longleftrightarrow> cached t i \<and> \<not> kf_depth t i"
    "i \<notin> E \<Longrightarrow> i \<in> set (ut_keyframes t) \<longleftrightarrow> cached t i \<and> kf_depth t i"
    "i \<in> set (ut_warm t) \<Longrightarrow> \<not> kf_depth t i \<and> node_get t i \<noteq> None"
    "i \<in> set (ut_keyframes t) \<Longrightarrow> kf_depth t i"
  using assms unfolding lists_ok_but_def by blast+

lemma kf_depth_live: "kf_depth t i \<Longrightarrow> node_get t i \<noteq> None"
  by (auto simp: kf_depth_def)

lemma caps_positive: "1 \<le> WARM_CAP" "1 \<le> KEYFRAME_CAP"
  by (simp_all add: WARM_CAP_def KEYFRAME_CAP_def)

text \<open>One list after the touch: evicted nodes lost their cache, the others kept it.\<close>

lemma touch_list:
  assumes "distinct list" and live: "\<forall>v \<in> set list. node_get t v \<noteq> None"
    and i: "node_get t i \<noteq> None" and cap: "1 \<le> cap"
  shows "\<exists>list' nodes'. evict_to (filter (\<lambda>n. n \<noteq> i) list @ [i]) (ut_nodes t) cur cap =
      Some (list', nodes') \<and> distinct list' \<and> set list' \<subseteq> insert i (set list) \<and> length list' \<le> cap \<and>
    length nodes' = length (ut_nodes t) \<and>
    (\<forall>j. node_get (t\<lparr>ut_nodes := nodes'\<rparr>) j =
      (if j \<in> insert i (set list) - set list' then map_option drop_cache (node_get t j)
       else node_get t j))"
proof -
  have "\<forall>v \<in> set (filter (\<lambda>n. n \<noteq> i) list @ [i]). v < length (ut_nodes t)"
    using live i by (auto simp: node_get_def split: if_splits)
  moreover have "distinct (filter (\<lambda>n. n \<noteq> i) list @ [i])" using assms(1) by simp
  ultimately obtain list' nodes' where
    e: "evict_to (filter (\<lambda>n. n \<noteq> i) list @ [i]) (ut_nodes t) cur cap = Some (list', nodes')"
      "distinct list'" "set list' \<subseteq> set (filter (\<lambda>n. n \<noteq> i) list @ [i])" "length list' \<le> cap"
      "length nodes' = length (ut_nodes t)"
    and n: "\<forall>j < length (ut_nodes t). nodes' ! j =
      (if j \<in> set (filter (\<lambda>n. n \<noteq> i) list @ [i]) - set list' then map_option drop_cache (ut_nodes t ! j)
       else ut_nodes t ! j)"
    using evict_to_spec [OF _ _ cap, of "filter (\<lambda>n. n \<noteq> i) list @ [i]" "ut_nodes t" cur] by blast
  have s: "set (filter (\<lambda>n. n \<noteq> i) list @ [i]) = insert i (set list)" by auto
  have "node_get (t\<lparr>ut_nodes := nodes'\<rparr>) j =
      (if j \<in> insert i (set list) - set list' then map_option drop_cache (node_get t j)
       else node_get t j)" for j
    using n e(5) unfolding s by (cases "j < length (ut_nodes t)") (simp_all add: node_get_def)
  with e show ?thesis unfolding s by blast
qed

lemma touch_warm_spec:
  assumes l: "lists_ok_but t {i}" and i: "node_get t i = Some n" "un_rope_cache n \<noteq> None"
    and root: "i \<noteq> ut_root t"
  shows "\<exists>t'. touch_warm i t = Some t' \<and> lists_ok t' \<and> dropped t t'"
proof -
  note ld = lists_okD [OF l]
  have ci: "cached t i" using i by (simp add: cached_def)
  have ki: "is_keyframe t i = Some (kf_depth t i)"
    using i root by (simp add: is_keyframe_def kf_depth_def)
  have drop: "kf_depth t' j = kf_depth t j"
    if "node_get t' j = node_get t j \<or> node_get t' j = map_option drop_cache (node_get t j)"
    for t' :: "'a undo_tree" and j
    using that by (cases "node_get t j") (auto simp: kf_depth_def)
  show ?thesis
  proof (cases "kf_depth t i")
    case True
    have live: "\<forall>v \<in> set (ut_keyframes t). node_get t v \<noteq> None"
      using ld(8) kf_depth_live by blast
    obtain list' nodes' where e: "evict_to (filter (\<lambda>n. n \<noteq> i) (ut_keyframes t) @ [i]) (ut_nodes t)
        (ut_current t) KEYFRAME_CAP = Some (list', nodes')"
      and d: "distinct list'" "set list' \<subseteq> insert i (set (ut_keyframes t))" "length list' \<le> KEYFRAME_CAP"
        "length nodes' = length (ut_nodes t)"
      and n: "\<forall>j. node_get (t\<lparr>ut_nodes := nodes'\<rparr>) j =
        (if j \<in> insert i (set (ut_keyframes t)) - set list' then map_option drop_cache (node_get t j)
         else node_get t j)"
      using touch_list [OF ld(2) live _ caps_positive(2), of i "ut_current t"] i(1) by blast
    let ?t = "t\<lparr>ut_keyframes := list', ut_nodes := nodes'\<rparr>"
    have "node_get ?t = node_get (t\<lparr>ut_nodes := nodes'\<rparr>)" by (simp add: node_get_def fun_eq_iff)
    then have get: "node_get ?t j = (if j \<in> insert i (set (ut_keyframes t)) - set list'
        then map_option drop_cache (node_get t j) else node_get t j)" for j
      using n by simp
    have alt: "node_get ?t j = node_get t j \<or> node_get ?t j = map_option drop_cache (node_get t j)" for j
      by (simp add: get)
    have cj: "cached ?t j \<longleftrightarrow> cached t j \<and> j \<notin> insert i (set (ut_keyframes t)) - set list'" for j
      by (cases "node_get t j") (auto simp: get cached_def)
    have "lists_ok ?t"
      unfolding lists_ok_but_def
    proof (intro conjI allI impI ballI)
      show "j \<in> set (ut_keyframes ?t) \<longleftrightarrow> cached ?t j \<and> kf_depth ?t j" for j
        using ld(6) [of j] ci True d(2) cj [of j] drop [OF alt, of j] by (cases "j = i") auto
      show "j \<in> set (ut_warm ?t) \<longleftrightarrow> cached ?t j \<and> \<not> kf_depth ?t j" for j
        using ld(5) [of j] ld(7) [of j] ld(8) [of j] True cj [of j] drop [OF alt, of j]
        by (cases "j = i") auto
      show "kf_depth ?t j" if "j \<in> set (ut_keyframes ?t)" for j
        using that d(2) True ld(8) [of j] drop [OF alt, of j] by auto
      show "\<not> kf_depth ?t j" "node_get ?t j \<noteq> None" if "j \<in> set (ut_warm ?t)" for j
        using that ld(7) [of j] drop [OF alt, of j] by (auto simp: get)
    qed (use ld d in simp_all)
    moreover have "touch_warm i t = Some ?t"
      using root True ki e by (simp add: touch_warm_def)
    moreover have "dropped t ?t" using alt d(4) by (simp add: dropped_def same_frame_def)
    ultimately show ?thesis by blast
  next
    case False
    have live: "\<forall>v \<in> set (ut_warm t). node_get t v \<noteq> None" using ld(7) by blast
    obtain list' nodes' where e: "evict_to (filter (\<lambda>n. n \<noteq> i) (ut_warm t) @ [i]) (ut_nodes t)
        (ut_current t) WARM_CAP = Some (list', nodes')"
      and d: "distinct list'" "set list' \<subseteq> insert i (set (ut_warm t))" "length list' \<le> WARM_CAP"
        "length nodes' = length (ut_nodes t)"
      and n: "\<forall>j. node_get (t\<lparr>ut_nodes := nodes'\<rparr>) j =
        (if j \<in> insert i (set (ut_warm t)) - set list' then map_option drop_cache (node_get t j)
         else node_get t j)"
      using touch_list [OF ld(1) live _ caps_positive(1), of i "ut_current t"] i(1) by blast
    let ?t = "t\<lparr>ut_warm := list', ut_nodes := nodes'\<rparr>"
    have "node_get ?t = node_get (t\<lparr>ut_nodes := nodes'\<rparr>)" by (simp add: node_get_def fun_eq_iff)
    then have get: "node_get ?t j = (if j \<in> insert i (set (ut_warm t)) - set list'
        then map_option drop_cache (node_get t j) else node_get t j)" for j
      using n by simp
    have alt: "node_get ?t j = node_get t j \<or> node_get ?t j = map_option drop_cache (node_get t j)" for j
      by (simp add: get)
    have cj: "cached ?t j \<longleftrightarrow> cached t j \<and> j \<notin> insert i (set (ut_warm t)) - set list'" for j
      by (cases "node_get t j") (auto simp: get cached_def)
    have "lists_ok ?t"
      unfolding lists_ok_but_def
    proof (intro conjI allI impI ballI)
      show "j \<in> set (ut_warm ?t) \<longleftrightarrow> cached ?t j \<and> \<not> kf_depth ?t j" for j
        using ld(5) [of j] ci False d(2) cj [of j] drop [OF alt, of j] by (cases "j = i") auto
      show "j \<in> set (ut_keyframes ?t) \<longleftrightarrow> cached ?t j \<and> kf_depth ?t j" for j
        using ld(6) [of j] ld(7) [of j] ld(8) [of j] False cj [of j] drop [OF alt, of j]
        by (cases "j = i") auto
      show "kf_depth ?t j" if "j \<in> set (ut_keyframes ?t)" for j
        using that ld(8) [of j] drop [OF alt, of j] by auto
      show "\<not> kf_depth ?t j" "node_get ?t j \<noteq> None" if "j \<in> set (ut_warm ?t)" for j
        using that d(2) ld(7) [of j] drop [OF alt, of j] False i(1) by (auto simp: get)
    qed (use ld d in simp_all)
    moreover have "touch_warm i t = Some ?t"
      using root False ki e by (simp add: touch_warm_def)
    moreover have "dropped t ?t" using alt d(4) by (simp add: dropped_def same_frame_def)
    ultimately show ?thesis by blast
  qed
qed

section \<open>Materialization\<close>

text \<open>\<open>sim R N F t\<close>: the arena holds the snapshots \<open>N\<close> and the path flags \<open>F\<close>, and its
  caches, index and free list are in order.\<close>

definition sim :: "'r rope_ops \<Rightarrow> (nat \<rightharpoonup> snap_node) \<Rightarrow> (nat \<Rightarrow> bool) \<Rightarrow> 'r undo_tree \<Rightarrow> bool" where
  "sim R N F t \<longleftrightarrow> nodes_ok R N F (node_get t) \<and> lists_ok t \<and> index_ok t \<and> arena_ok t"

lemma refines_sim:
  "refines R t A \<longleftrightarrow> sim R (st_nodes A) (on_chain A) t \<and>
     ut_root t = st_root A \<and> ut_current t = st_current A \<and> ut_next_seq t = st_next_seq A"
  by (auto simp: refines_def sim_def)

lemma simD:
  assumes "sim R N F t"
  shows "nodes_ok R N F (node_get t)" and "lists_ok t" and "index_ok t" and "arena_ok t"
  using assms by (simp_all add: sim_def)

lemma nodes_ok_live:
  assumes "nodes_ok R N F M" and "N i = Some a"
  shows "\<exists>n. M i = Some n \<and> node_ok R N F i n a"
  using assms unfolding nodes_ok_def by (metis not_None_eq)

lemma nodes_ok_dead: "nodes_ok R N F M \<Longrightarrow> M i = None \<longleftrightarrow> N i = None"
  unfolding nodes_ok_def by blast

lemma sim_live:
  assumes "sim R N F t" and "N i = Some a"
  obtains n where "node_get t i = Some n" and "node_ok R N F i n a"
  using nodes_ok_live [OF simD(1) [OF assms(1)] assms(2)] by blast

lemma node_okD:
  assumes "node_ok R N F i n a"
  shows "un_parent n = sn_parent a" "un_children n = sn_children a" "un_last_child n = sn_last a"
    "un_depth n = sn_depth a" "un_cursor n = sn_cursor a" "un_timestamp n = sn_timestamp a"
    "un_marks n = sn_marks a" "un_seq n = sn_seq a" "un_on_path n = F i"
    "un_rope_cache n = Some r \<Longrightarrow> rp_text R r = sn_text a" "valid_str (sn_text a)"
  using assms by (auto simp: node_ok_def)

lemma node_ok_root:
  assumes "node_ok R N F i n a" and "sn_parent a = None"
  shows "un_delta n = None" "un_rope_cache n = None" "\<exists>b. un_base n = Some b \<and> rp_text R b = sn_text a"
  using assms by (auto simp: node_ok_def)

lemma node_ok_inner:
  assumes "node_ok R N F i n a" and "sn_parent a = Some p"
  shows "un_base n = None"
    "\<exists>d b. un_delta n = Some d \<and> valid_str (d_new d) \<and> N p = Some b \<and> delta_links d (sn_text b) (sn_text a)"
  using assms by (auto simp: node_ok_def)

lemma node_ok_drop: "node_ok R N F i n a \<Longrightarrow> node_ok R N F i (drop_cache n) a"
  by (auto simp: node_ok_def split: option.splits)

lemma dropped_nodes_ok:
  assumes "nodes_ok R N F (node_get t)" and "dropped t t'"
  shows "nodes_ok R N F (node_get t')"
  unfolding nodes_ok_def
proof (intro allI conjI impI)
  fix i
  have d: "node_get t' i = node_get t i \<or> node_get t' i = map_option drop_cache (node_get t i)"
    using assms(2) by (simp add: dropped_def)
  show "node_get t' i = None \<longleftrightarrow> N i = None"
    using d nodes_ok_dead [OF assms(1), of i] by auto
  fix n a
  assume n: "node_get t' i = Some n" and a: "N i = Some a"
  obtain m where "node_get t i = Some m" "node_ok R N F i m a"
    using nodes_ok_live [OF assms(1) a] by blast
  then show "node_ok R N F i n a" using d n node_ok_drop by auto
qed

lemma dropped_index: "index_ok t \<Longrightarrow> dropped t t' \<Longrightarrow> index_ok t'"
proof -
  assume i: "index_ok t" and d: "dropped t t'"
  have "(\<exists>n. node_get t' j = Some n \<and> un_seq n = s) \<longleftrightarrow> (\<exists>n. node_get t j = Some n \<and> un_seq n = s)" for j s
  proof -
    have "node_get t' j = node_get t j \<or> node_get t' j = map_option drop_cache (node_get t j)"
      using d by (simp add: dropped_def)
    then show ?thesis by (cases "node_get t j") auto
  qed
  with i d show ?thesis by (simp add: index_ok_def dropped_def same_frame_def)
qed

lemma dropped_arena: "arena_ok t \<Longrightarrow> dropped t t' \<Longrightarrow> arena_ok t'"
proof -
  assume a: "arena_ok t" and d: "dropped t t'"
  have "node_get t' j = None \<longleftrightarrow> node_get t j = None" for j
  proof -
    have "node_get t' j = node_get t j \<or> node_get t' j = map_option drop_cache (node_get t j)"
      using d by (simp add: dropped_def)
    then show ?thesis by auto
  qed
  with a d show ?thesis by (simp add: arena_ok_def dropped_def same_frame_def)
qed

lemma dropped_frame: "dropped t t' \<Longrightarrow> same_frame t t'"
  by (simp add: dropped_def)

text \<open>A field update of a live node that keeps its change number keeps the index and the
  free list, and one that keeps the depth and only fills the cache leaves one node open in
  the lists.\<close>

lemma index_modified:
  assumes "index_ok t" and "\<And>n. node_get t i = Some n \<Longrightarrow> un_seq (f n) = un_seq n"
  shows "index_ok (modified i f t)"
  using assms by (cases "node_get t i") (auto simp: index_ok_def)

lemma arena_modified: "arena_ok t \<Longrightarrow> arena_ok (modified i f t)"
  by (cases "node_get t i") (auto simp: arena_ok_def)

lemma kf_depth_modified:
  "(\<And>n. node_get t i = Some n \<Longrightarrow> un_depth (f n) = un_depth n) \<Longrightarrow>
    kf_depth (modified i f t) j = kf_depth t j"
  by (cases "node_get t i") (auto simp: kf_depth_def)

lemma lists_modified:
  assumes l: "lists_ok_but t E"
    and "\<And>n. node_get t i = Some n \<Longrightarrow> un_depth (f n) = un_depth n"
    and "\<And>n. node_get t i = Some n \<Longrightarrow> i \<notin> E' \<Longrightarrow>
      (un_rope_cache (f n) = None \<longleftrightarrow> un_rope_cache n = None)"
    and "E \<subseteq> E'"
  shows "lists_ok_but (modified i f t) E'"
proof -
  have k: "kf_depth (modified i f t) j = kf_depth t j" for j
    using assms(2) by (rule kf_depth_modified)
  have c: "cached (modified i f t) j = cached t j" if "j \<notin> E'" for j
    using that assms(3) by (cases "node_get t i") (auto simp: cached_def)
  have n: "node_get (modified i f t) j = None \<longleftrightarrow> node_get t j = None" for j by simp
  show ?thesis
    using l assms(4) c unfolding lists_ok_but_def k n modified_heads by blast
qed

text \<open>All that the walk up needs of the links: parents are live, and depths grow.\<close>

definition ups_wf :: "(nat \<rightharpoonup> snap_node) \<Rightarrow> nat \<Rightarrow> bool" where
  "ups_wf N root \<longleftrightarrow> (\<forall>i a p. N i = Some a \<longrightarrow> sn_parent a = Some p \<longrightarrow>
     i \<noteq> root \<and> (\<exists>b. N p = Some b \<and> sn_depth a = Suc (sn_depth b)))"

lemma ups_parent:
  assumes "ups_wf N root" and "N i = Some a" and "sn_parent a = Some p"
  shows "\<exists>b. N p = Some b \<and> sn_depth a = Suc (sn_depth b)" and "i \<noteq> root"
  using assms unfolding ups_wf_def by blast+

lemma links_ups: "links_wf N root \<Longrightarrow> ups_wf N root"
  unfolding ups_wf_def using links_parent by blast

text \<open>A path of the tree from below \<open>q\<close>: each node's parent is the one before.\<close>

fun down_chain :: "(nat \<rightharpoonup> snap_node) \<Rightarrow> nat \<Rightarrow> nat list \<Rightarrow> bool" where
  "down_chain N q [] = True"
| "down_chain N q (y # ys) = ((\<exists>a. N y = Some a \<and> sn_parent a = Some q) \<and> down_chain N y ys)"

lemma down_chain_snoc:
  "down_chain N q (ys @ [y]) \<longleftrightarrow>
    down_chain N q ys \<and> (\<exists>a. N y = Some a \<and> sn_parent a = Some (last (q # ys)))"
  by (induction ys arbitrary: q) auto

lemma replay_spec:
  assumes R: "rope_laws R" and w: "ups_wf N (ut_root t)" and s: "sim R N F t"
    and "down_chain N q ys" and "N q = Some b" and "rp_text R rope = sn_text b"
  shows "\<exists>r t'. replay R ys rope t = Some (r, t') \<and> sim R N F t' \<and> same_frame t t' \<and>
    rp_text R r = sn_text (the (N (last (q # ys))))"
  using w s assms(4-)
proof (induction ys arbitrary: t q b rope)
  case Nil
  then show ?case by simp
next
  case (Cons y ys)
  obtain a where a: "N y = Some a" "sn_parent a = Some q" using Cons.prems(3) by auto
  obtain n where n: "node_get t y = Some n" "node_ok R N F y n a" using sim_live [OF Cons.prems(2) a(1)] .
  obtain d where d: "un_delta n = Some d" "valid_str (d_new d)" "delta_links d (sn_text b) (sn_text a)"
    using node_ok_inner(2) [OF n(2) a(2)] Cons.prems(4) by auto
  obtain r1 where r1: "apply_forward R rope d = Some r1" "rp_text R r1 = sn_text a"
    using apply_forward_links [OF R, of d rope "sn_text a"] d Cons.prems(5) by auto
  let ?f = "\<lambda>n. n\<lparr>un_rope_cache := Some r1\<rparr>"
  let ?t1 = "modified y ?f t"
  have m: "node_mod y ?f t = Some ?t1" using n(1) by (rule node_mod_modified)
  have root: "y \<noteq> ut_root ?t1" using ups_parent(2) [OF Cons.prems(1) a] by simp
  have l1: "lists_ok_but ?t1 {y}"
    using simD(2) [OF Cons.prems(2)] by (rule lists_modified) simp_all
  have "node_get ?t1 y = Some (?f n)" using n(1) by simp
  then obtain t2 where t2: "touch_warm y ?t1 = Some t2" "lists_ok t2" "dropped ?t1 t2"
    using touch_warm_spec [OF l1, of "?f n"] root by auto
  have n1: "nodes_ok R N F (node_get ?t1)"
    unfolding nodes_ok_def
  proof (intro allI conjI impI)
    fix i
    show "node_get ?t1 i = None \<longleftrightarrow> N i = None"
      using nodes_ok_dead [OF simD(1) [OF Cons.prems(2)], of i] by auto
    fix m c
    assume m: "node_get ?t1 i = Some m" and c: "N i = Some c"
    obtain k where k: "node_get t i = Some k" "node_ok R N F i k c"
      using sim_live [OF Cons.prems(2) c] .
    show "node_ok R N F i m c"
      using m k c a n d r1(2) by (cases "i = y") (auto simp: node_ok_def split: option.splits)
  qed
  have s2: "sim R N F t2"
    unfolding sim_def
    using dropped_nodes_ok [OF n1 t2(3)] t2(2)
      dropped_index [OF index_modified [OF simD(3) [OF Cons.prems(2)]] t2(3)]
      dropped_arena [OF arena_modified [OF simD(4) [OF Cons.prems(2)]] t2(3)]
    by simp
  have f2: "same_frame t t2"
    using dropped_frame [OF t2(3)] same_frame_modified [of t y ?f] by (blast intro: same_frame_trans)
  have w2: "ups_wf N (ut_root t2)" using Cons.prems(1) f2 by (simp add: same_frame_def)
  obtain r t' where r: "replay R ys r1 t2 = Some (r, t')" "sim R N F t'" "same_frame t2 t'"
    "rp_text R r = sn_text (the (N (last (y # ys))))"
    using Cons.IH [OF w2 s2 _ a(1) r1(2)] Cons.prems(3) by auto
  have "replay R (y # ys) rope t = Some (r, t')"
    using n(1) d(1) r1(1) m t2(1) r(1) by simp
  moreover have "same_frame t t'" using f2 r(3) by (rule same_frame_trans)
  ultimately show ?case using r by auto
qed

lemma anchor_walk_spec:
  assumes w: "ups_wf N (ut_root t)" and s: "sim R N F t"
    and "N i = Some a" and "sn_parent a \<noteq> None"
  shows "\<exists>xs q b r. anchor_walk t i path = Some (path @ xs, r) \<and> down_chain N q (rev xs) \<and>
    xs \<noteq> [] \<and> last (q # rev xs) = i \<and> N q = Some b \<and> rp_text R r = sn_text b"
  using assms(3,4)
proof (induction "sn_depth a" arbitrary: i a path rule: less_induct)
  case less
  obtain p where p: "sn_parent a = Some p" using less.prems(2) by auto
  obtain n where n: "node_get t i = Some n" "node_ok R N F i n a" using sim_live [OF s less.prems(1)] .
  obtain b where b: "N p = Some b" "sn_depth a = Suc (sn_depth b)"
    using ups_parent(1) [OF w less.prems(1) p] by blast
  obtain m where m: "node_get t p = Some m" "node_ok R N F p m b" using sim_live [OF s b(1)] .
  have par: "un_parent n = Some p" using node_okD(1) [OF n(2)] p by simp
  show ?case
  proof (cases "un_rope_cache m")
    case (Some r)
    then have "anchor_walk t i path = Some (path @ [i], r)"
      using n(1) par m(1) by (subst anchor_walk.simps) simp
    then show ?thesis
      using node_okD(10) [OF m(2) Some] b less.prems(1) p
      by (intro exI [of _ "[i]"] exI [of _ p] exI [of _ b] exI [of _ r]) auto
  next
    case None
    show ?thesis
    proof (cases "sn_parent b")
      case None': None
      obtain r where r: "un_base m = Some r" "rp_text R r = sn_text b"
        using node_ok_root(3) [OF m(2) None'] by blast
      then have "anchor_walk t i path = Some (path @ [i], r)"
        using n(1) par m(1) None by (subst anchor_walk.simps) simp
      then show ?thesis
        using r b less.prems(1) p
        by (intro exI [of _ "[i]"] exI [of _ p] exI [of _ b] exI [of _ r]) auto
    next
      case (Some q)
      have base: "un_base m = None" using node_ok_inner(1) [OF m(2) Some] .
      obtain xs q' c r where IH: "anchor_walk t p (path @ [i]) = Some ((path @ [i]) @ xs, r)"
        "down_chain N q' (rev xs)" "xs \<noteq> []" "last (q' # rev xs) = p" "N q' = Some c"
        "rp_text R r = sn_text c"
        using less.hyps [OF _ b(1), of "path @ [i]"] b(2) Some by auto
      have "anchor_walk t i path = Some (path @ (i # xs), r)"
        using n(1) par m(1) None base IH(1) by (subst anchor_walk.simps) simp
      moreover have "down_chain N q' (rev (i # xs))"
        using IH(2,4) less.prems(1) p by (simp add: down_chain_snoc)
      moreover have "last (q' # rev (i # xs)) = i" by simp
      ultimately show ?thesis using IH(5,6) by blast
    qed
  qed
qed

lemma materialize_spec:
  assumes R: "rope_laws R" and w: "ups_wf N (ut_root t)" and s: "sim R N F t"
    and i: "N i = Some a"
  shows "\<exists>r t'. materialize R i t = Some (r, t') \<and> sim R N F t' \<and> same_frame t t' \<and>
    rp_text R r = sn_text a"
proof -
  obtain n where n: "node_get t i = Some n" "node_ok R N F i n a" using sim_live [OF s i] .
  show ?thesis
  proof (cases "un_rope_cache n")
    case (Some r)
    then show ?thesis using n s node_okD(10) [OF n(2) Some] by (simp add: materialize_def)
  next
    case nc: None
    show ?thesis
    proof (cases "sn_parent a")
      case None
      then obtain b where "un_base n = Some b" "rp_text R b = sn_text a"
        using node_ok_root(3) [OF n(2)] by blast
      then show ?thesis using n nc s by (simp add: materialize_def)
    next
      case (Some p)
      have base: "un_base n = None" using node_ok_inner(1) [OF n(2) Some] .
      obtain xs q b r where a: "anchor_walk t i [] = Some (xs, r)" "down_chain N q (rev xs)"
        "last (q # rev xs) = i" "N q = Some b" "rp_text R r = sn_text b"
        using anchor_walk_spec [OF w s i, of "[]"] Some by auto
      obtain r' t' where "replay R (rev xs) r t = Some (r', t')" "sim R N F t'" "same_frame t t'"
        "rp_text R r' = sn_text a"
        using replay_spec [OF R w s a(2,4,5)] a(3) i by auto
      then show ?thesis using n nc base a(1) by (simp add: materialize_def)
    qed
  qed
qed

section \<open>Finalizing a node\<close>

lemma nodes_ok_modified_flag:
  assumes ok: "nodes_ok R N F (node_get t)" and a: "N i = Some a" and n: "node_get t i = Some n"
    and new: "node_ok R (N(i \<mapsto> a')) F' i (f n) a'"
    and same: "sn_text a' = sn_text a \<or> (\<forall>j c. N j = Some c \<longrightarrow> sn_parent c \<noteq> Some i)"
    and flags: "\<And>j. j \<noteq> i \<Longrightarrow> F' j = F j"
  shows "nodes_ok R (N(i \<mapsto> a')) F' (node_get (modified i f t))"
  unfolding nodes_ok_def
proof (intro allI conjI impI)
  fix j
  show "node_get (modified i f t) j = None \<longleftrightarrow> (N(i \<mapsto> a')) j = None"
    using nodes_ok_dead [OF ok, of j] n by auto
  fix m c
  assume m: "node_get (modified i f t) j = Some m" and c: "(N(i \<mapsto> a')) j = Some c"
  show "node_ok R (N(i \<mapsto> a')) F' j m c"
  proof (cases "j = i")
    case True
    then show ?thesis using m c n new by simp
  next
    case False
    then have mc: "node_get t j = Some m" "N j = Some c" using m c by auto
    then have old: "node_ok R N F j m c" using nodes_ok_live [OF ok mc(2)] by auto
    show ?thesis
    proof (cases "sn_parent c")
      case None
      then show ?thesis using old flags [OF False] by (simp add: node_ok_def)
    next
      case (Some p)
      obtain d b where d: "un_delta m = Some d" "valid_str (d_new d)" "N p = Some b"
        "delta_links d (sn_text b) (sn_text c)"
        using node_ok_inner(2) [OF old Some] by blast
      have "\<exists>b'. (N(i \<mapsto> a')) p = Some b' \<and> sn_text b' = sn_text b"
        using same d(3) a mc(2) Some by (cases "p = i") auto
      then show ?thesis using old Some d flags [OF False] by (auto simp: node_ok_def)
    qed
  qed
qed

lemma nodes_ok_modified:
  assumes "nodes_ok R N F (node_get t)" and "N i = Some a" and "node_get t i = Some n"
    and "node_ok R (N(i \<mapsto> a')) F i (f n) a'"
    and "sn_text a' = sn_text a \<or> (\<forall>j c. N j = Some c \<longrightarrow> sn_parent c \<noteq> Some i)"
  shows "nodes_ok R (N(i \<mapsto> a')) F (node_get (modified i f t))"
  using assms by (intro nodes_ok_modified_flag) auto

lemma no_child_parent:
  assumes "links_wf N root" and "N i = Some a" and "sn_children a = []"
  shows "\<forall>j c. N j = Some c \<longrightarrow> sn_parent c \<noteq> Some i"
proof (intro allI impI notI)
  fix j c
  assume "N j = Some c" and "sn_parent c = Some i"
  from links_parent(1) [OF assms(1) this] assms(2,3) show False by auto
qed

lemma same_rope_text:
  assumes R: "rope_laws R" and "same_rope R rope x" and "\<And>r. x = Some r \<Longrightarrow> rp_text R r = s"
  shows "rp_text R rope = s"
proof -
  obtain r where r: "x = Some r" "rp_is_instance R r rope \<or> rp_eq R r rope"
    using assms(2) by (auto simp: same_rope_def split: option.splits)
  then have "rp_text R r = rp_text R rope"
    using rope_is_instance [OF R, of r rope] rope_eq [OF R, of r rope] by auto
  with assms(3) [OF r(1)] show ?thesis by simp
qed

lemma set_node_state_spec:
  fixes rope :: 'r and cursor :: upos and ts :: int and marks :: mark_snapshot
  assumes R: "rope_laws R" and w: "links_wf N (ut_root t)" and s: "sim R N F t"
    and i: "N i = Some a" and leaf: "sn_children a = [] \<or> rp_text R rope = sn_text a"
  defines "a' \<equiv> a\<lparr>sn_text := rp_text R rope, sn_cursor := cursor, sn_timestamp := ts, sn_marks := marks\<rparr>"
  shows "\<exists>t'. set_node_state R i rope cursor ts marks t = Some t' \<and> sim R (N(i \<mapsto> a')) F t' \<and>
    same_frame t t'"
proof -
  obtain n where n: "node_get t i = Some n" "node_ok R N F i n a" using sim_live [OF s i] .
  let ?f0 = "\<lambda>n. n\<lparr>un_cursor := cursor, un_timestamp := ts, un_marks := marks\<rparr> :: 'r undo_node"
  define a0 where "a0 = a\<lparr>sn_cursor := cursor, sn_timestamp := ts, sn_marks := marks\<rparr>"
  define t1 where "t1 = modified i ?f0 t"
  have m0: "node_mod i ?f0 t = Some t1" using n(1) by (simp add: node_mod_modified t1_def)
  have g1: "node_get t1 i = Some (?f0 n)" using n(1) by (simp add: t1_def)
  have np: "sn_parent a = Some p \<Longrightarrow> p \<noteq> i" for p
    using links_parent(1) [OF w i] i by fastforce
  have same: "sn_text x = sn_text a \<or> (\<forall>j c. N j = Some c \<longrightarrow> sn_parent c \<noteq> Some i)"
    if "sn_text x \<in> {sn_text a, rp_text R rope}" for x
    using leaf no_child_parent [OF w i] that by auto
  have ok0: "node_ok R (N(i \<mapsto> x)) F i (?f0 n) a0" if "sn_text x = sn_text a" for x
    using n(2) np unfolding a0_def node_ok_def by (cases "sn_parent a") auto
  have s1: "sim R (N(i \<mapsto> a0)) F t1"
    unfolding sim_def t1_def
    using nodes_ok_modified [OF simD(1) [OF s] i n(1), of a0 ?f0] ok0 [of a0] same [of a0]
      lists_modified [OF simD(2) [OF s], of i ?f0 "{}"] index_modified [OF simD(3) [OF s], of i ?f0]
      arena_modified [OF simD(4) [OF s]]
    by (simp add: a0_def)
  have f1: "same_frame t t1" by (simp add: t1_def)
  have w1: "links_wf (N(i \<mapsto> a0)) (ut_root t1)"
    unfolding t1_def modified_heads
    by (rule links_wf_upd [OF w i]) (simp_all add: a0_def links_last [OF w i])
  define unchanged where "unchanged \<longleftrightarrow>
    same_rope R rope (un_rope_cache n) \<or> (un_parent n = None \<and> same_rope R rope (un_base n))"
  show ?thesis
  proof (cases unchanged)
    case True
    have eq: "rp_text R rope = sn_text a"
    proof (cases "same_rope R rope (un_rope_cache n)")
      case True
      then show ?thesis using same_rope_text [OF R] node_okD(10) [OF n(2)] by blast
    next
      case False
      with True have "sn_parent a = None" "same_rope R rope (un_base n)"
        using node_okD(1) [OF n(2)] by (auto simp: unchanged_def)
      moreover obtain b where "un_base n = Some b" "rp_text R b = sn_text a"
        using node_ok_root(3) [OF n(2) \<open>sn_parent a = None\<close>] by blast
      ultimately show ?thesis by (intro same_rope_text [OF R, of rope "un_base n"]) auto
    qed
    then have "a' = a0" by (simp add: a'_def a0_def)
    moreover have "set_node_state R i rope cursor ts marks t = Some t1"
      using True n(1) m0 by (simp add: set_node_state_def unchanged_def)
    ultimately show ?thesis using s1 f1 by simp
  next
    case changed: False
    show ?thesis
    proof (cases "sn_parent a")
      case None
      let ?f = "\<lambda>n. n\<lparr>un_cursor := cursor, un_timestamp := ts, un_marks := marks,
        un_base := Some rope, un_rope_cache := None\<rparr> :: 'r undo_node"
      define t2 where "t2 = modified i ?f t"
      have notc: "i \<notin> set (ut_warm t)" "i \<notin> set (ut_keyframes t)"
        using lists_okD(5,6) [OF simD(2) [OF s], of i] node_ok_root(2) [OF n(2) None] n(1)
        by (auto simp: cached_def)
      have id: "filter (\<lambda>n. n \<noteq> i) (ut_warm t2) = ut_warm t2"
        "filter (\<lambda>n. n \<noteq> i) (ut_keyframes t2) = ut_keyframes t2"
        using notc by (auto simp: t2_def intro!: filter_True)
      have "t2 = modified i (\<lambda>n. n\<lparr>un_rope_cache := None\<rparr>) (modified i (\<lambda>n. n\<lparr>un_base := Some rope\<rparr>) t1)"
        using n(1) by (simp add: t1_def t2_def modified_modified [OF n(1)] comp_def)
      moreover have "node_get (modified i (\<lambda>n. n\<lparr>un_base := Some rope\<rparr>) t1) i =
          Some (n\<lparr>un_cursor := cursor, un_timestamp := ts, un_marks := marks, un_base := Some rope\<rparr>)"
        using g1 by simp
      ultimately have run: "set_node_state R i rope cursor ts marks t = Some t2"
        using changed n(1) m0 g1 node_okD(1) [OF n(2)] None id
        by (simp add: set_node_state_def unchanged_def node_mod_modified)
      have ok: "node_ok R (N(i \<mapsto> a')) F i (?f n) a'"
        using n(2) None rope_valid [OF R] unfolding a'_def node_ok_def by auto
      have "sim R (N(i \<mapsto> a')) F t2"
        unfolding sim_def t2_def
        using nodes_ok_modified [OF simD(1) [OF s] i n(1), of a' ?f] ok same [of a']
          lists_modified [OF simD(2) [OF s], of i ?f "{}"] index_modified [OF simD(3) [OF s], of i ?f]
          arena_modified [OF simD(4) [OF s]] n(1) node_ok_root(2) [OF n(2) None]
        by (auto simp: a'_def)
      then show ?thesis using run by (auto simp: t2_def)
    next
      case (Some p)
      obtain b where b: "N p = Some b" using links_parent(1) [OF w i Some] by blast
      then have b0: "(N(i \<mapsto> a0)) p = Some b" using np [OF Some] by simp
      obtain pr t2 where t2: "materialize R p t1 = Some (pr, t2)" "sim R (N(i \<mapsto> a0)) F t2"
        "same_frame t1 t2" "rp_text R pr = sn_text b"
        using materialize_spec [OF R links_ups [OF w1] s1 b0] by blast
      obtain n2 where n2: "node_get t2 i = Some n2" "node_ok R (N(i \<mapsto> a0)) F i n2 a0"
        using sim_live [OF t2(2)] by (metis fun_upd_same)
      let ?d = "diff R pr rope"
      let ?f = "\<lambda>n. n\<lparr>un_delta := Some ?d, un_rope_cache := Some rope\<rparr> :: 'r undo_node"
      define t3 where "t3 = modified i ?f t2"
      have links: "delta_links ?d (sn_text b) (rp_text R rope)" "valid_str (d_new ?d)"
        using diff_links [OF R, of pr rope] t2(4) by simp_all
      have p0: "sn_parent a0 = Some p" using Some by (simp add: a0_def)
      have bb: "((N(i \<mapsto> a0))(i \<mapsto> a')) p = Some b" using b np [OF Some] by simp
      have ok: "node_ok R ((N(i \<mapsto> a0))(i \<mapsto> a')) F i (?f n2) a'"
        using n2(2) Some links bb rope_valid [OF R] unfolding a'_def a0_def node_ok_def by auto
      have nb: "sn_text a' = sn_text a0 \<or> (\<forall>j c. (N(i \<mapsto> a0)) j = Some c \<longrightarrow> sn_parent c \<noteq> Some i)"
        using same [of a'] np by (auto simp: a'_def a0_def)
      have n3: "nodes_ok R (N(i \<mapsto> a')) F (node_get t3)"
        using nodes_ok_modified [OF simD(1) [OF t2(2)] _ n2(1), of a0 a' ?f] ok nb by (simp add: t3_def)
      have l3: "lists_ok_but t3 {i}"
        unfolding t3_def using simD(2) [OF t2(2)] by (rule lists_modified) simp_all
      have g3: "node_get t3 i = Some (?f n2)" using n2(1) by (simp add: t3_def)
      have "ut_root t3 = ut_root t"
        using t2(3) f1 by (simp add: t3_def same_frame_def)
      then have root: "i \<noteq> ut_root t3" using links_parent(2) [OF w i Some] by simp
      obtain t4 where t4: "touch_warm i t3 = Some t4" "lists_ok t4" "dropped t3 t4"
        using touch_warm_spec [OF l3 g3 _ root] by auto
      have "sim R (N(i \<mapsto> a')) F t4"
        unfolding sim_def
        using dropped_nodes_ok [OF n3 t4(3)] t4(2)
          dropped_index [OF index_modified [OF simD(3) [OF t2(2)], of i ?f, folded t3_def] t4(3)]
          dropped_arena [OF arena_modified [OF simD(4) [OF t2(2)], of i ?f, folded t3_def] t4(3)]
        by simp
      moreover have "same_frame t t4"
        using f1 t2(3) dropped_frame [OF t4(3)] by (simp add: same_frame_def t3_def)
      moreover have "set_node_state R i rope cursor ts marks t = Some t4"
        using changed n(1) m0 g1 node_okD(1) [OF n(2)] Some t2(1) n2(1) t4(1)
        by (simp add: set_node_state_def unchanged_def node_mod_modified Let_def flip: t3_def)
      ultimately show ?thesis by blast
    qed
  qed
qed

text \<open>An update that changes links or flags of one node, but not its text, cache or change
  number.\<close>

lemma sim_modified:
  assumes s: "sim R N F t" and a: "N i = Some a" and n: "node_get t i = Some n"
    and new: "node_ok R (N(i \<mapsto> a')) F' i (f n) a'"
    and same: "sn_text a' = sn_text a"
    and keep: "un_depth (f n) = un_depth n" "un_seq (f n) = un_seq n"
      "un_rope_cache (f n) = un_rope_cache n"
    and flags: "\<And>j. j \<noteq> i \<Longrightarrow> F' j = F j"
  shows "sim R (N(i \<mapsto> a')) F' (modified i f t)"
  unfolding sim_def
  using nodes_ok_modified_flag [OF simD(1) [OF s] a n, of a' F' f] new same flags
    lists_modified [OF simD(2) [OF s], of i f "{}"] index_modified [OF simD(3) [OF s], of i f]
    arena_modified [OF simD(4) [OF s], of i f] keep n
  by auto

lemma same_frame_heads:
  assumes "same_frame t t'"
  shows "ut_root t' = ut_root t" "ut_current t' = ut_current t" "ut_next_seq t' = ut_next_seq t"
    "ut_free t' = ut_free t" "ut_by_seq t' = ut_by_seq t"
  using assms by (simp_all add: same_frame_def)

lemma sim_heads [simp]:
  "sim R N F (t\<lparr>ut_current := c\<rparr>) = sim R N F t"
  "sim R N F (t\<lparr>ut_next_seq := s\<rparr>) = sim R N F t"
  "sim R N F (t\<lparr>ut_root := r\<rparr>) = sim R N F t"
  by (simp_all add: sim_def lists_ok_but_def cached_def kf_depth_def index_ok_def arena_ok_def)

definition live_fits :: "snap_tree \<Rightarrow> rstring \<Rightarrow> bool" where
  "live_fits A s \<longleftrightarrow>
     sn_children (snode A (st_current A)) = [] \<or> s = sn_text (snode A (st_current A))"

lemma refines_set:
  assumes R: "rope_laws R" and r: "refines R t A" and wf: "spec_wf A"
    and fits: "live_fits A (rp_text R rope)"
  shows "\<exists>t'. set_node_state R (ut_current t) rope cursor ts marks t = Some t' \<and>
    refines R t' (s_set (st_current A) (rp_text R rope) cursor ts marks A)"
proof -
  note rs = r [unfolded refines_sim]
  obtain a where a: "st_nodes A (st_current A) = Some a" using spec_wfD(3) [OF wf] by blast
  have w: "links_wf (st_nodes A) (ut_root t)" using spec_wfD(4) [OF wf] rs by simp
  have leaf: "sn_children a = [] \<or> rp_text R rope = sn_text a"
    using fits a by (simp add: live_fits_def snode_simps)
  obtain t' where t': "set_node_state R (st_current A) rope cursor ts marks t = Some t'"
    "sim R ((st_nodes A)(st_current A \<mapsto> a\<lparr>sn_text := rp_text R rope, sn_cursor := cursor,
      sn_timestamp := ts, sn_marks := marks\<rparr>)) (on_chain A) t'" "same_frame t t'"
    using set_node_state_spec [OF R w _ a leaf] rs by blast
  have "st_nodes (s_set (st_current A) (rp_text R rope) cursor ts marks A) =
      (st_nodes A)(st_current A \<mapsto> a\<lparr>sn_text := rp_text R rope, sn_cursor := cursor,
        sn_timestamp := ts, sn_marks := marks\<rparr>)"
    using a by (simp add: fun_eq_iff s_set_lookup)
  then show ?thesis
    using t' rs same_frame_heads [OF t'(3)] by (simp add: refines_sim)
qed

definition abs_entry :: "'r rope_ops \<Rightarrow> 'r undo_entry \<Rightarrow> snap_entry" where
  "abs_entry R e = \<lparr>se_text = rp_text R (ue_rope e), se_cursor = ue_cursor e,
     se_timestamp = ue_timestamp e, se_marks = ue_marks e\<rparr>"

lemma refines_live:
  assumes "refines R t A" and "st_nodes A i = Some a"
  obtains n where "node_get t i = Some n" and "node_ok R (st_nodes A) (on_chain A) i n a"
  using assms by (auto simp: refines_sim elim: sim_live)

lemma refines_entry:
  assumes R: "rope_laws R" and r: "refines R t A" and wf: "spec_wf A" and i: "i \<in> dom (st_nodes A)"
  shows "\<exists>e t'. entry_of R i t = Some (e, t') \<and> refines R t' A \<and> abs_entry R e = s_entry A i"
proof -
  note rs = r [unfolded refines_sim]
  obtain a where a: "st_nodes A i = Some a" using i by blast
  have w: "links_wf (st_nodes A) (ut_root t)" using spec_wfD(4) [OF wf] rs by simp
  obtain rope t' where m: "materialize R i t = Some (rope, t')"
    "sim R (st_nodes A) (on_chain A) t'" "same_frame t t'" "rp_text R rope = sn_text a"
    using materialize_spec [OF R links_ups [OF w] _ a] rs by blast
  obtain n where "node_get t' i = Some n" "node_ok R (st_nodes A) (on_chain A) i n a"
    using sim_live [OF m(2) a] .
  then show ?thesis
    using m rs same_frame_heads [OF m(3)] a
    by (simp add: entry_of_def refines_sim abs_entry_def s_entry_def snode_simps node_okD)
qed

lemma redo_refines:
  assumes R: "rope_laws R" and r: "refines R t A" and wf: "spec_wf A"
    and fits: "live_fits A (rp_text R rope)"
  shows "\<exists>e t'. redo_step R rope cursor marks t = Some (e, t') \<and>
    (map_option (abs_entry R) e, snd (s_redo (rp_text R rope) cursor marks A)) =
      s_redo (rp_text R rope) cursor marks A \<and>
    refines R t' (snd (s_redo (rp_text R rope) cursor marks A))"
proof -
  let ?cur = "st_current A"
  note w = spec_wfD [OF wf]
  have cur: "ut_current t = ?cur" using r by (simp add: refines_sim)
  obtain a where a: "st_nodes A ?cur = Some a" using w(3) by blast
  obtain n where n: "node_get t ?cur = Some n" "node_ok R (st_nodes A) (on_chain A) ?cur n a"
    using refines_live [OF r a] .
  note nd = node_okD [OF n(2)]
  show ?thesis
  proof (cases "sn_last a")
    case None
    then show ?thesis using a n nd r cur by (simp add: redo_step_def s_redo_def snode_simps)
  next
    case (Some c)
    have par: "spar A c = Some ?cur" using current_child_facts [OF wf a Some] .
    obtain b where b: "st_nodes A c = Some b" "sn_parent b = Some ?cur"
      using par by (auto simp: spar_def bind_eq_Some_conv)
    have nc: "c \<noteq> ?cur"
      using anc_no_loop [OF links_depths [OF w(4)] par] par by (auto intro: anc_self)
    obtain m where m: "node_get t c = Some m" "node_ok R (st_nodes A) (on_chain A) c m b"
      using refines_live [OF r b(1)] .
    define dc where "dc = s_departed A ?cur cursor"
    have dep: "departed_cursor t ?cur cursor = Some dc"
      using n nd a by (simp add: departed_cursor_def dc_def s_departed_def snode_simps)
    define B where "B = s_set ?cur (rp_text R rope) dc (sn_timestamp b) marks A"
    obtain t1 where t1: "set_node_state R ?cur rope dc (sn_timestamp b) marks t = Some t1" "refines R t1 B"
      using refines_set [OF R r wf fits, of dc "sn_timestamp b" marks] cur by (auto simp: B_def)
    have wB: "spec_wf B" using spec_wf_set [OF wf w(3)] by (simp add: B_def)
    define C where "C = B\<lparr>st_current := c\<rparr>"
    have C: "snd (s_redo (rp_text R rope) cursor marks A) = C"
      "s_redo (rp_text R rope) cursor marks A = (Some (s_entry C c), C)"
      using a b Some by (simp_all add: s_redo_def snode_simps Let_def C_def B_def dc_def)
    have wC: "spec_wf C"
      using s_redo_wf [OF wf, of "rp_text R rope" cursor marks] C by simp
    have bB: "st_nodes B c = Some b" using b nc by (simp add: B_def s_set_lookup)
    obtain m1 where m1: "node_get t1 c = Some m1" "node_ok R (st_nodes B) (on_chain B) c m1 b"
      using refines_live [OF t1(2) bB] .
    let ?f = "\<lambda>n. n\<lparr>un_on_path := True\<rparr>"
    have chain: "on_chain C j \<longleftrightarrow> j = c \<or> on_chain B j" for j
      using par anc_step [of "spar A" c j]
      by (auto simp: on_chain_def C_def B_def intro: anc.intros)
    have "sim R ((st_nodes B)(c \<mapsto> b)) (on_chain C) (modified c ?f t1)"
      using t1(2) [unfolded refines_sim] bB m1
      by (intro sim_modified [where F = "on_chain B" and n = m1 and a = b])
        (auto simp: node_ok_def chain split: option.splits)
    moreover have "(st_nodes B)(c \<mapsto> b) = st_nodes C" using bB by (auto simp: C_def)
    ultimately have r2: "refines R ((modified c ?f t1)\<lparr>ut_current := c\<rparr>) C"
      using t1(2) by (simp add: refines_sim) (simp add: C_def)
    have "c \<in> dom (st_nodes C)" using bB by (auto simp: C_def)
    then obtain e t3 where e: "entry_of R c ((modified c ?f t1)\<lparr>ut_current := c\<rparr>) = Some (e, t3)"
      "refines R t3 C" "abs_entry R e = s_entry C c"
      using refines_entry [OF R r2 wC] by blast
    have "redo_step R rope cursor marks t = Some (Some e, t3)"
      using n nd cur Some m node_okD [OF m(2)] dep t1(1) m1(1) e(1)
      by (simp add: redo_step_def node_mod_modified)
    then show ?thesis using C e by simp
  qed
qed

section \<open>Undo\<close>

lemma fill_cache_refines:
  assumes R: "rope_laws R" and r: "refines R t A" and wf: "spec_wf A"
    and i: "st_nodes A i = Some a" and p: "sn_parent a \<noteq> None" and rope: "rp_text R rope = sn_text a"
  shows "\<exists>t1 t2. node_mod i (\<lambda>n. n\<lparr>un_rope_cache := Some rope\<rparr>) t = Some t1 \<and>
    touch_warm i t1 = Some t2 \<and> refines R t2 A"
proof -
  note rs = r [unfolded refines_sim]
  let ?N = "st_nodes A" and ?F = "on_chain A"
  let ?f = "\<lambda>n. n\<lparr>un_rope_cache := Some rope\<rparr>"
  obtain n where n: "node_get t i = Some n" "node_ok R ?N ?F i n a" using refines_live [OF r i] .
  let ?t1 = "modified i ?f t"
  have s: "sim R ?N ?F t" using rs by simp
  have "sn_parent a = Some (the (sn_parent a))" using p by simp
  then have "i \<noteq> st_root A" by (rule links_parent(2) [OF spec_wfD(4) [OF wf] i])
  then have root: "i \<noteq> ut_root ?t1" using rs by simp
  have l1: "lists_ok_but ?t1 {i}" using simD(2) [OF s] by (rule lists_modified) simp_all
  have g1: "node_get ?t1 i = Some (?f n)" using n(1) by simp
  obtain t2 where t2: "touch_warm i ?t1 = Some t2" "lists_ok t2" "dropped ?t1 t2"
    using touch_warm_spec [OF l1 g1 _ root] by auto
  have "node_ok R (?N(i \<mapsto> a)) ?F i (?f n) a"
    using n(2) p rope i by (auto simp: node_ok_def fun_upd_idem split: option.splits)
  then have "nodes_ok R (?N(i \<mapsto> a)) ?F (node_get ?t1)"
    using nodes_ok_modified [OF simD(1) [OF s] i n(1), of a ?f] by simp
  then have n1: "nodes_ok R ?N ?F (node_get ?t1)" using i by (simp add: fun_upd_idem)
  have "refines R t2 A"
    using dropped_nodes_ok [OF n1 t2(3)] t2(2)
      dropped_index [OF index_modified [OF simD(3) [OF s], of i ?f] t2(3)]
      dropped_arena [OF arena_modified [OF simD(4) [OF s], of i ?f] t2(3)]
      same_frame_heads [OF dropped_frame [OF t2(3)]] rs
    by (simp add: refines_sim sim_def)
  then show ?thesis using t2(1) node_mod_modified [OF n(1), of ?f] by blast
qed

lemma undo_refines:
  assumes R: "rope_laws R" and r: "refines R t A" and wf: "spec_wf A"
    and fits: "live_fits A (rp_text R rope)"
  shows "\<exists>e t'. undo_step R rope cursor marks t = Some (e, t') \<and>
    (map_option (abs_entry R) e, snd (s_undo (rp_text R rope) cursor marks A)) =
      s_undo (rp_text R rope) cursor marks A \<and>
    refines R t' (snd (s_undo (rp_text R rope) cursor marks A))"
proof -
  let ?cur = "st_current A"
  note w = spec_wfD [OF wf]
  have cur: "ut_current t = ?cur" using r by (simp add: refines_sim)
  obtain a where a: "st_nodes A ?cur = Some a" using w(3) by blast
  obtain n where n: "node_get t ?cur = Some n" "node_ok R (st_nodes A) (on_chain A) ?cur n a"
    using refines_live [OF r a] .
  note nd = node_okD [OF n(2)]
  show ?thesis
  proof (cases "sn_parent a")
    case None
    then show ?thesis using a n nd r cur by (simp add: undo_step_def s_undo_def spar_def)
  next
    case (Some p)
    have par: "spar A ?cur = Some p" using a Some by (simp add: spar_def)
    obtain b where b: "st_nodes A p = Some b" "?cur \<in> set (sn_children b)"
      using links_parent(1) [OF w(4) a Some] by blast
    have np: "p \<noteq> ?cur"
      using anc_no_loop [OF links_depths [OF w(4)] par] by (auto intro: anc_self)
    obtain m where m: "node_get t p = Some m" "node_ok R (st_nodes A) (on_chain A) p m b"
      using refines_live [OF r b(1)] .
    define dc where "dc = s_departed A ?cur cursor"
    have dep: "departed_cursor t ?cur cursor = Some dc"
      using n nd a by (simp add: departed_cursor_def dc_def s_departed_def snode_simps)
    define B where "B = s_set ?cur (rp_text R rope) dc (sn_timestamp b) marks A"
    obtain t1 where t1: "set_node_state R ?cur rope dc (sn_timestamp b) marks t = Some t1" "refines R t1 B"
      using refines_set [OF R r wf fits, of dc "sn_timestamp b" marks] cur by (auto simp: B_def)
    define C where "C = (s_upd p (\<lambda>a. a\<lparr>sn_last := Some ?cur\<rparr>) B)\<lparr>st_current := p\<rparr>"
    have C: "snd (s_undo (rp_text R rope) cursor marks A) = C"
      "s_undo (rp_text R rope) cursor marks A = (Some (s_entry C p), C)"
      using b par by (simp_all add: s_undo_def snode_simps Let_def C_def B_def dc_def)
    have wC: "spec_wf C"
      using s_undo_wf [OF wf, of "rp_text R rope" cursor marks] C by simp
    have bB: "st_nodes B p = Some b" using b np by (simp add: B_def s_set_lookup)
    define a1 where "a1 = a\<lparr>sn_text := rp_text R rope, sn_cursor := dc,
      sn_timestamp := sn_timestamp b, sn_marks := marks\<rparr>"
    have aB: "st_nodes B ?cur = Some a1" using a by (simp add: B_def s_set_lookup a1_def)
    define b1 where "b1 = b\<lparr>sn_last := Some ?cur\<rparr>"
    have nodes: "st_nodes C = (st_nodes B)(p \<mapsto> b1)"
      using bB by (simp add: C_def s_upd_def b1_def)
    obtain m1 where m1: "node_get t1 p = Some m1" "node_ok R (st_nodes B) (on_chain B) p m1 b"
      using refines_live [OF t1(2) bB] .
    obtain n1 where n1: "node_get t1 ?cur = Some n1" "node_ok R (st_nodes B) (on_chain B) ?cur n1 a1"
      using refines_live [OF t1(2) aB] .
    let ?f = "\<lambda>n. n\<lparr>un_last_child := Some ?cur\<rparr>" and ?g = "\<lambda>n. n\<lparr>un_on_path := False\<rparr>"
    let ?t2 = "modified p ?f t1" and ?t3 = "modified ?cur ?g (modified p ?f t1)"
    have s2: "sim R (st_nodes C) (on_chain B) ?t2"
      unfolding nodes
    proof (rule sim_modified [where F = "on_chain B" and n = m1 and a = b])
      show "node_ok R ((st_nodes B)(p \<mapsto> b1)) (on_chain B) p (?f m1) b1"
        using m1(2) links_parent(1) [OF w(4) b(1)] b(1)
        by (auto simp: node_ok_def b1_def split: option.splits)
    qed (use t1(2) [unfolded refines_sim] bB m1 in \<open>auto simp: b1_def\<close>)
    have aC: "st_nodes C ?cur = Some a1" using aB np by (simp add: nodes)
    obtain n2 where n2: "node_get ?t2 ?cur = Some n2" "node_ok R (st_nodes C) (on_chain B) ?cur n2 a1"
      using sim_live [OF s2 aC] .
    have chain: "on_chain C j \<longleftrightarrow> j \<noteq> ?cur \<and> on_chain B j" for j
    proof -
      have sp: "spar C = spar A"
        unfolding C_def st_current_simps by (subst spar_upd) (simp_all add: B_def)
      have "anc (spar A) p j \<longleftrightarrow> j \<noteq> ?cur \<and> anc (spar A) ?cur j"
        using par anc_step [of "spar A" ?cur j] anc_no_loop [OF links_depths [OF w(4)] par]
        by (auto intro: anc.intros)
      moreover have "st_current C = p" by (simp add: C_def)
      ultimately show ?thesis by (simp add: on_chain_def sp) (simp add: B_def)
    qed
    have "sim R ((st_nodes C)(?cur \<mapsto> a1)) (on_chain C) ?t3"
    proof (rule sim_modified [OF s2 aC n2(1)])
      show "node_ok R ((st_nodes C)(?cur \<mapsto> a1)) (on_chain C) ?cur (?g n2) a1"
        using n2(2) aC by (auto simp: node_ok_def chain fun_upd_idem split: option.splits)
    qed (auto simp: chain)
    moreover have "(st_nodes C)(?cur \<mapsto> a1) = st_nodes C" using aC by (rule fun_upd_idem)
    ultimately have r3: "refines R (?t3\<lparr>ut_current := p\<rparr>) C"
      using t1(2) by (simp add: refines_sim) (simp add: C_def)
    let ?t4 = "?t3\<lparr>ut_current := p\<rparr>"
    have bC: "st_nodes C p = Some b1" by (simp add: nodes)
    obtain m4 where m4: "node_get ?t4 p = Some m4" "node_ok R (st_nodes C) (on_chain C) p m4 b1"
      using refines_live [OF r3 bC] .
    obtain n4 where n4: "node_get ?t4 ?cur = Some n4" "node_ok R (st_nodes C) (on_chain C) ?cur n4 a1"
      using refines_live [OF r3 aC] .
    define derive where "derive = (if un_rope_cache m4 = None \<and> un_base m4 = None then
        (case (un_rope_cache n4, un_delta n4) of
           (Some cr, Some d) \<Rightarrow> do {
             par_rope \<leftarrow> apply_inverse R cr d;
             t \<leftarrow> node_mod p (\<lambda>n. n\<lparr>un_rope_cache := Some par_rope\<rparr>) ?t4;
             touch_warm p t
           }
         | _ \<Rightarrow> Some ?t4)
      else Some ?t4)"
    have "\<exists>t5. derive = Some t5 \<and> refines R t5 C"
    proof (cases "un_rope_cache m4 = None \<and> un_base m4 = None \<and> un_rope_cache n4 \<noteq> None")
      case False
      then show ?thesis using r3 by (auto simp: derive_def split: option.splits)
    next
      case True
      then obtain cr where cr: "un_rope_cache n4 = Some cr" by auto
      have pb: "sn_parent b1 \<noteq> None" using True node_ok_root(3) [OF m4(2)] by auto
      have "sn_parent a1 = Some p" using Some by (simp add: a1_def)
      then obtain d where d: "un_delta n4 = Some d" "delta_links d (sn_text b1) (sn_text a1)"
        using node_ok_inner(2) [OF n4(2)] bC by auto
      obtain pr where pr: "apply_inverse R cr d = Some pr" "rp_text R pr = sn_text b1"
        using apply_inverse_links [OF R, of d "sn_text b1" cr] d(2) node_okD(10) [OF n4(2) cr]
          node_okD(11) [OF m4(2)] by auto
      obtain u v where uv: "node_mod p (\<lambda>n. n\<lparr>un_rope_cache := Some pr\<rparr>) ?t4 = Some u"
        "touch_warm p u = Some v" "refines R v C"
        using fill_cache_refines [OF R r3 wC bC pb pr(2)] by blast
      show ?thesis using True cr d(1) pr(1) uv by (simp add: derive_def)
    qed
    then obtain t5 where t5: "derive = Some t5" "refines R t5 C" by blast
    have "p \<in> dom (st_nodes C)" using bC by blast
    then obtain e t6 where e: "entry_of R p t5 = Some (e, t6)" "refines R t6 C" "abs_entry R e = s_entry C p"
      using refines_entry [OF R t5(2) wC] by blast
    have mod: "node_mod p ?f t1 = Some ?t2" "node_mod ?cur ?g ?t2 = Some ?t3"
      by (rule node_mod_modified [OF m1(1)], rule node_mod_modified [OF n2(1)])
    have "undo_step R rope cursor marks t = Some (Some e, t6)"
      using n(1) nd(1) cur Some m node_okD(6) [OF m(2)] dep t1(1) mod m4(1) n4(1) t5(1) e(1)
      by (auto simp: undo_step_def derive_def split: if_splits)
    then show ?thesis using C e by simp
  qed
qed

section \<open>Allocation and release of a slot\<close>

lemma bt_insert_spec:
  assumes "sorted_wrt (<) (map fst m)" and "k \<notin> fst ` set m"
  shows "sorted_wrt (<) (map fst (bt_insert k v m)) \<and> set (bt_insert k v m) = insert (k, v) (set m)"
  using assms
proof (induction k v m rule: bt_insert.induct)
  case (2 k v k' v' m)
  have set': "set (bt_insert k v m) = insert (k, v) (set m)" if "\<not> k < k'" "k \<noteq> k'"
    using 2 that by auto
  show ?case
  proof (cases "k < k'")
    case True
    then show ?thesis using 2 by fastforce
  next
    case False
    then show ?thesis using 2 set' by auto
  qed
qed simp

lemma bt_remove_spec:
  "sorted_wrt (<) (map fst m) \<Longrightarrow> sorted_wrt (<) (map fst (bt_remove k m))"
  "set (bt_remove k m) = {e \<in> set m. fst e \<noteq> k}"
  by (induction m) (auto simp: bt_remove_def)

lemma alloc_spec:
  assumes a: "arena_ok t" and x: "index_ok t"
    and fresh: "\<forall>i n. node_get t i = Some n \<longrightarrow> un_seq n \<noteq> un_seq node"
    and r: "alloc node t = (i, t')"
  shows "node_get t i = None" and "node_get t' = (node_get t)(i \<mapsto> node)"
    and "arena_ok t'" and "index_ok t'"
    and "ut_warm t' = ut_warm t" "ut_keyframes t' = ut_keyframes t" "ut_root t' = ut_root t"
      "ut_current t' = ut_current t" "ut_next_seq t' = ut_next_seq t"
proof -
  define t1 where "t1 = (if ut_free t = [] then t\<lparr>ut_nodes := ut_nodes t @ [Some node]\<rparr>
     else t\<lparr>ut_free := butlast (ut_free t), ut_nodes := (ut_nodes t)[last (ut_free t) := Some node]\<rparr>)"
  have i: "i = (if ut_free t = [] then length (ut_nodes t) else last (ut_free t))"
    and t': "t' = t1\<lparr>ut_by_seq := bt_insert (un_seq node) i (ut_by_seq t)\<rparr>"
    using r by (auto simp: alloc_def t1_def split: if_splits)
  have free: "ut_free t \<noteq> [] \<Longrightarrow> last (ut_free t) < length (ut_nodes t) \<and>
      node_get t (last (ut_free t)) = None"
    using a last_in_set [of "ut_free t"] by (simp add: arena_ok_def)
  show dead: "node_get t i = None" using i free by (auto simp: node_get_def)
  have g1: "node_get t1 = (node_get t)(i \<mapsto> node)"
  proof (cases "ut_free t = []")
    case True
    then show ?thesis by (auto simp: t1_def i node_get_def fun_eq_iff nth_append)
  next
    case False
    then show ?thesis using free by (auto simp: t1_def i node_get_def fun_eq_iff)
  qed
  then show g: "node_get t' = (node_get t)(i \<mapsto> node)" by (simp add: t')
  have len: "length (ut_nodes t') = (if ut_free t = [] then Suc (length (ut_nodes t)) else length (ut_nodes t))"
    by (simp add: t' t1_def)
  have fr: "ut_free t' = (if ut_free t = [] then [] else butlast (ut_free t))"
    by (simp add: t' t1_def)
  show "arena_ok t'"
  proof (cases "ut_free t = []")
    case True
    then have "\<forall>j < length (ut_nodes t). node_get t j \<noteq> None" using a by (auto simp: arena_ok_def)
    then show ?thesis using True by (auto simp: arena_ok_def fr g len i less_Suc_eq)
  next
    case False
    have "ut_free t = butlast (ut_free t) @ [i]" using False i by simp
    then obtain fs where fs: "ut_free t = fs @ [i]" by blast
    have "distinct (fs @ [i])" using a fs by (simp add: arena_ok_def)
    moreover have "j \<in> set (fs @ [i]) \<longleftrightarrow> j < length (ut_nodes t) \<and> node_get t j = None" for j
      using a fs by (simp add: arena_ok_def)
    ultimately show ?thesis
      unfolding arena_ok_def fr len g using fs by (auto split: if_splits)
  qed
  have "un_seq node \<notin> fst ` set (ut_by_seq t)"
  proof
    assume "un_seq node \<in> fst ` set (ut_by_seq t)"
    then obtain j where "(un_seq node, j) \<in> set (ut_by_seq t)" by auto
    then show False using x fresh by (auto simp: index_ok_def)
  qed
  then have b: "sorted_wrt (<) (map fst (ut_by_seq t'))"
    "set (ut_by_seq t') = insert (un_seq node, i) (set (ut_by_seq t))"
    using bt_insert_spec [of "ut_by_seq t" "un_seq node" i] x by (simp_all add: t' index_ok_def)
  show "index_ok t'"
    using b x dead unfolding index_ok_def g by auto
  show "ut_warm t' = ut_warm t" "ut_keyframes t' = ut_keyframes t" "ut_root t' = ut_root t"
    "ut_current t' = ut_current t" "ut_next_seq t' = ut_next_seq t"
    by (simp_all add: t' t1_def)
qed

lemma free_node_spec:
  assumes a: "arena_ok t" and x: "index_ok t" and l: "lists_ok t" and n: "node_get t i = Some n"
    and uniq: "\<forall>j m. node_get t j = Some m \<longrightarrow> un_seq m = un_seq n \<longrightarrow> j = i"
  shows "\<exists>t'. free_node i t = Some t' \<and> node_get t' = (node_get t)(i := None) \<and> arena_ok t' \<and>
    index_ok t' \<and> lists_ok t' \<and> ut_root t' = ut_root t \<and> ut_current t' = ut_current t \<and>
    ut_next_seq t' = ut_next_seq t"
proof -
  have i: "i < length (ut_nodes t)" using n by (rule node_get_length)
  define t' where "t' = t\<lparr>ut_by_seq := bt_remove (un_seq n) (ut_by_seq t),
    ut_nodes := (ut_nodes t)[i := None], ut_free := ut_free t @ [i],
    ut_warm := filter (\<lambda>n. n \<noteq> i) (ut_warm t), ut_keyframes := filter (\<lambda>n. n \<noteq> i) (ut_keyframes t)\<rparr>"
  have run: "free_node i t = Some t'"
    using i n by (simp add: free_node_def t'_def node_get_def)
  have g: "node_get t' = (node_get t)(i := None)"
    using i by (auto simp: t'_def node_get_def fun_eq_iff)
  have "arena_ok t'"
    using a n i unfolding arena_ok_def g by (auto simp: t'_def)
  moreover have "index_ok t'"
    unfolding index_ok_def
  proof (intro conjI allI)
    show "sorted_wrt (<) (map fst (ut_by_seq t'))"
      using x bt_remove_spec(1) by (auto simp: t'_def index_ok_def)
    fix s j
    have "(s, j) \<in> set (ut_by_seq t') \<longleftrightarrow> (s, j) \<in> set (ut_by_seq t) \<and> s \<noteq> un_seq n"
      by (auto simp: t'_def bt_remove_spec(2))
    also have "\<dots> \<longleftrightarrow> (\<exists>m. node_get t j = Some m \<and> un_seq m = s) \<and> s \<noteq> un_seq n"
      using x by (simp add: index_ok_def)
    also have "\<dots> \<longleftrightarrow> (\<exists>m. node_get t' j = Some m \<and> un_seq m = s)"
    proof (cases "j = i")
      case False
      then have "un_seq m \<noteq> un_seq n" if "node_get t j = Some m" for m using uniq that by blast
      then show ?thesis using False by (cases "node_get t j") (auto simp: g)
    qed (use n in \<open>auto simp: g\<close>)
    finally show "(s, j) \<in> set (ut_by_seq t') \<longleftrightarrow> (\<exists>m. node_get t' j = Some m \<and> un_seq m = s)" .
  qed
  moreover have "lists_ok t'"
  proof -
    note ld = lists_okD [OF l]
    have c: "cached t' j \<longleftrightarrow> cached t j \<and> j \<noteq> i" and k: "kf_depth t' j \<longleftrightarrow> kf_depth t j \<and> j \<noteq> i" for j
      by (auto simp: cached_def kf_depth_def g)
    have w: "ut_warm t' = filter (\<lambda>n. n \<noteq> i) (ut_warm t)"
      "ut_keyframes t' = filter (\<lambda>n. n \<noteq> i) (ut_keyframes t)" by (simp_all add: t'_def)
    show ?thesis
      unfolding lists_ok_but_def w g
    proof (intro conjI allI impI ballI)
      show "length (filter (\<lambda>n. n \<noteq> i) (ut_warm t)) \<le> WARM_CAP"
        using ld(3) by (rule order_trans [OF length_filter_le])
      show "length (filter (\<lambda>n. n \<noteq> i) (ut_keyframes t)) \<le> KEYFRAME_CAP"
        using ld(4) by (rule order_trans [OF length_filter_le])
      show "j \<in> set (filter (\<lambda>n. n \<noteq> i) (ut_warm t)) \<longleftrightarrow> cached t' j \<and> \<not> kf_depth t' j" for j
        using ld(5) [of j] c k by auto
      show "j \<in> set (filter (\<lambda>n. n \<noteq> i) (ut_keyframes t)) \<longleftrightarrow> cached t' j \<and> kf_depth t' j" for j
        using ld(6) [of j] c k by auto
      show "kf_depth t' j" if "j \<in> set (filter (\<lambda>n. n \<noteq> i) (ut_keyframes t))" for j
        using that ld(8) [of j] k by simp
      show "\<not> kf_depth t' j" if "j \<in> set (filter (\<lambda>n. n \<noteq> i) (ut_warm t))" for j
        using that ld(7) [of j] k by simp
      show "((node_get t)(i := None)) j \<noteq> None" if "j \<in> set (filter (\<lambda>n. n \<noteq> i) (ut_warm t))" for j
        using that ld(7) [of j] by simp
    qed (use ld(1,2) in \<open>simp_all only: distinct_filter\<close>)
  qed
  ultimately show ?thesis using run g by (simp add: t'_def)
qed

section \<open>Push\<close>

lemma push_refines:
  assumes R: "rope_laws R" and r: "refines R t A" and wf: "spec_wf A"
    and fits: "live_fits A (rp_text R (ue_rope e))"
  shows "\<exists>child t'. push R e t = Some t' \<and> st_nodes A child = None \<and>
    refines R t' (s_push child (abs_entry R e) A)"
proof -
  let ?cur = "st_current A"
  let ?s = "rp_text R (ue_rope e)"
  note w = spec_wfD [OF wf]
  have cur: "ut_current t = ?cur" using r by (simp add: refines_sim)
  define B where "B = s_set ?cur ?s (ue_cursor e) (ue_timestamp e) (ue_marks e) A"
  obtain t1 where t1: "set_node_state R ?cur (ue_rope e) (ue_cursor e) (ue_timestamp e) (ue_marks e) t = Some t1"
    "refines R t1 B"
    using refines_set [OF R r wf fits, of "ue_cursor e" "ue_timestamp e" "ue_marks e"] cur
    by (auto simp: B_def)
  have wB: "spec_wf B" using spec_wf_set [OF wf w(3)] by (simp add: B_def)
  note wb = spec_wfD [OF wB]
  have s1: "sim R (st_nodes B) (on_chain B) t1" using t1(2) by (simp add: refines_sim)
  obtain b where b: "st_nodes B ?cur = Some b" "sn_text b = ?s"
    using w(3) by (auto simp: B_def s_set_lookup)
  obtain n where n: "node_get t1 ?cur = Some n" "node_ok R (st_nodes B) (on_chain B) ?cur n b"
    using sim_live [OF s1 b(1)] .
  define new where "new = \<lparr>un_parent = Some ?cur, un_children = [], un_last_child = None,
       un_delta = Some delta_default, un_base = None, un_rope_cache = Some (ue_rope e),
       un_depth = un_depth n + 1, un_cursor = ue_cursor e,
       un_timestamp = ue_timestamp e, un_marks = ue_marks e, un_seq = ut_next_seq t1,
       un_on_path = True\<rparr>"
  define t2 where "t2 = t1\<lparr>ut_next_seq := ut_next_seq t1 + 1\<rparr>"
  have s2: "sim R (st_nodes B) (on_chain B) t2" using s1 by (simp add: t2_def)
  have nseq: "ut_next_seq t1 = st_next_seq A" using t1(2) by (simp add: refines_sim B_def)
  have g2: "node_get t2 = node_get t1" by (simp add: t2_def)
  obtain child t3 where al: "alloc new t2 = (child, t3)" by (cases "alloc new t2")
  have "un_seq m \<noteq> un_seq new" if m: "node_get t2 i = Some m" for i m
  proof -
    obtain c where c: "st_nodes B i = Some c"
      using m nodes_ok_dead [OF simD(1) [OF s2], of i] by (cases "st_nodes B i") auto
    then have "node_ok R (st_nodes B) (on_chain B) i m c"
      using nodes_ok_live [OF simD(1) [OF s2] c] m by auto
    moreover have "sn_seq c < st_next_seq A"
      using wb(5) c by (auto simp: seqs_wf_def B_def)
    ultimately show ?thesis using node_okD(8) nseq by (fastforce simp: new_def)
  qed
  then have "\<forall>i m. node_get t2 i = Some m \<longrightarrow> un_seq m \<noteq> un_seq new" by blast
  note a3 = alloc_spec [OF simD(4) [OF s2] simD(3) [OF s2] this al]
  have dead: "st_nodes B child = None"
    using a3(1) nodes_ok_dead [OF simD(1) [OF s2], of child] by simp
  then have deadA: "st_nodes A child = None" by (auto simp: B_def s_set_lookup split: if_splits)
  have ne: "child \<noteq> ?cur" using dead b(1) by auto
  define C where "C = s_push child (abs_entry R e) A"
  define b1 where "b1 = b\<lparr>sn_children := sn_children b @ [child], sn_last := Some child\<rparr>"
  define c1 where "c1 = \<lparr>sn_parent = Some ?cur, sn_children = [], sn_last = None, sn_text = ?s,
     sn_depth = Suc (sdep A ?cur), sn_cursor = ue_cursor e, sn_timestamp = ue_timestamp e,
     sn_marks = ue_marks e, sn_seq = st_next_seq A\<rparr>"
  have nodes: "st_nodes C = (st_nodes B)(?cur \<mapsto> b1, child \<mapsto> c1)"
    and heads: "st_root C = st_root A" "st_current C = child" "st_next_seq C = Suc (st_next_seq A)"
    using b(1) by (auto simp: C_def s_push_def Let_def abs_entry_def B_def [symmetric] c1_def b1_def fun_eq_iff)
      (auto simp: B_def sdep_def s_set_lookup split: option.splits)
  have depth: "sdep A ?cur = sn_depth b"
    using b(1) by (auto simp: B_def sdep_def s_set_lookup split: option.splits)
  let ?f = "\<lambda>n. n\<lparr>un_children := un_children n @ [child], un_last_child := Some child\<rparr>"
  let ?t4 = "modified ?cur ?f t3"
  have g3': "node_get t3 j = (if j = child then Some new else node_get t1 j)" for j
    using a3(2) g2 by simp
  have g3: "node_get t3 ?cur = Some n" using ne n(1) by (simp add: g3')
  have m4: "node_mod ?cur ?f t3 = Some ?t4" using g3 by (rule node_mod_modified)
  have par: "spar C j = (if j = child then Some ?cur else spar B j)" for j
    using b(1) by (auto simp: spar_def nodes b1_def c1_def)
  have nopar: "spar B j \<noteq> Some child" for j
  proof
    assume "spar B j = Some child"
    then obtain x where "st_nodes B j = Some x" "sn_parent x = Some child"
      by (auto simp: spar_def bind_eq_Some_conv)
    from links_parent(1) [OF wb(4) this] dead show False by auto
  qed
  have up: "anc (spar C) i j \<longleftrightarrow> anc (spar B) i j" if "i \<noteq> child" for i j
  proof -
    have k: "k \<noteq> child" if "anc (spar B) i k" for k
      using that \<open>i \<noteq> child\<close> anc_child [of "spar B" i child] nopar by blast
    have k': "k \<noteq> child" if "anc (spar C) i k" for k
    proof
      assume "k = child"
      with that \<open>i \<noteq> child\<close> obtain q where "spar C q = Some child" using anc_child by blast
      then show False using nopar par ne by (auto split: if_splits)
    qed
    show ?thesis
      using anc_cong_above [of "spar B" i j "spar C"] anc_cong_above [of "spar C" i j "spar B"] k k' par
      by metis
  qed
  have chain: "on_chain C j \<longleftrightarrow> j = child \<or> on_chain B j" for j
    using anc_step [of "spar C" child j] par [of child] up [OF ne [symmetric], of j]
    by (auto simp: on_chain_def heads intro: anc.intros) (auto simp: B_def)
  have offchild: "\<not> on_chain B child"
    using anc_dom [OF wb(4) _ wb(3), of child] dead unfolding on_chain_def by blast
  have n4: "nodes_ok R (st_nodes C) (on_chain C) (node_get ?t4)"
    unfolding nodes_ok_def
  proof (intro allI conjI impI)
    fix j
    show "node_get ?t4 j = None \<longleftrightarrow> st_nodes C j = None"
      using nodes_ok_dead [OF simD(1) [OF s2], of j] n(1)
      by (auto simp: nodes g3' g2)
    fix m c
    assume m: "node_get ?t4 j = Some m" and c: "st_nodes C j = Some c"
    consider "j = child" | "j = ?cur" | "j \<noteq> child" "j \<noteq> ?cur" by blast
    then show "node_ok R (st_nodes C) (on_chain C) j m c"
    proof cases
      case 1
      then have "m = new" "c = c1" using m c ne by (auto simp: nodes g3')
      then show ?thesis
        using 1 n(2) b(2) chain ne nseq depth rope_valid [OF R]
        by (auto simp: node_ok_def new_def c1_def nodes b1_def delta_links_default)
          (auto simp: delta_default_def)
    next
      case 2
      then have mc: "m = ?f n" "c = b1" using m c ne g3 by (auto simp: nodes)
      have "on_chain C ?cur = on_chain B ?cur" using chain ne by auto
      moreover have "sn_parent b = Some p \<Longrightarrow> p \<noteq> child \<and> p \<noteq> ?cur" for p
        using nopar [of ?cur] b(1) links_parent(1) [OF wb(4) b(1)]
        by (fastforce simp: spar_def)
      ultimately show ?thesis
        using 2 n(2) by (auto simp: mc node_ok_def nodes b1_def split: option.splits)
    next
      case 3
      then have mc: "node_get t1 j = Some m" "st_nodes B j = Some c"
        using m c by (auto simp: nodes g3')
      then have old: "node_ok R (st_nodes B) (on_chain B) j m c"
        using nodes_ok_live [OF simD(1) [OF s1] mc(2)] by auto
      show ?thesis
      proof (cases "sn_parent c")
        case None
        then show ?thesis using old chain 3 by (auto simp: node_ok_def)
      next
        case (Some p)
        obtain d x where d: "un_delta m = Some d" "valid_str (d_new d)" "st_nodes B p = Some x"
          "delta_links d (sn_text x) (sn_text c)"
          using node_ok_inner(2) [OF old Some] by blast
        have "\<exists>x'. st_nodes C p = Some x' \<and> sn_text x' = sn_text x"
          using d(3) b(1) dead by (auto simp: nodes b1_def)
        then show ?thesis using old Some d chain 3 by (auto simp: node_ok_def)
      qed
    qed
  qed
  have x4: "index_ok ?t4" using index_modified [OF a3(4), of ?cur ?f] by simp
  have a4: "arena_ok ?t4" by (rule arena_modified [OF a3(3)])
  have l3: "lists_ok_but t3 {child}"
  proof -
    note ld = lists_okD [OF simD(2) [OF s2]]
    have k: "kf_depth t3 j = kf_depth t2 j" "cached t3 j = cached t2 j" if "j \<noteq> child" for j
      using that by (auto simp: kf_depth_def cached_def g3' g2)
    have notin: "child \<notin> set (ut_warm t2)" "child \<notin> set (ut_keyframes t2)"
      using ld(7,8) a3(1) kf_depth_live by blast+
    show ?thesis
      unfolding lists_ok_but_def a3(5,6)
      using ld k notin g3' g2 by (auto; metis)
  qed
  have l4: "lists_ok_but ?t4 {child}" using l3 by (rule lists_modified) simp_all
  let ?t5 = "?t4\<lparr>ut_current := child\<rparr>"
  have l5: "lists_ok_but ?t5 {child}"
    using l4 by (simp add: lists_ok_but_def cached_def kf_depth_def)
  have g5: "node_get ?t5 child = Some new" using ne by (simp add: g3')
  have root: "child \<noteq> ut_root ?t5"
    using a3(7) t1(2) deadA w(2) by (auto simp: t2_def refines_sim B_def)
  obtain t6 where t6: "touch_warm child ?t5 = Some t6" "lists_ok t6" "dropped ?t5 t6"
    using touch_warm_spec [OF l5 g5 _ root] by (auto simp: new_def)
  have "refines R t6 C"
    unfolding refines_sim sim_def
    using dropped_nodes_ok [OF _ t6(3)] n4 t6(2) dropped_index [OF _ t6(3)] x4 dropped_arena [OF _ t6(3)] a4
      same_frame_heads [OF dropped_frame [OF t6(3)]] a3(7,9) t1(2) nseq
    by (auto simp: heads t2_def refines_sim index_ok_def arena_ok_def B_def)
  moreover have "push R e t = Some t6"
    using t1(1) cur n(1) al m4 t6(1) g2
    by (simp add: push_def Let_def new_def t2_def flip: nseq)
  ultimately show ?thesis using deadA by (auto simp: C_def)
qed

section \<open>Landing on a node\<close>

text \<open>The redo direction of \<open>x\<close> after the walk up from \<open>i\<close> has linked the nodes that
  satisfy not \<open>F\<close>.\<close>

definition seglast :: "(nat \<Rightarrow> nat option) \<Rightarrow> (nat \<Rightarrow> bool) \<Rightarrow> nat \<Rightarrow> nat \<Rightarrow> nat option \<Rightarrow> nat option" where
  "seglast P F i x old =
     (if \<exists>c. anc P i c \<and> \<not> F c \<and> P c = Some x
      then Some (THE c. anc P i c \<and> \<not> F c \<and> P c = Some x) else old)"

lemma seglast_eq:
  assumes "depths_ok P dep" and "anc P i c" and "\<not> F c" and "P c = Some x"
  shows "seglast P F i x old = Some c"
proof -
  have "(THE c. anc P i c \<and> \<not> F c \<and> P c = Some x) = c"
    using assms anc_child_unique [OF assms(1)] by (intro the_equality) auto
  then show ?thesis using assms by (auto simp: seglast_def)
qed

lemma seglast_none: "(\<And>c. anc P i c \<Longrightarrow> \<not> F c \<Longrightarrow> P c \<noteq> Some x) \<Longrightarrow> seglast P F i x old = old"
  by (auto simp: seglast_def)

lemma seglast_up:
  assumes d: "depths_ok P dep" and p: "P i = Some p" and i: "\<not> F i"
  shows "seglast P F i x old = (if x = p then Some i else seglast P F p x old)"
proof (cases "x = p")
  case True
  then show ?thesis using seglast_eq [of P dep i i F x, OF d anc_self i] p by simp
next
  case False
  show ?thesis
  proof (cases "\<exists>c. anc P p c \<and> \<not> F c \<and> P c = Some x")
    case True
    then obtain c where "anc P p c" "\<not> F c" "P c = Some x" by blast
    then show ?thesis
      using False seglast_eq [OF d, of p c F x] seglast_eq [OF d, of i c F x] p
      by (auto intro: anc.intros)
  next
    case none: False
    have "P c \<noteq> Some x" if c: "anc P i c" "\<not> F c" for c
      using anc_step [OF c(1)] c(2) p False none by auto
    then have "seglast P F i x old = old" by (rule seglast_none)
    moreover have "seglast P F p x old = old" using none by (intro seglast_none) blast
    ultimately show ?thesis using False by simp
  qed
qed

definition relinked ::
  "(nat \<Rightarrow> bool \<Rightarrow> bool) \<Rightarrow> (nat \<Rightarrow> nat option \<Rightarrow> nat option) \<Rightarrow> 'r undo_tree \<Rightarrow> 'r undo_tree \<Rightarrow> bool" where
  "relinked G L t t' \<longleftrightarrow> same_frame t t' \<and> ut_warm t' = ut_warm t \<and> ut_keyframes t' = ut_keyframes t \<and>
     (\<forall>x. node_get t' x = map_option (\<lambda>n. n\<lparr>un_on_path := G x (un_on_path n),
        un_last_child := L x (un_last_child n)\<rparr>) (node_get t x))"

lemma relinkedD:
  assumes "relinked G L t t'"
  shows "same_frame t t'" "ut_warm t' = ut_warm t" "ut_keyframes t' = ut_keyframes t"
    "node_get t' x = map_option (\<lambda>n. n\<lparr>un_on_path := G x (un_on_path n),
        un_last_child := L x (un_last_child n)\<rparr>) (node_get t x)"
  using assms by (auto simp: relinked_def)

lemma relinked_id:
  assumes "\<And>x b. G x b = b" and "\<And>x l. L x l = l"
  shows "relinked G L t t"
proof -
  have "(n :: 'a undo_node) = n\<lparr>un_on_path := un_on_path n, un_last_child := un_last_child n\<rparr>" for n
    by (cases n) simp
  then show ?thesis using assms by (simp add: relinked_def option.map_ident)
qed

lemma relinked_comp:
  assumes a: "relinked G L t t'" and b: "relinked G' L' t' t''"
    and G: "\<And>x n. node_get t x = Some n \<Longrightarrow> G'' x (un_on_path n) = G' x (G x (un_on_path n))"
    and L: "\<And>x n. node_get t x = Some n \<Longrightarrow> L'' x (un_last_child n) = L' x (L x (un_last_child n))"
  shows "relinked G'' L'' t t''"
  unfolding relinked_def
proof (intro conjI allI)
  show "same_frame t t''" using relinkedD(1) [OF a] relinkedD(1) [OF b] by (rule same_frame_trans)
  show "ut_warm t'' = ut_warm t" "ut_keyframes t'' = ut_keyframes t"
    using relinkedD(2,3) [OF a] relinkedD(2,3) [OF b] by simp_all
  fix x
  show "node_get t'' x = map_option (\<lambda>n. n\<lparr>un_on_path := G'' x (un_on_path n),
      un_last_child := L'' x (un_last_child n)\<rparr>) (node_get t x)"
    using relinkedD(4) [OF a, of x] relinkedD(4) [OF b, of x] G L by (cases "node_get t x") simp_all
qed

definition chain_view :: "(nat \<Rightarrow> nat option) \<Rightarrow> (nat \<Rightarrow> bool) \<Rightarrow> nat \<Rightarrow> 'r undo_tree \<Rightarrow> bool" where
  "chain_view P F i t \<longleftrightarrow> (\<forall>x. anc P i x \<longrightarrow>
     (\<exists>n. node_get t x = Some n \<and> un_parent n = P x \<and> un_on_path n = F x))"

lemma link_up_spec:
  assumes d: "depths_ok P dep" and up: "\<And>x p. F x \<Longrightarrow> P x = Some p \<Longrightarrow> F p"
    and root: "\<And>x. anc P i x \<Longrightarrow> P x = None \<Longrightarrow> F x" and v: "chain_view P F i t"
  shows "\<exists>f t'. link_up i t = Some (f, t') \<and> anc P i f \<and> F f \<and>
    (\<forall>c. anc P i c \<longrightarrow> F c \<longrightarrow> anc P f c) \<and>
    relinked (\<lambda>x b. b \<or> (anc P i x \<and> \<not> F x)) (seglast P F i) t t'"
  using root v
proof (induction "dep i" arbitrary: i t rule: less_induct)
  case less
  obtain n where n: "node_get t i = Some n" "un_parent n = P i" "un_on_path n = F i"
    using less.prems(2) anc_self [of P i] unfolding chain_view_def by blast
  show ?case
  proof (cases "F i")
    case True
    have all: "F x" if "anc P i x" for x
      using that True by (induction rule: anc.induct) (auto intro: up)
    have "link_up i t = Some (i, t)" using n True by (subst link_up.simps) simp
    moreover have "relinked (\<lambda>x b. b \<or> (anc P i x \<and> \<not> F x)) (seglast P F i) t t"
      using all by (intro relinked_id) (auto intro!: seglast_none)
    ultimately show ?thesis using True by (auto intro: anc_self)
  next
    case False
    then obtain p where p: "P i = Some p" using less.prems(1) [OF anc_self] by (cases "P i") auto
    have ip: "anc P i p" using p by (auto intro: anc.intros)
    have ni: "\<not> anc P p i" by (rule anc_no_loop [OF d p])
    then have npi: "p \<noteq> i" by (auto intro: anc_self)
    obtain m where m: "node_get t p = Some m"
      using less.prems(2) ip unfolding chain_view_def by blast
    let ?f = "\<lambda>n. n\<lparr>un_last_child := Some i\<rparr>" and ?g = "\<lambda>n. n\<lparr>un_on_path := True\<rparr>"
    let ?t1 = "modified p ?f t"
    let ?t2 = "modified i ?g ?t1"
    have g1: "node_get ?t1 i = Some n" using n(1) npi by auto
    have step: "link_up i t = link_up p ?t2"
      using n False p node_mod_modified [OF m, of ?f] node_mod_modified [OF g1, of ?g]
      by (subst link_up.simps) simp
    have v2: "chain_view P F p ?t2"
      unfolding chain_view_def
    proof (intro allI impI)
      fix x
      assume x: "anc P p x"
      then have "x \<noteq> i" using ni by auto
      moreover obtain k where "node_get t x = Some k" "un_parent k = P x" "un_on_path k = F x"
        using less.prems(2) x p unfolding chain_view_def by (blast intro: anc.intros)
      ultimately show "\<exists>k. node_get ?t2 x = Some k \<and> un_parent k = P x \<and> un_on_path k = F x"
        by (cases "x = p") auto
    qed
    have "dep p < dep i" using d p by (auto simp: depths_ok_def)
    moreover have "F x" if "anc P p x" "P x = None" for x
      using less.prems(1) that p by (blast intro: anc.intros)
    ultimately obtain f t' where IH: "link_up p ?t2 = Some (f, t')" "anc P p f" "F f"
      "\<forall>c. anc P p c \<longrightarrow> F c \<longrightarrow> anc P f c"
      "relinked (\<lambda>x b. b \<or> (anc P p x \<and> \<not> F x)) (seglast P F p) ?t2 t'"
      using less.hyps [OF _ _ v2] by blast
    have r2: "relinked (\<lambda>x b. b \<or> x = i) (\<lambda>x l. if x = p then Some i else l) t ?t2"
    proof -
      have id: "(k :: 'a undo_node) = k\<lparr>un_on_path := un_on_path k, un_last_child := un_last_child k\<rparr>" for k
        by (cases k) simp
      have "node_get ?t2 x = map_option (\<lambda>n. n\<lparr>un_on_path := un_on_path n \<or> x = i,
          un_last_child := if x = p then Some i else un_last_child n\<rparr>) (node_get t x)" for x
        using n m npi id by (cases "x = i"; cases "x = p") (auto simp: option.map_ident)
      then show ?thesis by (simp add: relinked_def same_frame_def)
    qed
    have none_p: "seglast P F p p old = old" for old
      using anc_no_loop [OF d] by (intro seglast_none) blast
    have "relinked (\<lambda>x b. b \<or> (anc P i x \<and> \<not> F x)) (seglast P F i) t t'"
    proof (rule relinked_comp [OF r2 IH(5)])
      fix x k
      show "(un_on_path k \<or> (anc P i x \<and> \<not> F x)) = ((un_on_path k \<or> x = i) \<or> (anc P p x \<and> \<not> F x))"
        using anc_step [of P i x] p False by (auto intro: anc.intros)
      show "seglast P F i x (un_last_child k) = seglast P F p x (if x = p then Some i else un_last_child k)"
        by (simp add: seglast_up [of P dep i p F, OF d p False] none_p)
    qed
    moreover have "anc P f c" if "anc P i c" "F c" for c
      using anc_step [OF that(1)] that(2) False p IH(4) by auto
    moreover have "anc P i f" using p IH(2) by (rule anc.anc_up)
    ultimately show ?thesis using step IH(1,3) by auto
  qed
qed

lemma unflag_down_spec:
  assumes d: "depths_ok P dep" and a: "anc P l f"
    and v: "\<And>x. anc P l x \<Longrightarrow> \<exists>n. node_get t x = Some n \<and> un_parent n = P x"
  shows "\<exists>t'. unflag_down l f t = Some t' \<and>
    relinked (\<lambda>x b. b \<and> \<not> (anc P l x \<and> \<not> anc P f x)) (\<lambda>x l. l) t t'"
  using v a
proof (induction "dep l" arbitrary: l t rule: less_induct)
  case less
  show ?case
  proof (cases "l = f")
    case True
    then have "unflag_down l f t = Some t" by (subst unflag_down.simps) simp
    moreover have "relinked (\<lambda>x b. b \<and> \<not> (anc P l x \<and> \<not> anc P f x)) (\<lambda>x l. l) t t"
      using True by (intro relinked_id) auto
    ultimately show ?thesis by blast
  next
    case False
    then obtain p where p: "P l = Some p" "anc P p f" using anc_step [OF less.prems(2)] by auto
    obtain n where n: "node_get t l = Some n" "un_parent n = P l" using less.prems(1) [OF anc_self] by blast
    have nl: "\<not> anc P p l" by (rule anc_no_loop [OF d p(1)])
    let ?g = "\<lambda>n. n\<lparr>un_on_path := False\<rparr>"
    let ?t1 = "modified l ?g t"
    have step: "unflag_down l f t = unflag_down p f ?t1"
      using n p False node_mod_modified [OF n(1), of ?g] by (subst unflag_down.simps) simp
    have "\<exists>k. node_get ?t1 x = Some k \<and> un_parent k = P x" if x: "anc P p x" for x
      using less.prems(1) [of x] anc_up [of P l p x] x p nl by auto
    moreover have "dep p < dep l" using d p by (auto simp: depths_ok_def)
    ultimately obtain t' where IH: "unflag_down p f ?t1 = Some t'"
      "relinked (\<lambda>x b. b \<and> \<not> (anc P p x \<and> \<not> anc P f x)) (\<lambda>x l. l) ?t1 t'"
      using less.hyps [OF _ _ p(2)] by blast
    have r1: "relinked (\<lambda>x b. b \<and> x \<noteq> l) (\<lambda>x l. l) t ?t1"
    proof -
      have id: "(k :: 'a undo_node) = k\<lparr>un_on_path := un_on_path k, un_last_child := un_last_child k\<rparr>" for k
        by (cases k) simp
      have id': "(k :: 'a undo_node)\<lparr>un_on_path := b\<rparr> = k\<lparr>un_on_path := b, un_last_child := un_last_child k\<rparr>" for k b
        by (cases k) simp
      have "node_get ?t1 x = map_option (\<lambda>n. n\<lparr>un_on_path := un_on_path n \<and> x \<noteq> l,
          un_last_child := un_last_child n\<rparr>) (node_get t x)" for x
        using n id id' by (cases "x = l") (auto simp: option.map_ident)
      then show ?thesis by (simp add: relinked_def same_frame_def)
    qed
    have lf: "\<not> anc P f l" using False less.prems(2) anc_antisym [OF _ _ d] by blast
    have "relinked (\<lambda>x b. b \<and> \<not> (anc P l x \<and> \<not> anc P f x)) (\<lambda>x l. l) t t'"
    proof (rule relinked_comp [OF r1 IH(2)])
      fix x k
      show "(un_on_path k \<and> \<not> (anc P l x \<and> \<not> anc P f x)) =
          ((un_on_path k \<and> x \<noteq> l) \<and> \<not> (anc P p x \<and> \<not> anc P f x))"
        using anc_step [of P l x] p(1) lf by (auto intro: anc.intros)
    qed simp
    then show ?thesis using step IH(1) by auto
  qed
qed

lemma sim_relinked:
  assumes s: "sim R N F t" and r: "relinked G L t t'"
    and G: "\<And>x n. node_get t x = Some n \<Longrightarrow> G x (F x) = F' x"
    and N': "\<And>x. N' x = map_option (\<lambda>a. a\<lparr>sn_last := L x (sn_last a)\<rparr>) (N x)"
  shows "sim R N' F' t'"
proof -
  note rd = relinkedD [OF r]
  have live: "node_get t' x = None \<longleftrightarrow> node_get t x = None" for x by (simp add: rd(4))
  have "nodes_ok R N' F' (node_get t')"
    unfolding nodes_ok_def
  proof (intro allI conjI impI)
    fix x
    show "node_get t' x = None \<longleftrightarrow> N' x = None"
      using nodes_ok_dead [OF simD(1) [OF s], of x] by (simp add: rd(4) N')
    fix m c
    assume m: "node_get t' x = Some m" and c: "N' x = Some c"
    obtain a where a: "N x = Some a" "c = a\<lparr>sn_last := L x (sn_last a)\<rparr>" using c by (auto simp: N')
    obtain n where n: "node_get t x = Some n" "node_ok R N F x n a" using sim_live [OF s a(1)] .
    have m: "m = n\<lparr>un_on_path := G x (un_on_path n), un_last_child := L x (un_last_child n)\<rparr>"
      using m n(1) rd(4) [of x] by simp
    have up: "\<exists>b'. N' p = Some b' \<and> sn_text b' = sn_text b" if "N p = Some b" for p b
      using that by (simp add: N')
    show "node_ok R N' F' x m c"
    proof (cases "sn_parent a")
      case None
      then show ?thesis using n G [OF n(1)] by (auto simp: node_ok_def m a(2))
    next
      case (Some p)
      obtain d b where d: "un_delta n = Some d" "valid_str (d_new d)" "N p = Some b"
        "delta_links d (sn_text b) (sn_text a)"
        using node_ok_inner(2) [OF n(2) Some] by blast
      then show ?thesis using n G [OF n(1)] Some up [OF d(3)] by (auto simp: node_ok_def m a(2))
    qed
  qed
  moreover have "lists_ok t'"
  proof -
    have c: "cached t' x = cached t x" for x
      by (cases "node_get t x") (simp_all add: cached_def rd(4))
    have k: "kf_depth t' x = kf_depth t x" for x
      by (cases "node_get t x") (simp_all add: kf_depth_def rd(4))
    show ?thesis using simD(2) [OF s] unfolding lists_ok_but_def c k live rd(2,3) .
  qed
  moreover have "index_ok t'"
  proof -
    have "(\<exists>n. node_get t' x = Some n \<and> un_seq n = q) \<longleftrightarrow> (\<exists>n. node_get t x = Some n \<and> un_seq n = q)" for x q
      by (cases "node_get t x") (auto simp: rd(4))
    then show ?thesis using simD(3) [OF s] rd(1) by (simp add: index_ok_def same_frame_def)
  qed
  moreover have "arena_ok t'"
    using simD(4) [OF s] rd(1) live by (simp add: arena_ok_def same_frame_def)
  ultimately show ?thesis by (simp add: sim_def)
qed

lemma retarget_refines:
  assumes r: "refines R t A" and wf: "spec_wf A" and i: "i \<in> dom (st_nodes A)"
  shows "\<exists>t'. retarget_current i t = Some t' \<and> refines R t' (s_retarget i A)"
proof -
  note w = spec_wfD [OF wf]
  let ?P = "spar A" and ?F = "on_chain A" and ?cur = "st_current A"
  have d: "depths_ok ?P (sdep A)" using links_depths [OF w(4)] .
  have s: "sim R (st_nodes A) ?F t" using r by (simp add: refines_sim)
  have view: "\<exists>n. node_get t x = Some n \<and> un_parent n = ?P x \<and> un_on_path n = ?F x"
    if x: "x \<in> dom (st_nodes A)" for x
  proof -
    obtain a where a: "st_nodes A x = Some a" using x by blast
    obtain n where "node_get t x = Some n" "node_ok R (st_nodes A) ?F x n a" using sim_live [OF s a] .
    then show ?thesis using a by (simp add: node_okD spar_Some)
  qed
  have dom: "anc ?P j x \<Longrightarrow> j \<in> dom (st_nodes A) \<Longrightarrow> x \<in> dom (st_nodes A)" for j x
    using anc_dom [OF w(4)] by blast
  have cv: "chain_view ?P ?F i t" using view dom i unfolding chain_view_def by blast
  have up: "?F p" if "?F x" "?P x = Some p" for x p
    using that by (auto simp: on_chain_def intro: anc_parent)
  have root: "?F x" if x: "anc ?P i x" "?P x = None" for x
  proof -
    obtain a where "st_nodes A x = Some a" using dom [OF x(1) i] by blast
    then have "x = st_root A" using x(2) links_no_parent [OF w(4)] by (simp add: spar_Some)
    then show ?thesis using anc_reaches_root [OF w(4,3)] by (simp add: on_chain_def)
  qed
  have "\<exists>f t'. link_up i t = Some (f, t') \<and> anc ?P i f \<and> ?F f \<and>
      (\<forall>c. anc ?P i c \<longrightarrow> ?F c \<longrightarrow> anc ?P f c) \<and>
      relinked (\<lambda>x b. b \<or> (anc ?P i x \<and> \<not> ?F x)) (seglast ?P ?F i) t t'"
    by (rule link_up_spec [OF d]) (fact up root cv)+
  then obtain f t1 where l: "link_up i t = Some (f, t1)" "anc ?P i f" "?F f"
    "\<forall>c. anc ?P i c \<longrightarrow> ?F c \<longrightarrow> anc ?P f c"
    "relinked (\<lambda>x b. b \<or> (anc ?P i x \<and> \<not> ?F x)) (seglast ?P ?F i) t t1"
    by blast
  have "\<exists>n. node_get t1 x = Some n \<and> un_parent n = ?P x" if "anc ?P ?cur x" for x
    using view [OF dom [OF that w(3)]] relinkedD(4) [OF l(5), of x] by auto
  then obtain t2 where u: "unflag_down ?cur f t1 = Some t2"
    "relinked (\<lambda>x b. b \<and> \<not> (anc ?P ?cur x \<and> \<not> anc ?P f x)) (\<lambda>x l. l) t1 t2"
    using unflag_down_spec [OF d, of ?cur f t1] l(3) by (auto simp: on_chain_def)
  have rl: "relinked (\<lambda>x b. (b \<or> (anc ?P i x \<and> \<not> ?F x)) \<and> \<not> (anc ?P ?cur x \<and> \<not> anc ?P f x))
      (\<lambda>x. relast ?P i x) t t2"
  proof (rule relinked_comp [OF l(5) u(2)])
    fix x n
    assume n: "node_get t x = Some n"
    obtain a where a: "st_nodes A x = Some a"
      using n nodes_ok_dead [OF simD(1) [OF s], of x] by (cases "st_nodes A x") auto
    then have nl: "un_last_child n = sn_last a"
      using sim_live [OF s a] n node_okD(3) by (metis option.inject)
    show "relast ?P i x (un_last_child n) = seglast ?P ?F i x (un_last_child n)"
    proof (cases "\<exists>c. anc ?P i c \<and> ?P c = Some x")
      case False
      then show ?thesis by (simp add: relast_none seglast_none)
    next
      case True
      then obtain c where c: "anc ?P i c" "?P c = Some x" by blast
      show ?thesis
      proof (cases "?F c")
        case False
        then show ?thesis using relast_eq [OF d c] seglast_eq [of ?P "sdep A" i c ?F x, OF d c(1) _ c(2)] by simp
      next
        case True
        then have "sn_last a = Some c" using w(6) c(2) a by (auto simp: chain_wf_def snode_simps)
        moreover have "seglast ?P ?F i x old = old" for old
          using True c anc_child_unique [OF d _ c(1) _ c(2)] by (intro seglast_none) blast
        ultimately show ?thesis using relast_eq [OF d c] nl by simp
      qed
    qed
  qed simp
  have flag: "((?F x \<or> (anc ?P i x \<and> \<not> ?F x)) \<and> \<not> (anc ?P ?cur x \<and> \<not> anc ?P f x)) = anc ?P i x" for x
    using l(2,4) by (auto simp: on_chain_def intro: anc_trans)
  let ?A' = "s_retarget i A"
  have "sim R (st_nodes ?A') (on_chain ?A') t2"
  proof (rule sim_relinked [OF s rl])
    show "((?F x \<or> (anc ?P i x \<and> \<not> ?F x)) \<and> \<not> (anc ?P ?cur x \<and> \<not> anc ?P f x)) = on_chain ?A' x" for x
      using flag by (simp add: on_chain_def spar_retarget [OF w(4)])
  qed (rule s_retarget_lookup [OF w(4)])
  then have "refines R (t2\<lparr>ut_current := i\<rparr>) ?A'"
    using r relinkedD(1) [OF rl] by (simp add: refines_sim same_frame_def)
  moreover have "retarget_current i t = Some (t2\<lparr>ut_current := i\<rparr>)"
    using l(1) u(1) r relinkedD(1) [OF l(5)] by (simp add: retarget_current_def refines_sim same_frame_def)
  ultimately show ?thesis by blast
qed

section \<open>The walk by change number\<close>

lemma sorted_takeWhile_filter:
  "sorted_wrt (<) (map fst (m :: (nat \<times> nat) list)) \<Longrightarrow>
    takeWhile (\<lambda>e. fst e < s) m = filter (\<lambda>e. fst e < s) m"
proof (induction m)
  case (Cons e m)
  then show ?case by (cases "fst e < s") (auto intro!: filter_False [symmetric])
qed simp

lemma sorted_dropWhile_filter:
  "sorted_wrt (<) (map fst (m :: (nat \<times> nat) list)) \<Longrightarrow>
    dropWhile (\<lambda>e. fst e \<le> s) m = filter (\<lambda>e. s < fst e) m"
proof (induction m)
  case (Cons e m)
  then show ?case by (cases "fst e \<le> s") (auto intro!: filter_True [symmetric])
qed simp

lemma sorted_last_greatest:
  "sorted_wrt (<) (map fst (m :: (nat \<times> nat) list)) \<Longrightarrow> e \<in> set m \<Longrightarrow> fst e \<le> fst (last m)"
proof (induction m)
  case (Cons x m)
  then show ?case by (cases "m = []") (auto dest: last_in_set intro: less_imp_le)
qed simp

lemma sorted_filter_fst: "sorted_wrt (<) (map fst m) \<Longrightarrow> sorted_wrt (<) (map fst (filter Q m))"
  by (induction m) auto

lemma index_entries:
  assumes "refines R t A"
  shows "(s, i) \<in> set (ut_by_seq t) \<longleftrightarrow> (\<exists>a. st_nodes A i = Some a \<and> sn_seq a = s)"
proof -
  have sm: "sim R (st_nodes A) (on_chain A) t" using assms by (simp add: refines_sim)
  have "(\<exists>n. node_get t i = Some n \<and> un_seq n = s) \<longleftrightarrow> (\<exists>a. st_nodes A i = Some a \<and> sn_seq a = s)"
  proof (cases "st_nodes A i")
    case None
    then show ?thesis using nodes_ok_dead [OF simD(1) [OF sm], of i] by simp
  next
    case (Some a)
    obtain n where "node_get t i = Some n" "node_ok R (st_nodes A) (on_chain A) i n a"
      using sim_live [OF sm Some] .
    then show ?thesis using Some by (simp add: node_okD(8))
  qed
  then show ?thesis using simD(3) [OF sm] by (simp add: index_ok_def)
qed

lemma node_below_spec:
  assumes r: "refines R t A"
  shows "case node_below t s of
      Some i \<Rightarrow> seq_before A s i
    | None \<Rightarrow> \<forall>i a. st_nodes A i = Some a \<longrightarrow> \<not> sn_seq a < s"
proof -
  have sorted: "sorted_wrt (<) (map fst (ut_by_seq t))"
    using r by (simp add: refines_def index_ok_def)
  define m where "m = filter (\<lambda>e. fst e < s) (ut_by_seq t)"
  have nb: "node_below t s = (if m = [] then None else Some (snd (last m)))"
    by (simp add: node_below_def Let_def m_def sorted_takeWhile_filter [OF sorted])
  have mem: "(q, i) \<in> set m \<longleftrightarrow> q < s \<and> (\<exists>a. st_nodes A i = Some a \<and> sn_seq a = q)" for q i
    using index_entries [OF r, of q i] by (auto simp: m_def)
  show ?thesis
  proof (cases "m = []")
    case True
    have "\<not> sn_seq a < s" if "st_nodes A i = Some a" for i a
      using mem [of "sn_seq a" i] True that by auto
    then show ?thesis using True nb by simp
  next
    case False
    obtain q i where e: "last m = (q, i)" by (cases "last m")
    then have "(q, i) \<in> set m" using False last_in_set by metis
    then obtain a where a: "q < s" "st_nodes A i = Some a" "sn_seq a = q" using mem by auto
    have "sn_seq b \<le> q" if b: "st_nodes A j = Some b" "sn_seq b < s" for j b
    proof -
      have "(sn_seq b, j) \<in> set m" using mem b by auto
      moreover have "sorted_wrt (<) (map fst m)" using sorted sorted_filter_fst by (simp add: m_def)
      ultimately show ?thesis using sorted_last_greatest e by fastforce
    qed
    then show ?thesis using False nb e a by (auto simp: seq_before_def)
  qed
qed

lemma node_above_spec:
  assumes r: "refines R t A"
  shows "case node_above t s of
      Some i \<Rightarrow> seq_after A s i
    | None \<Rightarrow> \<forall>i a. st_nodes A i = Some a \<longrightarrow> \<not> s < sn_seq a"
proof -
  have sorted: "sorted_wrt (<) (map fst (ut_by_seq t))"
    using r by (simp add: refines_def index_ok_def)
  define m where "m = filter (\<lambda>e. s < fst e) (ut_by_seq t)"
  have nb: "node_above t s = (case m of [] \<Rightarrow> None | e # _ \<Rightarrow> Some (snd e))"
    by (simp add: node_above_def m_def sorted_dropWhile_filter [OF sorted])
  have mem: "(q, i) \<in> set m \<longleftrightarrow> s < q \<and> (\<exists>a. st_nodes A i = Some a \<and> sn_seq a = q)" for q i
    using index_entries [OF r, of q i] by (auto simp: m_def)
  show ?thesis
  proof (cases m)
    case Nil
    have "\<not> s < sn_seq a" if "st_nodes A i = Some a" for i a
      using mem [of "sn_seq a" i] Nil that by auto
    then show ?thesis using Nil nb by simp
  next
    case (Cons e m')
    obtain q i where e: "e = (q, i)" by (cases e)
    then have "(q, i) \<in> set m" using Cons by simp
    then obtain a where a: "s < q" "st_nodes A i = Some a" "sn_seq a = q" using mem by auto
    have "q \<le> sn_seq b" if b: "st_nodes A j = Some b" "s < sn_seq b" for j b
    proof -
      have "(sn_seq b, j) \<in> set m" using mem b by auto
      moreover have "sorted_wrt (<) (map fst m)" using sorted sorted_filter_fst by (simp add: m_def)
      ultimately show ?thesis using Cons e by (auto intro: less_imp_le)
    qed
    then show ?thesis using Cons nb e a by (auto simp: seq_after_def)
  qed
qed

lemma move_refines:
  assumes R: "rope_laws R" and r: "refines R t A" and wf: "spec_wf A"
    and fits: "live_fits A (rp_text R rope)" and i: "i \<in> dom (st_nodes A)"
  shows "\<exists>t1 e t'. stash_and_move R i rope cursor marks t = Some t1 \<and> entry_of R i t1 = Some (e, t') \<and>
    s_move i (rp_text R rope) cursor marks A =
      (Some (abs_entry R e), snd (s_move i (rp_text R rope) cursor marks A)) \<and>
    refines R t' (snd (s_move i (rp_text R rope) cursor marks A))"
proof -
  let ?cur = "st_current A"
  note w = spec_wfD [OF wf]
  have cur: "ut_current t = ?cur" using r by (simp add: refines_sim)
  obtain a where a: "st_nodes A ?cur = Some a" using w(3) by blast
  obtain n where n: "node_get t ?cur = Some n" "node_ok R (st_nodes A) (on_chain A) ?cur n a"
    using refines_live [OF r a] .
  define B where "B = s_set ?cur (rp_text R rope) cursor (sn_timestamp a) marks A"
  obtain t1 where t1: "set_node_state R ?cur rope cursor (sn_timestamp a) marks t = Some t1" "refines R t1 B"
    using refines_set [OF R r wf fits, of cursor "sn_timestamp a" marks] cur by (auto simp: B_def)
  have wB: "spec_wf B" using spec_wf_set [OF wf w(3)] by (simp add: B_def)
  have iB: "i \<in> dom (st_nodes B)" using i by (simp add: B_def)
  obtain t2 where t2: "retarget_current i t1 = Some t2" "refines R t2 (s_retarget i B)"
    using retarget_refines [OF t1(2) wB iB] by blast
  have wC: "spec_wf (s_retarget i B)" using wB iB by (rule s_retarget_wf)
  have "i \<in> dom (st_nodes (s_retarget i B))"
    using iB by (auto simp: s_retarget_lookup [OF spec_wfD(4) [OF wB]])
  then obtain e t3 where e: "entry_of R i t2 = Some (e, t3)" "refines R t3 (s_retarget i B)"
    "abs_entry R e = s_entry (s_retarget i B) i"
    using refines_entry [OF R t2(2) wC] by blast
  have "stash_and_move R i rope cursor marks t = Some t2"
    using cur n t1(1) t2(1) by (simp add: stash_and_move_def node_okD)
  moreover have "s_move i (rp_text R rope) cursor marks A = (Some (s_entry (s_retarget i B) i), s_retarget i B)"
    using a by (simp add: s_move_def Let_def B_def snode_simps)
  ultimately show ?thesis using e by auto
qed

definition s_earlier ::
  "snap_tree \<Rightarrow> rstring \<Rightarrow> upos \<Rightarrow> mark_snapshot \<Rightarrow> snap_entry option \<Rightarrow> snap_tree \<Rightarrow> bool" where
  "s_earlier A text cursor marks e A' \<longleftrightarrow>
     (\<exists>i. seq_before A (sn_seq (snode A (st_current A))) i \<and> (e, A') = s_move i text cursor marks A) \<or>
     ((\<forall>i a. st_nodes A i = Some a \<longrightarrow> \<not> sn_seq a < sn_seq (snode A (st_current A))) \<and> e = None \<and> A' = A)"

definition s_later ::
  "snap_tree \<Rightarrow> rstring \<Rightarrow> upos \<Rightarrow> mark_snapshot \<Rightarrow> snap_entry option \<Rightarrow> snap_tree \<Rightarrow> bool" where
  "s_later A text cursor marks e A' \<longleftrightarrow>
     (\<exists>i. seq_after A (sn_seq (snode A (st_current A))) i \<and> (e, A') = s_move i text cursor marks A) \<or>
     ((\<forall>i a. st_nodes A i = Some a \<longrightarrow> \<not> sn_seq (snode A (st_current A)) < sn_seq a) \<and> e = None \<and> A' = A)"

lemma current_seq_refines:
  assumes r: "refines R t A" and wf: "spec_wf A"
  shows "current_seq t = Some (sn_seq (snode A (st_current A)))"
proof -
  obtain a where a: "st_nodes A (st_current A) = Some a" using spec_wfD(3) [OF wf] by blast
  obtain n where "node_get t (st_current A) = Some n" "node_ok R (st_nodes A) (on_chain A) (st_current A) n a"
    using refines_live [OF r a] .
  then show ?thesis using a r by (simp add: current_seq_def refines_sim snode_simps node_okD)
qed

lemma earlier_refines:
  assumes R: "rope_laws R" and r: "refines R t A" and wf: "spec_wf A"
    and fits: "live_fits A (rp_text R rope)"
  shows "\<exists>e t' A'. seq_earlier_step R rope cursor marks t = Some (e, t') \<and>
    s_earlier A (rp_text R rope) cursor marks (map_option (abs_entry R) e) A' \<and>
    refines R t' A' \<and> spec_wf A'"
proof -
  let ?s = "sn_seq (snode A (st_current A))"
  note cs = current_seq_refines [OF r wf]
  show ?thesis
  proof (cases "node_below t ?s")
    case None
    then show ?thesis
      using node_below_spec [OF r, of ?s] cs r wf by (auto simp: seq_earlier_step_def s_earlier_def)
  next
    case (Some i)
    then have i: "seq_before A ?s i" using node_below_spec [OF r, of ?s] by simp
    then have d: "i \<in> dom (st_nodes A)" by (auto simp: seq_before_def)
    obtain t1 e t' where m: "stash_and_move R i rope cursor marks t = Some t1"
      "entry_of R i t1 = Some (e, t')"
      "s_move i (rp_text R rope) cursor marks A =
        (Some (abs_entry R e), snd (s_move i (rp_text R rope) cursor marks A))"
      "refines R t' (snd (s_move i (rp_text R rope) cursor marks A))"
      using move_refines [OF R r wf fits d] by blast
    have "seq_earlier_step R rope cursor marks t = Some (Some e, t')"
      using cs Some m(1,2) by (simp add: seq_earlier_step_def)
    moreover have "s_earlier A (rp_text R rope) cursor marks (map_option (abs_entry R) (Some e))
        (snd (s_move i (rp_text R rope) cursor marks A))"
      unfolding s_earlier_def using i m(3) by (metis option.simps(9))
    ultimately show ?thesis using m(4) s_move_wf [OF wf d] by blast
  qed
qed

lemma later_refines:
  assumes R: "rope_laws R" and r: "refines R t A" and wf: "spec_wf A"
    and fits: "live_fits A (rp_text R rope)"
  shows "\<exists>e t' A'. seq_later_step R rope cursor marks t = Some (e, t') \<and>
    s_later A (rp_text R rope) cursor marks (map_option (abs_entry R) e) A' \<and>
    refines R t' A' \<and> spec_wf A'"
proof -
  let ?s = "sn_seq (snode A (st_current A))"
  note cs = current_seq_refines [OF r wf]
  show ?thesis
  proof (cases "node_above t ?s")
    case None
    then show ?thesis
      using node_above_spec [OF r, of ?s] cs r wf by (auto simp: seq_later_step_def s_later_def)
  next
    case (Some i)
    then have i: "seq_after A ?s i" using node_above_spec [OF r, of ?s] by simp
    then have d: "i \<in> dom (st_nodes A)" by (auto simp: seq_after_def)
    obtain t1 e t' where m: "stash_and_move R i rope cursor marks t = Some t1"
      "entry_of R i t1 = Some (e, t')"
      "s_move i (rp_text R rope) cursor marks A =
        (Some (abs_entry R e), snd (s_move i (rp_text R rope) cursor marks A))"
      "refines R t' (snd (s_move i (rp_text R rope) cursor marks A))"
      using move_refines [OF R r wf fits d] by blast
    have "seq_later_step R rope cursor marks t = Some (Some e, t')"
      using cs Some m(1,2) by (simp add: seq_later_step_def)
    moreover have "s_later A (rp_text R rope) cursor marks (map_option (abs_entry R) (Some e))
        (snd (s_move i (rp_text R rope) cursor marks A))"
      unfolding s_later_def using i m(3) by (metis option.simps(9))
    ultimately show ?thesis using m(4) s_move_wf [OF wf d] by blast
  qed
qed

end
