(* ===== verification/UndoDrop.thy ===== *)
theory UndoDrop
  imports UndoSim
begin

text \<open>
  The operations of the undo tree that drop states: popping a boundary, detaching a
  leaf, freeing whole subtrees, promoting a child of the root, the node budget and the
  two clears.  Each implements its abstract counterpart.
\<close>

section \<open>Freeing a leaf\<close>

lemma sim_seq_unique:
  assumes s: "sim R N F t" and q: "seqs_wf N nx" and n: "node_get t i = Some n"
  shows "\<forall>j m. node_get t j = Some m \<longrightarrow> un_seq m = un_seq n \<longrightarrow> j = i"
proof (intro allI impI)
  fix j m
  assume m: "node_get t j = Some m" and eq: "un_seq m = un_seq n"
  obtain a b where a: "N i = Some a" "N j = Some b"
    using n m nodes_ok_dead [OF simD(1) [OF s]] by (metis not_None_eq)
  then have "un_seq n = sn_seq a" "un_seq m = sn_seq b"
    using nodes_ok_live [OF simD(1) [OF s]] n m node_okD(8) by (metis option.inject)+
  then show "j = i" using q a eq unfolding seqs_wf_def by metis
qed

lemma free_sim:
  assumes s: "sim R N F t" and q: "seqs_wf N nx" and i: "N i = Some a"
    and nokid: "\<forall>j c. N j = Some c \<longrightarrow> j \<noteq> i \<longrightarrow> sn_parent c \<noteq> Some i"
  shows "\<exists>t'. free_node i t = Some t' \<and> sim R (N(i := None)) F t' \<and> ut_root t' = ut_root t \<and>
    ut_current t' = ut_current t \<and> ut_next_seq t' = ut_next_seq t"
proof -
  obtain n where n: "node_get t i = Some n" using sim_live [OF s i] .
  obtain t' where t': "free_node i t = Some t'" "node_get t' = (node_get t)(i := None)" "arena_ok t'"
    "index_ok t'" "lists_ok t'" "ut_root t' = ut_root t" "ut_current t' = ut_current t"
    "ut_next_seq t' = ut_next_seq t"
    using free_node_spec [OF simD(4,3,2) [OF s] n sim_seq_unique [OF s q n]] by blast
  have "nodes_ok R (N(i := None)) F (node_get t')"
    unfolding nodes_ok_def
  proof (intro allI conjI impI)
    fix j
    show "node_get t' j = None \<longleftrightarrow> (N(i := None)) j = None"
      using nodes_ok_dead [OF simD(1) [OF s], of j] by (simp add: t'(2))
    fix m c
    assume m: "node_get t' j = Some m" and c: "(N(i := None)) j = Some c"
    then have mc: "node_get t j = Some m" "N j = Some c" "j \<noteq> i" by (auto simp: t'(2) split: if_splits)
    then have "node_ok R N F j m c" using nodes_ok_live [OF simD(1) [OF s] mc(2)] by auto
    then show "node_ok R (N(i := None)) F j m c"
      using nokid mc(2,3) by (auto simp: node_ok_def split: option.splits)
  qed
  then show ?thesis using t' by (simp add: sim_def)
qed

text \<open>Unlinking a leaf from its parent, with any new redo direction, and freeing it.\<close>

lemma cut_refines:
  assumes s: "sim R (st_nodes A) F t" and wf: "spec_wf A"
    and leaf: "st_nodes A leaf = Some a" "sn_children a = []"
    and p: "sn_parent a = Some p" "st_nodes A p = Some b" and n: "node_get t p = Some n"
    and f: "f n = n\<lparr>un_children := filter (\<lambda>x. x \<noteq> leaf) (sn_children b), un_last_child := l\<rparr>"
  shows "\<exists>t'. free_node leaf (modified p f t) = Some t' \<and>
    sim R (st_nodes (s_cut p leaf l A)) F t' \<and> ut_root t' = ut_root t \<and>
    ut_current t' = ut_current t \<and> ut_next_seq t' = ut_next_seq t"
proof -
  note w = spec_wfD [OF wf]
  let ?N = "st_nodes A"
  define b' where "b' = b\<lparr>sn_children := filter (\<lambda>x. x \<noteq> leaf) (sn_children b), sn_last := l\<rparr>"
  have np: "p \<noteq> leaf" using links_parent(1) [OF w(4) leaf(1) p(1)] leaf(1) by auto
  have pp: "sn_parent b = Some q \<Longrightarrow> q \<noteq> p" for q
    using links_parent(1) [OF w(4) p(2)] p(2) by fastforce
  have ok: "node_ok R ?N F p n b" using nodes_ok_live [OF simD(1) [OF s] p(2)] n by auto
  have s1: "sim R (?N(p \<mapsto> b')) F (modified p f t)"
  proof (rule sim_modified [OF s p(2) n])
    show "node_ok R (?N(p \<mapsto> b')) F p (f n) b'"
      using ok pp unfolding f b'_def node_ok_def by (auto split: option.splits)
  qed (simp_all add: f b'_def)
  have q1: "seqs_wf (?N(p \<mapsto> b')) (st_next_seq A)"
    using w(5) p(2) by (rule seqs_wf_upd) (simp add: b'_def)
  have l1: "(?N(p \<mapsto> b')) leaf = Some a" using leaf np by simp
  have nk: "sn_parent c \<noteq> Some leaf" if "(?N(p \<mapsto> b')) j = Some c" "j \<noteq> leaf" for j c
  proof -
    have "\<exists>c'. ?N j = Some c' \<and> sn_parent c' = sn_parent c"
      using that p(2) by (cases "j = p") (auto simp: b'_def)
    then show ?thesis using no_child_parent [OF w(4) leaf] by metis
  qed
  then have "\<forall>j c. (?N(p \<mapsto> b')) j = Some c \<longrightarrow> j \<noteq> leaf \<longrightarrow> sn_parent c \<noteq> Some leaf" by blast
  from free_sim [OF s1 q1 l1 this]
  obtain t' where t': "free_node leaf (modified p f t) = Some t'"
    "sim R ((?N(p \<mapsto> b'))(leaf := None)) F t'" "ut_root t' = ut_root (modified p f t)"
    "ut_current t' = ut_current (modified p f t)" "ut_next_seq t' = ut_next_seq (modified p f t)"
    by blast
  have "(?N(p \<mapsto> b'))(leaf := None) = st_nodes (s_cut p leaf l A)"
    using p(2) np by (auto simp: s_cut_lookup b'_def fun_eq_iff)
  then show ?thesis using t' by simp
qed

lemma free_node_current:
  "free_node i (x\<lparr>ut_current := c\<rparr>) = map_option (\<lambda>y. y\<lparr>ut_current := c\<rparr>) (free_node i x)"
  by (cases "i < length (ut_nodes x)"; cases "ut_nodes x ! i") (simp_all add: free_node_def)

lemma free_node_next_seq:
  "free_node i (x\<lparr>ut_next_seq := k\<rparr>) = map_option (\<lambda>y. y\<lparr>ut_next_seq := k\<rparr>) (free_node i x)"
  by (cases "i < length (ut_nodes x)"; cases "ut_nodes x ! i") (simp_all add: free_node_def)

lemma s_pop_cut:
  assumes "st_nodes A (st_current A) = Some a" and "sn_children a = []" and "sn_parent a = Some p"
    and "st_nodes A p = Some b" and "p \<noteq> st_current A"
  shows "s_pop A = (True, (s_cut p (st_current A) (last_opt (filter (\<lambda>x. x \<noteq> st_current A) (sn_children b))) A)
    \<lparr>st_current := p, st_next_seq := (if sn_seq a + 1 = st_next_seq A then st_next_seq A - 1
       else st_next_seq A)\<rparr>)"
  using assms
  by (simp add: s_pop_def snode_simps Let_def s_cut_def s_unlink_def s_upd_def s_delete_def fun_upd_def
      cong: if_cong)

lemma pop_refines:
  assumes r: "refines R t A" and wf: "spec_wf A"
  shows "\<exists>t'. pop_committed t = Some (fst (s_pop A), t') \<and> refines R t' (snd (s_pop A))"
proof -
  let ?cur = "st_current A"
  note w = spec_wfD [OF wf]
  have s: "sim R (st_nodes A) (on_chain A) t" and cur: "ut_current t = ?cur"
    and nx: "ut_next_seq t = st_next_seq A" and rt: "ut_root t = st_root A"
    using r by (simp_all add: refines_sim)
  obtain a where a: "st_nodes A ?cur = Some a" using w(3) by blast
  obtain n where n: "node_get t ?cur = Some n" "node_ok R (st_nodes A) (on_chain A) ?cur n a"
    using sim_live [OF s a] .
  show ?thesis
  proof (cases "sn_children a = [] \<and> sn_parent a \<noteq> None")
    case False
    then show ?thesis
      using n a cur r by (auto simp: pop_committed_def s_pop_def snode_simps Let_def node_okD)
  next
    case True
    then obtain p where p: "sn_parent a = Some p" by auto
    obtain b where b: "st_nodes A p = Some b" using links_parent(1) [OF w(4) a p] by blast
    have np: "p \<noteq> ?cur" using links_parent(1) [OF w(4) a p] a by auto
    have par: "spar A ?cur = Some p" using a p by (simp add: spar_Some)
    obtain m where m: "node_get t p = Some m" "node_ok R (st_nodes A) (on_chain A) p m b"
      using sim_live [OF s b] .
    define l where "l = last_opt (filter (\<lambda>x. x \<noteq> ?cur) (sn_children b))"
    define nxt where "nxt = (if sn_seq a + 1 = st_next_seq A then st_next_seq A - 1 else st_next_seq A)"
    define C where "C = (s_cut p ?cur l A)\<lparr>st_current := p, st_next_seq := nxt\<rparr>"
    have C: "s_pop A = (True, C)"
      unfolding C_def l_def nxt_def using True by (intro s_pop_cut [OF a _ p b np]) simp
    let ?f1 = "\<lambda>p. p\<lparr>un_children := filter (\<lambda>c. c \<noteq> ?cur) (un_children p)\<rparr>"
    let ?f2 = "\<lambda>p. p\<lparr>un_last_child := last_opt (un_children p)\<rparr>"
    let ?g = "\<lambda>n. n\<lparr>un_on_path := False\<rparr>"
    let ?F = "\<lambda>j. j \<noteq> ?cur \<and> on_chain A j"
    \<comment> \<open>the flag of the popped leaf may be cleared first\<close>
    have swap: "modified ?cur ?g (modified p ?f2 (modified p ?f1 t)) =
        modified p (?f2 \<circ> ?f1) (modified ?cur ?g t)"
    proof -
      have "modified p ?f2 (modified p ?f1 t) = modified p (?f2 \<circ> ?f1) t"
        using m(1) by (rule modified_modified)
      moreover have "modified ?cur ?g (modified p h t) = modified p h (modified ?cur ?g t)" for h
        using np node_get_length [OF m(1)] node_get_length [OF n(1)]
        by (simp add: modified_def node_get_def list_update_swap)
      ultimately show ?thesis by simp
    qed
    have s1: "sim R ((st_nodes A)(?cur \<mapsto> a)) ?F (modified ?cur ?g t)"
    proof (rule sim_modified [OF s a n(1)])
      show "node_ok R ((st_nodes A)(?cur \<mapsto> a)) ?F ?cur (?g n) a"
        using n(2) a by (auto simp: node_ok_def fun_upd_idem split: option.splits)
    qed simp_all
    then have s1: "sim R (st_nodes A) ?F (modified ?cur ?g t)" using a by (simp add: fun_upd_idem)
    have m1: "node_get (modified ?cur ?g t) p = Some m" using m(1) np by simp
    obtain t' where t': "free_node ?cur (modified p (?f2 \<circ> ?f1) (modified ?cur ?g t)) = Some t'"
      "sim R (st_nodes (s_cut p ?cur l A)) ?F t'" "ut_root t' = ut_root t" "ut_current t' = ut_current t"
      "ut_next_seq t' = ut_next_seq t"
      using cut_refines [OF s1 wf a _ p b m1, of "?f2 \<circ> ?f1" l] True node_okD(2) [OF m(2)]
      by (auto simp: l_def)
    let ?u = "modified ?cur ?g (modified p ?f2 (modified p ?f1 t))"
    define v where "v = (if sn_seq a + 1 = st_next_seq A
      then (?u\<lparr>ut_current := p\<rparr>)\<lparr>ut_next_seq := st_next_seq A - 1\<rparr> else ?u\<lparr>ut_current := p\<rparr>)"
    have fv: "free_node ?cur v = Some (t'\<lparr>ut_current := p, ut_next_seq := nxt\<rparr>)"
      using t'(1) nx t'(5) unfolding v_def swap
      by (cases t') (auto simp: free_node_current free_node_next_seq nxt_def simp del: o_apply)
    have gcur: "node_get ?u ?cur = Some (?g n)" using n(1) np by simp
    have "pop_committed t = Some (True, t'\<lparr>ut_current := p, ut_next_seq := nxt\<rparr>)"
    proof -
      have k: "node_mod p ?f1 t = Some (modified p ?f1 t)"
        "node_mod p ?f2 (modified p ?f1 t) = Some (modified p ?f2 (modified p ?f1 t))"
        "node_mod ?cur ?g (modified p ?f2 (modified p ?f1 t)) = Some ?u"
        using m(1) n(1) np by (simp_all add: node_mod_modified)
      have sq: "un_seq (?g n) = sn_seq a" using node_okD(8) [OF n(2)] by simp
      have nu: "ut_next_seq (?u\<lparr>ut_current := p\<rparr>) = st_next_seq A" by (simp add: nx)
      show ?thesis
        unfolding pop_committed_def Let_def cur
        using n True p node_okD(1,2) [OF n(2)] k gcur fv
        by (simp add: sq nx v_def split: if_splits)
    qed
    moreover have "refines R (t'\<lparr>ut_current := p, ut_next_seq := nxt\<rparr>) C"
    proof -
      have d: "depths_ok (spar A) (sdep A)" using links_depths [OF w(4)] .
      have sp: "spar C = (\<lambda>i. if i = ?cur then None else spar A i)"
        by (auto simp: C_def spar_def fun_eq_iff s_cut_lookup b)
      have "anc (spar C) p j \<longleftrightarrow> anc (spar A) p j" for j
      proof
        assume "anc (spar C) p j"
        then show "anc (spar A) p j" by (rule anc_mono) (simp add: sp split: if_splits)
      next
        assume j: "anc (spar A) p j"
        show "anc (spar C) p j"
          using anc_no_loop [OF d par] by (intro anc_cong_above [OF j]) (auto simp: sp)
      qed
      then have "on_chain C j \<longleftrightarrow> ?F j" for j
        using par anc_step [of "spar A" ?cur j] anc_no_loop [OF d par]
        by (auto simp: on_chain_def C_def intro: anc.intros)
      then have "on_chain C = ?F" by blast
      then show ?thesis
        using t'(2,3) rt by (simp add: refines_sim) (simp add: C_def)
    qed
    ultimately show ?thesis using C by simp
  qed
qed

lemma detach_refines:
  assumes r: "refines R t A" and wf: "spec_wf A"
    and leaf: "st_nodes A leaf = Some a" "sn_children a = []" and off: "\<not> on_chain A leaf"
  shows "\<exists>t'. detach_leaf leaf t = Some t' \<and> refines R t' (s_detach leaf A)"
proof -
  note w = spec_wfD [OF wf]
  have s: "sim R (st_nodes A) (on_chain A) t" using r by (simp add: refines_sim)
  have "leaf \<noteq> st_root A"
    using off anc_reaches_root [OF w(4)] w(3) by (auto simp: on_chain_def)
  then obtain p where p: "sn_parent a = Some p"
    using links_no_parent [OF w(4) leaf(1)] by (cases "sn_parent a") auto
  obtain b where b: "st_nodes A p = Some b" using links_parent(1) [OF w(4) leaf(1) p] by blast
  obtain n where n: "node_get t leaf = Some n" "node_ok R (st_nodes A) (on_chain A) leaf n a"
    using sim_live [OF s leaf(1)] .
  obtain m where m: "node_get t p = Some m" "node_ok R (st_nodes A) (on_chain A) p m b"
    using sim_live [OF s b] .
  define l where "l = (if sn_last b = Some leaf
    then last_opt (filter (\<lambda>x. x \<noteq> leaf) (sn_children b)) else sn_last b)"
  have eq: "s_detach leaf A = s_cut p leaf l A" unfolding l_def by (rule s_detach_cut [OF leaf(1) p b])
  let ?f = "\<lambda>p. let p = p\<lparr>un_children := filter (\<lambda>c. c \<noteq> leaf) (un_children p)\<rparr>
     in if un_last_child p = Some leaf then p\<lparr>un_last_child := last_opt (un_children p)\<rparr> else p"
  have f: "?f m = m\<lparr>un_children := filter (\<lambda>x. x \<noteq> leaf) (sn_children b), un_last_child := l\<rparr>"
    using node_okD(2,3) [OF m(2)] by (cases m) (simp add: l_def)
  obtain t' where t': "free_node leaf (modified p ?f t) = Some t'"
    "sim R (st_nodes (s_cut p leaf l A)) (on_chain A) t'" "ut_root t' = ut_root t"
    "ut_current t' = ut_current t" "ut_next_seq t' = ut_next_seq t"
    using cut_refines [OF s wf leaf p b m(1), of ?f l] f by blast
  have "detach_leaf leaf t = Some t'"
    using n(1) node_okD(1) [OF n(2)] p node_mod_modified [OF m(1), of ?f] t'(1)
    by (simp add: detach_leaf_def)
  moreover have "on_chain (s_cut p leaf l A) = on_chain A"
  proof
    fix j
    let ?Q = "spar (s_cut p leaf l A)"
    show "on_chain (s_cut p leaf l A) j = on_chain A j"
      unfolding on_chain_def s_cut_heads
    proof
      assume "anc ?Q (st_current A) j"
      then show "anc (spar A) (st_current A) j" by (rule anc_mono) (simp add: spar_cut split: if_splits)
    next
      assume j: "anc (spar A) (st_current A) j"
      show "anc ?Q (st_current A) j"
        using off by (intro anc_cong_above [OF j]) (auto simp: spar_cut on_chain_def)
    qed
  qed
  ultimately show ?thesis using t' r unfolding eq by (simp add: refines_sim)
qed

section \<open>Freeing subtrees\<close>

text \<open>The nodes reached from a set along the child lists \<open>K\<close>.\<close>

inductive_set desc :: "(nat \<Rightarrow> nat list) \<Rightarrow> nat set \<Rightarrow> nat set" for K S where
  desc_base: "s \<in> S \<Longrightarrow> s \<in> desc K S"
| desc_step: "x \<in> desc K S \<Longrightarrow> c \<in> set (K x) \<Longrightarrow> c \<in> desc K S"

lemma desc_mono: "x \<in> desc K S \<Longrightarrow> S \<subseteq> desc K S' \<Longrightarrow> x \<in> desc K S'"
  by (induction rule: desc.induct) (auto intro: desc.intros)

lemma desc_Un: "desc K (S \<union> S') = desc K S \<union> desc K S'"
proof (intro set_eqI iffI)
  fix x
  assume "x \<in> desc K (S \<union> S')"
  then show "x \<in> desc K S \<union> desc K S'" by (induction rule: desc.induct) (auto intro: desc.intros)
next
  fix x
  assume "x \<in> desc K S \<union> desc K S'"
  then show "x \<in> desc K (S \<union> S')" by (auto elim!: desc_mono intro: desc.intros)
qed

lemma desc_empty [simp]: "desc K {} = {}"
proof -
  have "x \<notin> desc K {}" for x
  proof
    assume "x \<in> desc K {}"
    then show False by (induction rule: desc.induct) auto
  qed
  then show ?thesis by blast
qed

lemma desc_unfold: "desc K {s} = insert s (desc K (set (K s)))"
proof (intro set_eqI iffI)
  fix x
  assume "x \<in> desc K {s}"
  then show "x \<in> insert s (desc K (set (K s)))"
    by (induction rule: desc.induct) (auto intro: desc.intros)
next
  fix x
  assume "x \<in> insert s (desc K (set (K s)))"
  then show "x \<in> desc K {s}"
    by (auto elim!: desc_mono intro: desc.intros)
qed

text \<open>The tops \<open>S\<close> of disjoint trees: nobody below lists them, and a node is listed once.\<close>

definition tops :: "(nat \<Rightarrow> nat list) \<Rightarrow> nat set \<Rightarrow> bool" where
  "tops K S \<longleftrightarrow>
     (\<forall>x \<in> desc K S. distinct (K x) \<and> (\<forall>s \<in> S. s \<notin> set (K x))) \<and>
     (\<forall>x \<in> desc K S. \<forall>y \<in> desc K S. \<forall>c. c \<in> set (K x) \<longrightarrow> c \<in> set (K y) \<longrightarrow> x = y)"

lemma tops_sub: "tops K S \<Longrightarrow> S' \<subseteq> S \<Longrightarrow> tops K S'"
proof -
  assume t: "tops K S" and s: "S' \<subseteq> S"
  then have "desc K S' \<subseteq> desc K S" by (auto elim!: desc_mono intro: desc.intros)
  with t s show ?thesis unfolding tops_def by (meson subsetD)
qed

lemma tops_disjoint:
  assumes "tops K (insert s S)" and "s \<notin> S"
  shows "desc K {s} \<inter> desc K S = {}"
proof -
  have un: "desc K (insert s S) = desc K {s} \<union> desc K S" using desc_Un [of K "{s}" S] by simp
  have "x \<notin> desc K S" if "x \<in> desc K {s}" for x
    using that
  proof (induction rule: desc.induct)
    case (desc_base x)
    show ?case
    proof
      assume "x \<in> desc K S"
      then show False
      proof (cases rule: desc.cases)
        case desc_base
        then show ?thesis using assms(2) \<open>x \<in> {s}\<close> by auto
      next
        case (desc_step y)
        then show ?thesis using assms(1) \<open>x \<in> {s}\<close> un unfolding tops_def by blast
      qed
    qed
  next
    case (desc_step x c)
    show ?case
    proof
      assume "c \<in> desc K S"
      then show False
      proof (cases rule: desc.cases)
        case desc_base
        then show ?thesis using assms(1) desc_step.hyps un unfolding tops_def by blast
      next
        case (desc_step y)
        then have "x = y" using assms(1) desc_step.hyps \<open>c \<in> set (K x)\<close> \<open>x \<in> desc K {s}\<close> un
          unfolding tops_def by blast
        then show ?thesis using desc_step \<open>x \<notin> desc K S\<close> by simp
      qed
    qed
  qed
  then show ?thesis by blast
qed

lemma tops_children:
  assumes t: "tops K S" and s: "s \<in> S"
  shows "tops K (S - {s} \<union> set (K s))" and "s \<notin> desc K (S - {s} \<union> set (K s))"
    and "desc K S = insert s (desc K (S - {s} \<union> set (K s)))" and "set (K s) \<inter> S = {}"
proof -
  let ?S = "S - {s} \<union> set (K s)"
  have sd: "s \<in> desc K S" using s by (rule desc_base)
  have d: "desc K S = insert s (desc K ?S)"
  proof -
    have "S = (S - {s}) \<union> {s}" using s by auto
    then have "desc K S = desc K (S - {s}) \<union> desc K {s}" using desc_Un by metis
    then show ?thesis by (simp add: desc_Un desc_unfold [of K s])
  qed
  then show "desc K S = insert s (desc K ?S)" .
  have no: "s \<notin> set (K x)" if "x \<in> desc K S" for x using t s that unfolding tops_def by blast
  have sub: "x \<in> desc K S" if "x \<in> desc K ?S" for x using d that by blast
  show ns: "s \<notin> desc K ?S"
  proof
    assume "s \<in> desc K ?S"
    then show False
      by (cases rule: desc.cases) (use no sd sub in auto)
  qed
  show "set (K s) \<inter> S = {}" using t sd unfolding tops_def by blast
  have "x \<notin> set (K y)" if x: "x \<in> ?S" and y: "y \<in> desc K ?S" for x y
  proof (cases "x \<in> S - {s}")
    case True
    then show ?thesis using t sub [OF y] unfolding tops_def by blast
  next
    case False
    then have "x \<in> set (K s)" using x by blast
    then show ?thesis using t sub [OF y] sd ns y unfolding tops_def by blast
  qed
  then show "tops K ?S" using t sub unfolding tops_def by blast
qed

lemma free_loop_spec:
  assumes fin: "finite (desc K (set stack))" and tops: "tops K (set stack)" and dist: "distinct stack"
    and live: "\<forall>x \<in> desc K (set stack). \<exists>n. node_get t x = Some n \<and> un_children n = K x"
    and ok: "arena_ok t" "index_ok t" "lists_ok t"
    and uniq: "\<forall>i j n m. node_get t i = Some n \<longrightarrow> node_get t j = Some m \<longrightarrow> un_seq n = un_seq m \<longrightarrow> i = j"
  shows "\<exists>t'. free_loop stack t = Some t' \<and>
    node_get t' = (\<lambda>x. if x \<in> desc K (set stack) then None else node_get t x) \<and>
    arena_ok t' \<and> index_ok t' \<and> lists_ok t' \<and> ut_root t' = ut_root t \<and>
    ut_current t' = ut_current t \<and> ut_next_seq t' = ut_next_seq t"
  using assms
proof (induction "card (desc K (set stack))" arbitrary: stack t rule: less_induct)
  case less
  show ?case
  proof (cases "stack = []")
    case True
    then show ?thesis using less.prems by (simp add: free_loop.simps)
  next
    case False
    define s where "s = last stack"
    define stack' where "stack' = butlast stack @ K s"
    have split: "stack = butlast stack @ [s]" using False by (simp add: s_def)
    have s: "s \<in> set stack" using False by (simp add: s_def)
    have sb: "s \<notin> set (butlast stack)" "set stack - {s} = set (butlast stack)"
    proof -
      have "distinct (butlast stack @ [s])" "set stack = set (butlast stack @ [s])"
        using less.prems(3) split by metis+
      then show "s \<notin> set (butlast stack)" "set stack - {s} = set (butlast stack)" by auto
    qed
    note tc = tops_children [OF less.prems(2) s]
    have set': "set stack - {s} \<union> set (K s) = set stack'" using sb by (simp add: stack'_def)
    obtain n where n: "node_get t s = Some n" "un_children n = K s"
      using less.prems(4) s by (auto intro: desc_base)
    let ?g = "\<lambda>n. n\<lparr>un_children := []\<rparr>"
    let ?t1 = "modified s ?g t"
    have g1: "node_get ?t1 s = Some (?g n)" using n by simp
    have u1: "\<forall>j m. node_get ?t1 j = Some m \<longrightarrow> un_seq m = un_seq (?g n) \<longrightarrow> j = s"
    proof (intro allI impI)
      fix j m
      assume m: "node_get ?t1 j = Some m" "un_seq m = un_seq (?g n)"
      then have "\<exists>m'. node_get t j = Some m' \<and> un_seq m' = un_seq n" using n by (auto split: if_splits)
      then show "j = s" using less.prems(8) n(1) by metis
    qed
    have l1: "lists_ok ?t1" using less.prems(7) by (rule lists_modified) simp_all
    obtain t2 where t2: "free_node s ?t1 = Some t2" "node_get t2 = (node_get ?t1)(s := None)"
      "arena_ok t2" "index_ok t2" "lists_ok t2" "ut_root t2 = ut_root t" "ut_current t2 = ut_current t"
      "ut_next_seq t2 = ut_next_seq t"
      using free_node_spec [OF arena_modified [OF less.prems(5)] index_modified [OF less.prems(6)] l1 g1 u1]
      by auto
    have g2: "node_get t2 x = (if x = s then None else node_get t x)" for x by (simp add: t2(2))
    have step: "free_loop stack t = free_loop stack' t2"
      using False n node_mod_modified [OF n(1), of ?g] t2(1)
      by (subst free_loop.simps) (simp add: s_def stack'_def)
    have d: "desc K (set stack) = insert s (desc K (set stack'))" "s \<notin> desc K (set stack')"
      using tc(2,3) set' by simp_all
    have fin': "finite (desc K (set stack'))" using less.prems(1) d(1) by simp
    then have card: "card (desc K (set stack')) < card (desc K (set stack))" using d by simp
    have dk: "distinct (K s)" using less.prems(2) s unfolding tops_def by (blast intro: desc_base)
    have "distinct (butlast stack @ [s])" using less.prems(3) split by metis
    then have dist': "distinct stack'"
      using dk tc(4) sb(2) by (auto simp: stack'_def)
    have "\<forall>x \<in> desc K (set stack'). \<exists>n. node_get t2 x = Some n \<and> un_children n = K x"
      using less.prems(4) d g2 by auto
    moreover have "\<forall>i j n m. node_get t2 i = Some n \<longrightarrow> node_get t2 j = Some m \<longrightarrow>
        un_seq n = un_seq m \<longrightarrow> i = j"
      using less.prems(8) by (auto simp: g2)
    moreover have "tops K (set stack')" using tc(1) set' by simp
    ultimately obtain t' where "free_loop stack' t2 = Some t'"
      "node_get t' = (\<lambda>x. if x \<in> desc K (set stack') then None else node_get t2 x)"
      "arena_ok t'" "index_ok t'" "lists_ok t'" "ut_root t' = ut_root t2"
      "ut_current t' = ut_current t2" "ut_next_seq t' = ut_next_seq t2"
      using less.hyps [OF card fin' _ dist' _ t2(3,4,5)] by blast
    then show ?thesis using step d t2 by (auto simp: g2 fun_eq_iff)
  qed
qed

lemma free_subtrees_spec:
  assumes "finite (desc K (set cs))" and "tops K (set cs)" and "distinct cs"
    and "\<forall>x \<in> desc K (set cs). \<exists>n. node_get t x = Some n \<and> un_children n = K x"
    and "arena_ok t" "index_ok t" "lists_ok t"
    and "\<forall>i j n m. node_get t i = Some n \<longrightarrow> node_get t j = Some m \<longrightarrow> un_seq n = un_seq m \<longrightarrow> i = j"
  shows "\<exists>t'. free_subtrees cs t = Some t' \<and>
    node_get t' = (\<lambda>x. if x \<in> desc K (set cs) then None else node_get t x) \<and>
    arena_ok t' \<and> index_ok t' \<and> lists_ok t' \<and> ut_root t' = ut_root t \<and>
    ut_current t' = ut_current t \<and> ut_next_seq t' = ut_next_seq t"
  using assms
proof (induction cs arbitrary: t)
  case Nil
  then show ?case by simp
next
  case (Cons c cs)
  have un: "desc K (set (c # cs)) = desc K {c} \<union> desc K (set cs)"
    using desc_Un [of K "{c}" "set cs"] by simp
  have dj: "desc K {c} \<inter> desc K (set cs) = {}"
    using Cons.prems(2,3) by (intro tops_disjoint) auto
  have "\<exists>t1. free_loop [c] t = Some t1 \<and>
      node_get t1 = (\<lambda>x. if x \<in> desc K (set [c]) then None else node_get t x) \<and>
      arena_ok t1 \<and> index_ok t1 \<and> lists_ok t1 \<and> ut_root t1 = ut_root t \<and>
      ut_current t1 = ut_current t \<and> ut_next_seq t1 = ut_next_seq t"
    using Cons.prems un by (intro free_loop_spec) (auto elim: tops_sub)
  then obtain t1 where t1: "free_loop [c] t = Some t1"
    "node_get t1 = (\<lambda>x. if x \<in> desc K {c} then None else node_get t x)"
    "arena_ok t1" "index_ok t1" "lists_ok t1" "ut_root t1 = ut_root t"
    "ut_current t1 = ut_current t" "ut_next_seq t1 = ut_next_seq t"
    by auto
  have "\<exists>t'. free_subtrees cs t1 = Some t' \<and>
      node_get t' = (\<lambda>x. if x \<in> desc K (set cs) then None else node_get t1 x) \<and>
      arena_ok t' \<and> index_ok t' \<and> lists_ok t' \<and> ut_root t' = ut_root t1 \<and>
      ut_current t' = ut_current t1 \<and> ut_next_seq t' = ut_next_seq t1"
  proof (rule Cons.IH [OF _ _ _ _ t1(3,4,5)])
    show "finite (desc K (set cs))" using Cons.prems(1) un by simp
    show "tops K (set cs)" using Cons.prems(2) by (rule tops_sub) auto
    show "distinct cs" using Cons.prems(3) by simp
    show "\<forall>x \<in> desc K (set cs). \<exists>n. node_get t1 x = Some n \<and> un_children n = K x"
      using Cons.prems(4) un dj t1(2) by auto
    show "\<forall>i j n m. node_get t1 i = Some n \<longrightarrow> node_get t1 j = Some m \<longrightarrow> un_seq n = un_seq m \<longrightarrow> i = j"
      using Cons.prems(8) t1(2) by auto
  qed
  then show ?case using t1 un by (auto simp: free_subtree_def fun_eq_iff)
qed

end
