(* ===== verification/UndoClear.thy ===== *)
theory UndoClear
  imports UndoDrop
begin

text \<open>
  The operations of the undo tree that drop whole subtrees: promoting a child of the root,
  the node budget (\<open>cap\<close>) and the two clears, each against its abstract counterpart; a new
  tree and the synchronisation of the live text.
\<close>

section \<open>Subtrees of the abstract tree\<close>

definition skids :: "snap_tree \<Rightarrow> nat \<Rightarrow> nat list" where
  "skids A i = (case st_nodes A i of Some a \<Rightarrow> sn_children a | None \<Rightarrow> [])"

lemma skids_simps: "st_nodes A i = Some a \<Longrightarrow> skids A i = sn_children a"
  by (simp add: skids_def)

lemma skids_iff:
  assumes "links_wf (st_nodes A) root"
  shows "c \<in> set (skids A i) \<longleftrightarrow> spar A c = Some i"
proof
  assume c: "c \<in> set (skids A i)"
  then obtain a where "st_nodes A i = Some a" by (cases "st_nodes A i") (simp_all add: skids_def)
  then show "spar A c = Some i" using c links_child_spar [OF assms] by (simp add: skids_def)
next
  assume "spar A c = Some i"
  then obtain a where "st_nodes A c = Some a" "sn_parent a = Some i"
    by (auto simp: spar_def bind_eq_Some_conv)
  then show "c \<in> set (skids A i)" using links_parent(1) [OF assms] by (fastforce simp: skids_def)
qed

lemma desc_below:
  assumes w: "links_wf (st_nodes A) root" and S: "S \<subseteq> dom (st_nodes A)"
  shows "desc (skids A) S = (\<Union>s \<in> S. below A s)"
proof (intro set_eqI iffI)
  fix x
  assume "x \<in> desc (skids A) S"
  then show "x \<in> (\<Union>s \<in> S. below A s)"
  proof (induction rule: desc.induct)
    case (desc_base s)
    then show ?case using S by (auto simp: below_def intro: anc_self)
  next
    case (desc_step x c)
    then obtain s where s: "s \<in> S" "x \<in> below A s" by blast
    have "spar A c = Some x" using desc_step.hyps(2) skids_iff [OF w] by blast
    then have "c \<in> below A s" using s(2) by (auto simp: below_def intro: anc.intros dest: spar_dom)
    then show ?case using s(1) by blast
  qed
next
  fix x
  assume "x \<in> (\<Union>s \<in> S. below A s)"
  then obtain s where s: "s \<in> S" "anc (spar A) x s" by (auto simp: below_def)
  from s(2) s(1) show "x \<in> desc (skids A) S"
  proof (induction rule: anc.induct)
    case (anc_self i)
    then show ?case by (rule desc_base)
  next
    case (anc_up i p j)
    then have "p \<in> desc (skids A) S" by simp
    moreover have "i \<in> set (skids A p)" using anc_up.hyps(1) skids_iff [OF w] by simp
    ultimately show ?case by (rule desc_step)
  qed
qed

lemma siblings_tops:
  assumes w: "links_wf (st_nodes A) root" and S: "\<And>s. s \<in> S \<Longrightarrow> spar A s = Some q"
  shows "tops (skids A) S"
proof -
  have d: "depths_ok (spar A) (sdep A)" using w by (rule links_depths)
  have dom: "S \<subseteq> dom (st_nodes A)" using S spar_dom by blast
  note D = desc_below [OF w dom]
  have kids: "distinct (skids A x)" for x
    using links_children_distinct [OF w] by (auto simp: skids_def split: option.splits)
  have no: "s \<notin> set (skids A x)" if x: "x \<in> desc (skids A) S" and s: "s \<in> S" for x s
  proof
    assume "s \<in> set (skids A x)"
    then have "q = x" using skids_iff [OF w] S [OF s] by simp
    then obtain s' where "s' \<in> S" "anc (spar A) q s'" using x D by (auto simp: below_def)
    then show False using anc_no_loop [OF d S] by blast
  qed
  have uni: "x = y" if "c \<in> set (skids A x)" and "c \<in> set (skids A y)" for x y c
    using that skids_iff [OF w] by simp
  show ?thesis using kids no uni unfolding tops_def by blast
qed

lemma sim_seqs_inj:
  assumes s: "sim R N F t" and q: "seqs_wf N nx"
  shows "\<forall>i j n m. node_get t i = Some n \<longrightarrow> node_get t j = Some m \<longrightarrow> un_seq n = un_seq m \<longrightarrow> i = j"
proof (intro allI impI)
  fix i j n m
  assume "node_get t i = Some n" "node_get t j = Some m" "un_seq n = un_seq m"
  then show "i = j" using sim_seq_unique [OF s q, of i n] by simp
qed

text \<open>Dropping a set of nodes that is closed under children keeps the correspondence.\<close>

lemma sim_restrict:
  assumes s: "sim R N F t" and g: "node_get t' = (\<lambda>x. if x \<in> D then None else node_get t x)"
    and ok: "arena_ok t'" "index_ok t'" "lists_ok t'"
    and closed: "\<And>i a p. N i = Some a \<Longrightarrow> i \<notin> D \<Longrightarrow> sn_parent a = Some p \<Longrightarrow> p \<notin> D"
  shows "sim R (N |` (- D)) F t'"
proof -
  have "nodes_ok R (N |` (- D)) F (node_get t')"
    unfolding nodes_ok_def
  proof (intro allI conjI impI)
    fix j
    show "node_get t' j = None \<longleftrightarrow> (N |` (- D)) j = None"
      using nodes_ok_dead [OF simD(1) [OF s], of j] by (simp add: g restrict_map_def)
    fix m c
    assume "node_get t' j = Some m" and "(N |` (- D)) j = Some c"
    then have mc: "node_get t j = Some m" "N j = Some c" "j \<notin> D"
      by (auto simp: g restrict_map_def split: if_splits)
    then have "node_ok R N F j m c" using nodes_ok_live [OF simD(1) [OF s] mc(2)] by auto
    then show "node_ok R (N |` (- D)) F j m c"
      using closed [OF mc(2,3)] by (auto simp: node_ok_def restrict_map_def split: option.splits)
  qed
  then show ?thesis using ok by (simp add: sim_def)
qed

lemma sim_flags:
  assumes "sim R N F t" and "\<And>i a. N i = Some a \<Longrightarrow> F' i = F i"
  shows "sim R N F' t"
proof -
  have "node_ok R N F' i n a" if "node_ok R N F i n a" "N i = Some a" for i n a
    using that assms(2) [OF that(2)] by (simp add: node_ok_def)
  then have "nodes_ok R N F' (node_get t)"
    using simD(1) [OF assms(1)] unfolding nodes_ok_def by blast
  then show ?thesis using assms(1) by (simp add: sim_def)
qed

lemma below_up_closed:
  assumes "st_nodes A i = Some a" and "i \<notin> below A s" and "sn_parent a = Some p"
  shows "p \<notin> below A s"
  using assms by (auto simp: below_def spar_def intro: anc_up)

lemma free_siblings:
  assumes w: "links_wf (st_nodes A) root" and q: "seqs_wf (st_nodes A) nx" and s: "sim R N F t"
    and fin: "finite (dom (st_nodes A))"
    and same: "\<And>x a. x \<in> (\<Union>c \<in> set cs. below A c) \<Longrightarrow> st_nodes A x = Some a \<Longrightarrow>
      \<exists>b. N x = Some b \<and> sn_children b = sn_children a"
    and seqs: "seqs_wf N nx"
    and ups: "\<And>i a p. N i = Some a \<Longrightarrow> sn_parent a = Some p \<Longrightarrow> spar A i = Some p"
    and cs: "distinct cs" "\<And>c. c \<in> set cs \<Longrightarrow> spar A c = Some r"
  shows "\<exists>t'. free_subtrees cs t = Some t' \<and>
    sim R (N |` (- (\<Union>c \<in> set cs. below A c))) F t' \<and> ut_root t' = ut_root t \<and>
    ut_current t' = ut_current t \<and> ut_next_seq t' = ut_next_seq t"
proof -
  let ?D = "\<Union>c \<in> set cs. below A c"
  have dom: "set cs \<subseteq> dom (st_nodes A)" using cs(2) spar_dom by blast
  note D = desc_below [OF w dom]
  have fd: "finite (desc (skids A) (set cs))"
    unfolding D using fin by (rule finite_subset [rotated]) (auto simp: below_def)
  have live: "\<forall>x \<in> desc (skids A) (set cs). \<exists>n. node_get t x = Some n \<and> un_children n = skids A x"
  proof
    fix x
    assume "x \<in> desc (skids A) (set cs)"
    then have x: "x \<in> ?D" using D by simp
    then obtain a where a: "st_nodes A x = Some a" by (auto simp: below_def)
    obtain b where b: "N x = Some b" "sn_children b = sn_children a" using same [OF x a] by blast
    obtain n where "node_get t x = Some n" "node_ok R N F x n b" using sim_live [OF s b(1)] .
    then show "\<exists>n. node_get t x = Some n \<and> un_children n = skids A x"
      using b(2) by (auto simp: node_okD(2) skids_simps [OF a])
  qed
  have tops: "tops (skids A) (set cs)" by (rule siblings_tops [OF w]) (rule cs(2))
  from free_subtrees_spec [OF fd tops cs(1) live simD(4,3,2) [OF s] sim_seqs_inj [OF s seqs]]
  obtain t' where t': "free_subtrees cs t = Some t'"
    "node_get t' = (\<lambda>x. if x \<in> ?D then None else node_get t x)"
    "arena_ok t'" "index_ok t'" "lists_ok t'" "ut_root t' = ut_root t"
    "ut_current t' = ut_current t" "ut_next_seq t' = ut_next_seq t"
    unfolding D by (elim exE conjE)
  have closed: "p \<notin> ?D" if i: "N i = Some a" "i \<notin> ?D" "sn_parent a = Some p" for i a p
  proof -
    have "spar A i = Some p" using ups i by blast
    then show ?thesis using i(2) spar_dom by (auto simp: below_def intro: anc_up)
  qed
  have "sim R (N |` (- ?D)) F t'" by (rule sim_restrict [OF s t'(2,3,4,5)]) (rule closed)
  then show ?thesis using t'(1,6,7,8) by blast
qed

section \<open>Clearing the redo side\<close>

lemma below_split:
  assumes w: "links_wf (st_nodes A) root" and a: "st_nodes A i = Some a"
  shows "(\<Union>c \<in> set (sn_children a). below A c) = below A i - {i}"
proof (intro set_eqI iffI)
  have d: "depths_ok (spar A) (sdep A)" using w by (rule links_depths)
  fix x
  {
    assume "x \<in> (\<Union>c \<in> set (sn_children a). below A c)"
    then obtain c where c: "c \<in> set (sn_children a)" "x \<in> below A c" by blast
    have p: "spar A c = Some i" using links_child_spar [OF w a c(1)] .
    show "x \<in> below A i - {i}"
      using c(2) p anc_no_loop [OF d p] by (auto simp: below_def intro: anc_parent)
  next
    assume x: "x \<in> below A i - {i}"
    then obtain c where c: "anc (spar A) x c" "spar A c = Some i"
      using anc_child by (fastforce simp: below_def)
    then have "c \<in> set (sn_children a)" using skids_iff [OF w, of c i] by (simp add: skids_simps [OF a])
    then show "x \<in> (\<Union>c \<in> set (sn_children a). below A c)" using c x by (auto simp: below_def)
  }
qed

lemma clear_redo_refines:
  assumes r: "refines R t A" and wf: "spec_wf A"
  shows "\<exists>t'. clear_redo t = Some t' \<and> refines R t' (s_clear_redo A)"
proof -
  let ?cur = "st_current A"
  note w = spec_wfD [OF wf]
  have s: "sim R (st_nodes A) (on_chain A) t" and cur: "ut_current t = ?cur"
    and nx: "ut_next_seq t = st_next_seq A" and rt: "ut_root t = st_root A"
    using r by (simp_all add: refines_sim)
  obtain a where a: "st_nodes A ?cur = Some a" using w(3) by blast
  obtain n where n: "node_get t ?cur = Some n" "node_ok R (st_nodes A) (on_chain A) ?cur n a"
    using sim_live [OF s a] .
  let ?f1 = "\<lambda>n. n\<lparr>un_children := []\<rparr>" and ?f2 = "\<lambda>n. n\<lparr>un_last_child := None\<rparr>"
  let ?a = "a\<lparr>sn_children := [], sn_last := None\<rparr>"
  let ?N = "(st_nodes A)(?cur \<mapsto> ?a)"
  let ?t2 = "modified ?cur (?f2 \<circ> ?f1) t"
  have mods: "node_mod ?cur ?f1 t = Some (modified ?cur ?f1 t)"
    "node_mod ?cur ?f2 (modified ?cur ?f1 t) = Some ?t2"
    using n(1) modified_modified [OF n(1), of ?f2 ?f1] by (simp_all add: node_mod_modified)
  have d: "depths_ok (spar A) (sdep A)" using w(4) by (rule links_depths)
  have np: "sn_parent a \<noteq> Some ?cur"
    using anc_no_loop [OF d, of ?cur ?cur] by (auto simp: spar_Some [OF a] intro: anc_self)
  have s2: "sim R ?N (on_chain A) ?t2"
  proof (rule sim_modified [OF s a n(1)])
    show "node_ok R ?N (on_chain A) ?cur ((?f2 \<circ> ?f1) n) ?a"
      using n(2) np by (auto simp: node_ok_def split: option.splits)
  qed simp_all
  have q2: "seqs_wf ?N (st_next_seq A)" using w(5) a by (rule seqs_wf_upd) simp
  let ?D = "\<Union>c \<in> set (sn_children a). below A c"
  have D: "?D = below A ?cur - {?cur}" using below_split [OF w(4) a] .
  have "\<exists>t'. free_subtrees (sn_children a) ?t2 = Some t' \<and> sim R (?N |` (- ?D)) (on_chain A) t' \<and>
      ut_root t' = ut_root ?t2 \<and> ut_current t' = ut_current ?t2 \<and> ut_next_seq t' = ut_next_seq ?t2"
  proof (rule free_siblings [OF w(4,5) s2 w(1) _ q2 _ links_children_distinct [OF w(4) a]])
    show "\<exists>b. ?N x = Some b \<and> sn_children b = sn_children a'" if "x \<in> ?D" "st_nodes A x = Some a'"
      for x a' using that D by auto
    show "spar A i = Some p" if "?N i = Some b" "sn_parent b = Some p" for i b p
      using that a by (auto simp: spar_def split: if_splits)
    show "spar A c = Some ?cur" if "c \<in> set (sn_children a)" for c
      using links_child_spar [OF w(4) a that] .
  qed
  then obtain t' where t': "free_subtrees (sn_children a) ?t2 = Some t'"
    "sim R (?N |` (- ?D)) (on_chain A) t'" "ut_root t' = ut_root t" "ut_current t' = ut_current t"
    "ut_next_seq t' = ut_next_seq t" by auto
  have N': "?N |` (- ?D) = st_nodes (s_clear_redo A)"
    using w(3) a D by (auto simp: fun_eq_iff restrict_map_def s_clear_redo_lookup option.map_ident)
  have c: "on_chain (s_clear_redo A) j = on_chain A j" for j
  proof -
    have sp: "spar (s_clear_redo A) k = Some p \<Longrightarrow> spar A k = Some p" for k p
      using w(3) by (auto simp: spar_def s_clear_redo_lookup bind_eq_Some_conv split: if_splits)
    have up: "spar (s_clear_redo A) k = spar A k" if "anc (spar A) ?cur k" for k
    proof (cases "k = ?cur")
      case False
      then have "k \<notin> below A ?cur" using that anc_antisym [OF that _ d] by (auto simp: below_def)
      then show ?thesis using w(3) False by (simp add: spar_def s_clear_redo_lookup option.map_ident)
    qed (use w(3) a in \<open>simp add: spar_def s_clear_redo_lookup\<close>)
    show ?thesis
    proof
      assume "on_chain (s_clear_redo A) j"
      then show "on_chain A j" unfolding on_chain_def s_clear_redo_heads by (rule anc_mono) (rule sp)
    next
      assume j: "on_chain A j"
      then have "anc (spar (s_clear_redo A)) ?cur j"
        unfolding on_chain_def by (rule anc_cong_above) (rule up)
      then show "on_chain (s_clear_redo A) j" by (simp add: on_chain_def)
    qed
  qed
  have "on_chain (s_clear_redo A) = on_chain A" using c by blast
  then have "refines R t' (s_clear_redo A)"
    using t' cur nx rt N' by (simp add: refines_sim)
  moreover have "clear_redo t = Some t'"
    using n(1) node_okD(2) [OF n(2)] mods t'(1) by (simp add: clear_redo_def cur)
  ultimately show ?thesis by blast
qed

section \<open>Clearing everything\<close>

lemma single_sim:
  assumes "node_get t = [i \<mapsto> n]" and "node_ok R [i \<mapsto> a] F i n a" and "un_rope_cache n = None"
    and "ut_warm t = []" "ut_keyframes t = []" and "ut_by_seq t = [(un_seq n, i)]" and "arena_ok t"
  shows "sim R [i \<mapsto> a] F t"
  using assms
  by (simp add: sim_def nodes_ok_def lists_ok_but_def cached_def kf_depth_def index_ok_def WARM_CAP_def
      KEYFRAME_CAP_def) auto

lemma clear_all_refines:
  assumes R: "rope_laws R" and r: "refines R t A" and wf: "spec_wf A"
  shows "\<exists>t'. clear_all R t = Some t' \<and> refines R t' (s_clear_all A)"
proof -
  let ?cur = "st_current A"
  note w = spec_wfD [OF wf]
  have s: "sim R (st_nodes A) (on_chain A) t" and cur: "ut_current t = ?cur"
    and nx: "ut_next_seq t = st_next_seq A" and rt: "ut_root t = st_root A"
    using r by (simp_all add: refines_sim)
  obtain a where a: "st_nodes A ?cur = Some a" using w(3) by blast
  have "ups_wf (st_nodes A) (ut_root t)" using w(4) rt by (simp add: links_ups)
  from materialize_spec [OF R this s a]
  obtain base t1 where t1: "materialize R ?cur t = Some (base, t1)" "sim R (st_nodes A) (on_chain A) t1"
    "same_frame t t1" "rp_text R base = sn_text a" by blast
  obtain n where n: "node_get t1 ?cur = Some n" "node_ok R (st_nodes A) (on_chain A) ?cur n a"
    using sim_live [OF t1(2) a] .
  note lt = node_get_length [OF n(1)]
  let ?len = "length (ut_nodes t1)"
  let ?dead = "filter (\<lambda>i. i \<noteq> ?cur \<and> ut_nodes t1 ! i \<noteq> None) [0 ..< ?len]"
  define t2 where "t2 = t1\<lparr>ut_nodes := map (\<lambda>i. if i = ?cur then ut_nodes t1 ! i else None) [0 ..< ?len],
    ut_free := ut_free t1 @ ?dead, ut_warm := [], ut_keyframes := []\<rparr>"
  have g2: "node_get t2 = [?cur \<mapsto> n]"
    using n(1) lt by (auto simp: t2_def node_get_def fun_eq_iff)
  have len2: "length (ut_nodes t2) = ?len" by (simp add: t2_def)
  have ar: "distinct (ut_free t1)" "\<And>i. i \<in> set (ut_free t1) \<longleftrightarrow> i < ?len \<and> node_get t1 i = None"
    using simD(4) [OF t1(2)] by (auto simp: arena_ok_def)
  have a2: "arena_ok t2"
    unfolding arena_ok_def
  proof (intro conjI allI)
    have "i \<notin> set ?dead" if "i \<in> set (ut_free t1)" for i
      using that ar(2) [of i] by (simp add: node_get_def split: if_splits)
    then have "set (ut_free t1) \<inter> set ?dead = {}" by blast
    then show "distinct (ut_free t2)" using ar(1) by (simp add: t2_def)
    fix i
    show "i \<in> set (ut_free t2) \<longleftrightarrow> i < length (ut_nodes t2) \<and> node_get t2 i = None"
      unfolding len2 g2 using ar(2) [of i] n(1)
      by (cases "ut_nodes t1 ! i") (auto simp: t2_def node_get_def split: if_splits)
  qed
  define f where "f = (\<lambda>n. n\<lparr>un_parent := None, un_children := [], un_last_child := None,
       un_delta := None, un_base := Some base, un_rope_cache := None, un_depth := 0,
       un_on_path := True\<rparr> :: 'a undo_node)"
  define t3 where "t3 = t2\<lparr>ut_by_seq := [(un_seq n, ?cur)]\<rparr>"
  have g3: "node_get t3 = [?cur \<mapsto> n]" by (simp add: t3_def g2)
  define t4 where "t4 = (modified ?cur f t3)\<lparr>ut_root := ?cur\<rparr>"
  have g4: "node_get t4 = [?cur \<mapsto> f n]" using g3 by (auto simp: t4_def fun_eq_iff)
  let ?a = "a\<lparr>sn_parent := None, sn_children := [], sn_last := None, sn_depth := 0\<rparr>"
  have N: "st_nodes (s_clear_all A) = [?cur \<mapsto> ?a]" using a by (auto simp: s_clear_all_lookup fun_eq_iff)
  have heads: "st_current (s_clear_all A) = ?cur" "st_root (s_clear_all A) = ?cur"
    "st_next_seq (s_clear_all A) = st_next_seq A" by (simp_all add: s_clear_all_def s_delete_def)
  have "on_chain (s_clear_all A) ?cur" by (simp add: on_chain_def heads anc_self)
  then have ok: "node_ok R [?cur \<mapsto> ?a] (on_chain (s_clear_all A)) ?cur (f n) ?a"
    using n(2) t1(4) by (auto simp: node_ok_def f_def)
  have "arena_ok t3" using a2 by (simp add: t3_def arena_ok_def)
  then have "arena_ok (modified ?cur f t3)" by (rule arena_modified)
  then have "arena_ok t4" by (simp add: t4_def arena_ok_def)
  with ok have "sim R [?cur \<mapsto> ?a] (on_chain (s_clear_all A)) t4"
    by (intro single_sim [OF g4]) (simp_all add: f_def t4_def t3_def t2_def)
  moreover have "clear_all R t = do { n \<leftarrow> node_get t2 ?cur;
      t \<leftarrow> node_mod ?cur f (t2\<lparr>ut_by_seq := [(un_seq n, ?cur)]\<rparr>); Some (t\<lparr>ut_root := ?cur\<rparr>) }"
    using t1(1) by (simp add: clear_all_def Let_def cur t2_def f_def)
  then have "clear_all R t = Some t4"
    using g3 node_mod_modified [of t3 ?cur n f] by (simp add: g2 t3_def [symmetric] t4_def)
  ultimately show ?thesis
    using N heads same_frame_heads [OF t1(3)] cur nx
    by (simp add: refines_sim) (simp add: t4_def t3_def t2_def)
qed

section \<open>Promoting a child of the root\<close>

lemma find_on_path_spec:
  assumes "\<And>c. c \<in> set cs \<Longrightarrow> \<exists>n. node_get t c = Some n \<and> un_on_path n = F c"
  shows "find_on_path t cs = Some (find F cs)"
  using assms
proof (induction cs)
  case (Cons c cs)
  from Cons.prems [of c] obtain n where "node_get t c = Some n" "un_on_path n = F c" by auto
  then show ?case using Cons by (cases "F c") simp_all
qed simp

lemma lists_forget:
  assumes "lists_ok_but t {i}" and "\<not> cached t i"
  shows "lists_ok (t\<lparr>ut_warm := filter (\<lambda>n. n \<noteq> i) (ut_warm t),
    ut_keyframes := filter (\<lambda>n. n \<noteq> i) (ut_keyframes t)\<rparr>)"
proof -
  let ?t = "t\<lparr>ut_warm := filter (\<lambda>n. n \<noteq> i) (ut_warm t),
    ut_keyframes := filter (\<lambda>n. n \<noteq> i) (ut_keyframes t)\<rparr>"
  note ld = lists_okD [OF assms(1)]
  have same: "cached ?t = cached t" "kf_depth ?t = kf_depth t"
    by (simp_all add: cached_def kf_depth_def fun_eq_iff)
  have len: "length (filter P xs) \<le> k" if "length xs \<le> k" for P k and xs :: "nat list"
    using that length_filter_le [of P xs] by linarith
  have mem: "j \<in> set (ut_warm ?t) \<longleftrightarrow> cached t j \<and> \<not> kf_depth t j"
    "j \<in> set (ut_keyframes ?t) \<longleftrightarrow> cached t j \<and> kf_depth t j" for j
    using ld(5,6) [of j] assms(2) by (cases "j = i"; simp)+
  show ?thesis
    unfolding lists_ok_but_def same mem
    using ld(1,2,7,8) len [OF ld(3)] len [OF ld(4)] by auto
qed

lemma anc_avoid:
  assumes "anc P i j" and "anc P j c" and d: "depths_ok P dep" and "P c = Some q"
    and Q: "\<And>k p. P k = Some p \<Longrightarrow> anc P k c \<Longrightarrow> k \<noteq> c \<Longrightarrow> Q k = Some p"
  shows "anc Q i j"
  using assms(1,2)
proof (induction rule: anc.induct)
  case (anc_up i p j)
  have pc: "anc P p c" using anc_trans [OF anc_up.hyps(2) anc_up.prems] .
  have "anc P i c" using anc_up.hyps(1) pc by (rule anc.anc_up)
  moreover have "i \<noteq> c" using anc_no_loop [OF d anc_up.hyps(1)] pc by auto
  ultimately have "Q i = Some p" by (rule Q [OF anc_up.hyps(1)])
  then show ?case using anc_up.IH [OF anc_up.prems] by (rule anc.anc_up)
qed (rule anc_self)

lemma s_prune_on_chain:
  assumes wf: "spec_wf A" and c: "spar A child = Some q" and j: "j \<in> below A child"
  shows "on_chain (s_prune child A) j = on_chain A j"
proof -
  note w = spec_wfD [OF wf]
  have d: "depths_ok (spar A) (sdep A)" using w(4) by (rule links_depths)
  let ?Q = "spar (s_prune child A)"
  have sp: "?Q k = Some p \<Longrightarrow> spar A k = Some p" for k p
    by (auto simp: spar_def s_prune_lookup bind_eq_Some_conv split: if_splits)
  have up: "?Q k = Some p" if "spar A k = Some p" "anc (spar A) k child" "k \<noteq> child" for k p
    using that spar_dom [OF that(1)] by (auto simp: spar_def s_prune_lookup below_def)
  show ?thesis
    unfolding on_chain_def s_prune_heads
  proof
    assume "anc ?Q (st_current A) j"
    then show "anc (spar A) (st_current A) j" by (rule anc_mono) (rule sp)
  next
    assume i: "anc (spar A) (st_current A) j"
    have "anc (spar A) j child" using j by (simp add: below_def)
    show "anc ?Q (st_current A) j"
      using i \<open>anc (spar A) j child\<close> d c by (rule anc_avoid) (rule up)
  qed
qed

text \<open>The nodes that promoting \<open>child\<close> drops: the root and the subtrees of its other
  children.\<close>

lemma prune_parts:
  assumes wf: "spec_wf A" and c: "spar A child = Some (st_root A)"
    and ra: "st_nodes A (st_root A) = Some ra"
  shows "dom (st_nodes A) - (\<Union>x \<in> set (filter (\<lambda>x. x \<noteq> child) (sn_children ra)). below A x) =
      insert (st_root A) (below A child)" and "st_root A \<notin> below A child"
proof -
  note w = spec_wfD [OF wf]
  have d: "depths_ok (spar A) (sdep A)" using w(4) by (rule links_depths)
  have kids: "x \<in> set (sn_children ra) \<longleftrightarrow> spar A x = Some (st_root A)" for x
    using skids_iff [OF w(4)] by (simp add: skids_simps [OF ra, symmetric])
  have one: "x = y" if "j \<in> below A x" "j \<in> below A y" "spar A x = Some (st_root A)"
    "spar A y = Some (st_root A)" for x y j
    using anc_child_unique [OF d, of j x y] that by (auto simp: below_def)
  have top: "st_root A \<notin> below A x" if "spar A x = Some (st_root A)" for x
    using anc_no_loop [OF d that] by (auto simp: below_def)
  show "st_root A \<notin> below A child" using top [OF c] .
  show "dom (st_nodes A) - (\<Union>x \<in> set (filter (\<lambda>x. x \<noteq> child) (sn_children ra)). below A x) =
      insert (st_root A) (below A child)" (is "?L = ?R")
  proof (intro set_eqI iffI)
    fix j
    assume j: "j \<in> ?L"
    show "j \<in> ?R"
    proof (cases "j = st_root A")
      case False
      have "anc (spar A) j (st_root A)" using anc_reaches_root [OF w(4)] j by blast
      from anc_child [OF this False] obtain x where x: "anc (spar A) j x" "spar A x = Some (st_root A)"
        by blast
      then have "j \<in> below A x" using j by (simp add: below_def)
      then show ?thesis using j kids x(2) by (cases "x = child") auto
    qed simp
  next
    fix j
    assume j: "j \<in> ?R"
    have "j \<notin> below A x" if "x \<in> set (sn_children ra)" "x \<noteq> child" for x
    proof (cases "j = st_root A")
      case True
      then show ?thesis using top that(1) kids by blast
    next
      case False
      then show ?thesis using j one [of j x child] that kids c by auto
    qed
    moreover have "j \<in> dom (st_nodes A)" using j w(2) by (auto simp: below_def)
    ultimately show "j \<in> ?L" by auto
  qed
qed

lemma prune_refines:
  assumes R: "rope_laws R" and r: "refines R t A" and wf: "spec_wf A" and ne: "st_root A \<noteq> st_current A"
  shows "\<exists>child t'. prune_root_side R t = Some (True, t') \<and> on_chain A child \<and>
    spar A child = Some (st_root A) \<and> refines R t' (s_prune child A)"
proof -
  let ?root = "st_root A"
  note w = spec_wfD [OF wf]
  have s: "sim R (st_nodes A) (on_chain A) t" and cur: "ut_current t = st_current A"
    and nx: "ut_next_seq t = st_next_seq A" and rt: "ut_root t = ?root"
    using r by (simp_all add: refines_sim)
  have d: "depths_ok (spar A) (sdep A)" using w(4) by (rule links_depths)
  obtain ra where ra: "st_nodes A ?root = Some ra" using w(2) by blast
  obtain rn where rn: "node_get t ?root = Some rn" "node_ok R (st_nodes A) (on_chain A) ?root rn ra"
    using sim_live [OF s ra] .
  have kids: "x \<in> set (sn_children ra) \<longleftrightarrow> spar A x = Some ?root" for x
    using skids_iff [OF w(4)] by (simp add: skids_simps [OF ra, symmetric])
  \<comment> \<open>the child on the chain\<close>
  have "anc (spar A) (st_current A) ?root" using anc_reaches_root [OF w(4,3)] .
  from anc_child [OF this] ne obtain child where
    child: "on_chain A child" "spar A child = Some ?root" by (auto simp: on_chain_def)
  obtain ca where ca: "st_nodes A child = Some ca" using spar_dom [OF child(2)] by blast
  have cp: "sn_parent ca = Some ?root" using child(2) by (simp add: spar_Some [OF ca])
  have uniq: "x = child" if "x \<in> set (sn_children ra)" "on_chain A x" for x
    using anc_child_unique [OF d] that kids child by (auto simp: on_chain_def)
  have "find_on_path t (un_children rn) = Some (find (on_chain A) (sn_children ra))"
    unfolding node_okD(2) [OF rn(2)]
  proof (rule find_on_path_spec)
    fix c
    assume "c \<in> set (sn_children ra)"
    then obtain a where "st_nodes A c = Some a" using kids spar_dom by blast
    with sim_live [OF s this] show "\<exists>n. node_get t c = Some n \<and> un_on_path n = on_chain A c"
      using node_okD(9) by metis
  qed
  moreover have "find (on_chain A) (sn_children ra) = Some child"
  proof (cases "find (on_chain A) (sn_children ra)")
    case None
    then show ?thesis using child kids by (auto simp: find_None_iff)
  next
    case (Some x)
    then have "x \<in> set (sn_children ra)" "on_chain A x" by (auto simp: find_Some_iff)
    then show ?thesis using uniq Some by simp
  qed
  ultimately have found: "find_on_path t (un_children rn) = Some (Some child)" by simp
  \<comment> \<open>the other subtrees\<close>
  let ?cs = "filter (\<lambda>c. c \<noteq> child) (sn_children ra)"
  let ?D = "\<Union>c \<in> set ?cs. below A c"
  note parts = prune_parts [OF wf child(2) ra]
  have "\<exists>t1. free_subtrees ?cs t = Some t1 \<and> sim R (st_nodes A |` (- ?D)) (on_chain A) t1 \<and>
      ut_root t1 = ut_root t \<and> ut_current t1 = ut_current t \<and> ut_next_seq t1 = ut_next_seq t"
    using links_children_distinct [OF w(4) ra] kids
    by (intro free_siblings [OF w(4,5) s w(1) _ w(5)]) (auto simp: spar_Some)
  then obtain t1 where t1: "free_subtrees ?cs t = Some t1" "sim R (st_nodes A |` (- ?D)) (on_chain A) t1"
    "ut_root t1 = ?root" "ut_current t1 = st_current A" "ut_next_seq t1 = st_next_seq A"
    using rt cur nx by auto
  define N1 where "N1 = st_nodes A |` (insert ?root (below A child))"
  have N1: "st_nodes A |` (- ?D) = N1"
  proof
    fix x
    show "(st_nodes A |` (- ?D)) x = N1 x"
      using parts(1) by (cases "st_nodes A x") (auto simp: N1_def restrict_map_def)
  qed
  note s1 = t1(2) [unfolded N1]
  have in1: "child \<in> below A child" using ca by (auto simp: below_def intro: anc_self)
  have c1: "N1 child = Some ca" using ca in1 by (simp add: N1_def)
  have up: "p \<in> insert ?root (below A child)" if "x \<in> below A child" "st_nodes A x = Some a" "sn_parent a = Some p"
    for x a p
  proof (cases "x = child")
    case True
    then show ?thesis using that ca cp by simp
  next
    case False
    have "spar A x = Some p" using that(2,3) by (simp add: spar_Some)
    then have "anc (spar A) p child" using that(1) False anc_step [of "spar A" x child]
      by (auto simp: below_def)
    moreover have "p \<in> dom (st_nodes A)" using links_parent(1) [OF w(4) that(2,3)] by blast
    ultimately show ?thesis by (simp add: below_def)
  qed
  have ups: "ups_wf N1 (ut_root t1)"
    unfolding ups_wf_def t1(3)
  proof (intro allI impI)
    fix i a p
    assume "N1 i = Some a" and p: "sn_parent a = Some p"
    then have i: "st_nodes A i = Some a" "i \<in> insert ?root (below A child)"
      by (auto simp: N1_def restrict_map_def split: if_splits)
    have "i \<noteq> ?root" using links_parent(2) [OF w(4) i(1) p] .
    moreover obtain b where "st_nodes A p = Some b" "sn_depth a = Suc (sn_depth b)"
      using links_parent(1) [OF w(4) i(1) p] by blast
    ultimately show "i \<noteq> ?root \<and> (\<exists>b. N1 p = Some b \<and> sn_depth a = Suc (sn_depth b))"
      using up [of i a p] i p by (auto simp: N1_def restrict_map_def)
  qed
  from materialize_spec [OF R ups s1 c1]
  obtain base t2 where t2: "materialize R child t1 = Some (base, t2)" "sim R N1 (on_chain A) t2"
    "same_frame t1 t2" "rp_text R base = sn_text ca" by blast
  obtain n where n: "node_get t2 child = Some n" "node_ok R N1 (on_chain A) child n ca"
    using sim_live [OF t2(2) c1] .
  \<comment> \<open>the promoted child\<close>
  let ?f = "\<lambda>n. n\<lparr>un_parent := None, un_base := Some base, un_delta := None, un_rope_cache := None\<rparr>"
  let ?ca = "ca\<lparr>sn_parent := None\<rparr>"
  let ?t3 = "modified child ?f t2"
  define t3 where "t3 = ?t3\<lparr>ut_warm := filter (\<lambda>n. n \<noteq> child) (ut_warm ?t3),
    ut_keyframes := filter (\<lambda>n. n \<noteq> child) (ut_keyframes ?t3)\<rparr>"
  have "lists_ok_but ?t3 {child}" using simD(2) [OF t2(2)] by (rule lists_modified) simp_all
  moreover have "\<not> cached ?t3 child" using n(1) by (simp add: cached_def)
  ultimately have l3: "lists_ok t3" unfolding t3_def by (rule lists_forget)
  have "nodes_ok R (N1(child \<mapsto> ?ca)) (on_chain A) (node_get ?t3)"
    using n(2) t2(4) by (intro nodes_ok_modified [OF simD(1) [OF t2(2)] c1 n(1)]) (auto simp: node_ok_def)
  then have s3: "sim R (N1(child \<mapsto> ?ca)) (on_chain A) t3"
    using index_modified [OF simD(3) [OF t2(2)], of child ?f] arena_modified [OF simD(4) [OF t2(2)], of child ?f] l3
    by (simp add: sim_def t3_def index_ok_def arena_ok_def)
  have cr: "child \<noteq> ?root" using parts(2) in1 by auto
  have r3: "(N1(child \<mapsto> ?ca)) ?root = Some ra" using ra cr by (simp add: N1_def)
  obtain m where m: "node_get t3 ?root = Some m"
    "node_ok R (N1(child \<mapsto> ?ca)) (on_chain A) ?root m ra" using sim_live [OF s3 r3] .
  let ?g = "\<lambda>n. n\<lparr>un_on_path := False\<rparr>"
  let ?F = "\<lambda>j. j \<noteq> ?root \<and> on_chain A j"
  have "sim R ((N1(child \<mapsto> ?ca))(?root \<mapsto> ra)) ?F (modified ?root ?g t3)"
  proof (rule sim_modified [OF s3 r3 m(1)])
    show "node_ok R ((N1(child \<mapsto> ?ca))(?root \<mapsto> ra)) ?F ?root (?g m) ra"
      using m(2) r3 by (auto simp: node_ok_def fun_upd_idem split: option.splits)
  qed simp_all
  then have s4: "sim R (N1(child \<mapsto> ?ca)) ?F (modified ?root ?g t3)" using r3 by (simp add: fun_upd_idem)
  define t5 where "t5 = (modified ?root ?g t3)\<lparr>ut_root := child\<rparr>"
  have s5: "sim R (N1(child \<mapsto> ?ca)) ?F t5" using s4 by (simp add: t5_def)
  have q5: "seqs_wf (N1(child \<mapsto> ?ca)) (st_next_seq A)"
    by (rule seqs_wf_sub [OF w(5)]) (use ca in \<open>auto simp: N1_def restrict_map_def split: if_splits\<close>)
  have "\<forall>j c. (N1(child \<mapsto> ?ca)) j = Some c \<longrightarrow> j \<noteq> ?root \<longrightarrow> sn_parent c \<noteq> Some ?root"
  proof (intro allI impI notI)
    fix j c
    assume j: "(N1(child \<mapsto> ?ca)) j = Some c" "j \<noteq> ?root" "sn_parent c = Some ?root"
    then have jc: "j \<noteq> child" "st_nodes A j = Some c" "j \<in> below A child"
      by (auto simp: N1_def restrict_map_def split: if_splits)
    then have "anc (spar A) ?root child"
      using anc_step [of "spar A" j child] j(3) by (auto simp: below_def spar_Some)
    then show False using parts(2) w(2) by (auto simp: below_def)
  qed
  from free_sim [OF s5 q5 r3 this]
  obtain t' where t': "free_node ?root t5 = Some t'" "sim R ((N1(child \<mapsto> ?ca))(?root := None)) ?F t'"
    "ut_root t' = ut_root t5" "ut_current t' = ut_current t5" "ut_next_seq t' = ut_next_seq t5" by blast
  have N': "(N1(child \<mapsto> ?ca))(?root := None) = st_nodes (s_prune child A)"
    using parts(2) in1 ca cr
    by (auto simp: fun_eq_iff N1_def restrict_map_def s_prune_lookup option.map_ident)
  have "sim R (st_nodes (s_prune child A)) (on_chain (s_prune child A)) t'"
  proof (rule sim_flags [OF t'(2) [unfolded N']])
    fix i a
    assume "st_nodes (s_prune child A) i = Some a"
    then have i: "i \<in> below A child" by (auto simp: s_prune_lookup split: if_splits)
    then show "on_chain (s_prune child A) i = ?F i"
      using s_prune_on_chain [OF wf child(2) i] parts(2) by auto
  qed
  moreover have "ut_root t' = child" "ut_current t' = st_current A" "ut_next_seq t' = st_next_seq A"
    using t'(3,4,5) t1(4,5) same_frame_heads [OF t2(3)] by (simp_all add: t5_def t3_def)
  ultimately have "refines R t' (s_prune child A)" by (simp add: refines_sim)
  moreover have "prune_root_side R t = Some (True, t')"
    using ne rn(1) found t1(1) t2(1) node_mod_modified [OF n(1), of ?f]
      node_mod_modified [OF m(1), of ?g] t'(1) node_okD(2) [OF rn(2)]
    by (simp add: prune_root_side_def rt cur t3_def t5_def)
  ultimately show ?thesis using child by blast
qed

end
