(* ===== verification/UndoCap.thy ===== *)
theory UndoCap
  imports UndoClear
begin

text \<open>
  The node budget of the undo tree: what \<open>cap\<close> promises over full snapshots and the proof
  that its loop keeps the promise within its own iteration budget.
\<close>

section \<open>The promise\<close>

text \<open>One reclaimed part: the off-path leaf with the lowest change number or, when every
  leaf is on the path, the root side of the chain.\<close>

definition off_leaf :: "snap_tree \<Rightarrow> nat \<Rightarrow> bool" where
  "off_leaf A i \<longleftrightarrow> (\<exists>a. st_nodes A i = Some a \<and> sn_children a = []) \<and> \<not> on_chain A i"

inductive s_reclaim :: "snap_tree \<Rightarrow> snap_tree \<Rightarrow> bool" where
  reclaim_leaf: "off_leaf A leaf \<Longrightarrow> (\<And>j. off_leaf A j \<Longrightarrow> sn_seq (snode A leaf) \<le> sn_seq (snode A j)) \<Longrightarrow>
    s_reclaim A (s_detach leaf A)"
| reclaim_root: "(\<And>j. \<not> off_leaf A j) \<Longrightarrow> on_chain A child \<Longrightarrow> spar A child = Some (st_root A) \<Longrightarrow>
    s_reclaim A (s_prune child A)"

abbreviation s_size :: "snap_tree \<Rightarrow> nat" where
  "s_size A \<equiv> card (dom (st_nodes A))"

inductive s_cap :: "nat \<Rightarrow> snap_tree \<Rightarrow> snap_tree \<Rightarrow> bool" for cap where
  cap_done: "s_size A - 1 \<le> cap \<Longrightarrow> s_cap cap A A"
| cap_step: "cap < s_size A - 1 \<Longrightarrow> s_reclaim A B \<Longrightarrow> s_cap cap B C \<Longrightarrow> s_cap cap A C"

text \<open>What survives: the current node and the data of every surviving node, which may
  lose its parent (a new root) and some children.\<close>

definition snode_keeps :: "snap_node \<Rightarrow> snap_node \<Rightarrow> bool" where
  "snode_keeps a b \<longleftrightarrow> sn_text b = sn_text a \<and> sn_cursor b = sn_cursor a \<and>
     sn_timestamp b = sn_timestamp a \<and> sn_marks b = sn_marks a \<and> sn_seq b = sn_seq a \<and>
     (sn_parent b = sn_parent a \<or> sn_parent b = None) \<and> set (sn_children b) \<subseteq> set (sn_children a)"

definition keeps :: "snap_tree \<Rightarrow> snap_tree \<Rightarrow> bool" where
  "keeps A B \<longleftrightarrow> st_current B = st_current A \<and> st_next_seq B = st_next_seq A \<and>
     (\<forall>i b. st_nodes B i = Some b \<longrightarrow> (\<exists>a. st_nodes A i = Some a \<and> snode_keeps a b))"

lemma snode_keeps_refl: "snode_keeps a a"
  by (simp add: snode_keeps_def)

lemma snode_keeps_trans: "snode_keeps a b \<Longrightarrow> snode_keeps b c \<Longrightarrow> snode_keeps a c"
  unfolding snode_keeps_def by auto

lemma keeps_refl: "keeps A A"
  by (auto simp: keeps_def snode_keeps_refl)

lemma keepsD:
  assumes "keeps A B"
  shows "st_current B = st_current A" and "st_next_seq B = st_next_seq A"
    and "st_nodes B i = Some b \<Longrightarrow> \<exists>a. st_nodes A i = Some a \<and> snode_keeps a b"
  using assms by (simp_all add: keeps_def)

lemma keeps_entry:
  assumes "keeps A B" and "i \<in> dom (st_nodes B)"
  shows "s_entry B i = s_entry A i"
  using assms keepsD(3) [OF assms(1), of i] by (auto simp: s_entry_def snode_simps snode_keeps_def)

lemma keepsI:
  assumes "st_current B = st_current A" and "st_next_seq B = st_next_seq A"
    and "\<And>i b. st_nodes B i = Some b \<Longrightarrow> \<exists>a. st_nodes A i = Some a \<and> snode_keeps a b"
  shows "keeps A B"
  using assms by (simp add: keeps_def)

lemma keeps_trans:
  assumes "keeps A B" and "keeps B C"
  shows "keeps A C"
proof (rule keepsI)
  show "st_current C = st_current A" "st_next_seq C = st_next_seq A"
    using keepsD(1,2) [OF assms(1)] keepsD(1,2) [OF assms(2)] by simp_all
  fix i c
  assume "st_nodes C i = Some c"
  from keepsD(3) [OF assms(2) this] obtain b where "st_nodes B i = Some b" "snode_keeps b c" by blast
  moreover from keepsD(3) [OF assms(1) this(1)] obtain a where "st_nodes A i = Some a" "snode_keeps a b"
    by blast
  ultimately show "\<exists>a. st_nodes A i = Some a \<and> snode_keeps a c" by (blast intro: snode_keeps_trans)
qed

lemma keeps_detach:
  assumes leaf: "st_nodes A leaf = Some a" and p: "sn_parent a = Some p" and b: "st_nodes A p = Some b"
  shows "keeps A (s_detach leaf A)" and "dom (st_nodes (s_detach leaf A)) = dom (st_nodes A) - {leaf}"
  unfolding s_detach_cut [OF assms]
  using b by (auto intro!: keepsI simp: s_cut_lookup snode_keeps_def split: if_splits)

lemma keeps_prune:
  shows "keeps A (s_prune child A)" and "dom (st_nodes (s_prune child A)) = below A child"
proof -
  show "keeps A (s_prune child A)"
  proof (rule keepsI)
    fix i b
    assume "st_nodes (s_prune child A) i = Some b"
    then have m: "map_option (\<lambda>a. if i = child then a\<lparr>sn_parent := None\<rparr> else a) (st_nodes A i) = Some b"
      unfolding s_prune_lookup by (metis option.distinct(1))
    obtain a where a: "st_nodes A i = Some a" using m by (cases "st_nodes A i") auto
    then have "st_nodes A i = Some a" "b = (if i = child then a\<lparr>sn_parent := None\<rparr> else a)"
      using m by auto
    then show "\<exists>a. st_nodes A i = Some a \<and> snode_keeps a b" by (auto simp: snode_keeps_def)
  qed simp_all
  show "dom (st_nodes (s_prune child A)) = below A child"
    by (auto simp: dom_def s_prune_lookup below_def)
qed

section \<open>The leaf to evict\<close>

lemma lowest_fold:
  fixes h :: "nat \<Rightarrow> nat option"
  assumes "\<And>i best. g i best = (case h i of None \<Rightarrow> best
      | Some s \<Rightarrow> (case best of None \<Rightarrow> Some (s, i) | Some (bs, j) \<Rightarrow> if s < bs then Some (s, i) else best))"
  shows "case fold g xs best of
      None \<Rightarrow> best = None \<and> (\<forall>i \<in> set xs. h i = None)
    | Some (s, i) \<Rightarrow> (best = Some (s, i) \<or> (i \<in> set xs \<and> h i = Some s)) \<and>
        (\<forall>j \<in> set xs. \<forall>s'. h j = Some s' \<longrightarrow> s \<le> s') \<and> (\<forall>bs bi. best = Some (bs, bi) \<longrightarrow> s \<le> bs)"
proof (induction xs arbitrary: best)
  case (Cons x xs)
  show ?case
    using Cons.IH [of "g x best"]
    by (auto simp: assms split: option.splits prod.splits if_splits) (fastforce+)?
qed (simp split: option.splits prod.splits)

lemma lowest_offpath_leaf_spec:
  assumes r: "refines R t A"
  shows "case lowest_offpath_leaf t of
      None \<Rightarrow> \<forall>j. \<not> off_leaf A j
    | Some i \<Rightarrow> off_leaf A i \<and> (\<forall>j. off_leaf A j \<longrightarrow> sn_seq (snode A i) \<le> sn_seq (snode A j))"
proof -
  have s: "sim R (st_nodes A) (on_chain A) t" using r by (simp add: refines_sim)
  define h where "h = (\<lambda>i. case ut_nodes t ! i of None \<Rightarrow> None
     | Some n \<Rightarrow> if un_children n = [] \<and> \<not> un_on_path n then Some (un_seq n) else None)"
  define g where "g = (\<lambda>i best. (case ut_nodes t ! i of
             None \<Rightarrow> best
           | Some n \<Rightarrow>
               if un_children n = [] \<and> \<not> un_on_path n \<and>
                 (case best of None \<Rightarrow> True | Some (bs, _) \<Rightarrow> un_seq n < bs)
               then Some (un_seq n, i) else best))"
  have eq: "lowest_offpath_leaf t = map_option snd (fold g [0 ..< length (ut_nodes t)] None)"
    unfolding lowest_offpath_leaf_def g_def by simp
  have hit: "i < length (ut_nodes t) \<and> h i = Some k \<longleftrightarrow> off_leaf A i \<and> sn_seq (snode A i) = k" for i k
  proof (cases "st_nodes A i")
    case None
    then have "node_get t i = None" using nodes_ok_dead [OF simD(1) [OF s], of i] by simp
    then show ?thesis using None by (auto simp: h_def off_leaf_def node_get_def split: if_splits)
  next
    case (Some a)
    obtain n where n: "node_get t i = Some n" "node_ok R (st_nodes A) (on_chain A) i n a"
      using sim_live [OF s Some] .
    then have "i < length (ut_nodes t)" "ut_nodes t ! i = Some n"
      by (auto simp: node_get_def split: if_splits)
    then show ?thesis using Some node_okD(2,8,9) [OF n(2)]
      by (auto simp: h_def off_leaf_def snode_simps)
  qed
  have "g i best = (case h i of None \<Rightarrow> best
      | Some s \<Rightarrow> (case best of None \<Rightarrow> Some (s, i) | Some (bs, j) \<Rightarrow> if s < bs then Some (s, i) else best))"
    for i best
    by (cases "ut_nodes t ! i"; cases best) (auto simp: g_def h_def)
  from lowest_fold [where g = g and h = h, OF this, where xs = "[0 ..< length (ut_nodes t)]" and best = None]
  have fold: "case fold g [0 ..< length (ut_nodes t)] None of
      None \<Rightarrow> \<forall>i < length (ut_nodes t). h i = None
    | Some (s, i) \<Rightarrow> i < length (ut_nodes t) \<and> h i = Some s \<and>
        (\<forall>j < length (ut_nodes t). \<forall>s'. h j = Some s' \<longrightarrow> s \<le> s')"
    by (auto split: option.splits)
  show ?thesis
  proof (cases "fold g [0 ..< length (ut_nodes t)] None")
    case None
    then have "h i = None" if "i < length (ut_nodes t)" for i using fold that by simp
    then have "\<not> off_leaf A j" for j using hit [of j] by (metis option.distinct(1))
    then show ?thesis using None by (simp add: eq)
  next
    case (Some si)
    then obtain k i where ki: "fold g [0 ..< length (ut_nodes t)] None = Some (k, i)" by (cases si) simp
    then have i: "off_leaf A i" "sn_seq (snode A i) = k" using fold hit [of i k] by auto
    have "k \<le> sn_seq (snode A j)" if "off_leaf A j" for j
      using fold ki hit [of j "sn_seq (snode A j)"] that by auto
    then show ?thesis using ki i by (simp add: eq)
  qed
qed

lemma live_count_refines:
  assumes r: "refines R t A"
  shows "live_count t = s_size A"
proof -
  have s: "sim R (st_nodes A) (on_chain A) t" using r by (simp add: refines_sim)
  have "i \<in> dom (st_nodes A) \<longleftrightarrow> i < length (ut_nodes t) \<and> ut_nodes t ! i \<noteq> None" for i
    using nodes_ok_dead [OF simD(1) [OF s], of i]
    by (cases "st_nodes A i"; cases "ut_nodes t ! i") (auto simp: node_get_def split: if_splits)
  then have "dom (st_nodes A) = {i. i < length (ut_nodes t) \<and> ut_nodes t ! i \<noteq> None}" by blast
  then show ?thesis by (simp add: live_count_def length_filter_conv_card)
qed

section \<open>The loop\<close>

text \<open>While more than the root is left something can be reclaimed.\<close>

lemma off_leaf_exists:
  assumes wf: "spec_wf A" and rc: "st_root A = st_current A" and two: "1 < s_size A"
  shows "\<exists>j. off_leaf A j"
proof -
  note w = spec_wfD [OF wf]
  have d: "depths_ok (spar A) (sdep A)" using w(4) by (rule links_depths)
  have fin: "finite (sdep A ` dom (st_nodes A))" "sdep A ` dom (st_nodes A) \<noteq> {}"
    using w(1,2) by auto
  from Max_in [OF this] obtain x where x: "x \<in> dom (st_nodes A)"
    "sdep A x = Max (sdep A ` dom (st_nodes A))" by (metis imageE)
  have deep: "sdep A y \<le> sdep A x" if "y \<in> dom (st_nodes A)" for y
    unfolding x(2) using fin(1) that by (intro Max_ge) auto
  obtain a where a: "st_nodes A x = Some a" using x(1) by blast
  have "c \<notin> set (sn_children a)" for c
  proof
    assume c: "c \<in> set (sn_children a)"
    then have "spar A c = Some x" using links_child_spar [OF w(4) a] by blast
    then have "sdep A c = Suc (sdep A x)" "c \<in> dom (st_nodes A)" using d spar_dom
      by (auto simp: depths_ok_def)
    then show False using deep [of c] by simp
  qed
  then have leaf: "sn_children a = []" by (cases "sn_children a") auto
  have root: "spar A (st_root A) = None"
  proof (cases "spar A (st_root A)")
    case (Some p)
    then obtain b where "st_nodes A (st_root A) = Some b" "sn_parent b = Some p"
      by (auto simp: spar_def bind_eq_Some_conv)
    then show ?thesis using links_parent(2) [OF w(4)] by blast
  qed
  have "x \<noteq> st_root A"
  proof
    assume "x = st_root A"
    have "y = st_root A" if y: "y \<in> dom (st_nodes A)" for y
    proof (rule ccontr)
      assume "y \<noteq> st_root A"
      with anc_reaches_root [OF w(4) y] obtain c where "spar A c = Some (st_root A)"
        using anc_child by blast
      moreover have "skids A (st_root A) = []"
        using skids_simps [OF a] leaf unfolding \<open>x = st_root A\<close> by simp
      ultimately show False using skids_iff [OF w(4), of c "st_root A"] by simp
    qed
    then have "dom (st_nodes A) \<subseteq> {st_root A}" by blast
    then have "s_size A \<le> 1" using card_mono [of "{st_root A}" "dom (st_nodes A)"] by simp
    then show False using two by simp
  qed
  then have "\<not> on_chain A x" using anc_root [of "spar A" "st_root A" x] root rc by (auto simp: on_chain_def)
  then show ?thesis using a leaf by (auto simp: off_leaf_def)
qed

lemma reclaim_refines:
  assumes R: "rope_laws R" and r: "refines R t A" and wf: "spec_wf A" and two: "1 < s_size A"
  shows "\<exists>t' B. (case lowest_offpath_leaf t of
        Some leaf \<Rightarrow> detach_leaf leaf t = Some t'
      | None \<Rightarrow> prune_root_side R t = Some (True, t')) \<and>
    s_reclaim A B \<and> refines R t' B \<and> spec_wf B \<and> keeps A B \<and> s_size B < s_size A"
proof (cases "lowest_offpath_leaf t")
  case (Some leaf)
  then have off: "off_leaf A leaf"
    "\<And>j. off_leaf A j \<Longrightarrow> sn_seq (snode A leaf) \<le> sn_seq (snode A j)"
    using lowest_offpath_leaf_spec [OF r] by auto
  then obtain a where a: "st_nodes A leaf = Some a" "sn_children a = []" "\<not> on_chain A leaf"
    by (auto simp: off_leaf_def)
  note w = spec_wfD [OF wf]
  have "leaf \<noteq> st_root A" using a(3) anc_reaches_root [OF w(4,3)] by (auto simp: on_chain_def)
  then obtain p where p: "sn_parent a = Some p"
    using links_no_parent [OF w(4) a(1)] by (cases "sn_parent a") auto
  obtain b where b: "st_nodes A p = Some b" using links_parent(1) [OF w(4) a(1) p] by blast
  obtain t' where t': "detach_leaf leaf t = Some t'" "refines R t' (s_detach leaf A)"
    using detach_refines [OF r wf a] by blast
  have "s_size (s_detach leaf A) < s_size A"
    unfolding keeps_detach(2) [OF a(1) p b] using w(1) a(1) by (intro card_Diff1_less) auto
  then show ?thesis
    using t' Some reclaim_leaf [OF off] s_detach_wf [OF wf a] keeps_detach(1) [OF a(1) p b] by auto
next
  case None
  then have no: "\<not> off_leaf A j" for j using lowest_offpath_leaf_spec [OF r] by auto
  note w = spec_wfD [OF wf]
  have "st_root A \<noteq> st_current A" using off_leaf_exists [OF wf _ two] no by blast
  from prune_refines [OF R r wf this] obtain child t' where t': "prune_root_side R t = Some (True, t')"
    "on_chain A child" "spar A child = Some (st_root A)" "refines R t' (s_prune child A)" by blast
  obtain ra where ra: "st_nodes A (st_root A) = Some ra" using w(2) by blast
  have "below A child \<subset> dom (st_nodes A)"
    using prune_parts(2) [OF wf t'(3) ra] w(2) by (auto simp: below_def)
  then have "s_size (s_prune child A) < s_size A"
    unfolding keeps_prune(2) by (rule psubset_card_mono [OF w(1)])
  then show ?thesis
    using t' None reclaim_root [OF no t'(2,3)] s_prune_wf [OF wf t'(2,3)] keeps_prune(1) by auto
qed

lemma cap_loop_refines:
  assumes R: "rope_laws R" and "refines R t A" and "spec_wf A" and "s_size A \<le> k" and "1 \<le> cap"
  shows "\<exists>t' B. cap_loop R cap k t = Some t' \<and> s_cap cap A B \<and> refines R t' B \<and> spec_wf B \<and>
    keeps A B \<and> live_count t' - 1 \<le> cap"
  using assms(2-4)
proof (induction k arbitrary: t A)
  case 0
  have z: "s_size A = 0" using 0 by simp
  then have "s_cap cap A A" by (intro cap_done) simp
  then show ?case using 0 z live_count_refines [OF 0(1)] keeps_refl [of A] by auto
next
  case (Suc k)
  note n = live_count_refines [OF Suc.prems(1)]
  show ?case
  proof (cases "cap < s_size A - 1")
    case False
    then have "cap_loop R cap (Suc k) t = Some t" using n by simp
    moreover have "s_cap cap A A" using False by (intro cap_done) simp
    ultimately show ?thesis using Suc.prems False n keeps_refl [of A] by (auto intro!: exI [of _ A])
  next
    case True
    then have "1 < s_size A" using assms(5) by simp
    from reclaim_refines [OF R Suc.prems(1,2) this] obtain t1 B where
      t1: "case lowest_offpath_leaf t of Some leaf \<Rightarrow> detach_leaf leaf t = Some t1
        | None \<Rightarrow> prune_root_side R t = Some (True, t1)"
      "s_reclaim A B" "refines R t1 B" "spec_wf B" "keeps A B" "s_size B < s_size A" by blast
    have "s_size B \<le> k" using t1(6) Suc.prems(3) by simp
    from Suc.IH [OF t1(3,4) this] obtain t' C where t': "cap_loop R cap k t1 = Some t'" "s_cap cap B C"
      "refines R t' C" "spec_wf C" "keeps B C" "live_count t' - 1 \<le> cap" by blast
    have "cap_loop R cap (Suc k) t = Some t'"
      using True n t1(1) t'(1) by (simp split: option.splits)
    then show ?thesis
      using t' cap_step [OF True t1(2) t'(2)] keeps_trans [OF t1(5) t'(5)] by blast
  qed
qed

lemma cap_refines:
  assumes R: "rope_laws R" and r: "refines R t A" and wf: "spec_wf A" and c: "1 \<le> cap"
  shows "\<exists>t' B. cap_tree R cap t = Some t' \<and> s_cap cap A B \<and> refines R t' B \<and> spec_wf B \<and>
    keeps A B \<and> live_count t' - 1 \<le> cap"
  using cap_loop_refines [OF R r wf _ c, of "live_count t + 1"] live_count_refines [OF r] c
  by (simp add: cap_tree_def)

section \<open>The parent of the current node survives\<close>

lemma all_on_chain:
  assumes wf: "spec_wf A" and no: "\<And>j. \<not> off_leaf A j" and i: "i \<in> dom (st_nodes A)"
  shows "on_chain A i"
proof (rule ccontr)
  note w = spec_wfD [OF wf]
  have d: "depths_ok (spar A) (sdep A)" using w(4) by (rule links_depths)
  let ?S = "{j \<in> dom (st_nodes A). \<not> on_chain A j}"
  assume "\<not> on_chain A i"
  then have fin: "finite (sdep A ` ?S)" "sdep A ` ?S \<noteq> {}" using w(1) i by auto
  from Max_in [OF this] obtain x where xm: "Max (sdep A ` ?S) = sdep A x" and x: "x \<in> ?S"
    by (rule imageE)
  obtain a where a: "st_nodes A x = Some a" using x by blast
  have "c \<notin> set (sn_children a)" for c
  proof
    assume c: "c \<in> set (sn_children a)"
    have p: "spar A c = Some x" using links_child_spar [OF w(4) a c] .
    then have "c \<in> ?S" using x spar_dom [OF p] by (auto simp: on_chain_def dest: anc_parent)
    then have "sdep A c \<le> sdep A x" unfolding xm [symmetric] using fin(1) by (intro Max_ge) auto
    then show False using d p by (auto simp: depths_ok_def)
  qed
  then have "sn_children a = []" by (cases "sn_children a") auto
  then show False using no [of x] a x by (auto simp: off_leaf_def)
qed

lemma reclaim_keeps_parent:
  assumes wf: "spec_wf A" and r: "s_reclaim A B" and p: "spar A (st_current A) = Some p"
    and big: "2 < s_size A"
  shows "spar B (st_current A) = Some p" and "2 \<le> s_size B"
proof -
  note w = spec_wfD [OF wf]
  have d: "depths_ok (spar A) (sdep A)" using w(4) by (rule links_depths)
  have "spar B (st_current A) = Some p \<and> 2 \<le> s_size B"
    using r
  proof (cases rule: s_reclaim.cases)
    case (reclaim_leaf leaf)
    then obtain a where a: "st_nodes A leaf = Some a" "sn_children a = []" "\<not> on_chain A leaf"
      by (auto simp: off_leaf_def)
    have "leaf \<noteq> st_root A" using a(3) anc_reaches_root [OF w(4,3)] by (auto simp: on_chain_def)
    then obtain q where q: "sn_parent a = Some q"
      using links_no_parent [OF w(4) a(1)] by (cases "sn_parent a") auto
    obtain b where b: "st_nodes A q = Some b" using links_parent(1) [OF w(4) a(1) q] by blast
    have "leaf \<noteq> st_current A" using a(3) by (auto simp: on_chain_def intro: anc_self)
    then have "spar B (st_current A) = Some p"
      unfolding reclaim_leaf(1) s_detach_cut [OF a(1) q b] spar_cut using p by simp
    moreover have "s_size B = s_size A - 1"
      unfolding reclaim_leaf(1) keeps_detach(2) [OF a(1) q b] using w(1) a(1) by (intro card_Diff_singleton) blast
    ultimately show ?thesis using big by simp
  next
    case (reclaim_root child)
    obtain ra where ra: "st_nodes A (st_root A) = Some ra" using w(2) by blast
    have all: "on_chain A i" if "i \<in> dom (st_nodes A)" for i by (rule all_on_chain [OF wf reclaim_root(2) that])
    have only: "c = child" if "spar A c = Some (st_root A)" for c
    proof -
      have "on_chain A c" by (rule all) (rule spar_dom [OF that])
      then show ?thesis
        using reclaim_root(3) unfolding on_chain_def
        by (rule anc_child_unique [OF d _ _ that reclaim_root(4)])
    qed
    have dom: "dom (st_nodes A) = insert (st_root A) (below A child)"
    proof (intro set_eqI iffI)
      fix i
      assume i: "i \<in> dom (st_nodes A)"
      show "i \<in> insert (st_root A) (below A child)"
      proof (cases "i = st_root A")
        case False
        from anc_child [OF anc_reaches_root [OF w(4) i] False] show ?thesis
          using only i by (auto simp: below_def)
      qed simp
    qed (use w(2) in \<open>auto simp: below_def\<close>)
    have nr: "st_root A \<notin> below A child" by (rule prune_parts(2) [OF wf reclaim_root(4) ra])
    have "finite (below A child)" using w(1) dom by simp
    then have size: "s_size A = Suc (card (below A child))" using dom nr by simp
    have cur: "st_current A \<in> below A child" using reclaim_root(3) w(3) by (simp add: below_def on_chain_def)
    have "st_current A \<noteq> child"
    proof
      assume cc: "st_current A = child"
      have "i = child" if i: "i \<in> below A child" for i
      proof -
        have "anc (spar A) child i" using all [of i] i cc by (auto simp: below_def on_chain_def)
        then show ?thesis using anc_antisym [OF _ _ d] i by (auto simp: below_def)
      qed
      then have "below A child \<subseteq> {child}" by blast
      then have "card (below A child) \<le> 1" using card_mono [of "{child}"] by fastforce
      then show False using size big by simp
    qed
    then have "spar B (st_current A) = Some p"
      unfolding reclaim_root(1) using p cur by (simp add: spar_def s_prune_lookup option.map_ident)
    moreover have "s_size B = card (below A child)" unfolding reclaim_root(1) keeps_prune(2) ..
    ultimately show ?thesis using size big by simp
  qed
  then show "spar B (st_current A) = Some p" "2 \<le> s_size B" by blast+
qed

lemma s_reclaim_wf:
  assumes wf: "spec_wf A" and r: "s_reclaim A B"
  shows "spec_wf B" and "keeps A B"
proof -
  have "spec_wf B \<and> keeps A B"
    using r
  proof (cases rule: s_reclaim.cases)
    case (reclaim_leaf leaf)
    note w = spec_wfD [OF wf]
    obtain a where a: "st_nodes A leaf = Some a" "sn_children a = []" "\<not> on_chain A leaf"
      using reclaim_leaf(2) by (auto simp: off_leaf_def)
    have "leaf \<noteq> st_root A" using a(3) anc_reaches_root [OF w(4,3)] by (auto simp: on_chain_def)
    then obtain q where q: "sn_parent a = Some q"
      using links_no_parent [OF w(4) a(1)] by (cases "sn_parent a") auto
    obtain b where b: "st_nodes A q = Some b" using links_parent(1) [OF w(4) a(1) q] by blast
    show ?thesis
      unfolding reclaim_leaf(1) using s_detach_wf [OF wf a] keeps_detach(1) [OF a(1) q b] by blast
  next
    case (reclaim_root child)
    show ?thesis
      unfolding reclaim_root(1) using s_prune_wf [OF wf reclaim_root(3,4)] keeps_prune(1) by blast
  qed
  then show "spec_wf B" "keeps A B" by blast+
qed

lemma s_cap_wf: "s_cap cap A B \<Longrightarrow> spec_wf A \<Longrightarrow> spec_wf B"
  by (induction rule: s_cap.induct) (auto dest: s_reclaim_wf(1))

lemma s_cap_keeps_parent:
  assumes "s_cap cap A B" and "1 \<le> cap" and "spec_wf A" and "spar A (st_current A) = Some p"
  shows "spar B (st_current A) = Some p"
  using assms
proof (induction rule: s_cap.induct)
  case (cap_step A B C)
  have big: "2 < s_size A" using cap_step.hyps(1) cap_step.prems(1) by simp
  note B = s_reclaim_wf [OF cap_step.prems(2) cap_step.hyps(2)]
  have "st_current B = st_current A" by (rule keepsD(1) [OF B(2)])
  then show ?case
    using cap_step.IH [OF cap_step.prems(1) B(1)]
      reclaim_keeps_parent(1) [OF cap_step.prems(2) cap_step.hyps(2) cap_step.prems(3) big] by simp
qed simp

section \<open>A new tree\<close>

definition s_new :: "rstring \<Rightarrow> int \<Rightarrow> snap_tree" where
  "s_new s now = \<lparr>st_nodes = [0 \<mapsto> \<lparr>sn_parent = None, sn_children = [], sn_last = None, sn_text = s,
     sn_depth = 0, sn_cursor = (0, 0), sn_timestamp = now, sn_marks = marks_default, sn_seq = 0\<rparr>],
     st_root = 0, st_current = 0, st_next_seq = 1\<rparr>"

lemma s_new_wf: "spec_wf (s_new s now)"
  by (auto simp: spec_wf_def s_new_def links_wf_def seqs_wf_def chain_wf_def spar_def)

lemma new_tree_refines:
  assumes R: "rope_laws R"
  shows "refines R (new_tree rope now) (s_new (rp_text R rope) now)"
proof -
  let ?A = "s_new (rp_text R rope) now"
  obtain n where n: "node_get (new_tree rope now) 0 = Some n" by (simp add: new_tree_def node_get_def)
  obtain a where a: "st_nodes ?A 0 = Some a" by (simp add: s_new_def)
  have g: "node_get (new_tree rope now) = [0 \<mapsto> n]"
    using n by (auto simp: new_tree_def node_get_def fun_eq_iff)
  have N: "st_nodes ?A = [0 \<mapsto> a]" using a by (auto simp: s_new_def fun_eq_iff)
  have c: "on_chain ?A 0" by (simp add: on_chain_def s_new_def anc_self)
  have "sim R [0 \<mapsto> a] (on_chain ?A) (new_tree rope now)"
  proof (rule single_sim [OF g])
    show "node_ok R [0 \<mapsto> a] (on_chain ?A) 0 n a"
      using c n a rope_valid [OF R, of rope]
      by (auto simp: node_ok_def new_tree_def node_get_def s_new_def)
  qed (use n in \<open>auto simp: new_tree_def node_get_def arena_ok_def\<close>)
  then have "sim R (st_nodes ?A) (on_chain ?A) (new_tree rope now)" by (simp only: N)
  then show ?thesis unfolding refines_sim by (simp add: s_new_def new_tree_def)
qed

section \<open>Synchronising the live text\<close>

definition s_sync :: "rstring \<Rightarrow> snap_tree \<Rightarrow> snap_tree" where
  "s_sync s A = s_upd (st_current A) (\<lambda>a. a\<lparr>sn_text := s\<rparr>) A"

lemma sync_refines:
  assumes R: "rope_laws R" and r: "refines R t A" and wf: "spec_wf A"
    and fits: "live_fits A (rp_text R rope)"
  shows "\<exists>t'. sync_current R rope t = Some t' \<and> refines R t' (s_sync (rp_text R rope) A)"
proof -
  note w = spec_wfD [OF wf]
  have cur: "ut_current t = st_current A" using r by (simp add: refines_sim)
  obtain a where a: "st_nodes A (st_current A) = Some a" using w(3) by blast
  obtain n where n: "node_get t (st_current A) = Some n"
    "node_ok R (st_nodes A) (on_chain A) (st_current A) n a" using refines_live [OF r a] .
  have "s_set (st_current A) (rp_text R rope) (un_cursor n) (un_timestamp n) (un_marks n) A =
      s_sync (rp_text R rope) A"
    using a node_okD(5,6,7) [OF n(2)] by (simp add: s_set_def s_sync_def s_upd_def)
  then show ?thesis
    using refines_set [OF R r wf fits, of "un_cursor n" "un_timestamp n" "un_marks n"] n(1) cur
    by (simp add: sync_current_def)
qed

lemma s_sync_wf: "spec_wf A \<Longrightarrow> spec_wf (s_sync s A)"
  using spec_wfD(3) [of A] spec_wf_set [of A "st_current A" s "sn_cursor (snode A (st_current A))"
      "sn_timestamp (snode A (st_current A))" "sn_marks (snode A (st_current A))"]
  by (auto simp: s_sync_def s_set_def s_upd_def snode_simps)

end
