(* ===== verification/UndoSession.thy ===== *)
theory UndoSession
  imports UndoCap
begin

text \<open>
  A document and its history, the way the editor drives the undo tree: the undo-group
  counters of \<open>crates/hjkl-buffer/src/content.rs\<close> and the history operations of
  \<open>crates/hjkl-engine/src/editor.rs\<close> (\<open>push_undo_at\<close>, \<open>undo_core\<close>, \<open>redo_core\<close>, the walks by
  change number and by time).  The cursor and the marks that the editor snapshots are
  arguments; of a restored entry the text is put into the document and the entry itself,
  with its cursor and marks, is the result.
\<close>

section \<open>The document\<close>

record ('x, 't) document =
  doc_text :: 'x
  doc_gen :: "64 word"
  doc_undo :: 't
  doc_depth :: nat
  doc_armed :: bool
  doc_open_gen :: "64 word"

type_synonym 'r doc = "('r, 'r undo_tree) document"

definition doc_new :: "'r rope_ops \<Rightarrow> rstring \<Rightarrow> int \<Rightarrow> 'r doc" where
  "doc_new R s now = \<lparr>doc_text = rp_from_str R s, doc_gen = 0,
     doc_undo = new_tree (rp_from_str R s) now, doc_depth = 0, doc_armed = False, doc_open_gen = 0\<rparr>"

definition replace_all :: "'r rope_ops \<Rightarrow> rstring \<Rightarrow> ('r, 't) document \<Rightarrow> ('r, 't) document" where
  "replace_all R s d = d\<lparr>doc_text := rp_from_str R s, doc_gen := doc_gen d + 1\<rparr>"

definition restore_rope :: "'r rope_ops \<Rightarrow> 'r \<Rightarrow> ('r, 't) document \<Rightarrow> ('r, 't) document" where
  "restore_rope R rope d = replace_all R (rp_text R rope) d"

text \<open>Undo groups; the depth is a saturating \<open>u32\<close>.\<close>

definition undo_group_enter :: "('x, 't) document \<Rightarrow> ('x, 't) document" where
  "undo_group_enter d =
     (let d = (if doc_depth d = 0 then d\<lparr>doc_armed := False, doc_open_gen := doc_gen d\<rparr> else d)
      in d\<lparr>doc_depth := min (doc_depth d + 1) (2 ^ 32 - 1)\<rparr>)"

definition undo_group_exit :: "'r doc \<Rightarrow> 'r doc option" where
  "undo_group_exit d =
     (if doc_depth d = 0 then Some d
      else (let d = d\<lparr>doc_depth := doc_depth d - 1\<rparr> in
        if doc_depth d = 0 then do {
          d \<leftarrow> (if doc_armed d \<and> doc_gen d = doc_open_gen d then do {
                 (popped, t) \<leftarrow> pop_committed (doc_undo d);
                 Some (d\<lparr>doc_undo := t\<rparr>)
               } else Some d);
          Some (d\<lparr>doc_armed := False\<rparr>)
        } else Some d))"

definition undo_group_active :: "('x, 't) document \<Rightarrow> bool" where
  "undo_group_active d \<longleftrightarrow> 0 < doc_depth d"

definition undo_group_arm :: "('x, 't) document \<Rightarrow> bool \<times> ('x, 't) document" where
  "undo_group_arm d = (if doc_armed d then (False, d) else (True, d\<lparr>doc_armed := True\<rparr>))"

section \<open>The editor's history operations\<close>

definition push_undo_at ::
  "'r rope_ops \<Rightarrow> nat \<Rightarrow> upos \<Rightarrow> int \<Rightarrow> mark_snapshot \<Rightarrow> 'r doc \<Rightarrow> 'r doc option" where
  "push_undo_at R undo_levels cursor timestamp marks d =
     (let (suppressed, d) = (if undo_group_active d
        then (let (armed, d) = undo_group_arm d in (\<not> armed, d)) else (False, d))
      in if suppressed then Some d
      else do {
        t \<leftarrow> push R \<lparr>ue_rope = doc_text d, ue_cursor = cursor, ue_timestamp = timestamp,
          ue_marks = marks\<rparr> (doc_undo d);
        t \<leftarrow> cap_tree R undo_levels t;
        t \<leftarrow> clear_redo t;
        Some (d\<lparr>doc_undo := t\<rparr>)
      })"

definition pop_last_undo :: "'r doc \<Rightarrow> (bool \<times> 'r doc) option" where
  "pop_last_undo d = do {
     (popped, t) \<leftarrow> pop_committed (doc_undo d);
     Some (popped, d\<lparr>doc_undo := t\<rparr>)
   }"

definition undo_core ::
  "'r rope_ops \<Rightarrow> upos \<Rightarrow> mark_snapshot \<Rightarrow> 'r doc \<Rightarrow> ('r undo_entry option \<times> 'r doc) option" where
  "undo_core R cursor marks d = do {
     at_root \<leftarrow> is_at_root (doc_undo d);
     if at_root then Some (None, d)
     else do {
       (e, t) \<leftarrow> undo_step R (doc_text d) cursor marks (doc_undo d);
       let d = d\<lparr>doc_undo := t\<rparr>;
       Some (e, case e of None \<Rightarrow> d | Some e \<Rightarrow> restore_rope R (ue_rope e) d)
     }
   }"

definition redo_core ::
  "'r rope_ops \<Rightarrow> nat \<Rightarrow> upos \<Rightarrow> mark_snapshot \<Rightarrow> 'r doc \<Rightarrow>
    ('r undo_entry option \<times> 'r doc) option" where
  "redo_core R undo_levels cursor marks d = do {
     redo \<leftarrow> has_redo (doc_undo d);
     if \<not> redo then Some (None, d)
     else do {
       (e, t) \<leftarrow> redo_step R (doc_text d) cursor marks (doc_undo d);
       (case e of
          None \<Rightarrow> Some (None, d\<lparr>doc_undo := t\<rparr>)
        | Some e \<Rightarrow> do {
            t \<leftarrow> cap_tree R undo_levels t;
            Some (Some e, restore_rope R (ue_rope e) (d\<lparr>doc_undo := t\<rparr>))
          })
     }
   }"

definition seq_earlier_core ::
  "'r rope_ops \<Rightarrow> upos \<Rightarrow> mark_snapshot \<Rightarrow> 'r doc \<Rightarrow> ('r undo_entry option \<times> 'r doc) option" where
  "seq_earlier_core R cursor marks d = do {
     (e, t) \<leftarrow> seq_earlier_step R (doc_text d) cursor marks (doc_undo d);
     let d = d\<lparr>doc_undo := t\<rparr>;
     Some (e, case e of None \<Rightarrow> d | Some e \<Rightarrow> restore_rope R (ue_rope e) d)
   }"

definition seq_later_core ::
  "'r rope_ops \<Rightarrow> nat \<Rightarrow> upos \<Rightarrow> mark_snapshot \<Rightarrow> 'r doc \<Rightarrow>
    ('r undo_entry option \<times> 'r doc) option" where
  "seq_later_core R undo_levels cursor marks d = do {
     (e, t) \<leftarrow> seq_later_step R (doc_text d) cursor marks (doc_undo d);
     (case e of
        None \<Rightarrow> Some (None, d\<lparr>doc_undo := t\<rparr>)
      | Some e \<Rightarrow> do {
          t \<leftarrow> cap_tree R undo_levels t;
          Some (Some e, restore_rope R (ue_rope e) (d\<lparr>doc_undo := t\<rparr>))
        })
   }"

text \<open>The walks by a count and by time.  \<open>look i\<close> is the cursor and the marks that the
  editor snapshots before the \<open>i\<close>-th step.\<close>

fun earlier_by_steps ::
  "'r rope_ops \<Rightarrow> (nat \<Rightarrow> upos \<times> mark_snapshot) \<Rightarrow> nat \<Rightarrow> nat \<Rightarrow> 'r doc \<Rightarrow> (nat \<times> 'r doc) option" where
  "earlier_by_steps R look 0 count d = Some (count, d)"
| "earlier_by_steps R look (Suc n) count d = do {
     (e, d) \<leftarrow> seq_earlier_core R (fst (look count)) (snd (look count)) d;
     if e \<noteq> None then earlier_by_steps R look n (count + 1) d else Some (count, d)
   }"

fun later_by_steps ::
  "'r rope_ops \<Rightarrow> nat \<Rightarrow> (nat \<Rightarrow> upos \<times> mark_snapshot) \<Rightarrow> nat \<Rightarrow> nat \<Rightarrow> 'r doc \<Rightarrow>
    (nat \<times> 'r doc) option" where
  "later_by_steps R undo_levels look 0 count d = Some (count, d)"
| "later_by_steps R undo_levels look (Suc n) count d = do {
     (e, d) \<leftarrow> seq_later_core R undo_levels (fst (look count)) (snd (look count)) d;
     if e \<noteq> None then later_by_steps R undo_levels look n (count + 1) d else Some (count, d)
   }"

partial_function (option) earlier_by_time ::
  "'r rope_ops \<Rightarrow> (nat \<Rightarrow> upos \<times> mark_snapshot) \<Rightarrow> int \<Rightarrow> nat \<Rightarrow> 'r doc \<Rightarrow> (nat \<times> 'r doc) option" where
  "earlier_by_time R look target count d = do {
     ts \<leftarrow> seq_earlier_timestamp (doc_undo d);
     (case ts of
        None \<Rightarrow> Some (count, d)
      | Some ts \<Rightarrow>
          if ts \<le> target then Some (count, d)
          else do {
            (e, d) \<leftarrow> seq_earlier_core R (fst (look count)) (snd (look count)) d;
            if e \<noteq> None then earlier_by_time R look target (count + 1) d else Some (count, d)
          })
   }"

partial_function (option) later_by_time ::
  "'r rope_ops \<Rightarrow> nat \<Rightarrow> (nat \<Rightarrow> upos \<times> mark_snapshot) \<Rightarrow> int \<Rightarrow> nat \<Rightarrow> 'r doc \<Rightarrow>
    (nat \<times> 'r doc) option" where
  "later_by_time R undo_levels look target count d = do {
     ts \<leftarrow> seq_later_timestamp (doc_undo d);
     (case ts of
        None \<Rightarrow> Some (count, d)
      | Some ts \<Rightarrow>
          if target < ts then Some (count, d)
          else do {
            (e, d) \<leftarrow> seq_later_core R undo_levels (fst (look count)) (snd (look count)) d;
            if e \<noteq> None then later_by_time R undo_levels look target (count + 1) d else Some (count, d)
          })
   }"

definition clear_undo_redo :: "'r rope_ops \<Rightarrow> 'r doc \<Rightarrow> 'r doc option" where
  "clear_undo_redo R d = do {
     t \<leftarrow> clear_all R (doc_undo d);
     Some (d\<lparr>doc_undo := t\<rparr>)
   }"

section \<open>The same operations over full snapshots\<close>

type_synonym adoc = "(rstring, snap_tree) document"

definition a_restore :: "snap_entry option \<Rightarrow> adoc \<Rightarrow> adoc" where
  "a_restore e S = (case e of None \<Rightarrow> S | Some e \<Rightarrow> S\<lparr>doc_text := se_text e, doc_gen := doc_gen S + 1\<rparr>)"

definition a_cap :: "nat \<Rightarrow> snap_tree \<Rightarrow> snap_tree \<Rightarrow> bool" where
  "a_cap levels A B = (if levels = 0 then B = A else s_cap levels A B \<and> keeps A B \<and> s_size B \<le> levels + 1)"

definition a_push :: "nat \<Rightarrow> upos \<Rightarrow> int \<Rightarrow> mark_snapshot \<Rightarrow> adoc \<Rightarrow> adoc \<Rightarrow> bool" where
  "a_push levels cursor ts marks S S' \<longleftrightarrow>
     (\<exists>child B. st_nodes (doc_undo S) child = None \<and>
        a_cap levels (s_push child \<lparr>se_text = doc_text S, se_cursor = cursor, se_timestamp = ts,
          se_marks = marks\<rparr> (doc_undo S)) B \<and>
        S' = S\<lparr>doc_undo := s_clear_redo B\<rparr>)"

definition a_undo :: "upos \<Rightarrow> mark_snapshot \<Rightarrow> adoc \<Rightarrow> snap_entry option \<Rightarrow> adoc \<Rightarrow> bool" where
  "a_undo cursor marks S e S' \<longleftrightarrow>
     (\<exists>A. s_undo (doc_text S) cursor marks (doc_undo S) = (e, A) \<and>
        S' = a_restore e (S\<lparr>doc_undo := A\<rparr>))"

definition a_redo :: "nat \<Rightarrow> upos \<Rightarrow> mark_snapshot \<Rightarrow> adoc \<Rightarrow> snap_entry option \<Rightarrow> adoc \<Rightarrow> bool" where
  "a_redo levels cursor marks S e S' \<longleftrightarrow>
     (\<exists>A B. s_redo (doc_text S) cursor marks (doc_undo S) = (e, A) \<and>
        (if e = None then B = A else a_cap levels A B) \<and> S' = a_restore e (S\<lparr>doc_undo := B\<rparr>))"

definition a_earlier :: "upos \<Rightarrow> mark_snapshot \<Rightarrow> adoc \<Rightarrow> snap_entry option \<Rightarrow> adoc \<Rightarrow> bool" where
  "a_earlier cursor marks S e S' \<longleftrightarrow>
     (\<exists>A. s_earlier (doc_undo S) (doc_text S) cursor marks e A \<and>
        S' = a_restore e (S\<lparr>doc_undo := A\<rparr>))"

definition a_later :: "nat \<Rightarrow> upos \<Rightarrow> mark_snapshot \<Rightarrow> adoc \<Rightarrow> snap_entry option \<Rightarrow> adoc \<Rightarrow> bool" where
  "a_later levels cursor marks S e S' \<longleftrightarrow>
     (\<exists>A B. s_later (doc_undo S) (doc_text S) cursor marks e A \<and>
        (if e = None then B = A else a_cap levels A B) \<and> S' = a_restore e (S\<lparr>doc_undo := B\<rparr>))"

definition drefines :: "'r rope_ops \<Rightarrow> 'r doc \<Rightarrow> adoc \<Rightarrow> bool" where
  "drefines R d S \<longleftrightarrow>
     refines R (doc_undo d) (doc_undo S) \<and> spec_wf (doc_undo S) \<and>
     live_fits (doc_undo S) (doc_text S) \<and> rp_text R (doc_text d) = doc_text S \<and>
     doc_gen d = doc_gen S \<and> doc_depth d = doc_depth S \<and> doc_armed d = doc_armed S \<and>
     doc_open_gen d = doc_open_gen S"

lemma drefinesD:
  assumes "drefines R d S"
  shows "refines R (doc_undo d) (doc_undo S)" and "spec_wf (doc_undo S)"
    and "live_fits (doc_undo S) (doc_text S)" and "rp_text R (doc_text d) = doc_text S"
    and "doc_gen d = doc_gen S" and "doc_depth d = doc_depth S" and "doc_armed d = doc_armed S"
    and "doc_open_gen d = doc_open_gen S"
  using assms by (simp_all add: drefines_def)

text \<open>Replacing the tree, with the text untouched or restored from the entry of the
  current node.\<close>

lemma drefines_tree:
  assumes "drefines R d S" and "refines R t A" and "spec_wf A" and "live_fits A (doc_text S)"
  shows "drefines R (d\<lparr>doc_undo := t\<rparr>) (S\<lparr>doc_undo := A\<rparr>)"
  using assms by (simp add: drefines_def)

lemma drefines_restore:
  assumes R: "rope_laws R" and "drefines R d S" and "refines R t A" and "spec_wf A"
    and e: "abs_entry R e = se" and cur: "se_text se = sn_text (snode A (st_current A))"
  shows "drefines R (restore_rope R (ue_rope e) (d\<lparr>doc_undo := t\<rparr>))
    (a_restore (Some se) (S\<lparr>doc_undo := A\<rparr>))"
proof -
  have "rp_text R (rp_from_str R (rp_text R (ue_rope e))) = se_text se"
    using rope_from_str [OF R] rope_valid [OF R] e by (auto simp: abs_entry_def)
  then show ?thesis
    using assms(2-4) cur
    by (simp add: drefines_def restore_rope_def replace_all_def a_restore_def live_fits_def)
qed

lemma cap_tree_refines:
  assumes R: "rope_laws R" and r: "refines R t A" and wf: "spec_wf A"
  shows "\<exists>t' B. cap_tree R levels t = Some t' \<and> a_cap levels A B \<and> refines R t' B \<and> spec_wf B \<and>
    keeps A B"
proof (cases "levels = 0")
  case True
  then have "cap_tree R levels t = Some t" "a_cap levels A A" by (simp_all add: cap_tree_def a_cap_def)
  then show ?thesis using r wf keeps_refl [of A] by blast
next
  case False
  then have "1 \<le> levels" by simp
  from cap_refines [OF R r wf this] obtain t' B where B: "cap_tree R levels t = Some t'"
    "s_cap levels A B" "refines R t' B" "spec_wf B" "keeps A B" "live_count t' - 1 \<le> levels" by blast
  then have "a_cap levels A B" using False live_count_refines [OF B(3)] by (simp add: a_cap_def)
  then show ?thesis using B by blast
qed

lemma keeps_current:
  assumes "keeps A B" and "spec_wf B"
  shows "snode_keeps (snode A (st_current A)) (snode B (st_current B))" and "st_current B = st_current A"
  using keepsD(3) [OF assms(1), of "st_current B"] keepsD(1) [OF assms(1)] spec_wfD(3) [OF assms(2)]
  by (auto simp: snode_simps)

lemma doc_new_refines:
  assumes R: "rope_laws R" and "valid_str s"
  shows "drefines R (doc_new R s now) \<lparr>doc_text = s, doc_gen = 0, doc_undo = s_new s now, doc_depth = 0,
    doc_armed = False, doc_open_gen = 0\<rparr>"
  using new_tree_refines [OF R, of "rp_from_str R s" now] rope_from_str [OF R assms(2)] s_new_wf [of s now]
  by (simp add: drefines_def doc_new_def live_fits_def s_new_def snode_def)

section \<open>Each operation keeps the promise\<close>

lemma s_push_current:
  "st_current (s_push child e A) = child"
  "sn_children (snode (s_push child e A) child) = []"
  "sn_text (snode (s_push child e A) child) = se_text e"
  by (simp_all add: s_push_def Let_def snode_def)

lemma s_undo_entry:
  "s_undo x c m A = (Some se, A') \<Longrightarrow> se_text se = sn_text (snode A' (st_current A'))"
  by (auto simp: s_undo_def Let_def s_entry_def split: option.splits)

lemma s_redo_entry:
  "s_redo x c m A = (Some se, A') \<Longrightarrow> se_text se = sn_text (snode A' (st_current A'))"
  by (auto simp: s_redo_def Let_def s_entry_def split: option.splits)

lemma s_move_entry:
  "(Some se, A') = s_move i x c m A \<Longrightarrow> se_text se = sn_text (snode A' (st_current A'))"
  by (auto simp: s_move_def Let_def s_entry_def)

lemma push_undo_refines:
  assumes R: "rope_laws R" and d: "drefines R d S" and out: "\<not> (undo_group_active d \<and> doc_armed d)"
  shows "\<exists>d' S'. push_undo_at R levels cursor ts marks d = Some d' \<and>
    a_push levels cursor ts marks (S\<lparr>doc_armed := doc_armed S \<or> undo_group_active d\<rparr>) S' \<and> drefines R d' S' \<and>
    sn_children (snode (doc_undo S') (st_current (doc_undo S'))) = []"
proof -
  note D = drefinesD [OF d]
  let ?e = "\<lparr>ue_rope = doc_text d, ue_cursor = cursor, ue_timestamp = ts, ue_marks = marks\<rparr>"
  let ?se = "\<lparr>se_text = doc_text S, se_cursor = cursor, se_timestamp = ts, se_marks = marks\<rparr>"
  define d0 where "d0 = d\<lparr>doc_armed := doc_armed S \<or> undo_group_active d\<rparr>"
  define S0 where "S0 = S\<lparr>doc_armed := doc_armed S \<or> undo_group_active d\<rparr>"
  have d0: "drefines R d0 S0" using d by (simp add: d0_def S0_def drefines_def)
  have ae: "abs_entry R ?e = ?se" using D(4) by (simp add: abs_entry_def)
  have "live_fits (doc_undo S) (rp_text R (ue_rope ?e))" using D(3,4) by simp
  from push_refines [OF R D(1,2) this, unfolded ae]
  obtain child t1 where t1: "push R ?e (doc_undo d) = Some t1" "st_nodes (doc_undo S) child = None"
    "refines R t1 (s_push child ?se (doc_undo S))" by auto
  note w1 = s_push_wf [OF D(2) t1(2), of ?se]
  from cap_tree_refines [OF R t1(3) w1, of levels] obtain t2 B where t2: "cap_tree R levels t1 = Some t2"
    "a_cap levels (s_push child ?se (doc_undo S)) B" "refines R t2 B" "spec_wf B"
    "keeps (s_push child ?se (doc_undo S)) B" by blast
  from clear_redo_refines [OF t2(3,4)] obtain t3 where t3: "clear_redo t2 = Some t3"
    "refines R t3 (s_clear_redo B)" by blast
  note w3 = s_clear_redo_wf [OF t2(4)]
  have leaf: "sn_children (snode (s_clear_redo B) (st_current (s_clear_redo B))) = []"
    using spec_wfD(3) [OF t2(4)] by (auto simp: snode_def s_clear_redo_lookup below_def)
  have "push_undo_at R levels cursor ts marks d = Some (d0\<lparr>doc_undo := t3\<rparr>)"
    using out t1(1) t2(1) t3(1) D(7)
    by (auto simp: push_undo_at_def undo_group_arm_def d0_def Let_def)
  moreover have "a_push levels cursor ts marks S0 (S0\<lparr>doc_undo := s_clear_redo B\<rparr>)"
    unfolding a_push_def using t1(2) t2(2) by (auto simp: S0_def)
  moreover have "drefines R (d0\<lparr>doc_undo := t3\<rparr>) (S0\<lparr>doc_undo := s_clear_redo B\<rparr>)"
    using d0 t3(2) w3 leaf by (intro drefines_tree) (simp_all add: live_fits_def)
  ultimately show ?thesis using leaf unfolding S0_def by fastforce
qed

lemma undo_core_refines:
  assumes R: "rope_laws R" and d: "drefines R d S"
  shows "\<exists>e d' S'. undo_core R cursor marks d = Some (e, d') \<and>
    a_undo cursor marks S (map_option (abs_entry R) e) S' \<and> drefines R d' S'"
proof -
  note D = drefinesD [OF d]
  let ?A = "doc_undo S"
  note w = spec_wfD [OF D(2)]
  obtain a where a: "st_nodes ?A (st_current ?A) = Some a" using w(3) by blast
  obtain n where n: "node_get (doc_undo d) (st_current ?A) = Some n"
    "node_ok R (st_nodes ?A) (on_chain ?A) (st_current ?A) n a" using refines_live [OF D(1) a] .
  have cur: "ut_current (doc_undo d) = st_current ?A" using D(1) by (simp add: refines_sim)
  have root: "is_at_root (doc_undo d) = Some (sn_parent a = None)"
    using n(1) node_okD(1) [OF n(2)] cur by (simp add: is_at_root_def)
  have fits: "live_fits ?A (rp_text R (doc_text d))" using D(3,4) by simp
  from undo_refines [OF R D(1,2) fits, of cursor marks, unfolded D(4)]
  obtain e t' where t': "undo_step R (doc_text d) cursor marks (doc_undo d) = Some (e, t')"
    "(map_option (abs_entry R) e, snd (s_undo (doc_text S) cursor marks ?A)) =
      s_undo (doc_text S) cursor marks ?A"
    "refines R t' (snd (s_undo (doc_text S) cursor marks ?A))" by blast
  define A' where "A' = snd (s_undo (doc_text S) cursor marks ?A)"
  have s: "s_undo (doc_text S) cursor marks ?A = (map_option (abs_entry R) e, A')"
    using t'(2) unfolding A'_def by (rule sym)
  have w': "spec_wf A'" unfolding A'_def by (rule s_undo_wf [OF D(2)])
  show ?thesis
  proof (cases "sn_parent a")
    case None
    have "s_undo (doc_text S) cursor marks ?A = (None, ?A)"
      using None by (simp add: s_undo_def Let_def spar_Some [OF a])
    then have "a_undo cursor marks S None S" by (simp add: a_undo_def a_restore_def)
    then show ?thesis using root None d by (auto simp: undo_core_def)
  next
    case (Some p)
    then have "fst (s_undo (doc_text S) cursor marks ?A) \<noteq> None"
      by (simp add: s_undo_def Let_def spar_Some [OF a])
    then obtain e' where e: "e = Some e'" using s by (cases e) simp_all
    then have e': "e = Some e'" "se_text (abs_entry R e') = sn_text (snode A' (st_current A'))"
      using s_undo_entry [of _ _ _ _ "abs_entry R e'"] s by simp_all
    have "drefines R (restore_rope R (ue_rope e') (d\<lparr>doc_undo := t'\<rparr>))
        (a_restore (Some (abs_entry R e')) (S\<lparr>doc_undo := A'\<rparr>))"
      by (rule drefines_restore [OF R d t'(3) [folded A'_def] w' refl e'(2)])
    moreover have "a_undo cursor marks S (map_option (abs_entry R) e)
        (a_restore (Some (abs_entry R e')) (S\<lparr>doc_undo := A'\<rparr>))"
      using s e'(1) by (simp add: a_undo_def)
    ultimately show ?thesis using root Some t'(1) e'(1) by (auto simp: undo_core_def)
  qed
qed

text \<open>A step that lands on a node, then trims the tree and restores the entry.\<close>

lemma land_refines:
  assumes R: "rope_laws R" and d: "drefines R d S" and r: "refines R t A" and wf: "spec_wf A"
    and e: "se_text (abs_entry R e) = sn_text (snode A (st_current A))"
  shows "\<exists>t' B. cap_tree R levels t = Some t' \<and> a_cap levels A B \<and>
    drefines R (restore_rope R (ue_rope e) (d\<lparr>doc_undo := t'\<rparr>))
      (a_restore (Some (abs_entry R e)) (S\<lparr>doc_undo := B\<rparr>))"
proof -
  from cap_tree_refines [OF R r wf, of levels] obtain t' B where B: "cap_tree R levels t = Some t'"
    "a_cap levels A B" "refines R t' B" "spec_wf B" "keeps A B" by blast
  have "se_text (abs_entry R e) = sn_text (snode B (st_current B))"
    using keeps_current(1) [OF B(5,4)] e by (simp add: snode_keeps_def)
  from drefines_restore [OF R d B(3,4) refl this] B(1,2) show ?thesis by blast
qed

lemma redo_core_refines:
  assumes R: "rope_laws R" and d: "drefines R d S"
  shows "\<exists>e d' S'. redo_core R levels cursor marks d = Some (e, d') \<and>
    a_redo levels cursor marks S (map_option (abs_entry R) e) S' \<and> drefines R d' S'"
proof -
  note D = drefinesD [OF d]
  let ?A = "doc_undo S"
  note w = spec_wfD [OF D(2)]
  obtain a where a: "st_nodes ?A (st_current ?A) = Some a" using w(3) by blast
  obtain n where n: "node_get (doc_undo d) (st_current ?A) = Some n"
    "node_ok R (st_nodes ?A) (on_chain ?A) (st_current ?A) n a" using refines_live [OF D(1) a] .
  have cur: "ut_current (doc_undo d) = st_current ?A" using D(1) by (simp add: refines_sim)
  have redo: "has_redo (doc_undo d) = Some (sn_last a \<noteq> None)"
    using n(1) node_okD(3) [OF n(2)] cur by (simp add: has_redo_def)
  have fits: "live_fits ?A (rp_text R (doc_text d))" using D(3,4) by simp
  from redo_refines [OF R D(1,2) fits, of cursor marks, unfolded D(4)]
  obtain e t' where t': "redo_step R (doc_text d) cursor marks (doc_undo d) = Some (e, t')"
    "(map_option (abs_entry R) e, snd (s_redo (doc_text S) cursor marks ?A)) =
      s_redo (doc_text S) cursor marks ?A"
    "refines R t' (snd (s_redo (doc_text S) cursor marks ?A))" by blast
  define A' where "A' = snd (s_redo (doc_text S) cursor marks ?A)"
  have s: "s_redo (doc_text S) cursor marks ?A = (map_option (abs_entry R) e, A')"
    using t'(2) unfolding A'_def by (rule sym)
  have w': "spec_wf A'" unfolding A'_def by (rule s_redo_wf [OF D(2)])
  show ?thesis
  proof (cases "sn_last a")
    case None
    have "s_redo (doc_text S) cursor marks ?A = (None, ?A)"
      using None by (simp add: s_redo_def Let_def snode_simps [OF a])
    then have "a_redo levels cursor marks S None S" by (simp add: a_redo_def a_restore_def)
    then show ?thesis using redo None d by (auto simp: redo_core_def)
  next
    case (Some c)
    then have "fst (s_redo (doc_text S) cursor marks ?A) \<noteq> None"
      by (simp add: s_redo_def Let_def snode_simps [OF a])
    then obtain e' where e: "e = Some e'" using s by (cases e) simp_all
    then have e': "se_text (abs_entry R e') = sn_text (snode A' (st_current A'))"
      using s_redo_entry [of _ _ _ _ "abs_entry R e'"] s by simp
    from land_refines [OF R d t'(3) [folded A'_def] w' e', of levels] obtain t2 B where
      t2: "cap_tree R levels t' = Some t2" "a_cap levels A' B"
      "drefines R (restore_rope R (ue_rope e') (d\<lparr>doc_undo := t2\<rparr>))
        (a_restore (Some (abs_entry R e')) (S\<lparr>doc_undo := B\<rparr>))" by blast
    have "a_redo levels cursor marks S (map_option (abs_entry R) e)
        (a_restore (Some (abs_entry R e')) (S\<lparr>doc_undo := B\<rparr>))"
      using s e t2(2) by (auto simp: a_redo_def)
    then show ?thesis using redo Some t'(1) e t2(1,3) by (auto simp: redo_core_def)
  qed
qed

lemma s_earlier_entry:
  "s_earlier A x c m (Some se) A' \<Longrightarrow> se_text se = sn_text (snode A' (st_current A'))"
  by (auto simp: s_earlier_def intro: s_move_entry)

lemma s_later_entry:
  "s_later A x c m (Some se) A' \<Longrightarrow> se_text se = sn_text (snode A' (st_current A'))"
  by (auto simp: s_later_def intro: s_move_entry)

lemma s_earlier_none: "s_earlier A x c m None A' \<Longrightarrow> A' = A"
  by (auto simp: s_earlier_def s_move_def Let_def)

lemma s_later_none: "s_later A x c m None A' \<Longrightarrow> A' = A"
  by (auto simp: s_later_def s_move_def Let_def)

lemma earlier_core_refines:
  assumes R: "rope_laws R" and d: "drefines R d S"
  shows "\<exists>e d' S'. seq_earlier_core R cursor marks d = Some (e, d') \<and>
    a_earlier cursor marks S (map_option (abs_entry R) e) S' \<and> drefines R d' S'"
proof -
  note D = drefinesD [OF d]
  have "live_fits (doc_undo S) (rp_text R (doc_text d))" using D(3,4) by simp
  from earlier_refines [OF R D(1,2) this, of cursor marks, unfolded D(4)]
  obtain e t' A' where t': "seq_earlier_step R (doc_text d) cursor marks (doc_undo d) = Some (e, t')"
    "s_earlier (doc_undo S) (doc_text S) cursor marks (map_option (abs_entry R) e) A'"
    "refines R t' A'" "spec_wf A'" by blast
  show ?thesis
  proof (cases e)
    case None
    then have "A' = doc_undo S" using t'(2) s_earlier_none by simp
    then have "drefines R (d\<lparr>doc_undo := t'\<rparr>) (S\<lparr>doc_undo := A'\<rparr>)"
      using d t'(3,4) D(3) by (intro drefines_tree) simp_all
    moreover have "a_earlier cursor marks S None (S\<lparr>doc_undo := A'\<rparr>)"
      using t'(2) None by (auto simp: a_earlier_def a_restore_def)
    ultimately show ?thesis using t'(1) None by (auto simp: seq_earlier_core_def)
  next
    case (Some e')
    then have e': "se_text (abs_entry R e') = sn_text (snode A' (st_current A'))"
      using t'(2) s_earlier_entry by simp
    have "a_earlier cursor marks S (Some (abs_entry R e'))
        (a_restore (Some (abs_entry R e')) (S\<lparr>doc_undo := A'\<rparr>))"
      using t'(2) Some by (auto simp: a_earlier_def)
    then show ?thesis
      using t'(1) Some drefines_restore [OF R d t'(3,4) refl e'] by (auto simp: seq_earlier_core_def)
  qed
qed

lemma later_core_refines:
  assumes R: "rope_laws R" and d: "drefines R d S"
  shows "\<exists>e d' S'. seq_later_core R levels cursor marks d = Some (e, d') \<and>
    a_later levels cursor marks S (map_option (abs_entry R) e) S' \<and> drefines R d' S'"
proof -
  note D = drefinesD [OF d]
  have "live_fits (doc_undo S) (rp_text R (doc_text d))" using D(3,4) by simp
  from later_refines [OF R D(1,2) this, of cursor marks, unfolded D(4)]
  obtain e t' A' where t': "seq_later_step R (doc_text d) cursor marks (doc_undo d) = Some (e, t')"
    "s_later (doc_undo S) (doc_text S) cursor marks (map_option (abs_entry R) e) A'"
    "refines R t' A'" "spec_wf A'" by blast
  show ?thesis
  proof (cases e)
    case None
    then have "A' = doc_undo S" using t'(2) s_later_none by simp
    then have "drefines R (d\<lparr>doc_undo := t'\<rparr>) (S\<lparr>doc_undo := A'\<rparr>)"
      using d t'(3,4) D(3) by (intro drefines_tree) simp_all
    moreover have "a_later levels cursor marks S None (S\<lparr>doc_undo := A'\<rparr>)"
      using t'(2) None by (auto simp: a_later_def a_restore_def)
    ultimately show ?thesis using t'(1) None by (auto simp: seq_later_core_def)
  next
    case (Some e')
    then have e': "se_text (abs_entry R e') = sn_text (snode A' (st_current A'))"
      using t'(2) s_later_entry by simp
    from land_refines [OF R d t'(3,4) e', of levels] obtain t2 B where
      t2: "cap_tree R levels t' = Some t2" "a_cap levels A' B"
      "drefines R (restore_rope R (ue_rope e') (d\<lparr>doc_undo := t2\<rparr>))
        (a_restore (Some (abs_entry R e')) (S\<lparr>doc_undo := B\<rparr>))" by blast
    have "a_later levels cursor marks S (Some (abs_entry R e'))
        (a_restore (Some (abs_entry R e')) (S\<lparr>doc_undo := B\<rparr>))"
      using t'(2) Some t2(2) by (auto simp: a_later_def)
    then show ?thesis using t'(1) Some t2(1,3) by (auto simp: seq_later_core_def)
  qed
qed

lemma pop_last_undo_refines:
  assumes d: "drefines R d S" and fits: "live_fits (snd (s_pop (doc_undo S))) (doc_text S)"
  shows "\<exists>d'. pop_last_undo d = Some (fst (s_pop (doc_undo S)), d') \<and>
    drefines R d' (S\<lparr>doc_undo := snd (s_pop (doc_undo S))\<rparr>)"
proof -
  note D = drefinesD [OF d]
  from pop_refines [OF D(1,2)] obtain t' where t': "pop_committed (doc_undo d) =
      Some (fst (s_pop (doc_undo S)), t')" "refines R t' (snd (s_pop (doc_undo S)))" by blast
  have "drefines R (d\<lparr>doc_undo := t'\<rparr>) (S\<lparr>doc_undo := snd (s_pop (doc_undo S))\<rparr>)"
    using d t'(2) s_pop_wf [OF D(2)] fits by (rule drefines_tree)
  then show ?thesis using t'(1) by (simp add: pop_last_undo_def)
qed

lemma clear_undo_redo_refines:
  assumes R: "rope_laws R" and d: "drefines R d S"
  shows "\<exists>d'. clear_undo_redo R d = Some d' \<and> drefines R d' (S\<lparr>doc_undo := s_clear_all (doc_undo S)\<rparr>)"
proof -
  note D = drefinesD [OF d]
  from clear_all_refines [OF R D(1,2)] obtain t' where t': "clear_all R (doc_undo d) = Some t'"
    "refines R t' (s_clear_all (doc_undo S))" by blast
  obtain a where a: "st_nodes (doc_undo S) (st_current (doc_undo S)) = Some a"
    using spec_wfD(3) [OF D(2)] by blast
  have "live_fits (s_clear_all (doc_undo S)) (doc_text S)"
    using a by (simp add: live_fits_def snode_def s_clear_all_lookup) (simp add: s_clear_all_def s_delete_def)
  then have "drefines R (d\<lparr>doc_undo := t'\<rparr>) (S\<lparr>doc_undo := s_clear_all (doc_undo S)\<rparr>)"
    using d t'(2) s_clear_all_wf [OF D(2)] by (intro drefines_tree)
  then show ?thesis using t'(1) by (simp add: clear_undo_redo_def)
qed

lemma edit_refines:
  assumes d: "drefines R d S" and leaf: "sn_children (snode (doc_undo S) (st_current (doc_undo S))) = []"
  shows "drefines R (d\<lparr>doc_text := r, doc_gen := doc_gen d + 1\<rparr>)
    (S\<lparr>doc_text := rp_text R r, doc_gen := doc_gen S + 1\<rparr>)"
  using d leaf by (simp add: drefines_def live_fits_def)

end
