(* ===== verification/UndoProps.thy ===== *)
theory UndoProps
  imports UndoSession
begin

text \<open>
  Editing sessions: sequences of the commands that drive the history of a document, run
  over the tree of \<open>UndoTree\<close> and over full snapshots, and the properties of the undo tree
  that follow.
\<close>

section \<open>Sessions\<close>

text \<open>A command pushes the pre-edit state before it edits.  \<open>Change\<close> stands for one command with
  all its edits, \<open>Push\<close> for one that pushed and edited nothing (the arming of \<open>:normal\<close>), \<open>NoChange\<close>
  for one that pushed, matched nothing and dropped its boundary again (\<open>:s\<close>), \<open>Group\<close> for a
  composed command (\<open>:g\<close>, \<open>:normal\<close>, a macro) with the commands it runs, groups among them.\<close>

type_synonym 'r change = "upos \<times> int \<times> mark_snapshot \<times> 'r"

datatype 'r command =
    Change "'r change"
  | Push upos int mark_snapshot
  | NoChange upos int mark_snapshot
  | Group "'r command list"
  | Undo upos mark_snapshot
  | Redo upos mark_snapshot
  | Earlier upos mark_snapshot
  | Later upos mark_snapshot
  | ClearHistory

definition edit :: "'x \<Rightarrow> ('x, 't) document \<Rightarrow> ('x, 't) document" where
  "edit r d = d\<lparr>doc_text := r, doc_gen := doc_gen d + 1\<rparr>"

fun run_change :: "'r rope_ops \<Rightarrow> nat \<Rightarrow> 'r change \<Rightarrow> 'r doc \<Rightarrow> 'r doc option" where
  "run_change R levels (cursor, ts, marks, r) d = do {
     d \<leftarrow> push_undo_at R levels cursor ts marks d;
     Some (edit r d)
   }"

text \<open>The results are the entries that the steps through the history restored.\<close>

fun run_command ::
    "'r rope_ops \<Rightarrow> nat \<Rightarrow> 'r command \<Rightarrow> 'r doc \<Rightarrow> ('r undo_entry option list \<times> 'r doc) option"
  and run ::
    "'r rope_ops \<Rightarrow> nat \<Rightarrow> 'r command list \<Rightarrow> 'r doc \<Rightarrow> ('r undo_entry option list \<times> 'r doc) option" where
  "run_command R levels (Change c) d = map_option (Pair []) (run_change R levels c d)"
| "run_command R levels (Push cursor ts marks) d = map_option (Pair []) (push_undo_at R levels cursor ts marks d)"
| "run_command R levels (NoChange cursor ts marks) d = do {
     d \<leftarrow> push_undo_at R levels cursor ts marks d;
     (popped, d) \<leftarrow> pop_last_undo d;
     Some ([], d)
   }"
| "run_command R levels (Group cs) d = do {
     (es, d) \<leftarrow> run R levels cs (undo_group_enter d);
     d \<leftarrow> undo_group_exit d;
     Some (es, d)
   }"
| "run_command R levels (Undo cursor marks) d = map_option (map_prod (\<lambda>e. [e]) id) (undo_core R cursor marks d)"
| "run_command R levels (Redo cursor marks) d = map_option (map_prod (\<lambda>e. [e]) id) (redo_core R levels cursor marks d)"
| "run_command R levels (Earlier cursor marks) d = map_option (map_prod (\<lambda>e. [e]) id) (seq_earlier_core R cursor marks d)"
| "run_command R levels (Later cursor marks) d = map_option (map_prod (\<lambda>e. [e]) id) (seq_later_core R levels cursor marks d)"
| "run_command R levels ClearHistory d = map_option (Pair []) (clear_undo_redo R d)"
| "run R levels [] d = Some ([], d)"
| "run R levels (c # cs) d = do {
     (es, d) \<leftarrow> run_command R levels c d;
     (es', d) \<leftarrow> run R levels cs d;
     Some (es @ es', d)
   }"

text \<open>The same over full snapshots: a group takes one snapshot, before its first change, and
  drops it at its end when nothing has happened.\<close>

definition a_begin :: "nat \<Rightarrow> upos \<Rightarrow> int \<Rightarrow> mark_snapshot \<Rightarrow> adoc \<Rightarrow> adoc \<Rightarrow> bool" where
  "a_begin levels cursor ts marks S S' \<longleftrightarrow>
     (if undo_group_active S \<and> doc_armed S then S' = S
      else a_push levels cursor ts marks (S\<lparr>doc_armed := doc_armed S \<or> undo_group_active S\<rparr>) S')"

definition a_drop :: "adoc \<Rightarrow> adoc" where
  "a_drop S = S\<lparr>doc_undo := snd (s_pop (doc_undo S))\<rparr>"

definition a_exit :: "adoc \<Rightarrow> adoc" where
  "a_exit S =
     (if doc_depth S = 0 then S
      else let S = S\<lparr>doc_depth := doc_depth S - 1\<rparr> in
        if doc_depth S = 0
        then (if doc_armed S \<and> doc_gen S = doc_open_gen S then a_drop S else S)\<lparr>doc_armed := False\<rparr>
        else S)"

fun a_command ::
    "'r rope_ops \<Rightarrow> nat \<Rightarrow> 'r command \<Rightarrow> adoc \<Rightarrow> snap_entry option list \<Rightarrow> adoc \<Rightarrow> bool"
  and a_run ::
    "'r rope_ops \<Rightarrow> nat \<Rightarrow> 'r command list \<Rightarrow> adoc \<Rightarrow> snap_entry option list \<Rightarrow> adoc \<Rightarrow> bool" where
  "a_command R levels (Change (cursor, ts, marks, r)) S es S' \<longleftrightarrow> es = [] \<and>
     (\<exists>S1. a_begin levels cursor ts marks S S1 \<and> S' = edit (rp_text R r) S1)"
| "a_command R levels (Push cursor ts marks) S es S' \<longleftrightarrow> es = [] \<and> a_begin levels cursor ts marks S S'"
| "a_command R levels (NoChange cursor ts marks) S es S' \<longleftrightarrow> es = [] \<and>
     (\<exists>S1. a_begin levels cursor ts marks S S1 \<and> S' = a_drop S1)"
| "a_command R levels (Group cs) S es S' \<longleftrightarrow>
     (\<exists>S1. a_run R levels cs (undo_group_enter S) es S1 \<and> S' = a_exit S1)"
| "a_command R levels (Undo cursor marks) S es S' \<longleftrightarrow> (\<exists>e. es = [e] \<and> a_undo cursor marks S e S')"
| "a_command R levels (Redo cursor marks) S es S' \<longleftrightarrow> (\<exists>e. es = [e] \<and> a_redo levels cursor marks S e S')"
| "a_command R levels (Earlier cursor marks) S es S' \<longleftrightarrow> (\<exists>e. es = [e] \<and> a_earlier cursor marks S e S')"
| "a_command R levels (Later cursor marks) S es S' \<longleftrightarrow> (\<exists>e. es = [e] \<and> a_later levels cursor marks S e S')"
| "a_command R levels ClearHistory S es S' \<longleftrightarrow> es = [] \<and> S' = S\<lparr>doc_undo := s_clear_all (doc_undo S)\<rparr>"
| "a_run R levels [] S es S' \<longleftrightarrow> es = [] \<and> S' = S"
| "a_run R levels (c # cs) S es S' \<longleftrightarrow>
     (\<exists>es1 es2 S1. es = es1 @ es2 \<and> a_command R levels c S es1 S1 \<and> a_run R levels cs S1 es2 S')"

section \<open>Sound sessions\<close>

text \<open>
  Where a session stands: outside every group, in a group that has not armed its snapshot, in one
  whose snapshot is the parent of the current state (\<open>Fresh\<close>), or in an armed one that has moved
  through the history since (\<open>Stale\<close>).  A sound group has no change in the stale phase (its push
  is suppressed and it would overwrite an old state, see \<open>stale_change_lost\<close>) and no \<open>:s\<close> without
  a match (its pop is not suppressed, see \<open>no_match_drops_group\<close>).
\<close>

datatype phase = Outside | Unarmed | Fresh | Stale

fun after_command :: "'r command \<Rightarrow> phase \<Rightarrow> phase option"
  and after_commands :: "'r command list \<Rightarrow> phase \<Rightarrow> phase option" where
  "after_command (Change c) ph = (case ph of Outside \<Rightarrow> Some Outside | Stale \<Rightarrow> None | _ \<Rightarrow> Some Fresh)"
| "after_command (Push cursor ts marks) ph = Some (if ph = Unarmed then Fresh else ph)"
| "after_command (NoChange cursor ts marks) ph = (if ph = Outside then Some Outside else None)"
| "after_command (Group cs) ph =
     (if ph = Outside then map_option (\<lambda>_. Outside) (after_commands cs Unarmed) else after_commands cs ph)"
| "after_command (Undo cursor marks) ph = Some (if ph = Fresh then Stale else ph)"
| "after_command (Redo cursor marks) ph = Some (if ph = Fresh then Stale else ph)"
| "after_command (Earlier cursor marks) ph = Some (if ph = Fresh then Stale else ph)"
| "after_command (Later cursor marks) ph = Some (if ph = Fresh then Stale else ph)"
| "after_command ClearHistory ph = Some (if ph = Stale then Fresh else ph)"
| "after_commands [] ph = Some ph"
| "after_commands (c # cs) ph = Option.bind (after_command c ph) (after_commands cs)"

text \<open>A group runs fewer than \<open>2 ^ 32\<close> commands, so that neither the saturating depth nor the
  wrapping generation comes round.\<close>

fun weight :: "'r command \<Rightarrow> nat" where
  "weight (Group cs) = Suc (sum_list (map weight cs))"
| "weight _ = 1"

definition command_ok :: "'r command \<Rightarrow> bool" where
  "command_ok c \<longleftrightarrow> after_command c Outside \<noteq> None \<and> weight c < 2 ^ 32"

section \<open>Every command keeps the promise\<close>

definition between :: "'r rope_ops \<Rightarrow> 'r doc \<Rightarrow> adoc \<Rightarrow> bool" where
  "between R d S \<longleftrightarrow> drefines R d S \<and> doc_depth S = 0"

lemma edit_drefines:
  "drefines R d S \<Longrightarrow> sn_children (snode (doc_undo S) (st_current (doc_undo S))) = [] \<Longrightarrow>
    drefines R (edit r d) (edit (rp_text R r) S)"
  unfolding edit_def by (rule edit_refines)

lemma a_push_heads:
  assumes "a_push levels cursor ts marks S S'"
  shows "doc_depth S' = doc_depth S" and "doc_armed S' = doc_armed S" and "doc_gen S' = doc_gen S"
    and "doc_open_gen S' = doc_open_gen S" and "doc_text S' = doc_text S"
  using assms by (auto simp: a_push_def)

text \<open>Dropping the boundary that was just pushed: the parent holds the live text.\<close>

lemma a_push_pop_fits:
  assumes p: "a_push levels cursor ts marks S S'" and wf: "spec_wf (doc_undo S')"
    and wf0: "spec_wf (doc_undo S)"
    and leaf: "sn_children (snode (doc_undo S') (st_current (doc_undo S'))) = []"
  shows "live_fits (snd (s_pop (doc_undo S'))) (doc_text S')"
proof -
  let ?e = "\<lparr>se_text = doc_text S, se_cursor = cursor, se_timestamp = ts, se_marks = marks\<rparr>"
  obtain child B where B: "st_nodes (doc_undo S) child = None"
    "a_cap levels (s_push child ?e (doc_undo S)) B" "S' = S\<lparr>doc_undo := s_clear_redo B\<rparr>"
    using p by (auto simp: a_push_def)
  let ?A1 = "s_push child ?e (doc_undo S)" and ?A = "s_clear_redo B"
  have k: "keeps ?A1 B"
    using B(2) keeps_refl [of ?A1] by (auto simp: a_cap_def split: if_splits)
  have cur: "st_current B = child" using keepsD(1) [OF k] by (simp add: s_push_current)
  have "child \<in> dom (st_nodes ?A)" using spec_wfD(3) [OF wf] B(3) cur by simp
  then obtain a where a: "st_nodes ?A child = Some a" by blast
  have dc: "child \<in> dom (st_nodes B)"
    using a by (cases "st_nodes B child") (auto simp: s_clear_redo_def s_delete_def restrict_map_def cur split: if_splits)
  then have leaf': "sn_children a = []" using leaf B(3) cur by (simp add: snode_simps [OF a])
  have inB: "\<exists>b'. st_nodes B i = Some b' \<and> sn_text b = sn_text b' \<and> sn_parent b = sn_parent b'"
    if "st_nodes ?A i = Some b" for i b
    using that s_clear_redo_lookup [of B i] dc
    by (cases "st_nodes B i") (auto simp: cur split: if_splits)
  show ?thesis
  proof (cases "sn_parent a")
    case None
    then have "snd (s_pop ?A) = ?A"
      using a leaf' by (simp add: s_pop_def cur Let_def snode_simps)
    then show ?thesis using leaf B(3) by (simp add: live_fits_def)
  next
    case (Some q)
    note w = spec_wfD [OF wf, unfolded B(3)]
    have links: "links_wf (st_nodes ?A) (st_root ?A)" using w(4) by simp
    obtain b where b: "st_nodes ?A q = Some b" using links_parent(1) [OF links a Some] by blast
    have nq: "q \<noteq> child" using links_parent(1) [OF links a Some] a by auto
    have q: "q = st_current (doc_undo S)"
    proof -
      obtain a' where a': "st_nodes B child = Some a'" "sn_parent a = sn_parent a'" using inB [OF a] by blast
      obtain a1 where "st_nodes ?A1 child = Some a1" "snode_keeps a1 a'" using keepsD(3) [OF k a'(1)] by blast
      then show ?thesis using a'(2) Some by (auto simp: snode_keeps_def s_push_def Let_def)
    qed
    have "sn_text b = doc_text S"
    proof -
      obtain b' where b': "st_nodes B q = Some b'" "sn_text b = sn_text b'" using inB [OF b] by blast
      obtain b1 where b1: "st_nodes ?A1 q = Some b1" "snode_keeps b1 b'" using keepsD(3) [OF k b'(1)] by blast
      have "sn_text b1 = doc_text S"
        using b1(1) q nq spec_wfD(3) [OF wf0]
        by (auto simp: s_push_def Let_def s_set_lookup split: if_splits)
      then show ?thesis using b'(2) b1(2) by (simp add: snode_keeps_def)
    qed
    moreover have "snd (s_pop ?A) = (s_cut q child (last_opt (filter (\<lambda>x. x \<noteq> child) (sn_children b))) ?A)
      \<lparr>st_current := q, st_next_seq := (if sn_seq a + 1 = st_next_seq ?A then st_next_seq ?A - 1
         else st_next_seq ?A)\<rparr>"
      using s_pop_cut [of ?A a q b] a leaf' Some b nq by (simp add: cur)
    ultimately show ?thesis
      using b nq B(3) by (simp add: live_fits_def snode_def s_cut_lookup)
  qed
qed


text \<open>What holds in a phase: \<open>j\<close> counts the edits and restored states since the group opened.\<close>

abbreviation leaf :: "adoc \<Rightarrow> bool" where
  "leaf S \<equiv> sn_children (snode (doc_undo S) (st_current (doc_undo S))) = []"

abbreviation droppable :: "adoc \<Rightarrow> bool" where
  "droppable S \<equiv> live_fits (snd (s_pop (doc_undo S))) (doc_text S)"

definition phase_ok :: "phase \<Rightarrow> nat \<Rightarrow> adoc \<Rightarrow> bool" where
  "phase_ok ph k S \<longleftrightarrow>
     (ph = Outside \<longleftrightarrow> doc_depth S = 0) \<and>
     (ph \<noteq> Outside \<longrightarrow> (doc_armed S \<longleftrightarrow> ph \<noteq> Unarmed) \<and> (ph = Fresh \<longrightarrow> leaf S) \<and>
        (\<exists>j \<le> k. doc_gen S = doc_open_gen S + of_nat j \<and> (doc_armed S \<and> j = 0 \<longrightarrow> droppable S)))"

lemma phase_okI:
  assumes "ph \<noteq> Outside" "doc_depth S \<noteq> 0" "doc_armed S \<longleftrightarrow> ph \<noteq> Unarmed" "ph = Fresh \<longrightarrow> leaf S"
    "j \<le> k" "doc_gen S = doc_open_gen S + of_nat j" "doc_armed S \<and> j = 0 \<longrightarrow> droppable S"
  shows "phase_ok ph k S"
  unfolding phase_ok_def using assms by auto

lemma phase_okE:
  assumes "phase_ok ph k S" "ph \<noteq> Outside"
  obtains j where "doc_depth S \<noteq> 0" "doc_armed S \<longleftrightarrow> ph \<noteq> Unarmed" "ph = Fresh \<longrightarrow> leaf S" "j \<le> k"
    "doc_gen S = doc_open_gen S + of_nat j" "doc_armed S \<and> j = 0 \<longrightarrow> droppable S"
  using assms unfolding phase_ok_def by blast

lemma phase_ok_mono: "phase_ok ph k S \<Longrightarrow> k \<le> k' \<Longrightarrow> phase_ok ph k' S"
  unfolding phase_ok_def by (meson order_trans)

lemma phase_ok_outside [simp]: "phase_ok Outside k S \<longleftrightarrow> doc_depth S = 0"
  by (simp add: phase_ok_def)

lemma begin_refines:
  assumes R: "rope_laws R" and d: "drefines R d S" and ph: "phase_ok ph k S"
  shows "\<exists>d' S'. push_undo_at R levels cursor ts marks d = Some d' \<and> a_begin levels cursor ts marks S S' \<and>
    drefines R d' S' \<and> (ph \<noteq> Stale \<longrightarrow> leaf S') \<and> (ph = Outside \<longrightarrow> droppable S') \<and>
    phase_ok (if ph = Unarmed then Fresh else ph) k S' \<and>
    doc_depth S' = doc_depth S \<and> doc_gen S' = doc_gen S \<and> doc_open_gen S' = doc_open_gen S"
proof (cases "undo_group_active S \<and> doc_armed S")
  case True
  then have act: "undo_group_active d \<and> doc_armed d"
    using drefinesD(6,7) [OF d] by (simp add: undo_group_active_def)
  then have "push_undo_at R levels cursor ts marks d = Some d"
    by (simp add: push_undo_at_def undo_group_arm_def)
  moreover have ne: "ph \<noteq> Outside" "ph \<noteq> Unarmed" using ph True by (auto simp: phase_ok_def undo_group_active_def)
  moreover have "ph \<noteq> Stale \<longrightarrow> leaf S" using ph ne by (cases ph) (auto simp: phase_ok_def)
  ultimately show ?thesis using True d ph by (auto simp: a_begin_def)
next
  case False
  have act: "undo_group_active d = undo_group_active S" "doc_armed d = doc_armed S"
    using drefinesD(6,7) [OF d] by (simp_all add: undo_group_active_def)
  let ?S = "S\<lparr>doc_armed := doc_armed S \<or> undo_group_active S\<rparr>"
  from False push_undo_refines [OF R d, of levels cursor ts marks] obtain d' S' where
    S': "push_undo_at R levels cursor ts marks d = Some d'" "a_push levels cursor ts marks ?S S'" "drefines R d' S'" "leaf S'"
    unfolding act by blast
  note h = a_push_heads [OF S'(2)]
  have fits: "droppable S'"
    using a_push_pop_fits [OF S'(2) drefinesD(2) [OF S'(3)] _ S'(4)] drefinesD(2) [OF d] by simp
  have ph': "ph = Outside \<or> ph = Unarmed" using ph False by (auto simp: phase_ok_def undo_group_active_def)
  have "phase_ok (if ph = Unarmed then Fresh else ph) k S'"
    using ph ph' h S'(4) fits by (auto simp: phase_ok_def undo_group_active_def)
  moreover have "ph = Outside \<longrightarrow> droppable S'" using fits by simp
  moreover have "a_begin levels cursor ts marks S S'" unfolding a_begin_def if_not_P [OF False] by (rule S'(2))
  ultimately show ?thesis using S'(1,3,4) h by auto
qed

text \<open>A step through the history.\<close>

definition history_step :: "adoc \<Rightarrow> adoc \<Rightarrow> bool" where
  "history_step S S' \<longleftrightarrow> doc_depth S' = doc_depth S \<and> doc_armed S' = doc_armed S \<and>
     doc_open_gen S' = doc_open_gen S \<and> (S' = S \<or> doc_gen S' = doc_gen S + 1)"

lemma restored_step:
  assumes "S' = a_restore e (S\<lparr>doc_undo := A\<rparr>)" and "e = None \<Longrightarrow> A = doc_undo S"
  shows "history_step S S'"
  using assms by (cases e) (simp_all add: history_step_def a_restore_def)

lemma history_steps:
  "a_undo cursor marks S e S' \<Longrightarrow> history_step S S'"
  "a_redo levels cursor marks S e S' \<Longrightarrow> history_step S S'"
  "a_earlier cursor marks S e S' \<Longrightarrow> history_step S S'"
  "a_later levels cursor marks S e S' \<Longrightarrow> history_step S S'"
proof -
  have u: "s_undo x cursor marks A = (None, B) \<Longrightarrow> B = A" for x A B
    by (auto simp: s_undo_def Let_def split: option.splits)
  have r: "s_redo x cursor marks A = (None, B) \<Longrightarrow> B = A" for x A B
    by (auto simp: s_redo_def Let_def split: option.splits)
  show "a_undo cursor marks S e S' \<Longrightarrow> history_step S S'"
    unfolding a_undo_def using u by (blast intro: restored_step)
  show "a_redo levels cursor marks S e S' \<Longrightarrow> history_step S S'"
    unfolding a_redo_def by (elim exE conjE) (rule restored_step, assumption, simp add: r)
  show "a_earlier cursor marks S e S' \<Longrightarrow> history_step S S'"
    unfolding a_earlier_def using s_earlier_none by (blast intro: restored_step)
  show "a_later levels cursor marks S e S' \<Longrightarrow> history_step S S'"
    unfolding a_later_def by (elim exE conjE) (rule restored_step, assumption, simp add: s_later_none)
qed

lemma history_phase:
  assumes "history_step S S'" and "phase_ok ph k S"
  shows "phase_ok (if ph = Fresh then Stale else ph) (Suc k) S' \<and> doc_depth S' = doc_depth S"
proof (cases "ph = Outside")
  case False
  from phase_okE [OF assms(2) False] obtain j where j: "doc_depth S \<noteq> 0" "doc_armed S \<longleftrightarrow> ph \<noteq> Unarmed"
    "j \<le> k" "doc_gen S = doc_open_gen S + of_nat j" "doc_armed S \<and> j = 0 \<longrightarrow> droppable S" by metis
  consider "S' = S" | "doc_gen S' = doc_gen S + 1" using assms(1) by (auto simp: history_step_def)
  then show ?thesis
  proof cases
    case 1
    then show ?thesis using j False by (auto intro!: phase_okI [where j = j])
  next
    case 2
    then have "doc_gen S' = doc_open_gen S' + of_nat (Suc j)" using j(4) assms(1) by (simp add: history_step_def)
    then show ?thesis using j assms(1) False by (auto intro!: phase_okI [where j = "Suc j"] simp: history_step_def)
  qed
qed (use assms in \<open>simp_all add: history_step_def\<close>)

text \<open>Opening and closing a group.\<close>

lemma enter_refines: "drefines R d S \<Longrightarrow> drefines R (undo_group_enter d) (undo_group_enter S)"
  by (simp add: drefines_def undo_group_enter_def Let_def)

lemma enter_outside:
  "doc_depth S = 0 \<Longrightarrow> phase_ok Unarmed 0 (undo_group_enter S) \<and> doc_depth (undo_group_enter S) = 1"
  by (simp add: undo_group_enter_def Let_def phase_ok_def)

lemma enter_inside:
  "doc_depth S \<noteq> 0 \<Longrightarrow> Suc (doc_depth S) < 2 ^ 32 \<Longrightarrow> undo_group_enter S = S\<lparr>doc_depth := Suc (doc_depth S)\<rparr>"
  by (simp add: undo_group_enter_def Let_def)

lemma phase_ok_deeper: "phase_ok ph k S \<Longrightarrow> ph \<noteq> Outside \<Longrightarrow> 0 < n \<Longrightarrow> phase_ok ph k (S\<lparr>doc_depth := n\<rparr>)"
  by (auto simp: phase_ok_def)

lemma exit_refines:
  assumes d: "drefines R d S" and drop: "doc_depth S = 1 \<and> doc_armed S \<and> doc_gen S = doc_open_gen S \<longrightarrow> droppable S"
  shows "\<exists>d'. undo_group_exit d = Some d' \<and> drefines R d' (a_exit S)"
proof -
  note D = drefinesD [OF d]
  have dd: "drefines R (d\<lparr>doc_depth := n\<rparr>) (S\<lparr>doc_depth := n\<rparr>)" for n using d by (simp add: drefines_def)
  have da: "drefines R (x\<lparr>doc_armed := False\<rparr>) (X\<lparr>doc_armed := False\<rparr>)" if "drefines R x X" for x X
    using that by (simp add: drefines_def)
  consider (none) "doc_depth S = 0" | (deep) "1 < doc_depth S"
    | (kept) "doc_depth S = 1" "\<not> (doc_armed S \<and> doc_gen S = doc_open_gen S)"
    | (dropped) "doc_depth S = 1" "doc_armed S \<and> doc_gen S = doc_open_gen S" by linarith
  then show ?thesis
  proof cases
    case none
    then show ?thesis using d D(6) by (simp add: undo_group_exit_def a_exit_def)
  next
    case deep
    then show ?thesis using dd [of "doc_depth S - 1"] D(6) by (simp add: undo_group_exit_def a_exit_def Let_def)
  next
    case kept
    then show ?thesis
      using da [OF dd [of 0]] D(5-8) by (auto simp: undo_group_exit_def a_exit_def Let_def)
  next
    case dropped
    then obtain d' where d': "pop_last_undo (d\<lparr>doc_depth := 0\<rparr>) = Some (fst (s_pop (doc_undo S)), d')"
      "drefines R d' (S\<lparr>doc_depth := 0, doc_undo := snd (s_pop (doc_undo S))\<rparr>)"
      using pop_last_undo_refines [OF dd [of 0]] drop by auto
    then show ?thesis
      using dropped D(5-8) da [OF d'(2)]
      by (auto simp: undo_group_exit_def a_exit_def a_drop_def Let_def pop_last_undo_def bind_eq_Some_conv split: prod.splits)
  qed
qed

text \<open>The phases follow the static check.\<close>

lemma phases_inside:
  fixes c :: "'r command" and cs :: "'r command list"
  shows after_inside: "after_command c ph = Some ph' \<Longrightarrow> ph \<noteq> Outside \<Longrightarrow> ph' \<noteq> Outside"
    and afters_inside: "after_commands cs ph = Some ph' \<Longrightarrow> ph \<noteq> Outside \<Longrightarrow> ph' \<noteq> Outside"
  by (induction c ph and cs ph arbitrary: ph' and ph' rule: after_command_after_commands.induct)
    (auto split: phase.splits if_splits bind_splits)

definition keeps_promise :: "'r rope_ops \<Rightarrow> nat \<Rightarrow> 'r command \<Rightarrow> bool" where
  "keeps_promise R levels c \<longleftrightarrow> (\<forall>d S ph k ph'. drefines R d S \<longrightarrow> phase_ok ph k S \<longrightarrow> after_command c ph = Some ph' \<longrightarrow>
     k + weight c < 2 ^ 32 \<longrightarrow> doc_depth S + weight c < 2 ^ 32 \<longrightarrow>
     (\<exists>es d' S'. run_command R levels c d = Some (es, d') \<and> a_command R levels c S (map (map_option (abs_entry R)) es) S' \<and>
        drefines R d' S' \<and> phase_ok ph' (k + weight c) S' \<and> doc_depth S' = doc_depth S))"

lemma keeps_promiseD:
  assumes "keeps_promise R levels c" "drefines R d S" "phase_ok ph k S" "after_command c ph = Some ph'"
    "k + weight c < 2 ^ 32" "doc_depth S + weight c < 2 ^ 32"
  obtains es d' S' where "run_command R levels c d = Some (es, d')"
    "a_command R levels c S (map (map_option (abs_entry R)) es) S'" "drefines R d' S'"
    "phase_ok ph' (k + weight c) S'" "doc_depth S' = doc_depth S"
  using assms unfolding keeps_promise_def by blast

lemma list_promise:
  assumes "\<forall>c \<in> set cs. keeps_promise R levels c" "drefines R d S" "phase_ok ph k S" "after_commands cs ph = Some ph'"
    "k + sum_list (map weight cs) < 2 ^ 32" "doc_depth S + sum_list (map weight cs) < 2 ^ 32"
  shows "\<exists>es d' S'. run R levels cs d = Some (es, d') \<and> a_run R levels cs S (map (map_option (abs_entry R)) es) S' \<and>
    drefines R d' S' \<and> phase_ok ph' (k + sum_list (map weight cs)) S' \<and> doc_depth S' = doc_depth S"
  using assms
proof (induction cs arbitrary: d S ph k)
  case (Cons c cs)
  obtain ph1 where ph1: "after_command c ph = Some ph1" "after_commands cs ph1 = Some ph'"
    using Cons.prems(4) by (auto simp: bind_eq_Some_conv)
  have "keeps_promise R levels c" using Cons.prems(1) by simp
  from keeps_promiseD [OF this Cons.prems(2,3) ph1(1)] Cons.prems(5,6) obtain es d1 S1 where
    1: "run_command R levels c d = Some (es, d1)" "a_command R levels c S (map (map_option (abs_entry R)) es) S1"
      "drefines R d1 S1" "phase_ok ph1 (k + weight c) S1" "doc_depth S1 = doc_depth S" by auto
  from Cons.IH [OF _ 1(3,4) ph1(2)] Cons.prems(1,5,6) 1(5) obtain es' d' S' where
    2: "run R levels cs d1 = Some (es', d')" "a_run R levels cs S1 (map (map_option (abs_entry R)) es') S'"
      "drefines R d' S'" "phase_ok ph' (k + weight c + sum_list (map weight cs)) S'" "doc_depth S' = doc_depth S1"
    by (auto simp: add.assoc)
  have "a_run R levels (c # cs) S (map (map_option (abs_entry R)) (es @ es')) S'" using 1(2) 2(2) by auto
  then show ?case using 1(1,5) 2(1,3,4,5) by (auto simp: add.assoc)
qed simp

lemma no_wrap: "j < 2 ^ 32 \<Longrightarrow> (of_nat j :: 64 word) = 0 \<Longrightarrow> j = 0"
  by (simp add: word_of_nat_eq_0_iff dvd_eq_mod_eq_0)

lemma group_promise:
  assumes R: "rope_laws R" and cs: "\<forall>c \<in> set cs. keeps_promise R levels c"
  shows "keeps_promise R levels (Group cs)"
  unfolding keeps_promise_def
proof (intro allI impI)
  fix d S ph k ph'
  assume d: "drefines R d S" and ph: "phase_ok ph k S" and after: "after_command (Group cs) ph = Some ph'"
    and k: "k + weight (Group cs) < 2 ^ 32" and dep: "doc_depth S + weight (Group cs) < 2 ^ 32"
  define ph0 where "ph0 = (if ph = Outside then Unarmed else ph)"
  define k0 where "k0 = (if ph = Outside then 0 else k)"
  let ?S = "undo_group_enter S" and ?w = "sum_list (map weight cs)"
  obtain ph1 where ph1: "after_commands cs ph0 = Some ph1" "ph' = (if ph = Outside then Outside else ph1)"
    using after by (auto simp: ph0_def split: if_splits)
  have in1: "ph1 \<noteq> Outside" using afters_inside [OF ph1(1)] by (simp add: ph0_def split: if_splits)
  have en: "phase_ok ph0 k0 ?S" "doc_depth ?S = Suc (doc_depth S)"
  proof (atomize (full), cases "ph = Outside")
    case True
    then show "phase_ok ph0 k0 ?S \<and> doc_depth ?S = Suc (doc_depth S)"
      using ph enter_outside [of S] by (simp add: ph0_def k0_def)
  next
    case False
    then have "doc_depth S \<noteq> 0" using ph by (auto simp: phase_ok_def)
    then show "phase_ok ph0 k0 ?S \<and> doc_depth ?S = Suc (doc_depth S)"
      using enter_inside [of S] phase_ok_deeper [OF ph False, of "Suc (doc_depth S)"] False dep by (simp add: ph0_def k0_def)
  qed
  have "k0 + ?w < 2 ^ 32" "doc_depth ?S + ?w < 2 ^ 32" using k dep en(2) by (simp_all add: k0_def)
  from list_promise [OF cs enter_refines [OF d] en(1) ph1(1) this] obtain es d1 S1 where
    1: "run R levels cs (undo_group_enter d) = Some (es, d1)" "a_run R levels cs ?S (map (map_option (abs_entry R)) es) S1"
      "drefines R d1 S1" "phase_ok ph1 (k0 + ?w) S1" "doc_depth S1 = Suc (doc_depth S)" using en(2) by auto
  from phase_okE [OF 1(4) in1] obtain j where j: "j \<le> k0 + ?w" "doc_gen S1 = doc_open_gen S1 + of_nat j"
    "doc_armed S1 \<and> j = 0 \<longrightarrow> droppable S1" by metis
  have "doc_armed S1 \<and> doc_gen S1 = doc_open_gen S1 \<longrightarrow> droppable S1"
    using j no_wrap [of j] \<open>k0 + ?w < 2 ^ 32\<close> by auto
  then obtain d2 where d2: "undo_group_exit d1 = Some d2" "drefines R d2 (a_exit S1)"
    using exit_refines [OF 1(3)] by blast
  have dep2: "doc_depth (a_exit S1) = doc_depth S" using 1(5) by (simp add: a_exit_def a_drop_def Let_def)
  have "phase_ok ph' (k + weight (Group cs)) (a_exit S1)"
  proof (cases "ph = Outside")
    case True
    then show ?thesis using ph ph1(2) dep2 by simp
  next
    case False
    then have "a_exit S1 = S1\<lparr>doc_depth := doc_depth S\<rparr>" "0 < doc_depth S"
      using ph 1(5) by (auto simp: a_exit_def Let_def phase_ok_def)
    then show ?thesis
      using phase_ok_mono [OF phase_ok_deeper [OF 1(4) in1]] ph1(2) False by (simp add: k0_def)
  qed
  then show "\<exists>es d' S'. run_command R levels (Group cs) d = Some (es, d') \<and>
      a_command R levels (Group cs) S (map (map_option (abs_entry R)) es) S' \<and>
      drefines R d' S' \<and> phase_ok ph' (k + weight (Group cs)) S' \<and> doc_depth S' = doc_depth S"
    using 1(1,2) d2 dep2 by (intro exI [of _ es] exI [of _ d2] exI [of _ "a_exit S1"]) auto
qed

lemma edit_phase:
  assumes "phase_ok ph k S" and "ph \<noteq> Stale" and "leaf S" and "ph \<noteq> Unarmed"
  shows "phase_ok ph (Suc k) (edit x S)"
proof (cases "ph = Outside")
  case False
  from phase_okE [OF assms(1) False] obtain j where j: "doc_depth S \<noteq> 0" "doc_armed S \<longleftrightarrow> ph \<noteq> Unarmed"
    "j \<le> k" "doc_gen S = doc_open_gen S + of_nat j" by metis
  then show ?thesis using False assms(3) by (auto intro!: phase_okI [where j = "Suc j"] simp: edit_def)
qed (use assms in \<open>simp add: edit_def\<close>)

lemma cleared:
  assumes "spec_wf (doc_undo S)"
  shows "sn_children (snode (s_clear_all (doc_undo S)) (st_current (s_clear_all (doc_undo S)))) = []"
    and "s_pop (s_clear_all (doc_undo S)) = (False, s_clear_all (doc_undo S))"
proof -
  let ?A = "doc_undo S"
  obtain a where a: "st_nodes ?A (st_current ?A) = Some a" using spec_wfD(3) [OF assms] by blast
  have cur: "st_current (s_clear_all ?A) = st_current ?A" by (simp add: s_clear_all_def s_delete_def)
  have n: "\<exists>b. st_nodes (s_clear_all ?A) (st_current ?A) = Some b \<and> sn_children b = [] \<and> sn_parent b = None"
    using a by (simp add: s_clear_all_lookup)
  then show "sn_children (snode (s_clear_all ?A) (st_current (s_clear_all ?A))) = []" by (auto simp: cur snode_simps)
  show "s_pop (s_clear_all ?A) = (False, s_clear_all ?A)" using n by (auto simp: s_pop_def cur snode_simps Let_def)
qed

lemma clear_phase:
  assumes "phase_ok ph k S" and wf: "spec_wf (doc_undo S)"
  shows "phase_ok (if ph = Stale then Fresh else ph) k (S\<lparr>doc_undo := s_clear_all (doc_undo S)\<rparr>)"
proof (cases "ph = Outside")
  case False
  from phase_okE [OF assms(1) False] obtain j where j: "doc_depth S \<noteq> 0" "doc_armed S \<longleftrightarrow> ph \<noteq> Unarmed"
    "j \<le> k" "doc_gen S = doc_open_gen S + of_nat j" by metis
  then show ?thesis
    using False cleared [OF wf] by (auto intro!: phase_okI [where j = j] simp: live_fits_def)
qed (use assms in simp)

text \<open>One command.\<close>

lemma step_promise:
  assumes "\<And>d S ph k ph'. drefines R d S \<Longrightarrow> phase_ok ph k S \<Longrightarrow> after_command c ph = Some ph' \<Longrightarrow>
     \<exists>es d' S'. run_command R levels c d = Some (es, d') \<and> a_command R levels c S (map (map_option (abs_entry R)) es) S' \<and>
        drefines R d' S' \<and> phase_ok ph' (Suc k) S' \<and> doc_depth S' = doc_depth S"
    and "weight c = 1"
  shows "keeps_promise R levels c"
  using assms unfolding keeps_promise_def by simp

lemma history_promise:
  assumes step: "\<And>d S. drefines R d S \<Longrightarrow> \<exists>e d' S'. f d = Some (e, d') \<and> F S (map_option (abs_entry R) e) S' \<and> drefines R d' S'"
    and steps: "\<And>S e S'. F S e S' \<Longrightarrow> history_step S S'"
    and c: "\<And>d. run_command R levels c d = map_option (map_prod (\<lambda>e. [e]) id) (f d)"
      "\<And>S es S'. a_command R levels c S es S' \<longleftrightarrow> (\<exists>e. es = [e] \<and> F S e S')"
      "\<And>ph. after_command c ph = Some (if ph = Fresh then Stale else ph)" "weight c = 1"
  shows "keeps_promise R levels c"
proof (rule step_promise [OF _ c(4)])
  fix d S ph k ph'
  assume d: "drefines R d S" and ph: "phase_ok ph k S" and after: "after_command c ph = Some ph'"
  from step [OF d] obtain e d' S' where s: "f d = Some (e, d')" "F S (map_option (abs_entry R) e) S'" "drefines R d' S'" by blast
  from history_phase [OF steps [OF s(2)] ph] after c(3)
  show "\<exists>es d' S'. run_command R levels c d = Some (es, d') \<and> a_command R levels c S (map (map_option (abs_entry R)) es) S' \<and>
        drefines R d' S' \<and> phase_ok ph' (Suc k) S' \<and> doc_depth S' = doc_depth S"
    using s by (intro exI [of _ "[e]"] exI [of _ d'] exI [of _ S']) (simp add: c(1,2))
qed

lemma change_promise:
  assumes R: "rope_laws R"
  shows "keeps_promise R levels (Change x)"
proof (rule step_promise)
  fix d S ph k ph'
  assume d: "drefines R d S" and ph: "phase_ok ph k S" and after: "after_command (Change x) ph = Some ph'"
  obtain cursor ts marks r where x: "x = (cursor, ts, marks, r)" by (cases x) auto
  have ns: "ph \<noteq> Stale" and ph': "ph' = (if ph = Unarmed then Fresh else ph)"
    using after by (auto split: phase.splits)
  from begin_refines [OF R d ph, of levels cursor ts marks] ns obtain d1 S1 where
    1: "push_undo_at R levels cursor ts marks d = Some d1" "a_begin levels cursor ts marks S S1" "drefines R d1 S1"
      "leaf S1" "phase_ok ph' k S1" "doc_depth S1 = doc_depth S" unfolding ph' by blast
  have "phase_ok ph' (Suc k) (edit (rp_text R r) S1)"
    using ns by (intro edit_phase [OF 1(5) _ 1(4)]) (auto simp: ph')
  moreover have "doc_depth (edit (rp_text R r) S1) = doc_depth S" using 1(6) by (simp add: edit_def)
  ultimately show "\<exists>es d' S'. run_command R levels (Change x) d = Some (es, d') \<and>
      a_command R levels (Change x) S (map (map_option (abs_entry R)) es) S' \<and>
      drefines R d' S' \<and> phase_ok ph' (Suc k) S' \<and> doc_depth S' = doc_depth S"
    using 1(1,2) edit_drefines [OF 1(3,4), of r] unfolding x
    by (intro exI [of _ "[]"] exI [of _ "edit r d1"] exI [of _ "edit (rp_text R r) S1"]) auto
qed simp

lemma push_promise:
  assumes R: "rope_laws R"
  shows "keeps_promise R levels (Push cursor ts marks)"
proof (rule step_promise)
  fix d S ph k ph'
  assume d: "drefines R d S" and ph: "phase_ok ph k S" and after: "after_command (Push cursor ts marks) ph = Some ph'"
  from begin_refines [OF R d ph, of levels cursor ts marks] after
  show "\<exists>es d' S'. run_command R levels (Push cursor ts marks) d = Some (es, d') \<and>
      a_command R levels (Push cursor ts marks) S (map (map_option (abs_entry R)) es) S' \<and>
      drefines R d' S' \<and> phase_ok ph' (Suc k) S' \<and> doc_depth S' = doc_depth S"
    using phase_ok_mono [of _ k _ "Suc k"] by fastforce
qed simp

lemma no_change_promise:
  assumes R: "rope_laws R"
  shows "keeps_promise R levels (NoChange cursor ts marks)"
proof (rule step_promise)
  fix d S ph k ph'
  assume d: "drefines R d S" and ph: "phase_ok ph k S" and after: "after_command (NoChange cursor ts marks) ph = Some ph'"
  have out: "ph = Outside" "ph' = Outside" using after by (auto split: if_splits)
  from begin_refines [OF R d ph, of levels cursor ts marks] out obtain d1 S1 where
    1: "push_undo_at R levels cursor ts marks d = Some d1" "a_begin levels cursor ts marks S S1" "drefines R d1 S1"
      "droppable S1" "doc_depth S1 = doc_depth S" by auto
  from pop_last_undo_refines [OF 1(3,4)] obtain d2 where
    2: "pop_last_undo d1 = Some (fst (s_pop (doc_undo S1)), d2)" "drefines R d2 (a_drop S1)" by (auto simp: a_drop_def)
  have "doc_depth (a_drop S1) = doc_depth S" "doc_depth S = 0" using 1(5) ph out(1) by (simp_all add: a_drop_def)
  then show "\<exists>es d' S'. run_command R levels (NoChange cursor ts marks) d = Some (es, d') \<and>
      a_command R levels (NoChange cursor ts marks) S (map (map_option (abs_entry R)) es) S' \<and>
      drefines R d' S' \<and> phase_ok ph' (Suc k) S' \<and> doc_depth S' = doc_depth S"
    using 1(1,2) 2 out(2) by (intro exI [of _ "[]"] exI [of _ d2] exI [of _ "a_drop S1"]) auto
qed simp

lemma clear_promise:
  assumes R: "rope_laws R"
  shows "keeps_promise R levels ClearHistory"
proof (rule step_promise)
  fix d S ph k ph'
  assume d: "drefines R d S" and ph: "phase_ok ph k S" and after: "after_command (ClearHistory :: 'a command) ph = Some ph'"
  let ?S = "S\<lparr>doc_undo := s_clear_all (doc_undo S)\<rparr>"
  from clear_undo_redo_refines [OF R d] obtain d' where "clear_undo_redo R d = Some d'" "drefines R d' ?S" by blast
  moreover have "phase_ok ph' (Suc k) ?S"
    using phase_ok_mono [OF clear_phase [OF ph drefinesD(2) [OF d]], of "Suc k"] after by simp
  ultimately show "\<exists>es d' S'. run_command R levels ClearHistory d = Some (es, d') \<and>
      a_command R levels ClearHistory S (map (map_option (abs_entry R)) es) S' \<and>
      drefines R d' S' \<and> phase_ok ph' (Suc k) S' \<and> doc_depth S' = doc_depth S"
    by (intro exI [of _ "[]"] exI [of _ d'] exI [of _ ?S]) simp
qed simp

lemma command_keeps:
  assumes R: "rope_laws R"
  shows "keeps_promise R levels c"
proof (induction c)
  case (Group cs)
  then show ?case using group_promise [OF R] by blast
next
  case (Undo cursor marks)
  show ?case by (rule history_promise [OF undo_core_refines [OF R] history_steps(1)]) simp_all
next
  case (Redo cursor marks)
  show ?case by (rule history_promise [OF redo_core_refines [OF R] history_steps(2)]) simp_all
next
  case (Earlier cursor marks)
  show ?case by (rule history_promise [OF earlier_core_refines [OF R] history_steps(3)]) simp_all
next
  case (Later cursor marks)
  show ?case by (rule history_promise [OF later_core_refines [OF R] history_steps(4)]) simp_all
qed (simp_all add: change_promise push_promise no_change_promise clear_promise R)

lemma command_refines:
  assumes R: "rope_laws R" and b: "between R d S" and ok: "command_ok c"
  shows "\<exists>es d' S'. run_command R levels c d = Some (es, d') \<and>
    a_command R levels c S (map (map_option (abs_entry R)) es) S' \<and> between R d' S'"
proof -
  obtain ph' where ph': "after_command c Outside = Some ph'" using ok by (auto simp: command_ok_def)
  have "drefines R d S" "phase_ok Outside 0 S" "weight c < 2 ^ 32" "doc_depth S = 0"
    using b ok by (simp_all add: between_def command_ok_def)
  from keeps_promiseD [OF command_keeps [OF R] this(1,2) ph'] this(3,4) show ?thesis
    unfolding between_def by (metis add_0)
qed

lemma run_refines:
  assumes R: "rope_laws R" and "between R d S" and "\<forall>c \<in> set cs. command_ok c"
  shows "\<exists>es d' S'. run R levels cs d = Some (es, d') \<and>
    a_run R levels cs S (map (map_option (abs_entry R)) es) S' \<and> between R d' S'"
  using assms(2,3)
proof (induction cs arbitrary: d S)
  case (Cons c cs)
  obtain es d1 S1 where d1: "run_command R levels c d = Some (es, d1)"
    "a_command R levels c S (map (map_option (abs_entry R)) es) S1" "between R d1 S1"
    using command_refines [OF R Cons.prems(1), of c levels] Cons.prems(2) by auto
  from Cons.IH [OF d1(3)] Cons.prems(2) obtain es' d' S' where d': "run R levels cs d1 = Some (es', d')"
    "a_run R levels cs S1 (map (map_option (abs_entry R)) es') S'" "between R d' S'" by auto
  have "a_run R levels (c # cs) S (map (map_option (abs_entry R)) (es @ es')) S'" using d1(2) d'(2) by auto
  then show ?case using d1(1) d'(1,3) by auto
qed simp

end
