(* ===== verification/UndoGuarantees.thy ===== *)
theory UndoGuarantees
  imports UndoProps
begin

text \<open>
  What every editing session guarantees: the history over delta edges behaves like full
  snapshots, its structural invariant, one undo per command or group, the order of the
  tree-wide walk and the termination of the walks by time, the node budget.  The last
  section is about sessions in which the source departs from its documentation.
\<close>

section \<open>Reached documents\<close>

definition start :: "rstring \<Rightarrow> int \<Rightarrow> adoc" where
  "start s now = \<lparr>doc_text = s, doc_gen = 0, doc_undo = s_new s now, doc_depth = 0,
     doc_armed = False, doc_open_gen = 0\<rparr>"

lemma start_between:
  assumes "rope_laws R" and "valid_str s"
  shows "between R (doc_new R s now) (start s now)"
  using doc_new_refines [OF assms, of now] by (simp add: between_def start_def)

lemma run_append:
  "run R levels (cs @ cs') d = do {
     (es, d) \<leftarrow> run R levels cs d;
     (es', d) \<leftarrow> run R levels cs' d;
     Some (es @ es', d)
   }"
proof (induction cs arbitrary: d)
  case (Cons c cs)
  show ?case
  proof (cases "run_command R levels c d")
    case (Some ed)
    then show ?thesis
      by (cases ed; cases "run R levels cs (snd ed)";
          cases "run R levels cs' (snd (the (run R levels cs (snd ed))))")
        (auto simp: Cons.IH split: prod.splits)
  qed simp
qed (simp split: prod.splits)

lemma reached:
  assumes R: "rope_laws R" and "valid_str s" and "\<forall>c \<in> set cs. command_ok c"
  obtains es d S where "run R levels cs (doc_new R s now) = Some (es, d)" and "between R d S"
    and "a_run R levels cs (start s now) (map (map_option (abs_entry R)) es) S"
  using run_refines [OF R start_between [OF R assms(2)] assms(3), of levels now] by blast

section \<open>The history over full snapshots\<close>

text \<open>
  C1: Every session of sound commands (single commands, \<open>:g\<close>, \<open>:normal\<close> and macros as groups, groups in
  groups, steps through the history outside and inside of them) runs without a panic and without
  diverging, and all it restores (text, cursor, timestamp and marks of every landing, and the text
  left in the document) is what the same session restores over a tree that stores the full text of
  every state.  A group is sound unless, once it has pushed its snapshot, it edits after a step
  through the history, or unless it contains a \<open>:s\<close> without a match; what goes wrong there is
  \<open>stale_change_lost\<close> and \<open>no_match_drops_group\<close>.
\<close>

theorem session_refines:
  assumes "rope_laws R" and "valid_str s" and "\<forall>c \<in> set cs. command_ok c"
  shows "\<exists>es d S. run R levels cs (doc_new R s now) = Some (es, d) \<and>
    a_run R levels cs (start s now) (map (map_option (abs_entry R)) es) S \<and>
    rp_text R (doc_text d) = doc_text S"
  using reached [OF assms, of levels now] drefinesD(4) unfolding between_def by metis

definition sample_session :: "rstring command list" where
  "sample_session = [Change ((0, 0), 5, marks_default, str ''ab''),
     Group [Push (0, 1) 6 marks_default, Change ((0, 1), 6, marks_default, str ''abc''),
       Group [Change ((0, 2), 7, marks_default, str ''bc''), Undo (0, 0) marks_default]],
     Undo (0, 0) marks_default, Change ((0, 0), 8, marks_default, str ''xab''),
     Group [Undo (0, 0) marks_default, Change ((0, 0), 9, marks_default, str ''y'')],
     NoChange (0, 0) 9 marks_default, Earlier (0, 0) marks_default, Redo (0, 0) marks_default,
     Later (0, 0) marks_default]"

lemma sample_ok: "\<forall>c \<in> set sample_session. command_ok c"
  by (simp add: sample_session_def command_ok_def)

lemma sample_valid: "valid_str (str ''a'')"
  by (simp add: scalar_ok_def)

theorem session_refines_witness:
  "\<exists>es d S. run flat_rope 3 sample_session (doc_new flat_rope (str ''a'') 0) = Some (es, d) \<and>
    a_run flat_rope 3 sample_session (start (str ''a'') 0) (map (map_option (abs_entry flat_rope)) es) S \<and>
    rp_text flat_rope (doc_text d) = doc_text S"
  using session_refines [OF flat_rope_laws sample_valid sample_ok] .

section \<open>The invariant\<close>

text \<open>Slots, index and cache lists are exact, the cache lists are within their caps, the
  links describe one tree, and the path flags mark the chain from the current node.\<close>

definition upar :: "'r undo_tree \<Rightarrow> nat \<Rightarrow> nat option" where
  "upar t i = Option.bind (node_get t i) un_parent"

definition links_ok :: "'r undo_tree \<Rightarrow> bool" where
  "links_ok t \<longleftrightarrow> node_get t (ut_root t) \<noteq> None \<and> node_get t (ut_current t) \<noteq> None \<and>
     (\<forall>i n. node_get t i = Some n \<longrightarrow>
        (case un_parent n of
           None \<Rightarrow> i = ut_root t
         | Some p \<Rightarrow> (\<exists>m. node_get t p = Some m \<and> i \<in> set (un_children m) \<and> un_depth n = Suc (un_depth m))) \<and>
        (\<forall>c. un_last_child n = Some c \<longrightarrow> c \<in> set (un_children n)) \<and>
        (un_on_path n \<longleftrightarrow> anc (upar t) (ut_current t) i))"

definition tree_inv :: "'r undo_tree \<Rightarrow> bool" where
  "tree_inv t \<longleftrightarrow> arena_ok t \<and> index_ok t \<and> lists_ok t \<and> links_ok t"

lemma refines_upar:
  assumes "refines R t A"
  shows "upar t = spar A"
proof
  fix i
  show "upar t i = spar A i"
  proof (cases "st_nodes A i")
    case None
    then have "node_get t i = None" using assms nodes_ok_dead simD(1) unfolding refines_sim by metis
    then show ?thesis using None by (simp add: upar_def spar_def)
  next
    case (Some a)
    from refines_live [OF assms Some] obtain n where "node_get t i = Some n"
      "node_ok R (st_nodes A) (on_chain A) i n a" .
    then show ?thesis using Some node_okD(1) by (fastforce simp: upar_def spar_def)
  qed
qed

lemma refines_links:
  assumes r: "refines R t A" and wf: "spec_wf A"
  shows "links_ok t"
proof -
  note w = spec_wfD [OF wf]
  have heads: "ut_root t = st_root A" "ut_current t = st_current A" using r by (simp_all add: refines_sim)
  have live: "node_get t i \<noteq> None" if i: "i \<in> dom (st_nodes A)" for i
  proof -
    obtain a where "st_nodes A i = Some a" using i by blast
    from refines_live [OF r this] show ?thesis by auto
  qed
  have node: "(case un_parent n of
           None \<Rightarrow> i = ut_root t
         | Some p \<Rightarrow> (\<exists>m. node_get t p = Some m \<and> i \<in> set (un_children m) \<and> un_depth n = Suc (un_depth m))) \<and>
        (\<forall>c. un_last_child n = Some c \<longrightarrow> c \<in> set (un_children n)) \<and>
        (un_on_path n \<longleftrightarrow> anc (upar t) (ut_current t) i)" if n: "node_get t i = Some n" for i n
  proof -
    obtain a where a: "st_nodes A i = Some a"
      using n nodes_ok_dead r simD(1) unfolding refines_sim by (metis not_None_eq)
    have ok: "node_ok R (st_nodes A) (on_chain A) i n a"
      using refines_live [OF r a] n by (metis option.inject)
    note k = node_okD [OF ok]
    have "case un_parent n of
           None \<Rightarrow> i = ut_root t
         | Some p \<Rightarrow> (\<exists>m. node_get t p = Some m \<and> i \<in> set (un_children m) \<and> un_depth n = Suc (un_depth m))"
    proof (cases "sn_parent a")
      case None
      then show ?thesis using links_no_parent [OF w(4) a] k(1) heads by simp
    next
      case (Some p)
      from links_parent(1) [OF w(4) a Some] obtain b where b: "st_nodes A p = Some b"
        "i \<in> set (sn_children b)" "sn_depth a = Suc (sn_depth b)" by blast
      from refines_live [OF r b(1)] obtain m where m: "node_get t p = Some m"
        "node_ok R (st_nodes A) (on_chain A) p m b" .
      show ?thesis using Some k(1,4) m(1) node_okD(2,4) [OF m(2)] b(2,3) by simp
    qed
    moreover have "\<forall>c. un_last_child n = Some c \<longrightarrow> c \<in> set (un_children n)"
      using links_last [OF w(4) a] k(2,3) by simp
    moreover have "un_on_path n \<longleftrightarrow> anc (upar t) (ut_current t) i"
      using k(9) heads refines_upar [OF r] by (simp add: on_chain_def)
    ultimately show ?thesis by blast
  qed
  show ?thesis
    unfolding links_ok_def using live [OF w(2)] live [OF w(3)] heads node by (simp add: Ball_def)
qed

lemma between_inv:
  assumes "between R d S"
  shows "tree_inv (doc_undo d)"
  using assms drefinesD(1,2) refines_links simD(2-4)
  unfolding tree_inv_def between_def refines_sim by metis



section \<open>One undo per command\<close>

text \<open>After a push the fresh current node has a parent, and that parent stores the state
  before the push.\<close>

definition grown_from :: "adoc \<Rightarrow> snap_tree \<Rightarrow> bool" where
  "grown_from S A \<longleftrightarrow> (let q = st_current (doc_undo S) in
     spar A (st_current A) = Some q \<and> sn_text (snode A q) = doc_text S \<and> q \<noteq> st_current A \<and>
     q \<in> dom (st_nodes A) \<and> sn_seq (snode A q) = sn_seq (snode (doc_undo S) q))"

lemma a_push_parent:
  assumes p: "a_push levels cursor ts marks S S'" and wf0: "spec_wf (doc_undo S)"
  shows "grown_from S (doc_undo S')"
proof -
  let ?e = "\<lparr>se_text = doc_text S, se_cursor = cursor, se_timestamp = ts, se_marks = marks\<rparr>"
  let ?q = "st_current (doc_undo S)"
  obtain child B where B: "st_nodes (doc_undo S) child = None"
    "a_cap levels (s_push child ?e (doc_undo S)) B" "S' = S\<lparr>doc_undo := s_clear_redo B\<rparr>"
    using p by (auto simp: a_push_def)
  let ?A1 = "s_push child ?e (doc_undo S)" and ?A = "s_clear_redo B"
  have w1: "spec_wf ?A1" by (rule s_push_wf [OF wf0 B(1)])
  have k: "keeps ?A1 B" using B(2) keeps_refl [of ?A1] by (auto simp: a_cap_def split: if_splits)
  have cur: "st_current B = child" using keepsD(1) [OF k] by (simp add: s_push_current)
  have qd: "?q \<in> dom (st_nodes (doc_undo S))" using spec_wfD(3) [OF wf0] .
  have nq: "?q \<noteq> child" using qd B(1) by auto
  have p1: "spar ?A1 child = Some ?q" by (simp add: spar_def s_push_def Let_def)
  have wB: "spec_wf B \<and> spar B child = Some ?q"
  proof (cases "levels = 0")
    case True
    then show ?thesis using B(2) w1 p1 by (simp add: a_cap_def)
  next
    case False
    then have c: "s_cap levels ?A1 B" using B(2) by (simp add: a_cap_def)
    then have "spec_wf B" using w1 by (rule s_cap_wf)
    then show ?thesis
      using s_cap_keeps_parent [OF c _ w1, of ?q] p1 False by (simp add: s_push_current)
  qed
  note w = spec_wfD [OF conjunct1 [OF wB]]
  have dB: "depths_ok (spar B) (sdep B)" using w(4) by (rule links_depths)
  have notbelow: "?q \<notin> below B child"
    using anc_no_loop [OF dB conjunct2 [OF wB]] by (auto simp: below_def)
  have pA: "spar ?A child = Some ?q"
    using conjunct2 [OF wB] w(3) by (auto simp: spar_def s_clear_redo_lookup cur bind_eq_Some_conv)
  obtain b where b: "st_nodes B ?q = Some b"
    using conjunct2 [OF wB] links_parent(1) [OF w(4)] by (fastforce simp: spar_def bind_eq_Some_conv)
  have qA: "st_nodes ?A ?q = Some b" using b w(3) notbelow nq by (simp add: s_clear_redo_lookup cur)
  obtain b1 where b1: "st_nodes ?A1 ?q = Some b1" "snode_keeps b1 b" using keepsD(3) [OF k b] by blast
  obtain b0 where b0: "st_nodes (doc_undo S) ?q = Some b0" using qd by blast
  have "sn_text b = doc_text S" "sn_seq b = sn_seq b0"
    using b1 nq b0 by (auto simp: s_push_def Let_def s_set_lookup snode_keeps_def)
  then show ?thesis using pA qA nq B(3) cur b0 by (auto simp: snode_simps grown_from_def Let_def)
qed

lemma undo_back:
  assumes p: "spar A (st_current A) = Some q" and q: "q \<noteq> st_current A" "q \<in> dom (st_nodes A)"
  shows "\<exists>se A'. s_undo x cursor marks A = (Some se, A') \<and> se_text se = sn_text (snode A q) \<and>
    st_current A' = q \<and> sn_last (snode A' q) = Some (st_current A) \<and>
    sn_text (snode A' (st_current A)) = x"
proof -
  have "st_current A \<in> dom (st_nodes A)" using spar_dom [OF p] .
  then show ?thesis
    using p q by (auto simp: s_undo_def Let_def s_entry_def snode_def s_set_lookup)
qed

text \<open>Commands that only push and edit, and how many edits they make.\<close>

fun only_edits :: "'r command \<Rightarrow> bool" where
  "only_edits (Change c) \<longleftrightarrow> True"
| "only_edits (Push cursor ts marks) \<longleftrightarrow> True"
| "only_edits (Group cs) \<longleftrightarrow> list_all only_edits cs"
| "only_edits _ \<longleftrightarrow> False"

fun edits :: "'r command \<Rightarrow> nat" where
  "edits (Change c) = 1"
| "edits (Group cs) = sum_list (map edits cs)"
| "edits _ = 0"

definition changing :: "'r command \<Rightarrow> bool" where
  "changing c \<longleftrightarrow> only_edits c \<and> 0 < edits c"

text \<open>The history after one push in front of the first edit.\<close>

definition pushed :: "nat \<Rightarrow> adoc \<Rightarrow> adoc \<Rightarrow> bool" where
  "pushed levels S S' \<longleftrightarrow> (\<exists>S0 S1 cursor ts marks. doc_undo S0 = doc_undo S \<and> doc_text S0 = doc_text S \<and>
     a_push levels cursor ts marks S0 S1 \<and> doc_undo S' = doc_undo S1)"

lemma pushed_grown: "pushed levels S S' \<Longrightarrow> spec_wf (doc_undo S) \<Longrightarrow> grown_from S (doc_undo S')"
  using a_push_parent by (force simp: pushed_def grown_from_def)

definition edited_in :: "nat \<Rightarrow> nat \<Rightarrow> adoc \<Rightarrow> adoc \<Rightarrow> bool" where
  "edited_in levels n S S' \<longleftrightarrow> doc_depth S' = doc_depth S \<and> doc_open_gen S' = doc_open_gen S \<and>
     doc_gen S' = doc_gen S + of_nat n \<and>
     (if doc_armed S then doc_armed S' \<and> doc_undo S' = doc_undo S
      else doc_armed S' \<and> pushed levels S S' \<or> \<not> doc_armed S' \<and> doc_undo S' = doc_undo S \<and> doc_text S' = doc_text S \<and> n = 0)"

lemma edited_in_trans:
  assumes "edited_in levels m S S1" and "edited_in levels n S1 S2"
  shows "edited_in levels (m + n) S S2"
proof (cases "doc_armed S")
  case False
  consider "doc_armed S1" "pushed levels S S1"
    | "\<not> doc_armed S1" "doc_undo S1 = doc_undo S" "doc_text S1 = doc_text S" "m = 0"
    using assms(1) False by (auto simp: edited_in_def)
  then show ?thesis
  proof cases
    case 1
    then show ?thesis using assms by (auto simp: edited_in_def pushed_def)
  next
    case 2
    then have "pushed levels S S2" if "pushed levels S1 S2" using that by (simp add: pushed_def)
    then show ?thesis using assms 2 False by (auto simp: edited_in_def)
  qed
qed (use assms in \<open>simp add: edited_in_def\<close>)

lemma begin_in:
  assumes "a_begin levels cursor ts marks S S'" and "doc_depth S \<noteq> 0"
  shows "edited_in levels 0 S S'" "doc_armed S'"
proof -
  have act: "undo_group_active S" using assms(2) by (simp add: undo_group_active_def)
  have "pushed levels S S'" if "\<not> doc_armed S"
  proof -
    have "a_push levels cursor ts marks (S\<lparr>doc_armed := True\<rparr>) S'" using assms(1) that act by (simp add: a_begin_def)
    then show ?thesis
      unfolding pushed_def
      by (intro exI [of _ "S\<lparr>doc_armed := True\<rparr>"] exI [of _ S'] exI [of _ cursor] exI [of _ ts] exI [of _ marks]) simp
  qed
  then show "edited_in levels 0 S S'" "doc_armed S'"
    using assms(1) act a_push_heads [of levels cursor ts marks "S\<lparr>doc_armed := True\<rparr>" S']
    by (auto simp: a_begin_def edited_in_def split: if_splits)
qed

lemma edit_in:
  "edited_in levels n S S1 \<Longrightarrow> doc_armed S1 \<Longrightarrow> edited_in levels (Suc n) S (edit x S1)"
  by (auto simp: edited_in_def edit_def pushed_def)

lemma edits_weight: "edits c \<le> weight c"
proof (induction c)
  case (Group cs)
  then have "sum_list (map edits cs) \<le> sum_list (map weight cs)" by (intro sum_list_mono) simp
  then show ?case by simp
qed simp_all

definition edits_in :: "'r rope_ops \<Rightarrow> nat \<Rightarrow> 'r command \<Rightarrow> bool" where
  "edits_in R levels c \<longleftrightarrow> (\<forall>S es S'. a_command R levels c S es S' \<longrightarrow> doc_depth S \<noteq> 0 \<longrightarrow>
     doc_depth S + weight c < 2 ^ 32 \<longrightarrow> es = [] \<and> edited_in levels (edits c) S S')"

lemma list_in:
  assumes "\<forall>c \<in> set cs. edits_in R levels c"
    and "a_run R levels cs S es S'" and "doc_depth S \<noteq> 0" and "doc_depth S + sum_list (map weight cs) < 2 ^ 32"
  shows "es = [] \<and> edited_in levels (sum_list (map edits cs)) S S'"
  using assms
proof (induction cs arbitrary: S es)
  case Nil
  then show ?case by (auto simp: edited_in_def)
next
  case (Cons c cs)
  obtain es1 es2 S1 where 1: "es = es1 @ es2" "a_command R levels c S es1 S1" "a_run R levels cs S1 es2 S'"
    using Cons.prems(2) by auto
  have w: "doc_depth S + weight c < 2 ^ 32" using Cons.prems(4) by simp
  have c: "es1 = []" "edited_in levels (edits c) S S1"
    using Cons.prems(1,3) 1(2) w unfolding edits_in_def by auto
  then have dep: "doc_depth S1 = doc_depth S" by (simp add: edited_in_def)
  have "es2 = [] \<and> edited_in levels (sum_list (map edits cs)) S1 S'"
    by (rule Cons.IH [OF _ 1(3)]) (use Cons.prems(1,3,4) dep in simp_all)
  then show ?case using c 1(1) edited_in_trans [OF c(2)] by simp
qed

lemma edited_in_deeper:
  assumes "edited_in levels n (S\<lparr>doc_depth := k\<rparr>) S1"
  shows "edited_in levels n S (S1\<lparr>doc_depth := doc_depth S\<rparr>)"
  using assms by (auto simp: edited_in_def pushed_def)

lemma command_in: "only_edits c \<Longrightarrow> edits_in R levels c"
proof (induction c)
  case (Change x)
  obtain cursor ts marks r where x: "x = (cursor, ts, marks, r)" by (cases x) auto
  show ?case
    unfolding edits_in_def
  proof (intro allI impI)
    fix S es S'
    assume c: "a_command R levels (Change x) S es S'" and dep: "doc_depth S \<noteq> 0"
    then obtain S1 where "es = []" "a_begin levels cursor ts marks S S1" "S' = edit (rp_text R r) S1" using x by auto
    then show "es = [] \<and> edited_in levels (edits (Change x)) S S'" using begin_in [OF _ dep] edit_in by auto
  qed
next
  case (Push cursor ts marks)
  then show ?case using begin_in(1) by (simp add: edits_in_def)
next
  case (Group cs)
  have mem: "\<forall>c \<in> set cs. edits_in R levels c" using Group by (auto simp: list_all_iff)
  show ?case
    unfolding edits_in_def
  proof (intro allI impI)
    fix S es S'
    assume c: "a_command R levels (Group cs) S es S'" and dep: "doc_depth S \<noteq> 0"
      and w: "doc_depth S + weight (Group cs) < 2 ^ 32"
    obtain S1 where S1: "a_run R levels cs (undo_group_enter S) es S1" "S' = a_exit S1" using c by auto
    have en: "undo_group_enter S = S\<lparr>doc_depth := Suc (doc_depth S)\<rparr>" using enter_inside [OF dep] w by simp
    have e: "es = [] \<and> edited_in levels (edits (Group cs)) (S\<lparr>doc_depth := Suc (doc_depth S)\<rparr>) S1"
      using list_in [OF mem S1(1) [unfolded en]] w by simp
    then have "S' = S1\<lparr>doc_depth := doc_depth S\<rparr>"
      using S1(2) dep by (simp add: a_exit_def Let_def edited_in_def)
    then show "es = [] \<and> edited_in levels (edits (Group cs)) S S'" using e edited_in_deeper by blast
  qed
qed simp_all

lemma a_begin_outside: "doc_depth S = 0 \<Longrightarrow> a_begin levels cursor ts marks S S' \<longleftrightarrow> a_push levels cursor ts marks S S'"
  by (simp add: a_begin_def undo_group_active_def)

text \<open>The body of a group of pushes and edits.\<close>

lemma body_in:
  assumes cs: "list_all only_edits cs" and out: "doc_depth S = 0" and w: "weight (Group cs) < 2 ^ 32"
    and run: "a_run R levels cs (undo_group_enter S) es S1"
  shows "es = [] \<and> edited_in levels (sum_list (map edits cs)) (undo_group_enter S) S1"
proof -
  have mem: "\<forall>c \<in> set cs. edits_in R levels c" using cs command_in by (auto simp: list_all_iff)
  have "doc_depth (undo_group_enter S) = 1" using enter_outside [OF out] by simp
  then show ?thesis using list_in [OF mem run] w by simp
qed

lemma body_pushed:
  assumes "edited_in levels n (undo_group_enter S) S1" "doc_depth S = 0" "0 < n" "n < 2 ^ 32"
  shows "pushed levels S S1" "doc_depth S1 = 1" "doc_gen S1 \<noteq> doc_open_gen S1"
    "a_exit S1 = S1\<lparr>doc_depth := 0, doc_armed := False\<rparr>"
proof -
  have e: "\<not> doc_armed (undo_group_enter S)" "doc_undo (undo_group_enter S) = doc_undo S"
    "doc_text (undo_group_enter S) = doc_text S" "doc_open_gen (undo_group_enter S) = doc_gen (undo_group_enter S)"
    using assms(2) by (simp_all add: undo_group_enter_def Let_def)
  show "pushed levels S S1" using assms(1,3) e by (simp add: edited_in_def pushed_def)
  show dep: "doc_depth S1 = 1" using assms(1) enter_outside [OF assms(2)] by (simp add: edited_in_def)
  show gen: "doc_gen S1 \<noteq> doc_open_gen S1" using assms(1,3,4) e(4) no_wrap [of n] by (auto simp: edited_in_def)
  then show "a_exit S1 = S1\<lparr>doc_depth := 0, doc_armed := False\<rparr>" using dep by (simp add: a_exit_def Let_def)
qed

lemma changing_pushed:
  assumes c: "a_command R levels c S es S'" and ch: "changing c" and out: "doc_depth S = 0" and w: "weight c < 2 ^ 32"
  shows "es = [] \<and> pushed levels S S'"
proof (cases c)
  case (Change x)
  obtain cursor ts marks r where x: "x = (cursor, ts, marks, r)" by (cases x) auto
  then obtain S1 where "es = []" "a_push levels cursor ts marks S S1" "S' = edit (rp_text R r) S1"
    using c Change a_begin_outside [OF out] by auto
  moreover have "doc_undo (edit (rp_text R r) S1) = doc_undo S1" by (simp add: edit_def)
  ultimately show ?thesis unfolding pushed_def by blast
next
  case (Group cs)
  obtain S1 where S1: "a_run R levels cs (undo_group_enter S) es S1" "S' = a_exit S1" using c Group by auto
  have "sum_list (map edits cs) < 2 ^ 32" using edits_weight [of c] w Group by simp
  moreover have "0 < sum_list (map edits cs)" "list_all only_edits cs" using ch Group by (simp_all add: changing_def)
  ultimately show ?thesis
    using body_in [OF _ out _ S1(1)] body_pushed [OF _ out, of levels "sum_list (map edits cs)" S1] w Group S1(2)
    by (auto simp: pushed_def)
qed (use ch in \<open>simp_all add: changing_def\<close>)

lemma changing_undone:
  assumes R: "rope_laws R" and b: "between R d S" and ok: "command_ok c" and ch: "changing c"
  shows "\<exists>d1 e2 d2 e3 d3. run_command R levels c d = Some ([], d1) \<and>
    undo_core R cu mu d1 = Some (Some e2, d2) \<and> rp_text R (doc_text d2) = rp_text R (doc_text d) \<and>
    redo_core R levels cr mr d2 = Some (Some e3, d3) \<and> rp_text R (doc_text d3) = rp_text R (doc_text d1)"
proof -
  have dd: "drefines R d S" "doc_depth S = 0" using b by (simp_all add: between_def)
  obtain es1 d1 S1 where d1: "run_command R levels c d = Some (es1, d1)"
    "a_command R levels c S (map (map_option (abs_entry R)) es1) S1" "between R d1 S1"
    using command_refines [OF R b ok] by blast
  have p: "es1 = []" "pushed levels S S1"
    using changing_pushed [OF d1(2) ch dd(2)] ok by (simp_all add: command_ok_def)
  have r1: "drefines R d1 S1" using d1(3) by (simp add: between_def)
  obtain q where q: "spar (doc_undo S1) (st_current (doc_undo S1)) = Some q"
    "sn_text (snode (doc_undo S1) q) = doc_text S" "q \<noteq> st_current (doc_undo S1)"
    "q \<in> dom (st_nodes (doc_undo S1))"
    using pushed_grown [OF p(2) drefinesD(2) [OF dd(1)]] by (auto simp: grown_from_def Let_def)
  obtain e2 d2 S2 where d2: "undo_core R cu mu d1 = Some (e2, d2)"
    "a_undo cu mu S1 (map_option (abs_entry R) e2) S2" "drefines R d2 S2"
    using undo_core_refines [OF R r1] by blast
  obtain se A' where A': "s_undo (doc_text S1) cu mu (doc_undo S1) = (Some se, A')"
    "se_text se = sn_text (snode (doc_undo S1) q)" "st_current A' = q"
    "sn_last (snode A' q) = Some (st_current (doc_undo S1))"
    "sn_text (snode A' (st_current (doc_undo S1))) = doc_text S1"
    using undo_back [OF q(1,3,4)] by blast
  have e2: "map_option (abs_entry R) e2 = Some se" "S2 = a_restore (Some se) (S1\<lparr>doc_undo := A'\<rparr>)"
    using d2(2) A'(1) by (auto simp: a_undo_def)
  have t2: "doc_text S2 = doc_text S" "doc_undo S2 = A'"
    using e2(2) A'(2) q(2) by (simp_all add: a_restore_def)
  obtain e3 d3 S3 where d3: "redo_core R levels cr mr d2 = Some (e3, d3)"
    "a_redo levels cr mr S2 (map_option (abs_entry R) e3) S3" "drefines R d3 S3"
    using redo_core_refines [OF R d2(3)] by blast
  have s3: "\<exists>A3. s_redo (doc_text S2) cr mr A' = (Some (s_entry A' (st_current (doc_undo S1))), A3)"
    using A'(3,4) q(3) by (simp add: s_redo_def Let_def s_entry_def snode_def s_set_lookup)
  then have "\<exists>se3. map_option (abs_entry R) e3 = Some se3 \<and> doc_text S3 = se_text se3 \<and>
      se_text se3 = doc_text S1"
    using d3(2) A'(5) t2(2) by (auto simp: a_redo_def a_restore_def s_entry_def)
  then obtain e3' where "e3 = Some e3'" "doc_text S3 = doc_text S1" by auto
  moreover obtain e2' where "e2 = Some e2'" using e2(1) by auto
  ultimately show ?thesis
    using d1(1) d2(1) d3(1) p(1) drefinesD(4) [OF dd(1)] drefinesD(4) [OF r1] drefinesD(4) [OF d2(3)]
      drefinesD(4) [OF d3(3)] t2(1) by auto
qed

text \<open>
  C5: After every session of sound commands, one undo restores the text before a changing command and one redo the text
  after it.  Changing are an edit, and a group, nested or not, of edits and pushes with at least one
  edit and nothing else: with a step through the history or a \<open>:s\<close> without a match in the group
  one undo need not revert it (\<open>stale_change_lost\<close>, \<open>no_match_drops_group\<close>).
\<close>

theorem one_undo_per_command:
  assumes "rope_laws R" and "valid_str s" and "\<forall>c \<in> set cs. command_ok c"
    and "command_ok c" and "changing c"
  shows "\<exists>es d d1 e2 d2 e3 d3. run R levels cs (doc_new R s now) = Some (es, d) \<and>
    run_command R levels c d = Some ([], d1) \<and>
    undo_core R cu mu d1 = Some (Some e2, d2) \<and> rp_text R (doc_text d2) = rp_text R (doc_text d) \<and>
    redo_core R levels cr mr d2 = Some (Some e3, d3) \<and> rp_text R (doc_text d3) = rp_text R (doc_text d1)"
  using reached [OF assms(1-3), of levels now] changing_undone [OF assms(1) _ assms(4,5)] by metis

theorem one_undo_per_command_witness:
  "\<exists>es d d1 e2 d2 e3 d3. run flat_rope 1 sample_session (doc_new flat_rope (str ''a'') 0) = Some (es, d) \<and>
    run_command flat_rope 1 (Group [Push (0, 0) 9 marks_default, Change ((0, 0), 9, marks_default, str ''q''),
      Change ((0, 0), 9, marks_default, str ''qr'')]) d = Some ([], d1) \<and>
    undo_core flat_rope (0, 1) marks_default d1 = Some (Some e2, d2) \<and>
    rp_text flat_rope (doc_text d2) = rp_text flat_rope (doc_text d) \<and>
    redo_core flat_rope 1 (0, 0) marks_default d2 = Some (Some e3, d3) \<and>
    rp_text flat_rope (doc_text d3) = rp_text flat_rope (doc_text d1)"
  by (rule one_undo_per_command [OF flat_rope_laws sample_valid sample_ok])
    (simp_all add: changing_def command_ok_def)

section \<open>The tree-wide walk\<close>

definition live_seqs :: "'r undo_tree \<Rightarrow> nat set" where
  "live_seqs t = {s. \<exists>i n. node_get t i = Some n \<and> un_seq n = s}"

lemma live_seqs_refines:
  assumes "refines R t A"
  shows "live_seqs t = {s. \<exists>i a. st_nodes A i = Some a \<and> sn_seq a = s}"
proof (intro set_eqI iffI)
  fix s
  assume "s \<in> live_seqs t"
  then obtain i n where n: "node_get t i = Some n" "un_seq n = s" by (auto simp: live_seqs_def)
  then obtain a where a: "st_nodes A i = Some a"
    using nodes_ok_dead assms simD(1) unfolding refines_sim by (metis not_None_eq)
  from refines_live [OF assms a] obtain m where "node_get t i = Some m"
    "node_ok R (st_nodes A) (on_chain A) i m a" .
  then show "s \<in> {s. \<exists>i a. st_nodes A i = Some a \<and> sn_seq a = s}" using a n node_okD(8) by fastforce
next
  fix s
  assume "s \<in> {s. \<exists>i a. st_nodes A i = Some a \<and> sn_seq a = s}"
  then obtain i a where a: "st_nodes A i = Some a" "sn_seq a = s" by blast
  from refines_live [OF assms a(1)] obtain m where "node_get t i = Some m"
    "node_ok R (st_nodes A) (on_chain A) i m a" .
  then show "s \<in> live_seqs t" using a(2) node_okD(8) by (fastforce simp: live_seqs_def)
qed

lemma s_move_seq:
  assumes "(e, A') = s_move i x cursor marks A" and "spec_wf A" and "i \<in> dom (st_nodes A)"
  shows "sn_seq (snode A' (st_current A')) = sn_seq (snode A i)" and "st_next_seq A' = st_next_seq A"
    and "spec_wf A'"
proof -
  let ?A = "s_set (st_current A) x cursor (sn_timestamp (snode A (st_current A))) marks A"
  note w = spec_wfD [OF assms(2)]
  have A': "A' = s_retarget i ?A" using assms(1) by (simp add: s_move_def Let_def)
  have wf: "spec_wf ?A" by (rule spec_wf_set [OF assms(2) w(3)])
  have i: "i \<in> dom (st_nodes ?A)" using assms(3) by simp
  then obtain a where a: "st_nodes ?A i = Some a" by blast
  show "sn_seq (snode A' (st_current A')) = sn_seq (snode A i)"
    unfolding A' using a s_retarget_lookup [OF spec_wfD(4) [OF wf], of i i]
    by (auto simp: snode_def s_set_lookup split: if_splits)
  show "st_next_seq A' = st_next_seq A" unfolding A' by simp
  show "spec_wf A'" unfolding A' by (rule s_retarget_wf [OF wf i])
qed

lemma earlier_core_seq:
  assumes R: "rope_laws R" and b: "between R d S"
  shows "\<exists>e d' S'. seq_earlier_core R cursor marks d = Some (e, d') \<and> between R d' S' \<and>
    (case e of
       None \<Rightarrow> {s \<in> live_seqs (doc_undo d). s < sn_seq (snode (doc_undo S) (st_current (doc_undo S)))} = {}
     | Some _ \<Rightarrow> (let s' = sn_seq (snode (doc_undo S') (st_current (doc_undo S'))) in
         s' \<in> live_seqs (doc_undo d) \<and> s' < sn_seq (snode (doc_undo S) (st_current (doc_undo S))) \<and>
         (\<forall>s \<in> live_seqs (doc_undo d). s < sn_seq (snode (doc_undo S) (st_current (doc_undo S))) \<longrightarrow> s \<le> s')))"
proof -
  have d: "drefines R d S" and dep: "doc_depth S = 0" using b by (simp_all add: between_def)
  note D = drefinesD [OF d]
  obtain e d' S' where S': "seq_earlier_core R cursor marks d = Some (e, d')"
    "a_earlier cursor marks S (map_option (abs_entry R) e) S'" "drefines R d' S'"
    using earlier_core_refines [OF R d] by blast
  obtain A where A: "s_earlier (doc_undo S) (doc_text S) cursor marks (map_option (abs_entry R) e) A"
    "S' = a_restore (map_option (abs_entry R) e) (S\<lparr>doc_undo := A\<rparr>)"
    using S'(2) by (auto simp: a_earlier_def)
  have un: "doc_undo S' = A" "doc_depth S' = 0"
    using A(2) dep by (auto simp: a_restore_def split: option.splits)
  note L = live_seqs_refines [OF D(1)]
  show ?thesis
  proof (cases e)
    case None
    then show ?thesis
      using S' A(1) un by (auto simp: between_def s_earlier_def s_move_def Let_def L)
  next
    case (Some e')
    then obtain i where i: "seq_before (doc_undo S) (sn_seq (snode (doc_undo S) (st_current (doc_undo S)))) i"
      "(Some (abs_entry R e'), A) = s_move i (doc_text S) cursor marks (doc_undo S)"
      using A(1) by (auto simp: s_earlier_def)
    then have dom: "i \<in> dom (st_nodes (doc_undo S))" by (auto simp: seq_before_def)
    let ?s = "sn_seq (snode (doc_undo S') (st_current (doc_undo S')))"
    have "?s \<in> live_seqs (doc_undo d) \<and> ?s < sn_seq (snode (doc_undo S) (st_current (doc_undo S))) \<and>
        (\<forall>s \<in> live_seqs (doc_undo d). s < sn_seq (snode (doc_undo S) (st_current (doc_undo S))) \<longrightarrow> s \<le> ?s)"
      using i(1) s_move_seq(1) [OF i(2) D(2) dom] un(1) by (auto simp: L seq_before_def snode_simps) blast
    then show ?thesis
      using S'(1,3) un(2) Some
      by (intro exI [of _ "Some e'"] exI [of _ d'] exI [of _ S']) (simp add: between_def Let_def)
  qed
qed

lemma keeps_seq:
  assumes "keeps A B" and "spec_wf B"
  shows "sn_seq (snode B (st_current B)) = sn_seq (snode A (st_current A))"
  using keeps_current(1) [OF assms] by (simp add: snode_keeps_def)

lemma a_cap_keeps: "a_cap levels A B \<Longrightarrow> keeps A B"
  by (auto simp: a_cap_def keeps_refl split: if_splits)

lemma later_core_seq:
  assumes R: "rope_laws R" and b: "between R d S"
  shows "\<exists>e d' S'. seq_later_core R levels cursor marks d = Some (e, d') \<and> between R d' S' \<and>
    st_next_seq (doc_undo S') = st_next_seq (doc_undo S) \<and>
    (case e of
       None \<Rightarrow> {s \<in> live_seqs (doc_undo d). sn_seq (snode (doc_undo S) (st_current (doc_undo S))) < s} = {}
     | Some _ \<Rightarrow> (let s' = sn_seq (snode (doc_undo S') (st_current (doc_undo S'))) in
         s' \<in> live_seqs (doc_undo d) \<and> sn_seq (snode (doc_undo S) (st_current (doc_undo S))) < s' \<and>
         (\<forall>s \<in> live_seqs (doc_undo d). sn_seq (snode (doc_undo S) (st_current (doc_undo S))) < s \<longrightarrow> s' \<le> s)))"
proof -
  have d: "drefines R d S" and dep: "doc_depth S = 0" using b by (simp_all add: between_def)
  note D = drefinesD [OF d]
  obtain e d' S' where S': "seq_later_core R levels cursor marks d = Some (e, d')"
    "a_later levels cursor marks S (map_option (abs_entry R) e) S'" "drefines R d' S'"
    using later_core_refines [OF R d] by blast
  obtain A B where A: "s_later (doc_undo S) (doc_text S) cursor marks (map_option (abs_entry R) e) A"
    "if e = None then B = A else a_cap levels A B"
    "S' = a_restore (map_option (abs_entry R) e) (S\<lparr>doc_undo := B\<rparr>)"
    using S'(2) by (auto simp: a_later_def)
  have un: "doc_undo S' = B" "doc_depth S' = 0"
    using A(3) dep by (auto simp: a_restore_def split: option.splits)
  have wB: "spec_wf B" using drefinesD(2) [OF S'(3)] un(1) by simp
  note L = live_seqs_refines [OF D(1)]
  show ?thesis
  proof (cases e)
    case None
    then have "A = doc_undo S" using A(1) s_later_none by simp
    then show ?thesis
      using S' A(1,2) un None by (auto simp: between_def s_later_def s_move_def Let_def L)
  next
    case (Some e')
    then obtain i where i: "seq_after (doc_undo S) (sn_seq (snode (doc_undo S) (st_current (doc_undo S)))) i"
      "(Some (abs_entry R e'), A) = s_move i (doc_text S) cursor marks (doc_undo S)"
      using A(1) by (auto simp: s_later_def)
    then have dom: "i \<in> dom (st_nodes (doc_undo S))" by (auto simp: seq_after_def)
    have k: "keeps A B" using A(2) Some a_cap_keeps by simp
    have "sn_seq (snode B (st_current B)) = sn_seq (snode (doc_undo S) i)"
      using keeps_seq [OF k wB] s_move_seq(1) [OF i(2) D(2) dom] by simp
    moreover have "st_next_seq B = st_next_seq (doc_undo S)"
      using keepsD(2) [OF k] s_move_seq(2) [OF i(2) D(2) dom] by simp
    moreover let ?s = "sn_seq (snode (doc_undo S') (st_current (doc_undo S')))"
    have "?s \<in> live_seqs (doc_undo d) \<and> sn_seq (snode (doc_undo S) (st_current (doc_undo S))) < ?s \<and>
        (\<forall>s \<in> live_seqs (doc_undo d). sn_seq (snode (doc_undo S) (st_current (doc_undo S))) < s \<longrightarrow> ?s \<le> s)"
      using i(1) calculation un(1) by (auto simp: L seq_after_def snode_simps) blast
    ultimately show ?thesis
      using S'(1,3) un Some
      by (intro exI [of _ "Some e'"] exI [of _ d'] exI [of _ S']) (simp add: between_def Let_def)
  qed
qed

lemma between_current_seq:
  assumes "between R d S"
  shows "current_seq (doc_undo d) = Some (sn_seq (snode (doc_undo S) (st_current (doc_undo S))))"
  using assms current_seq_refines drefinesD(1,2) unfolding between_def by blast

text \<open>
  The tree-wide walk visits the states in the order of their change numbers: a step
  back lands on the greatest live number below the current one and is refused exactly when
  there is none; a step forward lands on the least one above.
\<close>

lemma walk_in_seq_order:
  assumes "rope_laws R" and "valid_str s" and "\<forall>c \<in> set cs. command_ok c"
  shows "\<exists>es d k. run R levels cs (doc_new R s now) = Some (es, d) \<and> current_seq (doc_undo d) = Some k \<and>
    (\<exists>e d'. seq_earlier_core R cursor marks d = Some (e, d') \<and>
       (let L = {s \<in> live_seqs (doc_undo d). s < k} in
        if L = {} then e = None else e \<noteq> None \<and> current_seq (doc_undo d') = Some (Max L))) \<and>
    (\<exists>e d'. seq_later_core R levels cursor marks d = Some (e, d') \<and>
       (let L = {s \<in> live_seqs (doc_undo d). k < s} in
        if L = {} then e = None else e \<noteq> None \<and> current_seq (doc_undo d') = Some (Min L)))"
proof -
  obtain es d S where d: "run R levels cs (doc_new R s now) = Some (es, d)" "between R d S"
    using reached [OF assms, of levels now] by blast
  let ?k = "sn_seq (snode (doc_undo S) (st_current (doc_undo S)))"
  have k: "current_seq (doc_undo d) = Some ?k" by (rule between_current_seq [OF d(2)])
  have r: "refines R (doc_undo d) (doc_undo S)" "spec_wf (doc_undo S)"
    using d(2) drefinesD(1,2) by (auto simp: between_def)
  have "live_seqs (doc_undo d) = (\<lambda>i. sn_seq (snode (doc_undo S) i)) ` dom (st_nodes (doc_undo S))"
    unfolding live_seqs_refines [OF r(1)] by (force simp: snode_def)
  then have fin: "finite (live_seqs (doc_undo d))" using spec_wfD(1) [OF r(2)] by simp
  have "\<exists>e d'. seq_earlier_core R cursor marks d = Some (e, d') \<and>
       (let L = {s \<in> live_seqs (doc_undo d). s < ?k} in
        if L = {} then e = None else e \<noteq> None \<and> current_seq (doc_undo d') = Some (Max L))"
  proof -
    obtain e d' S' where S': "seq_earlier_core R cursor marks d = Some (e, d')" "between R d' S'"
      and c: "case e of None \<Rightarrow> {s \<in> live_seqs (doc_undo d). s < ?k} = {}
     | Some _ \<Rightarrow> (let s' = sn_seq (snode (doc_undo S') (st_current (doc_undo S'))) in
         s' \<in> live_seqs (doc_undo d) \<and> s' < ?k \<and> (\<forall>s \<in> live_seqs (doc_undo d). s < ?k \<longrightarrow> s \<le> s'))"
      using earlier_core_seq [OF assms(1) d(2), of cursor marks] by blast
    show ?thesis
    proof (cases e)
      case (Some e')
      then have "Max {s \<in> live_seqs (doc_undo d). s < ?k} = sn_seq (snode (doc_undo S') (st_current (doc_undo S')))"
        using c fin by (intro Max_eqI) (auto simp: Let_def)
      then show ?thesis using S' c Some between_current_seq [OF S'(2)] by (auto simp: Let_def)
    qed (use S'(1) c in auto)
  qed
  moreover have "\<exists>e d'. seq_later_core R levels cursor marks d = Some (e, d') \<and>
       (let L = {s \<in> live_seqs (doc_undo d). ?k < s} in
        if L = {} then e = None else e \<noteq> None \<and> current_seq (doc_undo d') = Some (Min L))"
  proof -
    obtain e d' S' where S': "seq_later_core R levels cursor marks d = Some (e, d')" "between R d' S'"
      and c: "case e of None \<Rightarrow> {s \<in> live_seqs (doc_undo d). ?k < s} = {}
     | Some _ \<Rightarrow> (let s' = sn_seq (snode (doc_undo S') (st_current (doc_undo S'))) in
         s' \<in> live_seqs (doc_undo d) \<and> ?k < s' \<and> (\<forall>s \<in> live_seqs (doc_undo d). ?k < s \<longrightarrow> s' \<le> s))"
      using later_core_seq [OF assms(1) d(2), of levels cursor marks] by blast
    show ?thesis
    proof (cases e)
      case (Some e')
      then have "Min {s \<in> live_seqs (doc_undo d). ?k < s} = sn_seq (snode (doc_undo S') (st_current (doc_undo S')))"
        using c fin by (intro Min_eqI) (auto simp: Let_def)
      then show ?thesis using S' c Some between_current_seq [OF S'(2)] by (auto simp: Let_def)
    qed (use S'(1) c in auto)
  qed
  ultimately show ?thesis using d(1) k by blast
qed

section \<open>The walks by time end\<close>

lemma earlier_timestamp_total:
  assumes b: "between R d S"
  shows "\<exists>ts. seq_earlier_timestamp (doc_undo d) = Some ts \<and>
    (ts = None \<longleftrightarrow> {s \<in> live_seqs (doc_undo d). s < sn_seq (snode (doc_undo S) (st_current (doc_undo S)))} = {})"
proof -
  let ?k = "sn_seq (snode (doc_undo S) (st_current (doc_undo S)))"
  have r: "refines R (doc_undo d) (doc_undo S)" using b drefinesD(1) by (auto simp: between_def)
  have k: "current_seq (doc_undo d) = Some ?k" by (rule between_current_seq [OF b])
  show ?thesis
  proof (cases "node_below (doc_undo d) ?k")
    case None
    then show ?thesis
      using node_below_spec [OF r, of ?k] k by (auto simp: seq_earlier_timestamp_def live_seqs_refines [OF r])
  next
    case (Some i)
    then obtain a where a: "st_nodes (doc_undo S) i = Some a" "sn_seq a < ?k"
      using node_below_spec [OF r, of ?k] by (auto simp: seq_before_def)
    from refines_live [OF r a(1)] obtain n where n: "node_get (doc_undo d) i = Some n" .
    have "sn_seq a \<in> {s \<in> live_seqs (doc_undo d). s < ?k}"
      using a by (auto simp: live_seqs_refines [OF r])
    then show ?thesis using Some k n by (auto simp: seq_earlier_timestamp_def)
  qed
qed

lemma later_timestamp_total:
  assumes b: "between R d S"
  shows "\<exists>ts. seq_later_timestamp (doc_undo d) = Some ts \<and>
    (ts = None \<longleftrightarrow> {s \<in> live_seqs (doc_undo d). sn_seq (snode (doc_undo S) (st_current (doc_undo S))) < s} = {})"
proof -
  let ?k = "sn_seq (snode (doc_undo S) (st_current (doc_undo S)))"
  have r: "refines R (doc_undo d) (doc_undo S)" using b drefinesD(1) by (auto simp: between_def)
  have k: "current_seq (doc_undo d) = Some ?k" by (rule between_current_seq [OF b])
  show ?thesis
  proof (cases "node_above (doc_undo d) ?k")
    case None
    then show ?thesis
      using node_above_spec [OF r, of ?k] k by (auto simp: seq_later_timestamp_def live_seqs_refines [OF r])
  next
    case (Some i)
    then obtain a where a: "st_nodes (doc_undo S) i = Some a" "?k < sn_seq a"
      using node_above_spec [OF r, of ?k] by (auto simp: seq_after_def)
    from refines_live [OF r a(1)] obtain n where n: "node_get (doc_undo d) i = Some n" .
    have "sn_seq a \<in> {s \<in> live_seqs (doc_undo d). ?k < s}"
      using a by (auto simp: live_seqs_refines [OF r])
    then show ?thesis using Some k n by (auto simp: seq_later_timestamp_def)
  qed
qed

definition earlier_stop :: "int \<Rightarrow> 'r undo_tree \<Rightarrow> bool" where
  "earlier_stop target t \<longleftrightarrow>
     seq_earlier_timestamp t = Some None \<or> (\<exists>ts. seq_earlier_timestamp t = Some (Some ts) \<and> ts \<le> target)"

definition later_stop :: "int \<Rightarrow> 'r undo_tree \<Rightarrow> bool" where
  "later_stop target t \<longleftrightarrow>
     seq_later_timestamp t = Some None \<or> (\<exists>ts. seq_later_timestamp t = Some (Some ts) \<and> target < ts)"

lemma earlier_by_time_total:
  assumes R: "rope_laws R" and "between R d S"
  shows "\<exists>n d' S'. earlier_by_time R look target count d = Some (n, d') \<and> between R d' S' \<and>
    earlier_stop target (doc_undo d')"
  using assms(2)
proof (induction "sn_seq (snode (doc_undo S) (st_current (doc_undo S)))" arbitrary: d S count rule: less_induct)
  case less
  obtain ts where ts: "seq_earlier_timestamp (doc_undo d) = Some ts"
    "ts = None \<longleftrightarrow> {s \<in> live_seqs (doc_undo d). s < sn_seq (snode (doc_undo S) (st_current (doc_undo S)))} = {}"
    using earlier_timestamp_total [OF less.prems] by blast
  show ?case
  proof (cases "earlier_stop target (doc_undo d)")
    case True
    then have "earlier_by_time R look target count d = Some (count, d)"
      by (subst earlier_by_time.simps) (auto simp: earlier_stop_def)
    then show ?thesis using less.prems True by blast
  next
    case False
    then obtain ts' where ts': "ts = Some ts'" "target < ts'"
      using ts(1) by (cases ts) (auto simp: earlier_stop_def)
    obtain e d1 S1 where d1: "seq_earlier_core R (fst (look count)) (snd (look count)) d = Some (e, d1)"
      "between R d1 S1" and c: "case e of
       None \<Rightarrow> {s \<in> live_seqs (doc_undo d). s < sn_seq (snode (doc_undo S) (st_current (doc_undo S)))} = {}
     | Some _ \<Rightarrow> (let s' = sn_seq (snode (doc_undo S1) (st_current (doc_undo S1))) in
         s' \<in> live_seqs (doc_undo d) \<and> s' < sn_seq (snode (doc_undo S) (st_current (doc_undo S))) \<and>
         (\<forall>s \<in> live_seqs (doc_undo d). s < sn_seq (snode (doc_undo S) (st_current (doc_undo S))) \<longrightarrow> s \<le> s'))"
      using earlier_core_seq [OF R less.prems, of "fst (look count)" "snd (look count)"] by blast
    have e: "e \<noteq> None" using c ts(2) ts'(1) by (cases e) auto
    then have "sn_seq (snode (doc_undo S1) (st_current (doc_undo S1))) <
        sn_seq (snode (doc_undo S) (st_current (doc_undo S)))"
      using c by (auto simp: Let_def)
    from less.hyps [OF this d1(2)] obtain n d' S' where
      "earlier_by_time R look target (count + 1) d1 = Some (n, d')" "between R d' S'"
      "earlier_stop target (doc_undo d')" by blast
    then show ?thesis
      using ts ts' d1(1) e by (subst earlier_by_time.simps) auto
  qed
qed

lemma later_by_time_total:
  assumes R: "rope_laws R" and "between R d S"
  shows "\<exists>n d' S'. later_by_time R levels look target count d = Some (n, d') \<and> between R d' S' \<and>
    later_stop target (doc_undo d')"
  using assms(2)
proof (induction "st_next_seq (doc_undo S) - sn_seq (snode (doc_undo S) (st_current (doc_undo S)))"
    arbitrary: d S count rule: less_induct)
  case less
  obtain ts where ts: "seq_later_timestamp (doc_undo d) = Some ts"
    "ts = None \<longleftrightarrow> {s \<in> live_seqs (doc_undo d). sn_seq (snode (doc_undo S) (st_current (doc_undo S))) < s} = {}"
    using later_timestamp_total [OF less.prems] by blast
  show ?case
  proof (cases "later_stop target (doc_undo d)")
    case True
    then have "later_by_time R levels look target count d = Some (count, d)"
      by (subst later_by_time.simps) (auto simp: later_stop_def)
    then show ?thesis using less.prems True by blast
  next
    case False
    then obtain ts' where ts': "ts = Some ts'" "\<not> target < ts'"
      using ts(1) by (cases ts) (auto simp: later_stop_def)
    obtain e d1 S1 where d1: "seq_later_core R levels (fst (look count)) (snd (look count)) d = Some (e, d1)"
      "between R d1 S1" "st_next_seq (doc_undo S1) = st_next_seq (doc_undo S)" and c: "case e of
       None \<Rightarrow> {s \<in> live_seqs (doc_undo d). sn_seq (snode (doc_undo S) (st_current (doc_undo S))) < s} = {}
     | Some _ \<Rightarrow> (let s' = sn_seq (snode (doc_undo S1) (st_current (doc_undo S1))) in
         s' \<in> live_seqs (doc_undo d) \<and> sn_seq (snode (doc_undo S) (st_current (doc_undo S))) < s' \<and>
         (\<forall>s \<in> live_seqs (doc_undo d). sn_seq (snode (doc_undo S) (st_current (doc_undo S))) < s \<longrightarrow> s' \<le> s))"
      using later_core_seq [OF R less.prems, of levels "fst (look count)" "snd (look count)"] by blast
    have e: "e \<noteq> None" using c ts(2) ts'(1) by (cases e) auto
    have "sn_seq (snode (doc_undo S1) (st_current (doc_undo S1))) < st_next_seq (doc_undo S1)"
    proof -
      have w: "spec_wf (doc_undo S1)" using d1(2) drefinesD(2) by (auto simp: between_def)
      obtain a where "st_nodes (doc_undo S1) (st_current (doc_undo S1)) = Some a"
        using spec_wfD(3) [OF w] by blast
      then show ?thesis using spec_wfD(5) [OF w] by (auto simp: seqs_wf_def snode_simps)
    qed
    moreover have "sn_seq (snode (doc_undo S) (st_current (doc_undo S))) <
        sn_seq (snode (doc_undo S1) (st_current (doc_undo S1)))"
      using c e by (auto simp: Let_def)
    ultimately have "st_next_seq (doc_undo S1) - sn_seq (snode (doc_undo S1) (st_current (doc_undo S1))) <
        st_next_seq (doc_undo S) - sn_seq (snode (doc_undo S) (st_current (doc_undo S)))"
      using d1(3) by linarith
    from less.hyps [OF this d1(2)] obtain n d' S' where
      "later_by_time R levels look target (count + 1) d1 = Some (n, d')" "between R d' S'"
      "later_stop target (doc_undo d')" by blast
    then show ?thesis
      using ts ts' d1(1) e by (subst later_by_time.simps) auto
  qed
qed

text \<open>
  The two walks by time end after every session, without a panic, in a document whose
  next state in the direction of the walk is on the other side of the target time or does
  not exist.
\<close>

lemma time_walks_end:
  assumes "rope_laws R" and "valid_str s" and "\<forall>c \<in> set cs. command_ok c"
  shows "\<exists>es d. run R levels cs (doc_new R s now) = Some (es, d) \<and>
    (\<exists>n d'. earlier_by_time R look target 0 d = Some (n, d') \<and> earlier_stop target (doc_undo d')) \<and>
    (\<exists>n d'. later_by_time R levels look target 0 d = Some (n, d') \<and> later_stop target (doc_undo d'))"
  using reached [OF assms, of levels now] earlier_by_time_total [OF assms(1)]
    later_by_time_total [OF assms(1)] by metis

section \<open>The node budget\<close>

lemma dom_clear_redo: "dom (st_nodes (s_clear_redo B)) \<subseteq> dom (st_nodes B)"
  by (auto simp: s_clear_redo_def s_delete_def restrict_map_def split: if_splits)

lemma a_push_size:
  assumes "a_push levels cursor ts marks S S'" and "1 \<le> levels" and "spec_wf (doc_undo S)"
  shows "s_size (doc_undo S') \<le> levels + 1"
proof -
  let ?e = "\<lparr>se_text = doc_text S, se_cursor = cursor, se_timestamp = ts, se_marks = marks\<rparr>"
  obtain child B where B: "st_nodes (doc_undo S) child = None"
    "a_cap levels (s_push child ?e (doc_undo S)) B" "S' = S\<lparr>doc_undo := s_clear_redo B\<rparr>"
    using assms(1) by (auto simp: a_push_def)
  have c: "s_cap levels (s_push child ?e (doc_undo S)) B" and size: "s_size B \<le> levels + 1"
    using B(2) assms(2) by (simp_all add: a_cap_def)
  have "spec_wf B" by (rule s_cap_wf [OF c s_push_wf [OF assms(3) B(1)]])
  then have "s_size (s_clear_redo B) \<le> s_size B"
    by (intro card_mono spec_wfD(1) dom_clear_redo)
  then show ?thesis using size B(3) by simp
qed

lemma changing_size:
  assumes c: "a_command R levels c S es S'" and ch: "changing c" and wf: "spec_wf (doc_undo S)"
    and out: "doc_depth S = 0" and l: "1 \<le> levels" and w: "weight c < 2 ^ 32"
  shows "s_size (doc_undo S') \<le> levels + 1"
  using changing_pushed [OF c ch out w] a_push_size [OF _ l] wf by (auto simp: pushed_def)

text \<open>
  With a positive limit on the undo levels the tree holds at most that many nodes
  besides its root after every changing command, however many branches the session made.
\<close>

lemma node_budget:
  assumes "rope_laws R" and "valid_str s" and "\<forall>c \<in> set cs. command_ok c"
    and "command_ok c" and "changing c" and "1 \<le> levels"
  shows "\<exists>es d. run R levels (cs @ [c]) (doc_new R s now) = Some (es, d) \<and>
    live_count (doc_undo d) \<le> levels + 1"
proof -
  obtain es d S where d: "run R levels cs (doc_new R s now) = Some (es, d)" "between R d S"
    using reached [OF assms(1-3), of levels now] by blast
  obtain e d' S' where S': "run_command R levels c d = Some (e, d')"
    "a_command R levels c S (map (map_option (abs_entry R)) e) S'" "between R d' S'"
    using command_refines [OF assms(1) d(2) assms(4)] by blast
  have "spec_wf (doc_undo S)" "doc_depth S = 0" using d(2) drefinesD(2) by (auto simp: between_def)
  moreover have "weight c < 2 ^ 32" using assms(4) by (simp add: command_ok_def)
  ultimately have "s_size (doc_undo S') \<le> levels + 1" by (intro changing_size [OF S'(2) assms(5) _ _ assms(6)])
  moreover have "live_count (doc_undo d') = s_size (doc_undo S')"
    using live_count_refines [OF drefinesD(1)] S'(3) unfolding between_def by blast
  ultimately show ?thesis using d(1) S'(1) by (simp add: run_append)
qed

section \<open>Departures from the documentation\<close>

text \<open>Where the current state has no children, a push leaves it with the new state as its only
  child and with its own parent, unless the cap on the undo levels dropped the parent.\<close>

lemma pushed_above:
  assumes p: "pushed levels S S'" and wf: "spec_wf (doc_undo S)" and leaf: "leaf S" and wf': "spec_wf (doc_undo S')"
  defines "A \<equiv> doc_undo S'" and "q \<equiv> st_current (doc_undo S)"
  shows "set (sn_children (snode A q)) \<subseteq> {st_current A}"
    and "spar A q = spar (doc_undo S) q \<or> levels \<noteq> 0 \<and> spar A q = None"
    and "spar A q = Some p \<Longrightarrow> p \<noteq> st_current A \<and> sn_text (snode A p) = sn_text (snode (doc_undo S) p)"
proof -
  obtain S0 S1 cursor ts marks where S0: "doc_undo S0 = doc_undo S" "doc_text S0 = doc_text S"
    "a_push levels cursor ts marks S0 S1" "doc_undo S' = doc_undo S1" using p by (auto simp: pushed_def)
  let ?e = "\<lparr>se_text = doc_text S, se_cursor = cursor, se_timestamp = ts, se_marks = marks\<rparr>"
  obtain child B where B: "st_nodes (doc_undo S) child = None"
    "a_cap levels (s_push child ?e (doc_undo S)) B" "A = s_clear_redo B"
    using S0 by (auto simp: a_push_def A_def)
  let ?A1 = "s_push child ?e (doc_undo S)"
  have k: "keeps ?A1 B" using B(2) keeps_refl [of ?A1] by (auto simp: a_cap_def split: if_splits)
  have cur: "st_current B = child" using keepsD(1) [OF k] by (simp add: s_push_current)
  have g: "q \<in> dom (st_nodes A)" "st_current A = child"
    using pushed_grown [OF p wf] cur B(3) by (auto simp: grown_from_def Let_def A_def q_def)
  obtain b where b: "st_nodes A q = Some b" using g(1) by blast
  have nq: "q \<noteq> child" using spec_wfD(3) [OF wf] B(1) by (auto simp: q_def)
  have dB: "st_current B \<in> dom (st_nodes B)"
  proof (rule ccontr)
    assume "st_current B \<notin> dom (st_nodes B)"
    then have "spar A (st_current A) = None"
      unfolding B(3) by (cases "st_nodes (s_clear_redo B) child")
        (auto simp: spar_def s_clear_redo_def s_delete_def restrict_map_def cur split: if_splits)
    then show False using pushed_grown [OF p wf] by (simp add: grown_from_def Let_def A_def)
  qed
  have look: "st_nodes B i = Some a" if "st_nodes A i = Some a" "i \<noteq> child" for i a
    using that unfolding B(3) by (auto simp: s_clear_redo_lookup [OF dB] cur split: if_splits)
  have lives: "\<exists>a0. st_nodes ?A1 i = Some a0 \<and> snode_keeps a0 a" if "st_nodes A i = Some a" "i \<noteq> child" for i a
    using keepsD(3) [OF k look [OF that]] .
  obtain b0 where b0: "st_nodes ?A1 q = Some b0" "snode_keeps b0 b" using lives [OF b nq] by blast
  obtain bS where bS: "st_nodes (doc_undo S) q = Some bS" using spec_wfD(3) [OF wf] by (auto simp: q_def)
  have b1: "sn_children b0 = [child]" "sn_parent b0 = sn_parent bS"
    using b0(1) leaf bS nq by (auto simp: s_push_def Let_def s_set_lookup snode_def q_def)
  show "set (sn_children (snode A q)) \<subseteq> {st_current A}"
    using b b0(2) b1(1) g(2) by (simp add: snode_simps snode_keeps_def)
  show "spar A q = spar (doc_undo S) q \<or> levels \<noteq> 0 \<and> spar A q = None"
  proof (cases "levels = 0")
    case True
    then have "B = ?A1" using B(2) by (simp add: a_cap_def)
    then have "b = b0" using look [OF b nq] b0(1) by simp
    then show ?thesis using b bS b1(2) by (simp add: spar_def)
  next
    case False
    then show ?thesis using b bS b0(2) b1(2) by (auto simp: spar_def snode_keeps_def)
  qed
  show "p \<noteq> st_current A \<and> sn_text (snode A p) = sn_text (snode (doc_undo S) p)" if "spar A q = Some p"
  proof -
    have up: "sn_parent b = Some p" using that b by (simp add: spar_def)
    then have "spar (doc_undo S) q = Some p" using bS b0(2) b1(2) by (auto simp: spar_def snode_keeps_def)
    then have inS: "p \<in> dom (st_nodes (doc_undo S))" and np: "p \<noteq> q"
      using bS links_parent(1) [OF spec_wfD(4) [OF wf] bS] by (auto simp: spar_def)
    have nc: "p \<noteq> child" using inS B(1) by auto
    obtain a where a: "st_nodes A p = Some a"
      using links_parent(1) [OF spec_wfD(4) [OF wf'], folded A_def, OF b up] by blast
    obtain a0 where a0: "st_nodes ?A1 p = Some a0" "snode_keeps a0 a" using lives [OF a nc] by blast
    then have "st_nodes (doc_undo S) p = Some a0"
      using np nc by (auto simp: s_push_def Let_def s_set_lookup q_def)
    then show ?thesis using a a0(2) nc g(2) by (simp add: snode_simps snode_keeps_def)
  qed
qed

lemma undo_to_parent:
  assumes "spar A (st_current A) = Some p" and "p \<noteq> st_current A"
  shows "\<exists>se A'. s_undo x cursor marks A = (Some se, A') \<and> se_text se = sn_text (snode A p)"
  using assms spar_dom [OF assms(1)]
  by (cases "st_nodes A p") (auto simp: s_undo_def Let_def s_entry_def snode_def s_set_lookup)

text \<open>Dropping the boundary of a group in the middle of it.\<close>

lemma pop_above:
  assumes p: "pushed levels S S'" and wf: "spec_wf (doc_undo S)" and leaf: "leaf S" and wf': "spec_wf (doc_undo S')"
    and leaf': "leaf S'"
  defines "A \<equiv> snd (s_pop (doc_undo S'))" and "q \<equiv> st_current (doc_undo S)"
  shows "st_current A = q" and "sn_children (snode A q) = []" and "sn_seq (snode A q) = sn_seq (snode (doc_undo S) q)"
    and "spar A q = spar (doc_undo S) q \<or> levels \<noteq> 0 \<and> spar A q = None"
    and "spar A q = Some r \<Longrightarrow> r \<noteq> q \<and> sn_text (snode A r) = sn_text (snode (doc_undo S) r)"
proof -
  let ?B = "doc_undo S'"
  have g: "spar ?B (st_current ?B) = Some q" "q \<noteq> st_current ?B" "q \<in> dom (st_nodes ?B)"
    "sn_seq (snode ?B q) = sn_seq (snode (doc_undo S) q)"
    using pushed_grown [OF p wf] by (simp_all add: grown_from_def Let_def q_def)
  obtain a b where a: "st_nodes ?B (st_current ?B) = Some a" "sn_parent a = Some q" and b: "st_nodes ?B q = Some b"
    using g(1,3) by (auto simp: spar_def bind_eq_Some_conv)
  have "sn_children a = []" using leaf' a by (simp add: snode_simps)
  note cut = s_pop_cut [OF a(1) this a(2) b g(2)]
  have above: "set (sn_children b) \<subseteq> {st_current ?B}"
    using pushed_above(1) [OF p wf leaf wf'] b by (simp add: q_def snode_simps)
  have emp: "filter (\<lambda>x. x \<noteq> st_current ?B) (sn_children b) = []" using above by (auto simp: filter_empty_conv)
  have look: "st_nodes A i = (if i = st_current ?B then None
      else if i = q then map_option (\<lambda>b. b\<lparr>sn_children := [], sn_last := last_opt []\<rparr>) (st_nodes ?B q) else st_nodes ?B i)" for i
    using cut b by (simp add: A_def s_cut_lookup emp)
  show "st_current A = q" using cut by (simp add: A_def)
  show "sn_children (snode A q) = []" "sn_seq (snode A q) = sn_seq (snode (doc_undo S) q)"
    using g(2,4) b by (simp_all add: snode_def look)
  have up: "spar A q = spar ?B q" using g(2) b by (simp add: spar_def look)
  then show "spar A q = spar (doc_undo S) q \<or> levels \<noteq> 0 \<and> spar A q = None"
    using pushed_above(2) [OF p wf leaf wf'] by (simp add: q_def)
  show "r \<noteq> q \<and> sn_text (snode A r) = sn_text (snode (doc_undo S) r)" if "spar A q = Some r"
  proof -
    have r: "spar ?B q = Some r" using that up by simp
    have "r \<noteq> st_current ?B" "sn_text (snode ?B r) = sn_text (snode (doc_undo S) r)"
      using pushed_above(3) [OF p wf leaf wf', of r] r by (simp_all add: q_def)
    moreover have "r \<noteq> q"
      using r b links_parent(1) [OF spec_wfD(4) [OF wf'] b] by (auto simp: spar_def)
    ultimately show ?thesis by (simp add: snode_def look)
  qed
qed

lemma pushed_leaf:
  assumes p: "pushed levels S S'" and wf': "spec_wf (doc_undo S')"
  shows "leaf S'"
proof -
  obtain B where B: "doc_undo S' = s_clear_redo B" using p by (auto simp: pushed_def a_push_def)
  have cur: "st_current (s_clear_redo B) = st_current B" by (simp add: s_clear_redo_def s_delete_def)
  obtain a where a: "st_nodes (s_clear_redo B) (st_current B) = Some a"
    using spec_wfD(3) [OF wf'] by (auto simp: B cur)
  then have "st_current B \<in> dom (st_nodes B)"
    by (cases "st_nodes B (st_current B)") (auto simp: s_clear_redo_def s_delete_def restrict_map_def split: if_splits)
  then show ?thesis using a by (auto simp: B cur snode_simps s_clear_redo_lookup)
qed

lemma push_suppressed:
  assumes "drefines R d S" and "doc_depth S \<noteq> 0" and "doc_armed S"
  shows "push_undo_at R levels cursor ts marks d = Some d"
  using assms(2,3) drefinesD(6,7) [OF assms(1)]
  by (simp add: push_undo_at_def undo_group_arm_def undo_group_active_def)

lemma no_match_drops:
  assumes R: "rope_laws R" and b: "between R d S" and leaf: "leaf S"
    and up: "spar (doc_undo S) (st_current (doc_undo S)) = Some p"
    and ok: "command_ok (Group body)" and ch: "changing (Group body)"
  shows "\<exists>d1 d2 e d3. run_command R levels (Group body) d = Some ([], d1) \<and>
    run_command R levels (Group (body @ [NoChange cursor ts marks])) d = Some ([], d2) \<and>
    doc_text d2 = doc_text d1 \<and> current_seq (doc_undo d2) = current_seq (doc_undo d) \<and>
    undo_core R cu mu d2 = Some (e, d3) \<and> (levels = 0 \<longrightarrow> e \<noteq> None) \<and>
    (e \<noteq> None \<longrightarrow> rp_text R (doc_text d3) = sn_text (snode (doc_undo S) p))"
proof -
  have dd: "drefines R d S" "doc_depth S = 0" using b by (simp_all add: between_def)
  have wf: "spec_wf (doc_undo S)" using drefinesD(2) [OF dd(1)] .
  let ?n = "sum_list (map edits body)"
  have n: "0 < ?n" "list_all only_edits body" using ch by (simp_all add: changing_def)
  have w: "weight (Group body) < 2 ^ 32" using ok by (simp add: command_ok_def)
  have n32: "?n < 2 ^ 32" using edits_weight [of "Group body"] w by simp
  obtain ph where ph: "after_commands body Unarmed = Some ph" using ok by (auto simp: command_ok_def)
  have keeps: "\<forall>c \<in> set body. keeps_promise R levels c" using command_keeps [OF R] by blast
  have en: "phase_ok Unarmed 0 (undo_group_enter S)" "doc_depth (undo_group_enter S) = 1"
    using enter_outside [OF dd(2)] by simp_all
  obtain es d1 S1 where 1: "run R levels body (undo_group_enter d) = Some (es, d1)"
    "a_run R levels body (undo_group_enter S) (map (map_option (abs_entry R)) es) S1" "drefines R d1 S1"
    "phase_ok ph (sum_list (map weight body)) S1"
    using list_promise [OF keeps enter_refines [OF dd(1)] en(1) ph] en(2) w by auto
  have e: "es = []" "edited_in levels ?n (undo_group_enter S) S1" using body_in [OF n(2) dd(2) w 1(2)] by simp_all
  note bp = body_pushed [OF e(2) dd(2) n(1) n32]
  have armed: "doc_armed S1"
    using e(2) n(1) by (auto simp: edited_in_def simp del: sum_list_eq_0_iff split: if_splits)
  note wf1 = drefinesD(2) [OF 1(3)]
  have leaf1: "leaf S1" by (rule pushed_leaf [OF bp(1) wf1])
  note above = pop_above [OF bp(1) wf leaf wf1 leaf1]
  let ?A = "snd (s_pop (doc_undo S1))" and ?q = "st_current (doc_undo S)"
  have fits: "live_fits ?A (doc_text S1)" using above(1,2) by (simp add: live_fits_def)
  obtain x1 where x1: "undo_group_exit d1 = Some x1" "drefines R x1 (a_exit S1)"
    using exit_refines [OF 1(3)] bp(3) by blast
  obtain d2 where d2: "pop_last_undo d1 = Some (fst (s_pop (doc_undo S1)), d2)" "drefines R d2 (a_drop S1)"
    using pop_last_undo_refines [OF 1(3) fits] by (auto simp: a_drop_def)
  have "doc_gen (a_drop S1) \<noteq> doc_open_gen (a_drop S1)" using bp(3) by (simp add: a_drop_def)
  then obtain x2 where x2: "undo_group_exit d2 = Some x2" "drefines R x2 (a_exit (a_drop S1))"
    using exit_refines [OF d2(2)] by blast
  have S2: "a_exit (a_drop S1) = S1\<lparr>doc_undo := ?A, doc_depth := 0, doc_armed := False\<rparr>"
    using bp(2,3) by (simp add: a_exit_def a_drop_def Let_def)
  have r1: "run_command R levels (Group body) d = Some ([], x1)" using 1(1) e(1) x1(1) by simp
  have "push_undo_at R levels cursor ts marks d1 = Some d1"
    using push_suppressed [OF 1(3)] bp(2) armed by simp
  then have r2: "run_command R levels (Group (body @ [NoChange cursor ts marks])) d = Some ([], x2)"
    using 1(1) e(1) d2(1) x2(1) by (simp add: run_append)
  have "doc_text x1 = doc_text d1" "doc_text x2 = doc_text d1"
    using x1(1) x2(1) d2(1)
    by (auto simp: undo_group_exit_def pop_last_undo_def Let_def bind_eq_Some_conv split: if_splits)
  moreover have "current_seq (doc_undo x2) = current_seq (doc_undo d)"
    using current_seq_refines [OF drefinesD(1,2) [OF x2(2)]] current_seq_refines [OF drefinesD(1,2) [OF dd(1)]] above(1,3)
    by (simp add: S2)
  moreover obtain e3 d3 S3 where d3: "undo_core R cu mu x2 = Some (e3, d3)"
    "a_undo cu mu (a_exit (a_drop S1)) (map_option (abs_entry R) e3) S3" "drefines R d3 S3"
    using undo_core_refines [OF R x2(2)] by blast
  moreover have "(levels = 0 \<longrightarrow> e3 \<noteq> None) \<and> (e3 \<noteq> None \<longrightarrow> rp_text R (doc_text d3) = sn_text (snode (doc_undo S) p))"
  proof (cases "spar ?A ?q")
    case None
    then show ?thesis using above(1,4) up d3(2) by (auto simp: a_undo_def S2 s_undo_def Let_def)
  next
    case (Some r)
    then have r: "r = p" using above(4) up by simp
    obtain se A' where se: "s_undo (doc_text S1) cu mu ?A = (Some se, A')" "se_text se = sn_text (snode ?A p)"
      using undo_to_parent [of ?A r] above(5) Some above(1) r by metis
    have "map_option (abs_entry R) e3 = Some se \<and>
        S3 = a_restore (Some se) (a_exit (a_drop S1)\<lparr>doc_undo := A'\<rparr>)"
      using d3(2) se(1) by (auto simp: a_undo_def S2)
    then have "map_option (abs_entry R) e3 = Some se" "doc_text S3 = sn_text (snode (doc_undo S) p)"
      using se(2) above(5) [of p] Some r by (simp_all add: a_restore_def)
    then show ?thesis using drefinesD(4) [OF d3(3)] by auto
  qed
  ultimately show ?thesis using r1 r2 by metis
qed

text \<open>
  C38: The push of a \<open>:s\<close> is suppressed inside a group, the pop it does when it matches nothing is not.
  After every session of sound commands and a changing command, a group that edits and then runs such a \<open>:s\<close>
  leaves its text in the document, but no state of its own in the history: the current change number is
  that of the state before the group, and one undo takes the group and the command before it back
  together (or nothing, where the limit on the undo levels has dropped that state).  The same
  group without the \<open>:s\<close> is one undo step (\<open>one_undo_per_command\<close>).
\<close>

theorem no_match_drops_group:
  assumes "rope_laws R" and "valid_str s" and "\<forall>c \<in> set cs. command_ok c"
    and "command_ok c" and "changing c" and "command_ok (Group body)" and "changing (Group body)"
  shows "\<exists>es d0 d d1 d2 e d3. run R levels cs (doc_new R s now) = Some (es, d0) \<and>
    run_command R levels c d0 = Some ([], d) \<and>
    run_command R levels (Group body) d = Some ([], d1) \<and>
    run_command R levels (Group (body @ [NoChange cursor ts marks])) d = Some ([], d2) \<and>
    doc_text d2 = doc_text d1 \<and> current_seq (doc_undo d2) = current_seq (doc_undo d) \<and>
    undo_core R cu mu d2 = Some (e, d3) \<and> (levels = 0 \<longrightarrow> e \<noteq> None) \<and>
    (e \<noteq> None \<longrightarrow> rp_text R (doc_text d3) = rp_text R (doc_text d0))"
proof -
  obtain es d0 S0 where 0: "run R levels cs (doc_new R s now) = Some (es, d0)" "between R d0 S0"
    using reached [OF assms(1-3), of levels now] by blast
  have dd: "drefines R d0 S0" "doc_depth S0 = 0" using 0(2) by (simp_all add: between_def)
  obtain es1 d S where 1: "run_command R levels c d0 = Some (es1, d)"
    "a_command R levels c S0 (map (map_option (abs_entry R)) es1) S" "between R d S"
    using command_refines [OF assms(1) 0(2) assms(4)] by blast
  have p: "es1 = []" "pushed levels S0 S"
    using changing_pushed [OF 1(2) assms(5) dd(2)] assms(4) by (simp_all add: command_ok_def)
  have wf: "spec_wf (doc_undo S)" using 1(3) drefinesD(2) by (auto simp: between_def)
  have g: "spar (doc_undo S) (st_current (doc_undo S)) = Some (st_current (doc_undo S0))"
    "sn_text (snode (doc_undo S) (st_current (doc_undo S0))) = rp_text R (doc_text d0)"
    using pushed_grown [OF p(2) drefinesD(2) [OF dd(1)]] drefinesD(4) [OF dd(1)] by (simp_all add: grown_from_def Let_def)
  show ?thesis
    using no_match_drops [OF assms(1) 1(3) pushed_leaf [OF p(2) wf] g(1) assms(6,7), of levels cursor ts marks cu mu]
      0(1) 1(1) p(1) unfolding g(2) by blast
qed

theorem no_match_drops_group_witness:
  "\<exists>es d0 d d1 d2 e d3. run flat_rope 0 sample_session (doc_new flat_rope (str ''a'') 0) = Some (es, d0) \<and>
    run_command flat_rope 0 (Change ((0, 0), 9, marks_default, str ''ab'')) d0 = Some ([], d) \<and>
    run_command flat_rope 0 (Group [Push (0, 0) 9 marks_default, Change ((0, 0), 9, marks_default, str ''qr'')]) d
      = Some ([], d1) \<and>
    run_command flat_rope 0 (Group ([Push (0, 0) 9 marks_default, Change ((0, 0), 9, marks_default, str ''qr'')] @
      [NoChange (0, 0) 9 marks_default])) d = Some ([], d2) \<and>
    doc_text d2 = doc_text d1 \<and> current_seq (doc_undo d2) = current_seq (doc_undo d) \<and>
    undo_core flat_rope (0, 0) marks_default d2 = Some (e, d3) \<and> e \<noteq> None \<and>
    rp_text flat_rope (doc_text d3) = rp_text flat_rope (doc_text d0)"
proof -
  let ?c = "Change ((0, 0), 9, marks_default, str ''ab'')"
    and ?body = "[Push (0, 0) 9 marks_default, Change ((0, 0), 9, marks_default, str ''qr'')]"
  have "command_ok ?c" "changing ?c" "command_ok (Group ?body)" "changing (Group ?body)"
    by (simp_all add: changing_def command_ok_def)
  from no_match_drops_group [OF flat_rope_laws sample_valid sample_ok this,
      of 0 0 "(0, 0)" 9 marks_default "(0, 0)" marks_default]
  show ?thesis by metis
qed


text \<open>What it takes to evaluate a session over any ropes.\<close>

lemmas undo_eval = push_undo_at_def undo_group_active_def undo_group_arm_def push_def
  set_node_state_def same_rope_def node_get_def node_mod_def alloc_def touch_warm_def
  is_keyframe_def evict_to.simps cap_tree_def live_count_def clear_redo_def
  KEYFRAME_INTERVAL_def WARM_CAP_def KEYFRAME_CAP_def doc_new_def new_tree_def Let_def edit_def
  undo_group_enter_def undo_group_exit_def pop_last_undo_def pop_committed_def undo_core_def
  is_at_root_def free_node_def bt_remove_def last_opt_def materialize_def undo_step_def
  redo_step_def redo_core_def has_redo_def departed_cursor_def entry_of_def restore_rope_def
  replace_all_def seq_earlier_core_def seq_earlier_step_def current_seq_def node_below_def
  stash_and_move_def retarget_current_def link_up.simps unflag_down.simps

text \<open>
  \<open>pop_committed\<close> takes the last listed child as the redo direction instead of the one
  that the push replaced: with two branches, a command that changes nothing redirects the
  next redo from the branch the user walked to the other one.
\<close>

lemma no_change_redirects_redo:
  fixes m :: mark_snapshot
  assumes R: "rope_laws R" and i: "rp_is_instance R = (=)"
    and v: "valid_str s" "valid_str u" "valid_str w" and ne: "s \<noteq> u" "s \<noteq> w" "u \<noteq> w"
  defines "cs \<equiv> [Change ((0, 0), 1, m, rp_from_str R u), Undo (0, 0) m,
    Change ((0, 0), 2, m, rp_from_str R w), Earlier (0, 0) m, Undo (0, 0) m]"
  shows "(\<exists>es d. run R 0 (cs @ [Redo (0, 0) m]) (doc_new R s 0) = Some (es, d) \<and>
      rp_text R (doc_text d) = u) \<and>
    (\<exists>es d. run R 0 (cs @ [NoChange (0, 0) 3 m, Redo (0, 0) m]) (doc_new R s 0) = Some (es, d) \<and>
      rp_text R (doc_text d) = w)"
proof -
  note t = rope_from_str [OF R v(1)] rope_from_str [OF R v(2)] rope_from_str [OF R v(3)]
  have "rp_from_str R s \<noteq> rp_from_str R u" "rp_from_str R s \<noteq> rp_from_str R w"
    "rp_from_str R u \<noteq> rp_from_str R w"
    using t ne by metis+
  note facts = this rope_eq [OF R] t ne
  have "\<exists>es d. run R 0 (cs @ [Redo (0, 0) m]) (doc_new R s 0) = Some (es, d) \<and>
      rp_text R (doc_text d) = u"
    using facts unfolding cs_def by (simp add: undo_eval i)
  moreover have "\<exists>es d. run R 0 (cs @ [NoChange (0, 0) 3 m, Redo (0, 0) m]) (doc_new R s 0) = Some (es, d) \<and>
      rp_text R (doc_text d) = w"
    using facts unfolding cs_def by (simp add: undo_eval i)
  ultimately show ?thesis by blast
qed

text \<open>
  In a group that has armed its snapshot the push of a change after an undo is suppressed as well:
  the change is made in the state that the undo restored, its text becomes part of no state of its
  own, and here no undo reverts it any more.
\<close>

lemma stale_change_lost:
  fixes m :: mark_snapshot
  assumes R: "rope_laws R" and i: "rp_is_instance R = (=)"
    and v: "valid_str s" "valid_str u" "valid_str w" and ne: "s \<noteq> u"
  shows "\<exists>es d. run R 0 [Group [Change ((0, 0), 1, m, rp_from_str R u), Undo (0, 0) m,
      Change ((0, 0), 2, m, rp_from_str R w)]] (doc_new R s 0) = Some (es, d) \<and>
    rp_text R (doc_text d) = w \<and> undo_core R (0, 0) m d = Some (None, d)"
proof -
  note t = rope_from_str [OF R v(1)] rope_from_str [OF R v(2)] rope_from_str [OF R v(3)]
  have "rp_from_str R s \<noteq> rp_from_str R u" using t ne by metis
  note facts = this rope_eq [OF R] t ne
  show ?thesis using facts by (simp add: undo_eval i)
qed

end
