(* ===== verification/UndoFile.thy ===== *)
theory UndoFile
  imports UndoGuarantees
begin

text \<open>
  The serialized form of the undo tree (\<open>crates/hjkl-buffer/src/undo.rs\<close>, \<open>SerTree\<close>):
  the projection with dense \<open>u32\<close> ids and the reconstruction with its validation.
  \<open>from_serializable\<close> returns \<open>None\<close> where the source would panic, \<open>Some None\<close> where it
  rejects the projection.
\<close>

section \<open>The definitions of the source\<close>

type_synonym u32 = "32 word"

record ser_node =
  sd_parent :: "u32 option"
  sd_children :: "u32 list"
  sd_last_child :: "u32 option"
  sd_delta :: "delta option"
  sd_cursor :: "u32 \<times> u32"
  sd_timestamp_unix_ms :: "64 word"
  sd_marks :: mark_snapshot
  sd_seq :: nat

record ser_tree =
  sr_base :: "rstring option"
  sr_nodes :: "ser_node list"
  sr_root :: u32
  sr_current :: u32
  sr_next_seq :: nat

definition system_time_to_unix_ms :: "int \<Rightarrow> 64 word" where
  "system_time_to_unix_ms t = (if t < 0 then 0 else word_of_int (t div 1000000))"

definition unix_ms_to_system_time :: "64 word \<Rightarrow> int" where
  "unix_ms_to_system_time ms = uint ms * 1000000"

text \<open>The remap table: old id to dense index, in slab order.\<close>

fun dense_map :: "'a option list \<Rightarrow> nat \<Rightarrow> u32 option list" where
  "dense_map [] k = []"
| "dense_map (None # slots) k = None # dense_map slots k"
| "dense_map (Some n # slots) k = Some (of_nat k) # dense_map slots (Suc k)"

definition remap :: "u32 option list \<Rightarrow> nat \<Rightarrow> u32 option" where
  "remap m i = (if i < length m then m ! i else None)"

fun remap_opt :: "u32 option list \<Rightarrow> nat option \<Rightarrow> u32 option option" where
  "remap_opt m None = Some None"
| "remap_opt m (Some i) = map_option Some (remap m i)"

definition ser_node_of :: "u32 option list \<Rightarrow> 'r undo_node \<Rightarrow> ser_node option" where
  "ser_node_of m n = do {
     parent \<leftarrow> remap_opt m (un_parent n);
     children \<leftarrow> those (map (remap m) (un_children n));
     last_child \<leftarrow> remap_opt m (un_last_child n);
     Some \<lparr>sd_parent = parent, sd_children = children, sd_last_child = last_child,
       sd_delta = un_delta n,
       sd_cursor = (of_nat (fst (un_cursor n)), of_nat (snd (un_cursor n))),
       sd_timestamp_unix_ms = system_time_to_unix_ms (un_timestamp n),
       sd_marks = un_marks n, sd_seq = un_seq n\<rparr>
   }"

definition to_serializable :: "'r rope_ops \<Rightarrow> 'r undo_tree \<Rightarrow> ser_tree option" where
  "to_serializable R t = do {
     let m = dense_map (ut_nodes t) 0;
     nodes \<leftarrow> those (map (ser_node_of m) (map the (filter (\<lambda>n. n \<noteq> None) (ut_nodes t))));
     rn \<leftarrow> node_get t (ut_root t);
     let base = (case un_base rn of Some r \<Rightarrow> rp_text R r | None \<Rightarrow> []);
     root \<leftarrow> remap m (ut_root t);
     current \<leftarrow> remap m (ut_current t);
     Some \<lparr>sr_base = Some base, sr_nodes = nodes, sr_root = root, sr_current = current,
       sr_next_seq = ut_next_seq t\<rparr>
   }"

text \<open>The range loop: the root/non-root discipline and the link ranges of one node.\<close>

definition ser_node_ok :: "nat \<Rightarrow> u32 \<Rightarrow> nat \<Rightarrow> ser_node \<Rightarrow> bool" where
  "ser_node_ok len root i n \<longleftrightarrow>
     (case (of_nat i = root, sd_delta n, sd_parent n) of
        (True, None, None) \<Rightarrow> True
      | (False, Some _, Some _) \<Rightarrow> True
      | _ \<Rightarrow> False) \<and>
     (case sd_parent n of Some p \<Rightarrow> unat p < len | None \<Rightarrow> True) \<and>
     (\<forall>c \<in> set (sd_children n). unat c < len) \<and>
     (case sd_last_child n of Some c \<Rightarrow> unat c < len | None \<Rightarrow> True)"

fun list_children ::
  "u32 \<Rightarrow> u32 \<Rightarrow> u32 list \<Rightarrow> u32 option list \<Rightarrow> u32 option list option" where
  "list_children root i [] l = Some l"
| "list_children root i (c # cs) l =
     (if c = root \<or> l ! unat c \<noteq> None then None
      else list_children root i cs (l[unat c := Some i]))"

fun list_nodes ::
  "u32 \<Rightarrow> nat \<Rightarrow> ser_node list \<Rightarrow> u32 option list \<Rightarrow> u32 option list option" where
  "list_nodes root i [] l = Some l"
| "list_nodes root i (n # ns) l = do {
     l \<leftarrow> list_children root (of_nat i) (sd_children n) l;
     list_nodes root (Suc i) ns l
   }"

definition ser_valid :: "ser_tree \<Rightarrow> bool" where
  "ser_valid s \<longleftrightarrow>
     (let len = length (sr_nodes s) in
      len \<noteq> 0 \<and> unat (sr_root s) < len \<and> unat (sr_current s) < len \<and> sr_base s \<noteq> None \<and>
      (\<forall>i \<in> set [0 ..< len]. ser_node_ok len (sr_root s) i (sr_nodes s ! i)) \<and>
      distinct (map sd_seq (sr_nodes s)) \<and>
      list_nodes (sr_root s) 0 (sr_nodes s) (replicate len None) = Some (map sd_parent (sr_nodes s)))"

text \<open>The breadth-first walk over the children lists.\<close>

fun visit ::
  "nat \<Rightarrow> u32 list \<Rightarrow> nat list \<Rightarrow> bool list \<Rightarrow> nat list \<Rightarrow> (nat list \<times> bool list \<times> nat list) option" where
  "visit i [] depths seen queue = Some (depths, seen, queue)"
| "visit i (c # cs) depths seen queue =
     (if unat c < length seen then
        (if \<not> seen ! unat c
         then visit i cs (depths[unat c := depths ! i + 1]) (seen[unat c := True]) (queue @ [unat c])
         else visit i cs depths seen queue)
      else None)"

definition unseen :: "bool list \<Rightarrow> nat" where
  "unseen seen = length (filter Not seen)"

lemma unseen_append: "unseen (xs @ b # ys) = unseen xs + (if b then 0 else 1) + unseen ys"
  by (simp add: unseen_def)

lemma unseen_update:
  assumes "i < length seen" and "\<not> seen ! i"
  shows "Suc (unseen (seen[i := True])) = unseen seen"
  using unseen_append [of "take i seen" "seen ! i" "drop (Suc i) seen"]
    unseen_append [of "take i seen" True "drop (Suc i) seen"]
    id_take_nth_drop [OF assms(1)] upd_conv_take_nth_drop [OF assms(1), of True] assms(2)
  by simp

lemma visit_measure:
  "visit i cs depths seen queue = Some (depths', seen', queue') \<Longrightarrow>
    unseen seen' + length queue' = unseen seen + length queue \<and> length seen' = length seen"
proof (induction i cs depths seen queue rule: visit.induct)
  case (2 i c cs depths seen queue)
  then show ?case using unseen_update [of "unat c" seen] by (auto split: if_splits)
qed simp

function bfs :: "ser_node list \<Rightarrow> nat list \<Rightarrow> nat list \<Rightarrow> bool list \<Rightarrow> (nat list \<times> bool list) option" where
  "bfs nodes [] depths seen = Some (depths, seen)"
| "bfs nodes (i # queue) depths seen =
     (if i < length nodes then
        (case visit i (sd_children (nodes ! i)) depths seen queue of
           None \<Rightarrow> None
         | Some (depths, seen, queue) \<Rightarrow> bfs nodes queue depths seen)
      else None)"
  by pat_completeness auto

termination bfs
  by (relation "measure (\<lambda>(nodes, queue, depths, seen). unseen seen + length queue)")
    (auto dest: visit_measure)

definition depths_from_root :: "ser_tree \<Rightarrow> (nat list \<times> bool list) option" where
  "depths_from_root s =
     (let len = length (sr_nodes s); root = unat (sr_root s) in
      if root < len then bfs (sr_nodes s) [root] (replicate len 0) ((replicate len False)[root := True])
      else None)"

definition node_of_ser :: "'r \<Rightarrow> u32 \<Rightarrow> nat list \<Rightarrow> nat \<Rightarrow> ser_node \<Rightarrow> 'r undo_node" where
  "node_of_ser base root depths i n = \<lparr>un_parent = map_option unat (sd_parent n),
     un_children = map unat (sd_children n), un_last_child = map_option unat (sd_last_child n),
     un_delta = sd_delta n, un_base = (if of_nat i = root then Some base else None),
     un_rope_cache = None, un_depth = depths ! i,
     un_cursor = (unat (fst (sd_cursor n)), unat (snd (sd_cursor n))),
     un_timestamp = unix_ms_to_system_time (sd_timestamp_unix_ms n), un_marks = sd_marks n,
     un_seq = sd_seq n, un_on_path = False\<rparr>"

text \<open>The loop \<open>for _ in 0..len\<close> that flags the chain of the current node.\<close>

fun flag_path :: "nat \<Rightarrow> nat \<Rightarrow> 'r undo_node list \<Rightarrow> 'r undo_node list" where
  "flag_path 0 node nodes = nodes"
| "flag_path (Suc k) node nodes =
     (let nodes = nodes[node := (nodes ! node)\<lparr>un_on_path := True\<rparr>] in
      case un_parent (nodes ! node) of
        None \<Rightarrow> nodes
      | Some p \<Rightarrow> flag_path k p (nodes[p := (nodes ! p)\<lparr>un_last_child := Some node\<rparr>]))"

definition repair_last :: "'r undo_node \<Rightarrow> 'r undo_node" where
  "repair_last n = (case un_last_child n of
     Some c \<Rightarrow> if c \<in> set (un_children n) then n else n\<lparr>un_last_child := None\<rparr>
   | None \<Rightarrow> n)"

fun collect_seqs :: "nat \<Rightarrow> 'r undo_node list \<Rightarrow> (nat \<times> nat) list \<Rightarrow> (nat \<times> nat) list" where
  "collect_seqs i [] m = m"
| "collect_seqs i (n # ns) m = collect_seqs (Suc i) ns (bt_insert (un_seq n) i m)"

definition from_serializable :: "'r rope_ops \<Rightarrow> ser_tree \<Rightarrow> 'r undo_tree option option" where
  "from_serializable R s =
     (if \<not> ser_valid s then Some None
      else do {
        (depths, reachable) \<leftarrow> depths_from_root s;
        if \<not> list_all id reachable then Some None
        else do {
          let base = rp_from_str R (the (sr_base s));
          let len = length (sr_nodes s);
          let nodes = map (\<lambda>i. node_of_ser base (sr_root s) depths i (sr_nodes s ! i)) [0 ..< len];
          let nodes = flag_path len (unat (sr_current s)) nodes;
          let nodes = map repair_last nodes;
          Some (Some \<lparr>ut_nodes = map Some nodes, ut_free = [], ut_warm = [], ut_keyframes = [],
            ut_by_seq = collect_seqs 0 nodes [], ut_root = unat (sr_root s),
            ut_current = unat (sr_current s), ut_next_seq = sr_next_seq s\<rparr>)
        }
      })"

text \<open>Saving and loading through a document (\<open>crates/hjkl-buffer/src/buffer.rs\<close>).\<close>

definition undo_to_serializable :: "'r rope_ops \<Rightarrow> 'r doc \<Rightarrow> ((ser_tree \<times> nat) \<times> 'r doc) option" where
  "undo_to_serializable R d = do {
     t \<leftarrow> sync_current R (doc_text d) (doc_undo d);
     k \<leftarrow> current_seq t;
     s \<leftarrow> to_serializable R t;
     Some ((s, k), d\<lparr>doc_undo := t\<rparr>)
   }"

definition install_undo_tree :: "'r rope_ops \<Rightarrow> ser_tree \<Rightarrow> 'r doc \<Rightarrow> (bool \<times> 'r doc) option" where
  "install_undo_tree R ser d = do {
     res \<leftarrow> from_serializable R ser;
     Some (case res of Some t \<Rightarrow> (True, d\<lparr>doc_undo := t\<rparr>) | None \<Rightarrow> (False, d))
   }"

definition trim_end_newlines :: "rstring \<Rightarrow> rstring" where
  "trim_end_newlines s = rev (dropWhile (\<lambda>c. c = 10) (rev s))"

definition install_recovered_undo_tree ::
  "'r rope_ops \<Rightarrow> ser_tree \<Rightarrow> nat \<Rightarrow> 'r doc \<Rightarrow> (bool \<times> 'r doc) option" where
  "install_recovered_undo_tree R ser k d = do {
     res \<leftarrow> from_serializable R ser;
     (case res of
        None \<Rightarrow> Some (False, d)
      | Some t \<Rightarrow> do {
          k' \<leftarrow> current_seq t;
          if k' \<noteq> k then Some (False, d)
          else do {
            (rope, t) \<leftarrow> current_content R t;
            if trim_end_newlines (rp_text R rope) \<noteq> trim_end_newlines (rp_text R (doc_text d))
            then Some (False, d) else Some (True, d\<lparr>doc_undo := t\<rparr>)
          }
        })
   }"

section \<open>The lists partition the nodes\<close>

definition kids :: "ser_node \<Rightarrow> nat set" where
  "kids n = unat ` set (sd_children n)"

lemma list_children_spec:
  assumes "list_children root i cs l = Some l'" and "\<forall>c \<in> set cs. unat c < length l"
  shows "length l' = length l \<and> root \<notin> set cs \<and> (\<forall>c \<in> set cs. l ! unat c = None) \<and>
    (\<forall>k < length l. l' ! k = (if k \<in> unat ` set cs then Some i else l ! k))"
  using assms
proof (induction cs arbitrary: l)
  case (Cons c cs)
  then have c: "c \<noteq> root" "l ! unat c = None" "list_children root i cs (l[unat c := Some i]) = Some l'"
    by (auto split: if_splits)
  note IH = Cons.IH [OF c(3)]
  have "c \<notin> set cs" and "\<forall>x \<in> set cs. l ! unat x = None"
  proof -
    have n: "\<forall>x \<in> set cs. l[unat c := Some i] ! unat x = None" using IH Cons.prems(2) by simp
    then show "c \<notin> set cs" using Cons.prems(2) by auto
    with n show "\<forall>x \<in> set cs. l ! unat x = None"
      using Cons.prems(2) by (metis list.set_intros(2) nth_list_update_neq unsigned_word_eqI)
  qed
  then show ?case using IH c Cons.prems(2) by (auto simp: nth_list_update)
qed simp

lemma list_nodes_spec:
  assumes "list_nodes root i ns l = Some l'" and "\<forall>n \<in> set ns. \<forall>c \<in> kids n. c < length l"
  shows "length l' = length l \<and> (\<forall>n \<in> set ns. root \<notin> set (sd_children n)) \<and>
    (\<forall>k < length l. (l' ! k = l ! k \<and> (\<forall>n \<in> set ns. k \<notin> kids n)) \<or>
      (l ! k = None \<and> (\<exists>j < length ns. k \<in> kids (ns ! j) \<and> l' ! k = Some (of_nat (i + j)) \<and>
        (\<forall>j' < length ns. k \<in> kids (ns ! j') \<longrightarrow> j' = j))))"
  using assms
proof (induction ns arbitrary: i l)
  case (Cons n ns)
  obtain l1 where l1: "list_children root (of_nat i) (sd_children n) l = Some l1"
    "list_nodes root (Suc i) ns l1 = Some l'" using Cons.prems(1) by (auto simp: bind_eq_Some_conv)
  have C: "length l1 = length l" "root \<notin> set (sd_children n)" "\<forall>c \<in> kids n. l ! c = None"
    "\<forall>k < length l. l1 ! k = (if k \<in> kids n then Some (of_nat i) else l ! k)"
    using list_children_spec [OF l1(1)] Cons.prems(2) by (auto simp: kids_def)
  have IH: "length l' = length l" "\<forall>n \<in> set ns. root \<notin> set (sd_children n)"
    "\<And>k. k < length l \<Longrightarrow> (l' ! k = l1 ! k \<and> (\<forall>n \<in> set ns. k \<notin> kids n)) \<or>
      (l1 ! k = None \<and> (\<exists>j < length ns. k \<in> kids (ns ! j) \<and> l' ! k = Some (of_nat (Suc i + j)) \<and>
        (\<forall>j' < length ns. k \<in> kids (ns ! j') \<longrightarrow> j' = j)))"
    using Cons.IH [OF l1(2)] Cons.prems(2) C(1) by auto
  have "(l' ! k = l ! k \<and> (\<forall>m \<in> set (n # ns). k \<notin> kids m)) \<or>
      (l ! k = None \<and> (\<exists>j < length (n # ns). k \<in> kids ((n # ns) ! j) \<and> l' ! k = Some (of_nat (i + j)) \<and>
        (\<forall>j' < length (n # ns). k \<in> kids ((n # ns) ! j') \<longrightarrow> j' = j)))" if k: "k < length l" for k
  proof (cases "k \<in> kids n")
    case True
    then have "l1 ! k = Some (of_nat i)" using C(4) k by simp
    then have "l' ! k = Some (of_nat i)" "\<forall>n \<in> set ns. k \<notin> kids n" using IH(3) [OF k] by auto
    moreover have "j' = 0" if "j' < length (n # ns)" "k \<in> kids ((n # ns) ! j')" for j'
      using that calculation(2) by (cases j') auto
    moreover have "0 < length (n # ns)" "k \<in> kids ((n # ns) ! 0)" "l' ! k = Some (of_nat (i + 0))"
      using True calculation(1) by simp_all
    ultimately show ?thesis using True C(3) by blast
  next
    case False
    then have l1k: "l1 ! k = l ! k" using C(4) k by simp
    show ?thesis
    proof (cases "\<forall>n \<in> set ns. k \<notin> kids n")
      case True
      then have "l' ! k = l ! k" using IH(3) [OF k] l1k by auto
      then show ?thesis using True False by simp
    next
      case nall: False
      then obtain j where j: "l ! k = None" "j < length ns" "k \<in> kids (ns ! j)" "l' ! k = Some (of_nat (Suc i + j))"
        "\<forall>j' < length ns. k \<in> kids (ns ! j') \<longrightarrow> j' = j"
        using IH(3) [OF k] unfolding l1k by blast
      have "j' = Suc j" if "j' < length (n # ns)" "k \<in> kids ((n # ns) ! j')" for j'
        using that j(5) False by (cases j') auto
      moreover have "Suc j < length (n # ns)" "k \<in> kids ((n # ns) ! Suc j)" "l' ! k = Some (of_nat (i + Suc j))"
        using j(2,3,4) by simp_all
      ultimately show ?thesis using j(1) by blast
    qed
  qed
  then show ?case using C(2) IH(1,2) by simp
qed simp

text \<open>What validation establishes.\<close>

definition ser_parent :: "ser_tree \<Rightarrow> nat \<Rightarrow> nat option" where
  "ser_parent s i = (if i < length (sr_nodes s) then map_option unat (sd_parent (sr_nodes s ! i)) else None)"

lemma ser_validD:
  assumes "ser_valid s"
  shows "unat (sr_root s) < length (sr_nodes s)" and "unat (sr_current s) < length (sr_nodes s)"
    and "i < length (sr_nodes s) \<Longrightarrow> ser_node_ok (length (sr_nodes s)) (sr_root s) i (sr_nodes s ! i)"
    and "distinct (map sd_seq (sr_nodes s))"
    and "list_nodes (sr_root s) 0 (sr_nodes s) (replicate (length (sr_nodes s)) None) = Some (map sd_parent (sr_nodes s))"
  using assms by (simp_all add: ser_valid_def Let_def)

lemma unat_u32: "a < 2 ^ 32 \<Longrightarrow> unat (of_nat a :: u32) = a"
  by (simp add: unsigned_of_nat take_bit_eq_mod)

lemma ser_kids_range:
  assumes v: "ser_valid s" and n: "n \<in> set (sr_nodes s)" and c: "c \<in> kids n"
  shows "c < length (sr_nodes s)"
proof -
  obtain i where i: "i < length (sr_nodes s)" "sr_nodes s ! i = n" using n by (auto simp: in_set_conv_nth)
  have "\<forall>c \<in> set (sd_children n). unat c < length (sr_nodes s)"
    using ser_validD(3) [OF v i(1)] i(2) unfolding ser_node_ok_def by blast
  then show ?thesis using c by (auto simp: kids_def)
qed

lemma ser_parent_iff:
  assumes v: "ser_valid s" and len: "length (sr_nodes s) \<le> 2 ^ 32" and k: "k < length (sr_nodes s)"
    and j: "j < length (sr_nodes s)"
  shows "ser_parent s k = Some j \<longleftrightarrow> k \<in> kids (sr_nodes s ! j)"
proof -
  let ?ns = "sr_nodes s"
  have range: "\<forall>n \<in> set ?ns. \<forall>c \<in> kids n. c < length (replicate (length ?ns) (None :: u32 option))"
    using ser_kids_range [OF v] by simp
  from list_nodes_spec [OF ser_validD(5) [OF v] range] k
  have P: "(sd_parent (?ns ! k) = None \<and> (\<forall>n \<in> set ?ns. k \<notin> kids n)) \<or>
      (\<exists>i < length ?ns. k \<in> kids (?ns ! i) \<and> sd_parent (?ns ! k) = Some (of_nat i) \<and>
        (\<forall>j' < length ?ns. k \<in> kids (?ns ! j') \<longrightarrow> j' = i))" by auto
  show ?thesis
  proof (cases "sd_parent (?ns ! k)")
    case None
    then have "\<forall>n \<in> set ?ns. k \<notin> kids n" using P by (metis option.distinct(1))
    then show ?thesis using None k j by (simp add: ser_parent_def)
  next
    case (Some p)
    obtain i where i: "i < length ?ns" "k \<in> kids (?ns ! i)" "Some p = Some (of_nat i)"
      "\<forall>j' < length ?ns. k \<in> kids (?ns ! j') \<longrightarrow> j' = i" using P unfolding Some by blast
    have ip: "p = of_nat i" using i(3) by simp
    have "unat p = i" unfolding ip by (rule unat_u32 [OF less_le_trans [OF i(1) len]])
    then have "ser_parent s k = Some i" using k Some by (simp add: ser_parent_def)
    then show ?thesis using i(2,4) j by (metis option.inject)
  qed
qed

lemma ser_root_only:
  assumes v: "ser_valid s" and len: "length (sr_nodes s) \<le> 2 ^ 32" and k: "k < length (sr_nodes s)"
  shows "ser_parent s k = None \<longleftrightarrow> k = unat (sr_root s)"
    and "sd_delta (sr_nodes s ! k) = None \<longleftrightarrow> k = unat (sr_root s)"
    and "of_nat k = sr_root s \<longleftrightarrow> k = unat (sr_root s)"
proof -
  have r: "of_nat k = sr_root s \<longleftrightarrow> k = unat (sr_root s)"
    using unat_u32 [OF less_le_trans [OF k len]] by auto
  then show "of_nat k = sr_root s \<longleftrightarrow> k = unat (sr_root s)" .
  show "ser_parent s k = None \<longleftrightarrow> k = unat (sr_root s)" "sd_delta (sr_nodes s ! k) = None \<longleftrightarrow> k = unat (sr_root s)"
    using ser_validD(3) [OF v k] k r
    by (auto simp: ser_node_ok_def ser_parent_def split: bool.splits option.splits)
qed

lemma ser_parent_range:
  assumes v: "ser_valid s" and "ser_parent s k = Some p"
  shows "p < length (sr_nodes s)" and "k < length (sr_nodes s)"
proof -
  show k: "k < length (sr_nodes s)" using assms(2) by (auto simp: ser_parent_def split: if_splits)
  show "p < length (sr_nodes s)"
    using ser_validD(3) [OF v k] assms(2) k by (auto simp: ser_node_ok_def ser_parent_def split: option.splits)
qed

section \<open>The breadth-first walk\<close>

lemma visit_spec:
  assumes "\<forall>c \<in> set cs. unat c < length seen" and "length depths = length seen" and "i < length seen"
    and "seen ! i"
  shows "\<exists>depths' seen' queue'. visit i cs depths seen queue = Some (depths', seen', queue') \<and>
    length depths' = length seen \<and> length seen' = length seen \<and>
    (\<forall>k < length seen. seen' ! k \<longleftrightarrow> seen ! k \<or> k \<in> unat ` set cs) \<and>
    (\<forall>k < length seen. depths' ! k = (if \<not> seen ! k \<and> k \<in> unat ` set cs then depths ! i + 1 else depths ! k)) \<and>
    set queue' = set queue \<union> {k \<in> unat ` set cs. \<not> seen ! k}"
  using assms
proof (induction cs arbitrary: depths seen queue)
  case (Cons c cs)
  show ?case
  proof (cases "seen ! unat c")
    case True
    then show ?thesis using Cons.IH [of seen depths queue] Cons.prems by auto
  next
    case False
    let ?d = "depths[unat c := depths ! i + 1]" and ?s = "seen[unat c := True]"
    have ne: "unat c \<noteq> i" using False Cons.prems(4) by auto
    from Cons.IH [of ?s ?d "queue @ [unat c]"] Cons.prems ne
    obtain depths' seen' queue' where v: "visit i cs ?d ?s (queue @ [unat c]) = Some (depths', seen', queue')"
      "length depths' = length seen" "length seen' = length seen"
      "\<forall>k < length seen. seen' ! k \<longleftrightarrow> ?s ! k \<or> k \<in> unat ` set cs"
      "\<forall>k < length seen. depths' ! k = (if \<not> ?s ! k \<and> k \<in> unat ` set cs then depths ! i + 1 else ?d ! k)"
      "set queue' = set (queue @ [unat c]) \<union> {k \<in> unat ` set cs. \<not> ?s ! k}" by auto
    have "visit i (c # cs) depths seen queue = Some (depths', seen', queue')"
      using v(1) False Cons.prems(1) by simp
    moreover have "\<forall>k < length seen. seen' ! k \<longleftrightarrow> seen ! k \<or> k \<in> unat ` set (c # cs)"
      using v(4) Cons.prems(1) by (auto simp: nth_list_update)
    moreover have "\<forall>k < length seen. depths' ! k =
        (if \<not> seen ! k \<and> k \<in> unat ` set (c # cs) then depths ! i + 1 else depths ! k)"
      using v(5) Cons.prems(1,2) False by (auto simp: nth_list_update)
    moreover have "set queue' = set queue \<union> {k \<in> unat ` set (c # cs). \<not> seen ! k}"
      using v(6) False Cons.prems(1) by (auto simp: nth_list_update)
    ultimately show ?thesis using v(2,3) by blast
  qed
qed simp

definition bfs_inv :: "ser_tree \<Rightarrow> nat list \<Rightarrow> nat list \<Rightarrow> bool list \<Rightarrow> bool" where
  "bfs_inv s queue depths seen \<longleftrightarrow>
     (let len = length (sr_nodes s); root = unat (sr_root s) in
      length depths = len \<and> length seen = len \<and> seen ! root \<and> depths ! root = 0 \<and>
      (\<forall>k \<in> set queue. k < len \<and> seen ! k) \<and>
      (\<forall>k < len. seen ! k \<longrightarrow> k \<noteq> root \<longrightarrow>
         (\<exists>p < len. seen ! p \<and> k \<in> kids (sr_nodes s ! p) \<and> depths ! k = depths ! p + 1)) \<and>
      (\<forall>p < len. seen ! p \<longrightarrow> p \<notin> set queue \<longrightarrow> (\<forall>c \<in> kids (sr_nodes s ! p). seen ! c)))"

lemma bfs_invD:
  assumes "bfs_inv s queue depths seen"
  shows "length depths = length (sr_nodes s)" and "length seen = length (sr_nodes s)"
    and "seen ! unat (sr_root s)" and "depths ! unat (sr_root s) = 0"
    and "k \<in> set queue \<Longrightarrow> k < length (sr_nodes s) \<and> seen ! k"
    and "k < length (sr_nodes s) \<Longrightarrow> seen ! k \<Longrightarrow> k \<noteq> unat (sr_root s) \<Longrightarrow>
      \<exists>p < length (sr_nodes s). seen ! p \<and> k \<in> kids (sr_nodes s ! p) \<and> depths ! k = depths ! p + 1"
    and "p < length (sr_nodes s) \<Longrightarrow> seen ! p \<Longrightarrow> p \<notin> set queue \<Longrightarrow> c \<in> kids (sr_nodes s ! p) \<Longrightarrow> seen ! c"
  using assms unfolding bfs_inv_def Let_def by blast+

lemma bfs_step:
  assumes v: "ser_valid s" and inv: "bfs_inv s (i # queue) depths seen"
  shows "\<exists>depths' seen' queue'. visit i (sd_children (sr_nodes s ! i)) depths seen queue =
      Some (depths', seen', queue') \<and> bfs_inv s queue' depths' seen'"
proof -
  note D = bfs_invD [OF inv]
  let ?ns = "sr_nodes s" and ?len = "length (sr_nodes s)"
  have i: "i < ?len" "seen ! i" using D(5) [of i] by simp_all
  have "\<forall>c \<in> set (sd_children (?ns ! i)). unat c < length seen"
    using ser_kids_range [OF v nth_mem [OF i(1)]] D(2) by (simp add: kids_def)
  from visit_spec [OF this, of depths i queue, folded kids_def] D(1,2) i
  obtain depths' seen' queue' where v: "visit i (sd_children (?ns ! i)) depths seen queue = Some (depths', seen', queue')"
    and len: "length depths' = ?len" "length seen' = ?len"
    and s0: "\<forall>k < ?len. seen' ! k \<longleftrightarrow> seen ! k \<or> k \<in> kids (?ns ! i)"
    and d0: "\<forall>k < ?len. depths' ! k = (if \<not> seen ! k \<and> k \<in> kids (?ns ! i) then depths ! i + 1 else depths ! k)"
    and q': "set queue' = set queue \<union> {k \<in> kids (?ns ! i). \<not> seen ! k}" by auto
  note s' = s0 [rule_format] and d' = d0 [rule_format]
  have root: "unat (sr_root s) < ?len" using ser_validD(1) [OF \<open>ser_valid s\<close>] .
  have up: "\<exists>p < ?len. seen' ! p \<and> k \<in> kids (?ns ! p) \<and> depths' ! k = depths' ! p + 1"
    if k: "k < ?len" "seen' ! k" "k \<noteq> unat (sr_root s)" for k
  proof (cases "seen ! k")
    case True
    from D(6) [OF k(1) True k(3)] obtain p where p: "p < ?len" "seen ! p"
      "k \<in> kids (?ns ! p)" "depths ! k = depths ! p + 1" by blast
    have "seen' ! p" using s' [OF p(1)] p(2) by simp
    moreover have "depths' ! k = depths' ! p + 1" using d' [OF p(1)] d' [OF k(1)] True p(2,4) by simp
    ultimately show ?thesis using p(1,3) by blast
  next
    case False
    then have ki: "k \<in> kids (?ns ! i)" using s' [OF k(1)] k(2) by simp
    moreover have "depths' ! k = depths' ! i + 1" using d' [OF k(1)] d' [OF i(1)] False ki i(2) by simp
    moreover have "seen' ! i" using s' [OF i(1)] i(2) by simp
    ultimately show ?thesis using i(1) by blast
  qed
  have q1: "k < ?len \<and> seen' ! k" if k: "k \<in> set queue'" for k
  proof -
    have "k < ?len"
      using k q' D(5) ser_kids_range [OF \<open>ser_valid s\<close> nth_mem [OF i(1)]] by auto
    moreover have "seen ! k \<or> k \<in> kids (?ns ! i)" using k q' D(5) by auto
    ultimately show ?thesis using s' by simp
  qed
  have fin: "seen' ! c" if p: "p < ?len" "seen' ! p" "p \<notin> set queue'" "c \<in> kids (?ns ! p)" for p c
  proof -
    have c: "c < ?len" using ser_kids_range [OF \<open>ser_valid s\<close> nth_mem [OF p(1)] p(4)] .
    show ?thesis
    proof (cases "p = i")
      case True
      then show ?thesis using s' [OF c] p(4) by simp
    next
      case False
      have "seen ! p"
      proof (rule ccontr)
        assume "\<not> seen ! p"
        then have "p \<in> kids (?ns ! i)" using s' [OF p(1)] p(2) by blast
        then show False using q' \<open>\<not> seen ! p\<close> p(3) by blast
      qed
      moreover have "p \<notin> set (i # queue)" using False p(3) q' by simp
      ultimately show ?thesis using D(7) [OF p(1) _ _ p(4)] s' [OF c] by blast
    qed
  qed
  have r: "seen' ! unat (sr_root s)" "depths' ! unat (sr_root s) = 0"
    using s' [OF root] d' [OF root] D(3,4) by simp_all
  have "bfs_inv s queue' depths' seen'"
    unfolding bfs_inv_def Let_def
    by (intro conjI ballI allI impI; (rule len r conjunct1 [OF q1] conjunct2 [OF q1] up fin; assumption)?)
      (rule fin; assumption)?
  then show ?thesis using v by blast
qed

lemma bfs_total:
  assumes v: "ser_valid s" and "bfs_inv s queue depths seen"
  shows "\<exists>depths' seen'. bfs (sr_nodes s) queue depths seen = Some (depths', seen') \<and> bfs_inv s [] depths' seen'"
  using assms(2)
proof (induction "sr_nodes s" queue depths seen rule: bfs.induct)
  case (2 i queue depths seen)
  have i: "i < length (sr_nodes s)" using bfs_invD(5) [OF 2(2), of i] by simp
  obtain depths1 seen1 queue1 where st: "visit i (sd_children (sr_nodes s ! i)) depths seen queue = Some (depths1, seen1, queue1)"
    "bfs_inv s queue1 depths1 seen1" using bfs_step [OF v 2(2)] by blast
  from 2(1) [OF i st(1) refl refl st(2)] show ?case using i st(1) by simp
qed simp

lemma depths_from_root_spec:
  assumes v: "ser_valid s" and len: "length (sr_nodes s) \<le> 2 ^ 32"
  shows "\<exists>depths seen. depths_from_root s = Some (depths, seen) \<and> length depths = length (sr_nodes s) \<and>
    length seen = length (sr_nodes s) \<and> depths ! unat (sr_root s) = 0 \<and>
    (list_all id seen \<longrightarrow> depths_ok (ser_parent s) ((!) depths)) \<and>
    (\<forall>i < length (sr_nodes s). seen ! i \<longleftrightarrow> anc (ser_parent s) i (unat (sr_root s)))"
proof -
  let ?len = "length (sr_nodes s)" and ?root = "unat (sr_root s)"
  have root: "?root < ?len" using ser_validD(1) [OF v] .
  have init: "bfs_inv s [?root] (replicate ?len 0) ((replicate ?len False)[?root := True])"
    unfolding bfs_inv_def Let_def using root by (auto simp: nth_list_update)
  obtain depths seen where b: "depths_from_root s = Some (depths, seen)" "bfs_inv s [] depths seen"
    using bfs_total [OF v init] root by (auto simp: depths_from_root_def Let_def)
  note D = bfs_invD [OF b(2)]
  have parent: "ser_parent s k = Some p" if "k < ?len" "p < ?len" "k \<in> kids (sr_nodes s ! p)" for k p
    using ser_parent_iff [OF v len that(1,2)] that(3) by simp
  have dep: "depths ! i = Suc (depths ! p)" if i: "i < ?len" "seen ! i" "ser_parent s i = Some p" for i p
  proof -
    have "i \<noteq> ?root" using ser_root_only(1) [OF v len i(1)] i(3) by auto
    from D(6) [OF i(1,2) this] obtain q where q: "q < ?len" "i \<in> kids (sr_nodes s ! q)" "depths ! i = depths ! q + 1"
      by blast
    then have "q = p" using parent [OF i(1) q(1,2)] i(3) by simp
    then show ?thesis using q(3) by simp
  qed
  have up: "anc (ser_parent s) i ?root" if "i < ?len" "seen ! i" for i
    using that
  proof (induction "depths ! i" arbitrary: i rule: less_induct)
    case less
    show ?case
    proof (cases "i = ?root")
      case False
      from D(6) [OF less.prems False] obtain q where q: "q < ?len" "seen ! q" "i \<in> kids (sr_nodes s ! q)"
        "depths ! i = depths ! q + 1" by blast
      have "anc (ser_parent s) q ?root" using q by (intro less.hyps) simp_all
      then show ?thesis using parent [OF less.prems(1) q(1,3)] by (rule anc_up [rotated])
    qed (simp add: anc_self)
  qed
  have down: "seen ! i" if "anc (ser_parent s) i ?root" "i < ?len" for i
    using that
  proof (induction i "?root" rule: anc.induct)
    case (anc_up i p)
    have p: "p < ?len" using ser_parent_range [OF v anc_up.hyps(1)] by simp
    have "i \<in> kids (sr_nodes s ! p)" using ser_parent_iff [OF v len anc_up.prems p] anc_up.hyps(1) by simp
    then show ?case using D(7) [OF p _ _] anc_up.hyps(3) p by simp
  qed (use D(3) in simp)
  have "depths_ok (ser_parent s) ((!) depths)" if "list_all id seen"
    unfolding depths_ok_def
  proof (intro allI impI)
    fix i p
    assume p: "ser_parent s i = Some p"
    have i: "i < ?len" using ser_parent_range(2) [OF v p] .
    then have "seen ! i" using that D(2) by (simp add: list_all_length)
    then show "depths ! i = Suc (depths ! p)" using dep i p by blast
  qed
  then show ?thesis using b(1) D(1,2,4) up down by blast
qed

section \<open>The rebuilt tree\<close>

lemma depth_bound:
  assumes d: "depths_ok P dep" and range: "\<forall>i p. P i = Some p \<longrightarrow> p < len"
    and top: "\<forall>i < len. P i = None \<longrightarrow> dep i = 0" and i: "i < len"
  shows "dep i < len"
proof -
  have "\<forall>k \<le> dep i. \<exists>j < len. dep j = k" if "i < len" for i
    using that
  proof (induction "dep i" arbitrary: i rule: less_induct)
    case less
    show ?case
    proof (cases "P i")
      case None
      then show ?thesis using top less.prems by auto
    next
      case (Some p)
      then have p: "dep i = Suc (dep p)" "p < len" using d range by (auto simp: depths_ok_def)
      then have "\<forall>k \<le> dep p. \<exists>j < len. dep j = k" using less.hyps [of p] by simp
      then show ?thesis using p(1) less.prems by (metis le_Suc_eq)
    qed
  qed
  then have "{0..dep i} \<subseteq> dep ` {0..<len}" using i by force
  then have "card {0..dep i} \<le> card (dep ` {0..<len})" by (intro card_mono) auto
  also have "\<dots> \<le> len" using card_image_le [of "{0..<len}" dep] by simp
  finally show ?thesis by simp
qed

lemma undo_node_eta [simp]:
  "n\<lparr>un_on_path := un_on_path n\<rparr> = n" "n\<lparr>un_last_child := un_last_child n\<rparr> = (n :: 'r undo_node)"
  by simp_all

lemma flag_path_spec:
  assumes d: "depths_ok P dep" and range: "\<forall>i p. P i = Some p \<longrightarrow> p < len"
    and "length nodes = len" and "\<And>j. j < len \<Longrightarrow> un_parent (nodes ! j) = P j" and "node < len"
    and "dep node < k"
  shows "length (flag_path k node nodes) = len \<and>
    (\<forall>j < len. flag_path k node nodes ! j = (nodes ! j)\<lparr>un_on_path := un_on_path (nodes ! j) \<or> anc P node j,
       un_last_child := relast P node j (un_last_child (nodes ! j))\<rparr>)"
  using assms(3-)
proof (induction k arbitrary: node nodes)
  case (Suc k)
  let ?n1 = "nodes[node := (nodes ! node)\<lparr>un_on_path := True\<rparr>]"
  have pn: "un_parent (?n1 ! node) = P node" using Suc.prems(1,2,3) by simp
  show ?case
  proof (cases "P node")
    case None
    have "anc P node j \<longleftrightarrow> j = node" for j using None anc_root by (auto intro: anc_self)
    moreover have "relast P node j old = old" for j old
      using None anc_root by (intro relast_none) force
    moreover have "flag_path (Suc k) node nodes = ?n1" using pn None by (simp add: Let_def)
    moreover have "?n1 ! j = (nodes ! j)\<lparr>un_on_path := un_on_path (nodes ! j) \<or> j = node\<rparr>" if "j < len" for j
      using that Suc.prems(1,3) by (cases "j = node") simp_all
    ultimately show ?thesis using Suc.prems(1) by simp
  next
    case (Some p)
    let ?n2 = "?n1[p := (?n1 ! p)\<lparr>un_last_child := Some node\<rparr>]"
    have p: "p < len" "dep node = Suc (dep p)" using range d Some by (auto simp: depths_ok_def)
    have step: "flag_path (Suc k) node nodes = flag_path k p ?n2" using pn Some by (simp add: Let_def)
    have par2: "un_parent (?n2 ! j) = P j" if "j < len" for j
      using Suc.prems(1,3) Suc.prems(2) [OF that] that p(1) by (simp add: nth_list_update)
    have "dep p < k" using Suc.prems(4) p(2) by simp
    from Suc.IH [OF _ par2 p(1) this] have IH: "length (flag_path k p ?n2) = len"
      "\<And>j. j < len \<Longrightarrow> flag_path k p ?n2 ! j = (?n2 ! j)\<lparr>un_on_path := un_on_path (?n2 ! j) \<or> anc P p j,
         un_last_child := relast P p j (un_last_child (?n2 ! j))\<rparr>" using Suc.prems(1) by simp_all
    have pnode: "p \<noteq> node" using anc_no_loop [OF d Some] by (auto intro: anc_self)
    have stop: "relast P p p old = old" for old
      using anc_no_loop [OF d] anc_trans by (intro relast_none notI) blast
    have a: "anc P node j \<longleftrightarrow> j = node \<or> anc P p j" for j
      using Some anc_step [of P node j] by (auto intro: anc.intros)
    have "flag_path k p ?n2 ! j = (nodes ! j)\<lparr>un_on_path := un_on_path (nodes ! j) \<or> anc P node j,
       un_last_child := relast P node j (un_last_child (nodes ! j))\<rparr>" if j: "j < len" for j
      unfolding IH(2) [OF j] a relast_up [OF d Some]
      using Suc.prems(1,3) p(1) pnode j stop by (auto simp: nth_list_update)
    then show ?thesis unfolding step using IH(1) by blast
  qed
qed simp

lemma collect_seqs_spec:
  assumes "sorted_wrt (<) (map fst m)" and "distinct (map un_seq ns)" and "fst ` set m \<inter> un_seq ` set ns = {}"
  shows "sorted_wrt (<) (map fst (collect_seqs i ns m)) \<and>
    set (collect_seqs i ns m) = set m \<union> {(un_seq (ns ! j), i + j) | j. j < length ns}"
  using assms
proof (induction ns arbitrary: i m)
  case (Cons n ns)
  have "un_seq n \<notin> fst ` set m" using Cons.prems(3) by auto
  note b = bt_insert_spec [OF Cons.prems(1) this, of i]
  have "fst ` set (bt_insert (un_seq n) i m) \<inter> un_seq ` set ns = {}"
    using b Cons.prems(2,3) by auto
  from Cons.IH [OF conjunct1 [OF b] _ this, of "Suc i"] Cons.prems(2) b
  have IH: "sorted_wrt (<) (map fst (collect_seqs i (n # ns) m))"
    "set (collect_seqs i (n # ns) m) = insert (un_seq n, i) (set m) \<union> {(un_seq (ns ! j), Suc i + j) | j. j < length ns}"
    by auto
  have "{(un_seq ((n # ns) ! j), i + j) | j. j < length (n # ns)} =
      insert (un_seq n, i) {(un_seq (ns ! j), Suc i + j) | j. j < length ns}" (is "?A = ?B")
  proof (intro set_eqI iffI)
    fix x
    assume "x \<in> ?A"
    then obtain j where "x = (un_seq ((n # ns) ! j), i + j)" "j < length (n # ns)" by blast
    then show "x \<in> ?B" by (cases j) auto
  next
    fix x
    assume "x \<in> ?B"
    then consider "x = (un_seq n, i)" | j where "x = (un_seq (ns ! j), Suc i + j)" "j < length ns" by blast
    then show "x \<in> ?A"
    proof cases
      case 1
      then show ?thesis by (intro CollectI exI [of _ 0]) simp
    next
      case (2 j)
      then show ?thesis by (intro CollectI exI [of _ "Suc j"]) simp
    qed
  qed
  then show ?case using IH by auto
qed simp

text \<open>The nodes of a rebuilt tree, field by field.\<close>

definition rebuilt :: "'r \<Rightarrow> ser_tree \<Rightarrow> nat list \<Rightarrow> nat \<Rightarrow> 'r undo_node" where
  "rebuilt base s depths i =
     repair_last ((node_of_ser base (sr_root s) depths i (sr_nodes s ! i))
       \<lparr>un_on_path := anc (ser_parent s) (unat (sr_current s)) i,
        un_last_child := relast (ser_parent s) (unat (sr_current s)) i
          (map_option unat (sd_last_child (sr_nodes s ! i)))\<rparr>)"

lemma repair_last_fields [simp]:
  "un_parent (repair_last n) = un_parent n" "un_children (repair_last n) = un_children n"
  "un_delta (repair_last n) = un_delta n" "un_base (repair_last n) = un_base n"
  "un_rope_cache (repair_last n) = un_rope_cache n" "un_depth (repair_last n) = un_depth n"
  "un_cursor (repair_last n) = un_cursor n" "un_timestamp (repair_last n) = un_timestamp n"
  "un_marks (repair_last n) = un_marks n" "un_seq (repair_last n) = un_seq n"
  "un_on_path (repair_last n) = un_on_path n"
  by (simp_all add: repair_last_def split: option.splits)

lemma from_serializable_nodes:
  assumes v: "ser_valid s" and len: "length (sr_nodes s) \<le> 2 ^ 32"
  shows "(\<exists>depths seen. depths_from_root s = Some (depths, seen) \<and> \<not> list_all id seen \<and>
      from_serializable R s = Some None) \<or>
    (\<exists>depths t. from_serializable R s = Some (Some t) \<and> depths_ok (ser_parent s) ((!) depths) \<and>
      depths ! unat (sr_root s) = 0 \<and>
      (\<forall>i < length (sr_nodes s). anc (ser_parent s) i (unat (sr_root s))) \<and>
      ut_nodes t = map (\<lambda>i. Some (rebuilt (rp_from_str R (the (sr_base s))) s depths i)) [0 ..< length (sr_nodes s)] \<and>
      ut_free t = [] \<and> ut_warm t = [] \<and> ut_keyframes t = [] \<and>
      index_ok t \<and> ut_root t = unat (sr_root s) \<and> ut_current t = unat (sr_current s) \<and>
      ut_next_seq t = sr_next_seq s)"
proof -
  let ?len = "length (sr_nodes s)" and ?P = "ser_parent s" and ?cur = "unat (sr_current s)"
  let ?base = "rp_from_str R (the (sr_base s))"
  obtain depths seen where D: "depths_from_root s = Some (depths, seen)" "length depths = ?len"
    "length seen = ?len" "depths ! unat (sr_root s) = 0"
    "list_all id seen \<longrightarrow> depths_ok ?P ((!) depths)"
    "\<forall>i < ?len. seen ! i \<longleftrightarrow> anc ?P i (unat (sr_root s))"
    using depths_from_root_spec [OF v len] by blast
  show ?thesis
  proof (cases "list_all id seen")
    case False
    then have "from_serializable R s = Some None" using v D(1) by (simp add: from_serializable_def)
    then show ?thesis using D(1) False by blast
  next
    case True
    then have dok: "depths_ok ?P ((!) depths)" and reach: "\<forall>i < ?len. anc ?P i (unat (sr_root s))"
      using D(3,5,6) by (auto simp: list_all_length)
    let ?raw = "map (\<lambda>i. node_of_ser ?base (sr_root s) depths i (sr_nodes s ! i)) [0 ..< ?len]"
    let ?flag = "flag_path ?len ?cur ?raw"
    have top: "\<forall>i < ?len. ?P i = None \<longrightarrow> depths ! i = 0"
      using ser_root_only(1) [OF v len] D(4) by simp
    have range: "\<forall>i p. ?P i = Some p \<longrightarrow> p < ?len" using ser_parent_range(1) [OF v] by blast
    have cur: "?cur < ?len" using ser_validD(2) [OF v] .
    have deep: "depths ! ?cur < ?len"
      by (rule depth_bound [OF dok range top cur])
    have rawp: "un_parent (?raw ! j) = ?P j" if "j < ?len" for j
      using that by (simp add: node_of_ser_def ser_parent_def)
    have F: "length ?flag = ?len" "\<And>j. j < ?len \<Longrightarrow> ?flag ! j = (?raw ! j)\<lparr>un_on_path := un_on_path (?raw ! j) \<or> anc ?P ?cur j,
       un_last_child := relast ?P ?cur j (un_last_child (?raw ! j))\<rparr>"
      using flag_path_spec [OF dok range, of ?raw ?cur ?len] rawp cur deep by auto
    have nodes: "map repair_last ?flag = map (rebuilt ?base s depths) [0 ..< ?len]" (is "?L = ?R")
    proof (rule nth_equalityI)
      fix j
      assume "j < length ?L"
      then have j: "j < ?len" using F(1) by simp
      then show "?L ! j = ?R ! j" using F j by (simp add: rebuilt_def node_of_ser_def)
    qed (simp add: F(1))
    let ?t = "\<lparr>ut_nodes = map Some ?R, ut_free = [], ut_warm = [], ut_keyframes = [],
            ut_by_seq = collect_seqs 0 ?R [], ut_root = unat (sr_root s),
            ut_current = ?cur, ut_next_seq = sr_next_seq s\<rparr>"
    have "from_serializable R s = Some (Some ?t)"
      using v D(1) True by (simp add: from_serializable_def Let_def nodes del: map_map)
    moreover have "index_ok ?t"
    proof -
      have seqs: "map un_seq ?R = map sd_seq (sr_nodes s)"
        by (rule nth_equalityI) (simp_all add: rebuilt_def node_of_ser_def)
      then have "distinct (map un_seq ?R)" using ser_validD(4) [OF v] by simp
      from collect_seqs_spec [of "[]", OF _ this] have c: "sorted_wrt (<) (map fst (collect_seqs 0 ?R []))"
        "set (collect_seqs 0 ?R []) = {(un_seq (?R ! j), j) | j. j < length ?R}" by auto
      have "(k, i) \<in> set (collect_seqs 0 ?R []) \<longleftrightarrow> (\<exists>n. node_get ?t i = Some n \<and> un_seq n = k)" for k i
        unfolding c(2) by (auto simp: node_get_def)
      then show ?thesis using c(1) by (simp add: index_ok_def)
    qed
    ultimately show ?thesis using dok D(4) reach by (intro disjI2 exI [of _ depths] exI [of _ ?t]) simp
  qed
qed

lemma rebuilt_fields:
  "un_parent (rebuilt base s depths i) = map_option unat (sd_parent (sr_nodes s ! i))"
  "un_children (rebuilt base s depths i) = map unat (sd_children (sr_nodes s ! i))"
  "un_delta (rebuilt base s depths i) = sd_delta (sr_nodes s ! i)"
  "un_base (rebuilt base s depths i) = (if of_nat i = sr_root s then Some base else None)"
  "un_rope_cache (rebuilt base s depths i) = None"
  "un_depth (rebuilt base s depths i) = depths ! i"
  "un_seq (rebuilt base s depths i) = sd_seq (sr_nodes s ! i)"
  "un_on_path (rebuilt base s depths i) = anc (ser_parent s) (unat (sr_current s)) i"
  "un_last_child (rebuilt base s depths i) = Some c \<Longrightarrow> c \<in> set (un_children (rebuilt base s depths i))"
  by (auto simp: rebuilt_def node_of_ser_def repair_last_def split: option.splits if_splits)

lemma rebuilt_get:
  assumes "ut_nodes t = map (\<lambda>i. Some (rebuilt base s depths i)) [0 ..< length (sr_nodes s)]"
  shows "node_get t i = (if i < length (sr_nodes s) then Some (rebuilt base s depths i) else None)"
  using assms by (simp add: node_get_def)

lemma rebuilt_inv:
  assumes v: "ser_valid s" and len: "length (sr_nodes s) \<le> 2 ^ 32"
    and t: "ut_nodes t = map (\<lambda>i. Some (rebuilt base s depths i)) [0 ..< length (sr_nodes s)]"
      "ut_free t = []" "ut_warm t = []" "ut_keyframes t = []" "index_ok t"
      "ut_root t = unat (sr_root s)" "ut_current t = unat (sr_current s)"
    and d: "depths_ok (ser_parent s) ((!) depths)"
  shows "tree_inv t"
proof -
  let ?len = "length (sr_nodes s)"
  note g = rebuilt_get [OF t(1)]
  have up: "upar t = ser_parent s" by (auto simp: upar_def ser_parent_def g rebuilt_fields(1) fun_eq_iff)
  have "arena_ok t" using t(1,2) by (auto simp: arena_ok_def g)
  moreover have "lists_ok t"
    using t(3,4) by (auto simp: lists_ok_but_def cached_def g rebuilt_fields(5) split: if_splits)
  moreover have "links_ok t"
  proof -
    have "case un_parent (rebuilt base s depths i) of None \<Rightarrow> i = ut_root t
       | Some p \<Rightarrow> \<exists>m. node_get t p = Some m \<and> i \<in> set (un_children m) \<and>
           un_depth (rebuilt base s depths i) = Suc (un_depth m)" if i: "i < ?len" for i
    proof (cases "ser_parent s i")
      case None
      then show ?thesis using i ser_root_only(1) [OF v len i] t(6) by (simp add: rebuilt_fields(1) ser_parent_def)
    next
      case (Some p)
      have p: "p < ?len" using ser_parent_range(1) [OF v Some] .
      have "i \<in> kids (sr_nodes s ! p)" using ser_parent_iff [OF v len i p] Some by simp
      moreover have "depths ! i = Suc (depths ! p)" using d Some by (simp add: depths_ok_def)
      ultimately show ?thesis
        using Some i p by (auto simp: rebuilt_fields(1,2,6) ser_parent_def g kids_def)
    qed
    then show ?thesis
      unfolding links_ok_def up
      using ser_validD(1,2) [OF v] t(6,7) by (auto simp: g rebuilt_fields(8) split: if_splits dest: rebuilt_fields(9))
  qed
  ultimately show ?thesis using t(5) by (simp add: tree_inv_def)
qed

text \<open>
  C4: \<open>from_serializable\<close> never panics on a projection of up to \<open>2 ^ 32\<close> nodes, however
  corrupt its links are: it rejects it, or it returns a tree that satisfies the whole
  invariant of the undo tree, in which every walk along the parent links ends at the root.
\<close>

theorem from_serializable_safe:
  assumes "length (sr_nodes s) \<le> 2 ^ 32"
  shows "\<exists>res. from_serializable R s = Some res \<and> (\<forall>t. res = Some t \<longrightarrow> tree_inv t \<and>
    (\<forall>i. node_get t i \<noteq> None \<longrightarrow> anc (upar t) i (ut_root t)))"
proof (cases "ser_valid s")
  case False
  then show ?thesis by (simp add: from_serializable_def)
next
  case True
  from from_serializable_nodes [OF True assms, of R] show ?thesis
  proof (elim disjE exE conjE)
    fix depths t
    assume t: "from_serializable R s = Some (Some t)" "depths_ok (ser_parent s) ((!) depths)"
      "ut_nodes t = map (\<lambda>i. Some (rebuilt (rp_from_str R (the (sr_base s))) s depths i)) [0 ..< length (sr_nodes s)]"
      "ut_free t = []" "ut_warm t = []" "ut_keyframes t = []" "index_ok t"
      "ut_root t = unat (sr_root s)" "ut_current t = unat (sr_current s)"
      and reach: "\<forall>i < length (sr_nodes s). anc (ser_parent s) i (unat (sr_root s))"
    note inv = rebuilt_inv [OF True assms t(3-9,2)]
    note g = rebuilt_get [OF t(3)]
    have "upar t = ser_parent s" by (auto simp: upar_def ser_parent_def g rebuilt_fields(1) fun_eq_iff)
    then have "node_get t i \<noteq> None \<Longrightarrow> anc (upar t) i (ut_root t)" for i
      using reach t(8) by (auto simp: g split: if_splits)
    then show ?thesis using t(1) inv by simp
  qed simp
qed

text \<open>Two nodes that name each other as parent and child next to a good root.\<close>

definition cyclic_file :: ser_tree where
  "cyclic_file =
     (let node = \<lambda>p cs k. \<lparr>sd_parent = p, sd_children = cs, sd_last_child = None,
          sd_delta = (if p = None then None else Some delta_default), sd_cursor = (0, 0),
          sd_timestamp_unix_ms = 0, sd_marks = marks_default, sd_seq = k\<rparr>
      in \<lparr>sr_base = Some (str ''a''), sr_nodes = [node None [] 0, node (Some 2) [2] 1, node (Some 1) [1] 2],
        sr_root = 0, sr_current = 1, sr_next_seq = 3\<rparr>)"

theorem from_serializable_safe_witness:
  "\<exists>res. from_serializable flat_rope cyclic_file = Some res \<and> (\<forall>t. res = Some t \<longrightarrow> tree_inv t \<and>
    (\<forall>i. node_get t i \<noteq> None \<longrightarrow> anc (upar t) i (ut_root t)))"
  by (rule from_serializable_safe) (simp add: cyclic_file_def Let_def)

end
