(* ===== verification/UndoSaved.thy ===== *)
theory UndoSaved
  imports UndoFile
begin

text \<open>
  Saving and loading: the projection of a tree of a session is accepted by
  \<open>from_serializable\<close>, which rebuilds the same tree up to the renumbering of the live slots.
\<close>

section \<open>Dense numbering\<close>

definition live :: "'a option list \<Rightarrow> nat \<Rightarrow> bool" where
  "live slots i \<longleftrightarrow> i < length slots \<and> slots ! i \<noteq> None"

definition rank :: "'a option list \<Rightarrow> nat \<Rightarrow> nat" where
  "rank slots i = length (filter (\<lambda>x. x \<noteq> None) (take i slots))"

abbreviation live_slots :: "'a option list \<Rightarrow> nat" where
  "live_slots slots \<equiv> length (filter (\<lambda>x. x \<noteq> None) slots)"

lemma rank_less:
  assumes "live slots i"
  shows "rank slots i < live_slots slots"
proof -
  have i: "i < length slots" "slots ! i \<noteq> None" using assms by (auto simp: live_def)
  have "live_slots slots = live_slots (take i slots) + live_slots (slots ! i # drop (Suc i) slots)"
    using id_take_nth_drop [OF i(1)] by (metis filter_append length_append)
  then show ?thesis using i(2) by (simp add: rank_def)
qed

lemma rank_mono:
  assumes "live slots i" and "i < j"
  shows "rank slots i < rank slots j"
proof -
  have i: "i < length slots" "slots ! i \<noteq> None" using assms(1) by (auto simp: live_def)
  have "live (take j slots) i" using i assms(2) by (simp add: live_def)
  from rank_less [OF this] show ?thesis using assms(2) by (simp add: rank_def min_def)
qed

lemma rank_inj: "live slots i \<Longrightarrow> live slots j \<Longrightarrow> rank slots i = rank slots j \<longleftrightarrow> i = j"
  using rank_mono [of slots i j] rank_mono [of slots j i] by (metis nat_neq_iff)

lemma dense_map_spec:
  "length (dense_map slots k) = length slots \<and>
   (\<forall>i < length slots. dense_map slots k ! i =
      (if slots ! i = None then None else Some (of_nat (k + rank slots i))))"
proof (induction slots k rule: dense_map.induct)
  case (2 slots k)
  then show ?case by (auto simp: nth_Cons rank_def split: nat.splits)
next
  case (3 n slots k)
  then show ?case by (auto simp: nth_Cons rank_def split: nat.splits)
qed simp

lemma remap_dense: "remap (dense_map slots 0) i = (if live slots i then Some (of_nat (rank slots i)) else None)"
  using dense_map_spec [of slots 0] by (auto simp: remap_def live_def)

lemma remap_opt_dense:
  "(\<And>i. x = Some i \<Longrightarrow> live slots i) \<Longrightarrow>
    remap_opt (dense_map slots 0) x = Some (map_option (\<lambda>i. of_nat (rank slots i)) x)"
  by (cases x) (simp_all add: remap_dense)

lemma those_map: "(\<And>x. x \<in> set xs \<Longrightarrow> f x = Some (g x)) \<Longrightarrow> those (map f xs) = Some (map g xs)"
  by (induction xs) auto

text \<open>The live slot with a given rank.\<close>

lemma rank_surj:
  assumes "k < live_slots slots"
  shows "\<exists>i. live slots i \<and> rank slots i = k"
  using assms
proof (induction slots rule: rev_induct)
  case (snoc x xs)
  have keep: "live (xs @ [x]) i \<and> rank (xs @ [x]) i = rank xs i" if "live xs i" for i
    using that by (auto simp: live_def rank_def nth_append)
  show ?case
  proof (cases "k < live_slots xs")
    case True
    then show ?thesis using snoc.IH keep by metis
  next
    case False
    then have "x \<noteq> None" "k = live_slots xs" using snoc.prems by (auto split: if_splits)
    then show ?thesis by (intro exI [of _ "length xs"]) (simp add: live_def rank_def)
  qed
qed simp

lemma nth_filter_rank:
  assumes "live slots i"
  shows "filter (\<lambda>x. x \<noteq> None) slots ! rank slots i = slots ! i"
proof -
  have i: "i < length slots" "slots ! i \<noteq> None" using assms by (auto simp: live_def)
  have "filter (\<lambda>x. x \<noteq> None) slots = filter (\<lambda>x. x \<noteq> None) (take i slots) @
      filter (\<lambda>x. x \<noteq> None) (slots ! i # drop (Suc i) slots)"
    using id_take_nth_drop [OF i(1)] by (metis filter_append)
  then show ?thesis using i(2) by (simp add: rank_def nth_append)
qed


lemma live_node: "live (ut_nodes t) i \<longleftrightarrow> node_get t i \<noteq> None"
  by (auto simp: live_def node_get_def)

section \<open>The projection of a tree\<close>

definition ser_image :: "(nat \<Rightarrow> nat) \<Rightarrow> 'r undo_node \<Rightarrow> ser_node" where
  "ser_image \<rho> n = \<lparr>sd_parent = map_option (\<lambda>i. of_nat (\<rho> i)) (un_parent n),
     sd_children = map (\<lambda>i. of_nat (\<rho> i)) (un_children n),
     sd_last_child = map_option (\<lambda>i. of_nat (\<rho> i)) (un_last_child n),
     sd_delta = un_delta n,
     sd_cursor = (of_nat (fst (un_cursor n)), of_nat (snd (un_cursor n))),
     sd_timestamp_unix_ms = system_time_to_unix_ms (un_timestamp n),
     sd_marks = un_marks n, sd_seq = un_seq n\<rparr>"

lemma ser_node_image:
  assumes "\<And>i. un_parent n = Some i \<Longrightarrow> live slots i" and "\<And>i. i \<in> set (un_children n) \<Longrightarrow> live slots i"
    and "\<And>i. un_last_child n = Some i \<Longrightarrow> live slots i"
  shows "ser_node_of (dense_map slots 0) n = Some (ser_image (rank slots) n)"
proof -
  have "those (map (remap (dense_map slots 0)) (un_children n)) = Some (map (\<lambda>i. of_nat (rank slots i)) (un_children n))"
    using assms(2) by (intro those_map) (simp add: remap_dense)
  then show ?thesis
    using remap_opt_dense [OF assms(1)] remap_opt_dense [OF assms(3)]
    by (simp add: ser_node_of_def ser_image_def)
qed

lemma to_serializable_ok:
  assumes r: "refines R t A" and wf: "spec_wf A"
  shows "\<exists>s. to_serializable R t = Some s \<and> length (sr_nodes s) = live_slots (ut_nodes t) \<and>
    (\<forall>i n. node_get t i = Some n \<longrightarrow> sr_nodes s ! rank (ut_nodes t) i = ser_image (rank (ut_nodes t)) n) \<and>
    sr_base s = Some (sn_text (snode A (st_root A))) \<and>
    sr_root s = of_nat (rank (ut_nodes t) (st_root A)) \<and>
    sr_current s = of_nat (rank (ut_nodes t) (st_current A)) \<and> sr_next_seq s = st_next_seq A"
proof -
  note w = spec_wfD [OF wf]
  have S: "sim R (st_nodes A) (on_chain A) t" "ut_root t = st_root A" "ut_current t = st_current A"
    "ut_next_seq t = st_next_seq A" using r by (simp_all add: refines_sim)
  let ?L = "ut_nodes t" and ?live = "map the (filter (\<lambda>x. x \<noteq> None) (ut_nodes t))"
  have dom: "live ?L i \<longleftrightarrow> i \<in> dom (st_nodes A)" for i
    using nodes_ok_dead [OF simD(1) [OF S(1)], of i] by (auto simp: live_node)
  have img: "ser_node_of (dense_map ?L 0) n = Some (ser_image (rank ?L) n)" if n: "n \<in> set ?live" for n
  proof -
    obtain i where i: "node_get t i = Some n" "i \<in> dom (st_nodes A)"
    proof -
      from n obtain i where "i < length ?L" "?L ! i = Some n" by (auto simp: in_set_conv_nth [of _ ?L])
      then have "node_get t i = Some n" by (simp add: node_get_def)
      then show ?thesis using that dom [of i] live_node [of t i] by simp
    qed
    then obtain a where a: "st_nodes A i = Some a" by blast
    have "node_ok R (st_nodes A) (on_chain A) i n a" using sim_live [OF S(1) a] i(1) by (metis option.inject)
    note f = node_okD [OF this]
    show ?thesis
    proof (rule ser_node_image)
      fix p
      assume "un_parent n = Some p"
      then show "live ?L p" using links_parent(1) [OF w(4) a] f(1) dom by fastforce
    next
      fix c
      assume "c \<in> set (un_children n)"
      then show "live ?L c" using links_child [OF w(4) a] f(2) dom by fastforce
    next
      fix c
      assume "un_last_child n = Some c"
      then have "c \<in> set (sn_children a)" using links_last [OF w(4) a] f(3) by simp
      then show "live ?L c" using links_child [OF w(4) a] dom by fastforce
    qed
  qed
  have nodes: "those (map (ser_node_of (dense_map ?L 0)) ?live) = Some (map (ser_image (rank ?L)) ?live)"
    by (rule those_map) (rule img)
  obtain a where a: "st_nodes A (st_root A) = Some a" using w(2) by blast
  obtain n where n: "node_get t (st_root A) = Some n" "node_ok R (st_nodes A) (on_chain A) (st_root A) n a"
    using sim_live [OF S(1) a] by blast
  have "sn_parent a = None" using links_parent(2) [OF w(4) a] by (cases "sn_parent a") auto
  then obtain b where b: "un_base n = Some b" "rp_text R b = sn_text a" using node_ok_root(3) [OF n(2)] by blast
  let ?s = "\<lparr>sr_base = Some (sn_text a), sr_nodes = map (ser_image (rank ?L)) ?live,
    sr_root = of_nat (rank ?L (st_root A)), sr_current = of_nat (rank ?L (st_current A)),
    sr_next_seq = st_next_seq A\<rparr>"
  have "to_serializable R t = Some ?s"
    using nodes n(1) b S(2-4) dom w(2,3) by (simp add: to_serializable_def remap_dense del: map_map)
  moreover have "map (ser_image (rank ?L)) ?live ! rank ?L i = ser_image (rank ?L) m"
    if "node_get t i = Some m" for i m
  proof -
    have "live ?L i" using that by (simp add: live_node)
    note f = rank_less [OF this] nth_filter_rank [OF this]
    have "?L ! i = Some m" using that by (simp add: node_get_def split: if_splits)
    moreover have "map (ser_image (rank ?L)) ?live ! rank ?L i =
        ser_image (rank ?L) (the (filter (\<lambda>x. x \<noteq> None) ?L ! rank ?L i))"
      using f(1) by (metis length_map nth_map)
    ultimately show ?thesis unfolding f(2) by simp
  qed
  ultimately show ?thesis using a by (intro exI [of _ ?s]) (simp add: snode_simps)
qed

section \<open>A projection with mutual links is valid\<close>

lemma list_children_total:
  "distinct cs \<Longrightarrow> root \<notin> set cs \<Longrightarrow> \<forall>c \<in> set cs. unat c < length l \<and> l ! unat c = None \<Longrightarrow>
    \<exists>l'. list_children root i cs l = Some l'"
proof (induction cs arbitrary: l)
  case (Cons c cs)
  have "\<forall>d \<in> set cs. unat d < length (l[unat c := Some i]) \<and> l[unat c := Some i] ! unat d = None"
    using Cons.prems by (auto simp: nth_list_update dest: unsigned_word_eqI)
  then show ?case using Cons.IH [of "l[unat c := Some i]"] Cons.prems by auto
qed simp

lemma list_nodes_total:
  assumes "\<forall>n \<in> set ns. distinct (sd_children n) \<and> root \<notin> set (sd_children n) \<and>
      (\<forall>c \<in> kids n. c < length l \<and> l ! c = None)"
    and "\<forall>j < length ns. \<forall>k < j. kids (ns ! j) \<inter> kids (ns ! k) = {}"
  shows "\<exists>l'. list_nodes root i ns l = Some l'"
  using assms
proof (induction ns arbitrary: i l)
  case (Cons n ns)
  have n: "distinct (sd_children n)" "root \<notin> set (sd_children n)"
    "\<forall>c \<in> set (sd_children n). unat c < length l \<and> l ! unat c = None"
    using Cons.prems(1) by (auto simp: kids_def)
  obtain l1 where l1: "list_children root (of_nat i) (sd_children n) l = Some l1"
    using list_children_total [OF n] by blast
  have C: "length l1 = length l" "\<forall>k < length l. l1 ! k = (if k \<in> kids n then Some (of_nat i) else l ! k)"
    using list_children_spec [OF l1] n(3) by (auto simp: kids_def)
  have apart: "kids (ns ! j) \<inter> kids n = {}" if "j < length ns" for j
    using Cons.prems(2) that by (metis Suc_less_eq length_Cons nth_Cons_0 nth_Cons_Suc zero_less_Suc)
  have "\<exists>l'. list_nodes root (Suc i) ns l1 = Some l'"
  proof (rule Cons.IH)
    show "\<forall>n \<in> set ns. distinct (sd_children n) \<and> root \<notin> set (sd_children n) \<and>
        (\<forall>c \<in> kids n. c < length l1 \<and> l1 ! c = None)"
    proof (intro ballI conjI)
      fix m
      assume m: "m \<in> set ns"
      then have P: "distinct (sd_children m)" "root \<notin> set (sd_children m)" "\<And>c. c \<in> kids m \<Longrightarrow> c < length l \<and> l ! c = None"
        using Cons.prems(1) by auto
      then show "distinct (sd_children m)" "root \<notin> set (sd_children m)" by blast+
      fix c
      assume c: "c \<in> kids m"
      obtain j where "j < length ns" "ns ! j = m" using m by (auto simp: in_set_conv_nth)
      then have "c \<notin> kids n" using apart c by blast
      then show "c < length l1" "l1 ! c = None" using P(3) [OF c] C by simp_all
    qed
    show "\<forall>j < length ns. \<forall>k < j. kids (ns ! j) \<inter> kids (ns ! k) = {}"
      using Cons.prems(2) by (metis Suc_less_eq length_Cons nth_Cons_Suc)
  qed
  then show ?case using l1 by simp
qed simp

lemma ser_validI:
  assumes len: "length (sr_nodes s) \<le> 2 ^ 32" and heads: "unat (sr_root s) < length (sr_nodes s)"
      "unat (sr_current s) < length (sr_nodes s)" "sr_base s \<noteq> None"
    and ok: "\<And>k. k < length (sr_nodes s) \<Longrightarrow> ser_node_ok (length (sr_nodes s)) (sr_root s) k (sr_nodes s ! k)"
    and seqs: "distinct (map sd_seq (sr_nodes s))"
    and dist: "\<And>k. k < length (sr_nodes s) \<Longrightarrow> distinct (sd_children (sr_nodes s ! k))"
    and down: "\<And>k c. k < length (sr_nodes s) \<Longrightarrow> c \<in> kids (sr_nodes s ! k) \<Longrightarrow>
      sd_parent (sr_nodes s ! c) = Some (of_nat k)"
    and up: "\<And>k p. k < length (sr_nodes s) \<Longrightarrow> sd_parent (sr_nodes s ! k) = Some p \<Longrightarrow>
      k \<in> kids (sr_nodes s ! unat p)"
  shows "ser_valid s"
proof -
  let ?ns = "sr_nodes s" and ?len = "length (sr_nodes s)"
  have range: "c < ?len" if "k < ?len" "c \<in> kids (?ns ! k)" for k c
    using ok [OF that(1)] that(2) by (auto simp: ser_node_ok_def kids_def)
  have prange: "unat p < ?len" if "k < ?len" "sd_parent (?ns ! k) = Some p" for k p
    using ok [OF that(1)] that(2) by (auto simp: ser_node_ok_def split: option.splits)
  have single: "j = k" if "j < ?len" "k < ?len" "c \<in> kids (?ns ! j)" "c \<in> kids (?ns ! k)" for j k c
  proof -
    have "(of_nat j :: u32) = of_nat k" using down [OF that(1,3)] down [OF that(2,4)] by simp
    then show ?thesis using unat_u32 len that(1,2) by (metis less_le_trans)
  qed
  have root: "sr_root s \<notin> set (sd_children (?ns ! k))" if k: "k < ?len" for k
  proof
    assume "sr_root s \<in> set (sd_children (?ns ! k))"
    then have "sd_parent (?ns ! unat (sr_root s)) \<noteq> None" using down [OF k] by (auto simp: kids_def)
    then show False using ok [OF heads(1)] by (simp add: ser_node_ok_def split: option.splits)
  qed
  have "\<exists>l'. list_nodes (sr_root s) 0 ?ns (replicate ?len None) = Some l'"
  proof (rule list_nodes_total)
    show "\<forall>n \<in> set ?ns. distinct (sd_children n) \<and> sr_root s \<notin> set (sd_children n) \<and>
        (\<forall>c \<in> kids n. c < length (replicate ?len (None :: u32 option)) \<and> replicate ?len None ! c = (None :: u32 option))"
    proof (intro ballI)
      fix n
      assume "n \<in> set ?ns"
      then obtain k where k: "k < ?len" "n = ?ns ! k" by (auto simp: in_set_conv_nth)
      show "distinct (sd_children n) \<and> sr_root s \<notin> set (sd_children n) \<and>
          (\<forall>c \<in> kids n. c < length (replicate ?len (None :: u32 option)) \<and> replicate ?len None ! c = (None :: u32 option))"
        using dist [OF k(1)] root [OF k(1)] range [OF k(1)] unfolding k(2) by simp
    qed
    show "\<forall>j < ?len. \<forall>k < j. kids (?ns ! j) \<inter> kids (?ns ! k) = {}"
    proof (intro allI impI, rule ccontr)
      fix j k
      assume jk: "j < ?len" "k < j" "kids (?ns ! j) \<inter> kids (?ns ! k) \<noteq> {}"
      then obtain c where "c \<in> kids (?ns ! j)" "c \<in> kids (?ns ! k)" by blast
      from single [OF jk(1) less_trans [OF jk(2,1)] this] show False using jk(2) by simp
    qed
  qed
  then obtain l where l: "list_nodes (sr_root s) 0 ?ns (replicate ?len None) = Some l" by blast
  have "\<forall>n \<in> set ?ns. \<forall>c \<in> kids n. c < length (replicate ?len (None :: u32 option))"
    using range by (auto simp: in_set_conv_nth [of _ ?ns])
  from list_nodes_spec [OF l this] have L: "length l = ?len"
    and P: "\<And>k. k < ?len \<Longrightarrow> (l ! k = None \<and> (\<forall>n \<in> set ?ns. k \<notin> kids n)) \<or>
      (\<exists>j < ?len. k \<in> kids (?ns ! j) \<and> l ! k = Some (of_nat j))" by auto
  have "l = map sd_parent ?ns"
  proof (rule nth_equalityI)
    fix k
    assume "k < length l"
    then have k: "k < ?len" using L by simp
    from P [OF k] have "l ! k = sd_parent (?ns ! k)"
    proof (elim disjE exE conjE)
      assume n: "l ! k = None" "\<forall>n \<in> set ?ns. k \<notin> kids n"
      show ?thesis
      proof (cases "sd_parent (?ns ! k)")
        case (Some p)
        then show ?thesis using up [OF k Some] prange [OF k Some] n(2) by simp
      qed (use n in simp)
    next
      fix j
      assume "j < ?len" "k \<in> kids (?ns ! j)" "l ! k = Some (of_nat j)"
      then show ?thesis using down by simp
    qed
    then show "l ! k = map sd_parent ?ns ! k" using k by simp
  qed (use L in simp)
  moreover have "?len \<noteq> 0" using heads(1) by auto
  ultimately show ?thesis
    unfolding ser_valid_def Let_def using heads ok seqs l by auto
qed

section \<open>Renumbering the abstract tree\<close>

text \<open>The cursor and the time stamp as the file keeps them.\<close>

definition saved_pos :: "upos \<Rightarrow> upos" where
  "saved_pos c = (unat (of_nat (fst c) :: u32), unat (of_nat (snd c) :: u32))"

definition saved_time :: "int \<Rightarrow> int" where
  "saved_time ts = unix_ms_to_system_time (system_time_to_unix_ms ts)"

definition s_renode :: "(nat \<Rightarrow> nat) \<Rightarrow> nat \<Rightarrow> snap_node \<Rightarrow> snap_node" where
  "s_renode \<rho> dep a = \<lparr>sn_parent = map_option \<rho> (sn_parent a), sn_children = map \<rho> (sn_children a),
     sn_last = map_option \<rho> (sn_last a), sn_text = sn_text a, sn_depth = dep,
     sn_cursor = saved_pos (sn_cursor a), sn_timestamp = saved_time (sn_timestamp a),
     sn_marks = sn_marks a, sn_seq = sn_seq a\<rparr>"

definition s_rename :: "(nat \<Rightarrow> nat) \<Rightarrow> (nat \<Rightarrow> nat) \<Rightarrow> nat \<Rightarrow> (nat \<Rightarrow> nat) \<Rightarrow> snap_tree \<Rightarrow> snap_tree" where
  "s_rename \<rho> \<sigma> len dep A =
     \<lparr>st_nodes = (\<lambda>k. if k < len then Some (s_renode \<rho> (dep k) (snode A (\<sigma> k))) else None),
      st_root = \<rho> (st_root A), st_current = \<rho> (st_current A), st_next_seq = st_next_seq A\<rparr>"

definition numbering :: "nat set \<Rightarrow> (nat \<Rightarrow> nat) \<Rightarrow> (nat \<Rightarrow> nat) \<Rightarrow> nat \<Rightarrow> bool" where
  "numbering D \<rho> \<sigma> len \<longleftrightarrow>
     (\<forall>i \<in> D. \<rho> i < len \<and> \<sigma> (\<rho> i) = i) \<and> (\<forall>k < len. \<sigma> k \<in> D \<and> \<rho> (\<sigma> k) = k)"

lemma anc_image:
  assumes "anc P i j" and "\<And>k p. P k = Some p \<Longrightarrow> Q (f k) = Some (f p)"
  shows "anc Q (f i) (f j)"
  using assms(1) by (induction rule: anc.induct) (auto intro: anc.intros assms(2))

lemma numberingD:
  assumes "numbering D \<rho> \<sigma> len"
  shows "i \<in> D \<Longrightarrow> \<rho> i < len" and "i \<in> D \<Longrightarrow> \<sigma> (\<rho> i) = i" and "k < len \<Longrightarrow> \<sigma> k \<in> D" and "k < len \<Longrightarrow> \<rho> (\<sigma> k) = k"
  using assms by (simp_all add: numbering_def)

lemma s_rename_heads [simp]:
  "st_root (s_rename \<rho> \<sigma> len dep A) = \<rho> (st_root A)"
  "st_current (s_rename \<rho> \<sigma> len dep A) = \<rho> (st_current A)"
  "st_next_seq (s_rename \<rho> \<sigma> len dep A) = st_next_seq A"
  by (simp_all add: s_rename_def)

lemma s_rename_lookup:
  assumes n: "numbering (dom (st_nodes A)) \<rho> \<sigma> len"
  shows "st_nodes A i = Some a \<Longrightarrow> st_nodes (s_rename \<rho> \<sigma> len dep A) (\<rho> i) = Some (s_renode \<rho> (dep (\<rho> i)) a)"
    and "st_nodes (s_rename \<rho> \<sigma> len dep A) k = Some b \<Longrightarrow>
      \<exists>i a. st_nodes A i = Some a \<and> k = \<rho> i \<and> k < len \<and> b = s_renode \<rho> (dep k) a"
proof -
  show "st_nodes A i = Some a \<Longrightarrow> st_nodes (s_rename \<rho> \<sigma> len dep A) (\<rho> i) = Some (s_renode \<rho> (dep (\<rho> i)) a)"
    using numberingD(1,2) [OF n domI, of i a] by (simp add: s_rename_def snode_def)
  assume b: "st_nodes (s_rename \<rho> \<sigma> len dep A) k = Some b"
  then have k: "k < len" "b = s_renode \<rho> (dep k) (snode A (\<sigma> k))" by (auto simp: s_rename_def split: if_splits)
  obtain a where "st_nodes A (\<sigma> k) = Some a" using numberingD(3) [OF n k(1)] by blast
  then show "\<exists>i a. st_nodes A i = Some a \<and> k = \<rho> i \<and> k < len \<and> b = s_renode \<rho> (dep k) a"
    using k numberingD(4) [OF n k(1)] by (auto simp: snode_def intro!: exI [of _ "\<sigma> k"])
qed

lemma spar_rename:
  assumes n: "numbering (dom (st_nodes A)) \<rho> \<sigma> len" and l: "links_wf (st_nodes A) (st_root A)"
  shows "spar A i = Some p \<Longrightarrow> spar (s_rename \<rho> \<sigma> len dep A) (\<rho> i) = Some (\<rho> p)"
    and "spar (s_rename \<rho> \<sigma> len dep A) k = Some q \<Longrightarrow> spar A (\<sigma> k) = Some (\<sigma> q)"
proof -
  show "spar A i = Some p \<Longrightarrow> spar (s_rename \<rho> \<sigma> len dep A) (\<rho> i) = Some (\<rho> p)"
    using s_rename_lookup(1) [OF n] by (auto simp: spar_def bind_eq_Some_conv s_renode_def)
  assume "spar (s_rename \<rho> \<sigma> len dep A) k = Some q"
  then obtain b where b: "st_nodes (s_rename \<rho> \<sigma> len dep A) k = Some b" "sn_parent b = Some q"
    by (auto simp: spar_def bind_eq_Some_conv)
  obtain i a where i: "st_nodes A i = Some a" "k = \<rho> i" "b = s_renode \<rho> (dep k) a"
    using s_rename_lookup(2) [OF n b(1)] by blast
  then obtain p where p: "sn_parent a = Some p" "q = \<rho> p" using b(2) by (auto simp: s_renode_def)
  have "p \<in> dom (st_nodes A)" using links_parent(1) [OF l i(1) p(1)] by blast
  then show "spar A (\<sigma> k) = Some (\<sigma> q)"
    using i(1,2) p numberingD(2) [OF n] numberingD(2) [OF n domI, of i a] by (simp add: spar_def)
qed

lemma on_chain_rename:
  assumes n: "numbering (dom (st_nodes A)) \<rho> \<sigma> len" and wf: "spec_wf A" and i: "i \<in> dom (st_nodes A)"
  shows "on_chain (s_rename \<rho> \<sigma> len dep A) (\<rho> i) \<longleftrightarrow> on_chain A i"
proof
  note l = spec_wfD(4) [OF wf]
  assume "on_chain (s_rename \<rho> \<sigma> len dep A) (\<rho> i)"
  then have "anc (spar A) (\<sigma> (\<rho> (st_current A))) (\<sigma> (\<rho> i))"
    unfolding on_chain_def s_rename_heads by (rule anc_image) (rule spar_rename(2) [OF n l])
  then show "on_chain A i" using numberingD(2) [OF n] spec_wfD(3) [OF wf] i by (simp add: on_chain_def)
next
  assume "on_chain A i"
  then show "on_chain (s_rename \<rho> \<sigma> len dep A) (\<rho> i)"
    unfolding on_chain_def s_rename_heads
    by (rule anc_image) (rule spar_rename(1) [OF n spec_wfD(4) [OF wf]])
qed

lemma s_rename_wf:
  assumes n: "numbering (dom (st_nodes A)) \<rho> \<sigma> len" and wf: "spec_wf A"
    and dep: "\<And>i p. spar A i = Some p \<Longrightarrow> dep (\<rho> i) = Suc (dep (\<rho> p))"
  shows "spec_wf (s_rename \<rho> \<sigma> len dep A)"
proof -
  note w = spec_wfD [OF wf] and num = numberingD [OF n]
  let ?B = "s_rename \<rho> \<sigma> len dep A"
  have inj: "\<rho> i = \<rho> j \<longleftrightarrow> i = j" if "i \<in> dom (st_nodes A)" "j \<in> dom (st_nodes A)" for i j
    using that num(2) by metis
  have links: "links_wf (st_nodes ?B) (st_root ?B)"
    unfolding links_wf_def
  proof (intro allI impI)
    fix k b
    assume "st_nodes ?B k = Some b"
    then obtain i a where i: "st_nodes A i = Some a" "k = \<rho> i" "b = s_renode \<rho> (dep k) a"
      using s_rename_lookup(2) [OF n] by blast
    have kids: "c \<in> dom (st_nodes A)" if "c \<in> set (sn_children a)" for c
      using links_child [OF w(4) i(1) that] by blast
    have "case sn_parent b of None \<Rightarrow> k = st_root ?B
        | Some q \<Rightarrow> k \<noteq> st_root ?B \<and> (\<exists>b'. st_nodes ?B q = Some b' \<and> k \<in> set (sn_children b') \<and>
            sn_depth b = Suc (sn_depth b'))"
    proof (cases "sn_parent a")
      case None
      then show ?thesis using i links_no_parent [OF w(4) i(1)] by (simp add: s_renode_def)
    next
      case (Some p)
      obtain c where c: "st_nodes A p = Some c" "i \<in> set (sn_children c)" "i \<noteq> st_root A"
        using links_parent [OF w(4) i(1) Some] by blast
      have "dep k = Suc (dep (\<rho> p))" using dep [of i p] i(1,2) Some by (simp add: spar_def)
      then show ?thesis
        using s_rename_lookup(1) [OF n c(1), of dep] i Some c inj [of i "st_root A"] w(2)
        by (auto simp: s_renode_def)
    qed
    moreover have "distinct (sn_children b)"
      using i(3) links_children_distinct [OF w(4) i(1)] kids inj
      by (auto simp: s_renode_def distinct_map inj_on_def)
    moreover have "\<exists>b'. st_nodes ?B c = Some b' \<and> sn_parent b' = Some k" if "c \<in> set (sn_children b)" for c
    proof -
      have "c \<in> \<rho> ` set (sn_children a)" using that unfolding i(3) by (simp add: s_renode_def)
      then obtain j where j: "j \<in> set (sn_children a)" "c = \<rho> j" by blast
      obtain e where e: "st_nodes A j = Some e" "sn_parent e = Some i" using links_child [OF w(4) i(1) j(1)] by blast
      show ?thesis using s_rename_lookup(1) [OF n e(1), of dep] e(2) j(2) i(2) by (simp add: s_renode_def)
    qed
    moreover have "c \<in> set (sn_children b)" if "sn_last b = Some c" for c
      using that i(3) links_last [OF w(4) i(1)] by (auto simp: s_renode_def)
    ultimately show "(case sn_parent b of None \<Rightarrow> k = st_root ?B
        | Some q \<Rightarrow> k \<noteq> st_root ?B \<and> (\<exists>b'. st_nodes ?B q = Some b' \<and> k \<in> set (sn_children b') \<and>
            sn_depth b = Suc (sn_depth b'))) \<and> distinct (sn_children b) \<and>
        (\<forall>c \<in> set (sn_children b). \<exists>b'. st_nodes ?B c = Some b' \<and> sn_parent b' = Some k) \<and>
        (\<forall>c. sn_last b = Some c \<longrightarrow> c \<in> set (sn_children b))" by blast
  qed
  have seqs: "seqs_wf (st_nodes ?B) (st_next_seq ?B)"
    unfolding seqs_wf_def
  proof (intro conjI allI impI)
    fix k b
    assume b: "st_nodes ?B k = Some b"
    obtain i a where i: "st_nodes A i = Some a" "k = \<rho> i" "b = s_renode \<rho> (dep k) a"
      using s_rename_lookup(2) [OF n b] by blast
    then show "sn_seq b < st_next_seq ?B" using w(5) by (auto simp: seqs_wf_def s_renode_def)
    fix k' b'
    assume b': "st_nodes ?B k' = Some b'" and eq: "sn_seq b = sn_seq b'"
    obtain i' a' where i': "st_nodes A i' = Some a'" "k' = \<rho> i'" "b' = s_renode \<rho> (dep k') a'"
      using s_rename_lookup(2) [OF n b'] by blast
    have "sn_seq a = sn_seq a'" using eq i(3) i'(3) by (simp add: s_renode_def)
    then have "i = i'" using w(5) i(1) i'(1) unfolding seqs_wf_def by blast
    then show "k = k'" using i(2) i'(2) by simp
  qed
  have chain: "chain_wf ?B"
    unfolding chain_wf_def
  proof (intro allI impI)
    fix k q
    assume k: "on_chain ?B k" "spar ?B k = Some q"
    then obtain b where "st_nodes ?B k = Some b" by (auto simp: spar_def bind_eq_Some_conv)
    then obtain i where i: "i \<in> dom (st_nodes A)" "k = \<rho> i" using s_rename_lookup(2) [OF n] by blast
    have p: "spar A i = Some (\<sigma> q)" using spar_rename(2) [OF n w(4) k(2)] i num(2) by simp
    have q: "q = \<rho> (\<sigma> q)" using spar_rename(1) [OF n w(4) p, of dep] k(2) i(2) by simp
    have "on_chain A i" using on_chain_rename [OF n wf i(1)] k(1) i(2) by blast
    then have l: "sn_last (snode A (\<sigma> q)) = Some i" using w(6) p unfolding chain_wf_def by blast
    obtain a where a: "st_nodes A (\<sigma> q) = Some a"
      using anc_dom [OF w(4) _ i(1), of "\<sigma> q"] p by (auto intro: anc.intros)
    have "sn_last (snode ?B (\<rho> (\<sigma> q))) = Some (\<rho> i)"
      using s_rename_lookup(1) [OF n a, of dep] l a by (simp add: snode_def s_renode_def)
    then show "sn_last (snode ?B q) = Some k" using q i(2) by simp
  qed
  have "\<rho> i \<in> dom (st_nodes ?B)" if "i \<in> dom (st_nodes A)" for i
    using that s_rename_lookup(1) [OF n] by blast
  then have "st_root ?B \<in> dom (st_nodes ?B)" "st_current ?B \<in> dom (st_nodes ?B)" using w(2,3) by simp_all
  moreover have "dom (st_nodes ?B) \<subseteq> {..< len}" by (auto simp: s_rename_def split: if_splits)
  then have "finite (dom (st_nodes ?B))" by (rule finite_subset) simp
  ultimately show ?thesis using links seqs chain by (simp add: spec_wf_def)
qed

section \<open>Loading what was saved\<close>

text \<open>
  The loaded tree next to the saved one: node \<open>i\<close> becomes node \<open>\<rho> i\<close>, with its links,
  edge, marks, change number and path flag.
\<close>

definition renumbered :: "(nat \<Rightarrow> nat) \<Rightarrow> 'r undo_tree \<Rightarrow> 'r undo_tree \<Rightarrow> bool" where
  "renumbered \<rho> t t' \<longleftrightarrow>
     ut_root t' = \<rho> (ut_root t) \<and> ut_current t' = \<rho> (ut_current t) \<and> ut_next_seq t' = ut_next_seq t \<and>
     length (ut_nodes t') = live_count t \<and>
     (\<forall>i n. node_get t i = Some n \<longrightarrow> (\<exists>m. node_get t' (\<rho> i) = Some m \<and>
        un_parent m = map_option \<rho> (un_parent n) \<and> un_children m = map \<rho> (un_children n) \<and>
        un_last_child m = map_option \<rho> (un_last_child n) \<and> un_delta m = un_delta n \<and>
        un_marks m = un_marks n \<and> un_seq m = un_seq n \<and> un_on_path m = un_on_path n \<and>
        un_cursor m = saved_pos (un_cursor n) \<and> un_timestamp m = saved_time (un_timestamp n)))"

lemma live_count_slots: "live_count t = live_slots (ut_nodes t)"
  by (simp add: live_count_def)

lemma rank_numbering:
  obtains \<sigma> where "numbering {i. live slots i} (rank slots) \<sigma> (live_slots slots)"
proof -
  have "\<forall>k. \<exists>i. k < live_slots slots \<longrightarrow> live slots i \<and> rank slots i = k" using rank_surj by blast
  then obtain \<sigma> where s: "\<And>k. k < live_slots slots \<Longrightarrow> live slots (\<sigma> k) \<and> rank slots (\<sigma> k) = k" by metis
  have "\<sigma> (rank slots i) = i" if "live slots i" for i
    using s [OF rank_less [OF that]] rank_inj that by blast
  then show ?thesis using s rank_less [of slots] by (intro that [of \<sigma>]) (auto simp only: numbering_def mem_Collect_eq)
qed

lemma saved_valid:
  assumes r: "refines R t A" and wf: "spec_wf A" and bound: "live_slots (ut_nodes t) \<le> 2 ^ 32"
    and s: "length (sr_nodes s) = live_slots (ut_nodes t)"
      "\<forall>i n. node_get t i = Some n \<longrightarrow> sr_nodes s ! rank (ut_nodes t) i = ser_image (rank (ut_nodes t)) n"
      "sr_base s \<noteq> None" "sr_root s = of_nat (rank (ut_nodes t) (st_root A))"
      "sr_current s = of_nat (rank (ut_nodes t) (st_current A))"
  shows "ser_valid s" and "unat (sr_root s) = rank (ut_nodes t) (st_root A)"
    and "unat (sr_current s) = rank (ut_nodes t) (st_current A)"
    and "i \<in> dom (st_nodes A) \<Longrightarrow> ser_parent s (rank (ut_nodes t) i) = map_option (rank (ut_nodes t)) (spar A i)"
proof -
  note w = spec_wfD [OF wf]
  let ?L = "ut_nodes t" and ?ns = "sr_nodes s" and ?len = "length (sr_nodes s)"
  let ?\<rho> = "rank ?L"
  have S: "sim R (st_nodes A) (on_chain A) t" using r by (simp add: refines_sim)
  have dom: "live ?L i \<longleftrightarrow> i \<in> dom (st_nodes A)" for i
    using nodes_ok_dead [OF simD(1) [OF S], of i] by (auto simp: live_node)
  have less: "?\<rho> i < ?len" "?\<rho> i < 2 ^ 32" "unat (of_nat (?\<rho> i) :: u32) = ?\<rho> i" if "i \<in> dom (st_nodes A)" for i
  proof -
    show "?\<rho> i < ?len" unfolding s(1) by (rule rank_less) (simp add: dom that)
    then show "?\<rho> i < 2 ^ 32" using s(1) bound by (metis less_le_trans)
    then show "unat (of_nat (?\<rho> i) :: u32) = ?\<rho> i" by (rule unat_u32)
  qed
  show root: "unat (sr_root s) = ?\<rho> (st_root A)" and cur: "unat (sr_current s) = ?\<rho> (st_current A)"
    using less(3) w(2,3) s(4,5) by simp_all
  have node: "\<exists>n a. st_nodes A i = Some a \<and> node_get t i = Some n \<and> node_ok R (st_nodes A) (on_chain A) i n a \<and>
      ?ns ! ?\<rho> i = ser_image ?\<rho> n" if "i \<in> dom (st_nodes A)" for i
  proof -
    obtain a where a: "st_nodes A i = Some a" using \<open>i \<in> dom (st_nodes A)\<close> by blast
    show ?thesis by (rule sim_live [OF S a]) (use a s(2) in simp)
  qed
  have kids: "\<exists>b. st_nodes A c = Some b \<and> sn_parent b = Some i" if "st_nodes A i = Some a" "c \<in> set (sn_children a)" for i a c
    using links_child [OF w(4) that] .
  have surj: "\<exists>i \<in> dom (st_nodes A). k = ?\<rho> i" if "k < ?len" for k
    using rank_surj [of k ?L] that dom s(1) by auto
  show par: "ser_parent s (?\<rho> i) = map_option ?\<rho> (spar A i)" if i: "i \<in> dom (st_nodes A)" for i
  proof -
    obtain n a where n: "st_nodes A i = Some a" "node_ok R (st_nodes A) (on_chain A) i n a"
      "?ns ! ?\<rho> i = ser_image ?\<rho> n" using node [OF i] by blast
    show ?thesis
    proof (cases "sn_parent a")
      case None
      then show ?thesis using n(1,3) node_okD(1) [OF n(2)] by (simp add: ser_parent_def spar_def ser_image_def)
    next
      case (Some p)
      then have "p \<in> dom (st_nodes A)" using links_parent(1) [OF w(4) n(1)] by blast
      then show ?thesis
        using Some n(1,3) node_okD(1) [OF n(2)] less(1) [OF i] less(3)
        by (simp add: ser_parent_def spar_def ser_image_def)
    qed
  qed
  have kids_eq: "kids (ser_image ?\<rho> n) = ?\<rho> ` set (sn_children a)"
    if a: "st_nodes A i = Some a" "node_ok R (st_nodes A) (on_chain A) i n a" for i n a
  proof -
    have "unat (of_nat (?\<rho> c) :: u32) = ?\<rho> c" if "c \<in> set (sn_children a)" for c
      using less(3) kids [OF a(1) that] by blast
    then show ?thesis using node_okD(2) [OF a(2)] by (auto simp: kids_def ser_image_def image_iff)
  qed
  show "ser_valid s"
  proof (rule ser_validI)
    show "?len \<le> 2 ^ 32" using s(1) bound by simp
    show "unat (sr_root s) < ?len" "unat (sr_current s) < ?len" using root cur less(1) w(2,3) by simp_all
    show "sr_base s \<noteq> None" by (rule s(3))
    fix k
    assume "k < ?len"
    then obtain i where i: "i \<in> dom (st_nodes A)" "k = ?\<rho> i" using surj by blast
    obtain n a where n: "st_nodes A i = Some a" "node_ok R (st_nodes A) (on_chain A) i n a"
      "?ns ! k = ser_image ?\<rho> n" using node [OF i(1)] i(2) by blast
    note f = node_okD [OF n(2)]
    show "distinct (sd_children (?ns ! k))"
    proof -
      have "inj_on (\<lambda>c. of_nat (?\<rho> c) :: u32) (set (sn_children a))"
      proof (rule inj_onI)
        fix c d
        assume cd: "c \<in> set (sn_children a)" "d \<in> set (sn_children a)" "(of_nat (?\<rho> c) :: u32) = of_nat (?\<rho> d)"
        then have "c \<in> dom (st_nodes A)" "d \<in> dom (st_nodes A)" using kids [OF n(1)] by blast+
        then show "c = d" using cd(3) less(3) rank_inj dom by metis
      qed
      then show ?thesis using links_children_distinct [OF w(4) n(1)] n(3) f(2) by (simp add: ser_image_def distinct_map)
    qed
    show "sd_parent (?ns ! c) = Some (of_nat k)" if c: "c \<in> kids (?ns ! k)" for c
    proof -
      obtain j where j: "j \<in> set (sn_children a)" "c = ?\<rho> j" using c kids_eq [OF n(1,2)] n(3) by auto
      obtain b where b: "st_nodes A j = Some b" "sn_parent b = Some i" using kids [OF n(1) j(1)] by blast
      obtain m where m: "node_ok R (st_nodes A) (on_chain A) j m b" "?ns ! ?\<rho> j = ser_image ?\<rho> m"
        using node [OF domI [of "st_nodes A" j b, OF b(1)]] b(1) by auto
      show ?thesis using j(2) m b(2) i(2) node_okD(1) [OF m(1)] by (simp add: ser_image_def)
    qed
    show "k \<in> kids (?ns ! unat p)" if p: "sd_parent (?ns ! k) = Some p" for p
    proof -
      obtain q where q: "sn_parent a = Some q" "p = of_nat (?\<rho> q)"
        using p n(3) f(1) by (auto simp: ser_image_def)
      obtain b where b: "st_nodes A q = Some b" "i \<in> set (sn_children b)" using links_parent(1) [OF w(4) n(1) q(1)] by blast
      obtain m where m: "node_ok R (st_nodes A) (on_chain A) q m b" "?ns ! ?\<rho> q = ser_image ?\<rho> m"
        using node [OF domI [of "st_nodes A" q b, OF b(1)]] b(1) by auto
      have "unat p = ?\<rho> q" using q(2) less(3) b(1) by blast
      then show ?thesis using m kids_eq [OF b(1) m(1)] b(2) i(2) by simp
    qed
    show "ser_node_ok ?len (sr_root s) k (?ns ! k)"
    proof -
      have c: "\<forall>c \<in> set (un_children n). ?\<rho> c < ?len \<and> unat (of_nat (?\<rho> c) :: u32) = ?\<rho> c"
        using kids [OF n(1)] less(1,3) f(2) by fastforce
      have l: "\<forall>c. un_last_child n = Some c \<longrightarrow> ?\<rho> c < ?len \<and> unat (of_nat (?\<rho> c) :: u32) = ?\<rho> c"
        using links_last [OF w(4) n(1)] c f(2,3) by simp
      have rt: "of_nat k = sr_root s \<longleftrightarrow> i = st_root A"
        using less(3) [OF i(1)] root rank_inj [of ?L i "st_root A"] dom i w(2) by (metis s(4))
      show ?thesis
      proof (cases "sn_parent a")
        case None
        then show ?thesis
          using links_no_parent [OF w(4) n(1) None] rt n(3) f(1) node_ok_root(1) [OF n(2) None] c l
          by (auto simp: ser_node_ok_def ser_image_def split: option.splits)
      next
        case (Some p)
        have "p \<in> dom (st_nodes A)" "i \<noteq> st_root A" using links_parent [OF w(4) n(1) Some] by blast+
        moreover obtain d where "un_delta n = Some d" using node_ok_inner(2) [OF n(2) Some] by blast
        ultimately show ?thesis
          using Some rt n(3) f(1) c l less(1,3) [of p]
          by (auto simp: ser_node_ok_def ser_image_def split: option.splits)
      qed
    qed
  next
    have seq: "sd_seq (?ns ! ?\<rho> i) = sn_seq a" if "st_nodes A i = Some a" for i a
    proof -
      note ia = that
      obtain n where n: "node_ok R (st_nodes A) (on_chain A) i n a" "?ns ! ?\<rho> i = ser_image ?\<rho> n"
        using node [OF domI [of "st_nodes A" i a, OF ia]] ia by auto
      then show ?thesis using node_okD(8) [OF n(1)] by (simp add: ser_image_def)
    qed
    show "distinct (map sd_seq ?ns)"
      unfolding distinct_conv_nth
    proof (intro allI impI)
      fix j k
      assume jk: "j < length (map sd_seq ?ns)" "k < length (map sd_seq ?ns)" "j \<noteq> k"
      obtain i a where i: "st_nodes A i = Some a" "j = ?\<rho> i" using surj [of j] jk(1) by auto
      obtain i' a' where i': "st_nodes A i' = Some a'" "k = ?\<rho> i'" using surj [of k] jk(2) by auto
      have "sn_seq a \<noteq> sn_seq a'" using w(5) i i' jk(3) unfolding seqs_wf_def by blast
      then show "map sd_seq ?ns ! j \<noteq> map sd_seq ?ns ! k" using jk seq [OF i(1)] seq [OF i'(1)] i(2) i'(2) by simp
    qed
  qed
qed

lemma image_back:
  assumes "\<And>c. c \<in> D \<Longrightarrow> unat (of_nat (\<rho> c) :: u32) = \<rho> c" and "set (un_children n) \<subseteq> D"
    and "set_option (un_parent n) \<subseteq> D" and "set_option (un_last_child n) \<subseteq> D"
  shows "map unat (sd_children (ser_image \<rho> n)) = map \<rho> (un_children n)"
    and "map_option unat (sd_last_child (ser_image \<rho> n)) = map_option \<rho> (un_last_child n)"
    and "map_option unat (sd_parent (ser_image \<rho> n)) = map_option \<rho> (un_parent n)"
  using assms by (auto simp: ser_image_def option.map_comp intro!: option.map_cong)

text \<open>The last child of a rebuilt node is the image of the one saved.\<close>

lemma rebuilt_last:
  assumes d: "depths_ok (ser_parent s) dep"
    and chain: "\<And>c. anc (ser_parent s) (unat (sr_current s)) c \<Longrightarrow> ser_parent s c = Some i \<Longrightarrow>
      map_option unat (sd_last_child (sr_nodes s ! i)) = Some c"
    and own: "\<And>c. sd_last_child (sr_nodes s ! i) = Some c \<Longrightarrow> c \<in> set (sd_children (sr_nodes s ! i))"
  shows "un_last_child (rebuilt base s depths i) = map_option unat (sd_last_child (sr_nodes s ! i))"
proof -
  have "relast (ser_parent s) (unat (sr_current s)) i (map_option unat (sd_last_child (sr_nodes s ! i))) =
      map_option unat (sd_last_child (sr_nodes s ! i))"
    using relast_eq [OF d] relast_none chain by metis
  then show ?thesis using own by (auto simp: rebuilt_def repair_last_def node_of_ser_def split: option.splits)
qed

lemma load_refines:
  assumes R: "rope_laws R" and r: "refines R t A" and wf: "spec_wf A"
    and bound: "live_count t \<le> 2 ^ 32"
  shows "\<exists>s t' \<sigma> dep. to_serializable R t = Some s \<and> from_serializable R s = Some (Some t') \<and>
    numbering (dom (st_nodes A)) (rank (ut_nodes t)) \<sigma> (live_count t) \<and>
    refines R t' (s_rename (rank (ut_nodes t)) \<sigma> (live_count t) dep A) \<and>
    spec_wf (s_rename (rank (ut_nodes t)) \<sigma> (live_count t) dep A) \<and>
    renumbered (rank (ut_nodes t)) t t'"
proof -
  note w = spec_wfD [OF wf]
  let ?L = "ut_nodes t" and ?\<rho> = "rank (ut_nodes t)"
  have S: "sim R (st_nodes A) (on_chain A) t" "ut_root t = st_root A" "ut_current t = st_current A"
    "ut_next_seq t = st_next_seq A" using r by (simp_all add: refines_sim)
  obtain s where s: "to_serializable R t = Some s" "length (sr_nodes s) = live_slots ?L"
    "\<forall>i n. node_get t i = Some n \<longrightarrow> sr_nodes s ! ?\<rho> i = ser_image ?\<rho> n"
    "sr_base s = Some (sn_text (snode A (st_root A)))" "sr_root s = of_nat (?\<rho> (st_root A))"
    "sr_current s = of_nat (?\<rho> (st_current A))" "sr_next_seq s = st_next_seq A"
    using to_serializable_ok [OF r wf] by blast
  have len: "length (sr_nodes s) \<le> 2 ^ 32" "live_slots ?L \<le> 2 ^ 32" "length (sr_nodes s) = live_count t"
    using bound s(2) by (simp_all only: live_count_slots)
  have "sr_base s \<noteq> None" using s(4) by simp
  note V = saved_valid [OF r wf len(2) s(2,3) this s(5,6)]
  have dom: "{i. live ?L i} = dom (st_nodes A)"
    using nodes_ok_dead [OF simD(1) [OF S(1)]] by (auto simp: live_node)
  obtain \<sigma> where n: "numbering (dom (st_nodes A)) ?\<rho> \<sigma> (live_count t)"
    using rank_numbering [of ?L] unfolding dom live_count_slots by blast
  note num = numberingD [OF n] and num_ok = n
  have up: "anc (ser_parent s) (?\<rho> i) (?\<rho> j)" if "anc (spar A) i j" for i j
  proof (rule anc_image [OF that])
    fix k p
    assume "spar A k = Some p"
    then show "ser_parent s (?\<rho> k) = Some (?\<rho> p)" using V(4) [OF spar_dom] by simp
  qed
  have reach: "anc (ser_parent s) k (unat (sr_root s))" if k: "k < length (sr_nodes s)" for k
  proof -
    have "anc (spar A) (\<sigma> k) (st_root A)" using anc_reaches_root [OF w(4)] num(3) k len(3) by simp
    from up [OF this] show ?thesis using num(4) k len(3) V(2) by simp
  qed
  obtain depths t' where t': "from_serializable R s = Some (Some t')" "depths_ok (ser_parent s) ((!) depths)"
    "ut_nodes t' = map (\<lambda>i. Some (rebuilt (rp_from_str R (the (sr_base s))) s depths i)) [0 ..< length (sr_nodes s)]"
    "ut_free t' = []" "ut_warm t' = []" "ut_keyframes t' = []" "index_ok t'"
    "ut_root t' = unat (sr_root s)" "ut_current t' = unat (sr_current s)" "ut_next_seq t' = sr_next_seq s"
  proof -
    obtain dd ss where "depths_from_root s = Some (dd, ss)" "length ss = length (sr_nodes s)"
      "\<forall>i < length (sr_nodes s). ss ! i \<longleftrightarrow> anc (ser_parent s) i (unat (sr_root s))"
      using depths_from_root_spec [OF V(1) len(1)] by blast
    then have "depths_from_root s = Some (dd', ss') \<Longrightarrow> list_all id ss'" for dd' ss'
      using reach by (auto simp: list_all_length)
    then show ?thesis using from_serializable_nodes [OF V(1) len(1), of R] that by blast
  qed
  let ?B = "s_rename ?\<rho> \<sigma> (live_count t) ((!) depths) A"
  have dep: "depths ! ?\<rho> i = Suc (depths ! ?\<rho> p)" if "spar A i = Some p" for i p
    using t'(2) V(4) [OF spar_dom [OF that]] that by (simp add: depths_ok_def)
  note B = s_rename_wf [OF n wf, of "(!) depths", OF dep]
  have B_parent: "ser_parent s = spar ?B"
  proof
    fix k
    show "ser_parent s k = spar ?B k"
    proof (cases "k < live_count t")
      case True
      obtain a where a: "st_nodes A (\<sigma> k) = Some a" using num(3) [OF True] by blast
      then show ?thesis
        using V(4) [OF num(3) [OF True]] num(4) [OF True] True by (simp add: spar_def s_rename_def s_renode_def snode_def)
    qed (use len(3) in \<open>simp add: ser_parent_def spar_def s_rename_def\<close>)
  qed
  have B_chain: "on_chain ?B k \<longleftrightarrow> anc (ser_parent s) (unat (sr_current s)) k" for k
    by (simp add: on_chain_def B_parent V(3))
  have rk: "unat (of_nat (?\<rho> c) :: u32) = ?\<rho> c" if "c \<in> dom (st_nodes A)" for c
    using unat_u32 [OF less_le_trans [OF num(1) [OF that]]] bound by blast
  note get = rebuilt_get [OF t'(3)]
  define base where "base = rp_from_str R (the (sr_base s))"
  have node: "\<exists>n. node_get t (\<sigma> k) = Some n \<and> node_ok R (st_nodes A) (on_chain A) (\<sigma> k) n a \<and>
      un_parent (rebuilt base s depths k) = map_option ?\<rho> (un_parent n) \<and>
      un_children (rebuilt base s depths k) = map ?\<rho> (un_children n) \<and>
      un_last_child (rebuilt base s depths k) = map_option ?\<rho> (un_last_child n) \<and>
      sr_nodes s ! k = ser_image ?\<rho> n"
    if k: "k < live_count t" and a: "st_nodes A (\<sigma> k) = Some a" for k a
  proof -
    obtain n where n: "node_get t (\<sigma> k) = Some n" "node_ok R (st_nodes A) (on_chain A) (\<sigma> k) n a"
      using sim_live [OF S(1) a] by blast
    note f = node_okD [OF n(2)]
    have img: "sr_nodes s ! k = ser_image ?\<rho> n" using s(3) n(1) num(4) [OF k] by metis
    have ch: "set (un_children n) \<subseteq> dom (st_nodes A)" using links_child [OF w(4) a] f(2) by auto
    have la: "set_option (un_last_child n) \<subseteq> set (un_children n)" using links_last [OF w(4) a] f(2,3) by auto
    have pa: "set_option (un_parent n) \<subseteq> dom (st_nodes A)" using links_parent(1) [OF w(4) a] f(1) by (cases "sn_parent a") auto
    have im: "map unat (sd_children (ser_image ?\<rho> n)) = map ?\<rho> (un_children n)"
      "map_option unat (sd_last_child (ser_image ?\<rho> n)) = map_option ?\<rho> (un_last_child n)"
      "map_option unat (sd_parent (ser_image ?\<rho> n)) = map_option ?\<rho> (un_parent n)"
      using image_back [of "dom (st_nodes A)" ?\<rho> n, OF rk ch pa] la ch by blast+
    have "un_last_child (rebuilt base s depths k) = map_option unat (sd_last_child (sr_nodes s ! k))"
    proof (rule rebuilt_last [OF t'(2)])
      fix c
      assume c: "anc (ser_parent s) (unat (sr_current s)) c" "ser_parent s c = Some k"
      then have "sn_last (snode ?B k) = Some c"
        using spec_wfD(6) [OF B] B_chain [of c] by (simp add: chain_wf_def B_parent)
      then show "map_option unat (sd_last_child (sr_nodes s ! k)) = Some c"
        using im(2) f(3) a k by (simp add: img snode_def s_rename_def s_renode_def)
    next
      fix c
      assume "sd_last_child (sr_nodes s ! k) = Some c"
      then show "c \<in> set (sd_children (sr_nodes s ! k))" using la by (auto simp: img ser_image_def)
    qed
    then show ?thesis using n im img by (simp add: rebuilt_fields(1,2))
  qed
  have text_base: "rp_text R base = sn_text (snode A (st_root A))"
  proof -
    obtain a where a: "st_nodes A (st_root A) = Some a" using w(2) by blast
    obtain n where n: "node_ok R (st_nodes A) (on_chain A) (st_root A) n a" using sim_live [OF S(1) a] by blast
    show ?thesis
      using rope_from_str [OF R node_okD(11) [OF n]] a s(4) by (simp add: base_def snode_def)
  qed
  have root_iff: "of_nat k = sr_root s \<longleftrightarrow> k = unat (sr_root s)" if "k < live_count t" for k
    using ser_root_only(3) [OF V(1) len(1)] that len(3) by simp
  have ok: "node_ok R (st_nodes ?B) (on_chain ?B) k (rebuilt base s depths k) (s_renode ?\<rho> (depths ! k) a)"
    if k: "k < live_count t" and a: "st_nodes A (\<sigma> k) = Some a" for k a
  proof -
    obtain n where n: "node_ok R (st_nodes A) (on_chain A) (\<sigma> k) n a" "sr_nodes s ! k = ser_image ?\<rho> n"
      "un_parent (rebuilt base s depths k) = map_option ?\<rho> (un_parent n)"
      "un_children (rebuilt base s depths k) = map ?\<rho> (un_children n)"
      "un_last_child (rebuilt base s depths k) = map_option ?\<rho> (un_last_child n)"
      using node [OF k a] by blast
    note f = node_okD [OF n(1)]
    have plain: "un_cursor (rebuilt base s depths k) = saved_pos (sn_cursor a)"
      "un_timestamp (rebuilt base s depths k) = saved_time (sn_timestamp a)"
      "un_marks (rebuilt base s depths k) = sn_marks a" "un_delta (rebuilt base s depths k) = un_delta n"
      "un_seq (rebuilt base s depths k) = sn_seq a"
      using n(2) f(5-8)
      by (simp_all add: rebuilt_def node_of_ser_def ser_image_def saved_pos_def saved_time_def)
    show ?thesis
    proof (cases "sn_parent a")
      case None
      then have "\<sigma> k = st_root A" using links_no_parent [OF w(4) a] by blast
      then have "k = unat (sr_root s)" "snode A (st_root A) = a" using V(2) num(4) [OF k] a by (simp_all add: snode_def)
      then show ?thesis
        using n(3-5) f plain None node_ok_root(1) [OF n(1) None] text_base root_iff [OF k]
        by (simp add: node_ok_def s_renode_def rebuilt_fields(4-6,8) B_chain)
    next
      case (Some p)
      obtain b where b: "st_nodes A p = Some b" "\<sigma> k \<noteq> st_root A" using links_parent [OF w(4) a Some] by blast
      obtain d where d: "un_delta n = Some d" "valid_str (d_new d)" "delta_links d (sn_text b) (sn_text a)"
        using node_ok_inner(2) [OF n(1) Some] b(1) by auto
      have "k \<noteq> unat (sr_root s)" using V(2) num(2) w(2) b(2) by auto
      moreover have "st_nodes ?B (?\<rho> p) = Some (s_renode ?\<rho> (depths ! ?\<rho> p) b)"
        by (rule s_rename_lookup(1) [OF num_ok b(1)])
      ultimately show ?thesis
        using n(3-5) f plain Some d root_iff [OF k]
        by (simp add: node_ok_def s_renode_def rebuilt_fields(4-6,8) B_chain)
    qed
  qed
  have nodes: "nodes_ok R (st_nodes ?B) (on_chain ?B) (node_get t')"
    unfolding nodes_ok_def
  proof (intro allI conjI impI)
    fix k
    show "node_get t' k = None \<longleftrightarrow> st_nodes ?B k = None"
      by (simp add: get s_rename_def len(3))
    fix m b
    assume m: "node_get t' k = Some m" "st_nodes ?B k = Some b"
    then have k: "k < live_count t" "m = rebuilt base s depths k" "b = s_renode ?\<rho> (depths ! k) (snode A (\<sigma> k))"
      by (auto simp: s_rename_def get base_def split: if_splits)
    obtain a where a: "st_nodes A (\<sigma> k) = Some a" using num(3) [OF k(1)] by blast
    then show "node_ok R (st_nodes ?B) (on_chain ?B) k m b" using ok [OF k(1) a] k(2,3) by (simp add: snode_def)
  qed
  have "tree_inv t'" by (rule rebuilt_inv [OF V(1) len(1) t'(3-9,2)])
  then have "refines R t' ?B"
    using nodes t'(8-10) V(2,3) s(7) by (simp add: refines_def tree_inv_def)
  moreover have "renumbered ?\<rho> t t'"
  proof -
    have "\<exists>m. node_get t' (?\<rho> i) = Some m \<and>
        un_parent m = map_option ?\<rho> (un_parent n) \<and> un_children m = map ?\<rho> (un_children n) \<and>
        un_last_child m = map_option ?\<rho> (un_last_child n) \<and> un_delta m = un_delta n \<and>
        un_marks m = un_marks n \<and> un_seq m = un_seq n \<and> un_on_path m = un_on_path n \<and>
        un_cursor m = saved_pos (un_cursor n) \<and> un_timestamp m = saved_time (un_timestamp n)"
      if i: "node_get t i = Some n" for i n
    proof -
      obtain a where a: "st_nodes A i = Some a" using nodes_ok_dead [OF simD(1) [OF S(1)], of i] i by fastforce
      have dm: "i \<in> dom (st_nodes A)" using a by blast
      have k: "?\<rho> i < live_count t" "\<sigma> (?\<rho> i) = i" using num(1,2) [OF dm] by blast+
      have nk: "node_ok R (st_nodes A) (on_chain A) i n a" using sim_live [OF S(1) a] i by (metis option.inject)
      obtain n' where m: "node_get t i = Some n'" "sr_nodes s ! ?\<rho> i = ser_image ?\<rho> n'"
        "un_parent (rebuilt base s depths (?\<rho> i)) = map_option ?\<rho> (un_parent n')"
        "un_children (rebuilt base s depths (?\<rho> i)) = map ?\<rho> (un_children n')"
        "un_last_child (rebuilt base s depths (?\<rho> i)) = map_option ?\<rho> (un_last_child n')"
        using node [OF k(1), unfolded k(2), OF a] by blast
      have "un_on_path (rebuilt base s depths (?\<rho> i)) = un_on_path n"
        using node_okD(9) [OF ok [OF k(1), unfolded k(2), OF a]] on_chain_rename [OF n wf dm] node_okD(9) [OF nk] by simp
      then show ?thesis
        using m i k(1) len(3)
        by (simp add: get base_def [symmetric] rebuilt_fields(3,7))
          (simp add: rebuilt_def node_of_ser_def ser_image_def saved_pos_def saved_time_def)
    qed
    then show ?thesis
      using t'(3,8-10) V(2,3) S(2-4) s(7) len(3) by (simp add: renumbered_def)
  qed
  ultimately show ?thesis using s(1) t'(1) n B by blast
qed

section \<open>The round trip through a file\<close>

lemma materialize_refines:
  assumes "rope_laws R" and "refines R t A" and "spec_wf A" and "st_nodes A i = Some a"
  shows "\<exists>r t'. materialize R i t = Some (r, t') \<and> rp_text R r = sn_text a"
proof -
  have "ups_wf (st_nodes A) (ut_root t)" "sim R (st_nodes A) (on_chain A) t"
    using links_ups [OF spec_wfD(4) [OF assms(3)]] assms(2) by (simp_all add: refines_sim)
  then show ?thesis using materialize_spec [of R "st_nodes A" t] assms(1,4) by blast
qed

definition same_texts :: "'r rope_ops \<Rightarrow> (nat \<Rightarrow> nat) \<Rightarrow> 'r undo_tree \<Rightarrow> 'r undo_tree \<Rightarrow> bool" where
  "same_texts R \<rho> t t' \<longleftrightarrow>
     (\<forall>i. node_get t i \<noteq> None \<longrightarrow>
        map_option (\<lambda>(r, _). rp_text R r) (materialize R (\<rho> i) t') =
        map_option (\<lambda>(r, _). rp_text R r) (materialize R i t) \<and> materialize R i t \<noteq> None)"

lemma save_load:
  assumes R: "rope_laws R" and b: "between R d S" and bound: "live_count (doc_undo d) \<le> 2 ^ 32"
  shows "\<exists>ser k d1 d2 S2. undo_to_serializable R d = Some ((ser, k), d1) \<and>
    install_undo_tree R ser d1 = Some (True, d2) \<and> doc_text d2 = doc_text d \<and>
    renumbered (rank (ut_nodes (doc_undo d1))) (doc_undo d1) (doc_undo d2) \<and>
    same_texts R (rank (ut_nodes (doc_undo d1))) (doc_undo d1) (doc_undo d2) \<and> between R d2 S2"
proof -
  have D: "drefines R d S" "doc_depth S = 0" using b by (simp_all add: between_def)
  note dd = drefinesD [OF D(1)]
  let ?A = "s_sync (doc_text S) (doc_undo S)"
  obtain t where t: "sync_current R (doc_text d) (doc_undo d) = Some t" "refines R t ?A"
    using sync_refines [OF R dd(1,2), of "doc_text d"] dd(3,4) by auto
  have wf: "spec_wf ?A" by (rule s_sync_wf [OF dd(2)])
  have "dom (st_nodes ?A) = dom (st_nodes (doc_undo S))" using spec_wfD(3) [OF dd(2)] by (auto simp: s_sync_def s_upd_def)
  then have "live_count t = live_count (doc_undo d)"
    using live_count_refines [OF t(2)] live_count_refines [OF dd(1)] by simp
  then obtain s t' \<sigma> dep where L: "to_serializable R t = Some s" "from_serializable R s = Some (Some t')"
    "numbering (dom (st_nodes ?A)) (rank (ut_nodes t)) \<sigma> (live_count t)"
    "refines R t' (s_rename (rank (ut_nodes t)) \<sigma> (live_count t) dep ?A)"
    "spec_wf (s_rename (rank (ut_nodes t)) \<sigma> (live_count t) dep ?A)" "renumbered (rank (ut_nodes t)) t t'"
    using load_refines [OF R t(2) wf] bound by auto
  let ?\<rho> = "rank (ut_nodes t)" and ?B = "s_rename (rank (ut_nodes t)) \<sigma> (live_count t) dep ?A"
  have live: "node_get t i \<noteq> None \<Longrightarrow> \<exists>a. st_nodes ?A i = Some a" for i
    using nodes_ok_dead [of R "st_nodes ?A" "on_chain ?A" "node_get t" i] t(2) by (auto simp: refines_def)
  have "same_texts R ?\<rho> t t'"
    unfolding same_texts_def
  proof (intro allI impI)
    fix i
    assume "node_get t i \<noteq> None"
    then obtain a where a: "st_nodes ?A i = Some a" using live by blast
    show "map_option (\<lambda>(r, _). rp_text R r) (materialize R (?\<rho> i) t') =
        map_option (\<lambda>(r, _). rp_text R r) (materialize R i t) \<and> materialize R i t \<noteq> None"
      using materialize_refines [OF R t(2) wf a]
        materialize_refines [OF R L(4,5) s_rename_lookup(1) [OF L(3) a]]
      by (auto simp: s_renode_def)
  qed
  moreover have "between R (d\<lparr>doc_undo := t'\<rparr>) (S\<lparr>doc_undo := ?B\<rparr>)"
  proof -
    obtain a where a: "st_nodes ?A (st_current (doc_undo S)) = Some a" "sn_text a = doc_text S"
      using spec_wfD(3) [OF dd(2)] by (auto simp: s_sync_def s_upd_def)
    have "snode ?B (?\<rho> (st_current (doc_undo S))) = s_renode ?\<rho> (dep (?\<rho> (st_current (doc_undo S)))) a"
      using s_rename_lookup(1) [OF L(3) a(1)] by (simp add: snode_def)
    then have "live_fits ?B (doc_text S)" using a(2) by (simp add: live_fits_def s_sync_def s_renode_def)
    then show ?thesis using drefines_tree [OF D(1) L(4,5)] D(2) by (simp add: between_def)
  qed
  moreover obtain k where "current_seq t = Some k"
    using current_seq_refines [OF t(2) wf] by blast
  then have "undo_to_serializable R d = Some ((s, k), d\<lparr>doc_undo := t\<rparr>)"
    using t(1) L(1) by (simp add: undo_to_serializable_def)
  moreover have "install_undo_tree R s (d\<lparr>doc_undo := t\<rparr>) = Some (True, d\<lparr>doc_undo := t'\<rparr>)"
    using L(2) by (simp add: install_undo_tree_def)
  ultimately show ?thesis
    using L(6) by (intro exI [of _ s] exI [of _ k] exI [of _ "d\<lparr>doc_undo := t\<rparr>"] exI [of _ "d\<lparr>doc_undo := t'\<rparr>"]
        exI [of _ "S\<lparr>doc_undo := ?B\<rparr>"]) simp
qed



section \<open>What the validation does not see\<close>

text \<open>One edit behind the end of the text: the deltas are not checked against their base.\<close>

definition wild_file :: "rstring \<Rightarrow> ser_tree" where
  "wild_file base =
     (let node = \<lparr>sd_parent = None, sd_children = [1], sd_last_child = Some 1, sd_delta = None,
          sd_cursor = (0, 0), sd_timestamp_unix_ms = 0, sd_marks = marks_default, sd_seq = 0\<rparr>
      in \<lparr>sr_base = Some base, sr_nodes = [node,
            node\<lparr>sd_parent := Some 0, sd_children := [], sd_last_child := None, sd_seq := 1,
              sd_delta := Some \<lparr>d_start = length base + 1, d_old = [], d_new = str ''b''\<rparr>\<rparr>],
          sr_root = 0, sr_current = 1, sr_next_seq = 2\<rparr>)"

text \<open>
  The recovery of a crashed session rejects a projection that is structurally invalid
  or disagrees with the text, but the edges themselves are not validated: a delta behind the
  end of its parent's text passes \<open>from_serializable\<close>, and comparing the tree with the
  text panics instead of giving \<open>False\<close>.
\<close>

lemma wild_delta_panics:
  assumes R: "rope_laws R" and v: "valid_str base"
  shows "(\<exists>t. from_serializable R (wild_file base) = Some (Some t)) \<and>
    install_recovered_undo_tree R (wild_file base) 1 d = None"
proof -
  have app: "apply_forward R (rp_from_str R base) \<lparr>d_start = Suc (length base), d_old = [], d_new = [98]\<rparr> = None"
    using rope_from_str [OF R v] R by (simp add: apply_forward_def rope_laws_def law_edits_def)
  have valid: "ser_valid (wild_file base)"
    by (simp add: ser_valid_def wild_file_def Let_def ser_node_ok_def atLeastLessThanSuc)
  have dep: "depths_from_root (wild_file base) = Some ([0, 1], [True, True])"
    by (simp add: depths_from_root_def wild_file_def Let_def)
  let ?t = "the (the (from_serializable R (wild_file base)))"
  have t: "from_serializable R (wild_file base) = Some (Some ?t)"
    using valid dep by (simp add: from_serializable_def Let_def)
  have "current_seq ?t = Some 1" "materialize R (ut_current ?t) ?t = None"
    using valid dep app
    by (simp_all add: from_serializable_def Let_def wild_file_def node_of_ser_def repair_last_def
        current_seq_def node_get_def materialize_def anchor_walk.simps bind_eq_Some_conv)
  with t obtain t where "from_serializable R (wild_file base) = Some (Some t)" "current_seq t = Some 1"
    "materialize R (ut_current t) t = None" by blast
  then show ?thesis by (simp add: install_recovered_undo_tree_def current_content_def)
qed

end
