(* ===== verification/Folds.thy ===== *)
theory Folds
  imports Prelude "HOL-Library.Product_Lexorder"
begin

text \<open>
  Folds (\<open>crates/hjkl-buffer/src/folds.rs\<close>): row ranges a view collapses, the index of
  hidden rows, the fold commands and the shift of folds, marks and jumps after an edit
  (\<open>shift_marks_after_edit\<close> of \<open>hjkl-engine/src/editor.rs\<close>).  Rows and counters are
  natural numbers; \<open>u64\<close> generations are words.  Of the text the folds read the byte
  lengths of its lines only, the field \<open>fs_lines\<close>.
\<close>

section \<open>Folds and their order\<close>

record fold =
  fd_start :: nat
  fd_end :: nat
  fd_closed :: bool
  fd_auto :: bool

definition contains :: "fold \<Rightarrow> nat \<Rightarrow> bool" where
  "contains f row \<longleftrightarrow> row \<ge> fd_start f \<and> row \<le> fd_end f"

definition hides :: "fold \<Rightarrow> nat \<Rightarrow> bool" where
  "hides f row \<longleftrightarrow> fd_closed f \<and> row > fd_start f \<and> row \<le> fd_end f"

definition line_count :: "fold \<Rightarrow> nat" where
  "line_count f = (fd_end f - fd_start f) + 1"

datatype ordering = Less | Equal | Greater

definition cmp :: "'a::linorder \<Rightarrow> 'a \<Rightarrow> ordering" where
  "cmp x y = (if x < y then Less else if x = y then Equal else Greater)"

definition compare_folds :: "fold \<Rightarrow> fold \<Rightarrow> ordering" where
  "compare_folds l r =
     (case cmp (fd_start l) (fd_start r) of
        Equal \<Rightarrow> cmp (fd_end r) (fd_end l)
      | c \<Rightarrow> c)"

text \<open>The key that \<open>compare_folds\<close> compares; \<open>sort_by\<close> is the stable sort by it.\<close>

definition range_key :: "nat \<Rightarrow> nat \<Rightarrow> nat \<times> int" where
  "range_key s e = (s, - int e)"

abbreviation fold_key :: "fold \<Rightarrow> nat \<times> int" where
  "fold_key f \<equiv> range_key (fd_start f) (fd_end f)"

definition sort_folds :: "fold list \<Rightarrow> fold list" where
  "sort_folds = sort_key fold_key"

abbreviation fold_range :: "fold \<Rightarrow> nat \<times> nat" where
  "fold_range f \<equiv> (fd_start f, fd_end f)"

fun dedup_key :: "('a \<Rightarrow> 'k) \<Rightarrow> 'a list \<Rightarrow> 'a list" where
  "dedup_key k (x # y # xs) =
     (if k x = k y then dedup_key k (x # xs) else x # dedup_key k (y # xs))"
| "dedup_key k xs = xs"

text \<open>\<open>partition_point\<close> on a partitioned slice.\<close>

definition partition_point :: "('a \<Rightarrow> bool) \<Rightarrow> 'a list \<Rightarrow> nat" where
  "partition_point P xs = length (takeWhile P xs)"

section \<open>The index of hidden rows\<close>

type_synonym fold_index = "(nat \<times> nat) list"

definition push_range :: "fold_index \<Rightarrow> nat \<times> nat \<Rightarrow> fold_index" where
  "push_range rs r =
     (if rs \<noteq> [] \<and> fst r \<le> snd (last rs)
      then butlast rs @ [(fst (last rs), max (snd (last rs)) (snd r))]
      else rs @ [r])"

definition fold_index_new :: "fold list \<Rightarrow> fold_index" where
  "fold_index_new folds = foldl push_range [] (map fold_range (filter fd_closed folds))"

definition hides_row :: "fold_index \<Rightarrow> nat \<Rightarrow> bool" where
  "hides_row rs row =
     (let idx = partition_point (\<lambda>r. fst r \<le> row) rs in
      if idx = 0 then False
      else let (s, e) = rs ! (idx - 1) in row > s \<and> row \<le> e)"

section \<open>Picking a fold\<close>

definition inner_le :: "fold \<Rightarrow> fold \<Rightarrow> bool" where
  "inner_le g f \<longleftrightarrow> fd_start g < fd_start f \<or> (fd_start g = fd_start f \<and> fd_end f \<le> fd_end g)"

text \<open>\<open>max_by_key\<close> over the enumeration: of equal maxima the last.\<close>

fun innermost_from :: "nat \<Rightarrow> fold list \<Rightarrow> nat \<Rightarrow> (nat \<times> fold) option \<Rightarrow> nat option" where
  "innermost_from i [] row best = map_option fst best"
| "innermost_from i (f # fs) row best =
     innermost_from (Suc i) fs row
       (if contains f row then
          (case best of
             None \<Rightarrow> Some (i, f)
           | Some (j, g) \<Rightarrow> if inner_le g f then Some (i, f) else best)
        else best)"

definition innermost_containing_fold_index :: "fold list \<Rightarrow> nat \<Rightarrow> nat option" where
  "innermost_containing_fold_index folds row = innermost_from 0 folds row None"

fun position :: "('a \<Rightarrow> bool) \<Rightarrow> 'a list \<Rightarrow> nat option" where
  "position P [] = None"
| "position P (x # xs) = (if P x then Some 0 else map_option Suc (position P xs))"

definition recursive_fold_target_index :: "fold list \<Rightarrow> nat \<Rightarrow> nat option" where
  "recursive_fold_target_index folds row =
     (case position (\<lambda>f. fd_start f = row) folds of
        Some i \<Rightarrow> Some i
      | None \<Rightarrow> innermost_containing_fold_index folds row)"

section \<open>The view\<close>

record fold_view =
  fs_folds :: "fold list"
  fs_gen :: "64 word"
  fs_dirty :: "64 word"
  fs_lines :: "nat list"

definition row_count :: "fold_view \<Rightarrow> nat" where
  "row_count v = length (fs_lines v)"

definition fold_gen_bump :: "fold_view \<Rightarrow> fold_view" where
  "fold_gen_bump v = v\<lparr>fs_gen := fs_gen v + 1\<rparr>"

definition folds_changed :: "fold_view \<Rightarrow> fold_view" where
  "folds_changed v = (fold_gen_bump v)\<lparr>fs_dirty := fs_dirty v + 1\<rparr>"

definition has_folds :: "fold_view \<Rightarrow> bool" where
  "has_folds v \<longleftrightarrow> fs_folds v \<noteq> []"

definition add_fold :: "nat \<Rightarrow> nat \<Rightarrow> bool \<Rightarrow> fold_view \<Rightarrow> fold_view" where
  "add_fold start_row end_row closed v =
     (if end_row < start_row then v
      else let last = row_count v - 1 in
        if start_row > last then v
        else
          let end_row = min end_row last;
              f = \<lparr>fd_start = start_row, fd_end = end_row, fd_closed = closed, fd_auto = False\<rparr>;
              folds = (case position (\<lambda>g. fold_range g = (start_row, end_row)) (fs_folds v) of
                  Some idx \<Rightarrow> (fs_folds v)[idx := f]
                | None \<Rightarrow>
                    let pos = partition_point (\<lambda>g. compare_folds g f = Less) (fs_folds v)
                    in take pos (fs_folds v) @ f # drop pos (fs_folds v))
          in folds_changed (v\<lparr>fs_folds := folds\<rparr>))"

section \<open>Automatic folds\<close>

definition accepted :: "nat \<Rightarrow> nat set \<Rightarrow> (nat \<times> nat) list \<Rightarrow> (nat \<times> nat) list" where
  "accepted bottom manual_starts ranges =
     map (\<lambda>(s, e). (s, min e bottom))
       (filter (\<lambda>(s, e). \<not> (e < s \<or> s > bottom) \<and> \<not> (min e bottom = s \<or> s \<in> manual_starts)) ranges)"

fun pop_while :: "nat \<Rightarrow> nat list \<Rightarrow> nat list" where
  "pop_while e (x # stack) = (if x < e then pop_while e stack else x # stack)"
| "pop_while e [] = []"

fun nest_levels :: "nat list \<Rightarrow> (nat \<times> nat) list \<Rightarrow> nat list" where
  "nest_levels stack [] = []"
| "nest_levels stack ((s, e) # rs) =
     (let stack = pop_while e stack in (length stack + 1) # nest_levels (e # stack) rs)"

definition auto_ranges :: "(nat \<times> nat) list \<Rightarrow> fold_view \<Rightarrow> (nat \<times> nat) list" where
  "auto_ranges ranges v =
     dedup_key id (sort_key (\<lambda>(s, e). range_key s e)
       (accepted (row_count v - 1) (fd_start ` set (filter (Not \<circ> fd_auto) (fs_folds v))) ranges))"

text \<open>\<open>foldlevelstart\<close> is a \<open>u32\<close> in the source; it is only compared with a level.\<close>

definition set_auto_folds :: "(nat \<times> nat) list \<Rightarrow> nat \<Rightarrow> fold_view \<Rightarrow> fold_view" where
  "set_auto_folds ranges foldlevelstart v =
     (let prev_closed = map_of (rev (map (\<lambda>f. (fold_range f, fd_closed f)) (filter fd_auto (fs_folds v))));
          manual = filter (Not \<circ> fd_auto) (fs_folds v);
          rs = auto_ranges ranges v;
          autos = map (\<lambda>((s, e), level). \<lparr>fd_start = s, fd_end = e,
              fd_closed = (case prev_closed (s, e) of Some c \<Rightarrow> c | None \<Rightarrow> level > foldlevelstart),
              fd_auto = True\<rparr>) (zip rs (nest_levels [] rs));
          folds = sort_folds (manual @ autos)
      in if fs_folds v = folds then v else folds_changed (v\<lparr>fs_folds := folds\<rparr>))"

section \<open>The fold commands\<close>

definition remove_fold_at :: "nat \<Rightarrow> fold_view \<Rightarrow> bool \<times> fold_view" where
  "remove_fold_at row v =
     (case innermost_containing_fold_index (fs_folds v) row of
        None \<Rightarrow> (False, v)
      | Some idx \<Rightarrow>
          (True, folds_changed (v\<lparr>fs_folds := take idx (fs_folds v) @ drop (Suc idx) (fs_folds v)\<rparr>)))"

definition open_fold_at :: "nat \<Rightarrow> fold_view \<Rightarrow> bool \<times> fold_view" where
  "open_fold_at row v =
     (case innermost_containing_fold_index (fs_folds v) row of
        None \<Rightarrow> (False, v)
      | Some idx \<Rightarrow>
          let f = fs_folds v ! idx in
          if \<not> fd_closed f then (False, v)
          else (True, folds_changed (v\<lparr>fs_folds := (fs_folds v)[idx := f\<lparr>fd_closed := False\<rparr>]\<rparr>)))"

definition close_fold_at :: "nat \<Rightarrow> fold_view \<Rightarrow> bool \<times> fold_view" where
  "close_fold_at row v =
     (case innermost_containing_fold_index (fs_folds v) row of
        None \<Rightarrow> (False, v)
      | Some idx \<Rightarrow>
          let f = fs_folds v ! idx in
          if fd_closed f then (False, v)
          else (True, folds_changed (v\<lparr>fs_folds := (fs_folds v)[idx := f\<lparr>fd_closed := True\<rparr>]\<rparr>)))"

definition toggle_fold_at :: "nat \<Rightarrow> fold_view \<Rightarrow> bool \<times> fold_view" where
  "toggle_fold_at row v =
     (case innermost_containing_fold_index (fs_folds v) row of
        None \<Rightarrow> (False, v)
      | Some idx \<Rightarrow>
          let f = fs_folds v ! idx in
          (True, folds_changed (v\<lparr>fs_folds := (fs_folds v)[idx := f\<lparr>fd_closed := \<not> fd_closed f\<rparr>]\<rparr>)))"

text \<open>The commands that set the state of every fold in a part of the list.\<close>

definition in_subtree :: "fold \<Rightarrow> fold \<Rightarrow> bool" where
  "in_subtree target f \<longleftrightarrow> fd_start f \<ge> fd_start target \<and> fd_end f \<le> fd_end target"

definition set_closed :: "(fold \<Rightarrow> bool) \<Rightarrow> bool \<Rightarrow> fold_view \<Rightarrow> fold_view" where
  "set_closed P c v = v\<lparr>fs_folds := map (\<lambda>f. if P f then f\<lparr>fd_closed := c\<rparr> else f) (fs_folds v)\<rparr>"

definition close_folds_recursively_at :: "nat \<Rightarrow> fold_view \<Rightarrow> bool \<times> fold_view" where
  "close_folds_recursively_at row v =
     (case recursive_fold_target_index (fs_folds v) row of
        None \<Rightarrow> (False, v)
      | Some idx \<Rightarrow>
          let target = fs_folds v ! idx;
              P = (\<lambda>f. in_subtree target f \<and> \<not> fd_closed f)
          in if list_ex P (fs_folds v) then (True, folds_changed (set_closed P True v)) else (False, v))"

definition open_folds_recursively_at :: "nat \<Rightarrow> fold_view \<Rightarrow> bool \<times> fold_view" where
  "open_folds_recursively_at row v =
     (case recursive_fold_target_index (fs_folds v) row of
        None \<Rightarrow> (False, v)
      | Some idx \<Rightarrow>
          let target = fs_folds v ! idx;
              P = (\<lambda>f. in_subtree target f \<and> fd_closed f)
          in if list_ex P (fs_folds v) then (True, folds_changed (set_closed P False v)) else (False, v))"

definition toggle_folds_recursively_at :: "nat \<Rightarrow> fold_view \<Rightarrow> bool \<times> fold_view" where
  "toggle_folds_recursively_at row v =
     (case recursive_fold_target_index (fs_folds v) row of
        None \<Rightarrow> (False, v)
      | Some idx \<Rightarrow>
          let target = fs_folds v ! idx;
              closed = (\<not> list_ex (\<lambda>f. in_subtree target f \<and> fd_closed f) (fs_folds v))
          in (True, folds_changed (set_closed (in_subtree target) closed v)))"

definition open_all_folds :: "fold_view \<Rightarrow> fold_view" where
  "open_all_folds v =
     (if list_ex fd_closed (fs_folds v) then folds_changed (set_closed fd_closed False v) else v)"

definition clear_all_folds :: "fold_view \<Rightarrow> fold_view" where
  "clear_all_folds v = (if fs_folds v \<noteq> [] then folds_changed (v\<lparr>fs_folds := []\<rparr>) else v)"

definition close_all_folds :: "fold_view \<Rightarrow> fold_view" where
  "close_all_folds v =
     (if list_ex (Not \<circ> fd_closed) (fs_folds v) then folds_changed (set_closed (Not \<circ> fd_closed) True v) else v)"

definition fold_at_row :: "nat \<Rightarrow> fold_view \<Rightarrow> fold option" where
  "fold_at_row row v = map_option (\<lambda>idx. fs_folds v ! idx) (innermost_containing_fold_index (fs_folds v) row)"

definition is_row_hidden :: "nat \<Rightarrow> fold_view \<Rightarrow> bool" where
  "is_row_hidden row v \<longleftrightarrow> list_ex (\<lambda>f. hides f row) (fs_folds v)"

definition open_folds_where :: "(fold \<Rightarrow> bool) \<Rightarrow> fold_view \<Rightarrow> bool \<times> fold_view" where
  "open_folds_where P v =
     (if list_ex P (fs_folds v) then (True, folds_changed (set_closed P False v)) else (False, v))"

definition reveal_row :: "nat \<Rightarrow> fold_view \<Rightarrow> bool \<times> fold_view" where
  "reveal_row row = open_folds_where (\<lambda>f. hides f row)"

definition open_folds_containing :: "nat \<Rightarrow> fold_view \<Rightarrow> bool \<times> fold_view" where
  "open_folds_containing row = open_folds_where (\<lambda>f. fd_closed f \<and> contains f row)"

section \<open>Walking over visible rows\<close>

definition last_content_row :: "fold_view \<Rightarrow> nat" where
  "last_content_row v =
     (let raw_last = row_count v - 1 in
      if raw_last > 0 \<and> fs_lines v ! raw_last = 0 then raw_last - 1 else raw_last)"

function skip_down :: "fold_index \<Rightarrow> nat \<Rightarrow> nat \<Rightarrow> nat" where
  "skip_down index bottom r = (if r \<le> bottom \<and> hides_row index r then skip_down index bottom (r + 1) else r)"
  by pat_completeness auto

termination skip_down by (relation "measure (\<lambda>(index, bottom, r). Suc bottom - r)") auto

definition next_visible_row :: "nat \<Rightarrow> fold_view \<Rightarrow> nat option" where
  "next_visible_row row v =
     (let last = last_content_row v in
      if last = 0 \<and> row = 0 then None
      else let r = skip_down (fold_index_new (fs_folds v)) last (row + 1) in
        if r \<le> last then Some r else None)"

fun skip_up :: "fold_index \<Rightarrow> nat \<Rightarrow> nat option" where
  "skip_up index 0 = (if hides_row index 0 then None else Some 0)"
| "skip_up index (Suc r) = (if hides_row index (Suc r) then skip_up index r else Some (Suc r))"

fun prev_visible_row :: "nat \<Rightarrow> fold_view \<Rightarrow> nat option" where
  "prev_visible_row 0 v = None"
| "prev_visible_row (Suc r) v = skip_up (fold_index_new (fs_folds v)) r"

section \<open>Keeping folds, marks and jumps at their text\<close>

definition invalidate_folds :: "nat \<Rightarrow> nat \<Rightarrow> fold list \<Rightarrow> fold list" where
  "invalidate_folds start_row end_row = filter (\<lambda>f. fd_end f < start_row \<or> fd_start f > end_row)"

definition invalidate_folds_in_range :: "nat \<Rightarrow> nat \<Rightarrow> fold_view \<Rightarrow> fold_view" where
  "invalidate_folds_in_range start_row end_row v =
     (let folds = invalidate_folds start_row end_row (fs_folds v);
          v' = v\<lparr>fs_folds := folds\<rparr>
      in if length folds \<noteq> length (fs_folds v) then folds_changed v' else v')"

definition map_row :: "nat \<Rightarrow> nat \<Rightarrow> nat \<Rightarrow> int \<Rightarrow> nat \<Rightarrow> nat option" where
  "map_row edit_start drop_end shift_threshold delta row =
     (if edit_start \<le> row \<and> row < drop_end then None
      else if row \<ge> shift_threshold then Some (nat (max (int row + delta) 0))
      else Some row)"

definition shift_fold :: "nat \<Rightarrow> nat \<Rightarrow> nat \<Rightarrow> int \<Rightarrow> fold \<Rightarrow> fold option" where
  "shift_fold edit_start drop_end shift_threshold delta f =
     (if delta = 0 then Some f
      else
        let mapped_start = map_row edit_start drop_end shift_threshold delta (fd_start f);
            mapped_end = map_row edit_start drop_end shift_threshold delta (fd_end f)
        in if mapped_start = None \<and> mapped_end = None then None
        else
          let new_start = (case mapped_start of Some r \<Rightarrow> r | None \<Rightarrow> edit_start);
              new_end = (case mapped_end of Some r \<Rightarrow> r | None \<Rightarrow> edit_start - 1)
          in if new_end < new_start then None
          else Some \<lparr>fd_start = new_start, fd_end = new_end, fd_closed = fd_closed f, fd_auto = fd_auto f\<rparr>)"

definition shift_folds_after_edit :: "nat \<Rightarrow> nat \<Rightarrow> nat \<Rightarrow> int \<Rightarrow> fold list \<Rightarrow> fold list" where
  "shift_folds_after_edit edit_start drop_end shift_threshold delta folds =
     (if delta = 0 then folds
      else dedup_key fold_range (sort_folds
        (List.map_filter (shift_fold edit_start drop_end shift_threshold delta) folds)))"

definition rebase_folds :: "nat \<Rightarrow> nat \<Rightarrow> nat \<Rightarrow> int \<Rightarrow> fold_view \<Rightarrow> fold_view" where
  "rebase_folds edit_start drop_end shift_threshold delta v =
     (if delta = 0 then v
      else if fs_folds v = [] then v
      else fold_gen_bump (v\<lparr>fs_folds :=
        shift_folds_after_edit edit_start drop_end shift_threshold delta (fs_folds v)\<rparr>))"

definition set_folds :: "fold list \<Rightarrow> fold_view \<Rightarrow> fold_view" where
  "set_folds folds v =
     (let folds = dedup_key fold_range (sort_folds folds) in
      if fs_folds v = folds then v else folds_changed (v\<lparr>fs_folds := folds\<rparr>))"

section \<open>Providers and the dispatch of fold operations\<close>

text \<open>
  The snapshot that the vertical motions walk over and the dispatch of \<open>FoldOp\<close>
  (\<open>crates/hjkl-engine/src/buffer_impl.rs\<close>); \<open>apply_fold_op\<close> of the editor also moves
  the cursor out of the rows an operation has hidden.
\<close>

record snapshot =
  sp_folds :: "fold list"
  sp_index :: fold_index
  sp_rows :: nat

definition snapshot_from :: "fold_view \<Rightarrow> snapshot" where
  "snapshot_from v = \<lparr>sp_folds = fs_folds v, sp_index = fold_index_new (fs_folds v),
     sp_rows = last_content_row v + 1\<rparr>"

definition snapshot_next_visible_row :: "nat \<Rightarrow> snapshot \<Rightarrow> nat option" where
  "snapshot_next_visible_row row s =
     (let bottom = sp_rows s - 1 in
      if bottom = 0 \<and> row = 0 then None
      else let r = skip_down (sp_index s) bottom (row + 1) in if r \<le> bottom then Some r else None)"

fun snapshot_prev_visible_row :: "nat \<Rightarrow> snapshot \<Rightarrow> nat option" where
  "snapshot_prev_visible_row 0 s = None"
| "snapshot_prev_visible_row (Suc r) s = skip_up (sp_index s) r"

definition snapshot_is_row_hidden :: "nat \<Rightarrow> snapshot \<Rightarrow> bool" where
  "snapshot_is_row_hidden row s = hides_row (sp_index s) row"

definition snapshot_fold_at_row :: "nat \<Rightarrow> snapshot \<Rightarrow> (nat \<times> nat \<times> bool) option" where
  "snapshot_fold_at_row row s =
     map_option (\<lambda>f. (fd_start f, fd_end f, fd_closed f)) (find (\<lambda>f. contains f row) (sp_folds s))"

datatype fold_op = Add nat nat bool | RemoveAt nat | OpenAt nat | CloseAt nat | ToggleAt nat
  | OpenRecursivelyAt nat | CloseRecursivelyAt nat | ToggleRecursivelyAt nat
  | OpenAll | CloseAll | ClearAll | Invalidate nat nat

fun apply_op :: "fold_op \<Rightarrow> fold_view \<Rightarrow> fold_view" where
  "apply_op (Add s e c) v = add_fold s e c v"
| "apply_op (RemoveAt row) v = snd (remove_fold_at row v)"
| "apply_op (OpenAt row) v = snd (open_fold_at row v)"
| "apply_op (CloseAt row) v = snd (close_fold_at row v)"
| "apply_op (ToggleAt row) v = snd (toggle_fold_at row v)"
| "apply_op (OpenRecursivelyAt row) v = snd (open_folds_recursively_at row v)"
| "apply_op (CloseRecursivelyAt row) v = snd (close_folds_recursively_at row v)"
| "apply_op (ToggleRecursivelyAt row) v = snd (toggle_folds_recursively_at row v)"
| "apply_op OpenAll v = open_all_folds v"
| "apply_op CloseAll v = close_all_folds v"
| "apply_op ClearAll v = clear_all_folds v"
| "apply_op (Invalidate s e) v = invalidate_folds_in_range s e v"

text \<open>The editor as far as a fold operation changes it; positions pass through \<open>u32\<close>.\<close>

record fold_editor =
  fe_view :: fold_view
  fe_ops :: "fold_op list"
  fe_cursor :: "nat \<times> nat"
  fe_sticky :: "nat option"

definition as_u32 :: "nat \<Rightarrow> nat" where
  "as_u32 n = unat (of_nat n :: 32 word)"

text \<open>\<open>min_by_key\<close>: of equal minima the first.\<close>

fun min_start :: "fold list \<Rightarrow> fold option" where
  "min_start [] = None"
| "min_start (f # fs) =
     (case min_start fs of
        None \<Rightarrow> Some f
      | Some g \<Rightarrow> if fd_start f \<le> fd_start g then Some f else Some g)"

fun snap_row :: "nat \<Rightarrow> fold list \<Rightarrow> nat \<Rightarrow> bool \<Rightarrow> nat \<times> bool" where
  "snap_row 0 folds row snapped = (row, snapped)"
| "snap_row (Suc k) folds row snapped =
     (case min_start (filter (\<lambda>f. hides f row) folds) of
        None \<Rightarrow> (row, snapped)
      | Some f \<Rightarrow> snap_row k folds (fd_start f) True)"

definition apply_fold_op :: "fold_op \<Rightarrow> fold_editor \<Rightarrow> fold_editor" where
  "apply_fold_op op ed =
     (let ed = ed\<lparr>fe_ops := fe_ops ed @ [op]\<rparr>;
          ed = ed\<lparr>fe_view := apply_op op (fe_view ed)\<rparr>;
          folds = fs_folds (fe_view ed);
          (row, snapped) = snap_row (length folds + 1) folds (as_u32 (fst (fe_cursor ed))) False
      in if snapped
         then ed\<lparr>fe_cursor := (min (as_u32 row) (row_count (fe_view ed) - 1), 0), fe_sticky := Some 0\<rparr>
         else ed)"

section \<open>Marks and jumps\<close>

type_synonym mark_map = "(rchar \<times> nat \<times> nat) list"

definition rebase_marks :: "nat \<Rightarrow> nat \<Rightarrow> nat \<Rightarrow> int \<Rightarrow> mark_map \<Rightarrow> mark_map" where
  "rebase_marks edit_start drop_end shift_threshold delta =
     List.map_filter (\<lambda>(ch, row, col).
       map_option (\<lambda>r. (ch, r, col)) (map_row edit_start drop_end shift_threshold delta row))"

type_synonym global_marks = "(rchar \<times> nat \<times> nat \<times> nat) list"

definition shift_global_marks :: "nat \<Rightarrow> nat \<Rightarrow> nat \<Rightarrow> int \<Rightarrow> nat \<Rightarrow> global_marks \<Rightarrow> global_marks" where
  "shift_global_marks edit_start drop_end shift_threshold delta cur_bid =
     List.map_filter (\<lambda>(ch, bid, row, col).
       if bid \<noteq> cur_bid then Some (ch, bid, row, col)
       else map_option (\<lambda>r. (ch, bid, r, col)) (map_row edit_start drop_end shift_threshold delta row))"

definition shift_jumps :: "nat \<Rightarrow> nat \<Rightarrow> nat \<Rightarrow> int \<Rightarrow> (nat \<times> nat) list \<Rightarrow> (nat \<times> nat) list" where
  "shift_jumps edit_start drop_end shift_threshold delta entries =
     map (\<lambda>(row, col). (if row \<ge> shift_threshold then nat (max (int row + delta) 0) else row, col))
       (filter (\<lambda>(row, col). \<not> (edit_start \<le> row \<and> row < drop_end)) entries)"

record positions =
  ps_view :: fold_view
  ps_marks :: mark_map
  ps_globals :: global_marks
  ps_jump_back :: "(nat \<times> nat) list"
  ps_jump_fwd :: "(nat \<times> nat) list"

definition shift_marks_after_edit :: "nat \<Rightarrow> nat \<Rightarrow> int \<Rightarrow> positions \<Rightarrow> positions" where
  "shift_marks_after_edit cur_bid edit_start delta p =
     (if delta = 0 then p
      else
        let drop_end = (if delta < 0 then edit_start + nat (- delta) else edit_start);
            shift_threshold = max drop_end (edit_start + 1)
        in p\<lparr>ps_marks := rebase_marks edit_start drop_end shift_threshold delta (ps_marks p),
             ps_view := rebase_folds edit_start drop_end shift_threshold delta (ps_view p),
             ps_globals := shift_global_marks edit_start drop_end shift_threshold delta cur_bid (ps_globals p),
             ps_jump_back := shift_jumps edit_start drop_end shift_threshold delta (ps_jump_back p),
             ps_jump_fwd := shift_jumps edit_start drop_end shift_threshold delta (ps_jump_fwd p)\<rparr>)"

end
