(* ===== verification/FoldLaws.thy ===== *)
theory FoldLaws
  imports Folds
begin

text \<open>
  Laws of the folds: the canonical order as an invariant of every operation, the merged
  index against the plain scan, the walks over visible rows, automatic folds, the snapping
  of the cursor, and the shift of folds, marks and jumps with the text of an edit.
\<close>

section \<open>Canonical lists\<close>

definition strict_by :: "('a \<Rightarrow> 'k::linorder) \<Rightarrow> 'a list \<Rightarrow> bool" where
  "strict_by k xs \<longleftrightarrow> sorted_wrt (<) (map k xs)"

lemma strict_by_simps [simp]:
  "strict_by k []" "strict_by k (x # xs) \<longleftrightarrow> (\<forall>y \<in> set xs. k x < k y) \<and> strict_by k xs"
  "strict_by k (xs @ ys) \<longleftrightarrow> strict_by k xs \<and> strict_by k ys \<and> (\<forall>x \<in> set xs. \<forall>y \<in> set ys. k x < k y)"
  by (auto simp: strict_by_def sorted_wrt_append)

lemma strict_by_filter: "strict_by k xs \<Longrightarrow> strict_by k (filter P xs)"
  by (induction xs) auto

lemma strict_by_key: "strict_by k xs \<Longrightarrow> map k xs = map k' ys \<Longrightarrow> strict_by k' ys"
  by (simp add: strict_by_def)

lemma strict_by_distinct: "strict_by k xs \<Longrightarrow> distinct (map k xs)"
  by (simp add: strict_by_def strict_sorted_iff)

lemma strict_by_inj: "strict_by k xs \<Longrightarrow> x \<in> set xs \<Longrightarrow> y \<in> set xs \<Longrightarrow> k x = k y \<Longrightarrow> x = y"
  using strict_by_distinct [of k xs] by (auto simp: distinct_map dest: inj_onD)

lemma strict_by_unique:
  "strict_by k xs \<Longrightarrow> strict_by k ys \<Longrightarrow> set xs = set ys \<Longrightarrow> xs = ys"
proof (induction xs arbitrary: ys)
  case (Cons x xs)
  then obtain y ys' where ys: "ys = y # ys'" by (cases ys) auto
  have "x = y"
  proof (rule ccontr)
    assume "x \<noteq> y"
    then have "x \<in> set ys'" "y \<in> set xs" using Cons.prems(3) ys by auto
    then show False using Cons.prems(1,2) ys by (auto dest: less_asym)
  qed
  moreover have "set xs = set ys'"
    using Cons.prems(3) ys \<open>x = y\<close> strict_by_distinct [OF Cons.prems(1)] strict_by_distinct [OF Cons.prems(2)]
    by (auto simp: distinct_map)
  ultimately show ?case using Cons ys by simp
qed simp

lemma dedup_key_set: "set (dedup_key k xs) \<subseteq> set xs"
  by (induction k xs rule: dedup_key.induct) auto

lemma dedup_key_keys: "k ` set (dedup_key k xs) = k ` set xs"
  by (induction k xs rule: dedup_key.induct) auto

lemma dedup_key_strict:
  "sorted (map g xs) \<Longrightarrow> (\<And>x y. k x = k y \<longleftrightarrow> g x = g y) \<Longrightarrow> strict_by g (dedup_key k xs)"
proof (induction k xs rule: dedup_key.induct)
  case (1 k x y xs)
  show ?case
  proof (cases "k x = k y")
    case True
    then show ?thesis using 1 by simp
  next
    case False
    have "g x < g z" if "z \<in> set (dedup_key k (y # xs))" for z
    proof -
      have "z \<in> set (y # xs)" using dedup_key_set that by fast
      then have "g y \<le> g z" using "1.prems"(1) by auto
      moreover have "g x \<noteq> g y" using "1.prems"(2) False by blast
      moreover have "g x \<le> g y" using "1.prems"(1) by simp
      ultimately show ?thesis by order
    qed
    then show ?thesis using 1 False by simp
  qed
qed simp_all

text \<open>The canonical order of folds.\<close>

lemma range_key_inj [simp]: "range_key s e = range_key s' e' \<longleftrightarrow> s = s' \<and> e = e'"
  by (auto simp: range_key_def)

lemma range_key_less: "range_key s e < range_key s' e' \<longleftrightarrow> s < s' \<or> (s = s' \<and> e' < e)"
  by (auto simp: range_key_def)

lemma range_key_le: "range_key s e \<le> range_key s' e' \<longleftrightarrow> s < s' \<or> (s = s' \<and> e' \<le> e)"
  by (auto simp: range_key_def)

lemma compare_folds_key: "compare_folds f g = cmp (fold_key f) (fold_key g)"
  by (auto simp: compare_folds_def cmp_def range_key_less split: ordering.splits)

lemma cmp_Less [simp]: "cmp x y = Less \<longleftrightarrow> x < y"
  by (auto simp: cmp_def)

definition folds_ok :: "fold list \<Rightarrow> bool" where
  "folds_ok fs \<longleftrightarrow> strict_by fold_key fs \<and> (\<forall>f \<in> set fs. fd_start f \<le> fd_end f)"

lemma folds_okI: "strict_by fold_key fs \<Longrightarrow> (\<And>f. f \<in> set fs \<Longrightarrow> fd_start f \<le> fd_end f) \<Longrightarrow> folds_ok fs"
  by (simp add: folds_ok_def)

lemma folds_okD: "folds_ok fs \<Longrightarrow> strict_by fold_key fs" "folds_ok fs \<Longrightarrow> f \<in> set fs \<Longrightarrow> fd_start f \<le> fd_end f"
  by (simp_all add: folds_ok_def)

lemma folds_ok_filter: "folds_ok fs \<Longrightarrow> folds_ok (filter P fs)"
  by (simp add: folds_ok_def strict_by_filter)

lemma folds_ok_ranges:
  assumes "folds_ok fs" and "map fold_range fs = map fold_range gs"
  shows "folds_ok gs"
proof (rule folds_okI)
  have "map fold_key fs = map (\<lambda>(s, e). range_key s e) (map fold_range fs)" by simp
  also have "\<dots> = map fold_key gs" unfolding assms(2) by simp
  finally show "strict_by fold_key gs" using strict_by_key folds_okD(1) [OF assms(1)] by blast
  fix g
  assume "g \<in> set gs"
  then have "fold_range g \<in> set (map fold_range fs)" unfolding assms(2) by simp
  then show "fd_start g \<le> fd_end g" using folds_okD(2) [OF assms(1)] by auto
qed

lemma folds_ok_remove: "folds_ok fs \<Longrightarrow> folds_ok (take i fs @ drop (Suc i) fs)"
proof (cases "i < length fs")
  case True
  assume ok: "folds_ok fs"
  have "fs = take i fs @ fs ! i # drop (Suc i) fs" using id_take_nth_drop [OF True] .
  then have "strict_by fold_key (take i fs @ fs ! i # drop (Suc i) fs)" using folds_okD(1) [OF ok] by simp
  moreover have "set (take i fs @ drop (Suc i) fs) \<subseteq> set fs" by (auto dest: in_set_takeD in_set_dropD)
  ultimately show ?thesis using folds_okD(2) [OF ok] by (intro folds_okI) auto
qed simp

lemma folds_ok_dedup:
  "(\<And>f. f \<in> set fs \<Longrightarrow> fd_start f \<le> fd_end f) \<Longrightarrow> folds_ok (dedup_key fold_range (sort_folds fs))"
proof (rule folds_okI)
  show "strict_by fold_key (dedup_key fold_range (sort_folds fs))"
    by (rule dedup_key_strict) (simp_all add: sort_folds_def)
qed (use dedup_key_set [of fold_range "sort_folds fs"] in \<open>auto simp: sort_folds_def\<close>)

section \<open>The index of hidden rows\<close>

definition index_wf :: "fold_index \<Rightarrow> bool" where
  "index_wf rs \<longleftrightarrow> sorted_wrt (\<lambda>a b. fst a \<le> fst b \<and> snd a < fst b) rs"

definition covers :: "fold_index \<Rightarrow> nat \<Rightarrow> bool" where
  "covers rs row \<longleftrightarrow> (\<exists>r \<in> set rs. fst r < row \<and> row \<le> snd r)"

lemma push_range_spec:
  assumes "index_wf rs" and "\<forall>x \<in> set rs. fst x \<le> fst r"
  shows "index_wf (push_range rs r) \<and> (\<forall>x \<in> set (push_range rs r). fst x \<le> fst r) \<and>
    (covers (push_range rs r) row \<longleftrightarrow> covers rs row \<or> (fst r < row \<and> row \<le> snd r))"
proof (cases rs rule: rev_cases)
  case Nil
  then show ?thesis by (auto simp: push_range_def index_wf_def covers_def)
next
  case (snoc ys l)
  show ?thesis
  proof (cases "fst r \<le> snd l")
    case True
    have "index_wf (ys @ [(fst l, max (snd l) (snd r))])"
      using assms(1) snoc by (auto simp: index_wf_def sorted_wrt_append)
    moreover have "fst l \<le> fst r" using assms(2) snoc by simp
    ultimately show ?thesis using assms(2) snoc True by (auto simp: push_range_def covers_def)
  next
    case False
    have "sorted_wrt (\<lambda>a b. fst a \<le> fst b \<and> snd a < fst b) ys"
      "\<And>x. x \<in> set ys \<Longrightarrow> fst x \<le> fst l \<and> snd x < fst l" "fst l \<le> fst r"
      using assms snoc by (auto simp: index_wf_def sorted_wrt_append)
    then have "index_wf (ys @ [l, r])"
      using False assms(2) snoc by (force simp: index_wf_def sorted_wrt_append)
    then show ?thesis using assms(2) snoc False by (auto simp: push_range_def covers_def)
  qed
qed

lemma push_ranges_spec:
  assumes "index_wf rs" and "sorted (map fst rs')" and "\<forall>x \<in> set rs. \<forall>y \<in> set rs'. fst x \<le> fst y"
  shows "index_wf (foldl push_range rs rs') \<and>
    (covers (foldl push_range rs rs') row \<longleftrightarrow> covers rs row \<or> covers rs' row)"
  using assms
proof (induction rs' arbitrary: rs)
  case (Cons r rs')
  have P: "index_wf (push_range rs r)" "\<forall>x \<in> set (push_range rs r). fst x \<le> fst r"
    "covers (push_range rs r) row \<longleftrightarrow> covers rs row \<or> (fst r < row \<and> row \<le> snd r)"
    using push_range_spec [of rs r] Cons.prems by auto
  have "\<forall>x \<in> set (push_range rs r). \<forall>y \<in> set rs'. fst x \<le> fst y"
    using P(2) Cons.prems(2) by fastforce
  from Cons.IH [OF P(1) _ this] P(3) Cons.prems(2) show ?case by (auto simp: covers_def)
qed (simp add: covers_def)

lemma hides_row_covers:
  assumes "index_wf rs"
  shows "hides_row rs row \<longleftrightarrow> covers rs row"
proof -
  define k where "k = partition_point (\<lambda>r. fst r \<le> row) rs"
  have k: "k \<le> length rs" "\<And>i. i < k \<Longrightarrow> fst (rs ! i) \<le> row" "k < length rs \<Longrightarrow> row < fst (rs ! k)"
    using length_takeWhile_le [of "\<lambda>r. fst r \<le> row" rs] nth_length_takeWhile [of "\<lambda>r. fst r \<le> row" rs]
      takeWhile_nth [of _ "\<lambda>r. fst r \<le> row" rs] set_takeWhileD [of _ "\<lambda>r. fst r \<le> row" rs] nth_mem
    unfolding k_def partition_point_def by (metis, metis, metis not_le)
  have later: "\<not> (fst (rs ! i) < row)" if "k \<le> i" "i < length rs" for i
  proof (cases "i = k")
    case False
    then have "fst (rs ! k) \<le> fst (rs ! i)"
      using assms that unfolding index_wf_def by (auto simp: sorted_wrt_iff_nth_less)
    then show ?thesis using k(3) that by simp
  qed (use k(3) that in simp)
  have earlier: "\<not> row \<le> snd (rs ! i)" if "i < k - 1" for i
  proof -
    have "snd (rs ! i) < fst (rs ! (k - 1))"
      using assms that k(1) unfolding index_wf_def by (auto simp: sorted_wrt_iff_nth_less)
    then show ?thesis using k(2) [of "k - 1"] that by simp
  qed
  show ?thesis
  proof (cases "k = 0")
    case True
    then have "\<not> fst r < row" if "r \<in> set rs" for r using later that by (auto simp only: in_set_conv_nth)
    then have "\<not> covers rs row" by (auto simp: covers_def)
    then show ?thesis using True by (simp add: hides_row_def k_def [symmetric])
  next
    case False
    have "covers rs row \<longleftrightarrow> fst (rs ! (k - 1)) < row \<and> row \<le> snd (rs ! (k - 1))"
    proof
      assume "covers rs row"
      then obtain i where i: "i < length rs" "fst (rs ! i) < row" "row \<le> snd (rs ! i)"
        by (auto simp: covers_def in_set_conv_nth)
      then have "i < k" "\<not> i < k - 1" using later earlier by (meson not_le)+
      then have "i = k - 1" by simp
      then show "fst (rs ! (k - 1)) < row \<and> row \<le> snd (rs ! (k - 1))" using i by simp
    next
      assume "fst (rs ! (k - 1)) < row \<and> row \<le> snd (rs ! (k - 1))"
      then show "covers rs row" using False k(1) by (auto simp: covers_def intro!: bexI [of _ "rs ! (k - 1)"])
    qed
    then show ?thesis using False by (auto simp: hides_row_def k_def [symmetric] split: prod.splits)
  qed
qed

lemma strict_starts: "strict_by fold_key fs \<Longrightarrow> sorted (map fd_start fs)"
  by (induction fs) (auto simp: range_key_less)

lemma hides_row_index:
  assumes "folds_ok folds"
  shows "hides_row (fold_index_new folds) row \<longleftrightarrow> (\<exists>f \<in> set folds. hides f row)"
proof -
  let ?rs = "map fold_range (filter fd_closed folds)"
  have "sorted (map fst ?rs)"
    using strict_starts [OF strict_by_filter [OF folds_okD(1) [OF assms]]] by (simp add: comp_def)
  then have "index_wf (fold_index_new folds)" "covers (fold_index_new folds) row \<longleftrightarrow> covers ?rs row"
    using push_ranges_spec [of "[]" ?rs row] by (simp_all add: fold_index_new_def index_wf_def covers_def)
  then show ?thesis by (auto simp: hides_row_covers covers_def hides_def)
qed

text \<open>
  C11: On a canonical fold list the index of merged ranges with its binary search answers
  every query as the scan over all folds does, nested and overlapping folds included.
\<close>

theorem fold_index_correct:
  assumes "folds_ok (fs_folds v)"
  shows "hides_row (fold_index_new (fs_folds v)) row \<longleftrightarrow> is_row_hidden row v"
  using hides_row_index [OF assms] by (simp add: is_row_hidden_def list_ex_iff)

definition nested_view :: fold_view where
  "nested_view = \<lparr>fs_folds = [\<lparr>fd_start = 1, fd_end = 8, fd_closed = True, fd_auto = False\<rparr>,
       \<lparr>fd_start = 2, fd_end = 4, fd_closed = True, fd_auto = False\<rparr>],
     fs_gen = 0, fs_dirty = 0, fs_lines = replicate 10 1\<rparr>"

lemma nested_ok: "folds_ok (fs_folds nested_view)"
  by (simp add: nested_view_def folds_ok_def range_key_less)

theorem fold_index_correct_witness:
  "hides_row (fold_index_new (fs_folds nested_view)) 6 \<and> is_row_hidden 6 nested_view"
  using fold_index_correct [OF nested_ok, of 6] by (simp add: is_row_hidden_def nested_view_def hides_def)

section \<open>Every operation keeps the canonical order\<close>

text \<open>What a fold mutator may do: nothing, or publish a canonical list with new generations.\<close>

definition starts_kept :: "fold_view \<Rightarrow> fold list \<Rightarrow> bool" where
  "starts_kept v fs \<longleftrightarrow>
     fd_start ` set fs \<subseteq> fd_start ` set (fs_folds v) \<union> {.. row_count v - 1}"

lemma starts_kept_ranges: "map fold_range fs = map fold_range (fs_folds v) \<Longrightarrow> starts_kept v fs"
proof -
  assume "map fold_range fs = map fold_range (fs_folds v)"
  then have "fst ` set (map fold_range fs) = fst ` set (map fold_range (fs_folds v))" by (rule arg_cong)
  then have "fd_start ` set fs = fd_start ` set (fs_folds v)" by (simp add: image_image)
  then show ?thesis by (simp add: starts_kept_def)
qed

lemma starts_kept_sub: "set fs \<subseteq> set (fs_folds v) \<Longrightarrow> starts_kept v fs"
  by (auto simp: starts_kept_def)

definition published :: "fold_view \<Rightarrow> fold_view \<Rightarrow> bool" where
  "published v v' \<longleftrightarrow> v' = v \<or>
     (\<exists>fs. folds_ok fs \<and> starts_kept v fs \<and> v' = folds_changed (v\<lparr>fs_folds := fs\<rparr>))"

lemma published_same [simp]: "published v v"
  by (simp add: published_def)

lemma published_change: "folds_ok fs \<Longrightarrow> starts_kept v fs \<Longrightarrow> published v (folds_changed (v\<lparr>fs_folds := fs\<rparr>))"
  by (auto simp: published_def)

lemma folds_changed_simps [simp]:
  "fs_folds (folds_changed v) = fs_folds v" "fs_lines (folds_changed v) = fs_lines v"
  "fs_gen (folds_changed v) = fs_gen v + 1" "fs_dirty (folds_changed v) = fs_dirty v + 1"
  by (simp_all add: folds_changed_def fold_gen_bump_def)

lemma update_ranges:
  assumes "fold_range f = fold_range (fs ! i)"
  shows "map fold_range (fs[i := f]) = map fold_range fs"
  using assms by (cases "i < length fs") (simp_all add: map_update list_update_same_conv list_update_beyond)

lemma ranges_published:
  assumes "folds_ok (fs_folds v)" and "map fold_range fs = map fold_range (fs_folds v)"
  shows "published v (folds_changed (v\<lparr>fs_folds := fs\<rparr>))"
  by (rule published_change [OF folds_ok_ranges [OF assms(1) assms(2) [symmetric]] starts_kept_ranges [OF assms(2)]])

lemma update_published:
  assumes "folds_ok (fs_folds v)" and "fold_range f = fold_range (fs_folds v ! i)"
  shows "published v (folds_changed (v\<lparr>fs_folds := (fs_folds v)[i := f]\<rparr>))"
  by (rule ranges_published [OF assms(1) update_ranges [OF assms(2)]])

lemma set_closed_published: "folds_ok (fs_folds v) \<Longrightarrow> published v (folds_changed (set_closed P c v))"
  unfolding set_closed_def by (rule ranges_published) simp_all

lemma partition_insert:
  assumes "strict_by k xs" and "\<And>x. x \<in> set xs \<Longrightarrow> k x \<noteq> k y" and n: "n = length (takeWhile (\<lambda>x. k x < k y) xs)"
  shows "strict_by k (take n xs @ y # drop n xs)"
proof -
  have t: "take n xs = takeWhile (\<lambda>x. k x < k y) xs" and d: "drop n xs = dropWhile (\<lambda>x. k x < k y) xs"
    unfolding n by (simp_all add: takeWhile_eq_take [symmetric] dropWhile_eq_drop [symmetric])
  have low: "k x < k y" if "x \<in> set (take n xs)" for x using that unfolding t by (auto dest: set_takeWhileD)
  have high: "k y < k x" if "x \<in> set (drop n xs)" for x
  proof (cases "dropWhile (\<lambda>x. k x < k y) xs")
    case Nil
    then show ?thesis using that unfolding d Nil by simp
  next
    case (Cons z zs)
    then have z: "\<not> k z < k y" "z \<in> set xs" by (simp_all add: dropWhile_eq_Cons_conv) (metis Cons list.set_intros(1) set_dropWhileD)
    have "strict_by k (z # zs)" using assms(1) append_take_drop_id [of n xs] Cons d by (metis strict_by_simps(3))
    then have "k z \<le> k x" using that Cons d by (auto intro: less_imp_le)
    then show ?thesis using z assms(2) [OF z(2)] by order
  qed
  have "strict_by k (take n xs @ drop n xs)" using assms(1) by simp
  then have "strict_by k (take n xs)" "strict_by k (drop n xs)" unfolding strict_by_simps(3) by blast+
  moreover have "k a < k b" if "a \<in> set (take n xs)" "b \<in> set (drop n xs)" for a b
    using low [OF that(1)] high [OF that(2)] by order
  ultimately show ?thesis using low high by auto
qed

lemma position_None: "position P xs = None \<longleftrightarrow> (\<forall>x \<in> set xs. \<not> P x)"
  by (induction xs) auto

lemma position_Some: "position P xs = Some i \<Longrightarrow> i < length xs \<and> P (xs ! i)"
  by (induction xs arbitrary: i) (auto split: if_splits)

lemma add_fold_published:
  assumes "folds_ok (fs_folds v)"
  shows "published v (add_fold s e c v)"
proof (cases "e < s \<or> s > row_count v - 1")
  case False
  let ?e = "min e (row_count v - 1)"
  let ?f = "\<lparr>fd_start = s, fd_end = ?e, fd_closed = c, fd_auto = False\<rparr>" and ?fs = "fs_folds v"
  show ?thesis
  proof (cases "position (\<lambda>g. fold_range g = (s, ?e)) ?fs")
    case (Some i)
    then have "fold_range ?f = fold_range (?fs ! i)" using position_Some [OF Some] by simp
    from update_published [OF assms this]
    show ?thesis using False Some by (simp add: add_fold_def Let_def)
  next
    case None
    let ?n = "partition_point (\<lambda>g. compare_folds g ?f = Less) ?fs"
    have ne: "fold_key g \<noteq> fold_key ?f" if "g \<in> set ?fs" for g
      using None that by (auto simp: position_None)
    have n: "?n = length (takeWhile (\<lambda>g. fold_key g < fold_key ?f) ?fs)"
      by (simp add: partition_point_def compare_folds_key)
    have "strict_by fold_key (take ?n ?fs @ ?f # drop ?n ?fs)"
      by (rule partition_insert [OF folds_okD(1) [OF assms] ne n])
    moreover have "s \<le> ?e" using False by simp
    moreover have "set (take ?n ?fs @ ?f # drop ?n ?fs) \<subseteq> insert ?f (set ?fs)"
      by (auto dest: in_set_takeD in_set_dropD)
    ultimately have "folds_ok (take ?n ?fs @ ?f # drop ?n ?fs)"
      using folds_okD(2) [OF assms] by (intro folds_okI) auto
    moreover have "starts_kept v (take ?n ?fs @ ?f # drop ?n ?fs)"
      using False by (auto simp: starts_kept_def dest: in_set_takeD in_set_dropD)
    ultimately have "published v (folds_changed (v\<lparr>fs_folds := take ?n ?fs @ ?f # drop ?n ?fs\<rparr>))"
      by (rule published_change)
    then show ?thesis using False None by (simp add: add_fold_def Let_def)
  qed
qed (auto simp: add_fold_def Let_def)

text \<open>The fold that the single-fold commands pick.\<close>

lemma inner_le_trans: "inner_le f g \<Longrightarrow> inner_le g h \<Longrightarrow> inner_le f h"
  by (auto simp: inner_le_def)

lemma inner_le_total: "inner_le f g \<or> inner_le g f"
  by (auto simp: inner_le_def)

lemma inner_le_refl [simp]: "inner_le f f"
  by (simp add: inner_le_def)

lemma innermost_from_spec:
  "case innermost_from n fs row best of
     None \<Rightarrow> best = None \<and> (\<forall>f \<in> set fs. \<not> contains f row)
   | Some i \<Rightarrow> \<exists>h. (best = Some (i, h) \<or> (n \<le> i \<and> i < n + length fs \<and> fs ! (i - n) = h \<and> contains h row)) \<and>
       (\<forall>f \<in> set fs. contains f row \<longrightarrow> inner_le f h) \<and> (\<forall>j g. best = Some (j, g) \<longrightarrow> inner_le g h)"
proof (induction fs arbitrary: n best)
  case (Cons f fs)
  define best' where "best' = (if contains f row then
          (case best of None \<Rightarrow> Some (n, f) | Some (j, g) \<Rightarrow> if inner_le g f then Some (n, f) else best)
        else best)"
  have step: "innermost_from n (f # fs) row best = innermost_from (Suc n) fs row best'"
    by (simp add: best'_def)
  have b: "best' = None \<longleftrightarrow> best = None \<and> \<not> contains f row" by (auto simp: best'_def split: option.splits)
  have picked: "best' = Some (i, h) \<Longrightarrow> (best = Some (i, h) \<or> i = n \<and> h = f \<and> contains f row) \<and>
      (contains f row \<longrightarrow> inner_le f h) \<and> (\<forall>j g. best = Some (j, g) \<longrightarrow> inner_le g h)" for i h
    using inner_le_total [of f h] by (auto simp: best'_def split: option.splits if_splits)
  show ?case
  proof (cases "innermost_from (Suc n) fs row best'")
    case None
    then show ?thesis using Cons.IH [where n = "Suc n" and best = best'] b by (simp add: step)
  next
    case (Some i)
    obtain h where h: "best' = Some (i, h) \<or> (Suc n \<le> i \<and> i < Suc n + length fs \<and> fs ! (i - Suc n) = h \<and> contains h row)"
      "\<forall>f \<in> set fs. contains f row \<longrightarrow> inner_le f h" "\<forall>j g. best' = Some (j, g) \<longrightarrow> inner_le g h"
      using Cons.IH [where n = "Suc n" and best = best'] unfolding Some by auto
    have "best = Some (i, h) \<or> (n \<le> i \<and> i < n + length (f # fs) \<and> (f # fs) ! (i - n) = h \<and> contains h row)"
      using h(1) picked by (auto simp: nth_Cons')
    moreover have "(contains f row \<longrightarrow> inner_le f h) \<and> (\<forall>j g. best = Some (j, g) \<longrightarrow> inner_le g h)"
    proof (cases best')
      case None
      then show ?thesis using b by simp
    next
      case (Some p)
      obtain j g where p: "p = (j, g)" by (cases p)
      show ?thesis using picked [of j g] h(3) Some p inner_le_trans by blast
    qed
    ultimately show ?thesis using h(2) unfolding step Some by auto
  qed
qed (auto split: option.splits)

lemma innermost_spec:
  "innermost_containing_fold_index fs row = None \<longleftrightarrow> (\<forall>f \<in> set fs. \<not> contains f row)"
  "innermost_containing_fold_index fs row = Some i \<Longrightarrow> i < length fs \<and> contains (fs ! i) row \<and>
    (\<forall>f \<in> set fs. contains f row \<longrightarrow> inner_le f (fs ! i))"
proof -
  note s = innermost_from_spec [where n = 0 and fs = fs and row = row and best = None]
  show "innermost_containing_fold_index fs row = Some i \<Longrightarrow> i < length fs \<and> contains (fs ! i) row \<and>
    (\<forall>f \<in> set fs. contains f row \<longrightarrow> inner_le f (fs ! i))"
    using s by (auto simp: innermost_containing_fold_index_def)
  show "innermost_containing_fold_index fs row = None \<longleftrightarrow> (\<forall>f \<in> set fs. \<not> contains f row)"
  proof (cases "innermost_containing_fold_index fs row")
    case (Some i)
    then have "i < length fs" "contains (fs ! i) row"
      using s by (auto simp: innermost_containing_fold_index_def)
    then show ?thesis using Some nth_mem [of i fs] by auto
  qed (use s in \<open>simp add: innermost_containing_fold_index_def\<close>)
qed

lemma apply_op_published:
  assumes "folds_ok (fs_folds v)"
  shows "published v (apply_op op v)"
proof (cases op)
  case (Add s e c)
  then show ?thesis using add_fold_published [OF assms] by simp
next
  case (RemoveAt row)
  then show ?thesis
    using published_change [OF folds_ok_remove [OF assms] starts_kept_sub]
    by (auto simp: remove_fold_at_def dest: in_set_takeD in_set_dropD split: option.splits)
next
  case (Invalidate s e)
  let ?fs = "invalidate_folds s e (fs_folds v)"
  have "folds_ok ?fs" unfolding invalidate_folds_def by (rule folds_ok_filter [OF assms])
  moreover have "length ?fs = length (fs_folds v) \<Longrightarrow> ?fs = fs_folds v"
    unfolding invalidate_folds_def by (metis length_filter_less less_irrefl filter_True)
  ultimately show ?thesis
    using Invalidate published_change [OF _ starts_kept_sub, of ?fs v]
    by (auto simp: invalidate_folds_in_range_def invalidate_folds_def Let_def)
next
  case ClearAll
  then show ?thesis using published_change [of "[]" v] by (simp add: clear_all_folds_def folds_ok_def starts_kept_def)
qed (use update_published [OF assms] set_closed_published [OF assms]
  in \<open>auto simp: open_fold_at_def close_fold_at_def toggle_fold_at_def open_folds_recursively_at_def
    close_folds_recursively_at_def toggle_folds_recursively_at_def open_all_folds_def close_all_folds_def
    Let_def split: option.splits\<close>)

section \<open>Automatic folds\<close>

definition auto_fold :: "(nat \<times> nat \<Rightarrow> bool option) \<Rightarrow> nat \<Rightarrow> (nat \<times> nat) \<times> nat \<Rightarrow> fold" where
  "auto_fold prev lvl = (\<lambda>((s, e), level). \<lparr>fd_start = s, fd_end = e,
     fd_closed = (case prev (s, e) of Some c \<Rightarrow> c | None \<Rightarrow> level > lvl), fd_auto = True\<rparr>)"

definition prev_closed :: "fold_view \<Rightarrow> nat \<times> nat \<Rightarrow> bool option" where
  "prev_closed v = map_of (rev (map (\<lambda>f. (fold_range f, fd_closed f)) (filter fd_auto (fs_folds v))))"

definition manual_folds :: "fold_view \<Rightarrow> fold list" where
  "manual_folds v = filter (Not \<circ> fd_auto) (fs_folds v)"

definition auto_list :: "(nat \<times> nat) list \<Rightarrow> nat \<Rightarrow> fold_view \<Rightarrow> fold list" where
  "auto_list ranges lvl v =
     (let rs = auto_ranges ranges v in map (auto_fold (prev_closed v) lvl) (zip rs (nest_levels [] rs)))"

lemma set_auto_folds_alt:
  "set_auto_folds ranges lvl v =
     (let folds = sort_folds (manual_folds v @ auto_list ranges lvl v)
      in if fs_folds v = folds then v else folds_changed (v\<lparr>fs_folds := folds\<rparr>))"
  by (simp add: set_auto_folds_def Let_def auto_list_def auto_fold_def prev_closed_def manual_folds_def)

lemma nest_levels_length [simp]: "length (nest_levels stack rs) = length rs"
  by (induction stack rs rule: nest_levels.induct) (simp_all add: Let_def)

lemma auto_list_simps:
  "map fold_range (auto_list ranges lvl v) = auto_ranges ranges v" "f \<in> set (auto_list ranges lvl v) \<Longrightarrow> fd_auto f"
proof -
  have "fold_range \<circ> auto_fold (prev_closed v) lvl = fst" by (auto simp: auto_fold_def fun_eq_iff)
  then have "map fold_range (auto_list ranges lvl v) = map fst (zip (auto_ranges ranges v) (nest_levels [] (auto_ranges ranges v)))"
    by (simp add: auto_list_def Let_def)
  then show "map fold_range (auto_list ranges lvl v) = auto_ranges ranges v" by simp
  show "f \<in> set (auto_list ranges lvl v) \<Longrightarrow> fd_auto f" by (auto simp: auto_list_def Let_def auto_fold_def)
qed

definition pair_key :: "nat \<times> nat \<Rightarrow> nat \<times> int" where
  "pair_key p = range_key (fst p) (snd p)"

lemma pair_key_eq: "(\<lambda>(s, e). range_key s e) = pair_key"
  by (auto simp: pair_key_def)

lemma auto_ranges_spec:
  "strict_by pair_key (auto_ranges ranges v)"
  "(s, e) \<in> set (auto_ranges ranges v) \<longleftrightarrow> s < e \<and> s \<notin> fd_start ` set (manual_folds v) \<and>
     (\<exists>e'. (s, e') \<in> set ranges \<and> e = min e' (row_count v - 1))"
proof -
  let ?acc = "accepted (row_count v - 1) (fd_start ` set (manual_folds v)) ranges"
  have a: "auto_ranges ranges v = dedup_key id (sort_key (\<lambda>(s, e). range_key s e) ?acc)"
    by (simp add: auto_ranges_def manual_folds_def)
  show "strict_by pair_key (auto_ranges ranges v)"
    unfolding a pair_key_eq by (rule dedup_key_strict) (auto simp: pair_key_def)
  have "set (auto_ranges ranges v) = set ?acc"
    using dedup_key_keys [of id "sort_key (\<lambda>(s, e). range_key s e) ?acc"] by (simp add: a)
  then show "(s, e) \<in> set (auto_ranges ranges v) \<longleftrightarrow> s < e \<and> s \<notin> fd_start ` set (manual_folds v) \<and>
     (\<exists>e'. (s, e') \<in> set ranges \<and> e = min e' (row_count v - 1))"
    by (force simp: accepted_def)
qed

lemma strict_sort: "distinct (map k xs) \<Longrightarrow> strict_by k (sort_key k xs)"
proof -
  assume "distinct (map k xs)"
  then have "distinct (map k (sort_key k xs))" by (simp add: distinct_map)
  then show ?thesis by (simp add: strict_by_def strict_sorted_iff)
qed

lemma auto_keys_distinct:
  assumes "folds_ok (fs_folds v)"
  shows "distinct (map fold_key (manual_folds v @ auto_list ranges lvl v))"
proof -
  let ?M = "manual_folds v" and ?A = "auto_list ranges lvl v"
  have "strict_by fold_key ?M"
    unfolding manual_folds_def by (rule strict_by_filter [OF folds_okD(1) [OF assms]])
  moreover have "map fold_key ?A = map pair_key (map fold_range ?A)" by (simp add: pair_key_def)
  then have "strict_by fold_key ?A"
    using auto_ranges_spec(1) unfolding auto_list_simps(1) by (simp add: strict_by_def)
  moreover have "fold_key m \<noteq> fold_key a" if "m \<in> set ?M" "a \<in> set ?A" for m a
  proof -
    have "fold_range a \<in> set (map fold_range ?A)" using that(2) by simp
    then have "fd_start a \<notin> fd_start ` set ?M" unfolding auto_list_simps(1) using auto_ranges_spec(2) by blast
    then show ?thesis using that(1) by (metis imageI range_key_inj)
  qed
  ultimately show ?thesis using strict_by_distinct [of fold_key] by (fastforce simp: distinct_append)
qed

lemma auto_folds_ok:
  assumes "folds_ok (fs_folds v)"
  shows "folds_ok (sort_folds (manual_folds v @ auto_list ranges lvl v))"
proof (rule folds_okI)
  show "strict_by fold_key (sort_folds (manual_folds v @ auto_list ranges lvl v))"
    unfolding sort_folds_def by (rule strict_sort [OF auto_keys_distinct [OF assms]])
  fix f
  assume "f \<in> set (sort_folds (manual_folds v @ auto_list ranges lvl v))"
  then have "f \<in> set (fs_folds v) \<or> fold_range f \<in> set (map fold_range (auto_list ranges lvl v))"
    by (auto simp: sort_folds_def manual_folds_def)
  then show "fd_start f \<le> fd_end f"
    unfolding auto_list_simps(1) using folds_okD(2) [OF assms] auto_ranges_spec(2) by fastforce
qed

lemma set_auto_folds_published:
  assumes "folds_ok (fs_folds v)"
  shows "published v (set_auto_folds ranges lvl v)"
proof -
  have "fd_start f \<le> row_count v - 1" if "f \<in> set (auto_list ranges lvl v)" for f
  proof -
    have "fold_range f \<in> set (map fold_range (auto_list ranges lvl v))" using that by simp
    then show ?thesis unfolding auto_list_simps(1) using auto_ranges_spec(2) by fastforce
  qed
  then have "starts_kept v (sort_folds (manual_folds v @ auto_list ranges lvl v))"
    by (auto simp: starts_kept_def sort_folds_def manual_folds_def)
  from published_change [OF auto_folds_ok [OF assms] this] show ?thesis
    by (simp add: set_auto_folds_alt Let_def)
qed

lemma set_auto_folds_folds:
  "fs_folds (set_auto_folds ranges lvl v) = sort_folds (manual_folds v @ auto_list ranges lvl v)"
  "fs_lines (set_auto_folds ranges lvl v) = fs_lines v"
  by (simp_all add: set_auto_folds_alt Let_def)

lemma sort_folds_set [simp]: "set (sort_folds fs) = set fs"
  by (simp add: sort_folds_def)

lemma manual_after:
  assumes ok: "folds_ok (fs_folds v)"
  shows "manual_folds (set_auto_folds ranges lvl v) = manual_folds v"
proof (rule strict_by_unique)
  show "strict_by fold_key (manual_folds v)"
    unfolding manual_folds_def by (rule strict_by_filter [OF folds_okD(1) [OF ok]])
  show "strict_by fold_key (manual_folds (set_auto_folds ranges lvl v))"
    unfolding manual_folds_def set_auto_folds_folds
    by (rule strict_by_filter [OF folds_okD(1) [OF auto_folds_ok [OF ok, unfolded manual_folds_def]]])
  show "set (manual_folds (set_auto_folds ranges lvl v)) = set (manual_folds v)"
    using auto_list_simps(2) unfolding manual_folds_def set_auto_folds_folds by auto
qed

lemma prev_closed_Some:
  assumes "folds_ok (fs_folds v)" and "f \<in> set (fs_folds v)" and "fd_auto f"
  shows "prev_closed v (fold_range f) = Some (fd_closed f)"
proof -
  let ?kv = "map (\<lambda>f. (fold_range f, fd_closed f)) (filter fd_auto (fs_folds v))"
  have d: "distinct (map fold_key (filter fd_auto (fs_folds v)))"
    using strict_by_distinct [OF strict_by_filter [OF folds_okD(1) [OF assms(1)]]] .
  then have "distinct (map fold_range (filter fd_auto (fs_folds v)))"
    by (auto simp: distinct_map inj_on_def)
  then have "distinct (map fst (rev ?kv))" by (simp add: rev_map [symmetric] comp_def)
  moreover have "(fold_range f, fd_closed f) \<in> set (rev ?kv)" using assms(2,3) by auto
  ultimately show ?thesis unfolding prev_closed_def by (rule map_of_is_SomeI)
qed

lemma auto_list_closed:
  assumes "f \<in> set (auto_list ranges lvl v)" and "prev_closed v (fold_range f) = Some c"
  shows "fd_closed f = c"
  using assms by (auto simp: auto_list_def Let_def auto_fold_def)

lemma auto_list_again:
  assumes ok: "folds_ok (fs_folds v)"
  shows "auto_list ranges lvl (set_auto_folds ranges lvl v) = auto_list ranges lvl v"
proof -
  let ?v = "set_auto_folds ranges lvl v" and ?A = "auto_list ranges lvl v"
  have F: "fs_folds ?v = sort_folds (manual_folds v @ ?A)" "row_count ?v = row_count v"
    by (simp_all add: set_auto_folds_folds row_count_def)
  have rs: "auto_ranges ranges ?v = auto_ranges ranges v"
    using manual_after [OF ok, of ranges lvl] F(2) by (simp add: auto_ranges_def manual_folds_def)
  have prev: "prev_closed ?v (fold_range f) = Some (fd_closed f)" if "f \<in> set ?A" for f
    by (rule prev_closed_Some) (use that auto_folds_ok [OF ok] auto_list_simps(2) in \<open>auto simp: F\<close>)
  have "auto_fold (prev_closed ?v) lvl x = auto_fold (prev_closed v) lvl x"
    if x: "x \<in> set (zip (auto_ranges ranges v) (nest_levels [] (auto_ranges ranges v)))" for x
  proof -
    have "auto_fold (prev_closed v) lvl x \<in> set ?A" using x by (simp add: auto_list_def Let_def)
    from prev [OF this] show ?thesis by (auto simp: auto_fold_def split: prod.splits)
  qed
  then show ?thesis by (simp add: auto_list_def Let_def rs)
qed

text \<open>
  An automatic refresh leaves every manual fold as it is, keeps the open or closed state of
  an automatic fold whose range existed before, and is idempotent: repeating it with the same
  ranges changes nothing, not even a generation, so a refresh per edit does not repaint.
\<close>

lemma auto_refresh_stable:
  assumes ok: "folds_ok (fs_folds v)"
  shows "set_auto_folds ranges lvl (set_auto_folds ranges lvl v) = set_auto_folds ranges lvl v \<and>
    filter (Not \<circ> fd_auto) (fs_folds (set_auto_folds ranges lvl v)) = filter (Not \<circ> fd_auto) (fs_folds v) \<and>
    (\<forall>f \<in> set (fs_folds v). \<forall>g \<in> set (fs_folds (set_auto_folds ranges lvl v)).
      fd_auto f \<and> fold_range g = fold_range f \<longrightarrow> g = f)"
proof (intro conjI ballI impI)
  let ?v = "set_auto_folds ranges lvl v"
  show "set_auto_folds ranges lvl ?v = ?v"
    using manual_after [OF ok] auto_list_again [OF ok]
    by (simp add: set_auto_folds_alt [of ranges lvl ?v] Let_def set_auto_folds_folds)
  show "filter (Not \<circ> fd_auto) (fs_folds ?v) = filter (Not \<circ> fd_auto) (fs_folds v)"
    using manual_after [OF ok] unfolding manual_folds_def .
  fix f g
  assume f: "f \<in> set (fs_folds v)" and g: "g \<in> set (fs_folds ?v)" and fg: "fd_auto f \<and> fold_range g = fold_range f"
  show "g = f"
  proof (cases "g \<in> set (manual_folds v)")
    case True
    then show ?thesis
      using strict_by_inj [OF folds_okD(1) [OF ok], of g f] f fg by (simp add: manual_folds_def)
  next
    case False
    then have a: "g \<in> set (auto_list ranges lvl v)" using g by (simp add: set_auto_folds_folds)
    have "prev_closed v (fold_range g) = Some (fd_closed f)" using prev_closed_Some [OF ok f] fg by simp
    from auto_list_closed [OF a this] auto_list_simps(2) [OF a] fg show ?thesis by simp
  qed
qed

section \<open>Nesting levels\<close>

lemma pop_while_filter: "sorted stack \<Longrightarrow> pop_while e stack = filter (\<lambda>x. e \<le> x) stack"
proof (induction e stack rule: pop_while.induct)
  case (1 e x stack)
  then have "filter (\<lambda>x. e \<le> x) stack = stack" if "e \<le> x" using that by (auto simp: filter_id_conv)
  then show ?case using 1 by auto
qed simp

definition crossing :: "nat \<times> nat \<Rightarrow> nat \<times> nat \<Rightarrow> bool" where
  "crossing p q \<longleftrightarrow> fst p < fst q \<and> fst q < snd p \<and> snd p < snd q"

lemma nest_levels_spec:
  assumes "sorted stack" and "set stack \<subseteq> snd ` set P"
    and "\<And>r. r \<in> set rs \<Longrightarrow> length (filter (\<lambda>x. snd r \<le> x) stack) = length (filter (\<lambda>p. snd r \<le> snd p) P)"
    and "strict_by pair_key (P @ rs)" and "\<forall>r \<in> set rs. fst r < snd r"
    and "\<forall>p \<in> set (P @ rs). \<forall>q \<in> set rs. \<not> crossing p q" and "i < length rs"
  shows "nest_levels stack rs ! i = 1 + length (filter (\<lambda>p. snd (rs ! i) \<le> snd p) (P @ take i rs))"
  using assms
proof (induction rs arbitrary: stack P i)
  case (Cons r rs)
  obtain s e where r: "r = (s, e)" by (cases r)
  let ?st = "filter (\<lambda>x. e \<le> x) stack"
  have pop: "pop_while e stack = ?st" by (rule pop_while_filter [OF Cons.prems(1)])
  show ?case
  proof (cases i)
    case 0
    then show ?thesis using Cons.prems(3) [of r] by (simp add: r Let_def pop)
  next
    case (Suc j)
    have key: "s \<le> fst q" if "q \<in> set rs" for q
      using Cons.prems(4) that r by (auto simp: pair_key_def range_key_less)
    have out: "x < snd q" if "q \<in> set rs" "x \<in> set stack" "x < e" for q x
    proof -
      obtain p where p: "p \<in> set P" "x = snd p" using Cons.prems(2) \<open>x \<in> set stack\<close> by blast
      have "range_key (fst p) (snd p) < range_key s e"
        using Cons.prems(4) p(1) r by (auto simp: pair_key_def)
      then have "fst p < s" using that(3) p(2) by (auto simp: range_key_less)
      moreover have "\<not> crossing p r" using Cons.prems(6) p(1) by simp
      ultimately have "x \<le> s" using that(3) p(2) r by (auto simp: crossing_def)
      then show ?thesis using key [OF that(1)] Cons.prems(5) that(1) by fastforce
    qed
    have "length (filter (\<lambda>x. snd q \<le> x) (e # ?st)) = length (filter (\<lambda>p. snd q \<le> snd p) (P @ [r]))"
      if q: "q \<in> set rs" for q
    proof -
      have "filter (\<lambda>x. snd q \<le> x) ?st = filter (\<lambda>x. snd q \<le> x) stack"
        using out [OF q] by (auto simp: not_le [symmetric] intro!: filter_cong)
      then show ?thesis using Cons.prems(3) [of q] q r by simp
    qed
    moreover have "sorted (e # ?st)" using Cons.prems(1) by (simp add: sorted_wrt_filter)
    moreover have "set (e # ?st) \<subseteq> snd ` set (P @ [r])" using Cons.prems(2) r by auto
    ultimately have "nest_levels (e # ?st) rs ! j = 1 + length (filter (\<lambda>p. snd (rs ! j) \<le> snd p) ((P @ [r]) @ take j rs))"
      using Cons.prems(4-7) Suc by (intro Cons.IH) auto
    then show ?thesis using Suc by (simp add: r Let_def pop)
  qed
qed simp

text \<open>The enclosing ranges of the \<open>i\<close>-th one come before it.\<close>

lemma level_containers:
  assumes "strict_by pair_key rs" and "i < length rs"
  shows "length (filter (\<lambda>p. snd (rs ! i) \<le> snd p) (take i rs)) =
    card {p \<in> set rs. p \<noteq> rs ! i \<and> fst p \<le> fst (rs ! i) \<and> snd (rs ! i) \<le> snd p}"
proof -
  let ?r = "rs ! i"
  have split: "rs = take i rs @ ?r # drop (Suc i) rs" using id_take_nth_drop [OF assms(2)] .
  then have S: "strict_by pair_key (take i rs @ ?r # drop (Suc i) rs)" using assms(1) by simp
  have before: "fst p \<le> fst ?r \<and> p \<noteq> ?r" if "p \<in> set (take i rs)" for p
    using S that by (auto simp: pair_key_def range_key_less)
  have after: "\<not> (fst p \<le> fst ?r \<and> snd ?r \<le> snd p)" if "p \<in> set (drop (Suc i) rs)" for p
    using S that by (auto simp: pair_key_def range_key_less)
  have "distinct (take i rs)"
    using strict_by_distinct [OF assms(1)] by (simp add: distinct_map)
  then have "length (filter (\<lambda>p. snd ?r \<le> snd p) (take i rs)) = card {p \<in> set (take i rs). snd ?r \<le> snd p}"
    using distinct_card [OF distinct_filter, of "take i rs" "\<lambda>p. snd ?r \<le> snd p"] by simp
  also have "{p \<in> set (take i rs). snd ?r \<le> snd p} =
      {p \<in> set rs. p \<noteq> ?r \<and> fst p \<le> fst ?r \<and> snd ?r \<le> snd p}"
  proof -
    have "set rs = set (take i rs) \<union> {?r} \<union> set (drop (Suc i) rs)"
      by (subst split) auto
    then show ?thesis using before after by auto
  qed
  finally show ?thesis .
qed

text \<open>
  Where no two ranges cross, a newly appearing automatic fold starts closed exactly when
  its nesting level, one more than the number of automatic folds around it, exceeds
  \<open>foldlevelstart\<close>.
\<close>

lemma auto_fold_levels:
  assumes ok: "folds_ok (fs_folds v)"
    and laminar: "\<forall>p \<in> set (auto_ranges ranges v). \<forall>q \<in> set (auto_ranges ranges v). \<not> crossing p q"
    and f: "f \<in> set (fs_folds (set_auto_folds ranges lvl v))" and auto: "fd_auto f"
    and fresh: "\<forall>g \<in> set (fs_folds v). fd_auto g \<longrightarrow> fold_range g \<noteq> fold_range f"
  shows "fd_closed f \<longleftrightarrow> lvl < 1 + card {g \<in> set (fs_folds (set_auto_folds ranges lvl v)).
    fd_auto g \<and> g \<noteq> f \<and> fd_start g \<le> fd_start f \<and> fd_end f \<le> fd_end g}"
proof -
  let ?rs = "auto_ranges ranges v" and ?A = "auto_list ranges lvl v"
  have fA: "f \<in> set ?A" using f auto by (auto simp: set_auto_folds_folds manual_folds_def)
  then obtain i where i: "i < length ?rs" "f = auto_fold (prev_closed v) lvl (?rs ! i, nest_levels [] ?rs ! i)"
    by (auto simp: auto_list_def Let_def set_zip)
  have fr: "fold_range f = ?rs ! i" unfolding i(2) by (simp add: auto_fold_def split: prod.splits)
  have "prev_closed v (fold_range f) = None"
    using fresh unfolding prev_closed_def map_of_eq_None_iff by auto
  then have "fd_closed f \<longleftrightarrow> lvl < nest_levels [] ?rs ! i"
    using fr by (cases "?rs ! i") (simp add: i(2) auto_fold_def)
  also have "nest_levels [] ?rs ! i = 1 + length (filter (\<lambda>p. snd (?rs ! i) \<le> snd p) ([] @ take i ?rs))"
    by (rule nest_levels_spec) (use i(1) auto_ranges_spec laminar in auto)
  also have "length (filter (\<lambda>p. snd (?rs ! i) \<le> snd p) ([] @ take i ?rs)) =
      card {p \<in> set ?rs. p \<noteq> ?rs ! i \<and> fst p \<le> fst (?rs ! i) \<and> snd (?rs ! i) \<le> snd p}"
    using level_containers [OF auto_ranges_spec(1) i(1)] by simp
  also have "\<dots> = card (fold_range ` {g \<in> set (fs_folds (set_auto_folds ranges lvl v)).
      fd_auto g \<and> g \<noteq> f \<and> fd_start g \<le> fd_start f \<and> fd_end f \<le> fd_end g})" (is "_ = card (fold_range ` ?G)")
  proof -
    have G: "?G = {g \<in> set ?A. g \<noteq> f \<and> fd_start g \<le> fd_start f \<and> fd_end f \<le> fd_end g}"
      using auto_list_simps(2) by (auto simp: set_auto_folds_folds manual_folds_def)
    have inj: "g = f" if "g \<in> set ?A" "fold_range g = fold_range f" for g
      using strict_by_inj [OF folds_okD(1) [OF auto_folds_ok [OF ok]], of g ranges lvl f] that fA by simp
    have "set ?rs = fold_range ` set ?A" by (simp add: auto_list_simps(1) [symmetric, of ranges v lvl])
    then have "{p \<in> set ?rs. p \<noteq> ?rs ! i \<and> fst p \<le> fst (?rs ! i) \<and> snd (?rs ! i) \<le> snd p} =
        fold_range ` {g \<in> set ?A. fold_range g \<noteq> fold_range f \<and> fd_start g \<le> fd_start f \<and> fd_end f \<le> fd_end g}"
      unfolding fr [symmetric] by auto
    also have "{g \<in> set ?A. fold_range g \<noteq> fold_range f \<and> fd_start g \<le> fd_start f \<and> fd_end f \<le> fd_end g} = ?G"
      unfolding G using inj by auto
    finally show ?thesis by simp
  qed
  also have "\<dots> = card ?G"
  proof (rule card_image, rule inj_onI)
    fix x y
    assume "x \<in> ?G" "y \<in> ?G" "fold_range x = fold_range y"
    then show "x = y"
      using strict_by_inj [OF folds_okD(1) [OF auto_folds_ok [OF ok]], of x ranges lvl y]
      by (simp add: set_auto_folds_folds)
  qed
  finally show ?thesis .
qed

text \<open>Where ranges cross, an enclosing range can be missed: \<open>(4, 5)\<close> lies in three others.\<close>

lemma crossing_ranges_level:
  "nest_levels [] [(0, 10), (2, 5), (3, 8), (4, 5)] ! 3 = 3"
  by (simp add: Let_def)

section \<open>Walking over visible rows\<close>

declare skip_down.simps [simp del]

lemma skip_down_spec:
  "r \<le> skip_down index bottom r \<and> (\<forall>k. r \<le> k \<longrightarrow> k < skip_down index bottom r \<longrightarrow> k \<le> bottom \<and> hides_row index k) \<and>
    (skip_down index bottom r \<le> bottom \<longrightarrow> \<not> hides_row index (skip_down index bottom r))"
proof (induction index bottom r rule: skip_down.induct)
  case (1 index bottom r)
  show ?case
  proof (cases "r \<le> bottom \<and> hides_row index r")
    case True
    then have "skip_down index bottom r = skip_down index bottom (Suc r)" by (simp add: skip_down.simps [of _ _ r])
    moreover have "k = r \<or> Suc r \<le> k" if "r \<le> k" for k using that by linarith
    moreover have "r \<le> k" if "Suc r \<le> k" for k using that by simp
    ultimately show ?thesis using 1 [OF True] True by (metis Suc_eq_plus1)
  next
    case False
    then have "skip_down index bottom r = r" by (subst skip_down.simps) (rule if_not_P)
    then show ?thesis using False by auto
  qed
qed

lemma skip_up_spec:
  "case skip_up index r of
     None \<Rightarrow> \<forall>k \<le> r. hides_row index k
   | Some q \<Rightarrow> q \<le> r \<and> \<not> hides_row index q \<and> (\<forall>k. q < k \<longrightarrow> k \<le> r \<longrightarrow> hides_row index k)"
proof (induction r)
  case (Suc r)
  show ?case
  proof (cases "hides_row index (Suc r)")
    case True
    then show ?thesis using Suc by (auto simp: le_Suc_eq split: option.splits)
  qed auto
qed auto

lemma visible_walks_spec:
  assumes ok: "folds_ok (fs_folds v)"
  shows "(case next_visible_row row v of
      None \<Rightarrow> \<forall>k. row < k \<longrightarrow> k \<le> last_content_row v \<longrightarrow> is_row_hidden k v
    | Some r \<Rightarrow> row < r \<and> r \<le> last_content_row v \<and> \<not> is_row_hidden r v \<and>
        (\<forall>k. row < k \<longrightarrow> k < r \<longrightarrow> is_row_hidden k v)) \<and>
    (case prev_visible_row row v of
      None \<Rightarrow> \<forall>k < row. is_row_hidden k v
    | Some r \<Rightarrow> r < row \<and> \<not> is_row_hidden r v \<and> (\<forall>k. r < k \<longrightarrow> k < row \<longrightarrow> is_row_hidden k v)) \<and>
    snapshot_next_visible_row row (snapshot_from v) = next_visible_row row v \<and>
    snapshot_prev_visible_row row (snapshot_from v) = prev_visible_row row v"
proof -
  have h: "hides_row (fold_index_new (fs_folds v)) k \<longleftrightarrow> is_row_hidden k v" for k
    using hides_row_index [OF ok] by (simp add: is_row_hidden_def list_ex_iff)
  let ?r = "skip_down (fold_index_new (fs_folds v)) (last_content_row v) (Suc row)"
  note d = skip_down_spec [where r = "Suc row" and index = "fold_index_new (fs_folds v)" and bottom = "last_content_row v", unfolded h]
  have n: "next_visible_row row v = (if last_content_row v = 0 \<and> row = 0 then None
      else if ?r \<le> last_content_row v then Some ?r else None)"
    by (simp add: next_visible_row_def Let_def)
  have "case next_visible_row row v of
      None \<Rightarrow> \<forall>k. row < k \<longrightarrow> k \<le> last_content_row v \<longrightarrow> is_row_hidden k v
    | Some r \<Rightarrow> row < r \<and> r \<le> last_content_row v \<and> \<not> is_row_hidden r v \<and>
        (\<forall>k. row < k \<longrightarrow> k < r \<longrightarrow> is_row_hidden k v)"
    unfolding n using d by (auto simp: Suc_le_eq)
  moreover have "case prev_visible_row row v of
      None \<Rightarrow> \<forall>k < row. is_row_hidden k v
    | Some r \<Rightarrow> r < row \<and> \<not> is_row_hidden r v \<and> (\<forall>k. r < k \<longrightarrow> k < row \<longrightarrow> is_row_hidden k v)"
  proof (cases row)
    case (Suc q)
    then show ?thesis
      using skip_up_spec [where index = "fold_index_new (fs_folds v)" and r = q] by (auto simp: h less_Suc_eq_le split: option.splits)
  qed simp
  moreover have "snapshot_prev_visible_row row (snapshot_from v) = prev_visible_row row v"
    by (cases row) (simp_all add: snapshot_from_def)
  moreover have "snapshot_next_visible_row row (snapshot_from v) = next_visible_row row v"
    unfolding snapshot_next_visible_row_def next_visible_row_def snapshot_from_def Let_def by simp
  ultimately show ?thesis by blast
qed

text \<open>
  On a canonical fold list the walks of \<open>j\<close> and \<open>k\<close> step to the nearest visible row
  of the content and answer \<open>None\<close> exactly when no visible row is left, and the snapshot that
  the motions use answers as the view does.
\<close>

lemma visible_walks:
  assumes ok: "folds_ok (fs_folds v)"
  shows "(case next_visible_row row v of
      None \<Rightarrow> \<forall>k. row < k \<longrightarrow> k \<le> last_content_row v \<longrightarrow> is_row_hidden k v
    | Some r \<Rightarrow> row < r \<and> r \<le> last_content_row v \<and> \<not> is_row_hidden r v \<and>
        (\<forall>k. row < k \<longrightarrow> k < r \<longrightarrow> is_row_hidden k v)) \<and>
    (case prev_visible_row row v of
      None \<Rightarrow> \<forall>k < row. is_row_hidden k v
    | Some r \<Rightarrow> r < row \<and> \<not> is_row_hidden r v \<and> (\<forall>k. r < k \<longrightarrow> k < row \<longrightarrow> is_row_hidden k v)) \<and>
    snapshot_next_visible_row row (snapshot_from v) = next_visible_row row v \<and>
    snapshot_prev_visible_row row (snapshot_from v) = prev_visible_row row v"
  by (rule visible_walks_spec [OF ok])

section \<open>The cursor leaves hidden rows\<close>

lemma min_start_spec:
  "(min_start fs = None \<longleftrightarrow> fs = []) \<and>
    (\<forall>f. min_start fs = Some f \<longrightarrow> f \<in> set fs \<and> (\<forall>g \<in> set fs. fd_start f \<le> fd_start g))"
proof (induction fs)
  case (Cons f fs)
  then show ?case by (cases "min_start fs") (auto intro: order_trans)
qed simp

definition starts_above :: "fold list \<Rightarrow> nat \<Rightarrow> nat" where
  "starts_above folds row = length (filter (\<lambda>f. fd_start f < row) folds)"

lemma starts_above_less:
  assumes "f \<in> set folds" and "fd_start f < row"
  shows "starts_above folds (fd_start f) < starts_above folds row"
proof -
  let ?Q = "\<lambda>g. fd_start g < row"
  have "filter (\<lambda>g. fd_start g < fd_start f) folds = filter (\<lambda>g. fd_start g < fd_start f) (filter ?Q folds)"
    using assms(2) by (auto intro!: filter_cong)
  moreover have "length (filter (\<lambda>g. fd_start g < fd_start f) (filter ?Q folds)) < length (filter ?Q folds)"
    by (rule length_filter_less [of f]) (use assms in auto)
  ultimately show ?thesis by (simp add: starts_above_def)
qed

lemma snap_row_spec:
  assumes "starts_above folds row < k"
  shows "\<exists>q. snap_row k folds row b = (q, b \<or> q \<noteq> row) \<and> q \<le> row \<and> (\<forall>f \<in> set folds. \<not> hides f q) \<and>
    (q = row \<or> (\<exists>f \<in> set folds. q = fd_start f))"
  using assms
proof (induction k arbitrary: row b)
  case (Suc k)
  let ?h = "filter (\<lambda>f. hides f row) folds"
  show ?case
  proof (cases "min_start ?h")
    case None
    then have "?h = []" using min_start_spec by blast
    then show ?thesis using None by (simp add: filter_empty_conv)
  next
    case (Some f)
    then have f: "f \<in> set folds" "hides f row" using min_start_spec [of ?h] by auto
    then have less: "fd_start f < row" by (simp add: hides_def)
    then have "starts_above folds (fd_start f) < k" using starts_above_less [OF f(1) less] Suc.prems by simp
    from Suc.IH [OF this, of True] show ?thesis using Some f(1) less by (fastforce simp: order_less_imp_le)
  qed
qed simp

declare snap_row.simps [simp del]

lemma as_u32_id: "n < 2 ^ 32 \<Longrightarrow> as_u32 n = n"
  by (simp add: as_u32_def unsigned_of_nat take_bit_eq_mod)

lemma published_starts:
  assumes "published v v'" and "\<forall>f \<in> set (fs_folds v). fd_start f < row_count v" and "0 < row_count v"
  shows "row_count v' = row_count v \<and> (\<forall>f \<in> set (fs_folds v'). fd_start f < row_count v)"
proof -
  from assms(1) consider "v' = v" | fs where "starts_kept v fs" "v' = folds_changed (v\<lparr>fs_folds := fs\<rparr>)"
    by (auto simp: published_def)
  then show ?thesis
  proof cases
    case (2 fs)
    have "fd_start f < row_count v" if "f \<in> set fs" for f
    proof -
      have "fd_start f \<in> fd_start ` set (fs_folds v) \<union> {.. row_count v - 1}"
        using 2(1) that unfolding starts_kept_def by blast
      then show ?thesis using assms(2,3) by auto
    qed
    then show ?thesis using 2(2) by (simp add: row_count_def)
  qed (use assms(2) in simp)
qed

text \<open>
  C13: After a fold operation the cursor is on a visible row: where the operation hid it, it
  moves up to the first row of a closed fold that no other closed fold hides, and otherwise
  it stays.  The bound of the loop, the number of folds plus one, is enough for any nesting.
\<close>

theorem fold_op_cursor_visible:
  assumes ok: "folds_ok (fs_folds (fe_view ed))" and rows: "row_count (fe_view ed) \<le> 2 ^ 32"
    and starts: "\<forall>f \<in> set (fs_folds (fe_view ed)). fd_start f < row_count (fe_view ed)"
    and cur: "fst (fe_cursor ed) < row_count (fe_view ed)"
  shows "\<not> is_row_hidden (fst (fe_cursor (apply_fold_op op ed))) (fe_view (apply_fold_op op ed)) \<and>
    fst (fe_cursor (apply_fold_op op ed)) \<le> fst (fe_cursor ed) \<and>
    (\<not> is_row_hidden (fst (fe_cursor ed)) (apply_op op (fe_view ed)) \<longrightarrow>
      fe_cursor (apply_fold_op op ed) = fe_cursor ed)"
proof -
  let ?v = "apply_op op (fe_view ed)" and ?row = "fst (fe_cursor ed)"
  have range: "row_count ?v = row_count (fe_view ed)" "\<forall>f \<in> set (fs_folds ?v). fd_start f < row_count (fe_view ed)"
    using published_starts [OF apply_op_published [OF ok] starts] cur by auto
  have u: "as_u32 n = n" if "n \<le> ?row" for n
    by (rule as_u32_id) (use that cur rows in linarith)
  have "starts_above (fs_folds ?v) ?row < length (fs_folds ?v) + 1"
    by (simp add: starts_above_def le_imp_less_Suc)
  from snap_row_spec [OF this, of False] obtain q where q: "q \<le> ?row" "\<forall>f \<in> set (fs_folds ?v). \<not> hides f q"
    "snap_row (length (fs_folds ?v) + 1) (fs_folds ?v) ?row False = (q, q \<noteq> ?row)" by auto
  have "min (as_u32 q) (row_count ?v - 1) = q" using u [OF q(1)] q(1) cur range(1) by simp
  then have ed': "fe_view (apply_fold_op op ed) = ?v"
    "fe_cursor (apply_fold_op op ed) = (if q \<noteq> ?row then (q, 0) else fe_cursor ed)"
    using q(3) by (simp_all add: apply_fold_op_def Let_def u)
  have "q = ?row" if "\<not> is_row_hidden ?row ?v"
  proof (rule ccontr)
    assume "q \<noteq> ?row"
    have "filter (\<lambda>f. hides f ?row) (fs_folds ?v) = []"
      using that by (simp add: is_row_hidden_def list_ex_iff filter_empty_conv)
    then show False using q(3) \<open>q \<noteq> ?row\<close> by (simp add: snap_row.simps)
  qed
  then show ?thesis using q(1,2) by (auto simp: ed' is_row_hidden_def list_ex_iff)
qed

definition nested_editor :: fold_editor where
  "nested_editor = \<lparr>fe_view = nested_view, fe_ops = [], fe_cursor = (3, 2), fe_sticky = None\<rparr>"

theorem fold_op_cursor_visible_witness:
  "\<not> is_row_hidden (fst (fe_cursor (apply_fold_op CloseAll nested_editor))) (fe_view (apply_fold_op CloseAll nested_editor)) \<and>
    fst (fe_cursor (apply_fold_op CloseAll nested_editor)) \<le> 3"
  using fold_op_cursor_visible [of nested_editor CloseAll] nested_ok
  by (simp add: nested_editor_def row_count_def) (simp add: nested_view_def)

section \<open>Folds, marks and jumps follow their rows\<close>

text \<open>
  Where an edit at row \<open>e\<close> that adds \<open>delta\<close> rows (or deletes \<open>- delta\<close>) takes a row:
  deleted rows go, later ones move.
\<close>

definition row_after :: "nat \<Rightarrow> int \<Rightarrow> nat \<Rightarrow> nat option" where
  "row_after e delta r =
     (if 0 \<le> delta then Some (if r \<le> e then r else r + nat delta)
      else if r < e then Some r
      else if r < e + nat (- delta) then None
      else Some (r - nat (- delta)))"

lemma map_row_after:
  assumes "delta \<noteq> 0" and "drop_end = (if delta < 0 then e + nat (- delta) else e)"
  shows "map_row e drop_end (max drop_end (e + 1)) delta r = row_after e delta r"
  using assms by (auto simp: map_row_def row_after_def nat_add_distrib nat_diff_distrib)

lemma shift_fold_rows:
  assumes d: "delta \<noteq> 0" and v: "fd_start f \<le> fd_end f"
    and b: "drop_end = (if delta < 0 then e + nat (- delta) else e)"
  shows "case shift_fold e drop_end (max drop_end (e + 1)) delta f of
     None \<Rightarrow> \<forall>r. contains f r \<longrightarrow> row_after e delta r = None
   | Some g \<Rightarrow> fd_closed g = fd_closed f \<and> fd_auto g = fd_auto f \<and> fd_start g \<le> fd_end g \<and>
       (\<forall>r r'. row_after e delta r = Some r' \<longrightarrow> (contains g r' \<longleftrightarrow> contains f r))"
  using v unfolding shift_fold_def map_row_after [OF d b] Let_def
  using d by (auto simp: row_after_def contains_def split: if_splits; linarith)

lemma map_filter_set: "y \<in> set (List.map_filter f xs) \<longleftrightarrow> (\<exists>x \<in> set xs. f x = Some y)"
  by (force simp: List.map_filter_def)

lemma shift_folds_ok:
  assumes "folds_ok fs" and "delta \<noteq> 0" and "drop_end = (if delta < 0 then e + nat (- delta) else e)"
  shows "folds_ok (shift_folds_after_edit e drop_end (max drop_end (e + 1)) delta fs)"
proof -
  have "fd_start g \<le> fd_end g"
    if g: "g \<in> set (List.map_filter (shift_fold e drop_end (max drop_end (e + 1)) delta) fs)" for g
  proof -
    obtain f where "f \<in> set fs" "shift_fold e drop_end (max drop_end (e + 1)) delta f = Some g"
      using g by (auto simp: map_filter_set)
    then show ?thesis using shift_fold_rows [OF assms(2) folds_okD(2) [OF assms(1)] assms(3), of f] by simp
  qed
  from folds_ok_dedup [OF this] show ?thesis using assms(2) by (simp add: shift_folds_after_edit_def)
qed

lemma shift_folds_contain:
  assumes "folds_ok fs" and "delta \<noteq> 0" and b: "drop_end = (if delta < 0 then e + nat (- delta) else e)"
    and r: "row_after e delta r = Some r'"
  shows "(\<exists>g \<in> set (shift_folds_after_edit e drop_end (max drop_end (e + 1)) delta fs). contains g r') \<longleftrightarrow>
    (\<exists>f \<in> set fs. contains f r)"
proof -
  let ?sh = "shift_fold e drop_end (max drop_end (e + 1)) delta"
  let ?raw = "List.map_filter ?sh fs"
  have keys: "fold_range ` set (dedup_key fold_range (sort_folds ?raw)) = fold_range ` set ?raw"
    using dedup_key_keys [of fold_range "sort_folds ?raw"] by simp
  have "(\<exists>g \<in> set (dedup_key fold_range (sort_folds ?raw)). contains g r') \<longleftrightarrow>
      (\<exists>p \<in> fold_range ` set (dedup_key fold_range (sort_folds ?raw)). fst p \<le> r' \<and> r' \<le> snd p)"
    by (auto simp: contains_def)
  also have "\<dots> \<longleftrightarrow> (\<exists>g \<in> set ?raw. contains g r')" unfolding keys by (auto simp: contains_def)
  also have "\<dots> \<longleftrightarrow> (\<exists>f \<in> set fs. contains f r)"
  proof
    assume "\<exists>g \<in> set ?raw. contains g r'"
    then obtain f g where "f \<in> set fs" "?sh f = Some g" "contains g r'" by (auto simp: map_filter_set)
    then show "\<exists>f \<in> set fs. contains f r"
      using shift_fold_rows [OF assms(2) folds_okD(2) [OF assms(1)] b, of f] r by auto
  next
    assume "\<exists>f \<in> set fs. contains f r"
    then obtain f where f: "f \<in> set fs" "contains f r" by blast
    note s = shift_fold_rows [OF assms(2) folds_okD(2) [OF assms(1) f(1)] b]
    show "\<exists>g \<in> set ?raw. contains g r'"
    proof (cases "?sh f")
      case None
      then show ?thesis using s f(2) r by auto
    next
      case (Some g)
      then have "contains g r'" using s f(2) r by auto
      moreover have "g \<in> set ?raw" using Some f(1) unfolding map_filter_set by blast
      ultimately show ?thesis by blast
    qed
  qed
  finally show ?thesis using assms(2) by (simp add: shift_folds_after_edit_def)
qed

lemma rebase_marks_set:
  "(m, r', col) \<in> set (rebase_marks e d t delta ms) \<longleftrightarrow>
    (\<exists>r. (m, r, col) \<in> set ms \<and> map_row e d t delta r = Some r')"
  by (force simp: rebase_marks_def map_filter_set)

lemma shift_globals_set:
  "(m, b, r', col) \<in> set (shift_global_marks e d t delta bid ms) \<longleftrightarrow>
    (\<exists>r. (m, b, r, col) \<in> set ms \<and> (if b = bid then map_row e d t delta r = Some r' else r' = r))"
  by (force simp: shift_global_marks_def map_filter_set split: if_splits)

lemma shift_jumps_set:
  "(r', col) \<in> set (shift_jumps e d t delta js) \<longleftrightarrow>
    (\<exists>r. (r, col) \<in> set js \<and> map_row e d t delta r = Some r')"
  by (force simp: shift_jumps_def map_row_def split: if_splits)

lemma rebase_folds_folds:
  "delta \<noteq> 0 \<Longrightarrow> fs_folds (rebase_folds e d t delta v) = shift_folds_after_edit e d t delta (fs_folds v)"
  by (simp add: rebase_folds_def fold_gen_bump_def shift_folds_after_edit_def List.map_filter_def sort_folds_def)

text \<open>The shift after an edit moves everything that names a row by one and the same rule.\<close>

lemma shift_moves_rows:
  fixes bid e :: nat
  assumes ok: "folds_ok (fs_folds (ps_view p))" and d: "delta \<noteq> 0"
  defines "p' \<equiv> shift_marks_after_edit bid e delta p"
  shows "folds_ok (fs_folds (ps_view p'))"
    and "row_after e delta r = Some r' \<Longrightarrow>
      (\<exists>g \<in> set (fs_folds (ps_view p')). contains g r') \<longleftrightarrow> (\<exists>f \<in> set (fs_folds (ps_view p)). contains f r)"
    and "(m, r', c) \<in> set (ps_marks p') \<longleftrightarrow> (\<exists>r. (m, r, c) \<in> set (ps_marks p) \<and> row_after e delta r = Some r')"
    and "(r', c) \<in> set (ps_jump_back p') \<longleftrightarrow> (\<exists>r. (r, c) \<in> set (ps_jump_back p) \<and> row_after e delta r = Some r')"
    and "(r', c) \<in> set (ps_jump_fwd p') \<longleftrightarrow> (\<exists>r. (r, c) \<in> set (ps_jump_fwd p) \<and> row_after e delta r = Some r')"
    and "(m, b, r', c) \<in> set (ps_globals p') \<longleftrightarrow>
      (\<exists>r. (m, b, r, c) \<in> set (ps_globals p) \<and> (if b = bid then row_after e delta r = Some r' else r' = r))"
proof -
  define d where "d = (if delta < 0 then e + nat (- delta) else e)"
  note row = map_row_after [OF assms(2) d_def, unfolded Suc_eq_plus1 [symmetric]]
  have p': "p' = p\<lparr>ps_marks := rebase_marks e d (max d (e + 1)) delta (ps_marks p),
      ps_view := rebase_folds e d (max d (e + 1)) delta (ps_view p),
      ps_globals := shift_global_marks e d (max d (e + 1)) delta bid (ps_globals p),
      ps_jump_back := shift_jumps e d (max d (e + 1)) delta (ps_jump_back p),
      ps_jump_fwd := shift_jumps e d (max d (e + 1)) delta (ps_jump_fwd p)\<rparr>"
    using assms(2) by (simp add: p'_def shift_marks_after_edit_def d_def Let_def)
  have folds: "fs_folds (ps_view p') = shift_folds_after_edit e d (max d (e + 1)) delta (fs_folds (ps_view p))"
    using rebase_folds_folds [OF assms(2)] by (simp add: p')
  show "folds_ok (fs_folds (ps_view p'))"
    unfolding folds by (rule shift_folds_ok [OF ok assms(2) d_def])
  show "row_after e delta r = Some r' \<Longrightarrow>
      (\<exists>g \<in> set (fs_folds (ps_view p')). contains g r') \<longleftrightarrow> (\<exists>f \<in> set (fs_folds (ps_view p)). contains f r)"
    unfolding folds by (rule shift_folds_contain [OF ok assms(2) d_def])
  show "(m, r', c) \<in> set (ps_marks p') \<longleftrightarrow> (\<exists>r. (m, r, c) \<in> set (ps_marks p) \<and> row_after e delta r = Some r')"
    "(r', c) \<in> set (ps_jump_back p') \<longleftrightarrow> (\<exists>r. (r, c) \<in> set (ps_jump_back p) \<and> row_after e delta r = Some r')"
    "(r', c) \<in> set (ps_jump_fwd p') \<longleftrightarrow> (\<exists>r. (r, c) \<in> set (ps_jump_fwd p) \<and> row_after e delta r = Some r')"
    "(m, b, r', c) \<in> set (ps_globals p') \<longleftrightarrow>
      (\<exists>r. (m, b, r, c) \<in> set (ps_globals p) \<and> (if b = bid then row_after e delta r = Some r' else r' = r))"
    by (simp_all add: p' rebase_marks_set shift_jumps_set shift_globals_set row)
qed

section \<open>Sessions\<close>

datatype view_op = Op fold_op | Reveal nat | OpenContaining nat | Auto "(nat \<times> nat) list" nat
  | Rebase nat int | SetFolds "fold list"

fun view_step :: "view_op \<Rightarrow> fold_view \<Rightarrow> fold_view" where
  "view_step (Op op) v = apply_op op v"
| "view_step (Reveal row) v = snd (reveal_row row v)"
| "view_step (OpenContaining row) v = snd (open_folds_containing row v)"
| "view_step (Auto ranges lvl) v = set_auto_folds ranges lvl v"
| "view_step (Rebase e delta) v =
     (let d = (if delta < 0 then e + nat (- delta) else e) in rebase_folds e d (max d (e + 1)) delta v)"
| "view_step (SetFolds fs) v = set_folds fs v"

fun op_valid :: "view_op \<Rightarrow> bool" where
  "op_valid (SetFolds fs) \<longleftrightarrow> (\<forall>f \<in> set fs. fd_start f \<le> fd_end f)"
| "op_valid _ \<longleftrightarrow> True"

lemma published_step:
  assumes "published v v'" and "folds_ok (fs_folds v)"
  shows "folds_ok (fs_folds v') \<and> fs_lines v' = fs_lines v \<and>
    (fs_folds v' \<noteq> fs_folds v \<longrightarrow> fs_gen v' = fs_gen v + 1)"
  using assms by (auto simp: published_def)

lemma view_step_ok:
  assumes ok: "folds_ok (fs_folds v)" and "op_valid op"
  shows "folds_ok (fs_folds (view_step op v)) \<and> fs_lines (view_step op v) = fs_lines v \<and>
    (fs_folds (view_step op v) \<noteq> fs_folds v \<longrightarrow> fs_gen (view_step op v) = fs_gen v + 1)"
proof (cases op)
  case (Op x)
  then show ?thesis using published_step [OF apply_op_published [OF ok] ok] by simp
next
  case (Reveal row)
  then show ?thesis
    using published_step [OF set_closed_published [OF ok] ok] ok by (simp add: reveal_row_def open_folds_where_def)
next
  case (OpenContaining row)
  then show ?thesis
    using published_step [OF set_closed_published [OF ok] ok] ok
    by (simp add: open_folds_containing_def open_folds_where_def)
next
  case (Auto ranges lvl)
  then show ?thesis using published_step [OF set_auto_folds_published [OF ok] ok] by simp
next
  case (Rebase e delta)
  then show ?thesis
    using ok shift_folds_ok [OF ok _ refl, of delta e]
    by (auto simp: rebase_folds_def fold_gen_bump_def Let_def)
next
  case (SetFolds fs)
  then show ?thesis using folds_ok_dedup [of fs] assms by (simp add: set_folds_def Let_def)
qed

text \<open>
  C10: Whatever sequence of fold commands, refreshes, shifts and window snapshots a view goes
  through, its folds stay in canonical order with distinct ranges and no inverted one, and
  every operation that changes the folds steps the fold generation, so that a cached copy
  with the current generation is current.
\<close>

theorem folds_canonical:
  assumes "folds_ok (fs_folds v)" and "\<forall>op \<in> set ops. op_valid op" and "op_valid op"
  shows "folds_ok (fs_folds (fold view_step ops v)) \<and>
    (fs_folds (view_step op (fold view_step ops v)) \<noteq> fs_folds (fold view_step ops v) \<longrightarrow>
      fs_gen (view_step op (fold view_step ops v)) = fs_gen (fold view_step ops v) + 1)"
proof -
  have "folds_ok (fs_folds (fold view_step ops v))"
    using assms(1,2) by (induction ops arbitrary: v) (simp_all add: view_step_ok)
  then show ?thesis using view_step_ok assms(3) by blast
qed

theorem folds_canonical_witness:
  "folds_ok (fs_folds (fold view_step [Op (Add 3 6 True), Rebase 2 (- 1), Op (ToggleAt 3)] nested_view))"
  using folds_canonical [OF nested_ok, of "[Op (Add 3 6 True), Rebase 2 (- 1), Op (ToggleAt 3)]" "Op OpenAll"] by simp

end
