(* ===== verification/TextLines.thy ===== *)
theory TextLines
  imports Rope "HOL-Library.Monad_Syntax"
begin

text \<open>
  The lines of a rope and the positions in it (the rope helpers of
  \<open>crates/hjkl-buffer/src/buffer.rs\<close>).  ropey, built with \<open>unicode_lines\<close>, breaks lines at
  \<open>\\n\<close>, VT, FF, \<open>\\r\<close>, \<open>\\r\\n\<close> (one break), NEL, LS and PS; the record \<open>text_ops\<close> adds the
  operations on lines and the conversions of its documentation to \<open>rope_ops\<close>, and
  \<open>text_laws\<close> states them over the list of chars.  Panics are \<open>None\<close>.
\<close>

section \<open>Line breaks\<close>

definition is_break :: "rchar \<Rightarrow> bool" where
  "is_break c \<longleftrightarrow> (10 \<le> c \<and> c \<le> 13) \<or> c = 0x85 \<or> c = 0x2028 \<or> c = 0x2029"

text \<open>The char index after each break.\<close>

fun breaks_from :: "nat \<Rightarrow> rstring \<Rightarrow> nat list" where
  "breaks_from i [] = []"
| "breaks_from i (c # s) =
     (if is_break c \<and> \<not> (c = 13 \<and> s \<noteq> [] \<and> hd s = 10)
      then Suc i # breaks_from (Suc i) s else breaks_from (Suc i) s)"

definition line_starts :: "rstring \<Rightarrow> nat list" where
  "line_starts s = 0 # breaks_from 0 s"

definition nlines :: "rstring \<Rightarrow> nat" where
  "nlines s = length (line_starts s)"

definition lstart :: "rstring \<Rightarrow> nat \<Rightarrow> nat" where
  "lstart s row = line_starts s ! row"

section \<open>The rope operations on lines\<close>

record 'r text_ops = "'r rope_ops" +
  rp_len_chars :: "'r \<Rightarrow> nat"
  rp_len_lines :: "'r \<Rightarrow> nat"
  rp_line_to_char :: "'r \<Rightarrow> nat \<Rightarrow> nat option"
  rp_line_to_byte :: "'r \<Rightarrow> nat \<Rightarrow> nat option"
  rp_char_to_byte :: "'r \<Rightarrow> nat \<Rightarrow> nat option"
  rp_slice :: "'r \<Rightarrow> nat \<Rightarrow> nat \<Rightarrow> rstring option"
  rp_char_at :: "'r \<Rightarrow> nat \<Rightarrow> rchar option"
  rp_line_chars :: "'r \<Rightarrow> nat \<Rightarrow> nat option"

definition line_to_char_spec :: "rstring \<Rightarrow> nat \<Rightarrow> nat option" where
  "line_to_char_spec s row =
     (if row < nlines s then Some (lstart s row)
      else if row = nlines s then Some (length s) else None)"

definition law_lines :: "'r text_ops \<Rightarrow> bool" where
  "law_lines R \<longleftrightarrow>
     (\<forall>r. rp_len_chars R r = length (rp_text R r)) \<and>
     (\<forall>r. rp_len_lines R r = nlines (rp_text R r)) \<and>
     (\<forall>r row. rp_line_to_char R r row = line_to_char_spec (rp_text R r) row) \<and>
     (\<forall>r row. rp_line_to_byte R r row = map_option (boff (rp_text R r)) (line_to_char_spec (rp_text R r) row)) \<and>
     (\<forall>r row. rp_line_chars R r row =
        (if row < nlines (rp_text R r)
         then Some (the (line_to_char_spec (rp_text R r) (Suc row)) - lstart (rp_text R r) row) else None))"

definition law_chars :: "'r text_ops \<Rightarrow> bool" where
  "law_chars R \<longleftrightarrow>
     (\<forall>r i. rp_char_to_byte R r i = (if i \<le> length (rp_text R r) then Some (boff (rp_text R r) i) else None)) \<and>
     (\<forall>r b. b < length (utf8 (rp_text R r)) \<longrightarrow> rp_byte_to_char R r b = chars_in_bytes (rp_text R r) b) \<and>
     (\<forall>r i j. rp_slice R r i j =
        (if i \<le> j \<and> j \<le> length (rp_text R r) then Some (take (j - i) (drop i (rp_text R r))) else None)) \<and>
     (\<forall>r i. rp_char_at R r i = (if i < length (rp_text R r) then Some (rp_text R r ! i) else None))"

definition text_laws :: "'r text_ops \<Rightarrow> bool" where
  "text_laws R \<longleftrightarrow> rope_laws (rope_ops.truncate R) \<and> law_lines R \<and> law_chars R"

definition flat_lines :: "rstring text_ops" where
  "flat_lines = rope_ops.extend flat_rope \<lparr>
     rp_len_chars = (\<lambda>r. length r),
     rp_len_lines = (\<lambda>r. nlines (flat_text r)),
     rp_line_to_char = (\<lambda>r. line_to_char_spec (flat_text r)),
     rp_line_to_byte = (\<lambda>r row. map_option (boff (flat_text r)) (line_to_char_spec (flat_text r) row)),
     rp_char_to_byte = (\<lambda>r i. if i \<le> length r then Some (boff (flat_text r) i) else None),
     rp_slice = (\<lambda>r i j. if i \<le> j \<and> j \<le> length r then Some (take (j - i) (drop i (flat_text r))) else None),
     rp_char_at = (\<lambda>r i. if i < length r then Some (flat_text r ! i) else None),
     rp_line_chars = (\<lambda>r row. if row < nlines (flat_text r)
        then Some (the (line_to_char_spec (flat_text r) (Suc row)) - lstart (flat_text r) row) else None)\<rparr>"

lemma flat_text_length [simp]: "length (flat_text s) = length s"
  by (simp add: flat_text_def)

lemma flat_lines_laws: "text_laws flat_lines"
proof -
  have "rope_ops.truncate flat_lines = flat_rope"
    by (simp add: flat_lines_def rope_ops.defs)
  then show ?thesis
    using flat_rope_laws
    by (simp add: text_laws_def law_lines_def law_chars_def flat_lines_def rope_ops.defs flat_rope_def)
qed

section \<open>The rope helpers\<close>

definition floor_char_boundary :: "'r text_ops \<Rightarrow> 'r \<Rightarrow> nat \<Rightarrow> nat option" where
  "floor_char_boundary R rope byte_idx =
     (let byte_idx = min byte_idx (rp_len_bytes R rope)
      in rp_char_to_byte R rope (rp_byte_to_char R rope byte_idx))"

definition rope_line_content_end :: "'r text_ops \<Rightarrow> 'r \<Rightarrow> nat \<Rightarrow> nat option" where
  "rope_line_content_end R rope row =
     (if row + 1 \<ge> rp_len_lines R rope then Some (rp_len_bytes R rope)
      else do {
        b \<leftarrow> rp_line_to_byte R rope (row + 1);
        floor_char_boundary R rope (b - 1)
      })"

definition rope_line_str :: "'r text_ops \<Rightarrow> 'r \<Rightarrow> nat \<Rightarrow> rstring option" where
  "rope_line_str R rope row = do {
     st \<leftarrow> rp_line_to_byte R rope row;
     e \<leftarrow> rope_line_content_end R rope row;
     if st \<le> e then Some (rp_byte_slice R rope st e) else None
   }"

definition rope_line_bytes :: "'r text_ops \<Rightarrow> 'r \<Rightarrow> nat \<Rightarrow> nat option" where
  "rope_line_bytes R rope row =
     (if row \<ge> rp_len_lines R rope then Some 0
      else do {
        e \<leftarrow> rope_line_content_end R rope row;
        st \<leftarrow> rp_line_to_byte R rope row;
        Some (e - st)
      })"

definition rope_line_char_count :: "'r text_ops \<Rightarrow> 'r \<Rightarrow> nat \<Rightarrow> nat option" where
  "rope_line_char_count R rope row =
     (if row \<ge> rp_len_lines R rope then Some 0
      else do {
        e \<leftarrow> rope_line_content_end R rope row;
        st \<leftarrow> rp_line_to_byte R rope row;
        Some (rp_byte_to_char R rope e - rp_byte_to_char R rope st)
      })"

definition pos_to_char_idx :: "'r text_ops \<Rightarrow> 'r \<Rightarrow> nat \<Rightarrow> nat \<Rightarrow> nat option" where
  "pos_to_char_idx R rope row col = do {
     let row = min row (rp_len_lines R rope - 1);
     line_start \<leftarrow> rp_line_to_char R rope row;
     n \<leftarrow> rope_line_char_count R rope row;
     Some (line_start + min col n)
   }"

section \<open>Lines of the text\<close>

text \<open>The chars of a row, without its separator; none past the last row.\<close>

definition row_chars :: "rstring \<Rightarrow> nat \<Rightarrow> nat" where
  "row_chars s row =
     (if row + 1 < nlines s then lstart s (row + 1) - 1 - lstart s row
      else if row + 1 = nlines s then length s - lstart s row else 0)"

definition char_index :: "rstring \<Rightarrow> nat \<Rightarrow> nat \<Rightarrow> nat" where
  "char_index s row col =
     (let row = min row (nlines s - 1) in lstart s row + min col (row_chars s row))"

lemma nlines_pos [simp]: "0 < nlines s"
  by (simp add: nlines_def line_starts_def)

lemma nlines_breaks: "nlines s = Suc (length (breaks_from 0 s))"
  by (simp add: nlines_def line_starts_def)

lemma last_row_lt: "min row (nlines s - 1) < nlines s"
  using nlines_pos [of s] by linarith

lemma lstart_0 [simp]: "lstart s 0 = 0"
  by (simp add: lstart_def line_starts_def)

lemma breaks_range: "b \<in> set (breaks_from i s) \<Longrightarrow> i < b \<and> b \<le> i + length s"
  by (induction s arbitrary: i) (fastforce split: if_splits)+

lemma breaks_sorted: "sorted_wrt (<) (breaks_from i s)"
proof (induction s arbitrary: i)
  case (Cons c s)
  then show ?case using breaks_range [of _ "Suc i" s] by auto
qed simp

lemma starts_sorted: "sorted_wrt (<) (line_starts s)"
  using breaks_sorted [of 0 s] breaks_range [of _ 0 s] by (auto simp: line_starts_def)

lemma lstart_less: "i < j \<Longrightarrow> j < nlines s \<Longrightarrow> lstart s i < lstart s j"
  using starts_sorted [of s] by (simp add: lstart_def nlines_def sorted_wrt_iff_nth_less)

lemma lstart_mono: "i \<le> j \<Longrightarrow> j < nlines s \<Longrightarrow> lstart s i \<le> lstart s j"
  using lstart_less [of i j s] by (cases "i = j") auto

lemma lstart_le: "row < nlines s \<Longrightarrow> lstart s row \<le> length s"
proof -
  assume "row < nlines s"
  then have "lstart s row \<in> set (line_starts s)" by (simp add: lstart_def nlines_def)
  then show ?thesis using breaks_range [of "lstart s row" 0 s] by (auto simp: line_starts_def)
qed

lemma row_end_le:
  assumes "row < nlines s"
  shows "lstart s row + row_chars s row \<le> length s"
  using assms lstart_less [of row "Suc row" s] lstart_le [of "Suc row" s] lstart_le [of row s]
  by (auto simp: row_chars_def)

lemma row_end_less:
  assumes "row + 1 < nlines s"
  shows "lstart s row + row_chars s row < length s"
    and "lstart s (Suc row) = lstart s row + row_chars s row + 1"
  using assms lstart_less [of row "Suc row" s] lstart_le [of "Suc row" s]
  by (simp_all add: row_chars_def)

lemma char_index_le [simp]: "char_index s row col \<le> length s"
  using row_end_le [OF last_row_lt, of s row] by (simp add: char_index_def Let_def)

section \<open>The helpers over the text\<close>

lemma boff_pos: "0 < k \<Longrightarrow> s \<noteq> [] \<Longrightarrow> 0 < boff s k"
  by (cases s; cases k) auto

lemma chars_before:
  "0 < k \<Longrightarrow> k \<le> length s \<Longrightarrow> chars_in_bytes s (boff s k - 1) = k - 1"
proof (induction s arbitrary: k)
  case (Cons c s)
  then obtain j where k: "k = Suc j" by (cases k) auto
  have n: "0 < length (utf8_char c)" by simp
  show ?case
  proof (cases j)
    case 0
    with k n show ?thesis by simp
  next
    case (Suc i)
    with Cons.prems k have "0 < boff s j" by (intro boff_pos) auto
    then have "length (utf8_char c) + boff s j - 1 - length (utf8_char c) = boff s j - 1"
      and "\<not> length (utf8_char c) + boff s j - 1 < length (utf8_char c)" by linarith+
    with Cons k Suc show ?thesis by simp
  qed
qed simp

lemma text_laws_rope: "text_laws R \<Longrightarrow> rope_laws (rope_ops.truncate R)"
  by (simp add: text_laws_def)

lemma truncate_simps [simp]:
  "rp_text (rope_ops.truncate R) = rp_text R"
  "rp_len_bytes (rope_ops.truncate R) = rp_len_bytes R"
  "rp_byte_to_char (rope_ops.truncate R) = rp_byte_to_char R"
  "rp_byte_slice (rope_ops.truncate R) = rp_byte_slice R"
  "rp_remove (rope_ops.truncate R) = rp_remove R"
  "rp_insert (rope_ops.truncate R) = rp_insert R"
  by (simp_all add: rope_ops.defs)

lemma text_lawsD:
  assumes "text_laws R"
  shows text_len_chars: "rp_len_chars R r = length (rp_text R r)"
    and text_len_lines: "rp_len_lines R r = nlines (rp_text R r)"
    and text_line_to_char: "rp_line_to_char R r row = line_to_char_spec (rp_text R r) row"
    and text_line_to_byte:
      "rp_line_to_byte R r row = map_option (boff (rp_text R r)) (line_to_char_spec (rp_text R r) row)"
    and text_line_chars: "row < nlines (rp_text R r) \<Longrightarrow> rp_line_chars R r row =
      Some (the (line_to_char_spec (rp_text R r) (Suc row)) - lstart (rp_text R r) row)"
    and text_char_to_byte: "i \<le> length (rp_text R r) \<Longrightarrow> rp_char_to_byte R r i = Some (boff (rp_text R r) i)"
    and text_slice: "i \<le> j \<Longrightarrow> j \<le> length (rp_text R r) \<Longrightarrow>
      rp_slice R r i j = Some (take (j - i) (drop i (rp_text R r)))"
    and text_char_at: "i < length (rp_text R r) \<Longrightarrow> rp_char_at R r i = Some (rp_text R r ! i)"
    and text_byte_inside:
      "b < length (utf8 (rp_text R r)) \<Longrightarrow> rp_byte_to_char R r b = chars_in_bytes (rp_text R r) b"
  using assms by (simp_all add: text_laws_def law_lines_def law_chars_def)

lemma text_ropeD:
  assumes "text_laws R"
  shows text_valid [simp]: "valid_str (rp_text R r)"
    and text_len_bytes: "rp_len_bytes R r = length (utf8 (rp_text R r))"
    and text_byte_to_char:
      "i \<le> length (rp_text R r) \<Longrightarrow> rp_byte_to_char R r (boff (rp_text R r) i) = i"
    and text_byte_slice: "i \<le> j \<Longrightarrow> j \<le> length (rp_text R r) \<Longrightarrow>
      rp_byte_slice R r (boff (rp_text R r) i) (boff (rp_text R r) j) = take (j - i) (drop i (rp_text R r))"
  using rope_valid [OF text_laws_rope [OF assms], of r] rope_len_bytes [OF text_laws_rope [OF assms], of r]
    rope_byte_to_char [OF text_laws_rope [OF assms], of i r] rope_byte_slice [OF text_laws_rope [OF assms], of i j r]
  by (simp_all add: rp_bytes_def)

lemma text_insert:
  assumes "text_laws R" and "i \<le> length (rp_text R r)" and "valid_str t"
  obtains r' where "rp_insert R r i t = Some r'"
    and "rp_text R r' = take i (rp_text R r) @ t @ drop i (rp_text R r)"
  using rope_insert [OF text_laws_rope [OF assms(1)], of i r t] assms(2,3) by auto

lemma text_remove:
  assumes "text_laws R" and "i \<le> j" and "j \<le> length (rp_text R r)"
  obtains r' where "rp_remove R r i j = Some r'"
    and "rp_text R r' = take i (rp_text R r) @ drop j (rp_text R r)"
  using rope_remove [OF text_laws_rope [OF assms(1)], of i j r] assms(2,3) by auto

lemma floor_char_boundary_before:
  assumes R: "text_laws R" and k: "0 < k" "k \<le> length (rp_text R r)"
  shows "floor_char_boundary R r (boff (rp_text R r) k - 1) = Some (boff (rp_text R r) (k - 1))"
proof -
  let ?s = "rp_text R r"
  from k have "0 < boff ?s k" by (intro boff_pos) auto
  then have "boff ?s k - 1 < length (utf8 ?s)" using boff_le [of ?s k] by linarith
  moreover from this have "rp_byte_to_char R r (boff ?s k - 1) = k - 1"
    using text_byte_inside [OF R] chars_before [OF k] by simp
  ultimately show ?thesis
    using k text_char_to_byte [OF R, of "k - 1" r]
    by (simp add: floor_char_boundary_def Let_def text_len_bytes [OF R])
qed

lemma rope_line_content_end_text:
  assumes R: "text_laws R" and row: "row < nlines (rp_text R r)"
  shows "rope_line_content_end R r row =
    Some (boff (rp_text R r) (lstart (rp_text R r) row + row_chars (rp_text R r) row))"
proof (cases "row + 1 < nlines (rp_text R r)")
  case True
  let ?k = "lstart (rp_text R r) (Suc row)"
  have k: "0 < ?k" "?k \<le> length (rp_text R r)"
    using True lstart_less [of row "Suc row" "rp_text R r"] lstart_le [of "Suc row" "rp_text R r"] by auto
  show ?thesis
    using True floor_char_boundary_before [OF R k] row_end_less [OF True]
    by (simp add: rope_line_content_end_def text_len_lines [OF R] text_line_to_byte [OF R]
        line_to_char_spec_def)
next
  case False
  with row show ?thesis
    using lstart_le [OF row]
    by (simp add: rope_line_content_end_def text_len_lines [OF R] text_len_bytes [OF R] row_chars_def)
qed

lemma rope_line_char_count_text:
  assumes R: "text_laws R"
  shows "rope_line_char_count R r row = Some (row_chars (rp_text R r) row)"
proof (cases "row < nlines (rp_text R r)")
  case True
  then show ?thesis
    using row_end_le [OF True] lstart_le [OF True]
    by (simp add: rope_line_char_count_def text_len_lines [OF R] rope_line_content_end_text [OF R]
        text_line_to_byte [OF R] line_to_char_spec_def text_byte_to_char [OF R])
next
  case False
  then show ?thesis
    by (simp add: rope_line_char_count_def text_len_lines [OF R] row_chars_def)
qed

lemma rope_line_str_text:
  assumes R: "text_laws R" and row: "row < nlines (rp_text R r)"
  shows "rope_line_str R r row =
    Some (take (row_chars (rp_text R r) row) (drop (lstart (rp_text R r) row) (rp_text R r)))"
  using row_end_le [OF row] row
  by (simp add: rope_line_str_def text_line_to_byte [OF R] line_to_char_spec_def
      rope_line_content_end_text [OF R] boff_mono text_byte_slice [OF R])

lemma rope_line_bytes_text:
  assumes R: "text_laws R" and row: "row < nlines (rp_text R r)"
  shows "map_option (\<lambda>l. length (utf8 l)) (rope_line_str R r row) = rope_line_bytes R r row"
proof -
  let ?s = "rp_text R r"
  define a l where "a = take (lstart ?s row) ?s" and "l = take (row_chars ?s row) (drop (lstart ?s row) ?s)"
  have "take (lstart ?s row + row_chars ?s row) ?s = a @ l"
    by (simp add: a_def l_def take_add)
  then have "boff ?s (lstart ?s row + row_chars ?s row) - boff ?s (lstart ?s row) = length (utf8 l)"
    by (simp add: boff_def a_def)
  then show ?thesis
    using row by (simp add: rope_line_str_text [OF R] l_def rope_line_bytes_def text_len_lines [OF R]
        rope_line_content_end_text [OF R] text_line_to_byte [OF R] line_to_char_spec_def)
qed

lemma pos_to_char_idx_text:
  assumes R: "text_laws R"
  shows "pos_to_char_idx R r row col = Some (char_index (rp_text R r) row col)"
  using last_row_lt [of row "rp_text R r"]
  by (simp add: pos_to_char_idx_def Let_def text_len_lines [OF R] text_line_to_char [OF R]
      line_to_char_spec_def rope_line_char_count_text [OF R] char_index_def)

end
