(* ===== verification/Edit.thy ===== *)
theory Edit
  imports TextLines
begin

text \<open>
  The edits of a buffer (\<open>crates/hjkl-buffer/src/edit.rs\<close>), with the part of the shared
  \<open>Buffer\<close> and of a \<open>View\<close> they change (\<open>content.rs\<close>, \<open>buffer.rs\<close>).  \<open>apply_edit\<close> returns
  the inverse edit and the new view, or \<open>None\<close> where the source panics.  A loop over rows
  is a recursion on the list it walks; \<open>usize\<close> is \<open>nat\<close>, the generation a 64-bit word.
  The sums of columns and rows therefore do not overflow here: \<open>usize_ok\<close> in \<open>EditSafe\<close>
  lists those the source forms from the numbers of an edit.
\<close>

section \<open>Positions\<close>

datatype position = Position (p_row: nat) (p_col: nat)

text \<open>The derived order: rows first, then columns.\<close>

instantiation position :: linorder
begin

definition less_eq_position :: "position \<Rightarrow> position \<Rightarrow> bool" where
  "less_eq_position p q \<longleftrightarrow> p_row p < p_row q \<or> (p_row p = p_row q \<and> p_col p \<le> p_col q)"

definition less_position :: "position \<Rightarrow> position \<Rightarrow> bool" where
  "less_position p q \<longleftrightarrow> p_row p < p_row q \<or> (p_row p = p_row q \<and> p_col p < p_col q)"

instance
  by (intro_classes) (auto simp: less_eq_position_def less_position_def intro: position.expand)

end

definition byte_offset :: "position \<Rightarrow> rstring \<Rightarrow> nat" where
  "byte_offset p line = (if p_col p < length line then boff line (p_col p) else length (utf8 line))"

definition order :: "position \<Rightarrow> position \<Rightarrow> position \<times> position" where
  "order a b = (if a \<le> b then (a, b) else (b, a))"

section \<open>The edits\<close>

datatype motion_kind = Char | Line | Block

datatype edit =
    InsertChar position rchar
  | InsertStr position rstring
  | DeleteRange position position motion_kind
  | JoinLines nat nat bool
  | SplitLines nat "nat list" "bool list"
  | Replace position position rstring
  | InsertBlock position "rstring list"
  | DeleteBlockChunks position "nat list" "nat list"

section \<open>The view\<close>

record 'r content =
  c_text :: 'r
  c_dirty_gen :: "64 word"
  c_cached_joined :: "(64 word \<times> rstring) option"
  c_cached_byte_len :: "(64 word \<times> nat) option"
  c_last_cursor :: "nat \<times> nat"

record 'r view =
  v_content :: "'r content"
  v_cursor :: position

abbreviation view_rope :: "'r view \<Rightarrow> 'r" where
  "view_rope v \<equiv> c_text (v_content v)"

definition set_text :: "'r \<Rightarrow> 'r view \<Rightarrow> 'r view" where
  "set_text rope v = v\<lparr>v_content := (v_content v)\<lparr>c_text := rope\<rparr>\<rparr>"

definition view_from_str :: "'r text_ops \<Rightarrow> rstring \<Rightarrow> 'r view" where
  "view_from_str R s =
     \<lparr>v_content = \<lparr>c_text = rp_from_str R s, c_dirty_gen = 0, c_cached_joined = None,
        c_cached_byte_len = None, c_last_cursor = (0, 0)\<rparr>,
      v_cursor = Position 0 0\<rparr>"

definition new_view :: "'r content \<Rightarrow> 'r view" where
  "new_view c = \<lparr>v_content = c, v_cursor = Position 0 0\<rparr>"

definition dirty_gen_bump :: "'r view \<Rightarrow> 'r view" where
  "dirty_gen_bump v = v\<lparr>v_content := (v_content v)\<lparr>c_dirty_gen := c_dirty_gen (v_content v) + 1,
     c_cached_joined := None, c_cached_byte_len := None\<rparr>\<rparr>"

definition clamp_position :: "'r text_ops \<Rightarrow> 'r view \<Rightarrow> position \<Rightarrow> position option" where
  "clamp_position R v pos = (
     let row = min (p_row pos) (rp_len_lines R (view_rope v) - 1) in do {
       line_chars \<leftarrow> rope_line_char_count R (view_rope v) row;
       Some (Position row (min (p_col pos) line_chars))
     })"

definition set_cursor :: "'r text_ops \<Rightarrow> position \<Rightarrow> 'r view \<Rightarrow> 'r view option" where
  "set_cursor R pos v = (
     let row = min (p_row pos) (rp_len_lines R (view_rope v) - 1) in do {
       line_chars \<leftarrow> rope_line_char_count R (view_rope v) row;
       let col = min (p_col pos) line_chars;
       Some (v\<lparr>v_content := (v_content v)\<lparr>c_last_cursor := (row, col)\<rparr>, v_cursor := Position row col\<rparr>)
     })"

definition view_replace_all :: "'r text_ops \<Rightarrow> rstring \<Rightarrow> 'r view \<Rightarrow> 'r view option" where
  "view_replace_all R s v = (
     let rope = rp_from_str R s; row = min (p_row (v_cursor v)) (rp_len_lines R rope - 1) in do {
       line_chars \<leftarrow> rope_line_char_count R rope row;
       Some \<lparr>v_content = (v_content v)\<lparr>c_text := rope, c_dirty_gen := c_dirty_gen (v_content v) + 1,
               c_cached_joined := None, c_cached_byte_len := None\<rparr>,
             v_cursor = Position row (min (p_col (v_cursor v)) line_chars)\<rparr>
     })"

text \<open>The two caches keyed by the generation: the answer and the view with the cache filled.\<close>

definition byte_len :: "'r text_ops \<Rightarrow> 'r view \<Rightarrow> nat \<times> 'r view" where
  "byte_len R v = (
     let c = v_content v; dg = c_dirty_gen c; total = rp_len_bytes R (c_text c);
         fill = (total, v\<lparr>v_content := c\<lparr>c_cached_byte_len := Some (dg, total)\<rparr>\<rparr>)
     in case c_cached_byte_len c of
          Some (cached_dg, len) \<Rightarrow> if cached_dg = dg then (len, v) else fill
        | None \<Rightarrow> fill)"

definition content_joined :: "'r text_ops \<Rightarrow> 'r view \<Rightarrow> rstring \<times> 'r view" where
  "content_joined R v = (
     let c = v_content v; dg = c_dirty_gen c; joined = rp_text R (c_text c);
         fill = (joined, v\<lparr>v_content := c\<lparr>c_cached_joined := Some (dg, joined)\<rparr>\<rparr>)
     in case c_cached_joined c of
          Some (cached_dg, s) \<Rightarrow> if cached_dg = dg then (s, v) else fill
        | None \<Rightarrow> fill)"

section \<open>Char surgery\<close>

definition rope_cut_chars :: "'r text_ops \<Rightarrow> 'r \<Rightarrow> position \<Rightarrow> position \<Rightarrow> (rstring \<times> 'r) option" where
  "rope_cut_chars R rope s e = (
     let (s, e) = order s e; n = rp_len_lines R rope;
         start_row = min (p_row s) (n - 1); end_row = min (p_row e) (n - 1)
     in do {
       slc \<leftarrow> rope_line_char_count R rope start_row;
       elc \<leftarrow> rope_line_char_count R rope end_row;
       sl \<leftarrow> rp_line_to_char R rope start_row;
       el \<leftarrow> rp_line_to_char R rope end_row;
       let char_start = sl + min (p_col s) slc;
       let char_end = el + min (p_col e) elc;
       if char_start \<ge> char_end then Some ([], rope)
       else do {
         removed \<leftarrow> rp_slice R rope char_start char_end;
         rope \<leftarrow> rp_remove R rope char_start char_end;
         Some (removed, rope)
       }
     })"

text \<open>\<open>text.split('\\n').count()\<close>, and the chars after the last newline.\<close>

definition split_count :: "rstring \<Rightarrow> nat" where
  "split_count t = Suc (length (filter (\<lambda>c. c = 10) t))"

definition last_piece :: "rstring \<Rightarrow> rstring" where
  "last_piece t = rev (takeWhile (\<lambda>c. c \<noteq> 10) (rev t))"

definition inserted_end :: "position \<Rightarrow> rstring \<Rightarrow> position" where
  "inserted_end p t =
     (if split_count t > 1 then Position (p_row p + split_count t - 1) (length (last_piece t))
      else Position (p_row p) (p_col p + length t))"

definition do_insert_str :: "'r text_ops \<Rightarrow> position \<Rightarrow> rstring \<Rightarrow> 'r view \<Rightarrow> (edit \<times> 'r view) option" where
  "do_insert_str R pos t v = do {
     normalised \<leftarrow> clamp_position R v pos;
     char_idx \<leftarrow> pos_to_char_idx R (view_rope v) (p_row normalised) (p_col normalised);
     rope \<leftarrow> rp_insert R (view_rope v) char_idx t;
     v \<leftarrow> set_cursor R (inserted_end normalised t) (dirty_gen_bump (set_text rope v));
     Some (DeleteRange normalised (inserted_end normalised t) Char, v)
   }"

definition do_replace :: "'r text_ops \<Rightarrow> position \<Rightarrow> position \<Rightarrow> rstring \<Rightarrow> 'r view \<Rightarrow> (edit \<times> 'r view) option" where
  "do_replace R s e t v = (
     let (s, e) = order s e in do {
       (removed, rope) \<leftarrow> rope_cut_chars R (view_rope v) s e;
       let v = set_text rope v;
       normalised \<leftarrow> clamp_position R v s;
       char_idx \<leftarrow> pos_to_char_idx R (view_rope v) (p_row normalised) (p_col normalised);
       rope \<leftarrow> rp_insert R (view_rope v) char_idx t;
       v \<leftarrow> set_cursor R (inserted_end normalised t) (dirty_gen_bump (set_text rope v));
       Some (Replace normalised (inserted_end normalised t) removed, v)
     })"

section \<open>Blocks\<close>

definition pad_row :: "'r text_ops \<Rightarrow> 'r \<Rightarrow> nat \<Rightarrow> nat \<Rightarrow> (nat \<times> 'r) option" where
  "pad_row R rope row col =
     (if row < rp_len_lines R rope then do {
        lc \<leftarrow> rope_line_char_count R rope row;
        if lc < col then do {
          i \<leftarrow> pos_to_char_idx R rope row lc;
          rope \<leftarrow> rp_insert R rope i (replicate (col - lc) 32);
          Some (col - lc, rope)
        } else Some (0, rope)
      } else Some (0, rope))"

definition insert_chunk :: "'r text_ops \<Rightarrow> 'r \<Rightarrow> nat \<Rightarrow> nat \<Rightarrow> rstring \<Rightarrow> 'r option" where
  "insert_chunk R rope row col chunk =
     (if row < rp_len_lines R rope then do {
        i \<leftarrow> pos_to_char_idx R rope row col;
        rp_insert R rope i chunk
      } else Some rope)"

fun insert_block_loop :: "'r text_ops \<Rightarrow> nat \<Rightarrow> nat \<Rightarrow> rstring list \<Rightarrow> 'r \<Rightarrow> (nat list \<times> nat list \<times> 'r) option" where
  "insert_block_loop R row col [] rope = Some ([], [], rope)"
| "insert_block_loop R row col (chunk # chunks) rope = do {
     (pad, rope) \<leftarrow> pad_row R rope row col;
     rope \<leftarrow> insert_chunk R rope row col chunk;
     (widths, pads, rope) \<leftarrow> insert_block_loop R (Suc row) col chunks rope;
     Some (length chunk # widths, pad # pads, rope)
   }"

definition do_insert_block :: "'r text_ops \<Rightarrow> position \<Rightarrow> rstring list \<Rightarrow> 'r view \<Rightarrow> (edit \<times> 'r view) option" where
  "do_insert_block R pos chunks v = do {
     (widths, pads, rope) \<leftarrow> insert_block_loop R (p_row pos) (p_col pos) chunks (view_rope v);
     v \<leftarrow> set_cursor R pos (dirty_gen_bump (set_text rope v));
     Some (DeleteBlockChunks pos widths pads, v)
   }"

definition delete_chunk :: "'r text_ops \<Rightarrow> 'r \<Rightarrow> nat \<Rightarrow> nat \<Rightarrow> nat \<Rightarrow> nat \<Rightarrow> (rstring \<times> 'r) option" where
  "delete_chunk R rope row at_col w pad =
     (if row \<ge> rp_len_lines R rope then Some ([], rope)
      else do {
        lc \<leftarrow> rope_line_char_count R rope row;
        let col_start = min (at_col - pad) lc;
        let col_end = min (at_col + w) lc;
        if col_start \<ge> col_end then Some ([], rope)
        else do {
          char_start \<leftarrow> pos_to_char_idx R rope row col_start;
          char_end \<leftarrow> pos_to_char_idx R rope row col_end;
          removed_span \<leftarrow> rp_slice R rope char_start char_end;
          rope \<leftarrow> rp_remove R rope char_start char_end;
          Some (drop (min at_col lc - col_start) removed_span, rope)
        }
      })"

text \<open>\<open>pads.get(i)\<close> is 0 past the end of \<open>pads\<close>.\<close>

fun delete_chunks_loop :: "'r text_ops \<Rightarrow> nat \<Rightarrow> nat \<Rightarrow> nat list \<Rightarrow> nat list \<Rightarrow> 'r \<Rightarrow> (rstring list \<times> 'r) option" where
  "delete_chunks_loop R row at_col [] pads rope = Some ([], rope)"
| "delete_chunks_loop R row at_col (w # widths) pads rope = do {
     (removed, rope) \<leftarrow> delete_chunk R rope row at_col w (case pads of [] \<Rightarrow> 0 | pad # _ \<Rightarrow> pad);
     (chunks, rope) \<leftarrow> delete_chunks_loop R (Suc row) at_col widths (drop 1 pads) rope;
     Some (removed # chunks, rope)
   }"

definition do_delete_block_chunks :: "'r text_ops \<Rightarrow> position \<Rightarrow> nat list \<Rightarrow> nat list \<Rightarrow> 'r view \<Rightarrow> (edit \<times> 'r view) option" where
  "do_delete_block_chunks R pos widths pads v = do {
     (chunks, rope) \<leftarrow> delete_chunks_loop R (p_row pos) (p_col pos) widths pads (view_rope v);
     v \<leftarrow> set_cursor R pos (dirty_gen_bump (set_text rope v));
     Some (InsertBlock pos chunks, v)
   }"

section \<open>Deleting a range\<close>

text \<open>The rows \<open>lo..=hi\<close>: the range removed, the rope left, and the inverse insertion.\<close>

definition line_range :: "'r text_ops \<Rightarrow> 'r \<Rightarrow> nat \<Rightarrow> nat \<Rightarrow> (nat \<times> nat) option" where
  "line_range R rope lo hi =
     (if hi + 1 < rp_len_lines R rope then do {
        s \<leftarrow> rp_line_to_char R rope lo;
        e \<leftarrow> rp_line_to_char R rope (hi + 1);
        Some (s, e)
      } else if lo > 0 then do {
        s \<leftarrow> rp_line_to_char R rope lo;
        Some (s - 1, rp_len_chars R rope)
      } else Some (0, rp_len_chars R rope))"

definition delete_lines :: "'r text_ops \<Rightarrow> nat \<Rightarrow> nat \<Rightarrow> 'r view \<Rightarrow> (edit \<times> 'r view) option" where
  "delete_lines R start_row end_row v = (
     let rope = view_rope v; n = rp_len_lines R rope;
         lo = min start_row (n - 1); hi = min end_row (n - 1)
     in do {
       (remove_start, remove_end) \<leftarrow> line_range R rope lo hi;
       removed_span \<leftarrow> (if remove_start = remove_end then Some []
                        else rp_slice R rope remove_start remove_end);
       rope \<leftarrow> rp_remove R rope remove_start remove_end;
       let target_row = min lo (rp_len_lines R rope - 1);
       inverse_at \<leftarrow> (if lo > 0 \<and> hi + 1 = n then do {
                          last_row_chars \<leftarrow> rp_line_chars R rope (lo - 1);
                          Some (Position (lo - 1) last_row_chars)
                        } else if hi + 1 = n then Some (Position 0 0)
                        else Some (Position lo 0));
       v \<leftarrow> set_cursor R (Position target_row 0) (dirty_gen_bump (set_text rope v));
       Some (InsertStr inverse_at removed_span, v)
     })"

text \<open>The rows of a block, as many as \<open>count\<close> from \<open>row\<close>.\<close>

fun cut_block_loop :: "'r text_ops \<Rightarrow> nat \<Rightarrow> nat \<Rightarrow> nat \<Rightarrow> nat \<Rightarrow> 'r \<Rightarrow> (rstring list \<times> 'r) option" where
  "cut_block_loop R row left right 0 rope = Some ([], rope)"
| "cut_block_loop R row left right (Suc count) rope = do {
     (removed, rope) \<leftarrow> (if row \<ge> rp_len_lines R rope then Some ([], rope)
       else rope_cut_chars R rope (Position row left) (Position row (right + 1)));
     (chunks, rope) \<leftarrow> cut_block_loop R (Suc row) left right count rope;
     Some (removed # chunks, rope)
   }"

definition do_delete_range :: "'r text_ops \<Rightarrow> position \<Rightarrow> position \<Rightarrow> motion_kind \<Rightarrow> 'r view \<Rightarrow> (edit \<times> 'r view) option" where
  "do_delete_range R s e kind v = (
     let (s, e) = order s e in
     case kind of
       Char \<Rightarrow> do {
         (removed, rope) \<leftarrow> rope_cut_chars R (view_rope v) s e;
         v \<leftarrow> set_cursor R s (dirty_gen_bump (set_text rope v));
         Some (InsertStr s removed, v)
       }
     | Line \<Rightarrow> delete_lines R (p_row s) (p_row e) v
     | Block \<Rightarrow>
         let left = min (p_col s) (p_col e); right = max (p_col s) (p_col e) in do {
           (chunks, rope) \<leftarrow> cut_block_loop R (p_row s) left right (p_row e - p_row s + 1) (view_rope v);
           v \<leftarrow> set_cursor R (Position (p_row s) left) (dirty_gen_bump (set_text rope v));
           Some (InsertBlock (Position (p_row s) left) chunks, v)
         })"

section \<open>Joining and splitting lines\<close>

text \<open>One join: the column of the join, whether a space was inserted, and the rope.\<close>

definition join_once :: "'r text_ops \<Rightarrow> nat \<Rightarrow> bool \<Rightarrow> 'r \<Rightarrow> (nat \<times> bool \<times> 'r) option" where
  "join_once R row with_space rope = do {
     join_col \<leftarrow> rope_line_char_count R rope row;
     line_start \<leftarrow> rp_line_to_char R rope row;
     let newline_char = line_start + join_col;
     rope \<leftarrow> rp_remove R rope newline_char (newline_char + 1);
     if with_space then do {
       merged_len \<leftarrow> rope_line_char_count R rope row;
       if join_col \<noteq> 0 \<and> join_col < merged_len then do {
         rope \<leftarrow> rp_insert R rope newline_char [32];
         Some (join_col, True, rope)
       } else Some (join_col, False, rope)
     } else Some (join_col, False, rope)
   }"

fun join_loop :: "'r text_ops \<Rightarrow> nat \<Rightarrow> bool \<Rightarrow> nat \<Rightarrow> 'r \<Rightarrow> (nat list \<times> bool list \<times> 'r) option" where
  "join_loop R row with_space 0 rope = Some ([], [], rope)"
| "join_loop R row with_space (Suc count) rope =
     (if row + 1 \<ge> rp_len_lines R rope then Some ([], [], rope)
      else do {
        (col, sp, rope) \<leftarrow> join_once R row with_space rope;
        (cols, sps, rope) \<leftarrow> join_loop R row with_space count rope;
        Some (col # cols, sp # sps, rope)
      })"

definition do_join_lines :: "'r text_ops \<Rightarrow> nat \<Rightarrow> nat \<Rightarrow> bool \<Rightarrow> 'r view \<Rightarrow> (edit \<times> 'r view) option" where
  "do_join_lines R row count with_space v = (
     let count = max count 1; row = min row (rp_len_lines R (view_rope v) - 1) in do {
       (split_cols, inserted_spaces, rope) \<leftarrow> join_loop R row with_space count (view_rope v);
       v \<leftarrow> set_cursor R (Position row 0) (dirty_gen_bump (set_text rope v));
       Some (SplitLines row split_cols inserted_spaces, v)
     })"

definition split_once :: "'r text_ops \<Rightarrow> nat \<Rightarrow> nat \<Rightarrow> bool \<Rightarrow> 'r \<Rightarrow> 'r option" where
  "split_once R row col inserted_space rope = do {
     lc \<leftarrow> rope_line_char_count R rope row;
     line_start \<leftarrow> rp_line_to_char R rope row;
     rope \<leftarrow> (if inserted_space then
                (if col < lc then do {
                   ch' \<leftarrow> rp_char_at R rope (line_start + col);
                   if ch' = 32 then rp_remove R rope (line_start + col) (line_start + col + 1) else Some rope
                 } else Some rope)
              else Some rope);
     line_start \<leftarrow> rp_line_to_char R rope row;
     rp_insert R rope (line_start + (if inserted_space then col else min col lc)) [10]
   }"

text \<open>The columns are walked from the last one; \<open>inserted_spaces.get(i)\<close> is false past its end.\<close>

fun split_loop :: "'r text_ops \<Rightarrow> nat \<Rightarrow> nat list \<Rightarrow> bool list \<Rightarrow> 'r \<Rightarrow> 'r option" where
  "split_loop R row [] sps rope = Some rope"
| "split_loop R row (col # cols) sps rope = do {
     rope \<leftarrow> split_loop R row cols (drop 1 sps) rope;
     split_once R row col (case sps of [] \<Rightarrow> False | sp # _ \<Rightarrow> sp) rope
   }"

definition do_split_lines :: "'r text_ops \<Rightarrow> nat \<Rightarrow> nat list \<Rightarrow> bool list \<Rightarrow> 'r view \<Rightarrow> (edit \<times> 'r view) option" where
  "do_split_lines R row cols inserted_spaces v = (
     let row = min row (rp_len_lines R (view_rope v) - 1) in do {
       rope \<leftarrow> split_loop R row cols inserted_spaces (view_rope v);
       v \<leftarrow> set_cursor R (Position row 0) (dirty_gen_bump (set_text rope v));
       Some (JoinLines row (length cols) (list_ex id inserted_spaces), v)
     })"

section \<open>Applying an edit\<close>

definition apply_edit :: "'r text_ops \<Rightarrow> edit \<Rightarrow> 'r view \<Rightarrow> (edit \<times> 'r view) option" where
  "apply_edit R e v =
     (case e of
        InsertChar pos c \<Rightarrow> do_insert_str R pos [c] v
      | InsertStr pos t \<Rightarrow> do_insert_str R pos t v
      | DeleteRange s e kind \<Rightarrow> do_delete_range R s e kind v
      | JoinLines row count with_space \<Rightarrow> do_join_lines R row count with_space v
      | SplitLines row cols sps \<Rightarrow> do_split_lines R row cols sps v
      | Replace s e t \<Rightarrow> do_replace R s e t v
      | InsertBlock pos chunks \<Rightarrow> do_insert_block R pos chunks v
      | DeleteBlockChunks pos widths pads \<Rightarrow> do_delete_block_chunks R pos widths pads v)"

end
