(* ===== verification/EditText.thy ===== *)
theory EditText
  imports Edit
begin

text \<open>
  Positions of a text whose only line breaks are newlines: a prefix \<open>a\<close> of the text ends
  at the position \<open>pos_at a\<close>, every valid position is the end of a prefix, and the rows are
  the pieces between newlines.  The char surgery and the insertion of \<open>edit.rs\<close> are given
  over the text of the rope.
\<close>

section \<open>Plain text and the position a prefix ends at\<close>

definition plain :: "rstring \<Rightarrow> bool" where
  "plain s \<longleftrightarrow> (\<forall>c \<in> set s. is_break c \<longrightarrow> c = 10)"

definition rowc :: "rstring \<Rightarrow> nat" where
  "rowc a = length (filter (\<lambda>c. c = 10) a)"

definition colc :: "rstring \<Rightarrow> nat" where
  "colc a = length (last_piece a)"

definition pos_at :: "rstring \<Rightarrow> position" where
  "pos_at a = Position (rowc a) (colc a)"

definition pos_ok :: "rstring \<Rightarrow> position \<Rightarrow> bool" where
  "pos_ok s p \<longleftrightarrow> p_row p < nlines s \<and> p_col p \<le> row_chars s (p_row p)"

lemma plain_simps [simp]:
  "plain []"
  "plain (c # s) \<longleftrightarrow> (is_break c \<longrightarrow> c = 10) \<and> plain s"
  "plain (s @ t) \<longleftrightarrow> plain s \<and> plain t"
  by (auto simp: plain_def)

lemma is_break_lf [simp]: "is_break 10"
  and is_break_cr [simp]: "is_break 13"
  by (simp_all add: is_break_def)

lemma plain_take: "plain s \<Longrightarrow> plain (take k s)"
  and plain_drop: "plain s \<Longrightarrow> plain (drop k s)"
  by (auto simp: plain_def dest: in_set_takeD in_set_dropD)

lemma plain_no_lf: "plain s \<Longrightarrow> 10 \<notin> set s \<Longrightarrow> \<forall>c \<in> set s. \<not> is_break c"
  by (auto simp: plain_def)

lemma rowc_simps [simp]:
  "rowc [] = 0"
  "rowc (c # s) = (if c = 10 then Suc (rowc s) else rowc s)"
  "rowc (s @ t) = rowc s + rowc t"
  by (simp_all add: rowc_def)

lemma rowc_0 [simp]: "rowc s = 0 \<longleftrightarrow> 10 \<notin> set s"
  by (induction s) auto

lemma last_piece_snoc: "last_piece (a @ [c]) = (if c = 10 then [] else last_piece a @ [c])"
  by (simp add: last_piece_def)

lemma last_piece_append: "last_piece (a @ t) = (if 10 \<in> set t then last_piece t else last_piece a @ t)"
proof (induction t rule: rev_induct)
  case (snoc c t)
  then show ?case by (simp add: last_piece_snoc flip: append_assoc)
qed simp

lemma last_piece_Nil [simp]: "last_piece [] = []"
  by (simp add: last_piece_def)

lemma colc_simps [simp]:
  "colc [] = 0"
  "colc (a @ t) = (if 10 \<in> set t then colc t else colc a + length t)"
  by (simp_all add: colc_def last_piece_append)

lemma colc_single [simp]: "colc [c] = (if c = 10 then 0 else 1)"
  by (simp add: colc_def last_piece_def)

lemma colc_le: "colc a \<le> length a"
  by (simp add: colc_def last_piece_def length_takeWhile_le [of _ "rev a", simplified])

lemma colc_lf_end [simp]: "colc (t @ [10]) = 0"
  by simp

lemma plain_breaks_append:
  "plain a \<Longrightarrow> breaks_from i (a @ b) = breaks_from i a @ breaks_from (i + length a) b"
proof (induction a arbitrary: i)
  case (Cons c a)
  from Cons.prems have "c \<noteq> 13" by auto
  with Cons show ?case by simp
qed simp

lemma breaks_plain_length: "plain a \<Longrightarrow> length (breaks_from i a) = rowc a"
proof (induction a arbitrary: i)
  case (Cons c a)
  from Cons.prems have "c \<noteq> 13" "is_break c \<longleftrightarrow> c = 10" "plain a" by auto
  with Cons.IH [of "Suc i"] show ?case by simp
qed simp

lemma nlines_plain: "plain s \<Longrightarrow> nlines s = Suc (rowc s)"
  by (simp add: nlines_breaks breaks_plain_length)

lemma last_start: "plain a \<Longrightarrow> last (i # breaks_from i a) = i + length a - colc a"
proof (induction a rule: rev_induct)
  case (snoc c a)
  from snoc.prems have c: "c \<noteq> 13" "is_break c \<longleftrightarrow> c = 10" "plain a" by auto
  with snoc.IH have IH: "last (i # breaks_from i a) = i + length a - colc a" by blast
  show ?case
  proof (cases "c = 10")
    case True
    with c show ?thesis by (simp add: plain_breaks_append)
  next
    case False
    with c IH show ?thesis by (simp add: plain_breaks_append split: if_splits)
  qed
qed simp

lemma lstart_at:
  assumes "plain a"
  shows "lstart (a @ b) (rowc a) = length a - colc a"
proof -
  have "lstart (a @ b) (rowc a) = (0 # breaks_from 0 a) ! rowc a"
    using assms by (cases "rowc a") (simp_all del: rowc_0 add: lstart_def line_starts_def plain_breaks_append
        breaks_plain_length nth_append)
  also have "\<dots> = last (0 # breaks_from 0 a)"
    using assms last_conv_nth [of "0 # breaks_from 0 a"] by (simp del: last.simps rowc_0 add: breaks_plain_length)
  finally show ?thesis using last_start [OF assms, of 0] by simp
qed

abbreviation line_part :: "rstring \<Rightarrow> rstring" where
  "line_part b \<equiv> takeWhile (\<lambda>c. c \<noteq> 10) b"

lemma line_part_cases:
  obtains (last) "b = line_part b" "10 \<notin> set b"
    | (more) b' where "b = line_part b @ 10 # b'"
proof (cases "10 \<in> set b")
  case True
  then obtain b' where "dropWhile (\<lambda>c. c \<noteq> 10) b = 10 # b'"
    by (metis (mono_tags, lifting) dropWhile_eq_Nil_conv hd_dropWhile list.collapse)
  then have "b = line_part b @ 10 # b'" by (metis takeWhile_dropWhile_id)
  then show ?thesis by (rule more)
next
  case False
  then have "line_part b = b" unfolding takeWhile_eq_all_conv by blast
  then have "b = line_part b" by (rule sym)
  then show ?thesis using False by (rule last)
qed

lemma line_part_no_lf [simp]: "10 \<notin> set (line_part b)"
  using set_takeWhileD by fastforce

lemma row_chars_at:
  assumes p: "plain (a @ b)"
  shows "row_chars (a @ b) (rowc a) = colc a + length (line_part b)"
proof (cases b rule: line_part_cases)
  case last
  have "lstart (a @ b) (rowc a) = length a - colc a" using p by (intro lstart_at) simp
  moreover have "nlines (a @ b) = Suc (rowc a)" using p last(2) by (simp add: nlines_plain)
  ultimately show ?thesis using last(1) colc_le [of a] by (simp add: row_chars_def)
next
  case (more b')
  let ?L = "line_part b"
  have pl: "plain a" "plain ?L"
    using p by (auto simp: plain_def dest: set_takeWhileD)
  have "nlines (a @ b) = Suc (rowc a + rowc b)" using p by (simp add: nlines_plain)
  moreover have "rowc b = Suc (rowc b')"
    by (subst more) (simp add: rowc_0 [THEN iffD2])
  moreover have "lstart (a @ b) (rowc a) = length a - colc a" using p by (intro lstart_at) simp
  moreover have "lstart (a @ b) (Suc (rowc a)) = length a + length ?L + 1"
  proof -
    have "lstart ((a @ ?L @ [10]) @ b') (rowc (a @ ?L @ [10])) = length (a @ ?L @ [10]) - colc (a @ ?L @ [10])"
      using pl by (intro lstart_at) simp
    then show ?thesis using more by (simp add: rowc_0 [THEN iffD2])
  qed
  ultimately show ?thesis using colc_le [of a] by (simp add: row_chars_def)
qed

lemma pos_at_ok: "plain (a @ b) \<Longrightarrow> pos_ok (a @ b) (pos_at a)"
  by (simp add: pos_ok_def pos_at_def nlines_plain row_chars_at)

lemma char_index_at:
  assumes "plain (a @ b)"
  shows "char_index (a @ b) (rowc a) col = length a - colc a + min col (colc a + length (line_part b))"
proof -
  have "min (rowc a) (nlines (a @ b) - 1) = rowc a" using assms by (simp add: nlines_plain)
  then show ?thesis using assms by (simp add: char_index_def row_chars_at lstart_at)
qed

lemma char_index_pos_at: "plain (a @ b) \<Longrightarrow> char_index (a @ b) (rowc a) (colc a) = length a"
  using colc_le [of a] by (simp add: char_index_at)

lemma row_split:
  assumes "plain s" and "row < nlines s"
  shows "\<exists>a b. s = a @ b \<and> rowc a = row \<and> colc a = 0"
  using assms(2)
proof (induction row)
  case 0
  have "s = [] @ s \<and> rowc [] = 0 \<and> colc [] = 0" by simp
  then show ?case by blast
next
  case (Suc row)
  then obtain a b where s: "s = a @ b" "rowc a = row" "colc a = 0" by auto
  show ?case
  proof (cases b rule: line_part_cases)
    case last
    with s Suc.prems assms(1) show ?thesis by (simp add: nlines_plain rowc_0 [THEN iffD2] flip: rowc_0)
  next
    case (more b')
    let ?a = "a @ line_part b @ [10]"
    have "s = ?a @ b'" using s(1) more by simp
    moreover have "rowc ?a = Suc row" using s(2) by (simp add: rowc_0 [THEN iffD2])
    moreover have "colc ?a = 0" by simp
    ultimately show ?thesis by blast
  qed
qed

lemma pos_split:
  assumes p: "plain s" and ok: "pos_ok s p"
  obtains a b where "s = a @ b" and "p = pos_at a"
proof -
  obtain a b where s: "s = a @ b" "rowc a = p_row p" "colc a = 0"
    using row_split [OF p, of "p_row p"] ok by (auto simp: pos_ok_def)
  have c: "p_col p \<le> length (line_part b)"
    using ok row_chars_at [of a b] p s by (simp add: pos_ok_def)
  let ?L = "take (p_col p) (line_part b)"
  have no: "10 \<notin> set ?L" using line_part_no_lf [of b] in_set_takeD by fast
  have "take (p_col p) b = ?L"
    using c by (subst (1) takeWhile_dropWhile_id [of "\<lambda>c. c \<noteq> 10" b, symmetric]) (simp del: takeWhile_dropWhile_id)
  then have "s = (a @ ?L) @ drop (p_col p) b" using s(1) by (metis append.assoc append_take_drop_id)
  moreover have "p = pos_at (a @ ?L)"
    using no s c by (cases p) (simp add: pos_at_def rowc_0 [THEN iffD2])
  ultimately show ?thesis by (rule that)
qed

lemma pos_at_mono: "pos_at a \<le> pos_at (a @ m)"
  using rowc_0 [of m] by (auto simp del: rowc_0 simp: pos_at_def less_eq_position_def)

lemma inserted_end_at: "inserted_end (pos_at a) t = pos_at (a @ t)"
  using rowc_0 [of t] by (auto simp: inserted_end_def pos_at_def split_count_def colc_def rowc_def)
    (simp_all add: last_piece_append)

section \<open>Clamping and the view after an edit\<close>

definition clampp :: "rstring \<Rightarrow> position \<Rightarrow> position" where
  "clampp s p =
     (let row = min (p_row p) (nlines s - 1) in Position row (min (p_col p) (row_chars s row)))"

abbreviation index_of :: "rstring \<Rightarrow> position \<Rightarrow> nat" where
  "index_of s p \<equiv> char_index s (p_row p) (p_col p)"

lemma clampp_ok: "pos_ok s (clampp s p)"
  using last_row_lt [of "p_row p" s] by (simp add: clampp_def Let_def pos_ok_def)

lemma clampp_id: "pos_ok s p \<Longrightarrow> clampp s p = p"
  using min_absorb1 [of "p_row p" "nlines s - 1"] by (cases p) (auto simp: clampp_def Let_def pos_ok_def)

lemma index_of_clampp [simp]: "index_of s (clampp s p) = index_of s p"
  by (simp add: clampp_def Let_def char_index_def)

lemma index_of_at: "plain (a @ b) \<Longrightarrow> index_of (a @ b) (pos_at a) = length a"
  by (simp add: pos_at_def char_index_pos_at)

lemma clamp_position_text:
  assumes R: "text_laws R"
  shows "clamp_position R v p = Some (clampp (rp_text R (view_rope v)) p)"
  by (simp add: clamp_position_def clampp_def Let_def text_len_lines [OF R] rope_line_char_count_text [OF R])

definition edited :: "'r text_ops \<Rightarrow> 'r \<Rightarrow> position \<Rightarrow> 'r view \<Rightarrow> 'r view" where
  "edited R rope p v =
     (let q = clampp (rp_text R rope) p in
      v\<lparr>v_content := (v_content v)\<lparr>c_text := rope, c_dirty_gen := c_dirty_gen (v_content v) + 1,
          c_cached_joined := None, c_cached_byte_len := None, c_last_cursor := (p_row q, p_col q)\<rparr>,
        v_cursor := q\<rparr>)"

lemma set_cursor_text:
  assumes R: "text_laws R"
  shows "set_cursor R p v =
    (let q = clampp (rp_text R (view_rope v)) p in
     Some (v\<lparr>v_content := (v_content v)\<lparr>c_last_cursor := (p_row q, p_col q)\<rparr>, v_cursor := q\<rparr>))"
  by (simp add: set_cursor_def clampp_def Let_def text_len_lines [OF R] rope_line_char_count_text [OF R])

lemma finish_edit:
  assumes R: "text_laws R"
  shows "set_cursor R p (dirty_gen_bump (set_text rope v)) = Some (edited R rope p v)"
  by (simp add: set_cursor_text [OF R] dirty_gen_bump_def set_text_def edited_def Let_def)

lemma edited_simps [simp]:
  "view_rope (edited R rope p v) = rope"
  "c_dirty_gen (v_content (edited R rope p v)) = c_dirty_gen (v_content v) + 1"
  "c_cached_joined (v_content (edited R rope p v)) = None"
  "c_cached_byte_len (v_content (edited R rope p v)) = None"
  "v_cursor (edited R rope p v) = clampp (rp_text R rope) p"
  by (simp_all add: edited_def Let_def)

lemma set_text_simps [simp]: "view_rope (set_text rope v) = rope"
  by (simp add: set_text_def)

lemma edited_set_text [simp]: "edited R rope p (set_text rope' v) = edited R rope p v"
  by (simp add: edited_def set_text_def Let_def)

section \<open>Char surgery over the text\<close>

lemma rope_cut_chars_text:
  fixes rope :: 'r and s e :: position
  assumes R: "text_laws (R :: 'r text_ops)" and "s \<le> e"
  defines "i \<equiv> index_of (rp_text R rope) s" and "j \<equiv> index_of (rp_text R rope) e"
  obtains rope' where
    "rope_cut_chars R rope s e = Some (take (j - i) (drop i (rp_text R rope)), rope')"
    and "rp_text R rope' = take i (rp_text R rope) @ drop (max i j) (rp_text R rope)"
proof -
  let ?T = "rp_text R rope"
  have eval: "rope_cut_chars R rope s e =
      (if i \<ge> j then Some ([], rope)
       else do {
         removed \<leftarrow> rp_slice R rope i j;
         rope' \<leftarrow> rp_remove R rope i j;
         Some (removed, rope')
       })"
    using \<open>s \<le> e\<close> last_row_lt [of "p_row s" ?T] last_row_lt [of "p_row e" ?T]
    by (simp add: rope_cut_chars_def order_def Let_def text_len_lines [OF R] text_line_to_char [OF R]
        rope_line_char_count_text [OF R] line_to_char_spec_def i_def j_def char_index_def)
  show ?thesis
  proof (cases "i \<ge> j")
    case True
    with eval show ?thesis by (intro that [of rope]) (simp_all add: max_absorb1)
  next
    case False
    then have ij: "i \<le> j" and j: "j \<le> length ?T" by (simp_all add: j_def)
    from text_remove [OF R ij j] obtain r' where
      r': "rp_remove R rope i j = Some r'" "rp_text R r' = take i ?T @ drop j ?T" .
    with eval False text_slice [OF R ij j] show ?thesis
      by (intro that [of r']) (simp_all add: max_absorb2)
  qed
qed

lemma do_insert_str_text:
  assumes R: "text_laws R" and t: "valid_str t"
  defines "T \<equiv> \<lambda>v. rp_text R (view_rope v)"
  obtains rope' where
    "do_insert_str R p t v =
       Some (DeleteRange (clampp (T v) p) (inserted_end (clampp (T v) p) t) Char,
             edited R rope' (inserted_end (clampp (T v) p) t) v)"
    and "rp_text R rope' = take (index_of (T v) p) (T v) @ t @ drop (index_of (T v) p) (T v)"
proof -
  from text_insert [OF R char_index_le t, of "view_rope v" "p_row p" "p_col p"] obtain r' where
    r': "rp_insert R (view_rope v) (index_of (T v) p) t = Some r'"
    "rp_text R r' = take (index_of (T v) p) (T v) @ t @ drop (index_of (T v) p) (T v)"
    unfolding T_def .
  then show ?thesis
    by (intro that [of r'])
      (simp_all add: do_insert_str_def clamp_position_text [OF R] pos_to_char_idx_text [OF R]
        finish_edit [OF R] T_def)
qed

text \<open>Over a plain text split at the position.\<close>

lemma insert_str_at:
  assumes R: "text_laws R" and T: "rp_text R (view_rope v) = a @ b" and p: "plain (a @ b)"
    and t: "valid_str t"
  obtains rope' where
    "do_insert_str R (pos_at a) t v =
       Some (DeleteRange (pos_at a) (pos_at (a @ t)) Char, edited R rope' (pos_at (a @ t)) v)"
    and "rp_text R rope' = a @ t @ b"
proof -
  from do_insert_str_text [OF R t, of "pos_at a" v] obtain r' where
    "do_insert_str R (pos_at a) t v =
       Some (DeleteRange (clampp (a @ b) (pos_at a)) (inserted_end (clampp (a @ b) (pos_at a)) t) Char,
             edited R r' (inserted_end (clampp (a @ b) (pos_at a)) t) v)"
    "rp_text R r' = take (index_of (a @ b) (pos_at a)) (a @ b) @ t @ drop (index_of (a @ b) (pos_at a)) (a @ b)"
    unfolding T .
  then show ?thesis
    unfolding clampp_id [OF pos_at_ok [OF p]] inserted_end_at index_of_at [OF p] by (intro that [of r']) simp_all
qed

lemma cut_chars_at:
  assumes R: "text_laws R" and T: "rp_text R rope = a @ m @ b" and p: "plain (a @ m @ b)"
  obtains rope' where "rope_cut_chars R rope (pos_at a) (pos_at (a @ m)) = Some (m, rope')"
    and "rp_text R rope' = a @ b"
proof -
  have "index_of (a @ m @ b) (pos_at a) = length a"
    using index_of_at [of a "m @ b"] p by simp
  moreover have "index_of (a @ m @ b) (pos_at (a @ m)) = length a + length m"
    using index_of_at [of "a @ m" b] p by simp
  ultimately show ?thesis
    using rope_cut_chars_text [OF R pos_at_mono [of a m], of rope] that by (auto simp: T)
qed

end
