(* ===== verification/EditLines.thy ===== *)
theory EditLines
  imports EditText
begin

text \<open>
  A plain text as its list of lines.  Every rope operation the edits perform on a row is
  an update of that list: inserting or removing chars within a row, cutting a range of
  columns, joining a row with the following one and splitting it.
\<close>

section \<open>Lines\<close>

fun unl :: "rstring list \<Rightarrow> rstring" where
  "unl [] = []"
| "unl [l] = l"
| "unl (l # l' # ls) = l @ 10 # unl (l' # ls)"

fun text_lines :: "rstring \<Rightarrow> rstring list" where
  "text_lines [] = [[]]"
| "text_lines (c # s) =
     (if c = 10 then [] # text_lines s else (c # hd (text_lines s)) # tl (text_lines s))"

definition lines_ok :: "rstring list \<Rightarrow> bool" where
  "lines_ok ls \<longleftrightarrow> ls \<noteq> [] \<and> (\<forall>l \<in> set ls. plain l \<and> 10 \<notin> set l)"

definition rows_before :: "nat \<Rightarrow> rstring list \<Rightarrow> rstring" where
  "rows_before k ls = concat (map (\<lambda>l. l @ [10]) (take k ls))"

definition rows_after :: "nat \<Rightarrow> rstring list \<Rightarrow> rstring" where
  "rows_after k ls = (if Suc k < length ls then 10 # unl (drop (Suc k) ls) else [])"

lemma unl_Cons: "unl (l # ls) = (if ls = [] then l else l @ 10 # unl ls)"
  by (cases ls) simp_all

lemma text_lines_not_Nil [simp]: "text_lines s \<noteq> []"
  by (cases s) simp_all

lemma unl_text_lines [simp]: "unl (text_lines s) = s"
proof (induction s)
  case (Cons c s)
  then show ?case by (cases "text_lines s") (auto simp: unl_Cons)
qed simp

lemma text_lines_set: "l \<in> set (text_lines s) \<Longrightarrow> set l \<subseteq> set s \<and> 10 \<notin> set l"
proof (induction s arbitrary: l)
  case (Cons c s)
  then show ?case by (cases "text_lines s") (fastforce split: if_splits)+
qed simp

lemma text_lines_ok: "plain s \<Longrightarrow> lines_ok (text_lines s)"
  using text_lines_set [of _ s] by (fastforce simp: lines_ok_def plain_def)

lemma unl_plain: "\<forall>l \<in> set ls. plain l \<Longrightarrow> plain (unl ls)"
  by (induction ls rule: unl.induct) auto

lemma text_lines_append:
  "text_lines (l @ s) = (if 10 \<in> set l then text_lines (l @ s) else (l @ hd (text_lines s)) # tl (text_lines s))"
  by (induction l) auto

lemma text_lines_line: "10 \<notin> set l \<Longrightarrow> text_lines l = [l]"
  using text_lines_append [of l "[]"] by simp

lemma text_lines_unl: "lines_ok ls \<Longrightarrow> text_lines (unl ls) = ls"
proof (induction ls rule: unl.induct)
  case (2 l)
  then show ?case by (simp add: lines_ok_def text_lines_line)
next
  case (3 l l' ls)
  then have "lines_ok (l' # ls)" "10 \<notin> set l" by (auto simp: lines_ok_def)
  with 3 show ?case using text_lines_append [of l "10 # unl (l' # ls)"] by simp
qed (simp add: lines_ok_def)

lemma lines_ok_plain: "lines_ok ls \<Longrightarrow> plain (unl ls)"
  by (intro unl_plain) (simp add: lines_ok_def)

lemma unl_update:
  "k < length ls \<Longrightarrow> unl (ls[k := l]) = rows_before k ls @ l @ rows_after k ls"
proof (induction ls arbitrary: k)
  case (Cons l1 ls)
  then show ?case by (cases k) (auto simp: rows_before_def rows_after_def unl_Cons)
qed simp

lemma unl_row: "k < length ls \<Longrightarrow> unl ls = rows_before k ls @ ls ! k @ rows_after k ls"
  using unl_update [of k ls "ls ! k"] by simp

lemma unl_drop_row:
  "Suc k < length ls \<Longrightarrow> unl ls = rows_before k ls @ ls ! k @ 10 # ls ! Suc k @ rows_after (Suc k) ls"
  using unl_row [of k ls] unl_row [of 0 "drop (Suc k) ls"]
  by (simp add: rows_after_def rows_before_def less_diff_conv)

lemma rows_before_Suc: "k < length ls \<Longrightarrow> rows_before (Suc k) ls = rows_before k ls @ ls ! k @ [10]"
  by (simp add: rows_before_def take_Suc_conv_app_nth)

lemma rows_before_props:
  assumes "lines_ok ls" and "k \<le> length ls"
  shows "rowc (rows_before k ls) = k \<and> colc (rows_before k ls) = 0 \<and> plain (rows_before k ls)"
  using assms(2)
proof (induction k)
  case (Suc k)
  then have "ls ! k \<in> set ls" by simp
  then have "10 \<notin> set (ls ! k)" "plain (ls ! k)" using assms(1) by (auto simp: lines_ok_def)
  with Suc show ?case by (simp add: rows_before_Suc rowc_0 [THEN iffD2])
qed (simp add: rows_before_def)

lemma pos_at_row:
  assumes "lines_ok ls" and "k \<le> length ls" and "10 \<notin> set x"
  shows "pos_at (rows_before k ls @ x) = Position k (length x)"
  using rows_before_props [OF assms(1,2)] assms(3) by (simp add: pos_at_def rowc_0 [THEN iffD2])

lemma nlines_unl: "lines_ok ls \<Longrightarrow> nlines (unl ls) = length ls"
proof (induction ls rule: unl.induct)
  case (2 l)
  then show ?case by (simp add: lines_ok_def nlines_plain rowc_0 [THEN iffD2])
next
  case (3 l l' ls)
  then have ok: "lines_ok (l' # ls)" "10 \<notin> set l" and p: "plain (unl (l # l' # ls))"
    by (auto simp: lines_ok_def lines_ok_plain simp del: unl.simps)
  with 3 have "Suc (rowc (unl (l' # ls))) = length (l' # ls)"
    by (simp add: nlines_plain lines_ok_plain)
  with ok p show ?case by (simp add: nlines_plain rowc_0 [THEN iffD2])
qed (simp add: lines_ok_def)

lemma row_line_part:
  assumes "lines_ok ls" and "k < length ls"
  shows "line_part (ls ! k @ rows_after k ls) = ls ! k"
proof -
  have "\<forall>c \<in> set (ls ! k). c \<noteq> 10" using assms by (auto simp: lines_ok_def)
  then show ?thesis by (simp add: takeWhile_append2 rows_after_def)
qed

lemma unl_row_facts:
  assumes ok: "lines_ok ls" and k: "k < length ls"
  shows row_chars_unl: "row_chars (unl ls) k = length (ls ! k)"
    and lstart_unl: "lstart (unl ls) k = length (rows_before k ls)"
    and char_index_unl: "char_index (unl ls) k col = length (rows_before k ls) + min col (length (ls ! k))"
proof -
  note pre = rows_before_props [OF ok less_imp_le [OF k]]
  have s: "unl ls = rows_before k ls @ ls ! k @ rows_after k ls" by (rule unl_row [OF k])
  have p: "plain (rows_before k ls @ ls ! k @ rows_after k ls)"
    using lines_ok_plain [OF ok] s by metis
  show "row_chars (unl ls) k = length (ls ! k)"
    using row_chars_at [OF p] pre row_line_part [OF ok k] by (simp add: s)
  show "lstart (unl ls) k = length (rows_before k ls)"
    using lstart_at [of "rows_before k ls" "ls ! k @ rows_after k ls"] pre by (simp add: s)
  show "char_index (unl ls) k col = length (rows_before k ls) + min col (length (ls ! k))"
    using char_index_at [OF p, of col] pre row_line_part [OF ok k] by (simp add: s)
qed

lemma lines_ok_update:
  "lines_ok ls \<Longrightarrow> plain l \<Longrightarrow> 10 \<notin> set l \<Longrightarrow> lines_ok (ls[k := l])"
  using set_update_subset_insert [of ls k l] by (auto simp: lines_ok_def)

section \<open>A rope and its lines\<close>

definition rope_lines :: "'r text_ops \<Rightarrow> 'r \<Rightarrow> rstring list \<Rightarrow> bool" where
  "rope_lines R rope ls \<longleftrightarrow> rp_text R rope = unl ls \<and> lines_ok ls"

definition line_text :: "rstring \<Rightarrow> bool" where
  "line_text t \<longleftrightarrow> valid_str t \<and> plain t \<and> 10 \<notin> set t"

lemma rope_linesI: "plain (rp_text R rope) \<Longrightarrow> rope_lines R rope (text_lines (rp_text R rope))"
  by (simp add: rope_lines_def text_lines_ok)

lemma rope_lines_plain: "rope_lines R rope ls \<Longrightarrow> plain (rp_text R rope)"
  by (simp add: rope_lines_def lines_ok_plain)

lemma rope_lines_count [simp]:
  "text_laws R \<Longrightarrow> rope_lines R rope ls \<Longrightarrow> rp_len_lines R rope = length ls"
  by (simp add: rope_lines_def text_len_lines nlines_unl)

lemma rope_lines_pos [simp]: "rope_lines R rope ls \<Longrightarrow> 0 < length ls"
  by (simp add: rope_lines_def lines_ok_def)

lemma row_line_text:
  assumes "rope_lines R rope ls" and "text_laws R" and "k < length ls"
  shows "line_text (ls ! k)"
proof -
  have s: "rp_text R rope = rows_before k ls @ ls ! k @ rows_after k ls"
    using assms(1) unl_row [OF assms(3)] by (simp add: rope_lines_def)
  have "valid_str (rp_text R rope)" using assms(2) by simp
  then have "valid_str (ls ! k)" by (simp add: s)
  with assms show ?thesis by (simp add: line_text_def rope_lines_def lines_ok_def)
qed

lemma line_text_simps [simp]:
  "line_text []"
  "line_text (s @ t) \<longleftrightarrow> line_text s \<and> line_text t"
  "line_text (replicate n 32)"
  by (auto simp: line_text_def valid_str_def plain_def scalar_ok_def is_break_def)

lemma line_text_take [simp]: "line_text l \<Longrightarrow> line_text (take n l)"
  and line_text_drop [simp]: "line_text l \<Longrightarrow> line_text (drop n l)"
  by (auto simp: line_text_def plain_take plain_drop dest: in_set_takeD in_set_dropD)

lemma row_update:
  "rope_lines R rope ls \<Longrightarrow> k < length ls \<Longrightarrow> line_text l \<Longrightarrow>
    rp_text R rope' = rows_before k ls @ l @ rows_after k ls \<Longrightarrow> rope_lines R rope' (ls[k := l])"
  by (simp add: rope_lines_def unl_update lines_ok_update line_text_def)

lemma row_count:
  assumes "text_laws R" and "rope_lines R rope ls" and "k < length ls"
  shows "rope_line_char_count R rope k = Some (length (ls ! k))"
  using assms by (simp add: rope_line_char_count_text rope_lines_def row_chars_unl)

lemma row_start:
  assumes "text_laws R" and "rope_lines R rope ls" and "k < length ls"
  shows "rp_line_to_char R rope k = Some (length (rows_before k ls))"
  using assms by (simp add: text_line_to_char rope_lines_def line_to_char_spec_def nlines_unl lstart_unl)

lemma row_index:
  assumes "text_laws R" and "rope_lines R rope ls" and "k < length ls"
  shows "pos_to_char_idx R rope k col = Some (length (rows_before k ls) + min col (length (ls ! k)))"
  using assms by (simp add: pos_to_char_idx_text rope_lines_def char_index_unl)

lemma row_text:
  "rope_lines R rope ls \<Longrightarrow> k < length ls \<Longrightarrow>
    rp_text R rope = rows_before k ls @ ls ! k @ rows_after k ls"
  using unl_row by (simp add: rope_lines_def)

lemma row_insert:
  assumes R: "text_laws R" and L: "rope_lines R rope ls" and k: "k < length ls"
    and c: "col \<le> length (ls ! k)" and t: "line_text t"
  obtains rope' where "rp_insert R rope (length (rows_before k ls) + col) t = Some rope'"
    and "rope_lines R rope' (ls[k := take col (ls ! k) @ t @ drop col (ls ! k)])"
proof -
  note s = row_text [OF L k]
  have "length (rows_before k ls) + col \<le> length (rp_text R rope)" using c s by simp
  from text_insert [OF R this, of t] t obtain r' where r':
    "rp_insert R rope (length (rows_before k ls) + col) t = Some r'"
    "rp_text R r' = take (length (rows_before k ls) + col) (rp_text R rope) @ t @
       drop (length (rows_before k ls) + col) (rp_text R rope)"
    by (auto simp: line_text_def)
  have "rp_text R r' = rows_before k ls @ (take col (ls ! k) @ t @ drop col (ls ! k)) @ rows_after k ls"
    using r'(2) c by (simp add: s)
  from row_update [OF L k _ this] row_line_text [OF L R k] t r'(1) that show ?thesis by simp
qed

lemma row_remove:
  assumes R: "text_laws R" and L: "rope_lines R rope ls" and k: "k < length ls"
    and c: "i \<le> j" "j \<le> length (ls ! k)"
  obtains rope' where
    "rp_remove R rope (length (rows_before k ls) + i) (length (rows_before k ls) + j) = Some rope'"
    and "rope_lines R rope' (ls[k := take i (ls ! k) @ drop j (ls ! k)])"
proof -
  note s = row_text [OF L k]
  let ?n = "length (rows_before k ls)"
  have "?n + i \<le> ?n + j" "?n + j \<le> length (rp_text R rope)" using c s by simp_all
  from text_remove [OF R this] obtain r' where r': "rp_remove R rope (?n + i) (?n + j) = Some r'"
    "rp_text R r' = take (?n + i) (rp_text R rope) @ drop (?n + j) (rp_text R rope)" .
  have "rp_text R r' = rows_before k ls @ (take i (ls ! k) @ drop j (ls ! k)) @ rows_after k ls"
    using r'(2) c by (simp add: s)
  from row_update [OF L k _ this] row_line_text [OF L R k] r'(1) that show ?thesis by simp
qed

lemma row_slice:
  assumes R: "text_laws R" and L: "rope_lines R rope ls" and k: "k < length ls"
    and c: "i \<le> j" "j \<le> length (ls ! k)"
  shows "rp_slice R rope (length (rows_before k ls) + i) (length (rows_before k ls) + j) =
    Some (take (j - i) (drop i (ls ! k)))"
  using text_slice [OF R, of "length (rows_before k ls) + i" "length (rows_before k ls) + j" rope] c
  by (simp add: row_text [OF L k])

lemma row_cut:
  assumes R: "text_laws R" and L: "rope_lines R rope ls" and k: "k < length ls" and lr: "left \<le> right"
  obtains rope' where
    "rope_cut_chars R rope (Position k left) (Position k right) =
       Some (take (right - left) (drop left (ls ! k)), rope')"
    and "rope_lines R rope' (ls[k := take left (ls ! k) @ drop right (ls ! k)])"
proof -
  note s = row_text [OF L k]
  let ?n = "length (rows_before k ls)" and ?l = "ls ! k"
  have le: "Position k left \<le> Position k right" using lr by (simp add: less_eq_position_def)
  have ix: "char_index (rp_text R rope) k col = ?n + min col (length ?l)" for col
    using L k by (simp add: rope_lines_def char_index_unl)
  from rope_cut_chars_text [OF R le, of rope] obtain r' where
    r1: "rope_cut_chars R rope (Position k left) (Position k right) =
       Some (take (min right (length ?l) - min left (length ?l)) (drop (?n + min left (length ?l)) (rp_text R rope)), r')"
    and r2: "rp_text R r' = take (?n + min left (length ?l)) (rp_text R rope) @
       drop (max (?n + min left (length ?l)) (?n + min right (length ?l))) (rp_text R rope)"
    unfolding position.sel ix diff_add_inverse diff_cancel by blast
  have mx: "max (?n + min left (length ?l)) (?n + min right (length ?l)) = ?n + min right (length ?l)"
    using lr by auto
  have "rp_text R r' = rows_before k ls @ (take left ?l @ drop right ?l) @ rows_after k ls"
    unfolding r2 mx by (auto simp: s min_def)
  note up = row_update [OF L k _ this]
  have "take (min right (length ?l) - min left (length ?l)) (drop (?n + min left (length ?l)) (rp_text R rope)) =
      take (right - left) (drop left ?l)"
    using lr by (auto simp: s min_def)
  with r1 up row_line_text [OF L R k] that show ?thesis by simp
qed

lemma row_join:
  assumes R: "text_laws R" and L: "rope_lines R rope ls" and k: "Suc k < length ls"
  obtains rope' where
    "rp_remove R rope (length (rows_before k ls) + length (ls ! k))
       (length (rows_before k ls) + length (ls ! k) + 1) = Some rope'"
    and "rope_lines R rope' (take k ls @ (ls ! k @ ls ! Suc k) # drop (k + 2) ls)"
proof -
  let ?i = "length (rows_before k ls) + length (ls ! k)"
  have s: "rp_text R rope = rows_before k ls @ ls ! k @ 10 # ls ! Suc k @ rows_after (Suc k) ls"
    using L unl_drop_row [OF k] by (simp add: rope_lines_def)
  have "?i \<le> ?i + 1" "?i + 1 \<le> length (rp_text R rope)" using s by simp_all
  from text_remove [OF R this] obtain r' where r': "rp_remove R rope ?i (?i + 1) = Some r'"
    "rp_text R r' = take ?i (rp_text R rope) @ drop (?i + 1) (rp_text R rope)" .
  let ?ls = "take k ls @ (ls ! k @ ls ! Suc k) # drop (k + 2) ls"
  have ok: "lines_ok ?ls"
    using L k by (auto simp: rope_lines_def lines_ok_def dest: in_set_takeD in_set_dropD)
  have "rows_before k ?ls = rows_before k ls" "rows_after k ?ls = rows_after (Suc k) ls"
    using k by (auto simp: rows_before_def rows_after_def min_def numeral_2_eq_2 Suc_diff_Suc)
  then have "unl ?ls = rows_before k ls @ (ls ! k @ ls ! Suc k) @ rows_after (Suc k) ls"
    using unl_row [of k ?ls] k by (simp add: nth_append)
  then have "rope_lines R r' ?ls" using ok r'(2) by (simp add: s rope_lines_def)
  with r'(1) that show ?thesis by simp
qed

lemma row_split_at:
  assumes R: "text_laws R" and L: "rope_lines R rope ls" and k: "k < length ls"
    and c: "col \<le> length (ls ! k)"
  obtains rope' where
    "rp_insert R rope (length (rows_before k ls) + col) [10] = Some rope'"
    and "rope_lines R rope' (take k ls @ take col (ls ! k) # drop col (ls ! k) # drop (Suc k) ls)"
proof -
  note s = row_text [OF L k]
  let ?i = "length (rows_before k ls) + col"
  have "?i \<le> length (rp_text R rope)" "valid_str [10]" using c s by (simp_all add: scalar_ok_def)
  from text_insert [OF R this] obtain r' where r': "rp_insert R rope ?i [10] = Some r'"
    "rp_text R r' = take ?i (rp_text R rope) @ [10] @ drop ?i (rp_text R rope)" .
  let ?ls = "take k ls @ take col (ls ! k) # drop col (ls ! k) # drop (Suc k) ls"
  have "line_text (ls ! k)" by (rule row_line_text [OF L R k])
  then have ok: "lines_ok ?ls"
    using L k line_text_take [of "ls ! k" col] line_text_drop [of "ls ! k" col]
    by (auto simp: rope_lines_def lines_ok_def line_text_def dest: in_set_takeD in_set_dropD)
  have k': "Suc k < length ?ls" and mi: "min (length ls) k = k" using k by simp_all
  have "rows_before k ?ls = rows_before k ls" "rows_after (Suc k) ?ls = rows_after k ls"
    using k by (auto simp: rows_before_def rows_after_def)
  then have "unl ?ls = rows_before k ls @ take col (ls ! k) @ 10 # drop col (ls ! k) @ rows_after k ls"
    using unl_drop_row [OF k'] mi by (simp add: nth_append)
  then have "rope_lines R r' ?ls" using ok r'(2) c by (simp add: s rope_lines_def)
  with r'(1) that show ?thesis by simp
qed

end
