(* ===== verification/EditBlocks.thy ===== *)
theory EditBlocks
  imports EditLines
begin

text \<open>
  The row loops of \<open>edit.rs\<close> (inserting a block, deleting its chunks, cutting a rectangle,
  joining and splitting rows) as functions on the list of lines, and the loop that undoes
  each of them.
\<close>

section \<open>An operation on consecutive rows\<close>

fun rows_from :: "('x \<Rightarrow> rstring \<Rightarrow> rstring) \<Rightarrow> 'x list \<Rightarrow> rstring list \<Rightarrow> rstring list" where
  "rows_from f (x # xs) (l # ls) = f x l # rows_from f xs ls"
| "rows_from f [] ls = ls"
| "rows_from f xs [] = []"

definition on_rows :: "('x \<Rightarrow> rstring \<Rightarrow> rstring) \<Rightarrow> nat \<Rightarrow> 'x list \<Rightarrow> rstring list \<Rightarrow> rstring list" where
  "on_rows f row xs ls = take row ls @ rows_from f xs (drop row ls)"

lemma rows_from_Nil [simp]: "rows_from f xs [] = []"
  by (cases xs) simp_all

lemma length_rows_from [simp]: "length (rows_from f xs ls) = length ls"
  by (induction f xs ls rule: rows_from.induct) simp_all

lemma length_on_rows [simp]: "length (on_rows f row xs ls) = length ls"
  by (auto simp: on_rows_def)

lemma on_rows_Nil [simp]: "on_rows f row [] ls = ls"
  by (simp add: on_rows_def)

lemma on_rows_Cons:
  "on_rows f row (x # xs) ls =
    on_rows f (Suc row) xs (if row < length ls then ls[row := f x (ls ! row)] else ls)"
proof (cases "row < length ls")
  case True
  then have "drop row ls = ls ! row # drop (Suc row) ls" by (simp add: Cons_nth_drop_Suc)
  with True show ?thesis
    by (simp add: on_rows_def take_Suc_conv_app_nth)
qed (simp add: on_rows_def)

lemma drop_on_rows: "row \<le> length ls \<Longrightarrow> drop row (on_rows f row xs ls) = rows_from f xs (drop row ls)"
  by (simp add: on_rows_def)

lemma rows_from_inverse:
  assumes "length ys = length xs"
    and "\<forall>i. i < length xs \<longrightarrow> i < length ls \<longrightarrow> g (ys ! i) (f (xs ! i) (ls ! i)) = ls ! i"
  shows "rows_from g ys (rows_from f xs ls) = ls"
  using assms
proof (induction f xs ls arbitrary: ys rule: rows_from.induct)
  case (1 f x xs l ls)
  then obtain y ys' where y: "ys = y # ys'" "length ys' = length xs" by (cases ys) auto
  have "\<forall>i. i < length xs \<longrightarrow> i < length ls \<longrightarrow> g (ys' ! i) (f (xs ! i) (ls ! i)) = ls ! i"
  proof (intro allI impI)
    fix i
    assume "i < length xs" "i < length ls"
    with "1.prems"(2) [rule_format, of "Suc i"] y show "g (ys' ! i) (f (xs ! i) (ls ! i)) = ls ! i" by simp
  qed
  with "1.IH" y "1.prems"(2) [rule_format, of 0] show ?case by simp
qed simp_all

lemma on_rows_inverse:
  assumes "length ys = length xs"
    and "\<forall>i. i < length xs \<longrightarrow> row + i < length ls \<longrightarrow> g (ys ! i) (f (xs ! i) (ls ! (row + i))) = ls ! (row + i)"
  shows "on_rows g row ys (on_rows f row xs ls) = ls"
proof (cases "row \<le> length ls")
  case True
  then have "rows_from g ys (rows_from f xs (drop row ls)) = drop row ls"
    using assms by (intro rows_from_inverse) auto
  then show ?thesis using True by (simp add: on_rows_def)
qed (simp add: on_rows_def)

lemma rows_from_cong:
  assumes "length ys = length xs"
    and "\<forall>i. i < length xs \<longrightarrow> i < length ls \<longrightarrow> g (ys ! i) (ls ! i) = f (xs ! i) (ls ! i)"
  shows "rows_from g ys ls = rows_from f xs ls"
  using assms
proof (induction f xs ls arbitrary: ys rule: rows_from.induct)
  case (1 f x xs l ls)
  then obtain y ys' where y: "ys = y # ys'" "length ys' = length xs" by (cases ys) auto
  have "\<forall>i. i < length xs \<longrightarrow> i < length ls \<longrightarrow> g (ys' ! i) (ls ! i) = f (xs ! i) (ls ! i)"
  proof (intro allI impI)
    fix i
    assume "i < length xs" "i < length ls"
    with "1.prems"(2) [rule_format, of "Suc i"] y show "g (ys' ! i) (ls ! i) = f (xs ! i) (ls ! i)" by simp
  qed
  with "1.IH" y "1.prems"(2) [rule_format, of 0] show ?case by simp
qed simp_all

lemma on_rows_cong:
  assumes "length ys = length xs"
    and "\<forall>i. i < length xs \<longrightarrow> row + i < length ls \<longrightarrow> g (ys ! i) (ls ! (row + i)) = f (xs ! i) (ls ! (row + i))"
  shows "on_rows g row ys ls = on_rows f row xs ls"
  unfolding on_rows_def using assms by (cases "row \<le> length ls") (auto intro: rows_from_cong)

section \<open>The operations on one row\<close>

definition block_ins :: "nat \<Rightarrow> rstring \<Rightarrow> rstring \<Rightarrow> rstring" where
  "block_ins col chunk l =
     (let l = l @ replicate (col - length l) 32 in take col l @ chunk @ drop col l)"

definition block_del :: "nat \<Rightarrow> nat \<times> nat \<Rightarrow> rstring \<Rightarrow> rstring" where
  "block_del col wp l =
     (let st = min (col - snd wp) (length l); e = min (col + fst wp) (length l)
      in if st \<ge> e then l else take st l @ drop e l)"

definition block_removed :: "nat \<Rightarrow> nat \<times> nat \<Rightarrow> rstring \<Rightarrow> rstring" where
  "block_removed col wp l =
     (let st = min (col - snd wp) (length l); e = min (col + fst wp) (length l)
      in if st \<ge> e then [] else drop (min col (length l) - st) (take (e - st) (drop st l)))"

definition block_cut :: "nat \<Rightarrow> nat \<Rightarrow> unit \<Rightarrow> rstring \<Rightarrow> rstring" where
  "block_cut left right u l = take left l @ drop (Suc right) l"

lemma block_del_ins: "block_del col (length chunk, col - length l) (block_ins col chunk l) = l"
  by (cases "length l < col") (auto simp: block_del_def block_ins_def Let_def min_def)

lemma block_removed_ins: "block_removed col (length chunk, col - length l) (block_ins col chunk l) = chunk"
  by (cases "length l < col") (auto simp: block_removed_def block_ins_def Let_def min_def)

lemma block_ins_cut:
  "left \<le> right \<Longrightarrow> left \<le> length l \<Longrightarrow>
    block_ins left (take (Suc right - left) (drop left l)) (block_cut left right u l) = l"
  by (auto simp: block_ins_def block_cut_def min_def not_le)
    (metis append_take_drop_id drop_drop add.commute le_SucI le_add_diff_inverse2)

lemma block_del_cut:
  "left \<le> right \<Longrightarrow> left \<le> length l \<Longrightarrow>
    block_del left (length (take (Suc right - left) (drop left l)), 0) l = block_cut left right u l"
  by (auto simp: block_del_def block_cut_def Let_def min_def)

lemma line_text_block_ins: "line_text l \<Longrightarrow> line_text chunk \<Longrightarrow> line_text (block_ins col chunk l)"
  by (simp add: block_ins_def Let_def)

text \<open>What the loops collect: a value per row, a default past the last row.\<close>

fun rows_get :: "'b \<Rightarrow> ('x \<Rightarrow> rstring \<Rightarrow> 'b) \<Rightarrow> nat \<Rightarrow> 'x list \<Rightarrow> rstring list \<Rightarrow> 'b list" where
  "rows_get d g row [] ls = []"
| "rows_get d g row (x # xs) ls =
     (if row < length ls then g x (ls ! row) else d) # rows_get d g (Suc row) xs ls"

lemma length_rows_get [simp]: "length (rows_get d g row xs ls) = length xs"
  by (induction xs arbitrary: row) simp_all

lemma rows_get_nth:
  "i < length xs \<Longrightarrow> rows_get d g row xs ls ! i =
    (if row + i < length ls then g (xs ! i) (ls ! (row + i)) else d)"
proof (induction xs arbitrary: row i)
  case (Cons x xs)
  then show ?case by (cases i) auto
qed simp

lemma rows_get_update [simp]: "k < row \<Longrightarrow> rows_get d g row xs (ls[k := l]) = rows_get d g row xs ls"
  by (induction xs arbitrary: row) simp_all

section \<open>The loops over the lines\<close>

lemma pad_row_lines:
  assumes R: "text_laws R" and L: "rope_lines R rope ls" and k: "k < length ls"
  obtains rope' where "pad_row R rope k col = Some (col - length (ls ! k), rope')"
    and "rope_lines R rope' (ls[k := ls ! k @ replicate (col - length (ls ! k)) 32])"
proof (cases "length (ls ! k) < col")
  case True
  from row_insert [OF R L k order.refl, of "replicate (col - length (ls ! k)) 32"] obtain r' where
    "rp_insert R rope (length (rows_before k ls) + length (ls ! k)) (replicate (col - length (ls ! k)) 32) = Some r'"
    "rope_lines R r' (ls[k := ls ! k @ replicate (col - length (ls ! k)) 32])" by auto
  with True that show ?thesis
    by (simp add: pad_row_def rope_lines_count [OF R L] k row_count [OF R L k] row_index [OF R L k])
next
  case False
  then show ?thesis
    using L by (intro that [of rope]) (simp_all add: pad_row_def rope_lines_count [OF R L] k row_count [OF R L k])
qed

lemma insert_chunk_lines:
  assumes R: "text_laws R" and L: "rope_lines R rope ls" and k: "k < length ls"
    and c: "col \<le> length (ls ! k)" and t: "line_text chunk"
  obtains rope' where "insert_chunk R rope k col chunk = Some rope'"
    and "rope_lines R rope' (ls[k := take col (ls ! k) @ chunk @ drop col (ls ! k)])"
proof -
  from row_insert [OF R L k c t] obtain r' where
    "rp_insert R rope (length (rows_before k ls) + col) chunk = Some r'"
    "rope_lines R r' (ls[k := take col (ls ! k) @ chunk @ drop col (ls ! k)])" .
  with c that show ?thesis
    by (simp add: insert_chunk_def rope_lines_count [OF R L] k row_index [OF R L k] min_absorb1)
qed

lemma insert_block_loop_lines:
  assumes R: "text_laws R"
  shows "rope_lines R rope ls \<Longrightarrow> \<forall>t \<in> set chunks. line_text t \<Longrightarrow>
    \<exists>rope'. insert_block_loop R row col chunks rope =
        Some (map length chunks, rows_get 0 (\<lambda>_ l. col - length l) row chunks ls, rope') \<and>
      rope_lines R rope' (on_rows (block_ins col) row chunks ls)"
proof (induction chunks arbitrary: row rope ls)
  case (Cons chunk chunks)
  note L = Cons.prems(1)
  have ch: "line_text chunk" and chs: "\<forall>t \<in> set chunks. line_text t" using Cons.prems(2) by auto
  show ?case
  proof (cases "row < length ls")
    case True
    from pad_row_lines [OF R L True, of col] obtain r1 where r1:
      "pad_row R rope row col = Some (col - length (ls ! row), r1)"
      "rope_lines R r1 (ls[row := ls ! row @ replicate (col - length (ls ! row)) 32])" .
    have k: "row < length (ls[row := ls ! row @ replicate (col - length (ls ! row)) 32])"
      and c: "col \<le> length (ls[row := ls ! row @ replicate (col - length (ls ! row)) 32] ! row)"
      using True by simp_all
    from insert_chunk_lines [OF R r1(2) k c ch] obtain r2 where r2:
      "insert_chunk R r1 row col chunk = Some r2"
      "rope_lines R r2 (ls[row := block_ins col chunk (ls ! row)])"
      using True by (auto simp: block_ins_def Let_def)
    from Cons.IH [OF r2(2) chs, of "Suc row"] True r1(1) r2(1) show ?thesis
      by (auto simp: on_rows_Cons)
  next
    case False
    then have "pad_row R rope row col = Some (0, rope)" "insert_chunk R rope row col chunk = Some rope"
      by (simp_all add: pad_row_def insert_chunk_def rope_lines_count [OF R L])
    with Cons.IH [OF L chs, of "Suc row"] False show ?thesis by (auto simp: on_rows_Cons)
  qed
qed simp

lemma delete_chunk_lines:
  assumes R: "text_laws R" and L: "rope_lines R rope ls" and k: "k < length ls"
  obtains rope' where "delete_chunk R rope k col w pad = Some (block_removed col (w, pad) (ls ! k), rope')"
    and "rope_lines R rope' (ls[k := block_del col (w, pad) (ls ! k)])"
proof -
  let ?st = "min (col - pad) (length (ls ! k))" and ?e = "min (col + w) (length (ls ! k))"
  show ?thesis
  proof (cases "?st \<ge> ?e")
    case True
    then show ?thesis
      using L by (intro that [of rope])
        (simp_all only: delete_chunk_def rope_lines_count [OF R L] k linorder_not_le [THEN iffD2] not_le if_False
          row_count [OF R L k] Let_def block_removed_def block_del_def fst_conv snd_conv if_True
          option.simps bind.bind_lunit list_update_id)
  next
    case False
    then have se: "?st \<le> ?e" by linarith
    have e: "?e \<le> length (ls ! k)" by (rule min.cobounded2)
    from row_remove [OF R L k se e] obtain r' where r':
      "rp_remove R rope (length (rows_before k ls) + ?st) (length (rows_before k ls) + ?e) = Some r'"
      "rope_lines R r' (ls[k := take ?st (ls ! k) @ drop ?e (ls ! k)])" .
    have ix: "pos_to_char_idx R rope k ?st = Some (length (rows_before k ls) + ?st)"
      "pos_to_char_idx R rope k ?e = Some (length (rows_before k ls) + ?e)"
      by (simp_all only: row_index [OF R L k] min.assoc min.idem)
    show ?thesis
      using False r' row_slice [OF R L k se e] ix k [folded not_le]
      by (intro that [of r'])
        (simp_all add: delete_chunk_def rope_lines_count [OF R L] k row_count [OF R L k] Let_def block_removed_def block_del_def)
  qed
qed

lemma delete_chunks_loop_lines:
  assumes R: "text_laws R"
  shows "rope_lines R rope ls \<Longrightarrow> length pads = length widths \<Longrightarrow>
    \<exists>rope'. delete_chunks_loop R row col widths pads rope =
        Some (rows_get [] (block_removed col) row (zip widths pads) ls, rope') \<and>
      rope_lines R rope' (on_rows (block_del col) row (zip widths pads) ls)"
proof (induction widths arbitrary: row rope ls pads)
  case (Cons w widths)
  note L = Cons.prems(1)
  obtain pad pads' where pads: "pads = pad # pads'" "length pads' = length widths"
    using Cons.prems(2) by (cases pads) auto
  show ?case
  proof (cases "row < length ls")
    case True
    from delete_chunk_lines [OF R L True, of col w pad] obtain r1 where
      "delete_chunk R rope row col w pad = Some (block_removed col (w, pad) (ls ! row), r1)"
      "rope_lines R r1 (ls[row := block_del col (w, pad) (ls ! row)])" .
    with Cons.IH [OF this(2) pads(2), of "Suc row"] True pads(1) show ?thesis
      by (auto simp: on_rows_Cons)
  next
    case False
    then have "delete_chunk R rope row col w pad = Some ([], rope)"
      by (simp add: delete_chunk_def rope_lines_count [OF R L])
    with Cons.IH [OF L pads(2), of "Suc row"] False pads(1) show ?thesis by (auto simp: on_rows_Cons)
  qed
qed simp

lemma cut_block_loop_lines:
  assumes R: "text_laws R" and lr: "left \<le> right"
  shows "rope_lines R rope ls \<Longrightarrow>
    \<exists>rope'. cut_block_loop R row left right count rope =
        Some (rows_get [] (\<lambda>_ l. take (Suc right - left) (drop left l)) row (replicate count ()) ls, rope') \<and>
      rope_lines R rope' (on_rows (block_cut left right) row (replicate count ()) ls)"
proof (induction count arbitrary: row rope ls)
  case (Suc count)
  note L = Suc.prems
  show ?case
  proof (cases "row < length ls")
    case True
    have lr': "left \<le> Suc right" using lr by simp
    from row_cut [OF R L True lr'] obtain r1 where
      "rope_cut_chars R rope (Position row left) (Position row (Suc right)) =
        Some (take (Suc right - left) (drop left (ls ! row)), r1)"
      "rope_lines R r1 (ls[row := block_cut left right () (ls ! row)])"
      by (auto simp: block_cut_def)
    with Suc.IH [OF this(2), of "Suc row"] True show ?thesis by (auto simp: on_rows_Cons rope_lines_count [OF R L])
  next
    case False
    with Suc.IH [OF L, of "Suc row"] show ?thesis by (auto simp: on_rows_Cons rope_lines_count [OF R L])
  qed
qed simp

end
