(* ===== verification/EditJoins.thy ===== *)
theory EditJoins
  imports EditBlocks
begin

text \<open>
  \<open>do_join_lines\<close> and \<open>do_split_lines\<close> on the list of lines: what one join does, the loop
  over the rows, and the splits at its columns, walked from the last, that restore the lines.
\<close>

section \<open>Joining rows and splitting them again\<close>

text \<open>The join of two lines, with the space when both are non-empty.\<close>

definition join_space :: "bool \<Rightarrow> rstring \<Rightarrow> rstring \<Rightarrow> bool" where
  "join_space ws l m \<longleftrightarrow> ws \<and> l \<noteq> [] \<and> m \<noteq> []"

definition joined :: "bool \<Rightarrow> rstring \<Rightarrow> rstring \<Rightarrow> rstring" where
  "joined sp l m = (if sp then l @ 32 # m else l @ m)"

fun join_lines :: "nat \<Rightarrow> bool \<Rightarrow> nat \<Rightarrow> rstring list \<Rightarrow> nat list \<times> bool list \<times> rstring list" where
  "join_lines row ws 0 ls = ([], [], ls)"
| "join_lines row ws (Suc count) ls =
     (if Suc row \<ge> length ls then ([], [], ls)
      else let sp = join_space ws (ls ! row) (ls ! Suc row);
               (cols, sps, ls') = join_lines row ws count
                 (take row ls @ joined sp (ls ! row) (ls ! Suc row) # drop (row + 2) ls)
           in (length (ls ! row) # cols, sp # sps, ls'))"

lemma take_Cons_nth: "k \<le> length ls \<Longrightarrow> (take k ls @ x # ys) ! k = x"
  by (simp add: nth_append)

lemma line_text_space [simp]: "line_text (32 # l) \<longleftrightarrow> line_text l"
  by (auto simp: line_text_def scalar_ok_def is_break_def)

lemma line_text_joined: "line_text l \<Longrightarrow> line_text m \<Longrightarrow> line_text (joined sp l m)"
  by (simp add: joined_def)

lemma join_once_lines:
  fixes ws :: bool
  assumes R: "text_laws R" and L: "rope_lines R rope ls" and k: "Suc row < length ls"
  defines "sp \<equiv> join_space ws (ls ! row) (ls ! Suc row)"
  obtains rope' where "join_once R row ws rope = Some (length (ls ! row), sp, rope')"
    and "rope_lines R rope' (take row ls @ joined sp (ls ! row) (ls ! Suc row) # drop (row + 2) ls)"
proof -
  let ?l = "ls ! row" and ?m = "ls ! Suc row"
  let ?n = "length (rows_before row ls) + length ?l"
  let ?ls = "take row ls @ (?l @ ?m) # drop (row + 2) ls"
  have row: "row < length ls" using k by simp
  from row_join [OF R L k] obtain r1 where
    r1: "rp_remove R rope ?n (?n + 1) = Some r1" "rope_lines R r1 ?ls" .
  have k1: "row < length ?ls" using row by simp
  have at: "?ls ! row = ?l @ ?m" using row by (simp add: take_Cons_nth)
  have bef: "rows_before row ?ls = rows_before row ls" using row by (simp add: rows_before_def)
  have len: "rope_line_char_count R r1 row = Some (length ?l + length ?m)"
    using row_count [OF R r1(2) k1] at by simp
  note ev = join_once_def Let_def row_count [OF R L row] row_start [OF R L row]
  show ?thesis
  proof (cases sp)
    case False
    then have "ws \<Longrightarrow> ?l = [] \<or> ?m = []" by (auto simp: sp_def join_space_def)
    with False r1 len show ?thesis by (intro that [of r1]) (auto simp: ev joined_def)
  next
    case True
    then have sp: "ws" "?l \<noteq> []" "?m \<noteq> []" by (simp_all add: sp_def join_space_def)
    have c: "length ?l \<le> length (?ls ! row)" by (simp only: at length_append le_add1)
    have "line_text [32]" by simp
    from row_insert [OF R r1(2) k1 c this, unfolded at bef] obtain r2 where r2:
      "rp_insert R r1 ?n [32] = Some r2"
      "rope_lines R r2 (?ls[row := ?l @ 32 # ?m])" by auto
    have "?ls[row := ?l @ 32 # ?m] = take row ls @ (?l @ 32 # ?m) # drop (row + 2) ls"
      using row by (simp add: list_update_append)
    with True sp r1 r2 len that show ?thesis by (simp add: ev joined_def)
  qed
qed

lemma join_loop_lines:
  assumes R: "text_laws R"
  shows "rope_lines R rope ls \<Longrightarrow> \<exists>rope' cols sps ls'. join_lines row ws count ls = (cols, sps, ls') \<and>
    join_loop R row ws count rope = Some (cols, sps, rope') \<and> rope_lines R rope' ls'"
proof (induction count arbitrary: rope ls)
  case (Suc count)
  note L = Suc.prems
  show ?case
  proof (cases "Suc row < length ls")
    case True
    from join_once_lines [OF R L True, of ws] obtain r1 where r1:
      "join_once R row ws rope =
        Some (length (ls ! row), join_space ws (ls ! row) (ls ! Suc row), r1)"
      "rope_lines R r1 (take row ls @
        joined (join_space ws (ls ! row) (ls ! Suc row)) (ls ! row) (ls ! Suc row) # drop (row + 2) ls)" .
    from Suc.IH [OF r1(2)] r1(1) True show ?thesis by (auto simp: rope_lines_count [OF R L] Let_def)
  next
    case False
    with L show ?thesis by (simp add: rope_lines_count [OF R L])
  qed
qed simp

lemma split_once_lines:
  assumes R: "text_laws R" and L: "rope_lines R rope ls" and row: "row < length ls"
    and l: "ls ! row = joined sp l m"
  obtains rope' where "split_once R row (length l) sp rope = Some rope'"
    and "rope_lines R rope' (take row ls @ l # m # drop (Suc row) ls)"
proof -
  let ?n = "length (rows_before row ls)"
  note ev = split_once_def row_count [OF R L row] row_start [OF R L row] l
  show ?thesis
  proof (cases sp)
    case False
    then have c: "length l \<le> length (ls ! row)" by (simp add: l joined_def)
    from row_split_at [OF R L row c] obtain r1 where
      "rp_insert R rope (?n + length l) [10] = Some r1"
      "rope_lines R r1 (take row ls @ l # m # drop (Suc row) ls)"
      using False by (auto simp: l joined_def)
    with False that show ?thesis by (simp add: ev joined_def)
  next
    case True
    let ?ls = "ls[row := l @ m]"
    have c: "length l \<le> Suc (length l)" "Suc (length l) \<le> length (ls ! row)"
      using True by (simp_all add: l joined_def)
    from row_remove [OF R L row c] obtain r1 where r1:
      "rp_remove R rope (?n + length l) (?n + Suc (length l)) = Some r1" "rope_lines R r1 ?ls"
      using True by (auto simp: l joined_def)
    have k1: "row < length ?ls" and c1: "length l \<le> length (?ls ! row)" using row by simp_all
    have bef: "rows_before row ?ls = rows_before row ls" by (simp add: rows_before_def)
    from row_split_at [OF R r1(2) k1 c1] row obtain r2 where r2:
      "rp_insert R r1 (?n + length l) [10] = Some r2"
      "rope_lines R r2 (take row ls @ l # m # drop (Suc row) ls)" by (auto simp: bef)
    have at: "rp_char_at R rope (?n + length l) = Some 32"
    proof -
      have s: "rp_text R rope = rows_before row ls @ (l @ 32 # m) @ rows_after row ls"
        using row_text [OF L row] True by (simp add: l joined_def)
      then have "?n + length l < length (rp_text R rope)" by simp
      from text_char_at [OF R this] show ?thesis by (simp add: s nth_append)
    qed
    have st1: "rp_line_to_char R r1 row = Some ?n" using row_start [OF R r1(2) k1] bef by simp
    from True r1(1) r2 at st1 that show ?thesis by (simp add: ev joined_def)
  qed
qed

text \<open>Splitting at the columns of a join restores the lines.\<close>

lemma split_join_lines:
  assumes R: "text_laws R"
  shows "row < length ls \<Longrightarrow> join_lines row ws count ls = (cols, sps, ls') \<Longrightarrow> rope_lines R rope ls' \<Longrightarrow>
    \<exists>rope'. split_loop R row cols sps rope = Some rope' \<and> rope_lines R rope' ls"
proof (induction count arbitrary: ls cols sps ls' rope)
  case 0
  then show ?case by simp
next
  case (Suc count)
  show ?case
  proof (cases "Suc row < length ls")
    case False
    with Suc.prems show ?thesis by simp
  next
    case True
    let ?sp = "join_space ws (ls ! row) (ls ! Suc row)"
    let ?ls = "take row ls @ joined ?sp (ls ! row) (ls ! Suc row) # drop (row + 2) ls"
    obtain cols2 sps2 where j: "join_lines row ws count ?ls = (cols2, sps2, ls')"
      "cols = length (ls ! row) # cols2" "sps = ?sp # sps2"
      using Suc.prems(2) True by (auto simp: Let_def split: prod.splits)
    have row: "row < length ?ls" using True by simp
    from Suc.IH [OF row j(1) Suc.prems(3)] obtain r1 where
      r1: "split_loop R row cols2 sps2 rope = Some r1" "rope_lines R r1 ?ls" by blast
    have "?ls ! row = joined ?sp (ls ! row) (ls ! Suc row)" using True by (simp add: take_Cons_nth)
    from split_once_lines [OF R r1(2) row this] obtain r2 where r2:
      "split_once R row (length (ls ! row)) ?sp r1 = Some r2"
      "rope_lines R r2 (take row ?ls @ ls ! row # ls ! Suc row # drop (Suc row) ?ls)" .
    have "take row ?ls @ ls ! row # ls ! Suc row # drop (Suc row) ?ls = ls"
      using True by (simp add: Cons_nth_drop_Suc [of row ls] Cons_nth_drop_Suc [of "Suc row" ls])
    with r1(1) r2 j(2,3) show ?thesis by simp
  qed
qed

text \<open>Joining again with the collapsed flag gives the same lines.\<close>

lemma join_lines_lengths:
  "join_lines row ws count ls = (cols, sps, ls') \<Longrightarrow>
    length cols \<le> count \<and> length sps = length cols \<and> (list_ex id sps \<longrightarrow> ws)"
  by (induction row ws count ls arbitrary: cols sps ls' rule: join_lines.induct)
    (force simp: Let_def join_space_def split: prod.splits if_splits)+

lemma join_lines_again:
  "join_lines row ws count ls = (cols, sps, ls') \<Longrightarrow> \<not> list_ex id sps \<Longrightarrow>
    join_lines row False (length cols) ls = (cols, sps, ls')"
  by (induction row ws count ls arbitrary: cols sps ls' rule: join_lines.induct)
    (auto simp: Let_def join_space_def split: prod.splits if_splits)

lemma join_lines_same:
  "join_lines row ws count ls = (cols, sps, ls') \<Longrightarrow> join_lines row ws (length cols) ls = (cols, sps, ls')"
  by (induction row ws count ls arbitrary: cols sps ls' rule: join_lines.induct)
    (auto simp: Let_def split: prod.splits if_splits)

lemma join_lines_none:
  "join_lines row ws (Suc count) ls = ([], sps, ls') \<Longrightarrow> join_lines row ws' (Suc 0) ls = ([], sps, ls')"
  by (auto simp: Let_def split: prod.splits if_splits)

end
