(* ===== verification/EditLaws.thy ===== *)
theory EditLaws
  imports EditJoins
begin

text \<open>
  The contract of \<open>View::apply_edit\<close>: pushing the returned inverse back restores the text,
  and pushing its inverse restores the edited text, for every edit that fits the text
  (\<open>edit_fits\<close>), one lemma per kind of edit.
\<close>

section \<open>What the contract asks of an edit\<close>

definition edit_fits :: "rstring \<Rightarrow> edit \<Rightarrow> bool" where
  "edit_fits s e =
     (case e of
        InsertChar p c \<Rightarrow> valid_str [c] \<and> plain [c]
      | InsertStr p t \<Rightarrow> valid_str t \<and> plain t
      | DeleteRange p q Char \<Rightarrow> pos_ok s (min p q)
      | DeleteRange p q Line \<Rightarrow> True
      | DeleteRange p q Block \<Rightarrow>
          list_all (\<lambda>row. min (p_col p) (p_col q) \<le> row_chars s row)
            [p_row (min p q) ..< min (Suc (p_row (max p q))) (nlines s)]
      | JoinLines row count ws \<Rightarrow> True
      | Replace p q t \<Rightarrow> pos_ok s (min p q) \<and> valid_str t \<and> plain t
      | InsertBlock p chunks \<Rightarrow> list_all line_text chunks
      | SplitLines row cols sps \<Rightarrow> False
      | DeleteBlockChunks p widths pads \<Rightarrow> False)"

abbreviation view_text :: "'r text_ops \<Rightarrow> 'r view \<Rightarrow> rstring" where
  "view_text R v \<equiv> rp_text R (view_rope v)"

text \<open>The edit, its inverse on any view of the edited text, and the inverse of that.\<close>

definition inverts :: "'r text_ops \<Rightarrow> edit \<Rightarrow> 'r view \<Rightarrow> bool" where
  "inverts R e v \<longleftrightarrow>
     (\<exists>i v1. apply_edit R e v = Some (i, v1) \<and>
       (\<forall>w. view_text R w = view_text R v1 \<longrightarrow>
         (\<exists>j w2. apply_edit R i w = Some (j, w2) \<and> view_text R w2 = view_text R v \<and>
           (\<forall>u. view_text R u = view_text R v \<longrightarrow>
             (\<exists>k u2. apply_edit R j u = Some (k, u2) \<and> view_text R u2 = view_text R v1)))))"

lemma invertsI:
  assumes "apply_edit R e v = Some (i, v1)" and "view_text R v = s" and "view_text R v1 = t"
    and "\<And>w. view_text R w = t \<Longrightarrow> \<exists>w2. apply_edit R i w = Some (j, w2) \<and> view_text R w2 = s"
    and "\<And>u. view_text R u = s \<Longrightarrow> \<exists>k u2. apply_edit R j u = Some (k, u2) \<and> view_text R u2 = t"
  shows "inverts R e v"
  unfolding inverts_def using assms by fastforce

section \<open>Insertions and charwise deletions\<close>

lemma order_min_max: "order p q = (min p q, max p q)"
  by (auto simp: order_def min_def max_def)

lemma apply_insert:
  assumes "text_laws R" and "view_text R v = a @ b" and "plain (a @ b)" and "valid_str t"
  shows "\<exists>w. apply_edit R (InsertStr (pos_at a) t) v =
    Some (DeleteRange (pos_at a) (pos_at (a @ t)) Char, w) \<and> view_text R w = a @ t @ b"
  using insert_str_at [OF assms] by (fastforce simp: apply_edit_def)

lemma apply_delete:
  assumes "text_laws R" and "view_text R v = a @ m @ b" and "plain (a @ m @ b)"
  shows "\<exists>w. apply_edit R (DeleteRange (pos_at a) (pos_at (a @ m)) Char) v =
    Some (InsertStr (pos_at a) m, w) \<and> view_text R w = a @ b"
  using cut_chars_at [OF assms] pos_at_mono [of a m] finish_edit [OF assms(1)]
  by (fastforce simp: apply_edit_def do_delete_range_def order_def)

lemma inserted_inverts:
  assumes R: "text_laws R" and p: "plain (a @ t @ b)" and t: "valid_str t"
    and e: "apply_edit R e v = Some (DeleteRange (pos_at a) (pos_at (a @ t)) Char, v1)"
    and v: "view_text R v = a @ b" and v1: "view_text R v1 = a @ t @ b"
  shows "inverts R e v"
proof (rule invertsI [OF e v v1, of "InsertStr (pos_at a) t"])
  show "\<exists>w2. apply_edit R (DeleteRange (pos_at a) (pos_at (a @ t)) Char) w = Some (InsertStr (pos_at a) t, w2) \<and>
      view_text R w2 = a @ b" if "view_text R w = a @ t @ b" for w
    by (rule apply_delete [OF R that p])
  show "\<exists>k u2. apply_edit R (InsertStr (pos_at a) t) u = Some (k, u2) \<and> view_text R u2 = a @ t @ b"
    if "view_text R u = a @ b" for u
    using apply_insert [OF R that _ t] p by auto
qed

lemma deleted_inverts:
  assumes R: "text_laws R" and p: "plain (a @ m @ b)"
    and e: "apply_edit R e v = Some (InsertStr (pos_at a) m, v1)"
    and v: "view_text R v = a @ m @ b" and v1: "view_text R v1 = a @ b"
  shows "inverts R e v"
proof (rule invertsI [OF e v v1, of "DeleteRange (pos_at a) (pos_at (a @ m)) Char"])
  have m: "valid_str m" using text_valid [OF R, of "view_rope v"] by (simp add: v)
  show "\<exists>w2. apply_edit R (InsertStr (pos_at a) m) w =
      Some (DeleteRange (pos_at a) (pos_at (a @ m)) Char, w2) \<and> view_text R w2 = a @ m @ b"
    if "view_text R w = a @ b" for w
    using apply_insert [OF R that _ m] p by auto
  show "\<exists>k u2. apply_edit R (DeleteRange (pos_at a) (pos_at (a @ m)) Char) u = Some (k, u2) \<and>
      view_text R u2 = a @ b" if "view_text R u = a @ m @ b" for u
    using apply_delete [OF R that p] by blast
qed

lemma insert_str_inverts:
  assumes R: "text_laws R" and p: "plain (view_text R v)" and t: "valid_str t" "plain t"
  shows "inverts R (InsertStr q t) v"
proof -
  let ?T = "view_text R v"
  obtain a b where T: "?T = a @ b" and c: "clampp ?T q = pos_at a"
    using pos_split [OF p clampp_ok] .
  have i: "index_of ?T q = length a"
    using index_of_clampp [of ?T q] index_of_at [of a b] p unfolding c by (simp add: T)
  from do_insert_str_text [OF R t(1), of q v] obtain r' where
    "do_insert_str R q t v =
      Some (DeleteRange (clampp ?T q) (inserted_end (clampp ?T q) t) Char,
        edited R r' (inserted_end (clampp ?T q) t) v)"
    "rp_text R r' = take (index_of ?T q) ?T @ t @ drop (index_of ?T q) ?T" .
  then have e: "apply_edit R (InsertStr q t) v =
      Some (DeleteRange (pos_at a) (pos_at (a @ t)) Char, edited R r' (pos_at (a @ t)) v)"
    and r': "rp_text R r' = a @ t @ b"
    unfolding c i inserted_end_at by (simp_all add: apply_edit_def T)
  show ?thesis
    by (rule inserted_inverts [OF R _ t(1) e T]) (use p t(2) T r' in simp_all)
qed

lemma insert_char_inverts:
  assumes "text_laws R" and "plain (view_text R v)" and "valid_str [c]" and "plain [c]"
  shows "inverts R (InsertChar q c) v"
  using insert_str_inverts [OF assms, of q] by (simp add: inverts_def apply_edit_def)

text \<open>A cut from a valid position removes a piece that follows it.\<close>

lemma cut_from:
  assumes R: "text_laws R" and T: "rp_text R rope = a @ b0" and p: "plain (a @ b0)"
    and le: "pos_at a \<le> q"
  obtains m b rope' where "rope_cut_chars R rope (pos_at a) q = Some (m, rope')"
    and "b0 = m @ b" and "rp_text R rope' = a @ b"
proof -
  let ?j = "index_of (rp_text R rope) q"
  have i: "index_of (rp_text R rope) (pos_at a) = length a" using p by (simp add: T index_of_at)
  from rope_cut_chars_text [OF R le, of rope, unfolded i] obtain r' where
    "rope_cut_chars R rope (pos_at a) q = Some (take (?j - length a) (drop (length a) (rp_text R rope)), r')"
    and r': "rp_text R r' = take (length a) (rp_text R rope) @ drop (max (length a) ?j) (rp_text R rope)" .
  moreover have "max (length a) ?j - length a = ?j - length a" by (simp add: max_def)
  ultimately have "rope_cut_chars R rope (pos_at a) q = Some (take (?j - length a) b0, r')"
    "rp_text R r' = a @ drop (?j - length a) b0" by (simp_all add: T)
  then show ?thesis
    by (intro that [of "take (?j - length a) b0" r' "drop (?j - length a) b0"]) simp_all
qed

lemma delete_char_inverts:
  assumes R: "text_laws R" and p: "plain (view_text R v)" and ok: "pos_ok (view_text R v) (min s e)"
  shows "inverts R (DeleteRange s e Char) v"
proof -
  obtain a b0 where T: "view_text R v = a @ b0" and a: "min s e = pos_at a"
    using pos_split [OF p ok] .
  have le: "pos_at a \<le> max s e" unfolding a [symmetric] by (simp add: min_le_iff_disj)
  have pl: "plain (a @ b0)" using p T by simp
  from cut_from [OF R T pl le] obtain m b r' where
    c: "rope_cut_chars R (view_rope v) (pos_at a) (max s e) = Some (m, r')"
    and b: "b0 = m @ b" and r': "rp_text R r' = a @ b" .
  have e: "apply_edit R (DeleteRange s e Char) v = Some (InsertStr (pos_at a) m, edited R r' (pos_at a) v)"
    by (simp add: apply_edit_def do_delete_range_def order_min_max a c finish_edit [OF R])
  show ?thesis by (rule deleted_inverts [OF R _ e, of b]) (use T b r' pl in simp_all)
qed

lemma replace_at:
  assumes R: "text_laws R" and T: "view_text R v = a @ m @ b" and p: "plain (a @ m @ b)" "plain t"
    and t: "valid_str t" and c: "rope_cut_chars R (view_rope v) (pos_at a) q = Some (m, r)"
    and r: "rp_text R r = a @ b" and q: "min s e = pos_at a" "max s e = q"
  shows "\<exists>w. apply_edit R (Replace s e t) v =
    Some (Replace (pos_at a) (pos_at (a @ t)) m, w) \<and> view_text R w = a @ t @ b"
proof -
  have pl: "plain (a @ b)" using p by simp
  have ix: "index_of (a @ b) (pos_at a) = length a" by (rule index_of_at [OF pl])
  have "length a \<le> length (rp_text R r)" using r by simp
  from text_insert [OF R this t] obtain r2 where
    r2: "rp_insert R r (length a) t = Some r2" "rp_text R r2 = a @ t @ b" by (auto simp: r)
  then show ?thesis
    by (auto simp: apply_edit_def do_replace_def order_min_max q c Let_def clamp_position_text [OF R] r
        clampp_id [OF pos_at_ok [OF pl]] pos_to_char_idx_text [OF R] ix inserted_end_at finish_edit [OF R])
qed

lemma replace_back:
  assumes R: "text_laws R" and T: "view_text R v = a @ m @ b" and p: "plain (a @ m @ b)" "plain t"
    and t: "valid_str t"
  shows "\<exists>w. apply_edit R (Replace (pos_at a) (pos_at (a @ m)) t) v =
    Some (Replace (pos_at a) (pos_at (a @ t)) m, w) \<and> view_text R w = a @ t @ b"
proof -
  from cut_chars_at [OF R T p(1)] obtain r where
    "rope_cut_chars R (view_rope v) (pos_at a) (pos_at (a @ m)) = Some (m, r)" "rp_text R r = a @ b" .
  from replace_at [OF R T p t this] pos_at_mono [of a m] show ?thesis
    by (simp add: min_absorb1 max_absorb2)
qed

lemma replace_inverts:
  assumes R: "text_laws R" and p: "plain (view_text R v)" and ok: "pos_ok (view_text R v) (min s e)"
    and t: "valid_str t" "plain t"
  shows "inverts R (Replace s e t) v"
proof -
  obtain a b0 where T: "view_text R v = a @ b0" and a: "min s e = pos_at a"
    using pos_split [OF p ok] .
  have le: "pos_at a \<le> max s e" unfolding a [symmetric] by (simp add: min_le_iff_disj)
  have pl: "plain (a @ b0)" using p T by simp
  from cut_from [OF R T pl le] obtain m b r' where
    c: "rope_cut_chars R (view_rope v) (pos_at a) (max s e) = Some (m, r')"
    and b: "b0 = m @ b" and r': "rp_text R r' = a @ b" .
  have T': "view_text R v = a @ m @ b" and pl': "plain (a @ m @ b)" using T b pl by simp_all
  then have m: "valid_str m" "plain m" using text_valid [OF R, of "view_rope v"] by simp_all
  from replace_at [OF R T' pl' t(2,1) c r' a refl] obtain w where
    w: "apply_edit R (Replace s e t) v = Some (Replace (pos_at a) (pos_at (a @ t)) m, w)"
    "view_text R w = a @ t @ b" by blast
  show ?thesis
  proof (rule invertsI [OF w(1) T' w(2), of "Replace (pos_at a) (pos_at (a @ m)) t"])
    show "\<exists>w2. apply_edit R (Replace (pos_at a) (pos_at (a @ t)) m) w =
        Some (Replace (pos_at a) (pos_at (a @ m)) t, w2) \<and> view_text R w2 = a @ m @ b"
      if "view_text R w = a @ t @ b" for w
      using replace_back [OF R that _ m(2,1)] pl' t by auto
    show "\<exists>k u2. apply_edit R (Replace (pos_at a) (pos_at (a @ m)) t) u = Some (k, u2) \<and>
        view_text R u2 = a @ t @ b" if "view_text R u = a @ m @ b" for u
      using replace_back [OF R that pl' t(2,1)] by blast
  qed
qed

section \<open>Linewise deletions\<close>

lemma rows_before_prefix: "lo \<le> hi \<Longrightarrow> \<exists>m. rows_before hi ls = rows_before lo ls @ m"
proof -
  assume "lo \<le> hi"
  then have "take hi ls = take lo ls @ take (hi - lo) (drop lo ls)" by (metis le_add_diff_inverse take_add)
  then show ?thesis by (simp add: rows_before_def)
qed

lemma unl_rows_before: "ms \<noteq> [] \<Longrightarrow> unl (ls @ ms) = concat (map (\<lambda>l. l @ [10]) ls) @ unl ms"
  by (induction ls) (auto simp: unl_Cons)

lemma line_range_lines:
  assumes R: "text_laws R" and L: "rope_lines R rope ls" and lo: "lo \<le> hi" and hi: "hi < length ls"
  obtains a m b where "rp_text R rope = a @ m @ b"
    and "line_range R rope lo hi = Some (length a, length a + length m)"
    and "lo > 0 \<and> hi + 1 = length ls \<longrightarrow> b = [] \<and> rowc a = lo - 1"
    and "\<not> (lo > 0 \<and> hi + 1 = length ls) \<longrightarrow> pos_at a = Position lo 0"
    and "a @ b = unl (take lo ls @ drop (Suc hi) ls)"
proof -
  note len = rope_lines_count [OF R L]
  have ok: "lines_ok ls" using L by (simp add: rope_lines_def)
  have st: "rp_line_to_char R rope k = Some (length (rows_before k ls))" if "k < length ls" for k
    using row_start [OF R L that] .
  consider (inner) "hi + 1 < length ls" | (last) "hi + 1 = length ls" "lo > 0"
    | (all) "hi + 1 = length ls" "lo = 0" using hi by linarith
  then show ?thesis
  proof cases
    case inner
    obtain m where m: "rows_before (hi + 1) ls = rows_before lo ls @ m"
      using rows_before_prefix [of lo "hi + 1" ls] lo by auto
    have T: "rp_text R rope = rows_before lo ls @ m @ ls ! (hi + 1) @ rows_after (hi + 1) ls"
      using row_text [OF L inner] by (simp only: m append_assoc)
    have "rowc (rows_before lo ls) = lo \<and> colc (rows_before lo ls) = 0"
      using rows_before_props [OF ok] lo hi by simp
    moreover have "drop (Suc hi) ls = ls ! (hi + 1) # drop (hi + 2) ls" using inner by (simp add: Cons_nth_drop_Suc)
    then have "rows_before lo ls @ ls ! (hi + 1) @ rows_after (hi + 1) ls = unl (take lo ls @ drop (Suc hi) ls)"
      using unl_rows_before [of "drop (Suc hi) ls" "take lo ls"] by (simp add: rows_after_def rows_before_def unl_Cons)
    ultimately show ?thesis
      by (intro that [OF T]) (use inner lo hi st m in \<open>simp_all add: line_range_def len pos_at_def\<close>)
  next
    case last
    then obtain k where k: "lo = Suc k" by (cases lo) auto
    have kl: "k < length ls" using k lo hi by simp
    let ?a = "rows_before k ls @ ls ! k"
    have bef: "rows_before lo ls = ?a @ [10]" using rows_before_Suc [OF kl] k by simp
    obtain m where m: "rp_text R rope = rows_before lo ls @ m"
      using row_text [OF L, of lo] lo hi by auto
    have T: "rp_text R rope = ?a @ (10 # m) @ []" using m bef by simp
    have "10 \<notin> set (ls ! k)" using row_line_text [OF L R kl] by (simp add: line_text_def)
    then have "rowc ?a = k" using rows_before_props [OF ok, of k] kl by (simp add: rowc_0 [THEN iffD2])
    moreover have "take lo ls = take k ls @ [ls ! k]" using kl k by (simp add: take_Suc_conv_app_nth)
    then have "?a = unl (take lo ls)" using unl_rows_before [of "[ls ! k]" "take k ls"] by (simp add: rows_before_def)
    ultimately show ?thesis
      using last lo hi st [of lo] k bef
      by (intro that [OF T]) (simp_all add: line_range_def len text_len_chars [OF R] T)
  next
    case all
    have T: "rp_text R rope = [] @ rp_text R rope @ []" by simp
    show ?thesis
      by (intro that [OF T]) (use all in \<open>simp_all add: line_range_def len text_len_chars [OF R] pos_at_def\<close>)
  qed
qed

lemma delete_lines_text:
  assumes R: "text_laws R" and p: "plain (view_text R v)" and le: "sr \<le> er"
  shows "\<exists>a m b w. view_text R v = a @ m @ b \<and>
    delete_lines R sr er v = Some (InsertStr (pos_at a) m, w) \<and> view_text R w = a @ b \<and>
    (let ls = text_lines (view_text R v); n = length ls
     in a @ b = unl (take (min sr (n - 1)) ls @ drop (Suc (min er (n - 1))) ls))"
proof -
  let ?rope = "view_rope v"
  define ls where "ls = text_lines (view_text R v)"
  have L: "rope_lines R ?rope ls" unfolding ls_def by (rule rope_linesI [OF p])
  note len = rope_lines_count [OF R L]
  define lo hi where "lo = min sr (length ls - 1)" and "hi = min er (length ls - 1)"
  have lh: "lo \<le> hi" "hi < length ls"
    using le rope_lines_pos [OF L] by (auto simp: lo_def hi_def min_less_iff_disj)
  from line_range_lines [OF R L lh] obtain a m b where T: "view_text R v = a @ m @ b"
    and rng: "line_range R ?rope lo hi = Some (length a, length a + length m)"
    and tail: "lo > 0 \<and> hi + 1 = length ls \<longrightarrow> b = [] \<and> rowc a = lo - 1"
    and head: "\<not> (lo > 0 \<and> hi + 1 = length ls) \<longrightarrow> pos_at a = Position lo 0"
    and kept: "a @ b = unl (take lo ls @ drop (Suc hi) ls)" .
  have i: "length a \<le> length a + length m" "length a + length m \<le> length (view_text R v)"
    by (simp_all add: T)
  from text_remove [OF R i] obtain r where
    r: "rp_remove R ?rope (length a) (length a + length m) = Some r" "rp_text R r = a @ b"
    by (auto simp: T)
  have span: "(if length a = length a + length m then Some []
      else rp_slice R ?rope (length a) (length a + length m)) = Some m"
    using text_slice [OF R i] by (simp add: T)
  have inv: "(if lo > 0 \<and> hi + 1 = length ls then do {
                n \<leftarrow> rp_line_chars R r (lo - 1);
                Some (Position (lo - 1) n)
              } else if hi + 1 = length ls then Some (Position 0 0) else Some (Position lo 0)) = Some (pos_at a)"
  proof (cases "lo > 0 \<and> hi + 1 = length ls")
    case True
    with tail have b: "b = []" and k: "rowc a = lo - 1" by auto
    have pa: "plain a" using p T by simp
    have n: "nlines a = Suc (lo - 1)" using k nlines_plain [OF pa] by simp
    have "lstart a (lo - 1) = length a - colc a" using lstart_at [OF pa, of "[]"] k by simp
    then have "rp_line_chars R r (lo - 1) = Some (colc a)"
      using text_line_chars [OF R, of "lo - 1" r] n colc_le [of a]
      by (simp add: r(2) b line_to_char_spec_def)
    with True k show ?thesis by (simp add: pos_at_def)
  next
    case False
    then show ?thesis using head by auto
  qed
  have "delete_lines R sr er v = Some (InsertStr (pos_at a) m,
      edited R r (Position (min lo (rp_len_lines R r - 1)) 0) v)"
    unfolding delete_lines_def Let_def len lo_def [symmetric] hi_def [symmetric] rng
    using span r(1) inv by (simp add: finish_edit [OF R])
  moreover have "let ls = text_lines (view_text R v); n = length ls
      in a @ b = unl (take (min sr (n - 1)) ls @ drop (Suc (min er (n - 1))) ls)"
    using kept by (simp only: ls_def lo_def hi_def Let_def)
  ultimately show ?thesis using T r(2) by auto
qed

lemma delete_line_inverts:
  assumes R: "text_laws R" and p: "plain (view_text R v)"
  shows "inverts R (DeleteRange s e Line) v"
proof -
  have "p_row (min s e) \<le> p_row (max s e)"
    by (auto simp: min_def max_def less_eq_position_def)
  from delete_lines_text [OF R p this] obtain a m b w where
    T: "view_text R v = a @ m @ b"
    and d: "delete_lines R (p_row (min s e)) (p_row (max s e)) v = Some (InsertStr (pos_at a) m, w)"
    and w: "view_text R w = a @ b" by blast
  have e: "apply_edit R (DeleteRange s e Line) v = Some (InsertStr (pos_at a) m, w)"
    by (simp add: apply_edit_def do_delete_range_def order_min_max d)
  show ?thesis by (rule deleted_inverts [OF R _ e T w]) (use p T in simp)
qed

section \<open>Joins\<close>

lemma join_lines_row:
  "row < length ls \<Longrightarrow> join_lines row ws count ls = (cols, sps, ls') \<Longrightarrow> row < length ls'"
  by (induction row ws count ls arbitrary: cols sps ls' rule: join_lines.induct)
    (auto simp: Let_def split: prod.splits if_splits)

lemma join_lines_redo:
  assumes "join_lines row ws (max count 1) ls = (cols, sps, ls')"
  shows "\<exists>cols' sps'. join_lines row (list_ex id sps) (max (length cols) 1) ls = (cols', sps', ls')"
proof (cases "cols = []")
  case True
  obtain n where n: "max count 1 = Suc n" by (metis One_nat_def max.commute max_Suc_Suc max_0R old.nat.exhaust)
  from join_lines_none [OF assms [unfolded n True], of "list_ex id sps"] True show ?thesis by auto
next
  case False
  then have "max (length cols) 1 = length cols" by (cases cols) auto
  moreover have "list_ex id sps \<Longrightarrow> ws" using join_lines_lengths [OF assms] by blast
  ultimately show ?thesis
    using join_lines_same [OF assms] join_lines_again [OF assms] by (cases "list_ex id sps") auto
qed

lemma apply_join:
  assumes R: "text_laws R" and L: "rope_lines R (view_rope v) ls"
    and j: "join_lines (min row (length ls - 1)) ws (max count 1) ls = (cols, sps, ls')"
  shows "\<exists>w. apply_edit R (JoinLines row count ws) v =
      Some (SplitLines (min row (length ls - 1)) cols sps, w) \<and> view_text R w = unl ls' \<and> lines_ok ls'"
  using join_loop_lines [OF R L, of "min row (length ls - 1)" ws "max count 1"] j
  by (auto simp: apply_edit_def do_join_lines_def Let_def rope_lines_count [OF R L] finish_edit [OF R]
      rope_lines_def)

lemma join_inverts:
  assumes R: "text_laws R" and p: "plain (view_text R v)"
  shows "inverts R (JoinLines row count ws) v"
proof -
  define ls k where "ls = text_lines (view_text R v)" and "k = min row (length ls - 1)"
  have L: "rope_lines R (view_rope v) ls" unfolding ls_def by (rule rope_linesI [OF p])
  have k: "k < length ls" using rope_lines_pos [OF L] by (auto simp: k_def min_less_iff_disj)
  obtain cols sps ls' where j: "join_lines k ws (max count 1) ls = (cols, sps, ls')" by (rule prod_cases3)
  from apply_join [OF R L j [unfolded k_def]] obtain w where
    w: "apply_edit R (JoinLines row count ws) v = Some (SplitLines k cols sps, w)"
    "view_text R w = unl ls'" and ok: "lines_ok ls'" by (auto simp: k_def)
  have T: "view_text R v = unl ls" using L by (simp add: rope_lines_def)
  have k': "k < length ls'" by (rule join_lines_row [OF k j])
  show ?thesis
  proof (rule invertsI [OF w(1) T w(2), of "JoinLines k (length cols) (list_ex id sps)"])
    fix w
    assume "view_text R w = unl ls'"
    then have L': "rope_lines R (view_rope w) ls'" using ok by (simp add: rope_lines_def)
    have m: "min k (rp_len_lines R (view_rope w) - 1) = k"
      using k' by (simp add: rope_lines_count [OF R L'] min_absorb1)
    from split_join_lines [OF R k j L'] m
    show "\<exists>w2. apply_edit R (SplitLines k cols sps) w = Some (JoinLines k (length cols) (list_ex id sps), w2) \<and>
        view_text R w2 = unl ls"
      by (auto simp: apply_edit_def do_split_lines_def Let_def finish_edit [OF R] rope_lines_def)
  next
    fix u
    assume "view_text R u = unl ls"
    then have Lu: "rope_lines R (view_rope u) ls" using L by (simp add: rope_lines_def)
    have m: "min k (length ls - 1) = k" using k by (simp add: min_absorb1)
    obtain cols' sps' where
      j': "join_lines (min k (length ls - 1)) (list_ex id sps) (max (length cols) 1) ls = (cols', sps', ls')"
      using join_lines_redo [OF j] m by auto
    from apply_join [OF R Lu j']
    show "\<exists>i u2. apply_edit R (JoinLines k (length cols) (list_ex id sps)) u = Some (i, u2) \<and>
        view_text R u2 = unl ls'" by blast
  qed
qed

section \<open>Blocks\<close>

lemma nth_on_rows:
  assumes "i < length xs" and "row + i < length ls"
  shows "on_rows f row xs ls ! (row + i) = f (xs ! i) (ls ! (row + i))"
proof -
  have nth: "i < length xs \<Longrightarrow> i < length ls \<Longrightarrow> rows_from f xs ls ! i = f (xs ! i) (ls ! i)" for i ls
  proof (induction f xs ls arbitrary: i rule: rows_from.induct)
    case (1 f x xs l ls)
    then show ?case by (cases i) auto
  qed simp_all
  show ?thesis using assms nth [of i "drop row ls"] by (simp add: on_rows_def nth_append)
qed

lemma apply_insert_block:
  assumes R: "text_laws R" and L: "rope_lines R (view_rope v) ls" and c: "\<forall>t \<in> set chunks. line_text t"
  shows "\<exists>w. apply_edit R (InsertBlock (Position row col) chunks) v =
      Some (DeleteBlockChunks (Position row col) (map length chunks)
              (rows_get 0 (\<lambda>_ l. col - length l) row chunks ls), w) \<and>
    view_text R w = unl (on_rows (block_ins col) row chunks ls) \<and>
    lines_ok (on_rows (block_ins col) row chunks ls)"
  using insert_block_loop_lines [OF R L c, of row col]
  by (auto simp: apply_edit_def do_insert_block_def finish_edit [OF R] rope_lines_def)

lemma apply_delete_chunks:
  assumes R: "text_laws R" and L: "rope_lines R (view_rope v) ls" and n: "length pads = length widths"
  shows "\<exists>w. apply_edit R (DeleteBlockChunks (Position row col) widths pads) v =
      Some (InsertBlock (Position row col) (rows_get [] (block_removed col) row (zip widths pads) ls), w) \<and>
    view_text R w = unl (on_rows (block_del col) row (zip widths pads) ls) \<and>
    lines_ok (on_rows (block_del col) row (zip widths pads) ls)"
  using delete_chunks_loop_lines [OF R L n, of row col]
  by (auto simp: apply_edit_def do_delete_block_chunks_def finish_edit [OF R] rope_lines_def)

lemma rope_lines_unl: "view_text R w = unl ls \<Longrightarrow> lines_ok ls \<Longrightarrow> rope_lines R (view_rope w) ls"
  by (simp add: rope_lines_def)

lemma insert_block_inverts:
  assumes R: "text_laws R" and p: "plain (view_text R v)" and c: "\<forall>t \<in> set chunks. line_text t"
  shows "inverts R (InsertBlock q chunks) v"
proof -
  obtain row col where q: "q = Position row col" by (cases q)
  define ls where "ls = text_lines (view_text R v)"
  have L: "rope_lines R (view_rope v) ls" unfolding ls_def by (rule rope_linesI [OF p])
  then have T: "view_text R v = unl ls" and ok: "lines_ok ls" by (simp_all add: rope_lines_def)
  let ?ls1 = "on_rows (block_ins col) row chunks ls"
  define ws where "ws = map length chunks"
  define pads where "pads = rows_get 0 (\<lambda>_ l. col - length l) row chunks ls"
  define again where "again = rows_get [] (block_removed col) row (zip ws pads) ?ls1"
  have n: "length pads = length ws" by (simp add: ws_def pads_def)
  have del: "on_rows (block_del col) row (zip ws pads) ?ls1 = ls"
    by (rule on_rows_inverse) (simp_all add: ws_def pads_def rows_get_nth block_del_ins)
  have again: "again ! i = (if row + i < length ls then chunks ! i else [])" if "i < length chunks" for i
    using that by (simp add: again_def rows_get_nth ws_def pads_def nth_on_rows block_removed_ins)
  have len: "length again = length chunks" by (simp add: again_def ws_def pads_def)
  have cb: "\<forall>t \<in> set again. line_text t"
    using c again len by (metis in_set_conv_nth line_text_simps(1))
  have redo: "on_rows (block_ins col) row again ls = ?ls1"
    by (rule on_rows_cong) (simp_all add: len again)
  from apply_insert_block [OF R L c, of row col] obtain w where
    w: "apply_edit R (InsertBlock q chunks) v = Some (DeleteBlockChunks q ws pads, w)"
    "view_text R w = unl ?ls1" and ok1: "lines_ok ?ls1" by (auto simp: q ws_def pads_def)
  show ?thesis
  proof (rule invertsI [OF w(1) T w(2), of "InsertBlock q again"])
    fix w
    assume "view_text R w = unl ?ls1"
    from apply_delete_chunks [OF R rope_lines_unl [OF this ok1] n, of row col]
    show "\<exists>w2. apply_edit R (DeleteBlockChunks q ws pads) w = Some (InsertBlock q again, w2) \<and>
        view_text R w2 = unl ls" by (auto simp: q again_def del)
  next
    fix u
    assume "view_text R u = unl ls"
    from apply_insert_block [OF R rope_lines_unl [OF this ok] cb, of row col]
    show "\<exists>k u2. apply_edit R (InsertBlock q again) u = Some (k, u2) \<and> view_text R u2 = unl ?ls1"
      by (auto simp: q redo)
  qed
qed

definition cut_chunks :: "nat \<Rightarrow> nat \<Rightarrow> nat \<Rightarrow> nat \<Rightarrow> rstring list \<Rightarrow> rstring list" where
  "cut_chunks row left right count ls =
     rows_get [] (\<lambda>_ l. take (Suc right - left) (drop left l)) row (replicate count ()) ls"

definition cut_rows :: "nat \<Rightarrow> nat \<Rightarrow> nat \<Rightarrow> nat \<Rightarrow> rstring list \<Rightarrow> rstring list" where
  "cut_rows row left right count ls = on_rows (block_cut left right) row (replicate count ()) ls"

text \<open>No existing row of the rectangle is shorter than its left column.\<close>

definition wide_rows :: "nat \<Rightarrow> nat \<Rightarrow> nat \<Rightarrow> rstring list \<Rightarrow> bool" where
  "wide_rows row left count ls \<longleftrightarrow> (\<forall>i. i < count \<longrightarrow> row + i < length ls \<longrightarrow> left \<le> length (ls ! (row + i)))"

lemma length_cut_chunks [simp]: "length (cut_chunks row left right count ls) = count"
  by (simp add: cut_chunks_def)

lemma cut_chunks_nth:
  "i < count \<Longrightarrow> cut_chunks row left right count ls ! i =
    (if row + i < length ls then take (Suc right - left) (drop left (ls ! (row + i))) else [])"
  by (simp add: cut_chunks_def rows_get_nth del: replicate.simps)

lemma cut_chunks_line_text:
  assumes R: "text_laws R" and L: "rope_lines R rope ls"
  shows "\<forall>t \<in> set (cut_chunks row left right count ls). line_text t"
proof
  fix t
  assume "t \<in> set (cut_chunks row left right count ls)"
  then obtain i where i: "i < count" "t = cut_chunks row left right count ls ! i"
    by (auto simp: in_set_conv_nth)
  show "line_text t"
  proof (cases "row + i < length ls")
    case True
    then show ?thesis using row_line_text [OF L R True] by (simp add: i cut_chunks_nth)
  qed (simp add: i cut_chunks_nth)
qed

lemma insert_cut_chunks:
  assumes "left \<le> right" and "wide_rows row left count ls"
  shows "on_rows (block_ins left) row (cut_chunks row left right count ls) (cut_rows row left right count ls) = ls"
  unfolding cut_rows_def
proof (rule on_rows_inverse)
  show "\<forall>i. i < length (replicate count ()) \<longrightarrow> row + i < length ls \<longrightarrow>
      block_ins left (cut_chunks row left right count ls ! i)
        (block_cut left right (replicate count () ! i) (ls ! (row + i))) = ls ! (row + i)"
    using assms by (auto simp: wide_rows_def cut_chunks_nth block_ins_cut simp del: replicate.simps)
qed simp

lemma delete_cut_chunks:
  assumes "left \<le> right" and "wide_rows row left count ls"
  defines "chunks \<equiv> cut_chunks row left right count ls"
  shows "on_rows (block_del left) row
      (zip (map length chunks) (rows_get 0 (\<lambda>_ l. left - length l) row chunks (cut_rows row left right count ls))) ls =
    cut_rows row left right count ls"
  unfolding cut_rows_def
proof (rule on_rows_cong)
  let ?ls1 = "on_rows (block_cut left right) row (replicate count ()) ls"
  let ?pads = "rows_get 0 (\<lambda>_ l. left - length l) row chunks ?ls1"
  show "\<forall>i. i < length (replicate count ()) \<longrightarrow> row + i < length ls \<longrightarrow>
      block_del left (zip (map length chunks) ?pads ! i) (ls ! (row + i)) =
        block_cut left right (replicate count () ! i) (ls ! (row + i))"
  proof (intro allI impI)
    fix i
    assume i: "i < length (replicate count ())" "row + i < length ls"
    then have wide: "left \<le> length (ls ! (row + i))" using assms(2) by (simp add: wide_rows_def)
    have "?ls1 ! (row + i) = block_cut left right (replicate count () ! i) (ls ! (row + i))"
      by (rule nth_on_rows [OF i])
    then have "length (?ls1 ! (row + i)) \<ge> left" using wide by (simp add: block_cut_def)
    then have "?pads ! i = 0" using i by (simp add: rows_get_nth chunks_def)
    then have "zip (map length chunks) ?pads ! i =
        (length (take (Suc right - left) (drop left (ls ! (row + i)))), 0)"
      using i cut_chunks_nth [of i count row left right ls] by (simp add: chunks_def)
    then show "block_del left (zip (map length chunks) ?pads ! i) (ls ! (row + i)) =
        block_cut left right (replicate count () ! i) (ls ! (row + i))"
      using block_del_cut [OF assms(1) wide] by simp
  qed
qed (simp add: chunks_def)

lemma cut_block_inverts:
  assumes R: "text_laws R" and L: "rope_lines R (view_rope v) ls" and lr: "left \<le> right"
    and wide: "wide_rows row left count ls"
    and e: "apply_edit R e v = Some (InsertBlock (Position row left) (cut_chunks row left right count ls), v1)"
    and v1: "rope_lines R (view_rope v1) (cut_rows row left right count ls)"
  shows "inverts R e v"
proof -
  let ?chunks = "cut_chunks row left right count ls" and ?q = "Position row left"
  let ?ls1 = "cut_rows row left right count ls"
  let ?ws = "map length ?chunks" and ?pads = "rows_get 0 (\<lambda>_ l. left - length l) row ?chunks ?ls1"
  have T: "view_text R v = unl ls" and ok: "lines_ok ls" using L by (simp_all add: rope_lines_def)
  have T1: "view_text R v1 = unl ?ls1" and ok1: "lines_ok ?ls1" using v1 by (simp_all add: rope_lines_def)
  have n: "length ?pads = length ?ws" by simp
  show ?thesis
  proof (rule invertsI [OF e T T1, of "DeleteBlockChunks ?q ?ws ?pads"])
    fix w
    assume "view_text R w = unl ?ls1"
    from apply_insert_block [OF R rope_lines_unl [OF this ok1] cut_chunks_line_text [OF R L],
        of row left row left right count]
    show "\<exists>w2. apply_edit R (InsertBlock ?q ?chunks) w = Some (DeleteBlockChunks ?q ?ws ?pads, w2) \<and>
        view_text R w2 = unl ls" unfolding insert_cut_chunks [OF lr wide] by blast
  next
    fix u
    assume "view_text R u = unl ls"
    from apply_delete_chunks [OF R rope_lines_unl [OF this ok] n, of row left]
    show "\<exists>k u2. apply_edit R (DeleteBlockChunks ?q ?ws ?pads) u = Some (k, u2) \<and> view_text R u2 = unl ?ls1"
      unfolding delete_cut_chunks [OF lr wide] by blast
  qed
qed

lemma apply_delete_block:
  assumes R: "text_laws R" and L: "rope_lines R (view_rope v) ls" and s: "order s e = (s', e')"
  defines "left \<equiv> min (p_col s') (p_col e')" and "right \<equiv> max (p_col s') (p_col e')"
    and "count \<equiv> p_row e' - p_row s' + 1"
  shows "\<exists>w. apply_edit R (DeleteRange s e Block) v =
      Some (InsertBlock (Position (p_row s') left) (cut_chunks (p_row s') left right count ls), w) \<and>
    rope_lines R (view_rope w) (cut_rows (p_row s') left right count ls)"
proof -
  have lr: "left \<le> right" by (simp add: left_def right_def)
  from cut_block_loop_lines [OF R lr L, of "p_row s'" count] obtain r where
    r: "cut_block_loop R (p_row s') left right count (view_rope v) =
      Some (cut_chunks (p_row s') left right count ls, r)"
    "rope_lines R r (cut_rows (p_row s') left right count ls)"
    unfolding cut_chunks_def cut_rows_def by blast
  from r show ?thesis
    unfolding left_def right_def count_def
    by (simp del: cut_block_loop.simps add: apply_edit_def do_delete_range_def s Let_def finish_edit [OF R])
qed

lemma fits_block_wide:
  assumes ok: "lines_ok ls"
  shows "edit_fits (unl ls) (DeleteRange s e Block) \<longleftrightarrow>
    wide_rows (p_row (min s e)) (min (p_col (min s e)) (p_col (max s e)))
      (p_row (max s e) - p_row (min s e) + 1) ls"
proof -
  let ?row = "p_row (min s e)" and ?last = "p_row (max s e)" and ?left = "min (p_col s) (p_col e)"
  have le: "?row \<le> ?last" by (auto simp: min_def max_def less_eq_position_def)
  have left: "min (p_col (min s e)) (p_col (max s e)) = ?left" by (auto simp: min_def max_def)
  have "edit_fits (unl ls) (DeleteRange s e Block) \<longleftrightarrow>
      (\<forall>k. ?row \<le> k \<and> k \<le> ?last \<and> k < length ls \<longrightarrow> ?left \<le> row_chars (unl ls) k)"
    unfolding edit_fits_def edit.case motion_kind.case list_all_iff set_upt
    by (auto simp: nlines_unl [OF ok] less_Suc_eq_le simp del: min.bounded_iff)
  also have "\<dots> \<longleftrightarrow> (\<forall>k. ?row \<le> k \<and> k \<le> ?last \<and> k < length ls \<longrightarrow> ?left \<le> length (ls ! k))"
    using row_chars_unl [OF ok] by metis
  also have "\<dots> \<longleftrightarrow> wide_rows ?row ?left (?last - ?row + 1) ls"
    unfolding wide_rows_def
  proof (intro iffI allI impI)
    fix k
    assume w: "\<forall>i. i < ?last - ?row + 1 \<longrightarrow> ?row + i < length ls \<longrightarrow> ?left \<le> length (ls ! (?row + i))"
      and k: "?row \<le> k \<and> k \<le> ?last \<and> k < length ls"
    then have "k - ?row < ?last - ?row + 1" "?row + (k - ?row) = k" by linarith+
    then show "?left \<le> length (ls ! k)" using w [rule_format, of "k - ?row"] k by simp
  next
    fix i
    assume w: "\<forall>k. ?row \<le> k \<and> k \<le> ?last \<and> k < length ls \<longrightarrow> ?left \<le> length (ls ! k)"
      and i: "i < ?last - ?row + 1" "?row + i < length ls"
    then have "?row \<le> ?row + i \<and> ?row + i \<le> ?last" using le by linarith
    then show "?left \<le> length (ls ! (?row + i))" using w i(2) by blast
  qed
  finally show ?thesis unfolding left .
qed

lemma delete_block_inverts:
  assumes R: "text_laws R" and p: "plain (view_text R v)"
    and fits: "edit_fits (view_text R v) (DeleteRange s e Block)"
  shows "inverts R (DeleteRange s e Block) v"
proof -
  define ls where "ls = text_lines (view_text R v)"
  have L: "rope_lines R (view_rope v) ls" unfolding ls_def by (rule rope_linesI [OF p])
  then have T: "view_text R v = unl ls" and ok: "lines_ok ls" by (simp_all add: rope_lines_def)
  let ?s = "min s e" and ?e = "max s e"
  have "wide_rows (p_row ?s) (min (p_col ?s) (p_col ?e)) (p_row ?e - p_row ?s + 1) ls"
    using fits fits_block_wide [OF ok, of s e] by (simp only: T)
  moreover have "min (p_col ?s) (p_col ?e) \<le> max (p_col ?s) (p_col ?e)" by simp
  moreover note apply_delete_block [OF R L order_min_max [of s e]]
  ultimately show ?thesis using cut_block_inverts [OF R L] by blast
qed

text \<open>A row shorter than the left column comes back padded.\<close>

lemma narrow_row_padded:
  assumes lr: "left \<le> right" and n: "\<not> wide_rows row left count ls"
  shows "on_rows (block_ins left) row (cut_chunks row left right count ls) (cut_rows row left right count ls) \<noteq> ls"
proof
  assume eq: "on_rows (block_ins left) row (cut_chunks row left right count ls) (cut_rows row left right count ls) = ls"
  from n obtain i where i: "i < count" "row + i < length ls" and short: "length (ls ! (row + i)) < left"
    by (auto simp: wide_rows_def not_le)
  let ?l = "ls ! (row + i)"
  have "cut_rows row left right count ls ! (row + i) = block_cut left right (replicate count () ! i) ?l"
    unfolding cut_rows_def by (rule nth_on_rows) (use i in simp_all)
  also have "\<dots> = ?l" using short lr by (simp add: block_cut_def)
  finally have "on_rows (block_ins left) row (cut_chunks row left right count ls)
      (cut_rows row left right count ls) ! (row + i) = block_ins left (cut_chunks row left right count ls ! i) ?l"
    using nth_on_rows [of i "cut_chunks row left right count ls" row "cut_rows row left right count ls"] i
    by (simp add: cut_rows_def)
  moreover have "length (block_ins left t ?l) \<ge> left" for t using short by (simp add: block_ins_def Let_def)
  ultimately show False using eq short by (metis not_le)
qed

lemma block_undo:
  assumes R: "text_laws R" and p: "plain (view_text R v)"
  shows "\<exists>i v1 j v2. apply_edit R (DeleteRange s e Block) v = Some (i, v1) \<and> apply_edit R i v1 = Some (j, v2) \<and>
    (view_text R v2 = view_text R v \<longleftrightarrow> edit_fits (view_text R v) (DeleteRange s e Block))"
proof -
  define ls where "ls = text_lines (view_text R v)"
  have L: "rope_lines R (view_rope v) ls" unfolding ls_def by (rule rope_linesI [OF p])
  then have T: "view_text R v = unl ls" and ok: "lines_ok ls" by (simp_all add: rope_lines_def)
  let ?row = "p_row (min s e)" and ?left = "min (p_col (min s e)) (p_col (max s e))"
    and ?right = "max (p_col (min s e)) (p_col (max s e))" and ?n = "p_row (max s e) - p_row (min s e) + 1"
  have lr: "?left \<le> ?right" by simp
  let ?chunks = "cut_chunks ?row ?left ?right ?n ls" and ?ls1 = "cut_rows ?row ?left ?right ?n ls"
  from apply_delete_block [OF R L order_min_max [of s e]] obtain v1 where
    1: "apply_edit R (DeleteRange s e Block) v = Some (InsertBlock (Position ?row ?left) ?chunks, v1)"
    and L1: "rope_lines R (view_rope v1) ?ls1" by blast
  from apply_insert_block [OF R L1 cut_chunks_line_text [OF R L], of ?row ?left ?row ?left ?right ?n]
  obtain j v2 where 2: "apply_edit R (InsertBlock (Position ?row ?left) ?chunks) v1 = Some (j, v2)"
    and v2: "view_text R v2 = unl (on_rows (block_ins ?left) ?row ?chunks ?ls1)"
    and ok2: "lines_ok (on_rows (block_ins ?left) ?row ?chunks ?ls1)" by blast
  have "view_text R v2 = view_text R v \<longleftrightarrow> on_rows (block_ins ?left) ?row ?chunks ?ls1 = ls"
    unfolding v2 T using text_lines_unl [OF ok] text_lines_unl [OF ok2] by metis
  also have "\<dots> \<longleftrightarrow> wide_rows ?row ?left ?n ls"
    using insert_cut_chunks [OF lr] narrow_row_padded [OF lr] by blast
  finally show ?thesis using 1 2 fits_block_wide [OF ok, of s e] unfolding T by blast
qed

section \<open>Every edit that fits\<close>

lemma edit_inverts:
  assumes "text_laws R" and "plain (view_text R v)" and "edit_fits (view_text R v) e"
  shows "inverts R e v"
proof (cases e)
  case (InsertChar p c)
  with assms show ?thesis
    using insert_char_inverts [OF assms(1,2), of c p] by (simp only: edit_fits_def edit.case)
next
  case (InsertStr p t)
  with assms show ?thesis
    using insert_str_inverts [OF assms(1,2), of t p] by (simp only: edit_fits_def edit.case)
next
  case (DeleteRange p q kind)
  with assms show ?thesis
    using delete_char_inverts [OF assms(1,2), of p q] delete_line_inverts [OF assms(1,2), of p q]
      delete_block_inverts [OF assms(1,2), of p q]
    by (cases kind) (simp_all only: edit_fits_def edit.case motion_kind.case)
next
  case (JoinLines row count ws)
  then show ?thesis using join_inverts [OF assms(1,2)] by simp
next
  case (Replace p q t)
  with assms show ?thesis
    using replace_inverts [OF assms(1,2), of p q t] by (simp only: edit_fits_def edit.case)
next
  case (InsertBlock p chunks)
  with assms show ?thesis
    using insert_block_inverts [OF assms(1,2), of chunks p] by (simp add: edit_fits_def list_all_iff)
qed (use assms(3) in \<open>simp_all add: edit_fits_def\<close>)

end
