(* ===== verification/EditSafe.thy ===== *)
theory EditSafe
  imports EditLaws
begin

text \<open>
  Every edit of every text, whatever its line breaks: no operation panics, and the view
  stays well formed (its cursor is a valid position, the two caches keyed by the
  generation hold what they claim).
\<close>

section \<open>Rows of an edited text\<close>

definition ends_row :: "rchar \<Rightarrow> rstring \<Rightarrow> bool" where
  "ends_row c s \<longleftrightarrow> is_break c \<and> \<not> (c = 13 \<and> s \<noteq> [] \<and> hd s = 10)"

lemma breaks_Cons:
  "breaks_from i (c # s) = (if ends_row c s then Suc i # breaks_from (Suc i) s else breaks_from (Suc i) s)"
  by (simp add: ends_row_def)

lemma ends_row_take: "ends_row c s \<Longrightarrow> ends_row c (take k s)"
  by (cases s; cases k) (auto simp: ends_row_def)

lemma ends_row_append: "a \<noteq> [] \<Longrightarrow> ends_row c (a @ b) = ends_row c a"
  by (simp add: ends_row_def)

lemma breaks_take:
  "b \<in> set (breaks_from i s) \<Longrightarrow> b \<le> i + k \<Longrightarrow> b \<in> set (breaks_from i (take k s))"
proof (induction s arbitrary: i k)
  case (Cons c s)
  show ?case
  proof (cases k)
    case 0
    with Cons.prems breaks_range [OF Cons.prems(1)] show ?thesis by linarith
  next
    case (Suc k')
    have tk: "take k (c # s) = c # take k' s" by (simp add: Suc)
    consider "ends_row c s" "b = Suc i" | "b \<in> set (breaks_from (Suc i) s)"
      using Cons.prems(1) unfolding breaks_Cons by (cases "ends_row c s") auto
    then show ?thesis
    proof cases
      case 1
      then show ?thesis unfolding tk breaks_Cons by (simp add: ends_row_take)
    next
      case 2
      then have "b \<in> set (breaks_from (Suc i) (take k' s))" using Cons.prems(2) Suc by (intro Cons.IH) simp_all
      then show ?thesis unfolding tk breaks_Cons by simp
    qed
  qed
qed simp

lemma nlines_take:
  assumes "row < nlines s" and "lstart s row \<le> k"
  shows "row < nlines (take k s)"
proof -
  let ?bs = "breaks_from 0 s"
  have "set (take row ?bs) \<subseteq> set (breaks_from 0 (take k s))"
  proof
    fix b
    assume b: "b \<in> set (take row ?bs)"
    then obtain i where i: "i < row" "b = ?bs ! i" "i < length ?bs" by (auto simp: in_set_conv_nth)
    then have "b = lstart s (Suc i)" by (simp add: lstart_def line_starts_def)
    also have "\<dots> \<le> lstart s row" using i(1) assms(1) by (intro lstart_mono) simp_all
    finally have "b \<le> 0 + k" using assms(2) by simp
    with b show "b \<in> set (breaks_from 0 (take k s))" by (intro breaks_take) (auto dest: in_set_takeD)
  qed
  then have "card (set (take row ?bs)) \<le> card (set (breaks_from 0 (take k s)))" by (intro card_mono) simp_all
  moreover have "distinct ?bs" using breaks_sorted [of 0 s] by (simp add: strict_sorted_iff)
  then have "card (set (take row ?bs)) = length (take row ?bs)" by (intro distinct_card) simp
  moreover have "card (set (breaks_from 0 (take k s))) \<le> length (breaks_from 0 (take k s))" by (rule card_length)
  ultimately have "length (take row ?bs) \<le> length (breaks_from 0 (take k s))" by linarith
  with assms(1) show ?thesis by (simp add: nlines_breaks)
qed

lemma breaks_shift: "length (breaks_from i s) = length (breaks_from j s)"
proof (induction s arbitrary: i j)
  case (Cons c s)
  have "length (breaks_from (Suc i) s) = length (breaks_from (Suc j) s)" by (rule Cons)
  then show ?case unfolding breaks_Cons by simp
qed simp

lemma breaks_lf: "length (breaks_from i (10 # b)) = Suc (length (breaks_from i b))"
  using breaks_shift [of "Suc i" b i] by (simp add: breaks_Cons ends_row_def del: breaks_from.simps)

lemma breaks_insert: "length (breaks_from i (a @ b)) \<le> length (breaks_from i (a @ 10 # b))"
proof (induction a arbitrary: i)
  case Nil
  show ?case by (simp add: breaks_lf del: breaks_from.simps)
next
  case (Cons c a)
  have IH: "length (breaks_from (Suc i) (a @ b)) \<le> length (breaks_from (Suc i) (a @ 10 # b))" by (rule Cons)
  show ?case
  proof (cases a)
    case Nil
    show ?thesis by (simp add: Nil breaks_Cons [of _ c] breaks_lf del: breaks_from.simps)
  next
    case (Cons d a')
    then have "a \<noteq> []" by simp
    then have "ends_row c (a @ x) = ends_row c a" for x by (rule ends_row_append)
    with IH show ?thesis by (simp add: breaks_Cons [of _ c] del: breaks_from.simps)
  qed
qed

lemma nlines_insert: "nlines s \<le> nlines (take k s @ 10 # drop k s)"
  using breaks_insert [of 0 "take k s" "drop k s"] by (simp add: nlines_breaks)

section \<open>No operation panics\<close>

definition edit_chars_ok :: "edit \<Rightarrow> bool" where
  "edit_chars_ok e =
     (case e of
        InsertChar p c \<Rightarrow> valid_str [c]
      | InsertStr p t \<Rightarrow> valid_str t
      | Replace p q t \<Rightarrow> valid_str t
      | InsertBlock p chunks \<Rightarrow> list_all valid_str chunks
      | SplitLines row cols sps \<Rightarrow> \<not> list_ex id sps
      | _ \<Rightarrow> True)"

text \<open>
  The numbers the source computes from those of an edit, before it clamps to the text: the
  column behind a block, the rows of its chunks (a vector of 24-byte strings), the padding of
  a row, the end of a chunk.  They have to fit \<open>usize\<close>, and what is allocated \<open>isize\<close>.
\<close>

definition usize_ok :: "edit \<Rightarrow> bool" where
  "usize_ok e =
     (case e of
        DeleteRange p q Block \<Rightarrow> max (p_col p) (p_col q) + 1 < 2 ^ 64 \<and>
          24 * (max (p_row p) (p_row q) - min (p_row p) (p_row q) + 1) < 2 ^ 63
      | InsertBlock p chunks \<Rightarrow> p_row p + length chunks < 2 ^ 64 \<and> p_col p < 2 ^ 63
      | DeleteBlockChunks p ws pads \<Rightarrow> p_row p + length ws < 2 ^ 64 \<and>
          list_all (\<lambda>w. p_col p + w < 2 ^ 64) ws
      | _ \<Rightarrow> True)"

lemma insert_total:
  "text_laws R \<Longrightarrow> i \<le> length (rp_text R rope) \<Longrightarrow> valid_str t \<Longrightarrow> \<exists>r. rp_insert R rope i t = Some r"
  by (elim text_insert) auto

lemma valid_spaces: "valid_str (replicate n 32)"
  by (auto simp: valid_str_def scalar_ok_def)

lemma insert_block_total:
  assumes R: "text_laws R"
  shows "\<forall>t \<in> set chunks. valid_str t \<Longrightarrow> \<exists>x. insert_block_loop R row col chunks rope = Some x"
proof (induction chunks arbitrary: row rope)
  case (Cons chunk chunks)
  have pad: "\<exists>pad r. pad_row R rope row col = Some (pad, r)" for rope
  proof -
    let ?lc = "row_chars (rp_text R rope) row"
    obtain r where "rp_insert R rope (char_index (rp_text R rope) row ?lc) (replicate (col - ?lc) 32) = Some r"
      using insert_total [OF R char_index_le valid_spaces] by blast
    then show ?thesis
      by (simp add: pad_row_def rope_line_char_count_text [OF R] pos_to_char_idx_text [OF R])
  qed
  have ins: "\<exists>r. insert_chunk R rope row col chunk = Some r" for rope
    using insert_total [OF R char_index_le [of "rp_text R rope" row col], of chunk] Cons.prems
    by (simp add: insert_chunk_def pos_to_char_idx_text [OF R])
  obtain pad r1 where r1: "pad_row R rope row col = Some (pad, r1)" using pad by blast
  obtain r2 where r2: "insert_chunk R r1 row col chunk = Some r2" using ins by blast
  obtain x where "insert_block_loop R (Suc row) col chunks r2 = Some x"
    using Cons.IH [of "Suc row" r2] Cons.prems by fastforce
  with r1 r2 show ?case by (cases x) simp
qed simp

lemma delete_chunk_total:
  assumes R: "text_laws R"
  shows "\<exists>x. delete_chunk R rope row col w pad = Some x"
proof (cases "row < nlines (rp_text R rope)")
  case True
  let ?T = "rp_text R rope" and ?lc = "row_chars (rp_text R rope) row"
  show ?thesis
  proof (cases "min (col - pad) ?lc \<ge> min (col + w) ?lc")
    case True
    then show ?thesis by (simp add: delete_chunk_def rope_line_char_count_text [OF R])
  next
    case False
    let ?i = "char_index ?T row (min (col - pad) ?lc)" and ?j = "char_index ?T row (min (col + w) ?lc)"
    have "min row (nlines ?T - 1) = row" using True by (simp add: min_absorb1)
    moreover have "min (col - pad) ?lc \<le> min (col + w) ?lc" using False by linarith
    ultimately have ij: "?i \<le> ?j" by (simp add: char_index_def Let_def del: min.bounded_iff)
    have j: "?j \<le> length ?T" by simp
    from text_remove [OF R ij j] obtain r where "rp_remove R rope ?i ?j = Some r" .
    with False text_slice [OF R ij j] True show ?thesis
      by (simp add: delete_chunk_def rope_line_char_count_text [OF R] pos_to_char_idx_text [OF R]
          text_len_lines [OF R] Let_def)
  qed
qed (simp add: delete_chunk_def text_len_lines [OF R])

lemma delete_chunks_total:
  assumes R: "text_laws R"
  shows "\<exists>x. delete_chunks_loop R row col widths pads rope = Some x"
proof (induction widths arbitrary: row rope pads)
  case (Cons w widths)
  obtain t r where 1: "delete_chunk R rope row col w (case pads of [] \<Rightarrow> 0 | pad # _ \<Rightarrow> pad) = Some (t, r)"
    using delete_chunk_total [OF R] by (metis surj_pair)
  obtain ts r' where "delete_chunks_loop R (Suc row) col widths (drop 1 pads) r = Some (ts, r')"
    using Cons.IH by (metis surj_pair)
  with 1 show ?case by simp
qed simp

lemma cut_total:
  assumes R: "text_laws R"
  shows "\<exists>t r. rope_cut_chars R rope s e = Some (t, r)"
proof -
  have "order s e = order (min s e) (max s e)" by (auto simp: order_def min_def max_def)
  then have "rope_cut_chars R rope s e = rope_cut_chars R rope (min s e) (max s e)"
    by (simp only: rope_cut_chars_def)
  moreover have "min s e \<le> max s e" by (simp add: min_le_iff_disj)
  ultimately show ?thesis using rope_cut_chars_text [OF R, of "min s e" "max s e" rope] by metis
qed

lemma cut_block_total:
  assumes R: "text_laws R"
  shows "\<exists>x. cut_block_loop R row left right count rope = Some x"
proof (induction count arbitrary: row rope)
  case (Suc count)
  obtain t r where 1: "(if row \<ge> rp_len_lines R rope then Some ([], rope)
      else rope_cut_chars R rope (Position row left) (Position row (right + 1))) = Some (t, r)"
    using cut_total [OF R, of rope "Position row left" "Position row (right + 1)"]
    by (cases "row \<ge> rp_len_lines R rope") auto
  obtain ts r' where "cut_block_loop R (Suc row) left right count r = Some (ts, r')"
    using Suc.IH by (metis surj_pair)
  with 1 show ?case by simp
qed simp

lemma join_once_total:
  assumes R: "text_laws R" and row: "row + 1 < nlines (rp_text R rope)"
  shows "\<exists>col sp r. join_once R row ws rope = Some (col, sp, r)"
proof -
  let ?T = "rp_text R rope"
  let ?i = "lstart ?T row + row_chars ?T row"
  have i: "?i \<le> ?i + 1" "?i + 1 \<le> length ?T" using row_end_less(1) [OF row] by simp_all
  from text_remove [OF R i] obtain r where
    r: "rp_remove R rope ?i (?i + 1) = Some r" "rp_text R r = take ?i ?T @ drop (?i + 1) ?T" .
  have "?i \<le> length (rp_text R r)" using i by (simp add: r(2))
  from insert_total [OF R this, of "[32]"] obtain r2 where "rp_insert R r ?i [32] = Some r2"
    by (auto simp: scalar_ok_def)
  with r(1) row show ?thesis
    by (simp add: join_once_def Let_def rope_line_char_count_text [OF R] text_line_to_char [OF R]
        line_to_char_spec_def ex_bool_eq)
qed

lemma join_loop_total:
  assumes R: "text_laws R"
  shows "\<exists>x. join_loop R row ws count rope = Some x"
proof (induction count arbitrary: rope)
  case (Suc count)
  show ?case
  proof (cases "row + 1 < nlines (rp_text R rope)")
    case True
    obtain col sp r where 1: "join_once R row ws rope = Some (col, sp, r)"
      using join_once_total [OF R True] by blast
    obtain cols sps r' where "join_loop R row ws count r = Some (cols, sps, r')"
      using Suc.IH by (metis surj_pair)
    with 1 True show ?thesis by (simp add: text_len_lines [OF R])
  qed (simp add: text_len_lines [OF R])
qed simp

lemma split_loop_total:
  assumes R: "text_laws R"
  shows "row < nlines (rp_text R rope) \<Longrightarrow> \<not> list_ex id sps \<Longrightarrow>
    \<exists>r. split_loop R row cols sps rope = Some r \<and> row < nlines (rp_text R r)"
proof (induction cols arbitrary: sps)
  case (Cons col cols)
  have "\<not> list_ex id (drop 1 sps)" using Cons.prems(2) by (cases sps) (auto simp: list_ex_iff)
  moreover have sp: "(case sps of [] \<Rightarrow> False | sp # _ \<Rightarrow> sp) = False"
    using Cons.prems(2) by (cases sps) auto
  ultimately obtain r where
    r: "split_loop R row cols (drop 1 sps) rope = Some r" "row < nlines (rp_text R r)"
    using Cons.IH Cons.prems(1) by blast
  let ?T = "rp_text R r"
  let ?i = "lstart ?T row + min col (row_chars ?T row)"
  have i: "?i \<le> length ?T" using row_end_le [OF r(2)] by simp
  have "valid_str [10]" by (simp add: scalar_ok_def)
  from text_insert [OF R i this] obtain r2 where
    r2: "rp_insert R r ?i [10] = Some r2" "rp_text R r2 = take ?i ?T @ [10] @ drop ?i ?T" .
  have "row < nlines (rp_text R r2)" using r(2) nlines_insert [of ?T ?i] by (simp add: r2(2))
  with r r2(1) sp show ?case
    by (simp add: split_once_def rope_line_char_count_text [OF R] text_line_to_char [OF R] line_to_char_spec_def)
qed simp

lemma line_range_total:
  assumes R: "text_laws R" and "lo \<le> hi" and "hi < nlines (rp_text R rope)"
  shows "\<exists>i j. line_range R rope lo hi = Some (i, j) \<and> i \<le> j \<and> j \<le> length (rp_text R rope) \<and>
    (lo > 0 \<and> hi + 1 = nlines (rp_text R rope) \<longrightarrow> lstart (rp_text R rope) (lo - 1) \<le> i)"
proof -
  let ?T = "rp_text R rope"
  have lo: "lo < nlines ?T" using assms(2,3) by simp
  have st: "rp_line_to_char R rope k = Some (lstart ?T k)" if "k < nlines ?T" for k
    using that by (simp add: text_line_to_char [OF R] line_to_char_spec_def)
  consider (inner) "hi + 1 < nlines ?T" | (last) "hi + 1 = nlines ?T" "lo > 0"
    | (all) "hi + 1 = nlines ?T" "lo = 0" using assms(3) by linarith
  then show ?thesis
  proof cases
    case inner
    have "lstart ?T lo \<le> lstart ?T (hi + 1)" using inner assms(2) by (intro lstart_mono) simp_all
    with inner lstart_le [OF inner] show ?thesis
      by (simp add: line_range_def text_len_lines [OF R] st [OF lo] st [OF inner, simplified])
  next
    case last
    have "lstart ?T (lo - 1) < lstart ?T lo" using last lo by (intro lstart_less) simp_all
    then have "lstart ?T lo - 1 \<le> length ?T" "lstart ?T (lo - 1) \<le> lstart ?T lo - 1"
      using lstart_le [OF lo] by linarith+
    with last show ?thesis
      by (simp add: line_range_def text_len_lines [OF R] st [OF lo] text_len_chars [OF R])
  next
    case all
    then show ?thesis by (simp add: line_range_def text_len_lines [OF R] text_len_chars [OF R])
  qed
qed

lemma delete_lines_total:
  assumes R: "text_laws R" and le: "sr \<le> er"
  shows "\<exists>i r p. delete_lines R sr er v = Some (i, edited R r p v)"
proof -
  let ?T = "view_text R v"
  define lo hi where "lo = min sr (nlines ?T - 1)" and "hi = min er (nlines ?T - 1)"
  have lh: "lo \<le> hi" "hi < nlines ?T"
    using le last_row_lt [of er ?T] by (auto simp: lo_def hi_def)
  from line_range_total [OF R lh] obtain i j where
    ij: "line_range R (view_rope v) lo hi = Some (i, j)" "i \<le> j" "j \<le> length ?T"
    and last: "lo > 0 \<and> hi + 1 = nlines ?T \<longrightarrow> lstart ?T (lo - 1) \<le> i" by blast
  from text_remove [OF R ij(2,3)] obtain r where
    r: "rp_remove R (view_rope v) i j = Some r" "rp_text R r = take i ?T @ drop j ?T" .
  have span: "\<exists>t. (if i = j then Some [] else rp_slice R (view_rope v) i j) = Some t"
    using text_slice [OF R ij(2,3)] by simp
  have inv: "\<exists>q. (if lo > 0 \<and> hi + 1 = nlines ?T then do {
                n \<leftarrow> rp_line_chars R r (lo - 1);
                Some (Position (lo - 1) n)
              } else if hi + 1 = nlines ?T then Some (Position 0 0) else Some (Position lo 0)) = Some q"
  proof (cases "lo > 0 \<and> hi + 1 = nlines ?T")
    case True
    then have "j = length ?T"
      using ij(1) by (simp add: line_range_def text_len_lines [OF R] text_len_chars [OF R]
          text_line_to_char [OF R] line_to_char_spec_def split: if_splits)
    then have "rp_text R r = take i ?T" using r(2) by simp
    moreover have "lo - 1 < nlines (take i ?T)" using True last lh by (intro nlines_take) auto
    ultimately have "rp_line_chars R r (lo - 1) = Some (the (line_to_char_spec (take i ?T) (Suc (lo - 1))) -
        lstart (take i ?T) (lo - 1))"
      using text_line_chars [OF R, of "lo - 1" r] by simp
    with True show ?thesis by simp
  next
    case False
    then show ?thesis by (simp only: if_False if_cancel) (simp split: if_split)
  qed
  from span obtain t where t: "(if i = j then Some [] else rp_slice R (view_rope v) i j) = Some t" by blast
  from inv obtain q where q: "(if lo > 0 \<and> hi + 1 = nlines ?T then do {
                n \<leftarrow> rp_line_chars R r (lo - 1);
                Some (Position (lo - 1) n)
              } else if hi + 1 = nlines ?T then Some (Position 0 0) else Some (Position lo 0)) = Some q" by blast
  have "delete_lines R sr er v = Some (InsertStr q t, edited R r (Position (min lo (rp_len_lines R r - 1)) 0) v)"
    unfolding delete_lines_def Let_def text_len_lines [OF R, of "view_rope v"] lo_def [symmetric]
      hi_def [symmetric] ij(1)
    using t q r(1) by (simp add: finish_edit [OF R])
  then show ?thesis by blast
qed

lemma split_lines_total:
  assumes R: "text_laws R" and "\<not> list_ex id sps"
  shows "\<exists>i r p. do_split_lines R row cols sps v = Some (i, edited R r p v)"
proof -
  obtain r where "split_loop R (min row (nlines (view_text R v) - 1)) cols sps (view_rope v) = Some r"
    using split_loop_total [OF R last_row_lt assms(2), of row "view_rope v" cols] by blast
  then show ?thesis
    by (simp add: do_split_lines_def Let_def text_len_lines [OF R] finish_edit [OF R]) blast
qed

lemma replace_total:
  assumes R: "text_laws R" and t: "valid_str t"
  shows "\<exists>i r p. do_replace R s e t v = Some (i, edited R r p v)"
proof -
  obtain removed r where c: "rope_cut_chars R (view_rope v) (min s e) (max s e) = Some (removed, r)"
    using cut_total [OF R] by blast
  obtain r2 where "rp_insert R r (index_of (rp_text R r) (min s e)) t = Some r2"
    using insert_total [OF R char_index_le t] by blast
  then show ?thesis
    by (simp add: do_replace_def order_min_max c Let_def clamp_position_text [OF R]
        pos_to_char_idx_text [OF R] finish_edit [OF R]) blast
qed

lemma delete_range_total:
  assumes R: "text_laws R"
  shows "\<exists>i r p. do_delete_range R s e kind v = Some (i, edited R r p v)"
proof (cases kind)
  case Char
  obtain removed r where "rope_cut_chars R (view_rope v) (min s e) (max s e) = Some (removed, r)"
    using cut_total [OF R] by blast
  then show ?thesis
    by (simp add: do_delete_range_def order_min_max Char finish_edit [OF R]) blast
next
  case Line
  have "p_row (min s e) \<le> p_row (max s e)" by (auto simp: min_def max_def less_eq_position_def)
  from delete_lines_total [OF R this] show ?thesis
    by (simp add: do_delete_range_def order_min_max Line)
next
  case Block
  let ?l = "min (p_col (min s e)) (p_col (max s e))" and ?r = "max (p_col (min s e)) (p_col (max s e))"
  obtain chunks r where "cut_block_loop R (p_row (min s e)) ?l ?r (p_row (max s e) - p_row (min s e) + 1)
      (view_rope v) = Some (chunks, r)"
    using cut_block_total [OF R] by (metis surj_pair)
  then show ?thesis
    by (simp del: cut_block_loop.simps add: do_delete_range_def order_min_max Block Let_def finish_edit [OF R]) blast
qed

lemma insert_str_total:
  assumes R: "text_laws R" and t: "valid_str t"
  shows "\<exists>i r p. do_insert_str R q t v = Some (i, edited R r p v)"
  using do_insert_str_text [OF R t, of q v] by metis

lemma join_total:
  assumes R: "text_laws R"
  shows "\<exists>i r p. do_join_lines R row count ws v = Some (i, edited R r p v)"
proof -
  obtain cols sps r where
    "join_loop R (min row (rp_len_lines R (view_rope v) - 1)) ws (max count 1) (view_rope v) = Some (cols, sps, r)"
    using join_loop_total [OF R] by (metis surj_pair)
  then show ?thesis by (simp add: do_join_lines_def Let_def finish_edit [OF R]) blast
qed

lemma blocks_total:
  assumes R: "text_laws R"
  shows "list_all valid_str chunks \<Longrightarrow> \<exists>i r p. do_insert_block R q chunks v = Some (i, edited R r p v)"
    and "\<exists>i r p. do_delete_block_chunks R q widths pads v = Some (i, edited R r p v)"
proof -
  assume "list_all valid_str chunks"
  then obtain ws ps r where "insert_block_loop R (p_row q) (p_col q) chunks (view_rope v) = Some (ws, ps, r)"
    using insert_block_total [OF R, where chunks = chunks and row = "p_row q" and col = "p_col q" and rope = "view_rope v"] by (auto simp: list_all_iff)
  then show "\<exists>i r p. do_insert_block R q chunks v = Some (i, edited R r p v)"
    by (simp add: do_insert_block_def finish_edit [OF R]) blast
next
  obtain ts r where "delete_chunks_loop R (p_row q) (p_col q) widths pads (view_rope v) = Some (ts, r)"
    using delete_chunks_total [OF R] by (metis surj_pair)
  then show "\<exists>i r p. do_delete_block_chunks R q widths pads v = Some (i, edited R r p v)"
    by (simp add: do_delete_block_chunks_def finish_edit [OF R]) blast
qed

lemma edit_total:
  assumes R: "text_laws R" and e: "edit_chars_ok e"
  shows "\<exists>i r p. apply_edit R e v = Some (i, edited R r p v)"
proof (cases e)
  case (InsertChar q c)
  then show ?thesis using insert_str_total [OF R, of "[c]" q v] e by (simp add: apply_edit_def edit_chars_ok_def)
next
  case (InsertStr q t)
  then show ?thesis using insert_str_total [OF R, of t q v] e by (simp add: apply_edit_def edit_chars_ok_def)
next
  case (DeleteRange s q kind)
  then show ?thesis using delete_range_total [OF R] by (simp add: apply_edit_def)
next
  case (JoinLines row count ws)
  then show ?thesis using join_total [OF R] by (simp add: apply_edit_def)
next
  case (SplitLines row cols sps)
  then show ?thesis using split_lines_total [OF R, where sps = sps and row = row and cols = cols and v = v] e by (simp add: apply_edit_def edit_chars_ok_def)
next
  case (Replace s q t)
  then show ?thesis using replace_total [OF R, of t s q v] e by (simp add: apply_edit_def edit_chars_ok_def)
next
  case (InsertBlock q chunks)
  then show ?thesis using blocks_total(1) [OF R, of chunks q v] e by (simp add: apply_edit_def edit_chars_ok_def)
next
  case (DeleteBlockChunks q widths pads)
  then show ?thesis using blocks_total(2) [OF R] by (simp add: apply_edit_def)
qed

section \<open>The well-formed view\<close>

definition view_ok :: "'r text_ops \<Rightarrow> 'r view \<Rightarrow> bool" where
  "view_ok R v \<longleftrightarrow>
     pos_ok (view_text R v) (v_cursor v) \<and>
     c_cached_byte_len (v_content v) \<in> {None, Some (c_dirty_gen (v_content v), length (utf8 (view_text R v)))} \<and>
     c_cached_joined (v_content v) \<in> {None, Some (c_dirty_gen (v_content v), view_text R v)}"

lemma edited_ok: "view_ok R (edited R r p v)"
  by (simp add: view_ok_def clampp_ok)

lemma view_from_str_ok: "view_ok R (view_from_str R s)"
  by (simp add: view_ok_def view_from_str_def pos_ok_def)

lemma set_cursor_ok: "text_laws R \<Longrightarrow> view_ok R v \<Longrightarrow> \<exists>w. set_cursor R p v = Some w \<and> view_ok R w"
  by (simp add: set_cursor_text Let_def view_ok_def clampp_ok)

lemma view_replace_all_ok:
  assumes R: "text_laws R"
  shows "\<exists>w. view_replace_all R s v = Some w \<and> view_ok R w"
proof -
  have "pos_ok t (Position (min row (nlines t - 1)) (min col (row_chars t (min row (nlines t - 1)))))" for t row col
    using last_row_lt [of row t] by (simp add: pos_ok_def)
  then show ?thesis
    by (simp add: view_replace_all_def Let_def text_len_lines [OF R] rope_line_char_count_text [OF R] view_ok_def)
qed

lemma caches_ok:
  assumes R: "text_laws R" and v: "view_ok R v"
  shows "fst (byte_len R v) = length (utf8 (view_text R v)) \<and> view_ok R (snd (byte_len R v)) \<and>
    fst (content_joined R v) = view_text R v \<and> view_ok R (snd (content_joined R v))"
  using v by (auto simp: byte_len_def content_joined_def view_ok_def Let_def text_len_bytes [OF R])

end
