(* ===== verification/EditProps.thy ===== *)
theory EditProps
  imports EditSafe
begin

text \<open>
  The contract of reversible operations as a locale: an operation returns its inverse, and
  a client that keeps the inverses in reverse order gets back what it observed before.
  \<open>apply_edit\<close> is an instance of it.  The properties of edits follow.
\<close>

section \<open>Operations that return their inverse\<close>

text \<open>A run collects the inverses, the last one first: pushing them through undoes the run.\<close>

fun run_edits :: "('e \<Rightarrow> 's \<Rightarrow> ('e \<times> 's) option) \<Rightarrow> 'e list \<Rightarrow> 's \<Rightarrow> ('e list \<times> 's) option" where
  "run_edits app [] s = Some ([], s)"
| "run_edits app (e # es) s = do {
     (i, s) \<leftarrow> app e s;
     (is, s) \<leftarrow> run_edits app es s;
     Some (is @ [i], s)
   }"

text \<open>Every edit of the run is admissible where it is applied.\<close>

fun run_ok :: "('e \<Rightarrow> 's \<Rightarrow> ('e \<times> 's) option) \<Rightarrow> ('s \<Rightarrow> 'e \<Rightarrow> bool) \<Rightarrow> 'e list \<Rightarrow> 's \<Rightarrow> bool" where
  "run_ok app ok [] s = True"
| "run_ok app ok (e # es) s =
     (ok s e \<and> (case app e s of None \<Rightarrow> False | Some (i, s) \<Rightarrow> run_ok app ok es s))"

lemma run_edits_append:
  "run_edits app (xs @ ys) s = do {
     (is, s) \<leftarrow> run_edits app xs s;
     (js, s) \<leftarrow> run_edits app ys s;
     Some (js @ is, s)
   }"
  by (induction xs arbitrary: s) (auto split: bind_splits)

locale reversible =
  fixes app :: "'e \<Rightarrow> 's \<Rightarrow> ('e \<times> 's) option"
    and obs :: "'s \<Rightarrow> 'o"
    and ok :: "'s \<Rightarrow> 'e \<Rightarrow> bool"
  assumes inverse: "ok s e \<Longrightarrow> \<exists>i s1. app e s = Some (i, s1) \<and>
    (\<forall>w. obs w = obs s1 \<longrightarrow> (\<exists>j w2. app i w = Some (j, w2) \<and> obs w2 = obs s))"
begin

lemma undo_run:
  "run_ok app ok es s \<Longrightarrow> \<exists>is s1. run_edits app es s = Some (is, s1) \<and>
    (\<forall>w. obs w = obs s1 \<longrightarrow> (\<exists>js w2. run_edits app is w = Some (js, w2) \<and> obs w2 = obs s))"
proof (induction es arbitrary: s)
  case Nil
  then show ?case by simp
next
  case (Cons e es)
  from Cons.prems inverse [of s e] obtain i s1 where
    i: "app e s = Some (i, s1)"
    "\<forall>w. obs w = obs s1 \<longrightarrow> (\<exists>j w2. app i w = Some (j, w2) \<and> obs w2 = obs s)" by auto
  with Cons.prems have "run_ok app ok es s1" by simp
  from Cons.IH [OF this] obtain "is" s2 where
    s2: "run_edits app es s1 = Some (is, s2)"
    "\<forall>w. obs w = obs s2 \<longrightarrow> (\<exists>js w2. run_edits app is w = Some (js, w2) \<and> obs w2 = obs s1)" by blast
  have "\<exists>js w2. run_edits app (is @ [i]) w = Some (js, w2) \<and> obs w2 = obs s" if "obs w = obs s2" for w
  proof -
    from s2(2) that obtain js w1 where "run_edits app is w = Some (js, w1)" "obs w1 = obs s1" by blast
    moreover from i(2) this(2) obtain j w2 where "app i w1 = Some (j, w2)" "obs w2 = obs s" by blast
    ultimately show ?thesis by (simp add: run_edits_append)
  qed
  with i(1) s2(1) show ?case by simp
qed

lemma undo_all:
  assumes "run_ok app ok es s"
  obtains "is" s1 js s2 where "run_edits app es s = Some (is, s1)"
    and "run_edits app is s1 = Some (js, s2)" and "obs s2 = obs s"
  using undo_run [OF assms] that by blast

end

text \<open>What a client of \<open>apply_edit\<close> has to respect.\<close>

definition edit_ok :: "'r text_ops \<Rightarrow> 'r view \<Rightarrow> edit \<Rightarrow> bool" where
  "edit_ok R v e \<longleftrightarrow> text_laws R \<and> plain (view_text R v) \<and> edit_fits (view_text R v) e"

interpretation buffer_edits: reversible "apply_edit R" "view_text R" "edit_ok R" for R
proof
  show "\<exists>i s1. apply_edit R e s = Some (i, s1) \<and>
      (\<forall>w. view_text R w = view_text R s1 \<longrightarrow>
        (\<exists>j w2. apply_edit R i w = Some (j, w2) \<and> view_text R w2 = view_text R s))"
    if "edit_ok R s e" for s e
    using edit_inverts [of R s e] that unfolding edit_ok_def inverts_def by blast
qed

section \<open>Properties of edits\<close>

lemma flat_view_text [simp]: "valid_str s \<Longrightarrow> view_text flat_lines (view_from_str flat_lines s) = s"
  by (simp add: view_from_str_def flat_lines_def flat_rope_def rope_ops.defs flat_text_id)

text \<open>
  C6: the contract of \<open>View::apply_edit\<close>.  On a text whose only line breaks are newlines,
  every edit that fits it (an insertion or a linewise deletion anywhere, out-of-range
  positions included; a charwise deletion or a replacement whose smaller end is a valid
  position; a join of any number of rows; a block insertion; a blockwise deletion that
  starts within every row) applies without a panic, the returned inverse restores the
  text, and the inverse of the inverse restores the edited text.
\<close>

theorem edit_roundtrip:
  assumes "text_laws R" and "plain (view_text R v)" and "edit_fits (view_text R v) e"
  shows "\<exists>i v1 j v2 k v3. apply_edit R e v = Some (i, v1) \<and>
    apply_edit R i v1 = Some (j, v2) \<and> view_text R v2 = view_text R v \<and>
    apply_edit R j v2 = Some (k, v3) \<and> view_text R v3 = view_text R v1"
  using edit_inverts [OF assms] unfolding inverts_def by metis

theorem edit_roundtrip_witness:
  "\<exists>i v1 j v2 k v3.
    apply_edit flat_lines (DeleteRange (Position 1 1) (Position 0 1) Block)
      (view_from_str flat_lines [97, 98, 10, 99, 100]) = Some (i, v1) \<and>
    apply_edit flat_lines i v1 = Some (j, v2) \<and> view_text flat_lines v2 = [97, 98, 10, 99, 100] \<and>
    apply_edit flat_lines j v2 = Some (k, v3) \<and> view_text flat_lines v3 = view_text flat_lines v1"
proof -
  let ?s = "[97, 98, 10, 99, 100] :: rstring"
  have v: "view_text flat_lines (view_from_str flat_lines ?s) = ?s"
    by (simp add: valid_str_def scalar_ok_def)
  have "plain ?s" by (simp add: is_break_def)
  moreover have "edit_fits ?s (DeleteRange (Position 1 1) (Position 0 1) Block)"
    by (simp add: edit_fits_def min_def max_def less_eq_position_def row_chars_def nlines_def lstart_def
        line_starts_def is_break_def list_all_iff)
  ultimately show ?thesis
    using edit_roundtrip [OF flat_lines_laws, of "view_from_str flat_lines ?s"
        "DeleteRange (Position 1 1) (Position 0 1) Block"] by (simp only: v)
qed

text \<open>
  A run of edits is undone by its inverses.  Pushing the inverses of a sequence of
  edits, each admissible where it is applied, through \<open>apply_edit\<close> in the reverse order
  restores the text from before the sequence: the inverses are all an undo stack needs.
\<close>

lemma edits_undone:
  assumes "run_ok (apply_edit R) (edit_ok R) es v"
  shows "\<exists>is v1 js v2. run_edits (apply_edit R) es v = Some (is, v1) \<and>
    run_edits (apply_edit R) is v1 = Some (js, v2) \<and> view_text R v2 = view_text R v"
  by (rule buffer_edits.undo_all [OF assms]) blast



text \<open>
  C8: exactly which blockwise deletions the inverse restores, on a text whose only line breaks are newlines.  A rectangle is put back
  unchanged if and only if every existing row it touches reaches its left column; on a
  shorter row the inverse insertion pads the row with spaces up to that column, and the
  text differs from the one before the deletion.
\<close>

theorem block_delete_undo_exact:
  assumes "text_laws R" and "plain (view_text R v)"
  shows "\<exists>i v1 j v2. apply_edit R (DeleteRange s e Block) v = Some (i, v1) \<and>
    apply_edit R i v1 = Some (j, v2) \<and>
    (view_text R v2 = view_text R v \<longleftrightarrow> edit_fits (view_text R v) (DeleteRange s e Block))"
  by (rule block_undo [OF assms])

theorem block_delete_undo_exact_witness:
  "\<exists>i v1 j v2. apply_edit flat_lines (DeleteRange (Position 0 1) (Position 1 1) Block)
      (view_from_str flat_lines [97, 98, 10]) = Some (i, v1) \<and>
    apply_edit flat_lines i v1 = Some (j, v2) \<and> view_text flat_lines v2 \<noteq> [97, 98, 10]"
proof -
  let ?s = "[97, 98, 10] :: rstring" and ?e = "DeleteRange (Position 0 1) (Position 1 1) Block"
  have v: "view_text flat_lines (view_from_str flat_lines ?s) = ?s"
    by (simp add: valid_str_def scalar_ok_def)
  have "plain ?s" by (simp add: is_break_def)
  moreover have "\<not> edit_fits ?s ?e"
    by (simp add: edit_fits_def min_def max_def less_eq_position_def row_chars_def nlines_def lstart_def
        line_starts_def is_break_def list_all_iff) (rule bexI [of _ 1], simp_all)
  ultimately show ?thesis
    using block_delete_undo_exact [OF flat_lines_laws, of "view_from_str flat_lines ?s"
        "Position 0 1" "Position 1 1"] unfolding v by blast
qed

end
