(* ===== verification/EditTracking.thy ===== *)
theory EditTracking
  imports FoldLaws EditProps
begin

text \<open>
  What \<open>Editor::mutate_edit\<close> (\<open>hjkl-engine/src/editor.rs\<close>) does to the rows other parts of the
  editor have noted: folds next to an edit that keeps the row count go, and after one that changes it
  marks, jumps and folds follow their rows, positions on a joined row follow its text.  The
  selections, which follow the edit as well, are in \<open>Selections\<close>; the change list and
  the line of \<open>U\<close> are left out.
\<close>

section \<open>The edit funnel\<close>

definition join_of :: "position \<Rightarrow> position \<Rightarrow> (nat \<times> nat \<times> nat) option" where
  "join_of s e =
     (if p_row s \<noteq> p_row e then
        let (upper, lower) = order s e in Some (p_row upper, p_row lower, p_col upper)
      else None)"

definition charwise_join :: "edit \<Rightarrow> (nat \<times> nat \<times> nat) option" where
  "charwise_join edit =
     (case edit of
        DeleteRange s e kind \<Rightarrow> (if kind = Char then join_of s e else None)
      | Replace s e t \<Rightarrow> join_of s e
      | _ \<Rightarrow> None)"

definition rebase_row :: "edit \<Rightarrow> nat \<Rightarrow> nat" where
  "rebase_row edit pre_row =
     (let cursor_or_join = (case charwise_join edit of Some (upper, lower, upper_col) \<Rightarrow> upper + 1 | None \<Rightarrow> pre_row) in
      case edit of
        DeleteRange s e kind \<Rightarrow> (if kind = Line then min (p_row s) (p_row e) else cursor_or_join)
      | JoinLines row count with_space \<Rightarrow> row + 1
      | _ \<Rightarrow> cursor_or_join)"

definition join_pos :: "nat \<Rightarrow> nat \<Rightarrow> (nat \<Rightarrow> nat) \<Rightarrow> nat \<times> nat \<Rightarrow> nat \<times> nat" where
  "join_pos from_row to_row moved rc = (case rc of (row, col) \<Rightarrow> if row = from_row then (to_row, moved col) else (row, col))"

definition join_row_marks :: "nat \<Rightarrow> nat \<Rightarrow> nat \<Rightarrow> (nat \<Rightarrow> nat) \<Rightarrow> positions \<Rightarrow> positions" where
  "join_row_marks cur_bid from_row to_row moved p =
     p\<lparr>ps_marks := map (\<lambda>(m, rc). (m, join_pos from_row to_row moved rc)) (ps_marks p),
       ps_globals := map (\<lambda>(m, bid, rc). (m, bid, if bid = cur_bid then join_pos from_row to_row moved rc else rc))
         (ps_globals p),
       ps_jump_back := map (join_pos from_row to_row moved) (ps_jump_back p),
       ps_jump_fwd := map (join_pos from_row to_row moved) (ps_jump_fwd p)\<rparr>"

fun join_split_rows :: "nat \<Rightarrow> nat \<Rightarrow> nat \<Rightarrow> (nat \<times> bool) list \<Rightarrow> positions \<Rightarrow> positions" where
  "join_split_rows cur_bid row i [] p = p"
| "join_split_rows cur_bid row i ((col, space) # joins) p =
     join_split_rows cur_bid row (Suc i) joins
       (join_row_marks cur_bid (row + 1 + i) row (\<lambda>c. c + (col + of_bool space)) p)"

definition move_rows :: "nat \<Rightarrow> edit \<Rightarrow> edit \<Rightarrow> nat \<Rightarrow> int \<Rightarrow> positions \<Rightarrow> positions" where
  "move_rows cur_bid edit iv pre_row delta p =
     (let p = (case charwise_join edit of
                 Some (upper, lower, upper_col) \<Rightarrow> join_row_marks cur_bid lower upper (\<lambda>c. c + upper_col) p
               | None \<Rightarrow> p);
          p = (case iv of
                 SplitLines row cols spaces \<Rightarrow> join_split_rows cur_bid row 0 (zip cols spaces) p
               | _ \<Rightarrow> p)
      in shift_marks_after_edit cur_bid (rebase_row edit pre_row) delta p)"

text \<open>The text with its cursor and the noted rows.  Of the text the folds see the byte
  lengths of its lines.\<close>

record 'r tracked =
  tr_view :: "'r view"
  tr_rows :: positions
  tr_bid :: nat

definition see_lines :: "'r text_ops \<Rightarrow> 'r \<Rightarrow> positions \<Rightarrow> positions" where
  "see_lines R rope p =
     p\<lparr>ps_view := (ps_view p)\<lparr>fs_lines := map (\<lambda>r. the (rope_line_bytes R rope r)) [0 ..< rp_len_lines R rope]\<rparr>\<rparr>"

definition mutate_rows :: "'r text_ops \<Rightarrow> bool \<Rightarrow> edit \<Rightarrow> 'r tracked \<Rightarrow> (edit \<times> 'r tracked) option" where
  "mutate_rows R modifiable edit t =
     (let v = tr_view t; pre_row = p_row (v_cursor v); pre_rows = rp_len_lines R (view_rope v) in
      if \<not> modifiable then Some (InsertStr (v_cursor v) [], t)
      else do {
        (iv, v) \<leftarrow> apply_edit R edit v;
        let p = see_lines R (view_rope v) (tr_rows t);
        let pos_row = p_row (v_cursor v);
        let delta = int (rp_len_lines R (view_rope v)) - int pre_rows;
        let p = (if delta = 0
                 then p\<lparr>ps_view := apply_op (Invalidate (min pre_row pos_row) (max pre_row pos_row)) (ps_view p)\<rparr>
                 else move_rows (tr_bid t) edit iv pre_row delta p);
        Some (iv, t\<lparr>tr_view := v, tr_rows := p\<rparr>)
      })"

section \<open>Where a position goes\<close>

text \<open>A position on a row that an edit joins to an earlier one goes to the end of what
  that row held, the rows behind the edit move as \<open>row_after\<close> says.\<close>

definition joined_to :: "edit \<Rightarrow> edit \<Rightarrow> nat \<times> nat \<Rightarrow> nat \<times> nat" where
  "joined_to edit iv rc =
     (let (r, c) = (case charwise_join edit of
                      Some (upper, lower, upper_col) \<Rightarrow> if fst rc = lower then (upper, snd rc + upper_col) else rc
                    | None \<Rightarrow> rc) in
      case iv of
        SplitLines row cols spaces \<Rightarrow>
          (if row < r \<and> r \<le> row + min (length cols) (length spaces)
           then (row, c + cols ! (r - row - 1) + of_bool (spaces ! (r - row - 1))) else (r, c))
      | _ \<Rightarrow> (r, c))"

definition lands :: "edit \<Rightarrow> edit \<Rightarrow> nat \<Rightarrow> int \<Rightarrow> nat \<times> nat \<Rightarrow> (nat \<times> nat) option" where
  "lands edit iv pre_row delta rc =
     (let (r, c) = joined_to edit iv rc in map_option (\<lambda>r'. (r', c)) (row_after (rebase_row edit pre_row) delta r))"

definition all_pos :: "(nat \<times> nat \<Rightarrow> nat \<times> nat) \<Rightarrow> nat \<Rightarrow> positions \<Rightarrow> positions" where
  "all_pos f bid p =
     p\<lparr>ps_marks := map (\<lambda>(m, rc). (m, f rc)) (ps_marks p),
       ps_globals := map (\<lambda>(m, b, rc). (m, b, if b = bid then f rc else rc)) (ps_globals p),
       ps_jump_back := map f (ps_jump_back p),
       ps_jump_fwd := map f (ps_jump_fwd p)\<rparr>"

lemma join_row_marks_all: "join_row_marks bid a b moved p = all_pos (join_pos a b moved) bid p"
  by (simp add: join_row_marks_def all_pos_def)

lemma all_pos_comp: "all_pos g bid (all_pos f bid p) = all_pos (g \<circ> f) bid p"
  by (simp add: all_pos_def comp_def case_prod_unfold cong: if_cong)

lemma all_pos_id: "all_pos (\<lambda>rc. rc) bid p = p"
  by (simp add: all_pos_def split_def cong: map_cong) 

definition split_pos :: "nat \<Rightarrow> nat \<Rightarrow> (nat \<times> bool) list \<Rightarrow> nat \<times> nat \<Rightarrow> nat \<times> nat" where
  "split_pos row i joins rc =
     (let (r, c) = rc in
      if row + i < r \<and> r \<le> row + i + length joins
      then (row, c + fst (joins ! (r - row - i - 1)) + of_bool (snd (joins ! (r - row - i - 1)))) else (r, c))"

text \<open>The joins run one after the other, but none moves a position a later one moves.\<close>

lemma join_split_rows_all: "join_split_rows bid row i joins p = all_pos (split_pos row i joins) bid p"
proof (induction joins arbitrary: i p)
  case Nil
  have "split_pos row i [] = (\<lambda>rc. rc)" by (auto simp: split_pos_def fun_eq_iff)
  then show ?case by (simp add: all_pos_id)
next
  case (Cons j joins)
  obtain col sp where j: "j = (col, sp)" by fastforce
  have "split_pos row (Suc i) joins \<circ> join_pos (row + 1 + i) row (\<lambda>c. c + (col + of_bool sp)) = split_pos row i (j # joins)"
  proof
    fix rc :: "nat \<times> nat"
    obtain r c where rc: "rc = (r, c)" by fastforce
    consider "r \<le> row + i" | "r = row + 1 + i" | "row + 1 + i < r" by linarith
    then show "(split_pos row (Suc i) joins \<circ> join_pos (row + 1 + i) row (\<lambda>c. c + (col + of_bool sp))) rc
        = split_pos row i (j # joins) rc"
    proof cases
      case 3
      define k where "k = r - (row + i + 2)"
      have r: "r = row + i + 2 + k" using 3 by (simp add: k_def)
      show ?thesis by (simp add: rc j split_pos_def join_pos_def r)
    qed (auto simp: rc j split_pos_def join_pos_def)
  qed
  then show ?case by (simp add: j Cons.IH join_row_marks_all all_pos_comp)
qed

lemma move_rows_all:
  "move_rows bid edit iv pre_row delta p =
    shift_marks_after_edit bid (rebase_row edit pre_row) delta (all_pos (joined_to edit iv) bid p)"
proof -
  let ?f = "\<lambda>rc. case charwise_join edit of
      Some (upper, lower, upper_col) \<Rightarrow> if fst rc = lower then (upper, snd rc + upper_col) else rc | None \<Rightarrow> rc"
  let ?p = "case charwise_join edit of
      Some (upper, lower, upper_col) \<Rightarrow> join_row_marks bid lower upper (\<lambda>c. c + upper_col) p | None \<Rightarrow> p"
  have 1: "?p = all_pos ?f bid p"
  proof (cases "charwise_join edit")
    case (Some tb)
    obtain upper lower col where tb: "tb = (upper, lower, col)" by (cases tb) auto
    have "join_pos lower upper (\<lambda>c. c + col) = (\<lambda>rc. if fst rc = lower then (upper, snd rc + col) else rc)"
      by (auto simp: join_pos_def fun_eq_iff)
    then show ?thesis by (simp add: Some tb join_row_marks_all)
  qed (simp add: all_pos_id)
  have 2: "(case iv of SplitLines row cols spaces \<Rightarrow> join_split_rows bid row 0 (zip cols spaces) q | _ \<Rightarrow> q) =
      all_pos (\<lambda>(r, c). case iv of
        SplitLines row cols spaces \<Rightarrow>
          (if row < r \<and> r \<le> row + min (length cols) (length spaces)
           then (row, c + cols ! (r - row - 1) + of_bool (spaces ! (r - row - 1))) else (r, c))
      | _ \<Rightarrow> (r, c)) bid q" for q
  proof -
    have "split_pos row 0 (zip cols spaces) = (\<lambda>(r, c). if row < r \<and> r \<le> row + min (length cols) (length spaces)
        then (row, c + cols ! (r - row - 1) + of_bool (spaces ! (r - row - 1))) else (r, c))" for row cols spaces
      by (auto simp: split_pos_def fun_eq_iff)
    then show ?thesis by (cases iv) (simp_all add: join_split_rows_all all_pos_id case_prod_beta')
  qed
  have "joined_to edit iv = (\<lambda>(r, c). case iv of
        SplitLines row cols spaces \<Rightarrow>
          (if row < r \<and> r \<le> row + min (length cols) (length spaces)
           then (row, c + cols ! (r - row - 1) + of_bool (spaces ! (r - row - 1))) else (r, c))
      | _ \<Rightarrow> (r, c)) \<circ> ?f"
    by (simp add: joined_to_def fun_eq_iff Let_def)
  then show ?thesis by (simp add: move_rows_def 1 2 all_pos_comp)
qed

section \<open>Joined rows\<close>

definition cell :: "rstring list \<Rightarrow> nat \<times> nat \<Rightarrow> rchar option" where
  "cell ls rc = (if fst rc < length ls \<and> snd rc < length (ls ! fst rc) then Some (ls ! fst rc ! snd rc) else None)"

definition into_row :: "nat \<Rightarrow> nat list \<Rightarrow> bool list \<Rightarrow> nat \<times> nat \<Rightarrow> nat \<times> nat" where
  "into_row row cols sps rc =
     (let (r, c) = rc in
      if r \<le> row then (r, c)
      else if r \<le> row + length cols then (row, c + cols ! (r - row - 1) + of_bool (sps ! (r - row - 1)))
      else (r - length cols, c))"

lemma joined_cell:
  assumes c: "cell ls rc = Some x" and row: "Suc row < length ls"
  shows "cell (take row ls @ joined sp (ls ! row) (ls ! Suc row) # drop (row + 2) ls)
    (into_row row [length (ls ! row)] [sp] rc) = Some x"
proof -
  obtain r c where rc: "rc = (r, c)" by fastforce
  have in1: "r < length ls" "c < length (ls ! r)" "x = ls ! r ! c"
    using c by (auto simp: cell_def rc split: if_splits)
  consider "r < row" | "r = row" | "r = Suc row" | "Suc row < r" by linarith
  then show ?thesis
  proof cases
    case 4
    define k where "k = r - (row + 2)"
    have "r = row + 2 + k" using 4 by (simp add: k_def)
    then show ?thesis using in1 row by (auto simp: cell_def into_row_def rc nth_append min_def)
  qed (use in1 row in \<open>auto simp: cell_def into_row_def rc nth_append min_def joined_def nth_Cons split: nat.splits\<close>)
qed

lemma into_row_step:
  assumes "length sps = length cols"
  shows "into_row row cols sps (into_row row [a] [b] rc) = into_row row (a # cols) (b # sps) rc"
proof -
  obtain r c where rc: "rc = (r, c)" by fastforce
  consider "r \<le> row" | "r = Suc row" | "Suc row < r" by linarith
  then show ?thesis
  proof cases
    case 3
    define k where "k = r - (row + 2)"
    have "r = row + 2 + k" using 3 by (simp add: k_def)
    then show ?thesis by (simp add: into_row_def rc)
  qed (simp_all add: into_row_def rc)
qed

lemma joined_cells:
  "row < length ls \<Longrightarrow> join_lines row ws count ls = (cols, sps, ls') \<Longrightarrow> cell ls rc = Some x \<Longrightarrow>
    cell ls' (into_row row cols sps rc) = Some x \<and> length ls = length ls' + length cols"
proof (induction row ws count ls arbitrary: cols sps ls' rc rule: join_lines.induct)
  case (2 row ws count ls)
  show ?case
  proof (cases "Suc row \<ge> length ls")
    case True
    then have "cols = []" "sps = []" "ls' = ls" using 2(3) by simp_all
    moreover have "into_row row [] [] rc = rc" by (simp add: into_row_def split: prod.splits)
    ultimately show ?thesis using 2(4) by simp
  next
    case False
    define sp where "sp = join_space ws (ls ! row) (ls ! Suc row)"
    define ls1 where "ls1 = take row ls @ joined sp (ls ! row) (ls ! Suc row) # drop (row + 2) ls"
    obtain cols1 sps1 where j: "join_lines row ws count ls1 = (cols1, sps1, ls')"
      "cols = length (ls ! row) # cols1" "sps = sp # sps1"
      using 2(3) False by (auto simp: Let_def sp_def ls1_def split: prod.splits)
    have len: "length ls = Suc (length ls1)" "row < length ls1" using False by (simp_all add: ls1_def)
    have "cell ls1 (into_row row [length (ls ! row)] [sp] rc) = Some x"
      unfolding ls1_def using joined_cell [OF 2(4)] False by simp
    from 2(1) [OF False sp_def, folded ls1_def, OF len(2) j(1) this]
    show ?thesis using len(1) into_row_step [of sps1 cols1] join_lines_lengths [OF j(1)] by (simp add: j(2,3))
  qed
qed (auto simp: into_row_def split: prod.splits)

section \<open>The edit moves what is noted\<close>

abbreviation noted_rows :: "'r text_ops \<Rightarrow> 'r tracked \<Rightarrow> nat" where
  "noted_rows R t \<equiv> rp_len_lines R (view_rope (tr_view t))"

definition row_delta :: "'r text_ops \<Rightarrow> 'r tracked \<Rightarrow> 'r tracked \<Rightarrow> int" where
  "row_delta R t t' = int (noted_rows R t') - int (noted_rows R t)"

definition row_goes :: "'r text_ops \<Rightarrow> edit \<Rightarrow> 'r tracked \<Rightarrow> 'r tracked \<Rightarrow> nat \<Rightarrow> nat option" where
  "row_goes R e t t' = row_after (rebase_row e (p_row (v_cursor (tr_view t)))) (row_delta R t t')"

definition goes :: "'r text_ops \<Rightarrow> edit \<Rightarrow> edit \<Rightarrow> 'r tracked \<Rightarrow> 'r tracked \<Rightarrow> nat \<times> nat \<Rightarrow> (nat \<times> nat) option" where
  "goes R e iv t t' = lands e iv (p_row (v_cursor (tr_view t))) (row_delta R t t')"

text \<open>Edits in a row: nothing moves, only the folds over the rows of the cursor go.\<close>

lemma edit_in_row:
  assumes "mutate_rows R b e t = Some (iv, t')" and "row_delta R t t' = 0"
  shows "ps_marks (tr_rows t') = ps_marks (tr_rows t) \<and> ps_globals (tr_rows t') = ps_globals (tr_rows t) \<and>
    ps_jump_back (tr_rows t') = ps_jump_back (tr_rows t) \<and> ps_jump_fwd (tr_rows t') = ps_jump_fwd (tr_rows t) \<and>
    (b \<longrightarrow> (let lo = min (p_row (v_cursor (tr_view t))) (p_row (v_cursor (tr_view t')));
               hi = max (p_row (v_cursor (tr_view t))) (p_row (v_cursor (tr_view t'))) in
      fs_folds (ps_view (tr_rows t')) = filter (\<lambda>f. fd_end f < lo \<or> hi < fd_start f) (fs_folds (ps_view (tr_rows t)))))"
  using assms
  by (auto simp: mutate_rows_def row_delta_def Let_def see_lines_def invalidate_folds_in_range_def invalidate_folds_def
      folds_changed_def fold_gen_bump_def split: if_splits prod.splits bind_splits)

lemma mutate_rows_moved:
  assumes "mutate_rows R b e t = Some (iv, t')" and "noted_rows R t' \<noteq> noted_rows R t"
  shows "apply_edit R e (tr_view t) = Some (iv, tr_view t')"
    and "tr_rows t' = shift_marks_after_edit (tr_bid t) (rebase_row e (p_row (v_cursor (tr_view t)))) (row_delta R t t')
      (all_pos (joined_to e iv) (tr_bid t) (see_lines R (view_rope (tr_view t')) (tr_rows t)))"
  using assms
  by (auto simp: mutate_rows_def row_delta_def Let_def move_rows_all split: if_splits prod.splits bind_splits)

lemma join_follows_text:
  assumes R: "text_laws R" and p: "plain (view_text R (tr_view t))"
    and m: "mutate_rows R b (JoinLines row count ws) t = Some (iv, t')" and d: "noted_rows R t' \<noteq> noted_rows R t"
    and x: "cell (text_lines (view_text R (tr_view t))) rc = Some x"
  shows "\<exists>rc'. goes R (JoinLines row count ws) iv t t' rc = Some rc' \<and>
    cell (text_lines (view_text R (tr_view t'))) rc' = Some x"
proof -
  define ls k where "ls = text_lines (view_text R (tr_view t))" and "k = min row (length ls - 1)"
  have L: "rope_lines R (view_rope (tr_view t)) ls" unfolding ls_def by (rule rope_linesI [OF p])
  have k: "k < length ls" using rope_lines_pos [OF L] by (auto simp: k_def min_less_iff_disj)
  obtain cols sps ls' where j: "join_lines k ws (max count 1) ls = (cols, sps, ls')" by (rule prod_cases3)
  from apply_join [OF R L j [unfolded k_def]] mutate_rows_moved(1) [OF m d] have
    w: "iv = SplitLines k cols sps" "view_text R (tr_view t') = unl ls'" "lines_ok ls'" by (auto simp: k_def)
  have L': "rope_lines R (view_rope (tr_view t')) ls'" using w(2,3) by (simp add: rope_lines_def)
  have n: "noted_rows R t = length ls" "noted_rows R t' = length ls'"
    using rope_lines_count [OF R L] rope_lines_count [OF R L'] by simp_all
  have c: "cell ls' (into_row k cols sps rc) = Some x" "length ls = length ls' + length cols"
    using joined_cells [OF k j] x by (simp_all add: ls_def)
  have cols: "cols \<noteq> []" using n d c(2) by auto
  have row: "row = k"
  proof (rule ccontr)
    assume "row \<noteq> k"
    then have "\<not> Suc k < length ls" by (auto simp: k_def min_def split: if_splits)
    moreover obtain n where "max count 1 = Suc n" by (metis One_nat_def max.commute max_Suc_Suc max_0R old.nat.exhaust)
    ultimately show False using j cols by simp
  qed
  have len: "length sps = length cols" using join_lines_lengths [OF j] by simp
  have delta: "row_delta R t t' = - int (length cols)" using n c(2) by (simp add: row_delta_def)
  have "goes R (JoinLines row count ws) iv t t' rc = Some (into_row k cols sps rc)"
    using cols unfolding goes_def delta
    by (auto simp: lands_def joined_to_def charwise_join_def rebase_row_def into_row_def row w(1) len row_after_def
        split: prod.splits)
  moreover have "text_lines (view_text R (tr_view t')) = ls'" using w(2,3) text_lines_unl by simp
  ultimately show ?thesis using c(1) by simp
qed


definition joined_sample :: "rstring tracked" where
  "joined_sample = \<lparr>tr_view = view_from_str flat_lines [97, 98, 10, 99, 100, 10, 101],
     tr_rows = \<lparr>ps_view = \<lparr>fs_folds = [], fs_gen = 0, fs_dirty = 0, fs_lines = []\<rparr>, ps_marks = [(97, 1, 1)], ps_globals = [],
       ps_jump_back = [(2, 0)], ps_jump_fwd = [(1, 0)]\<rparr>, tr_bid = 0\<rparr>"


end
