(* ===== verification/Registers.thy ===== *)
theory Registers
  imports Prelude
begin

text \<open>
  The register bank (\<open>crates/hjkl-engine/src/registers.rs\<close>) and the editor's writes to it
  (\<open>editor.rs\<close>).  A register is selected by a char; the numbered ring and the named slots
  are lists of 9 and of 26.  The specification is a function of the history of writes: what
  a register reads is determined by the most recent writes that concern it.
\<close>

section \<open>Slots and the bank\<close>

record slot =
  sl_text :: rstring
  sl_linewise :: bool
  sl_blockwise :: bool
  sl_block_width :: nat

definition slot_default :: slot where
  "slot_default = \<lparr>sl_text = [], sl_linewise = False, sl_blockwise = False, sl_block_width = 0\<rparr>"

definition slot_new :: "rstring \<Rightarrow> bool \<Rightarrow> slot" where
  "slot_new t linewise = \<lparr>sl_text = t, sl_linewise = linewise, sl_blockwise = False, sl_block_width = 0\<rparr>"

definition slot_new_block :: "rstring \<Rightarrow> nat \<Rightarrow> slot" where
  "slot_new_block t width = \<lparr>sl_text = t, sl_linewise = False, sl_blockwise = True, sl_block_width = width\<rparr>"

record registers =
  unnamed :: slot
  yank_zero :: slot
  delete_ring :: "slot list"
  small_delete :: slot
  named :: "slot list"
  clip :: slot
  filename :: "rstring option"
  filename_slot :: "slot option"
  last_command_slot :: "slot option"

definition registers_default :: registers where
  "registers_default = \<lparr>unnamed = slot_default, yank_zero = slot_default,
     delete_ring = replicate 9 slot_default, small_delete = slot_default,
     named = replicate 26 slot_default, clip = slot_default,
     filename = None, filename_slot = None, last_command_slot = None\<rparr>"

definition is_lower :: "rchar \<Rightarrow> bool" where
  "is_lower c \<longleftrightarrow> 97 \<le> c \<and> c \<le> 122"

definition is_upper :: "rchar \<Rightarrow> bool" where
  "is_upper c \<longleftrightarrow> 65 \<le> c \<and> c \<le> 90"

definition to_lower :: "rchar \<Rightarrow> rchar" where
  "to_lower c = (if is_upper c then c + 32 else c)"

section \<open>The operations\<close>

definition read_reg :: "registers \<Rightarrow> rchar \<Rightarrow> slot option" where
  "read_reg r c =
     (if c = 34 then Some (unnamed r)
      else if c = 48 then Some (yank_zero r)
      else if 49 \<le> c \<and> c \<le> 57 then Some (delete_ring r ! (c - 49))
      else if c = 45 then Some (small_delete r)
      else if is_lower c then Some (named r ! (c - 97))
      else if is_upper c then Some (named r ! (to_lower c - 97))
      else if c = 43 \<or> c = 42 then Some (clip r)
      else if c = 37 then filename_slot r
      else if c = 58 then last_command_slot r
      else None)"

definition append_slot :: "slot \<Rightarrow> slot \<Rightarrow> slot" where
  "append_slot cur s = \<lparr>sl_text = sl_text cur @ sl_text s, sl_linewise = (sl_linewise s \<or> sl_linewise cur),
     sl_blockwise = (sl_blockwise s \<or> sl_blockwise cur), sl_block_width = max (sl_block_width cur) (sl_block_width s)\<rparr>"

definition write_named :: "rchar \<Rightarrow> slot \<Rightarrow> registers \<Rightarrow> registers" where
  "write_named c s r =
     (if is_lower c then r\<lparr>named := (named r)[c - 97 := s]\<rparr>
      else if is_upper c then
        let idx = to_lower c - 97 in r\<lparr>named := (named r)[idx := append_slot (named r ! idx) s]\<rparr>
      else if c = 43 \<or> c = 42 then r\<lparr>clip := s\<rparr>
      else r)"

text \<open>The unnamed register then follows the register just written.\<close>

definition follow_named :: "rchar \<Rightarrow> registers \<Rightarrow> registers" where
  "follow_named c r = (case read_reg r c of None \<Rightarrow> r | Some s \<Rightarrow> r\<lparr>unnamed := s\<rparr>)"

definition store_yank :: "slot \<Rightarrow> rchar option \<Rightarrow> registers \<Rightarrow> registers" where
  "store_yank s target r = (
     let r = r\<lparr>unnamed := s\<rparr>;
         r = (if target = None then r\<lparr>yank_zero := s\<rparr> else r)
     in case target of None \<Rightarrow> r | Some c \<Rightarrow> follow_named c (write_named c s r))"

definition record_yank :: "rstring \<Rightarrow> bool \<Rightarrow> rchar option \<Rightarrow> registers \<Rightarrow> registers" where
  "record_yank t linewise target r = (if target = Some 95 then r else store_yank (slot_new t linewise) target r)"

definition record_yank_block :: "rstring \<Rightarrow> nat \<Rightarrow> rchar option \<Rightarrow> registers \<Rightarrow> registers" where
  "record_yank_block t width target r = (if target = Some 95 then r else store_yank (slot_new_block t width) target r)"

text \<open>\<open>for i in (1..9).rev()\<close>: each slot takes the one before it.\<close>

definition shift_ring :: "slot list \<Rightarrow> slot list" where
  "shift_ring ring = foldl (\<lambda>ring i. ring[i := ring ! (i - 1)]) ring (rev [1..<9])"

definition store_delete :: "slot \<Rightarrow> rchar option \<Rightarrow> registers \<Rightarrow> registers" where
  "store_delete s target r = (
     let r = r\<lparr>unnamed := s\<rparr>
     in case target of
          Some c \<Rightarrow> follow_named c (write_named c s r)
        | None \<Rightarrow>
            if sl_linewise s \<or> 10 \<in> set (sl_text s)
            then r\<lparr>delete_ring := (shift_ring (delete_ring r))[0 := s]\<rparr>
            else r\<lparr>small_delete := s\<rparr>)"

definition record_delete :: "rstring \<Rightarrow> bool \<Rightarrow> rchar option \<Rightarrow> registers \<Rightarrow> registers" where
  "record_delete t linewise target r =
     (if t = [] \<or> target = Some 95 then r else store_delete (slot_new t linewise) target r)"

definition record_delete_block :: "rstring \<Rightarrow> nat \<Rightarrow> rchar option \<Rightarrow> registers \<Rightarrow> registers" where
  "record_delete_block t width target r =
     (if t = [] \<or> target = Some 95 then r else store_delete (slot_new_block t width) target r)"

definition set_filename :: "rstring option \<Rightarrow> registers \<Rightarrow> registers" where
  "set_filename name r = r\<lparr>filename := name, filename_slot := map_option (\<lambda>n. slot_new n False) name\<rparr>"

definition set_last_command :: "rstring option \<Rightarrow> registers \<Rightarrow> registers" where
  "set_last_command cmd r = r\<lparr>last_command_slot := map_option (\<lambda>c. slot_new c False) cmd\<rparr>"

definition set_clipboard :: "rstring \<Rightarrow> bool \<Rightarrow> registers \<Rightarrow> registers" where
  "set_clipboard t linewise r = r\<lparr>clip := slot_new t linewise\<rparr>"

text \<open>The editor's own writes: the unnamed register alone, and the text of a recorded macro.
  The editor keeps whether the last yank was linewise.\<close>

record reg_editor =
  ed_registers :: registers
  yank_linewise :: bool

definition set_yank :: "rstring \<Rightarrow> reg_editor \<Rightarrow> reg_editor" where
  "set_yank t ed = ed\<lparr>ed_registers := (ed_registers ed)\<lparr>unnamed := slot_new t (yank_linewise ed)\<rparr>\<rparr>"

definition retext :: "rstring \<Rightarrow> slot \<Rightarrow> slot" where
  "retext t s = s\<lparr>sl_text := t, sl_linewise := False\<rparr>"

definition set_named_text :: "rchar \<Rightarrow> rstring \<Rightarrow> registers \<Rightarrow> registers" where
  "set_named_text c t r =
     (if is_lower c \<or> is_upper c then
        let idx = to_lower c - 97 in r\<lparr>named := (named r)[idx := retext t (named r ! idx)]\<rparr>
      else if c = 48 then r\<lparr>yank_zero := retext t (yank_zero r)\<rparr>
      else if 49 \<le> c \<and> c \<le> 57 then
        r\<lparr>delete_ring := (delete_ring r)[c - 49 := retext t (delete_ring r ! (c - 49))]\<rparr>
      else r)"

definition set_named_register_text :: "rchar \<Rightarrow> rstring \<Rightarrow> reg_editor \<Rightarrow> reg_editor" where
  "set_named_register_text c t ed = ed\<lparr>ed_registers := set_named_text c t (ed_registers ed)\<rparr>"

definition ed_record_yank :: "rstring \<Rightarrow> bool \<Rightarrow> rchar option \<Rightarrow> reg_editor \<Rightarrow> reg_editor" where
  "ed_record_yank t linewise target ed =
     ed\<lparr>yank_linewise := linewise, ed_registers := record_yank t linewise target (ed_registers ed)\<rparr>"

definition ed_record_yank_block :: "rstring \<Rightarrow> nat \<Rightarrow> rchar option \<Rightarrow> reg_editor \<Rightarrow> reg_editor" where
  "ed_record_yank_block t width target ed =
     ed\<lparr>yank_linewise := False, ed_registers := record_yank_block t width target (ed_registers ed)\<rparr>"

definition ed_record_delete :: "rstring \<Rightarrow> bool \<Rightarrow> rchar option \<Rightarrow> reg_editor \<Rightarrow> reg_editor" where
  "ed_record_delete t linewise target ed =
     ed\<lparr>yank_linewise := linewise, ed_registers := record_delete t linewise target (ed_registers ed)\<rparr>"

definition ed_record_delete_block :: "rstring \<Rightarrow> nat \<Rightarrow> rchar option \<Rightarrow> reg_editor \<Rightarrow> reg_editor" where
  "ed_record_delete_block t width target ed =
     ed\<lparr>yank_linewise := False, ed_registers := record_delete_block t width target (ed_registers ed)\<rparr>"

definition sync_clipboard_register :: "rstring \<Rightarrow> bool \<Rightarrow> reg_editor \<Rightarrow> reg_editor" where
  "sync_clipboard_register t linewise ed = ed\<lparr>ed_registers := set_clipboard t linewise (ed_registers ed)\<rparr>"

definition seed_yank :: "rstring \<Rightarrow> reg_editor \<Rightarrow> reg_editor" where
  "seed_yank t ed = (
     let linewise = (t \<noteq> [] \<and> last t = 10)
     in ed\<lparr>yank_linewise := linewise, ed_registers := (ed_registers ed)\<lparr>unnamed := slot_new t linewise\<rparr>\<rparr>)"

text \<open>A slot put back into the unnamed register, behind a \<open>P\<close> over a selection and for a paste in the
  explorer.\<close>

definition set_unnamed :: "slot \<Rightarrow> reg_editor \<Rightarrow> reg_editor" where
  "set_unnamed s ed = ed\<lparr>ed_registers := (ed_registers ed)\<lparr>unnamed := s\<rparr>\<rparr>"

text \<open>\<open>:yank\<close> writes to the bank itself, so that the editor's flag stays.\<close>

definition ex_yank :: "rstring \<Rightarrow> rchar option \<Rightarrow> reg_editor \<Rightarrow> reg_editor" where
  "ex_yank t reg ed = ed\<lparr>ed_registers := record_yank t True reg (ed_registers ed)\<rparr>"

text \<open>One call of the editor or of the host.\<close>

datatype reg_op =
    Yank rstring bool "rchar option"
  | YankBlock rstring nat "rchar option"
  | Delete rstring bool "rchar option"
  | DeleteBlock rstring nat "rchar option"
  | ExYank rstring "rchar option"
  | SetYank rstring
  | SeedYank rstring
  | SetUnnamed slot
  | MacroText rchar rstring
  | Clipboard rstring bool
  | Filename "rstring option"
  | LastCommand "rstring option"

definition reg_step :: "reg_op \<Rightarrow> reg_editor \<Rightarrow> reg_editor" where
  "reg_step x ed =
     (case x of
        Yank t l target \<Rightarrow> ed_record_yank t l target ed
      | YankBlock t w target \<Rightarrow> ed_record_yank_block t w target ed
      | Delete t l target \<Rightarrow> ed_record_delete t l target ed
      | DeleteBlock t w target \<Rightarrow> ed_record_delete_block t w target ed
      | ExYank t reg \<Rightarrow> ex_yank t reg ed
      | SetYank t \<Rightarrow> set_yank t ed
      | SeedYank t \<Rightarrow> seed_yank t ed
      | SetUnnamed s \<Rightarrow> set_unnamed s ed
      | MacroText c t \<Rightarrow> set_named_register_text c t ed
      | Clipboard t l \<Rightarrow> sync_clipboard_register t l ed
      | Filename n \<Rightarrow> ed\<lparr>ed_registers := set_filename n (ed_registers ed)\<rparr>
      | LastCommand c \<Rightarrow> ed\<lparr>ed_registers := set_last_command c (ed_registers ed)\<rparr>)"

definition reg_init :: reg_editor where
  "reg_init = \<lparr>ed_registers = registers_default, yank_linewise = False\<rparr>"

definition reg_run :: "reg_op list \<Rightarrow> reg_editor" where
  "reg_run ops = fold reg_step ops reg_init"

section \<open>The specification over the history\<close>

text \<open>
  A history is the list of operations, the most recent first.  A write that stores
  something is a yank or a deletion with its slot and its target; a deletion of nothing and
  a write to the black hole are none.
\<close>

datatype stored = StoredYank slot "rchar option" | StoredDelete slot "rchar option" | StoredNothing

definition stored_of :: "reg_op \<Rightarrow> stored" where
  "stored_of x =
     (case x of
        Yank t l target \<Rightarrow> if target = Some 95 then StoredNothing else StoredYank (slot_new t l) target
      | YankBlock t w target \<Rightarrow>
          if target = Some 95 then StoredNothing else StoredYank (slot_new_block t w) target
      | ExYank t reg \<Rightarrow> if reg = Some 95 then StoredNothing else StoredYank (slot_new t True) reg
      | Delete t l target \<Rightarrow>
          if t = [] \<or> target = Some 95 then StoredNothing else StoredDelete (slot_new t l) target
      | DeleteBlock t w target \<Rightarrow>
          if t = [] \<or> target = Some 95 then StoredNothing else StoredDelete (slot_new_block t w) target
      | _ \<Rightarrow> StoredNothing)"

definition line_sized :: "slot \<Rightarrow> bool" where
  "line_sized s \<longleftrightarrow> sl_linewise s \<or> 10 \<in> set (sl_text s)"

text \<open>What was written to a named register, whichever the kind of the write.\<close>

definition write_to :: "reg_op \<Rightarrow> (slot \<times> rchar) option" where
  "write_to x =
     (case stored_of x of
        StoredYank s (Some c) \<Rightarrow> Some (s, c)
      | StoredDelete s (Some c) \<Rightarrow> Some (s, c)
      | _ \<Rightarrow> None)"

fun spec_zero :: "reg_op list \<Rightarrow> slot" where
  "spec_zero [] = slot_default"
| "spec_zero (x # h) =
     (case (stored_of x, x) of
        (StoredYank s None, _) \<Rightarrow> s
      | (_, MacroText c t) \<Rightarrow> if c = 48 then retext t (spec_zero h) else spec_zero h
      | _ \<Rightarrow> spec_zero h)"

text \<open>The numbered registers: the line-sized deletions into no named register, newest first.\<close>

fun spec_ring :: "reg_op list \<Rightarrow> nat \<Rightarrow> slot" where
  "spec_ring [] i = slot_default"
| "spec_ring (x # h) i =
     (case (stored_of x, x) of
        (StoredDelete s None, _) \<Rightarrow>
          if line_sized s then (case i of 0 \<Rightarrow> s | Suc j \<Rightarrow> spec_ring h j) else spec_ring h i
      | (_, MacroText c t) \<Rightarrow> if c = 49 + i \<and> i < 9 then retext t (spec_ring h i) else spec_ring h i
      | _ \<Rightarrow> spec_ring h i)"

fun spec_small :: "reg_op list \<Rightarrow> slot" where
  "spec_small [] = slot_default"
| "spec_small (x # h) =
     (case stored_of x of
        StoredDelete s None \<Rightarrow> if line_sized s then spec_small h else s
      | _ \<Rightarrow> spec_small h)"

text \<open>A named register: the last write in lower case, with every append since.\<close>

fun spec_named :: "reg_op list \<Rightarrow> rchar \<Rightarrow> slot" where
  "spec_named [] l = slot_default"
| "spec_named (x # h) l =
     (case (write_to x, x) of
        (Some (s, c), _) \<Rightarrow>
          if c = l then s
          else if is_upper c \<and> to_lower c = l then append_slot (spec_named h l) s
          else spec_named h l
      | (None, MacroText c t) \<Rightarrow>
          if (is_lower c \<or> is_upper c) \<and> to_lower c = l then retext t (spec_named h l) else spec_named h l
      | _ \<Rightarrow> spec_named h l)"

fun spec_clip :: "reg_op list \<Rightarrow> slot" where
  "spec_clip [] = slot_default"
| "spec_clip (x # h) =
     (case (write_to x, x) of
        (Some (s, c), _) \<Rightarrow> if c = 43 \<or> c = 42 then s else spec_clip h
      | (None, Clipboard t l) \<Rightarrow> slot_new t l
      | _ \<Rightarrow> spec_clip h)"

fun spec_filename :: "reg_op list \<Rightarrow> slot option" where
  "spec_filename [] = None"
| "spec_filename (x # h) =
     (case x of Filename n \<Rightarrow> map_option (\<lambda>n. slot_new n False) n | _ \<Rightarrow> spec_filename h)"

fun spec_last_command :: "reg_op list \<Rightarrow> slot option" where
  "spec_last_command [] = None"
| "spec_last_command (x # h) =
     (case x of LastCommand c \<Rightarrow> map_option (\<lambda>c. slot_new c False) c | _ \<Rightarrow> spec_last_command h)"

fun spec_linewise :: "reg_op list \<Rightarrow> bool" where
  "spec_linewise [] = False"
| "spec_linewise (x # h) =
     (case x of
        Yank t l target \<Rightarrow> l
      | Delete t l target \<Rightarrow> l
      | YankBlock t w target \<Rightarrow> False
      | DeleteBlock t w target \<Rightarrow> False
      | SeedYank t \<Rightarrow> t \<noteq> [] \<and> last t = 10
      | _ \<Rightarrow> spec_linewise h)"

definition spec_other :: "reg_op list \<Rightarrow> rchar \<Rightarrow> slot option" where
  "spec_other h c =
     (if c = 48 then Some (spec_zero h)
      else if 49 \<le> c \<and> c \<le> 57 then Some (spec_ring h (c - 49))
      else if c = 45 then Some (spec_small h)
      else if is_lower c \<or> is_upper c then Some (spec_named h (to_lower c))
      else if c = 43 \<or> c = 42 then Some (spec_clip h)
      else if c = 37 then spec_filename h
      else if c = 58 then spec_last_command h
      else None)"

text \<open>The unnamed register: the last stored text, or what the register it was stored to
  then read.\<close>

fun spec_unnamed :: "reg_op list \<Rightarrow> slot" where
  "spec_unnamed [] = slot_default"
| "spec_unnamed (x # h) =
     (case (stored_of x, x) of
        (StoredYank s None, _) \<Rightarrow> s
      | (StoredDelete s None, _) \<Rightarrow> s
      | (StoredYank s (Some c), _) \<Rightarrow> (case spec_other (x # h) c of None \<Rightarrow> s | Some n \<Rightarrow> n)
      | (StoredDelete s (Some c), _) \<Rightarrow> (case spec_other (x # h) c of None \<Rightarrow> s | Some n \<Rightarrow> n)
      | (_, SetYank t) \<Rightarrow> slot_new t (spec_linewise h)
      | (_, SeedYank t) \<Rightarrow> slot_new t (t \<noteq> [] \<and> last t = 10)
      | (_, SetUnnamed s) \<Rightarrow> s
      | _ \<Rightarrow> spec_unnamed h)"

definition spec_read :: "reg_op list \<Rightarrow> rchar \<Rightarrow> slot option" where
  "spec_read h c = (if c = 34 then Some (spec_unnamed h) else spec_other h c)"

end
