(* ===== verification/RegisterLaws.thy ===== *)
theory RegisterLaws
  imports Registers
begin

text \<open>
  The register bank refines its history: after any sequence of operations every register
  reads what the specification determines from the writes.
\<close>

section \<open>The bank related to a history\<close>

lemma shift_ring_nth:
  assumes "length ring = 9" and "i < 9"
  shows "(shift_ring ring)[0 := s] ! i = (case i of 0 \<Rightarrow> s | Suc j \<Rightarrow> ring ! j)"
proof -
  obtain a b c d e f g h k where ring: "ring = [a, b, c, d, e, f, g, h, k]"
    using assms(1) by (auto simp: length_Suc_conv eval_nat_numeral)
  have "shift_ring ring = [a, a, b, c, d, e, f, g, h]"
    by (simp add: shift_ring_def ring upt_conv_Cons eval_nat_numeral)
  moreover have "i \<in> {0, 1, 2, 3, 4, 5, 6, 7, 8}" using assms(2) by auto
  ultimately show ?thesis by (auto simp: ring eval_nat_numeral)
qed

lemma length_shift_ring [simp]: "length (shift_ring ring) = length ring"
proof -
  have "length (foldl (\<lambda>ring i. ring[i := ring ! (i - 1)]) ring is) = length ring" for "is"
    by (induction "is" arbitrary: ring) simp_all
  then show ?thesis by (simp add: shift_ring_def)
qed

definition named_rel :: "reg_op list \<Rightarrow> slot list \<Rightarrow> bool" where
  "named_rel h ns \<longleftrightarrow> length ns = 26 \<and> (\<forall>l. is_lower l \<longrightarrow> ns ! (l - 97) = spec_named h l)"

definition ring_rel :: "reg_op list \<Rightarrow> slot list \<Rightarrow> bool" where
  "ring_rel h ring \<longleftrightarrow> length ring = 9 \<and> (\<forall>i < 9. ring ! i = spec_ring h i)"

definition other_rel :: "reg_op list \<Rightarrow> registers \<Rightarrow> bool" where
  "other_rel h r \<longleftrightarrow> yank_zero r = spec_zero h \<and> ring_rel h (delete_ring r) \<and>
     small_delete r = spec_small h \<and> named_rel h (named r) \<and> clip r = spec_clip h \<and>
     filename_slot r = spec_filename h \<and> last_command_slot r = spec_last_command h"

definition reg_rel :: "reg_op list \<Rightarrow> reg_editor \<Rightarrow> bool" where
  "reg_rel h ed \<longleftrightarrow> other_rel h (ed_registers ed) \<and> unnamed (ed_registers ed) = spec_unnamed h \<and>
     yank_linewise ed = spec_linewise h"

lemma letter_numeral [simp]:
  "is_lower (numeral k) \<longleftrightarrow> 97 \<le> (numeral k :: nat) \<and> (numeral k :: nat) \<le> 122"
  "is_upper (numeral k) \<longleftrightarrow> 65 \<le> (numeral k :: nat) \<and> (numeral k :: nat) \<le> 90"
  by (simp_all add: is_lower_def is_upper_def)

lemma to_lower_lower: "is_lower c \<or> is_upper c \<Longrightarrow> is_lower (to_lower c)"
  by (auto simp: is_lower_def is_upper_def to_lower_def)

lemma to_lower_id: "is_lower c \<Longrightarrow> to_lower c = c \<and> \<not> is_upper c"
  by (auto simp: is_lower_def is_upper_def to_lower_def)

lemma read_other:
  assumes "other_rel h r" and "c \<noteq> 34"
  shows "read_reg r c = spec_other h c"
proof -
  have n: "named r ! (to_lower c - 97) = spec_named h (to_lower c)" if "is_lower c \<or> is_upper c"
    using assms(1) to_lower_lower [OF that] by (simp add: other_rel_def named_rel_def)
  have rg: "delete_ring r ! (c - 49) = spec_ring h (c - 49)" if "49 \<le> c \<and> c \<le> 57"
  proof -
    have "c - 49 < 9" using that by linarith
    then show ?thesis using assms(1) by (simp add: other_rel_def ring_rel_def)
  qed
  show ?thesis
  proof (cases "is_lower c \<or> is_upper c")
    case True
    then have "read_reg r c = Some (named r ! (to_lower c - 97))"
      and "spec_other h c = Some (spec_named h (to_lower c))"
      by (auto simp: read_reg_def spec_other_def is_lower_def is_upper_def to_lower_def)
    then show ?thesis using n [OF True] by simp
  next
    case False
    then show ?thesis using assms rg by (simp add: read_reg_def spec_other_def other_rel_def)
  qed
qed

lemma other_rel_unnamed [simp]: "other_rel h (r\<lparr>unnamed := s\<rparr>) = other_rel h r"
  by (simp add: other_rel_def)

lemma read_unnamed_other: "c \<noteq> 34 \<Longrightarrow> read_reg (r\<lparr>unnamed := s\<rparr>) c = read_reg r c"
  by (simp add: read_reg_def)

section \<open>Writes\<close>

lemma lower_index: "is_lower l \<Longrightarrow> is_lower m \<Longrightarrow> (l - 97 = m - 97) = (l = m)"
  by (auto simp: is_lower_def)

lemma lower_bound: "is_lower l \<Longrightarrow> l - 97 < 26"
  by (auto simp: is_lower_def)

lemma named_rel_update:
  assumes "named_rel h ns" and "is_lower m"
    and "\<And>l. is_lower l \<Longrightarrow> spec_named (x # h) l = (if l = m then s else spec_named h l)"
  shows "named_rel (x # h) (ns[m - 97 := s])"
  using assms lower_index [OF _ assms(2)] lower_bound [OF assms(2)]
  unfolding named_rel_def by (auto simp: nth_list_update simp del: spec_named.simps)

lemma named_rel_same:
  assumes "named_rel h ns" and "\<And>l. is_lower l \<Longrightarrow> spec_named (x # h) l = spec_named h l"
  shows "named_rel (x # h) ns"
  using assms by (simp add: named_rel_def del: spec_named.simps)

lemma ring_rel_same:
  assumes "ring_rel h ring" and "\<And>i. i < 9 \<Longrightarrow> spec_ring (x # h) i = spec_ring h i"
  shows "ring_rel (x # h) ring"
  using assms by (simp add: ring_rel_def del: spec_ring.simps)

lemma ring_rel_shift:
  assumes "ring_rel h ring" and "stored_of x = StoredDelete s None" and "line_sized s"
  shows "ring_rel (x # h) ((shift_ring ring)[0 := s])"
  unfolding ring_rel_def
proof (intro conjI allI impI)
  show "length ((shift_ring ring)[0 := s]) = 9" using assms(1) by (simp add: ring_rel_def)
  fix i :: nat
  assume i: "i < 9"
  have "(shift_ring ring)[0 := s] ! i = (case i of 0 \<Rightarrow> s | Suc j \<Rightarrow> ring ! j)"
    using assms(1) i by (intro shift_ring_nth) (simp_all add: ring_rel_def)
  also have "\<dots> = spec_ring (x # h) i"
    using assms i by (cases i) (simp_all add: ring_rel_def)
  finally show "(shift_ring ring)[0 := s] ! i = spec_ring (x # h) i" .
qed

lemma write_named_rel:
  assumes "named_rel h (named r)" and "write_to x = Some (s, c)"
  shows "named_rel (x # h) (named (write_named c s r))"
proof -
  consider (lower) "is_lower c" | (upper) "is_upper c" "\<not> is_lower c" | (none) "\<not> is_lower c" "\<not> is_upper c"
    by blast
  then show ?thesis
  proof cases
    case lower
    have "spec_named (x # h) l = (if l = c then s else spec_named h l)" for l
      using assms(2) to_lower_id [OF lower] by auto
    from named_rel_update [OF assms(1) lower this] lower show ?thesis by (simp add: write_named_def)
  next
    case upper
    let ?m = "to_lower c"
    have m: "is_lower ?m" using upper to_lower_lower by blast
    have "spec_named (x # h) l = (if l = ?m then append_slot (named r ! (?m - 97)) s else spec_named h l)"
      if "is_lower l" for l
      using assms m upper that by (auto simp: named_rel_def)
    from named_rel_update [OF assms(1) m this] upper show ?thesis by (simp add: write_named_def Let_def)
  next
    case none
    then have "named (write_named c s r) = named r" by (simp add: write_named_def)
    moreover have "spec_named (x # h) l = spec_named h l" if "is_lower l" for l
      using assms(2) none that by auto
    ultimately show ?thesis using named_rel_same [OF assms(1), of x] by metis
  qed
qed

lemma write_named_fields [simp]:
  "yank_zero (write_named c s r) = yank_zero r"
  "delete_ring (write_named c s r) = delete_ring r"
  "small_delete (write_named c s r) = small_delete r"
  "filename_slot (write_named c s r) = filename_slot r"
  "last_command_slot (write_named c s r) = last_command_slot r"
  "clip (write_named c s r) = (if c = 43 \<or> c = 42 then s else clip r)"
  by (auto simp: write_named_def Let_def is_lower_def is_upper_def)

lemma write_to_stored:
  "write_to x = Some (s, c) \<longleftrightarrow> stored_of x = StoredYank s (Some c) \<or> stored_of x = StoredDelete s (Some c)"
  by (auto simp: write_to_def split: stored.splits option.splits)

lemma stored_text:
  "stored_of x \<noteq> StoredNothing \<Longrightarrow>
    (case x of MacroText c t \<Rightarrow> False | SetYank t \<Rightarrow> False | Clipboard t l \<Rightarrow> False | Filename n \<Rightarrow> False
      | LastCommand n \<Rightarrow> False | _ \<Rightarrow> True)"
  by (cases x) (simp_all add: stored_of_def)

text \<open>A write to a register that was named.\<close>

lemma named_write_other:
  assumes "other_rel h r" and "write_to x = Some (s, c)"
  shows "other_rel (x # h) (write_named c s r)"
proof -
  have st: "stored_of x = StoredYank s (Some c) \<or> stored_of x = StoredDelete s (Some c)"
    using assms(2) by (simp add: write_to_stored)
  then have ns: "stored_of x \<noteq> StoredNothing" by auto
  note tx = stored_text [OF ns]
  have "named_rel (x # h) (named (write_named c s r))"
    using assms by (intro write_named_rel) (simp_all add: other_rel_def)
  moreover have "ring_rel (x # h) (delete_ring r)"
    by (rule ring_rel_same [of h]) (use assms(1) st tx in \<open>auto simp: other_rel_def split: reg_op.splits\<close>)
  ultimately show ?thesis
    using assms st tx by (auto simp: other_rel_def split: reg_op.splits simp del: spec_named.simps spec_ring.simps)
qed

lemma follow_named_rel:
  assumes "other_rel h r"
  shows "other_rel h (follow_named c r)"
    and "c \<noteq> 34 \<Longrightarrow> unnamed (follow_named c r) = (case spec_other h c of None \<Rightarrow> unnamed r | Some n \<Rightarrow> n)"
    and "c = 34 \<Longrightarrow> follow_named c r = r"
proof -
  show "other_rel h (follow_named c r)" using assms by (simp add: follow_named_def split: option.split)
  show "c \<noteq> 34 \<Longrightarrow> unnamed (follow_named c r) = (case spec_other h c of None \<Rightarrow> unnamed r | Some n \<Rightarrow> n)"
    using read_other [OF assms] by (simp add: follow_named_def split: option.split)
  show "c = 34 \<Longrightarrow> follow_named c r = r" by (simp add: follow_named_def read_reg_def)
qed

lemma write_named_unnamed [simp]:
  "unnamed (write_named c s r) = unnamed r"
  "write_named c s (r\<lparr>unnamed := u\<rparr>) = (write_named c s r)\<lparr>unnamed := u\<rparr>"
  by (auto simp: write_named_def Let_def)

lemma spec_other_quote: "spec_other h 34 = None"
  by (simp add: spec_other_def is_lower_def is_upper_def)

lemma named_write_rel:
  assumes "other_rel h r" and w: "write_to x = Some (s, c)"
  defines "r' \<equiv> follow_named c (write_named c s (r\<lparr>unnamed := s\<rparr>))"
  shows "other_rel (x # h) r' \<and> unnamed r' = spec_unnamed (x # h)"
proof -
  have o: "other_rel (x # h) (write_named c s (r\<lparr>unnamed := s\<rparr>))"
    using named_write_other [OF _ w, of h "r\<lparr>unnamed := s\<rparr>"] assms(1) by simp
  have st: "stored_of x = StoredYank s (Some c) \<or> stored_of x = StoredDelete s (Some c)"
    using w by (simp add: write_to_stored)
  have u: "spec_unnamed (x # h) = (case spec_other (x # h) c of None \<Rightarrow> s | Some n \<Rightarrow> n)"
    using st by auto
  show ?thesis
  proof (cases "c = 34")
    case True
    then show ?thesis using o follow_named_rel(3) [OF o True] u unfolding r'_def
      by (simp add: spec_other_quote)
  next
    case False
    then show ?thesis using follow_named_rel(1,2) [OF o, of c] u unfolding r'_def
      by (simp split: option.split)
  qed
qed

text \<open>An operation that stores nothing under a name.\<close>

lemma store_yank_rel:
  assumes "other_rel h r" and st: "stored_of x = StoredYank s target"
  shows "other_rel (x # h) (store_yank s target r) \<and> unnamed (store_yank s target r) = spec_unnamed (x # h)"
proof (cases target)
  case None
  have ns: "stored_of x \<noteq> StoredNothing" using st by simp
  note tx = stored_text [OF ns]
  have w: "write_to x = None" using st None by (simp add: write_to_def)
  have "named_rel (x # h) (named r)" "ring_rel (x # h) (delete_ring r)"
    using assms(1) st w tx None
    by (auto intro: named_rel_same [of h] ring_rel_same [of h] simp: other_rel_def split: reg_op.splits)
  with assms(1) st w tx None show ?thesis
    by (auto simp: store_yank_def other_rel_def split: reg_op.splits simp del: spec_named.simps spec_ring.simps)
next
  case (Some c)
  with st have "write_to x = Some (s, c)" by (simp add: write_to_stored)
  from named_write_rel [OF assms(1) this] Some show ?thesis by (simp add: store_yank_def)
qed

lemma store_delete_rel:
  assumes "other_rel h r" and st: "stored_of x = StoredDelete s target"
  shows "other_rel (x # h) (store_delete s target r) \<and> unnamed (store_delete s target r) = spec_unnamed (x # h)"
proof (cases target)
  case None
  have ns: "stored_of x \<noteq> StoredNothing" using st by simp
  note tx = stored_text [OF ns]
  have w: "write_to x = None" using st None by (simp add: write_to_def)
  have n: "named_rel (x # h) (named r)"
    using assms(1) st w tx None
    by (auto intro: named_rel_same [of h] simp: other_rel_def split: reg_op.splits)
  show ?thesis
  proof (cases "line_sized s")
    case True
    have "ring_rel (x # h) ((shift_ring (delete_ring r))[0 := s])"
      using assms(1) st None True by (intro ring_rel_shift) (simp_all add: other_rel_def)
    with n assms(1) st w tx None True show ?thesis
      by (auto simp: store_delete_def line_sized_def Let_def other_rel_def split: reg_op.splits
          simp del: spec_named.simps spec_ring.simps)
  next
    case False
    have "ring_rel (x # h) (delete_ring r)"
      using assms(1) st None False tx
      by (auto intro: ring_rel_same [of h] simp: other_rel_def split: reg_op.splits)
    with n assms(1) st w tx None False show ?thesis
      by (auto simp: store_delete_def line_sized_def Let_def other_rel_def split: reg_op.splits
          simp del: spec_named.simps spec_ring.simps)
  qed
next
  case (Some c)
  with st have "write_to x = Some (s, c)" by (simp add: write_to_stored)
  from named_write_rel [OF assms(1) this] Some show ?thesis by (simp add: store_delete_def)
qed

section \<open>Every operation\<close>

lemma record_rel:
  assumes "other_rel h r" and "unnamed r = spec_unnamed h"
  shows "other_rel (Yank t l target # h) (record_yank t l target r) \<and>
      unnamed (record_yank t l target r) = spec_unnamed (Yank t l target # h)"
    and "other_rel (YankBlock t w target # h) (record_yank_block t w target r) \<and>
      unnamed (record_yank_block t w target r) = spec_unnamed (YankBlock t w target # h)"
    and "other_rel (Delete t l target # h) (record_delete t l target r) \<and>
      unnamed (record_delete t l target r) = spec_unnamed (Delete t l target # h)"
    and "other_rel (ExYank t target # h) (record_yank t True target r) \<and>
      unnamed (record_yank t True target r) = spec_unnamed (ExYank t target # h)"
    and "other_rel (DeleteBlock t w target # h) (record_delete_block t w target r) \<and>
      unnamed (record_delete_block t w target r) = spec_unnamed (DeleteBlock t w target # h)"
proof -
  have skip: "other_rel (x # h) r \<and> unnamed r = spec_unnamed (x # h)"
    if "stored_of x = StoredNothing" "case x of Yank _ _ _ \<Rightarrow> True | ExYank _ _ \<Rightarrow> True | YankBlock _ _ _ \<Rightarrow> True
      | Delete _ _ _ \<Rightarrow> True | DeleteBlock _ _ _ \<Rightarrow> True | _ \<Rightarrow> False" for x
    using assms that by (cases x) (auto simp: other_rel_def named_rel_def ring_rel_def write_to_def)
  show "other_rel (Yank t l target # h) (record_yank t l target r) \<and>
      unnamed (record_yank t l target r) = spec_unnamed (Yank t l target # h)"
    using skip [of "Yank t l target"] store_yank_rel [OF assms(1), of "Yank t l target" "slot_new t l" target]
    by (cases "target = Some 95") (simp_all add: record_yank_def stored_of_def del: spec_unnamed.simps)
  show "other_rel (YankBlock t w target # h) (record_yank_block t w target r) \<and>
      unnamed (record_yank_block t w target r) = spec_unnamed (YankBlock t w target # h)"
    using skip [of "YankBlock t w target"]
      store_yank_rel [OF assms(1), of "YankBlock t w target" "slot_new_block t w" target]
    by (cases "target = Some 95") (simp_all add: record_yank_block_def stored_of_def del: spec_unnamed.simps)
  show "other_rel (Delete t l target # h) (record_delete t l target r) \<and>
      unnamed (record_delete t l target r) = spec_unnamed (Delete t l target # h)"
    using skip [of "Delete t l target"] store_delete_rel [OF assms(1), of "Delete t l target" "slot_new t l" target]
    by (cases "t = [] \<or> target = Some 95") (simp_all add: record_delete_def stored_of_def del: spec_unnamed.simps)
  show "other_rel (ExYank t target # h) (record_yank t True target r) \<and>
      unnamed (record_yank t True target r) = spec_unnamed (ExYank t target # h)"
    using skip [of "ExYank t target"] store_yank_rel [OF assms(1), of "ExYank t target" "slot_new t True" target]
    by (cases "target = Some 95") (simp_all add: record_yank_def stored_of_def del: spec_unnamed.simps)
  show "other_rel (DeleteBlock t w target # h) (record_delete_block t w target r) \<and>
      unnamed (record_delete_block t w target r) = spec_unnamed (DeleteBlock t w target # h)"
    using skip [of "DeleteBlock t w target"]
      store_delete_rel [OF assms(1), of "DeleteBlock t w target" "slot_new_block t w" target]
    by (cases "t = [] \<or> target = Some 95") (simp_all add: record_delete_block_def stored_of_def del: spec_unnamed.simps)
qed

lemma macro_text_rel:
  assumes "other_rel h r"
  shows "other_rel (MacroText c t # h) (set_named_text c t r)"
proof -
  let ?x = "MacroText c t"
  have w: "write_to ?x = None" "stored_of ?x = StoredNothing" by (simp_all add: write_to_def stored_of_def)
  have ring: "ring_rel (?x # h) (if 49 \<le> c \<and> c \<le> 57
      then (delete_ring r)[c - 49 := retext t (delete_ring r ! (c - 49))] else delete_ring r)"
  proof -
    have "c = 49 + i \<and> i < 9 \<longleftrightarrow> 49 \<le> c \<and> c \<le> 57 \<and> i = c - 49" for i by auto
    then show ?thesis
      using assms w by (auto simp: other_rel_def ring_rel_def nth_list_update)
  qed
  have nm: "named_rel (?x # h) (if is_lower c \<or> is_upper c
      then (named r)[to_lower c - 97 := retext t (named r ! (to_lower c - 97))] else named r)"
  proof (cases "is_lower c \<or> is_upper c")
    case True
    have m: "is_lower (to_lower c)" by (rule to_lower_lower [OF True])
    have "spec_named (?x # h) l =
        (if l = to_lower c then retext t (named r ! (to_lower c - 97)) else spec_named h l)" if "is_lower l" for l
      using assms m w True that by (auto simp: other_rel_def named_rel_def)
    from named_rel_update [OF _ m this] assms True show ?thesis by (simp add: other_rel_def)
  next
    case False
    then show ?thesis using assms w by (auto intro!: named_rel_same [of h] simp: other_rel_def)
  qed
  have "is_lower c \<or> is_upper c \<Longrightarrow> c \<noteq> 48 \<and> \<not> (49 \<le> c \<and> c \<le> 57)"
    by (auto simp: is_lower_def is_upper_def)
  with assms ring nm w show ?thesis
    by (auto simp: set_named_text_def Let_def other_rel_def simp del: spec_named.simps spec_ring.simps
        split: if_splits)
qed

lemma reg_step_rel:
  assumes "reg_rel h ed"
  shows "reg_rel (x # h) (reg_step x ed)"
proof -
  have o: "other_rel h (ed_registers ed)" and u: "unnamed (ed_registers ed) = spec_unnamed h"
    and l: "yank_linewise ed = spec_linewise h" using assms by (simp_all add: reg_rel_def)
  note rec = record_rel [OF o u]
  show ?thesis
  proof (cases x)
    case (Yank t l' target)
    then show ?thesis using rec(1) [of t l' target] by (simp add: reg_step_def ed_record_yank_def reg_rel_def del: spec_unnamed.simps)
  next
    case (YankBlock t w target)
    then show ?thesis using rec(2) [of t w target] by (simp add: reg_step_def ed_record_yank_block_def reg_rel_def del: spec_unnamed.simps)
  next
    case (Delete t l' target)
    then show ?thesis using rec(3) [of t l' target] by (simp add: reg_step_def ed_record_delete_def reg_rel_def del: spec_unnamed.simps)
  next
    case (DeleteBlock t w target)
    then show ?thesis using rec(5) [of t w target] by (simp add: reg_step_def ed_record_delete_block_def reg_rel_def del: spec_unnamed.simps)
  next
    case (MacroText c t)
    then show ?thesis
      using macro_text_rel [OF o, of c t] u l
      by (auto simp: reg_step_def reg_rel_def set_named_register_text_def set_named_text_def stored_of_def Let_def)
  next
    case (ExYank t target)
    then show ?thesis using rec(4) [of t target] l by (simp add: reg_step_def ex_yank_def reg_rel_def del: spec_unnamed.simps)
  next
    case (SeedYank t)
    then show ?thesis using o u l
      by (auto simp: reg_step_def reg_rel_def seed_yank_def Let_def other_rel_def named_rel_def ring_rel_def stored_of_def write_to_def)
  next
    case (SetUnnamed s)
    then show ?thesis using o u l
      by (auto simp: reg_step_def reg_rel_def set_unnamed_def other_rel_def named_rel_def ring_rel_def stored_of_def write_to_def)
  next
    case (SetYank t)
    then show ?thesis using o u l
      by (auto simp: reg_step_def reg_rel_def set_yank_def other_rel_def named_rel_def ring_rel_def stored_of_def write_to_def)
  next
    case (Clipboard t l')
    then show ?thesis using o u l
      by (auto simp: reg_step_def reg_rel_def sync_clipboard_register_def set_clipboard_def other_rel_def named_rel_def ring_rel_def stored_of_def write_to_def)
  next
    case (Filename n)
    then show ?thesis using o u l
      by (auto simp: reg_step_def reg_rel_def set_filename_def other_rel_def named_rel_def ring_rel_def stored_of_def write_to_def)
  next
    case (LastCommand n)
    then show ?thesis using o u l
      by (auto simp: reg_step_def reg_rel_def set_last_command_def other_rel_def named_rel_def ring_rel_def stored_of_def write_to_def)
  qed
qed

lemma reg_rel_init: "reg_rel [] reg_init"
  by (auto simp: reg_rel_def reg_init_def registers_default_def other_rel_def named_rel_def ring_rel_def
      is_lower_def nth_replicate)

lemma reg_run_rel: "reg_rel (rev ops) (reg_run ops)"
proof -
  have "reg_rel h ed \<Longrightarrow> reg_rel (rev ops @ h) (fold reg_step ops ed)" for h ed
    by (induction ops arbitrary: h ed) (simp_all, metis reg_step_rel append_Cons append_Nil append.assoc)
  from this [OF reg_rel_init] show ?thesis by (simp add: reg_run_def)
qed

section \<open>The bank reads its history\<close>

text \<open>
  C9: what the registers hold.  After any sequence of yanks (\<open>:yank\<close> too), deletions, macro recordings,
  host writes and restorations of the unnamed register, each register reads what the history determines: \<open>"0\<close> the last yank into
  no named register; \<open>"1\<close> to \<open>"9\<close> the nine last deletions of a line or more into no named
  register, the newest first; \<open>"-\<close> the last smaller one; a letter its last write in lower
  case with every append since; the clipboard its last write; and the unnamed register the
  last text stored or put there, or the contents of the register it went to.  A deletion with a numbered
  target goes to none of them: the unnamed register then shows the old contents of that
  register.
\<close>

theorem registers_refine:
  "read_reg (ed_registers (reg_run ops)) c = spec_read (rev ops) c"
proof -
  have "other_rel (rev ops) (ed_registers (reg_run ops))"
    and "unnamed (ed_registers (reg_run ops)) = spec_unnamed (rev ops)"
    using reg_run_rel [of ops] by (simp_all add: reg_rel_def)
  then show ?thesis
    using read_other [of "rev ops" "ed_registers (reg_run ops)" c] by (simp add: spec_read_def read_reg_def [of _ 34])
qed

end
