(* ===== verification/Screen.thy ===== *)
theory Screen
  imports Edit Folds
begin

text \<open>
  What is on the screen: soft wrap (\<open>hjkl-buffer/src/wrap.rs\<close>), the viewport
  (\<open>viewport.rs\<close>), the screen rows of a buffer with folds (\<open>buffer.rs\<close> and its twin
  \<open>hjkl-engine/src/viewport_math.rs\<close>) and the scrolling of the editor (\<open>editor.rs\<close>).
  The display width of a char is the crate \<open>unicode-width\<close>, the argument \<open>W\<close>; widths and
  heights of the terminal are 16-bit words, rows and columns natural numbers.  An
  operation is \<open>None\<close> where the source panics or would not return.
\<close>

section \<open>Soft wrap\<close>

datatype wrap = NoWrap | CharWrap | WordWrap

text \<open>\<open>char::is_whitespace\<close>.\<close>

definition is_whitespace :: "rchar \<Rightarrow> bool" where
  "is_whitespace c \<longleftrightarrow> (9 \<le> c \<and> c \<le> 13) \<or> c = 0x20 \<or> c = 0x85 \<or> c = 0xA0 \<or> c = 0x1680 \<or>
     (0x2000 \<le> c \<and> c \<le> 0x200A) \<or> c = 0x2028 \<or> c = 0x2029 \<or> c = 0x202F \<or> c = 0x205F \<or> c = 0x3000"

definition char_cells :: "(rchar \<Rightarrow> nat option) \<Rightarrow> rchar \<Rightarrow> nat" where
  "char_cells W c = max (case W c of None \<Rightarrow> 1 | Some w \<Rightarrow> w) 1"

text \<open>The number of chars that fit; \<open>cells + w\<close> is a 16-bit sum.\<close>

fun fit :: "(rchar \<Rightarrow> nat option) \<Rightarrow> u16 \<Rightarrow> u16 \<Rightarrow> rstring \<Rightarrow> nat" where
  "fit W width cells [] = 0"
| "fit W width cells (c # cs) =
     (let w = of_nat (char_cells W c) in
      if cells + w > width then 0 else Suc (fit W width (cells + w) cs))"

text \<open>The index after the last whitespace.\<close>

fun after_last_ws :: "rstring \<Rightarrow> nat option" where
  "after_last_ws [] = None"
| "after_last_ws (c # cs) =
     (case after_last_ws cs of
        Some k \<Rightarrow> Some (Suc k)
      | None \<Rightarrow> if is_whitespace c then Some 1 else None)"

definition break_at :: "(rchar \<Rightarrow> nat option) \<Rightarrow> wrap \<Rightarrow> u16 \<Rightarrow> rstring \<Rightarrow> nat" where
  "break_at W mode width cs =
     (let i = max 1 (fit W width 0 cs) in
      if mode = WordWrap then (case after_last_ws (take i cs) of Some k \<Rightarrow> k | None \<Rightarrow> i) else i)"

lemma after_last_ws_bounds: "after_last_ws cs = Some k \<Longrightarrow> 0 < k \<and> k \<le> length cs"
  by (induction cs arbitrary: k) (auto split: option.splits if_splits)

lemma break_at_pos: "cs \<noteq> [] \<Longrightarrow> 0 < break_at W mode width cs"
  using after_last_ws_bounds [of "take (max 1 (fit W width 0 cs)) cs"]
  by (auto simp: break_at_def Let_def split: option.split)

function wrap_loop :: "(rchar \<Rightarrow> nat option) \<Rightarrow> wrap \<Rightarrow> u16 \<Rightarrow> nat \<Rightarrow> rstring \<Rightarrow> (nat \<times> nat) list" where
  "wrap_loop W mode width start cs =
     (if cs = [] then []
      else if max 1 (fit W width 0 cs) \<ge> length cs then [(start, start + length cs)]
      else let b = break_at W mode width cs in
        (start, start + b) # wrap_loop W mode width (start + b) (drop b cs))"
  by pat_completeness auto

termination wrap_loop
  by (relation "measure (\<lambda>(W, mode, width, start, cs). length cs)") (use break_at_pos in auto)

definition wrap_segments :: "(rchar \<Rightarrow> nat option) \<Rightarrow> rstring \<Rightarrow> u16 \<Rightarrow> wrap \<Rightarrow> (nat \<times> nat) list" where
  "wrap_segments W line width mode =
     (if mode = NoWrap \<or> width = 0 \<or> line = [] then [(0, length line)]
      else let segs = wrap_loop W mode width 0 line in if segs = [] then [(0, 0)] else segs)"

definition segment_for_col :: "(nat \<times> nat) list \<Rightarrow> nat \<Rightarrow> nat" where
  "segment_for_col segments col =
     (if segments = [] then 0
      else case position (\<lambda>(s, e). col \<ge> s \<and> col < e) segments of
             Some idx \<Rightarrow> idx
           | None \<Rightarrow> length segments - 1)"

fun col_walk :: "(rchar \<Rightarrow> nat option) \<Rightarrow> nat \<Rightarrow> nat \<Rightarrow> nat \<Rightarrow> nat \<Rightarrow> rstring \<Rightarrow> nat" where
  "col_walk W visual_offset e i cells [] = e"
| "col_walk W visual_offset e i cells (c # cs) =
     (if cells + char_cells W c > visual_offset then i
      else col_walk W visual_offset e (Suc i) (cells + char_cells W c) cs)"

definition char_col_for_visual_offset :: "(rchar \<Rightarrow> nat option) \<Rightarrow> rstring \<Rightarrow> nat \<times> nat \<Rightarrow> nat \<Rightarrow> nat" where
  "char_col_for_visual_offset W line seg visual_offset =
     (case seg of (st, e) \<Rightarrow> col_walk W visual_offset e st 0 (take (e - st) (drop st line)))"

definition visual_offset_for_char_col :: "(rchar \<Rightarrow> nat option) \<Rightarrow> rstring \<Rightarrow> nat \<Rightarrow> nat \<Rightarrow> nat" where
  "visual_offset_for_char_col W line seg_start char_col =
     (if char_col \<le> seg_start then 0
      else sum_list (map (char_cells W) (take (char_col - seg_start) (drop seg_start line))))"

section \<open>The viewport\<close>

record viewport =
  top_row :: nat
  top_col :: nat
  vp_width :: u16
  vp_height :: u16
  vp_wrap :: wrap
  text_width :: u16
  tab_width :: u16

definition viewport_new :: viewport where
  "viewport_new = \<lparr>top_row = 0, top_col = 0, vp_width = 0, vp_height = 0, vp_wrap = NoWrap, text_width = 0, tab_width = 0\<rparr>"

definition effective_tab_width :: "viewport \<Rightarrow> nat" where
  "effective_tab_width v = (if tab_width v = 0 then 4 else unat (tab_width v))"

definition bottom_row :: "viewport \<Rightarrow> nat" where
  "bottom_row v = top_row v + (max (unat (vp_height v)) 1 - 1)"

definition vp_contains :: "viewport \<Rightarrow> position \<Rightarrow> bool" where
  "vp_contains v pos \<longleftrightarrow>
     (p_row pos \<ge> top_row v \<and> p_row pos \<le> bottom_row v) \<and>
     (p_col pos \<ge> top_col v \<and> p_col pos < top_col v + max (unat (vp_width v)) 1)"

definition ensure_visible :: "position \<Rightarrow> viewport \<Rightarrow> viewport" where
  "ensure_visible pos v =
     (if vp_height v = 0 \<or> vp_width v = 0 then v
      else
        let rows = unat (vp_height v);
            v = (if p_row pos < top_row v then v\<lparr>top_row := p_row pos\<rparr>
                 else if p_row pos \<ge> top_row v + rows then v\<lparr>top_row := p_row pos + 1 - rows\<rparr> else v);
            cols = unat (vp_width v)
        in if p_col pos < top_col v then v\<lparr>top_col := p_col pos\<rparr>
           else if p_col pos \<ge> top_col v + cols then v\<lparr>top_col := p_col pos + 1 - cols\<rparr> else v)"

definition is_big_viewport_jump :: "nat \<Rightarrow> nat \<Rightarrow> nat \<Rightarrow> bool" where
  "is_big_viewport_jump prev_top cur_top viewport_height \<longleftrightarrow> nat \<bar>int prev_top - int cur_top\<bar> > viewport_height"

section \<open>Screen rows\<close>

text \<open>What the scrolling reads: the text, the folds and the cursor of a view, and the
  viewport of the host.\<close>

record 'r screen =
  sc_rope :: 'r
  sc_folds :: "fold list"
  sc_cursor :: position
  sc_vp :: viewport

definition row_hidden :: "'r screen \<Rightarrow> nat \<Rightarrow> bool" where
  "row_hidden s row = hides_row (fold_index_new (sc_folds s)) row"

text \<open>The chars and the segments of row \<open>r\<close> under wrap.\<close>

definition wrapped_rows :: "'r text_ops \<Rightarrow> (rchar \<Rightarrow> nat option) \<Rightarrow> 'r screen \<Rightarrow> nat \<Rightarrow> (nat \<times> nat) list option" where
  "wrapped_rows R W s r = do {
     line \<leftarrow> rope_line_str R (sc_rope s) r;
     Some (wrap_segments W line (text_width (sc_vp s)) (vp_wrap (sc_vp s)))
   }"

text \<open>The argument \<open>hid\<close> says which rows folds hide: the index of the buffer's own functions,
  a \<open>FoldProvider\<close> of the engine's.\<close>

fun screen_walk :: "'r text_ops \<Rightarrow> (rchar \<Rightarrow> nat option) \<Rightarrow> (nat \<Rightarrow> bool) \<Rightarrow> 'r screen \<Rightarrow> nat \<Rightarrow> nat list \<Rightarrow> nat \<Rightarrow> nat option option" where
  "screen_walk R W hid s cursor_row [] n = Some None"
| "screen_walk R W hid s cursor_row (r # rs) n =
     (if hid r then screen_walk R W hid s cursor_row rs n
      else do {
        segs \<leftarrow> wrapped_rows R W s r;
        if r = cursor_row then Some (Some (n + segment_for_col segs (p_col (sc_cursor s))))
        else screen_walk R W hid s cursor_row rs (n + length segs)
      })"

definition screen_row_from :: "'r text_ops \<Rightarrow> (rchar \<Rightarrow> nat option) \<Rightarrow> (nat \<Rightarrow> bool) \<Rightarrow> 'r screen \<Rightarrow> nat \<Rightarrow> nat option option" where
  "screen_row_from R W hid s tp = (
     let cursor_row = min (p_row (sc_cursor s)) (rp_len_lines R (sc_rope s) - 1) in
     if cursor_row < tp then Some None
     else screen_walk R W hid s cursor_row [tp ..< Suc cursor_row] 0)"

definition cursor_screen_row_from :: "'r text_ops \<Rightarrow> (rchar \<Rightarrow> nat option) \<Rightarrow> 'r screen \<Rightarrow> nat \<Rightarrow> nat option option" where
  "cursor_screen_row_from R W s tp =
     (if p_row (sc_cursor s) < tp then Some None else screen_row_from R W (row_hidden s) s tp)"

definition cursor_screen_row :: "'r text_ops \<Rightarrow> (rchar \<Rightarrow> nat option) \<Rightarrow> 'r screen \<Rightarrow> nat option option" where
  "cursor_screen_row R W s =
     (if vp_wrap (sc_vp s) = NoWrap \<or> text_width (sc_vp s) = 0 then Some None
      else cursor_screen_row_from R W s (top_row (sc_vp s)))"

text \<open>The screen rows of a row that is not hidden, one without wrap.\<close>

definition row_height :: "'r text_ops \<Rightarrow> (rchar \<Rightarrow> nat option) \<Rightarrow> 'r screen \<Rightarrow> nat \<Rightarrow> nat option" where
  "row_height R W s r =
     (if vp_wrap (sc_vp s) = NoWrap \<or> text_width (sc_vp s) = 0 then Some 1
      else map_option length (wrapped_rows R W s r))"

fun sum_rows :: "'r text_ops \<Rightarrow> (rchar \<Rightarrow> nat option) \<Rightarrow> (nat \<Rightarrow> bool) \<Rightarrow> 'r screen \<Rightarrow> nat list \<Rightarrow> nat \<Rightarrow> nat option" where
  "sum_rows R W hid s [] acc = Some acc"
| "sum_rows R W hid s (r # rs) acc =
     (if hid r then sum_rows R W hid s rs acc
      else do { n \<leftarrow> row_height R W s r; sum_rows R W hid s rs (acc + n) })"

definition screen_rows_between :: "'r text_ops \<Rightarrow> (rchar \<Rightarrow> nat option) \<Rightarrow> 'r screen \<Rightarrow> nat \<Rightarrow> nat \<Rightarrow> nat option" where
  "screen_rows_between R W s st e =
     (if st > e then Some 0
      else sum_rows R W (row_hidden s) s [st ..< Suc (min e (rp_len_lines R (sc_rope s) - 1))] 0)"

fun max_top_walk :: "'r text_ops \<Rightarrow> (rchar \<Rightarrow> nat option) \<Rightarrow> (nat \<Rightarrow> bool) \<Rightarrow> 'r screen \<Rightarrow> nat \<Rightarrow> nat \<Rightarrow> nat \<Rightarrow> nat option" where
  "max_top_walk R W hid s height 0 acc = Some 0"
| "max_top_walk R W hid s height (Suc r) acc = do {
     acc \<leftarrow> (if hid (Suc r) then Some acc
            else do { n \<leftarrow> row_height R W s (Suc r); Some (acc + n) });
     if acc \<ge> height then Some (Suc r) else max_top_walk R W hid s height r acc
   }"

definition max_top_for_height :: "'r text_ops \<Rightarrow> (rchar \<Rightarrow> nat option) \<Rightarrow> (nat \<Rightarrow> bool) \<Rightarrow> 'r screen \<Rightarrow> nat \<Rightarrow> nat option" where
  "max_top_for_height R W hid s height =
     (if height = 0 then Some 0
      else max_top_walk R W hid s height (rp_len_lines R (sc_rope s) - 1) 0)"

section \<open>Bringing the cursor into the viewport\<close>

function skip_hidden :: "(nat \<Rightarrow> bool) \<Rightarrow> nat \<Rightarrow> nat \<Rightarrow> nat" where
  "skip_hidden hid cursor_row r =
     (if r \<le> cursor_row \<and> hid r then skip_hidden hid cursor_row (r + 1) else r)"
  by pat_completeness auto

termination skip_hidden by (relation "measure (\<lambda>(hid, cursor_row, r). Suc cursor_row - r)") auto

declare skip_hidden.simps [simp del]

lemma skip_hidden_ge: "r \<le> skip_hidden hid cursor_row r"
  by (induction hid cursor_row r rule: skip_hidden.induct)
    (subst skip_hidden.simps, auto intro: order_trans [OF le_SucI])

text \<open>Dropping rows from the top; \<open>screen -= len\<close> panics when it would be negative.\<close>

fun sub_rows :: "'r text_ops \<Rightarrow> (rchar \<Rightarrow> nat option) \<Rightarrow> (nat \<Rightarrow> bool) \<Rightarrow> 'r screen \<Rightarrow> nat list \<Rightarrow> nat \<Rightarrow> nat option" where
  "sub_rows R W hid s [] n = Some n"
| "sub_rows R W hid s (r # rs) n =
     (if hid r then sub_rows R W hid s rs n
      else do {
        segs \<leftarrow> wrapped_rows R W s r;
        if length segs \<le> n then sub_rows R W hid s rs (n - length segs) else None
      })"

function drop_loop :: "'r text_ops \<Rightarrow> (rchar \<Rightarrow> nat option) \<Rightarrow> (nat \<Rightarrow> bool) \<Rightarrow> 'r screen \<Rightarrow> nat \<Rightarrow> nat \<Rightarrow> nat \<Rightarrow> nat \<Rightarrow> nat option" where
  "drop_loop R W hid s height cursor_row tp n =
     (if n \<ge> height then
        if skip_hidden hid cursor_row (tp + 1) > cursor_row then Some cursor_row
        else
          (case sub_rows R W hid s [tp ..< skip_hidden hid cursor_row (tp + 1)] n of
             None \<Rightarrow> None
           | Some n \<Rightarrow> drop_loop R W hid s height cursor_row (skip_hidden hid cursor_row (tp + 1)) n)
      else Some tp)"
  by pat_completeness auto

termination drop_loop
proof (relation "measure (\<lambda>(R, W, hid, s, height, cursor_row, tp, n). Suc cursor_row - tp)", goal_cases)
  case (2 R W hid s height cursor_row tp n n')
  then show ?case using skip_hidden_ge [of "tp + 1" hid cursor_row] by auto
qed simp

declare drop_loop.simps [simp del]

definition ensure_cursor_visible :: "'r text_ops \<Rightarrow> (rchar \<Rightarrow> nat option) \<Rightarrow> 'r screen \<Rightarrow> viewport option" where
  "ensure_cursor_visible R W s = (
     let v = sc_vp s; cursor = sc_cursor s; last_row = rp_len_lines R (sc_rope s) - 1 in
     if vp_wrap v = NoWrap \<or> text_width v = 0 then Some (ensure_visible cursor v)
     else if vp_height v = 0 then Some v
     else if p_row cursor < top_row v then Some (v\<lparr>top_row := p_row cursor, top_col := 0\<rparr>)
     else do {
       screen \<leftarrow> cursor_screen_row_from R W s (top_row v);
       case screen of
         None \<Rightarrow> Some (v\<lparr>top_row := min (p_row cursor) last_row, top_col := 0\<rparr>)
       | Some n \<Rightarrow> do {
           tp \<leftarrow> drop_loop R W (row_hidden s) s (unat (vp_height v)) (min (p_row cursor) last_row) (top_row v) n;
           Some (v\<lparr>top_row := tp, top_col := 0\<rparr>)
         }
     })"

text \<open>The engine's version, which does not clamp the row and leaves the top row when the
  cursor has no screen row.\<close>

definition eng_ensure_cursor_visible :: "'r text_ops \<Rightarrow> (rchar \<Rightarrow> nat option) \<Rightarrow> (nat \<Rightarrow> bool) \<Rightarrow> 'r screen \<Rightarrow> viewport option" where
  "eng_ensure_cursor_visible R W hid s = (
     let v = sc_vp s; cursor = sc_cursor s in
     if vp_wrap v = NoWrap \<or> text_width v = 0 then Some (ensure_visible cursor v)
     else if vp_height v = 0 then Some v
     else if p_row cursor < top_row v then Some (v\<lparr>top_row := p_row cursor, top_col := 0\<rparr>)
     else do {
       screen \<leftarrow> screen_row_from R W hid s (top_row v);
       case screen of
         None \<Rightarrow> Some (v\<lparr>top_col := 0\<rparr>)
       | Some n \<Rightarrow> do {
           tp \<leftarrow> drop_loop R W hid s (unat (vp_height v)) (p_row cursor) (top_row v) n;
           Some (v\<lparr>top_row := tp, top_col := 0\<rparr>)
         }
     })"

end
