(* ===== verification/Scroll.thy ===== *)
theory Scroll
  imports Screen FoldLaws
begin

text \<open>
  The scrolling of the editor (\<open>crates/hjkl-engine/src/editor.rs\<close>): keeping the cursor
  \<open>scrolloff\<close> rows away from the edges of the viewport, with soft wrap and with folds, and
  the scroll commands.  The editor asks the fold provider of its buffer, which delegates to
  the view (\<open>Folds\<close>).  An operation is \<open>None\<close> where the source panics or would spin.
\<close>

declare skip_down.simps [simp del]

record 'r scroll_ed = "'r screen" +
  sc_height :: u16
  sc_scrolloff :: nat

definition fold_view_of :: "'r text_ops \<Rightarrow> ('r, 'x) screen_scheme \<Rightarrow> fold_view" where
  "fold_view_of R s = \<lparr>fs_folds = sc_folds s, fs_gen = 0, fs_dirty = 0,
     fs_lines = map (\<lambda>r. the (rope_line_bytes R (sc_rope s) r)) [0 ..< rp_len_lines R (sc_rope s)]\<rparr>"

definition provider_hidden :: "'r text_ops \<Rightarrow> ('r, 'x) screen_scheme \<Rightarrow> nat \<Rightarrow> bool" where
  "provider_hidden R s row = is_row_hidden row (fold_view_of R s)"

abbreviation the_screen :: "('r, 'x) screen_scheme \<Rightarrow> 'r screen" where
  "the_screen s \<equiv> screen.truncate s"

definition set_top :: "nat \<Rightarrow> ('r, 'x) screen_scheme \<Rightarrow> ('r, 'x) screen_scheme" where
  "set_top tp s = s\<lparr>sc_vp := (sc_vp s)\<lparr>top_row := tp\<rparr>\<rparr>"

definition clamp_to :: "nat \<Rightarrow> nat \<Rightarrow> nat \<Rightarrow> nat option" where
  "clamp_to lo hi x = (if lo \<le> hi then Some (if x < lo then lo else if x > hi then hi else x) else None)"

section \<open>Folds without wrap\<close>

fun prev_times :: "fold_view \<Rightarrow> nat \<Rightarrow> nat \<Rightarrow> nat" where
  "prev_times v 0 r = r"
| "prev_times v (Suc k) r = (case prev_visible_row r v of Some p \<Rightarrow> prev_times v k p | None \<Rightarrow> r)"

definition ensure_scrolloff_folds_nowrap :: "'r text_ops \<Rightarrow> (rchar \<Rightarrow> nat option) \<Rightarrow> nat \<Rightarrow> nat \<Rightarrow> 'r scroll_ed \<Rightarrow> 'r scroll_ed option" where
  "ensure_scrolloff_folds_nowrap R W height margin s = (
     let cursor_row = p_row (sc_cursor s);
         max_csr = (height - 1) - margin;
         top_lo = prev_times (fold_view_of R s) max_csr cursor_row;
         top_hi = prev_times (fold_view_of R s) margin cursor_row
     in do {
       new_top \<leftarrow> clamp_to top_lo top_hi (top_row (sc_vp s));
       max_top \<leftarrow> max_top_for_height R W (provider_hidden R s) (the_screen s) height;
       Some (set_top (if new_top > max_top then max_top else new_top) s)
     })"

section \<open>Soft wrap\<close>

lemma next_visible_row_gt: "next_visible_row r v = Some x \<Longrightarrow> r < x"
proof -
  assume n: "next_visible_row r v = Some x"
  let ?x = "skip_down (fold_index_new (fs_folds v)) (last_content_row v) (r + 1)"
  have "r + 1 \<le> ?x" using skip_down_spec [of "r + 1"] by blast
  moreover have "x = ?x" using n by (simp add: next_visible_row_def Let_def split: if_splits)
  ultimately show "r < x" by simp
qed

lemma prev_visible_row_lt: "prev_visible_row r v = Some x \<Longrightarrow> x < r"
  using skip_up_spec [where index = "fold_index_new (fs_folds v)" and r = "r - 1"] by (cases r) simp_all

text \<open>Step 2: the top row moves down until the cursor is above the lower margin.\<close>

function push_loop :: "'r text_ops \<Rightarrow> (rchar \<Rightarrow> nat option) \<Rightarrow> 'r scroll_ed \<Rightarrow> nat \<Rightarrow> nat \<Rightarrow> nat \<Rightarrow> (nat \<times> nat) option" where
  "push_loop R W s max_csr tp n =
     (if n > max_csr then
        (case next_visible_row tp (fold_view_of R s) of
           None \<Rightarrow> Some (tp, n)
         | Some nx \<Rightarrow>
             if nx > p_row (sc_cursor s) then Some (p_row (sc_cursor s), n)
             else
               (case sub_rows R W (provider_hidden R s) (the_screen s) [tp ..< nx] n of
                  None \<Rightarrow> None
                | Some n \<Rightarrow> push_loop R W s max_csr nx n))
      else Some (tp, n))"
  by pat_completeness auto

termination push_loop
proof (relation "measure (\<lambda>(R, W, s, max_csr, tp, n). Suc (p_row (sc_cursor s)) - tp)", goal_cases)
  case (2 R W s max_csr tp n nx n')
  then show ?case using next_visible_row_gt [of tp "fold_view_of R s" nx] by auto
qed simp

declare push_loop.simps [simp del]

text \<open>Step 3: the top row moves up until the cursor is below the upper margin.  The screen
  row is known once the top row has come down to the cursor's row.\<close>

function pull_loop :: "'r text_ops \<Rightarrow> (rchar \<Rightarrow> nat option) \<Rightarrow> 'r scroll_ed \<Rightarrow> nat \<Rightarrow> nat \<Rightarrow> nat option \<Rightarrow> nat option" where
  "pull_loop R W s margin tp n =
     (if (case n of Some k \<Rightarrow> k \<ge> margin | None \<Rightarrow> margin = 0) then Some tp
      else
        let clamped = min (p_row (sc_cursor s)) (rp_len_lines R (sc_rope s) - 1) in
        if n = None \<and> tp \<le> clamped \<and> \<not> provider_hidden R s clamped then
          (case screen_row_from R W (provider_hidden R s) (the_screen s) tp of
             Some (Some k) \<Rightarrow> pull_loop R W s margin tp (Some k)
           | _ \<Rightarrow> None)
        else
          (case prev_visible_row tp (fold_view_of R s) of
             None \<Rightarrow> Some tp
           | Some p \<Rightarrow>
               (case n of
                  None \<Rightarrow> pull_loop R W s margin p None
                | Some k \<Rightarrow>
                    (case wrapped_rows R W (the_screen s) p of
                       None \<Rightarrow> None
                     | Some segs \<Rightarrow> pull_loop R W s margin p (Some (k + length segs))))))"
  by pat_completeness auto

termination pull_loop
proof (relation "measures [\<lambda>(R, W, s, margin, tp, n). tp, \<lambda>(R, W, s, margin, tp, n). if n = None then 1 else 0]",
    goal_cases)
  case 2
  then show ?case by simp
next
  case (3 R W s margin tp n clamped p)
  then show ?case using prev_visible_row_lt [of tp "fold_view_of R s" p] by simp
next
  case (4 R W s margin tp n clamped p k segs)
  then show ?case using prev_visible_row_lt [of tp "fold_view_of R s" p] by simp
qed simp

declare pull_loop.simps [simp del]

definition ensure_scrolloff_vertical :: "'r text_ops \<Rightarrow> (rchar \<Rightarrow> nat option) \<Rightarrow> nat \<Rightarrow> nat \<Rightarrow> 'r scroll_ed \<Rightarrow> 'r scroll_ed option" where
  "ensure_scrolloff_vertical R W height margin s = (
     let cursor_row = p_row (sc_cursor s);
         s = (if cursor_row < top_row (sc_vp s)
              then s\<lparr>sc_vp := (sc_vp s)\<lparr>top_row := cursor_row, top_col := 0\<rparr>\<rparr> else s);
         max_csr = (height - 1) - margin
     in do {
       screen \<leftarrow> screen_row_from R W (provider_hidden R s) (the_screen s) (top_row (sc_vp s));
       (tp, screen) \<leftarrow> (case screen of
           None \<Rightarrow> Some (top_row (sc_vp s), None)
         | Some n \<Rightarrow> map_option (\<lambda>(tp, n). (tp, Some n)) (push_loop R W s max_csr (top_row (sc_vp s)) n));
       tp \<leftarrow> pull_loop R W s margin tp screen;
       max_top \<leftarrow> max_top_for_height R W (provider_hidden R s) (the_screen s) height;
       Some (s\<lparr>sc_vp := (sc_vp s)\<lparr>top_row := (if tp > max_top then max_top else tp), top_col := 0\<rparr>\<rparr>)
     })"

section \<open>The scrolling of the editor\<close>

definition ensure_cursor_in_scrolloff :: "'r text_ops \<Rightarrow> (rchar \<Rightarrow> nat option) \<Rightarrow> 'r scroll_ed \<Rightarrow> 'r scroll_ed option" where
  "ensure_cursor_in_scrolloff R W s = (
     let height = unat (sc_height s) in
     if height = 0 then
       map_option (\<lambda>v. s\<lparr>sc_vp := v\<rparr>) (eng_ensure_cursor_visible R W (provider_hidden R s) (the_screen s))
     else
       let margin = min (sc_scrolloff s) ((height - 1) div 2) in
       if vp_wrap (sc_vp s) \<noteq> NoWrap then ensure_scrolloff_vertical R W height margin s
       else if has_folds (fold_view_of R s) then do {
         s \<leftarrow> ensure_scrolloff_folds_nowrap R W height margin s;
         Some (s\<lparr>sc_vp := (ensure_visible (sc_cursor s) (sc_vp s))\<lparr>top_row := top_row (sc_vp s)\<rparr>\<rparr>)
       }
       else
         let cursor_row = p_row (sc_cursor s);
             last_row = rp_len_lines R (sc_rope s) - 1;
             s = (if cursor_row < top_row (sc_vp s) + margin then set_top (cursor_row - margin) s else s);
             max_bottom = (height - 1) - margin;
             s = (if cursor_row > top_row (sc_vp s) + max_bottom then set_top (cursor_row - max_bottom) s else s);
             max_top = last_row - (height - 1);
             s = (if top_row (sc_vp s) > max_top then set_top max_top s else s)
         in Some (s\<lparr>sc_vp := ensure_visible (sc_cursor s) (sc_vp s)\<rparr>))"

text \<open>The cursor clamped as \<open>View::set_cursor\<close> does.\<close>

definition place_cursor :: "'r text_ops \<Rightarrow> nat \<Rightarrow> nat \<Rightarrow> 'r scroll_ed \<Rightarrow> 'r scroll_ed option" where
  "place_cursor R row col s = (
     let row = min row (rp_len_lines R (sc_rope s) - 1) in do {
       line_chars \<leftarrow> rope_line_char_count R (sc_rope s) row;
       Some (s\<lparr>sc_cursor := Position row (min col line_chars)\<rparr>)
     })"

definition line_len :: "'r text_ops \<Rightarrow> 'r \<Rightarrow> nat \<Rightarrow> nat option" where
  "line_len R rope row =
     (if row \<ge> rp_len_lines R rope then Some 0 else map_option length (rope_line_str R rope row))"

definition scroll_viewport :: "'r text_ops \<Rightarrow> int \<Rightarrow> 'r scroll_ed \<Rightarrow> 'r scroll_ed option" where
  "scroll_viewport R delta s =
     (if delta = 0 then Some s
      else
        let rows = int (rp_len_lines R (sc_rope s));
            height = unat (sc_height s);
            new_top = nat (min (max (int (top_row (sc_vp s)) + delta) 0) (max (rows - 1) 0));
            s = set_top new_top s
        in if height = 0 then Some s
        else
          let cursor_row = p_row (sc_cursor s); cursor_col = p_col (sc_cursor s);
              margin = min (sc_scrolloff s) (height div 2);
              min_row = new_top + margin;
              max_row = new_top + ((height - 1) - margin)
          in do {
            target_row \<leftarrow> clamp_to min_row (max max_row min_row) cursor_row;
            if target_row \<noteq> cursor_row then do {
              n \<leftarrow> line_len R (sc_rope s) target_row;
              place_cursor R target_row (min cursor_col (n - 1)) s
            } else Some s
          })"

text \<open>The argument is an \<open>i16\<close>; negating the least one panics.\<close>

definition scroll_down :: "'r text_ops \<Rightarrow> int \<Rightarrow> 'r scroll_ed \<Rightarrow> 'r scroll_ed option" where
  "scroll_down R rows = scroll_viewport R rows"

definition scroll_up :: "'r text_ops \<Rightarrow> int \<Rightarrow> 'r scroll_ed \<Rightarrow> 'r scroll_ed option" where
  "scroll_up R rows s = (if rows = - (2 ^ 15) then None else scroll_viewport R (- rows) s)"

definition goto_line :: "'r text_ops \<Rightarrow> (rchar \<Rightarrow> nat option) \<Rightarrow> nat \<Rightarrow> 'r scroll_ed \<Rightarrow> 'r scroll_ed option" where
  "goto_line R W line s = (
     let row = line - 1; target = min row (rp_len_lines R (sc_rope s) - 1);
         s = s\<lparr>sc_folds := fs_folds (snd (reveal_row target (fold_view_of R s)))\<rparr>
     in do {
       s \<leftarrow> place_cursor R target 0 s;
       ensure_cursor_in_scrolloff R W s
     })"

datatype scroll_target = Center | Top | Bottom

definition scroll_cursor_to :: "scroll_target \<Rightarrow> 'r scroll_ed \<Rightarrow> 'r scroll_ed" where
  "scroll_cursor_to pos s = (
     let height = unat (sc_height s) in
     if height = 0 then s
     else
       let cur_row = p_row (sc_cursor s);
           margin = min (sc_scrolloff s) ((height - 1) div 2);
           new_top = (case pos of
               Center \<Rightarrow> cur_row - height div 2
             | Top \<Rightarrow> cur_row - margin
             | Bottom \<Rightarrow> cur_row - ((height - 1) - margin))
       in if new_top = top_row (sc_vp s) then s else set_top new_top s)"

definition jump_to :: "'r text_ops \<Rightarrow> nat \<Rightarrow> nat \<Rightarrow> 'r scroll_ed \<Rightarrow> 'r scroll_ed option" where
  "jump_to R line col s = (
     let r = min (line - 1) (rp_len_lines R (sc_rope s) - 1) in do {
       n \<leftarrow> line_len R (sc_rope s) r;
       place_cursor R r (min (col - 1) n) s
     })"

definition set_cursor_doc :: "'r text_ops \<Rightarrow> nat \<Rightarrow> nat \<Rightarrow> 'r scroll_ed \<Rightarrow> 'r scroll_ed option" where
  "set_cursor_doc R row col s = (
     let r = min row (rp_len_lines R (sc_rope s) - 1) in do {
       n \<leftarrow> line_len R (sc_rope s) r;
       place_cursor R r (min col n) s
     })"

definition scroll_right :: "int \<Rightarrow> 'r scroll_ed \<Rightarrow> 'r scroll_ed" where
  "scroll_right cols s =
     s\<lparr>sc_vp := (sc_vp s)\<lparr>top_col := nat (max (int (top_col (sc_vp s)) + cols) 0)\<rparr>\<rparr>"

definition scroll_left :: "int \<Rightarrow> 'r scroll_ed \<Rightarrow> 'r scroll_ed option" where
  "scroll_left cols s = (if cols = - (2 ^ 15) then None else Some (scroll_right (- cols) s))"

end
