(* ===== verification/ScreenLaws.thy ===== *)
theory ScreenLaws
  imports Scroll EditSafe
begin

text \<open>
  Soft wrap tiles a line, the column of a char and its offset on the screen are inverse to
  each other, and bringing the cursor into the viewport makes it visible with the smallest
  scroll.
\<close>

section \<open>Segments\<close>

fun tiles :: "nat \<Rightarrow> nat \<Rightarrow> (nat \<times> nat) list \<Rightarrow> bool" where
  "tiles a b [] \<longleftrightarrow> a = b"
| "tiles a b ((s, e) # xs) \<longleftrightarrow> s = a \<and> a < e \<and> tiles e b xs"

definition cells_of :: "(rchar \<Rightarrow> nat option) \<Rightarrow> rstring \<Rightarrow> nat" where
  "cells_of W cs = sum_list (map (char_cells W) cs)"

lemma cells_of_simps [simp]:
  "cells_of W [] = 0"
  "cells_of W (c # cs) = char_cells W c + cells_of W cs"
  "cells_of W (cs @ ds) = cells_of W cs + cells_of W ds"
  by (simp_all add: cells_of_def)

lemma char_cells_pos: "0 < char_cells W c"
  by (simp add: char_cells_def)

text \<open>The 16-bit sum of cells does not wrap around.\<close>

definition cells_fit :: "(rchar \<Rightarrow> nat option) \<Rightarrow> u16 \<Rightarrow> rstring \<Rightarrow> bool" where
  "cells_fit W width cs \<longleftrightarrow> (\<forall>c \<in> set cs. unat width + char_cells W c < 2 ^ 16)"

lemma cells_fit_drop: "cells_fit W width cs \<Longrightarrow> cells_fit W width (drop k cs)"
  by (auto simp: cells_fit_def dest: in_set_dropD)

lemma add_cells:
  assumes "cells \<le> (width :: u16)" and "unat width + w < 2 ^ 16"
  shows "unat (cells + of_nat w) = unat cells + w"
proof -
  have "unat (of_nat w :: u16) = w" using assms(2) by (simp add: unat_of_nat)
  moreover have "unat cells + w < 2 ^ 16" using assms by (simp add: word_le_nat_alt)
  ultimately show ?thesis by (simp add: unat_plus_if')
qed

lemma fit_le: "fit W width cells cs \<le> length cs"
  by (induction W width cells cs rule: fit.induct) (auto simp: Let_def)

lemma fit_sum:
  assumes "cells_fit W width cs" and "cells \<le> width"
  shows "unat cells + cells_of W (take (fit W width cells cs) cs) \<le> unat width"
  using assms
proof (induction W width cells cs rule: fit.induct)
  case (1 W width cells)
  then show ?case by (simp add: word_le_nat_alt)
next
  case (2 W width cells c cs)
  let ?w = "char_cells W c"
  have a: "unat (cells + of_nat ?w) = unat cells + ?w"
    using 2 by (intro add_cells) (auto simp: cells_fit_def)
  show ?case
  proof (cases "cells + of_nat ?w > width")
    case True
    with 2 show ?thesis by (simp add: word_le_nat_alt)
  next
    case False
    then have "unat (cells + of_nat ?w) + cells_of W (take (fit W width (cells + of_nat ?w) cs) cs) \<le> unat width"
      using 2 by (intro "2.IH") (auto simp: cells_fit_def not_less)
    with False a show ?thesis by simp
  qed
qed

lemma fit_greedy:
  assumes "cells_fit W width cs" and "cells \<le> width" and "fit W width cells cs < length cs"
  shows "unat width < unat cells + cells_of W (take (Suc (fit W width cells cs)) cs)"
  using assms
proof (induction W width cells cs rule: fit.induct)
  case (2 W width cells c cs)
  let ?w = "char_cells W c"
  have a: "unat (cells + of_nat ?w) = unat cells + ?w"
    using 2 by (intro add_cells) (auto simp: cells_fit_def)
  show ?case
  proof (cases "cells + of_nat ?w > width")
    case True
    with a show ?thesis by (simp add: word_less_nat_alt)
  next
    case False
    have "fit W width (cells + of_nat ?w) cs < length cs"
      using 2(4) False by (simp add: Let_def)
    then have "unat width < unat (cells + of_nat ?w) +
        cells_of W (take (Suc (fit W width (cells + of_nat ?w) cs)) cs)"
      using 2(2) False by (intro "2.IH") (auto simp: cells_fit_def not_less)
    with False a show ?thesis by simp
  qed
qed simp

text \<open>What one segment satisfies, the rest of the line being \<open>cs\<close>.\<close>

definition seg_ok :: "(rchar \<Rightarrow> nat option) \<Rightarrow> wrap \<Rightarrow> u16 \<Rightarrow> rstring \<Rightarrow> nat \<Rightarrow> bool" where
  "seg_ok W mode width cs n \<longleftrightarrow>
     (n = 1 \<or> cells_of W (take n cs) \<le> unat width) \<and>
     (n < length cs \<longrightarrow> unat width < cells_of W cs) \<and>
     (n < length cs \<and> mode = CharWrap \<longrightarrow> unat width < cells_of W (take (Suc n) cs)) \<and>
     (n < length cs \<and> mode = WordWrap \<longrightarrow>
        is_whitespace (cs ! (n - 1)) \<and>
          (\<forall>k. n < k \<and> k \<le> length cs \<and> cells_of W (take k cs) \<le> unat width \<longrightarrow> \<not> is_whitespace (cs ! (k - 1))) \<or>
        (\<forall>c \<in> set (take n cs). \<not> is_whitespace c) \<and> unat width < cells_of W (take (Suc n) cs))"

lemma after_last_ws_spec:
  "case after_last_ws cs of
     None \<Rightarrow> \<forall>c \<in> set cs. \<not> is_whitespace c
   | Some k \<Rightarrow> 0 < k \<and> k \<le> length cs \<and> is_whitespace (cs ! (k - 1)) \<and>
       (\<forall>j. k \<le> j \<and> j < length cs \<longrightarrow> \<not> is_whitespace (cs ! j))"
proof (induction cs)
  case (Cons c cs)
  show ?case
  proof (cases "after_last_ws cs")
    case None
    then show ?thesis using Cons by (auto simp: nth_Cons' split: if_splits)
  next
    case (Some a)
    have "\<not> is_whitespace ((c # cs) ! j)" if "Suc a \<le> j" "j < length (c # cs)" for j
      using Cons Some that by (cases j) auto
    then show ?thesis using Cons Some by (auto simp: nth_Cons' split: if_splits)
  qed
qed simp

lemma cells_of_take_mono: "m \<le> n \<Longrightarrow> cells_of W (take m cs) \<le> cells_of W (take n cs)"
proof -
  assume "m \<le> n"
  then have "take n cs = take m cs @ take (n - m) (drop m cs)" by (metis le_add_diff_inverse take_add)
  then show ?thesis by simp
qed

lemma fit_seg_ok:
  assumes f: "cells_fit W width cs" and cs: "cs \<noteq> []"
  shows "max 1 (fit W width 0 cs) < length cs \<Longrightarrow> seg_ok W mode width cs (break_at W mode width cs)"
    and "max 1 (fit W width 0 cs) \<ge> length cs \<Longrightarrow> seg_ok W mode width cs (length cs)"
proof -
  let ?f = "fit W width 0 cs"
  let ?i = "max 1 ?f"
  have le: "cells_of W (take ?f cs) \<le> unat width" using fit_sum [OF f, of 0] by simp
  have fl: "?f \<le> length cs" by (rule fit_le)
  have one: "?i = 1 \<or> cells_of W (take ?i cs) \<le> unat width" using le by (simp add: max_def)
  have more: "unat width < cells_of W (take (Suc ?i) cs)" if "?i < length cs"
  proof -
    have "unat width < cells_of W (take (Suc ?f) cs)" using fit_greedy [OF f, of 0] that by simp
    also have "\<dots> \<le> cells_of W (take (Suc ?i) cs)" by (rule cells_of_take_mono) simp
    finally show ?thesis .
  qed
  have over: "unat width < cells_of W cs" if "?i < length cs"
    using more [OF that] cells_of_take_mono [OF Suc_leI [OF that], of W cs] by simp
  have bi: "break_at W mode width cs \<le> ?i"
    using after_last_ws_bounds [of "take ?i cs"] by (force simp: break_at_def Let_def split: option.split)
  show "seg_ok W mode width cs (break_at W mode width cs)" if "?i < length cs"
  proof (cases "mode = WordWrap \<and> after_last_ws (take ?i cs) \<noteq> None")
    case True
    then obtain k where k: "after_last_ws (take ?i cs) = Some k" by auto
    then have kk: "0 < k" "k \<le> length (take ?i cs)" "is_whitespace (take ?i cs ! (k - 1))"
      "\<And>j. k \<le> j \<Longrightarrow> j < length (take ?i cs) \<Longrightarrow> \<not> is_whitespace (take ?i cs ! j)"
      using after_last_ws_spec [of "take ?i cs"] by simp_all
    have b: "break_at W mode width cs = k" using True k by (simp add: break_at_def Let_def)
    have "k = 1 \<or> cells_of W (take k cs) \<le> unat width"
      using one kk(1,2) cells_of_take_mono [of k ?i W cs] by force
    moreover have "is_whitespace (cs ! (k - 1))"
    proof -
      have "k \<le> ?i" using kk(2) by simp
      then have "k - 1 < ?i" using kk(1) by linarith
      then show ?thesis using kk(3) by simp
    qed
    moreover have "\<not> is_whitespace (cs ! (j - 1))" if j: "k < j" "j \<le> length cs" "cells_of W (take j cs) \<le> unat width" for j
    proof -
      have "j \<le> ?i"
      proof (rule ccontr)
        assume "\<not> j \<le> ?i"
        then have "cells_of W (take (Suc ?i) cs) \<le> cells_of W (take j cs)" by (intro cells_of_take_mono) simp
        then show False using more [OF \<open>?i < length cs\<close>] j(3) by linarith
      qed
      moreover have "k \<le> j - 1" "j - 1 < j" using j(1) by linarith+
      ultimately have "j - 1 < length (take ?i cs)" "j - 1 < ?i" using j(2) by auto
      then show ?thesis using kk(4) [OF \<open>k \<le> j - 1\<close>] by simp
    qed
    ultimately show ?thesis using True over [OF that] unfolding b by (simp add: seg_ok_def)
  next
    case False
    then have b: "break_at W mode width cs = ?i"
      by (auto simp: break_at_def Let_def split: option.split)
    have "mode = WordWrap \<Longrightarrow> \<forall>c \<in> set (take ?i cs). \<not> is_whitespace c"
      using False after_last_ws_spec [of "take ?i cs"] by auto
    then show ?thesis unfolding b seg_ok_def using one more over by auto
  qed
  show "seg_ok W mode width cs (length cs)" if "?i \<ge> length cs"
  proof -
    have "length cs = ?i"
      using that fl cs by (cases cs) (auto simp: max_def split: if_splits)
    then show ?thesis using one by (auto simp: seg_ok_def)
  qed
qed

lemma wrap_loop_ok:
  "cells_fit W width cs \<Longrightarrow> tiles start (start + length cs) (wrap_loop W mode width start cs) \<and>
    (\<forall>(s, e) \<in> set (wrap_loop W mode width start cs). seg_ok W mode width (drop (s - start) cs) (e - s) \<and> start \<le> s)"
proof (induction W mode width start cs rule: wrap_loop.induct)
  case (1 W mode width start cs)
  consider (nil) "cs = []" | (all) "cs \<noteq> []" "max 1 (fit W width 0 cs) \<ge> length cs"
    | (more) "cs \<noteq> []" "\<not> max 1 (fit W width 0 cs) \<ge> length cs" by blast
  then show ?case
  proof cases
    case nil
    then show ?thesis by (subst (1 2) wrap_loop.simps) simp
  next
    case all
    then have "wrap_loop W mode width start cs = [(start, start + length cs)]"
      by (subst wrap_loop.simps) simp
    then show ?thesis using all fit_seg_ok(2) [OF 1(2), of mode] by simp
  next
    case more
    let ?b = "break_at W mode width cs"
    let ?rest = "wrap_loop W mode width (start + ?b) (drop ?b cs)"
    have eq: "wrap_loop W mode width start cs = (start, start + ?b) # ?rest"
      using more by (subst wrap_loop.simps) (simp add: Let_def)
    have b: "0 < ?b" by (rule break_at_pos [OF more(1)])
    have bl: "?b \<le> length cs"
      using more(2) after_last_ws_bounds [of "take (max 1 (fit W width 0 cs)) cs"]
      by (force simp: break_at_def Let_def split: option.split)
    have IH: "tiles (start + ?b) (start + ?b + length (drop ?b cs)) ?rest \<and>
        (\<forall>(s, e) \<in> set ?rest. seg_ok W mode width (drop (s - (start + ?b)) (drop ?b cs)) (e - s) \<and> start + ?b \<le> s)"
      using 1(1) [OF more refl cells_fit_drop [OF 1(2)]] .
    have shift: "drop (s - (start + ?b)) (drop ?b cs) = drop (s - start) cs" if "start + ?b \<le> s" for s
      using that by simp
    show ?thesis
      unfolding eq using IH b bl fit_seg_ok(1) [OF 1(2) more(1), of mode] more(2) shift by fastforce
  qed
qed

lemma wrap_loop_Nil_iff: "cs \<noteq> [] \<Longrightarrow> wrap_loop W mode width start cs \<noteq> []"
  by (subst wrap_loop.simps) (simp add: Let_def)

lemma wrap_segments_nonempty [simp]: "wrap_segments W line width mode \<noteq> []"
  by (simp add: wrap_segments_def Let_def)

section \<open>Columns and offsets\<close>

lemma col_walk_take:
  assumes "k \<le> length cs"
  shows "col_walk W (n + cells_of W (take k cs)) e i n cs = (if k = length cs then e else i + k)"
  using assms
proof (induction cs arbitrary: k i n)
  case (Cons c cs)
  show ?case
  proof (cases k)
    case 0
    then show ?thesis using char_cells_pos [of W c] by simp
  next
    case (Suc j)
    then have j: "j \<le> length cs" using Cons.prems by simp
    show ?thesis using Cons.IH [OF j, of "n + char_cells W c" "Suc i"] Suc by (simp add: add.assoc)
  qed
qed simp

text \<open>
  Inside a segment, the offset on the screen of a column leads back to the column,
  and offsets grow strictly with the column: moving the cursor between screen rows by its
  offset never lands beside the char it names.\<close>

lemma visual_offset_roundtrip:
  assumes "st \<le> col" and "col \<le> e" and "e \<le> length line"
  shows "char_col_for_visual_offset W line (st, e) (visual_offset_for_char_col W line st col) = col \<and>
    (col < e \<longrightarrow> visual_offset_for_char_col W line st col < visual_offset_for_char_col W line st (Suc col))"
proof -
  let ?cs = "take (e - st) (drop st line)"
  have off: "visual_offset_for_char_col W line st c = cells_of W (take (c - st) ?cs)" if "c \<le> e" for c
    using that by (simp add: visual_offset_for_char_col_def cells_of_def min_absorb1)
  have l: "length ?cs = e - st" using assms by simp
  have "char_col_for_visual_offset W line (st, e) (visual_offset_for_char_col W line st col) = col"
    using col_walk_take [of "col - st" ?cs W 0 e st] assms l off [OF assms(2)]
    by (auto simp: char_col_for_visual_offset_def simp del: take_take length_take)
  moreover have "visual_offset_for_char_col W line st col < visual_offset_for_char_col W line st (Suc col)"
    if "col < e"
  proof -
    have k: "col - st < length ?cs" using that assms l by simp
    then have "take (Suc (col - st)) ?cs = take (col - st) ?cs @ [?cs ! (col - st)]"
      by (rule take_Suc_conv_app_nth)
    moreover have "Suc col - st = Suc (col - st)" using assms(1) by simp
    ultimately show ?thesis
      using that off [of col] off [of "Suc col"] char_cells_pos [of W "?cs ! (col - st)"] by simp
  qed
  ultimately show ?thesis by blast
qed

text \<open>
  C17: soft wrap cuts a line into consecutive, non-empty segments that cover it.  A
  segment of more than one char fits the width (a single char may be wider than it), and what fits as a
  whole is not cut.  By chars, no segment but the last could take one more
  char; by words, a segment but the last ends behind the last whitespace up to which the line fits, or has
  none and could not take one more char.  The width plus the cells of any char is below \<open>2 ^ 16\<close>,
  so that the 16-bit sum of the cells does not wrap around.\<close>

theorem wrap_segments_laws:
  assumes "mode \<noteq> NoWrap" and "width \<noteq> 0" and "line \<noteq> []" and f: "cells_fit W width line"
  shows "tiles 0 (length line) (wrap_segments W line width mode) \<and>
    (\<forall>(s, e) \<in> set (wrap_segments W line width mode). seg_ok W mode width (drop s line) (e - s))"
proof -
  have "wrap_segments W line width mode = wrap_loop W mode width 0 line"
    using assms(1-3) wrap_loop_Nil_iff [OF assms(3)] by (simp add: wrap_segments_def Let_def)
  then show ?thesis using wrap_loop_ok [OF f, where start = 0] by auto
qed

text \<open>The line \<open>a bc\<close> at width 2 by words.\<close>

theorem wrap_segments_laws_witness:
  "tiles 0 4 (wrap_segments (\<lambda>c. Some 1) [97, 32, 98, 99] 2 WordWrap) \<and>
   wrap_segments (\<lambda>c. Some 1) [97, 32, 98, 99] 2 WordWrap = [(0, 2), (2, 4)]"
proof -
  have w: "cells_fit (\<lambda>c. Some 1) (2 :: u16) [97, 32, 98, 99]"
    by (simp add: cells_fit_def char_cells_def)
  have "wrap_segments (\<lambda>c. Some 1) [97, 32, 98, 99] 2 WordWrap = [(0, 2), (2, 4)]"
    by (simp add: wrap_segments_def wrap_loop.simps break_at_def char_cells_def is_whitespace_def Let_def)
  then show ?thesis
    using wrap_segments_laws [OF _ _ _ w, of WordWrap] by (simp add: numeral_eq_Suc)
qed

end
