(* ===== verification/CursorVisible.thy ===== *)
theory CursorVisible
  imports ScreenLaws
begin

text \<open>
  Bringing the cursor into the viewport: the screen rows above a row, what the walks of
  \<open>hjkl-buffer/src/buffer.rs\<close> and \<open>hjkl-engine/src/viewport_math.rs\<close> compute in terms of
  them, and the smallest scroll that shows the cursor.
\<close>

section \<open>Heights\<close>

definition row_segs :: "'r text_ops \<Rightarrow> (rchar \<Rightarrow> nat option) \<Rightarrow> 'r screen \<Rightarrow> nat \<Rightarrow> nat" where
  "row_segs R W s r = length (the (wrapped_rows R W s r))"

text \<open>The screen rows of the rows of a list, and of the visible rows from \<open>a\<close> to before \<open>b\<close>.\<close>

definition seg_sum :: "'r text_ops \<Rightarrow> (rchar \<Rightarrow> nat option) \<Rightarrow> (nat \<Rightarrow> bool) \<Rightarrow> 'r screen \<Rightarrow> nat list \<Rightarrow> nat" where
  "seg_sum R W hid s rs = sum_list (map (row_segs R W s) (filter (\<lambda>r. \<not> hid r) rs))"

abbreviation rows_above :: "'r text_ops \<Rightarrow> (rchar \<Rightarrow> nat option) \<Rightarrow> (nat \<Rightarrow> bool) \<Rightarrow> 'r screen \<Rightarrow> nat \<Rightarrow> nat \<Rightarrow> nat" where
  "rows_above R W hid s a b \<equiv> seg_sum R W hid s [a ..< b]"

lemma seg_sum_simps [simp]:
  "seg_sum R W hid s [] = 0"
  "seg_sum R W hid s (r # rs) = (if hid r then 0 else row_segs R W s r) + seg_sum R W hid s rs"
  "seg_sum R W hid s (rs @ ts) = seg_sum R W hid s rs + seg_sum R W hid s ts"
  by (simp_all add: seg_sum_def)

lemma rows_above_split: "a \<le> b \<Longrightarrow> b \<le> c \<Longrightarrow>
  rows_above R W hid s a c = rows_above R W hid s a b + rows_above R W hid s b c"
  by (metis upt_add_eq_append le_add_diff_inverse seg_sum_simps(3))

lemma rows_above_step: "a < c \<Longrightarrow>
  rows_above R W hid s a c = (if hid a then 0 else row_segs R W s a) + rows_above R W hid s (Suc a) c"
  by (simp add: upt_conv_Cons)

lemma seg_sum_hidden: "\<forall>r \<in> set rs. hid r \<Longrightarrow> seg_sum R W hid s rs = 0"
  by (induction rs) simp_all

section \<open>The rows of a well-formed text\<close>

definition screen_lines :: "'r text_ops \<Rightarrow> 'r screen \<Rightarrow> nat" where
  "screen_lines R s = nlines (rp_text R (sc_rope s))"

lemma screen_lines_pos [simp]: "0 < screen_lines R s"
  by (simp add: screen_lines_def)

lemma len_lines_screen: "text_laws R \<Longrightarrow> rp_len_lines R (sc_rope s) = screen_lines R s"
  by (simp add: screen_lines_def text_len_lines)

lemma wrapped_rows_total:
  assumes "text_laws R" and "r < screen_lines R s"
  shows "\<exists>segs. wrapped_rows R W s r = Some segs \<and> segs \<noteq> []"
  using assms by (simp add: wrapped_rows_def screen_lines_def rope_line_str_text)

lemma row_segs_pos: "text_laws R \<Longrightarrow> r < screen_lines R s \<Longrightarrow> 0 < row_segs R W s r"
  using wrapped_rows_total [of R r s W] by (auto simp: row_segs_def)

lemma wrapped_rows_some:
  assumes "text_laws R" and "r < screen_lines R s"
  obtains segs where "wrapped_rows R W s r = Some segs" "row_segs R W s r = length segs"
  using wrapped_rows_total [OF assms, of W] by (auto simp: row_segs_def)

definition cursor_seg :: "'r text_ops \<Rightarrow> (rchar \<Rightarrow> nat option) \<Rightarrow> 'r screen \<Rightarrow> nat \<Rightarrow> nat" where
  "cursor_seg R W s r = segment_for_col (the (wrapped_rows R W s r)) (p_col (sc_cursor s))"

lemma segment_for_col_lt: "segs \<noteq> [] \<Longrightarrow> segment_for_col segs col < length segs"
  by (auto simp: segment_for_col_def dest: position_Some split: option.split)

section \<open>The walks\<close>

lemma screen_walk_rows:
  assumes R: "text_laws R" and "\<forall>r \<in> set rs. r < screen_lines R s" and "c \<notin> set rs" and "c < screen_lines R s"
  shows "screen_walk R W hid s c (rs @ [c]) n =
    Some (if hid c then None else Some (n + seg_sum R W hid s rs + cursor_seg R W s c))"
  using assms(2,3)
proof (induction rs arbitrary: n)
  case Nil
  obtain segs where "wrapped_rows R W s c = Some segs" by (rule wrapped_rows_some [OF R assms(4)])
  then show ?case by (simp add: cursor_seg_def)
next
  case (Cons r rs)
  obtain segs where "wrapped_rows R W s r = Some segs" "row_segs R W s r = length segs"
    by (rule wrapped_rows_some [OF R]) (use Cons.prems in auto)
  then show ?case using Cons by (simp add: add.assoc)
qed

definition clamped_row :: "'r text_ops \<Rightarrow> 'r screen \<Rightarrow> nat" where
  "clamped_row R s = min (p_row (sc_cursor s)) (screen_lines R s - 1)"

lemma clamped_row_lt [simp]: "clamped_row R s < screen_lines R s"
  using screen_lines_pos [of R s] unfolding clamped_row_def by linarith

lemma clamped_row_valid: "p_row (sc_cursor s) < screen_lines R s \<Longrightarrow> clamped_row R s = p_row (sc_cursor s)"
  by (simp add: clamped_row_def)

lemma screen_row_from_rows:
  assumes R: "text_laws R"
  shows "screen_row_from R W hid s tp = Some
    (if clamped_row R s < tp \<or> hid (clamped_row R s) then None
     else Some (rows_above R W hid s tp (clamped_row R s) + cursor_seg R W s (clamped_row R s)))"
proof (cases "clamped_row R s < tp")
  case True
  then show ?thesis by (simp add: screen_row_from_def Let_def len_lines_screen [OF R] clamped_row_def)
next
  case False
  let ?c = "clamped_row R s"
  have c: "min (p_row (sc_cursor s)) (rp_len_lines R (sc_rope s) - 1) = ?c"
    by (simp add: clamped_row_def len_lines_screen [OF R])
  have "screen_row_from R W hid s tp = screen_walk R W hid s ?c ([tp ..< ?c] @ [?c]) 0"
    unfolding screen_row_from_def Let_def c using False by simp
  also have "\<dots> = Some (if hid ?c then None else Some (0 + rows_above R W hid s tp ?c + cursor_seg R W s ?c))"
    by (rule screen_walk_rows [OF R]) (auto intro: less_trans [OF _ clamped_row_lt])
  finally show ?thesis using False by simp
qed

lemma sub_rows_rows:
  assumes R: "text_laws R" and "\<forall>r \<in> set rs. r < screen_lines R s"
  shows "sub_rows R W hid s rs n =
    (if seg_sum R W hid s rs \<le> n then Some (n - seg_sum R W hid s rs) else None)"
  using assms(2)
proof (induction rs arbitrary: n)
  case (Cons r rs)
  obtain segs where "wrapped_rows R W s r = Some segs" "row_segs R W s r = length segs"
    by (rule wrapped_rows_some [OF R]) (use Cons.prems in auto)
  then show ?case using Cons by auto
qed simp

lemma skip_hidden_spec:
  assumes "r \<le> c" and "\<not> hid c"
  shows "r \<le> skip_hidden hid c r \<and> skip_hidden hid c r \<le> c \<and> \<not> hid (skip_hidden hid c r) \<and>
    (\<forall>i. r \<le> i \<and> i < skip_hidden hid c r \<longrightarrow> hid i)"
  using assms
proof (induction hid c r rule: skip_hidden.induct)
  case (1 hid c r)
  show ?case
  proof (cases "hid r")
    case True
    then have "r < c" using 1 by (metis le_neq_implies_less)
    then show ?thesis using 1 True
      by (subst (1 2 3 4) skip_hidden.simps) (auto, metis Suc_leI le_neq_implies_less)
  next
    case False
    then show ?thesis using 1 by (subst (1 2 3 4) skip_hidden.simps) auto
  qed
qed

lemma rows_above_hidden:
  assumes "a \<le> b" and "b \<le> c" and "\<forall>i. a \<le> i \<and> i < b \<longrightarrow> hid i"
  shows "rows_above R W hid s a c = rows_above R W hid s b c"
  using rows_above_split [OF assms(1,2), of R W hid s] seg_sum_hidden [of "[a ..< b]" hid R W s] assms(3) by simp

text \<open>The loop that drops rows from the top stops at the first row from which the cursor's
  screen row is below \<open>height\<close>, at the latest at the cursor's own row.\<close>

lemma drop_loop_rows:
  assumes R: "text_laws R" and c: "c < screen_lines R s" "\<not> hid c"
  shows "tp \<le> c \<Longrightarrow> n = rows_above R W hid s tp c + g \<Longrightarrow>
    \<exists>t. drop_loop R W hid s height c tp n = Some t \<and> tp \<le> t \<and> t \<le> c \<and>
      (t = tp \<or> \<not> hid t) \<and> (t = c \<or> rows_above R W hid s t c + g < height) \<and>
      (\<forall>i. tp \<le> i \<and> i < t \<and> (i = tp \<or> \<not> hid i) \<longrightarrow> height \<le> rows_above R W hid s i c + g)"
proof (induction "c - tp" arbitrary: tp n rule: less_induct)
  case less
  let ?nx = "skip_hidden hid c (Suc tp)"
  consider (fits) "n < height" | (at) "height \<le> n" "tp = c" | (drop) "height \<le> n" "tp < c"
    using less.prems(1) by linarith
  then show ?case
  proof cases
    case fits
    then show ?thesis using less.prems by (subst drop_loop.simps) auto
  next
    case at
    have "c < ?nx" using skip_hidden_ge [of "Suc tp" hid c] at by simp
    then show ?thesis using at by (subst drop_loop.simps) auto
  next
    case drop
    then have nx: "Suc tp \<le> ?nx" "?nx \<le> c" "\<not> hid ?nx" "\<And>i. Suc tp \<le> i \<Longrightarrow> i < ?nx \<Longrightarrow> hid i"
      using skip_hidden_spec [of "Suc tp" c hid] c(2) by auto
    have rows: "\<forall>r \<in> set [tp ..< ?nx]. r < screen_lines R s" using nx(2) c(1) by auto
    have n: "n = rows_above R W hid s tp ?nx + (rows_above R W hid s ?nx c + g)"
      using less.prems(2) rows_above_split [of tp ?nx c R W hid s] nx by simp
    then have "drop_loop R W hid s height c tp n =
        drop_loop R W hid s height c ?nx (rows_above R W hid s ?nx c + g)"
      using drop nx(2) sub_rows_rows [OF R rows, of W hid n] by (subst drop_loop.simps) simp
    moreover have "c - ?nx < c - tp" using nx(1) drop(2) by linarith
    from less.hyps [OF this nx(2) refl] obtain t where
      t: "drop_loop R W hid s height c ?nx (rows_above R W hid s ?nx c + g) = Some t"
      "?nx \<le> t" "t \<le> c" "t = ?nx \<or> \<not> hid t" "t = c \<or> rows_above R W hid s t c + g < height"
      "\<forall>i. ?nx \<le> i \<and> i < t \<and> (i = ?nx \<or> \<not> hid i) \<longrightarrow> height \<le> rows_above R W hid s i c + g"
      by blast
    moreover have "height \<le> rows_above R W hid s i c + g"
      if i: "tp \<le> i" "i < t" "i = tp \<or> \<not> hid i" for i
    proof (cases "i = tp")
      case True
      then show ?thesis using drop(1) less.prems(2) by simp
    next
      case False
      then have "?nx \<le> i" using i nx(4) [of i] by force
      then show ?thesis using t(6) i False by simp
    qed
    ultimately show ?thesis using nx(1,3) by (intro exI [of _ t]) auto
  qed
qed

section \<open>The smallest scroll that shows the cursor\<close>

text \<open>What the walks read of a screen does not depend on its top row and column.\<close>

definition same_text :: "'r screen \<Rightarrow> 'r screen \<Rightarrow> bool" where
  "same_text s t \<longleftrightarrow> sc_rope s = sc_rope t \<and> sc_folds s = sc_folds t \<and> sc_cursor s = sc_cursor t \<and>
     text_width (sc_vp s) = text_width (sc_vp t) \<and> vp_wrap (sc_vp s) = vp_wrap (sc_vp t)"

lemma same_text_rows:
  assumes "same_text s t"
  shows "screen_lines R s = screen_lines R t" "clamped_row R s = clamped_row R t"
    "seg_sum R W hid s rs = seg_sum R W hid t rs" "cursor_seg R W s r = cursor_seg R W t r"
    "row_hidden s = row_hidden t"
proof -
  have w: "wrapped_rows R W s = wrapped_rows R W t"
    using assms by (auto simp: same_text_def wrapped_rows_def)
  then have "row_segs R W s = row_segs R W t" by (auto simp: row_segs_def)
  then show "seg_sum R W hid s rs = seg_sum R W hid t rs" by (simp add: seg_sum_def)
  show "cursor_seg R W s r = cursor_seg R W t r" using assms w by (simp add: cursor_seg_def same_text_def)
  show l: "screen_lines R s = screen_lines R t" using assms by (simp add: screen_lines_def same_text_def)
  show "clamped_row R s = clamped_row R t" using assms l by (simp add: clamped_row_def same_text_def)
  show "row_hidden s = row_hidden t" using assms by (auto simp: row_hidden_def same_text_def)
qed

text \<open>The screen row of the cursor counted from row \<open>t\<close>.\<close>

definition screen_of :: "'r text_ops \<Rightarrow> (rchar \<Rightarrow> nat option) \<Rightarrow> (nat \<Rightarrow> bool) \<Rightarrow> 'r screen \<Rightarrow> nat \<Rightarrow> nat" where
  "screen_of R W hid s t = rows_above R W hid s t (p_row (sc_cursor s)) + cursor_seg R W s (p_row (sc_cursor s))"

lemma screen_row_valid:
  assumes R: "text_laws R" and "p_row (sc_cursor s) < screen_lines R s" and "\<not> hid (p_row (sc_cursor s))"
    and "t \<le> p_row (sc_cursor s)"
  shows "screen_row_from R W hid s t = Some (Some (screen_of R W hid s t))"
  using assms by (simp add: screen_row_from_rows [OF R] clamped_row_valid screen_of_def)

lemma drop_loop_screen:
  assumes R: "text_laws R" and c: "p_row (sc_cursor s) < screen_lines R s" "\<not> hid (p_row (sc_cursor s))"
    and tp: "tp \<le> p_row (sc_cursor s)"
  obtains t where "drop_loop R W hid s height (p_row (sc_cursor s)) tp (screen_of R W hid s tp) = Some t"
    and "tp \<le> t" and "t \<le> p_row (sc_cursor s)"
    and "t = p_row (sc_cursor s) \<or> screen_of R W hid s t < height"
    and "\<forall>i. tp \<le> i \<and> i < t \<and> (i = tp \<or> \<not> hid i) \<longrightarrow> height \<le> screen_of R W hid s i"
  using drop_loop_rows [where hid = hid and tp = tp and height = height, OF R c tp screen_of_def] that
  by (auto simp: screen_of_def)

lemma drop_loop_clamped:
  assumes R: "text_laws R" and hid: "\<not> hid (clamped_row R s)" and tp: "tp \<le> clamped_row R s"
  shows "\<exists>t. drop_loop R W hid s height (clamped_row R s) tp
    (rows_above R W hid s tp (clamped_row R s) + cursor_seg R W s (clamped_row R s)) = Some t"
  using drop_loop_rows [where c = "clamped_row R s" and tp = tp and s = s and hid = hid, OF R clamped_row_lt hid tp] by blast

text \<open>
  C14: under soft wrap \<open>ensure_cursor_visible\<close> returns for every cursor, also a stale one
  past the end or one in a fold: no subtraction of screen rows runs below zero and the loop
  ends.  For a cursor on a visible row of the text the cursor ends up inside the viewport, or
  its row is the top row; and the scroll is the smallest one.  A cursor above the viewport makes its own
  row the top row, otherwise the viewport does not scroll up, and from every visible row passed
  over the cursor is below the viewport: a cursor in view leaves the top row alone.  Nothing else of the
  viewport changes, except that its left column is 0.\<close>

theorem ensure_cursor_visible_smallest:
  assumes R: "text_laws R" and wrap: "vp_wrap (sc_vp s) \<noteq> NoWrap" "text_width (sc_vp s) \<noteq> 0"
    and height: "vp_height (sc_vp s) \<noteq> 0"
  shows "\<exists>v. ensure_cursor_visible R W s = Some v \<and> v = (sc_vp s)\<lparr>top_row := top_row v, top_col := 0\<rparr> \<and>
    (p_row (sc_cursor s) < screen_lines R s \<and> \<not> row_hidden s (p_row (sc_cursor s)) \<longrightarrow>
       (if p_row (sc_cursor s) < top_row (sc_vp s) then top_row v = p_row (sc_cursor s)
        else top_row (sc_vp s) \<le> top_row v \<and> top_row v \<le> p_row (sc_cursor s)) \<and>
       (\<exists>n. cursor_screen_row R W (s\<lparr>sc_vp := v\<rparr>) = Some (Some n) \<and>
          (n < unat (vp_height v) \<or> top_row v = p_row (sc_cursor s))) \<and>
       (\<forall>t. top_row (sc_vp s) \<le> t \<and> t < top_row v \<and> (t = top_row (sc_vp s) \<or> \<not> row_hidden s t) \<longrightarrow>
          (\<exists>n. cursor_screen_row_from R W s t = Some (Some n) \<and> unat (vp_height v) \<le> n)))"
proof -
  let ?c = "p_row (sc_cursor s)" and ?hid = "row_hidden s" and ?tp = "top_row (sc_vp s)"
    and ?h = "unat (vp_height (sc_vp s))"
  let ?v = "\<lambda>t. (sc_vp s)\<lparr>top_row := t, top_col := 0\<rparr>"
  have row: "cursor_screen_row R W (s\<lparr>sc_vp := ?v t\<rparr>) = Some (Some (screen_of R W ?hid s t))"
    if "?c < screen_lines R s" "\<not> ?hid ?c" "t \<le> ?c" for t
  proof -
    have same: "same_text (s\<lparr>sc_vp := ?v t\<rparr>) s" by (simp add: same_text_def)
    note st = same_text_rows [OF same]
    show ?thesis
      using that wrap screen_row_valid [OF R, of "s\<lparr>sc_vp := ?v t\<rparr>" ?hid t W]
      by (simp add: cursor_screen_row_def cursor_screen_row_from_def st screen_of_def)
  qed
  consider (above) "?c < ?tp"
    | (hidden) "\<not> ?c < ?tp" "clamped_row R s < ?tp \<or> ?hid (clamped_row R s)"
    | (below) "\<not> ?c < ?tp" "\<not> clamped_row R s < ?tp" "\<not> ?hid (clamped_row R s)" by blast
  then show ?thesis
  proof cases
    case above
    then have "ensure_cursor_visible R W s = Some (?v ?c)"
      using wrap height by (simp add: ensure_cursor_visible_def)
    then show ?thesis using above row [of ?c] by auto
  next
    case hidden
    then have "ensure_cursor_visible R W s = Some (?v (clamped_row R s))"
      using wrap height by (simp add: ensure_cursor_visible_def cursor_screen_row_from_def
          screen_row_from_rows [OF R] len_lines_screen [OF R] clamped_row_def)
    then show ?thesis using hidden by (auto simp: clamped_row_valid)
  next
    case below
    let ?n = "rows_above R W ?hid s ?tp (clamped_row R s) + cursor_seg R W s (clamped_row R s)"
    obtain t0 where t0: "drop_loop R W ?hid s ?h (clamped_row R s) ?tp ?n = Some t0"
      using drop_loop_clamped [where hid = ?hid and tp = ?tp and W = W and height = ?h, OF R below(3)] below(2) by auto
    have "cursor_screen_row_from R W s ?tp = Some (Some ?n)"
      using below by (simp add: cursor_screen_row_from_def screen_row_from_rows [OF R])
    moreover have "min ?c (rp_len_lines R (sc_rope s) - 1) = clamped_row R s"
      by (simp add: clamped_row_def len_lines_screen [OF R])
    ultimately have e: "ensure_cursor_visible R W s = Some (?v t0)"
      using wrap height below(1) t0 by (simp add: ensure_cursor_visible_def Let_def)
    have "?tp \<le> t0 \<and> t0 \<le> ?c \<and>
       (\<exists>n. cursor_screen_row R W (s\<lparr>sc_vp := ?v t0\<rparr>) = Some (Some n) \<and> (n < ?h \<or> t0 = ?c)) \<and>
       (\<forall>t. ?tp \<le> t \<and> t < t0 \<and> (t = ?tp \<or> \<not> ?hid t) \<longrightarrow>
          (\<exists>n. cursor_screen_row_from R W s t = Some (Some n) \<and> ?h \<le> n))"
      if c: "?c < screen_lines R s" "\<not> ?hid ?c"
    proof -
      have cl: "clamped_row R s = ?c" by (rule clamped_row_valid [OF c(1)])
      obtain t where t: "drop_loop R W ?hid s ?h ?c ?tp (screen_of R W ?hid s ?tp) = Some t"
        "t \<le> ?c" "?tp \<le> t" "t = ?c \<or> screen_of R W ?hid s t < ?h"
        "\<forall>i. ?tp \<le> i \<and> i < t \<and> (i = ?tp \<or> \<not> ?hid i) \<longrightarrow> ?h \<le> screen_of R W ?hid s i"
        using drop_loop_screen [where hid = ?hid and s = s and tp = ?tp and W = W and height = ?h, OF R c] below(1) by auto
      have "t = t0" using t(1) t0 cl by (simp add: screen_of_def)
      moreover have "cursor_screen_row_from R W s i = Some (Some (screen_of R W ?hid s i))" if "i \<le> ?c" for i
        using that screen_row_valid [where hid = ?hid and s = s and t = i and W = W, OF R c] by (simp add: cursor_screen_row_from_def)
      ultimately show ?thesis using row [OF c t(2)] t(2-5) by auto
    qed
    then show ?thesis using e below(1) by simp
  qed
qed

definition demo_screen :: "rstring screen" where
  "demo_screen = \<lparr>sc_rope = [97, 98, 99, 10, 100], sc_folds = [], sc_cursor = Position 1 0,
     sc_vp = \<lparr>top_row = 0, top_col = 0, vp_width = 2, vp_height = 1, vp_wrap = CharWrap, text_width = 2, tab_width = 4\<rparr>\<rparr>"

lemma demo_screen_valid: "p_row (sc_cursor demo_screen) < screen_lines flat_lines demo_screen"
  by (simp add: demo_screen_def screen_lines_def nlines_breaks flat_lines_def rope_ops.defs flat_rope_def flat_text_def
      to_scalar_def scalar_ok_def is_break_def)

lemma no_folds_visible: "sc_folds s = [] \<Longrightarrow> \<not> row_hidden s r"
  by (simp add: row_hidden_def hides_row_def fold_index_new_def partition_point_def)

text \<open>A viewport of one screen row above two text rows, the first of two screen rows.\<close>

theorem ensure_cursor_visible_smallest_witness:
  "\<exists>v. ensure_cursor_visible flat_lines (\<lambda>c. Some 1) demo_screen = Some v \<and> top_row v \<le> 1"
  using ensure_cursor_visible_smallest [OF flat_lines_laws, of demo_screen "\<lambda>c. Some 1"] demo_screen_valid
    no_folds_visible [of demo_screen 1]
  by (auto simp: demo_screen_def)

text \<open>
  The engine's copy of the loop agrees with the buffer's for a cursor on a visible row
  of the text, with the fold index of the buffer as its provider.\<close>

lemma engine_copy_agrees:
  assumes R: "text_laws R" and c: "p_row (sc_cursor s) < screen_lines R s" "\<not> row_hidden s (p_row (sc_cursor s))"
  shows "eng_ensure_cursor_visible R W (row_hidden s) s = ensure_cursor_visible R W s"
proof (cases "p_row (sc_cursor s) < top_row (sc_vp s)")
  case True
  then show ?thesis by (simp add: eng_ensure_cursor_visible_def ensure_cursor_visible_def Let_def)
next
  case False
  then have "screen_row_from R W (row_hidden s) s (top_row (sc_vp s)) =
      Some (Some (screen_of R W (row_hidden s) s (top_row (sc_vp s))))"
    using screen_row_valid [where hid = "row_hidden s" and s = s, OF R c] by simp
  moreover have "min (p_row (sc_cursor s)) (rp_len_lines R (sc_rope s) - 1) = p_row (sc_cursor s)"
    using c(1) by (simp add: len_lines_screen [OF R])
  ultimately show ?thesis
    using False by (simp add: eng_ensure_cursor_visible_def ensure_cursor_visible_def cursor_screen_row_from_def Let_def)
qed

end
