(* ===== verification/ScrollLaws.thy ===== *)
theory ScrollLaws
  imports CursorVisible
begin

text \<open>
  The scrolling of the editor keeps its margins: without wrap and folds the cursor is in the
  band or the viewport is at an edge of the buffer; under soft wrap the upper margin is kept,
  the cursor is on the screen up to the height of the top row, and every loop ends.
\<close>

section \<open>The scroll state\<close>

lemma the_screen_simps [simp]:
  "sc_rope (screen.truncate s) = sc_rope s"
  "sc_folds (screen.truncate s) = sc_folds s"
  "sc_cursor (screen.truncate s) = sc_cursor s"
  "sc_vp (screen.truncate s) = sc_vp s"
  "screen.truncate (s\<lparr>sc_vp := v\<rparr>) = (screen.truncate s)\<lparr>sc_vp := v\<rparr>"
  by (simp_all add: screen.truncate_def)

lemma fold_view_of_vp [simp]: "fold_view_of R (s\<lparr>sc_vp := v\<rparr>) = fold_view_of R s"
  by (simp add: fold_view_of_def)

lemma provider_hidden_vp [simp]: "provider_hidden R (s\<lparr>sc_vp := v\<rparr>) = provider_hidden R s"
  by (simp add: provider_hidden_def [abs_def])

abbreviation editor_lines :: "'r text_ops \<Rightarrow> 'r scroll_ed \<Rightarrow> nat" where
  "editor_lines R s \<equiv> screen_lines R (the_screen s)"

abbreviation cursor_row_of :: "('r, 'x) screen_scheme \<Rightarrow> nat" where
  "cursor_row_of s \<equiv> p_row (sc_cursor s)"

text \<open>The margin the editor keeps, capped on small windows.\<close>

definition scroll_margin :: "'r scroll_ed \<Rightarrow> nat" where
  "scroll_margin s = min (sc_scrolloff s) ((unat (sc_height s) - 1) div 2)"

lemma scroll_margin_le: "scroll_margin s \<le> (unat (sc_height s) - 1) - scroll_margin s"
  unfolding scroll_margin_def by linarith

section \<open>Without wrap and folds\<close>

lemma ensure_visible_row:
  assumes "vp_height v \<noteq> 0" and "vp_width v \<noteq> 0" and "top_row v \<le> p_row pos" and "p_row pos < top_row v + unat (vp_height v)"
  shows "top_row (ensure_visible pos v) = top_row v \<and> vp_height (ensure_visible pos v) = vp_height v \<and>
    vp_width (ensure_visible pos v) = vp_width v \<and>
    top_col (ensure_visible pos v) \<le> p_col pos \<and> p_col pos < top_col (ensure_visible pos v) + unat (vp_width v)"
proof -
  have "0 < unat (vp_width v)" using assms(2) by (simp add: unat_gt_0)
  then show ?thesis using assms by (auto simp: ensure_visible_def Let_def)
qed

text \<open>The three clamps of the top row.\<close>

definition band_top :: "nat \<Rightarrow> nat \<Rightarrow> nat \<Rightarrow> nat \<Rightarrow> nat \<Rightarrow> nat" where
  "band_top h m lines c tp = (
     let tp = (if c < tp + m then c - m else tp);
         tp = (if c > tp + (h - 1 - m) then c - (h - 1 - m) else tp)
     in min tp (lines - 1 - (h - 1)))"

lemma band_top_spec:
  assumes "0 < h" and "m \<le> h - 1 - m" and "c < lines"
  shows "band_top h m lines c tp \<le> c \<and> c < band_top h m lines c tp + h \<and>
    band_top h m lines c tp \<le> lines - h \<and>
    (band_top h m lines c tp + m \<le> c \<or> band_top h m lines c tp = 0) \<and>
    (c + m < band_top h m lines c tp + h \<or> band_top h m lines c tp = lines - h) \<and>
    (tp + m \<le> c \<and> c + m < tp + h \<and> tp \<le> lines - h \<longrightarrow> band_top h m lines c tp = tp)"
proof -
  define t1 where "t1 = (if c < tp + m then c - m else tp)"
  define t2 where "t2 = (if c > t1 + (h - 1 - m) then c - (h - 1 - m) else t1)"
  have b: "band_top h m lines c tp = min t2 (lines - h)"
    using assms(1) by (simp add: band_top_def Let_def t1_def t2_def)
  have t1: "t1 \<le> c \<and> (t1 + m \<le> c \<or> t1 = 0) \<and> (tp + m \<le> c \<longrightarrow> t1 = tp)"
    by (auto simp: t1_def)
  have t2: "t2 \<le> c" "t2 + m \<le> c \<or> t2 = 0" "c + m < t2 + h" "tp + m \<le> c \<and> c + m < tp + h \<longrightarrow> t2 = tp"
  proof -
    show "t2 \<le> c" using t1 by (simp add: t2_def)
    show "t2 + m \<le> c \<or> t2 = 0" using t1 assms(2) by (auto simp: t2_def)
    show "c + m < t2 + h" using t1 assms(1,2) unfolding t2_def by (cases "c > t1 + (h - 1 - m)") simp_all
    show "tp + m \<le> c \<and> c + m < tp + h \<longrightarrow> t2 = tp" using t1 by (auto simp: t2_def)
  qed
  show ?thesis
  proof (cases "t2 \<le> lines - h")
    case True
    then show ?thesis using b t2 by (simp add: min_def)
  next
    case False
    then have "band_top h m lines c tp = lines - h" using b by simp
    then show ?thesis using False t2 assms(3) by auto
  qed
qed

lemma set_top_simps [simp]:
  "set_top (top_row (sc_vp s)) s = s"
  "set_top t (set_top u s) = set_top t s"
  "top_row (sc_vp (set_top t s)) = t"
  "sc_cursor (set_top t s) = sc_cursor s"
  by (simp_all add: set_top_def)

lemma set_top_if: "(if C then set_top t s else s) = set_top (if C then t else top_row (sc_vp s)) s"
  by simp

lemma clamp_if: "(if t > m then m else t) = min t (m :: nat)"
  by simp

lemma nowrap_scrolloff:
  assumes R: "text_laws R" and "vp_wrap (sc_vp s) = NoWrap" and "sc_folds s = []" and "sc_height s \<noteq> 0"
  shows "ensure_cursor_in_scrolloff R W s = Some (s\<lparr>sc_vp := ensure_visible (sc_cursor s)
    ((sc_vp s)\<lparr>top_row := band_top (unat (sc_height s)) (scroll_margin s) (editor_lines R s) (cursor_row_of s) (top_row (sc_vp s))\<rparr>)\<rparr>)"
proof -
  define t where "t = band_top (unat (sc_height s)) (scroll_margin s) (editor_lines R s) (cursor_row_of s) (top_row (sc_vp s))"
  have h: "unat (sc_height s) \<noteq> 0" using assms(4) by (simp add: unat_eq_0)
  have f: "\<not> has_folds (fold_view_of R s)" using assms(3) by (simp add: has_folds_def fold_view_of_def)
  have l: "rp_len_lines R (sc_rope s) = editor_lines R s" using len_lines_screen [OF R, of "the_screen s"] by simp
  have "ensure_cursor_in_scrolloff R W s =
      Some ((set_top t s)\<lparr>sc_vp := ensure_visible (sc_cursor s) (sc_vp (set_top t s))\<rparr>)"
    unfolding ensure_cursor_in_scrolloff_def Let_def l scroll_margin_def [symmetric] set_top_if set_top_simps
      clamp_if t_def band_top_def
    using h f assms(2) by simp
  then show ?thesis by (simp add: set_top_def flip: t_def)
qed

text \<open>
  Without wrap and folds a scroll leaves the cursor on the screen in both directions,
  the viewport inside the buffer, the cursor \<open>scrolloff\<close> rows (capped on small windows) from
  the upper and lower edge unless the viewport is at that end of the buffer, and it does not
  move a viewport that satisfies this already.\<close>

lemma scrolloff_band:
  assumes "text_laws R" and "vp_wrap (sc_vp s) = NoWrap" and "sc_folds s = []"
    and "sc_height s \<noteq> 0" and "vp_height (sc_vp s) = sc_height s" and "vp_width (sc_vp s) \<noteq> 0"
    and "cursor_row_of s < editor_lines R s"
  shows "\<exists>v. ensure_cursor_in_scrolloff R W s = Some (s\<lparr>sc_vp := v\<rparr>) \<and>
    vp_contains v (sc_cursor s) \<and>
    top_row v \<le> editor_lines R s - unat (sc_height s) \<and>
    (top_row v + scroll_margin s \<le> cursor_row_of s \<or> top_row v = 0) \<and>
    (cursor_row_of s + scroll_margin s \<le> bottom_row v \<or> top_row v = editor_lines R s - unat (sc_height s)) \<and>
    (top_row (sc_vp s) + scroll_margin s \<le> cursor_row_of s \<and>
     cursor_row_of s + scroll_margin s \<le> bottom_row (sc_vp s) \<and>
     top_row (sc_vp s) \<le> editor_lines R s - unat (sc_height s) \<longrightarrow> top_row v = top_row (sc_vp s))"
proof -
  define h where "h = unat (sc_height s)"
  define t where "t = band_top h (scroll_margin s) (editor_lines R s) (cursor_row_of s) (top_row (sc_vp s))"
  define v where "v = ensure_visible (sc_cursor s) ((sc_vp s)\<lparr>top_row := t\<rparr>)"
  have h: "0 < h" using assms(4) by (simp add: unat_gt_0 h_def)
  have w: "0 < unat (vp_width (sc_vp s))" using assms(6) by (simp add: unat_gt_0)
  note t = band_top_spec [OF h, of "scroll_margin s" "cursor_row_of s" "editor_lines R s" "top_row (sc_vp s)", folded t_def]
  have m: "scroll_margin s \<le> h - 1 - scroll_margin s" using scroll_margin_le by (simp add: h_def)
  have v: "top_row v = t" "vp_height v = sc_height s" "vp_width v = vp_width (sc_vp s)"
    "top_col v \<le> p_col (sc_cursor s)" "p_col (sc_cursor s) < top_col v + unat (vp_width (sc_vp s))"
    using ensure_visible_row [of "(sc_vp s)\<lparr>top_row := t\<rparr>" "sc_cursor s"] t [OF m assms(7)] assms(4-6)
    by (simp_all add: v_def h_def)
  have b: "bottom_row v = t + (h - 1)" "bottom_row (sc_vp s) = top_row (sc_vp s) + (h - 1)"
    using v(1,2) h assms(5) unfolding h_def by (auto simp: bottom_row_def max_def)
  have "vp_contains v (sc_cursor s)"
  proof -
    have "cursor_row_of s \<le> t + (h - 1)" using t [OF m assms(7)] h by linarith
    then show ?thesis using v b t [OF m assms(7)] w by (simp add: vp_contains_def max_def)
  qed
  moreover have "ensure_cursor_in_scrolloff R W s = Some (s\<lparr>sc_vp := v\<rparr>)"
    using nowrap_scrolloff [OF assms(1-4), of W] by (simp add: v_def t_def h_def)
  ultimately show ?thesis
    using v(1) b t [OF m assms(7)] h unfolding h_def [symmetric] by (intro exI [of _ v]) auto
qed

definition demo_editor :: "rstring scroll_ed" where
  "demo_editor = \<lparr>sc_rope = [97, 10, 98, 10, 99], sc_folds = [], sc_cursor = Position 2 0,
     sc_vp = \<lparr>top_row = 0, top_col = 0, vp_width = 2, vp_height = 2, vp_wrap = NoWrap, text_width = 2, tab_width = 4\<rparr>,
     sc_height = 2, sc_scrolloff = 5\<rparr>"

lemma demo_editor_valid: "editor_lines flat_lines demo_editor = 3"
  by (simp add: demo_editor_def screen_lines_def nlines_breaks flat_lines_def rope_ops.defs flat_rope_def flat_text_def
      to_scalar_def scalar_ok_def is_break_def screen.truncate_def)

section \<open>The first row the viewport may start at\<close>

lemma row_height_segs: "text_laws R \<Longrightarrow> r < screen_lines R s \<Longrightarrow> row_height R W s r = Some (row_segs R W s r)"
  by (rule wrapped_rows_some [of R r s W])
    (auto simp: row_height_def wrapped_rows_def wrap_segments_def split: bind_splits)

lemma max_top_walk_rows:
  assumes R: "text_laws R"
  shows "r < screen_lines R s \<Longrightarrow> acc = rows_above R W hid s (Suc r) (screen_lines R s) \<Longrightarrow> acc < height \<Longrightarrow>
    \<exists>m. max_top_walk R W hid s height r acc = Some m \<and> m \<le> r \<and>
      rows_above R W hid s (Suc m) (screen_lines R s) < height \<and>
      (m = 0 \<or> \<not> hid m \<and> height \<le> rows_above R W hid s m (screen_lines R s))"
proof (induction r arbitrary: acc)
  case (Suc r)
  let ?acc = "rows_above R W hid s (Suc r) (screen_lines R s)"
  have a: "(if hid (Suc r) then 0 else row_segs R W s (Suc r)) + acc = ?acc"
    using rows_above_step [OF Suc.prems(1), of R W hid s] Suc.prems(2) by simp
  have w: "max_top_walk R W hid s height (Suc r) acc =
      (if ?acc \<ge> height then Some (Suc r) else max_top_walk R W hid s height r ?acc)"
    using a row_height_segs [OF R Suc.prems(1), of W] by (auto simp: add.commute)
  show ?case
  proof (cases "?acc \<ge> height")
    case True
    then have "\<not> hid (Suc r)" using a Suc.prems(3) by auto
    then show ?thesis using True w Suc.prems by auto
  next
    case False
    then have "?acc < height" by simp
    from Suc.IH [OF Suc_lessD [OF Suc.prems(1)] refl this] show ?thesis
      using w False by auto
  qed
qed simp

lemma max_top_rows:
  assumes R: "text_laws R" and h: "0 < height"
  obtains m where "max_top_for_height R W hid s height = Some m" and "m < screen_lines R s"
    and "rows_above R W hid s (Suc m) (screen_lines R s) < height"
    and "m = 0 \<or> \<not> hid m \<and> height \<le> rows_above R W hid s m (screen_lines R s)"
proof -
  have l: "screen_lines R s - 1 < screen_lines R s" using screen_lines_pos [of R s] by linarith
  have z: "0 = rows_above R W hid s (Suc (screen_lines R s - 1)) (screen_lines R s)" by simp
  from max_top_walk_rows [where hid = hid and W = W and acc = 0, OF R l z h] obtain m where
    m: "max_top_walk R W hid s height (screen_lines R s - 1) 0 = Some m" "m \<le> screen_lines R s - 1"
    "rows_above R W hid s (Suc m) (screen_lines R s) < height"
    "m = 0 \<or> \<not> hid m \<and> height \<le> rows_above R W hid s m (screen_lines R s)" by blast
  have "max_top_for_height R W hid s height = Some m"
    using m(1) h by (simp add: max_top_for_height_def len_lines_screen [OF R])
  moreover have "m < screen_lines R s" using m(2) l by linarith
  ultimately show ?thesis using that m(3,4) by blast
qed

section \<open>The loops of the wrapped scroll\<close>

text \<open>The cursor of \<open>s\<close> stands on a visible row of the text and the folds are canonical.\<close>

definition cursor_shown :: "'r text_ops \<Rightarrow> 'r scroll_ed \<Rightarrow> bool" where
  "cursor_shown R s \<longleftrightarrow> folds_ok (sc_folds s) \<and> cursor_row_of s < editor_lines R s \<and>
     \<not> provider_hidden R s (cursor_row_of s)"

lemma cursor_shown_vp [simp]: "cursor_shown R (s\<lparr>sc_vp := v\<rparr>) = cursor_shown R s"
  by (simp add: cursor_shown_def screen_lines_def)

text \<open>The screen row of the cursor of \<open>s\<close> counted from row \<open>t\<close>.\<close>

abbreviation csr :: "'r text_ops \<Rightarrow> (rchar \<Rightarrow> nat option) \<Rightarrow> 'r scroll_ed \<Rightarrow> nat \<Rightarrow> nat" where
  "csr R W s t \<equiv> screen_of R W (provider_hidden R s) (the_screen s) t"

lemma screen_of_split:
  assumes "a \<le> b" and "b \<le> p_row (sc_cursor s)"
  shows "screen_of R W hid s a = rows_above R W hid s a b + screen_of R W hid s b"
  using rows_above_split [OF assms, of R W hid s] by (simp add: screen_of_def)

lemma screen_of_lt:
  assumes R: "text_laws R" and "p_row (sc_cursor s) < screen_lines R s" and "\<not> hid (p_row (sc_cursor s))"
    and "a \<le> p_row (sc_cursor s)"
  shows "screen_of R W hid s a < rows_above R W hid s a (screen_lines R s)"
proof -
  let ?c = "p_row (sc_cursor s)"
  have "cursor_seg R W s ?c < row_segs R W s ?c"
    using wrapped_rows_total [OF R assms(2), of W] segment_for_col_lt by (auto simp: cursor_seg_def row_segs_def)
  moreover have "rows_above R W hid s a (screen_lines R s) =
      rows_above R W hid s a ?c + rows_above R W hid s ?c (screen_lines R s)"
    using rows_above_split [of a ?c "screen_lines R s" R W hid s] assms by simp
  ultimately show ?thesis
    using rows_above_step [OF assms(2), of R W hid s] assms(3) by (simp add: screen_of_def)
qed

lemma fold_view_folds [simp]: "fs_folds (fold_view_of R s) = sc_folds s"
  by (simp add: fold_view_of_def)

lemma next_visible:
  assumes "folds_ok (sc_folds s)"
  shows "case next_visible_row tp (fold_view_of R s) of
      None \<Rightarrow> \<forall>k. tp < k \<longrightarrow> k \<le> last_content_row (fold_view_of R s) \<longrightarrow> provider_hidden R s k
    | Some r \<Rightarrow> tp < r \<and> r \<le> last_content_row (fold_view_of R s) \<and> \<not> provider_hidden R s r \<and>
        (\<forall>k. tp < k \<longrightarrow> k < r \<longrightarrow> provider_hidden R s k)"
  unfolding provider_hidden_def using visible_walks_spec [of "fold_view_of R s" tp] assms by simp

lemma prev_visible:
  assumes "folds_ok (sc_folds s)"
  shows "case prev_visible_row tp (fold_view_of R s) of
      None \<Rightarrow> \<forall>k < tp. provider_hidden R s k
    | Some r \<Rightarrow> r < tp \<and> \<not> provider_hidden R s r \<and> (\<forall>k. r < k \<longrightarrow> k < tp \<longrightarrow> provider_hidden R s k)"
  unfolding provider_hidden_def using visible_walks_spec [of "fold_view_of R s" tp] assms by simp

lemma push_loop_rows:
  assumes R: "text_laws R" and c: "cursor_shown R s"
  shows "tp \<le> cursor_row_of s \<Longrightarrow> \<exists>t. push_loop R W s m tp (csr R W s tp) = Some (t, csr R W s t) \<and>
    tp \<le> t \<and> t \<le> cursor_row_of s \<and>
    (csr R W s t \<le> m \<or> t = cursor_row_of s \<or> next_visible_row t (fold_view_of R s) = None)"
proof (induction "cursor_row_of s - tp" arbitrary: tp rule: less_induct)
  case less
  let ?c = "cursor_row_of s" and ?hid = "provider_hidden R s"
  have ok: "folds_ok (sc_folds s)" "?c < editor_lines R s" "\<not> ?hid ?c" using c by (simp_all add: cursor_shown_def)
  show ?case
  proof (cases "csr R W s tp > m \<and> next_visible_row tp (fold_view_of R s) \<noteq> None")
    case False
    then show ?thesis using less.prems by (subst push_loop.simps) auto
  next
    case True
    then obtain nx where n: "next_visible_row tp (fold_view_of R s) = Some nx" by auto
    then have nx: "tp < nx" "\<And>k. tp < k \<Longrightarrow> k < nx \<Longrightarrow> ?hid k"
      using next_visible [OF ok(1), of tp R] by simp_all
    show ?thesis
    proof (cases "nx > ?c")
      case gt: True
      then have "tp = ?c" using nx(2) [of ?c] ok(3) less.prems by force
      then show ?thesis using True n gt by (subst push_loop.simps) auto
    next
      case le: False
      have rows: "\<forall>r \<in> set [tp ..< nx]. r < screen_lines R (the_screen s)" using le ok(2) by auto
      have e: "csr R W s tp = rows_above R W ?hid (the_screen s) tp nx + csr R W s nx"
        using screen_of_split [of tp nx "the_screen s" R W ?hid] nx(1) le by simp
      have "push_loop R W s m tp (csr R W s tp) = push_loop R W s m nx (csr R W s nx)"
        using True n le sub_rows_rows [OF R rows, of W ?hid "csr R W s tp"] e by (subst push_loop.simps) simp
      moreover have "?c - nx < ?c - tp" "nx \<le> ?c" using nx(1) le by linarith+
      ultimately show ?thesis using less.hyps [of nx] nx(1) by force
    qed
  qed
qed

text \<open>The last row pulled in is the only one that may exceed the margin.\<close>

lemma pull_loop_rows:
  assumes R: "text_laws R" and c: "cursor_shown R s"
  shows "tp \<le> cursor_row_of s \<Longrightarrow> \<exists>t. pull_loop R W s m tp (Some (csr R W s tp)) = Some t \<and> t \<le> tp \<and>
    (m \<le> csr R W s t \<or> (\<forall>k < t. provider_hidden R s k)) \<and>
    (t = tp \<or> \<not> provider_hidden R s t \<and> csr R W s t < m + row_segs R W (the_screen s) t)"
proof (induction tp rule: less_induct)
  case (less tp)
  let ?c = "cursor_row_of s" and ?hid = "provider_hidden R s"
  have ok: "folds_ok (sc_folds s)" "?c < editor_lines R s" using c by (simp_all add: cursor_shown_def)
  show ?case
  proof (cases "m \<le> csr R W s tp \<or> prev_visible_row tp (fold_view_of R s) = None")
    case True
    then show ?thesis using prev_visible [OF ok(1), of tp R] by (subst pull_loop.simps) (auto simp: Let_def)
  next
    case False
    then obtain p where p: "prev_visible_row tp (fold_view_of R s) = Some p" by auto
    then have pv: "p < tp" "\<not> ?hid p" "\<And>k. p < k \<Longrightarrow> k < tp \<Longrightarrow> ?hid k"
      using prev_visible [OF ok(1), of tp R] by simp_all
    have pl: "p < editor_lines R s" using pv(1) less.prems ok(2) by linarith
    obtain segs where w: "wrapped_rows R W (the_screen s) p = Some segs" "row_segs R W (the_screen s) p = length segs"
      by (rule wrapped_rows_some [OF R pl])
    have "rows_above R W ?hid (the_screen s) p tp = length segs"
      using rows_above_step [OF pv(1), of R W ?hid "the_screen s"] pv(2,3) w(2)
        seg_sum_hidden [of "[Suc p ..< tp]" ?hid R W "the_screen s"] by simp
    then have e: "csr R W s p = csr R W s tp + length segs"
      using screen_of_split [of p tp "the_screen s" R W ?hid] pv(1) less.prems by simp
    have "pull_loop R W s m tp (Some (csr R W s tp)) = pull_loop R W s m p (Some (csr R W s p))"
      using False p w(1) e by (subst pull_loop.simps) (simp add: Let_def)
    moreover have "p \<le> ?c" using pv(1) less.prems by linarith
    ultimately show ?thesis using less.IH [OF pv(1)] pv(1,2) e w(2) False by fastforce
  qed
qed

section \<open>The wrapped scroll\<close>

text \<open>The last line after a final line break is empty and takes one screen row.\<close>

lemma phantom_row:
  assumes R: "text_laws R" and "last_content_row (fold_view_of R s) < c" and "c < editor_lines R s"
  shows "row_segs R W (the_screen s) c = 1"
proof -
  let ?t = "rp_text R (sc_rope s)"
  have l: "rp_len_lines R (sc_rope s) = nlines ?t" by (rule text_len_lines [OF R])
  have c: "c < nlines ?t" using assms(3) by (simp add: screen_lines_def)
  have "c = nlines ?t - 1" "the (rope_line_bytes R (sc_rope s) (nlines ?t - 1)) = 0"
    using assms(2) c by (auto simp: last_content_row_def row_count_def Let_def fold_view_of_def l split: if_splits)
  then have "the (rope_line_bytes R (sc_rope s) c) = 0" by simp
  then have "rope_line_str R (sc_rope s) c = Some []"
    using rope_line_bytes_text [OF R c] by (simp add: rope_line_str_text [OF R c] flip: rope_line_bytes_text [OF R c])
  then show ?thesis by (simp add: row_segs_def wrapped_rows_def wrap_segments_def)
qed

lemma push_stop_bound:
  assumes R: "text_laws R" and c: "cursor_shown R s" and t: "t \<le> cursor_row_of s"
    and stop: "csr R W s t \<le> h - 1 \<or> t = cursor_row_of s \<or> next_visible_row t (fold_view_of R s) = None"
  shows "csr R W s t < max (h - 1) 1 + row_segs R W (the_screen s) t"
proof -
  let ?c = "cursor_row_of s" and ?hid = "provider_hidden R s"
  have ok: "folds_ok (sc_folds s)" "?c < editor_lines R s" "\<not> ?hid ?c" using c by (simp_all add: cursor_shown_def)
  have tl: "t < editor_lines R s" using t ok(2) by simp
  have pos: "0 < row_segs R W (the_screen s) t" by (rule row_segs_pos [OF R tl])
  have seg: "cursor_seg R W (the_screen s) ?c < row_segs R W (the_screen s) ?c"
    using screen_of_lt [of R "the_screen s" ?hid ?c W] R ok rows_above_step [OF ok(2), of R W ?hid "the_screen s"]
      wrapped_rows_total [OF R ok(2), of W] segment_for_col_lt by (auto simp: cursor_seg_def row_segs_def)
  consider "csr R W s t \<le> h - 1" | "t = ?c" | "t < ?c" "next_visible_row t (fold_view_of R s) = None"
    using stop t by linarith
  then show ?thesis
  proof cases
    case 1
    then show ?thesis using pos by linarith
  next
    case 2
    then show ?thesis using seg by (simp add: screen_of_def)
  next
    case 3
    then have n: "\<And>k. t < k \<Longrightarrow> k \<le> last_content_row (fold_view_of R s) \<Longrightarrow> ?hid k"
      using next_visible [OF ok(1), of t R] by simp
    have lc: "last_content_row (fold_view_of R s) < ?c" using n [of ?c] 3(1) ok(3) by force
    have "row_segs R W (the_screen s) ?c = 1" by (rule phantom_row [OF R lc ok(2)])
    then have "cursor_seg R W (the_screen s) ?c = 0" using seg by simp
    moreover have "\<forall>k \<in> set [Suc t ..< ?c]. ?hid k"
    proof
      fix k assume k: "k \<in> set [Suc t ..< ?c]"
      have "?c \<le> last_content_row (fold_view_of R s) + 1"
        using ok(2) by (auto simp: last_content_row_def row_count_def Let_def fold_view_of_def
            len_lines_screen [OF R, of "the_screen s", simplified])
      then show "?hid k" using n [of k] k by simp
    qed
    then have "rows_above R W ?hid (the_screen s) t ?c \<le> row_segs R W (the_screen s) t"
      using rows_above_step [OF 3(1), of R W ?hid "the_screen s"] seg_sum_hidden [of "[Suc t ..< ?c]" ?hid R W "the_screen s"]
      by simp
    ultimately show ?thesis by (simp add: screen_of_def)
  qed
qed

definition min_top_view :: "nat \<Rightarrow> viewport \<Rightarrow> viewport" where
  "min_top_view t v = v\<lparr>top_row := t, top_col := 0\<rparr>"

text \<open>What the wrapped scroll ensures of its top row \<open>t\<close>.\<close>

definition wrapped_band :: "'r text_ops \<Rightarrow> (rchar \<Rightarrow> nat option) \<Rightarrow> 'r scroll_ed \<Rightarrow> nat \<Rightarrow> nat \<Rightarrow> nat \<Rightarrow> bool" where
  "wrapped_band R W s h m t \<longleftrightarrow> t \<le> cursor_row_of s \<and>
     (m \<le> csr R W s t \<or> (\<forall>k < t. provider_hidden R s k)) \<and>
     csr R W s t < max (h - 1) 1 + row_segs R W (the_screen s) t \<and>
     (t = 0 \<or> h \<le> rows_above R W (provider_hidden R s) (the_screen s) t (editor_lines R s))"

lemma wrapped_band_clamped:
  assumes R: "text_laws R" and c: "cursor_shown R s" and h: "0 < h"
    and t: "t \<le> cursor_row_of s" "m \<le> csr R W s t \<or> (\<forall>k < t. provider_hidden R s k)"
      "csr R W s t < max (h - 1) 1 + row_segs R W (the_screen s) t"
    and mt: "rows_above R W (provider_hidden R s) (the_screen s) (Suc mt) (editor_lines R s) < h"
      "mt = 0 \<or> h \<le> rows_above R W (provider_hidden R s) (the_screen s) mt (editor_lines R s)"
  shows "wrapped_band R W s h m (min t mt)"
proof -
  let ?x = "the_screen s" and ?hid = "provider_hidden R s" and ?n = "editor_lines R s"
  have ok: "cursor_row_of s < ?n" "\<not> ?hid (cursor_row_of s)" using c by (simp_all add: cursor_shown_def)
  show ?thesis
  proof (cases "t \<le> mt")
    case True
    have "h \<le> rows_above R W ?hid ?x t ?n" if "mt \<noteq> 0"
    proof (cases "mt \<le> ?n")
      case True
      then show ?thesis using that mt(2) rows_above_split [OF \<open>t \<le> mt\<close>, of ?n R W ?hid ?x] by simp
    next
      case False
      then show ?thesis using that mt(2) h by simp
    qed
    then show ?thesis using True t by (auto simp: wrapped_band_def min_def)
  next
    case False
    have e: "csr R W s mt = rows_above R W ?hid ?x mt t + csr R W s t"
      using False t(1) screen_of_split [of mt t ?x R W ?hid] by simp
    have "mt < ?n" using False t(1) ok(1) by linarith
    then have "csr R W s mt < row_segs R W ?x mt + rows_above R W ?hid ?x (Suc mt) ?n"
      using screen_of_lt [of R ?x ?hid mt W] R ok False t(1) rows_above_step [of mt ?n R W ?hid ?x]
      by (auto split: if_splits)
    then have "csr R W s mt < max (h - 1) 1 + row_segs R W ?x mt" using mt(1) h by linarith
    then show ?thesis using False t mt e by (auto simp: wrapped_band_def min_def)
  qed
qed

lemma wrapped_scroll_rows:
  assumes R: "text_laws R" and c: "cursor_shown R s" and top: "top_row (sc_vp s) \<le> cursor_row_of s"
    and h: "0 < h" and m: "m \<le> h - 1 - m"
  shows "\<exists>t. ensure_scrolloff_vertical R W h m s = Some (s\<lparr>sc_vp := min_top_view t (sc_vp s)\<rparr>) \<and> wrapped_band R W s h m t"
proof -
  let ?x = "the_screen s" and ?hid = "provider_hidden R s" and ?tp = "top_row (sc_vp s)"
  have ok: "cursor_row_of s < editor_lines R s" "\<not> ?hid (cursor_row_of s)" using c by (simp_all add: cursor_shown_def)
  have start: "screen_row_from R W ?hid ?x ?tp = Some (Some (csr R W s ?tp))"
    using screen_row_valid [of R ?x ?hid ?tp W] R ok top by simp
  obtain t1 where t1: "push_loop R W s (h - 1 - m) ?tp (csr R W s ?tp) = Some (t1, csr R W s t1)"
    "t1 \<le> cursor_row_of s"
    "csr R W s t1 \<le> h - 1 - m \<or> t1 = cursor_row_of s \<or> next_visible_row t1 (fold_view_of R s) = None"
    using push_loop_rows [OF R c top, of W "h - 1 - m"] by blast
  obtain t2 where t2: "pull_loop R W s m t1 (Some (csr R W s t1)) = Some t2" "t2 \<le> t1"
    "m \<le> csr R W s t2 \<or> (\<forall>k < t2. ?hid k)" "t2 = t1 \<or> csr R W s t2 < m + row_segs R W ?x t2"
    using pull_loop_rows [OF R c t1(2), of W m] by blast
  obtain mt where mt: "max_top_for_height R W ?hid ?x h = Some mt"
    "rows_above R W ?hid ?x (Suc mt) (editor_lines R s) < h"
    "mt = 0 \<or> h \<le> rows_above R W ?hid ?x mt (editor_lines R s)"
    by (rule max_top_rows [where hid = ?hid and W = W and s = ?x, OF R h]) blast
  have "csr R W s t1 < max (h - 1) 1 + row_segs R W ?x t1"
    by (rule push_stop_bound [OF R c t1(2)]) (use t1(3) in auto)
  then have "csr R W s t2 < max (h - 1) 1 + row_segs R W ?x t2" using t2(4) m h by auto
  moreover have "t2 \<le> cursor_row_of s" using t2(2) t1(2) by simp
  ultimately have "wrapped_band R W s h m (min t2 mt)"
    using wrapped_band_clamped [OF R c h] t2(3) mt(2,3) by blast
  moreover have "ensure_scrolloff_vertical R W h m s = Some (s\<lparr>sc_vp := min_top_view (min t2 mt) (sc_vp s)\<rparr>)"
    using top start t1(1) t2(1) mt(1)
    by (simp add: ensure_scrolloff_vertical_def Let_def clamp_if min_top_view_def not_less)
  ultimately show ?thesis by blast
qed

lemma same_text_top:
  "same_text (the_screen (s\<lparr>sc_vp := min_top_view t (sc_vp s)\<rparr>)) (the_screen s)"
  by (simp add: same_text_def min_top_view_def)

lemma row_segs_same: "same_text x y \<Longrightarrow> row_segs R W x = row_segs R W y"
  by (auto simp: same_text_def row_segs_def wrapped_rows_def)

lemma ensure_scrolloff_snap:
  assumes "cursor_row_of s < top_row (sc_vp s)"
  shows "ensure_scrolloff_vertical R W h m s =
    ensure_scrolloff_vertical R W h m (s\<lparr>sc_vp := min_top_view (cursor_row_of s) (sc_vp s)\<rparr>)"
  using assms by (simp add: ensure_scrolloff_vertical_def min_top_view_def Let_def)

lemma wrapped_scroll_any:
  assumes R: "text_laws R" and wrap: "vp_wrap (sc_vp s) \<noteq> NoWrap" and h: "sc_height s \<noteq> 0"
    and c: "cursor_shown R s"
  shows "\<exists>t. ensure_cursor_in_scrolloff R W s = Some (s\<lparr>sc_vp := min_top_view t (sc_vp s)\<rparr>) \<and>
    wrapped_band R W s (unat (sc_height s)) (scroll_margin s) t"
proof -
  let ?h = "unat (sc_height s)" and ?m = "scroll_margin s"
  have h0: "0 < ?h" using h by (simp add: unat_gt_0)
  have e: "ensure_cursor_in_scrolloff R W s = ensure_scrolloff_vertical R W ?h ?m s"
    using wrap h0 by (simp add: ensure_cursor_in_scrolloff_def Let_def scroll_margin_def)
  have "\<exists>t. ensure_scrolloff_vertical R W ?h ?m s = Some (s\<lparr>sc_vp := min_top_view t (sc_vp s)\<rparr>) \<and>
    wrapped_band R W s ?h ?m t"
  proof (cases "cursor_row_of s < top_row (sc_vp s)")
    case True
    let ?s = "s\<lparr>sc_vp := min_top_view (cursor_row_of s) (sc_vp s)\<rparr>"
    have "cursor_shown R ?s" using c by simp
    moreover have "top_row (sc_vp ?s) \<le> cursor_row_of ?s" by (simp add: min_top_view_def)
    ultimately obtain t where
      "ensure_scrolloff_vertical R W ?h ?m ?s = Some (?s\<lparr>sc_vp := min_top_view t (sc_vp ?s)\<rparr>)"
      "wrapped_band R W ?s ?h ?m t"
      using wrapped_scroll_rows [of R ?s ?h ?m W] R h0 scroll_margin_le by blast
    moreover have "?s\<lparr>sc_vp := min_top_view t (sc_vp ?s)\<rparr> = s\<lparr>sc_vp := min_top_view t (sc_vp s)\<rparr>" for t
      by (simp add: min_top_view_def)
    moreover have "wrapped_band R W ?s ?h ?m t = wrapped_band R W s ?h ?m t" for t
      unfolding wrapped_band_def screen_of_def
      using same_text_rows [OF same_text_top [where s = s and t = "cursor_row_of s"]]
        row_segs_same [OF same_text_top [where s = s and t = "cursor_row_of s"]] by simp
    ultimately show ?thesis using ensure_scrolloff_snap [OF True, of R W ?h ?m] by auto
  next
    case False
    then show ?thesis using wrapped_scroll_rows [OF R c _ h0 scroll_margin_le, of W] by auto
  qed
  then show ?thesis using e by simp
qed

text \<open>
  C16: under soft wrap a scroll ends for every cursor on a visible row; the cursor is then
  at least the margin below the upper edge unless no visible row is left above; it is on the
  screen, or below it by no more than the screen rows that the top row takes beyond its first;
  and no blank rows are left under the buffer unless it is scrolled to its start.\<close>

theorem scrolloff_wrapped:
  assumes R: "text_laws R" and wrap: "vp_wrap (sc_vp s) \<noteq> NoWrap" and h: "sc_height s \<noteq> 0"
    and c: "cursor_shown R s"
  shows "\<exists>v n. ensure_cursor_in_scrolloff R W s = Some (s\<lparr>sc_vp := v\<rparr>) \<and>
    screen_row_from R W (provider_hidden R s) (the_screen (s\<lparr>sc_vp := v\<rparr>)) (top_row v) = Some (Some n) \<and>
    (scroll_margin s \<le> n \<or> (\<forall>k < top_row v. provider_hidden R s k)) \<and>
    n < max (unat (sc_height s) - 1) 1 + row_segs R W (the_screen (s\<lparr>sc_vp := v\<rparr>)) (top_row v) \<and>
    (top_row v = 0 \<or> unat (sc_height s) \<le>
       rows_above R W (provider_hidden R s) (the_screen (s\<lparr>sc_vp := v\<rparr>)) (top_row v) (editor_lines R s))"
proof -
  let ?hid = "provider_hidden R s"
  obtain t where t: "ensure_cursor_in_scrolloff R W s = Some (s\<lparr>sc_vp := min_top_view t (sc_vp s)\<rparr>)"
    "wrapped_band R W s (unat (sc_height s)) (scroll_margin s) t"
    using wrapped_scroll_any [OF R wrap h c, of W] by blast
  let ?v = "min_top_view t (sc_vp s)"
  let ?x = "the_screen (s\<lparr>sc_vp := ?v\<rparr>)"
  note same = same_text_rows [OF same_text_top [where s = s and t = t]] row_segs_same [OF same_text_top [where s = s and t = t]]
  have "screen_row_from R W ?hid ?x t = Some (Some (screen_of R W ?hid ?x t))"
    using screen_row_valid [of R ?x ?hid t W] R c t(2) same by (simp add: cursor_shown_def wrapped_band_def)
  moreover have "screen_of R W ?hid ?x t = csr R W s t"
    unfolding screen_of_def using same by simp
  moreover have "top_row ?v = t" by (simp add: min_top_view_def)
  ultimately show ?thesis
    using t same unfolding wrapped_band_def by (intro exI [of _ ?v] exI [of _ "csr R W s t"]) simp
qed

text \<open>The same three lines under soft wrap.\<close>

theorem scrolloff_wrapped_witness:
  "\<exists>v. ensure_cursor_in_scrolloff flat_lines (\<lambda>c. Some 1)
     (demo_editor\<lparr>sc_vp := (sc_vp demo_editor)\<lparr>vp_wrap := CharWrap\<rparr>\<rparr>) =
   Some (demo_editor\<lparr>sc_vp := v\<rparr>)"
proof -
  let ?s = "demo_editor\<lparr>sc_vp := (sc_vp demo_editor)\<lparr>vp_wrap := CharWrap\<rparr>\<rparr>"
  have l: "editor_lines flat_lines ?s = 3" using demo_editor_valid by (simp add: screen_lines_def)
  have "cursor_shown flat_lines ?s"
    unfolding cursor_shown_def l provider_hidden_def is_row_hidden_def
    by (simp add: demo_editor_def fold_view_of_def folds_ok_def)
  then show ?thesis
    using scrolloff_wrapped [OF flat_lines_laws, of ?s "\<lambda>c. Some 1"] by (auto simp: demo_editor_def)
qed

end
