(* ===== verification/GotoLine.thy ===== *)
theory GotoLine
  imports ScrollLaws
begin

text \<open>
  The scroll among folds without wrap, and the jump to a line, which opens the folds over the
  line, moves the cursor and scrolls: folds, cursor and viewport together.
\<close>

section \<open>The scroll among folds\<close>

lemma one_segment:
  assumes R: "text_laws R" and "vp_wrap (sc_vp s) = NoWrap" and "r < screen_lines R s"
  shows "row_segs R W s r = 1" and "cursor_seg R W s r = 0"
proof -
  obtain segs where w: "wrapped_rows R W s r = Some segs" "row_segs R W s r = length segs"
    by (rule wrapped_rows_some [OF R assms(3)])
  then have l: "length segs = 1" using assms(2) by (auto simp: wrapped_rows_def wrap_segments_def split: bind_splits)
  then have "segs \<noteq> []" by auto
  then show "row_segs R W s r = 1" "cursor_seg R W s r = 0"
    using w l segment_for_col_lt [of segs "p_col (sc_cursor s)"] by (simp_all add: cursor_seg_def)
qed

lemma rows_above_prev:
  assumes "prev_visible_row r (fold_view_of R s) = Some p" and "folds_ok (sc_folds s)"
  shows "rows_above R W (provider_hidden R s) x p r = row_segs R W x p"
proof -
  have pv: "p < r" "\<not> provider_hidden R s p" "\<forall>k \<in> set [Suc p ..< r]. provider_hidden R s k"
    using prev_visible [OF assms(2), of r R] assms(1) by auto
  show ?thesis
    using rows_above_step [OF pv(1), of R W "provider_hidden R s" x] pv(2)
      seg_sum_hidden [OF pv(3), of R W x] by simp
qed

lemma prev_times_rows:
  assumes R: "text_laws R" and w: "vp_wrap (sc_vp s) = NoWrap" and ok: "folds_ok (sc_folds s)"
  shows "r < editor_lines R s \<Longrightarrow> \<not> provider_hidden R s r \<Longrightarrow>
    prev_times (fold_view_of R s) k r \<le> r \<and> \<not> provider_hidden R s (prev_times (fold_view_of R s) k r) \<and>
    rows_above R W (provider_hidden R s) (the_screen s) (prev_times (fold_view_of R s) k r) r \<le> k \<and>
    (rows_above R W (provider_hidden R s) (the_screen s) (prev_times (fold_view_of R s) k r) r = k \<or>
     (\<forall>i < prev_times (fold_view_of R s) k r. provider_hidden R s i))"
proof (induction k arbitrary: r)
  case (Suc k)
  let ?v = "fold_view_of R s" and ?hid = "provider_hidden R s" and ?x = "the_screen s"
  show ?case
  proof (cases "prev_visible_row r ?v")
    case None
    then show ?thesis using prev_visible [OF ok, of r R] Suc.prems by simp
  next
    case (Some p)
    then have p: "p < r" "\<not> ?hid p" using prev_visible [OF ok, of r R] by simp_all
    have pl: "p < editor_lines R s" using p(1) Suc.prems(1) by simp
    let ?t = "prev_times ?v k p"
    have IH: "?t \<le> p" "\<not> ?hid ?t" "rows_above R W ?hid ?x ?t p \<le> k"
      "rows_above R W ?hid ?x ?t p = k \<or> (\<forall>i < ?t. ?hid i)"
      using Suc.IH [OF pl p(2)] by simp_all
    have one: "rows_above R W ?hid ?x p r = 1"
      using rows_above_prev [OF Some ok, of W ?x] one_segment(1) [OF R _ pl, of W] w by simp
    have "rows_above R W ?hid ?x ?t r = rows_above R W ?hid ?x ?t p + 1"
      using rows_above_split [of ?t p r R W ?hid ?x] IH(1) p(1) one by simp
    then show ?thesis using Some IH p(1) by auto
  qed
qed simp

lemma folds_scroll_rows:
  assumes R: "text_laws R" and w: "vp_wrap (sc_vp s) = NoWrap" and c: "cursor_shown R s"
    and h: "0 < h" and m: "m \<le> h - 1 - m"
  shows "\<exists>t. ensure_scrolloff_folds_nowrap R W h m s = Some (set_top t s) \<and> t \<le> cursor_row_of s \<and>
    csr R W s t < h \<and> (m \<le> csr R W s t \<or> (\<forall>k < t. provider_hidden R s k)) \<and>
    (csr R W s t + m < h \<or> rows_above R W (provider_hidden R s) (the_screen s) t (editor_lines R s) \<le> h) \<and>
    (t = 0 \<or> h \<le> rows_above R W (provider_hidden R s) (the_screen s) t (editor_lines R s))"
proof -
  let ?v = "fold_view_of R s" and ?hid = "provider_hidden R s" and ?x = "the_screen s" and ?c = "cursor_row_of s"
    and ?n = "editor_lines R s"
  have ok: "folds_ok (sc_folds s)" "?c < ?n" "\<not> ?hid ?c" using c by (simp_all add: cursor_shown_def)
  have csr: "csr R W s i = rows_above R W ?hid ?x i ?c" for i
    using one_segment(2) [OF R _ ok(2), of W] w by (simp add: screen_of_def)
  define lo where "lo = prev_times ?v (h - 1 - m) ?c"
  define hi where "hi = prev_times ?v m ?c"
  note lo = prev_times_rows [where W = W and k = "h - 1 - m", OF R w ok, folded lo_def csr]
  note hi = prev_times_rows [where W = W and k = m, OF R w ok, folded hi_def csr]
  have split: "csr R W s i = rows_above R W ?hid ?x i j + csr R W s j" if "i \<le> j" "j \<le> ?c" for i j
    using screen_of_split [of i j ?x R W ?hid] that by simp
  have mono: "csr R W s j \<le> csr R W s i" if "i \<le> j" "j \<le> ?c" for i j using split [OF that] by simp
  have le: "lo \<le> hi"
  proof (rule ccontr)
    assume "\<not> lo \<le> hi"
    then have "hi < lo" by simp
    then have "csr R W s hi = rows_above R W ?hid ?x hi lo + csr R W s lo" using split [of hi lo] lo by simp
    moreover have "1 \<le> rows_above R W ?hid ?x hi lo"
      using rows_above_step [OF \<open>hi < lo\<close>, of R W ?hid ?x] hi one_segment(1) [OF R _ , of ?x hi W] w ok(2) by simp
    ultimately have "csr R W s lo < csr R W s hi" by simp
    then have "csr R W s lo < h - 1 - m" using hi m by linarith
    then have "\<forall>i < lo. ?hid i" using lo by simp
    then show False using \<open>hi < lo\<close> hi by blast
  qed
  define t where "t = (if top_row (sc_vp s) < lo then lo else if top_row (sc_vp s) > hi then hi else top_row (sc_vp s))"
  have t: "lo \<le> t" "t \<le> hi" using le by (auto simp: t_def)
  obtain mt where mt: "max_top_for_height R W ?hid ?x h = Some mt" "mt < ?n"
    "rows_above R W ?hid ?x (Suc mt) ?n < h" "mt = 0 \<or> \<not> ?hid mt \<and> h \<le> rows_above R W ?hid ?x mt ?n"
    by (rule max_top_rows [where hid = ?hid and W = W and s = ?x, OF R h]) blast
  have e: "ensure_scrolloff_folds_nowrap R W h m s = Some (set_top (min t mt) s)"
    unfolding ensure_scrolloff_folds_nowrap_def Let_def lo_def [symmetric] hi_def [symmetric] clamp_to_def clamp_if
    using le mt(1) by (simp add: t_def)
  have tc: "t \<le> ?c" using t(2) hi by linarith
  have low: "csr R W s t + m < h" using mono [OF t(1) tc] lo h m by linarith
  have up: "m \<le> csr R W s t \<or> (\<forall>k < t. ?hid k)"
    using hi mono [of t hi] t(2) by auto
  show ?thesis
  proof (cases "t \<le> mt")
    case True
    then have "t = 0 \<or> h \<le> rows_above R W ?hid ?x t ?n"
      using mt(2,4) rows_above_split [of t mt ?n R W ?hid ?x] by auto
    then show ?thesis using e True tc low up by (intro exI [of _ t]) (auto simp: min_def)
  next
    case False
    then have "csr R W s t \<le> csr R W s mt" "mt \<le> ?c" using mono [of mt t] tc by simp_all
    moreover have tot: "rows_above R W ?hid ?x mt ?n \<le> h"
      using rows_above_step [OF mt(2), of R W ?hid ?x] mt(3) one_segment(1) [OF R _ mt(2), of W] w by (simp split: if_splits)
    moreover have "csr R W s mt < rows_above R W ?hid ?x mt ?n"
      using screen_of_lt [of R ?x ?hid mt W] R ok \<open>mt \<le> ?c\<close> by simp
    ultimately show ?thesis
      using e False up mt(4) by (intro exI [of _ mt]) (auto simp: min_def)
  qed
qed

section \<open>Every scroll shows the cursor\<close>

definition shows_cursor :: "'r text_ops \<Rightarrow> (rchar \<Rightarrow> nat option) \<Rightarrow> 'r scroll_ed \<Rightarrow> nat \<Rightarrow> bool" where
  "shows_cursor R W s t \<longleftrightarrow> t \<le> cursor_row_of s \<and>
     csr R W s t < max (unat (sc_height s) - 1) 1 + row_segs R W (the_screen s) t"

definition sized :: "'r scroll_ed \<Rightarrow> bool" where
  "sized s \<longleftrightarrow> sc_height s \<noteq> 0 \<and> vp_height (sc_vp s) = sc_height s \<and> vp_width (sc_vp s) \<noteq> 0"

lemma rows_above_one:
  assumes "\<And>r. a \<le> r \<Longrightarrow> r < b \<Longrightarrow> row_segs R W s r = 1" and "a \<le> b"
  shows "rows_above R W hid s a b \<le> b - a"
  using assms(2,1)
proof (induction rule: dec_induct)
  case (step n)
  then have "rows_above R W hid s a n \<le> n - a" "row_segs R W s n = 1" by simp_all
  then show ?case using step.hyps by (simp add: Suc_diff_le)
qed simp

lemma ensure_visible_wrap [simp]:
  "vp_wrap (ensure_visible pos v) = vp_wrap v" "text_width (ensure_visible pos v) = text_width v"
  by (simp_all add: ensure_visible_def Let_def)

lemma scroll_shows:
  assumes R: "text_laws R" and c: "cursor_shown R s" and z: "sized s"
  obtains v where "ensure_cursor_in_scrolloff R W s = Some (s\<lparr>sc_vp := v\<rparr>)" and "shows_cursor R W s (top_row v)"
    and "vp_wrap v = vp_wrap (sc_vp s)" and "text_width v = text_width (sc_vp s)"
    and "vp_wrap (sc_vp s) = NoWrap \<longrightarrow> csr R W s (top_row v) < unat (sc_height s)"
proof -
  let ?h = "unat (sc_height s)" and ?c = "cursor_row_of s"
  have h: "0 < ?h" "sc_height s \<noteq> 0" using z by (simp_all add: sized_def unat_gt_0)
  have cl: "?c < editor_lines R s" using c by (simp add: cursor_shown_def)
  consider (wrap) "vp_wrap (sc_vp s) \<noteq> NoWrap" | (folds) "vp_wrap (sc_vp s) = NoWrap" "sc_folds s \<noteq> []"
    | (plain) "vp_wrap (sc_vp s) = NoWrap" "sc_folds s = []" by blast
  then show ?thesis
  proof cases
    case wrap
    then obtain t where "ensure_cursor_in_scrolloff R W s = Some (s\<lparr>sc_vp := min_top_view t (sc_vp s)\<rparr>)"
      "wrapped_band R W s ?h (scroll_margin s) t"
      using wrapped_scroll_any [OF R _ h(2) c, of W] by blast
    then show ?thesis
      using wrap by (intro that [of "min_top_view t (sc_vp s)"]) (simp_all add: shows_cursor_def wrapped_band_def min_top_view_def)
  next
    case folds
    then obtain t where t: "ensure_scrolloff_folds_nowrap R W ?h (scroll_margin s) s = Some (set_top t s)"
      "t \<le> ?c" "csr R W s t < ?h"
      using folds_scroll_rows [OF R _ c h(1) scroll_margin_le, of W] by blast
    have "row_segs R W (the_screen s) t = 1"
      using one_segment(1) [OF R, of "the_screen s" t W] folds(1) t(2) cl by simp
    then have "shows_cursor R W s t" using t(2,3) h(1) by (simp add: shows_cursor_def)
    moreover have "ensure_cursor_in_scrolloff R W s =
        Some (s\<lparr>sc_vp := (ensure_visible (sc_cursor s) (sc_vp (set_top t s)))\<lparr>top_row := t\<rparr>\<rparr>)"
      unfolding ensure_cursor_in_scrolloff_def Let_def scroll_margin_def [symmetric]
      using t(1) folds h(1) by (simp add: has_folds_def) (simp add: set_top_def)
    ultimately show ?thesis
      using t(3)
      by (intro that [of "(ensure_visible (sc_cursor s) (sc_vp (set_top t s)))\<lparr>top_row := t\<rparr>"]) (simp_all add: set_top_def)
  next
    case plain
    define t where "t = band_top ?h (scroll_margin s) (editor_lines R s) ?c (top_row (sc_vp s))"
    have t: "t \<le> ?c" "?c < t + ?h"
      using band_top_spec [OF h(1) scroll_margin_le cl] by (simp_all add: t_def)
    have one: "row_segs R W (the_screen s) r = 1" if "r \<le> ?c" for r
      using one_segment(1) [OF R, of "the_screen s" r W] plain(1) that cl by simp
    have csr: "csr R W s t \<le> ?c - t"
      using rows_above_one [of t ?c R W "the_screen s" "provider_hidden R s"] one t(1)
        one_segment(2) [OF R, of "the_screen s" ?c W] plain(1) cl by (simp add: screen_of_def)
    then have "shows_cursor R W s t" using t h(1) one [OF t(1)] by (simp add: shows_cursor_def)
    moreover have "csr R W s t < ?h" using csr t by linarith
    moreover have "top_row (ensure_visible (sc_cursor s) ((sc_vp s)\<lparr>top_row := t\<rparr>)) = t"
      using ensure_visible_row [of "(sc_vp s)\<lparr>top_row := t\<rparr>" "sc_cursor s"] t z by (simp add: sized_def)
    ultimately show ?thesis
      using nowrap_scrolloff [OF R plain h(2), of W]
      by (intro that [of "ensure_visible (sc_cursor s) ((sc_vp s)\<lparr>top_row := t\<rparr>)"]) (simp_all add: t_def)
  qed
qed

section \<open>The jump to a line\<close>

text \<open>
  C15: a jump to a line returns for every line number; it lands at column 0 of the line, or
  of the last line when there are fewer, opens every fold over that line and no other, and
  scrolls so that the line is on the screen when lines do not wrap.  Under soft wrap the line is at most
  the screen rows of the top row, less one, below the viewport (one more in a window of height 1): in a
  window of height 2 or more it is on the screen when the top row does not wrap.\<close>

theorem goto_line_shown:
  assumes R: "text_laws R" and ok: "folds_ok (sc_folds s)" and z: "sized s"
  shows "\<exists>e n. goto_line R W line s = Some e \<and> sc_rope e = sc_rope s \<and>
    sc_cursor e = Position (min (line - 1) (editor_lines R s - 1)) 0 \<and>
    sc_folds e = map (\<lambda>f. if hides f (cursor_row_of e) then f\<lparr>fd_closed := False\<rparr> else f) (sc_folds s) \<and>
    \<not> provider_hidden R e (cursor_row_of e) \<and>
    screen_row_from R W (provider_hidden R e) (the_screen e) (top_row (sc_vp e)) = Some (Some n) \<and>
    (vp_wrap (sc_vp s) = NoWrap \<longrightarrow> n < unat (sc_height e)) \<and>
    n < max (unat (sc_height e) - 1) 1 + row_segs R W (the_screen e) (top_row (sc_vp e))"
proof -
  let ?c = "min (line - 1) (editor_lines R s - 1)"
  let ?fs = "map (\<lambda>f. if hides f ?c then f\<lparr>fd_closed := False\<rparr> else f) (sc_folds s)"
  have l: "rp_len_lines R (sc_rope s) = editor_lines R s" using len_lines_screen [OF R, of "the_screen s"] by simp
  have cl: "?c < editor_lines R s" using screen_lines_pos [of R "the_screen s"] by linarith
  have fs: "fs_folds (snd (reveal_row ?c (fold_view_of R s))) = ?fs"
  proof (cases "list_ex (\<lambda>f. hides f ?c) (sc_folds s)")
    case True
    then show ?thesis by (simp add: reveal_row_def open_folds_where_def set_closed_def folds_changed_def fold_gen_bump_def)
  next
    case False
    then have "?fs = sc_folds s" by (intro map_idI) (auto simp: list_ex_iff)
    then show ?thesis using False by (simp add: reveal_row_def open_folds_where_def)
  qed
  have ok': "folds_ok ?fs"
    using view_step_ok [of "fold_view_of R s" "Reveal ?c"] ok fs by simp
  define s2 where "s2 = s\<lparr>sc_folds := ?fs, sc_cursor := Position ?c 0\<rparr>"
  have lines: "editor_lines R s2 = editor_lines R s" by (simp add: s2_def screen_lines_def)
  have shown: "\<not> provider_hidden R s2 ?c"
    by (auto simp: provider_hidden_def is_row_hidden_def list_ex_iff s2_def hides_def)
  have c2: "cursor_shown R s2" using ok' cl shown lines by (simp add: cursor_shown_def s2_def)
  obtain v where v: "ensure_cursor_in_scrolloff R W s2 = Some (s2\<lparr>sc_vp := v\<rparr>)" "shows_cursor R W s2 (top_row v)"
    "vp_wrap v = vp_wrap (sc_vp s2)" "text_width v = text_width (sc_vp s2)"
    "vp_wrap (sc_vp s2) = NoWrap \<longrightarrow> csr R W s2 (top_row v) < unat (sc_height s2)"
    by (rule scroll_shows [OF R c2]) (use z in \<open>simp add: sized_def s2_def\<close>)
  have g: "goto_line R W line s = Some (s2\<lparr>sc_vp := v\<rparr>)"
    using v(1) rope_line_char_count_text [OF R] fs
    by (simp add: goto_line_def Let_def place_cursor_def l s2_def)
  let ?x = "the_screen (s2\<lparr>sc_vp := v\<rparr>)"
  have same: "same_text ?x (the_screen s2)" using v(3,4) by (simp add: same_text_def)
  have "screen_row_from R W (provider_hidden R s2) ?x (top_row v) = Some (Some (csr R W s2 (top_row v)))"
    using screen_row_valid [of R ?x "provider_hidden R s2" "top_row v" W] R c2 v(2) same_text_rows [OF same]
    by (simp add: cursor_shown_def shows_cursor_def screen_of_def)
  then show ?thesis
    using g v(2,5) shown row_segs_same [OF same] cl
    by (intro exI [of _ "s2\<lparr>sc_vp := v\<rparr>"] exI [of _ "csr R W s2 (top_row v)"])
      (simp add: shows_cursor_def, simp add: s2_def)
qed

text \<open>A closed fold over the three lines, and a jump past the end.\<close>

theorem goto_line_shown_witness:
  "\<exists>e. goto_line flat_lines (\<lambda>c. Some 1) 9
      (demo_editor\<lparr>sc_folds := [\<lparr>fd_start = 0, fd_end = 2, fd_closed = True, fd_auto = False\<rparr>]\<rparr>) = Some e \<and>
    sc_cursor e = Position 2 0 \<and> sc_folds e = [\<lparr>fd_start = 0, fd_end = 2, fd_closed = False, fd_auto = False\<rparr>]"
proof -
  let ?s = "demo_editor\<lparr>sc_folds := [\<lparr>fd_start = 0, fd_end = 2, fd_closed = True, fd_auto = False\<rparr>]\<rparr>"
  have l: "editor_lines flat_lines ?s = 3" using demo_editor_valid by (simp add: screen_lines_def)
  have ok: "folds_ok (sc_folds ?s)" "sized ?s" by (simp_all add: folds_ok_def sized_def demo_editor_def)
  show ?thesis
    using goto_line_shown [OF flat_lines_laws ok, of "\<lambda>c. Some 1" 9] unfolding l by (auto simp: hides_def)
qed

end
