(* ===== verification/Geom.thy ===== *)
theory Geom
  imports Screen Chord
begin

text \<open>
  Columns on the screen and word characters: the cell geometry of a line with tabs and wide
  chars (\<open>hjkl-buffer/src/geom.rs\<close>) and the option \<open>iskeyword\<close> (\<open>hjkl-buffer/src/motion.rs\<close>).
  The widths of chars are the argument \<open>W\<close> (the crate \<open>unicode-width\<close>), the Unicode
  property of \<open>char::is_alphabetic\<close> the argument \<open>A\<close>.
\<close>

section \<open>Cells\<close>

definition cell_width :: "(rchar \<Rightarrow> nat option) \<Rightarrow> rchar \<Rightarrow> nat \<Rightarrow> nat \<Rightarrow> nat" where
  "cell_width W c visual tab_w =
     (if c = 9 then tab_w - visual mod tab_w else case W c of Some w \<Rightarrow> w | None \<Rightarrow> 1)"

definition tab_or_one :: "nat \<Rightarrow> nat" where
  "tab_or_one tabw = (if tabw = 0 then 1 else tabw)"

fun to_char_walk :: "(rchar \<Rightarrow> nat option) \<Rightarrow> nat \<Rightarrow> nat \<Rightarrow> nat \<Rightarrow> nat \<Rightarrow> rstring \<Rightarrow> nat" where
  "to_char_walk W tab_w visual_col i visual [] = i"
| "to_char_walk W tab_w visual_col i visual (c # cs) =
     (let advance = cell_width W c visual tab_w in
      if advance = 0 then to_char_walk W tab_w visual_col (Suc i) visual cs
      else if visual + advance > visual_col then i
      else to_char_walk W tab_w visual_col (Suc i) (visual + advance) cs)"

definition visual_col_to_char_col :: "(rchar \<Rightarrow> nat option) \<Rightarrow> rstring \<Rightarrow> nat \<Rightarrow> nat \<Rightarrow> nat" where
  "visual_col_to_char_col W line visual_col tabw =
     (if visual_col = 0 then 0 else to_char_walk W (tab_or_one tabw) visual_col 0 0 line)"

fun to_visual_walk :: "(rchar \<Rightarrow> nat option) \<Rightarrow> nat \<Rightarrow> nat \<Rightarrow> nat \<Rightarrow> rstring \<Rightarrow> nat" where
  "to_visual_walk W tab_w k visual [] = visual"
| "to_visual_walk W tab_w k visual (c # cs) =
     (case k of 0 \<Rightarrow> visual | Suc k \<Rightarrow> to_visual_walk W tab_w k (visual + cell_width W c visual tab_w) cs)"

definition char_col_to_visual_col :: "(rchar \<Rightarrow> nat option) \<Rightarrow> rstring \<Rightarrow> nat \<Rightarrow> nat \<Rightarrow> nat" where
  "char_col_to_visual_col W line char_col tabw = to_visual_walk W (tab_or_one tabw) char_col 0 line"

definition cursor_visual_col :: "(rchar \<Rightarrow> nat option) \<Rightarrow> rstring \<Rightarrow> nat \<Rightarrow> nat \<Rightarrow> nat" where
  "cursor_visual_col W line char_col tabw =
     (if char_col < length line \<and> line ! char_col = 9
      then char_col_to_visual_col W line (char_col + 1) tabw - 1
      else char_col_to_visual_col W line char_col tabw)"

fun leading_walk :: "nat \<Rightarrow> nat \<Rightarrow> rstring \<Rightarrow> nat" where
  "leading_walk tab_w visual [] = visual"
| "leading_walk tab_w visual (c # cs) =
     (if c = 32 then leading_walk tab_w (visual + 1) cs
      else if c = 9 then leading_walk tab_w (visual + (tab_w - visual mod tab_w)) cs
      else visual)"

definition leading_visual_width :: "rstring \<Rightarrow> nat \<Rightarrow> nat" where
  "leading_visual_width line tabw = leading_walk (tab_or_one tabw) 0 line"

section \<open>Word characters\<close>

datatype kw_token = Alpha | Range nat nat | Code nat | Literal rchar

text \<open>\<open>str::parse::<u32>\<close>: digits after an optional \<open>+\<close>, within 32 bits.\<close>

definition parse_u32 :: "rstring \<Rightarrow> nat option" where
  "parse_u32 s = (
     let ds = (case s of c # cs \<Rightarrow> if c = 43 then cs else s | [] \<Rightarrow> []) in
     if ds = [] \<or> \<not> list_all is_digit ds \<or> dec_value ds 0 \<ge> 2 ^ 32 then None else Some (dec_value ds 0))"

definition split_once :: "rchar \<Rightarrow> rstring \<Rightarrow> (rstring \<times> rstring) option" where
  "split_once c s = (case position (\<lambda>x. x = c) s of None \<Rightarrow> None | Some k \<Rightarrow> Some (take k s, drop (Suc k) s))"

definition token_parse :: "rstring \<Rightarrow> kw_token option" where
  "token_parse token =
     (if token = [64] then Some Alpha
      else case (case split_once 45 token of None \<Rightarrow> None
                 | Some (lo, hi) \<Rightarrow> (case (parse_u32 lo, parse_u32 hi) of
                       (Some lo, Some hi) \<Rightarrow> Some (lo, hi) | _ \<Rightarrow> None)) of
        Some (lo, hi) \<Rightarrow> Some (Range lo hi)
      | None \<Rightarrow> (case parse_u32 token of
            Some n \<Rightarrow> Some (Code n)
          | None \<Rightarrow> (case token of [c] \<Rightarrow> Some (Literal c) | _ \<Rightarrow> None)))"

fun token_matches :: "(rchar \<Rightarrow> bool) \<Rightarrow> kw_token \<Rightarrow> rchar \<Rightarrow> bool" where
  "token_matches A Alpha c = A c"
| "token_matches A (Range lo hi) c = (lo \<le> c \<and> c \<le> hi)"
| "token_matches A (Code n) c = (c = n)"
| "token_matches A (Literal x) c = (c = x)"

definition trim_ws :: "rstring \<Rightarrow> rstring" where
  "trim_ws s = rev (dropWhile is_whitespace (rev (dropWhile is_whitespace s)))"

type_synonym keyword_spec = "kw_token list"

definition keyword_parse :: "rstring \<Rightarrow> keyword_spec" where
  "keyword_parse spec = List.map_filter (\<lambda>raw.
     let token = trim_ws raw in if token = [] then None else token_parse token) (split_on 44 spec)"

definition keyword_matches :: "(rchar \<Rightarrow> bool) \<Rightarrow> keyword_spec \<Rightarrow> rchar \<Rightarrow> bool" where
  "keyword_matches A spec c = list_ex (\<lambda>t. token_matches A t c) spec"

definition is_keyword_char :: "(rchar \<Rightarrow> bool) \<Rightarrow> rchar \<Rightarrow> rstring \<Rightarrow> bool" where
  "is_keyword_char A c spec = list_ex (\<lambda>raw.
     let token = trim_ws raw in
     token \<noteq> [] \<and> (case token_parse token of Some t \<Rightarrow> token_matches A t c | None \<Rightarrow> False)) (split_on 44 spec)"

end
