(* ===== verification/Motions.thy ===== *)
theory Motions
  imports Geom Scroll
begin

text \<open>
  The cursor motions of vim (\<open>crates/hjkl-engine/src/motions.rs\<close>).  The traits \<open>Cursor\<close> and
  \<open>Query\<close> give a motion the lines of the text and the cursor, \<open>FoldProvider\<close> the rows that
  folds leave visible; both are records of what the motions read.  The cache of one line is
  transparent.  A motion is \<open>None\<close> where the source panics.
\<close>

section \<open>The traits\<close>

record motion_buf =
  mb_lines :: "rstring list"
  mb_cursor :: position

record fold_provider =
  fp_next :: "nat \<Rightarrow> nat \<Rightarrow> nat option"
  fp_prev :: "nat \<Rightarrow> nat option"
  fp_hidden :: "nat \<Rightarrow> bool"

definition noop_folds :: fold_provider where
  "noop_folds = \<lparr>
     fp_next = (\<lambda>row rows. let last = rows - 1 in
       if last = 0 \<and> row = 0 then None else if row + 1 \<le> last then Some (row + 1) else None),
     fp_prev = (\<lambda>row. case row of 0 \<Rightarrow> None | Suc r \<Rightarrow> Some r),
     fp_hidden = (\<lambda>row. False)\<rparr>"

definition buffer_folds :: "fold_view \<Rightarrow> fold_provider" where
  "buffer_folds v = \<lparr>fp_next = (\<lambda>row rows. next_visible_row row v),
     fp_prev = (\<lambda>row. prev_visible_row row v), fp_hidden = (\<lambda>row. is_row_hidden row v)\<rparr>"

definition read_line_opt :: "motion_buf \<Rightarrow> nat \<Rightarrow> rstring option" where
  "read_line_opt b row = (if row \<ge> length (mb_lines b) then None else Some (mb_lines b ! row))"

definition read_line :: "motion_buf \<Rightarrow> nat \<Rightarrow> rstring" where
  "read_line b row = (case read_line_opt b row of Some l \<Rightarrow> l | None \<Rightarrow> [])"

text \<open>\<open>Cursor::set_cursor\<close> of the view clamps to the text.\<close>

definition write_cursor :: "position \<Rightarrow> motion_buf \<Rightarrow> motion_buf" where
  "write_cursor pos b = (
     let row = min (p_row pos) (length (mb_lines b) - 1)
     in b\<lparr>mb_cursor := Position row (min (p_col pos) (length (read_line b row)))\<rparr>)"

text \<open>\<open>line_bytes\<close> of a row is zero exactly when the row is empty or past the end.\<close>

definition row_empty :: "motion_buf \<Rightarrow> nat \<Rightarrow> bool" where
  "row_empty b row \<longleftrightarrow> read_line b row = []"

definition content_row_count :: "motion_buf \<Rightarrow> nat" where
  "content_row_count b = (
     let raw_count = length (mb_lines b); raw_last = raw_count - 1 in
     if raw_last > 0 \<and> row_empty b raw_last then raw_last else raw_count)"

definition last_col :: "rstring \<Rightarrow> nat" where
  "last_col line = length line - 1"

definition clamp_to_segment :: "nat \<Rightarrow> nat \<Rightarrow> nat \<Rightarrow> rstring \<Rightarrow> nat" where
  "clamp_to_segment st e visual_col line = (
     let line_max = last_col line; seg_max = (if e > st then e - 1 else st); want = st + visual_col
     in max (min (min want seg_max) line_max) (min st line_max))"

section \<open>Horizontal motions\<close>

abbreviation cur_row :: "motion_buf \<Rightarrow> nat" where "cur_row b \<equiv> p_row (mb_cursor b)"
abbreviation cur_col :: "motion_buf \<Rightarrow> nat" where "cur_col b \<equiv> p_col (mb_cursor b)"
abbreviation cur_line :: "motion_buf \<Rightarrow> rstring" where "cur_line b \<equiv> read_line b (cur_row b)"

definition move_left :: "nat \<Rightarrow> motion_buf \<Rightarrow> motion_buf" where
  "move_left count b = write_cursor (Position (cur_row b) (cur_col b - max count 1)) b"

definition move_right_in_line :: "nat \<Rightarrow> motion_buf \<Rightarrow> motion_buf" where
  "move_right_in_line count b =
     write_cursor (Position (cur_row b) (min (cur_col b + max count 1) (last_col (cur_line b)))) b"

definition move_right_to_end :: "nat \<Rightarrow> motion_buf \<Rightarrow> motion_buf" where
  "move_right_to_end count b =
     write_cursor (Position (cur_row b) (min (cur_col b + max count 1) (length (cur_line b)))) b"

fun space_steps :: "nat \<Rightarrow> motion_buf \<Rightarrow> motion_buf" where
  "space_steps 0 b = b"
| "space_steps (Suc k) b =
     (if cur_col b < last_col (cur_line b) then space_steps k (write_cursor (Position (cur_row b) (cur_col b + 1)) b)
      else if read_line_opt b (cur_row b + 1) \<noteq> None then space_steps k (write_cursor (Position (cur_row b + 1) 0) b)
      else b)"

definition move_space_fwd :: "nat \<Rightarrow> motion_buf \<Rightarrow> motion_buf" where
  "move_space_fwd count = space_steps (max count 1)"

fun backspace_steps :: "nat \<Rightarrow> motion_buf \<Rightarrow> motion_buf" where
  "backspace_steps 0 b = b"
| "backspace_steps (Suc k) b =
     (if cur_col b > 0 then backspace_steps k (write_cursor (Position (cur_row b) (cur_col b - 1)) b)
      else if cur_row b > 0 then
        backspace_steps k (write_cursor (Position (cur_row b - 1) (last_col (read_line b (cur_row b - 1)))) b)
      else b)"

definition move_backspace_back :: "nat \<Rightarrow> motion_buf \<Rightarrow> motion_buf" where
  "move_backspace_back count = backspace_steps (max count 1)"

definition move_line_start :: "motion_buf \<Rightarrow> motion_buf" where
  "move_line_start b = write_cursor (Position (cur_row b) 0) b"

definition first_non_blank :: "rstring \<Rightarrow> nat" where
  "first_non_blank line =
     (case position (\<lambda>c. \<not> (c = 32 \<or> c = 9)) line of Some k \<Rightarrow> k | None \<Rightarrow> last_col line)"

definition move_first_non_blank :: "motion_buf \<Rightarrow> motion_buf" where
  "move_first_non_blank b = write_cursor (Position (cur_row b) (first_non_blank (cur_line b))) b"

definition move_line_end :: "motion_buf \<Rightarrow> motion_buf" where
  "move_line_end b = write_cursor (Position (cur_row b) (last_col (cur_line b))) b"

definition move_goto_column :: "nat \<Rightarrow> motion_buf \<Rightarrow> motion_buf" where
  "move_goto_column count b =
     write_cursor (Position (cur_row b) (min (if count = 0 then 0 else count - 1) (last_col (cur_line b)))) b"

definition last_non_blank :: "rstring \<Rightarrow> nat" where
  "last_non_blank line =
     (case position (\<lambda>c. \<not> is_whitespace c) (rev line) of Some k \<Rightarrow> length line - 1 - k | None \<Rightarrow> 0)"

definition move_last_non_blank :: "motion_buf \<Rightarrow> motion_buf" where
  "move_last_non_blank b = write_cursor (Position (cur_row b) (last_non_blank (cur_line b))) b"

section \<open>Paragraphs and sections\<close>

text \<open>One repetition; \<open>owed\<close> says that more follow.  \<open>None\<close> is the failure of a counted
  motion that runs off the buffer.\<close>

function par_scan :: "motion_buf \<Rightarrow> int \<Rightarrow> bool \<Rightarrow> bool \<Rightarrow> bool \<Rightarrow> bool \<Rightarrow> int \<Rightarrow> int option" where
  "par_scan b lst forward owed did_skip first cr = (
     let empty = row_empty b (nat cr); did_skip = did_skip \<or> \<not> empty in
     if \<not> first \<and> did_skip \<and> empty then Some cr
     else
       let nx = (if forward then cr + 1 else cr - 1) in
       if nx < 0 \<or> nx > lst then (if owed then None else Some cr)
       else par_scan b lst forward owed did_skip False nx)"
  by pat_completeness auto

termination par_scan
  by (relation "measure (\<lambda>(b, lst, forward, owed, did_skip, first, cr).
        if forward then nat (lst + 1 - cr) else nat (cr + 1))")
    (auto simp: nat_less_iff split: if_splits)

declare par_scan.simps [simp del]

fun par_repeat :: "motion_buf \<Rightarrow> int \<Rightarrow> bool \<Rightarrow> nat \<Rightarrow> int \<Rightarrow> int option" where
  "par_repeat b lst forward 0 cr = Some cr"
| "par_repeat b lst forward (Suc remaining) cr =
     (case par_scan b lst forward (remaining > 0) False True cr of
        None \<Rightarrow> None
      | Some cr \<Rightarrow> par_repeat b lst forward remaining cr)"

definition find_paragraph :: "motion_buf \<Rightarrow> nat \<Rightarrow> bool \<Rightarrow> nat \<Rightarrow> nat option" where
  "find_paragraph b start_row forward count =
     map_option nat (par_repeat b (int (content_row_count b - 1)) forward (max count 1) (int start_row))"

definition move_paragraph_prev :: "nat \<Rightarrow> motion_buf \<Rightarrow> motion_buf" where
  "move_paragraph_prev count b =
     (case find_paragraph b (cur_row b) False count of None \<Rightarrow> b | Some row \<Rightarrow> write_cursor (Position row 0) b)"

definition move_paragraph_next :: "nat \<Rightarrow> motion_buf \<Rightarrow> motion_buf" where
  "move_paragraph_next count b =
     (case find_paragraph b (cur_row b) True count of
        None \<Rightarrow> b
      | Some row \<Rightarrow>
          let last = content_row_count b - 1;
              col = (if row = last then length (read_line b row) - 1 else 0)
          in write_cursor (Position row col) b)"

definition starts_with :: "rchar \<Rightarrow> rstring \<Rightarrow> bool" where
  "starts_with c line \<longleftrightarrow> (case line of x # xs \<Rightarrow> x = c | [] \<Rightarrow> False)"

text \<open>The row of the \<open>need\<close>-th line above that starts with \<open>c\<close>; the rope panics on a row
  past the end.\<close>

fun section_up :: "rchar \<Rightarrow> motion_buf \<Rightarrow> nat \<Rightarrow> nat \<Rightarrow> nat option" where
  "section_up c b need 0 = Some 0"
| "section_up c b need (Suc row) =
     (if need = 0 then Some (Suc row)
      else case read_line_opt b row of
        None \<Rightarrow> None
      | Some line \<Rightarrow> section_up c b (if starts_with c line then need - 1 else need) row)"

function section_down :: "rchar \<Rightarrow> motion_buf \<Rightarrow> nat \<Rightarrow> nat \<Rightarrow> nat \<Rightarrow> nat option" where
  "section_down c b lst need row =
     (if need = 0 \<or> row \<ge> lst then Some row
      else case read_line_opt b (row + 1) of
        None \<Rightarrow> None
      | Some line \<Rightarrow> section_down c b lst (if starts_with c line then need - 1 else need) (row + 1))"
  by pat_completeness auto

termination section_down by (relation "measure (\<lambda>(c, b, lst, need, row). lst - row)") auto

declare section_down.simps [simp del]

definition section_back :: "rchar \<Rightarrow> nat \<Rightarrow> motion_buf \<Rightarrow> motion_buf option" where
  "section_back c count b =
     map_option (\<lambda>row. write_cursor (Position row 0) b) (section_up c b (max count 1) (cur_row b))"

definition section_fwd :: "rchar \<Rightarrow> nat \<Rightarrow> motion_buf \<Rightarrow> motion_buf option" where
  "section_fwd c count b =
     map_option (\<lambda>row. write_cursor (Position row 0) b)
       (section_down c b (content_row_count b - 1) (max count 1) (cur_row b))"

definition move_section_backward :: "nat \<Rightarrow> motion_buf \<Rightarrow> motion_buf option" where
  "move_section_backward = section_back (ch CHR ''{'')"

definition move_section_forward :: "nat \<Rightarrow> motion_buf \<Rightarrow> motion_buf option" where
  "move_section_forward = section_fwd (ch CHR ''{'')"

definition move_section_end_backward :: "nat \<Rightarrow> motion_buf \<Rightarrow> motion_buf option" where
  "move_section_end_backward = section_back (ch CHR ''}'')"

definition move_section_end_forward :: "nat \<Rightarrow> motion_buf \<Rightarrow> motion_buf option" where
  "move_section_end_forward = section_fwd (ch CHR ''}'')"

section \<open>Lines\<close>

definition to_line :: "nat \<Rightarrow> motion_buf \<Rightarrow> motion_buf" where
  "to_line row b = move_first_non_blank (write_cursor (Position row 0) b)"

definition move_first_non_blank_next_line :: "nat \<Rightarrow> motion_buf \<Rightarrow> motion_buf" where
  "move_first_non_blank_next_line count b = (
     let last = content_row_count b - 1 in
     if cur_row b \<ge> last then b else to_line (min (cur_row b + max count 1) last) b)"

definition move_first_non_blank_prev_line :: "nat \<Rightarrow> motion_buf \<Rightarrow> motion_buf" where
  "move_first_non_blank_prev_line count b =
     (if cur_row b = 0 then b else to_line (cur_row b - max count 1) b)"

definition move_first_non_blank_line :: "nat \<Rightarrow> motion_buf \<Rightarrow> motion_buf" where
  "move_first_non_blank_line count b = (
     let last = content_row_count b - 1; offset = max count 1 - 1 in
     if offset > 0 \<and> cur_row b \<ge> last then b else to_line (min (cur_row b + offset) last) b)"

definition move_top :: "motion_buf \<Rightarrow> motion_buf" where
  "move_top = to_line 0"

definition move_bottom :: "nat \<Rightarrow> motion_buf \<Rightarrow> motion_buf" where
  "move_bottom count b = (
     let last_content = content_row_count b - 1 in
     to_line (if count = 0 then last_content else min (count - 1) last_content) b)"

definition move_viewport_top :: "viewport \<Rightarrow> nat \<Rightarrow> motion_buf \<Rightarrow> motion_buf" where
  "move_viewport_top v offset b = to_line (min (top_row v + offset) (content_row_count b - 1)) b"

definition move_viewport_middle :: "viewport \<Rightarrow> motion_buf \<Rightarrow> motion_buf" where
  "move_viewport_middle v b = (
     let last = content_row_count b - 1;
         visible_bot = min (top_row v + (unat (vp_height v) - 1)) last
     in to_line (min (top_row v + (visible_bot - top_row v) div 2) last) b)"

definition move_viewport_bottom :: "viewport \<Rightarrow> nat \<Rightarrow> motion_buf \<Rightarrow> motion_buf" where
  "move_viewport_bottom v offset b = (
     let last = content_row_count b - 1;
         visible_bot = min (top_row v + (unat (vp_height v) - 1)) last
     in to_line (min (max (visible_bot - offset) (top_row v)) last) b)"

end
