(* ===== verification/WordMotions.thy ===== *)
theory WordMotions
  imports Motions
begin

text \<open>
  The word motions, the bracket match and the char search of
  \<open>crates/hjkl-engine/src/motions.rs\<close>.  The loops over the cells of a text end because every
  step leaves a cell for a later (or an earlier) one.
\<close>

section \<open>Closed folds\<close>

definition closed_fold_at :: "fold_provider \<Rightarrow> nat \<Rightarrow> nat \<Rightarrow> (nat \<times> nat) option" where
  "closed_fold_at f rows row =
     (case (if fp_hidden f row then fp_prev f row else Some row) of
        None \<Rightarrow> None
      | Some first \<Rightarrow>
          if \<not> fp_hidden f (first + 1) then None
          else Some (first, case fp_next f first rows of Some nx \<Rightarrow> nx - 1 | None \<Rightarrow> rows - 1))"

definition fold_jump_fwd :: "motion_buf \<Rightarrow> fold_provider \<Rightarrow> position \<Rightarrow> position option" where
  "fold_jump_fwd b f from =
     (case closed_fold_at f (content_row_count b) (p_row from) of
        None \<Rightarrow> None
      | Some (first, lst) \<Rightarrow>
          let jumped = Position lst (length (read_line b lst) - 1)
          in if jumped \<noteq> from then Some jumped else None)"

definition fold_jump_back :: "motion_buf \<Rightarrow> fold_provider \<Rightarrow> position \<Rightarrow> position option" where
  "fold_jump_back b f from =
     (case closed_fold_at f (content_row_count b) (p_row from) of
        None \<Rightarrow> None
      | Some (first, lst) \<Rightarrow>
          let jumped = Position first 0 in if jumped \<noteq> from then Some jumped else None)"

section \<open>Cells\<close>

datatype char_kind = WordKind | PunctKind | SpaceKind

definition char_kind_of :: "(rchar \<Rightarrow> bool) \<Rightarrow> keyword_spec \<Rightarrow> bool \<Rightarrow> rchar \<Rightarrow> char_kind" where
  "char_kind_of A spec big c =
     (if is_whitespace c then SpaceKind
      else if big \<or> keyword_matches A spec c then WordKind else PunctKind)"

definition char_at :: "motion_buf \<Rightarrow> position \<Rightarrow> rchar option" where
  "char_at b pos = (let line = read_line b (p_row pos) in
     if p_col pos < length line then Some (line ! p_col pos) else None)"

definition step_forward :: "motion_buf \<Rightarrow> position \<Rightarrow> position option" where
  "step_forward b pos =
     (if p_col pos + 1 < length (read_line b (p_row pos)) then Some (Position (p_row pos) (p_col pos + 1))
      else if p_row pos + 1 < content_row_count b then Some (Position (p_row pos + 1) 0)
      else None)"

definition dec :: "motion_buf \<Rightarrow> position \<Rightarrow> position option" where
  "dec b pos =
     (if p_col pos > 0 then Some (Position (p_row pos) (p_col pos - 1))
      else if p_row pos = 0 then None
      else Some (Position (p_row pos - 1) (length (read_line b (p_row pos - 1)))))"

definition inc :: "motion_buf \<Rightarrow> position \<Rightarrow> position option" where
  "inc b pos =
     (if p_col pos < length (read_line b (p_row pos)) then Some (Position (p_row pos) (p_col pos + 1))
      else if p_row pos + 1 < content_row_count b then Some (Position (p_row pos + 1) 0)
      else None)"

definition cls :: "(rchar \<Rightarrow> char_kind) \<Rightarrow> motion_buf \<Rightarrow> position \<Rightarrow> char_kind" where
  "cls kd b pos = (case char_at b pos of Some c \<Rightarrow> kd c | None \<Rightarrow> SpaceKind)"

definition kind_at :: "(rchar \<Rightarrow> char_kind) \<Rightarrow> motion_buf \<Rightarrow> position \<Rightarrow> char_kind option" where
  "kind_at kd b pos = map_option kd (char_at b pos)"

definition end_of_buffer :: "motion_buf \<Rightarrow> position" where
  "end_of_buffer b = (let last_row = content_row_count b - 1 in Position last_row (length (read_line b last_row)))"

text \<open>The cells still ahead, and those behind.\<close>

definition cells_ahead :: "motion_buf \<Rightarrow> position \<Rightarrow> (nat \<times> nat)" where
  "cells_ahead b pos = (length (mb_lines b) - p_row pos, length (read_line b (p_row pos)) - p_col pos)"

lemma content_row_count_le: "content_row_count b \<le> length (mb_lines b)"
  by (auto simp: content_row_count_def Let_def)

lemma step_forward_ahead:
  "step_forward b pos = Some nx \<Longrightarrow> (cells_ahead b nx, cells_ahead b pos) \<in> less_than <*lex*> less_than"
  using content_row_count_le [of b]
  by (auto simp: step_forward_def cells_ahead_def split: if_splits)

lemma dec_behind:
  "dec b pos = Some q \<Longrightarrow> ((p_row q, p_col q), (p_row pos, p_col pos)) \<in> less_than <*lex*> less_than"
  by (auto simp: dec_def split: if_splits)

section \<open>Forward\<close>

text \<open>The walks of \<open>next_word_start\<close>: \<open>Inl\<close> is an early return, \<open>Inr\<close> the cell reached.\<close>

function run_fwd :: "(rchar \<Rightarrow> char_kind) \<Rightarrow> motion_buf \<Rightarrow> char_kind \<Rightarrow> position \<Rightarrow> position + position" where
  "run_fwd kd b k cur =
     (if kind_at kd b cur = Some k then
        (case step_forward b cur of
           None \<Rightarrow> Inl (end_of_buffer b)
         | Some nx \<Rightarrow> if p_row nx \<noteq> p_row cur then Inr nx else run_fwd kd b k nx)
      else Inr cur)"
  by pat_completeness auto

termination run_fwd
  by (relation "inv_image (less_than <*lex*> less_than) (\<lambda>(kd, b, k, cur). cells_ahead b cur)")
    (auto simp: step_forward_ahead wf_inv_image)

function skip_empty :: "motion_buf \<Rightarrow> position \<Rightarrow> position option" where
  "skip_empty b cur =
     (if char_at b cur = None then
        (case step_forward b cur of None \<Rightarrow> None | Some nx \<Rightarrow> skip_empty b nx)
      else Some cur)"
  by pat_completeness auto

termination skip_empty
  by (relation "inv_image (less_than <*lex*> less_than) (\<lambda>(b, cur). cells_ahead b cur)")
    (auto simp: step_forward_ahead wf_inv_image)

function skip_space :: "(rchar \<Rightarrow> char_kind) \<Rightarrow> motion_buf \<Rightarrow> position \<Rightarrow> position" where
  "skip_space kd b cur =
     (if kind_at kd b cur = Some SpaceKind then
        (case step_forward b cur of None \<Rightarrow> end_of_buffer b | Some nx \<Rightarrow> skip_space kd b nx)
      else cur)"
  by pat_completeness auto

termination skip_space
  by (relation "inv_image (less_than <*lex*> less_than) (\<lambda>(kd, b, cur). cells_ahead b cur)")
    (auto simp: step_forward_ahead wf_inv_image)

declare run_fwd.simps [simp del] skip_empty.simps [simp del] skip_space.simps [simp del]

definition next_word_start :: "(rchar \<Rightarrow> char_kind) \<Rightarrow> motion_buf \<Rightarrow> position \<Rightarrow> bool \<Rightarrow> position option" where
  "next_word_start kd b from big =
     (case kind_at kd b from of
        Some k \<Rightarrow>
          (case run_fwd kd b k from of Inl p \<Rightarrow> Some p | Inr cur \<Rightarrow> Some (skip_space kd b cur))
      | None \<Rightarrow>
          (case step_forward b from of
             None \<Rightarrow> None
           | Some cur \<Rightarrow> map_option (skip_space kd b) (if big then skip_empty b cur else Some cur)))"

text \<open>The walks of \<open>next_word_end\<close>.\<close>

function to_nonblank :: "(rchar \<Rightarrow> char_kind) \<Rightarrow> motion_buf \<Rightarrow> position \<Rightarrow> position + position" where
  "to_nonblank kd b cur =
     (if kind_at kd b cur = None \<or> kind_at kd b cur = Some SpaceKind then
        (case step_forward b cur of None \<Rightarrow> Inl cur | Some nx \<Rightarrow> to_nonblank kd b nx)
      else Inr cur)"
  by pat_completeness auto

termination to_nonblank
  by (relation "inv_image (less_than <*lex*> less_than) (\<lambda>(kd, b, cur). cells_ahead b cur)")
    (auto simp: step_forward_ahead wf_inv_image)

function end_of_run :: "(rchar \<Rightarrow> char_kind) \<Rightarrow> motion_buf \<Rightarrow> char_kind \<Rightarrow> position \<Rightarrow> position" where
  "end_of_run kd b k cur =
     (case step_forward b cur of
        None \<Rightarrow> cur
      | Some nx \<Rightarrow>
          if p_row nx \<noteq> p_row cur then cur
          else if kind_at kd b nx = Some k then end_of_run kd b k nx else cur)"
  by pat_completeness auto

termination end_of_run
  by (relation "inv_image (less_than <*lex*> less_than) (\<lambda>(kd, b, k, cur). cells_ahead b cur)")
    (auto simp: step_forward_ahead wf_inv_image)

declare to_nonblank.simps [simp del] end_of_run.simps [simp del]

definition next_word_end :: "(rchar \<Rightarrow> char_kind) \<Rightarrow> motion_buf \<Rightarrow> position \<Rightarrow> position option" where
  "next_word_end kd b from =
     (case step_forward b from of
        None \<Rightarrow> None
      | Some cur \<Rightarrow>
          (case to_nonblank kd b cur of
             Inl p \<Rightarrow> Some p
           | Inr cur \<Rightarrow> map_option (\<lambda>k. end_of_run kd b k cur) (kind_at kd b cur)))"

section \<open>Backward\<close>

text \<open>Back over blanks: \<open>Inl\<close> where the walk returns (the start of the buffer, an empty
  line), \<open>Inr\<close> on a non-blank.\<close>

function blank_back :: "(rchar \<Rightarrow> char_kind) \<Rightarrow> motion_buf \<Rightarrow> position \<Rightarrow> position + position" where
  "blank_back kd b cur =
     (if cls kd b cur = SpaceKind then
        if p_col cur = 0 \<and> row_empty b (p_row cur) then Inl cur
        else (case dec b cur of None \<Rightarrow> Inl cur | Some q \<Rightarrow> blank_back kd b q)
      else Inr cur)"
  by pat_completeness auto

termination blank_back
  by (relation "inv_image (less_than <*lex*> less_than) (\<lambda>(kd, b, cur). (p_row cur, p_col cur))")
    (auto dest: dec_behind simp: wf_inv_image)

function run_back :: "(rchar \<Rightarrow> char_kind) \<Rightarrow> motion_buf \<Rightarrow> char_kind \<Rightarrow> position \<Rightarrow> position + position" where
  "run_back kd b k cur =
     (if cls kd b cur = k then (case dec b cur of None \<Rightarrow> Inl cur | Some q \<Rightarrow> run_back kd b k q)
      else Inr cur)"
  by pat_completeness auto

termination run_back
  by (relation "inv_image (less_than <*lex*> less_than) (\<lambda>(kd, b, k, cur). (p_row cur, p_col cur))")
    (auto dest: dec_behind simp: wf_inv_image)

declare blank_back.simps [simp del] run_back.simps [simp del]

definition prev_word_start :: "(rchar \<Rightarrow> char_kind) \<Rightarrow> motion_buf \<Rightarrow> position \<Rightarrow> position option" where
  "prev_word_start kd b from =
     (case dec b from of
        None \<Rightarrow> None
      | Some cur \<Rightarrow>
          (case blank_back kd b cur of
             Inl p \<Rightarrow> Some p
           | Inr cur \<Rightarrow>
               (case run_back kd b (cls kd b cur) cur of
                  Inl p \<Rightarrow> Some p
                | Inr cur \<Rightarrow> Some (case inc b cur of Some p \<Rightarrow> p | None \<Rightarrow> cur))))"

definition prev_word_end :: "(rchar \<Rightarrow> char_kind) \<Rightarrow> motion_buf \<Rightarrow> position \<Rightarrow> position option" where
  "prev_word_end kd b from =
     (case dec b from of
        None \<Rightarrow> None
      | Some cur \<Rightarrow>
          (case (if cls kd b from \<noteq> SpaceKind then run_back kd b (cls kd b from) cur else Inr cur) of
             Inl p \<Rightarrow> Some p
           | Inr cur \<Rightarrow> (case blank_back kd b cur of Inl p \<Rightarrow> Some p | Inr p \<Rightarrow> Some p)))"

section \<open>The motions\<close>

definition at_word_end :: "(rchar \<Rightarrow> char_kind) \<Rightarrow> motion_buf \<Rightarrow> position \<Rightarrow> bool" where
  "at_word_end kd b pos = (
     let here = cls kd b pos in
     if here = SpaceKind then False
     else (if p_col pos + 1 < length (read_line b (p_row pos))
           then cls kd b (Position (p_row pos) (p_col pos + 1)) else SpaceKind) \<noteq> here)"

definition jump_first :: "(motion_buf \<Rightarrow> position \<Rightarrow> position option) \<Rightarrow> motion_buf \<Rightarrow> motion_buf \<times> position" where
  "jump_first jump b = (case jump b (mb_cursor b) of
     None \<Rightarrow> (b, mb_cursor b) | Some jumped \<Rightarrow> (write_cursor jumped b, jumped))"

fun word_steps :: "(motion_buf \<Rightarrow> position \<Rightarrow> position option) \<Rightarrow> (motion_buf \<Rightarrow> position \<Rightarrow> position option) \<Rightarrow> nat \<Rightarrow> motion_buf \<Rightarrow> motion_buf" where
  "word_steps jump mv 0 b = b"
| "word_steps jump mv (Suc k) b = (
     let (b, from) = jump_first jump b in
     case mv b from of None \<Rightarrow> b | Some p \<Rightarrow> word_steps jump mv k (write_cursor p b))"

definition move_word_fwd :: "(rchar \<Rightarrow> bool) \<Rightarrow> fold_provider \<Rightarrow> bool \<Rightarrow> nat \<Rightarrow> rstring \<Rightarrow> motion_buf \<Rightarrow> motion_buf" where
  "move_word_fwd A f big count iskeyword = (
     let kd = char_kind_of A (keyword_parse iskeyword) big in
     word_steps (\<lambda>b. fold_jump_fwd b f) (\<lambda>b from. next_word_start kd b from big) (max count 1))"

definition move_word_back :: "(rchar \<Rightarrow> bool) \<Rightarrow> fold_provider \<Rightarrow> bool \<Rightarrow> nat \<Rightarrow> rstring \<Rightarrow> motion_buf \<Rightarrow> motion_buf" where
  "move_word_back A f big count iskeyword = (
     let kd = char_kind_of A (keyword_parse iskeyword) big in
     word_steps (\<lambda>b. fold_jump_back b f) (prev_word_start kd) (max count 1))"

fun word_end_steps :: "(rchar \<Rightarrow> char_kind) \<Rightarrow> fold_provider \<Rightarrow> bool \<Rightarrow> nat \<Rightarrow> motion_buf \<Rightarrow> motion_buf" where
  "word_end_steps kd f stop 0 b = b"
| "word_end_steps kd f stop (Suc k) b = (
     let (b, from) = jump_first (\<lambda>b. fold_jump_fwd b f) b in
     if stop \<and> at_word_end kd b from then word_end_steps kd f False k b
     else case next_word_end kd b from of
       None \<Rightarrow> b | Some p \<Rightarrow> word_end_steps kd f False k (write_cursor p b))"

definition move_word_end :: "(rchar \<Rightarrow> bool) \<Rightarrow> fold_provider \<Rightarrow> bool \<Rightarrow> nat \<Rightarrow> bool \<Rightarrow> rstring \<Rightarrow> motion_buf \<Rightarrow> motion_buf" where
  "move_word_end A f big count stop iskeyword =
     word_end_steps (char_kind_of A (keyword_parse iskeyword) big) f stop (max count 1)"

definition move_word_end_back :: "(rchar \<Rightarrow> bool) \<Rightarrow> bool \<Rightarrow> nat \<Rightarrow> rstring \<Rightarrow> motion_buf \<Rightarrow> motion_buf" where
  "move_word_end_back A big count iskeyword = (
     let kd = char_kind_of A (keyword_parse iskeyword) big in
     word_steps (\<lambda>b from. None) (prev_word_end kd) (max count 1))"

end
