(* ===== verification/LineMotions.thy ===== *)
theory LineMotions
  imports WordMotions
begin

text \<open>
  The bracket match, the char search and the vertical motions of
  \<open>crates/hjkl-engine/src/motions.rs\<close>.  A vertical motion also reads and writes the column
  that \<open>j\<close> and \<open>k\<close> aim at (\<open>sticky_col\<close>, a display column).
\<close>

section \<open>Brackets\<close>

text \<open>Opening and closing bracket and the direction of the search.\<close>

definition bracket_pair :: "rchar \<Rightarrow> (rchar \<times> rchar \<times> bool) option" where
  "bracket_pair c =
     (if c = ch CHR ''('' then Some (ch CHR ''('', ch CHR '')'', True)
      else if c = ch CHR '')'' then Some (ch CHR ''('', ch CHR '')'', False)
      else if c = ch CHR ''['' then Some (ch CHR ''['', ch CHR '']'', True)
      else if c = ch CHR '']'' then Some (ch CHR ''['', ch CHR '']'', False)
      else if c = ch CHR ''{'' then Some (ch CHR ''{'', ch CHR ''}'', True)
      else if c = ch CHR ''}'' then Some (ch CHR ''{'', ch CHR ''}'', False)
      else if c = ch CHR ''<'' then Some (ch CHR ''<'', ch CHR ''>'', True)
      else if c = ch CHR ''>'' then Some (ch CHR ''<'', ch CHR ''>'', False)
      else None)"

text \<open>One row: the column of the match, or the depth at its end.\<close>

fun match_fwd_line :: "rchar \<Rightarrow> rchar \<Rightarrow> int \<Rightarrow> nat \<Rightarrow> rstring \<Rightarrow> nat + int" where
  "match_fwd_line op cl depth i [] = Inr depth"
| "match_fwd_line op cl depth i (c # cs) =
     (if c = op then match_fwd_line op cl (depth + 1) (Suc i) cs
      else if c = cl then
        (if depth - 1 = 0 then Inl i else match_fwd_line op cl (depth - 1) (Suc i) cs)
      else match_fwd_line op cl depth (Suc i) cs)"

fun match_fwd_rows :: "rchar \<Rightarrow> rchar \<Rightarrow> int \<Rightarrow> nat \<Rightarrow> rstring list \<Rightarrow> (nat \<times> nat) option" where
  "match_fwd_rows op cl depth r [] = None"
| "match_fwd_rows op cl depth r (l # ls) =
     (case match_fwd_line op cl depth 0 l of
        Inl i \<Rightarrow> Some (r, i)
      | Inr depth \<Rightarrow> match_fwd_rows op cl depth (Suc r) ls)"

text \<open>Backwards; the list is the part of the row to the left, reversed, and \<open>i\<close> the column
  of its first char.\<close>

fun match_back_line :: "rchar \<Rightarrow> rchar \<Rightarrow> int \<Rightarrow> nat \<Rightarrow> rstring \<Rightarrow> nat + int" where
  "match_back_line op cl depth i [] = Inr depth"
| "match_back_line op cl depth i (c # cs) =
     (if c = cl then match_back_line op cl (depth + 1) (i - 1) cs
      else if c = op then
        (if depth - 1 = 0 then Inl i else match_back_line op cl (depth - 1) (i - 1) cs)
      else match_back_line op cl depth (i - 1) cs)"

fun match_back_rows :: "rchar \<Rightarrow> rchar \<Rightarrow> motion_buf \<Rightarrow> int \<Rightarrow> nat \<Rightarrow> (nat \<times> nat) option" where
  "match_back_rows op cl b depth 0 = None"
| "match_back_rows op cl b depth (Suc r) =
     (case match_back_line op cl depth (length (read_line b r) - 1) (rev (read_line b r)) of
        Inl i \<Rightarrow> Some (r, i)
      | Inr depth \<Rightarrow> match_back_rows op cl b depth r)"

definition matching_bracket_pos :: "motion_buf \<Rightarrow> nat \<Rightarrow> nat \<Rightarrow> (nat \<times> nat) option" where
  "matching_bracket_pos b row col =
     (case char_at b (Position row col) of
        None \<Rightarrow> None
      | Some c \<Rightarrow>
          (case bracket_pair c of
             None \<Rightarrow> None
           | Some (op, cl, forward) \<Rightarrow>
               if forward then
                 (case match_fwd_line op cl 0 col (drop col (read_line b row)) of
                    Inl i \<Rightarrow> Some (row, i)
                  | Inr depth \<Rightarrow> match_fwd_rows op cl depth (row + 1) (drop (row + 1) (mb_lines b)))
               else
                 (case match_back_line op cl 0 col (rev (take (col + 1) (read_line b row))) of
                    Inl i \<Rightarrow> Some (row, i)
                  | Inr depth \<Rightarrow> match_back_rows op cl b depth row)))"

definition is_match_pair :: "rchar \<Rightarrow> bool" where
  "is_match_pair c \<longleftrightarrow> c \<in> {ch CHR ''('', ch CHR '')'', ch CHR ''['', ch CHR '']'', ch CHR ''{'', ch CHR ''}''}"

definition match_bracket :: "motion_buf \<Rightarrow> bool \<times> motion_buf" where
  "match_bracket b =
     (case read_line_opt b (cur_row b) of
        None \<Rightarrow> (False, b)
      | Some line \<Rightarrow>
          (case position is_match_pair (drop (cur_col b) line) of
             None \<Rightarrow> (False, b)
           | Some k \<Rightarrow>
               (case matching_bracket_pos b (cur_row b) (cur_col b + k) of
                  Some (r, c) \<Rightarrow> (True, write_cursor (Position r c) b)
                | None \<Rightarrow> (False, b))))"

section \<open>The search for a char on the row\<close>

definition find_target :: "rstring \<Rightarrow> nat \<Rightarrow> rchar \<Rightarrow> bool \<Rightarrow> bool \<Rightarrow> bool \<Rightarrow> nat option" where
  "find_target cs col c forward till skip_adjacent =
     (if forward then
        let from = (if skip_adjacent \<and> till \<and> col + 1 < length cs \<and> cs ! (col + 1) = c then col + 2 else col + 1)
        in map_option (\<lambda>k. let i = from + k in if till then i - 1 else i) (position (\<lambda>x. x = c) (drop from cs))
      else
        let upto = (if skip_adjacent \<and> till \<and> col > 0 \<and> col - 1 < length cs \<and> cs ! (col - 1) = c then col - 1 else col)
        in map_option (\<lambda>k. let i = upto - 1 - k in if till then i + 1 else i)
             (position (\<lambda>x. x = c) (rev (take upto cs))))"

text \<open>The backward search indexes the row from the cursor, and panics when a stale cursor
  stands past its end.\<close>

definition find_char_on_line :: "rchar \<Rightarrow> bool \<Rightarrow> bool \<Rightarrow> bool \<Rightarrow> motion_buf \<Rightarrow> (bool \<times> motion_buf) option" where
  "find_char_on_line c forward till skip_adjacent b =
     (case read_line_opt b (cur_row b) of
        None \<Rightarrow> Some (False, b)
      | Some cs \<Rightarrow>
          if cs = [] then Some (False, b)
          else if \<not> forward \<and> cur_col b > length cs then None
          else (case find_target cs (cur_col b) c forward till skip_adjacent of
             Some col \<Rightarrow> Some (True, write_cursor (Position (cur_row b) col) b)
           | None \<Rightarrow> Some (False, b)))"

section \<open>Vertical motions\<close>

fun prev_rows :: "fold_provider \<Rightarrow> nat \<Rightarrow> nat \<Rightarrow> nat" where
  "prev_rows f 0 r = r"
| "prev_rows f (Suc k) r = (case fp_prev f r of Some p \<Rightarrow> prev_rows f k p | None \<Rightarrow> r)"

fun next_rows :: "fold_provider \<Rightarrow> nat \<Rightarrow> nat \<Rightarrow> nat \<Rightarrow> nat" where
  "next_rows f rows 0 r = r"
| "next_rows f rows (Suc k) r = (case fp_next f r rows of Some p \<Rightarrow> next_rows f rows k p | None \<Rightarrow> r)"

definition wanted_col :: "(rchar \<Rightarrow> nat option) \<Rightarrow> motion_buf \<Rightarrow> nat option \<Rightarrow> nat \<Rightarrow> nat" where
  "wanted_col W b sticky_col tabstop =
     (case sticky_col of Some col \<Rightarrow> col | None \<Rightarrow> cursor_visual_col W (cur_line b) (cur_col b) tabstop)"

definition vertical_target :: "motion_buf \<Rightarrow> fold_provider \<Rightarrow> int \<Rightarrow> nat" where
  "vertical_target b f delta =
     (if delta < 0 then
        let start = (if fp_hidden f (cur_row b) then
                       (case fp_prev f (cur_row b) of Some first \<Rightarrow> first | None \<Rightarrow> cur_row b)
                     else cur_row b)
        in prev_rows f (nat (- delta)) start
      else next_rows f (content_row_count b) (nat delta) (cur_row b))"

definition move_vertical :: "(rchar \<Rightarrow> nat option) \<Rightarrow> fold_provider \<Rightarrow> int \<Rightarrow> nat \<Rightarrow> nat option \<Rightarrow> motion_buf \<Rightarrow> motion_buf \<times> nat option" where
  "move_vertical W f delta tabstop sticky_col b = (
     let want = wanted_col W b sticky_col tabstop;
         target_row = vertical_target b f delta
     in if target_row = cur_row b then (b, Some want)
        else
          let line = read_line b target_row;
              char_col = visual_col_to_char_col W line want tabstop
          in (write_cursor (Position target_row (min char_col (last_col line))) b, Some want))"

definition move_up :: "(rchar \<Rightarrow> nat option) \<Rightarrow> fold_provider \<Rightarrow> nat \<Rightarrow> nat \<Rightarrow> nat option \<Rightarrow> motion_buf \<Rightarrow> motion_buf \<times> nat option" where
  "move_up W f count = move_vertical W f (- int (max count 1))"

definition move_down :: "(rchar \<Rightarrow> nat option) \<Rightarrow> fold_provider \<Rightarrow> nat \<Rightarrow> nat \<Rightarrow> nat option \<Rightarrow> motion_buf \<Rightarrow> motion_buf \<times> nat option" where
  "move_down W f count = move_vertical W f (int (max count 1))"

text \<open>One step under wrap, with the line and the segments of the cursor's row; \<open>None\<close> when it
  would leave the buffer.\<close>

type_synonym screen_walker = "motion_buf \<times> rstring \<times> (nat \<times> nat) list"

definition into_row :: "(rchar \<Rightarrow> nat option) \<Rightarrow> viewport \<Rightarrow> ((nat \<times> nat) list \<Rightarrow> nat \<times> nat) \<Rightarrow> nat \<Rightarrow> nat \<Rightarrow> motion_buf \<Rightarrow> screen_walker" where
  "into_row W v pick visual_col row b = (
     let line = read_line b row; segs = wrap_segments W line (text_width v) (vp_wrap v); (s, e) = pick segs
     in (write_cursor (Position row (clamp_to_segment s e visual_col line)) b, line, segs))"

definition step_screen :: "(rchar \<Rightarrow> nat option) \<Rightarrow> fold_provider \<Rightarrow> viewport \<Rightarrow> bool \<Rightarrow> nat \<Rightarrow> screen_walker \<Rightarrow> screen_walker option" where
  "step_screen W f v down visual_col st = (
     case st of (b, line, segs) \<Rightarrow>
       let seg_idx = segment_for_col segs (cur_col b) in
       if down then
         if seg_idx + 1 < length segs then
           let (s, e) = segs ! (seg_idx + 1)
           in Some (write_cursor (Position (cur_row b) (clamp_to_segment s e visual_col line)) b, line, segs)
         else (case fp_next f (cur_row b) (content_row_count b) of
             None \<Rightarrow> None
           | Some row \<Rightarrow> Some (into_row W v (\<lambda>segs. segs ! 0) visual_col row b))
       else
         if seg_idx > 0 then
           let (s, e) = segs ! (seg_idx - 1)
           in Some (write_cursor (Position (cur_row b) (clamp_to_segment s e visual_col line)) b, line, segs)
         else (case fp_prev f (cur_row b) of
             None \<Rightarrow> None
           | Some row \<Rightarrow> Some (into_row W v (\<lambda>segs. if segs = [] then (0, 0) else last segs) visual_col row b)))"

fun screen_steps :: "(rchar \<Rightarrow> nat option) \<Rightarrow> fold_provider \<Rightarrow> viewport \<Rightarrow> bool \<Rightarrow> nat \<Rightarrow> nat \<Rightarrow> screen_walker \<Rightarrow> screen_walker" where
  "screen_steps W f v down visual_col 0 st = st"
| "screen_steps W f v down visual_col (Suc k) st =
     (case step_screen W f v down visual_col st of None \<Rightarrow> st | Some st \<Rightarrow> screen_steps W f v down visual_col k st)"

text \<open>The start of the walk at the edge of a closed fold.\<close>

definition leave_fold :: "fold_provider \<Rightarrow> bool \<Rightarrow> motion_buf \<Rightarrow> motion_buf" where
  "leave_fold f down b =
     (case closed_fold_at f (content_row_count b) (cur_row b) of
        None \<Rightarrow> b
      | Some (first, lst) \<Rightarrow>
          let row = (if down then lst else first) in
          if row \<noteq> cur_row b
          then write_cursor (Position row (min (cur_col b) (last_col (read_line b row)))) b else b)"

definition move_screen_vertical :: "(rchar \<Rightarrow> nat option) \<Rightarrow> fold_provider \<Rightarrow> viewport \<Rightarrow> int \<Rightarrow> nat \<Rightarrow> nat option \<Rightarrow> motion_buf \<Rightarrow> motion_buf \<times> nat option" where
  "move_screen_vertical W f v delta tabstop sticky_col b =
     (if vp_wrap v = NoWrap \<or> text_width v = 0 then move_vertical W f delta tabstop sticky_col b
      else
        let want = wanted_col W b sticky_col tabstop;
            down = delta > 0;
            b = leave_fold f down b;
            line = cur_line b;
            segs = wrap_segments W line (text_width v) (vp_wrap v);
            visual_col = cur_col b - fst (segs ! segment_for_col segs (cur_col b))
        in (fst (screen_steps W f v down visual_col (nat \<bar>delta\<bar>) (b, line, segs)), Some want))"

definition move_screen_up :: "(rchar \<Rightarrow> nat option) \<Rightarrow> fold_provider \<Rightarrow> viewport \<Rightarrow> nat \<Rightarrow> nat \<Rightarrow> nat option \<Rightarrow> motion_buf \<Rightarrow> motion_buf \<times> nat option" where
  "move_screen_up W f v count = move_screen_vertical W f v (- int (max count 1))"

definition move_screen_down :: "(rchar \<Rightarrow> nat option) \<Rightarrow> fold_provider \<Rightarrow> viewport \<Rightarrow> nat \<Rightarrow> nat \<Rightarrow> nat option \<Rightarrow> motion_buf \<Rightarrow> motion_buf \<times> nat option" where
  "move_screen_down W f v count = move_screen_vertical W f v (int (max count 1))"

end
