(* ===== verification/BracketLaws.thy ===== *)
theory BracketLaws
  imports LineMotions
begin

text \<open>
  The bracket match is symmetric: the match of the match of a bracket is the bracket itself.
  The scans over rows are a scan over the cells of the text in order, and a scan stops at the
  first cell where the brackets balance.
\<close>

section \<open>Scanning a list of cells\<close>

type_synonym cell = "(nat \<times> nat) \<times> rchar"

fun scan :: "rchar \<Rightarrow> rchar \<Rightarrow> int \<Rightarrow> cell list \<Rightarrow> (nat \<times> nat) option" where
  "scan op cl d [] = None"
| "scan op cl d ((p, c) # xs) =
     (if c = op then scan op cl (d + 1) xs
      else if c = cl then (if d - 1 = 0 then Some p else scan op cl (d - 1) xs)
      else scan op cl d xs)"

definition weight :: "rchar \<Rightarrow> rchar \<Rightarrow> cell \<Rightarrow> int" where
  "weight op cl x = (if snd x = op then 1 else if snd x = cl then - 1 else 0)"

definition bal :: "rchar \<Rightarrow> rchar \<Rightarrow> cell list \<Rightarrow> int" where
  "bal op cl xs = sum_list (map (weight op cl) xs)"

lemma bal_simps [simp]:
  "bal op cl [] = 0"
  "bal op cl (x # xs) = weight op cl x + bal op cl xs"
  "bal op cl (xs @ ys) = bal op cl xs + bal op cl ys"
  "bal op cl (rev xs) = bal op cl xs"
  by (simp_all add: bal_def rev_map [symmetric] sum_list_rev)

lemma bal_swap: "op \<noteq> cl \<Longrightarrow> bal cl op xs = - bal op cl xs"
  by (induction xs) (auto simp: weight_def)

lemma scan_Cons:
  "scan op cl d (x # xs) =
     (if snd x = cl \<and> cl \<noteq> op \<and> d = 1 then Some (fst x) else scan op cl (d + weight op cl x) xs)"
  by (cases x) (simp add: weight_def)

lemma scan_append:
  "scan op cl d (xs @ ys) =
     (case scan op cl d xs of Some p \<Rightarrow> Some p | None \<Rightarrow> scan op cl (d + bal op cl xs) ys)"
proof (induction xs arbitrary: d)
  case (Cons x xs)
  show ?case
    using Cons.IH [of "d + weight op cl x"] by (simp add: scan_Cons add.assoc del: scan.simps split: option.split)
qed simp

lemma scan_found:
  assumes "scan op cl d xs = Some p" and "op \<noteq> cl"
  shows "\<exists>k < length xs. fst (xs ! k) = p \<and> snd (xs ! k) = cl \<and> d + bal op cl (take (Suc k) xs) = 0 \<and>
    (\<forall>m < k. snd (xs ! m) = cl \<longrightarrow> d + bal op cl (take (Suc m) xs) \<noteq> 0)"
  using assms
proof (induction op cl d xs rule: scan.induct)
  case (2 op cl d p' c xs)
  let ?d = "d + weight op cl (p', c)"
  show ?case
  proof (cases "c = cl \<and> d - 1 = 0")
    case True
    then show ?thesis using 2(4,5) by (intro exI [of _ 0]) (auto simp: weight_def)
  next
    case False
    then have "scan op cl ?d xs = Some p"
      using 2(4,5) by (auto simp: weight_def split: if_splits)
    then obtain k where k: "k < length xs" "fst (xs ! k) = p" "snd (xs ! k) = cl"
      "?d + bal op cl (take (Suc k) xs) = 0"
      "\<And>m. m < k \<Longrightarrow> snd (xs ! m) = cl \<Longrightarrow> ?d + bal op cl (take (Suc m) xs) \<noteq> 0"
      using 2(1-3) 2(5) False by (auto simp: weight_def split: if_splits)
    have "d + bal op cl (take (Suc m) ((p', c) # xs)) \<noteq> 0"
      if "m < Suc k" "snd (((p', c) # xs) ! m) = cl" for m
    proof (cases m)
      case 0
      then show ?thesis using that False 2(5) by (auto simp: weight_def)
    next
      case (Suc n)
      then show ?thesis using that k(5) [of n] by (simp add: add.assoc)
    qed
    then show ?thesis using k by (intro exI [of _ "Suc k"]) (auto simp: add.assoc)
  qed
qed simp

lemma scan_first:
  assumes "op \<noteq> cl" and "k < length xs" and "snd (xs ! k) = cl" and "d + bal op cl (take (Suc k) xs) = 0"
    and "\<And>m. m < k \<Longrightarrow> snd (xs ! m) = cl \<Longrightarrow> d + bal op cl (take (Suc m) xs) \<noteq> 0"
  shows "scan op cl d xs = Some (fst (xs ! k))"
  using assms
proof (induction xs arbitrary: d k)
  case (Cons x xs)
  obtain p c where x: "x = (p, c)" by (cases x)
  show ?case
  proof (cases k)
    case 0
    then show ?thesis using Cons.prems x by (simp add: weight_def)
  next
    case (Suc n)
    have step: "c = cl \<Longrightarrow> d - 1 \<noteq> 0" using Cons.prems(1) Cons.prems(5) [of 0] Suc x by (auto simp: weight_def)
    have "scan op cl (d + weight op cl x) xs = Some (fst (xs ! n))"
    proof (rule Cons.IH [OF Cons.prems(1)])
      fix m assume "m < n" "snd (xs ! m) = cl"
      then show "d + weight op cl x + bal op cl (take (Suc m) xs) \<noteq> 0"
        using Cons.prems(5) [of "Suc m"] Suc by (simp add: add.assoc)
    qed (use Cons.prems Suc in \<open>simp_all add: add.assoc\<close>)
    then show ?thesis using step x Suc Cons.prems(1) by (auto simp: weight_def)
  qed
qed simp

lemma scan_symmetric:
  assumes ne: "op \<noteq> cl" and i: "i < length xs" "snd (xs ! i) = op" and s: "scan op cl 0 (drop i xs) = Some p"
  shows "\<exists>j. i < j \<and> j < length xs \<and> xs ! j = (p, cl) \<and>
    scan cl op 0 (rev (take (Suc j) xs)) = Some (fst (xs ! i))"
proof -
  obtain k where k: "k < length (drop i xs)" "fst (drop i xs ! k) = p" "snd (drop i xs ! k) = cl"
    "0 + bal op cl (take (Suc k) (drop i xs)) = 0"
    "\<And>m. m < k \<Longrightarrow> snd (drop i xs ! m) = cl \<Longrightarrow> 0 + bal op cl (take (Suc m) (drop i xs)) \<noteq> 0"
    using scan_found [OF s ne] by blast
  define seg where "seg = take (Suc k) (drop i xs)"
  have len: "length seg = Suc k" using k(1) by (simp add: seg_def)
  have nth: "seg ! m = xs ! (i + m)" if "m \<le> k" for m using that k(1) by (simp add: seg_def)
  have tk: "take m (drop i xs) = take m seg" if "m \<le> Suc k" for m using that by (simp add: seg_def min_absorb1)
  have pos: "0 < bal op cl (take (Suc m) seg)" if "m < k" for m
    using that
  proof (induction m)
    case 0
    then show ?case using nth [of 0] i len by (cases seg) (auto simp: weight_def)
  next
    case (Suc m)
    have "take (Suc (Suc m)) seg = take (Suc m) seg @ [seg ! Suc m]"
      using Suc.prems len by (intro take_Suc_conv_app_nth) simp
    moreover have "bal op cl (take (Suc (Suc m)) seg) \<noteq> 0" if "snd (seg ! Suc m) = cl"
      using k(5) [of "Suc m"] Suc.prems that nth [of "Suc m"] tk [of "Suc (Suc m)"] i(1) by simp
    ultimately show ?case using Suc by (force simp: weight_def split: if_splits)
  qed
  have kp: "0 < k"
  proof (rule ccontr)
    assume "\<not> 0 < k"
    then show False using k(3) i ne by simp
  qed
  have bal0: "bal op cl seg = 0" using k(4) by (simp add: seg_def)
  have xsj: "take (Suc (i + k)) xs = take i xs @ seg"
    using take_add [of i "Suc k" xs] by (simp add: seg_def)
  have "scan cl op 0 (rev seg @ rev (take i xs)) = Some (fst ((rev seg @ rev (take i xs)) ! k))"
  proof (rule scan_first)
    show "cl \<noteq> op" using ne by simp
    show "k < length (rev seg @ rev (take i xs))" using len by simp
    have at: "(rev seg @ rev (take i xs)) ! k = xs ! i" using len nth [of 0] by (simp add: nth_append rev_nth)
    show "snd ((rev seg @ rev (take i xs)) ! k) = op" using at i(2) by simp
    show "0 + bal cl op (take (Suc k) (rev seg @ rev (take i xs))) = 0"
      using len bal0 bal_swap [OF ne] by simp
    fix m assume m: "m < k" "snd ((rev seg @ rev (take i xs)) ! m) = op"
    have "take (Suc m) (rev seg @ rev (take i xs)) = rev (drop (k - m) seg)"
      using m(1) len by (simp add: rev_drop)
    moreover have "bal op cl (take (k - m) seg) + bal op cl (drop (k - m) seg) = 0"
      using bal0 bal_simps(3) [of op cl "take (k - m) seg" "drop (k - m) seg"] by simp
    moreover have "0 < bal op cl (take (k - m) seg)" using pos [of "k - m - 1"] m(1) by (simp add: Suc_diff_Suc)
    ultimately show "0 + bal cl op (take (Suc m) (rev seg @ rev (take i xs))) \<noteq> 0"
      using bal_swap [OF ne] by simp
  qed
  moreover have "(rev seg @ rev (take i xs)) ! k = xs ! i" using len nth [of 0] by (simp add: nth_append rev_nth)
  moreover have "xs ! (i + k) = (p, cl)" using k(2,3) i(1) by (simp add: prod_eq_iff)
  ultimately show ?thesis using kp k(1) xsj by (intro exI [of _ "i + k"]) simp
qed

section \<open>The cells of a text\<close>

fun row_cells :: "nat \<Rightarrow> nat \<Rightarrow> rstring \<Rightarrow> cell list" where
  "row_cells r i [] = []"
| "row_cells r i (c # cs) = ((r, i), c) # row_cells r (Suc i) cs"

fun rows_cells :: "nat \<Rightarrow> rstring list \<Rightarrow> cell list" where
  "rows_cells r [] = []"
| "rows_cells r (l # ls) = row_cells r 0 l @ rows_cells (Suc r) ls"

lemma length_row_cells [simp]: "length (row_cells r i cs) = length cs"
  by (induction r i cs rule: row_cells.induct) simp_all

lemma row_cells_nth: "k < length cs \<Longrightarrow> row_cells r i cs ! k = ((r, i + k), cs ! k)"
proof (induction r i cs arbitrary: k rule: row_cells.induct)
  case (2 r i c cs)
  then show ?case by (cases k) simp_all
qed simp

lemma row_cells_append: "row_cells r i (xs @ ys) = row_cells r i xs @ row_cells r (i + length xs) ys"
  by (induction xs arbitrary: i) simp_all

lemma row_cells_drop: "drop k (row_cells r i cs) = row_cells r (i + k) (drop k cs)"
proof (induction r i cs arbitrary: k rule: row_cells.induct)
  case (2 r i c cs)
  then show ?case by (cases k) simp_all
qed simp

lemma row_cells_take: "take k (row_cells r i cs) = row_cells r i (take k cs)"
proof (induction r i cs arbitrary: k rule: row_cells.induct)
  case (2 r i c cs)
  then show ?case by (cases k) simp_all
qed simp

lemma rows_cells_append: "rows_cells r (xs @ ys) = rows_cells r xs @ rows_cells (r + length xs) ys"
  by (induction xs arbitrary: r) simp_all

definition text_cells :: "motion_buf \<Rightarrow> cell list" where
  "text_cells b = rows_cells 0 (mb_lines b)"

definition cell_index :: "motion_buf \<Rightarrow> nat \<Rightarrow> nat \<Rightarrow> nat" where
  "cell_index b row col = length (rows_cells 0 (take row (mb_lines b))) + col"

lemma text_cells_split:
  assumes "row < length (mb_lines b)"
  shows "text_cells b = rows_cells 0 (take row (mb_lines b)) @ row_cells row 0 (mb_lines b ! row) @
    rows_cells (Suc row) (drop (Suc row) (mb_lines b))"
proof -
  have "mb_lines b = take row (mb_lines b) @ mb_lines b ! row # drop (Suc row) (mb_lines b)"
    using assms by (rule id_take_nth_drop)
  then have "text_cells b = rows_cells 0 (take row (mb_lines b) @ mb_lines b ! row # drop (Suc row) (mb_lines b))"
    by (simp add: text_cells_def)
  then show ?thesis using assms by (simp add: rows_cells_append min_absorb2)
qed

lemma char_at_cell:
  assumes "char_at b (Position row col) = Some c"
  shows "row < length (mb_lines b)" "col < length (mb_lines b ! row)" "read_line b row = mb_lines b ! row"
    "cell_index b row col < length (text_cells b)" "text_cells b ! cell_index b row col = ((row, col), c)"
proof -
  show r: "row < length (mb_lines b)"
    using assms by (auto simp: char_at_def read_line_def read_line_opt_def split: if_splits)
  then show e: "read_line b row = mb_lines b ! row" by (simp add: read_line_def read_line_opt_def)
  show col: "col < length (mb_lines b ! row)" using assms e by (auto simp: char_at_def Let_def split: if_splits)
  have "mb_lines b ! row ! col = c" using assms e by (auto simp: char_at_def Let_def split: if_splits)
  then show "text_cells b ! cell_index b row col = ((row, col), c)"
    using text_cells_split [OF r] col by (simp add: cell_index_def nth_append row_cells_nth)
  show "cell_index b row col < length (text_cells b)"
    using text_cells_split [OF r] col by (simp add: cell_index_def)
qed

lemma cell_at_index:
  "j < length (text_cells b) \<Longrightarrow> \<exists>row col c. text_cells b ! j = ((row, col), c) \<and>
     char_at b (Position row col) = Some c \<and> j = cell_index b row col"
proof -
  assume "j < length (text_cells b)"
  moreover have "j < length (rows_cells k ls) \<Longrightarrow> \<exists>r col. r < length ls \<and> col < length (ls ! r) \<and>
      rows_cells k ls ! j = ((k + r, col), ls ! r ! col) \<and> j = length (rows_cells k (take r ls)) + col" for k ls
  proof (induction k ls arbitrary: j rule: rows_cells.induct)
    case (2 k l ls)
    show ?case
    proof (cases "j < length l")
      case True
      then show ?thesis by (intro exI [of _ 0] exI [of _ j]) (simp add: nth_append row_cells_nth)
    next
      case False
      then have "j - length l < length (rows_cells (Suc k) ls)" using 2(2) by simp
      then obtain r col where "r < length ls" "col < length (ls ! r)"
        "rows_cells (Suc k) ls ! (j - length l) = ((Suc k + r, col), ls ! r ! col)"
        "j - length l = length (rows_cells (Suc k) (take r ls)) + col"
        using 2(1) by blast
      then show ?thesis using False by (intro exI [of _ "Suc r"] exI [of _ col]) (simp add: nth_append)
    qed
  qed simp
  ultimately obtain r col where "r < length (mb_lines b)" "col < length (mb_lines b ! r)"
    "text_cells b ! j = ((r, col), mb_lines b ! r ! col)" "j = cell_index b r col"
    unfolding text_cells_def cell_index_def by (metis add_0)
  then show ?thesis by (auto simp: char_at_def read_line_def read_line_opt_def)
qed

section \<open>The scans over rows\<close>

lemma match_fwd_line_scan:
  "match_fwd_line op cl d i cs =
     (case scan op cl d (row_cells r i cs) of Some p \<Rightarrow> Inl (snd p) | None \<Rightarrow> Inr (d + bal op cl (row_cells r i cs))) \<and>
   (\<forall>p. scan op cl d (row_cells r i cs) = Some p \<longrightarrow> fst p = r)"
proof (induction op cl d i cs rule: match_fwd_line.induct)
  case (2 op cl d i c cs)
  then show ?case
    by (cases "c = op"; cases "c = cl"; cases "d - 1 = 0")
      (auto simp: weight_def algebra_simps split: option.splits)
qed simp

lemma match_fwd_rows_scan: "match_fwd_rows op cl d r ls = scan op cl d (rows_cells r ls)"
proof (induction op cl d r ls rule: match_fwd_rows.induct)
  case (2 op cl d r l ls)
  show ?case
    using match_fwd_line_scan [of op cl d 0 l r] 2
    by (auto simp: scan_append prod_eq_iff split: option.splits)
qed simp

fun cells_down :: "nat \<Rightarrow> nat \<Rightarrow> rstring \<Rightarrow> cell list" where
  "cells_down r i [] = []"
| "cells_down r i (c # cs) = ((r, i), c) # cells_down r (i - 1) cs"

lemma cells_down_rev: "cells_down r (length cs - 1) (rev cs) = rev (row_cells r 0 cs)"
proof (induction cs rule: rev_induct)
  case (snoc c cs)
  then show ?case by (simp add: row_cells_append)
qed simp

lemma match_back_line_scan:
  "match_back_line op cl d i cs =
     (case scan cl op d (cells_down r i cs) of Some p \<Rightarrow> Inl (snd p) | None \<Rightarrow> Inr (d + bal cl op (cells_down r i cs))) \<and>
   (\<forall>p. scan cl op d (cells_down r i cs) = Some p \<longrightarrow> fst p = r)"
proof (induction op cl d i cs rule: match_back_line.induct)
  case (2 op cl d i c cs)
  then show ?case
    by (cases "c = op"; cases "c = cl"; cases "d - 1 = 0")
      (auto simp: weight_def algebra_simps split: option.splits)
qed simp

lemma match_back_rows_scan:
  "r \<le> length (mb_lines b) \<Longrightarrow> match_back_rows op cl b d r = scan cl op d (rev (rows_cells 0 (take r (mb_lines b))))"
proof (induction op cl b d r rule: match_back_rows.induct)
  case (2 op cl b d r)
  have l: "read_line b r = mb_lines b ! r" using 2(2) by (simp add: read_line_def read_line_opt_def)
  have "rows_cells 0 (take (Suc r) (mb_lines b)) = rows_cells 0 (take r (mb_lines b)) @ row_cells r 0 (mb_lines b ! r)"
    using 2(2) by (simp add: take_Suc_conv_app_nth rows_cells_append min_absorb2)
  then show ?case
    using match_back_line_scan [of op cl d "length (mb_lines b ! r) - 1" "rev (mb_lines b ! r)" r] 2
    by (auto simp: l cells_down_rev [simplified] scan_append prod_eq_iff split: option.splits)
qed simp

section \<open>The match\<close>

definition bracket_scan :: "motion_buf \<Rightarrow> nat \<Rightarrow> nat \<Rightarrow> rchar \<Rightarrow> rchar \<Rightarrow> bool \<Rightarrow> (nat \<times> nat) option" where
  "bracket_scan b row col op cl forward =
     (if forward then scan op cl 0 (drop (cell_index b row col) (text_cells b))
      else scan cl op 0 (rev (take (Suc (cell_index b row col)) (text_cells b))))"

lemma matching_bracket_scan:
  assumes c: "char_at b (Position row col) = Some c" and p: "bracket_pair c = Some (op, cl, forward)"
  shows "matching_bracket_pos b row col = bracket_scan b row col op cl forward"
proof -
  note at = char_at_cell [OF c]
  let ?l = "mb_lines b ! row" and ?pre = "rows_cells 0 (take row (mb_lines b))"
    and ?post = "rows_cells (Suc row) (drop (Suc row) (mb_lines b))"
  have split: "text_cells b = ?pre @ row_cells row 0 ?l @ ?post" by (rule text_cells_split [OF at(1)])
  show ?thesis
  proof (cases forward)
    case True
    have "drop (cell_index b row col) (text_cells b) = row_cells row col (drop col ?l) @ ?post"
      using split at(2) by (simp add: cell_index_def row_cells_drop)
    then show ?thesis
      using True c p match_fwd_line_scan [of op cl 0 col "drop col ?l" row] match_fwd_rows_scan
      by (auto simp: matching_bracket_pos_def bracket_scan_def at(3) scan_append prod_eq_iff split: option.splits)
  next
    case False
    have "take (Suc (cell_index b row col)) (text_cells b) = ?pre @ row_cells row 0 (take (Suc col) ?l)"
      using split at(2) by (simp add: cell_index_def row_cells_take)
    moreover have "cells_down row col (rev (take (Suc col) ?l)) = rev (row_cells row 0 (take (Suc col) ?l))"
      using cells_down_rev [of row "take (Suc col) ?l"] at(2) by (simp add: min_absorb2)
    ultimately show ?thesis
      using False c p match_back_line_scan [of op cl 0 col "rev (take (Suc col) ?l)" row]
        match_back_rows_scan [of row b op cl] at(1)
      by (auto simp: matching_bracket_pos_def bracket_scan_def at(3) scan_append prod_eq_iff split: option.splits)
  qed
qed

text \<open>The reversal of a list turns the backward scan into a forward one.\<close>

lemma scan_symmetric_rev:
  assumes "op \<noteq> cl" and i: "i < length xs" "snd (xs ! i) = cl" and s: "scan cl op 0 (rev (take (Suc i) xs)) = Some p"
  shows "\<exists>j < i. xs ! j = (p, op) \<and> scan op cl 0 (drop j xs) = Some (fst (xs ! i))"
proof -
  let ?ys = "rev xs" and ?i = "length xs - Suc i"
  have r: "rev (take (Suc k) xs) = drop (length xs - Suc k) ?ys" if "k < length xs" for k
    using that by (simp add: rev_take)
  have "?i < length ?ys" "?ys ! ?i = xs ! i" using i(1) by (simp_all add: rev_nth)
  moreover obtain j where j: "?i < j" "j < length ?ys" "?ys ! j = (p, op)"
    "scan op cl 0 (rev (take (Suc j) ?ys)) = Some (fst (?ys ! ?i))"
    using scan_symmetric [of cl op ?i ?ys p] assms(1) i s r [OF i(1)] calculation by auto
  moreover have "rev (take (Suc j) ?ys) = drop (length xs - Suc j) xs"
    using j(2) by (simp add: rev_take)
  moreover have "?ys ! j = xs ! (length xs - Suc j)" using j(2) by (simp add: rev_nth)
  ultimately show ?thesis using j(1,2) i(1) by (intro exI [of _ "length xs - Suc j"]) auto
qed

lemma bracket_pair_facts:
  "bracket_pair c = Some (op, cl, forward) \<Longrightarrow>
    op \<noteq> cl \<and> c = (if forward then op else cl) \<and> bracket_pair op = Some (op, cl, True) \<and> bracket_pair cl = Some (op, cl, False)"
  by (auto simp: bracket_pair_def split: if_splits)

text \<open>
  C31: The match of a bracket is symmetric: where the search from a bracket finds a partner, that
  cell holds the other bracket of the pair, lies in the direction of the search, and the
  search from there finds the first bracket again.
\<close>

theorem bracket_match_symmetric:
  assumes "matching_bracket_pos b row col = Some (r, c)"
  shows "\<exists>x y op cl forward. char_at b (Position row col) = Some x \<and> char_at b (Position r c) = Some y \<and>
    bracket_pair x = Some (op, cl, forward) \<and> bracket_pair y = Some (op, cl, \<not> forward) \<and>
    (if forward then cell_index b row col < cell_index b r c else cell_index b r c < cell_index b row col) \<and>
    matching_bracket_pos b r c = Some (row, col)"
proof -
  obtain x op cl forward where x: "char_at b (Position row col) = Some x" "bracket_pair x = Some (op, cl, forward)"
    using assms by (auto simp: matching_bracket_pos_def split: option.splits)
  let ?xs = "text_cells b" and ?i = "cell_index b row col"
  note at = char_at_cell [OF x(1)]
  note pair = bracket_pair_facts [OF x(2)]
  have s: "bracket_scan b row col op cl forward = Some (r, c)"
    using assms matching_bracket_scan [OF x] by simp
  have "\<exists>j < length ?xs. ?xs ! j = ((r, c), if forward then cl else op) \<and>
      (if forward then ?i < j \<and> scan cl op 0 (rev (take (Suc j) ?xs)) = Some (row, col)
       else j < ?i \<and> scan op cl 0 (drop j ?xs) = Some (row, col))"
  proof (cases forward)
    case True
    then show ?thesis
      using scan_symmetric [of op cl ?i ?xs "(r, c)"] s at pair by (auto simp: bracket_scan_def)
  next
    case False
    then show ?thesis
      using scan_symmetric_rev [of op cl ?i ?xs "(r, c)"] s at pair
      by (auto simp: bracket_scan_def dest: less_trans)
  qed
  then obtain j where j: "j < length ?xs" "?xs ! j = ((r, c), if forward then cl else op)"
    "if forward then ?i < j \<and> scan cl op 0 (rev (take (Suc j) ?xs)) = Some (row, col)
     else j < ?i \<and> scan op cl 0 (drop j ?xs) = Some (row, col)" by blast
  have y: "char_at b (Position r c) = Some (if forward then cl else op)" "j = cell_index b r c"
    using cell_at_index [OF j(1)] j(2) by auto
  have py: "bracket_pair (if forward then cl else op) = Some (op, cl, \<not> forward)" using pair by simp
  have "matching_bracket_pos b r c = Some (row, col)"
    using matching_bracket_scan [OF y(1) py] j(3) y(2) by (auto simp: bracket_scan_def split: if_splits)
  then show ?thesis using x y py j(3) by (auto split: if_splits)
qed

text \<open>A nested pair over two rows.\<close>

theorem bracket_match_symmetric_witness:
  "matching_bracket_pos \<lparr>mb_lines = [[40, 40, 41], [97, 41]], mb_cursor = Position 0 0\<rparr> 0 0 = Some (1, 1) \<and>
   matching_bracket_pos \<lparr>mb_lines = [[40, 40, 41], [97, 41]], mb_cursor = Position 0 0\<rparr> 1 1 = Some (0, 0)"
proof -
  have m: "matching_bracket_pos \<lparr>mb_lines = [[40, 40, 41], [97, 41]], mb_cursor = Position 0 0\<rparr> 0 0 = Some (1, 1)"
    by code_simp
  show ?thesis using m bracket_match_symmetric [OF m] by blast
qed

end
