(* ===== verification/WordLaws.thy ===== *)
theory WordLaws
  imports WordMotions
begin

text \<open>
  What \<open>w\<close>, \<open>b\<close> and \<open>e\<close> find: the nearest start or end of a word in the order of the text,
  where an empty line is a word.
\<close>

section \<open>Cells in order\<close>

definition before :: "position \<Rightarrow> position \<Rightarrow> bool" where
  "before p q \<longleftrightarrow> p_row p < p_row q \<or> p_row p = p_row q \<and> p_col p < p_col q"

text \<open>A place where the cursor can stand in normal mode: a char, or the start of an empty row.\<close>

definition cell :: "motion_buf \<Rightarrow> position \<Rightarrow> bool" where
  "cell b p \<longleftrightarrow> p_row p < content_row_count b \<and>
     (p_col p < length (read_line b (p_row p)) \<or> read_line b (p_row p) = [] \<and> p_col p = 0)"

definition word_start :: "(rchar \<Rightarrow> char_kind) \<Rightarrow> motion_buf \<Rightarrow> position \<Rightarrow> bool" where
  "word_start kd b p \<longleftrightarrow> p_row p < content_row_count b \<and> (
     let line = read_line b (p_row p); c = p_col p in
     line = [] \<and> c = 0 \<or>
     c < length line \<and> kd (line ! c) \<noteq> SpaceKind \<and> (c = 0 \<or> kd (line ! (c - 1)) \<noteq> kd (line ! c)))"

definition word_end :: "(rchar \<Rightarrow> char_kind) \<Rightarrow> motion_buf \<Rightarrow> position \<Rightarrow> bool" where
  "word_end kd b p \<longleftrightarrow> p_row p < content_row_count b \<and> (
     let line = read_line b (p_row p); c = p_col p in
     c < length line \<and> kd (line ! c) \<noteq> SpaceKind \<and> (c + 1 = length line \<or> kd (line ! (c + 1)) \<noteq> kd (line ! c)))"

lemma before_irrefl [simp]: "\<not> before p p"
  by (simp add: before_def)

lemma before_trans: "before p q \<Longrightarrow> before q r \<Longrightarrow> before p r"
  by (auto simp: before_def)

lemma before_linear: "p = q \<or> before p q \<or> before q p"
  by (cases p; cases q) (auto simp: before_def)

lemma before_not_before: "before p q \<Longrightarrow> \<not> before r q \<Longrightarrow> before p r"
  by (auto simp: before_def)

lemma word_start_cell: "word_start kd b p \<Longrightarrow> cell b p"
  by (auto simp: word_start_def cell_def Let_def)

lemma word_end_cell: "word_end kd b p \<Longrightarrow> cell b p"
  by (auto simp: word_end_def cell_def Let_def)

lemma kind_at_eq:
  "kind_at kd b p = (if p_col p < length (read_line b (p_row p)) then Some (kd (read_line b (p_row p) ! p_col p)) else None)"
  by (simp add: kind_at_def char_at_def Let_def)

lemma cls_eq:
  "cls kd b p = (if p_col p < length (read_line b (p_row p)) then kd (read_line b (p_row p) ! p_col p) else SpaceKind)"
  by (simp add: cls_def char_at_def Let_def)

text \<open>\<open>step_forward\<close> goes to the next cell, or there is none.\<close>

lemma step_forward_next:
  assumes "cell b cur" and "step_forward b cur = Some nx"
  shows "cell b nx" "before cur nx" "\<And>q. cell b q \<Longrightarrow> before cur q \<Longrightarrow> q = nx \<or> before nx q"
    "p_row nx = p_row cur \<Longrightarrow> p_col nx = p_col cur + 1" "p_row nx \<noteq> p_row cur \<Longrightarrow> p_col nx = 0"
proof -
  show "cell b nx" "before cur nx" "p_row nx = p_row cur \<Longrightarrow> p_col nx = p_col cur + 1"
    "p_row nx \<noteq> p_row cur \<Longrightarrow> p_col nx = 0"
    using assms by (auto simp: step_forward_def cell_def before_def split: if_splits)
  show "q = nx \<or> before nx q" if "cell b q" "before cur q" for q
    using assms that by (cases q) (auto simp: step_forward_def cell_def before_def split: if_splits)
qed

lemma step_forward_None:
  assumes "step_forward b cur = None" and "cell b q"
  shows "\<not> before cur q"
  using assms by (auto simp: step_forward_def cell_def before_def split: if_splits)

definition demo_words :: motion_buf where
  "demo_words = \<lparr>mb_lines = [[97, 98, 32, 99]], mb_cursor = Position 0 0\<rparr>"

abbreviation demo_kind :: "rchar \<Rightarrow> char_kind" where
  "demo_kind \<equiv> char_kind_of (\<lambda>c. 97 \<le> c) (keyword_parse [64]) False"

lemma demo_starts [simp]:
  "mb_cursor demo_words = Position 0 0"
  "read_line demo_words 0 = [97, 98, 32, 99]"
  "word_start demo_kind demo_words (Position 0 0)"
  "word_start demo_kind demo_words (Position 0 3)"
  "cell demo_words (Position 0 c) \<longleftrightarrow> c < 4"
proof -
  have c: "content_row_count demo_words = 1" by (simp add: content_row_count_def row_empty_def demo_words_def)
  show r: "read_line demo_words 0 = [97, 98, 32, 99]" by (simp add: read_line_def read_line_opt_def demo_words_def)
  have k: "demo_kind 97 \<noteq> SpaceKind" "demo_kind 99 \<noteq> SpaceKind" "demo_kind 32 = SpaceKind"
    by (simp_all add: char_kind_of_def is_whitespace_def)
  show "word_start demo_kind demo_words (Position 0 0)" "word_start demo_kind demo_words (Position 0 3)"
    unfolding word_start_def c using k k(2) [symmetric] by (simp_all add: r)
  show "cell demo_words (Position 0 c) \<longleftrightarrow> c < 4" by (auto simp: cell_def c r)
  show "mb_cursor demo_words = Position 0 0" by (simp add: demo_words_def)
qed

section \<open>\<open>w\<close>\<close>

abbreviation no_start :: "(rchar \<Rightarrow> char_kind) \<Rightarrow> motion_buf \<Rightarrow> position \<Rightarrow> position \<Rightarrow> bool" where
  "no_start kd b p q \<equiv> \<forall>x. before p x \<and> before x q \<longrightarrow> \<not> word_start kd b x"

lemma no_start_step:
  assumes "cell b cur" and "step_forward b cur = Some nx" and "\<not> word_start kd b nx" and "no_start kd b nx q"
  shows "no_start kd b cur q"
  using step_forward_next(3) [OF assms(1,2)] assms(3,4) word_start_cell by blast

lemma next_cell_start:
  assumes "cell b cur" and "step_forward b cur = Some nx" and "kind_at kd b nx \<noteq> Some SpaceKind"
    and "p_row nx = p_row cur \<Longrightarrow> kind_at kd b cur \<noteq> kind_at kd b nx"
  shows "word_start kd b nx"
proof (cases "p_row nx = p_row cur")
  case True
  then have "p_col cur + 1 < length (read_line b (p_row cur))" "p_col nx = p_col cur + 1"
    using assms(2) by (auto simp: step_forward_def split: if_splits)
  then show ?thesis
    using assms(3,4) True step_forward_next(1) [OF assms(1,2)]
    by (simp add: word_start_def cell_def kind_at_eq Let_def)
next
  case False
  then show ?thesis
    using step_forward_next(1,5) [OF assms(1,2)] assms(3)
    by (auto simp: word_start_def cell_def kind_at_eq Let_def)
qed

lemma run_fwd_spec:
  "cell b cur \<Longrightarrow> kind_at kd b cur = Some k \<Longrightarrow>
    (case run_fwd kd b k cur of
       Inl p \<Rightarrow> p = end_of_buffer b \<and> (\<forall>q. before cur q \<longrightarrow> \<not> word_start kd b q)
     | Inr nx \<Rightarrow> cell b nx \<and> before cur nx \<and> no_start kd b cur nx \<and>
         (kind_at kd b nx \<noteq> Some SpaceKind \<longrightarrow> word_start kd b nx))"
proof (induction kd b k cur rule: run_fwd.induct)
  case (1 kd b k cur)
  show ?case
  proof (cases "step_forward b cur")
    case None
    then show ?thesis
      using 1(3) step_forward_None word_start_cell by (subst run_fwd.simps) auto
  next
    case (Some nx)
    note nx = step_forward_next [OF 1(2) Some]
    consider (row) "p_row nx \<noteq> p_row cur" | (more) "p_row nx = p_row cur" "kind_at kd b nx = Some k"
      | (stop) "p_row nx = p_row cur" "kind_at kd b nx \<noteq> Some k" by blast
    then show ?thesis
    proof cases
      case row
      then have "run_fwd kd b k cur = Inr nx" using 1(3) Some by (subst run_fwd.simps) simp
      moreover have "no_start kd b cur nx" using nx(3) word_start_cell before_trans before_irrefl by blast
      ultimately show ?thesis using nx(1,2) next_cell_start [OF 1(2) Some] row by simp
    next
      case more
      then have e: "run_fwd kd b k cur = run_fwd kd b k nx" using 1(3) Some by (subst run_fwd.simps) simp
      have ns: "\<not> word_start kd b nx"
        using more 1(3) nx(4) by (auto simp: word_start_def kind_at_eq Let_def split: if_splits)
      have IH: "case run_fwd kd b k nx of
          Inl p \<Rightarrow> p = end_of_buffer b \<and> (\<forall>q. before nx q \<longrightarrow> \<not> word_start kd b q)
        | Inr x \<Rightarrow> cell b x \<and> before nx x \<and> no_start kd b nx x \<and>
            (kind_at kd b x \<noteq> Some SpaceKind \<longrightarrow> word_start kd b x)"
        using 1(1) [OF 1(3) Some] more nx(1) by simp
      show ?thesis
      proof (cases "run_fwd kd b k nx")
        case (Inl p)
        then have "\<not> word_start kd b q" if "before cur q" for q
          using IH ns nx(3) [OF word_start_cell that] by auto
        then show ?thesis using e Inl IH by simp
      next
        case (Inr x)
        then show ?thesis using e IH no_start_step [OF 1(2) Some ns, of x] before_trans [OF nx(2), of x] by simp
      qed
    next
      case stop
      have "run_fwd kd b k cur = run_fwd kd b k nx" using stop 1(3) Some by (subst run_fwd.simps) simp
      also have "\<dots> = Inr nx" using stop by (subst run_fwd.simps) simp
      finally have "run_fwd kd b k cur = Inr nx" .
      moreover have "no_start kd b cur nx" using nx(3) word_start_cell before_trans before_irrefl by blast
      ultimately show ?thesis using nx(1,2) next_cell_start [OF 1(2) Some] stop 1(3) by simp
    qed
  qed
qed

lemma skip_space_spec:
  "cell b cur \<Longrightarrow> (kind_at kd b cur \<noteq> Some SpaceKind \<longrightarrow> word_start kd b cur) \<Longrightarrow>
    word_start kd b (skip_space kd b cur) \<and> \<not> before (skip_space kd b cur) cur \<and>
      (\<forall>x. \<not> before x cur \<and> before x (skip_space kd b cur) \<longrightarrow> \<not> word_start kd b x) \<or>
    skip_space kd b cur = end_of_buffer b \<and> (\<forall>x. \<not> before x cur \<longrightarrow> \<not> word_start kd b x)"
proof (induction kd b cur rule: skip_space.induct)
  case (1 kd b cur)
  show ?case
  proof (cases "kind_at kd b cur = Some SpaceKind")
    case False
    then have "skip_space kd b cur = cur" by (subst skip_space.simps) simp
    then show ?thesis using 1(3) False by simp
  next
    case True
    have ns: "\<not> word_start kd b cur"
      using True by (auto simp: word_start_def kind_at_eq Let_def split: if_splits)
    show ?thesis
    proof (cases "step_forward b cur")
      case None
      then have "skip_space kd b cur = end_of_buffer b" using True by (subst skip_space.simps) simp
      moreover have "\<not> word_start kd b x" if "\<not> before x cur" for x
        using that ns before_linear [of x cur] step_forward_None [OF None, of x] word_start_cell [of kd b x] by blast
      ultimately show ?thesis by blast
    next
      case (Some nx)
      note nx = step_forward_next [OF 1(2) Some]
      have e: "skip_space kd b cur = skip_space kd b nx" using True Some by (subst skip_space.simps) simp
      have s: "kind_at kd b nx \<noteq> Some SpaceKind \<longrightarrow> word_start kd b nx"
        using next_cell_start [OF 1(2) Some] True by auto
      have q: "\<not> word_start kd b x" if "\<not> before x cur" "before x nx" for x
        using that ns before_linear [of x cur] nx(3) [of x] word_start_cell [of kd b x] before_irrefl
          before_trans [of x nx x] by blast
      have IH: "word_start kd b (skip_space kd b nx) \<and> \<not> before (skip_space kd b nx) nx \<and>
          (\<forall>x. \<not> before x nx \<and> before x (skip_space kd b nx) \<longrightarrow> \<not> word_start kd b x) \<or>
        skip_space kd b nx = end_of_buffer b \<and> (\<forall>x. \<not> before x nx \<longrightarrow> \<not> word_start kd b x)"
        using 1(1) [OF True Some nx(1) s] .
      have c: "\<not> before (skip_space kd b nx) cur" if "\<not> before (skip_space kd b nx) nx"
        using that nx(2) before_trans by blast
      show ?thesis unfolding e
      proof (rule disjE [OF IH], goal_cases)
        case 1
        then have "\<not> word_start kd b x" if "\<not> before x cur" "before x (skip_space kd b nx)" for x
          using that q by (cases "before x nx") simp_all
        then show ?case using 1 c by simp
      next
        case 2
        then have "\<not> word_start kd b x" if "\<not> before x cur" for x
          using that q by (cases "before x nx") simp_all
        then show ?case using 2 by simp
      qed
    qed
  qed
qed

lemma w_nearest:
  assumes fr: "cell b from" and big: "\<not> (big \<and> read_line b (p_row from) = [])"
  shows "case next_word_start kd b from big of
      Some p \<Rightarrow> word_start kd b p \<and> before from p \<and> no_start kd b from p \<or>
        p = end_of_buffer b \<and> (\<forall>q. before from q \<longrightarrow> \<not> word_start kd b q)
    | None \<Rightarrow> read_line b (p_row from) = [] \<and> (\<forall>q. before from q \<longrightarrow> \<not> word_start kd b q)"
proof -
  have skip: "word_start kd b p \<and> before from p \<and> no_start kd b from p \<or>
      p = end_of_buffer b \<and> (\<forall>q. before from q \<longrightarrow> \<not> word_start kd b q)"
    if "cell b cur" "before from cur" "no_start kd b from cur"
      "kind_at kd b cur \<noteq> Some SpaceKind \<longrightarrow> word_start kd b cur" "p = skip_space kd b cur" for cur p
  proof -
    have q: "\<not> word_start kd b x" if "before from x" "before x cur" for x using that \<open>no_start kd b from cur\<close> by blast
    have f: "before from p" if "\<not> before p cur"
      using that \<open>before from cur\<close> before_linear [of p cur] before_trans [of "from" cur p] by blast
    show ?thesis unfolding that(5)
    proof (rule disjE [OF skip_space_spec [OF that(1,4)]], goal_cases)
      case 1
      then have "\<not> word_start kd b x" if "before from x" "before x (skip_space kd b cur)" for x
        using that q by (cases "before x cur") simp_all
      then show ?case using 1 f that(5) by simp
    next
      case 2
      then have "\<not> word_start kd b x" if "before from x" for x
        using that q by (cases "before x cur") simp_all
      then show ?case using 2 by simp
    qed
  qed
  show ?thesis
  proof (cases "kind_at kd b from")
    case (Some k)
    show ?thesis
    proof (cases "run_fwd kd b k from")
      case (Inl p)
      then show ?thesis using run_fwd_spec [OF fr Some] Some by (simp add: next_word_start_def)
    next
      case (Inr cur)
      then show ?thesis
        using run_fwd_spec [OF fr Some] Some skip [of cur "skip_space kd b cur"]
        by (simp add: next_word_start_def)
    qed
  next
    case None
    then have empty: "read_line b (p_row from) = []" using fr by (auto simp: kind_at_eq cell_def split: if_splits)
    show ?thesis
    proof (cases "step_forward b from")
      case None
      then show ?thesis
        using \<open>kind_at kd b from = None\<close> empty step_forward_None [OF None] word_start_cell
        by (auto simp: next_word_start_def)
    next
      case (Some cur)
      note nx = step_forward_next [OF fr Some]
      have "no_start kd b from cur" using nx(3) word_start_cell before_trans before_irrefl by blast
      moreover have "kind_at kd b cur \<noteq> Some SpaceKind \<longrightarrow> word_start kd b cur"
      proof -
        have "p_row cur \<noteq> p_row from" using Some empty by (auto simp: step_forward_def split: if_splits)
        then show ?thesis using next_cell_start [OF fr Some, of kd] by simp
      qed
      ultimately show ?thesis
        using skip [OF nx(1,2), of "skip_space kd b cur"] None Some big empty by (simp add: next_word_start_def)
    qed
  qed
qed

section \<open>\<open>b\<close>\<close>

text \<open>The cells and the virtual cell behind each row.\<close>

definition vcell :: "motion_buf \<Rightarrow> position \<Rightarrow> bool" where
  "vcell b p \<longleftrightarrow> p_row p < content_row_count b \<and> p_col p \<le> length (read_line b (p_row p))"

lemma cell_vcell: "cell b p \<Longrightarrow> vcell b p"
  by (auto simp: cell_def vcell_def)

lemma word_start_vcell: "word_start kd b p \<Longrightarrow> vcell b p"
  by (rule cell_vcell [OF word_start_cell])

lemma dec_prev:
  assumes "vcell b cur" and "dec b cur = Some q"
  shows "vcell b q" "before q cur" "\<And>x. vcell b x \<Longrightarrow> before x cur \<Longrightarrow> x = q \<or> before x q"
    "inc b q = Some cur" "p_row q = p_row cur \<Longrightarrow> p_col cur = p_col q + 1"
    "p_row q \<noteq> p_row cur \<Longrightarrow> p_col cur = 0 \<and> p_col q = length (read_line b (p_row q))"
proof -
  consider (inside) "p_col cur > 0" "q = Position (p_row cur) (p_col cur - 1)"
    | (up) "p_col cur = 0" "0 < p_row cur" "q = Position (p_row cur - 1) (length (read_line b (p_row cur - 1)))"
    using assms(2) by (auto simp: dec_def split: if_splits)
  then have "vcell b q \<and> before q cur \<and> inc b q = Some cur \<and> (p_row q = p_row cur \<longrightarrow> p_col cur = p_col q + 1) \<and>
      (p_row q \<noteq> p_row cur \<longrightarrow> p_col cur = 0 \<and> p_col q = length (read_line b (p_row q)))"
  proof cases
    case inside
    then show ?thesis using assms(1) by (cases cur) (auto simp: inc_def vcell_def before_def)
  next
    case up
    then show ?thesis using assms(1) by (cases cur) (auto simp: inc_def vcell_def before_def)
  qed
  then show "vcell b q" "before q cur" "inc b q = Some cur" "p_row q = p_row cur \<Longrightarrow> p_col cur = p_col q + 1"
    "p_row q \<noteq> p_row cur \<Longrightarrow> p_col cur = 0 \<and> p_col q = length (read_line b (p_row q))"
    by blast+
  show "x = q \<or> before x q" if "vcell b x" "before x cur" for x
  proof (cases "p_row x = p_row cur - 1 \<and> p_row cur > 0 \<and> p_col cur = 0")
    case True
    then show ?thesis using assms that by (cases x) (auto simp: dec_def vcell_def before_def)
  next
    case False
    then show ?thesis using assms that by (cases x) (auto simp: dec_def vcell_def before_def split: if_splits)
  qed
qed

lemma dec_None: "dec b cur = None \<Longrightarrow> cur = Position 0 0 \<and> \<not> before x cur"
  by (cases cur) (auto simp: dec_def before_def split: if_splits)

lemma not_start_blank:
  assumes "cls kd b cur = SpaceKind" and "\<not> (p_col cur = 0 \<and> row_empty b (p_row cur))"
  shows "\<not> word_start kd b cur"
  using assms by (auto simp: word_start_def cls_eq row_empty_def Let_def split: if_splits)

text \<open>No word start after \<open>p\<close> up to and with \<open>q\<close>.\<close>

abbreviation no_start_to :: "(rchar \<Rightarrow> char_kind) \<Rightarrow> motion_buf \<Rightarrow> position \<Rightarrow> position \<Rightarrow> bool" where
  "no_start_to kd b p q \<equiv> \<forall>x. before p x \<and> \<not> before q x \<longrightarrow> \<not> word_start kd b x"

lemma no_start_to_dec:
  assumes "vcell b cur" and "dec b cur = Some q" and "\<not> word_start kd b cur" and "no_start_to kd b p q"
  shows "no_start_to kd b p cur"
proof (intro allI impI)
  fix x assume x: "before p x \<and> \<not> before cur x"
  then consider "x = cur" | "before x cur" using before_linear [of x cur] by blast
  then show "\<not> word_start kd b x"
  proof cases
    case 2
    then show ?thesis
      using dec_prev(3) [OF assms(1,2), of x] word_start_vcell [of kd b x] assms(4) x before_irrefl
        before_trans [of x q x] by blast
  qed (use assms(3) in simp)
qed

lemma blank_back_spec:
  "vcell b cur \<Longrightarrow>
    (case blank_back kd b cur of
       Inl p \<Rightarrow> (word_start kd b p \<or> p = Position 0 0) \<and> \<not> before cur p \<and> no_start_to kd b p cur
     | Inr p \<Rightarrow> vcell b p \<and> cls kd b p \<noteq> SpaceKind \<and> \<not> before cur p \<and> no_start_to kd b p cur)"
proof (induction kd b cur rule: blank_back.induct)
  case (1 kd b cur)
  have self: "no_start_to kd b cur cur" by simp
  consider (stop) "cls kd b cur \<noteq> SpaceKind" | (empty) "cls kd b cur = SpaceKind" "p_col cur = 0 \<and> row_empty b (p_row cur)"
    | (bk) "cls kd b cur = SpaceKind" "\<not> (p_col cur = 0 \<and> row_empty b (p_row cur))" by blast
  then show ?case
  proof cases
    case stop
    then have "blank_back kd b cur = Inr cur" by (subst blank_back.simps) simp
    then show ?thesis using stop 1(2) self by simp
  next
    case empty
    then have "blank_back kd b cur = Inl cur" by (subst blank_back.simps) simp
    moreover have "word_start kd b cur" using empty 1(2) by (simp add: word_start_def vcell_def row_empty_def)
    ultimately show ?thesis using self by simp
  next
    case bk
    show ?thesis
    proof (cases "dec b cur")
      case None
      then have "blank_back kd b cur = Inl cur" using bk by (subst blank_back.simps) simp
      then show ?thesis using dec_None [OF None] self by simp
    next
      case (Some q)
      note dq = dec_prev [OF 1(2) Some]
      note step = no_start_to_dec [OF 1(2) Some not_start_blank [OF bk]]
      have e: "blank_back kd b cur = blank_back kd b q" using bk Some by (subst blank_back.simps) auto
      have up: "\<not> before cur p" if "\<not> before q p" for p
        using that dq(2) before_trans [of q cur p] by blast
      have IH: "case blank_back kd b q of
         Inl p \<Rightarrow> (word_start kd b p \<or> p = Position 0 0) \<and> \<not> before q p \<and> no_start_to kd b p q
       | Inr p \<Rightarrow> vcell b p \<and> cls kd b p \<noteq> SpaceKind \<and> \<not> before q p \<and> no_start_to kd b p q"
        using 1(1) [OF bk Some dq(1)] .
      show ?thesis
      proof (cases "blank_back kd b q")
        case (Inl p)
        then show ?thesis using e IH up [of p] step [of p] by simp
      next
        case (Inr p)
        then show ?thesis using e IH up [of p] step [of p] by simp
      qed
    qed
  qed
qed

lemma run_back_spec:
  "vcell b cur \<Longrightarrow> cls kd b cur = k \<Longrightarrow> k \<noteq> SpaceKind \<Longrightarrow>
    (case run_back kd b k cur of
       Inl p \<Rightarrow> word_start kd b p \<and> \<not> before cur p \<and> no_start_to kd b p cur
     | Inr q \<Rightarrow> (\<exists>p. inc b q = Some p \<and> word_start kd b p \<and> \<not> before cur p \<and> no_start_to kd b p cur))"
proof (induction kd b k cur rule: run_back.induct)
  case (1 kd b k cur)
  have inl: "p_col cur < length (read_line b (p_row cur))" "kd (read_line b (p_row cur) ! p_col cur) = k"
    using 1(3,4) by (auto simp: cls_eq split: if_splits)
  have self: "no_start_to kd b cur cur" by simp
  show ?case
  proof (cases "dec b cur")
    case None
    then have "run_back kd b k cur = Inl cur" using 1(3) by (subst run_back.simps) simp
    moreover have "word_start kd b cur"
      using dec_None [OF None] 1(2,4) inl by (auto simp: word_start_def vcell_def Let_def)
    ultimately show ?thesis using self by simp
  next
    case (Some q)
    note dq = dec_prev [OF 1(2) Some]
    show ?thesis
    proof (cases "cls kd b q = k")
      case True
      have same: "p_row q = p_row cur" using True dq(6) 1(4) by (auto simp: cls_eq split: if_splits)
      have ns: "\<not> word_start kd b cur"
        using True same dq(5) inl 1(4) by (auto simp: word_start_def cls_eq Let_def split: if_splits)
      note step = no_start_to_dec [OF 1(2) Some ns]
      have e: "run_back kd b k cur = run_back kd b k q" using 1(3) Some by (subst run_back.simps) simp
      have up: "\<not> before cur p" if "\<not> before q p" for p
        using that dq(2) before_trans [of q cur p] by blast
      have IH: "case run_back kd b k q of
         Inl p \<Rightarrow> word_start kd b p \<and> \<not> before q p \<and> no_start_to kd b p q
       | Inr x \<Rightarrow> (\<exists>p. inc b x = Some p \<and> word_start kd b p \<and> \<not> before q p \<and> no_start_to kd b p q)"
        using 1(1) [OF 1(3) Some dq(1) True 1(4)] .
      show ?thesis
      proof (cases "run_back kd b k q")
        case (Inl p)
        then show ?thesis using e IH up [of p] step [of p] by simp
      next
        case (Inr x)
        then obtain p where "inc b x = Some p" "word_start kd b p" "\<not> before q p" "no_start_to kd b p q"
          using IH by auto
        then show ?thesis using e Inr up [of p] step [of p] by auto
      qed
    next
      case False
      have "run_back kd b k cur = run_back kd b k q" using 1(3) Some by (subst run_back.simps) simp
      also have "\<dots> = Inr q" using False by (subst run_back.simps) simp
      finally have e: "run_back kd b k cur = Inr q" .
      have "word_start kd b cur"
      proof (cases "p_row q = p_row cur")
        case True
        then show ?thesis
          using False dq(5) inl 1(2,4) by (auto simp: word_start_def vcell_def cls_eq Let_def split: if_splits)
      next
        case False
        then show ?thesis using dq(6) inl 1(2,4) by (auto simp: word_start_def vcell_def Let_def)
      qed
      then show ?thesis using e dq(4) self by auto
    qed
  qed
qed

lemma b_nearest:
  assumes fr: "vcell b from"
  shows "case prev_word_start kd b from of
      Some p \<Rightarrow> before p from \<and> no_start kd b p from \<and> (word_start kd b p \<or> p = Position 0 0)
    | None \<Rightarrow> from = Position 0 0"
proof (cases "dec b from")
  case None
  then show ?thesis using dec_None [OF None] by (simp add: prev_word_start_def)
next
  case (Some cur)
  note dq = dec_prev [OF fr Some]
  have fin: "before p from \<and> no_start kd b p from" if "\<not> before cur p" "no_start_to kd b p cur" for p
  proof
    show "before p from" using that(1) dq(2) before_linear [of p cur] before_trans [of p cur "from"] by blast
    show "no_start kd b p from"
    proof (intro allI impI)
      fix x assume x: "before p x \<and> before x from"
      then show "\<not> word_start kd b x"
        using dq(3) [of x] word_start_vcell [of kd b x] that(2) before_irrefl before_trans [of x cur x] by blast
    qed
  qed
  show ?thesis
  proof (cases "blank_back kd b cur")
    case (Inl p)
    then show ?thesis using blank_back_spec [OF dq(1), of kd] fin [of p] Some by (simp add: prev_word_start_def)
  next
    case (Inr c)
    then have c: "vcell b c" "cls kd b c \<noteq> SpaceKind" "\<not> before cur c" "no_start_to kd b c cur"
      using blank_back_spec [OF dq(1), of kd] by simp_all
    note run = run_back_spec [OF c(1) refl c(2)]
    have ext: "\<not> before cur p \<and> no_start_to kd b p cur" if p: "\<not> before c p" "no_start_to kd b p c" for p
    proof
      show "\<not> before cur p"
        using p(1) c(3) before_linear [of c cur] before_trans [of c cur p] by blast
      show "no_start_to kd b p cur"
        using p(2) c(4) by blast
    qed
    show ?thesis
    proof (cases "run_back kd b (cls kd b c) c")
      case (Inl p)
      then show ?thesis using run ext [of p] fin [of p] Some \<open>blank_back kd b cur = Inr c\<close>
        by (simp add: prev_word_start_def)
    next
      case (Inr q)
      then obtain p where p: "inc b q = Some p" "word_start kd b p" "\<not> before c p" "no_start_to kd b p c"
        using run by auto
      then have "prev_word_start kd b from = Some p"
        using Inr Some \<open>blank_back kd b cur = Inr c\<close> by (simp add: prev_word_start_def)
      then show ?thesis using p(2) ext [OF p(3,4)] fin [of p] by simp
    qed
  qed
qed

section \<open>\<open>e\<close>\<close>

abbreviation no_end :: "(rchar \<Rightarrow> char_kind) \<Rightarrow> motion_buf \<Rightarrow> position \<Rightarrow> position \<Rightarrow> bool" where
  "no_end kd b p q \<equiv> \<forall>x. \<not> before x p \<and> before x q \<longrightarrow> \<not> word_end kd b x"

lemma no_end_step:
  assumes "cell b cur" and "step_forward b cur = Some nx" and "\<not> word_end kd b cur" and "no_end kd b nx q"
  shows "no_end kd b cur q"
proof (intro allI impI)
  fix x assume x: "\<not> before x cur \<and> before x q"
  then consider "x = cur" | "before cur x" using before_linear [of x cur] by blast
  then show "\<not> word_end kd b x"
  proof cases
    case 2
    then show ?thesis
      using step_forward_next(3) [OF assms(1,2), of x] word_end_cell [of kd b x] assms(4) x before_irrefl
        before_trans [of nx x nx] by blast
  qed (use assms(3) in simp)
qed

lemma to_nonblank_spec:
  "cell b cur \<Longrightarrow>
    (case to_nonblank kd b cur of
       Inl p \<Rightarrow> step_forward b p = None \<and> (\<forall>x. \<not> before x cur \<longrightarrow> \<not> word_end kd b x)
     | Inr p \<Rightarrow> cell b p \<and> (\<exists>k. kind_at kd b p = Some k \<and> k \<noteq> SpaceKind) \<and> \<not> before p cur \<and> no_end kd b cur p)"
proof (induction kd b cur rule: to_nonblank.induct)
  case (1 kd b cur)
  show ?case
  proof (cases "kind_at kd b cur = None \<or> kind_at kd b cur = Some SpaceKind")
    case False
    then have "to_nonblank kd b cur = Inr cur" by (subst to_nonblank.simps) auto
    then show ?thesis using False 1(2) by auto
  next
    case True
    have ns: "\<not> word_end kd b cur"
      using True by (auto simp: word_end_def kind_at_eq Let_def split: if_splits)
    show ?thesis
    proof (cases "step_forward b cur")
      case None
      then have "to_nonblank kd b cur = Inl cur" using True by (subst to_nonblank.simps) auto
      moreover have "\<not> word_end kd b x" if "\<not> before x cur" for x
        using that ns before_linear [of x cur] step_forward_None [OF None, of x] word_end_cell [of kd b x] by blast
      ultimately show ?thesis using None by simp
    next
      case (Some nx)
      note nx = step_forward_next [OF 1(2) Some]
      have e: "to_nonblank kd b cur = to_nonblank kd b nx" using True Some by (subst to_nonblank.simps) auto
      have IH: "case to_nonblank kd b nx of
         Inl p \<Rightarrow> step_forward b p = None \<and> (\<forall>x. \<not> before x nx \<longrightarrow> \<not> word_end kd b x)
       | Inr p \<Rightarrow> cell b p \<and> (\<exists>k. kind_at kd b p = Some k \<and> k \<noteq> SpaceKind) \<and> \<not> before p nx \<and> no_end kd b nx p"
        using 1(1) [OF True Some nx(1)] .
      show ?thesis
      proof (cases "to_nonblank kd b nx")
        case (Inl p)
        have "\<not> word_end kd b x" if "\<not> before x cur" for x
          using that ns before_linear [of x cur] nx(3) [of x] word_end_cell [of kd b x] IH Inl before_irrefl
            before_trans [of nx x nx] by auto
        then show ?thesis using e IH Inl by simp
      next
        case (Inr p)
        have "\<not> before p cur" if "\<not> before p nx" using that nx(2) before_trans [of p cur nx] by blast
        then show ?thesis using e IH Inr no_end_step [OF 1(2) Some ns, of p] by simp
      qed
    qed
  qed
qed

lemma end_of_run_spec:
  "cell b cur \<Longrightarrow> kind_at kd b cur = Some k \<Longrightarrow> k \<noteq> SpaceKind \<Longrightarrow>
    word_end kd b (end_of_run kd b k cur) \<and> \<not> before (end_of_run kd b k cur) cur \<and>
    no_end kd b cur (end_of_run kd b k cur)"
proof (induction kd b k cur rule: end_of_run.induct)
  case (1 kd b k cur)
  have inl: "p_col cur < length (read_line b (p_row cur))" "kd (read_line b (p_row cur) ! p_col cur) = k"
    using 1(3) by (auto simp: kind_at_eq split: if_splits)
  show ?case
  proof (cases "\<exists>nx. step_forward b cur = Some nx \<and> p_row nx = p_row cur \<and> kind_at kd b nx = Some k")
    case True
    then obtain nx where nx: "step_forward b cur = Some nx" "p_row nx = p_row cur" "kind_at kd b nx = Some k" by blast
    note st = step_forward_next [OF 1(2) nx(1)]
    have e: "end_of_run kd b k cur = end_of_run kd b k nx" using nx by (subst end_of_run.simps) simp
    have ns: "\<not> word_end kd b cur"
      using nx st(4) inl by (auto simp: word_end_def kind_at_eq Let_def split: if_splits)
    have IH: "word_end kd b (end_of_run kd b k nx) \<and> \<not> before (end_of_run kd b k nx) nx \<and>
        no_end kd b nx (end_of_run kd b k nx)"
      using 1(1) [OF nx(1)] nx(2,3) st(1) 1(4) by simp
    have "\<not> before p cur" if "\<not> before p nx" for p using that st(2) before_trans [of p cur nx] by blast
    then show ?thesis unfolding e using IH no_end_step [OF 1(2) nx(1) ns] by blast
  next
    case False
    then have e: "end_of_run kd b k cur = cur"
      by (subst end_of_run.simps) (auto split: option.split)
    have "word_end kd b cur"
    proof (cases "p_col cur + 1 < length (read_line b (p_row cur))")
      case True
      then have "step_forward b cur = Some (Position (p_row cur) (p_col cur + 1))" by (simp add: step_forward_def)
      then have "kd (read_line b (p_row cur) ! (p_col cur + 1)) \<noteq> k"
        using False True by (auto simp: kind_at_eq)
      then show ?thesis using inl 1(2,4) by (simp add: word_end_def cell_def Let_def)
    next
      case False
      then have "p_col cur + 1 = length (read_line b (p_row cur))" using inl(1) by simp
      then show ?thesis using inl 1(2,4) by (simp add: word_end_def cell_def Let_def)
    qed
    then show ?thesis unfolding e by simp
  qed
qed

text \<open>
  From a cell \<open>e\<close> and \<open>E\<close> go to the nearest word end behind it; when there is none, to the
  last cell of the buffer, and they fail only on the last cell.
\<close>

lemma e_nearest:
  assumes fr: "cell b from"
  shows "case next_word_end kd b from of
      Some p \<Rightarrow> word_end kd b p \<and> before from p \<and> (\<forall>x. before from x \<and> before x p \<longrightarrow> \<not> word_end kd b x) \<or>
        step_forward b p = None \<and> (\<forall>x. before from x \<longrightarrow> \<not> word_end kd b x)
    | None \<Rightarrow> step_forward b from = None"
proof (cases "step_forward b from")
  case None
  then show ?thesis by (simp add: next_word_end_def)
next
  case (Some cur)
  note nx = step_forward_next [OF fr Some]
  have after: "\<not> before x cur" if "before from x" "word_end kd b x" for x
    using that nx(3) [of x] word_end_cell [of kd b x] before_irrefl before_trans [of cur x cur] by blast
  show ?thesis
  proof (cases "to_nonblank kd b cur")
    case (Inl p)
    then show ?thesis
      using to_nonblank_spec [OF nx(1), of kd] after Some by (auto simp: next_word_end_def)
  next
    case (Inr c)
    then obtain k where c: "cell b c" "kind_at kd b c = Some k" "k \<noteq> SpaceKind" "\<not> before c cur" "no_end kd b cur c"
      using to_nonblank_spec [OF nx(1), of kd] by auto
    let ?p = "end_of_run kd b k c"
    note run = end_of_run_spec [OF c(1-3)]
    have "next_word_end kd b from = Some ?p" using Some Inr c(2) by (simp add: next_word_end_def)
    moreover have "before from ?p"
      using run before_not_before [OF before_not_before [OF nx(2) c(4)]] by blast
    moreover have "\<not> word_end kd b x" if "before from x" "before x ?p" for x
      using that after [of x] c(5) run by (cases "before x c") blast+
    ultimately show ?thesis using run by simp
  qed
qed

section \<open>The nearest word\<close>

text \<open>
  C40: From a cell of the text \<open>w\<close> goes to the nearest word start behind it (to the end of the buffer
  when there is none), \<open>b\<close> to the nearest one before it (to the start of the buffer), and \<open>e\<close> to the
  nearest word end behind it (to the last cell); likewise \<open>W\<close>, \<open>B\<close> and \<open>E\<close>, but for \<open>W\<close> from an
  empty row.  An empty row is a word for \<open>w\<close> and \<open>b\<close> (\<open>word_start\<close>), not for \<open>e\<close> (\<open>word_end\<close>).
\<close>

theorem word_motions_nearest:
  assumes fr: "cell b from"
  shows "(\<not> (big \<and> read_line b (p_row from) = []) \<longrightarrow>
     (case next_word_start kd b from big of
        Some p \<Rightarrow> word_start kd b p \<and> before from p \<and> no_start kd b from p \<or>
          p = end_of_buffer b \<and> (\<forall>q. before from q \<longrightarrow> \<not> word_start kd b q)
      | None \<Rightarrow> read_line b (p_row from) = [] \<and> (\<forall>q. before from q \<longrightarrow> \<not> word_start kd b q))) \<and>
     (case prev_word_start kd b from of
        Some p \<Rightarrow> before p from \<and> no_start kd b p from \<and> (word_start kd b p \<or> p = Position 0 0)
      | None \<Rightarrow> from = Position 0 0) \<and>
     (case next_word_end kd b from of
        Some p \<Rightarrow> word_end kd b p \<and> before from p \<and> (\<forall>x. before from x \<and> before x p \<longrightarrow> \<not> word_end kd b x) \<or>
          step_forward b p = None \<and> (\<forall>x. before from x \<longrightarrow> \<not> word_end kd b x)
      | None \<Rightarrow> step_forward b from = None)"
  by (intro conjI impI w_nearest [OF fr] b_nearest [OF cell_vcell [OF fr]] e_nearest [OF fr])

theorem word_motions_nearest_witness:
  "(\<exists>p. next_word_start demo_kind demo_words (Position 0 0) False = Some p) \<and>
   (\<exists>p. next_word_end demo_kind demo_words (Position 0 0) = Some p)"
  using word_motions_nearest [of demo_words "Position 0 0" False demo_kind]
  by (auto simp: step_forward_def split: option.splits)

section \<open>\<open>w\<close> and back\<close>

lemma noop_no_jump [simp]:
  "fold_jump_fwd b noop_folds p = None" "fold_jump_back b noop_folds p = None"
  by (simp_all add: fold_jump_fwd_def fold_jump_back_def closed_fold_at_def noop_folds_def)

lemma write_cell:
  assumes "cell b p"
  shows "write_cursor p b = b\<lparr>mb_cursor := p\<rparr>"
proof -
  have "p_row p < content_row_count b" using assms by (simp add: cell_def)
  then have "p_row p \<le> length (mb_lines b) - 1" using content_row_count_le [of b] by linarith
  moreover have "p_col p \<le> length (read_line b (p_row p))" using assms by (auto simp: cell_def)
  ultimately show ?thesis by (simp add: write_cursor_def min_absorb1)
qed

lemma cursor_irrelevant [simp]:
  "read_line (b\<lparr>mb_cursor := p\<rparr>) = read_line b"
  "content_row_count (b\<lparr>mb_cursor := p\<rparr>) = content_row_count b"
  "cell (b\<lparr>mb_cursor := p\<rparr>) = cell b"
  "vcell (b\<lparr>mb_cursor := p\<rparr>) = vcell b"
  "word_start kd (b\<lparr>mb_cursor := p\<rparr>) = word_start kd b"
proof -
  show r: "read_line (b\<lparr>mb_cursor := p\<rparr>) = read_line b"
    by (rule ext) (simp add: read_line_def read_line_opt_def)
  show c: "content_row_count (b\<lparr>mb_cursor := p\<rparr>) = content_row_count b"
    by (simp add: content_row_count_def row_empty_def r)
  show "cell (b\<lparr>mb_cursor := p\<rparr>) = cell b" by (rule ext) (simp add: cell_def r c)
  show "vcell (b\<lparr>mb_cursor := p\<rparr>) = vcell b" by (rule ext) (simp add: vcell_def r c)
  show "word_start kd (b\<lparr>mb_cursor := p\<rparr>) = word_start kd b" by (rule ext) (simp add: word_start_def r c)
qed

text \<open>
  C30: Without folds \<open>b\<close> undoes \<open>w\<close> (and \<open>B\<close> undoes \<open>W\<close>): from a word start with another behind
  it, \<open>w\<close> moves to the next word start and \<open>b\<close> from there comes back.  \<open>W\<close> from an empty line is left out:
  it skips the empty lines behind, and \<open>B\<close> comes back to the last of them.
\<close>

theorem w_then_b:
  assumes kd: "kd = char_kind_of A (keyword_parse iskeyword) big"
    and start: "word_start kd b (mb_cursor b)" and more: "before (mb_cursor b) q" "word_start kd b q"
    and big: "\<not> (big \<and> cur_line b = [])"
  shows "word_start kd b (mb_cursor (move_word_fwd A noop_folds big 1 iskeyword b)) \<and>
    before (mb_cursor b) (mb_cursor (move_word_fwd A noop_folds big 1 iskeyword b)) \<and>
    mb_cursor (move_word_back A noop_folds big 1 iskeyword (move_word_fwd A noop_folds big 1 iskeyword b)) = mb_cursor b"
proof -
  let ?from = "mb_cursor b"
  obtain p where p: "next_word_start kd b ?from big = Some p" "word_start kd b p" "before ?from p" "no_start kd b ?from p"
    using w_nearest [where kd = kd, OF word_start_cell [OF start] big] more by (auto split: option.splits)
  let ?b = "b\<lparr>mb_cursor := p\<rparr>"
  have fwd: "move_word_fwd A noop_folds big 1 iskeyword b = ?b"
    using p(1) write_cell [OF word_start_cell [OF p(2)]]
    by (simp add: move_word_fwd_def jump_first_def flip: kd)
  have v: "vcell ?b p" using word_start_vcell [OF p(2)] by simp
  have "prev_word_start kd ?b p \<noteq> None"
  proof
    assume "prev_word_start kd ?b p = None"
    then have "p = Position 0 0" using b_nearest [OF v, of kd] by simp
    then show False using p(3) by (simp add: before_def)
  qed
  then obtain r where r: "prev_word_start kd ?b p = Some r" by auto
  then have "before r p" "no_start kd b r p" "word_start kd b r \<or> r = Position 0 0"
    using b_nearest [OF v, of kd] by simp_all
  then have "r = ?from"
    using start p(3,4) before_linear [of r ?from] by (auto simp: before_def)
  then have "move_word_back A noop_folds big 1 iskeyword ?b = ?b\<lparr>mb_cursor := ?from\<rparr>"
    using r write_cell [of ?b ?from] word_start_cell [OF start]
    by (simp add: move_word_back_def jump_first_def flip: kd)
  then show ?thesis using fwd p by simp
qed

text \<open>The words \<open>ab\<close> and \<open>c\<close> on one row.\<close>

theorem w_then_b_witness:
  "mb_cursor (move_word_back (\<lambda>c. 97 \<le> c) noop_folds False 1 [64]
     (move_word_fwd (\<lambda>c. 97 \<le> c) noop_folds False 1 [64] demo_words)) = Position 0 0"
  using w_then_b [OF refl, of "\<lambda>c. 97 \<le> c" "[64]" False demo_words "Position 0 3"] demo_starts
  by (simp add: before_def)

end
