(* ===== verification/Selections.thy ===== *)
theory Selections
  imports Edit Geom
begin

text \<open>
  Selections: the visual selection of the buffer (\<open>hjkl-buffer/src/selection.rs\<close>), and the
  secondary selections of the editor, which follow every edit
  (\<open>hjkl-engine/src/selection_shift.rs\<close>, and \<open>editor.rs\<close> for the set of selections and the
  edit at each of them).  Ranges are ordered, as the source requires of its callers.
\<close>

section \<open>The visual selection\<close>

datatype selection =
    CharSel position position
  | LineSel nat nat
  | BlockSel position position

type_synonym row_span = "(nat \<times> nat) option"

fun selection_head :: "selection \<Rightarrow> position" where
  "selection_head (CharSel anchor head) = head"
| "selection_head (LineSel anchor_row head_row) = Position head_row 0"
| "selection_head (BlockSel anchor head) = head"

fun selection_anchor :: "selection \<Rightarrow> position" where
  "selection_anchor (CharSel anchor head) = anchor"
| "selection_anchor (LineSel anchor_row head_row) = Position anchor_row 0"
| "selection_anchor (BlockSel anchor head) = anchor"

fun extend_to :: "position \<Rightarrow> selection \<Rightarrow> selection" where
  "extend_to pos (CharSel anchor head) = CharSel anchor pos"
| "extend_to pos (LineSel anchor_row head_row) = LineSel anchor_row (p_row pos)"
| "extend_to pos (BlockSel anchor head) = BlockSel anchor pos"

fun selection_row_span :: "nat \<Rightarrow> selection \<Rightarrow> row_span" where
  "selection_row_span row (CharSel anchor head) = (
     let (s, e) = order anchor head in
     if row < p_row s \<or> row > p_row e then None
     else Some (if row = p_row s then p_col s else 0, if row = p_row e then p_col e else usize_max))"
| "selection_row_span row (LineSel anchor_row head_row) =
     (if row < min anchor_row head_row \<or> row > max anchor_row head_row then None else Some (0, usize_max))"
| "selection_row_span row (BlockSel anchor head) =
     (if row < min (p_row anchor) (p_row head) \<or> row > max (p_row anchor) (p_row head) then None
      else Some (min (p_col anchor) (p_col head), max (p_col anchor) (p_col head)))"

text \<open>The chars of a line with a cell between two display columns: the first and the last,
  the width and the number of chars of the line.\<close>

fun span_walk :: "(rchar \<Rightarrow> nat option) \<Rightarrow> nat \<Rightarrow> nat \<Rightarrow> nat \<Rightarrow> nat option \<Rightarrow> nat option \<Rightarrow> nat \<Rightarrow> nat \<Rightarrow> rstring
    \<Rightarrow> nat option \<times> nat option \<times> nat \<times> nat" where
  "span_walk W tabw left right fst_i lst vcol i [] = (fst_i, lst, vcol, i)"
| "span_walk W tabw left right fst_i lst vcol i (c # cs) = (
     let nx = (if c = 9 then vcol + tabw - vcol mod tabw else vcol + char_col_to_visual_col W [c] 1 1);
         hit = (vcol \<le> right \<and> nx > left)
     in span_walk W tabw left right (if hit \<and> fst_i = None then Some i else fst_i) (if hit then Some i else lst)
          nx (Suc i) cs)"

definition row_span_on :: "(rchar \<Rightarrow> nat option) \<Rightarrow> nat \<Rightarrow> rstring \<Rightarrow> nat \<Rightarrow> selection \<Rightarrow> row_span" where
  "row_span_on W row line tabw s =
     (case s of
        BlockSel anchor head \<Rightarrow>
          (case selection_row_span row s of
             None \<Rightarrow> None
           | Some (left, right) \<Rightarrow>
               let (fst_i, lst, vcol, count) = span_walk W (max tabw 1) left right None None 0 0 line;
                   past = (\<lambda>col. count + (col - vcol));
                   lo = (case fst_i of Some i \<Rightarrow> i | None \<Rightarrow> past left);
                   hi = (if right = usize_max then usize_max
                         else case lst of Some i \<Rightarrow> if right < vcol then i else past right | None \<Rightarrow> past right)
               in Some (lo, hi))
      | _ \<Rightarrow> selection_row_span row s)"

fun row_bounds :: "selection \<Rightarrow> nat \<times> nat" where
  "row_bounds (CharSel anchor head) = (let (s, e) = order anchor head in (p_row s, p_row e))"
| "row_bounds (LineSel anchor_row head_row) = (min anchor_row head_row, max anchor_row head_row)"
| "row_bounds (BlockSel anchor head) = (min (p_row anchor) (p_row head), max (p_row anchor) (p_row head))"

section \<open>A secondary selection\<close>

datatype sel = Sel (sel_anchor: position) (sel_head: position)

definition caret :: "position \<Rightarrow> sel" where
  "caret p = Sel p p"

definition is_caret :: "sel \<Rightarrow> bool" where
  "is_caret s \<longleftrightarrow> sel_anchor s = sel_head s"

definition sel_start :: "sel \<Rightarrow> position" where
  "sel_start s = min (sel_anchor s) (sel_head s)"

definition sel_end :: "sel \<Rightarrow> position" where
  "sel_end s = max (sel_anchor s) (sel_head s)"

definition overlaps :: "sel \<Rightarrow> sel \<Rightarrow> bool" where
  "overlaps s t \<longleftrightarrow> sel_start s \<le> sel_end t \<and> sel_start t \<le> sel_end s"

definition merge_two :: "sel \<Rightarrow> sel \<Rightarrow> sel" where
  "merge_two a b = Sel (min (sel_start a) (sel_start b)) (max (sel_end a) (sel_end b))"

fun merge_loop :: "sel list \<Rightarrow> sel list \<Rightarrow> sel list" where
  "merge_loop out [] = out"
| "merge_loop out (s # ss) =
     merge_loop (if out \<noteq> [] \<and> overlaps (last out) s then butlast out @ [merge_two (last out) s] else out @ [s]) ss"

definition merge_overlapping :: "sel list \<Rightarrow> sel list" where
  "merge_overlapping sels = merge_loop [] (sort_key sel_start sels)"

section \<open>Where a position lands after an edit\<close>

definition after_insert :: "position \<Rightarrow> position \<Rightarrow> rstring \<Rightarrow> position" where
  "after_insert p at t =
     (if p < at then p
      else let added_rows = split_count t - 1; tail_len = length (last_piece t) in
        if p_row p = p_row at then
          if added_rows = 0 then Position (p_row p) (p_col p + length t)
          else Position (p_row p + added_rows) (tail_len + (p_col p - p_col at))
        else Position (p_row p + added_rows) (p_col p))"

definition after_delete_char :: "position \<Rightarrow> position \<Rightarrow> position \<Rightarrow> position" where
  "after_delete_char p s e =
     (if p \<le> s then p
      else if p < e then s
      else if p_row p = p_row e then Position (p_row s) (p_col s + (p_col p - p_col e))
      else Position (p_row p - (p_row e - p_row s)) (p_col p))"

definition after_delete_lines :: "position \<Rightarrow> nat \<Rightarrow> nat \<Rightarrow> position" where
  "after_delete_lines p start_row end_row =
     (if p_row p < start_row then p
      else if p_row p \<le> end_row then Position start_row 0
      else Position (p_row p - (end_row - start_row + 1)) (p_col p))"

definition after_delete_block :: "position \<Rightarrow> position \<Rightarrow> position \<Rightarrow> position" where
  "after_delete_block p s e = (
     let lo_row = min (p_row s) (p_row e); hi_row = max (p_row s) (p_row e);
         lo_col = min (p_col s) (p_col e); hi_col = max (p_col s) (p_col e) in
     if p_row p < lo_row \<or> p_row p > hi_row then p
     else if p_col p > hi_col then Position (p_row p) (p_col p - (hi_col - lo_col + 1))
     else if p_col p \<ge> lo_col then Position (p_row p) lo_col
     else p)"

text \<open>The columns at which the rows after \<open>row\<close> begin in the joined row.\<close>

fun join_starts :: "(nat \<Rightarrow> nat) \<Rightarrow> nat \<Rightarrow> bool \<Rightarrow> nat \<Rightarrow> nat \<Rightarrow> nat \<Rightarrow> nat list" where
  "join_starts line_len rows with_space nxt cur_len 0 = []"
| "join_starts line_len rows with_space nxt cur_len (Suc k) =
     (if nxt \<ge> rows then []
      else
        let next_len = line_len nxt;
            space = (if with_space \<and> cur_len > 0 \<and> next_len > 0 then 1 else 0)
        in (cur_len + space) # join_starts line_len rows with_space (Suc nxt) (cur_len + space + next_len) k)"

definition after_join :: "position \<Rightarrow> nat \<Rightarrow> nat \<Rightarrow> bool \<Rightarrow> (nat \<Rightarrow> nat) \<Rightarrow> nat \<Rightarrow> position" where
  "after_join p row count with_space line_len rows =
     (if p_row p < row then p
      else
        let start_col = join_starts line_len rows with_space (row + 1) (line_len row) (max count 1);
            joined = length start_col in
        if joined = 0 \<or> p_row p = row then p
        else if p_row p \<le> row + joined then Position row (start_col ! (p_row p - row - 1) + p_col p)
        else Position (p_row p - joined) (p_col p))"

definition after_insert_block :: "position \<Rightarrow> position \<Rightarrow> rstring list \<Rightarrow> position" where
  "after_insert_block p at chunks =
     (if p_row p < p_row at \<or> p_row p \<ge> p_row at + length chunks \<or> p_col p < p_col at then p
      else Position (p_row p) (p_col p + length (chunks ! (p_row p - p_row at))))"

definition after_delete_block_chunks :: "position \<Rightarrow> position \<Rightarrow> nat list \<Rightarrow> position" where
  "after_delete_block_chunks p at widths =
     (if p_row p < p_row at \<or> p_row p \<ge> p_row at + length widths \<or> p_col p \<le> p_col at then p
      else
        let w = widths ! (p_row p - p_row at) in
        if p_col p \<ge> p_col at + w then Position (p_row p) (p_col p - w)
        else Position (p_row p) (p_col at))"

fun shift_position :: "position \<Rightarrow> edit \<Rightarrow> (nat \<Rightarrow> nat) \<Rightarrow> nat \<Rightarrow> position option" where
  "shift_position p (InsertChar at c) line_len rows = Some (after_insert p at [c])"
| "shift_position p (InsertStr at t) line_len rows = Some (after_insert p at t)"
| "shift_position p (DeleteRange s e kind) line_len rows = Some (case kind of
      Char \<Rightarrow> after_delete_char p s e
    | Line \<Rightarrow> after_delete_lines p (p_row s) (p_row e)
    | Block \<Rightarrow> after_delete_block p s e)"
| "shift_position p (Replace s e t) line_len rows = Some (after_insert (after_delete_char p s e) s t)"
| "shift_position p (JoinLines row count with_space) line_len rows =
     Some (after_join p row count with_space line_len rows)"
| "shift_position p (InsertBlock at chunks) line_len rows = Some (after_insert_block p at chunks)"
| "shift_position p (DeleteBlockChunks at widths pads) line_len rows = Some (after_delete_block_chunks p at widths)"
| "shift_position p (SplitLines row cols sps) line_len rows = None"

definition shift_sel :: "sel \<Rightarrow> edit \<Rightarrow> (nat \<Rightarrow> nat) \<Rightarrow> nat \<Rightarrow> sel option" where
  "shift_sel s e line_len rows = do {
     anchor \<leftarrow> shift_position (sel_anchor s) e line_len rows;
     head \<leftarrow> shift_position (sel_head s) e line_len rows;
     Some (Sel anchor head)
   }"

section \<open>The selections of an editor\<close>

text \<open>\<open>me_locked\<close> holds when the buffer is \<open>nomodifiable\<close> or the BLAME view is shown.\<close>

record 'r multi =
  me_view :: "'r view"
  me_extra :: "sel list"
  me_locked :: bool

abbreviation me_cursor :: "'r multi \<Rightarrow> position" where
  "me_cursor m \<equiv> v_cursor (me_view m)"

definition buf_line_chars :: "'r text_ops \<Rightarrow> 'r view \<Rightarrow> nat \<Rightarrow> nat option" where
  "buf_line_chars R v row =
     (if row \<ge> rp_len_lines R (view_rope v) then Some 0 else rope_line_char_count R (view_rope v) row)"

definition row_lens :: "'r text_ops \<Rightarrow> 'r view \<Rightarrow> nat list option" where
  "row_lens R v = those (map (buf_line_chars R v) [0..<rp_len_lines R (view_rope v)])"

definition len_at :: "nat list \<Rightarrow> nat \<Rightarrow> nat" where
  "len_at lens r = (if r < length lens then lens ! r else 0)"

definition shift_extra :: "edit \<Rightarrow> nat list \<Rightarrow> sel list \<Rightarrow> sel list" where
  "shift_extra e lens sels = List.map_filter (\<lambda>s. shift_sel s e (len_at lens) (length lens)) sels"

text \<open>The part of \<open>mutate_edit\<close> that changes the text, the cursor and the selections.\<close>

definition mutate_edit :: "'r text_ops \<Rightarrow> edit \<Rightarrow> 'r multi \<Rightarrow> (edit \<times> 'r multi) option" where
  "mutate_edit R e m =
     (if me_locked m then Some (InsertStr (me_cursor m) [], m)
      else do {
        extra \<leftarrow> (if me_extra m = [] then Some []
                   else do { lens \<leftarrow> row_lens R (me_view m); Some (shift_extra e lens (me_extra m)) });
        (inverse, v) \<leftarrow> apply_edit R e (me_view m);
        Some (inverse, m\<lparr>me_view := v, me_extra := extra\<rparr>)
      })"

fun dedup_heads :: "position \<Rightarrow> sel list \<Rightarrow> sel list \<Rightarrow> sel list" where
  "dedup_heads primary deduped [] = deduped"
| "dedup_heads primary deduped (s # ss) =
     (if sel_head s = primary \<or> list_ex (\<lambda>e. sel_head e = sel_head s) deduped
      then dedup_heads primary deduped ss else dedup_heads primary (deduped @ [s]) ss)"

definition set_extra_selections :: "sel list \<Rightarrow> 'r multi \<Rightarrow> 'r multi" where
  "set_extra_selections sels m = m\<lparr>me_extra := merge_overlapping (dedup_heads (me_cursor m) [] sels)\<rparr>"

definition add_selection :: "sel \<Rightarrow> 'r multi \<Rightarrow> 'r multi" where
  "add_selection s m =
     (if sel_head s = me_cursor m \<or> list_ex (\<lambda>e. sel_head e = sel_head s) (me_extra m) then m
      else m\<lparr>me_extra := merge_overlapping (me_extra m @ [s])\<rparr>)"

definition add_cursor :: "position \<Rightarrow> 'r multi \<Rightarrow> 'r multi" where
  "add_cursor pos = add_selection (caret pos)"

definition clear_extra_cursors :: "'r multi \<Rightarrow> 'r multi" where
  "clear_extra_cursors m = m\<lparr>me_extra := []\<rparr>"

text \<open>The loop of \<open>edit_at_all_selections\<close>: the inverses, the index of the primary selection
  among the parked ones, whether one was lost, and the editor.\<close>

fun edit_loop :: "'r text_ops \<Rightarrow> (sel \<Rightarrow> edit) \<Rightarrow> sel \<Rightarrow> nat \<Rightarrow> nat option \<Rightarrow> sel list \<Rightarrow> 'r multi
    \<Rightarrow> (edit list \<times> nat option \<times> bool \<times> 'r multi) option" where
  "edit_loop R mk primary i primary_idx [] m = Some ([], primary_idx, False, m)"
| "edit_loop R mk primary i primary_idx (s # ss) m =
     (if length (me_extra m) \<noteq> i then Some ([], primary_idx, True, m)
      else do {
        lens \<leftarrow> row_lens R (me_view m);
        let shifted_anchor = shift_position (sel_anchor s) (mk s) (len_at lens) (length lens);
        v \<leftarrow> set_cursor R (sel_head s) (me_view m);
        (inverse, m) \<leftarrow> mutate_edit R (mk s) (m\<lparr>me_view := v\<rparr>);
        (case shifted_anchor of
           None \<Rightarrow> Some ([inverse], primary_idx, True, m)
         | Some anchor \<Rightarrow> do {
             let primary_idx = (if s = primary \<and> primary_idx = None then Some (length (me_extra m)) else primary_idx);
             (inverses, primary_idx, lost, m) \<leftarrow>
               edit_loop R mk primary (Suc i) primary_idx ss (m\<lparr>me_extra := me_extra m @ [Sel anchor (me_cursor m)]\<rparr>);
             Some (inverse # inverses, primary_idx, lost, m)
           })
      })"

text \<open>\<open>sort_by_key\<close> with \<open>Reverse\<close> is the stable sort from the last selection.\<close>

definition bottom_up :: "sel list \<Rightarrow> sel list" where
  "bottom_up sels = rev (sort_key sel_start (rev sels))"

definition edit_at_all_selections :: "'r text_ops \<Rightarrow> position \<Rightarrow> (sel \<Rightarrow> edit) \<Rightarrow> 'r multi
    \<Rightarrow> (edit list \<times> position \<times> 'r multi) option" where
  "edit_at_all_selections R primary_anchor mk m = (
     let primary = Sel primary_anchor (me_cursor m) in do {
       (inverses, primary_idx, lost, m) \<leftarrow>
         edit_loop R mk primary 0 None (bottom_up (primary # me_extra m)) (m\<lparr>me_extra := []\<rparr>);
       (case (lost, primary_idx) of
          (False, Some idx) \<Rightarrow>
            if idx < length (me_extra m) then do {
              let landed = me_extra m ! idx;
              v \<leftarrow> set_cursor R (sel_head landed) (me_view m);
              Some (inverses, sel_anchor landed,
                m\<lparr>me_extra := take idx (me_extra m) @ drop (Suc idx) (me_extra m), me_view := v\<rparr>)
            } else Some (inverses, me_cursor m, m\<lparr>me_extra := []\<rparr>)
        | _ \<Rightarrow> Some (inverses, me_cursor m, m\<lparr>me_extra := []\<rparr>))
     })"

definition edit_at_all_cursors :: "'r text_ops \<Rightarrow> (position \<Rightarrow> edit) \<Rightarrow> 'r multi \<Rightarrow> (edit list \<times> 'r multi) option" where
  "edit_at_all_cursors R mk m = do {
     (inverses, a, m) \<leftarrow> edit_at_all_selections R (me_cursor m) (\<lambda>s. mk (sel_head s)) m;
     Some (inverses, m)
   }"

end
