(* ===== verification/SelectionLaws.thy ===== *)
theory SelectionLaws
  imports EditProps Selections
begin

text \<open>
  A secondary selection stays on its text: the char under each end of it is the same after
  any edit that does not remove the char.
\<close>

section \<open>The char under a caret\<close>

definition char_on :: "rstring \<Rightarrow> position \<Rightarrow> rchar option" where
  "char_on s p = (
     let ls = text_lines s in
     if p_row p < length ls \<and> p_col p < length (ls ! p_row p) then Some (ls ! p_row p ! p_col p) else None)"

lemma char_on_unl:
  "lines_ok ls \<Longrightarrow> char_on (unl ls) p =
    (if p_row p < length ls \<and> p_col p < length (ls ! p_row p) then Some (ls ! p_row p ! p_col p) else None)"
  by (simp add: char_on_def text_lines_unl)

lemma char_on_split:
  assumes p: "plain s" and c: "char_on s p = Some c"
  obtains a b where "s = a @ c # b" and "p = pos_at a"
proof -
  let ?ls = "text_lines s" and ?r = "p_row p" and ?k = "p_col p"
  have ok: "lines_ok ?ls" by (rule text_lines_ok [OF p])
  have r: "?r < length ?ls" and k: "?k < length (?ls ! ?r)" and ch: "?ls ! ?r ! ?k = c"
    using c by (auto simp: char_on_def Let_def split: if_splits)
  have "s = rows_before ?r ?ls @ ?ls ! ?r @ rows_after ?r ?ls" using unl_row [OF r] by simp
  moreover have "?ls ! ?r = take ?k (?ls ! ?r) @ c # drop (Suc ?k) (?ls ! ?r)"
    using id_take_nth_drop [OF k] ch by simp
  ultimately have "s = (rows_before ?r ?ls @ take ?k (?ls ! ?r)) @ c # (drop (Suc ?k) (?ls ! ?r) @ rows_after ?r ?ls)"
    by (metis append.assoc append_Cons)
  moreover have "10 \<notin> set (take ?k (?ls ! ?r))"
    using ok r by (auto simp: lines_ok_def dest: in_set_takeD)
  then have "p = pos_at (rows_before ?r ?ls @ take ?k (?ls ! ?r))"
    using pos_at_row [OF ok, of ?r] r k by (cases p) simp
  ultimately show ?thesis by (rule that)
qed

lemma char_on_at:
  assumes "plain (a @ c # b)" and "c \<noteq> 10"
  shows "char_on (a @ c # b) (pos_at a) = Some c"
proof -
  let ?s = "a @ c # b" and ?p = "pos_at a"
  let ?ls = "text_lines ?s"
  have ok: "lines_ok ?ls" by (rule text_lines_ok [OF assms(1)])
  have pok: "pos_ok ?s ?p" by (rule pos_at_ok [OF assms(1)])
  have len: "nlines ?s = length ?ls" using nlines_unl [OF ok] by simp
  have r: "p_row ?p < length ?ls" using pok by (simp add: pos_ok_def len)
  have rc: "row_chars ?s (p_row ?p) = length (?ls ! p_row ?p)" using row_chars_unl [OF ok r] by simp
  have col: "p_col ?p < length (?ls ! p_row ?p)"
    using row_chars_at [OF assms(1)] assms(2) rc by (simp add: pos_at_def)
  have "length (rows_before (p_row ?p) ?ls) + p_col ?p = length a"
    using char_index_unl [OF ok r, of "p_col ?p"] index_of_at [OF assms(1)] col by simp
  moreover have "?s = rows_before (p_row ?p) ?ls @ ?ls ! p_row ?p @ rows_after (p_row ?p) ?ls"
    using unl_row [OF r] by simp
  ultimately have "?s ! length a = ?ls ! p_row ?p ! p_col ?p"
    using col by (metis nth_append_left nth_append_length_plus)
  then show ?thesis using r col by (simp add: char_on_def Let_def nth_append)
qed

lemma char_on_no_lf: "char_on s p = Some c \<Longrightarrow> c \<noteq> 10"
  using text_lines_set [of "text_lines s ! p_row p" s]
  by (auto simp: char_on_def Let_def dest!: nth_mem [of "p_col p"] split: if_splits)

section \<open>Positions in the order of the text\<close>

lemma pos_at_less: "m \<noteq> [] \<Longrightarrow> pos_at a < pos_at (a @ m)"
  using rowc_0 [of m] colc_simps
  by (cases "10 \<in> set m") (auto simp del: rowc_0 simp: pos_at_def less_position_def)

lemma pos_at_prefix_less:
  assumes "a @ b = x @ y" and "pos_at a < pos_at x"
  obtains m where "x = a @ m" "m \<noteq> []" "b = m @ y"
proof -
  from assms(1) consider m where "x = a @ m" "b = m @ y" | m where "a = x @ m" "y = m @ b"
    by (auto simp: append_eq_append_conv2)
  then show ?thesis
  proof cases
    case 1
    then show ?thesis using assms(2) by (intro that [of m]) auto
  next
    case 2
    then show ?thesis using pos_at_mono [of x m] assms(2) by simp
  qed
qed

lemma pos_at_prefix_le:
  assumes "a @ b = x @ y" and "pos_at x \<le> pos_at a"
  obtains m where "a = x @ m" "y = m @ b"
proof -
  from assms(1) consider m where "x = a @ m" "b = m @ y" | m where "a = x @ m" "y = m @ b"
    by (auto simp: append_eq_append_conv2)
  then show ?thesis
  proof cases
    case 1
    then show ?thesis using pos_at_less [of m a] assms(2) that [of "[]"] by (cases "m = []") auto
  next
    case 2
    then show ?thesis by (rule that)
  qed
qed

lemma colc_append: "colc (a @ m) = (if 10 \<in> set m then colc m else colc a + length m)"
  by (simp add: colc_def last_piece_append)

lemma after_insert_before: "m \<noteq> [] \<Longrightarrow> after_insert (pos_at x) (pos_at (x @ m)) t = pos_at x"
  using pos_at_less [of m x] by (simp add: after_insert_def)

lemma after_insert_at: "after_insert (pos_at (a @ m)) (pos_at a) t = pos_at (a @ t @ m)"
proof -
  have "\<not> pos_at (a @ m) < pos_at a" using pos_at_mono [of a m] by (simp add: not_less)
  moreover have "split_count t - 1 = rowc t" "length (last_piece t) = colc t"
    by (simp_all add: split_count_def rowc_def colc_def)
  moreover have "(rowc m = 0) = (10 \<notin> set m)" "(rowc t = 0) = (10 \<notin> set t)" by simp_all
  ultimately show ?thesis
    by (cases "10 \<in> set m"; cases "10 \<in> set t")
      (simp_all del: rowc_0 add: after_insert_def pos_at_def colc_append rowc_0 [THEN iffD2])
qed

lemma after_delete_before: "after_delete_char (pos_at x) (pos_at (x @ m)) q = pos_at x"
  using pos_at_mono [of x m] by (simp add: after_delete_char_def)

lemma after_delete_at: "after_delete_char (pos_at (a @ m @ k)) (pos_at a) (pos_at (a @ m)) = pos_at (a @ k)"
proof (cases "m @ k = []")
  case False
  then have lt: "\<not> pos_at (a @ m @ k) \<le> pos_at a" using pos_at_less [of "m @ k" a] by (simp add: not_le)
  have ge: "\<not> pos_at (a @ m @ k) < pos_at (a @ m)" using pos_at_mono [of "a @ m" k] by (simp add: not_less)
  have "(rowc k = 0) = (10 \<notin> set k)" by simp
  with lt ge show ?thesis
    by (cases "10 \<in> set k")
      (simp_all del: rowc_0 add: after_delete_char_def pos_at_def colc_append rowc_0 [THEN iffD2])
qed (simp add: after_delete_char_def)

section \<open>Edits and carets\<close>

text \<open>What a shift asks of an edit: positions of the text, ordered ranges, and for the removal
  of block chunks no padding.\<close>

definition shift_fits :: "rstring \<Rightarrow> edit \<Rightarrow> bool" where
  "shift_fits s e =
     (case e of
        InsertChar p c \<Rightarrow> pos_ok s p \<and> valid_str [c] \<and> plain [c]
      | InsertStr p t \<Rightarrow> pos_ok s p \<and> valid_str t \<and> plain t
      | DeleteRange p q Char \<Rightarrow> p \<le> q \<and> pos_ok s p \<and> pos_ok s q
      | DeleteRange p q Line \<Rightarrow> p \<le> q \<and> p_row p < nlines s
      | DeleteRange p q Block \<Rightarrow> True
      | JoinLines row count ws \<Rightarrow> row < nlines s
      | Replace p q t \<Rightarrow> p \<le> q \<and> pos_ok s p \<and> pos_ok s q \<and> valid_str t \<and> plain t
      | InsertBlock p chunks \<Rightarrow> list_all line_text chunks
      | DeleteBlockChunks p widths pads \<Rightarrow> pads = replicate (length widths) 0
      | SplitLines row cols sps \<Rightarrow> False)"

text \<open>The chars an edit removes.\<close>

definition removes :: "edit \<Rightarrow> position \<Rightarrow> bool" where
  "removes e p =
     (case e of
        DeleteRange s q Char \<Rightarrow> s \<le> p \<and> p < q
      | DeleteRange s q Line \<Rightarrow> p_row s \<le> p_row p \<and> p_row p \<le> p_row q
      | DeleteRange s q Block \<Rightarrow>
          min (p_row s) (p_row q) \<le> p_row p \<and> p_row p \<le> max (p_row s) (p_row q) \<and>
          min (p_col s) (p_col q) \<le> p_col p \<and> p_col p \<le> max (p_col s) (p_col q)
      | Replace s q t \<Rightarrow> s \<le> p \<and> p < q
      | DeleteBlockChunks a widths pads \<Rightarrow>
          p_row a \<le> p_row p \<and> p_row p < p_row a + length widths \<and>
          p_col a \<le> p_col p \<and> p_col p < p_col a + widths ! (p_row p - p_row a)
      | _ \<Rightarrow> False)"

abbreviation keeps_char :: "edit \<Rightarrow> (nat \<Rightarrow> nat) \<Rightarrow> nat \<Rightarrow> position \<Rightarrow> rchar \<Rightarrow> rstring \<Rightarrow> bool" where
  "keeps_char e line_len rows p c s' \<equiv> \<exists>q. shift_position p e line_len rows = Some q \<and> char_on s' q = Some c"

lemma insert_keeps:
  assumes R: "text_laws R" and pl: "plain (view_text R v)" and ok: "pos_ok (view_text R v) q"
    and t: "valid_str t" "plain t" and c: "char_on (view_text R v) p = Some c"
    and e: "apply_edit R (InsertStr q t) v = Some (i, w)"
  shows "char_on (view_text R w) (after_insert p q t) = Some c"
proof -
  obtain a b where T: "view_text R v = a @ b" and q: "q = pos_at a" by (rule pos_split [OF pl ok])
  obtain x y where x: "view_text R v = x @ c # y" and p: "p = pos_at x" by (rule char_on_split [OF pl c])
  have lf: "c \<noteq> 10" by (rule char_on_no_lf [OF c])
  have w: "view_text R w = a @ t @ b"
    using apply_insert [OF R T _ t(1)] pl e unfolding T q by auto
  have plw: "plain (a @ t @ b)" using pl t(2) by (simp add: T)
  show ?thesis
  proof (cases "pos_at x < pos_at a")
    case True
    then obtain m where m: "a = x @ m" "m \<noteq> []" "c # y = m @ b"
      using pos_at_prefix_less [of x "c # y" a b] T x by auto
    then obtain m' where m': "m = c # m'" by (cases m) auto
    then show ?thesis
      using char_on_at [of x c "m' @ t @ b"] plw lf m by (simp add: w p q after_insert_before)
  next
    case False
    then have "pos_at a \<le> pos_at x" by (simp add: not_less)
    then obtain m where m: "x = a @ m" "b = m @ c # y"
      using pos_at_prefix_le [of x "c # y" a b] T x by auto
    then show ?thesis
      using char_on_at [of "a @ t @ m" c y] plw lf by (simp add: w p q after_insert_at)
  qed
qed

lemma delete_keeps:
  assumes pl: "plain (a @ m @ b)" and c: "char_on (a @ m @ b) p = Some c"
    and keep: "\<not> (pos_at a \<le> p \<and> p < pos_at (a @ m))"
  obtains x y where "a @ b = x @ c # y" and "after_delete_char p (pos_at a) (pos_at (a @ m)) = pos_at x"
proof -
  obtain x y where x: "a @ m @ b = x @ c # y" and p: "p = pos_at x" by (rule char_on_split [OF pl c])
  show ?thesis
  proof (cases "pos_at x < pos_at a")
    case True
    then obtain k where k: "a = x @ k" "k \<noteq> []" "c # y = k @ m @ b"
      using pos_at_prefix_less [of x "c # y" a "m @ b"] x by auto
    then obtain k' where "k = c # k'" by (cases k) auto
    then show ?thesis
      using that [of x "k' @ b"] k after_delete_before [of x k] by (simp add: p)
  next
    case False
    then have "pos_at (a @ m) \<le> pos_at x" using keep p by (auto simp: not_less)
    then obtain k where k: "x = (a @ m) @ k" "b = k @ c # y"
      using pos_at_prefix_le [of x "c # y" "a @ m" b] x by auto
    then show ?thesis using that [of "a @ k" y] after_delete_at [of a m k] by (simp add: p)
  qed
qed

lemma range_split:
  assumes "plain s" and "p \<le> q" and "pos_ok s p" and "pos_ok s q"
  obtains a m b where "s = a @ m @ b" and "p = pos_at a" and "q = pos_at (a @ m)"
proof -
  obtain a b where a: "s = a @ b" "p = pos_at a" by (rule pos_split [OF assms(1,3)])
  obtain x y where x: "s = x @ y" "q = pos_at x" by (rule pos_split [OF assms(1,4)])
  have "pos_at a \<le> pos_at x" using assms(2) a x by simp
  then obtain m where "x = a @ m" "b = m @ y" using pos_at_prefix_le [of x y a b] a x by auto
  then show ?thesis using that a x by simp
qed

lemma delete_char_keeps:
  assumes R: "text_laws R" and pl: "plain (view_text R v)" and fits: "shift_fits (view_text R v) (DeleteRange s e Char)"
    and c: "char_on (view_text R v) p = Some c" and keep: "\<not> removes (DeleteRange s e Char) p"
    and ed: "apply_edit R (DeleteRange s e Char) v = Some (i, w)"
  shows "char_on (view_text R w) (after_delete_char p s e) = Some c"
proof -
  have "s \<le> e" "pos_ok (view_text R v) s" "pos_ok (view_text R v) e" using fits by (simp_all add: shift_fits_def)
  then obtain a m b where T: "view_text R v = a @ m @ b" and s: "s = pos_at a" and e: "e = pos_at (a @ m)"
    by (rule range_split [OF pl])
  have w: "view_text R w = a @ b"
    using apply_delete [OF R T] pl ed unfolding T s e by auto
  have "\<not> (pos_at a \<le> p \<and> p < pos_at (a @ m))" using keep by (simp add: removes_def s e)
  then obtain x y where x: "a @ b = x @ c # y" "after_delete_char p s e = pos_at x"
    unfolding s e by (rule delete_keeps [OF pl [unfolded T] c [unfolded T]])
  have "plain (a @ b)" using pl by (simp add: T)
  then show ?thesis using char_on_at [of x c y] char_on_no_lf [OF c] unfolding w x(2) unfolding x(1) by blast
qed

lemma replace_keeps:
  assumes R: "text_laws R" and pl: "plain (view_text R v)" and fits: "shift_fits (view_text R v) (Replace s e t)"
    and c: "char_on (view_text R v) p = Some c" and keep: "\<not> removes (Replace s e t) p"
    and ed: "apply_edit R (Replace s e t) v = Some (i, w)"
  shows "char_on (view_text R w) (after_insert (after_delete_char p s e) s t) = Some c"
proof -
  have "s \<le> e" "pos_ok (view_text R v) s" "pos_ok (view_text R v) e" using fits by (simp_all add: shift_fits_def)
  then obtain a m b where T: "view_text R v = a @ m @ b" and s: "s = pos_at a" and e: "e = pos_at (a @ m)"
    by (rule range_split [OF pl])
  have t: "valid_str t" "plain t" using fits by (simp_all add: shift_fits_def)
  have plT: "plain (a @ m @ b)" using pl by (simp add: T)
  have w: "view_text R w = a @ t @ b"
    using replace_back [OF R T plT t(2,1)] ed unfolding s e by auto
  have "\<not> (pos_at a \<le> p \<and> p < pos_at (a @ m))" using keep by (simp add: removes_def s e)
  then obtain x y where x: "a @ b = x @ c # y" and px: "after_delete_char p s e = pos_at x"
    unfolding s e by (rule delete_keeps [OF plT c [unfolded T]])
  have lf: "c \<noteq> 10" by (rule char_on_no_lf [OF c])
  have plw: "plain (a @ t @ b)" using plT t(2) by simp
  show ?thesis
  proof (cases "pos_at x < pos_at a")
    case True
    then obtain k where k: "a = x @ k" "k \<noteq> []" "c # y = k @ b"
      using pos_at_prefix_less [of x "c # y" a b] x by auto
    then obtain k' where "k = c # k'" by (cases k) auto
    then show ?thesis
      using char_on_at [of x c "k' @ t @ b"] plw lf k unfolding px unfolding s w by (simp add: after_insert_before)
  next
    case False
    then have "pos_at a \<le> pos_at x" by (simp add: not_less)
    then obtain k where "x = a @ k" "b = k @ c # y"
      using pos_at_prefix_le [of x "c # y" a b] x by auto
    then show ?thesis
      using char_on_at [of "a @ t @ k" c y] plw lf unfolding px unfolding s w by (simp add: after_insert_at)
  qed
qed

section \<open>Edits of rows\<close>

lemma delete_lines_keeps:
  assumes R: "text_laws R" and pl: "plain (view_text R v)" and fits: "shift_fits (view_text R v) (DeleteRange s e Line)"
    and c: "char_on (view_text R v) p = Some c" and keep: "\<not> removes (DeleteRange s e Line) p"
    and ed: "apply_edit R (DeleteRange s e Line) v = Some (i, w)"
  shows "char_on (view_text R w) (after_delete_lines p (p_row s) (p_row e)) = Some c"
proof -
  define ls where "ls = text_lines (view_text R v)"
  have ok: "lines_ok ls" unfolding ls_def by (rule text_lines_ok [OF pl])
  have n: "nlines (view_text R v) = length ls" using nlines_unl [OF ok] by (simp add: ls_def)
  have se: "s \<le> e" "p_row s < length ls" using fits by (simp_all add: shift_fits_def n)
  then have rows: "p_row s \<le> p_row e" by (auto simp: less_eq_position_def)
  let ?lo = "p_row s" and ?hi = "min (p_row e) (length ls - 1)"
  have lo: "min ?lo (length ls - Suc 0) = ?lo" using se by simp
  have r: "p_row p < length ls" "p_col p < length (ls ! p_row p)" "ls ! p_row p ! p_col p = c"
    using c by (auto simp: char_on_def ls_def Let_def split: if_splits)
  let ?ls1 = "take ?lo ls @ drop (Suc ?hi) ls"
  have w: "view_text R w = unl ?ls1"
    using delete_lines_text [OF R pl rows] ed se(1)
    by (auto simp: apply_edit_def do_delete_range_def order_def Let_def ls_def [symmetric] lo)
  have out: "p_row p < ?lo \<or> p_row e < p_row p" using keep by (auto simp: removes_def)
  have "?ls1 \<noteq> []" using out r(1) by auto
  then have ok1: "lines_ok ?ls1" using ok by (auto simp: lines_ok_def dest: in_set_takeD in_set_dropD)
  show ?thesis
  proof (cases "p_row p < ?lo")
    case True
    then show ?thesis using r se(2) unfolding w char_on_unl [OF ok1]
      by (simp add: after_delete_lines_def nth_append)
  next
    case False
    then have gt: "p_row e < p_row p" using out by simp
    then have hi: "?hi = p_row e" using r(1) by simp
    let ?k = "p_row p - Suc (p_row e)"
    have k: "p_row p - Suc (p_row e - ?lo) = ?lo + ?k" using gt rows by linarith
    have nth: "?ls1 ! (?lo + ?k) = ls ! p_row p" "?lo + ?k < length ?ls1"
      using nth_append_length_plus [of "take ?lo ls" "drop (Suc ?hi) ls" ?k] gt r(1) se(2) by (simp_all add: hi min_absorb2)
    have "after_delete_lines p ?lo (p_row e) = Position (?lo + ?k) (p_col p)"
      using False gt k by (simp add: after_delete_lines_def)
    then show ?thesis using r nth unfolding w char_on_unl [OF ok1] by simp
  qed
qed

lemma on_rows_outside:
  assumes "r < row \<or> row + length xs \<le> r" and "r < length ls"
  shows "on_rows f row xs ls ! r = ls ! r"
proof -
  have nth: "length xs \<le> j \<Longrightarrow> j < length ls \<Longrightarrow> rows_from f xs ls ! j = ls ! j" for j ls
  proof (induction f xs ls arbitrary: j rule: rows_from.induct)
    case (1 f x xs l ls)
    then show ?case by (cases j) auto
  qed simp_all
  show ?thesis using assms nth [of "r - row" "drop row ls"] by (auto simp: on_rows_def nth_append)
qed

lemma on_rows_nth:
  "r < length ls \<Longrightarrow> on_rows f row xs ls ! r =
    (if row \<le> r \<and> r < row + length xs then f (xs ! (r - row)) (ls ! r) else ls ! r)"
  using nth_on_rows [of "r - row" xs row ls f] on_rows_outside [of r row xs ls f] by auto

text \<open>An operation on rows keeps a char when its row does.\<close>

lemma on_rows_keeps:
  assumes ok: "lines_ok (on_rows f row xs ls)" and r: "p_row p < length ls" "p_col p < length (ls ! p_row p)"
    and q: "p_row q = p_row p"
    and l: "row \<le> p_row p \<Longrightarrow> p_row p < row + length xs \<Longrightarrow>
      p_col q < length (f (xs ! (p_row p - row)) (ls ! p_row p)) \<and>
      f (xs ! (p_row p - row)) (ls ! p_row p) ! p_col q = ls ! p_row p ! p_col p"
    and out: "p_row p < row \<or> row + length xs \<le> p_row p \<Longrightarrow> p_col q = p_col p"
  shows "char_on (unl (on_rows f row xs ls)) q = Some (ls ! p_row p ! p_col p)"
  using r q l out unfolding char_on_unl [OF ok] by (cases "row \<le> p_row p \<and> p_row p < row + length xs")
    (auto simp: on_rows_nth not_le not_less)

lemma block_ins_char:
  "k < length l \<Longrightarrow>
    (if k < col then block_ins col t l ! k = l ! k \<and> k < length (block_ins col t l)
     else block_ins col t l ! (k + length t) = l ! k \<and> k + length t < length (block_ins col t l))"
  by (auto simp: block_ins_def Let_def nth_append min_def)

lemma block_cut_char:
  "k < length l \<Longrightarrow> left \<le> right \<Longrightarrow> \<not> (left \<le> k \<and> k \<le> right) \<Longrightarrow>
    (let j = (if k < left then k else k - (right - left + 1))
     in block_cut left right u l ! j = l ! k \<and> j < length (block_cut left right u l))"
  by (auto simp: block_cut_def Let_def nth_append min_def not_le)

lemma block_del_char:
  "k < length l \<Longrightarrow> \<not> (col \<le> k \<and> k < col + n) \<Longrightarrow>
    (let j = (if k < col then k else k - n)
     in block_del col (n, 0) l ! j = l ! k \<and> j < length (block_del col (n, 0) l))"
  by (auto simp: block_del_def Let_def nth_append min_def not_le)

lemma row_of_char:
  assumes "char_on (view_text R v) p = Some c" and "ls = text_lines (view_text R v)"
  shows "p_row p < length ls" "p_col p < length (ls ! p_row p)" "ls ! p_row p ! p_col p = c"
  using assms by (auto simp: char_on_def Let_def split: if_splits)

lemma insert_block_keeps:
  assumes R: "text_laws R" and pl: "plain (view_text R v)" and fits: "list_all line_text chunks"
    and c: "char_on (view_text R v) p = Some c"
    and ed: "apply_edit R (InsertBlock at chunks) v = Some (i, w)"
  shows "char_on (view_text R w) (after_insert_block p at chunks) = Some c"
proof -
  define ls where "ls = text_lines (view_text R v)"
  note r = row_of_char [OF c ls_def]
  have L: "rope_lines R (view_rope v) ls" unfolding ls_def by (rule rope_linesI [OF pl])
  have ch: "\<forall>t \<in> set chunks. line_text t" using fits by (simp add: list_all_iff)
  obtain row col where at: "at = Position row col" by (cases at)
  let ?ls1 = "on_rows (block_ins col) row chunks ls"
  have w: "view_text R w = unl ?ls1" and ok: "lines_ok ?ls1"
    using apply_insert_block [OF R L ch, of row col] ed by (auto simp: at)
  have "char_on (unl ?ls1) (after_insert_block p at chunks) = Some (ls ! p_row p ! p_col p)"
  proof (rule on_rows_keeps [OF ok r(1,2)])
    show "p_row (after_insert_block p at chunks) = p_row p" by (simp add: after_insert_block_def)
  next
    assume rr: "row \<le> p_row p" "p_row p < row + length chunks"
    show "p_col (after_insert_block p at chunks) < length (block_ins col (chunks ! (p_row p - row)) (ls ! p_row p)) \<and>
      block_ins col (chunks ! (p_row p - row)) (ls ! p_row p) ! p_col (after_insert_block p at chunks) = ls ! p_row p ! p_col p"
      using block_ins_char [OF r(2), of col "chunks ! (p_row p - row)"] rr
      by (auto simp: at after_insert_block_def split: if_splits)
  next
    assume "p_row p < row \<or> row + length chunks \<le> p_row p"
    then show "p_col (after_insert_block p at chunks) = p_col p" by (auto simp: at after_insert_block_def)
  qed
  then show ?thesis using w r(3) by simp
qed

lemma delete_chunks_keeps:
  assumes R: "text_laws R" and pl: "plain (view_text R v)"
    and c: "char_on (view_text R v) p = Some c"
    and keep: "\<not> removes (DeleteBlockChunks at widths pads) p" and pads: "pads = replicate (length widths) 0"
    and ed: "apply_edit R (DeleteBlockChunks at widths pads) v = Some (i, w)"
  shows "char_on (view_text R w) (after_delete_block_chunks p at widths) = Some c"
proof -
  define ls where "ls = text_lines (view_text R v)"
  note r = row_of_char [OF c ls_def]
  have L: "rope_lines R (view_rope v) ls" unfolding ls_def by (rule rope_linesI [OF pl])
  obtain row col where at: "at = Position row col" by (cases at)
  let ?ls1 = "on_rows (block_del col) row (zip widths pads) ls"
  have n: "length pads = length widths" by (simp add: pads)
  have w: "view_text R w = unl ?ls1" and ok: "lines_ok ?ls1"
    using apply_delete_chunks [OF R L n, of row col] ed by (auto simp: at)
  have "char_on (unl ?ls1) (after_delete_block_chunks p at widths) = Some (ls ! p_row p ! p_col p)"
  proof (rule on_rows_keeps [OF ok r(1,2)])
    show "p_row (after_delete_block_chunks p at widths) = p_row p"
      by (simp add: after_delete_block_chunks_def Let_def)
  next
    assume "row \<le> p_row p" "p_row p < row + length (zip widths pads)"
    then have rr: "row \<le> p_row p" "p_row p < row + length widths" by (simp_all add: n)
    let ?w = "widths ! (p_row p - row)"
    have z: "zip widths pads ! (p_row p - row) = (?w, 0)" using rr by (simp add: pads less_diff_conv2)
    have nr: "\<not> (col \<le> p_col p \<and> p_col p < col + ?w)"
      using keep rr by (simp add: removes_def at)
    have "p_col (after_delete_block_chunks p at widths) = (if p_col p < col then p_col p else p_col p - ?w)"
      using rr nr by (auto simp: at after_delete_block_chunks_def Let_def)
    then show "p_col (after_delete_block_chunks p at widths) < length (block_del col (zip widths pads ! (p_row p - row)) (ls ! p_row p)) \<and>
      block_del col (zip widths pads ! (p_row p - row)) (ls ! p_row p) ! p_col (after_delete_block_chunks p at widths) =
        ls ! p_row p ! p_col p"
      using block_del_char [OF r(2) nr] unfolding z by (simp add: Let_def)
  next
    assume "p_row p < row \<or> row + length (zip widths pads) \<le> p_row p"
    then show "p_col (after_delete_block_chunks p at widths) = p_col p"
      by (auto simp: at n after_delete_block_chunks_def)
  qed
  then show ?thesis using w r(3) by simp
qed

lemma delete_block_keeps:
  assumes R: "text_laws R" and pl: "plain (view_text R v)"
    and c: "char_on (view_text R v) p = Some c" and keep: "\<not> removes (DeleteRange s e Block) p"
    and ed: "apply_edit R (DeleteRange s e Block) v = Some (i, w)"
  shows "char_on (view_text R w) (after_delete_block p s e) = Some c"
proof -
  define ls where "ls = text_lines (view_text R v)"
  note r = row_of_char [OF c ls_def]
  have L: "rope_lines R (view_rope v) ls" unfolding ls_def by (rule rope_linesI [OF pl])
  define row last left right where "row = min (p_row s) (p_row e)" and "last = max (p_row s) (p_row e)"
    and "left = min (p_col s) (p_col e)" and "right = max (p_col s) (p_col e)"
  note defs = row_def last_def left_def right_def
  have lr: "left \<le> right" "row \<le> last" by (simp_all add: defs)
  have min_max: "p_row (min s e) = row" "p_row (max s e) = last"
    "min (p_col (min s e)) (p_col (max s e)) = left" "max (p_col (min s e)) (p_col (max s e)) = right"
    by (auto simp: defs min_def max_def less_eq_position_def)
  let ?xs = "replicate (last - row + 1) ()"
  let ?ls1 = "on_rows (block_cut left right) row ?xs ls"
  have L1: "rope_lines R (view_rope w) ?ls1"
    using apply_delete_block [OF R L order_min_max [of s e]] ed unfolding min_max cut_rows_def by auto
  then have w: "view_text R w = unl ?ls1" and ok: "lines_ok ?ls1" by (simp_all add: rope_lines_def)
  have ad: "after_delete_block p s e =
      (if p_row p < row \<or> p_row p > last then p
       else if p_col p > right then Position (p_row p) (p_col p - (right - left + 1))
       else if p_col p \<ge> left then Position (p_row p) left else p)"
    by (simp add: after_delete_block_def defs Let_def)
  have "char_on (unl ?ls1) (after_delete_block p s e) = Some (ls ! p_row p ! p_col p)"
  proof (rule on_rows_keeps [OF ok r(1,2)])
    show "p_row (after_delete_block p s e) = p_row p" by (simp add: ad)
  next
    assume "row \<le> p_row p" "p_row p < row + length ?xs"
    then have rr: "row \<le> p_row p" "p_row p \<le> last" using lr by simp_all
    have nr: "\<not> (left \<le> p_col p \<and> p_col p \<le> right)"
      using keep rr by (auto simp: removes_def defs)
    have "p_col (after_delete_block p s e) = (if p_col p < left then p_col p else p_col p - (right - left + 1))"
      using rr nr lr unfolding ad by auto
    then show "p_col (after_delete_block p s e) < length (block_cut left right (?xs ! (p_row p - row)) (ls ! p_row p)) \<and>
      block_cut left right (?xs ! (p_row p - row)) (ls ! p_row p) ! p_col (after_delete_block p s e) = ls ! p_row p ! p_col p"
      using block_cut_char [OF r(2) lr(1) nr, of "?xs ! (p_row p - row)"] by (simp add: Let_def)
  next
    assume "p_row p < row \<or> row + length ?xs \<le> p_row p"
    then show "p_col (after_delete_block p s e) = p_col p" using lr by (auto simp: ad)
  qed
  then show ?thesis using w r(3) by simp
qed

section \<open>Joins\<close>

lemma join_starts_shift:
  "(\<And>r. nxt \<le> r \<Longrightarrow> r < n \<Longrightarrow> f r = g (Suc r)) \<Longrightarrow>
    join_starts f n ws nxt cur k = join_starts g (Suc n) ws (Suc nxt) cur k"
  by (induction k arbitrary: nxt cur) (simp_all add: Let_def)

definition starts_in :: "nat \<Rightarrow> bool \<Rightarrow> nat \<Rightarrow> rstring list \<Rightarrow> nat list" where
  "starts_in row ws count ls =
     join_starts (\<lambda>r. length (ls ! r)) (length ls) ws (Suc row) (length (ls ! row)) count"

lemma merged_nth:
  assumes "Suc row < length ls" and "row < r"
  shows "(take row ls @ x # drop (row + 2) ls) ! r = ls ! Suc r"
proof -
  obtain d where "r = row + Suc d" using assms(2) less_imp_Suc_add by force
  then show ?thesis using assms(1) by (simp add: nth_append)
qed

lemma starts_in_Suc:
  fixes ws :: bool
  assumes "Suc row < length ls"
  defines "sp \<equiv> join_space ws (ls ! row) (ls ! Suc row)"
  defines "ls1 \<equiv> take row ls @ joined sp (ls ! row) (ls ! Suc row) # drop (row + 2) ls"
  shows "starts_in row ws (Suc count) ls = (length (ls ! row) + (if sp then 1 else 0)) # starts_in row ws count ls1"
proof -
  have r: "row < length ls1" "length ls = Suc (length ls1)" "ls1 ! row = joined sp (ls ! row) (ls ! Suc row)"
    using assms(1) by (simp_all add: ls1_def nth_append)
  have "ls1 ! r = ls ! Suc r" if "Suc row \<le> r" for r
    using that merged_nth [OF assms(1)] by (simp add: ls1_def)
  then have "starts_in row ws count ls1 =
      join_starts (\<lambda>r. length (ls ! r)) (Suc (length ls1)) ws (Suc (Suc row)) (length (ls1 ! row)) count"
    unfolding starts_in_def by (intro join_starts_shift) simp
  then show ?thesis
    using assms(1) r by (simp add: starts_in_def Let_def sp_def join_space_def joined_def)
qed

lemma join_geometry:
  fixes ws :: bool
  assumes "row < length ls" and "join_lines row ws count ls = (cols, sps, ls')"
  defines "sc \<equiv> starts_in row ws count ls"
  shows "length ls' = length ls - length sc \<and> row + length sc < length ls \<and>
    (\<forall>r < row. ls' ! r = ls ! r) \<and> (\<exists>m. ls' ! row = ls ! row @ m) \<and>
    (\<forall>k < length sc. \<exists>a b. ls' ! row = a @ ls ! (row + Suc k) @ b \<and> length a = sc ! k) \<and>
    (\<forall>r. row < r \<longrightarrow> r + length sc < length ls \<longrightarrow> ls' ! r = ls ! (r + length sc))"
  using assms(1,2) unfolding sc_def
proof (induction count arbitrary: ls cols sps ls')
  case 0
  then show ?case by (simp add: starts_in_def)
next
  case (Suc count)
  show ?case
  proof (cases "Suc row < length ls")
    case False
    then show ?thesis using Suc.prems by (simp add: starts_in_def)
  next
    case True
    let ?sp = "join_space ws (ls ! row) (ls ! Suc row)"
    let ?J = "joined ?sp (ls ! row) (ls ! Suc row)"
    define ls1 where "ls1 = take row ls @ ?J # drop (row + 2) ls"
    obtain cols1 sps1 where j: "join_lines row ws count ls1 = (cols1, sps1, ls')"
      using Suc.prems(2) True by (auto simp: Let_def ls1_def split: prod.splits)
    have n: "row < length ls1" "length ls = Suc (length ls1)" using True by (simp_all add: ls1_def)
    have nth: "ls1 ! r = ls ! r" if "r < row" for r using that True by (simp add: ls1_def nth_append)
    have nth_row: "ls1 ! row = ?J" using True by (simp add: ls1_def nth_append)
    have nth_up: "ls1 ! r = ls ! Suc r" if "row < r" for r
      using that merged_nth [OF True] by (simp add: ls1_def)
    let ?sc = "starts_in row ws count ls1"
    have sc: "starts_in row ws (Suc count) ls = (length (ls ! row) + (if ?sp then 1 else 0)) # ?sc"
      unfolding ls1_def by (rule starts_in_Suc [OF True])
    note IH = Suc.IH [OF n(1) j]
    obtain m where m: "ls' ! row = ?J @ m" using IH nth_row by auto
    have "\<exists>m'. ls' ! row = ls ! row @ m'" using m by (simp add: joined_def)
    moreover have "\<exists>a b. ls' ! row = a @ ls ! (row + Suc k) @ b \<and> length a = starts_in row ws (Suc count) ls ! k"
      if k: "k < length (starts_in row ws (Suc count) ls)" for k
    proof (cases k)
      case 0
      show ?thesis
        by (intro exI [of _ "ls ! row @ (if ?sp then [32] else [])"] exI [of _ m])
          (simp add: 0 sc m joined_def)
    next
      case (Suc k')
      then have "k' < length ?sc" using k by (simp add: sc)
      then obtain a b where "ls' ! row = a @ ls1 ! (row + Suc k') @ b" "length a = ?sc ! k'" using IH by metis
      then show ?thesis using Suc nth_up [of "row + Suc k'"] by (auto simp: sc)
    qed
    ultimately show ?thesis using IH n nth nth_up unfolding sc by simp
  qed
qed

lemma after_join_geometry:
  fixes ws :: bool and count :: nat
  assumes "row < length ls"
  defines "sc \<equiv> starts_in row ws (max count 1) ls"
  shows "after_join p row count ws (\<lambda>r. length (ls ! r)) (length ls) =
    (if p_row p \<le> row then p
     else if p_row p \<le> row + length sc then Position row (sc ! (p_row p - row - 1) + p_col p)
     else Position (p_row p - length sc) (p_col p))"
  by (cases p) (auto simp: after_join_def Let_def sc_def starts_in_def)

lemma after_join_cong:
  assumes "\<And>r. r < rows \<Longrightarrow> f r = g r" and "row < rows"
  shows "after_join p row count ws f rows = after_join p row count ws g rows"
proof -
  have "join_starts f rows ws nxt cur k = join_starts g rows ws nxt cur k" for nxt cur k
    using assms(1) by (induction k arbitrary: nxt cur) (simp_all add: Let_def)
  then show ?thesis using assms by (simp add: after_join_def)
qed

lemma join_keeps:
  assumes R: "text_laws R" and pl: "plain (view_text R v)" and c: "char_on (view_text R v) p = Some c"
    and ls: "ls = text_lines (view_text R v)" and row: "row < length ls"
    and ed: "apply_edit R (JoinLines row count ws) v = Some (i, w)"
  shows "char_on (view_text R w) (after_join p row count ws (\<lambda>r. length (ls ! r)) (length ls)) = Some c"
proof -
  note r = row_of_char [OF c ls]
  have L: "rope_lines R (view_rope v) ls" unfolding ls by (rule rope_linesI [OF pl])
  obtain cols sps ls' where j: "join_lines row ws (max count 1) ls = (cols, sps, ls')" by (rule prod_cases3)
  have k: "min row (length ls - 1) = row" using row by simp
  have w: "view_text R w = unl ls'" and ok: "lines_ok ls'"
    using apply_join [OF R L, of row ws count cols sps ls'] j ed k by auto
  note geo = join_geometry [OF row j]
  let ?sc = "starts_in row ws (max count 1) ls"
  have n: "row < length ls'" using geo by auto
  consider "p_row p < row" | "p_row p = row" | "row < p_row p" "p_row p \<le> row + length ?sc" | "row + length ?sc < p_row p"
    by linarith
  then show ?thesis
  proof cases
    case 1
    then show ?thesis using r n geo unfolding w char_on_unl [OF ok] after_join_geometry [OF row] by simp
  next
    case 2
    then obtain m where "ls' ! row = ls ! row @ m" using geo by blast
    then show ?thesis using 2 r n unfolding w char_on_unl [OF ok] after_join_geometry [OF row]
      by (simp add: nth_append)
  next
    case 3
    let ?k = "p_row p - row - 1"
    have "?k < length ?sc" "row + Suc ?k = p_row p" using 3 by linarith+
    then obtain a b where ab: "ls' ! row = a @ ls ! p_row p @ b" "length a = ?sc ! ?k" using geo by metis
    have "ls' ! row ! (?sc ! ?k + p_col p) = c" "?sc ! ?k + p_col p < length (ls' ! row)"
      using r(2,3) unfolding ab(1) ab(2) [symmetric] by (simp_all add: nth_append)
    then show ?thesis using 3 n unfolding w char_on_unl [OF ok] after_join_geometry [OF row] by simp
  next
    case 4
    let ?r = "p_row p - length ?sc"
    have "row < ?r" "?r + length ?sc = p_row p" "?r < length ls'" using 4 r(1) geo by linarith+
    then have "ls' ! ?r = ls ! p_row p" "?r < length ls'" using geo r(1) by metis+
    then show ?thesis using 4 r unfolding w char_on_unl [OF ok] after_join_geometry [OF row] by simp
  qed
qed

section \<open>Every edit\<close>

lemma row_lens_text:
  assumes R: "text_laws R" and pl: "plain (view_text R v)"
  shows "row_lens R v = Some (map length (text_lines (view_text R v)))"
proof -
  let ?s = "view_text R v" and ?ls = "text_lines (view_text R v)"
  have ok: "lines_ok ?ls" by (rule text_lines_ok [OF pl])
  have n: "nlines ?s = length ?ls" using nlines_unl [OF ok] by simp
  have "buf_line_chars R v r = Some (length (?ls ! r))" if "r < length ?ls" for r
    using that row_chars_unl [OF ok that]
    by (simp add: buf_line_chars_def text_len_lines [OF R] n rope_line_char_count_text [OF R])
  then have "map (buf_line_chars R v) [0..<length ?ls] = map Some (map length ?ls)"
    by (intro nth_equalityI) simp_all
  moreover have "those (map Some xs) = Some xs" for xs :: "nat list" by (induction xs) simp_all
  ultimately show ?thesis by (simp add: row_lens_def text_len_lines [OF R] n del: map_map)
qed

lemma position_keeps:
  assumes R: "text_laws R" and pl: "plain (view_text R v)" and fits: "shift_fits (view_text R v) e"
    and c: "char_on (view_text R v) p = Some c" and keep: "\<not> removes e p"
    and ed: "apply_edit R e v = Some (i, w)" and lens: "lens = map length (text_lines (view_text R v))"
  shows "keeps_char e (len_at lens) (length lens) p c (view_text R w)"
proof (cases e)
  case (InsertChar q ch')
  then show ?thesis
    using insert_keeps [OF R pl _ _ _ c, of q "[ch']"] fits ed by (simp add: shift_fits_def apply_edit_def)
next
  case (InsertStr q t)
  then show ?thesis
    using insert_keeps [OF R pl _ _ _ c, of q t] fits ed by (simp add: shift_fits_def)
next
  case (DeleteRange s q kind)
  then show ?thesis
    using delete_char_keeps [OF R pl _ c] delete_lines_keeps [OF R pl _ c] delete_block_keeps [OF R pl c] fits keep ed
    by (cases kind) auto
next
  case (JoinLines row count ws)
  let ?ls = "text_lines (view_text R v)"
  have row: "row < length ?ls"
    using fits nlines_unl [OF text_lines_ok [OF pl]] JoinLines by (simp add: shift_fits_def)
  have "after_join p row count ws (len_at lens) (length ?ls) =
      after_join p row count ws (\<lambda>r. length (?ls ! r)) (length ?ls)"
    by (rule after_join_cong) (use row in \<open>simp_all add: lens len_at_def\<close>)
  then show ?thesis
    using join_keeps [OF R pl c refl row] ed by (simp add: JoinLines lens)
next
  case (Replace s q t)
  then show ?thesis using replace_keeps [OF R pl _ c] fits keep ed by auto
next
  case (InsertBlock q chunks)
  then show ?thesis using insert_block_keeps [OF R pl _ c] fits ed by (simp add: shift_fits_def)
next
  case (DeleteBlockChunks q widths pads)
  then show ?thesis using delete_chunks_keeps [OF R pl c] fits keep ed by (simp add: shift_fits_def)
qed (use fits in \<open>simp add: shift_fits_def\<close>)

lemma shift_fits_chars: "shift_fits s e \<Longrightarrow> edit_chars_ok e"
  by (auto simp: shift_fits_def edit_chars_ok_def line_text_def list_all_iff split: edit.splits)

lemma shift_fits_Some: "shift_fits s e \<Longrightarrow> \<exists>q. shift_position p e f n = Some q"
  by (cases e) (auto simp: shift_fits_def)

lemma shift_extra_map:
  assumes "\<And>p. shift_position p e (len_at lens) (length lens) \<noteq> None"
  shows "shift_extra e lens sels = map (\<lambda>s. Sel (the (shift_position (sel_anchor s) e (len_at lens) (length lens)))
    (the (shift_position (sel_head s) e (len_at lens) (length lens)))) sels"
proof (induction sels)
  case (Cons s sels)
  obtain a h where "shift_position (sel_anchor s) e (len_at lens) (length lens) = Some a"
    "shift_position (sel_head s) e (len_at lens) (length lens) = Some h" using assms by blast
  then show ?case using Cons by (simp add: shift_extra_def map_filter_simps shift_sel_def)
qed (simp add: shift_extra_def map_filter_simps)

text \<open>
  C19: Secondary selections follow their text.  On a text whose only line breaks are newlines an edit
  at positions of the text (an insertion, a deletion by chars, by lines or of a block, a replacement,
  a join of rows, a block insertion, or the deletion of block chunks without padding) applied by
  \<open>mutate_edit\<close> drops no selection, and each end of each selection that stood on a char which the edit
  does not remove stands on that char in the new text, in whatever row and column the edit moved it
  to.  \<open>SplitLines\<close>, the undo of a join, drops all selections: \<open>shift_position\<close> does not guess.
\<close>

theorem selections_follow_edit:
  assumes "text_laws R" and "plain (view_text R (me_view m))" and "\<not> me_locked m"
    and "shift_fits (view_text R (me_view m)) e"
  shows "(\<exists>i m'. mutate_edit R e m = Some (i, m') \<and> length (me_extra m') = length (me_extra m) \<and>
    (\<forall>k < length (me_extra m). \<forall>c.
      (char_on (view_text R (me_view m)) (sel_anchor (me_extra m ! k)) = Some c \<and> \<not> removes e (sel_anchor (me_extra m ! k)) \<longrightarrow>
        char_on (view_text R (me_view m')) (sel_anchor (me_extra m' ! k)) = Some c) \<and>
      (char_on (view_text R (me_view m)) (sel_head (me_extra m ! k)) = Some c \<and> \<not> removes e (sel_head (me_extra m ! k)) \<longrightarrow>
        char_on (view_text R (me_view m')) (sel_head (me_extra m' ! k)) = Some c))) \<and>
    (\<forall>row cols sps. \<forall>j n. mutate_edit R (SplitLines row cols sps) m = Some (j, n) \<longrightarrow> me_extra n = [])"
proof -
  let ?v = "me_view m"
  have split: "me_extra n = []" if "mutate_edit R (SplitLines row cols sps) m = Some (j, n)" for row cols sps j n
  proof -
    have "shift_extra (SplitLines row cols sps) lens sels = []" for lens sels
      by (induction sels) (simp_all add: shift_extra_def map_filter_simps shift_sel_def)
    then show ?thesis
      using that assms(3) by (auto simp: mutate_edit_def split: if_splits bind_splits prod.splits)
  qed
  define lens where "lens = map length (text_lines (view_text R ?v))"
  let ?to = "\<lambda>p. the (shift_position p e (len_at lens) (length lens))"
  obtain i w where ed: "apply_edit R e ?v = Some (i, w)"
    using edit_total [OF assms(1) shift_fits_chars [OF assms(4)]] by blast
  have sh: "shift_extra e lens sels = map (\<lambda>s. Sel (?to (sel_anchor s)) (?to (sel_head s))) sels" for sels
    by (rule shift_extra_map) (use shift_fits_Some [OF assms(4)] in fastforce)
  have mu: "mutate_edit R e m = Some (i, m\<lparr>me_view := w, me_extra := shift_extra e lens (me_extra m)\<rparr>)"
    using assms(3) ed by (simp add: mutate_edit_def row_lens_text [OF assms(1,2)] lens_def sh [of "[]", simplified lens_def])
  have "char_on (view_text R w) (?to p) = Some c" if "char_on (view_text R ?v) p = Some c" "\<not> removes e p" for p c
    using position_keeps [OF assms(1,2,4) that ed lens_def] by auto
  then show ?thesis using mu split by (simp add: sh)
qed

text \<open>A caret on the last char of a text, below an insertion of two pieces of rows.\<close>

theorem selections_follow_edit_witness:
  "\<exists>i m'. mutate_edit flat_lines (InsertStr (Position 0 1) [120, 10, 121])
      \<lparr>me_view = view_from_str flat_lines [97, 98, 10, 99, 100], me_extra = [caret (Position 1 1)], me_locked = False\<rparr> =
      Some (i, m') \<and>
    char_on (view_text flat_lines (me_view m')) (sel_head (me_extra m' ! 0)) = Some 100"
proof -
  let ?s = "[97, 98, 10, 99, 100] :: rstring" and ?e = "InsertStr (Position 0 1) [120, 10, 121]"
  let ?m = "\<lparr>me_view = view_from_str flat_lines ?s, me_extra = [caret (Position 1 1)], me_locked = False\<rparr>"
  have v: "view_text flat_lines (view_from_str flat_lines ?s) = ?s"
    by (simp add: valid_str_def scalar_ok_def)
  have "plain ?s" by (simp add: is_break_def)
  moreover have "shift_fits ?s ?e"
    by (simp add: shift_fits_def pos_ok_def row_chars_def nlines_def lstart_def line_starts_def is_break_def scalar_ok_def)
  moreover have "char_on ?s (Position 1 1) = Some 100" by (simp add: char_on_def)
  moreover have "\<not> removes ?e (Position 1 1)" by (simp add: removes_def)
  ultimately show ?thesis
    using selections_follow_edit [OF flat_lines_laws, of ?m ?e, THEN conjunct1] by (simp add: v caret_def) blast
qed

end
