(* ===== verification/MultiCursor.thy ===== *)
theory MultiCursor
  imports SelectionLaws "HOL-Library.Multiset"
begin

text \<open>
  The set of selections of an editor: merging makes it disjoint and covers the same text,
  and typing at every cursor inserts the typed text at each of them, once.
\<close>

section \<open>Merging\<close>

definition covers :: "sel \<Rightarrow> position set" where
  "covers s = {p. sel_start s \<le> p \<and> p \<le> sel_end s}"

text \<open>Each selection ends before the next one starts.\<close>

definition disjoint_in_order :: "sel list \<Rightarrow> bool" where
  "disjoint_in_order sels \<longleftrightarrow> sorted_wrt (\<lambda>s t. sel_end s < sel_start t) sels"

lemma sel_start_end: "sel_start s \<le> sel_end s"
  by (auto simp: sel_start_def sel_end_def min_def max_def)

lemma merge_two_bounds [simp]:
  "sel_start (merge_two a b) = min (sel_start a) (sel_start b)"
  "sel_end (merge_two a b) = max (sel_end a) (sel_end b)"
proof -
  have "min (sel_start a) (sel_start b) \<le> max (sel_end a) (sel_end b)"
    using sel_start_end [of a] by (auto simp: min_le_iff_disj le_max_iff_disj)
  then show "sel_start (merge_two a b) = min (sel_start a) (sel_start b)"
    and "sel_end (merge_two a b) = max (sel_end a) (sel_end b)"
    by (simp_all add: merge_two_def sel_start_def [of "Sel _ _"] sel_end_def [of "Sel _ _"])
qed

lemma covers_merge_two: "overlaps a b \<Longrightarrow> covers (merge_two a b) = covers a \<union> covers b"
  using sel_start_end [of a] sel_start_end [of b]
  by (auto simp: covers_def overlaps_def min_le_iff_disj le_max_iff_disj)

lemma merge_loop_correct:
  assumes "disjoint_in_order out" and "sorted (map sel_start ss)"
    and "\<forall>s \<in> set ss. out = [] \<or> sel_start (last out) \<le> sel_start s"
  shows "disjoint_in_order (merge_loop out ss) \<and>
    \<Union> (covers ` set (merge_loop out ss)) = \<Union> (covers ` set out) \<union> \<Union> (covers ` set ss)"
  using assms
proof (induction out ss rule: merge_loop.induct)
  case (2 out s ss)
  show ?case
  proof (cases "out \<noteq> [] \<and> overlaps (last out) s")
    case True
    let ?out = "butlast out @ [merge_two (last out) s]"
    have o: "out = butlast out @ [last out]" using True by simp
    have le: "sel_start (last out) \<le> sel_start s" using 2(4) True by simp
    have "disjoint_in_order (butlast out @ [last out])" using 2(2) o by simp
    then have d: "disjoint_in_order ?out"
      using le by (simp add: disjoint_in_order_def sorted_wrt_append min_absorb1)
    have "\<forall>t \<in> set ss. ?out = [] \<or> sel_start (last ?out) \<le> sel_start t"
      using 2(3) le by (auto simp: min_le_iff_disj)
    then have IH: "disjoint_in_order (merge_loop ?out ss) \<and>
        \<Union> (covers ` set (merge_loop ?out ss)) = \<Union> (covers ` set ?out) \<union> \<Union> (covers ` set ss)"
      using 2(1) [unfolded if_P [OF True]] d 2(3) by simp
    have "\<Union> (covers ` set out) = \<Union> (covers ` set (butlast out)) \<union> covers (last out)"
      by (subst o) (simp add: Un_commute)
    then show ?thesis
      using IH True covers_merge_two [of "last out" s] by auto
  next
    case False
    have "disjoint_in_order (out @ [s])"
    proof (cases "out = []")
      case no: False
      then have o: "out = butlast out @ [last out]" by simp
      have lt: "sel_end (last out) < sel_start s"
        using False no 2(4) sel_start_end [of s] by (auto simp: overlaps_def not_le intro: order_trans)
      have "sel_end t < sel_start s" if "t \<in> set out" for t
      proof (cases "t = last out")
        case f: False
        then have "t \<in> set (butlast out)" using that no by (metis UnE append_butlast_last_id empty_iff insert_iff list.set(1) list.simps(15) set_append)
        then have "sel_end t < sel_start (last out)"
          using 2(2) unfolding disjoint_in_order_def by (subst (asm) o) (simp add: sorted_wrt_append)
        then show ?thesis using lt sel_start_end [of "last out"] by (meson le_less_trans less_trans)
      qed (use lt in simp)
      then show ?thesis using 2(2) by (simp add: disjoint_in_order_def sorted_wrt_append)
    qed (simp add: disjoint_in_order_def)
    moreover have "\<forall>t \<in> set ss. out @ [s] = [] \<or> sel_start (last (out @ [s])) \<le> sel_start t" using 2(3) by simp
    ultimately show ?thesis using 2(1) [unfolded if_not_P [OF False]] 2(3) False by (auto simp: Un_assoc)
  qed
qed simp

text \<open>
  C39: Merging selections: the result is in the order of the text with a gap between any two
  of them, and covers exactly the positions that the given selections cover together, for
  any selections in any order and direction.
\<close>

theorem merge_overlapping_disjoint:
  "disjoint_in_order (merge_overlapping sels) \<and>
   \<Union> (covers ` set (merge_overlapping sels)) = \<Union> (covers ` set sels)"
  using merge_loop_correct [of "[]" "sort_key sel_start sels"]
  by (simp add: merge_overlapping_def disjoint_in_order_def)

section \<open>Typing at every cursor\<close>

text \<open>The position in front of the char with index \<open>k\<close>.\<close>

definition pos_ix :: "rstring \<Rightarrow> nat \<Rightarrow> position" where
  "pos_ix s k = pos_at (take k s)"

text \<open>The text with \<open>t\<close> typed in front of each of the chars with an index in \<open>K\<close>, and the index
  behind the piece typed at \<open>k\<close>.\<close>

fun typed :: "rstring \<Rightarrow> nat set \<Rightarrow> nat \<Rightarrow> rstring \<Rightarrow> rstring" where
  "typed t K i [] = (if i \<in> K then t else [])"
| "typed t K i (c # s) = (if i \<in> K then t else []) @ c # typed t K (Suc i) s"

definition typed_end :: "rstring \<Rightarrow> nat set \<Rightarrow> nat \<Rightarrow> nat" where
  "typed_end t K k = k + length t * card {j \<in> K. j \<le> k}"

lemma typed_cong: "(\<And>j. i \<le> j \<Longrightarrow> j \<in> K \<longleftrightarrow> j \<in> L) \<Longrightarrow> typed t K i s = typed t L i s"
  by (induction s arbitrary: i) simp_all

lemma typed_insert:
  assumes "k \<le> length s" and "\<forall>d \<in> D. i + k < d"
  shows "typed t (insert (i + k) D) i s = take k s @ t @ drop k (typed t D i s)"
    and "take k (typed t D i s) = take k s"
proof -
  have "typed t (insert (i + k) D) i s = take k s @ t @ drop k (typed t D i s) \<and> take k (typed t D i s) = take k s"
    using assms
  proof (induction s arbitrary: i k)
    case Nil
    then show ?case by auto
  next
    case (Cons c s)
    show ?case
    proof (cases k)
      case 0
      have "i \<notin> D" using Cons.prems(2) 0 by auto
      moreover have "typed t (insert i D) (Suc i) s = typed t D (Suc i) s" by (rule typed_cong) auto
      ultimately show ?thesis using 0 by simp
    next
      case (Suc k')
      then have "i \<notin> D" "i \<notin> insert (i + k) D" using Cons.prems(2) by auto
      then show ?thesis using Cons.IH [of k' "Suc i"] Cons.prems Suc by simp
    qed
  qed
  then show "typed t (insert (i + k) D) i s = take k s @ t @ drop k (typed t D i s)"
    and "take k (typed t D i s) = take k s" by blast+
qed

lemma typed_end_insert:
  assumes "finite D" and "\<forall>d \<in> D. k < d"
  shows "typed_end t (insert k D) k = k + length t"
    and "d \<in> D \<Longrightarrow> typed_end t (insert k D) d = typed_end t D d + length t"
proof -
  have "{j \<in> insert k D. j \<le> k} = {k}" using assms(2) by auto
  then show "typed_end t (insert k D) k = k + length t" by (simp add: typed_end_def)
  assume d: "d \<in> D"
  then have "{j \<in> insert k D. j \<le> d} = insert k {j \<in> D. j \<le> d}" using assms(2) by auto
  moreover have "k \<notin> {j \<in> D. j \<le> d}" using assms(2) by auto
  ultimately have "card {j \<in> insert k D. j \<le> d} = Suc (card {j \<in> D. j \<le> d})" using assms(1) by simp
  then show "typed_end t (insert k D) d = typed_end t D d + length t" by (simp add: typed_end_def)
qed

lemma pos_ix_less:
  assumes "j < k" and "k \<le> length s"
  shows "pos_ix s j < pos_ix s k"
proof -
  have "take k s = take j s @ take (k - j) (drop j s)"
    using take_add [of j "k - j" s] assms(1) by simp
  moreover have "take (k - j) (drop j s) \<noteq> []" using assms by simp
  ultimately show ?thesis using pos_at_less unfolding pos_ix_def by metis
qed

lemma pos_ix_inj: "j \<le> length s \<Longrightarrow> k \<le> length s \<Longrightarrow> pos_ix s j = pos_ix s k \<longleftrightarrow> j = k"
  using pos_ix_less [of j k s] pos_ix_less [of k j s] by (cases j k rule: linorder_cases) auto

lemma caret_ends [simp]: "sel_anchor (caret p) = p" "sel_head (caret p) = p" "sel_start (caret p) = p"
  by (simp_all add: caret_def sel_start_def)

text \<open>The order of the edits: the carets from the last one.\<close>

lemma sort_carets: "sort_key sel_start (map caret ps) = map caret (sort ps)"
proof (rule properties_for_sort_key)
  show "mset (map caret (sort ps)) = mset (map caret ps)" by simp
next
  fix s
  have "filter (\<lambda>t. sel_start s = sel_start t) (map caret qs) = replicate (count (mset qs) (sel_start s)) (caret (sel_start s))" for qs
    by (induction qs) auto
  then show "filter (\<lambda>t. sel_start s = sel_start t) (map caret (sort ps)) = filter (\<lambda>t. sel_start s = sel_start t) (map caret ps)"
    by simp
next
  show "sorted (map sel_start (map caret (sort ps)))" by (simp add: comp_def)
qed

lemma bottom_up_carets: "bottom_up (map caret ps) = map caret (rev (sort ps))"
proof -
  have "sort (rev ps) = sort ps" by (rule properties_for_sort) simp_all
  then show ?thesis by (simp add: bottom_up_def sort_carets rev_map)
qed

lemma sort_pos_ix: "\<forall>k \<in> set ks. k \<le> length s \<Longrightarrow> sort (map (pos_ix s) ks) = map (pos_ix s) (sort ks)"
proof (rule properties_for_sort)
  assume ks: "\<forall>k \<in> set ks. k \<le> length s"
  have "pos_ix s j \<le> pos_ix s k" if "j \<le> k" "k \<in> set ks" for j k
    using that ks pos_ix_less [of j k s] by (cases "j = k") auto
  then have "sorted_wrt (\<lambda>j k. pos_ix s j \<le> pos_ix s k) (sort ks)"
    by (intro sorted_wrt_mono_rel [OF _ sorted_sort [of ks]]) simp
  then show "sorted (map (pos_ix s) (sort ks))" by (simp add: sorted_wrt_map)
qed simp

section \<open>The loop\<close>

text \<open>One round: the text typed at a caret in front of all the parked ones.\<close>

lemma type_round:
  assumes R: "text_laws R" and t: "valid_str t" "plain t" and T: "view_text R (me_view m) = a @ b" and pl: "plain (a @ b)"
    and un: "\<not> me_locked m" and ex: "me_extra m = map (\<lambda>x. caret (pos_at (a @ x))) xs"
  shows "\<exists>lens v i w. row_lens R (me_view m) = Some lens \<and> set_cursor R (pos_at a) (me_view m) = Some v \<and>
    shift_position (pos_at a) (InsertStr (pos_at a) t) (len_at lens) (length lens) = Some (pos_at (a @ t)) \<and>
    mutate_edit R (InsertStr (pos_at a) t) (m\<lparr>me_view := v\<rparr>) =
      Some (i, m\<lparr>me_view := w, me_extra := map (\<lambda>x. caret (pos_at (a @ t @ x))) xs\<rparr>) \<and>
    v_cursor w = pos_at (a @ t) \<and> view_text R w = a @ t @ b"
proof -
  obtain v where v: "set_cursor R (pos_at a) (me_view m) = Some v" "view_text R v = a @ b"
    using set_cursor_text [OF R, of "pos_at a" "me_view m"] T by (simp add: Let_def)
  obtain r where r: "do_insert_str R (pos_at a) t v =
      Some (DeleteRange (pos_at a) (pos_at (a @ t)) Char, edited R r (pos_at (a @ t)) v)" "rp_text R r = a @ t @ b"
    by (rule insert_str_at [OF R v(2) pl t(1)])
  have plv: "plain (view_text R v)" and plm: "plain (view_text R (me_view m))" using pl by (simp_all add: v T)
  have "plain ((a @ t) @ b)" using pl t(2) by simp
  then have cur: "v_cursor (edited R r (pos_at (a @ t)) v) = pos_at (a @ t)"
    using clampp_id [OF pos_at_ok, of "a @ t" b] r(2) by simp
  have sh: "shift_extra (InsertStr (pos_at a) t) lens (map (\<lambda>x. caret (pos_at (a @ x))) xs) =
      map (\<lambda>x. caret (pos_at (a @ t @ x))) xs" for lens
    by (subst shift_extra_map) (simp_all add: after_insert_at caret_def)
  have "mutate_edit R (InsertStr (pos_at a) t) (m\<lparr>me_view := v\<rparr>) =
      Some (DeleteRange (pos_at a) (pos_at (a @ t)) Char,
        m\<lparr>me_view := edited R r (pos_at (a @ t)) v, me_extra := map (\<lambda>x. caret (pos_at (a @ t @ x))) xs\<rparr>)"
    using un r(1) by (simp add: mutate_edit_def apply_edit_def row_lens_text [OF R plv] ex sh)
  then show ?thesis
    using row_lens_text [OF R plm] v(1) cur r(2) after_insert_at [of a "[]" t] by auto
qed

lemma edit_loop_step:
  assumes "length (me_extra m) = i" and "row_lens R (me_view m) = Some lens"
    and "set_cursor R (sel_head s) (me_view m) = Some v"
    and "shift_position (sel_anchor s) (mk s) (len_at lens) (length lens) = Some q"
    and "mutate_edit R (mk s) (m\<lparr>me_view := v\<rparr>) = Some (iv, m2)"
    and "n = length (me_extra m2)" and "edit_loop R mk primary (Suc i) (if s = primary \<and> pidx = None then Some n else pidx) ss
      (m2\<lparr>me_extra := me_extra m2 @ [Sel q (me_cursor m2)]\<rparr>) = Some (invs, j, lost, m')"
  shows "edit_loop R mk primary i pidx (s # ss) m = Some (iv # invs, j, lost, m')"
  using assms(1-5) assms(7) [unfolded assms(6)] by (simp add: Let_def split del: if_split)

lemma type_loop:
  assumes R: "text_laws R" and t: "valid_str t" "plain t" and pl: "plain s"
    and prim: "primary = caret (pos_ix s k0)" and k0: "k0 \<le> length s"
  shows "view_text R (me_view m) = typed t (set ds) 0 s \<Longrightarrow> \<not> me_locked m \<Longrightarrow>
    me_extra m = map (\<lambda>d. caret (pos_ix (typed t (set ds) 0 s) (typed_end t (set ds) d))) ds \<Longrightarrow>
    sorted_wrt (>) (ds @ ks) \<Longrightarrow> \<forall>k \<in> set ks. k \<le> length s \<Longrightarrow> i = length ds \<Longrightarrow>
    (case pidx of None \<Rightarrow> k0 \<in> set ks | Some j \<Rightarrow> j < length ds \<and> ds ! j = k0) \<Longrightarrow>
    \<exists>invs j m'. edit_loop R (\<lambda>s. InsertStr (sel_head s) t) primary i pidx (map (\<lambda>k. caret (pos_ix s k)) ks) m =
        Some (invs, Some j, False, m') \<and> length invs = length ks \<and> j < length (ds @ ks) \<and> (ds @ ks) ! j = k0 \<and>
      view_text R (me_view m') = typed t (set (ds @ ks)) 0 s \<and>
      me_extra m' = map (\<lambda>d. caret (pos_ix (typed t (set (ds @ ks)) 0 s) (typed_end t (set (ds @ ks)) d))) (ds @ ks)"
proof (induction ks arbitrary: ds m i pidx)
  case Nil
  then show ?case by (cases pidx) auto
next
  case (Cons k ks)
  let ?D = "set ds" and ?T = "typed t (set ds) 0 s"
  have lt: "\<forall>d \<in> ?D. 0 + k < d" and k: "k \<le> length s" using Cons.prems(4,5) by (auto simp: sorted_wrt_append)
  define a b where "a = take k s" and "b = drop k ?T"
  note ins = typed_insert [OF k lt, of t, simplified]
  have T: "?T = a @ b" using ins(2) append_take_drop_id [of k ?T] by (simp add: a_def b_def)
  have T': "typed t (insert k ?D) 0 s = a @ t @ b" using ins(1) by (simp add: a_def b_def)
  have pa: "pos_ix s k = pos_at a" by (simp add: pos_ix_def a_def)
  have la: "length a = k" using k by (simp add: a_def)
  have plT: "plain (a @ b)"
  proof -
    have "plain (typed t K i' s)" for K i' using pl t(2) by (induction s arbitrary: i') simp_all
    then show ?thesis using T by metis
  qed
  have ge: "k \<le> typed_end t ?D d" if "d \<in> ?D" for d using lt that by (auto simp: typed_end_def)
  let ?xs = "map (\<lambda>d. take (typed_end t ?D d - k) b) ds"
  have ex: "me_extra m = map (\<lambda>x. caret (pos_at (a @ x))) ?xs"
    using Cons.prems(3) ge la by (auto simp: pos_ix_def T)
  have vt: "view_text R (me_view m) = a @ b" using Cons.prems(1) T by simp
  from type_round [OF R t vt plT Cons.prems(2) ex] obtain lens v iv w where
    rd: "row_lens R (me_view m) = Some lens" "set_cursor R (pos_at a) (me_view m) = Some v"
      "shift_position (pos_at a) (InsertStr (pos_at a) t) (len_at lens) (length lens) = Some (pos_at (a @ t))"
      "mutate_edit R (InsertStr (pos_at a) t) (m\<lparr>me_view := v\<rparr>) =
        Some (iv, m\<lparr>me_view := w, me_extra := map (\<lambda>x. caret (pos_at (a @ t @ x))) ?xs\<rparr>)"
      "v_cursor w = pos_at (a @ t)" "view_text R w = a @ t @ b" by blast
  let ?D' = "set (ds @ [k])" and ?pidx = "if caret (pos_at a) = primary \<and> pidx = None then Some (length ds) else pidx"
  define m1 where "m1 = m\<lparr>me_view := w, me_extra := map (\<lambda>x. caret (pos_at (a @ t @ x))) ?xs @ [caret (pos_at (a @ t))]\<rparr>"
  have D': "?D' = insert k ?D" by simp
  have fin: "finite ?D" "\<forall>d \<in> ?D. k < d" using lt by simp_all
  have new: "pos_ix (a @ t @ b) (typed_end t ?D' d) = pos_at (a @ t @ take (typed_end t ?D d - k) b)" if "d \<in> ?D" for d
    using ge [OF that] la typed_end_insert(2) [OF fin that] unfolding D' by (simp add: pos_ix_def)
  have own: "pos_ix (a @ t @ b) (typed_end t ?D' k) = pos_at (a @ t)"
    using la typed_end_insert(1) [OF fin] unfolding D' by (simp add: pos_ix_def)
  have 1: "view_text R (me_view m1) = typed t ?D' 0 s" unfolding D' T' by (simp add: m1_def rd(6))
  have 2: "\<not> me_locked m1" using Cons.prems(2) by (simp add: m1_def)
  have 3: "me_extra m1 = map (\<lambda>d. caret (pos_ix (typed t ?D' 0 s) (typed_end t ?D' d))) (ds @ [k])"
    unfolding D' T' unfolding D' [symmetric] using new own by (simp add: m1_def)
  have eq: "caret (pos_at a) = primary \<longleftrightarrow> k = k0"
    using pos_ix_inj [OF k k0] pa by (auto simp: prim caret_def)
  have 4: "case ?pidx of None \<Rightarrow> k0 \<in> set ks | Some j \<Rightarrow> j < length (ds @ [k]) \<and> (ds @ [k]) ! j = k0"
    using Cons.prems(7) eq by (auto simp: nth_append split: option.splits)
  have so: "sorted_wrt (>) ((ds @ [k]) @ ks)" and le: "\<forall>k \<in> set ks. k \<le> length s"
    using Cons.prems(4,5) by simp_all
  from Cons.IH [OF 1 2 3 so le refl 4] obtain invs j m' where
    IH: "edit_loop R (\<lambda>s. InsertStr (sel_head s) t) primary (length (ds @ [k])) ?pidx (map (\<lambda>k. caret (pos_ix s k)) ks) m1 =
        Some (invs, Some j, False, m')" "length invs = length ks" "j < length ((ds @ [k]) @ ks)" "((ds @ [k]) @ ks) ! j = k0"
      "view_text R (me_view m') = typed t (set ((ds @ [k]) @ ks)) 0 s"
      "me_extra m' = map (\<lambda>d. caret (pos_ix (typed t (set ((ds @ [k]) @ ks)) 0 s) (typed_end t (set ((ds @ [k]) @ ks)) d))) ((ds @ [k]) @ ks)"
    by blast
  have "edit_loop R (\<lambda>s. InsertStr (sel_head s) t) primary i pidx (map (\<lambda>k. caret (pos_ix s k)) (k # ks)) m =
      Some (iv # invs, Some j, False, m')"
    using IH(1) rd Cons.prems(6) ex unfolding list.map pa
    by (intro edit_loop_step [where lens = lens and v = v and q = "pos_at (a @ t)" and n = "length ds" and
        ?m2.0 = "m\<lparr>me_view := w, me_extra := map (\<lambda>x. caret (pos_at (a @ t @ x))) ?xs\<rparr>"])
      (simp_all add: m1_def caret_def split del: if_split)
  then show ?case using IH by (intro exI [of _ "iv # invs"] exI [of _ j] exI [of _ m']) simp
qed

text \<open>
  C20: Typing with several cursors, on a text whose only line breaks are newlines.  With the primary cursor and the secondary carets on any
  distinct positions of the text, \<open>edit_at_all_cursors\<close> inserts the typed text in front of
  each of those chars of the original text, exactly once each, whatever newlines it holds and
  in whatever order the carets are kept; the primary cursor and every caret end behind their
  own piece.
\<close>

theorem typing_at_all_cursors:
  assumes "text_laws R" and "plain (view_text R (me_view m))" and "\<not> me_locked m" and "valid_str t" and "plain t"
    and "me_cursor m = pos_ix (view_text R (me_view m)) k0"
    and "me_extra m = map (\<lambda>k. caret (pos_ix (view_text R (me_view m)) k)) ks"
    and "distinct (k0 # ks)" and "\<forall>k \<in> set (k0 # ks). k \<le> length (view_text R (me_view m))"
  shows "\<exists>invs m'. edit_at_all_cursors R (\<lambda>p. InsertStr p t) m = Some (invs, m') \<and>
    length invs = Suc (length ks) \<and>
    view_text R (me_view m') = typed t (set (k0 # ks)) 0 (view_text R (me_view m)) \<and>
    me_cursor m' = pos_ix (view_text R (me_view m')) (typed_end t (set (k0 # ks)) k0) \<and>
    set (me_extra m') = (\<lambda>k. caret (pos_ix (view_text R (me_view m')) (typed_end t (set (k0 # ks)) k))) ` set ks"
proof -
  let ?s = "view_text R (me_view m)" and ?K = "set (k0 # ks)"
  let ?T = "typed t ?K 0 ?s" and ?rs = "rev (sort (k0 # ks))"
  let ?at = "\<lambda>k. caret (pos_ix ?T (typed_end t ?K k))"
  have prim: "Sel (me_cursor m) (me_cursor m) = caret (pos_ix ?s k0)" using assms(6) by (simp add: caret_def)
  have "caret (pos_ix ?s k0) # me_extra m = map caret (map (pos_ix ?s) (k0 # ks))" using assms(7) by simp
  then have "bottom_up (caret (pos_ix ?s k0) # me_extra m) = map caret (rev (map (pos_ix ?s) (sort (k0 # ks))))"
    by (simp only: bottom_up_carets sort_pos_ix [OF assms(9)])
  then have bu: "bottom_up (caret (pos_ix ?s k0) # me_extra m) = map (\<lambda>k. caret (pos_ix ?s k)) ?rs"
    by (simp add: rev_map)
  have "sorted_wrt (<) (sort (k0 # ks))"
    unfolding strict_sorted_iff using assms(8) by (metis distinct_sort sorted_sort)
  then have so: "sorted_wrt (>) ?rs" by (simp only: sorted_wrt_rev)
  have rs: "set ?rs = ?K" by (simp only: set_rev set_sort)
  have "typed t {} i x = x" for i x by (induction x arbitrary: i) simp_all
  then obtain invs j m' where L:
    "edit_loop R (\<lambda>s. InsertStr (sel_head s) t) (caret (pos_ix ?s k0)) 0 None (map (\<lambda>k. caret (pos_ix ?s k)) ?rs)
        (m\<lparr>me_extra := []\<rparr>) = Some (invs, Some j, False, m')"
    "length invs = length ?rs" "j < length ?rs" "?rs ! j = k0" "view_text R (me_view m') = ?T" "me_extra m' = map ?at ?rs"
    using type_loop [OF assms(1,4,5,2) refl, of k0 "m\<lparr>me_extra := []\<rparr>" "[]" ?rs 0 None] assms(3,9) so rs by auto
  have landed: "me_extra m' ! j = ?at k0" using L(3,4,6) by simp
  have "plain (typed t K i x)" if "plain x" for K i x
    using that assms(5) by (induction x arbitrary: i) simp_all
  then have "pos_ok ?T (pos_ix ?T k)" for k
    using pos_at_ok [of "take k ?T" "drop k ?T"] assms(2) by (simp add: pos_ix_def)
  then obtain v where v: "set_cursor R (pos_ix ?T (typed_end t ?K k0)) (me_view m') = Some v"
    "v_cursor v = pos_ix ?T (typed_end t ?K k0)" "view_text R v = ?T"
    using set_cursor_text [OF assms(1), of _ "me_view m'"] L(5) clampp_id by (simp add: Let_def)
  let ?m = "m'\<lparr>me_extra := take j (me_extra m') @ drop (Suc j) (me_extra m'), me_view := v\<rparr>"
  have ed: "edit_at_all_cursors R (\<lambda>p. InsertStr p t) m = Some (invs, ?m)"
    using L(1,3,6) v landed
    by (simp add: edit_at_all_cursors_def edit_at_all_selections_def prim bu Let_def)
  have "set (take j ?rs @ drop (Suc j) ?rs) = set ks"
  proof -
    have "?rs = take j ?rs @ k0 # drop (Suc j) ?rs" using id_take_nth_drop [OF L(3)] L(4) by simp
    moreover have "mset ?rs = mset (k0 # ks)" by (simp only: mset_rev mset_sort)
    ultimately have "mset (k0 # ks) = mset (take j ?rs @ k0 # drop (Suc j) ?rs)" by metis
    then have "mset ks = mset (take j ?rs @ drop (Suc j) ?rs)" by simp
    then show ?thesis by (metis set_mset_mset)
  qed
  moreover have "me_extra ?m = map ?at (take j ?rs @ drop (Suc j) ?rs)"
    using L(6) by (simp add: take_map drop_map)
  ultimately have "set (me_extra ?m) = ?at ` set ks" by (simp only: set_map)
  then show ?thesis using ed L(2,5) v by (intro exI [of _ invs] exI [of _ ?m]) simp
qed

text \<open>The cursor on the \<open>b\<close> of \<open>ab\<close>, a caret at the end and one at the start; the typed text is a newline.\<close>

theorem typing_at_all_cursors_witness:
  "\<exists>invs m'. edit_at_all_cursors flat_lines (\<lambda>p. InsertStr p [10])
      \<lparr>me_view = (view_from_str flat_lines [97, 98])\<lparr>v_cursor := Position 0 1\<rparr>,
       me_extra = [caret (Position 0 2), caret (Position 0 0)], me_locked = False\<rparr> = Some (invs, m') \<and>
    view_text flat_lines (me_view m') = [10, 97, 10, 98, 10]"
proof -
  let ?v = "(view_from_str flat_lines [97, 98])\<lparr>v_cursor := Position 0 1\<rparr>"
  let ?m = "\<lparr>me_view = ?v, me_extra = [caret (Position 0 2), caret (Position 0 0)], me_locked = False\<rparr>"
  have v: "view_text flat_lines ?v = [97, 98]"
    using flat_view_text [of "[97, 98]"] by (simp add: valid_str_def scalar_ok_def)
  show ?thesis
    using typing_at_all_cursors [OF flat_lines_laws, of ?m "[10]" 1 "[2, 0]"]
    by (simp add: v pos_ix_def pos_at_def colc_def last_piece_def is_break_def scalar_ok_def numeral_2_eq_2) blast
qed

end
