(* ===== verification/VimCount.thy ===== *)
theory VimCount
  imports Chord
begin

text \<open>
  The count prefix of a vim command (\<open>crates/hjkl-vim/src/count.rs\<close>).  Both fields are \<open>u32\<close>
  in the source; the saturation at \<open>u32::MAX\<close> is written out.
\<close>

record count_acc =
  ca_buffer :: nat
  ca_multiplier :: nat

definition count_new :: count_acc where
  "count_new = \<lparr>ca_buffer = 0, ca_multiplier = 0\<rparr>"

definition MAX_COUNT :: nat where
  "MAX_COUNT = 999999999"

definition u32_max :: nat where
  "u32_max = 4294967295"

definition count_peek :: "count_acc \<Rightarrow> nat" where
  "count_peek a =
     (if ca_multiplier a = 0 then ca_buffer a
      else
        let after = (if ca_buffer a = 0 then 1 else ca_buffer a);
            n = min (ca_multiplier a * after) u32_max
        in if n > MAX_COUNT then MAX_COUNT else n)"

definition count_is_empty :: "count_acc \<Rightarrow> bool" where
  "count_is_empty a \<longleftrightarrow> count_peek a = 0"

definition begin_register_count :: "count_acc \<Rightarrow> count_acc" where
  "begin_register_count a =
     (let n = count_peek a in if n > 0 then a\<lparr>ca_multiplier := n, ca_buffer := 0\<rparr> else a)"

definition try_accumulate :: "rchar \<Rightarrow> count_acc \<Rightarrow> bool \<times> count_acc" where
  "try_accumulate c a =
     (if \<not> is_digit c then (False, a)
      else if c = 48 \<and> ca_buffer a = 0 then (False, a)
      else let d = c - 48 in
        (True, a\<lparr>ca_buffer := min (min (min (ca_buffer a * 10) u32_max + d) u32_max) MAX_COUNT\<rparr>))"

definition count_reset :: "count_acc \<Rightarrow> count_acc" where
  "count_reset a = a\<lparr>ca_buffer := 0, ca_multiplier := 0\<rparr>"

definition take_or :: "nat \<Rightarrow> count_acc \<Rightarrow> nat \<times> count_acc" where
  "take_or dflt a = ((case count_peek a of 0 \<Rightarrow> dflt | Suc n \<Rightarrow> Suc n), count_reset a)"

definition drain_as_digits :: "count_acc \<Rightarrow> rstring \<times> count_acc" where
  "drain_as_digits a = ((case count_peek a of 0 \<Rightarrow> [] | Suc n \<Rightarrow> dec_digits (Suc n)), count_reset a)"

section \<open>The value of a typed count\<close>

text \<open>The text of a count, its digits without a leading zero, and its value: one when nothing
  is typed.\<close>

definition count_text :: "rstring \<Rightarrow> bool" where
  "count_text ds \<longleftrightarrow> list_all is_digit ds \<and> (ds = [] \<or> hd ds \<noteq> 48)"

definition count_value :: "nat \<Rightarrow> rstring \<Rightarrow> nat" where
  "count_value cap ds = (if ds = [] then 1 else min (dec_value ds 0) cap)"

definition count_ok :: "count_acc \<Rightarrow> bool" where
  "count_ok a \<longleftrightarrow> ca_buffer a \<le> MAX_COUNT \<and> ca_multiplier a \<le> MAX_COUNT"

lemma count_new_ok [simp]: "count_ok count_new" "ca_buffer count_new = 0" "ca_multiplier count_new = 0"
  by (simp_all add: count_ok_def count_new_def)

lemma count_reset_new [simp]: "count_reset a = count_new"
  by (simp add: count_reset_def count_new_def)

lemma count_peek_new [simp]: "count_peek count_new = 0"
  by (simp add: count_peek_def)

lemma count_peek_bound: "count_ok a \<Longrightarrow> count_peek a \<le> MAX_COUNT"
  by (auto simp: count_peek_def count_ok_def Let_def)

lemma count_peek_eq:
  "count_peek a = (if ca_multiplier a = 0 then ca_buffer a
     else min (ca_multiplier a * max (ca_buffer a) 1) MAX_COUNT)"
  by (auto simp: count_peek_def Let_def u32_max_def MAX_COUNT_def)

lemma count_peek_0: "count_peek a = 0 \<longleftrightarrow> ca_multiplier a = 0 \<and> ca_buffer a = 0"
  by (auto simp: count_peek_eq MAX_COUNT_def min_def)

lemma begin_register_ok: "count_ok a \<Longrightarrow> count_ok (begin_register_count a)"
  using count_peek_bound [of a] by (auto simp: begin_register_count_def Let_def count_ok_def)

lemma take_or_value: "take_or d a = (if count_peek a = 0 then d else count_peek a, count_new)"
  by (cases "count_peek a") (auto simp: take_or_def)

lemma try_accumulate_eq:
  "try_accumulate c a =
     (if is_digit c \<and> \<not> (c = 48 \<and> ca_buffer a = 0)
      then (True, a\<lparr>ca_buffer := min (10 * ca_buffer a + (c - 48)) MAX_COUNT\<rparr>) else (False, a))"
  by (auto simp: try_accumulate_def u32_max_def MAX_COUNT_def Let_def is_digit_def)

lemma try_accumulate_ok: "count_ok a \<Longrightarrow> count_ok (snd (try_accumulate c a))"
  by (simp add: try_accumulate_eq count_ok_def)

lemma dec_value_acc: "dec_value ds acc = acc * 10 ^ length ds + dec_value ds 0"
proof (induction ds arbitrary: acc)
  case (Cons c ds)
  show ?case
    using Cons [of "10 * acc + (c - 48)"] Cons [of "c - 48"] by (simp add: algebra_simps)
qed simp

lemma dec_value_ge: "n \<le> dec_value ds n"
  using dec_value_acc [of ds n] by (simp add: trans_le_add1)

lemma dec_value_cap: "min (dec_value ds (min n cap)) cap = min (dec_value ds n) (cap :: nat)"
proof (cases "n \<le> cap")
  case False
  then show ?thesis
    using dec_value_ge [of cap ds] dec_value_ge [of n ds] by (simp add: min_def)
qed (simp add: min_def)

text \<open>The accumulation of one digit after another.\<close>

definition accumulate :: "nat \<Rightarrow> rstring \<Rightarrow> nat \<Rightarrow> nat" where
  "accumulate cap ds n = foldl (\<lambda>b c. min (10 * b + (c - 48)) cap) n ds"

lemma accumulate_simps [simp]:
  "accumulate cap [] n = n"
  "accumulate cap (c # ds) n = accumulate cap ds (min (10 * n + (c - 48)) cap)"
  by (simp_all add: accumulate_def)

lemma accumulate_value: "n \<le> cap \<Longrightarrow> accumulate cap ds n = min (dec_value ds n) cap"
  by (induction ds arbitrary: n) (simp_all add: dec_value_cap)

lemma digit_pos: "is_digit c \<Longrightarrow> c \<noteq> 48 \<Longrightarrow> 0 < c - 48"
  by (simp add: is_digit_def)

lemma count_value_pos: "count_text ds \<Longrightarrow> 0 < cap \<Longrightarrow> 0 < count_value cap ds"
proof (cases ds)
  case (Cons c cs)
  assume "count_text ds" "0 < cap"
  then have "0 < dec_value cs (c - 48)"
    using digit_pos [of c] dec_value_ge [of "c - 48" cs] by (simp add: Cons count_text_def)
  then show ?thesis using \<open>0 < cap\<close> by (simp add: count_value_def Cons)
qed (simp add: count_value_def)

end
