(* ===== verification/VimPending.thy ===== *)
theory VimPending
  imports VimCount
begin

text \<open>
  The chords of vim that wait for a second key: the operators
  (\<open>crates/hjkl-vim/src/operator.rs\<close>), the commands for the engine (\<open>cmd.rs\<close>) and the reducer
  of the pending state (\<open>pending.rs\<close>); and the part of the application that drives it in Normal
  mode (\<open>apps/hjkl/src/app\<close>): the bindings that begin a chord (\<open>keymap_build.rs\<close>), the pending
  actions (\<open>pending_actions.rs\<close>), the routing of a key (\<open>chord_routing.rs\<close>), and the count
  prefix, Escape and Backspace of \<open>event_loop.rs\<close>.  Keys carry no modifier.
\<close>

section \<open>Operators, commands and pending states\<close>

datatype operator_kind = Delete | Yank | Change | Indent | Outdent | Uppercase | Lowercase | ToggleCase
  | Reflow | ReflowKeepCursor | AutoIndent | Filter | Comment

fun double_char :: "operator_kind \<Rightarrow> rchar" where
  "double_char Delete = ch CHR ''d''"
| "double_char Yank = ch CHR ''y''"
| "double_char Change = ch CHR ''c''"
| "double_char Indent = ch CHR ''>''"
| "double_char Outdent = ch CHR ''<''"
| "double_char Uppercase = ch CHR ''U''"
| "double_char Lowercase = ch CHR ''u''"
| "double_char ToggleCase = ch CHR ''~''"
| "double_char Reflow = ch CHR ''q''"
| "double_char ReflowKeepCursor = ch CHR ''w''"
| "double_char AutoIndent = ch CHR ''=''"
| "double_char Filter = ch CHR ''!''"
| "double_char Comment = ch CHR ''c''"

text \<open>Flags are \<open>forward\<close> and \<open>till\<close> of a find, \<open>inner\<close> of an object, \<open>linewise\<close> of a mark; the
  last number is the count.\<close>

datatype engine_cmd =
    ReplaceChar rchar nat
  | FindChar rchar bool bool nat
  | AfterGChord rchar nat
  | AfterZChord rchar nat
  | ApplyOpMotion operator_kind rchar nat
  | ApplyOpDouble operator_kind nat
  | ApplyOpTextObj operator_kind rchar bool nat
  | ApplyOpG operator_kind rchar nat
  | ApplyOpFind operator_kind rchar bool bool nat
  | ApplyOpMark operator_kind rchar bool
  | SetPendingRegister rchar
  | CmdSetMark rchar
  | CmdGotoMarkLine rchar
  | CmdGotoMarkChar rchar
  | StartMacroRecord rchar
  | PlayMacro rchar nat

datatype pending_state =
    Replace nat
  | Find nat bool bool
  | AfterG nat
  | AfterZ nat
  | AfterOp operator_kind nat nat
  | OpFind operator_kind nat bool bool
  | OpTextObj operator_kind nat bool
  | OpG operator_kind nat
  | OpMark operator_kind bool
  | SelectRegister
  | SetMark
  | GotoMarkLine
  | GotoMarkChar
  | RecordMacroTarget
  | PlayMacroTarget nat

datatype step_outcome = Wait pending_state | Commit engine_cmd | Cancel | Forward

datatype vim_key = KeyChar rchar | KeyEsc | KeyEnter | KeyBackspace | KeyTab

section \<open>The reducer\<close>

definition saturate :: "nat \<Rightarrow> nat" where
  "saturate n = min n usize_max"

definition is_ascii_alphabetic :: "rchar \<Rightarrow> bool" where
  "is_ascii_alphabetic c \<longleftrightarrow> (65 \<le> c \<and> c \<le> 90) \<or> (97 \<le> c \<and> c \<le> 122)"

text \<open>The arms of most states: a char commits, every other key cancels.\<close>

fun on_char :: "(rchar \<Rightarrow> step_outcome) \<Rightarrow> vim_key \<Rightarrow> step_outcome" where
  "on_char f (KeyChar c) = f c"
| "on_char f _ = Cancel"

definition op_digit :: "operator_kind \<Rightarrow> nat \<Rightarrow> nat \<Rightarrow> rchar \<Rightarrow> step_outcome" where
  "op_digit op count1 inner_count d =
     (if d = 48 \<and> inner_count = 0 then Commit (ApplyOpMotion op 48 (max count1 1))
      else Wait (AfterOp op count1 (saturate (saturate (inner_count * 10) + (d - 48)))))"

definition op_char :: "operator_kind \<Rightarrow> nat \<Rightarrow> nat \<Rightarrow> rchar \<Rightarrow> step_outcome" where
  "op_char op count1 inner_count c =
     (let tot = saturate (max count1 1 * max inner_count 1) in
      if c = double_char op then Commit (ApplyOpDouble op tot)
      else if c = ch CHR ''i'' then Wait (OpTextObj op tot True)
      else if c = ch CHR ''a'' then Wait (OpTextObj op tot False)
      else if c = ch CHR ''g'' then Wait (OpG op tot)
      else if c = ch CHR ''f'' then Wait (OpFind op tot True False)
      else if c = ch CHR ''F'' then Wait (OpFind op tot False False)
      else if c = ch CHR ''t'' then Wait (OpFind op tot True True)
      else if c = ch CHR ''T'' then Wait (OpFind op tot False True)
      else if c = 39 \<or> c = 96 then Wait (OpMark op (c = 39))
      else Commit (ApplyOpMotion op c tot))"

fun pending_step :: "pending_state \<Rightarrow> vim_key \<Rightarrow> step_outcome" where
  "pending_step (Replace count) key =
     (case key of KeyChar c \<Rightarrow> Commit (ReplaceChar c count) | KeyEnter \<Rightarrow> Commit (ReplaceChar 10 count) | _ \<Rightarrow> Cancel)"
| "pending_step (Find count forward till) key = on_char (\<lambda>c. Commit (FindChar c forward till count)) key"
| "pending_step (AfterG count) key = on_char (\<lambda>c. Commit (AfterGChord c count)) key"
| "pending_step (AfterZ count) key = on_char (\<lambda>c. Commit (AfterZChord c count)) key"
| "pending_step (AfterOp op count1 inner_count) key =
     on_char (\<lambda>c. if is_digit c then op_digit op count1 inner_count c else op_char op count1 inner_count c) key"
| "pending_step (OpFind op n forward till) key = on_char (\<lambda>c. Commit (ApplyOpFind op c forward till n)) key"
| "pending_step (OpTextObj op n inner) key = on_char (\<lambda>c. Commit (ApplyOpTextObj op c inner n)) key"
| "pending_step (OpG op n) key = on_char (\<lambda>c. Commit (ApplyOpG op c n)) key"
| "pending_step (OpMark op linewise) key = on_char (\<lambda>c. Commit (ApplyOpMark op c linewise)) key"
| "pending_step SelectRegister key = on_char (\<lambda>c. Commit (SetPendingRegister c)) key"
| "pending_step SetMark key = on_char (\<lambda>c. Commit (CmdSetMark c)) key"
| "pending_step GotoMarkLine key = on_char (\<lambda>c. Commit (CmdGotoMarkLine c)) key"
| "pending_step GotoMarkChar key = on_char (\<lambda>c. Commit (CmdGotoMarkChar c)) key"
| "pending_step RecordMacroTarget key =
     on_char (\<lambda>c. if is_ascii_alphabetic c \<or> is_digit c then Commit (StartMacroRecord c) else Cancel) key"
| "pending_step (PlayMacroTarget count) key =
     on_char (\<lambda>c. if c = 64 \<or> c = 58 \<or> is_ascii_alphabetic c \<or> is_digit c then Commit (PlayMacro c count) else Cancel) key"

section \<open>The chords of the application\<close>

datatype app_action =
    BeginPendingReplace nat
  | BeginPendingFind bool bool nat
  | BeginPendingAfterG nat
  | BeginPendingAfterZ nat
  | BeginPendingAfterOp operator_kind nat
  | BeginPendingSelectRegister
  | BeginPendingSetMark
  | BeginPendingGotoMarkLine
  | BeginPendingGotoMarkChar
  | QChord
  | BeginPendingPlayMacro nat

record chord_app =
  pending_count :: count_acc
  pending :: "pending_state option"
  explicit_count :: bool
  recording :: bool
  chord_history :: "vim_key list"

fun dispatch_pending :: "app_action \<Rightarrow> chord_app \<Rightarrow> chord_app" where
  "dispatch_pending (BeginPendingReplace n) s =
     (let (k, acc) = take_or n (pending_count s) in s\<lparr>pending_count := acc, pending := Some (Replace k)\<rparr>)"
| "dispatch_pending (BeginPendingFind forward till n) s =
     (let (k, acc) = take_or n (pending_count s) in s\<lparr>pending_count := acc, pending := Some (Find k forward till)\<rparr>)"
| "dispatch_pending (BeginPendingAfterG n) s =
     (let explicit = \<not> count_is_empty (pending_count s); (k, acc) = take_or n (pending_count s)
      in s\<lparr>explicit_count := explicit, pending_count := acc, pending := Some (AfterG k)\<rparr>)"
| "dispatch_pending (BeginPendingAfterZ n) s =
     (let (k, acc) = take_or n (pending_count s) in s\<lparr>pending_count := acc, pending := Some (AfterZ k)\<rparr>)"
| "dispatch_pending (BeginPendingAfterOp op n) s =
     (let (k, acc) = take_or n (pending_count s) in s\<lparr>pending_count := acc, pending := Some (AfterOp op k 0)\<rparr>)"
| "dispatch_pending BeginPendingSelectRegister s =
     s\<lparr>pending_count := begin_register_count (pending_count s), pending := Some SelectRegister\<rparr>"
| "dispatch_pending BeginPendingSetMark s =
     s\<lparr>pending_count := count_reset (pending_count s), pending := Some SetMark\<rparr>"
| "dispatch_pending BeginPendingGotoMarkLine s =
     s\<lparr>pending_count := count_reset (pending_count s), pending := Some GotoMarkLine\<rparr>"
| "dispatch_pending BeginPendingGotoMarkChar s =
     s\<lparr>pending_count := count_reset (pending_count s), pending := Some GotoMarkChar\<rparr>"
| "dispatch_pending QChord s =
     (if recording s then s\<lparr>pending_count := count_reset (pending_count s), recording := False\<rparr>
      else s\<lparr>pending_count := count_reset (pending_count s), pending := Some RecordMacroTarget\<rparr>)"
| "dispatch_pending (BeginPendingPlayMacro n) s =
     (let (k, acc) = take_or n (pending_count s)
      in s\<lparr>pending_count := acc, pending := Some (PlayMacroTarget (max k 1))\<rparr>)"

text \<open>The keys bound to these actions in Normal mode.\<close>

definition chord_bindings :: "(rchar \<times> app_action) list" where
  "chord_bindings =
     [(ch CHR ''r'', BeginPendingReplace 1),
      (ch CHR ''f'', BeginPendingFind True False 1), (ch CHR ''F'', BeginPendingFind False False 1),
      (ch CHR ''t'', BeginPendingFind True True 1), (ch CHR ''T'', BeginPendingFind False True 1),
      (ch CHR ''g'', BeginPendingAfterG 1), (ch CHR ''z'', BeginPendingAfterZ 1),
      (ch CHR ''d'', BeginPendingAfterOp Delete 1), (ch CHR ''y'', BeginPendingAfterOp Yank 1),
      (ch CHR ''c'', BeginPendingAfterOp Change 1), (ch CHR ''>'', BeginPendingAfterOp Indent 1),
      (ch CHR ''<'', BeginPendingAfterOp Outdent 1), (ch CHR ''='', BeginPendingAfterOp AutoIndent 1),
      (ch CHR ''!'', BeginPendingAfterOp Filter 1),
      (34, BeginPendingSelectRegister), (ch CHR ''m'', BeginPendingSetMark), (39, BeginPendingGotoMarkLine),
      (96, BeginPendingGotoMarkChar), (ch CHR ''q'', QChord), (ch CHR ''@'', BeginPendingPlayMacro 1)]"

datatype chord_event = Run engine_cmd | CmdlineWindow rchar | Quiet

text \<open>The operators behind \<open>g\<close>.\<close>

definition case_op_kind :: "rchar \<Rightarrow> operator_kind option" where
  "case_op_kind c =
     (if c = ch CHR ''u'' then Some Lowercase else if c = ch CHR ''U'' then Some Uppercase
      else if c = ch CHR ''~'' then Some ToggleCase else if c = ch CHR ''q'' then Some Reflow
      else if c = ch CHR ''w'' then Some ReflowKeepCursor else if c = ch CHR ''c'' then Some Comment else None)"

text \<open>What the router does with the outcome of the reducer.\<close>

fun route_outcome :: "step_outcome \<Rightarrow> chord_app \<Rightarrow> (chord_app \<times> chord_event) option" where
  "route_outcome (Wait st) s = Some (s\<lparr>pending := Some st\<rparr>, Quiet)"
| "route_outcome (Commit (AfterGChord c count)) s =
     (case case_op_kind c of
        Some op \<Rightarrow> Some (s\<lparr>pending := Some (AfterOp op count 0)\<rparr>, Quiet)
      | None \<Rightarrow> Some (s\<lparr>pending := None\<rparr>, Run (AfterGChord c count)))"
| "route_outcome (Commit (StartMacroRecord reg)) s =
     Some (s\<lparr>pending := None, recording := True\<rparr>, Run (StartMacroRecord reg))"
| "route_outcome (Commit cmd) s = Some (s\<lparr>pending := None\<rparr>, Run cmd)"
| "route_outcome Cancel s = Some (s\<lparr>pending := None\<rparr>, Quiet)"
| "route_outcome Forward s = None"

text \<open>\<open>None\<close> stands for a key that is no part of a chord: another binding or the engine takes it.\<close>

definition route_chord_key :: "vim_key \<Rightarrow> chord_app \<Rightarrow> (chord_app \<times> chord_event) option" where
  "route_chord_key key s =
     (case pending s of
        Some st \<Rightarrow>
          (case (st, key) of
             (RecordMacroTarget, KeyChar c) \<Rightarrow>
               if c = 58 \<or> c = 47 \<or> c = 63 then Some (s\<lparr>pending := None\<rparr>, CmdlineWindow c)
               else route_outcome (pending_step st key) s
           | _ \<Rightarrow> route_outcome (pending_step st key) s)
      | None \<Rightarrow>
          (case key of
             KeyChar c \<Rightarrow> map_option (\<lambda>act. (dispatch_pending act s, Quiet)) (map_of chord_bindings c)
           | _ \<Rightarrow> None))"

definition cancel_all_pending :: "chord_app \<Rightarrow> chord_app" where
  "cancel_all_pending s = s\<lparr>pending_count := count_reset (pending_count s), pending := None\<rparr>"

text \<open>The replay of Backspace: the history without its last key goes through the router again.\<close>

fun replay_history :: "vim_key list \<Rightarrow> chord_app \<Rightarrow> chord_app" where
  "replay_history [] s = s"
| "replay_history (k # ks) s =
     (let s = s\<lparr>chord_history := chord_history s @ [k]\<rparr>
      in replay_history ks (case route_chord_key k s of Some (s, _) \<Rightarrow> s | None \<Rightarrow> s))"

definition pop_chord :: "chord_app \<Rightarrow> chord_app" where
  "pop_chord s =
     (let hist = butlast (chord_history s)
      in replay_history hist (cancel_all_pending (s\<lparr>chord_history := []\<rparr>)))"

text \<open>A key of the event loop in Normal mode.\<close>

definition normal_route :: "vim_key \<Rightarrow> chord_app \<Rightarrow> (chord_app \<times> chord_event) option" where
  "normal_route key s =
     (case route_chord_key key (s\<lparr>chord_history := chord_history s @ [key]\<rparr>) of
        None \<Rightarrow> None
      | Some (s, ev) \<Rightarrow> Some (if pending s = None then s\<lparr>chord_history := []\<rparr> else s, ev))"

fun normal_key :: "vim_key \<Rightarrow> chord_app \<Rightarrow> (chord_app \<times> chord_event) option" where
  "normal_key (KeyChar c) s =
     (if pending s = None \<and> is_digit c then
        (case try_accumulate c (pending_count s) of
           (True, acc) \<Rightarrow> Some (s\<lparr>pending_count := acc\<rparr>, Quiet)
         | (False, acc) \<Rightarrow> None)
      else normal_route (KeyChar c) s)"
| "normal_key KeyEsc s = Some ((cancel_all_pending s)\<lparr>chord_history := []\<rparr>, Quiet)"
| "normal_key KeyBackspace s = (if pending s = None then None else Some (pop_chord s, Quiet))"
| "normal_key key s = normal_route key s"

fun type_keys :: "vim_key list \<Rightarrow> chord_app \<Rightarrow> (chord_app \<times> chord_event list) option" where
  "type_keys [] s = Some (s, [])"
| "type_keys (k # ks) s =
     (case normal_key k s of
        None \<Rightarrow> None
      | Some (s, ev) \<Rightarrow>
          (case type_keys ks s of
             None \<Rightarrow> None
           | Some (s, evs) \<Rightarrow> Some (s, if ev = Quiet then evs else ev # evs)))"

end
