(* ===== verification/VimGrammar.thy ===== *)
theory VimGrammar
  imports VimPending
begin

text \<open>
  What typing a command does.  The abstract syntax of an operator command (registers, counts,
  operator, target) has a concrete one, the keys of vim; the reducer and its driver parse the
  keys back to the command (\<open>op_command_typed\<close>).  The invariant of the reachable states bounds
  the counts of every command that runs, every chord ends, and Backspace takes one key back.
\<close>

section \<open>Operator commands\<close>

datatype op_target =
    Motion rchar
  | Lines
  | Object bool rchar
  | GMotion rchar
  | FindTo bool bool rchar
  | ToMark bool rchar

text \<open>Each register prefix has the digits before it.\<close>

record op_command =
  oc_registers :: "(rstring \<times> rchar) list"
  oc_count :: rstring
  oc_op :: operator_kind
  oc_inner :: rstring
  oc_target :: op_target

fun op_keys :: "operator_kind \<Rightarrow> rstring" where
  "op_keys Uppercase = str ''gU''"
| "op_keys Lowercase = str ''gu''"
| "op_keys ToggleCase = str ''g~''"
| "op_keys Reflow = str ''gq''"
| "op_keys ReflowKeepCursor = str ''gw''"
| "op_keys Comment = str ''gc''"
| "op_keys op = [double_char op]"

fun target_keys :: "operator_kind \<Rightarrow> op_target \<Rightarrow> rstring" where
  "target_keys op (Motion c) = [c]"
| "target_keys op Lines = [double_char op]"
| "target_keys op (Object inner c) = [if inner then ch CHR ''i'' else ch CHR ''a'', c]"
| "target_keys op (GMotion c) = [ch CHR ''g'', c]"
| "target_keys op (FindTo forward till c) =
     [if forward then (if till then ch CHR ''t'' else ch CHR ''f'') else (if till then ch CHR ''T'' else ch CHR ''F''), c]"
| "target_keys op (ToMark linewise c) = [if linewise then 39 else 96, c]"

fun target_cmd :: "operator_kind \<Rightarrow> nat \<Rightarrow> op_target \<Rightarrow> engine_cmd" where
  "target_cmd op n (Motion c) = ApplyOpMotion op c n"
| "target_cmd op n Lines = ApplyOpDouble op n"
| "target_cmd op n (Object inner c) = ApplyOpTextObj op c inner n"
| "target_cmd op n (GMotion c) = ApplyOpG op c n"
| "target_cmd op n (FindTo forward till c) = ApplyOpFind op c forward till n"
| "target_cmd op n (ToMark linewise c) = ApplyOpMark op c linewise"

text \<open>A motion is one char that begins nothing else; \<open>0\<close> is one when no digit precedes it.\<close>

fun target_ok :: "operator_kind \<Rightarrow> rstring \<Rightarrow> op_target \<Rightarrow> bool" where
  "target_ok op inner (Motion c) \<longleftrightarrow>
     (is_digit c \<longrightarrow> c = 48 \<and> inner = []) \<and> c \<noteq> double_char op \<and> c \<notin> set (str ''iagfFtT'') \<and> c \<noteq> 39 \<and> c \<noteq> 96"
| "target_ok op inner _ \<longleftrightarrow> True"

definition command_ok :: "op_command \<Rightarrow> bool" where
  "command_ok c \<longleftrightarrow> list_all (\<lambda>(ds, r). count_text ds) (oc_registers c) \<and> count_text (oc_count c) \<and>
     count_text (oc_inner c) \<and> target_ok (oc_op c) (oc_inner c) (oc_target c)"

definition register_keys :: "(rstring \<times> rchar) list \<Rightarrow> rstring" where
  "register_keys regs = concat (map (\<lambda>(ds, r). ds @ [34, r]) regs)"

definition command_keys :: "op_command \<Rightarrow> vim_key list" where
  "command_keys c = map KeyChar
     (register_keys (oc_registers c) @ oc_count c @ op_keys (oc_op c) @ oc_inner c @ target_keys (oc_op c) (oc_target c))"

text \<open>The counts before the operator multiply, each product capped; so does the count behind it.\<close>

definition register_count :: "nat \<Rightarrow> (rstring \<times> rchar) list \<Rightarrow> nat" where
  "register_count n regs = foldl (\<lambda>n (ds, r). min (n * count_value MAX_COUNT ds) MAX_COUNT) n regs"

definition command_count :: "op_command \<Rightarrow> nat" where
  "command_count c = saturate
     (min (register_count 1 (oc_registers c) * count_value MAX_COUNT (oc_count c)) MAX_COUNT *
      count_value usize_max (oc_inner c))"

definition command_events :: "op_command \<Rightarrow> chord_event list" where
  "command_events c = map (\<lambda>(ds, r). Run (SetPendingRegister r)) (oc_registers c) @
     [Run (target_cmd (oc_op c) (command_count c) (oc_target c))]"

definition idle :: "chord_app \<Rightarrow> bool" where
  "idle s \<longleftrightarrow> pending s = None \<and> pending_count s = count_new \<and> chord_history s = []"

section \<open>Typing\<close>

lemma type_keys_Cons:
  assumes "normal_key k s = Some (s', ev)"
  shows "type_keys (k # ks) s =
    map_option (\<lambda>(t, evs). (t, if ev = Quiet then evs else ev # evs)) (type_keys ks s')"
  using assms by (auto split: option.splits)

lemma type_keys_append:
  "type_keys (ks @ ks') s =
     (case type_keys ks s of None \<Rightarrow> None
      | Some (s', evs) \<Rightarrow> map_option (\<lambda>(t, evs'). (t, evs @ evs')) (type_keys ks' s'))"
  by (induction ks arbitrary: s) (auto simp: option.map_id split: option.splits if_splits)

lemma type_keys_quiet:
  "normal_key k s = Some (s', Quiet) \<Longrightarrow> type_keys (k # ks) s = type_keys ks s'"
  by (auto split: option.splits)

declare type_keys.simps(2) [simp del]

text \<open>Digits before a chord, and digits behind an operator.\<close>

lemma type_count_digits:
  assumes "pending s = None" "list_all is_digit ds" "ds \<noteq> [] \<Longrightarrow> hd ds \<noteq> 48 \<or> ca_buffer (pending_count s) > 0"
  shows "type_keys (map KeyChar ds @ ks) s =
    type_keys ks (s\<lparr>pending_count := pending_count s\<lparr>ca_buffer := accumulate MAX_COUNT ds (ca_buffer (pending_count s))\<rparr>\<rparr>)"
  using assms
proof (induction ds arbitrary: s)
  case (Cons c ds)
  let ?b = "min (10 * ca_buffer (pending_count s) + (c - 48)) MAX_COUNT"
  let ?s = "s\<lparr>pending_count := pending_count s\<lparr>ca_buffer := ?b\<rparr>\<rparr>"
  have c: "is_digit c" "\<not> (c = 48 \<and> ca_buffer (pending_count s) = 0)" using Cons.prems by auto
  then have "?b > 0" using digit_pos [of c] by (auto simp: MAX_COUNT_def)
  have "normal_key (KeyChar c) s = Some (?s, Quiet)"
    using c Cons.prems(1) by (simp add: try_accumulate_eq)
  from type_keys_quiet [OF this]
  have "type_keys (map KeyChar (c # ds) @ ks) s = type_keys (map KeyChar ds @ ks) ?s" by simp
  also have "\<dots> = type_keys ks (?s\<lparr>pending_count := pending_count ?s\<lparr>ca_buffer := accumulate MAX_COUNT ds ?b\<rparr>\<rparr>)"
    using Cons.IH [of ?s] Cons.prems \<open>?b > 0\<close> by simp
  finally show ?case by simp
qed simp

lemma route_step:
  assumes "pending s = Some st" "st \<noteq> RecordMacroTarget"
  shows "route_chord_key k s = route_outcome (pending_step st k) s"
  using assms by (cases st) (simp_all add: route_chord_key_def)

lemma type_op_digits:
  assumes "pending s = Some (AfterOp op n i)" "i \<le> usize_max" "list_all is_digit ds" "ds \<noteq> [] \<Longrightarrow> hd ds \<noteq> 48 \<or> i > 0"
  shows "\<exists>h. type_keys (map KeyChar ds @ ks) s =
    type_keys ks (s\<lparr>pending := Some (AfterOp op n (accumulate usize_max ds i)), chord_history := h\<rparr>)"
  using assms
proof (induction ds arbitrary: s i)
  case Nil
  then have "s = s\<lparr>pending := Some (AfterOp op n i), chord_history := chord_history s\<rparr>" by simp
  then show ?case by (metis accumulate_simps(1) append_Nil list.simps(8))
next
  case (Cons c ds)
  let ?i = "min (10 * i + (c - 48)) usize_max"
  let ?s = "s\<lparr>pending := Some (AfterOp op n ?i), chord_history := chord_history s @ [KeyChar c]\<rparr>"
  have c: "is_digit c" "\<not> (c = 48 \<and> i = 0)" using Cons.prems by auto
  then have pos: "?i > 0" using digit_pos [of c] by (auto simp: usize_max_def)
  have "saturate (saturate (i * 10) + (c - 48)) = ?i" by (auto simp: saturate_def min_def)
  then have "normal_key (KeyChar c) s = Some (?s, Quiet)"
    using c Cons.prems(1) by (simp add: normal_route_def route_step op_digit_def)
  from type_keys_quiet [OF this]
  have *: "type_keys (map KeyChar (c # ds) @ ks) s = type_keys (map KeyChar ds @ ks) ?s" by simp
  have "\<exists>h. type_keys (map KeyChar ds @ ks) ?s =
      type_keys ks (?s\<lparr>pending := Some (AfterOp op n (accumulate usize_max ds ?i)), chord_history := h\<rparr>)"
    using Cons.prems pos by (intro Cons.IH) auto
  then show ?case unfolding * by simp
qed

text \<open>A prefix \<open>"x\<close> with the count before it.\<close>

definition carried :: "count_acc \<Rightarrow> nat" where
  "carried a = max (ca_multiplier a) 1"

lemma peek_after_digits:
  assumes "ca_buffer a = 0" "ca_multiplier a \<le> MAX_COUNT" "count_text ds"
  shows "max (count_peek (a\<lparr>ca_buffer := accumulate MAX_COUNT ds 0\<rparr>)) 1 =
    min (carried a * count_value MAX_COUNT ds) MAX_COUNT"
proof -
  have m: "1 \<le> (MAX_COUNT :: nat)" by (simp add: MAX_COUNT_def)
  have v: "0 < count_value MAX_COUNT ds" "count_value MAX_COUNT ds \<le> MAX_COUNT"
    using assms(3) m count_value_pos [of ds MAX_COUNT] by (auto simp: count_value_def)
  have b: "max (accumulate MAX_COUNT ds 0) 1 = count_value MAX_COUNT ds"
    "ds \<noteq> [] \<Longrightarrow> accumulate MAX_COUNT ds 0 = count_value MAX_COUNT ds"
    using v by (auto simp: count_value_def accumulate_value)
  show ?thesis
  proof (cases "ca_multiplier a = 0")
    case True
    then show ?thesis using b v by (simp add: count_peek_eq carried_def min_def)
  next
    case False
    then have "carried a = ca_multiplier a" by (simp add: carried_def)
    with False b(1) have "count_peek (a\<lparr>ca_buffer := accumulate MAX_COUNT ds 0\<rparr>) =
        min (carried a * count_value MAX_COUNT ds) MAX_COUNT"
      by (simp add: count_peek_eq)
    moreover have "1 \<le> carried a * count_value MAX_COUNT ds" using v by (simp add: carried_def)
    ultimately show ?thesis using m by simp
  qed
qed

lemma register_prefix:
  assumes "pending s = None" "ca_buffer (pending_count s) = 0" "ca_multiplier (pending_count s) \<le> MAX_COUNT"
    "count_text ds" "chord_history s = []"
  obtains acc where "ca_buffer acc = 0" "ca_multiplier acc \<le> MAX_COUNT"
    "carried acc = min (carried (pending_count s) * count_value MAX_COUNT ds) MAX_COUNT"
    "\<And>ks. type_keys (map KeyChar (ds @ [34, r]) @ ks) s =
       map_option (\<lambda>(t, evs). (t, Run (SetPendingRegister r) # evs)) (type_keys ks (s\<lparr>pending_count := acc\<rparr>))"
proof -
  let ?a = "pending_count s\<lparr>ca_buffer := accumulate MAX_COUNT ds 0\<rparr>"
  let ?acc = "begin_register_count ?a"
  let ?s1 = "s\<lparr>pending_count := ?a\<rparr>"
  let ?s2 = "?s1\<lparr>pending_count := ?acc, pending := Some SelectRegister, chord_history := [KeyChar 34]\<rparr>"
  have ok: "count_ok ?a"
    using assms by (simp add: count_ok_def accumulate_value)
  have zero: "count_peek ?a = 0 \<Longrightarrow> ca_buffer ?a = 0 \<and> ca_multiplier ?a = 0" by (simp add: count_peek_0)
  have 1: "ca_buffer ?acc = 0" "ca_multiplier ?acc \<le> MAX_COUNT"
    using zero count_peek_bound [OF ok] assms(3) by (auto simp: begin_register_count_def Let_def)
  have "carried ?acc = max (count_peek ?a) 1"
    using zero by (auto simp: begin_register_count_def Let_def carried_def)
  then have 2: "carried ?acc = min (carried (pending_count s) * count_value MAX_COUNT ds) MAX_COUNT"
    using peek_after_digits [OF assms(2-4)] by simp
  have digits: "type_keys (map KeyChar ds @ (KeyChar 34 # KeyChar r # ks)) s = type_keys (KeyChar 34 # KeyChar r # ks) ?s1" for ks
    using type_count_digits [OF assms(1), of ds "KeyChar 34 # KeyChar r # ks"] assms(2,4) by (auto simp: count_text_def)
  have quote: "type_keys (KeyChar 34 # KeyChar r # ks) ?s1 = type_keys (KeyChar r # ks) ?s2" for ks
    using assms(1,5)
    by (intro type_keys_quiet) (simp add: is_digit_def normal_route_def route_chord_key_def chord_bindings_def)
  have "normal_key (KeyChar r) ?s2 = Some (s\<lparr>pending_count := ?acc\<rparr>, Run (SetPendingRegister r))"
    using assms(1,5) by (simp add: normal_route_def route_step)
  then have 3: "type_keys (map KeyChar (ds @ [34, r]) @ ks) s =
       map_option (\<lambda>(t, evs). (t, Run (SetPendingRegister r) # evs)) (type_keys ks (s\<lparr>pending_count := ?acc\<rparr>))" for ks
    using digits [of ks] quote [of ks] type_keys_Cons [of "KeyChar r" ?s2] by (simp del: normal_key.simps)
  show thesis by (rule that [OF 1 2 3])
qed

text \<open>The operator, and its target.\<close>

lemma begin_op:
  assumes "pending s = None" "map_of chord_bindings c = Some (BeginPendingAfterOp op 1)" "\<not> is_digit c"
    "chord_history s = []"
  shows "type_keys (KeyChar c # ks) s = type_keys ks (s\<lparr>pending_count := count_new,
    pending := Some (AfterOp op (max (count_peek (pending_count s)) 1) 0), chord_history := [KeyChar c]\<rparr>)"
  using assms
  by (intro type_keys_quiet) (auto simp: normal_route_def route_chord_key_def take_or_value max_def)

lemma begin_case_op:
  assumes "pending s = None" "case_op_kind c = Some op" "chord_history s = []"
  shows "type_keys (KeyChar (ch CHR ''g'') # KeyChar c # ks) s =
    type_keys ks (s\<lparr>explicit_count := \<not> count_is_empty (pending_count s), pending_count := count_new,
      pending := Some (AfterOp op (max (count_peek (pending_count s)) 1) 0),
      chord_history := [KeyChar (ch CHR ''g''), KeyChar c]\<rparr>)"
proof -
  let ?s1 = "s\<lparr>explicit_count := \<not> count_is_empty (pending_count s), pending_count := count_new,
    pending := Some (AfterG (max (count_peek (pending_count s)) 1)), chord_history := [KeyChar (ch CHR ''g'')]\<rparr>"
  have "type_keys (KeyChar (ch CHR ''g'') # KeyChar c # ks) s = type_keys (KeyChar c # ks) ?s1"
    using assms(1,3)
    by (intro type_keys_quiet)
      (auto simp: normal_route_def route_chord_key_def chord_bindings_def take_or_value is_digit_def max_def)
  also have "\<dots> = type_keys ks (?s1\<lparr>pending := Some (AfterOp op (max (count_peek (pending_count s)) 1) 0),
      chord_history := [KeyChar (ch CHR ''g''), KeyChar c]\<rparr>)"
    using assms(2) by (intro type_keys_quiet) (simp add: normal_route_def route_step)
  finally show ?thesis by simp
qed

lemma begin_any_op:
  assumes "pending s = None" "chord_history s = []"
  shows "\<exists>h e. type_keys (map KeyChar (op_keys op) @ ks) s =
    type_keys ks (s\<lparr>explicit_count := e, pending_count := count_new,
      pending := Some (AfterOp op (max (count_peek (pending_count s)) 1) 0), chord_history := h\<rparr>)"
proof -
  consider (plain) "op_keys op = [double_char op]" "\<not> is_digit (double_char op)"
      "map_of chord_bindings (double_char op) = Some (BeginPendingAfterOp op 1)"
    | (behind_g) "op_keys op = [ch CHR ''g'', double_char op]" "case_op_kind (double_char op) = Some op"
    by (cases op) (simp_all add: chord_bindings_def case_op_kind_def is_digit_def)
  then show ?thesis
  proof cases
    case plain
    then show ?thesis
      using begin_op [OF assms(1) plain(3,2) assms(2), of ks]
      by (intro exI [of _ "[KeyChar (double_char op)]"] exI [of _ "explicit_count s"]) simp
  next
    case behind_g
    then show ?thesis
      using begin_case_op [OF assms(1) behind_g(2) assms(2), of ks]
      by (intro exI [of _ "[KeyChar (ch CHR ''g''), KeyChar (double_char op)]"]
        exI [of _ "\<not> count_is_empty (pending_count s)"]) simp
  qed
qed

text \<open>Chars that decide a target: the double of an operator is none of the others.\<close>

lemma double_char_other [simp]:
  "\<not> is_digit (double_char op)" "double_char op \<noteq> 105" "double_char op \<noteq> 97" "double_char op \<noteq> 103"
  "double_char op \<noteq> 102" "double_char op \<noteq> 70" "double_char op \<noteq> 116" "double_char op \<noteq> 84"
  "double_char op \<noteq> 39" "double_char op \<noteq> 96"
  by (cases op; simp add: is_digit_def)+

lemmas double_char_sym [simp] = double_char_other(2-) [THEN not_sym]

lemma commits:
  assumes "pending s = Some st" "st \<noteq> RecordMacroTarget" "pending_step st k = Commit cmd"
    "\<forall>c n. cmd \<noteq> AfterGChord c n" "\<forall>r. cmd \<noteq> StartMacroRecord r"
    "k \<noteq> KeyEsc" "k \<noteq> KeyBackspace"
  shows "type_keys [k] s = Some (s\<lparr>pending := None, chord_history := []\<rparr>, [Run cmd])"
proof -
  have "route_outcome (Commit cmd) s' = Some (s'\<lparr>pending := None\<rparr>, Run cmd)" for s'
    using assms(4,5) by (cases cmd) auto
  then have "normal_route k s = Some (s\<lparr>pending := None, chord_history := []\<rparr>, Run cmd)"
    using assms(1-3) by (simp add: normal_route_def route_step)
  then show ?thesis using assms(1,6,7) by (cases k) (simp_all add: type_keys_Cons)
qed

lemma waits:
  assumes "pending s = Some st" "st \<noteq> RecordMacroTarget" "pending_step st (KeyChar c) = Wait st'"
  shows "type_keys (KeyChar c # ks) s =
    type_keys ks (s\<lparr>pending := Some st', chord_history := chord_history s @ [KeyChar c]\<rparr>)"
  using assms by (intro type_keys_quiet) (simp add: normal_route_def route_step)

lemma op_target_typed:
  assumes "pending s = Some (AfterOp op n i)" "target_ok op inner t" "inner = [] \<Longrightarrow> i = 0" "0 < n" "n \<le> usize_max"
  shows "type_keys (map KeyChar (target_keys op t)) s =
    Some (s\<lparr>pending := None, chord_history := []\<rparr>, [Run (target_cmd op (saturate (n * max i 1)) t)])"
proof -
  have n: "max n 1 = n" "saturate n = n" using assms(4,5) by (auto simp: saturate_def)
  have two: "type_keys [KeyChar a, KeyChar c] s = Some (s\<lparr>pending := None, chord_history := []\<rparr>, [Run cmd])"
    if "pending_step (AfterOp op n i) (KeyChar a) = Wait st" "st \<noteq> RecordMacroTarget" "pending_step st (KeyChar c) = Commit cmd"
      "\<forall>c n. cmd \<noteq> AfterGChord c n" "\<forall>r. cmd \<noteq> StartMacroRecord r" for a c st cmd
    using waits [OF assms(1) _ that(1), of "[KeyChar c]"]
      commits [OF _ that(2-5), of "s\<lparr>pending := Some st, chord_history := chord_history s @ [KeyChar a]\<rparr>"] by simp
  show ?thesis
  proof (cases t)
    case (Motion c)
    then have "pending_step (AfterOp op n i) (KeyChar c) = Commit (target_cmd op (saturate (n * max i 1)) t)"
      using assms(2,3) n by (auto simp: op_digit_def op_char_def Let_def)
    then show ?thesis using commits [OF assms(1)] Motion by simp
  next
    case Lines
    then show ?thesis using commits [OF assms(1)] n by (simp add: op_char_def Let_def)
  next
    case (Object inner c)
    then show ?thesis
      using two [of "if inner then 105 else 97" "OpTextObj op (saturate (n * max i 1)) inner" c] n
      by (cases inner) (simp_all add: op_char_def Let_def is_digit_def)
  next
    case (GMotion c)
    then show ?thesis
      using two [of 103 "OpG op (saturate (n * max i 1))" c] n by (simp add: op_char_def Let_def is_digit_def)
  next
    case (FindTo forward till c)
    then show ?thesis
      using two [of "if forward then (if till then 116 else 102) else (if till then 84 else 70)"
          "OpFind op (saturate (n * max i 1)) forward till" c] n
      by (cases forward; cases till) (simp_all add: op_char_def Let_def is_digit_def)
  next
    case (ToMark linewise c)
    then show ?thesis
      using two [of "if linewise then 39 else 96" "OpMark op linewise" c] n
      by (cases linewise) (simp_all add: op_char_def Let_def is_digit_def)
  qed
qed

lemma register_prefixes:
  assumes "pending s = None" "ca_buffer (pending_count s) = 0" "ca_multiplier (pending_count s) \<le> MAX_COUNT"
    "list_all (\<lambda>(ds, r). count_text ds) regs" "chord_history s = []"
  shows "\<exists>acc. ca_buffer acc = 0 \<and> ca_multiplier acc \<le> MAX_COUNT \<and>
    carried acc = register_count (carried (pending_count s)) regs \<and>
    (\<forall>ks. type_keys (map KeyChar (register_keys regs) @ ks) s =
       map_option (\<lambda>(t, evs). (t, map (\<lambda>(ds, r). Run (SetPendingRegister r)) regs @ evs))
         (type_keys ks (s\<lparr>pending_count := acc\<rparr>)))"
  using assms
proof (induction regs arbitrary: s)
  case Nil
  then show ?case
    by (intro exI [of _ "pending_count s"]) (simp add: register_count_def register_keys_def option.map_ident)
next
  case (Cons dr regs)
  obtain ds r where dr: "dr = (ds, r)" by (cases dr)
  have pre: "pending s = None" "ca_buffer (pending_count s) = 0" "ca_multiplier (pending_count s) \<le> MAX_COUNT"
    "count_text ds" "chord_history s = []" and rest: "list_all (\<lambda>(ds, r). count_text ds) regs"
    using Cons.prems dr by auto
  obtain acc where acc: "ca_buffer acc = 0" "ca_multiplier acc \<le> MAX_COUNT"
    "carried acc = min (carried (pending_count s) * count_value MAX_COUNT ds) MAX_COUNT"
    "\<And>ks. type_keys (map KeyChar (ds @ [34, r]) @ ks) s =
       map_option (\<lambda>(t, evs). (t, Run (SetPendingRegister r) # evs)) (type_keys ks (s\<lparr>pending_count := acc\<rparr>))"
    using register_prefix [OF pre, where r = r] by blast
  have "\<exists>acc'. ca_buffer acc' = 0 \<and> ca_multiplier acc' \<le> MAX_COUNT \<and> carried acc' = register_count (carried acc) regs \<and>
    (\<forall>ks. type_keys (map KeyChar (register_keys regs) @ ks) (s\<lparr>pending_count := acc\<rparr>) =
       map_option (\<lambda>(t, evs). (t, map (\<lambda>(ds, r). Run (SetPendingRegister r)) regs @ evs))
         (type_keys ks (s\<lparr>pending_count := acc'\<rparr>)))"
    using Cons.IH [of "s\<lparr>pending_count := acc\<rparr>"] pre acc rest by simp
  then obtain acc' where acc': "ca_buffer acc' = 0" "ca_multiplier acc' \<le> MAX_COUNT"
    "carried acc' = register_count (carried acc) regs"
    "\<And>ks. type_keys (map KeyChar (register_keys regs) @ ks) (s\<lparr>pending_count := acc\<rparr>) =
       map_option (\<lambda>(t, evs). (t, map (\<lambda>(ds, r). Run (SetPendingRegister r)) regs @ evs))
         (type_keys ks (s\<lparr>pending_count := acc'\<rparr>))" by blast
  have "type_keys (map KeyChar (register_keys (dr # regs)) @ ks) s =
      map_option (\<lambda>(t, evs). (t, map (\<lambda>(ds, r). Run (SetPendingRegister r)) (dr # regs) @ evs))
        (type_keys ks (s\<lparr>pending_count := acc'\<rparr>))" for ks
    using acc(4) [of "map KeyChar (register_keys regs) @ ks"] acc'(4) [of ks]
    by (cases "type_keys ks (s\<lparr>pending_count := acc'\<rparr>)") (auto simp: dr register_keys_def)
  with acc' acc(3) show ?case by (intro exI [of _ acc']) (simp add: dr register_count_def)
qed

lemma op_command_parses:
  assumes "command_ok c" "idle s"
  shows "\<exists>s'. type_keys (command_keys c) s = Some (s', command_events c) \<and> idle s' \<and> recording s' = recording s"
proof -
  let ?tk = "map KeyChar (target_keys (oc_op c) (oc_target c))"
  have c: "list_all (\<lambda>(ds, r). count_text ds) (oc_registers c)" "count_text (oc_count c)" "count_text (oc_inner c)"
    "target_ok (oc_op c) (oc_inner c) (oc_target c)" using assms(1) by (auto simp: command_ok_def)
  have s: "pending s = None" "pending_count s = count_new" "chord_history s = []" using assms(2) by (auto simp: idle_def)
  then have s': "ca_buffer (pending_count s) = 0" "ca_multiplier (pending_count s) \<le> MAX_COUNT" by auto
  obtain acc where acc: "ca_buffer acc = 0" "ca_multiplier acc \<le> MAX_COUNT"
      "carried acc = register_count (carried (pending_count s)) (oc_registers c)"
    and 1: "\<And>ks. type_keys (map KeyChar (register_keys (oc_registers c)) @ ks) s =
       map_option (\<lambda>(t, evs). (t, map (\<lambda>(ds, r). Run (SetPendingRegister r)) (oc_registers c) @ evs))
         (type_keys ks (s\<lparr>pending_count := acc\<rparr>))"
    using register_prefixes [OF s(1) s' c(1) s(3)] by blast
  define acc' where "acc' = acc\<lparr>ca_buffer := accumulate MAX_COUNT (oc_count c) 0\<rparr>"
  define n where "n = max (count_peek acc') 1"
  define i where "i = accumulate usize_max (oc_inner c) 0"
  have 2: "type_keys (map KeyChar (oc_count c) @ ks) (s\<lparr>pending_count := acc\<rparr>) =
      type_keys ks (s\<lparr>pending_count := acc'\<rparr>)" for ks
    using type_count_digits [of "s\<lparr>pending_count := acc\<rparr>" "oc_count c" ks] s(1) c(2) acc(1)
    by (auto simp: count_text_def acc'_def)
  obtain h e where 3: "type_keys (map KeyChar (op_keys (oc_op c)) @ map KeyChar (oc_inner c) @ ?tk) (s\<lparr>pending_count := acc'\<rparr>) =
      type_keys (map KeyChar (oc_inner c) @ ?tk) (s\<lparr>explicit_count := e, pending_count := count_new,
        pending := Some (AfterOp (oc_op c) n 0), chord_history := h\<rparr>)"
    using begin_any_op [of "s\<lparr>pending_count := acc'\<rparr>" "oc_op c" "map KeyChar (oc_inner c) @ ?tk"] s(1,3)
    by (auto simp: n_def)
  obtain h' where 4: "type_keys (map KeyChar (oc_inner c) @ ?tk) (s\<lparr>explicit_count := e, pending_count := count_new, pending := Some (AfterOp (oc_op c) n 0), chord_history := h\<rparr>) =
      type_keys ?tk (s\<lparr>explicit_count := e, pending_count := count_new,
        pending := Some (AfterOp (oc_op c) n i), chord_history := h'\<rparr>)"
    using type_op_digits [of "s\<lparr>explicit_count := e, pending_count := count_new,
        pending := Some (AfterOp (oc_op c) n 0), chord_history := h\<rparr>" "oc_op c" n 0 "oc_inner c" ?tk] c(3)
    by (auto simp: i_def count_text_def)
  have n: "n = min (register_count 1 (oc_registers c) * count_value MAX_COUNT (oc_count c)) MAX_COUNT"
    using peek_after_digits [OF acc(1,2) c(2)] acc(3) s(2) by (simp add: n_def acc'_def carried_def)
  have "0 < n" by (simp add: n_def)
  moreover have "n \<le> usize_max" using n by (simp add: usize_max_def MAX_COUNT_def)
  ultimately have nb: "0 < n" "n \<le> usize_max" .
  have i: "max i 1 = count_value usize_max (oc_inner c)" "oc_inner c = [] \<Longrightarrow> i = 0"
    using count_value_pos [OF c(3), of usize_max]
    by (auto simp: i_def count_value_def accumulate_value usize_max_def)
  have 5: "type_keys ?tk (s\<lparr>explicit_count := e, pending_count := count_new,
        pending := Some (AfterOp (oc_op c) n i), chord_history := h'\<rparr>) =
      Some (s\<lparr>explicit_count := e, pending_count := count_new, pending := None, chord_history := []\<rparr>,
        [Run (target_cmd (oc_op c) (command_count c) (oc_target c))])"
    using op_target_typed [OF _ c(4) i(2) nb] i(1) by (simp add: command_count_def n)
  have "type_keys (command_keys c) s =
      Some (s\<lparr>explicit_count := e, pending_count := count_new, pending := None, chord_history := []\<rparr>, command_events c)"
    by (simp add: command_keys_def command_events_def 1 2 3 4 5)
  then show ?thesis by (simp add: idle_def)
qed

section \<open>Reachable states\<close>

definition count_in :: "nat \<Rightarrow> nat \<Rightarrow> bool" where
  "count_in cap n \<longleftrightarrow> 1 \<le> n \<and> n \<le> cap"

fun pending_ok :: "pending_state \<Rightarrow> bool" where
  "pending_ok (Replace n) = count_in MAX_COUNT n"
| "pending_ok (Find n _ _) = count_in MAX_COUNT n"
| "pending_ok (AfterG n) = count_in MAX_COUNT n"
| "pending_ok (AfterZ n) = count_in MAX_COUNT n"
| "pending_ok (AfterOp _ n i) = (count_in MAX_COUNT n \<and> i \<le> usize_max)"
| "pending_ok (OpFind _ n _ _) = count_in usize_max n"
| "pending_ok (OpTextObj _ n _) = count_in usize_max n"
| "pending_ok (OpG _ n) = count_in usize_max n"
| "pending_ok (PlayMacroTarget n) = count_in MAX_COUNT n"
| "pending_ok _ = True"

fun cmd_ok :: "engine_cmd \<Rightarrow> bool" where
  "cmd_ok (ReplaceChar _ n) = count_in MAX_COUNT n"
| "cmd_ok (FindChar _ _ _ n) = count_in MAX_COUNT n"
| "cmd_ok (AfterGChord _ n) = count_in MAX_COUNT n"
| "cmd_ok (AfterZChord _ n) = count_in MAX_COUNT n"
| "cmd_ok (ApplyOpMotion _ _ n) = count_in usize_max n"
| "cmd_ok (ApplyOpDouble _ n) = count_in usize_max n"
| "cmd_ok (ApplyOpTextObj _ _ _ n) = count_in usize_max n"
| "cmd_ok (ApplyOpG _ _ n) = count_in usize_max n"
| "cmd_ok (ApplyOpFind _ _ _ _ n) = count_in usize_max n"
| "cmd_ok (PlayMacro _ n) = count_in MAX_COUNT n"
| "cmd_ok _ = True"

definition event_ok :: "chord_event \<Rightarrow> bool" where
  "event_ok ev = (case ev of Run cmd \<Rightarrow> cmd_ok cmd | _ \<Rightarrow> True)"

definition app_ok :: "chord_app \<Rightarrow> bool" where
  "app_ok s \<longleftrightarrow> count_ok (pending_count s) \<and>
     (case pending s of None \<Rightarrow> True
      | Some st \<Rightarrow> pending_ok st \<and> (st \<noteq> SelectRegister \<longrightarrow> pending_count s = count_new))"

definition chord_start :: chord_app where
  "chord_start = \<lparr>pending_count = count_new, pending = None, explicit_count = False, recording = False,
     chord_history = []\<rparr>"

inductive chord_reachable :: "chord_app \<Rightarrow> bool" where
  start: "chord_reachable chord_start"
| key: "chord_reachable s \<Longrightarrow> normal_key k s = Some (s', ev) \<Longrightarrow> chord_reachable s'"

lemma count_in_max: "count_in MAX_COUNT n \<Longrightarrow> count_in usize_max n"
  by (simp add: count_in_def usize_max_def MAX_COUNT_def)

lemma count_in_one [simp]: "count_in MAX_COUNT 1" "count_in MAX_COUNT (Suc 0)" "count_in usize_max (Suc 0)"
  by (simp_all add: count_in_def usize_max_def MAX_COUNT_def)

lemma count_in_total: "count_in MAX_COUNT n \<Longrightarrow> count_in usize_max (saturate (max n 1 * max i 1))"
  by (auto simp: count_in_def saturate_def usize_max_def max_def Suc_le_eq)

lemma take_or_in: "count_ok a \<Longrightarrow> count_in MAX_COUNT (fst (take_or 1 a))"
  using count_peek_bound [of a] by (auto simp: take_or_value count_in_def MAX_COUNT_def)

fun outcome_ok :: "step_outcome \<Rightarrow> bool" where
  "outcome_ok (Wait st) = (pending_ok st \<and> st \<noteq> SelectRegister)"
| "outcome_ok (Commit cmd) = cmd_ok cmd"
| "outcome_ok _ = True"

lemma op_char_ok: "count_in MAX_COUNT n \<Longrightarrow> outcome_ok (op_char op n i c)"
  using count_in_total [of n i] by (simp add: op_char_def Let_def)

lemma op_digit_ok: "count_in MAX_COUNT n \<Longrightarrow> outcome_ok (op_digit op n i c)"
  using count_in_max [of n] by (auto simp: op_digit_def saturate_def count_in_def max_def)

lemma step_outcome_ok: "pending_ok st \<Longrightarrow> outcome_ok (pending_step st k)"
  by (cases st; cases k) (auto simp: op_char_ok op_digit_ok)

lemma route_outcome_ok:
  assumes "outcome_ok out" "count_ok (pending_count s)" "\<And>st. out = Wait st \<or> (\<exists>c n. out = Commit (AfterGChord c n)) \<Longrightarrow> pending_count s = count_new"
    "route_outcome out s = Some (s', ev)"
  shows "app_ok s' \<and> event_ok ev"
  using assms by (induction out s rule: route_outcome.induct)
    (auto simp: app_ok_def event_ok_def split: option.splits)

lemma dispatch_ok:
  assumes "app_ok s" "pending s = None" "map_of chord_bindings c = Some act"
  shows "app_ok (dispatch_pending act s)"
proof -
  have "count_ok (pending_count s)" using assms(1) by (simp add: app_ok_def)
  note ok = this take_or_in [OF this] begin_register_ok [OF this]
  have "act \<in> snd ` set chord_bindings" using map_of_SomeD [OF assms(3)] by force
  then show ?thesis
    using ok assms(2)
    by (auto simp: chord_bindings_def app_ok_def case_prod_beta take_or_value max_def split: if_splits)
qed

lemma reduce_ok:
  assumes "app_ok s" "pending s = Some st" "route_outcome (pending_step st k) s = Some (s', ev)"
  shows "app_ok s' \<and> event_ok ev"
proof (rule route_outcome_ok [OF _ _ _ assms(3)])
  have st: "pending_ok st" "st \<noteq> SelectRegister \<Longrightarrow> pending_count s = count_new"
    using assms(1,2) by (auto simp: app_ok_def)
  show "outcome_ok (pending_step st k)" by (rule step_outcome_ok [OF st(1)])
  show "count_ok (pending_count s)" using assms(1) by (simp add: app_ok_def)
  show "pending_count s = count_new" if "pending_step st k = Wait st' \<or> (\<exists>c n. pending_step st k = Commit (AfterGChord c n))" for st'
    using that by (intro st(2)) (cases k; auto)
qed

lemma cleared_ok: "app_ok s \<Longrightarrow> app_ok (s\<lparr>pending := None\<rparr>)"
  by (simp add: app_ok_def)

lemma history_ok [simp]: "app_ok (s\<lparr>chord_history := h\<rparr>) = app_ok s"
  by (cases "pending s") (simp_all add: app_ok_def)

lemma route_ok:
  assumes "app_ok s" "route_chord_key k s = Some (s', ev)"
  shows "app_ok s' \<and> event_ok ev"
proof (cases "pending s")
  case None
  then show ?thesis
    using assms dispatch_ok [OF assms(1) None]
    by (auto simp: route_chord_key_def event_ok_def split: vim_key.splits)
next
  case (Some st)
  show ?thesis
    using assms(2) reduce_ok [OF assms(1) Some, of k s' ev] cleared_ok [OF assms(1)]
    by (auto simp: route_chord_key_def Some event_ok_def split: pending_state.splits vim_key.splits if_splits)
qed

lemma replay_ok: "app_ok s \<Longrightarrow> app_ok (replay_history ks s)"
proof (induction ks arbitrary: s)
  case (Cons k ks)
  let ?s = "s\<lparr>chord_history := chord_history s @ [k]\<rparr>"
  have "app_ok (case route_chord_key k ?s of Some (s, _) \<Rightarrow> s | None \<Rightarrow> ?s)"
    using Cons.prems route_ok [of ?s k] by (auto split: option.splits)
  then show ?case using Cons.IH by (simp add: Let_def)
qed simp

lemma cancel_ok: "app_ok (cancel_all_pending s)"
  by (simp add: app_ok_def cancel_all_pending_def)

lemma normal_route_ok: "app_ok s \<Longrightarrow> normal_route k s = Some (s', ev) \<Longrightarrow> app_ok s' \<and> event_ok ev"
  using route_ok [of "s\<lparr>chord_history := chord_history s @ [k]\<rparr>" k]
  by (auto simp: normal_route_def split: option.splits if_splits)

lemma normal_key_ok:
  assumes "app_ok s" "normal_key k s = Some (s', ev)"
  shows "app_ok s' \<and> event_ok ev"
proof -
  have "app_ok s'" "event_ok ev"
    if "pending s = None" "try_accumulate c (pending_count s) = (True, acc)" "s' = s\<lparr>pending_count := acc\<rparr>" "ev = Quiet" for c acc
    using assms(1) that try_accumulate_ok [of "pending_count s" c] by (auto simp: app_ok_def event_ok_def)
  then show ?thesis
    using assms normal_route_ok [of s k s' ev] cancel_ok replay_ok [OF cancel_ok]
    by (cases k) (auto simp: pop_chord_def Let_def event_ok_def split: if_splits bool.splits prod.splits)
qed

lemma reachable_ok: "chord_reachable s \<Longrightarrow> app_ok s"
proof (induction rule: chord_reachable.induct)
  case start
  show ?case by (simp add: chord_start_def app_ok_def)
next
  case (key s k s' ev)
  then show ?case using normal_key_ok by blast
qed

section \<open>Chords end\<close>

definition digit_key :: "vim_key \<Rightarrow> bool" where
  "digit_key k = (case k of KeyChar c \<Rightarrow> is_digit c | _ \<Rightarrow> False)"

fun keys_left :: "pending_state \<Rightarrow> nat" where
  "keys_left (AfterG _) = 3"
| "keys_left (AfterOp _ _ _) = 2"
| "keys_left _ = 1"

text \<open>A key of a chord ends it, or brings it closer to its end, or is a digit behind an operator.\<close>

definition chord_advance :: "pending_state \<Rightarrow> vim_key \<Rightarrow> chord_app \<Rightarrow> chord_event \<Rightarrow> bool" where
  "chord_advance st k s' ev \<longleftrightarrow>
     (case pending s' of None \<Rightarrow> True
      | Some st' \<Rightarrow> ev = Quiet \<and>
          (keys_left st' < keys_left st \<or> digit_key k \<and> keys_left st' = keys_left st))"

lemma route_advances:
  assumes "pending s = Some st"
  obtains s' ev where "route_chord_key k s = Some (s', ev)" "chord_advance st k s' ev"
proof -
  have "\<exists>s' ev. route_outcome (pending_step st k) s = Some (s', ev) \<and> chord_advance st k s' ev"
    by (cases st; cases k)
      (auto simp: chord_advance_def op_digit_def op_char_def Let_def digit_key_def split: option.splits)
  moreover have "\<exists>s' ev. Some (s\<lparr>pending := None\<rparr>, CmdlineWindow c) = Some (s', ev) \<and> chord_advance st k s' ev" for c
    by (simp add: chord_advance_def)
  ultimately have "\<exists>s' ev. route_chord_key k s = Some (s', ev) \<and> chord_advance st k s' ev"
    using assms by (cases st; cases k) (auto simp: route_chord_key_def)
  with that show thesis by blast
qed

lemma normal_advances:
  assumes "pending s = Some st" "k \<noteq> KeyBackspace"
  obtains s' ev where "normal_key k s = Some (s', ev)" "chord_advance st k s' ev"
proof (cases "k = KeyEsc")
  case True
  then show thesis by (intro that) (auto simp: chord_advance_def cancel_all_pending_def)
next
  case False
  obtain s' ev where r: "route_chord_key k (s\<lparr>chord_history := chord_history s @ [k]\<rparr>) = Some (s', ev)"
    "chord_advance st k s' ev"
    using route_advances [of "s\<lparr>chord_history := chord_history s @ [k]\<rparr>" st k] assms(1) by auto
  have "normal_key k s = normal_route k s" using assms False by (cases k) auto
  then show thesis
    using r by (intro that [of "if pending s' = None then s'\<lparr>chord_history := []\<rparr> else s'" ev])
      (auto simp: normal_route_def chord_advance_def)
qed

lemma chord_runs_out:
  assumes "pending s = Some st" "KeyBackspace \<notin> set ks" "keys_left st \<le> length (filter (\<lambda>k. \<not> digit_key k) ks)"
  shows "\<exists>n \<le> length ks. \<exists>t evs. type_keys (take n ks) s = Some (t, evs) \<and> pending t = None \<and> length evs \<le> 1"
  using assms
proof (induction ks arbitrary: s st)
  case Nil
  then show ?case by (cases st) auto
next
  case (Cons k ks)
  obtain s' ev where r: "normal_key k s = Some (s', ev)" "chord_advance st k s' ev"
    using normal_advances [OF Cons.prems(1), of k] Cons.prems(2) by auto
  show ?case
  proof (cases "pending s'")
    case None
    then show ?thesis
      by (intro exI [of _ 1]) (simp add: type_keys_Cons [OF r(1)])
  next
    case (Some st')
    then have ev: "ev = Quiet" "keys_left st' < keys_left st \<or> digit_key k \<and> keys_left st' = keys_left st"
      using r(2) by (auto simp: chord_advance_def)
    then have "keys_left st' \<le> length (filter (\<lambda>k. \<not> digit_key k) ks)"
      using Cons.prems(3) by (auto split: if_splits)
    then obtain n t evs where "n \<le> length ks" "type_keys (take n ks) s' = Some (t, evs)" "pending t = None" "length evs \<le> 1"
      using Cons.IH [OF Some] Cons.prems(2) by auto
    then show ?thesis
      using ev(1) by (intro exI [of _ "Suc n"]) (simp add: type_keys_Cons [OF r(1)])
  qed
qed

section \<open>Backspace\<close>

text \<open>Two states that differ at most in the flag of an explicit count.\<close>

definition same_chord :: "chord_app \<Rightarrow> chord_app \<Rightarrow> bool" where
  "same_chord s t \<longleftrightarrow> s\<lparr>explicit_count := False\<rparr> = t\<lparr>explicit_count := False\<rparr>"

lemma same_chord_iff:
  "same_chord s t \<longleftrightarrow> pending_count s = pending_count t \<and> pending s = pending t \<and>
     recording s = recording t \<and> chord_history s = chord_history t"
  by (cases s; cases t) (auto simp: same_chord_def)

lemma same_outcome:
  "same_chord s t \<Longrightarrow> rel_option (rel_prod same_chord (=)) (route_outcome out s) (route_outcome out t)"
  by (induction out s rule: route_outcome.induct) (auto simp: same_chord_iff split: option.splits)

lemma same_dispatch: "same_chord s t \<Longrightarrow> same_chord (dispatch_pending act s) (dispatch_pending act t)"
  by (cases act) (auto simp: same_chord_iff case_prod_beta Let_def)

lemma same_route:
  assumes "same_chord s t"
  shows "rel_option (rel_prod same_chord (=)) (route_chord_key k s) (route_chord_key k t)"
proof -
  have p: "pending t = pending s" using assms by (simp add: same_chord_iff)
  have q: "same_chord (s\<lparr>pending := None\<rparr>) (t\<lparr>pending := None\<rparr>)" using assms by (simp add: same_chord_iff)
  show ?thesis
  proof (cases "pending s")
    case None
    then show ?thesis using p same_dispatch [OF assms]
      by (auto simp: route_chord_key_def option.rel_map intro!: option.rel_refl split: vim_key.splits option.splits)
  next
    case (Some st)
    have o: "rel_option (rel_prod same_chord (=)) (route_outcome (pending_step st k) s) (route_outcome (pending_step st k) t)"
      by (rule same_outcome [OF assms])
    show ?thesis
    proof (cases "st = RecordMacroTarget")
      case True
      then show ?thesis using Some p o q
        by (cases k) (auto simp: route_chord_key_def simp del: pending_step.simps)
    next
      case False
      then show ?thesis using o route_step [OF Some] route_step [OF p [unfolded Some]] by simp
    qed
  qed
qed

lemma same_replay: "same_chord s t \<Longrightarrow> same_chord (replay_history ks s) (replay_history ks t)"
proof (induction ks arbitrary: s t)
  case (Cons k ks)
  let ?s = "s\<lparr>chord_history := chord_history s @ [k]\<rparr>" and ?t = "t\<lparr>chord_history := chord_history t @ [k]\<rparr>"
  have st: "same_chord ?s ?t" using Cons.prems by (simp add: same_chord_iff)
  from same_route [OF this, of k]
  have "same_chord (case route_chord_key k ?s of Some (s, _) \<Rightarrow> s | None \<Rightarrow> ?s)
      (case route_chord_key k ?t of Some (s, _) \<Rightarrow> s | None \<Rightarrow> ?t)"
    using st by (auto elim!: option.rel_cases split: option.splits)
  then show ?case using Cons.IH by (simp add: Let_def)
qed simp

lemma dispatch_history [simp]: "chord_history (dispatch_pending act s) = chord_history s"
  by (cases act) (auto simp: case_prod_beta Let_def)

lemma outcome_history: "route_outcome out s = Some (s', ev) \<Longrightarrow> chord_history s' = chord_history s"
  by (induction out s rule: route_outcome.induct) (auto split: option.splits)

lemma route_history: "route_chord_key k s = Some (s', ev) \<Longrightarrow> chord_history s' = chord_history s"
  by (auto simp: route_chord_key_def dest!: outcome_history
      split: option.splits vim_key.splits pending_state.splits if_splits)

lemma replay_history_keys: "chord_history (replay_history ks s) = chord_history s @ ks"
  by (induction ks arbitrary: s) (auto simp: Let_def dest: route_history split: option.splits)

text \<open>While the history grows a chord is pending, and nothing but the router has run.\<close>

lemma normal_key_history:
  assumes "normal_key k s = Some (s', ev)" "length (chord_history s') > length (chord_history s)"
  shows "route_chord_key k (s\<lparr>chord_history := chord_history s @ [k]\<rparr>) = Some (s', ev)" "pending s' \<noteq> None"
    "chord_history s' = chord_history s @ [k]"
proof -
  have pop: "length (chord_history (pop_chord s)) \<le> length (chord_history s)"
    by (simp add: pop_chord_def Let_def replay_history_keys cancel_all_pending_def)
  have "normal_route k s = Some (s', ev)"
    using assms pop by (cases k) (auto split: if_splits bool.splits prod.splits)
  then show "route_chord_key k (s\<lparr>chord_history := chord_history s @ [k]\<rparr>) = Some (s', ev)" "pending s' \<noteq> None"
    using assms(2) by (auto simp: normal_route_def split: option.splits if_splits)
  then show "chord_history s' = chord_history s @ [k]" by (auto dest: route_history)
qed

lemma normal_key_history_le: "normal_key k s = Some (s', ev) \<Longrightarrow> length (chord_history s') \<le> Suc (length (chord_history s))"
  using normal_key_history(3) [of k s s' ev] by (cases "length (chord_history s') > length (chord_history s)") auto

lemma type_keys_SomeE:
  assumes "type_keys (k # ks) s = Some (t, evs)"
  obtains s' ev evs' where "normal_key k s = Some (s', ev)" "type_keys ks s' = Some (t, evs')"
    "evs = (if ev = Quiet then evs' else ev # evs')"
  using assms by (auto simp: type_keys.simps(2) split: option.splits)

lemma type_keys_history_le:
  "type_keys ks s = Some (t, evs) \<Longrightarrow> length (chord_history t) \<le> length (chord_history s) + length ks"
proof (induction ks arbitrary: s evs)
  case (Cons k ks)
  then show ?case
    by (elim type_keys_SomeE) (fastforce dest: normal_key_history_le)
qed simp

lemma recording_kept:
  assumes "route_chord_key k s = Some (s', ev)" "pending s' \<noteq> None"
  shows "recording s' = recording s" "ev = Quiet"
proof -
  have out: "recording s' = recording s \<and> ev = Quiet" if "route_outcome out s = Some (s', ev)" for out
    using that assms(2) by (induction out s rule: route_outcome.induct) (auto split: option.splits)
  have "recording (dispatch_pending act s) = recording s" if "pending (dispatch_pending act s) \<noteq> None" "pending s = None" for act
    using that by (cases act) (auto simp: case_prod_beta Let_def)
  then show "recording s' = recording s" "ev = Quiet"
    using assms out
    by (auto simp: route_chord_key_def split: option.splits vim_key.splits pending_state.splits if_splits)
qed

lemma typed_history:
  assumes "type_keys ks s = Some (t, evs)" "chord_history t = chord_history s @ ks"
  shows "replay_history ks s = t \<and> evs = [] \<and> recording t = recording s \<and> (ks \<noteq> [] \<longrightarrow> pending t \<noteq> None)"
  using assms
proof (induction ks arbitrary: s evs)
  case (Cons k ks)
  then obtain s' ev evs' where k: "normal_key k s = Some (s', ev)" "type_keys ks s' = Some (t, evs')"
    "evs = (if ev = Quiet then evs' else ev # evs')" by (auto elim: type_keys_SomeE)
  have "length (chord_history s') > length (chord_history s)"
    using type_keys_history_le [OF k(2)] Cons.prems(2) by auto
  note h = normal_key_history [OF k(1) this]
  have "replay_history ks s' = t \<and> evs' = [] \<and> recording t = recording s' \<and> (ks \<noteq> [] \<longrightarrow> pending t \<noteq> None)"
    using Cons.IH [OF k(2)] h(3) Cons.prems(2) by simp
  moreover have "replay_history (k # ks) s = replay_history ks s'" using h(1) by (simp add: Let_def)
  ultimately show ?case
    using recording_kept [OF h(1,2)] h(2) k(2,3) by (cases "ks = []") (auto simp del: replay_history.simps(2))
qed simp

lemma backspace_pops:
  assumes "idle s" "type_keys (ks @ [k]) s = Some (s1, evs)" "chord_history s1 = ks @ [k]"
  shows "\<exists>s2 s3. type_keys ks s = Some (s2, []) \<and> normal_key KeyBackspace s1 = Some (s3, Quiet) \<and> same_chord s3 s2"
proof -
  obtain s2 evs2 evs3 where t: "type_keys ks s = Some (s2, evs2)" "type_keys [k] s2 = Some (s1, evs3)"
    using assms(2) by (auto simp: type_keys_append split: option.splits)
  have h: "chord_history s = []" using assms(1) by (simp add: idle_def)
  obtain ev where k: "normal_key k s2 = Some (s1, ev)" using t(2) by (auto elim: type_keys_SomeE)
  have "length (chord_history s1) > length (chord_history s2)"
    using type_keys_history_le [OF t(1)] h assms(3) by simp
  from normal_key_history(3) [OF k this] have h2: "chord_history s2 = ks" using assms(3) by simp
  have s2: "replay_history ks s = s2" "evs2 = []" "recording s2 = recording s"
    using typed_history [OF t(1)] h h2 by auto
  have s1: "recording s1 = recording s" "pending s1 \<noteq> None"
    using typed_history [OF assms(2)] h assms(3) by auto
  have "same_chord (cancel_all_pending (s1\<lparr>chord_history := []\<rparr>)) s"
    using assms(1) s1(1) by (simp add: same_chord_iff cancel_all_pending_def idle_def)
  from same_replay [OF this, of ks] have "same_chord (pop_chord s1) s2"
    by (simp add: pop_chord_def Let_def assms(3) s2(1))
  then show ?thesis using t(1) s2(2) s1(2) by auto
qed

section \<open>Properties\<close>

text \<open>
  C21: The keys of an operator command, with any registers and counts before it, run exactly that
  command: the counts typed before the operator multiply up to the cap of a count, and the count
  behind the operator multiplies again, saturating.
\<close>

theorem op_command_typed:
  assumes "command_ok c" "idle s"
  shows "\<exists>s'. type_keys (command_keys c) s = Some (s', command_events c) \<and> idle s' \<and> recording s' = recording s"
  by (rule op_command_parses [OF assms])

theorem op_command_typed_witness:
  "\<exists>s'. type_keys (map KeyChar (str ''2'' @ [34] @ str ''a3d4fx'')) chord_start =
     Some (s', [Run (SetPendingRegister (ch CHR ''a'')), Run (ApplyOpFind Delete (ch CHR ''x'') True False 24)]) \<and> idle s'"
proof -
  let ?c = "\<lparr>oc_registers = [(str ''2'', ch CHR ''a'')], oc_count = str ''3'', oc_op = Delete, oc_inner = str ''4'',
    oc_target = FindTo True False (ch CHR ''x'')\<rparr>"
  have c: "command_ok ?c" by (simp add: command_ok_def count_text_def is_digit_def)
  have s: "idle chord_start" by (simp add: idle_def chord_start_def)
  have "command_keys ?c = map KeyChar (str ''2'' @ [34] @ str ''a3d4fx'')"
    by (simp add: command_keys_def register_keys_def)
  moreover have "command_events ?c =
      [Run (SetPendingRegister (ch CHR ''a'')), Run (ApplyOpFind Delete (ch CHR ''x'') True False 24)]"
    by (simp add: command_events_def command_count_def register_count_def count_value_def saturate_def
        MAX_COUNT_def usize_max_def)
  ultimately show ?thesis using op_command_typed [OF c s] by metis
qed

text \<open>
  C22: In every reachable state the counts are within bounds, and a chord other than a register
  prefix has taken the count it carries; so no command ever runs with a count of zero, and only
  the count behind an operator can exceed the cap.
\<close>

theorem chord_counts_bounded:
  assumes "chord_reachable s"
  shows "app_ok s \<and> (\<forall>k s' ev. normal_key k s = Some (s', ev) \<longrightarrow> event_ok ev)"
  using reachable_ok [OF assms] normal_key_ok by blast

theorem chord_counts_bounded_witness:
  "\<exists>s ev. normal_key (KeyChar (ch CHR ''w'')) s = Some (chord_start\<lparr>chord_history := []\<rparr>, ev) \<and>
     ev = Run (ApplyOpMotion Delete (ch CHR ''w'') 1) \<and> app_ok s \<and> event_ok ev"
proof -
  let ?s = "chord_start\<lparr>pending := Some (AfterOp Delete 1 0), chord_history := [KeyChar (ch CHR ''d'')]\<rparr>"
  have d: "normal_key (KeyChar (ch CHR ''d'')) chord_start = Some (?s, Quiet)"
    by (simp add: chord_start_def normal_route_def route_chord_key_def chord_bindings_def is_digit_def take_or_value)
  have w: "normal_key (KeyChar (ch CHR ''w'')) ?s = Some (chord_start\<lparr>chord_history := []\<rparr>, Run (ApplyOpMotion Delete (ch CHR ''w'') 1))"
    by (simp add: chord_start_def normal_route_def route_chord_key_def is_digit_def op_char_def Let_def saturate_def usize_max_def)
  show ?thesis
    using chord_counts_bounded [OF chord_reachable.key [OF chord_reachable.start d]] w by blast
qed

text \<open>
  C24: A chord does not wait for ever: once three keys other than digits have followed, with no Backspace
  among the keys, it is over, and it has run at most one command.  Backspace is left out because it takes the
  last key back: alternating with a key of the chord it keeps the chord pending for as long as one likes.
\<close>

theorem chord_ends:
  assumes "pending s = Some st" "KeyBackspace \<notin> set ks" "3 \<le> length (filter (\<lambda>k. \<not> digit_key k) ks)"
  shows "\<exists>n \<le> length ks. \<exists>t evs. type_keys (take n ks) s = Some (t, evs) \<and> pending t = None \<and> length evs \<le> 1"
proof (rule chord_runs_out [OF assms(1,2)])
  show "keys_left st \<le> length (filter (\<lambda>k. \<not> digit_key k) ks)" using assms(3) by (cases st) auto
qed

theorem chord_ends_witness:
  "\<exists>n \<le> 4. \<exists>t evs. type_keys (take n (map KeyChar (str ''u3iw''))) (chord_start\<lparr>pending := Some (AfterG 1)\<rparr>) =
     Some (t, evs) \<and> pending t = None \<and> length evs \<le> 1"
  using chord_ends [of "chord_start\<lparr>pending := Some (AfterG 1)\<rparr>" "AfterG 1" "map KeyChar (str ''u3iw'')"]
  by (simp add: digit_key_def is_digit_def numeral_eq_Suc)

text \<open>
  C23: Backspace in a chord that was typed without a count in front of it takes its last key back: the
  chord is begun when none is pending, its history is exactly the keys typed since, and the state after
  Backspace is that of the keys without the last one, also for the digits behind an operator, in everything but
  the flag that a count was typed, which Backspace leaves as it is.  (A count in front of the chord is lost by
  Backspace.)
\<close>

theorem backspace_undoes_key:
  assumes "idle s" "type_keys (ks @ [k]) s = Some (s1, evs)" "chord_history s1 = ks @ [k]"
  shows "\<exists>s2 s3. type_keys ks s = Some (s2, []) \<and> normal_key KeyBackspace s1 = Some (s3, Quiet) \<and> same_chord s3 s2"
  by (rule backspace_pops [OF assms])

theorem backspace_undoes_key_witness:
  "\<exists>s1 s2 s3. type_keys (map KeyChar (str ''d12'')) chord_start = Some (s1, []) \<and>
     type_keys (map KeyChar (str ''d1'')) chord_start = Some (s2, []) \<and>
     normal_key KeyBackspace s1 = Some (s3, Quiet) \<and> same_chord s3 s2"
proof -
  have s: "idle chord_start" by (simp add: idle_def chord_start_def)
  have t: "type_keys (map KeyChar (str ''d1'') @ [KeyChar (ch CHR ''2'')]) chord_start =
      Some (chord_start\<lparr>pending := Some (AfterOp Delete 1 12), chord_history := map KeyChar (str ''d12'')\<rparr>, [])"
    by (simp add: type_keys.simps(2) chord_start_def normal_route_def route_chord_key_def chord_bindings_def is_digit_def
        take_or_value op_digit_def saturate_def usize_max_def)
  show ?thesis using backspace_undoes_key [OF s t] t by auto
qed

end
