(* ===== verification/PatternSyntax.thy ===== *)
theory PatternSyntax
  imports Chord
begin

text \<open>
  The translation of vim patterns to the syntax of the crate regex
  (\<open>crates/hjkl-engine/src/search.rs\<close>): the four levels of magic, the overrides of case, and the
  case mode of a search.  The Unicode property of \<open>char::is_uppercase\<close> is the argument \<open>U\<close>.
\<close>

section \<open>Levels of magic\<close>

datatype case_mode = Sensitive | Insensitive | Smart

fun case_from_options :: "bool \<Rightarrow> bool \<Rightarrow> case_mode" where
  "case_from_options ignorecase smartcase =
     (if \<not> ignorecase then Sensitive else if smartcase then Smart else Insensitive)"

datatype magic_level = VeryMagic | Magic | NoMagic | VeryNoMagic

definition very_magic_special :: "rchar \<Rightarrow> bool" where
  "very_magic_special c \<longleftrightarrow> c \<in> set (str ''()+?|{}=<>'')"

definition magic_special :: "rchar \<Rightarrow> bool" where
  "magic_special c \<longleftrightarrow> c \<in> set (str ''.*[]~'')"

definition nomagic_special :: "rchar \<Rightarrow> bool" where
  "nomagic_special c \<longleftrightarrow> c \<in> set (str ''^$'')"

definition regex_meta :: "rchar \<Rightarrow> bool" where
  "regex_meta c \<longleftrightarrow> c = 92 \<or> c \<in> set (str ''.+*?()|[]{}^$'')"

definition is_special_unescaped :: "rchar \<Rightarrow> magic_level \<Rightarrow> bool" where
  "is_special_unescaped c level =
     (if very_magic_special c then level = VeryMagic
      else if magic_special c then level = VeryMagic \<or> level = Magic
      else if nomagic_special c then level \<noteq> VeryNoMagic
      else False)"

section \<open>Emitting\<close>

text \<open>The body of a counted repeat: what is emitted, and the rest of the pattern.\<close>

fun emit_counted_repeat :: "rstring \<Rightarrow> rstring \<times> rstring" where
  "emit_counted_repeat [] = ([], [])"
| "emit_counted_repeat (c # cs) =
     (if c = 92 then
        (case cs of [] \<Rightarrow> ([], [])
         | c2 # cs' \<Rightarrow> if c2 = 125 then ([125], cs') else (case emit_counted_repeat cs' of (out, rest) \<Rightarrow> (c2 # out, rest)))
      else if c = 125 then ([125], cs)
      else (case emit_counted_repeat cs of (out, rest) \<Rightarrow> (c # out, rest)))"

definition emit_special :: "rstring \<Rightarrow> rchar \<Rightarrow> rstring \<Rightarrow> rstring \<times> rstring" where
  "emit_special last_sub c chars =
     (if c = ch CHR ''='' then (str ''?'', chars)
      else if c = ch CHR ''<'' \<or> c = ch CHR ''>'' then ([92, 98], chars)
      else if c = 123 then (case emit_counted_repeat chars of (out, rest) \<Rightarrow> (123 # out, rest))
      else if c = 93 then ([92, 93], chars)
      else if c = ch CHR ''~'' then (last_sub, chars)
      else ([c], chars))"

definition emit_literal :: "rchar \<Rightarrow> rstring" where
  "emit_literal c = (if regex_meta c then [92, c] else [c])"

declare emit_counted_repeat.simps(2) [simp del]

lemma emit_counted_repeat_rest: "length (snd (emit_counted_repeat cs)) \<le> length cs"
proof (induction cs rule: emit_counted_repeat.induct)
  case (2 c cs)
  show ?case
  proof (cases "c = 92")
    case True
    show ?thesis
    proof (cases cs)
      case (Cons c2 cs')
      then show ?thesis
        using True 2(1) [OF True Cons] by (auto simp: emit_counted_repeat.simps(2) split: prod.splits)
    qed (simp add: True emit_counted_repeat.simps(2))
  next
    case False
    then show ?thesis
      using 2(2) [OF False] by (cases "c = 125") (auto simp: emit_counted_repeat.simps(2) split: prod.splits)
  qed
qed simp

lemma emit_special_rest: "emit_special last_sub c cs = (out, rest) \<Longrightarrow> length rest \<le> length cs"
  using emit_counted_repeat_rest [of cs] by (auto simp: emit_special_def split: prod.splits if_splits)

section \<open>The translation\<close>

record scan =
  sc_level :: magic_level
  sc_override :: "bool option"
  sc_bracket :: bool
  sc_parity :: bool

definition class_escape :: "rchar \<Rightarrow> bool" where
  "class_escape c \<longleftrightarrow> c \<in> set (str ''aAdDsSwW'')"

text \<open>One turn of the loop: what is emitted, the state and the rest.  Inside a class: \<close>

definition bracket_turn :: "scan \<Rightarrow> rchar \<Rightarrow> rstring \<Rightarrow> rstring \<times> scan \<times> rstring" where
  "bracket_turn s c cs =
     (if c = 92 \<and> (case cs of c2 # _ \<Rightarrow> class_escape c2 | [] \<Rightarrow> False)
      then ([92, 92, hd cs], s\<lparr>sc_parity := False\<rparr>, tl cs)
      else if c = 92 then ([c], s\<lparr>sc_parity := \<not> sc_parity s\<rparr>, cs)
      else ([c], s\<lparr>sc_bracket := (if c = 93 \<and> \<not> sc_parity s then False else sc_bracket s), sc_parity := False\<rparr>, cs))"

text \<open>After a backslash: the fixed translations, \<close>

definition class_text :: "rchar \<Rightarrow> rstring option" where
  "class_text c =
     map_of [(ch CHR ''a'', str ''[A-Za-z]''), (ch CHR ''A'', str ''[^A-Za-z]''), (ch CHR ''e'', [27]),
       (ch CHR ''d'', str ''[0-9]''), (ch CHR ''D'', str ''[^0-9]''),
       (ch CHR ''s'', [91, 32, 9, 93]), (ch CHR ''S'', [91, 94, 32, 9, 93]),
       (ch CHR ''w'', str ''[0-9A-Za-z_]''), (ch CHR ''W'', str ''[^0-9A-Za-z_]'')] c"

definition level_switch :: "rchar \<Rightarrow> magic_level option" where
  "level_switch c = map_of [(ch CHR ''v'', VeryMagic), (ch CHR ''V'', VeryNoMagic), (ch CHR ''m'', Magic),
     (ch CHR ''M'', NoMagic)] c"

definition case_switch :: "rchar \<Rightarrow> bool option" where
  "case_switch c = map_of [(ch CHR ''c'', True), (ch CHR ''C'', False), (ch CHR ''Z'', True)] c"

definition special_turn :: "rstring \<Rightarrow> scan \<Rightarrow> rchar \<Rightarrow> rstring \<Rightarrow> rstring \<times> scan \<times> rstring" where
  "special_turn last_sub s c cs =
     (if c = 91 then ([91], s\<lparr>sc_bracket := True\<rparr>, cs)
      else (case emit_special last_sub c cs of (out, rest) \<Rightarrow> (out, s, rest)))"

definition escape_turn :: "rstring \<Rightarrow> scan \<Rightarrow> rstring \<Rightarrow> rstring \<times> scan \<times> rstring" where
  "escape_turn last_sub s cs =
     (case cs of
        [] \<Rightarrow> ([92], s, [])
      | c # cs \<Rightarrow>
          (case case_switch c of Some b \<Rightarrow> ([], s\<lparr>sc_override := Some b\<rparr>, cs)
           | None \<Rightarrow>
          (case class_text c of Some t \<Rightarrow> (t, s, cs)
           | None \<Rightarrow>
          (case level_switch c of Some l \<Rightarrow> ([], s\<lparr>sc_level := l\<rparr>, cs)
           | None \<Rightarrow>
             if is_digit c then ([92, c], s, cs)
             else if very_magic_special c \<or> magic_special c \<or> nomagic_special c then
               if is_special_unescaped c (sc_level s) then (emit_literal c, s, cs)
               else special_turn last_sub s c cs
             else ([92, c], s, cs)))))"

definition turn :: "rstring \<Rightarrow> scan \<Rightarrow> rchar \<Rightarrow> rstring \<Rightarrow> rstring \<times> scan \<times> rstring" where
  "turn last_sub s c cs =
     (if sc_bracket s then bracket_turn s c cs
      else if c = 92 then escape_turn last_sub s cs
      else if is_special_unescaped c (sc_level s) then special_turn last_sub s c cs
      else (emit_literal c, s, cs))"

lemma special_turn_rest: "special_turn last_sub s c cs = (out, s', rest) \<Longrightarrow> length rest \<le> length cs"
  by (auto simp: special_turn_def split: if_splits prod.splits dest: emit_special_rest)

lemma escape_turn_rest: "escape_turn last_sub s cs = (out, s', rest) \<Longrightarrow> length rest \<le> length cs"
  by (auto simp: escape_turn_def split: list.splits option.splits if_splits dest: special_turn_rest)

lemma turn_rest: "turn last_sub s c cs = (out, s', rest) \<Longrightarrow> length rest \<le> length cs"
  by (auto simp: turn_def bracket_turn_def split: if_splits dest: escape_turn_rest special_turn_rest)

function translate :: "rstring \<Rightarrow> scan \<Rightarrow> rstring \<Rightarrow> rstring \<times> scan" where
  "translate last_sub s [] = ([], s)"
| "translate last_sub s (c # cs) =
     (case turn last_sub s c cs of (out, s', rest) \<Rightarrow>
        (case translate last_sub s' rest of (outs, s'') \<Rightarrow> (out @ outs, s'')))"
  by pat_completeness auto
termination
  by (relation "measure (\<lambda>(_, _, cs). length cs)") (auto simp: less_Suc_eq_le dest: turn_rest [OF sym])

definition scan_start :: scan where
  "scan_start = \<lparr>sc_level = Magic, sc_override = None, sc_bracket = False, sc_parity = False\<rparr>"

definition translate_pattern :: "rstring \<Rightarrow> rstring \<Rightarrow> rstring \<times> bool option" where
  "translate_pattern pat last_sub = (case translate last_sub scan_start pat of (out, s) \<Rightarrow> (out, sc_override s))"

definition resolve_case_mode :: "(rchar \<Rightarrow> bool) \<Rightarrow> rstring \<Rightarrow> case_mode \<Rightarrow> rstring \<Rightarrow> rstring \<times> case_mode" where
  "resolve_case_mode U pat base last_sub =
     (case translate_pattern pat last_sub of (out, override_mode) \<Rightarrow>
        (out, case override_mode of
           Some True \<Rightarrow> Insensitive
         | Some False \<Rightarrow> Sensitive
         | None \<Rightarrow> (case base of Smart \<Rightarrow> if list_ex U out then Sensitive else Insensitive | other \<Rightarrow> other)))"

definition vim_to_rust_regex :: "(rchar \<Rightarrow> bool) \<Rightarrow> rstring \<Rightarrow> rstring" where
  "vim_to_rust_regex U pat = fst (resolve_case_mode U pat Sensitive [])"

end
