(* ===== verification/PatternLaws.thy ===== *)
theory PatternLaws
  imports PatternSyntax
begin

text \<open>
  What a pattern means does not depend on how magic it is written.  A pattern is a list of tokens;
  each level of magic has its notation for them, and the level may change between tokens.  The
  translation of every notation is the same regex (\<open>notation_translates\<close>).
\<close>

section \<open>Tokens\<close>

datatype token =
    Special rchar
  | Repeat rstring
  | CharClass rstring
  | ClassEscape rchar
  | Plain rchar
  | IgnoreCase bool
  | SwitchTo magic_level

definition special_char :: "rchar \<Rightarrow> bool" where
  "special_char c \<longleftrightarrow> very_magic_special c \<or> magic_special c \<or> nomagic_special c"

fun token_ok :: "token \<Rightarrow> bool" where
  "token_ok (Special c) \<longleftrightarrow> special_char c \<and> c \<noteq> 91 \<and> c \<noteq> 123"
| "token_ok (Repeat body) \<longleftrightarrow> 92 \<notin> set body \<and> 125 \<notin> set body"
| "token_ok (CharClass body) \<longleftrightarrow> 92 \<notin> set body \<and> 93 \<notin> set body"
| "token_ok (ClassEscape c) \<longleftrightarrow> class_text c \<noteq> None"
| "token_ok _ \<longleftrightarrow> True"

definition write_special :: "magic_level \<Rightarrow> rchar \<Rightarrow> rstring" where
  "write_special l c = (if is_special_unescaped c l then [c] else [92, c])"

definition write_plain :: "magic_level \<Rightarrow> rchar \<Rightarrow> rstring" where
  "write_plain l c = (if c = 92 \<or> is_special_unescaped c l then [92, c] else [c])"

fun level_letter :: "magic_level \<Rightarrow> rchar" where
  "level_letter VeryMagic = ch CHR ''v''"
| "level_letter Magic = ch CHR ''m''"
| "level_letter NoMagic = ch CHR ''M''"
| "level_letter VeryNoMagic = ch CHR ''V''"

fun notation_of :: "magic_level \<Rightarrow> token list \<Rightarrow> rstring" where
  "notation_of l [] = []"
| "notation_of l (Special c # ts) = write_special l c @ notation_of l ts"
| "notation_of l (Repeat body # ts) = write_special l 123 @ body @ [125] @ notation_of l ts"
| "notation_of l (CharClass body # ts) = write_special l 91 @ body @ [93] @ notation_of l ts"
| "notation_of l (ClassEscape c # ts) = [92, c] @ notation_of l ts"
| "notation_of l (Plain c # ts) = write_plain l c @ notation_of l ts"
| "notation_of l (IgnoreCase b # ts) = [92, if b then ch CHR ''c'' else ch CHR ''C''] @ notation_of l ts"
| "notation_of l (SwitchTo l' # ts) = [92, level_letter l'] @ notation_of l' ts"

text \<open>The regex of a token, and the case override of a pattern: the last one.\<close>

fun token_regex :: "rstring \<Rightarrow> token \<Rightarrow> rstring" where
  "token_regex last_sub (Special c) = fst (emit_special last_sub c [])"
| "token_regex last_sub (Repeat body) = [123] @ body @ [125]"
| "token_regex last_sub (CharClass body) = [91] @ body @ [93]"
| "token_regex last_sub (ClassEscape c) = the (class_text c)"
| "token_regex last_sub (Plain c) = emit_literal c"
| "token_regex last_sub (IgnoreCase b) = []"
| "token_regex last_sub (SwitchTo l) = []"

fun case_override :: "bool option \<Rightarrow> token list \<Rightarrow> bool option" where
  "case_override ov [] = ov"
| "case_override ov (IgnoreCase b # ts) = case_override (Some b) ts"
| "case_override ov (t # ts) = case_override ov ts"

section \<open>The translation of a token\<close>

lemma special_chars: "special_char c \<longleftrightarrow> c \<in> set (str ''()+?|{}=<>.*[]~^$'')"
  by (auto simp: special_char_def very_magic_special_def magic_special_def nomagic_special_def)

lemma special_unescaped_special: "is_special_unescaped c l \<Longrightarrow> special_char c"
  by (auto simp: is_special_unescaped_def special_char_def split: if_splits)

lemma regex_meta_special: "regex_meta c \<Longrightarrow> c \<noteq> 92 \<Longrightarrow> special_char c"
  by (auto simp: regex_meta_def special_chars)

lemma special_letters:
  "special_char c \<Longrightarrow> case_switch c = None" "special_char c \<Longrightarrow> class_text c = None"
  "special_char c \<Longrightarrow> level_switch c = None" "special_char c \<Longrightarrow> \<not> is_digit c" "special_char c \<Longrightarrow> c \<noteq> 92"
  by (auto simp: special_chars case_switch_def class_text_def level_switch_def is_digit_def)

definition scan_at :: "magic_level \<Rightarrow> bool option \<Rightarrow> scan" where
  "scan_at l ov = \<lparr>sc_level = l, sc_override = ov, sc_bracket = False, sc_parity = False\<rparr>"

lemma turn_escape:
  "translate ls (scan_at l ov) (92 # cs) =
     (case escape_turn ls (scan_at l ov) cs of (out, s', rest) \<Rightarrow>
        (case translate ls s' rest of (outs, s'') \<Rightarrow> (out @ outs, s'')))"
  by (simp add: turn_def scan_at_def)

lemma turn_special:
  assumes "special_char c"
  shows "translate ls (scan_at l ov) (write_special l c @ cs) =
     (case special_turn ls (scan_at l ov) c cs of (out, s', rest) \<Rightarrow>
        (case translate ls s' rest of (outs, s'') \<Rightarrow> (out @ outs, s'')))"
proof (cases "is_special_unescaped c l")
  case True
  then show ?thesis
    using special_letters(5) [OF assms] by (simp add: write_special_def turn_def scan_at_def)
next
  case False
  then have "escape_turn ls (scan_at l ov) (c # cs) = special_turn ls (scan_at l ov) c cs"
    using special_letters [OF assms] assms
    by (simp add: escape_turn_def scan_at_def special_char_def [symmetric])
  with False show ?thesis by (simp add: write_special_def turn_escape del: translate.simps)
qed

lemma counted_body:
  "92 \<notin> set body \<Longrightarrow> 125 \<notin> set body \<Longrightarrow> emit_counted_repeat (body @ 125 # cs) = (body @ [125], cs)"
  by (induction body) (auto simp: emit_counted_repeat.simps(2))

lemma class_body:
  assumes "92 \<notin> set body" "93 \<notin> set body"
  shows "translate ls ((scan_at l ov)\<lparr>sc_bracket := True\<rparr>) (body @ 93 # cs) =
    (case translate ls (scan_at l ov) cs of (outs, s) \<Rightarrow> (body @ [93] @ outs, s))"
  using assms
proof (induction body)
  case Nil
  show ?case by (simp add: turn_def bracket_turn_def scan_at_def)
next
  case (Cons c body)
  then have "turn ls ((scan_at l ov)\<lparr>sc_bracket := True\<rparr>) c (body @ 93 # cs) =
      ([c], (scan_at l ov)\<lparr>sc_bracket := True\<rparr>, body @ 93 # cs)"
    by (simp add: turn_def bracket_turn_def scan_at_def)
  with Cons show ?case by (simp split: prod.splits)
qed

lemma plain_turn:
  "translate ls (scan_at l ov) (write_plain l c @ cs) =
    (case translate ls (scan_at l ov) cs of (outs, s) \<Rightarrow> (emit_literal c @ outs, s))"
proof (cases "is_special_unescaped c l")
  case True
  note c = special_unescaped_special [OF True]
  have "escape_turn ls (scan_at l ov) (c # cs) = (emit_literal c, scan_at l ov, cs)"
    using special_letters [OF c] c True
    by (simp add: escape_turn_def scan_at_def special_char_def [symmetric])
  with True show ?thesis by (simp add: write_plain_def turn_escape del: translate.simps)
next
  case False
  show ?thesis
  proof (cases "c = 92")
    case True
    have "escape_turn ls (scan_at l ov) (92 # cs) = ([92, 92], scan_at l ov, cs)"
      by (simp add: escape_turn_def case_switch_def class_text_def level_switch_def is_digit_def very_magic_special_def
          magic_special_def nomagic_special_def)
    with True show ?thesis
      by (simp add: write_plain_def turn_escape emit_literal_def regex_meta_def del: translate.simps)
  next
    case c: False
    then have "turn ls (scan_at l ov) c cs = (emit_literal c, scan_at l ov, cs)"
      using False by (simp add: turn_def scan_at_def)
    with False c show ?thesis by (simp add: write_plain_def)
  qed
qed

lemma special_emits:
  assumes "c \<noteq> 123"
  shows "emit_special ls c cs = (fst (emit_special ls c []), cs)"
  using assms by (simp add: emit_special_def)

lemma level_letter_switch: "level_switch (level_letter l) = Some l" "case_switch (level_letter l) = None"
  "class_text (level_letter l) = None"
  by (cases l; simp add: level_switch_def case_switch_def class_text_def)+

lemma class_escape_turn:
  "class_text c = Some t \<Longrightarrow> escape_turn ls s (c # cs) = (t, s, cs)"
  by (auto simp: escape_turn_def class_text_def case_switch_def split: if_splits)

lemma translate_notation:
  assumes "list_all token_ok ts"
  shows "\<exists>l'. translate ls (scan_at l ov) (notation_of l ts) =
    (concat (map (token_regex ls) ts), scan_at l' (case_override ov ts))"
  using assms
proof (induction l ts arbitrary: ov rule: notation_of.induct)
  case (1 l)
  show ?case by auto
next
  case (2 l c ts)
  then have c: "special_char c" "c \<noteq> 91" "c \<noteq> 123" by auto
  obtain l' where "translate ls (scan_at l ov) (notation_of l ts) =
      (concat (map (token_regex ls) ts), scan_at l' (case_override ov ts))" using 2 by auto
  then show ?case
    by (intro exI [of _ l']) (simp add: turn_special [OF c(1)] special_turn_def c(2) special_emits [OF c(3), of _ "notation_of l ts"] del: translate.simps)
next
  case (3 l body ts)
  obtain l' where l': "translate ls (scan_at l ov) (notation_of l ts) =
      (concat (map (token_regex ls) ts), scan_at l' (case_override ov ts))" using 3 by auto
  have "special_turn ls (scan_at l ov) 123 (body @ 125 # cs) = (123 # body @ [125], scan_at l ov, cs)" for cs
    using 3(2) counted_body [of body cs] by (simp add: special_turn_def emit_special_def)
  moreover have "special_char 123" by (simp add: special_chars)
  ultimately show ?case
    using l' by (intro exI [of _ l']) (simp add: turn_special del: translate.simps)
next
  case (4 l body ts)
  obtain l' where l': "translate ls (scan_at l ov) (notation_of l ts) =
      (concat (map (token_regex ls) ts), scan_at l' (case_override ov ts))" using 4 by auto
  have "special_turn ls (scan_at l ov) 91 cs = ([91], (scan_at l ov)\<lparr>sc_bracket := True\<rparr>, cs)" for cs
    by (simp add: special_turn_def)
  moreover have "special_char 91" by (simp add: special_chars)
  ultimately show ?case
    using l' class_body [of body ls l ov] 4(2) by (intro exI [of _ l']) (simp add: turn_special del: translate.simps)
next
  case (5 l c ts)
  then obtain t where t: "class_text c = Some t" by auto
  obtain l' where "translate ls (scan_at l ov) (notation_of l ts) =
      (concat (map (token_regex ls) ts), scan_at l' (case_override ov ts))" using 5 by auto
  then show ?case using t by (intro exI [of _ l']) (simp add: turn_escape class_escape_turn del: translate.simps)
next
  case (6 l c ts)
  obtain l' where "translate ls (scan_at l ov) (notation_of l ts) =
      (concat (map (token_regex ls) ts), scan_at l' (case_override ov ts))" using 6 by auto
  then show ?case by (intro exI [of _ l']) (simp add: plain_turn del: translate.simps)
next
  case (7 l b ts)
  have "escape_turn ls (scan_at l ov) ((if b then ch CHR ''c'' else ch CHR ''C'') # cs) = ([], scan_at l (Some b), cs)" for cs
    by (simp add: escape_turn_def case_switch_def scan_at_def)
  moreover obtain l' where "translate ls (scan_at l (Some b)) (notation_of l ts) =
      (concat (map (token_regex ls) ts), scan_at l' (case_override (Some b) ts))" using 7 by auto
  ultimately show ?case by (intro exI [of _ l']) (simp add: turn_escape del: translate.simps)
next
  case (8 l m ts)
  have "escape_turn ls (scan_at l ov) (level_letter m # cs) = ([], scan_at m ov, cs)" for cs
    by (simp add: escape_turn_def level_letter_switch scan_at_def)
  moreover obtain l' where "translate ls (scan_at m ov) (notation_of m ts) =
      (concat (map (token_regex ls) ts), scan_at l' (case_override ov ts))" using 8 by auto
  ultimately show ?case by (intro exI [of _ l']) (simp add: turn_escape del: translate.simps)
qed

lemma scan_start_at: "scan_start = scan_at Magic None"
  by (simp add: scan_start_def scan_at_def)

lemma pattern_translates:
  assumes "list_all token_ok ts"
  shows "translate_pattern (notation_of Magic ts) last_sub = (concat (map (token_regex last_sub) ts), case_override None ts)"
  using translate_notation [OF assms, of last_sub Magic None]
  by (auto simp: translate_pattern_def scan_start_at scan_at_def)

section \<open>Properties\<close>

text \<open>
  C26: The translation does not depend on the level of magic a pattern is written in: every
  notation of a list of tokens, at the default level, at any other level it begins with, and with
  any switches of level inside, gives the regex of the tokens, and the last case override.  The bodies of
  classes and counts hold no backslash and no closing bracket (\<open>token_ok\<close>).
\<close>

theorem notations_agree:
  assumes "list_all token_ok ts"
  shows "translate_pattern (notation_of Magic ts) last_sub =
      (concat (map (token_regex last_sub) ts), case_override None ts) \<and>
    translate_pattern ([92, level_letter l] @ notation_of l ts) last_sub =
      (concat (map (token_regex last_sub) ts), case_override None ts)"
  using pattern_translates [OF assms, of last_sub] pattern_translates [of "SwitchTo l # ts" last_sub] assms by simp

text \<open>The words \<open>ab\<close> or a plus, at the default level and very magic.\<close>

theorem notations_agree_witness:
  "translate_pattern (str ''ab'' @ [92] @ str ''|+'') [] = (str ''ab|'' @ [92] @ str ''+'', None) \<and>
   translate_pattern ([92] @ str ''vab|'' @ [92] @ str ''+'') [] = (str ''ab|'' @ [92] @ str ''+'', None)"
  using notations_agree [of "[Plain (ch CHR ''a''), Plain (ch CHR ''b''), Special (ch CHR ''|''), Plain (ch CHR ''+'')]" "[]" VeryMagic]
  by (simp add: special_chars write_special_def write_plain_def is_special_unescaped_def very_magic_special_def
      magic_special_def nomagic_special_def emit_special_def emit_literal_def regex_meta_def)

section \<open>Two flaws of the translation\<close>

text \<open>Smart case scans the translated pattern, where \<open>\w\<close> has become a class with capitals: the
  pattern \<open>\wx\<close>, all in lower case, is searched with case.\<close>

lemma smart_case_reads_classes:
  "U 65 \<Longrightarrow> resolve_case_mode U ([92] @ str ''wx'') Smart [] = (str ''[0-9A-Za-z_]x'', Sensitive)"
  using pattern_translates [of "[ClassEscape (ch CHR ''w''), Plain (ch CHR ''x'')]" "[]"]
  by (simp add: resolve_case_mode_def class_text_def write_plain_def is_special_unescaped_def very_magic_special_def
      magic_special_def nomagic_special_def emit_literal_def regex_meta_def)

text \<open>Inside a class the check for \<open>\d\<close> ignores that the backslash itself is escaped: of the class
  \<open>[\\d]\<close>, a backslash and a \<open>d\<close>, remains \<open>[\\\d]\<close>, a backslash and the digits.\<close>

lemma escaped_backslash_in_class:
  "translate_pattern (str ''['' @ [92, 92] @ str ''d]'') [] = (str ''['' @ [92, 92, 92] @ str ''d]'', None)"
  by (simp add: translate_pattern_def scan_start_def turn_def bracket_turn_def special_turn_def class_escape_def
      is_special_unescaped_def very_magic_special_def magic_special_def nomagic_special_def)

end
