(* ===== verification/Search.thy ===== *)
theory Search
  imports Edit RopeDelta PatternSyntax
begin

text \<open>
  Searching (\<open>crates/hjkl-engine/src/search.rs\<close>, the traits \<open>Cursor\<close> and \<open>Search\<close> of a view in
  \<open>buffer_impl.rs\<close>, \<open>hjkl-buffer/src/search.rs\<close>).  A compiled regex of the crate regex is the
  argument \<open>re\<close>: where it finds its leftmost match from a byte of a line on, and its successive
  matches, as byte ranges.  The argument \<open>BL\<close> is \<open>Rope::byte_to_line\<close> of ropey.  Rows and columns
  of \<open>Pos\<close> are 32 bit in the source; they are natural numbers here.  A panic is \<open>None\<close>.
\<close>

section \<open>The regex and its laws\<close>

record regex =
  re_find_at :: "rstring \<Rightarrow> nat \<Rightarrow> (nat \<times> nat) option"
  re_find_iter :: "rstring \<Rightarrow> (nat \<times> nat) list"

definition re_find :: "regex \<Rightarrow> rstring \<Rightarrow> (nat \<times> nat) option" where
  "re_find re line = re_find_at re line 0"

text \<open>A match lies in the line, on boundaries of chars, at or behind the start of the search; it
  is the leftmost one, so every search from a place up to it finds it too; successive matches
  have increasing starts, and there is a first one when there is any.\<close>

definition match_ok :: "rstring \<Rightarrow> nat \<times> nat \<Rightarrow> bool" where
  "match_ok line m \<longleftrightarrow> fst m \<le> snd m \<and> snd m \<le> length (utf8 line) \<and>
     str_is_char_boundary (utf8 line) (fst m) \<and> str_is_char_boundary (utf8 line) (snd m)"

definition regex_laws :: "regex \<Rightarrow> bool" where
  "regex_laws re \<longleftrightarrow>
     (\<forall>line i m. re_find_at re line i = Some m \<longrightarrow> i \<le> fst m \<and> match_ok line m) \<and>
     (\<forall>line i j m. re_find_at re line i = Some m \<longrightarrow> i \<le> j \<longrightarrow> j \<le> fst m \<longrightarrow> re_find_at re line j = Some m) \<and>
     (\<forall>line i j. re_find_at re line i = None \<longrightarrow> i \<le> j \<longrightarrow> re_find_at re line j = None) \<and>
     (\<forall>line. sorted_wrt (<) (map fst (re_find_iter re line)) \<and> (\<forall>m \<in> set (re_find_iter re line). match_ok line m) \<and>
        (re_find_iter re line = [] \<longleftrightarrow> re_find re line = None))"

definition search_match_ranges :: "regex \<Rightarrow> rstring \<Rightarrow> (nat \<times> nat) list" where
  "search_match_ranges re line = re_find_iter re line"

section \<open>Positions and bytes\<close>

definition position_byte_offset :: "position \<Rightarrow> rstring \<Rightarrow> nat" where
  "position_byte_offset p line = (if p_col p < length line then boff line (p_col p) else length (utf8 line))"

definition cursor_byte_offset :: "'r text_ops \<Rightarrow> 'r \<Rightarrow> position \<Rightarrow> nat option" where
  "cursor_byte_offset R rope p = (
     let n = rp_len_lines R rope; row = min (p_row p) n in do {
       line_start \<leftarrow> rp_line_to_byte R rope row;
       if p_row p < n then do {
         line \<leftarrow> rope_line_str R rope (p_row p);
         Some (line_start + position_byte_offset p line)
       } else Some line_start
     })"

fun floor_boundary :: "u8 list \<Rightarrow> nat \<Rightarrow> nat" where
  "floor_boundary bs 0 = 0"
| "floor_boundary bs (Suc i) = (if str_is_char_boundary bs (Suc i) then Suc i else floor_boundary bs i)"

definition pos_at_byte :: "'r text_ops \<Rightarrow> ('r \<Rightarrow> nat \<Rightarrow> nat option) \<Rightarrow> 'r \<Rightarrow> nat \<Rightarrow> position option" where
  "pos_at_byte R BL rope byte = (
     let tot = rp_len_bytes R rope in
     if tot = 0 then Some (Position 0 0)
     else let byte_clamped = min byte tot in do {
       row \<leftarrow> BL rope byte_clamped;
       line_start \<leftarrow> rp_line_to_byte R rope row;
       line \<leftarrow> rope_line_str R rope row;
       let col_byte = floor_boundary (utf8 line) (min (byte_clamped - line_start) (length (utf8 line)));
       Some (Position row (chars_in_bytes line col_byte))
     })"

definition rope_line_slice :: "'r text_ops \<Rightarrow> 'r \<Rightarrow> nat \<Rightarrow> rstring option" where
  "rope_line_slice R rope r = do {
     st \<leftarrow> rp_line_to_byte R rope r;
     e \<leftarrow> (if r + 1 \<ge> rp_len_lines R rope then Some (rp_len_bytes R rope)
           else do {
             b \<leftarrow> rp_line_to_byte R rope (r + 1);
             floor_char_boundary R rope (b - 1)
           });
     if st \<le> e then Some (rp_byte_slice R rope st e) else None
   }"

section \<open>Finding in a view\<close>

definition slice_chars :: "rstring \<Rightarrow> nat \<Rightarrow> nat option" where
  "slice_chars line b =
     (let b = min b (length (utf8 line)) in
      if str_is_char_boundary (utf8 line) b then Some (chars_in_bytes line b) else None)"

definition byte_range_to_pos_range :: "nat \<Rightarrow> nat \<Rightarrow> nat \<Rightarrow> nat \<Rightarrow> rstring \<Rightarrow> (position \<times> position) option" where
  "byte_range_to_pos_range s_row s_byte e_row e_byte line = do {
     s_col \<leftarrow> slice_chars line s_byte;
     e_col \<leftarrow> slice_chars line e_byte;
     Some (Position s_row s_col, Position e_row e_col)
   }"

text \<open>The rows after the first: the rest of the walk over \<open>offsets\<close>.  The outer option is a panic,
  the inner one the answer.\<close>

fun next_rows_walk :: "'r text_ops \<Rightarrow> regex \<Rightarrow> 'r \<Rightarrow> nat \<Rightarrow> nat \<Rightarrow> nat list \<Rightarrow> (position \<times> position) option option" where
  "next_rows_walk R re rope start_row tot [] = Some None"
| "next_rows_walk R re rope start_row tot (offset # offsets) = (
     let row = (start_row + offset) mod tot in do {
       line \<leftarrow> rope_line_slice R rope row;
       case re_find re line of
         Some (s, e) \<Rightarrow> map_option Some (byte_range_to_pos_range row s row e line)
       | None \<Rightarrow> if row = start_row then Some None else next_rows_walk R re rope start_row tot offsets
     })"

definition find_next :: "'r text_ops \<Rightarrow> regex \<Rightarrow> 'r \<Rightarrow> position \<Rightarrow> (position \<times> position) option option" where
  "find_next R re rope from = (
     let tot = rp_len_lines R rope in
     if tot = 0 then Some None
     else do {
       from_line \<leftarrow> rope_line_slice R rope (p_row from);
       let from_byte = min (position_byte_offset from from_line) (length (utf8 from_line));
       case re_find_at re from_line from_byte of
         Some (s, e) \<Rightarrow> map_option Some (byte_range_to_pos_range (p_row from) s (p_row from) e from_line)
       | None \<Rightarrow> next_rows_walk R re rope (p_row from) tot [1..<Suc tot]
     })"

fun prev_rows_walk :: "'r text_ops \<Rightarrow> regex \<Rightarrow> 'r \<Rightarrow> nat \<Rightarrow> nat \<Rightarrow> nat list \<Rightarrow> (position \<times> position) option option" where
  "prev_rows_walk R re rope start_row tot [] = Some None"
| "prev_rows_walk R re rope start_row tot (offset # offsets) = (
     let row = (if offset > start_row then tot - (offset - start_row) else start_row - offset) in do {
       line \<leftarrow> rope_line_slice R rope row;
       case re_find_iter re line of
         [] \<Rightarrow> if row = start_row then Some None else prev_rows_walk R re rope start_row tot offsets
       | ms \<Rightarrow> map_option Some (byte_range_to_pos_range row (fst (last ms)) row (snd (last ms)) line)
     })"

definition find_prev :: "'r text_ops \<Rightarrow> regex \<Rightarrow> 'r \<Rightarrow> position \<Rightarrow> (position \<times> position) option option" where
  "find_prev R re rope from = (
     let tot = rp_len_lines R rope in
     if tot = 0 then Some None
     else do {
       from_line \<leftarrow> rope_line_slice R rope (p_row from);
       let from_byte = min (position_byte_offset from from_line) (length (utf8 from_line));
       case takeWhile (\<lambda>m. fst m \<le> from_byte) (re_find_iter re from_line) of
         [] \<Rightarrow> prev_rows_walk R re rope (p_row from) tot [1..<Suc tot]
       | ms \<Rightarrow> map_option Some (byte_range_to_pos_range (p_row from) (fst (last ms)) (p_row from) (snd (last ms)) from_line)
     })"

section \<open>The search state\<close>

record search_state =
  ss_pattern :: "regex option"
  ss_forward :: bool
  ss_matches :: "(nat \<times> nat) list list"
  ss_generations :: "64 word list"
  ss_wrap_around :: bool

definition search_state_new :: search_state where
  "search_state_new = \<lparr>ss_pattern = None, ss_forward = True, ss_matches = [], ss_generations = [], ss_wrap_around = True\<rparr>"

definition set_pattern :: "regex option \<Rightarrow> search_state \<Rightarrow> search_state" where
  "set_pattern re st = st\<lparr>ss_pattern := re, ss_matches := [], ss_generations := []\<rparr>"

definition resize :: "nat \<Rightarrow> 'a \<Rightarrow> 'a list \<Rightarrow> 'a list" where
  "resize n x xs = take n xs @ replicate (n - length xs) x"

definition matches_for :: "nat \<Rightarrow> 64 word \<Rightarrow> rstring \<Rightarrow> search_state \<Rightarrow> (nat \<times> nat) list \<times> search_state" where
  "matches_for row dirty_gen line st =
     (case ss_pattern st of
        None \<Rightarrow> ([], st)
      | Some re \<Rightarrow>
          let st = (if length (ss_matches st) \<le> row
                    then st\<lparr>ss_matches := resize (Suc row) [] (ss_matches st),
                            ss_generations := resize (Suc row) (- 1) (ss_generations st)\<rparr> else st);
              st = (if ss_generations st ! row \<noteq> dirty_gen
                    then st\<lparr>ss_matches := (ss_matches st)[row := search_match_ranges re line],
                            ss_generations := (ss_generations st)[row := dirty_gen]\<rparr> else st)
          in (ss_matches st ! row, st))"

definition search_matches :: "'r text_ops \<Rightarrow> 'r \<Rightarrow> 64 word \<Rightarrow> nat \<Rightarrow> search_state \<Rightarrow> ((nat \<times> nat) list \<times> search_state) option" where
  "search_matches R rope dirty_gen row st =
     (if ss_pattern st = None \<or> row \<ge> rp_len_lines R rope then Some ([], st)
      else do {
        line \<leftarrow> rope_line_str R rope row;
        Some (matches_for row dirty_gen line st)
      })"

definition warm_matches :: "'r text_ops \<Rightarrow> 'r \<Rightarrow> 64 word \<Rightarrow> nat \<Rightarrow> search_state \<Rightarrow> search_state option" where
  "warm_matches R rope dirty_gen row st = map_option snd (search_matches R rope dirty_gen row st)"

section \<open>\<open>n\<close> and \<open>N\<close>\<close>

definition skip_from :: "'r text_ops \<Rightarrow> ('r \<Rightarrow> nat \<Rightarrow> nat option) \<Rightarrow> 'r \<Rightarrow> position \<Rightarrow> position option" where
  "skip_from R BL rope cursor = do {
     from_byte \<leftarrow> cursor_byte_offset R rope cursor;
     line \<leftarrow> rope_line_str R rope (p_row cursor);
     let width = (if p_col cursor < length line then length (utf8_char (line ! p_col cursor)) else 1);
     pos_at_byte R BL rope (from_byte + width)
   }"

definition search_forward :: "'r text_ops \<Rightarrow> ('r \<Rightarrow> nat \<Rightarrow> nat option) \<Rightarrow> search_state \<Rightarrow> bool \<Rightarrow> 'r view \<Rightarrow> (bool \<times> 'r view) option" where
  "search_forward R BL st skip_current v =
     (case ss_pattern st of
        None \<Rightarrow> Some (False, v)
      | Some re \<Rightarrow>
          let rope = view_rope v; cursor = v_cursor v in
          if rp_len_lines R rope = 0 then Some (False, v)
          else do {
            from \<leftarrow> (if skip_current then skip_from R BL rope cursor else Some cursor);
            found \<leftarrow> find_next R re rope from;
            case found of
              None \<Rightarrow> Some (False, v)
            | Some (s, e) \<Rightarrow>
                if \<not> ss_wrap_around st \<and> p_row s < p_row cursor then Some (False, v)
                else map_option (Pair True) (set_cursor R s v)
          })"

definition search_backward :: "'r text_ops \<Rightarrow> ('r \<Rightarrow> nat \<Rightarrow> nat option) \<Rightarrow> search_state \<Rightarrow> bool \<Rightarrow> 'r view \<Rightarrow> (bool \<times> 'r view) option" where
  "search_backward R BL st skip_current v =
     (case ss_pattern st of
        None \<Rightarrow> Some (False, v)
      | Some re \<Rightarrow>
          let rope = view_rope v; cursor = v_cursor v in
          if rp_len_lines R rope = 0 then Some (False, v)
          else do {
            initial \<leftarrow> find_prev R re rope cursor;
            found \<leftarrow> (case initial of
                None \<Rightarrow> Some None
              | Some (s, e) \<Rightarrow>
                  if skip_current \<and> s = cursor then do {
                    cb \<leftarrow> cursor_byte_offset R rope s;
                    anchor \<leftarrow> pos_at_byte R BL rope (if cb = 0 then rp_len_bytes R rope else cb - 1);
                    find_prev R re rope anchor
                  } else Some initial);
            case found of
              None \<Rightarrow> Some (False, v)
            | Some (s, e) \<Rightarrow>
                if \<not> ss_wrap_around st \<and> p_row s > p_row cursor then Some (False, v)
                else map_option (Pair True) (set_cursor R s v)
          })"

end
