(* ===== verification/SearchLaws.thy ===== *)
theory SearchLaws
  imports Search EditLines EditProps
begin

text \<open>
  What \<open>n\<close> and \<open>N\<close> find.  The text is plain (every break is \<open>\\n\<close>) and given by its lines.  First
  the bytes of positions, then the walks over the rows as a search in the order of positions, and
  the two commands: the next match behind the cursor and the last one before it, around the
  ends of the text.
\<close>

section \<open>Bytes of a line\<close>

lemma boff_Suc: "c < length l \<Longrightarrow> boff l (Suc c) = boff l c + length (utf8_char (l ! c))"
  by (simp add: boff_def take_Suc_conv_app_nth)

lemma boff_order: "c \<le> length l \<Longrightarrow> d \<le> length l \<Longrightarrow> boff l c \<le> boff l d \<longleftrightarrow> c \<le> d"
  using boff_less [of d c l] boff_mono [of c d l] by fastforce

lemma boff_inj: "c \<le> length l \<Longrightarrow> d \<le> length l \<Longrightarrow> boff l c = boff l d \<longleftrightarrow> c = d"
  using boff_order [of c l d] boff_order [of d l c] by auto

lemma boundary_boff: "valid_str l \<Longrightarrow> c \<le> length l \<Longrightarrow> str_is_char_boundary (utf8 l) (boff l c)"
  by (subst boundary_iff_boff) auto

lemma floor_boundary_id: "str_is_char_boundary bs k \<Longrightarrow> floor_boundary bs k = k"
  by (cases k) auto

lemma floor_boundary_inside:
  assumes "valid_str l" "c < length l" "boff l c \<le> k" "k < boff l (Suc c)"
  shows "floor_boundary (utf8 l) k = boff l c"
  using assms(3,4)
proof (induction k)
  case 0
  then show ?case by simp
next
  case (Suc k)
  show ?case
  proof (cases "str_is_char_boundary (utf8 l) (Suc k)")
    case True
    have "Suc k \<le> length (utf8 l)" using Suc.prems(2) boff_le [of l "Suc c"] by linarith
    then obtain d where d: "d \<le> length l" "Suc k = boff l d"
      using boundary_iff_boff [OF assms(1)] True by auto
    then have "c \<le> d" "d < Suc c"
      using Suc.prems assms(2) boff_order [of c l d] boff_order [of "Suc c" l d] by auto
    then show ?thesis using floor_boundary_id [OF True] d by (simp add: le_less_Suc_eq)
  next
    case False
    then have "boff l c \<noteq> Suc k" using boundary_boff [OF assms(1), of c] assms(2) by auto
    then show ?thesis using Suc False by simp
  qed
qed

lemma position_byte: "position_byte_offset p l = boff l (p_col p)"
  by (simp add: position_byte_offset_def)

lemma slice_chars_boff: "valid_str l \<Longrightarrow> c \<le> length l \<Longrightarrow> slice_chars l (boff l c) = Some c"
  by (simp add: slice_chars_def Let_def min_absorb1 boundary_boff chars_in_bytes_boff)

section \<open>Bytes of a position\<close>

definition line_of_byte :: "'r text_ops \<Rightarrow> ('r \<Rightarrow> nat \<Rightarrow> nat option) \<Rightarrow> bool" where
  "line_of_byte R BL \<longleftrightarrow> (\<forall>r b. BL r b =
     (if b \<le> length (utf8 (rp_text R r))
      then Some (length (filter (\<lambda>st. boff (rp_text R r) st \<le> b) (line_starts (rp_text R r))) - 1) else None))"

abbreviation bytes_before :: "nat \<Rightarrow> rstring list \<Rightarrow> nat" where
  "bytes_before k ls \<equiv> length (utf8 (rows_before k ls))"

lemma utf8_lf: "utf8 [10] = [as_u8 10]"
  by (simp add: utf8_char_def)

lemma bytes_before_Suc: "k < length ls \<Longrightarrow> bytes_before (Suc k) ls = bytes_before k ls + length (utf8 (ls ! k)) + 1"
  by (simp add: rows_before_Suc utf8_char_def)

lemma bytes_before_mono: "i \<le> k \<Longrightarrow> k < length ls \<Longrightarrow> bytes_before i ls \<le> bytes_before k ls"
proof (induction k)
  case (Suc k)
  then show ?case using bytes_before_Suc [of k ls] by (cases "i = Suc k") auto
qed simp

text \<open>The rope holds the lines \<open>ls\<close>.\<close>

definition searched :: "'r text_ops \<Rightarrow> ('r \<Rightarrow> nat \<Rightarrow> nat option) \<Rightarrow> 'r \<Rightarrow> rstring list \<Rightarrow> bool" where
  "searched R BL rope ls \<longleftrightarrow> text_laws R \<and> line_of_byte R BL \<and> rope_lines R rope ls"

lemma searchedD:
  assumes "searched R BL rope ls"
  shows searched_laws: "text_laws R" and searched_lines: "rope_lines R rope ls"
    and searched_BL: "line_of_byte R BL"
    and row_total: "rp_len_lines R rope = length ls" and some_row: "ls \<noteq> []"
    and text_unl: "rp_text R rope = unl ls" and ls_ok: "lines_ok ls"
    and row_valid: "k < length ls \<Longrightarrow> valid_str (ls ! k)"
  using assms rope_lines_count [of R rope ls] row_line_text [of R rope ls k]
  by (auto simp: searched_def rope_lines_def lines_ok_def line_text_def)

lemma boff_start: "k < length ls \<Longrightarrow> boff (unl ls) (length (rows_before k ls)) = bytes_before k ls"
  by (simp add: boff_def unl_row)

lemma line_to_byte: "searched R BL rope ls \<Longrightarrow> k < length ls \<Longrightarrow> rp_line_to_byte R rope k = Some (bytes_before k ls)"
  by (simp add: text_line_to_byte [OF searched_laws] line_to_char_spec_def text_unl nlines_unl [OF ls_ok]
      lstart_unl [OF ls_ok] boff_start)

lemma line_str:
  assumes S: "searched R BL rope ls" and k: "k < length ls"
  shows "rope_line_str R rope k = Some (ls ! k)"
proof -
  have "take (length (ls ! k)) (drop (length (rows_before k ls)) (unl ls)) = ls ! k"
    by (subst unl_row [OF k]) simp
  with k show ?thesis
    by (simp add: rope_line_str_text [OF searched_laws [OF S]] text_unl [OF S] nlines_unl [OF ls_ok [OF S]]
        lstart_unl [OF ls_ok [OF S]] row_chars_unl [OF ls_ok [OF S]])
qed

lemma line_slice: "searched R BL rope ls \<Longrightarrow> k < length ls \<Longrightarrow> rope_line_slice R rope k = Some (ls ! k)"
  using line_str [of R BL rope ls k]
  by (simp add: rope_line_slice_def rope_line_str_def rope_line_content_end_def)

lemma total_bytes:
  assumes S: "searched R BL rope ls" and k: "k < length ls"
  shows "rp_len_bytes R rope = bytes_before k ls + length (utf8 (ls ! k)) +
    (if Suc k < length ls then length (utf8 (rows_after k ls)) else 0)"
  using unl_row [OF k] by (simp add: text_len_bytes [OF searched_laws [OF S]] text_unl [OF S] rows_after_def)

lemma byte_row:
  assumes S: "searched R BL rope ls" and k: "k < length ls"
    and b: "bytes_before k ls \<le> b" "b \<le> rp_len_bytes R rope" "Suc k < length ls \<Longrightarrow> b < bytes_before (Suc k) ls"
  shows "BL rope b = Some k"
proof -
  let ?s = "rp_text R rope"
  have n: "length (line_starts ?s) = length ls"
    by (simp add: text_unl [OF S] nlines_unl [OF ls_ok [OF S]] flip: nlines_def)
  have st: "boff ?s (line_starts ?s ! i) = bytes_before i ls" if "i < length ls" for i
    using that boff_start [OF that] by (simp add: text_unl [OF S] lstart_unl [OF ls_ok [OF S]] flip: lstart_def)
  have "{i. i < length (line_starts ?s) \<and> boff ?s (line_starts ?s ! i) \<le> b} = {..k}"
  proof (intro equalityI subsetI)
    fix i assume "i \<in> {i. i < length (line_starts ?s) \<and> boff ?s (line_starts ?s ! i) \<le> b}"
    then have i: "i < length ls" "bytes_before i ls \<le> b" using st by (auto simp: n)
    then show "i \<in> {..k}"
      using b(3) bytes_before_mono [of "Suc k" i ls] by (cases "i \<le> k") auto
  next
    fix i assume "i \<in> {..k}"
    then show "i \<in> {i. i < length (line_starts ?s) \<and> boff ?s (line_starts ?s ! i) \<le> b}"
      using b(1) k bytes_before_mono [of i k ls] st [of i] by (simp add: n)
  qed
  then have "length (filter (\<lambda>st. boff ?s st \<le> b) (line_starts ?s)) = Suc k"
    by (simp add: length_filter_conv_card)
  then show ?thesis
    using searched_BL [OF S] b(2) by (simp add: line_of_byte_def text_len_bytes [OF searched_laws [OF S]])
qed

lemma byte_row_col:
  assumes "searched R BL rope ls" "k < length ls" "b \<le> length (utf8 (ls ! k))"
  shows "BL rope (bytes_before k ls + b) = Some k"
  using assms total_bytes [OF assms(1,2)] bytes_before_Suc [of k ls] by (intro byte_row) auto

text \<open>The position of a byte of a row.\<close>

lemma pos_of_byte:
  assumes S: "searched R BL rope ls" and k: "k < length ls" and b: "b \<le> length (utf8 (ls ! k))"
  shows "pos_at_byte R BL rope (bytes_before k ls + b) =
    Some (Position k (chars_in_bytes (ls ! k) (floor_boundary (utf8 (ls ! k)) b)))"
proof (cases "rp_len_bytes R rope = 0")
  case True
  then have z: "bytes_before k ls = 0" "length (utf8 (ls ! k)) = 0" using total_bytes [OF S k] by auto
  have "k = 0"
  proof (rule ccontr)
    assume "k \<noteq> 0"
    then have "bytes_before (Suc 0) ls \<le> bytes_before k ls" "0 < length ls" using k by (auto intro!: bytes_before_mono)
    then show False using z(1) bytes_before_Suc [of 0 ls] by linarith
  qed
  moreover have "ls ! k = []" using z(2) by (cases "ls ! k") auto
  ultimately show ?thesis using b True by (simp add: pos_at_byte_def Let_def)
next
  case False
  have "min (bytes_before k ls + b) (rp_len_bytes R rope) = bytes_before k ls + b"
    using total_bytes [OF S k] b by simp
  then show ?thesis
    using False b by (simp add: pos_at_byte_def Let_def byte_row_col [OF S k b] line_to_byte [OF S k] line_str [OF S k])
qed

lemma pos_of_boff:
  "searched R BL rope ls \<Longrightarrow> k < length ls \<Longrightarrow> c \<le> length (ls ! k) \<Longrightarrow>
    pos_at_byte R BL rope (bytes_before k ls + boff (ls ! k) c) = Some (Position k c)"
  by (simp add: pos_of_byte floor_boundary_id boundary_boff row_valid chars_in_bytes_boff)

lemma cursor_byte:
  "searched R BL rope ls \<Longrightarrow> k < length ls \<Longrightarrow>
    cursor_byte_offset R rope (Position k c) = Some (bytes_before k ls + boff (ls ! k) c)"
  by (simp add: cursor_byte_offset_def Let_def min_absorb1 row_total line_to_byte line_str position_byte)

section \<open>The place to search from\<close>

text \<open>Behind the cursor: the next char, or the next row; the end of the text is left to itself.\<close>

definition after_pos :: "rstring list \<Rightarrow> position \<Rightarrow> position" where
  "after_pos ls p =
     (if p_col p < length (ls ! p_row p) then Position (p_row p) (p_col p + 1)
      else if Suc (p_row p) < length ls then Position (Suc (p_row p)) 0 else p)"

definition before_pos :: "rstring list \<Rightarrow> position \<Rightarrow> position" where
  "before_pos ls p =
     (if p_col p > 0 then Position (p_row p) (p_col p - 1)
      else if p_row p > 0 then Position (p_row p - 1) (length (ls ! (p_row p - 1)))
      else Position (length ls - 1) (length (last ls)))"

definition in_text :: "rstring list \<Rightarrow> position \<Rightarrow> bool" where
  "in_text ls p \<longleftrightarrow> p_row p < length ls \<and> p_col p \<le> length (ls ! p_row p)"

lemma after_pos_in: "in_text ls p \<Longrightarrow> in_text ls (after_pos ls p)"
  by (auto simp: in_text_def after_pos_def)

lemma before_pos_in: "in_text ls p \<Longrightarrow> in_text ls (before_pos ls p)"
  by (cases ls rule: rev_cases) (auto simp: in_text_def before_pos_def nth_append)

lemma skip_from_after:
  assumes S: "searched R BL rope ls" and p: "in_text ls p"
  shows "skip_from R BL rope p = Some (after_pos ls p)"
proof -
  obtain r c where rc: "p = Position r c" "r < length ls" "c \<le> length (ls ! r)"
    using p by (cases p) (auto simp: in_text_def)
  let ?b = "bytes_before r ls + boff (ls ! r) c"
  have skip: "skip_from R BL rope p = pos_at_byte R BL rope (?b + (if c < length (ls ! r) then length (utf8_char (ls ! r ! c)) else 1))"
    by (simp add: skip_from_def rc cursor_byte [OF S] line_str [OF S])
  consider (inside) "c < length (ls ! r)" | (eol) "c = length (ls ! r)" "Suc r < length ls"
    | (eot) "c = length (ls ! r)" "Suc r = length ls" using rc by linarith
  then show ?thesis
  proof cases
    case inside
    then show ?thesis
      using skip pos_of_boff [OF S rc(2), of "Suc c"] by (simp add: boff_Suc add.assoc after_pos_def rc(1))
  next
    case eol
    then have "?b + 1 = bytes_before (Suc r) ls + boff (ls ! Suc r) 0" using bytes_before_Suc [OF rc(2)] by simp
    then show ?thesis
      using skip eol pos_of_boff [OF S eol(2), of 0] by (simp add: after_pos_def rc(1))
  next
    case eot
    then have tot: "rp_len_bytes R rope = ?b" using total_bytes [OF S rc(2)] by simp
    have "pos_at_byte R BL rope (?b + 1) = pos_at_byte R BL rope ?b"
      by (simp add: pos_at_byte_def tot Let_def)
    then show ?thesis using skip eot pos_of_boff [OF S rc(2,3)] by (simp add: after_pos_def rc(1))
  qed
qed

lemma step_back_before:
  assumes S: "searched R BL rope ls" and p: "in_text ls p"
  obtains cb where "cursor_byte_offset R rope p = Some cb"
    "pos_at_byte R BL rope (if cb = 0 then rp_len_bytes R rope else cb - 1) = Some (before_pos ls p)"
proof -
  obtain r c where rc: "p = Position r c" "r < length ls" "c \<le> length (ls ! r)"
    using p by (cases p) (auto simp: in_text_def)
  let ?b = "bytes_before r ls + boff (ls ! r) c"
  have cb: "cursor_byte_offset R rope p = Some ?b" by (simp add: rc cursor_byte [OF S])
  consider (inside) "c > 0" | (bol) "c = 0" "r > 0" | (bot) "c = 0" "r = 0" by auto
  then have "pos_at_byte R BL rope (if ?b = 0 then rp_len_bytes R rope else ?b - 1) = Some (before_pos ls p)"
  proof cases
    case inside
    then obtain d where d: "c = Suc d" "d < length (ls ! r)" using rc(3) by (cases c) auto
    have lt: "boff (ls ! r) d < boff (ls ! r) c" using d rc(3) by (intro boff_less) auto
    have "floor_boundary (utf8 (ls ! r)) (boff (ls ! r) c - 1) = boff (ls ! r) d"
      using lt d by (intro floor_boundary_inside row_valid [OF S rc(2)]) auto
    moreover have "(if ?b = 0 then rp_len_bytes R rope else ?b - 1) = bytes_before r ls + (boff (ls ! r) c - 1)"
      using lt by auto
    moreover have "boff (ls ! r) c - 1 \<le> length (utf8 (ls ! r))" using boff_le [of "ls ! r" c] by linarith
    ultimately have "pos_at_byte R BL rope (if ?b = 0 then rp_len_bytes R rope else ?b - 1) = Some (Position r d)"
      using pos_of_byte [OF S rc(2), of "boff (ls ! r) c - 1"] chars_in_bytes_boff [of d "ls ! r"] d(2)
      by (simp only: less_imp_le)
    then show ?thesis using d(1) by (simp add: before_pos_def rc(1))
  next
    case bol
    then obtain q where q: "r = Suc q" "q < length ls" using rc(2) by (cases r) auto
    have "bytes_before r ls = bytes_before q ls + length (utf8 (ls ! q)) + 1" using bytes_before_Suc [OF q(2)] q(1) by simp
    then show ?thesis
      using bol q pos_of_boff [OF S q(2), of "length (ls ! q)"] by (simp add: before_pos_def rc(1))
  next
    case bot
    have n: "length ls - 1 < length ls" using some_row [OF S] by simp
    have "rp_len_bytes R rope = bytes_before (length ls - 1) ls + boff (ls ! (length ls - 1)) (length (ls ! (length ls - 1)))"
      using total_bytes [OF S n] by simp
    then show ?thesis
      using bot pos_of_boff [OF S n, of "length (ls ! (length ls - 1))"] some_row [OF S]
      by (simp add: before_pos_def rc(1) rows_before_def last_conv_nth)
  qed
  with cb that show thesis by blast
qed

section \<open>Matches\<close>

text \<open>A place where the regex matches, and a place of its successive matches.\<close>

definition match_start :: "regex \<Rightarrow> rstring \<Rightarrow> nat \<Rightarrow> bool" where
  "match_start re l c \<longleftrightarrow> c \<le> length l \<and> (\<exists>e. re_find_at re l (boff l c) = Some (boff l c, e))"

definition iter_start :: "regex \<Rightarrow> rstring \<Rightarrow> nat \<Rightarrow> bool" where
  "iter_start re l c \<longleftrightarrow> c \<le> length l \<and> (\<exists>e. (boff l c, e) \<in> set (re_find_iter re l))"

definition match_at :: "regex \<Rightarrow> rstring list \<Rightarrow> position \<Rightarrow> bool" where
  "match_at re ls p \<longleftrightarrow> p_row p < length ls \<and> match_start re (ls ! p_row p) (p_col p)"

definition iter_at :: "regex \<Rightarrow> rstring list \<Rightarrow> position \<Rightarrow> bool" where
  "iter_at re ls p \<longleftrightarrow> p_row p < length ls \<and> iter_start re (ls ! p_row p) (p_col p)"

lemma match_at_in: "match_at re ls p \<Longrightarrow> in_text ls p"
  and iter_at_in: "iter_at re ls p \<Longrightarrow> in_text ls p"
  by (simp_all add: match_at_def match_start_def iter_at_def iter_start_def in_text_def)

lemma regex_lawsD:
  assumes "regex_laws re"
  shows find_at_ok: "re_find_at re l i = Some m \<Longrightarrow> i \<le> fst m \<and> match_ok l m"
    and find_at_up_to: "re_find_at re l i = Some m \<Longrightarrow> i \<le> j \<Longrightarrow> j \<le> fst m \<Longrightarrow> re_find_at re l j = Some m"
    and find_at_none_from: "re_find_at re l i = None \<Longrightarrow> i \<le> j \<Longrightarrow> re_find_at re l j = None"
    and iter_sorted: "sorted_wrt (<) (map fst (re_find_iter re l))"
    and iter_ok: "m \<in> set (re_find_iter re l) \<Longrightarrow> match_ok l m"
  using assms unfolding regex_laws_def by blast+

lemma match_ok_cols:
  assumes "valid_str l" "match_ok l m"
  obtains c d where "c \<le> length l" "d \<le> length l" "m = (boff l c, boff l d)"
  using assms boundary_iff_boff [OF assms(1), of "fst m"] boundary_iff_boff [OF assms(1), of "snd m"]
  by (cases m) (auto simp: match_ok_def)

lemma range_cols:
  "valid_str l \<Longrightarrow> c \<le> length l \<Longrightarrow> d \<le> length l \<Longrightarrow>
    byte_range_to_pos_range r (boff l c) r (boff l d) l = Some (Position r c, Position r d)"
  by (simp add: byte_range_to_pos_range_def slice_chars_boff)

text \<open>The first match of a line from a column on.\<close>

lemma find_at_cases:
  assumes re: "regex_laws re" and l: "valid_str l" and c: "c \<le> length l"
  obtains (none) "re_find_at re l (boff l c) = None" "\<And>x. c \<le> x \<Longrightarrow> \<not> match_start re l x"
  | (some) d e where "re_find_at re l (boff l c) = Some (boff l d, boff l e)" "e \<le> length l"
      "c \<le> d" "match_start re l d" "\<And>x. c \<le> x \<Longrightarrow> match_start re l x \<Longrightarrow> d \<le> x"
proof (cases "re_find_at re l (boff l c)")
  case None
  then have "re_find_at re l (boff l x) = None" if "c \<le> x" for x
    using find_at_none_from [OF re None] boff_mono [OF that] by blast
  with None show thesis by (intro none) (auto simp: match_start_def)
next
  case (Some m)
  obtain d e where de: "d \<le> length l" "e \<le> length l" "m = (boff l d, boff l e)"
    using match_ok_cols [OF l] find_at_ok [OF re Some] by blast
  have "boff l c \<le> boff l d" using find_at_ok [OF re Some] de(3) by simp
  then have cd: "c \<le> d" using boff_order [OF c de(1)] by simp
  have "match_start re l d"
    using find_at_up_to [OF re Some, of "boff l d"] de boff_mono [OF cd] by (auto simp: match_start_def)
  moreover have "d \<le> x" if x: "c \<le> x" "match_start re l x" for x
  proof (rule ccontr)
    assume "\<not> d \<le> x"
    then have "boff l x < boff l d" using de(1) by (intro boff_less) auto
    then have "re_find_at re l (boff l x) = Some m" using find_at_up_to [OF re Some] boff_mono [OF x(1)] de(3) by simp
    then show False using x(2) de(3) \<open>boff l x < boff l d\<close> by (auto simp: match_start_def)
  qed
  ultimately show thesis using Some de cd by (intro some [of d e]) auto
qed

section \<open>The walk down the rows\<close>

definition least_pos :: "(position \<Rightarrow> bool) \<Rightarrow> position \<Rightarrow> bool" where
  "least_pos P p \<longleftrightarrow> P p \<and> (\<forall>q. P q \<longrightarrow> p \<le> q)"

definition next_around :: "(position \<Rightarrow> bool) \<Rightarrow> (position \<Rightarrow> bool) \<Rightarrow> position \<Rightarrow> bool" where
  "next_around P behind p \<longleftrightarrow>
     (if \<exists>q. P q \<and> behind q then least_pos (\<lambda>q. P q \<and> behind q) p else least_pos P p)"

lemma mod_row_less: "0 < k \<Longrightarrow> k < n \<Longrightarrow> r < n \<Longrightarrow> (r + k) mod n \<noteq> (r :: nat)"
  by (cases "r + k < n") (auto simp: le_mod_geq)

lemma next_walk:
  assumes S: "searched R BL rope ls" and re: "regex_laws re" and r: "r < length ls" and k: "0 < k" "k \<le> length ls"
  shows "(\<exists>j d e. k \<le> j \<and> j \<le> length ls \<and> (\<forall>i x. k \<le> i \<and> i < j \<longrightarrow> \<not> match_start re (ls ! ((r + i) mod length ls)) x) \<and>
      match_start re (ls ! ((r + j) mod length ls)) d \<and>
      (\<forall>x. match_start re (ls ! ((r + j) mod length ls)) x \<longrightarrow> d \<le> x) \<and>
      next_rows_walk R re rope r (length ls) [k..<Suc (length ls)] = Some (Some (Position ((r + j) mod length ls) d, e))) \<or>
    (\<forall>i x. k \<le> i \<and> i \<le> length ls \<longrightarrow> \<not> match_start re (ls ! ((r + i) mod length ls)) x) \<and>
      next_rows_walk R re rope r (length ls) [k..<Suc (length ls)] = Some None"
  (is "?found k \<or> ?none k")
  using k(2,1)
proof (induction k rule: inc_induct)
  case base
  let ?l = "ls ! r"
  have m: "(r + length ls) mod length ls = r" using r by simp
  have m': "(r + i) mod length ls = r" if "length ls \<le> i" "i \<le> length ls" for i using m that by (metis le_antisym)
  have u: "[length ls..<Suc (length ls)] = [length ls]" by simp
  have v: "valid_str ?l" by (rule row_valid [OF S r])
  show ?case
  proof (cases rule: find_at_cases [OF re v, of 0, simplified])
    case 1
    then have "next_rows_walk R re rope r (length ls) [length ls..<Suc (length ls)] = Some None"
      using m by (simp add: u line_slice [OF S r] re_find_def)
    moreover have "\<not> match_start re (ls ! ((r + i) mod length ls)) x" if "length ls \<le> i" "i \<le> length ls" for i x
      using 1(2) m' [OF that] by metis
    ultimately have "?none (length ls)" by blast
    then show ?thesis by blast
  next
    case (2 d e)
    then have "d \<le> length ?l" by (simp add: match_start_def)
    then have "next_rows_walk R re rope r (length ls) [length ls..<Suc (length ls)] = Some (Some (Position r d, Position r e))"
      using 2(1,2) m by (simp add: u line_slice [OF S r] re_find_def range_cols [OF v])
    then show ?thesis using 2 m by (intro disjI1 exI [of _ "length ls"] exI [of _ d] exI [of _ "Position r e"]) auto
  qed
next
  case (step k)
  let ?r = "(r + k) mod length ls"
  have r': "?r < length ls" using r by (intro mod_less_divisor) linarith
  have v: "valid_str (ls ! ?r)" by (rule row_valid [OF S r'])
  have u: "[k..<Suc (length ls)] = k # [Suc k..<Suc (length ls)]" using step.hyps by (simp add: upt_conv_Cons)
  show ?case
  proof (cases rule: find_at_cases [OF re v, of 0, simplified])
    case 1
    have "?r \<noteq> r" using mod_row_less [of k "length ls" r] step.hyps step.prems r by auto
    then have w: "next_rows_walk R re rope r (length ls) [k..<Suc (length ls)] =
        next_rows_walk R re rope r (length ls) [Suc k..<Suc (length ls)]"
      unfolding u using 1 by (simp add: line_slice [OF S r'] re_find_def del: upt_Suc)
    have split: "k \<le> i \<longleftrightarrow> i = k \<or> Suc k \<le> i" for i by auto
    from step.IH consider (a) "?found (Suc k)" | (b) "?none (Suc k)" by auto
    then show ?thesis
    proof cases
      case a
      then obtain j d e where j: "Suc k \<le> j" "j \<le> length ls" "\<forall>i x. Suc k \<le> i \<and> i < j \<longrightarrow> \<not> match_start re (ls ! ((r + i) mod length ls)) x"
        "match_start re (ls ! ((r + j) mod length ls)) d" "\<forall>x. match_start re (ls ! ((r + j) mod length ls)) x \<longrightarrow> d \<le> x"
        "next_rows_walk R re rope r (length ls) [Suc k..<Suc (length ls)] = Some (Some (Position ((r + j) mod length ls) d, e))"
        by blast
      then have "?found k" using 1(2) w by (intro exI [of _ j] exI [of _ d] exI [of _ e]) (auto simp: split simp del: upt_Suc)
      then show ?thesis by blast
    next
      case b
      then have "?none k" using 1(2) w by (auto simp: split simp del: upt_Suc)
      then show ?thesis by blast
    qed
  next
    case (2 d e)
    then have "d \<le> length (ls ! ?r)" by (simp add: match_start_def)
    then have "next_rows_walk R re rope r (length ls) [k..<Suc (length ls)] = Some (Some (Position ?r d, Position ?r e))"
      unfolding u using 2(1,2) by (simp add: line_slice [OF S r'] re_find_def range_cols [OF v] Let_def del: upt_Suc)
    then have "?found k"
      using 2 step.hyps by (intro exI [of _ k] exI [of _ d] exI [of _ "Position ?r e"]) auto
    then show ?thesis by blast
  qed
qed

lemma pos_le: "p \<le> q \<longleftrightarrow> p_row p < p_row q \<or> p_row p = p_row q \<and> p_col p \<le> p_col q"
  by (simp add: less_eq_position_def)

text \<open>From a place of the text \<open>find_next\<close> finds the next match, around the end of the text.\<close>

lemma find_next_around:
  assumes S: "searched R BL rope ls" and re: "regex_laws re" and f: "in_text ls f"
  shows "(\<exists>p e. find_next R re rope f = Some (Some (p, e)) \<and> next_around (match_at re ls) (\<lambda>q. f \<le> q) p) \<or>
    find_next R re rope f = Some None \<and> (\<forall>p. \<not> match_at re ls p)"
proof -
  obtain r c where rc: "f = Position r c" "r < length ls" "c \<le> length (ls ! r)" using f by (cases f) (auto simp: in_text_def)
  let ?l = "ls ! r"
  have v: "valid_str ?l" by (rule row_valid [OF S rc(2)])
  have unfold: "find_next R re rope f = (case re_find_at re ?l (boff ?l c) of
      Some (s, e) \<Rightarrow> map_option Some (byte_range_to_pos_range r s r e ?l)
    | None \<Rightarrow> next_rows_walk R re rope r (length ls) [1..<Suc (length ls)])"
    using some_row [OF S] by (simp add: find_next_def Let_def row_total [OF S] rc line_slice [OF S rc(2)] position_byte min_absorb1 cong: option.case_cong del: upt_Suc)
  show ?thesis
  proof (cases rule: find_at_cases [OF re v rc(3)])
    case (2 d e)
    let ?p = "Position r d"
    have "find_next R re rope f = Some (Some (?p, Position r e))"
      using 2 by (simp add: unfold range_cols [OF v] match_start_def)
    moreover have "match_at re ls ?p \<and> f \<le> ?p" using 2 rc by (simp add: match_at_def pos_le)
    moreover have "?p \<le> q" if "match_at re ls q" "f \<le> q" for q
      using that 2(5) [of "p_col q"] by (auto simp: match_at_def pos_le rc(1))
    ultimately show ?thesis by (intro disjI1) (auto simp: next_around_def least_pos_def)
  next
    case 1
    let ?n = "length ls"
    have w: "find_next R re rope f = next_rows_walk R re rope r ?n [1..<Suc ?n]" using 1(1) unfold by simp
    have n: "0 < ?n" using rc(2) by linarith
    have up: "\<exists>i. 1 \<le> i \<and> i \<le> ?n \<and> (r + i) mod ?n = k \<and> (k > r \<longrightarrow> i = k - r) \<and> (k \<le> r \<longrightarrow> i = k + ?n - r)" if "k < ?n" for k
    proof (cases "k > r")
      case True
      then show ?thesis using that by (intro exI [of _ "k - r"]) auto
    next
      case False
      then have "(r + (k + ?n - r)) mod ?n = k" using that rc(2) by simp
      then show ?thesis using that False rc(2) by (intro exI [of _ "k + ?n - r"]) auto
    qed
    from next_walk [OF S re rc(2), of 1] n consider
      (found) j d e where "1 \<le> j" "j \<le> ?n" "\<And>i x. 1 \<le> i \<Longrightarrow> i < j \<Longrightarrow> \<not> match_start re (ls ! ((r + i) mod ?n)) x"
        "match_start re (ls ! ((r + j) mod ?n)) d" "\<And>x. match_start re (ls ! ((r + j) mod ?n)) x \<Longrightarrow> d \<le> x"
        "find_next R re rope f = Some (Some (Position ((r + j) mod ?n) d, e))"
      | (none) "\<And>i x. 1 \<le> i \<Longrightarrow> i \<le> ?n \<Longrightarrow> \<not> match_start re (ls ! ((r + i) mod ?n)) x" "find_next R re rope f = Some None"
      unfolding w by (simp del: upt_Suc) blast
    then show ?thesis
    proof cases
      case none
      have "\<not> match_at re ls p" for p
      proof
        assume m: "match_at re ls p"
        then obtain i where "1 \<le> i" "i \<le> ?n" "(r + i) mod ?n = p_row p" using up [of "p_row p"] by (auto simp: match_at_def)
        then show False using none(1) [of i "p_col p"] m by (simp add: match_at_def)
      qed
      then show ?thesis using none(2) by blast
    next
      case found
      let ?p = "Position ((r + j) mod ?n) d"
      have P: "match_at re ls ?p" using found(4) n by (simp add: match_at_def)
      have before: "j \<le> i" if "match_at re ls q" "1 \<le> i" "(r + i) mod ?n = p_row q" for q i
        using found(3) [of i "p_col q"] that by (auto simp: match_at_def not_less [symmetric])
      have same_row: "?p \<le> q" if "match_at re ls q" "p_row q = (r + j) mod ?n" for q
        using that found(5) [of "p_col q"] by (auto simp: match_at_def pos_le)
      have behind: "p_row q > r" if "match_at re ls q" "f \<le> q" for q
        using that 1(2) [of "p_col q"] by (auto simp: match_at_def pos_le rc(1))
      show ?thesis
      proof (cases "r + j < ?n")
        case True
        have "f \<le> ?p" using True found(1) by (simp add: pos_le rc(1))
        moreover have "?p \<le> q" if q: "match_at re ls q" "f \<le> q" for q
        proof -
          have "j \<le> p_row q - r" using before [OF q(1), of "p_row q - r"] behind [OF q] q(1) by (simp add: match_at_def)
          then show ?thesis using same_row [OF q(1)] True behind [OF q] by (cases "p_row q = r + j") (auto simp: pos_le)
        qed
        ultimately show ?thesis using found(6) P by (intro disjI1 exI) (auto simp: next_around_def least_pos_def)
      next
        case False
        then have row: "(r + j) mod ?n = r + j - ?n" using found(2) rc(2) by (simp add: le_mod_geq)
        have "\<not> f \<le> q" if q: "match_at re ls q" for q
        proof
          assume "f \<le> q"
          then have "r < p_row q" "p_row q < ?n" using behind [OF q] q by (auto simp: match_at_def)
          moreover from this have "j \<le> p_row q - r" using before [OF q, of "p_row q - r"] by simp
          ultimately show False using False by linarith
        qed
        moreover have "?p \<le> q" if q: "match_at re ls q" for q
        proof -
          have "p_row q < ?n" using q by (simp add: match_at_def)
          moreover have "p_row q \<le> r"
          proof (rule ccontr)
            assume a: "\<not> p_row q \<le> r"
            then have "j \<le> p_row q - r" using before [OF q, of "p_row q - r"] \<open>p_row q < ?n\<close> by simp
            then show False using False a \<open>p_row q < ?n\<close> by linarith
          qed
          ultimately have "j \<le> p_row q + ?n - r" using before [OF q, of "p_row q + ?n - r"] rc(2) by simp
          then have "(r + j) mod ?n \<le> p_row q" using row False rc(2) by linarith
          then show ?thesis using same_row [OF q] by (cases "p_row q = (r + j) mod ?n") (auto simp: pos_le)
        qed
        ultimately show ?thesis using found(6) P by (intro disjI1 exI) (auto simp: next_around_def least_pos_def)
      qed
    qed
  qed
qed

section \<open>\<open>n\<close>\<close>

lemma set_cursor_in:
  assumes S: "searched R BL (view_rope v) ls" and p: "in_text ls p"
  obtains v' where "set_cursor R p v = Some v'" "v_cursor v' = p" "view_rope v' = view_rope v"
proof -
  have "pos_ok (unl ls) p"
    using p by (simp add: in_text_def pos_ok_def nlines_unl [OF ls_ok [OF S]] row_chars_unl [OF ls_ok [OF S]])
  then have "clampp (unl ls) p = p" by (rule clampp_id)
  then show thesis
    using that by (simp add: set_cursor_text [OF searched_laws [OF S]] text_unl [OF S])
qed

lemma next_around_pred: "next_around P b p \<Longrightarrow> P p"
  by (auto simp: next_around_def least_pos_def split: if_splits)

text \<open>Searching on from a place of the text with the wrap policy of \<open>n\<close>.\<close>

definition moved_to :: "position \<Rightarrow> 'r view \<Rightarrow> bool \<Rightarrow> 'r view \<Rightarrow> bool" where
  "moved_to p v found v' \<longleftrightarrow> found \<and> v_cursor v' = p \<and> view_rope v' = view_rope v"

definition at_end :: "rstring list \<Rightarrow> position \<Rightarrow> bool" where
  "at_end ls p \<longleftrightarrow> Suc (p_row p) = length ls \<and> p_col p = length (ls ! p_row p)"

lemma after_pos_iff:
  assumes "in_text ls p" "\<not> at_end ls p" "in_text ls q"
  shows "after_pos ls p \<le> q \<longleftrightarrow> p < q"
proof -
  obtain r c where p: "p = Position r c" by (cases p)
  have "p < q \<longleftrightarrow> r < p_row q \<or> r = p_row q \<and> c < p_col q" by (simp add: p less_le_not_le pos_le) auto
  then show ?thesis using assms by (auto simp: p after_pos_def at_end_def in_text_def pos_le)
qed

lemma n_finds_next:
  assumes S: "searched R BL (view_rope v) ls" and re: "regex_laws re" "ss_pattern st = Some re"
    and c: "in_text ls (v_cursor v)" "\<not> (at_end ls (v_cursor v) \<and> match_at re ls (v_cursor v))"
  shows "\<exists>found v'. search_forward R BL st True v = Some (found, v') \<and>
    (if \<forall>p. \<not> match_at re ls p then \<not> found \<and> v' = v
     else \<exists>p. next_around (match_at re ls) (\<lambda>q. v_cursor v < q) p \<and>
       (if \<not> ss_wrap_around st \<and> p_row p < p_row (v_cursor v) then \<not> found \<and> v' = v else moved_to p v found v'))"
proof -
  let ?f = "after_pos ls (v_cursor v)"
  have unfold: "search_forward R BL st True v = (case find_next R re (view_rope v) ?f of None \<Rightarrow> None
    | Some None \<Rightarrow> Some (False, v)
    | Some (Some (s, e)) \<Rightarrow> if \<not> ss_wrap_around st \<and> p_row s < p_row (v_cursor v) then Some (False, v)
        else map_option (Pair True) (set_cursor R s v))"
    using some_row [OF S] by (simp add: search_forward_def re(2) Let_def row_total [OF S] skip_from_after [OF S c(1)]
        split: option.splits prod.splits bind_splits)
  have eq: "next_around (match_at re ls) (\<lambda>q. ?f \<le> q) p = next_around (match_at re ls) (\<lambda>q. v_cursor v < q) p" for p
  proof -
    have "(match_at re ls q \<and> ?f \<le> q) = (match_at re ls q \<and> v_cursor v < q)" for q
    proof (cases "at_end ls (v_cursor v)")
      case True
      then have "?f = v_cursor v" by (auto simp: after_pos_def at_end_def)
      then show ?thesis using c(2) True by (auto simp: le_less)
    next
      case False
      then show ?thesis using after_pos_iff [OF c(1) False, of q] match_at_in [of re ls q] by blast
    qed
    then show ?thesis by (auto simp: next_around_def)
  qed
  from find_next_around [OF S re(1) after_pos_in [OF c(1)]] consider
    (found) p e where "find_next R re (view_rope v) ?f = Some (Some (p, e))" "next_around (match_at re ls) (\<lambda>q. v_cursor v < q) p"
    | (none) "find_next R re (view_rope v) ?f = Some None" "\<forall>p. \<not> match_at re ls p" by (auto simp: eq)
  then show ?thesis
  proof cases
    case found
    obtain v' where "set_cursor R p v = Some v'" "v_cursor v' = p" "view_rope v' = view_rope v"
      using set_cursor_in [OF S match_at_in [OF next_around_pred [OF found(2)]]] .
    then show ?thesis
      using found next_around_pred [OF found(2)] by (auto simp: unfold moved_to_def)
  next
    case none
    then show ?thesis by (intro exI [of _ False] exI [of _ v]) (simp add: unfold)
  qed
qed

text \<open>At the end of the text the search begins where it stands: a match there is found again.\<close>

lemma n_stuck_at_end:
  assumes S: "searched R BL (view_rope v) ls" and re: "regex_laws re" "ss_pattern st = Some re"
    and c: "in_text ls (v_cursor v)" "at_end ls (v_cursor v)" "match_at re ls (v_cursor v)"
  shows "\<exists>v'. search_forward R BL st True v = Some (True, v') \<and> v_cursor v' = v_cursor v"
proof -
  let ?p = "v_cursor v"
  have f: "after_pos ls ?p = ?p" using c(2) by (auto simp: after_pos_def at_end_def)
  from find_next_around [OF S re(1) c(1)] obtain p e where
    p: "find_next R re (view_rope v) ?p = Some (Some (p, e))" "next_around (match_at re ls) (\<lambda>q. ?p \<le> q) p"
    using c(3) by auto
  then have "p = ?p" using c(3) by (auto simp: next_around_def least_pos_def split: if_splits)
  obtain v' where "set_cursor R ?p v = Some v'" "v_cursor v' = ?p" using set_cursor_in [OF S c(1)] .
  then show ?thesis
    using some_row [OF S] p(1) \<open>p = ?p\<close>
    by (simp add: search_forward_def re(2) Let_def row_total [OF S] skip_from_after [OF S c(1)] f)
qed

section \<open>The walk up the rows\<close>

definition greatest_pos :: "(position \<Rightarrow> bool) \<Rightarrow> position \<Rightarrow> bool" where
  "greatest_pos P p \<longleftrightarrow> P p \<and> (\<forall>q. P q \<longrightarrow> q \<le> p)"

definition prev_around :: "(position \<Rightarrow> bool) \<Rightarrow> (position \<Rightarrow> bool) \<Rightarrow> position \<Rightarrow> bool" where
  "prev_around P front p \<longleftrightarrow>
     (if \<exists>q. P q \<and> front q then greatest_pos (\<lambda>q. P q \<and> front q) p else greatest_pos P p)"

definition row_up :: "nat \<Rightarrow> nat \<Rightarrow> nat \<Rightarrow> nat" where
  "row_up n r j = (if j > r then n - (j - r) else r - j)"

lemma last_sorted:
  "sorted_wrt (<) (map fst ms) \<Longrightarrow> m \<in> set ms \<Longrightarrow> fst m \<le> (fst (last ms) :: nat)"
  by (induction ms) (auto split: if_splits dest: bspec [OF _ last_in_set])

lemma last_take_sorted:
  assumes "sorted_wrt (<) (map fst ms)" "takeWhile (\<lambda>m. fst m \<le> b) ms \<noteq> []"
  shows "last (takeWhile (\<lambda>m. fst m \<le> b) ms) \<in> set ms" "fst (last (takeWhile (\<lambda>m. fst m \<le> b) ms)) \<le> b"
    "m \<in> set ms \<Longrightarrow> fst m \<le> b \<Longrightarrow> fst m \<le> (fst (last (takeWhile (\<lambda>m. fst m \<le> b) ms)) :: nat)"
proof -
  let ?t = "takeWhile (\<lambda>m. fst m \<le> b) ms"
  have l: "last ?t \<in> set ?t" using assms(2) by simp
  then show "last ?t \<in> set ms" "fst (last ?t) \<le> b" by (auto dest: set_takeWhileD)
  assume m: "m \<in> set ms" "fst m \<le> b"
  have "m \<in> set ?t"
    using assms(1) m by (induction ms) (auto dest!: less_imp_le intro: order_trans)
  moreover have "sorted_wrt (<) (map fst ?t)"
    using assms(1) by (metis sorted_wrt_append takeWhile_dropWhile_id map_append)
  ultimately show "fst m \<le> fst (last ?t)" by (intro last_sorted)
qed

lemma iter_cases:
  assumes re: "regex_laws re" and l: "valid_str l"
  obtains (none) "re_find_iter re l = []" "\<And>x. \<not> iter_start re l x"
  | (some) d e where "re_find_iter re l \<noteq> []" "last (re_find_iter re l) = (boff l d, boff l e)" "e \<le> length l"
      "iter_start re l d" "\<And>x. iter_start re l x \<Longrightarrow> x \<le> d"
proof (cases "re_find_iter re l = []")
  case True
  then show thesis by (intro none) (auto simp: iter_start_def)
next
  case False
  let ?m = "last (re_find_iter re l)"
  have m: "?m \<in> set (re_find_iter re l)" using False by simp
  obtain d e where de: "d \<le> length l" "e \<le> length l" "?m = (boff l d, boff l e)"
    using match_ok_cols [OF l iter_ok [OF re m]] .
  have "x \<le> d" if "iter_start re l x" for x
    using that last_sorted [OF iter_sorted [OF re]] de boff_order [of x l d] by (fastforce simp: iter_start_def)
  then show thesis using False de m by (intro some [of d e]) (auto simp: iter_start_def)
qed

lemma iter_up_to_cases:
  assumes re: "regex_laws re" and l: "valid_str l" and c: "c \<le> length l"
  defines "t \<equiv> takeWhile (\<lambda>m. fst m \<le> boff l c) (re_find_iter re l)"
  obtains (none) "t = []" "\<And>x. x \<le> c \<Longrightarrow> \<not> iter_start re l x"
  | (some) d e where "t \<noteq> []" "last t = (boff l d, boff l e)" "e \<le> length l" "d \<le> c"
      "iter_start re l d" "\<And>x. iter_start re l x \<Longrightarrow> x \<le> c \<Longrightarrow> x \<le> d"
proof (cases "t = []")
  case True
  have "\<not> iter_start re l x" if "x \<le> c" for x
  proof
    assume "iter_start re l x"
    then obtain e where e: "(boff l x, e) \<in> set (re_find_iter re l)" by (auto simp: iter_start_def)
    then obtain m ms where ms: "re_find_iter re l = m # ms" by (cases "re_find_iter re l") auto
    have "fst m \<le> boff l x" using e iter_sorted [OF re, of l] by (auto simp: ms less_imp_le)
    then show False using True boff_mono [OF that, of l] by (auto simp: t_def ms split: if_splits)
  qed
  with True show thesis by (rule none)
next
  case False
  note last = last_take_sorted [OF iter_sorted [OF re] False [unfolded t_def], folded t_def]
  obtain d e where de: "d \<le> length l" "e \<le> length l" "last t = (boff l d, boff l e)"
    using match_ok_cols [OF l iter_ok [OF re last(1)]] .
  have "d \<le> c" using last(2) de boff_order [OF de(1) c] by simp
  moreover have "x \<le> d" if x: "iter_start re l x" "x \<le> c" for x
  proof -
    obtain e' where "(boff l x, e') \<in> set (re_find_iter re l)" using x(1) by (auto simp: iter_start_def)
    then have "boff l x \<le> boff l d" using last(3) [of "(boff l x, e')"] boff_mono [OF x(2), of l] de(3) by simp
    then show ?thesis using boff_order [of x l d] de(1) x(1) by (simp add: iter_start_def)
  qed
  ultimately show thesis
    using False de last(1) by (intro some [of d e]) (auto simp: iter_start_def)
qed

lemma row_up_less: "r < n \<Longrightarrow> 0 < j \<Longrightarrow> j \<le> n \<Longrightarrow> row_up n r j < n"
  by (auto simp: row_up_def)

lemma prev_walk:
  assumes S: "searched R BL rope ls" and re: "regex_laws re" and r: "r < length ls" and k: "0 < k" "k \<le> length ls"
  shows "(\<exists>j d e. k \<le> j \<and> j \<le> length ls \<and> (\<forall>i x. k \<le> i \<and> i < j \<longrightarrow> \<not> iter_start re (ls ! row_up (length ls) r i) x) \<and>
      iter_start re (ls ! row_up (length ls) r j) d \<and>
      (\<forall>x. iter_start re (ls ! row_up (length ls) r j) x \<longrightarrow> x \<le> d) \<and>
      prev_rows_walk R re rope r (length ls) [k..<Suc (length ls)] = Some (Some (Position (row_up (length ls) r j) d, e))) \<or>
    (\<forall>i x. k \<le> i \<and> i \<le> length ls \<longrightarrow> \<not> iter_start re (ls ! row_up (length ls) r i) x) \<and>
      prev_rows_walk R re rope r (length ls) [k..<Suc (length ls)] = Some None"
  (is "?found k \<or> ?none k")
  using k(2,1)
proof (induction k rule: inc_induct)
  case base
  let ?l = "ls ! r"
  have m: "row_up (length ls) r i = r" if "length ls \<le> i" "i \<le> length ls" for i
    using r that le_antisym [of i "length ls"] by (simp add: row_up_def)
  have u: "[length ls..<Suc (length ls)] = [length ls]" by simp
  have v: "valid_str ?l" by (rule row_valid [OF S r])
  show ?case
  proof (cases rule: iter_cases [OF re v])
    case 1
    then have "prev_rows_walk R re rope r (length ls) [length ls..<Suc (length ls)] = Some None"
      using r by (simp add: u line_slice [OF S r] Let_def)
    moreover have "\<not> iter_start re (ls ! row_up (length ls) r i) x" if "length ls \<le> i" "i \<le> length ls" for i x
      using 1(2) m [OF that] by simp
    ultimately have "?none (length ls)" by blast
    then show ?thesis by blast
  next
    case (2 d e)
    then have "d \<le> length ?l" by (simp add: iter_start_def)
    then have "prev_rows_walk R re rope r (length ls) [length ls..<Suc (length ls)] = Some (Some (Position r d, Position r e))"
      using 2(1-3) r by (cases "re_find_iter re ?l") (simp_all add: u line_slice [OF S r] Let_def range_cols [OF v])
    then show ?thesis
      using 2 m by (intro disjI1 exI [of _ "length ls"] exI [of _ d] exI [of _ "Position r e"]) auto
  qed
next
  case (step k)
  let ?r = "row_up (length ls) r k"
  have r': "?r < length ls" using r step.hyps step.prems by (intro row_up_less) auto
  have v: "valid_str (ls ! ?r)" by (rule row_valid [OF S r'])
  have u: "[k..<Suc (length ls)] = k # [Suc k..<Suc (length ls)]" using step.hyps by (simp add: upt_conv_Cons)
  have ru: "?r = (if k > r then length ls - (k - r) else r - k)" by (simp add: row_up_def)
  show ?case
  proof (cases rule: iter_cases [OF re v])
    case 1
    have "?r \<noteq> r" using step.hyps step.prems r by (auto simp: row_up_def)
    then have w: "prev_rows_walk R re rope r (length ls) [k..<Suc (length ls)] =
        prev_rows_walk R re rope r (length ls) [Suc k..<Suc (length ls)]"
      unfolding u using 1 by (simp add: Let_def line_slice [OF S r'] del: upt_Suc flip: ru)
    have split: "k \<le> i \<longleftrightarrow> i = k \<or> Suc k \<le> i" for i by auto
    from step.IH consider (a) "?found (Suc k)" | (b) "?none (Suc k)" by auto
    then show ?thesis
    proof cases
      case a
      then obtain j d e where j: "Suc k \<le> j" "j \<le> length ls" "\<forall>i x. Suc k \<le> i \<and> i < j \<longrightarrow> \<not> iter_start re (ls ! row_up (length ls) r i) x"
        "iter_start re (ls ! row_up (length ls) r j) d" "\<forall>x. iter_start re (ls ! row_up (length ls) r j) x \<longrightarrow> x \<le> d"
        "prev_rows_walk R re rope r (length ls) [Suc k..<Suc (length ls)] = Some (Some (Position (row_up (length ls) r j) d, e))"
        by blast
      then have "?found k" using 1(2) w by (intro exI [of _ j] exI [of _ d] exI [of _ e]) (auto simp: split simp del: upt_Suc)
      then show ?thesis by blast
    next
      case b
      then have "?none k" using 1(2) w by (auto simp: split simp del: upt_Suc)
      then show ?thesis by blast
    qed
  next
    case (2 d e)
    then have "d \<le> length (ls ! ?r)" by (simp add: iter_start_def)
    then have "prev_rows_walk R re rope r (length ls) [k..<Suc (length ls)] = Some (Some (Position ?r d, Position ?r e))"
      unfolding u using 2(1-3)
      by (cases "re_find_iter re (ls ! ?r)") (simp_all add: Let_def line_slice [OF S r'] range_cols [OF v] del: upt_Suc flip: ru)
    then have "?found k"
      using 2 step.hyps by (intro exI [of _ k] exI [of _ d] exI [of _ "Position ?r e"]) auto
    then show ?thesis by blast
  qed
qed

lemma find_prev_around:
  assumes S: "searched R BL rope ls" and re: "regex_laws re" and f: "in_text ls f"
  shows "(\<exists>p e. find_prev R re rope f = Some (Some (p, e)) \<and> prev_around (iter_at re ls) (\<lambda>q. q \<le> f) p) \<or>
    find_prev R re rope f = Some None \<and> (\<forall>p. \<not> iter_at re ls p)"
proof -
  obtain r c where rc: "f = Position r c" "r < length ls" "c \<le> length (ls ! r)" using f by (cases f) (auto simp: in_text_def)
  let ?l = "ls ! r" and ?n = "length ls"
  let ?t = "takeWhile (\<lambda>m. fst m \<le> boff ?l c) (re_find_iter re ?l)"
  have v: "valid_str ?l" by (rule row_valid [OF S rc(2)])
  have unfold: "find_prev R re rope f = (case ?t of
      [] \<Rightarrow> prev_rows_walk R re rope r ?n [1..<Suc ?n]
    | ms \<Rightarrow> map_option Some (byte_range_to_pos_range r (fst (last ms)) r (snd (last ms)) ?l))"
    using some_row [OF S] by (simp add: find_prev_def Let_def row_total [OF S] rc line_slice [OF S rc(2)] position_byte min_absorb1
        cong: list.case_cong del: upt_Suc)
  show ?thesis
  proof (cases rule: iter_up_to_cases [OF re v rc(3)])
    case (2 d e)
    let ?p = "Position r d"
    have "find_prev R re rope f = Some (Some (?p, Position r e))"
      using 2 by (cases ?t) (simp_all add: unfold range_cols [OF v] iter_start_def)
    moreover have "iter_at re ls ?p \<and> ?p \<le> f" using 2 rc by (simp add: iter_at_def pos_le)
    moreover have "q \<le> ?p" if "iter_at re ls q" "q \<le> f" for q
      using that 2(6) [of "p_col q"] by (auto simp: iter_at_def pos_le rc(1))
    ultimately show ?thesis by (intro disjI1) (auto simp: prev_around_def greatest_pos_def)
  next
    case 1
    have w: "find_prev R re rope f = prev_rows_walk R re rope r ?n [1..<Suc ?n]" using 1(1) unfold by simp
    have n: "0 < ?n" using rc(2) by linarith
    define ix where "ix k = (if k < r then r - k else r + ?n - k)" for k
    have up: "1 \<le> ix k" "ix k \<le> ?n" "row_up ?n r (ix k) = k" if "k < ?n" for k
      using that rc(2) by (auto simp: ix_def row_up_def)
    from prev_walk [OF S re rc(2), of 1] n consider
      (found) j d e where "1 \<le> j" "j \<le> ?n" "\<And>i x. 1 \<le> i \<Longrightarrow> i < j \<Longrightarrow> \<not> iter_start re (ls ! row_up ?n r i) x"
        "iter_start re (ls ! row_up ?n r j) d" "\<And>x. iter_start re (ls ! row_up ?n r j) x \<Longrightarrow> x \<le> d"
        "find_prev R re rope f = Some (Some (Position (row_up ?n r j) d, e))"
      | (none) "\<And>i x. 1 \<le> i \<Longrightarrow> i \<le> ?n \<Longrightarrow> \<not> iter_start re (ls ! row_up ?n r i) x" "find_prev R re rope f = Some None"
      unfolding w by (simp del: upt_Suc) blast
    then show ?thesis
    proof cases
      case none
      have "\<not> iter_at re ls p" for p
        using up [of "p_row p"] none(1) [of "ix (p_row p)" "p_col p"] by (auto simp: iter_at_def)
      then show ?thesis using none(2) by blast
    next
      case found
      let ?p = "Position (row_up ?n r j) d"
      have P: "iter_at re ls ?p" using found(1,2,4) row_up_less [OF rc(2)] by (simp add: iter_at_def)
      have before: "j \<le> ix (p_row q)" if "iter_at re ls q" for q
        using found(3) [of "ix (p_row q)" "p_col q"] that up [of "p_row q"] by (auto simp: iter_at_def not_less [symmetric])
      have same_row: "q \<le> ?p" if "iter_at re ls q" "p_row q = row_up ?n r j" for q
        using that found(5) [of "p_col q"] by (auto simp: iter_at_def pos_le)
      have front: "p_row q < r" if "iter_at re ls q" "q \<le> f" for q
        using that 1(2) [of "p_col q"] by (auto simp: iter_at_def pos_le rc(1))
      show ?thesis
      proof (cases "j \<le> r")
        case True
        then have row: "row_up ?n r j = r - j" by (simp add: row_up_def)
        have "?p \<le> f" using True found(1) row by (simp add: pos_le rc(1))
        moreover have "q \<le> ?p" if q: "iter_at re ls q" "q \<le> f" for q
        proof -
          have "j \<le> r - p_row q" using before [OF q(1)] front [OF q] by (simp add: ix_def)
          then show ?thesis using same_row [OF q(1)] front [OF q] row by (cases "p_row q = r - j") (auto simp: pos_le)
        qed
        ultimately show ?thesis using found(6) P by (intro disjI1 exI) (auto simp: prev_around_def greatest_pos_def)
      next
        case False
        then have row: "row_up ?n r j = ?n - (j - r)" by (simp add: row_up_def)
        have behind: "r \<le> p_row q" if q: "iter_at re ls q" for q
          using before [OF q] False by (cases "p_row q < r") (auto simp: ix_def)
        have "\<not> q \<le> f" if q: "iter_at re ls q" for q
          using behind [OF q] front [OF q] by auto
        moreover have "q \<le> ?p" if q: "iter_at re ls q" for q
        proof -
          have "j \<le> r + ?n - p_row q" using before [OF q] behind [OF q] by (simp add: ix_def)
          moreover have "p_row q < ?n" using q by (simp add: iter_at_def)
          ultimately have "p_row q \<le> row_up ?n r j" using row False by linarith
          then show ?thesis using same_row [OF q] by (cases "p_row q = row_up ?n r j") (auto simp: pos_le)
        qed
        ultimately show ?thesis using found(6) P by (intro disjI1 exI) (auto simp: prev_around_def greatest_pos_def)
      qed
    qed
  qed
qed

section \<open>\<open>N\<close>\<close>

lemma prev_around_pred: "prev_around P b p \<Longrightarrow> P p"
  by (auto simp: prev_around_def greatest_pos_def split: if_splits)

lemma before_pos_iff:
  assumes "in_text ls p" "in_text ls q" "p \<noteq> Position 0 0"
  shows "q \<le> before_pos ls p \<longleftrightarrow> q < p"
proof -
  obtain r c where p: "p = Position r c" by (cases p)
  have "q < p \<longleftrightarrow> p_row q < r \<or> p_row q = r \<and> p_col q < c" by (simp add: p less_le_not_le pos_le) auto
  moreover have "p_row q = r - Suc 0" if "p_row q < r" "\<not> p_row q < r - Suc 0" using that by simp
  ultimately show ?thesis using assms by (auto simp: p before_pos_def in_text_def pos_le)
qed

lemma before_pos_start:
  assumes "in_text ls q"
  shows "q \<le> before_pos ls (Position 0 0)"
  using assms by (cases ls rule: rev_cases) (auto simp: before_pos_def in_text_def pos_le nth_append)

lemma start_least: "Position 0 0 \<le> q"
  by (simp add: pos_le) auto

lemma prev_around_strict:
  assumes p: "prev_around P (\<lambda>q. q \<le> c) p" "p \<noteq> c"
  shows "prev_around P (\<lambda>q. q < c) p"
proof (cases "\<exists>q. P q \<and> q \<le> c")
  case True
  then have g: "P p" "p \<le> c" "\<And>q. P q \<Longrightarrow> q \<le> c \<Longrightarrow> q \<le> p"
    using p(1) by (simp_all add: prev_around_def greatest_pos_def)
  have "p < c" using g(2) p(2) by simp
  moreover have "q \<le> p" if "P q" "q < c" for q using g(3) [OF that(1)] that(2) by simp
  ultimately show ?thesis using g(1) by (auto simp: prev_around_def greatest_pos_def)
next
  case False
  then have "greatest_pos P p" using p(1) by (simp only: prev_around_def if_False)
  moreover from False have "\<not> (\<exists>q. P q \<and> q < c)" using less_imp_le by blast
  ultimately show ?thesis by (simp only: prev_around_def if_False)
qed

lemma N_finds_previous:
  assumes S: "searched R BL (view_rope v) ls" and re: "regex_laws re" "ss_pattern st = Some re"
    and c: "in_text ls (v_cursor v)"
  shows "\<exists>found v'. search_backward R BL st True v = Some (found, v') \<and>
    (if \<forall>p. \<not> iter_at re ls p then \<not> found \<and> v' = v
     else \<exists>p. prev_around (iter_at re ls) (\<lambda>q. q < v_cursor v) p \<and>
       (if \<not> ss_wrap_around st \<and> p_row p > p_row (v_cursor v) then \<not> found \<and> v' = v else moved_to p v found v'))"
proof -
  let ?c = "v_cursor v" and ?I = "iter_at re ls"
  let ?fin = "\<lambda>found. case found of None \<Rightarrow> Some (False, v)
      | Some (s, e) \<Rightarrow> if \<not> ss_wrap_around st \<and> p_row s > p_row ?c then Some (False, v) else map_option (Pair True) (set_cursor R s v)"
  obtain cb where cb: "cursor_byte_offset R (view_rope v) ?c = Some cb"
    "pos_at_byte R BL (view_rope v) (if cb = 0 then rp_len_bytes R (view_rope v) else cb - 1) = Some (before_pos ls ?c)"
    using step_back_before [OF S c] .
  have unfold: "search_backward R BL st True v = (case find_prev R re (view_rope v) ?c of None \<Rightarrow> None
    | Some None \<Rightarrow> Some (False, v)
    | Some (Some (s, e)) \<Rightarrow> if s = ?c then (case find_prev R re (view_rope v) (before_pos ls ?c) of None \<Rightarrow> None | Some found \<Rightarrow> ?fin found)
        else ?fin (Some (s, e)))"
    using some_row [OF S] cb by (auto simp: search_backward_def re(2) Let_def row_total [OF S] split: option.splits)
  have final: "\<exists>found v'. ?fin (Some (p, e)) = Some (found, v') \<and>
      (if \<not> ss_wrap_around st \<and> p_row p > p_row ?c then \<not> found \<and> v' = v else moved_to p v found v')" if i: "?I p" for p e
  proof -
    obtain v' where "set_cursor R p v = Some v'" "v_cursor v' = p" "view_rope v' = view_rope v"
      using set_cursor_in [OF S iter_at_in [OF i]] .
    then show ?thesis by (auto simp: moved_to_def)
  qed
  have conclude: ?thesis if eq: "search_backward R BL st True v = ?fin (Some (p, e))"
    and around: "prev_around ?I (\<lambda>q. q < ?c) p" for p e
  proof -
    have some: "\<not> (\<forall>p. \<not> ?I p)" using prev_around_pred [OF around] by blast
    obtain found v' where r: "?fin (Some (p, e)) = Some (found, v')"
      "if \<not> ss_wrap_around st \<and> p_row p > p_row ?c then \<not> found \<and> v' = v else moved_to p v found v'"
      using final [OF prev_around_pred [OF around], of e] by (elim exE conjE)
    show ?thesis
      by (intro exI [of _ found] exI [of _ v'] conjI) (simp only: eq r(1), simp only: some if_False, intro exI [of _ p] conjI around r(2))
  qed
  have step: "prev_around ?I (\<lambda>q. q < ?c) p" if p: "prev_around ?I (\<lambda>q. q \<le> before_pos ls ?c) p" for p
  proof (cases "?c = Position 0 0")
    case True
    have "\<not> q < ?c" for q using start_least [of q] by (simp add: True not_less)
    moreover have "q \<le> before_pos ls ?c" if "?I q" for q using before_pos_start [OF iter_at_in [OF that]] True by simp
    ultimately show ?thesis using p by (auto simp: prev_around_def greatest_pos_def split: if_splits)
  next
    case False
    have "(?I q \<and> q \<le> before_pos ls ?c) = (?I q \<and> q < ?c)" for q
      using before_pos_iff [OF c _ False, of q] iter_at_in [of re ls q] by blast
    then show ?thesis using p by (simp only: prev_around_def)
  qed
  have other: "prev_around ?I (\<lambda>q. q < ?c) p" if p: "prev_around ?I (\<lambda>q. q \<le> ?c) p" "p \<noteq> ?c" for p
    using prev_around_strict [OF p] .
  consider
    (here) e where "find_prev R re (view_rope v) ?c = Some (Some (?c, e))" "?I ?c"
    | (away) p e where "find_prev R re (view_rope v) ?c = Some (Some (p, e))" "p \<noteq> ?c" "prev_around ?I (\<lambda>q. q < ?c) p"
    | (none) "find_prev R re (view_rope v) ?c = Some None" "\<forall>p. \<not> ?I p"
  proof -
    assume k: "\<And>e. find_prev R re (view_rope v) ?c = Some (Some (?c, e)) \<Longrightarrow> ?I ?c \<Longrightarrow> thesis"
      "\<And>p e. find_prev R re (view_rope v) ?c = Some (Some (p, e)) \<Longrightarrow> p \<noteq> ?c \<Longrightarrow> prev_around ?I (\<lambda>q. q < ?c) p \<Longrightarrow> thesis"
      "find_prev R re (view_rope v) ?c = Some None \<Longrightarrow> \<forall>p. \<not> ?I p \<Longrightarrow> thesis"
    from find_prev_around [OF S re(1) c] show thesis
    proof (elim disjE exE conjE)
      fix p e assume f: "prev_around ?I (\<lambda>q. q \<le> ?c) p" "find_prev R re (view_rope v) ?c = Some (Some (p, e))"
      show thesis
      proof (cases "p = ?c")
        case True
        then show thesis using k(1) f(2) prev_around_pred [OF f(1)] by blast
      next
        case False
        show thesis by (rule k(2) [OF f(2) False other [OF f(1) False]])
      qed
    qed (rule k(3))
  qed
  then show ?thesis
  proof cases
    case here
    from find_prev_around [OF S re(1) before_pos_in [OF c]] here(2) obtain p e' where
      f: "find_prev R re (view_rope v) (before_pos ls ?c) = Some (Some (p, e'))" "prev_around ?I (\<lambda>q. q < ?c) p"
      using step by blast
    show ?thesis by (rule conclude [OF _ f(2), of e']) (simp add: unfold here(1) f(1))
  next
    case away
    then show ?thesis by (intro conclude [OF _ away(3), of e]) (simp add: unfold)
  next
    case none
    then show ?thesis by (intro exI [of _ False] exI [of _ v]) (simp add: unfold)
  qed
qed

section \<open>The two commands\<close>

text \<open>
  C25: \<open>n\<close> and \<open>N\<close>.  On a text whose only line breaks are newlines, whatever the regex,
  \<open>search_forward\<close> with \<open>skip_current\<close> never panics and goes to the nearest match behind the cursor in the
  order of positions, or, when there is none, to the first one of the text; \<open>search_backward\<close> goes to
  the nearest of the successive matches before the cursor, or to the last one of the text.  Without a
  match, or when \<open>wrapscan\<close> is off and that match is on a row on the other side of the cursor, the
  cursor and the text stay as they are and the answer is false; only rows are compared there, so
  that without \<open>wrapscan\<close> too the search goes around to a match on the row of the cursor itself.  With the
  cursor on a match at the very end of the text \<open>n\<close> finds that match again and never wraps.
\<close>

theorem search_n_N:
  assumes "searched R BL (view_rope v) ls" and "regex_laws re" and "ss_pattern st = Some re"
    and "in_text ls (v_cursor v)"
  shows "(\<not> (at_end ls (v_cursor v) \<and> match_at re ls (v_cursor v)) \<longrightarrow> (\<exists>found v'. search_forward R BL st True v = Some (found, v') \<and>
      (if \<forall>p. \<not> match_at re ls p then \<not> found \<and> v' = v
       else \<exists>p. next_around (match_at re ls) (\<lambda>q. v_cursor v < q) p \<and>
         (if \<not> ss_wrap_around st \<and> p_row p < p_row (v_cursor v) then \<not> found \<and> v' = v else moved_to p v found v')))) \<and>
    (at_end ls (v_cursor v) \<and> match_at re ls (v_cursor v) \<longrightarrow>
      (\<exists>v'. search_forward R BL st True v = Some (True, v') \<and> v_cursor v' = v_cursor v)) \<and>
    (\<exists>found v'. search_backward R BL st True v = Some (found, v') \<and>
      (if \<forall>p. \<not> iter_at re ls p then \<not> found \<and> v' = v
       else \<exists>p. prev_around (iter_at re ls) (\<lambda>q. q < v_cursor v) p \<and>
         (if \<not> ss_wrap_around st \<and> p_row p > p_row (v_cursor v) then \<not> found \<and> v' = v else moved_to p v found v')))"
  using n_finds_next [OF assms] n_stuck_at_end [OF assms] N_finds_previous [OF assms] by (intro conjI impI) blast+

text \<open>The regex \<open>$\<close> on a text of two lines: \<open>N\<close> at its very start goes around to its end.\<close>

definition end_regex :: regex where
  "end_regex = \<lparr>re_find_at = (\<lambda>l i. let n = length (utf8 l) in if i \<le> n then Some (n, n) else None),
    re_find_iter = (\<lambda>l. [(length (utf8 l), length (utf8 l))])\<rparr>"

definition flat_byte_line :: "rstring \<Rightarrow> nat \<Rightarrow> nat option" where
  "flat_byte_line r b = (let s = rp_text flat_lines r in
     if b \<le> length (utf8 s) then Some (length (filter (\<lambda>st. boff s st \<le> b) (line_starts s)) - 1) else None)"

lemma end_regex_laws: "regex_laws end_regex"
  by (auto simp: regex_laws_def end_regex_def match_ok_def re_find_def Let_def str_is_char_boundary_def split: if_splits)

lemma end_regex_iter: "iter_at end_regex ls p \<longleftrightarrow> p_row p < length ls \<and> p_col p = length (ls ! p_row p)"
proof -
  have "boff l c = length (utf8 l) \<longleftrightarrow> c = length l" if "c \<le> length l" for l and c :: nat
    using that boff_inj [of c l "length l"] by (simp add: boff_def)
  then show ?thesis by (auto simp: iter_at_def iter_start_def end_regex_def)
qed

lemma demo_searched: "searched flat_lines flat_byte_line (view_rope (view_from_str flat_lines [97, 98, 10, 99])) [[97, 98], [99]]"
proof -
  have "rp_text flat_lines (view_rope (view_from_str flat_lines [97, 98, 10, 99])) = unl [[97, 98], [99]]"
    using flat_view_text [of "[97, 98, 10, 99]"] by (simp add: valid_str_def scalar_ok_def)
  then have "rope_lines flat_lines (view_rope (view_from_str flat_lines [97, 98, 10, 99])) [[97, 98], [99]]"
    by (simp add: rope_lines_def lines_ok_def is_break_def)
  then show ?thesis by (simp add: searched_def flat_lines_laws line_of_byte_def flat_byte_line_def Let_def)
qed

theorem search_n_N_witness:
  "\<exists>v'. search_backward flat_lines flat_byte_line (set_pattern (Some end_regex) search_state_new) True
      (view_from_str flat_lines [97, 98, 10, 99]) = Some (True, v') \<and> v_cursor v' = Position 1 1"
proof -
  let ?v = "view_from_str flat_lines [97, 98, 10, 99]" and ?st = "set_pattern (Some end_regex) search_state_new"
  let ?ls = "[[97, 98], [99]] :: rstring list"
  note S = demo_searched
  have cur: "v_cursor ?v = Position 0 0" by (simp add: view_from_str_def)
  have st: "ss_pattern ?st = Some end_regex" "ss_wrap_around ?st" by (simp_all add: set_pattern_def search_state_new_def)
  have c: "in_text ?ls (v_cursor ?v)" by (simp add: cur in_text_def)
  have I: "iter_at end_regex ?ls (Position 1 1)" by (simp add: end_regex_iter)
  have p: "p = Position 1 1" if "prev_around (iter_at end_regex ?ls) (\<lambda>q. q < v_cursor ?v) p" for p
  proof -
    have "\<not> q < v_cursor ?v" for q using start_least [of q] by (simp add: cur not_less)
    then have g: "p_row p < 2" "p_col p = length (?ls ! p_row p)" "Position 1 1 \<le> p"
      using that I by (simp_all add: prev_around_def greatest_pos_def end_regex_iter)
    then have "p_row p = 1" by (auto simp: pos_le)
    with g(2) show ?thesis by (cases p) simp
  qed
  from search_n_N [OF S end_regex_laws st(1) c] obtain found v' q where
    b: "search_backward flat_lines flat_byte_line ?st True ?v = Some (found, v')"
    and q: "prev_around (iter_at end_regex ?ls) (\<lambda>q. q < v_cursor ?v) q" "moved_to q ?v found v'"
    using I st(2) by (auto split: if_splits)
  then show ?thesis using p [OF q(1)] by (simp add: moved_to_def)
qed

end
