(* ===== verification/SubstCommand.thy ===== *)
theory SubstCommand
  imports Geom
begin

text \<open>
  The command \<open>:s\<close> (\<open>crates/hjkl-engine/src/substitute.rs\<close>): its arguments, their parser, and the
  expansion of a replacement against one match.  The groups of a match are a function from the
  number of a group to its text, and the Unicode tables of \<open>char::to_uppercase\<close> and
  \<open>char::to_lowercase\<close> are the record \<open>case_tables\<close>.  Error messages are the constructors of a type.
\<close>

section \<open>The command\<close>

record subst_flags =
  fl_all :: bool
  fl_ignore_case :: bool
  fl_case_sensitive :: bool
  fl_confirm :: bool
  fl_report_only :: bool
  fl_no_error :: bool
  fl_print :: bool
  fl_print_num :: bool
  fl_print_list :: bool
  fl_reuse_previous :: bool

definition no_flags :: subst_flags where
  "no_flags = \<lparr>fl_all = False, fl_ignore_case = False, fl_case_sensitive = False, fl_confirm = False,
     fl_report_only = False, fl_no_error = False, fl_print = False, fl_print_num = False,
     fl_print_list = False, fl_reuse_previous = False\<rparr>"

record subst_cmd =
  sb_pattern :: "rstring option"
  sb_replacement :: rstring
  sb_flags :: subst_flags
  sb_count :: "nat option"

datatype subst_error =
    ExpectedDelimiter rstring
  | NeedsPatternReplacement
  | UnknownFlag rchar
  | TrailingCharacters rstring
  | NoPreviousRegex
  | BadPattern

section \<open>Parsing\<close>

text \<open>\<open>str::parse::<usize>\<close>: an optional plus sign, then digits, at most \<open>usize::MAX\<close>.\<close>

definition parse_usize :: "rstring \<Rightarrow> nat option" where
  "parse_usize s = (
     let ds = (case s of c # cs \<Rightarrow> if c = 43 then cs else s | [] \<Rightarrow> []) in
     if ds \<noteq> [] \<and> list_all is_digit ds \<and> dec_value ds 0 \<le> usize_max then Some (dec_value ds 0) else None)"

text \<open>The loop of \<open>split_on_slash\<close>: how many segments are out, the current one, and the rest.\<close>

fun split_segments :: "nat \<Rightarrow> rstring \<Rightarrow> rstring \<Rightarrow> rstring list" where
  "split_segments n cur [] = [cur]"
| "split_segments n cur (c # cs) =
     (if c = 92 then
        (case cs of
           [] \<Rightarrow> [cur @ [92]]
         | d # ds \<Rightarrow> if d = 47 then split_segments n (cur @ [47]) ds else split_segments n (cur @ [92, d]) ds)
      else if c = 47 \<and> n < 2 then cur # split_segments (Suc n) [] cs
      else split_segments n (cur @ [c]) cs)"

definition split_on_slash :: "rstring \<Rightarrow> rstring list" where
  "split_on_slash s = split_segments 0 [] s"

text \<open>One flag.\<close>

definition set_flag :: "rchar \<Rightarrow> subst_flags \<Rightarrow> subst_flags option" where
  "set_flag c fl =
     (if c = ch CHR ''g'' then Some (fl\<lparr>fl_all := True\<rparr>)
      else if c = ch CHR ''i'' then Some (fl\<lparr>fl_ignore_case := True\<rparr>)
      else if c = ch CHR ''I'' then Some (fl\<lparr>fl_case_sensitive := True\<rparr>)
      else if c = ch CHR ''c'' then Some (fl\<lparr>fl_confirm := True\<rparr>)
      else if c = ch CHR ''n'' then Some (fl\<lparr>fl_report_only := True\<rparr>)
      else if c = ch CHR ''e'' then Some (fl\<lparr>fl_no_error := True\<rparr>)
      else if c = ch CHR ''p'' then Some (fl\<lparr>fl_print := True\<rparr>)
      else if c = 35 then Some (fl\<lparr>fl_print := True, fl_print_num := True\<rparr>)
      else if c = ch CHR ''l'' then Some (fl\<lparr>fl_print := True, fl_print_list := True\<rparr>)
      else if c = 38 then Some (fl\<lparr>fl_reuse_previous := True\<rparr>)
      else if c = 32 \<or> c = 9 then Some fl
      else None)"

fun flags_loop :: "subst_flags \<Rightarrow> rstring \<Rightarrow> subst_error + subst_flags \<times> rstring" where
  "flags_loop fl [] = Inr (fl, [])"
| "flags_loop fl (c # cs) =
     (case set_flag c fl of
        Some fl' \<Rightarrow> flags_loop fl' cs
      | None \<Rightarrow> if is_digit c then Inr (fl, c # cs) else Inl (UnknownFlag c))"

definition parse_flags :: "rstring \<Rightarrow> subst_error + subst_flags \<times> nat option" where
  "parse_flags raw_flags =
     (case flags_loop no_flags raw_flags of
        Inl e \<Rightarrow> Inl e
      | Inr (fl, chars) \<Rightarrow>
          let rest = trim_ws chars in
          if rest = [] then Inr (fl, None)
          else (case parse_usize rest of
                  Some n \<Rightarrow> if n > 0 then Inr (fl, Some n) else Inl (TrailingCharacters rest)
                | None \<Rightarrow> Inl (TrailingCharacters rest)))"

definition parse_substitute :: "rstring \<Rightarrow> subst_error + subst_cmd" where
  "parse_substitute s =
     (case s of
        c # rest \<Rightarrow>
          if c \<noteq> 47 then Inl (ExpectedDelimiter s)
          else let parts = split_on_slash rest in
            if length parts < 2 then Inl NeedsPatternReplacement
            else (case parse_flags (if 2 < length parts then parts ! 2 else []) of
                    Inl e \<Rightarrow> Inl e
                  | Inr (fl, count) \<Rightarrow>
                      Inr \<lparr>sb_pattern = (if parts ! 0 = [] then None else Some (parts ! 0)),
                           sb_replacement = parts ! 1, sb_flags = fl, sb_count = count\<rparr>)
      | [] \<Rightarrow> Inl (ExpectedDelimiter s))"

section \<open>Expanding a replacement\<close>

record case_tables =
  ct_upper :: "rchar \<Rightarrow> rstring"
  ct_lower :: "rchar \<Rightarrow> rstring"
  ct_is_upper :: "rchar \<Rightarrow> bool"

datatype span_case = NoSpan | UpperSpan | LowerSpan

datatype one_shot_case = UpperOnce | LowerOnce

record case_state =
  cs_span :: span_case
  cs_one_shot :: "one_shot_case option"

definition case_state_new :: case_state where
  "case_state_new = \<lparr>cs_span = NoSpan, cs_one_shot = None\<rparr>"

definition push_cased :: "case_tables \<Rightarrow> case_state \<Rightarrow> rchar \<Rightarrow> rstring \<times> case_state" where
  "push_cased T st c = (
     let effective = (case cs_one_shot st of
           Some UpperOnce \<Rightarrow> UpperSpan
         | Some LowerOnce \<Rightarrow> LowerSpan
         | None \<Rightarrow> cs_span st)
     in ((case effective of NoSpan \<Rightarrow> [c] | UpperSpan \<Rightarrow> ct_upper T c | LowerSpan \<Rightarrow> ct_lower T c),
         st\<lparr>cs_one_shot := None\<rparr>))"

fun push_all :: "case_tables \<Rightarrow> case_state \<Rightarrow> rstring \<Rightarrow> rstring \<times> case_state" where
  "push_all T st [] = ([], st)"
| "push_all T st (c # cs) =
     (case push_cased T st c of (out, st') \<Rightarrow> (case push_all T st' cs of (outs, st'') \<Rightarrow> (out @ outs, st'')))"

definition group_text :: "(nat \<Rightarrow> rstring option) \<Rightarrow> nat \<Rightarrow> rstring" where
  "group_text caps i = (case caps i of Some g \<Rightarrow> g | None \<Rightarrow> [])"

text \<open>What a backslash and the char behind it stand for.\<close>

definition escape_out :: "case_tables \<Rightarrow> (nat \<Rightarrow> rstring option) \<Rightarrow> case_state \<Rightarrow> rchar \<Rightarrow> rstring \<times> case_state" where
  "escape_out T caps st c =
     (if c = ch CHR ''r'' then ([10], st)
      else if c = ch CHR ''t'' then ([9], st)
      else if c = ch CHR ''n'' then ([0], st)
      else if is_digit c then push_all T st (group_text caps (c - 48))
      else if c = ch CHR ''u'' then ([], st\<lparr>cs_one_shot := Some UpperOnce\<rparr>)
      else if c = ch CHR ''l'' then ([], st\<lparr>cs_one_shot := Some LowerOnce\<rparr>)
      else if c = ch CHR ''U'' then ([], st\<lparr>cs_span := UpperSpan\<rparr>)
      else if c = ch CHR ''L'' then ([], st\<lparr>cs_span := LowerSpan\<rparr>)
      else if c = ch CHR ''e'' \<or> c = ch CHR ''E'' then ([], st\<lparr>cs_span := NoSpan\<rparr>)
      else push_cased T st c)"

text \<open>The argument \<open>tilde\<close> is the expansion of the previous replacement where \<open>~\<close> stands for it.\<close>

fun expand_from :: "case_tables \<Rightarrow> (nat \<Rightarrow> rstring option) \<Rightarrow> rstring option \<Rightarrow> case_state \<Rightarrow> rstring \<Rightarrow> rstring" where
  "expand_from T caps tilde st [] = []"
| "expand_from T caps tilde st (c # cs) =
     (if c = 38 then (case push_all T st (group_text caps 0) of (out, st') \<Rightarrow> out @ expand_from T caps tilde st' cs)
      else if c = 126 \<and> tilde \<noteq> None then (case push_all T st (the tilde) of (out, st') \<Rightarrow> out @ expand_from T caps tilde st' cs)
      else if c = 92 then
        (case cs of
           [] \<Rightarrow> []
         | d # ds \<Rightarrow> (case escape_out T caps st d of (out, st') \<Rightarrow> out @ expand_from T caps tilde st' ds))
      else (case push_cased T st c of (out, st') \<Rightarrow> out @ expand_from T caps tilde st' cs))"

definition expand_into :: "case_tables \<Rightarrow> rstring \<Rightarrow> (nat \<Rightarrow> rstring option) \<Rightarrow> rstring \<Rightarrow> bool \<Rightarrow> rstring" where
  "expand_into T raw caps prev allow_tilde =
     expand_from T caps (if allow_tilde then Some (expand_from T caps None case_state_new prev) else None)
       case_state_new raw"

definition expand_replacement :: "case_tables \<Rightarrow> rstring \<Rightarrow> (nat \<Rightarrow> rstring option) \<Rightarrow> rstring \<Rightarrow> rstring" where
  "expand_replacement T raw caps prev = expand_into T raw caps prev True"

end
