(* ===== verification/ExRange.thy ===== *)
theory ExRange
  imports Search SubstCommand
begin

text \<open>
  The range of an ex command (\<open>crates/hjkl-ex/src/range.rs\<close>): the parser of addresses, their
  resolution against an editor, and ranges.  The state of the editor an address reads, and a
  substitution changes, is the record \<open>ex_editor\<close>.  The compiler of the crate regex is the
  argument \<open>C\<close>; an error message is a constructor of \<open>range_error\<close>, and a panic is \<open>None\<close>, also
  that of an addition of \<open>i64\<close> that overflows.
\<close>

section \<open>The editor as ex commands see it\<close>

text \<open>A compiled regex: matches, the groups of the match found from a byte on, and the replacement
  of the first or of all matches by a function of their groups.\<close>

record compiled =
  cp_regex :: regex
  cp_captures_at :: "rstring \<Rightarrow> nat \<Rightarrow> (nat \<Rightarrow> rstring option) option"
  cp_replace :: "bool \<Rightarrow> rstring \<Rightarrow> ((nat \<Rightarrow> rstring option) \<Rightarrow> rstring) \<Rightarrow> rstring"

text \<open>The calls of the editor whose effect is modelled by other components.\<close>

datatype editor_call =
    PushUndo
  | PopLastUndo
  | ChangeLogReplace position rstring
  | ContentReset
  | ShiftMarksAfterEdit nat nat
  | SetStickyColumn nat nat
  | MarkContentDirty

record 'r ex_editor =
  xe_view :: "'r view"
  xe_marks :: "rchar \<Rightarrow> (nat \<times> nat) option"
  xe_ignore_case :: bool
  xe_smartcase :: bool
  xe_wrapscan :: bool
  xe_change_log :: bool
  xe_last_search :: "rstring option"
  xe_last_search_forward :: bool
  xe_last_substitute :: "subst_cmd option"
  xe_calls :: "editor_call list"

abbreviation xe_rope :: "'r ex_editor \<Rightarrow> 'r" where
  "xe_rope ed \<equiv> view_rope (xe_view ed)"

abbreviation xe_cursor :: "'r ex_editor \<Rightarrow> position" where
  "xe_cursor ed \<equiv> v_cursor (xe_view ed)"

definition last_substitute_replacement :: "'r ex_editor \<Rightarrow> rstring" where
  "last_substitute_replacement ed = (case xe_last_substitute ed of Some c \<Rightarrow> sb_replacement c | None \<Rightarrow> [])"

definition content_rows :: "'r text_ops \<Rightarrow> 'r \<Rightarrow> nat option" where
  "content_rows R rope = (
     let raw_count = rp_len_lines R rope; raw_last = raw_count - 1 in
     if raw_last > 0 then do {
       b \<leftarrow> rope_line_bytes R rope raw_last;
       Some (if b = 0 then raw_last else raw_count)
     } else Some raw_count)"

section \<open>Addresses\<close>

datatype line_range = LineRange (range_start: nat) (range_end: nat)

definition single :: "nat \<Rightarrow> line_range" where
  "single n = LineRange n n"

datatype address =
    Number nat
  | Current
  | LastLine
  | MarkAddr rchar
  | SearchAddr rstring bool

datatype range_error =
    MarkNotSet rchar
  | NoPreviousPattern
  | RangeBadPattern
  | PatternNotFound rstring
  | MissingEnd rchar
  | InvalidEnd rstring
  | InvalidRange
  | BackwardsRange
  | ExpectedDestination
  | InvalidAddress rstring
  | TrailingAfterAddress rstring

text \<open>The body of a search address up to the first delimiter without a backslash before it.\<close>

fun until_delim :: "rchar \<Rightarrow> bool \<Rightarrow> rstring \<Rightarrow> rstring \<times> rstring" where
  "until_delim d escaped [] = ([], [])"
| "until_delim d escaped (c # cs) =
     (if c = d \<and> \<not> escaped then ([], cs)
      else (case until_delim d (c = 92) cs of (pat, rest) \<Rightarrow> (c # pat, rest)))"

definition parse_base_address :: "rstring \<Rightarrow> (address \<times> rstring) option" where
  "parse_base_address s =
     (case s of
        [] \<Rightarrow> None
      | c # cs \<Rightarrow>
          if c = 46 then Some (Current, cs)
          else if c = 36 then Some (LastLine, cs)
          else if c = 43 \<or> c = 45 then Some (Current, s)
          else if c = 39 then (case cs of [] \<Rightarrow> None | m # rest \<Rightarrow> Some (MarkAddr m, rest))
          else if is_digit c then
            (case parse_usize (takeWhile is_digit s) of
               None \<Rightarrow> None
             | Some n \<Rightarrow> Some (Number n, dropWhile is_digit s))
          else if c = 47 \<or> c = 63 then
            (case until_delim c False cs of (pat, rest) \<Rightarrow> Some (SearchAddr pat (c = 47), rest))
          else None)"

definition i64_max :: int where
  "i64_max = 2 ^ 63 - 1"

definition i64_min :: int where
  "i64_min = - (2 ^ 63)"

definition saturating_add64 :: "int \<Rightarrow> int \<Rightarrow> int" where
  "saturating_add64 a b = max i64_min (min i64_max (a + b))"

definition add64 :: "int \<Rightarrow> int \<Rightarrow> int option" where
  "add64 a b = (if i64_min \<le> a + b \<and> a + b \<le> i64_max then Some (a + b) else None)"

definition as_i64 :: "nat \<Rightarrow> int" where
  "as_i64 n = (let m = int n mod 2 ^ 64 in if m < 2 ^ 63 then m else m - 2 ^ 64)"

definition parse_i64_digits :: "rstring \<Rightarrow> int option" where
  "parse_i64_digits ds = (let v = int (dec_value ds 0) in if v \<le> i64_max then Some v else None)"

function parse_offset_chain :: "int \<Rightarrow> rstring \<Rightarrow> int \<times> rstring" where
  "parse_offset_chain tot [] = (tot, [])"
| "parse_offset_chain tot (c # cs) =
     (if c = 43 \<or> c = 45 then
        let digits = takeWhile is_digit cs in
        (case (if digits = [] then Some 1 else parse_i64_digits digits) of
           None \<Rightarrow> (tot, c # cs)
         | Some magnitude \<Rightarrow>
             parse_offset_chain (saturating_add64 tot ((if c = 43 then 1 else -1) * magnitude)) (dropWhile is_digit cs))
      else (tot, c # cs))"
  by pat_completeness auto
termination
  by (relation "measure (\<lambda>(_, s). length s)") (auto simp: less_Suc_eq_le length_dropWhile_le)

definition parse_address :: "rstring \<Rightarrow> (address \<times> int \<times> rstring) option" where
  "parse_address s =
     (case parse_base_address s of
        None \<Rightarrow> None
      | Some (base, rest) \<Rightarrow> (case parse_offset_chain 0 rest of (offset, rest) \<Rightarrow> Some (base, offset, rest)))"

section \<open>Resolving\<close>

text \<open>\<open>(?i)\<close> before a pattern that ignores case.\<close>

definition pattern_source :: "rstring \<times> case_mode \<Rightarrow> rstring" where
  "pattern_source sm = (if snd sm = Insensitive then [40, 63, 105, 41] @ fst sm else fst sm)"

definition search_from :: "nat option \<Rightarrow> position \<Rightarrow> position" where
  "search_from from_row cursor = (case from_row of Some line \<Rightarrow> Position (line - 1) 0 | None \<Rightarrow> cursor)"

definition find_below :: "'r text_ops \<Rightarrow> ('r \<Rightarrow> nat \<Rightarrow> nat option) \<Rightarrow> regex \<Rightarrow> bool \<Rightarrow> 'r \<Rightarrow> position \<Rightarrow> (position \<times> position) option option" where
  "find_below R BL re wrap rope cursor = do {
     from_byte \<leftarrow> cursor_byte_offset R rope cursor;
     from \<leftarrow> pos_at_byte R BL rope (from_byte + 1);
     found \<leftarrow> find_next R re rope from;
     case found of
       Some m \<Rightarrow> Some (Some m)
     | None \<Rightarrow> if wrap then find_next R re rope (Position 0 0) else Some None
   }"

definition find_above :: "'r text_ops \<Rightarrow> ('r \<Rightarrow> nat \<Rightarrow> nat option) \<Rightarrow> regex \<Rightarrow> bool \<Rightarrow> 'r \<Rightarrow> position \<Rightarrow> (position \<times> position) option option" where
  "find_above R BL re wrap rope cursor = do {
     from_byte \<leftarrow> cursor_byte_offset R rope cursor;
     found \<leftarrow> (if from_byte > 0 then do {
         before \<leftarrow> pos_at_byte R BL rope (from_byte - 1);
         find_prev R re rope before
       } else Some None);
     case found of
       Some m \<Rightarrow> Some (Some m)
     | None \<Rightarrow> if wrap then do { e \<leftarrow> pos_at_byte R BL rope (rp_len_bytes R rope); find_prev R re rope e } else Some None
   }"

definition resolve_search_address ::
  "'r text_ops \<Rightarrow> ('r \<Rightarrow> nat \<Rightarrow> nat option) \<Rightarrow> case_tables \<Rightarrow> (rstring \<Rightarrow> compiled option) \<Rightarrow>
   rstring \<Rightarrow> bool \<Rightarrow> 'r ex_editor \<Rightarrow> nat option \<Rightarrow> (range_error + int) option" where
  "resolve_search_address R BL T C pattern forward ed from_row =
     (if pattern = [] then Some (Inl NoPreviousPattern)
      else
        let case_base = case_from_options (xe_ignore_case ed) (xe_smartcase ed);
            src = pattern_source (resolve_case_mode (ct_is_upper T) pattern case_base (last_substitute_replacement ed))
        in (case C src of
              None \<Rightarrow> Some (Inl RangeBadPattern)
            | Some re \<Rightarrow> do {
                let cursor = search_from from_row (xe_cursor ed);
                found \<leftarrow> (if forward then find_below else find_above) R BL (cp_regex re) (xe_wrapscan ed) (xe_rope ed) cursor;
                Some (case found of
                    Some m \<Rightarrow> Inr (int (p_row (fst m)) + 1)
                  | None \<Rightarrow> Inl (PatternNotFound pattern))
              }))"

text \<open>The base of an address, before its offset.\<close>

definition address_base ::
  "'r text_ops \<Rightarrow> ('r \<Rightarrow> nat \<Rightarrow> nat option) \<Rightarrow> case_tables \<Rightarrow> (rstring \<Rightarrow> compiled option) \<Rightarrow>
   address \<Rightarrow> 'r ex_editor \<Rightarrow> nat option \<Rightarrow> nat \<Rightarrow> (range_error + int) option" where
  "address_base R BL T C addr ed from_row last_line =
     (case addr of
        Number n \<Rightarrow> Some (Inr (as_i64 n))
      | Current \<Rightarrow> Some (Inr (int (case from_row of Some r \<Rightarrow> r | None \<Rightarrow> p_row (xe_cursor ed) + 1)))
      | LastLine \<Rightarrow> Some (Inr (int last_line))
      | MarkAddr c \<Rightarrow> Some (case xe_marks ed c of Some (r, _) \<Rightarrow> Inr (int r + 1) | None \<Rightarrow> Inl (MarkNotSet c))
      | SearchAddr pattern forward \<Rightarrow> resolve_search_address R BL T C pattern forward ed from_row)"

definition resolve_address ::
  "'r text_ops \<Rightarrow> ('r \<Rightarrow> nat \<Rightarrow> nat option) \<Rightarrow> case_tables \<Rightarrow> (rstring \<Rightarrow> compiled option) \<Rightarrow>
   address \<Rightarrow> int \<Rightarrow> 'r ex_editor \<Rightarrow> nat option \<Rightarrow> (range_error + nat) option" where
  "resolve_address R BL T C addr offset ed from_row = do {
     rows \<leftarrow> content_rows R (xe_rope ed);
     let last_line = max rows 1;
     base \<leftarrow> address_base R BL T C addr ed from_row last_line;
     Some (case base of
         Inl e \<Rightarrow> Inl e
       | Inr b \<Rightarrow> Inr (nat (max 1 (min (int last_line) (saturating_add64 b offset)))))
   }"

section \<open>Ranges\<close>

definition number_past_eof :: "nat \<Rightarrow> address \<Rightarrow> int \<Rightarrow> bool option" where
  "number_past_eof last_line addr offset =
     (case addr of
        Number n \<Rightarrow> map_option (\<lambda>k. k > int last_line) (add64 (as_i64 n) offset)
      | _ \<Rightarrow> Some False)"

text \<open>The second address, behind a comma or a semicolon.\<close>

definition parse_range_end ::
  "'r text_ops \<Rightarrow> ('r \<Rightarrow> nat \<Rightarrow> nat option) \<Rightarrow> case_tables \<Rightarrow> (rstring \<Rightarrow> compiled option) \<Rightarrow> 'r ex_editor \<Rightarrow>
   nat \<Rightarrow> bool \<Rightarrow> nat \<Rightarrow> rchar \<Rightarrow> rstring \<Rightarrow> (range_error + line_range option \<times> rstring) option" where
  "parse_range_end R BL T C ed last_line start_past_eof st sep after_sep =
     (if after_sep = [] then Some (Inl (MissingEnd sep))
      else (case parse_address after_sep of
          None \<Rightarrow> Some (Inl (InvalidEnd after_sep))
        | Some (end_addr, end_offset, rest) \<Rightarrow> do {
            let end_from = (if sep = 59 then Some st else None);
            past_eof \<leftarrow> (if start_past_eof then Some True else number_past_eof last_line end_addr end_offset);
            if past_eof \<and> trim_ws rest \<noteq> [] then Some (Inl InvalidRange)
            else do {
              e \<leftarrow> resolve_address R BL T C end_addr end_offset ed end_from;
              Some (case e of
                  Inl err \<Rightarrow> Inl err
                | Inr e \<Rightarrow> if st > e then Inl BackwardsRange else Inr (Some (LineRange st e), rest))
            }
          }))"

definition parse_range ::
  "'r text_ops \<Rightarrow> ('r \<Rightarrow> nat \<Rightarrow> nat option) \<Rightarrow> case_tables \<Rightarrow> (rstring \<Rightarrow> compiled option) \<Rightarrow>
   rstring \<Rightarrow> 'r ex_editor \<Rightarrow> (range_error + line_range option \<times> rstring) option" where
  "parse_range R BL T C cmd ed = do {
     rows \<leftarrow> content_rows R (xe_rope ed);
     let last_line = max rows 1;
     if cmd \<noteq> [] \<and> hd cmd = 37 then Some (Inr (Some (LineRange 1 last_line), tl cmd))
     else (case parse_address cmd of
         None \<Rightarrow> Some (Inr (None, cmd))
       | Some (start_addr, start_offset, after_start) \<Rightarrow> do {
           start_past_eof \<leftarrow> number_past_eof last_line start_addr start_offset;
           st \<leftarrow> resolve_address R BL T C start_addr start_offset ed None;
           case st of
             Inl err \<Rightarrow> Some (Inl err)
           | Inr st \<Rightarrow>
               if after_start \<noteq> [] \<and> (hd after_start = 44 \<or> hd after_start = 59)
               then parse_range_end R BL T C ed last_line start_past_eof st (hd after_start) (tl after_start)
               else if start_past_eof \<and> trim_ws after_start \<noteq> [] then Some (Inl InvalidRange)
               else Some (Inr (Some (single st), after_start))
         })
   }"

definition parse_dest_address ::
  "'r text_ops \<Rightarrow> ('r \<Rightarrow> nat \<Rightarrow> nat option) \<Rightarrow> case_tables \<Rightarrow> (rstring \<Rightarrow> compiled option) \<Rightarrow>
   rstring \<Rightarrow> 'r ex_editor \<Rightarrow> (range_error + nat) option" where
  "parse_dest_address R BL T C s ed = (
     let s = trim_ws s in
     if s = [] then Some (Inl ExpectedDestination)
     else (case parse_address s of
         None \<Rightarrow> Some (Inl (InvalidAddress s))
       | Some (addr, offset, rest) \<Rightarrow>
           if trim_ws rest \<noteq> [] then Some (Inl (TrailingAfterAddress rest))
           else if addr = Number 0 \<and> offset = 0 then Some (Inr 0)
           else resolve_address R BL T C addr offset ed None))"

end
