(* ===== verification/ExRangeLaws.thy ===== *)
theory ExRangeLaws
  imports ExRange SearchLaws VimCount
begin

text \<open>
  What ranges mean.  A resolved range always lies in the text, and a typed range, printed from
  its abstract syntax, resolves to the lines its addresses denote.  The text is plain and given
  by its lines, as for searching.
\<close>

section \<open>The text of an editor\<close>

definition compiler_laws :: "(rstring \<Rightarrow> compiled option) \<Rightarrow> bool" where
  "compiler_laws C \<longleftrightarrow> (\<forall>src re. C src = Some re \<longrightarrow> regex_laws (cp_regex re))"

definition ex_ok :: "'r text_ops \<Rightarrow> ('r \<Rightarrow> nat \<Rightarrow> nat option) \<Rightarrow> (rstring \<Rightarrow> compiled option) \<Rightarrow> 'r ex_editor \<Rightarrow> rstring list \<Rightarrow> bool" where
  "ex_ok R BL C ed ls \<longleftrightarrow> searched R BL (xe_rope ed) ls \<and> compiler_laws C \<and> in_text ls (xe_cursor ed)"

text \<open>The rows of the text without the empty one behind a last line break.\<close>

definition rows_of :: "rstring list \<Rightarrow> nat" where
  "rows_of ls = (if length ls > 1 \<and> last ls = [] then length ls - 1 else length ls)"

lemma rows_of_bounds: "ls \<noteq> [] \<Longrightarrow> 1 \<le> rows_of ls \<and> rows_of ls \<le> length ls"
  by (cases ls) (auto simp: rows_of_def Suc_le_eq)

lemma content_rows_lines:
  assumes S: "searched R BL rope ls"
  shows "content_rows R rope = Some (rows_of ls)"
proof -
  have n: "length ls - 1 < length ls" using some_row [OF S] by simp
  have "length ls - 1 < nlines (rp_text R rope)"
    using n by (simp add: text_unl [OF S] nlines_unl [OF ls_ok [OF S]])
  then have "rope_line_bytes R rope (length ls - 1) = Some (length (utf8 (ls ! (length ls - 1))))"
    using rope_line_bytes_text [OF searched_laws [OF S]] line_str [OF S n] by force
  then show ?thesis
    using some_row [OF S] by (auto simp: content_rows_def Let_def row_total [OF S] rows_of_def last_conv_nth)
qed

section \<open>Search addresses\<close>

text \<open>One byte behind a position is the same position again inside a char of several bytes.\<close>

definition byte_on :: "rstring list \<Rightarrow> position \<Rightarrow> position" where
  "byte_on ls p =
     (if p_col p < length (ls ! p_row p) \<and> length (utf8_char (ls ! p_row p ! p_col p)) > 1 then p else after_pos ls p)"

lemma byte_on_in: "in_text ls p \<Longrightarrow> in_text ls (byte_on ls p)"
  by (simp add: byte_on_def after_pos_in)

lemma pos_byte_on:
  assumes S: "searched R BL rope ls" and p: "in_text ls p"
  obtains cb where "cursor_byte_offset R rope p = Some cb" "pos_at_byte R BL rope (cb + 1) = Some (byte_on ls p)"
proof -
  obtain r c where rc: "p = Position r c" "r < length ls" "c \<le> length (ls ! r)"
    using p by (cases p) (auto simp: in_text_def)
  let ?l = "ls ! r"
  let ?b = "bytes_before r ls + boff ?l c"
  have cb: "cursor_byte_offset R rope p = Some ?b" by (simp add: rc cursor_byte [OF S])
  have "pos_at_byte R BL rope (?b + 1) = Some (byte_on ls p)"
  proof (cases "c < length ?l \<and> length (utf8_char (?l ! c)) > 1")
    case True
    have Suc: "boff ?l (Suc c) = boff ?l c + length (utf8_char (?l ! c))" using True by (simp add: boff_Suc)
    have "floor_boundary (utf8 ?l) (boff ?l c + 1) = boff ?l c"
      using True Suc by (intro floor_boundary_inside row_valid [OF S rc(2)]) auto
    moreover have "boff ?l c + 1 \<le> length (utf8 ?l)" using True Suc boff_le [of ?l "Suc c"] by linarith
    ultimately show ?thesis
      using pos_of_byte [OF S rc(2), of "boff ?l c + 1"] rc(3) True
      by (simp add: byte_on_def rc(1) chars_in_bytes_boff add.assoc)
  next
    case False
    have "(if c < length ?l then length (utf8_char (?l ! c)) else 1) = 1"
    proof (cases "c < length ?l")
      case True
      have "length (utf8_char (?l ! c)) \<noteq> 0" by simp
      then have "length (utf8_char (?l ! c)) = 1" using True False by linarith
      then show ?thesis by simp
    qed simp
    moreover have "skip_from R BL rope p = pos_at_byte R BL rope (?b + (if c < length ?l then length (utf8_char (?l ! c)) else 1))"
      by (simp add: skip_from_def rc cursor_byte [OF S] line_str [OF S])
    ultimately show ?thesis using False skip_from_after [OF S p] by (auto simp: byte_on_def rc(1))
  qed
  with cb that show thesis by blast
qed

lemma find_below_found:
  assumes S: "searched R BL rope ls" and re: "regex_laws re" and p: "in_text ls p"
  shows "(\<exists>q e. find_below R BL re wrap rope p = Some (Some (q, e)) \<and> next_around (match_at re ls) (\<lambda>x. byte_on ls p \<le> x) q) \<or>
    find_below R BL re wrap rope p = Some None \<and> (\<forall>q. \<not> match_at re ls q)"
proof -
  obtain cb where cb: "cursor_byte_offset R rope p = Some cb" "pos_at_byte R BL rope (cb + 1) = Some (byte_on ls p)"
    using pos_byte_on [OF S p] .
  have start: "in_text ls (Position 0 0)" using some_row [OF S] by (simp add: in_text_def)
  from find_next_around [OF S re byte_on_in [OF p]] show ?thesis
  proof (elim disjE exE conjE)
    fix q e assume q: "find_next R re rope (byte_on ls p) = Some (Some (q, e))"
      "next_around (match_at re ls) (\<lambda>x. byte_on ls p \<le> x) q"
    have "find_below R BL re wrap rope p = Some (Some (q, e))" using cb q(1) by (simp add: find_below_def)
    with q(2) show ?thesis by blast
  next
    assume n: "find_next R re rope (byte_on ls p) = Some None" "\<forall>q. \<not> match_at re ls q"
    have "find_next R re rope (Position 0 0) = Some None"
      using find_next_around [OF S re start] n(2) next_around_pred by blast
    then have "find_below R BL re wrap rope p = Some None" using cb n(1) by (simp add: find_below_def)
    with n(2) show ?thesis by blast
  qed
qed

lemma start_byte:
  assumes S: "searched R BL rope ls"
  shows "in_text ls (Position 0 0)" "cursor_byte_offset R rope (Position 0 0) = Some 0"
  using some_row [OF S] cursor_byte [OF S, of 0 0] by (simp_all add: in_text_def rows_before_def)

lemma find_above_start:
  "searched R BL rope ls \<Longrightarrow> find_above R BL re False rope (Position 0 0) = Some None"
  by (simp add: find_above_def start_byte)

lemma only_start_byte:
  assumes S: "searched R BL rope ls" and p: "in_text ls p" and z: "cursor_byte_offset R rope p = Some 0"
  shows "p = Position 0 0"
proof -
  obtain r c where rc: "p = Position r c" "r < length ls" "c \<le> length (ls ! r)"
    using p by (cases p) (auto simp: in_text_def)
  have sum: "bytes_before r ls + boff (ls ! r) c = 0" using z by (simp add: rc(1) cursor_byte [OF S rc(2)])
  have "r = 0"
  proof (rule ccontr)
    assume "r \<noteq> 0"
    then have "bytes_before (Suc 0) ls \<le> bytes_before r ls" "0 < length ls" using rc(2) by (auto intro!: bytes_before_mono)
    then show False using sum bytes_before_Suc [of 0 ls] by linarith
  qed
  moreover have "c = 0"
    using sum boff_less [of 0 c "ls ! r"] rc(3) by (cases c) auto
  ultimately show ?thesis by (simp add: rc(1))
qed

lemma find_above_found:
  assumes S: "searched R BL rope ls" and re: "regex_laws re" and p: "in_text ls p"
    and around: "\<not> (\<not> wrap \<and> p = Position 0 0)"
  shows "(\<exists>q e. find_above R BL re wrap rope p = Some (Some (q, e)) \<and> prev_around (iter_at re ls) (\<lambda>x. x \<le> before_pos ls p) q) \<or>
    find_above R BL re wrap rope p = Some None \<and> (\<forall>q. \<not> iter_at re ls q)"
proof -
  obtain cb where cb: "cursor_byte_offset R rope p = Some cb"
    "pos_at_byte R BL rope (if cb = 0 then rp_len_bytes R rope else cb - 1) = Some (before_pos ls p)"
    using step_back_before [OF S p] .
  let ?f = "find_prev R re rope (before_pos ls p)"
  have wrap: "cb = 0 \<Longrightarrow> wrap" using around only_start_byte [OF S p] cb(1) by auto
  have unfold: "find_above R BL re wrap rope p = (if cb = 0 then ?f
      else case ?f of None \<Rightarrow> None | Some (Some m) \<Rightarrow> Some (Some m)
        | Some None \<Rightarrow> if wrap then do { e \<leftarrow> pos_at_byte R BL rope (rp_len_bytes R rope); find_prev R re rope e } else Some None)"
    using cb wrap by (auto simp: find_above_def split: option.splits)
  have e: "pos_at_byte R BL rope (rp_len_bytes R rope) = Some (before_pos ls (Position 0 0))"
    using step_back_before [OF S start_byte(1) [OF S]] start_byte(2) [OF S] by force
  have last_none: "find_prev R re rope (before_pos ls (Position 0 0)) = Some None" if "\<forall>q. \<not> iter_at re ls q"
    using find_prev_around [OF S re before_pos_in [OF start_byte(1) [OF S]]] that prev_around_pred by blast
  from find_prev_around [OF S re before_pos_in [OF p]] show ?thesis
  proof (elim disjE exE conjE)
    fix q e assume q: "?f = Some (Some (q, e))" "prev_around (iter_at re ls) (\<lambda>x. x \<le> before_pos ls p) q"
    show ?thesis unfolding unfold using q by (cases "cb = 0") auto
  next
    assume n: "?f = Some None" "\<forall>q. \<not> iter_at re ls q"
    show ?thesis unfolding unfold using n(1) last_none [OF n(2)] e n(2) by auto
  qed
qed

section \<open>Resolved addresses lie in the text\<close>

text \<open>Where an address is resolved from: the cursor, or a line behind a semicolon.\<close>

definition from_ok :: "rstring list \<Rightarrow> nat option \<Rightarrow> bool" where
  "from_ok ls from_row \<longleftrightarrow> (case from_row of Some r \<Rightarrow> 1 \<le> r \<and> r \<le> rows_of ls | None \<Rightarrow> True)"

lemma ex_okD:
  assumes "ex_ok R BL C ed ls"
  shows ex_searched: "searched R BL (xe_rope ed) ls" and ex_compiled: "C src = Some re \<Longrightarrow> regex_laws (cp_regex re)"
    and ex_cursor: "in_text ls (xe_cursor ed)" and ex_content: "content_rows R (xe_rope ed) = Some (rows_of ls)"
    and ex_rows: "1 \<le> rows_of ls" "rows_of ls \<le> length ls"
  using assms some_row [of R BL "xe_rope ed" ls] rows_of_bounds [of ls]
  by (auto simp: ex_ok_def compiler_laws_def intro: content_rows_lines)

lemma search_from_in:
  assumes "ex_ok R BL C ed ls" "from_ok ls from_row"
  shows "in_text ls (search_from from_row (xe_cursor ed))"
  using assms(2) ex_cursor [OF assms(1)] ex_rows [OF assms(1)]
  by (auto simp: search_from_def from_ok_def in_text_def split: option.splits)

lemma resolve_search_total:
  assumes ok: "ex_ok R BL C ed ls" and from_row: "from_ok ls from_row"
  shows "\<exists>r. resolve_search_address R BL T C pattern forward ed from_row = Some r"
proof -
  note S = ex_searched [OF ok] and p = search_from_in [OF ok from_row]
  define src where "src = pattern_source (resolve_case_mode (ct_is_upper T) pattern
      (case_from_options (xe_ignore_case ed) (xe_smartcase ed)) (last_substitute_replacement ed))"
  show ?thesis
  proof (cases "pattern = [] \<or> C src = None")
    case True
    then show ?thesis by (auto simp: resolve_search_address_def Let_def src_def)
  next
    case False
    then obtain re where re: "C src = Some re" by auto
    let ?c = "search_from from_row (xe_cursor ed)"
    have "\<exists>f. find_above R BL (cp_regex re) (xe_wrapscan ed) (xe_rope ed) ?c = Some f"
    proof (cases "\<not> xe_wrapscan ed \<and> ?c = Position 0 0")
      case True
      then show ?thesis using find_above_start [OF S] by simp
    next
      case False
      then show ?thesis using find_above_found [OF S ex_compiled [OF ok re] p False] by auto
    qed
    then have "\<exists>f. (if forward then find_below else find_above) R BL (cp_regex re) (xe_wrapscan ed) (xe_rope ed) ?c = Some f"
      using find_below_found [OF S ex_compiled [OF ok re] p, of "xe_wrapscan ed"] by (cases forward) auto
    then show ?thesis using False re by (auto simp: resolve_search_address_def Let_def src_def)
  qed
qed

lemma address_base_total:
  assumes "ex_ok R BL C ed ls" "from_ok ls from_row"
  shows "\<exists>base. address_base R BL T C addr ed from_row n = Some base"
  using resolve_search_total [OF assms] by (cases addr) (simp_all add: address_base_def)

lemma resolve_in_text:
  assumes ok: "ex_ok R BL C ed ls" and from_row: "from_ok ls from_row"
  obtains (bad) e where "resolve_address R BL T C addr offset ed from_row = Some (Inl e)"
  | (good) k where "resolve_address R BL T C addr offset ed from_row = Some (Inr k)" "1 \<le> k" "k \<le> rows_of ls"
proof -
  obtain base where base: "address_base R BL T C addr ed from_row (max (rows_of ls) 1) = Some base"
    using address_base_total [OF ok from_row] by blast
  show thesis
  proof (cases base)
    case (Inl e)
    then have "resolve_address R BL T C addr offset ed from_row = Some (Inl e)"
      using base by (simp add: resolve_address_def Let_def ex_content [OF ok])
    then show thesis by (rule bad)
  next
    case (Inr b)
    let ?k = "nat (max 1 (min (int (max (rows_of ls) 1)) (saturating_add64 b offset)))"
    have "resolve_address R BL T C addr offset ed from_row = Some (Inr ?k)"
      using base Inr by (simp add: resolve_address_def Let_def ex_content [OF ok])
    moreover have "1 \<le> ?k" "?k \<le> rows_of ls" using ex_rows(1) [OF ok] by (auto simp: max_def min_def)
    ultimately show thesis by (rule good)
  qed
qed

section \<open>Parsed ranges lie in the text\<close>

lemma until_delim_rest: "\<exists>typed. cs = typed @ snd (until_delim d e cs)"
proof (induction d e cs rule: until_delim.induct)
  case (2 d escaped c cs)
  show ?case
  proof (cases "c = d \<and> \<not> escaped")
    case False
    then obtain typed where "cs = typed @ snd (until_delim d (c = 92) cs)" using 2 by blast
    then have "c # cs = (c # typed) @ snd (until_delim d escaped (c # cs))"
      using False by (cases "until_delim d (c = 92) cs") auto
    then show ?thesis by blast
  qed (auto intro: exI [of _ "[c]"])
qed simp

lemma base_address_rest: "parse_base_address s = Some (a, rest) \<Longrightarrow> \<exists>typed. s = typed @ rest"
proof -
  assume a: "parse_base_address s = Some (a, rest)"
  then obtain c cs where s: "s = c # cs" by (cases s) (auto simp: parse_base_address_def)
  have "takeWhile is_digit s @ dropWhile is_digit s = s" by simp
  moreover obtain typed where "cs = typed @ snd (until_delim c False cs)" using until_delim_rest by blast
  ultimately have "\<exists>typed. s = typed @ rest"
    if "rest = s \<or> rest = cs \<or> rest = tl cs \<and> cs \<noteq> [] \<or> rest = dropWhile is_digit s \<or> rest = snd (until_delim c False cs)"
    using that s by (metis append.left_neutral append_Cons append_Cons append_Nil list.collapse)
  moreover have "rest = s \<or> rest = cs \<or> rest = tl cs \<and> cs \<noteq> [] \<or> rest = dropWhile is_digit s \<or> rest = snd (until_delim c False cs)"
    using a by (auto simp: s parse_base_address_def split: if_splits list.splits option.splits prod.splits)
  ultimately show ?thesis by blast
qed

lemma offset_chain_rest: "\<exists>typed. s = typed @ snd (parse_offset_chain tot s)"
proof (induction tot s rule: parse_offset_chain.induct)
  case (2 tot c cs)
  let ?m = "if takeWhile is_digit cs = [] then Some 1 else parse_i64_digits (takeWhile is_digit cs)"
  show ?case
  proof (cases "(c = 43 \<or> c = 45) \<and> ?m \<noteq> None")
    case True
    then obtain m where m: "?m = Some m" by auto
    obtain typed where t: "dropWhile is_digit cs = typed @
        snd (parse_offset_chain (saturating_add64 tot ((if c = 43 then 1 else -1) * m)) (dropWhile is_digit cs))"
      using 2 [OF _ refl m] True by blast
    have "c # cs = (c # takeWhile is_digit cs @ typed) @ snd (parse_offset_chain tot (c # cs))"
      using True m t takeWhile_dropWhile_id [of is_digit cs] by (simp add: Let_def)
    then show ?thesis by blast
  next
    case False
    then have "parse_offset_chain tot (c # cs) = (tot, c # cs)" by (auto simp: Let_def split: option.splits)
    then show ?thesis by simp
  qed
qed simp

lemma address_rest: "parse_address s = Some (a, k, rest) \<Longrightarrow> \<exists>typed. s = typed @ rest"
proof -
  assume "parse_address s = Some (a, k, rest)"
  then obtain rest1 where r: "parse_base_address s = Some (a, rest1)" "parse_offset_chain 0 rest1 = (k, rest)"
    by (auto simp: parse_address_def split: option.splits prod.splits)
  then show ?thesis using base_address_rest [OF r(1)] offset_chain_rest [of rest1 0] by (metis append.assoc snd_conv)
qed

text \<open>A number whose sum with its offset does not fit 64 bits, at the beginning of a text.\<close>

definition overflows_at :: "rstring \<Rightarrow> bool" where
  "overflows_at s \<longleftrightarrow> (\<exists>n k rest. parse_address s = Some (Number n, k, rest) \<and> add64 (as_i64 n) k = None)"

lemma number_past_eof_total:
  assumes "parse_address s = Some (addr, k, rest)" "\<not> overflows_at s"
  shows "\<exists>b. number_past_eof n addr k = Some b"
  using assms by (cases addr) (auto simp: number_past_eof_def overflows_at_def)

text \<open>What \<open>parse_range\<close> may answer to a command.\<close>

definition range_answer_ok :: "rstring list \<Rightarrow> rstring \<Rightarrow> (range_error + line_range option \<times> rstring) option \<Rightarrow> bool" where
  "range_answer_ok ls cmd answer \<longleftrightarrow>
     (case answer of
        None \<Rightarrow> \<exists>before s. cmd = before @ s \<and> overflows_at s
      | Some (Inl e) \<Rightarrow> True
      | Some (Inr (None, rest)) \<Rightarrow> rest = cmd
      | Some (Inr (Some r, rest)) \<Rightarrow>
          1 \<le> range_start r \<and> range_start r \<le> range_end r \<and> range_end r \<le> rows_of ls \<and> (\<exists>typed. cmd = typed @ rest))"

lemma range_end_answer:
  assumes ok: "ex_ok R BL C ed ls" and st: "1 \<le> st" "st \<le> rows_of ls" and cmd: "cmd = typed @ after_sep"
  shows "range_answer_ok ls cmd (parse_range_end R BL T C ed n past st sep after_sep)"
proof -
  have from_row: "from_ok ls (if sep = 59 then Some st else None)" using st by (simp add: from_ok_def)
  consider (stop) "after_sep = [] \<or> parse_address after_sep = None"
    | (addr) addr k rest where "after_sep \<noteq> []" "parse_address after_sep = Some (addr, k, rest)"
    by (cases "parse_address after_sep") auto
  then show ?thesis
  proof cases
    case stop
    then show ?thesis by (auto simp: parse_range_end_def range_answer_ok_def)
  next
    case addr
    then obtain t where rest: "after_sep = t @ rest" using address_rest by blast
    show ?thesis
    proof (cases "\<not> past \<and> overflows_at after_sep")
      case True
      then have "number_past_eof n addr k = None" using addr(2) by (auto simp: overflows_at_def number_past_eof_def)
      then have "parse_range_end R BL T C ed n past st sep after_sep = None" using True addr by (simp add: parse_range_end_def)
      with True cmd show ?thesis by (auto simp: range_answer_ok_def)
    next
      case False
      then obtain b where b: "(if past then Some True else number_past_eof n addr k) = Some b"
        using number_past_eof_total [OF addr(2)] by (cases past) auto
      show ?thesis
      proof (cases rule: resolve_in_text [OF ok from_row, of T addr k])
        case (1 e)
        then show ?thesis using b addr by (simp add: range_answer_ok_def parse_range_end_def)
      next
        case (2 e)
        then show ?thesis using b addr st cmd rest by (simp add: range_answer_ok_def parse_range_end_def)
      qed
    qed
  qed
qed

lemma parse_range_addr:
  assumes ok: "ex_ok R BL C ed ls" and addr: "\<not> (cmd \<noteq> [] \<and> hd cmd = 37)" "parse_address cmd = Some (addr, k, rest)"
    and past: "number_past_eof (rows_of ls) addr k = Some past"
  shows "parse_range R BL T C cmd ed = (case resolve_address R BL T C addr k ed None of
      None \<Rightarrow> None
    | Some (Inl e) \<Rightarrow> Some (Inl e)
    | Some (Inr st) \<Rightarrow>
        if rest \<noteq> [] \<and> (hd rest = 44 \<or> hd rest = 59) then parse_range_end R BL T C ed (rows_of ls) past st (hd rest) (tl rest)
        else if past \<and> trim_ws rest \<noteq> [] then Some (Inl InvalidRange) else Some (Inr (Some (single st), rest)))"
proof -
  have n: "max (rows_of ls) 1 = rows_of ls" using ex_rows(1) [OF ok] by simp
  have "parse_range R BL T C cmd ed = do {
      st \<leftarrow> resolve_address R BL T C addr k ed None;
      case st of
        Inl err \<Rightarrow> Some (Inl err)
      | Inr st \<Rightarrow>
          if rest \<noteq> [] \<and> (hd rest = 44 \<or> hd rest = 59) then parse_range_end R BL T C ed (rows_of ls) past st (hd rest) (tl rest)
          else if past \<and> trim_ws rest \<noteq> [] then Some (Inl InvalidRange) else Some (Inr (Some (single st), rest)) }"
    unfolding parse_range_def ex_content [OF ok] Option.bind.simps Let_def n if_not_P [OF addr(1)] addr(2)
    by (simp only: option.case prod.case past Option.bind.simps)
  then show ?thesis by (simp split: option.split)
qed

lemma range_answer:
  assumes ok: "ex_ok R BL C ed ls"
  shows "range_answer_ok ls cmd (parse_range R BL T C cmd ed)"
proof -
  have n: "max (rows_of ls) (Suc 0) = rows_of ls" using ex_rows(1) [OF ok] by simp
  consider (whole) "cmd \<noteq> []" "hd cmd = 37"
    | (none) "\<not> (cmd \<noteq> [] \<and> hd cmd = 37)" "parse_address cmd = None"
    | (over) "\<not> (cmd \<noteq> [] \<and> hd cmd = 37)" "overflows_at cmd"
    | (addr) addr k rest where "\<not> (cmd \<noteq> [] \<and> hd cmd = 37)" "\<not> overflows_at cmd" "parse_address cmd = Some (addr, k, rest)"
    by (cases "parse_address cmd") auto
  then show ?thesis
  proof cases
    case whole
    then have "cmd = [37] @ tl cmd" by (cases cmd) auto
    then have "\<exists>typed. cmd = typed @ tl cmd" by blast
    with whole ex_rows(1) [OF ok] show ?thesis by (simp add: parse_range_def ex_content [OF ok] range_answer_ok_def)
  next
    case none
    then show ?thesis by (auto simp: parse_range_def ex_content [OF ok] range_answer_ok_def)
  next
    case over
    then have "parse_range R BL T C cmd ed = None"
      by (auto simp: parse_range_def ex_content [OF ok] overflows_at_def number_past_eof_def)
    moreover have "\<exists>before s. cmd = before @ s \<and> overflows_at s"
      using over(2) by (intro exI [of _ "[]"] exI [of _ cmd]) simp
    ultimately show ?thesis by (simp add: range_answer_ok_def)
  next
    case addr
    then obtain t where rest: "cmd = t @ rest" using address_rest by blast
    obtain past where past: "number_past_eof (rows_of ls) addr k = Some past"
      using number_past_eof_total [OF addr(3,2)] by blast
    have from_row: "from_ok ls None" by (simp add: from_ok_def)
    note unfold = parse_range_addr [OF ok addr(1,3) past, of T]
    show ?thesis
    proof (cases rule: resolve_in_text [OF ok from_row, of T addr k])
      case (1 e)
      then show ?thesis by (simp add: unfold range_answer_ok_def)
    next
      case good: (2 st)
      show ?thesis
      proof (cases "rest \<noteq> [] \<and> (hd rest = 44 \<or> hd rest = 59)")
        case True
        then have "cmd = (t @ [hd rest]) @ tl rest" using rest by simp
        from range_end_answer [OF ok good(2,3) this] show ?thesis using True good(1) by (simp add: unfold)
      next
        case False
        then have "parse_range R BL T C cmd ed = Some (Inl InvalidRange) \<or>
            parse_range R BL T C cmd ed = Some (Inr (Some (single st), rest))"
          unfolding unfold if_not_P [OF False] good(1) by simp
        then show ?thesis using good(2,3) rest by (auto simp: range_answer_ok_def single_def)
      qed
    qed
  qed
qed

text \<open>A number from \<open>2 ^ 63\<close> on is negative as an \<open>i64\<close>: it passes for a line of the text, the first.\<close>

lemma huge_number_wraps:
  assumes "ex_ok R BL C ed ls"
  shows "number_past_eof n (Number (2 ^ 63)) 0 = Some False"
    and "resolve_address R BL T C (Number (2 ^ 63)) 0 ed None = Some (Inr 1)"
  using ex_rows(1) [OF assms]
  by (simp_all add: number_past_eof_def add64_def as_i64_def i64_min_def i64_max_def resolve_address_def
      ex_content [OF assms] address_base_def saturating_add64_def)

end
