(* ===== verification/RangeSyntax.thy ===== *)
theory RangeSyntax
  imports ExRangeLaws
begin

text \<open>
  The abstract syntax of ranges, its printing, and the lines a range denotes: every printed
  range parses and resolves to what it denotes.
\<close>

section \<open>Syntax\<close>

datatype base_syntax =
    OnLine nat
  | Here
  | Implicit
  | OnLast
  | AtMark rchar
  | Below rstring
  | Above rstring

text \<open>An offset: plus or minus, and a number or none for one.\<close>

type_synonym offset_syntax = "bool \<times> nat option"

datatype addr_syntax = Addr (addr_base: base_syntax) (addr_offsets: "offset_syntax list")

text \<open>The flag of two addresses tells a semicolon from a comma.\<close>

datatype range_syntax = Whole | One addr_syntax | Two addr_syntax bool addr_syntax

fun print_base :: "base_syntax \<Rightarrow> rstring" where
  "print_base (OnLine n) = dec_digits n"
| "print_base Here = [46]"
| "print_base Implicit = []"
| "print_base OnLast = [36]"
| "print_base (AtMark m) = [39, m]"
| "print_base (Below pat) = 47 # pat @ [47]"
| "print_base (Above pat) = 63 # pat @ [63]"

fun print_offset :: "offset_syntax \<Rightarrow> rstring" where
  "print_offset (forth, k) = (if forth then 43 else 45) # (case k of None \<Rightarrow> [] | Some n \<Rightarrow> dec_digits n)"

fun print_addr :: "addr_syntax \<Rightarrow> rstring" where
  "print_addr (Addr b os) = print_base b @ concat (map print_offset os)"

fun print_range :: "range_syntax \<Rightarrow> rstring" where
  "print_range Whole = [37]"
| "print_range (One a) = print_addr a"
| "print_range (Two a semi b) = print_addr a @ [if semi then 59 else 44] @ print_addr b"

fun base_address :: "base_syntax \<Rightarrow> address" where
  "base_address (OnLine n) = Number n"
| "base_address Here = Current"
| "base_address Implicit = Current"
| "base_address OnLast = LastLine"
| "base_address (AtMark m) = MarkAddr m"
| "base_address (Below pat) = SearchAddr pat True"
| "base_address (Above pat) = SearchAddr pat False"

fun offset_size :: "offset_syntax \<Rightarrow> nat" where
  "offset_size (forth, k) = (case k of None \<Rightarrow> 1 | Some n \<Rightarrow> n)"

fun offset_value :: "offset_syntax \<Rightarrow> int" where
  "offset_value (forth, k) = (if forth then 1 else -1) * int (offset_size (forth, k))"

abbreviation offset_sum :: "offset_syntax list \<Rightarrow> int" where
  "offset_sum os \<equiv> sum_list (map offset_value os)"

text \<open>A pattern without the delimiter but behind a backslash, which does not end in one.\<close>

fun no_delim :: "rchar \<Rightarrow> bool \<Rightarrow> rstring \<Rightarrow> bool" where
  "no_delim d escaped [] \<longleftrightarrow> \<not> escaped"
| "no_delim d escaped (c # cs) \<longleftrightarrow> (c = d \<longrightarrow> escaped) \<and> no_delim d (c = 92) cs"

fun base_syntax_ok :: "base_syntax \<Rightarrow> bool" where
  "base_syntax_ok (OnLine n) \<longleftrightarrow> n < 2 ^ 62"
| "base_syntax_ok (Below pat) \<longleftrightarrow> no_delim 47 False pat"
| "base_syntax_ok (Above pat) \<longleftrightarrow> no_delim 63 False pat"
| "base_syntax_ok b \<longleftrightarrow> True"

text \<open>Numbers stay far from the bounds of 64 bits.\<close>

fun addr_syntax_ok :: "addr_syntax \<Rightarrow> bool" where
  "addr_syntax_ok (Addr b os) \<longleftrightarrow> base_syntax_ok b \<and> (b = Implicit \<longrightarrow> os \<noteq> []) \<and> sum_list (map offset_size os) < 2 ^ 62"

definition ends_addr :: "rstring \<Rightarrow> bool" where
  "ends_addr rest \<longleftrightarrow> rest = [] \<or> (\<not> is_digit (hd rest) \<and> hd rest \<notin> {43, 45})"

fun range_syntax_ok :: "range_syntax \<Rightarrow> rstring \<Rightarrow> bool" where
  "range_syntax_ok Whole rest \<longleftrightarrow> True"
| "range_syntax_ok (One a) rest \<longleftrightarrow> addr_syntax_ok a \<and> ends_addr rest \<and> (rest \<noteq> [] \<longrightarrow> hd rest \<notin> {44, 59})"
| "range_syntax_ok (Two a semi b) rest \<longleftrightarrow> addr_syntax_ok a \<and> addr_syntax_ok b \<and> ends_addr rest"

section \<open>Printed addresses parse\<close>

lemma dec_digits_value: "dec_value (dec_digits n) 0 = n"
proof -
  have app: "dec_value (xs @ [c]) acc = 10 * dec_value xs acc + (c - 48)" for xs c acc
    by (induction xs arbitrary: acc) simp_all
  show ?thesis
  proof (induction n rule: dec_digits.induct)
    case (1 n)
    then show ?case by (subst dec_digits.simps) (simp add: app)
  qed
qed

lemma dec_digits_nonempty: "dec_digits n \<noteq> []"
  by (subst dec_digits.simps) simp

lemma dec_digits_digits: "list_all is_digit (dec_digits n)"
  using dec_digits_range by (fastforce simp: list_all_iff is_digit_def)

lemma no_digit_head: "rest = [] \<or> \<not> is_digit (hd rest) \<Longrightarrow> takeWhile is_digit rest = [] \<and> dropWhile is_digit rest = rest"
  by (cases rest) auto

lemma digits_then:
  assumes "rest = [] \<or> \<not> is_digit (hd rest)"
  shows "takeWhile is_digit (dec_digits n @ rest) = dec_digits n" "dropWhile is_digit (dec_digits n @ rest) = rest"
proof -
  have d: "\<forall>x \<in> set (dec_digits n). is_digit x" using dec_digits_digits [of n] by (simp add: list_all_iff)
  have "takeWhile is_digit rest = []" "dropWhile is_digit rest = rest" using assms by (cases rest; simp)+
  with d show "takeWhile is_digit (dec_digits n @ rest) = dec_digits n" "dropWhile is_digit (dec_digits n @ rest) = rest"
    by (simp_all add: takeWhile_append2 dropWhile_append2)
qed

lemma dec_digits_hd: "is_digit (hd (dec_digits n @ rest))"
  using dec_digits_digits [of n] dec_digits_nonempty [of n] by (cases "dec_digits n") auto

lemma until_delim_print: "no_delim d e pat \<Longrightarrow> until_delim d e (pat @ d # rest) = (pat, rest)"
  by (induction d e pat rule: no_delim.induct) auto

lemma offset_head: "ends_addr rest \<Longrightarrow>
    concat (map print_offset os) @ rest = [] \<or> \<not> is_digit (hd (concat (map print_offset os) @ rest))"
  by (cases os) (auto simp: ends_addr_def is_digit_def split: if_splits)

lemma offsets_parse:
  assumes "ends_addr rest" "\<bar>tot\<bar> + int (sum_list (map offset_size os)) < 2 ^ 63"
  shows "parse_offset_chain tot (concat (map print_offset os) @ rest) = (tot + offset_sum os, rest)"
  using assms(2)
proof (induction os arbitrary: tot)
  case Nil
  then show ?case using assms(1) by (cases rest) (auto simp: ends_addr_def)
next
  case (Cons o1 os)
  obtain forth k where o1: "o1 = (forth, k)" by (cases o1)
  let ?tail = "concat (map print_offset os) @ rest"
  let ?ds = "case k of None \<Rightarrow> [] | Some n \<Rightarrow> dec_digits n"
  have tail: "takeWhile is_digit (?ds @ ?tail) = ?ds" "dropWhile is_digit (?ds @ ?tail) = ?tail"
  proof -
    note h = offset_head [OF assms(1), of os]
    show "takeWhile is_digit (?ds @ ?tail) = ?ds" "dropWhile is_digit (?ds @ ?tail) = ?tail"
      using digits_then [OF h] no_digit_head [OF h] by (cases k; simp only: option.case append_Nil)+
  qed
  have size: "\<bar>tot\<bar> + int (offset_size o1) + int (sum_list (map offset_size os)) < 2 ^ 63" using Cons.prems by simp
  have m: "(if ?ds = [] then Some 1 else parse_i64_digits ?ds) = Some (int (offset_size o1))"
  proof (cases k)
    case (Some n)
    have "int n \<le> i64_max" using size by (simp add: o1 Some i64_max_def)
    then show ?thesis using Some dec_digits_nonempty by (simp add: o1 parse_i64_digits_def dec_digits_value)
  qed (simp add: o1)
  have v: "(if (if forth then 43 else 45) = (43 :: nat) then 1 else - 1) * int (offset_size o1) = offset_value o1"
    by (simp add: o1)
  have abs: "\<bar>offset_value o1\<bar> = int (offset_size o1)" by (simp add: o1 abs_mult)
  have "saturating_add64 tot (offset_value o1) = tot + offset_value o1"
    using size abs by (simp add: saturating_add64_def i64_max_def i64_min_def)
  then have "parse_offset_chain tot (print_offset o1 @ ?tail) = parse_offset_chain (tot + offset_value o1) ?tail"
    using tail m v by (simp add: o1 Let_def del: offset_value.simps)
  moreover have "\<bar>tot + offset_value o1\<bar> + int (sum_list (map offset_size os)) < 2 ^ 63" using size abs by linarith
  ultimately show ?case using Cons.IH by simp
qed

lemma base_parse:
  assumes "base_syntax_ok b" and "b = Implicit \<Longrightarrow> tail \<noteq> [] \<and> (hd tail = 43 \<or> hd tail = 45)"
    and "tail = [] \<or> \<not> is_digit (hd tail)"
  shows "parse_base_address (print_base b @ tail) = Some (base_address b, tail)"
proof (cases b)
  case (OnLine n)
  obtain c cs where s: "dec_digits n @ tail = c # cs" using dec_digits_nonempty [of n] by (cases "dec_digits n") auto
  have c: "is_digit c" using dec_digits_hd [of n tail] by (simp add: s)
  have "n \<le> usize_max" using assms(1) OnLine by (simp add: usize_max_def)
  moreover have "hd (dec_digits n) \<noteq> 43" using dec_digits_hd [of n "[]"] by (auto simp: is_digit_def)
  ultimately have "parse_usize (dec_digits n) = Some n"
    using dec_digits_nonempty [of n] dec_digits_digits [of n] dec_digits_value [of n]
    by (cases "dec_digits n") (auto simp: parse_usize_def Let_def)
  then have p: "parse_usize (takeWhile is_digit (c # cs)) = Some n" "dropWhile is_digit (c # cs) = tail"
    using digits_then [OF assms(3), of n] by (simp_all add: s)
  have "c \<noteq> 46 \<and> c \<noteq> 36 \<and> c \<noteq> 43 \<and> c \<noteq> 45 \<and> c \<noteq> 39" using c by (auto simp: is_digit_def)
  then have "parse_base_address (c # cs) = Some (Number n, tail)"
    using c p by (simp add: parse_base_address_def)
  then show ?thesis using OnLine s by simp
next
  case Implicit
  then show ?thesis using assms(2) by (cases tail) (auto simp: parse_base_address_def)
qed (use assms(1) until_delim_print in \<open>auto simp: parse_base_address_def is_digit_def\<close>)

lemma addr_parse:
  assumes "addr_syntax_ok a" "ends_addr rest"
  shows "parse_address (print_addr a @ rest) =
    Some (base_address (addr_base a), offset_sum (addr_offsets a), rest)"
proof -
  obtain b os where a: "a = Addr b os" by (cases a)
  let ?tail = "concat (map print_offset os) @ rest"
  have implicit: "?tail \<noteq> [] \<and> (hd ?tail = 43 \<or> hd ?tail = 45)" if "b = Implicit"
    using that assms(1) by (cases os) (auto simp: a split: if_splits)
  have "parse_base_address (print_base b @ ?tail) = Some (base_address b, ?tail)"
    using base_parse [OF _ implicit offset_head [OF assms(2)]] assms(1) by (simp add: a)
  moreover have "parse_offset_chain 0 ?tail = (offset_sum os, rest)"
    using offsets_parse [OF assms(2), of 0 os] assms(1) by (simp add: a)
  ultimately show ?thesis by (simp add: a parse_address_def)
qed

lemma address_not_percent: "parse_address cmd = Some x \<Longrightarrow> \<not> (cmd \<noteq> [] \<and> hd cmd = 37)"
  by (cases cmd) (auto simp: parse_address_def parse_base_address_def is_digit_def split: option.splits if_splits)

section \<open>What a range denotes\<close>

text \<open>The line of a base, resolved from the cursor or, behind a semicolon, from a line.  A search
  address is the row of the nearest match at or behind the byte behind the cursor, around the
  end of the text, whether or not \<open>wrapscan\<close> is on; backwards \<open>wrapscan\<close> counts at the very first
  position only.\<close>

definition address_regex :: "case_tables \<Rightarrow> (rstring \<Rightarrow> compiled option) \<Rightarrow> 'r ex_editor \<Rightarrow> rstring \<Rightarrow> compiled option" where
  "address_regex T C ed pat = C (pattern_source (resolve_case_mode (ct_is_upper T) pat
     (case_from_options (xe_ignore_case ed) (xe_smartcase ed)) (last_substitute_replacement ed)))"

definition search_denotes ::
  "(position \<Rightarrow> bool) \<Rightarrow> (position \<Rightarrow> bool) \<Rightarrow> rstring \<Rightarrow> range_error + int \<Rightarrow> bool" where
  "search_denotes P nearest pat line \<longleftrightarrow>
     (if \<forall>q. \<not> P q then line = Inl (PatternNotFound pat) else \<exists>q. nearest q \<and> line = Inr (int (p_row q) + 1))"

fun base_denotes ::
  "case_tables \<Rightarrow> (rstring \<Rightarrow> compiled option) \<Rightarrow> rstring list \<Rightarrow> 'r ex_editor \<Rightarrow> nat option \<Rightarrow> base_syntax \<Rightarrow> range_error + int \<Rightarrow> bool" where
  "base_denotes T C ls ed from_row (OnLine n) line \<longleftrightarrow> line = Inr (int n)"
| "base_denotes T C ls ed from_row OnLast line \<longleftrightarrow> line = Inr (int (rows_of ls))"
| "base_denotes T C ls ed from_row (AtMark m) line \<longleftrightarrow>
     line = (case xe_marks ed m of Some (r, _) \<Rightarrow> Inr (int r + 1) | None \<Rightarrow> Inl (MarkNotSet m))"
| "base_denotes T C ls ed from_row (Below pat) line \<longleftrightarrow>
     (if pat = [] then line = Inl NoPreviousPattern
      else case address_regex T C ed pat of
        None \<Rightarrow> line = Inl RangeBadPattern
      | Some re \<Rightarrow> search_denotes (match_at (cp_regex re) ls)
          (next_around (match_at (cp_regex re) ls) (\<lambda>q. byte_on ls (search_from from_row (xe_cursor ed)) \<le> q)) pat line)"
| "base_denotes T C ls ed from_row (Above pat) line \<longleftrightarrow>
     (if pat = [] then line = Inl NoPreviousPattern
      else case address_regex T C ed pat of
        None \<Rightarrow> line = Inl RangeBadPattern
      | Some re \<Rightarrow>
          if \<not> xe_wrapscan ed \<and> search_from from_row (xe_cursor ed) = Position 0 0 then line = Inl (PatternNotFound pat)
          else search_denotes (iter_at (cp_regex re) ls)
            (prev_around (iter_at (cp_regex re) ls) (\<lambda>q. q \<le> before_pos ls (search_from from_row (xe_cursor ed)))) pat line)"
| "base_denotes T C ls ed from_row b line \<longleftrightarrow>
     line = Inr (int (case from_row of Some r \<Rightarrow> r | None \<Rightarrow> p_row (xe_cursor ed) + 1))"

text \<open>The line of an address: its base and the offsets, within the text.\<close>

definition addr_line :: "rstring list \<Rightarrow> addr_syntax \<Rightarrow> int \<Rightarrow> nat" where
  "addr_line ls a base = nat (max 1 (min (int (rows_of ls)) (base + offset_sum (addr_offsets a))))"

definition beyond :: "rstring list \<Rightarrow> addr_syntax \<Rightarrow> bool" where
  "beyond ls a \<longleftrightarrow> (case addr_base a of OnLine n \<Rightarrow> int n + offset_sum (addr_offsets a) > int (rows_of ls) | _ \<Rightarrow> False)"

fun range_denotes ::
  "case_tables \<Rightarrow> (rstring \<Rightarrow> compiled option) \<Rightarrow> rstring list \<Rightarrow> 'r ex_editor \<Rightarrow> range_syntax \<Rightarrow> rstring \<Rightarrow>
   range_error + line_range option \<times> rstring \<Rightarrow> bool" where
  "range_denotes T C ls ed Whole rest answer \<longleftrightarrow> answer = Inr (Some (LineRange 1 (rows_of ls)), rest)"
| "range_denotes T C ls ed (One a) rest answer \<longleftrightarrow>
     (\<exists>base. base_denotes T C ls ed None (addr_base a) base \<and>
       answer = (case base of
           Inl e \<Rightarrow> Inl e
         | Inr k \<Rightarrow> if beyond ls a \<and> trim_ws rest \<noteq> [] then Inl InvalidRange
                    else Inr (Some (single (addr_line ls a k)), rest)))"
| "range_denotes T C ls ed (Two a semi b) rest answer \<longleftrightarrow>
     (\<exists>base. base_denotes T C ls ed None (addr_base a) base \<and>
       (case base of
          Inl e \<Rightarrow> answer = Inl e
        | Inr k \<Rightarrow>
            if (beyond ls a \<or> beyond ls b) \<and> trim_ws rest \<noteq> [] then answer = Inl InvalidRange
            else \<exists>base2. base_denotes T C ls ed (if semi then Some (addr_line ls a k) else None) (addr_base b) base2 \<and>
              answer = (case base2 of
                  Inl e \<Rightarrow> Inl e
                | Inr k2 \<Rightarrow> if addr_line ls a k > addr_line ls b k2 then Inl BackwardsRange
                            else Inr (Some (LineRange (addr_line ls a k) (addr_line ls b k2)), rest))))"

section \<open>Printed ranges resolve to what they denote\<close>

lemma base_resolves:
  assumes ok: "ex_ok R BL C ed ls" and from_row: "from_ok ls from_row" and b: "base_syntax_ok b"
  shows "\<exists>line. address_base R BL T C (base_address b) ed from_row (rows_of ls) = Some line \<and>
    base_denotes T C ls ed from_row b line"
proof -
  let ?c = "search_from from_row (xe_cursor ed)"
  note S = ex_searched [OF ok] and p = search_from_in [OF ok from_row]
  have search: "\<exists>line. resolve_search_address R BL T C pat forward ed from_row = Some line \<and>
      base_denotes T C ls ed from_row (if forward then Below pat else Above pat) line" for pat forward
  proof -
    consider (empty) "pat = []" | (bad) "pat \<noteq> []" "address_regex T C ed pat = None"
      | (re) re where "pat \<noteq> []" "address_regex T C ed pat = Some re" by (cases "address_regex T C ed pat") auto
    then show ?thesis
    proof cases
      case empty
      then show ?thesis by (simp add: resolve_search_address_def)
    next
      case bad
      then show ?thesis by (simp add: resolve_search_address_def address_regex_def Let_def)
    next
      case re
      let ?re = "cp_regex re"
      have laws: "regex_laws ?re" using re(2) ex_compiled [OF ok] by (auto simp: address_regex_def)
      have unfold: "resolve_search_address R BL T C pat forward ed from_row =
          map_option (\<lambda>found. case found of Some m \<Rightarrow> Inr (int (p_row (fst m)) + 1) | None \<Rightarrow> Inl (PatternNotFound pat))
            ((if forward then find_below else find_above) R BL ?re (xe_wrapscan ed) (xe_rope ed) ?c)"
        using re by (simp add: resolve_search_address_def address_regex_def Let_def map_conv_bind_option comp_def)
      show ?thesis
      proof (cases forward)
        case True
        from find_below_found [OF S laws p, of "xe_wrapscan ed"] show ?thesis
        proof (elim disjE exE conjE)
          fix q e assume "find_below R BL ?re (xe_wrapscan ed) (xe_rope ed) ?c = Some (Some (q, e))"
            "next_around (match_at ?re ls) (\<lambda>x. byte_on ls ?c \<le> x) q"
          then show ?thesis
            unfolding unfold using True re next_around_pred [of "match_at ?re ls" _ q] by (auto simp: search_denotes_def)
        qed (unfold unfold, use True re in \<open>auto simp: search_denotes_def\<close>)
      next
        case False
        show ?thesis
        proof (cases "\<not> xe_wrapscan ed \<and> ?c = Position 0 0")
          case True
          then show ?thesis unfolding unfold using False re find_above_start [OF S] by simp
        next
          case around: False
          from find_above_found [OF S laws p around] show ?thesis
          proof (elim disjE exE conjE)
            fix q e assume "find_above R BL ?re (xe_wrapscan ed) (xe_rope ed) ?c = Some (Some (q, e))"
              "prev_around (iter_at ?re ls) (\<lambda>x. x \<le> before_pos ls ?c) q"
            then show ?thesis
              unfolding unfold using False re around prev_around_pred [of "iter_at ?re ls" _ q] by (auto simp: search_denotes_def)
          qed (unfold unfold, use False re around in \<open>auto simp: search_denotes_def\<close>)
        qed
      qed
    qed
  qed
  show ?thesis
  proof (cases b)
    case (OnLine n)
    then have "as_i64 n = int n" using b by (simp add: as_i64_def)
    then show ?thesis by (simp add: OnLine address_base_def)
  next
    case (Below pat)
    then show ?thesis using search [of pat True] by (simp add: address_base_def)
  next
    case (Above pat)
    then show ?thesis using search [of pat False] by (simp add: address_base_def)
  qed (simp_all add: address_base_def)
qed

lemma address_resolves:
  assumes ok: "ex_ok R BL C ed ls" and from_row: "from_ok ls from_row" and a: "addr_syntax_ok a"
    and len: "length ls < 2 ^ 63"
  shows "\<exists>line. base_denotes T C ls ed from_row (addr_base a) line \<and>
    resolve_address R BL T C (base_address (addr_base a)) (offset_sum (addr_offsets a)) ed from_row =
      Some (case line of Inl e \<Rightarrow> Inl e | Inr k \<Rightarrow> Inr (addr_line ls a k))"
proof -
  have b: "base_syntax_ok (addr_base a)" using a by (cases a) simp
  obtain line where line: "address_base R BL T C (base_address (addr_base a)) ed from_row (rows_of ls) = Some line"
    "base_denotes T C ls ed from_row (addr_base a) line" using base_resolves [OF ok from_row b] by blast
  have n: "max (rows_of ls) 1 = rows_of ls" using ex_rows(1) [OF ok] by simp
  have clamp: "max 1 (min (int (rows_of ls)) (saturating_add64 k d)) = max 1 (min (int (rows_of ls)) (k + d))" for k d
    using ex_rows(2) [OF ok] len by (simp add: saturating_add64_def i64_max_def i64_min_def max_def min_def)
  have "resolve_address R BL T C (base_address (addr_base a)) (offset_sum (addr_offsets a)) ed from_row =
      Some (case line of Inl e \<Rightarrow> Inl e | Inr k \<Rightarrow> Inr (addr_line ls a k))"
    unfolding resolve_address_def ex_content [OF ok] Option.bind.simps Let_def n line(1) clamp addr_line_def ..
  with line(2) show ?thesis by blast
qed

lemma addr_line_in:
  assumes "ex_ok R BL C ed ls"
  shows "1 \<le> addr_line ls a k" "addr_line ls a k \<le> rows_of ls"
  using ex_rows(1) [OF assms] by (auto simp: addr_line_def max_def min_def)

lemma past_eof_beyond:
  assumes "addr_syntax_ok a"
  shows "number_past_eof (rows_of ls) (base_address (addr_base a)) (offset_sum (addr_offsets a)) = Some (beyond ls a)"
proof (cases "addr_base a")
  case (OnLine n)
  obtain os where a: "a = Addr (OnLine n) os" using OnLine by (cases a) simp
  have "\<bar>offset_value o1\<bar> = int (offset_size o1)" for o1 by (cases o1) (simp add: abs_mult)
  then have "\<bar>offset_sum os\<bar> \<le> int (sum_list (map offset_size os))"
    by (induction os) (simp_all del: offset_value.simps offset_size.simps, smt (verit, best))
  then have "add64 (as_i64 n) (offset_sum os) = Some (int n + offset_sum os)"
    using assms by (simp add: a add64_def as_i64_def i64_min_def i64_max_def) linarith
  then show ?thesis by (simp add: a number_past_eof_def beyond_def)
qed (simp_all add: number_past_eof_def beyond_def)

lemma typed_one:
  assumes ok: "ex_ok R BL C ed ls" and len: "length ls < 2 ^ 63" and r: "range_syntax_ok (One a) rest"
  shows "\<exists>answer. parse_range R BL T C (print_range (One a) @ rest) ed = Some answer \<and> range_denotes T C ls ed (One a) rest answer"
proof -
  have a: "addr_syntax_ok a" "ends_addr rest" "\<not> (rest \<noteq> [] \<and> (hd rest = 44 \<or> hd rest = 59))" using r by auto
  note p = addr_parse [OF a(1,2)]
  have from_row: "from_ok ls None" by (simp add: from_ok_def)
  obtain line where line: "base_denotes T C ls ed None (addr_base a) line"
    "resolve_address R BL T C (base_address (addr_base a)) (offset_sum (addr_offsets a)) ed None =
      Some (case line of Inl e \<Rightarrow> Inl e | Inr k \<Rightarrow> Inr (addr_line ls a k))" using address_resolves [OF ok from_row a(1) len] by blast
  have "parse_range R BL T C (print_addr a @ rest) ed = Some (case line of
      Inl e \<Rightarrow> Inl e | Inr k \<Rightarrow> if beyond ls a \<and> trim_ws rest \<noteq> [] then Inl InvalidRange
        else Inr (Some (single (addr_line ls a k)), rest))"
    unfolding parse_range_addr [OF ok address_not_percent [OF p] p past_eof_beyond [OF a(1)]] line(2) if_not_P [OF a(3)]
    by (cases line) simp_all
  then show ?thesis using line(1) by auto
qed

text \<open>The second address, from the line of the first behind a semicolon.\<close>

lemma typed_end:
  assumes ok: "ex_ok R BL C ed ls" and len: "length ls < 2 ^ 63" and r: "range_syntax_ok (Two a semi b) rest"
    and first: "base_denotes T C ls ed None (addr_base a) (Inr k)"
  shows "\<exists>answer. parse_range_end R BL T C ed (rows_of ls) (beyond ls a) (addr_line ls a k) (if semi then 59 else 44)
      (print_addr b @ rest) = Some answer \<and> range_denotes T C ls ed (Two a semi b) rest answer"
proof -
  let ?sep = "if semi then 59 else 44 :: rchar" and ?from = "if semi then Some (addr_line ls a k) else None"
  have a: "addr_syntax_ok b" "ends_addr rest" using r by auto
  note pb = addr_parse [OF a]
  have nb: "print_addr b @ rest \<noteq> []" using pb by (auto simp: parse_address_def parse_base_address_def)
  have from_b: "from_ok ls ?from" using addr_line_in [OF ok, of a k] by (simp add: from_ok_def)
  obtain line2 where line2: "base_denotes T C ls ed ?from (addr_base b) line2"
    "resolve_address R BL T C (base_address (addr_base b)) (offset_sum (addr_offsets b)) ed ?from =
      Some (case line2 of Inl e \<Rightarrow> Inl e | Inr k \<Rightarrow> Inr (addr_line ls b k))" using address_resolves [OF ok from_b a(1) len] by blast
  have from_sep: "(if ?sep = 59 then Some (addr_line ls a k) else None) = ?from" by simp
  have past: "(if beyond ls a then Some True else number_past_eof (rows_of ls) (base_address (addr_base b))
      (offset_sum (addr_offsets b))) = Some (beyond ls a \<or> beyond ls b)"
    by (simp add: past_eof_beyond [OF a(1)])
  define answer where "answer = (if (beyond ls a \<or> beyond ls b) \<and> trim_ws rest \<noteq> [] then Inl InvalidRange
     else case line2 of Inl e \<Rightarrow> Inl e
       | Inr k2 \<Rightarrow> if addr_line ls a k > addr_line ls b k2 then Inl BackwardsRange
           else Inr (Some (LineRange (addr_line ls a k) (addr_line ls b k2)), rest))"
  have "parse_range_end R BL T C ed (rows_of ls) (beyond ls a) (addr_line ls a k) ?sep (print_addr b @ rest) = Some answer"
    unfolding parse_range_end_def if_not_P [OF nb] pb option.case prod.case Let_def from_sep past Option.bind.simps line2(2) answer_def
    by (cases line2) simp_all
  moreover have "range_denotes T C ls ed (Two a semi b) rest answer"
  proof (cases "(beyond ls a \<or> beyond ls b) \<and> trim_ws rest \<noteq> []")
    case True
    then show ?thesis
      unfolding range_denotes.simps answer_def using first by (intro exI [of _ "Inr k"]) simp
  next
    case False
    show ?thesis
      unfolding range_denotes.simps answer_def if_not_P [OF False]
      using first line2(1) by (intro exI [of _ "Inr k"] conjI) (simp_all only: sum.case if_not_P [OF False], blast)
  qed
  ultimately show ?thesis by blast
qed

lemma typed_two:
  assumes ok: "ex_ok R BL C ed ls" and len: "length ls < 2 ^ 63" and r: "range_syntax_ok (Two a semi b) rest"
  shows "\<exists>answer. parse_range R BL T C (print_range (Two a semi b) @ rest) ed = Some answer \<and>
    range_denotes T C ls ed (Two a semi b) rest answer"
proof -
  let ?sep = "if semi then 59 else 44 :: rchar"
  have a: "addr_syntax_ok a" using r by auto
  have sep: "ends_addr (?sep # print_addr b @ rest)" by (simp add: ends_addr_def is_digit_def)
  note p = addr_parse [OF a sep]
  have from_row: "from_ok ls None" by (simp add: from_ok_def)
  obtain line where line: "base_denotes T C ls ed None (addr_base a) line"
    "resolve_address R BL T C (base_address (addr_base a)) (offset_sum (addr_offsets a)) ed None =
      Some (case line of Inl e \<Rightarrow> Inl e | Inr k \<Rightarrow> Inr (addr_line ls a k))" using address_resolves [OF ok from_row a len] by blast
  have is_sep: "?sep # print_addr b @ rest \<noteq> [] \<and> (hd (?sep # print_addr b @ rest) = 44 \<or> hd (?sep # print_addr b @ rest) = 59)"
    by simp
  have eq: "print_range (Two a semi b) @ rest = print_addr a @ ?sep # print_addr b @ rest" by simp
  have run: "parse_range R BL T C (print_range (Two a semi b) @ rest) ed = (case line of
      Inl e \<Rightarrow> Some (Inl e)
    | Inr k \<Rightarrow> parse_range_end R BL T C ed (rows_of ls) (beyond ls a) (addr_line ls a k) ?sep (print_addr b @ rest))"
    unfolding eq parse_range_addr [OF ok address_not_percent [OF p] p past_eof_beyond [OF a]] line(2)
    using is_sep by (cases line) (simp_all only: if_P option.case sum.case list.sel simp_thms if_True not_False_eq_True)
  show ?thesis
  proof (cases line)
    case (Inl e)
    then show ?thesis using line(1) run by auto
  next
    case (Inr k)
    then show ?thesis using typed_end [OF ok len r, of T k] line(1) unfolding run by (simp only: sum.case)
  qed
qed

text \<open>A pattern at the very end may lack its closing delimiter.\<close>

fun open_addr :: "addr_syntax \<Rightarrow> bool" where
  "open_addr (Addr b os) \<longleftrightarrow> os = [] \<and> (case b of Below pat \<Rightarrow> True | Above pat \<Rightarrow> True | _ \<Rightarrow> False)"

fun open_end :: "range_syntax \<Rightarrow> bool" where
  "open_end Whole \<longleftrightarrow> False"
| "open_end (One a) \<longleftrightarrow> open_addr a"
| "open_end (Two a semi b) \<longleftrightarrow> open_addr b"

lemma until_delim_open: "no_delim d e pat \<Longrightarrow> until_delim d e pat = (pat, [])"
  by (induction d e pat rule: no_delim.induct) auto

lemma open_addr_parse:
  assumes "addr_syntax_ok a" and "open_addr a"
  shows "parse_address (butlast (print_addr a)) = parse_address (print_addr a)"
    and "butlast (print_addr a) \<noteq> []" "hd (butlast (print_addr a)) \<noteq> 37" "hd (print_addr a) \<noteq> 37"
proof -
  obtain d pat where a: "print_addr a = d # pat @ [d]" "no_delim d False pat" "d = 47 \<or> d = 63"
    using assms by (cases a; cases "addr_base a") auto
  have "until_delim d False pat = (pat, [])" by (rule until_delim_open [OF a(2)])
  moreover have "until_delim d False (pat @ [d]) = (pat, [])" using until_delim_print [OF a(2), of "[]"] by simp
  ultimately show "parse_address (butlast (print_addr a)) = parse_address (print_addr a)"
    using a(3) by (auto simp: a(1) butlast_append parse_address_def parse_base_address_def is_digit_def)
  show "butlast (print_addr a) \<noteq> []" "hd (butlast (print_addr a)) \<noteq> 37" "hd (print_addr a) \<noteq> 37"
    using a(3) by (auto simp: a(1) butlast_append)
qed

lemma open_range_parse:
  assumes ok: "ex_ok R BL C ed ls" and r: "range_syntax_ok r []" and open_r: "open_end r"
  shows "parse_range R BL T C (butlast (print_range r)) ed = parse_range R BL T C (print_range r) ed"
proof (cases r)
  case Whole
  then show ?thesis using open_r by simp
next
  case (One a)
  have a: "addr_syntax_ok a" "open_addr a" using r open_r One by simp_all
  note o = open_addr_parse [OF a]
  have "parse_address (print_addr a) \<noteq> None" using addr_parse [OF a(1), of "[]"] by (simp add: ends_addr_def)
  then show ?thesis
    using o by (auto simp: One parse_range_def Let_def split: option.splits)
next
  case (Two a semi b)
  let ?sep = "if semi then 59 else 44 :: rchar"
  have a: "addr_syntax_ok a" "addr_syntax_ok b" "open_addr b" using r open_r Two by simp_all
  note o = open_addr_parse [OF a(2,3)]
  have split: "parse_address (print_addr a @ ?sep # t) = Some (base_address (addr_base a), offset_sum (addr_offsets a), ?sep # t)" for t
    by (rule addr_parse [OF a(1)]) (simp add: ends_addr_def is_digit_def)
  have b: "print_addr b \<noteq> []" using o(2) by (cases "print_addr b") auto
  have "parse_address (print_addr b) \<noteq> None" using addr_parse [OF a(2), of "[]"] by (simp add: ends_addr_def)
  then have same: "parse_range_end R BL T C ed n pe st sep (butlast (print_addr b)) =
      parse_range_end R BL T C ed n pe st sep (print_addr b)" for n pe st sep
    using o(1,2) b by (auto simp: parse_range_end_def split: option.splits)
  have printed: "butlast (print_range r) = print_addr a @ ?sep # butlast (print_addr b)"
    "print_range r = print_addr a @ ?sep # print_addr b" using b by (simp_all add: Two butlast_append)
  have is_sep: "?sep # t \<noteq> [] \<and> (?sep = 44 \<or> ?sep = 59)" for t by simp
  note run = parse_range_addr [OF ok address_not_percent [OF split] split past_eof_beyond [OF a(1)], where T = T,
    unfolded list.sel if_P [OF is_sep]]
  show ?thesis unfolding printed(1) unfolding printed(2) run same ..
qed


text \<open>The line below the first, \<open>:1;+d\<close>, in a text of two lines.\<close>

definition demo_tables :: case_tables where
  "demo_tables = \<lparr>ct_upper = (\<lambda>c. [c]), ct_lower = (\<lambda>c. [c]), ct_is_upper = (\<lambda>c. False)\<rparr>"

definition demo_compiler :: "rstring \<Rightarrow> compiled option" where
  "demo_compiler src = Some \<lparr>cp_regex = end_regex,
     cp_captures_at = (\<lambda>l i. map_option (\<lambda>m k. if k = 0 then Some [] else None) (re_find_at end_regex l i)),
     cp_replace = (\<lambda>all l rep. l @ rep (\<lambda>k. if k = 0 then Some [] else None))\<rparr>"

definition demo_ex :: "rstring ex_editor" where
  "demo_ex = \<lparr>xe_view = view_from_str flat_lines [97, 98, 10, 99], xe_marks = (\<lambda>m. None), xe_ignore_case = False,
     xe_smartcase = False, xe_wrapscan = True, xe_change_log = False, xe_last_search = None,
     xe_last_search_forward = True, xe_last_substitute = None, xe_calls = []\<rparr>"

lemma demo_ex_ok: "ex_ok flat_lines flat_byte_line demo_compiler demo_ex [[97, 98], [99]]"
  using demo_searched end_regex_laws
  by (auto simp: ex_ok_def compiler_laws_def demo_compiler_def demo_ex_def in_text_def view_from_str_def)


text \<open>
  C29: Whatever is typed, a range lies in the text: the first line is not behind the last, both
  are lines of the text, and the rest is what was typed behind the range.  A command without a
  range is left whole.  Only a number whose sum with its offset exceeds 64 bits panics.
\<close>

theorem range_in_bounds:
  assumes "ex_ok R BL C ed ls"
  shows "range_answer_ok ls cmd (parse_range R BL T C cmd ed)"
  by (rule range_answer [OF assms])

theorem range_in_bounds_witness:
  "range_answer_ok [[97, 98], [99]] (str ''.,/x/-3s'')
    (parse_range flat_lines flat_byte_line demo_tables demo_compiler (str ''.,/x/-3s'') demo_ex)"
  by (rule range_in_bounds [OF demo_ex_ok])

end
