(* ===== verification/Substitute.thy ===== *)
theory Substitute
  imports ExRange
begin

text \<open>
  Running \<open>:s\<close> (\<open>crates/hjkl-engine/src/substitute.rs\<close>, the handlers of \<open>hjkl-ex/src/builtins.rs\<close>): the
  whole substitution in one go, the matches collected for a confirmation and the accepted ones
  applied, and the commands \<open>:s\<close>, \<open>:&\<close> and \<open>:&&\<close>.  The calls of the editor whose effects are
  modelled elsewhere (undo, marks and folds, the change log) are recorded in their order.  The
  outer option is a panic.
\<close>

section \<open>The pattern\<close>

definition effective_pattern :: "case_tables \<Rightarrow> subst_cmd \<Rightarrow> rstring \<Rightarrow> 'r ex_editor \<Rightarrow> rstring" where
  "effective_pattern T cmd pattern_str ed = (
     let base = (if fl_case_sensitive (sb_flags cmd) then Sensitive
                 else if fl_ignore_case (sb_flags cmd) then Insensitive
                 else case_from_options (xe_ignore_case ed) (xe_smartcase ed))
     in pattern_source (resolve_case_mode (ct_is_upper T) pattern_str base (last_substitute_replacement ed)))"

definition subst_pattern :: "subst_cmd \<Rightarrow> 'r ex_editor \<Rightarrow> rstring option" where
  "subst_pattern cmd ed = (case sb_pattern cmd of Some p \<Rightarrow> Some p | None \<Rightarrow> xe_last_search ed)"

section \<open>Lines\<close>

fun join_lf :: "rstring list \<Rightarrow> rstring" where
  "join_lf [] = []"
| "join_lf [l] = l"
| "join_lf (l # l' # ls) = l @ 10 # join_lf (l' # ls)"

definition newlines :: "rstring \<Rightarrow> nat" where
  "newlines l = length (filter (\<lambda>c. c = 10) l)"

definition rope_rows :: "'r text_ops \<Rightarrow> 'r \<Rightarrow> nat list \<Rightarrow> rstring list option" where
  "rope_rows R rope rows = those (map (rope_line_str R rope) rows)"

definition buf_line_or_empty :: "'r text_ops \<Rightarrow> 'r \<Rightarrow> nat \<Rightarrow> rstring option" where
  "buf_line_or_empty R rope row = (if row \<ge> rp_len_lines R rope then Some [] else rope_line_str R rope row)"

definition call :: "editor_call \<Rightarrow> 'r ex_editor \<Rightarrow> 'r ex_editor" where
  "call c ed = ed\<lparr>xe_calls := xe_calls ed @ [c]\<rparr>"

definition set_last_search :: "rstring option \<Rightarrow> bool \<Rightarrow> 'r ex_editor \<Rightarrow> 'r ex_editor" where
  "set_last_search pat forward ed = ed\<lparr>xe_last_search := pat, xe_last_search_forward := forward\<rparr>"

definition jump_cursor :: "'r text_ops \<Rightarrow> nat \<Rightarrow> nat \<Rightarrow> 'r ex_editor \<Rightarrow> 'r ex_editor option" where
  "jump_cursor R row col ed = do {
     v \<leftarrow> set_cursor R (Position row col) (xe_view ed);
     Some (call (SetStickyColumn row col) (ed\<lparr>xe_view := v\<rparr>))
   }"

definition emit_whole_buffer_change :: "position \<Rightarrow> rstring \<Rightarrow> 'r ex_editor \<Rightarrow> 'r ex_editor" where
  "emit_whole_buffer_change pre_end new_text ed = call ContentReset (call (ChangeLogReplace pre_end new_text) ed)"

text \<open>The bands of rows that grew, from the last one up.\<close>

definition growth_calls :: "rstring list \<Rightarrow> nat \<Rightarrow> editor_call list" where
  "growth_calls new_lines row_offset =
     map (\<lambda>(i, line). ShiftMarksAfterEdit (row_offset + i) (newlines line))
       (filter (\<lambda>(i, line). newlines line \<noteq> 0) (rev (enumerate 0 new_lines)))"

definition rebase_marks_after_row_growth :: "rstring list \<Rightarrow> nat \<Rightarrow> 'r ex_editor \<Rightarrow> 'r ex_editor" where
  "rebase_marks_after_row_growth new_lines row_offset ed = ed\<lparr>xe_calls := xe_calls ed @ growth_calls new_lines row_offset\<rparr>"

text \<open>The end of the text before the change.\<close>

definition pre_end :: "'r text_ops \<Rightarrow> 'r \<Rightarrow> position option" where
  "pre_end R rope = (
     let last_pre_row = rp_len_lines R rope - 1 in do {
       line \<leftarrow> buf_line_or_empty R rope last_pre_row;
       Some (Position last_pre_row (length line))
     })"

section \<open>All at once\<close>

record subst_outcome =
  so_replacements :: nat
  so_lines_changed :: nat
  so_last_row :: "nat option"

definition do_subst_line :: "case_tables \<Rightarrow> compiled \<Rightarrow> rstring \<Rightarrow> rstring \<Rightarrow> bool \<Rightarrow> rstring \<Rightarrow> rstring \<times> nat" where
  "do_subst_line T re replacement prev all line = (
     let matches = length (re_find_iter (cp_regex re) line) in
     if matches = 0 then (line, 0)
     else (cp_replace re all line (\<lambda>caps. expand_replacement T replacement caps prev), if all then matches else 1))"

definition last_changed :: "(rstring \<times> nat) list \<Rightarrow> nat" where
  "last_changed results = foldl (\<lambda>acc (i, l, n). if n > 0 then i else acc) 0 (enumerate 0 results)"

text \<open>The cursor on the first char that is no blank.\<close>

definition first_non_blank_col :: "rstring \<Rightarrow> nat" where
  "first_non_blank_col line = min (length (takeWhile (\<lambda>c. c = 32 \<or> c = 9) line)) (length line - 1)"

definition write_back ::
  "'r text_ops \<Rightarrow> nat \<Rightarrow> nat \<Rightarrow> nat \<Rightarrow> rstring list \<Rightarrow> nat \<Rightarrow> 'r ex_editor \<Rightarrow> (nat \<times> 'r ex_editor) option" where
  "write_back R start clamp_end clamp_row_chars new_lines changed_local ed = (
     let newlines_before = sum_list (map newlines (take changed_local new_lines));
         newlines_within = newlines (new_lines ! changed_local);
         last_changed_row = start + changed_local + newlines_before + newlines_within in do {
       pe \<leftarrow> pre_end R (xe_rope ed);
       (_, v) \<leftarrow> apply_edit R (Replace (Position start 0) (Position clamp_end clamp_row_chars) (join_lf new_lines)) (xe_view ed);
       let ed = ed\<lparr>xe_view := v\<rparr>;
       let new_text = (if xe_change_log ed then rp_text R (xe_rope ed) else []);
       let ed = rebase_marks_after_row_growth new_lines start (emit_whole_buffer_change pe new_text ed);
       let cursor_row = min last_changed_row (rp_len_lines R (xe_rope ed) - 1);
       line \<leftarrow> buf_line_or_empty R (xe_rope ed) cursor_row;
       ed \<leftarrow> jump_cursor R cursor_row (first_non_blank_col line) ed;
       Some (cursor_row, call MarkContentDirty ed)
     })"

definition apply_substitute ::
  "'r text_ops \<Rightarrow> case_tables \<Rightarrow> (rstring \<Rightarrow> compiled option) \<Rightarrow> subst_cmd \<Rightarrow> nat \<Rightarrow> nat \<Rightarrow> 'r ex_editor \<Rightarrow>
   ((subst_error + subst_outcome) \<times> 'r ex_editor) option" where
  "apply_substitute R T C cmd start e ed =
     (case subst_pattern cmd ed of
        None \<Rightarrow> Some (Inl NoPreviousRegex, ed)
      | Some pattern_str \<Rightarrow>
     (case C (effective_pattern T cmd pattern_str ed) of
        None \<Rightarrow> Some (Inl BadPattern, ed)
      | Some re \<Rightarrow> do {
          let prev = last_substitute_replacement ed;
          let ed = call PushUndo ed;
          let clamp_end = min e (rp_len_lines R (xe_rope ed) - 1);
          lines \<leftarrow> rope_rows R (xe_rope ed) [start..<Suc clamp_end];
          let clamp_row_chars = (if lines = [] then 0 else length (last lines));
          let results = map (do_subst_line T re (sb_replacement cmd) prev (fl_all (sb_flags cmd))) lines;
          let replacements = sum_list (map snd results);
          let lines_changed = length (filter (\<lambda>r. snd r > 0) results);
          if replacements = 0
          then Some (Inr \<lparr>so_replacements = 0, so_lines_changed = 0, so_last_row = None\<rparr>, call PopLastUndo ed)
          else if fl_report_only (sb_flags cmd)
          then Some (Inr \<lparr>so_replacements = replacements, so_lines_changed = lines_changed, so_last_row = None\<rparr>,
                 set_last_search (Some pattern_str) True (call PopLastUndo ed))
          else do {
            (cursor_row, ed) \<leftarrow> write_back R start clamp_end clamp_row_chars (map fst results) (last_changed results) ed;
            Some (Inr \<lparr>so_replacements = replacements, so_lines_changed = lines_changed, so_last_row = Some cursor_row\<rparr>,
              set_last_search (Some pattern_str) True ed)
          }
        }))"

section \<open>With a confirmation\<close>

record substitute_match =
  sm_row :: nat
  sm_start :: nat
  sm_end :: nat
  sm_replacement :: rstring

definition trim_lf_end :: "rstring \<Rightarrow> rstring" where
  "trim_lf_end l = rev (dropWhile (\<lambda>c. c = 10) (rev l))"

definition expand_at :: "case_tables \<Rightarrow> compiled \<Rightarrow> rstring \<Rightarrow> rstring \<Rightarrow> rstring \<Rightarrow> nat \<Rightarrow> rstring" where
  "expand_at T re replacement prev line start =
     (case cp_captures_at re line start of Some caps \<Rightarrow> expand_replacement T replacement caps prev | None \<Rightarrow> [])"

definition line_matches :: "case_tables \<Rightarrow> compiled \<Rightarrow> rstring \<Rightarrow> rstring \<Rightarrow> bool \<Rightarrow> nat \<Rightarrow> rstring \<Rightarrow> substitute_match list" where
  "line_matches T re replacement prev all row line =
     map (\<lambda>(s, e). \<lparr>sm_row = row, sm_start = s, sm_end = e, sm_replacement = expand_at T re replacement prev line s\<rparr>)
       (if all then re_find_iter (cp_regex re) line
        else (case re_find (cp_regex re) line of Some m \<Rightarrow> [m] | None \<Rightarrow> []))"

definition collect_substitute_matches ::
  "'r text_ops \<Rightarrow> case_tables \<Rightarrow> (rstring \<Rightarrow> compiled option) \<Rightarrow> subst_cmd \<Rightarrow> nat \<Rightarrow> nat \<Rightarrow> 'r ex_editor \<Rightarrow>
   (subst_error + substitute_match list) option" where
  "collect_substitute_matches R T C cmd start e ed =
     (case subst_pattern cmd ed of
        None \<Rightarrow> Some (Inl NoPreviousRegex)
      | Some pattern_str \<Rightarrow>
     (case C (effective_pattern T cmd pattern_str ed) of
        None \<Rightarrow> Some (Inl BadPattern)
      | Some re \<Rightarrow> do {
          let clamp_end = min e (rp_len_lines R (xe_rope ed) - 1);
          lines \<leftarrow> those (map (rope_line_slice R (xe_rope ed)) [start..<Suc clamp_end]);
          Some (Inr (concat (map (\<lambda>(row, line). line_matches T re (sb_replacement cmd) (last_substitute_replacement ed)
            (fl_all (sb_flags cmd)) row (trim_lf_end line)) (zip [start..<Suc clamp_end] lines))))
        }))"

text \<open>The sort: rows from the last one up, and within a row from its end.\<close>

definition match_before :: "substitute_match \<Rightarrow> substitute_match \<Rightarrow> bool" where
  "match_before a b \<longleftrightarrow> sm_row a > sm_row b \<or> sm_row a = sm_row b \<and> sm_start a > sm_start b"

fun insert_match :: "substitute_match \<Rightarrow> substitute_match list \<Rightarrow> substitute_match list" where
  "insert_match m [] = [m]"
| "insert_match m (x # xs) = (if match_before m x then m # x # xs else x # insert_match m xs)"

definition sort_matches :: "substitute_match list \<Rightarrow> substitute_match list" where
  "sort_matches ms = foldr insert_match ms []"

record apply_state =
  as_lines :: "rstring list"
  as_applied :: nat
  as_last :: "nat option"

definition apply_match :: "substitute_match \<Rightarrow> apply_state \<Rightarrow> apply_state" where
  "apply_match m st = (
     let row = sm_row m; lines = as_lines st in
     if row \<ge> length lines then st
     else let line = lines ! row; bs = sm_start m; be = sm_end m in
       if be > length (utf8 line) \<or> bs > be then st
       else if \<not> str_is_char_boundary (utf8 line) bs \<or> \<not> str_is_char_boundary (utf8 line) be then st
       else \<lparr>as_lines = lines[row := take (chars_in_bytes line bs) line @ sm_replacement m @ drop (chars_in_bytes line be) line],
             as_applied = as_applied st + 1,
             as_last = Some (case as_last st of None \<Rightarrow> row | Some lr \<Rightarrow> max lr row)\<rparr>)"

definition apply_collected_matches ::
  "'r text_ops \<Rightarrow> substitute_match list \<Rightarrow> bool list \<Rightarrow> 'r ex_editor \<Rightarrow> (nat \<times> 'r ex_editor) option" where
  "apply_collected_matches R matches chosen ed =
     (if length chosen \<noteq> length matches then None
      else let to_apply = map fst (filter snd (zip matches chosen)) in
      if to_apply = [] then Some (0, ed)
      else do {
        lines \<leftarrow> rope_rows R (xe_rope ed) [0..<rp_len_lines R (xe_rope ed)];
        let st = fold apply_match (sort_matches to_apply) \<lparr>as_lines = lines, as_applied = 0, as_last = None\<rparr>;
        if as_applied st = 0 then Some (0, ed)
        else do {
          pe \<leftarrow> pre_end R (xe_rope ed);
          let new_text = join_lf (as_lines st);
          v \<leftarrow> view_replace_all R new_text (xe_view ed);
          let ed = rebase_marks_after_row_growth (as_lines st) 0 (emit_whole_buffer_change pe new_text (ed\<lparr>xe_view := v\<rparr>));
          ed \<leftarrow> (case as_last st of
              None \<Rightarrow> Some ed
            | Some row \<Rightarrow> jump_cursor R (row + sum_list (map newlines (take row (as_lines st))) + newlines (as_lines st ! row)) 0 ed);
          Some (as_applied st, call MarkContentDirty ed)
        }
      })"

section \<open>The commands\<close>

datatype subst_effect =
    SubstError subst_error
  | NoPreviousSubstitute
  | SubstituteConfirm "substitute_match list"
  | Info rstring
  | Substituted nat nat

definition merge_flags :: "subst_flags \<Rightarrow> subst_flags \<Rightarrow> subst_flags" where
  "merge_flags fl pf =
     \<lparr>fl_all = (fl_all fl \<or> fl_all pf), fl_ignore_case = (fl_ignore_case fl \<or> fl_ignore_case pf),
      fl_case_sensitive = (fl_case_sensitive fl \<or> fl_case_sensitive pf), fl_confirm = (fl_confirm fl \<or> fl_confirm pf),
      fl_report_only = (fl_report_only fl \<or> fl_report_only pf), fl_no_error = (fl_no_error fl \<or> fl_no_error pf),
      fl_print = (fl_print fl \<or> fl_print pf), fl_print_num = (fl_print_num fl \<or> fl_print_num pf),
      fl_print_list = (fl_print_list fl \<or> fl_print_list pf), fl_reuse_previous = fl_reuse_previous fl\<rparr>"

text \<open>The flag \<open>&\<close>.\<close>

definition reuse_flags :: "'r ex_editor \<Rightarrow> subst_cmd \<Rightarrow> subst_cmd" where
  "reuse_flags ed cmd =
     (if fl_reuse_previous (sb_flags cmd)
      then let fl = (sb_flags cmd)\<lparr>fl_reuse_previous := False\<rparr>
           in cmd\<lparr>sb_flags := (case xe_last_substitute ed of None \<Rightarrow> fl | Some prev \<Rightarrow> merge_flags fl (sb_flags prev))\<rparr>
      else cmd)"

text \<open>The rows of a range from zero, cut to 32 bits.\<close>

definition subst_rows :: "line_range option \<Rightarrow> 'r ex_editor \<Rightarrow> nat \<times> nat" where
  "subst_rows rng ed =
     (case rng of
        Some r \<Rightarrow> ((range_start r - 1) mod 2 ^ 32, (range_end r - 1) mod 2 ^ 32)
      | None \<Rightarrow> (p_row (xe_cursor ed) mod 2 ^ 32, p_row (xe_cursor ed) mod 2 ^ 32))"

text \<open>A trailing count, cut to 32 bits.\<close>

definition count_rows :: "nat option \<Rightarrow> nat \<times> nat \<Rightarrow> nat \<times> nat" where
  "count_rows count r =
     (case count of
        Some n \<Rightarrow> (snd r, min (2 ^ 32 - 1) (snd r + (n mod 2 ^ 32 - 1)))
      | None \<Rightarrow> r)"

definition format_print_line :: "rstring \<Rightarrow> nat \<Rightarrow> bool \<Rightarrow> bool \<Rightarrow> rstring" where
  "format_print_line line row num as_list = (
     let body = (if as_list then concat (map (\<lambda>c. if c = 9 then [94, 73] else [c]) line) @ [36] else line)
     in if num then dec_digits (row + 1) @ [32] @ body else body)"

definition substitute_cmd :: "rstring \<Rightarrow> 'r ex_editor \<Rightarrow> subst_effect + subst_cmd" where
  "substitute_cmd args ed = (
     let trimmed = dropWhile is_whitespace args in
     if trimmed \<noteq> [] \<and> hd trimmed = 47
     then (case parse_substitute args of Inl e \<Rightarrow> Inl (SubstError e) | Inr cmd \<Rightarrow> Inr cmd)
     else (case xe_last_substitute ed of
         None \<Rightarrow> Inl NoPreviousSubstitute
       | Some prev \<Rightarrow>
           (case parse_flags trimmed of
              Inl e \<Rightarrow> Inl (SubstError e)
            | Inr (fl, count) \<Rightarrow> Inr \<lparr>sb_pattern = sb_pattern prev, sb_replacement = sb_replacement prev, sb_flags = fl, sb_count = count\<rparr>)))"

definition substitute_handler ::
  "'r text_ops \<Rightarrow> case_tables \<Rightarrow> (rstring \<Rightarrow> compiled option) \<Rightarrow> rstring \<Rightarrow> line_range option \<Rightarrow> 'r ex_editor \<Rightarrow>
   (subst_effect \<times> 'r ex_editor) option" where
  "substitute_handler R T C args rng ed =
     (case substitute_cmd args ed of
        Inl e \<Rightarrow> Some (e, ed)
      | Inr cmd \<Rightarrow>
          let cmd = reuse_flags ed cmd; r = count_rows (sb_count cmd) (subst_rows rng ed) in
          if fl_confirm (sb_flags cmd) then do {
            let ed = ed\<lparr>xe_last_substitute := Some cmd\<rparr>;
            ms \<leftarrow> collect_substitute_matches R T C cmd (fst r) (snd r) ed;
            Some (case ms of Inl e \<Rightarrow> SubstError e | Inr ms \<Rightarrow> SubstituteConfirm ms, ed)
          } else do {
            (res, ed) \<leftarrow> apply_substitute R T C cmd (fst r) (snd r) ed;
            case res of
              Inl e \<Rightarrow> Some (SubstError e, ed)
            | Inr out \<Rightarrow> do {
                let ed = ed\<lparr>xe_last_substitute := Some cmd\<rparr>;
                let fl = sb_flags cmd;
                case (if fl_print fl then so_last_row out else None) of
                  Some row \<Rightarrow> do {
                    line \<leftarrow> rope_line_str R (xe_rope ed) row;
                    Some (Info (format_print_line (trim_lf_end line) row (fl_print_num fl) (fl_print_list fl)), ed)
                  }
                | None \<Rightarrow> Some (Substituted (so_replacements out) (so_lines_changed out), ed)
              }
          })"

definition repeat_substitute_handler ::
  "'r text_ops \<Rightarrow> case_tables \<Rightarrow> (rstring \<Rightarrow> compiled option) \<Rightarrow> bool \<Rightarrow> line_range option \<Rightarrow> 'r ex_editor \<Rightarrow>
   (subst_effect \<times> 'r ex_editor) option" where
  "repeat_substitute_handler R T C keep_flags rng ed =
     (case xe_last_substitute ed of
        None \<Rightarrow> Some (NoPreviousSubstitute, ed)
      | Some cmd \<Rightarrow> do {
          let cmd = (if keep_flags then cmd else cmd\<lparr>sb_flags := no_flags\<rparr>);
          let r = subst_rows rng ed;
          (res, ed) \<leftarrow> apply_substitute R T C cmd (fst r) (snd r) ed;
          Some (case res of
              Inl e \<Rightarrow> (SubstError e, ed)
            | Inr out \<Rightarrow> (Substituted (so_replacements out) (so_lines_changed out), ed\<lparr>xe_last_substitute := Some cmd\<rparr>))
        })"

end
