(* ===== verification/SubstLaws.thy ===== *)
theory SubstLaws
  imports Substitute RangeSyntax EditLaws
begin

text \<open>
  What a substitution does to the text, and that confirming every match gives the same text as
  the substitution in one go.  The text is plain and given by its lines.
\<close>

section \<open>The compiled regex and its replacement\<close>

text \<open>The pieces of a line between matches, with a text for each match.\<close>

fun splice_matches :: "rstring \<Rightarrow> nat \<Rightarrow> ((nat \<times> nat) \<times> rstring) list \<Rightarrow> rstring" where
  "splice_matches l c [] = drop c l"
| "splice_matches l c (((s, e), t) # ms) = drop c (take (chars_in_bytes l s) l) @ t @ splice_matches l (chars_in_bytes l e) ms"

definition chosen_matches :: "compiled \<Rightarrow> bool \<Rightarrow> rstring \<Rightarrow> (nat \<times> nat) list" where
  "chosen_matches re all l = (if all then re_find_iter (cp_regex re) l else take 1 (re_find_iter (cp_regex re) l))"

text \<open>Successive matches do not overlap and begin with the leftmost one, each has its groups, and
  a replacement puts the answer of the function for the groups of each match in its place.\<close>

definition compiled_ok :: "compiled \<Rightarrow> bool" where
  "compiled_ok re \<longleftrightarrow> regex_laws (cp_regex re) \<and>
     (\<forall>l. sorted_wrt (\<lambda>a b. snd a \<le> fst b) (re_find_iter (cp_regex re) l)) \<and>
     (\<forall>l. re_find (cp_regex re) l = (case re_find_iter (cp_regex re) l of [] \<Rightarrow> None | m # ms \<Rightarrow> Some m)) \<and>
     (\<forall>l. \<forall>m \<in> set (re_find_iter (cp_regex re) l). cp_captures_at re l (fst m) \<noteq> None) \<and>
     (\<forall>all l rep. cp_replace re all l rep =
        splice_matches l 0 (map (\<lambda>m. (m, rep (the (cp_captures_at re l (fst m))))) (chosen_matches re all l)))"

lemma compiled_okD:
  assumes "compiled_ok re"
  shows comp_apart: "sorted_wrt (\<lambda>a b. snd a \<le> fst b) (re_find_iter (cp_regex re) l)"
    and comp_first: "re_find (cp_regex re) l = (case re_find_iter (cp_regex re) l of [] \<Rightarrow> None | m # ms \<Rightarrow> Some m)"
    and comp_groups: "m \<in> set (re_find_iter (cp_regex re) l) \<Longrightarrow> \<exists>caps. cp_captures_at re l (fst m) = Some caps"
    and comp_replace: "cp_replace re all l rep =
        splice_matches l 0 (map (\<lambda>m. (m, rep (the (cp_captures_at re l (fst m))))) (chosen_matches re all l))"
    and comp_match: "m \<in> set (re_find_iter (cp_regex re) l) \<Longrightarrow> match_ok l m"
  using assms unfolding compiled_ok_def regex_laws_def by blast+

lemma chosen_sub: "m \<in> set (chosen_matches re all l) \<Longrightarrow> m \<in> set (re_find_iter (cp_regex re) l)"
  by (auto simp: chosen_matches_def split: if_splits dest: in_set_takeD)

lemma chosen_apart: "compiled_ok re \<Longrightarrow> sorted_wrt (\<lambda>a b. snd a \<le> fst b) (chosen_matches re all l)"
  using comp_apart [of re l] by (simp add: chosen_matches_def sorted_wrt_take)

text \<open>A line with its chosen matches replaced.\<close>

definition replaced :: "case_tables \<Rightarrow> compiled \<Rightarrow> rstring \<Rightarrow> rstring \<Rightarrow> bool \<Rightarrow> rstring \<Rightarrow> rstring" where
  "replaced T re replacement prev all l =
     splice_matches l 0 (map (\<lambda>m. (m, expand_at T re replacement prev l (fst m))) (chosen_matches re all l))"

lemma do_subst_line_replaced:
  assumes re: "compiled_ok re"
  shows "do_subst_line T re replacement prev all l =
    (replaced T re replacement prev all l, length (chosen_matches re all l))"
proof (cases "re_find_iter (cp_regex re) l = []")
  case True
  then show ?thesis by (simp add: do_subst_line_def replaced_def chosen_matches_def)
next
  case False
  have "map (\<lambda>m. (m, expand_replacement T replacement (the (cp_captures_at re l (fst m))) prev)) (chosen_matches re all l) =
      map (\<lambda>m. (m, expand_at T re replacement prev l (fst m))) (chosen_matches re all l)"
  proof (rule map_cong [OF refl])
    fix m assume "m \<in> set (chosen_matches re all l)"
    then obtain caps where "cp_captures_at re l (fst m) = Some caps" using comp_groups [OF re chosen_sub] by blast
    then show "(m, expand_replacement T replacement (the (cp_captures_at re l (fst m))) prev) =
        (m, expand_at T re replacement prev l (fst m))" by (simp add: expand_at_def)
  qed
  then have "cp_replace re all l (\<lambda>caps. expand_replacement T replacement caps prev) = replaced T re replacement prev all l"
    by (simp only: comp_replace [OF re] replaced_def)
  then show ?thesis
    using False by (cases "re_find_iter (cp_regex re) l") (simp_all add: do_subst_line_def chosen_matches_def)
qed

lemma line_matches_chosen:
  assumes re: "compiled_ok re"
  shows "line_matches T re replacement prev all row l =
    map (\<lambda>m. \<lparr>sm_row = row, sm_start = fst m, sm_end = snd m, sm_replacement = expand_at T re replacement prev l (fst m)\<rparr>)
      (chosen_matches re all l)"
  by (cases "re_find_iter (cp_regex re) l")
    (auto simp: line_matches_def chosen_matches_def comp_first [OF re])

section \<open>Applying the matches of a line from its end\<close>

lemma prefix_bytes:
  assumes "valid_str l" "valid_str x" "d \<le> length l" "c \<le> d"
  shows "boff (take d l @ x) c = boff l c" "str_is_char_boundary (utf8 (take d l @ x)) (boff l c)"
    "chars_in_bytes (take d l @ x) (boff l c) = c" "boff l c \<le> length (utf8 (take d l @ x))"
proof -
  show b: "boff (take d l @ x) c = boff l c" using assms(3,4) by (simp add: boff_def)
  have v: "valid_str (take d l @ x)" using assms(1,2) by simp
  have c: "c \<le> length (take d l @ x)" using assms(3,4) by simp
  show "str_is_char_boundary (utf8 (take d l @ x)) (boff l c)" using boundary_boff [OF v c] b by simp
  show "chars_in_bytes (take d l @ x) (boff l c) = c" using chars_in_bytes_boff [OF c] b by simp
  show "boff l c \<le> length (utf8 (take d l @ x))" using boff_le [of "take d l @ x" c] b by simp
qed

lemma splice_valid: "valid_str (splice_matches l c ms) \<Longrightarrow> (m, t) \<in> set ms \<Longrightarrow> valid_str t"
  by (induction l c ms rule: splice_matches.induct) auto

definition row_match :: "nat \<Rightarrow> (nat \<times> nat) \<times> rstring \<Rightarrow> substitute_match" where
  "row_match r m = \<lparr>sm_row = r, sm_start = fst (fst m), sm_end = snd (fst m), sm_replacement = snd m\<rparr>"

definition last_row :: "nat \<Rightarrow> nat option \<Rightarrow> nat option" where
  "last_row r o1 = Some (case o1 of None \<Rightarrow> r | Some lr \<Rightarrow> max lr r)"

lemma last_row_twice: "last_row r (last_row r o1) = last_row r o1"
  by (auto simp: last_row_def split: option.splits)

lemma apply_row_matches:
  assumes l: "valid_str l" and r: "r < length (as_lines st)" "as_lines st ! r = l"
    and ms: "\<forall>m \<in> set ms. match_ok l (fst m)" "sorted_wrt (\<lambda>a b. snd (fst a) \<le> fst (fst b)) ms"
    and c: "c \<le> length l" "\<forall>m \<in> set ms. boff l c \<le> fst (fst m)" and v: "valid_str (splice_matches l c ms)"
  shows "foldr apply_match (map (row_match r) ms) st =
    \<lparr>as_lines = (as_lines st)[r := take c l @ splice_matches l c ms], as_applied = as_applied st + length ms,
     as_last = (if ms = [] then as_last st else last_row r (as_last st))\<rparr>"
  using ms c v
proof (induction ms arbitrary: c)
  case Nil
  then show ?case using r list_update_id [of "as_lines st" r] by (cases st) simp
next
  case (Cons m ms)
  obtain s e t where m: "m = ((s, e), t)" by (cases m) auto
  have mok: "match_ok l (s, e)" using Cons.prems(1) by (simp add: m)
  obtain c1 d where cd: "c1 \<le> length l" "d \<le> length l" "(s, e) = (boff l c1, boff l d)"
    using match_ok_cols [OF l mok] by blast
  have c1d: "c1 \<le> d" using mok cd boff_order [OF cd(1,2)] by (simp add: match_ok_def)
  have cc1: "c \<le> c1" using Cons.prems(3,4) cd boff_order [OF Cons.prems(3) cd(1)] by (simp add: m)
  have cols: "chars_in_bytes l s = c1" "chars_in_bytes l e = d" using cd chars_in_bytes_boff by auto
  let ?x = "splice_matches l d ms"
  have vx: "valid_str t" "valid_str ?x" using Cons.prems(5) by (simp_all add: m cols)
  have rest: "foldr apply_match (map (row_match r) ms) st =
    \<lparr>as_lines = (as_lines st)[r := take d l @ ?x], as_applied = as_applied st + length ms,
     as_last = (if ms = [] then as_last st else last_row r (as_last st))\<rparr>"
    using Cons.prems(1,2) cd vx(2) by (intro Cons.IH) (auto simp: m)
  note p = prefix_bytes [OF l vx(2) cd(2)]
  have take: "take c1 (take d l @ ?x) = take c1 l" "drop d (take d l @ ?x) = ?x"
    using c1d cd(1,2) by (simp_all add: min_absorb1)
  have line: "take c l @ drop c (take c1 l) @ y = take c1 l @ y" for y
    using cc1 by (metis append.assoc append_take_drop_id min_absorb1 take_take)
  have "apply_match (row_match r m) (foldr apply_match (map (row_match r) ms) st) =
    \<lparr>as_lines = (as_lines st)[r := take c1 l @ t @ ?x], as_applied = as_applied st + length ms + 1,
     as_last = last_row r (if ms = [] then as_last st else last_row r (as_last st))\<rparr>"
    using r p(2,3) [OF c1d] p(2,3,4) [OF order_refl] cd mok take
    by (simp add: rest apply_match_def row_match_def m Let_def last_row_def match_ok_def)
  then show ?case
    by (simp add: m cols line last_row_twice if_distrib [of "last_row r"] cong: if_cong)
qed

section \<open>Applying the matches of all rows\<close>

lemma last_changed_from:
  "foldl (\<lambda>acc (i, l, n). if n > 0 then i else acc) acc (enumerate k results) =
    (if \<exists>x \<in> set results. snd x > 0 then k + last_changed results else acc)"
proof -
  have shift: "foldl (\<lambda>acc (i, l, n). if n > 0 then i else acc) (k + acc) (enumerate (k + j) rs) =
      k + foldl (\<lambda>acc (i, l, n). if n > 0 then i else acc) acc (enumerate j rs)" for k j acc and rs :: "(rstring \<times> nat) list"
  proof (induction rs arbitrary: acc j)
    case (Cons r rs)
    then show ?case using Cons [of j "Suc j"] Cons [of acc "Suc j"] by (cases r) (simp add: add_Suc_right)
  qed simp
  have any: "foldl (\<lambda>acc (i, l, n). if n > 0 then i else acc) acc (enumerate j rs) =
      foldl (\<lambda>acc (i, l, n). if n > 0 then i else acc) acc' (enumerate j rs)"
    if "\<exists>x \<in> set rs. snd x > 0" for acc acc' j and rs :: "(rstring \<times> nat) list"
    using that by (induction rs arbitrary: acc acc' j) auto
  have none: "foldl (\<lambda>acc (i, l, n). if n > 0 then i else acc) acc (enumerate j rs) = acc"
    if "\<not> (\<exists>x \<in> set rs. snd x > 0)" for acc j and rs :: "(rstring \<times> nat) list"
    using that by (induction rs arbitrary: j) auto
  show ?thesis
  proof (cases "\<exists>x \<in> set results. snd x > 0")
    case True
    then show ?thesis using any [OF True, of acc k "k + 0"] shift [of k 0 0 results] by (simp add: last_changed_def)
  next
    case False
    then show ?thesis using none [OF False] by simp
  qed
qed

lemma last_changed_Cons:
  "last_changed ((l, n) # rs) = (if \<exists>x \<in> set rs. snd x > 0 then Suc (last_changed rs) else 0)"
  using last_changed_from [of _ "Suc 0" rs] by (simp add: last_changed_def [of "(l, n) # rs"])

text \<open>The matches of consecutive rows.\<close>

fun rows_matches :: "(rstring \<Rightarrow> ((nat \<times> nat) \<times> rstring) list) \<Rightarrow> nat \<Rightarrow> rstring list \<Rightarrow> substitute_match list" where
  "rows_matches f k [] = []"
| "rows_matches f k (x # xs) = map (row_match k) (f x) @ rows_matches f (Suc k) xs"

definition line_ok :: "rstring \<Rightarrow> ((nat \<times> nat) \<times> rstring) list \<Rightarrow> bool" where
  "line_ok l ms \<longleftrightarrow> valid_str l \<and> (\<forall>m \<in> set ms. match_ok l (fst m)) \<and>
     sorted_wrt (\<lambda>a b. snd (fst a) \<le> fst (fst b)) ms \<and> valid_str (splice_matches l 0 ms)"

lemma apply_rows:
  assumes "as_lines st = before @ xs @ behind" "as_last st = None" "\<forall>x \<in> set xs. line_ok x (f x)"
  shows "foldr apply_match (rows_matches f (length before) xs) st =
    \<lparr>as_lines = before @ map (\<lambda>x. splice_matches x 0 (f x)) xs @ behind,
     as_applied = as_applied st + sum_list (map (length \<circ> f) xs),
     as_last = (let results = map (\<lambda>x. (x, length (f x))) xs in
       if \<exists>x \<in> set results. snd x > 0 then Some (length before + last_changed results) else None)\<rparr>"
  using assms
proof (induction xs arbitrary: before st)
  case Nil
  then show ?case by (cases st) simp
next
  case (Cons x xs)
  let ?st = "foldr apply_match (rows_matches f (Suc (length before)) xs) st"
  let ?rs = "map (\<lambda>x. (x, length (f x))) xs"
  have ih: "?st = \<lparr>as_lines = (before @ [x]) @ map (\<lambda>x. splice_matches x 0 (f x)) xs @ behind,
     as_applied = as_applied st + sum_list (map (length \<circ> f) xs),
     as_last = (if \<exists>x \<in> set ?rs. snd x > 0 then Some (length (before @ [x]) + last_changed ?rs) else None)\<rparr>"
    using Cons.IH [of st "before @ [x]"] Cons.prems by (simp add: Let_def comp_def)
  have x: "valid_str x" "\<forall>m \<in> set (f x). match_ok x (fst m)" "sorted_wrt (\<lambda>a b. snd (fst a) \<le> fst (fst b)) (f x)"
    "valid_str (splice_matches x 0 (f x))" using Cons.prems(3) by (simp_all add: line_ok_def)
  have at: "length before < length (as_lines ?st)" "as_lines ?st ! length before = x" by (simp_all add: ih)
  have "foldr apply_match (map (row_match (length before)) (f x)) ?st =
    \<lparr>as_lines = (as_lines ?st)[length before := splice_matches x 0 (f x)], as_applied = as_applied ?st + length (f x),
     as_last = (if f x = [] then as_last ?st else last_row (length before) (as_last ?st))\<rparr>"
    using apply_row_matches [OF x(1) at x(2,3), of 0] x(4) by simp
  moreover have "(as_lines ?st)[length before := splice_matches x 0 (f x)] =
      before @ map (\<lambda>x. splice_matches x 0 (f x)) (x # xs) @ behind" by (simp add: ih list_update_append)
  moreover have "(if f x = [] then as_last ?st else last_row (length before) (as_last ?st)) =
      (if \<exists>y \<in> set ((x, length (f x)) # ?rs). snd y > 0 then Some (length before + last_changed ((x, length (f x)) # ?rs)) else None)"
    by (auto simp: ih last_row_def last_changed_Cons)
  ultimately show ?case by (simp add: ih Let_def comp_def)
qed

section \<open>Sorting and collecting\<close>

lemma sort_matches_rev: "sorted_wrt (\<lambda>a b. \<not> match_before a b) ms \<Longrightarrow> sort_matches ms = rev ms"
proof -
  have insert_match: "insert_match m xs = xs @ [m]" if "\<forall>x \<in> set xs. \<not> match_before m x" for m xs
    using that by (induction xs) auto
  show "sorted_wrt (\<lambda>a b. \<not> match_before a b) ms \<Longrightarrow> sort_matches ms = rev ms"
    by (induction ms) (simp_all add: sort_matches_def insert_match)
qed

lemma rows_matches_row: "m \<in> set (rows_matches f k xs) \<Longrightarrow> k \<le> sm_row m"
proof (induction xs arbitrary: k)
  case (Cons x xs)
  then consider "m \<in> set (map (row_match k) (f x))" | "m \<in> set (rows_matches f (Suc k) xs)" by auto
  then show ?case
  proof cases
    case 1
    then show ?thesis by (auto simp: row_match_def)
  next
    case 2
    then show ?thesis using Cons.IH [of "Suc k"] by simp
  qed
qed simp

lemma rows_matches_sorted:
  assumes "\<forall>x \<in> set xs. line_ok x (f x)"
  shows "sorted_wrt (\<lambda>a b. \<not> match_before a b) (rows_matches f k xs)"
  using assms
proof (induction f k xs rule: rows_matches.induct)
  case (2 f k x xs)
  have apart: "sorted_wrt (\<lambda>a b. snd (fst a) \<le> fst (fst b)) (f x)" and le: "\<forall>m \<in> set (f x). fst (fst m) \<le> snd (fst m)"
    using 2(2) by (simp_all add: line_ok_def match_ok_def)
  have "sorted_wrt (\<lambda>a b. fst (fst a) \<le> fst (fst b)) (f x)"
  proof (rule sorted_wrt_mono_rel [OF _ apart])
    fix a b assume "a \<in> set (f x)" "b \<in> set (f x)" "snd (fst a) \<le> fst (fst b)"
    then show "fst (fst a) \<le> fst (fst b)" using le by force
  qed
  then have "sorted_wrt (\<lambda>a b. \<not> match_before a b) (map (row_match k) (f x))"
    by (simp add: sorted_wrt_map match_before_def row_match_def not_less)
  moreover have "\<not> match_before (row_match k m) m'" if "m' \<in> set (rows_matches f (Suc k) xs)" for m m'
    using rows_matches_row [OF that] by (simp add: match_before_def row_match_def)
  ultimately show ?case using 2 by (auto simp: sorted_wrt_append)
qed simp

lemma trim_lf_end_id: "10 \<notin> set l \<Longrightarrow> trim_lf_end l = l"
proof (cases l rule: rev_cases)
  case (snoc xs x)
  then show "10 \<notin> set l \<Longrightarrow> trim_lf_end l = l" by (simp add: trim_lf_end_def)
qed (simp add: trim_lf_end_def)

definition expansions :: "case_tables \<Rightarrow> compiled \<Rightarrow> rstring \<Rightarrow> rstring \<Rightarrow> bool \<Rightarrow> rstring \<Rightarrow> ((nat \<times> nat) \<times> rstring) list" where
  "expansions T re replacement prev all l =
     map (\<lambda>m. (m, expand_at T re replacement prev l (fst m))) (chosen_matches re all l)"

lemma collected_rows:
  assumes re: "compiled_ok re" and "\<forall>l \<in> set xs. 10 \<notin> set l"
  shows "concat (map (\<lambda>(row, line). line_matches T re replacement prev all row (trim_lf_end line)) (zip [k..<k + length xs] xs)) =
    rows_matches (expansions T re replacement prev all) k xs"
  using assms(2)
proof (induction xs arbitrary: k)
  case (Cons x xs)
  then show ?case
    using Cons.IH [of "Suc k"] by (simp add: upt_conv_Cons trim_lf_end_id line_matches_chosen [OF re] expansions_def row_match_def comp_def del: upt_Suc)
qed simp

section \<open>The rows of a range\<close>

definition segment :: "nat \<Rightarrow> nat \<Rightarrow> 'a list \<Rightarrow> 'a list" where
  "segment a b xs = take (Suc b - a) (drop a xs)"

definition subst_lines :: "('a \<Rightarrow> 'a) \<Rightarrow> nat \<Rightarrow> nat \<Rightarrow> 'a list \<Rightarrow> 'a list" where
  "subst_lines f a b xs = map (\<lambda>(i, x). if a \<le> i \<and> i \<le> b then f x else x) (enumerate 0 xs)"

lemma subst_lines_split:
  assumes "a \<le> b" "b < length xs"
  shows "subst_lines f a b xs = take a xs @ map f (segment a b xs) @ drop (Suc b) xs"
    and "xs = take a xs @ segment a b xs @ drop (Suc b) xs" and "length (segment a b xs) = Suc b - a"
proof -
  show len: "length (segment a b xs) = Suc b - a" using assms by (simp add: segment_def)
  show split: "xs = take a xs @ segment a b xs @ drop (Suc b) xs"
  proof -
    have "drop (Suc b) xs = drop (Suc b - a) (drop a xs)" using assms by simp
    then show ?thesis by (simp only: segment_def append_take_drop_id)
  qed
  show "subst_lines f a b xs = take a xs @ map f (segment a b xs) @ drop (Suc b) xs"
  proof (rule nth_equalityI)
    show "length (subst_lines f a b xs) = length (take a xs @ map f (segment a b xs) @ drop (Suc b) xs)"
      using assms len by (simp add: subst_lines_def)
    fix i assume "i < length (subst_lines f a b xs)"
    then have i: "i < length xs" by (simp add: subst_lines_def)
    then show "subst_lines f a b xs ! i = (take a xs @ map f (segment a b xs) @ drop (Suc b) xs) ! i"
      using assms len by (auto simp: subst_lines_def nth_append segment_def nth_enumerate_eq)
  qed
qed

lemma subst_lines_none: "b < a \<Longrightarrow> subst_lines f a b xs = xs"
  by (rule nth_equalityI) (auto simp: subst_lines_def nth_enumerate_eq)

lemma those_rows: "(\<And>k. k \<in> set ks \<Longrightarrow> f k = Some (g k)) \<Longrightarrow> those (map f ks) = Some (map g ks)"
  by (induction ks) auto

lemma segment_nth: "b < length xs \<Longrightarrow> map ((!) xs) [a..<Suc b] = segment a b xs"
  by (rule nth_equalityI) (auto simp: segment_def simp del: upt_Suc)

lemma join_lf_unl: "join_lf ls = unl ls"
  by (induction ls rule: join_lf.induct) simp_all

lemma unl_segment:
  assumes "a \<le> b" "b < length ls" "length new = Suc b - a"
  shows "unl (take a ls @ new @ drop (Suc b) ls) = rows_before a ls @ unl new @ rows_after b ls"
proof -
  have new: "new \<noteq> []" using assms by auto
  have tail: "unl (new @ drop (Suc b) ls) = unl new @ rows_after b ls"
  proof (cases "Suc b < length ls")
    case True
    obtain ys y where ny: "new = ys @ [y]" using new by (cases new rule: rev_cases) auto
    have d: "drop (Suc b) ls \<noteq> []" using True by simp
    show ?thesis using unl_rows_before [of "y # drop (Suc b) ls" ys] unl_rows_before [of "[y]" ys] True d
      by (simp add: ny unl_Cons rows_after_def)
  next
    case False
    then show ?thesis by (simp add: rows_after_def)
  qed
  show ?thesis using unl_rows_before [of "new @ drop (Suc b) ls" "take a ls"] new tail by (simp add: rows_before_def)
qed

lemma segment_end:
  assumes "a \<le> b" "b < length ls"
  shows "rows_before a ls @ unl (segment a b ls) = rows_before b ls @ ls ! b" "last (segment a b ls) = ls ! b"
proof -
  have seg: "segment a b ls = take (b - a) (drop a ls) @ [ls ! b]"
    using assms by (simp add: segment_def Suc_diff_le take_Suc_conv_app_nth)
  have "take b ls = take a ls @ take (b - a) (drop a ls)"
    using assms(1) by (metis le_add_diff_inverse take_add)
  then show "rows_before a ls @ unl (segment a b ls) = rows_before b ls @ ls ! b"
    using unl_rows_before [of "[ls ! b]" "take (b - a) (drop a ls)"] by (simp add: seg rows_before_def)
  show "last (segment a b ls) = ls ! b" by (simp add: seg)
qed

section \<open>Rows that grow\<close>

lemma growth_Cons: "growth_calls (x # ls) k = growth_calls ls (Suc k) @ (if newlines x = 0 then [] else [ShiftMarksAfterEdit k (newlines x)])"
proof -
  have "enumerate 0 (x # ls) = (0, x) # map (apfst Suc) (enumerate 0 ls)" by (simp add: enumerate_Suc_eq)
  then show ?thesis by (simp add: growth_calls_def rev_map filter_map comp_def split_def)
qed

lemma growth_none: "\<forall>l \<in> set ls. newlines l = 0 \<Longrightarrow> growth_calls ls k = []"
  by (induction ls arbitrary: k) (simp_all add: growth_Cons, simp add: growth_calls_def)

lemma growth_append: "growth_calls (xs @ ys) k = growth_calls ys (k + length xs) @ growth_calls xs k"
  by (induction xs arbitrary: k) (simp_all add: growth_Cons, simp add: growth_calls_def)

lemma newlines_none: "10 \<notin> set l \<Longrightarrow> newlines l = 0"
  by (auto simp: newlines_def filter_empty_conv)

lemma growth_inner:
  assumes "\<forall>l \<in> set (xs @ ys). 10 \<notin> set l"
  shows "growth_calls (xs @ new @ ys) 0 = growth_calls new (length xs)"
  using assms by (simp add: growth_append growth_none newlines_none)

text \<open>The shifts of marks among the calls.\<close>

definition mark_shifts :: "editor_call list \<Rightarrow> editor_call list" where
  "mark_shifts cs = filter (\<lambda>c. \<exists>r n. c = ShiftMarksAfterEdit r n) cs"

lemma mark_shifts_append [simp]: "mark_shifts (cs @ ds) = mark_shifts cs @ mark_shifts ds"
  by (simp add: mark_shifts_def)

lemma mark_shifts_simps [simp]:
  "mark_shifts [] = []" "mark_shifts (PushUndo # cs) = mark_shifts cs" "mark_shifts (PopLastUndo # cs) = mark_shifts cs"
  "mark_shifts (ChangeLogReplace q t # cs) = mark_shifts cs" "mark_shifts (ContentReset # cs) = mark_shifts cs"
  "mark_shifts (SetStickyColumn r c # cs) = mark_shifts cs" "mark_shifts (MarkContentDirty # cs) = mark_shifts cs"
  by (simp_all add: mark_shifts_def)

lemma mark_shifts_growth [simp]: "mark_shifts (growth_calls new k) = growth_calls new k"
  by (auto simp: mark_shifts_def growth_calls_def filter_id_conv)

section \<open>Writing back\<close>

lemma searched_some: "text_laws R \<Longrightarrow> rope_lines R rope ls \<Longrightarrow> \<exists>BL. searched R BL rope ls"
  unfolding searched_def line_of_byte_def
  by (intro exI [of _ "\<lambda>r b. if b \<le> length (utf8 (rp_text R r))
      then Some (length (filter (\<lambda>st. boff (rp_text R r) st \<le> b) (line_starts (rp_text R r))) - 1) else None"]) simp

lemma lines_str:
  assumes "text_laws R" "rope_lines R rope ls" "k < length ls"
  shows "rope_line_str R rope k = Some (ls ! k)" "rope_line_slice R rope k = Some (ls ! k)"
proof -
  obtain BL where S: "searched R BL rope ls" using searched_some [OF assms(1,2)] by (elim exE)
  show "rope_line_str R rope k = Some (ls ! k)" by (rule line_str [OF S assms(3)])
  show "rope_line_slice R rope k = Some (ls ! k)" by (rule line_slice [OF S assms(3)])
qed

lemma some_line:
  assumes R: "text_laws R" and p: "plain (rp_text R rope)"
  shows "\<exists>l. buf_line_or_empty R rope row = Some l"
proof -
  note L = rope_linesI [OF p]
  show ?thesis using lines_str(1) [OF R L, of row] by (auto simp: buf_line_or_empty_def rope_lines_count [OF R L])
qed

lemma some_end: "text_laws R \<Longrightarrow> plain (rp_text R rope) \<Longrightarrow> \<exists>q. pre_end R rope = Some q"
  using some_line [of R rope "rp_len_lines R rope - Suc 0"] by (auto simp: pre_end_def Let_def)

lemma jump_lands:
  assumes R: "text_laws R"
  shows "\<exists>ed1. jump_cursor R row col ed = Some ed1 \<and> xe_rope ed1 = xe_rope ed \<and>
    p_row (xe_cursor ed1) = min row (rp_len_lines R (xe_rope ed) - 1) \<and> mark_shifts (xe_calls ed1) = mark_shifts (xe_calls ed)"
  by (simp add: jump_cursor_def set_cursor_text [OF R] Let_def call_def clampp_def text_len_lines [OF R])

lemma valid_unl: "valid_str (unl ls) \<longleftrightarrow> (\<forall>l \<in> set ls. valid_str l)"
  by (induction ls rule: unl.induct) (auto simp: scalar_ok_def)

text \<open>Where a line ends once the lines before it and itself were broken up.\<close>

definition grown_row :: "rstring list \<Rightarrow> nat \<Rightarrow> nat" where
  "grown_row new k = k + sum_list (map newlines (take k new)) + newlines (new ! k)"

lemma grown_row_inner:
  assumes "\<forall>l \<in> set xs. 10 \<notin> set l" "k < length new"
  shows "grown_row (xs @ new @ ys) (length xs + k) = length xs + grown_row new k"
proof -
  have "sum_list (map newlines xs) = 0" using assms(1) by (induction xs) (simp_all add: newlines_none)
  then show ?thesis using assms(2) by (simp add: grown_row_def nth_append)
qed

text \<open>The editor after new lines were put in place of the rows from \<open>a\<close> to \<open>b\<close>, and the cursor put
  behind the changed row \<open>k\<close>.\<close>

definition rewritten :: "'r text_ops \<Rightarrow> rstring list \<Rightarrow> nat \<Rightarrow> rstring list \<Rightarrow> nat \<Rightarrow> 'r ex_editor \<Rightarrow> 'r ex_editor \<Rightarrow> bool" where
  "rewritten R all a new k ed ed1 \<longleftrightarrow>
     rp_text R (xe_rope ed1) = unl all \<and>
     p_row (xe_cursor ed1) = min (a + grown_row new k) (nlines (unl all) - 1) \<and>
     mark_shifts (xe_calls ed1) = mark_shifts (xe_calls ed) @ growth_calls new a"

lemma emit_rebase [simp]:
  "xe_view (rebase_marks_after_row_growth new k (emit_whole_buffer_change q t ed)) = xe_view ed"
  "mark_shifts (xe_calls (rebase_marks_after_row_growth new k (emit_whole_buffer_change q t ed))) =
    mark_shifts (xe_calls ed) @ growth_calls new k"
  by (simp_all add: rebase_marks_after_row_growth_def emit_whole_buffer_change_def call_def)

lemma write_back_rewrites:
  assumes R: "text_laws R" and L: "rope_lines R (xe_rope ed) ls" and ab: "a \<le> b" "b < length ls"
    and new: "length new = Suc b - a" "\<forall>l \<in> set new. valid_str l \<and> plain l"
  shows "\<exists>row ed1. write_back R a b (length (ls ! b)) new k ed = Some (row, ed1) \<and>
    rewritten R (take a ls @ new @ drop (Suc b) ls) a new k ed ed1"
proof -
  let ?seg = "segment a b ls" and ?all = "take a ls @ new @ drop (Suc b) ls"
  have ok: "lines_ok ls" and T: "rp_text R (xe_rope ed) = unl ls" using L by (simp_all add: rope_lines_def)
  have T': "rp_text R (xe_rope ed) = rows_before a ls @ unl ?seg @ rows_after b ls"
    using unl_segment [OF ab subst_lines_split(3) [OF ab]] subst_lines_split(2) [OF ab] T by simp
  have "10 \<notin> set (ls ! b)" using row_line_text [OF L R ab(2)] by (simp add: line_text_def)
  then have at: "pos_at (rows_before a ls) = Position a 0" "pos_at (rows_before a ls @ unl ?seg) = Position b (length (ls ! b))"
    using pos_at_row [OF ok, of a "[]"] pos_at_row [OF ok, of b "ls ! b"] ab by (simp_all add: segment_end [OF ab])
  have p: "plain (rows_before a ls @ unl ?seg @ rows_after b ls)" using rope_lines_plain [OF L] T' by simp
  have n: "plain (join_lf new)" "valid_str (join_lf new)" using new(2) by (auto simp: join_lf_unl valid_unl intro!: unl_plain)
  from replace_back [OF R T' p n] obtain i v where
    v: "apply_edit R (Replace (Position a 0) (Position b (length (ls ! b))) (join_lf new)) (xe_view ed) = Some (i, v)"
      "rp_text R (view_rope v) = rows_before a ls @ join_lf new @ rows_after b ls" unfolding at by blast
  have all: "rp_text R (view_rope v) = unl ?all" using v(2) unl_segment [OF ab new(1)] by (simp add: join_lf_unl)
  have pv: "plain (rp_text R (view_rope v))" using p n by (simp add: v(2))
  from some_end [OF R rope_lines_plain [OF L]] obtain pe where pe: "pre_end R (xe_rope ed) = Some pe" ..
  let ?ed2 = "rebase_marks_after_row_growth new a
    (emit_whole_buffer_change pe (if xe_change_log ed then rp_text R (view_rope v) else []) (ed\<lparr>xe_view := v\<rparr>))"
  let ?row = "min (a + grown_row new k) (rp_len_lines R (view_rope v) - 1)"
  obtain l where l: "buf_line_or_empty R (view_rope v) ?row = Some l" using some_line [OF R pv] by blast
  obtain ed3 where
    ed3: "jump_cursor R ?row (first_non_blank_col l) ?ed2 = Some ed3" "xe_rope ed3 = view_rope v"
      "p_row (xe_cursor ed3) = ?row" "mark_shifts (xe_calls ed3) = mark_shifts (xe_calls ed) @ growth_calls new a"
    using jump_lands [OF R, of ?row "first_non_blank_col l" ?ed2] by auto
  have "write_back R a b (length (ls ! b)) new k ed = Some (?row, call MarkContentDirty ed3)"
    using pe v(1) l ed3(1) by (simp add: write_back_def Let_def grown_row_def add.assoc cong: if_cong split del: if_split)
  moreover have "rewritten R ?all a new k ed (call MarkContentDirty ed3)"
    using ed3(2,3,4) all by (simp add: rewritten_def call_def text_len_lines [OF R])
  ultimately show ?thesis by blast
qed

lemma apply_collected_rewrites:
  assumes R: "text_laws R" and L: "rope_lines R (xe_rope ed) ls" and ms: "ms \<noteq> []" "sort_matches ms = rev ms"
    and st: "foldr apply_match ms \<lparr>as_lines = ls, as_applied = 0, as_last = None\<rparr> =
      \<lparr>as_lines = all, as_applied = n, as_last = Some k\<rparr>" and n: "0 < n"
    and ok: "\<forall>l \<in> set all. valid_str l \<and> plain l"
  shows "\<exists>ed1. apply_collected_matches R ms (replicate (length ms) True) ed = Some (n, ed1) \<and> rewritten R all 0 all k ed ed1"
proof -
  have rows: "rope_rows R (xe_rope ed) [0..<rp_len_lines R (xe_rope ed)] = Some ls"
    unfolding rope_rows_def rope_lines_count [OF R L]
    by (subst those_rows [where g = "(!) ls"]) (simp_all add: lines_str [OF R L] map_nth)
  have kept: "map fst (filter snd (zip ms (replicate (length ms) True))) = ms"
    by (induction ms) simp_all
  have f: "fold apply_match (sort_matches ms) \<lparr>as_lines = ls, as_applied = 0, as_last = None\<rparr> =
      \<lparr>as_lines = all, as_applied = n, as_last = Some k\<rparr>"
    by (simp add: ms(2) st flip: foldr_conv_fold)
  from some_end [OF R rope_lines_plain [OF L]] obtain pe where pe: "pre_end R (xe_rope ed) = Some pe" ..
  have u: "valid_str (join_lf all)" using ok by (simp add: join_lf_unl valid_unl)
  have "rp_text R (rp_from_str R (join_lf all)) = join_lf all"
    using rope_from_str [OF text_laws_rope [OF R] u] by (cases R) (simp add: rope_ops.defs)
  then obtain v where v: "view_replace_all R (join_lf all) (xe_view ed) = Some v" "rp_text R (view_rope v) = unl all"
    by (simp add: view_replace_all_def Let_def rope_line_char_count_text [OF R] join_lf_unl)
  let ?ed2 = "rebase_marks_after_row_growth all 0 (emit_whole_buffer_change pe (join_lf all) (ed\<lparr>xe_view := v\<rparr>))"
  obtain ed3 where
    ed3: "jump_cursor R (grown_row all k) 0 ?ed2 = Some ed3" "xe_rope ed3 = view_rope v"
      "p_row (xe_cursor ed3) = min (grown_row all k) (rp_len_lines R (view_rope v) - 1)"
      "mark_shifts (xe_calls ed3) = mark_shifts (xe_calls ed) @ growth_calls all 0"
    using jump_lands [OF R, of "grown_row all k" 0 ?ed2] by auto
  have "apply_collected_matches R ms (replicate (length ms) True) ed = Some (n, call MarkContentDirty ed3)"
    using rows f pe v(1) ed3(1) n ms(1) by (simp add: apply_collected_matches_def Let_def kept grown_row_def)
  moreover have "rewritten R all 0 all k ed (call MarkContentDirty ed3)"
    using ed3(2,3,4) v(2) by (simp add: rewritten_def call_def text_len_lines [OF R])
  ultimately show ?thesis by blast
qed

section \<open>One go and confirming every match\<close>

lemma last_changed_snd: "map snd rs = map snd rs' \<Longrightarrow> last_changed rs = last_changed rs'"
proof (induction rs arbitrary: rs')
  case (Cons r rs)
  then obtain r' rs1 where rs': "rs' = r' # rs1" "snd r' = snd r" "map snd rs1 = map snd rs" by (cases rs') auto
  have "(\<exists>x \<in> set rs1. 0 < snd x) = (\<exists>n \<in> set (map snd rs1). 0 < n)" by auto
  also have "\<dots> = (\<exists>x \<in> set rs. 0 < snd x)" unfolding rs'(3) by auto
  finally have any: "(\<exists>x \<in> set rs1. 0 < snd x) = (\<exists>x \<in> set rs. 0 < snd x)" .
  have "last_changed rs1 = last_changed rs" using Cons.IH [OF rs'(3) [symmetric]] by simp
  with any show ?case by (cases r, cases r') (simp add: rs'(1) last_changed_Cons)
qed simp

lemma last_changed_less: "rs \<noteq> [] \<Longrightarrow> last_changed rs < length rs"
proof (induction rs)
  case (Cons r rs)
  then show ?case by (cases r, cases "rs = []") (simp_all add: last_changed_Cons)
qed simp

lemma length_rows_matches: "length (rows_matches f k xs) = sum_list (map (length \<circ> f) xs)"
  by (induction f k xs rule: rows_matches.induct) simp_all

lemma subst_lines_clamp: "subst_lines f a (min e (length ls - 1)) ls = subst_lines f a e ls"
  by (rule nth_equalityI) (auto simp: subst_lines_def nth_enumerate_eq)

lemma subst_lines_same:
  assumes "b < length ls" "\<forall>x \<in> set (segment a b ls). f x = x"
  shows "subst_lines f a b ls = ls"
proof (cases "a \<le> b")
  case True
  have "map f (segment a b ls) = segment a b ls" using assms(2) by (simp add: map_idI)
  then show ?thesis using subst_lines_split(1) [OF True assms(1), of f] subst_lines_split(2) [OF True assms(1)] by simp
qed (simp add: subst_lines_none)

lemma expansions_length: "length (expansions T re replacement prev all l) = length (chosen_matches re all l)"
  by (simp add: expansions_def)

lemma replaced_expansions: "replaced T re replacement prev all l = splice_matches l 0 (expansions T re replacement prev all l)"
  by (simp add: replaced_def expansions_def)

lemma line_ok_expansions:
  assumes re: "compiled_ok re" and l: "valid_str l" "valid_str (replaced T re replacement prev all l)"
  shows "line_ok l (expansions T re replacement prev all l)"
proof -
  have "\<forall>m \<in> set (expansions T re replacement prev all l). match_ok l (fst m)"
    using comp_match [OF re chosen_sub] by (auto simp: expansions_def)
  moreover have "sorted_wrt (\<lambda>a b. snd (fst a) \<le> fst (fst b)) (expansions T re replacement prev all l)"
    using chosen_apart [OF re, of all l] by (simp add: expansions_def sorted_wrt_map)
  ultimately show ?thesis using l by (simp add: line_ok_def replaced_expansions)
qed

lemma segment_sub: "set (segment a b ls) \<subseteq> set ls"
  by (auto simp: segment_def dest!: in_set_takeD in_set_dropD)

lemma lines_ok_expansions:
  assumes R: "text_laws R" and L: "rope_lines R rope ls" and re: "compiled_ok re"
    and ok: "\<forall>l \<in> set ls. valid_str (replaced T re replacement prev all l)"
  shows "\<forall>l \<in> set (segment a b ls). line_ok l (expansions T re replacement prev all l)"
proof
  fix l assume "l \<in> set (segment a b ls)"
  then have l: "l \<in> set ls" by (rule subsetD [OF segment_sub])
  then have "valid_str l" using row_line_text [OF L R] by (auto simp: in_set_conv_nth line_text_def)
  then show "line_ok l (expansions T re replacement prev all l)" using line_ok_expansions [OF re] ok l by blast
qed

lemma collected:
  assumes R: "text_laws R" and L: "rope_lines R (xe_rope ed) ls"
    and pat: "subst_pattern cmd ed = Some p" and C: "C (effective_pattern T cmd p ed) = Some re" and re: "compiled_ok re"
  shows "collect_substitute_matches R T C cmd a e ed =
    Some (Inr (rows_matches (expansions T re (sb_replacement cmd) (last_substitute_replacement ed) (fl_all (sb_flags cmd))) a
      (segment a (min e (length ls - 1)) ls)))"
proof -
  define b where "b = min e (length ls - 1)"
  have b: "b < length ls" using rope_lines_pos [OF L] by (simp add: b_def min_less_iff_disj)
  have rows: "those (map (rope_line_slice R (xe_rope ed)) [a..<Suc b]) = Some (segment a b ls)"
    using b by (subst those_rows [where g = "(!) ls"]) (auto simp: lines_str [OF R L] segment_nth [OF b, of a] simp del: upt_Suc)
  have "\<forall>l \<in> set (segment a b ls). 10 \<notin> set l"
    using L by (auto simp: segment_def rope_lines_def lines_ok_def dest!: in_set_takeD in_set_dropD)
  note c = collected_rows [OF re this, of T "sb_replacement cmd" "last_substitute_replacement ed" "fl_all (sb_flags cmd)" a]
  have len: "[a..<Suc b] = [a..<a + length (segment a b ls)] \<or> segment a b ls = []"
    using b by (cases "a \<le> b") (simp_all add: segment_def del: upt_Suc)
  have clamp: "min e (length ls - Suc 0) = b" by (simp add: b_def)
  show ?thesis
    using c len rows by (auto simp: collect_substitute_matches_def pat C rope_lines_count [OF R L] Let_def clamp simp del: upt_Suc)
qed

lemma call_view [simp]: "xe_view (call c ed) = xe_view ed"
  by (simp add: call_def)

text \<open>The substitution in one go: nothing to replace, and something.\<close>

lemma results_rows:
  assumes re: "compiled_ok re" and rs: "rs = map (do_subst_line T re replacement prev all) xs"
  shows "map fst rs = map (replaced T re replacement prev all) xs"
    and "map snd rs = map (length \<circ> expansions T re replacement prev all) xs"
  by (simp_all add: rs do_subst_line_replaced [OF re] expansions_length comp_def)

lemma apply_substitute_rows:
  assumes R: "text_laws R" and L: "rope_lines R (xe_rope ed) ls"
    and pat: "subst_pattern cmd ed = Some p" and C: "C (effective_pattern T cmd p ed) = Some re" and re: "compiled_ok re"
    and all: "\<not> fl_report_only (sb_flags cmd)"
    and f: "f = expansions T re (sb_replacement cmd) (last_substitute_replacement ed) (fl_all (sb_flags cmd))"
    and F: "F = replaced T re (sb_replacement cmd) (last_substitute_replacement ed) (fl_all (sb_flags cmd))"
    and b: "b = min e (length ls - 1)" and seg: "seg = segment a b ls" and n: "n = sum_list (map (length \<circ> f) seg)"
    and ok: "\<forall>l \<in> set ls. valid_str (F l) \<and> plain (F l)"
  shows "n = 0 \<Longrightarrow> \<exists>out ed1. apply_substitute R T C cmd a e ed = Some (Inr out, ed1) \<and> so_replacements out = 0 \<and>
      xe_view ed1 = xe_view ed \<and> mark_shifts (xe_calls ed1) = mark_shifts (xe_calls ed)"
    and "0 < n \<Longrightarrow> \<exists>out ed0 ed1. apply_substitute R T C cmd a e ed = Some (Inr out, ed1) \<and> so_replacements out = n \<and>
      mark_shifts (xe_calls ed0) = mark_shifts (xe_calls ed) \<and>
      rewritten R (take a ls @ map F seg @ drop (Suc b) ls) a (map F seg) (last_changed (map (\<lambda>x. (x, length (f x))) seg)) ed0 ed1"
proof -
  have bl: "b < length ls" using rope_lines_pos [OF L] by (simp add: b min_less_iff_disj)
  define rs where "rs = map (do_subst_line T re (sb_replacement cmd) (last_substitute_replacement ed) (fl_all (sb_flags cmd))) seg"
  have rs1: "map fst rs = map F seg" and rs2: "map snd rs = map (length \<circ> f) seg"
    using results_rows [OF re rs_def] by (simp_all add: F f)
  have count: "sum_list (map snd rs) = n" by (simp add: rs2 n)
  have rows: "rope_rows R (xe_rope ed) [a..<Suc b] = Some seg"
    unfolding rope_rows_def using bl
    by (subst those_rows [where g = "(!) ls"]) (auto simp: lines_str [OF R L] segment_nth [OF bl, of a] seg simp del: upt_Suc)
  have clamp: "min e (rp_len_lines R (xe_rope ed) - 1) = b" by (simp add: b rope_lines_count [OF R L])
  have run: "apply_substitute R T C cmd a e ed =
     (if n = 0 then Some (Inr \<lparr>so_replacements = 0, so_lines_changed = 0, so_last_row = None\<rparr>, call PopLastUndo (call PushUndo ed))
      else do {
        (cursor_row, ed) \<leftarrow> write_back R a b (if seg = [] then 0 else length (last seg)) (map F seg) (last_changed rs) (call PushUndo ed);
        Some (Inr \<lparr>so_replacements = n, so_lines_changed = length (filter (\<lambda>r. snd r > 0) rs), so_last_row = Some cursor_row\<rparr>,
          set_last_search (Some p) True ed)
      })"
    by (simp only: apply_substitute_def pat C Let_def rs_def [symmetric] option.case call_view clamp rows bind.bind_lunit
        count rs1 all if_False)
  show "\<exists>out ed1. apply_substitute R T C cmd a e ed = Some (Inr out, ed1) \<and> so_replacements out = 0 \<and>
      xe_view ed1 = xe_view ed \<and> mark_shifts (xe_calls ed1) = mark_shifts (xe_calls ed)" if "n = 0"
    by (simp add: run that call_def)
  show "\<exists>out ed0 ed1. apply_substitute R T C cmd a e ed = Some (Inr out, ed1) \<and> so_replacements out = n \<and>
      mark_shifts (xe_calls ed0) = mark_shifts (xe_calls ed) \<and>
      rewritten R (take a ls @ map F seg @ drop (Suc b) ls) a (map F seg) (last_changed (map (\<lambda>x. (x, length (f x))) seg)) ed0 ed1"
    if pos: "0 < n"
  proof -
    have "seg \<noteq> []" using pos by (auto simp: n)
    then have ab: "a \<le> b" by (auto simp: seg segment_def)
    have k: "last_changed rs = last_changed (map (\<lambda>x. (x, length (f x))) seg)"
      by (rule last_changed_snd) (simp add: rs2 comp_def)
    have L1: "rope_lines R (xe_rope (call PushUndo ed)) ls" using L by (simp add: call_def)
    have new: "length (map F seg) = Suc b - a" using subst_lines_split(3) [OF ab bl] by (simp add: seg)
    have "\<forall>l \<in> set (map F seg). valid_str l \<and> plain l"
      using ok by (auto simp: seg segment_def dest!: in_set_takeD in_set_dropD)
    from write_back_rewrites [OF R L1 ab bl new this, of "last_changed rs"] obtain row ed1 where
      w: "write_back R a b (length (ls ! b)) (map F seg) (last_changed rs) (call PushUndo ed) = Some (row, ed1)"
        "rewritten R (take a ls @ map F seg @ drop (Suc b) ls) a (map F seg) (last_changed rs) (call PushUndo ed) ed1" by blast
    have "last seg = ls ! b" using segment_end(2) [OF ab bl] by (simp add: seg)
    then show ?thesis
      using w(1) w(2) pos \<open>seg \<noteq> []\<close>
      by (intro exI [of _ "\<lparr>so_replacements = n, so_lines_changed = length (filter (\<lambda>r. snd r > 0) rs), so_last_row = Some row\<rparr>"]
          exI [of _ "call PushUndo ed"] exI [of _ "set_last_search (Some p) True ed1"])
        (simp add: run k [symmetric] rewritten_def set_last_search_def call_def)
  qed
qed

text \<open>Every collected match applied.\<close>

lemma apply_all_collected:
  assumes R: "text_laws R" and L: "rope_lines R (xe_rope ed) ls" and b: "b < length ls" and seg: "seg = segment a b ls"
    and n: "n = sum_list (map (length \<circ> f) seg)" "0 < n"
    and ok: "\<forall>l \<in> set seg. line_ok l (f l)" "\<forall>l \<in> set seg. plain (splice_matches l 0 (f l))"
  shows "\<exists>ed2. apply_collected_matches R (rows_matches f a seg) (replicate (length (rows_matches f a seg)) True) ed = Some (n, ed2) \<and>
    rewritten R (take a ls @ map (\<lambda>l. splice_matches l 0 (f l)) seg @ drop (Suc b) ls) a
      (map (\<lambda>l. splice_matches l 0 (f l)) seg) (last_changed (map (\<lambda>x. (x, length (f x))) seg)) ed ed2"
proof -
  let ?new = "map (\<lambda>l. splice_matches l 0 (f l)) seg" and ?k = "last_changed (map (\<lambda>x. (x, length (f x))) seg)"
  let ?all = "take a ls @ ?new @ drop (Suc b) ls"
  have some: "seg \<noteq> []" using n by auto
  then have ab: "a \<le> b" by (auto simp: seg segment_def)
  have a: "length (take a ls) = a" using ab b by simp
  have any: "\<exists>x \<in> set (map (\<lambda>x. (x, length (f x))) seg). snd x > 0"
  proof (rule ccontr)
    assume "\<not> ?thesis"
    then have "map (length \<circ> f) seg = map (\<lambda>x. 0) seg" by auto
    then have "n = 0" unfolding n(1) by (simp only: sum_list_0)
    then show False using n(2) by simp
  qed
  have st: "foldr apply_match (rows_matches f a seg) \<lparr>as_lines = ls, as_applied = 0, as_last = None\<rparr> =
      \<lparr>as_lines = ?all, as_applied = n, as_last = Some (a + ?k)\<rparr>"
    using apply_rows [of "\<lparr>as_lines = ls, as_applied = 0, as_last = None\<rparr>" "take a ls" seg "drop (Suc b) ls" f]
      subst_lines_split(2) [OF ab b] ok(1) any
    by (simp add: a seg [symmetric] n(1) [symmetric] Let_def del: length_take)
  have "length (rows_matches f a seg) = n" by (simp only: length_rows_matches n(1))
  then have ms: "rows_matches f a seg \<noteq> []" using n(2) by (metis list.size(3) less_irrefl)
  have sorted: "sort_matches (rows_matches f a seg) = rev (rows_matches f a seg)"
    by (rule sort_matches_rev [OF rows_matches_sorted [OF ok(1)]])
  have lt: "line_text l" if "l \<in> set ls" for l
    using that row_line_text [OF L R] by (auto simp: in_set_conv_nth)
  have valid: "\<forall>l \<in> set ?all. valid_str l \<and> plain l"
    using ok lt by (auto simp: line_ok_def line_text_def dest!: in_set_takeD in_set_dropD)
  from apply_collected_rewrites [OF R L ms sorted st n(2) valid] obtain ed2 where
    ed2: "apply_collected_matches R (rows_matches f a seg) (replicate (length (rows_matches f a seg)) True) ed = Some (n, ed2)"
      "rewritten R ?all 0 ?all (a + ?k) ed ed2" by blast
  have outer: "\<forall>l \<in> set (take a ls @ drop (Suc b) ls). 10 \<notin> set l"
    using lt by (auto simp: line_text_def dest!: in_set_takeD in_set_dropD)
  have "?k < length ?new" using last_changed_less [of "map (\<lambda>x. (x, length (f x))) seg"] some by simp
  then have "grown_row ?all (a + ?k) = a + grown_row ?new ?k"
    using grown_row_inner [of "take a ls" ?k ?new "drop (Suc b) ls"] outer by (simp add: a del: length_take)
  moreover have "growth_calls ?all 0 = growth_calls ?new a"
    using growth_inner [OF outer, of ?new] by (simp add: a del: length_take)
  ultimately have "rewritten R ?all a ?new ?k ed ed2" using ed2(2) by (simp add: rewritten_def)
  with ed2(1) show ?thesis by blast
qed

text \<open>
  C27: On a text whose only line breaks are newlines, with replaced lines that are valid and bring in no other
  breaks, confirming every match of a substitution does what the substitution does in one go: as many
  replacements, the same text (each line of the range with its chosen matches replaced, the other
  lines as they were), the same shifts of the marks for the rows that came in, and the cursor on
  the same row.  (With other line breaks it does not: the confirmed replacements rewrite them all as newlines.)
\<close>

theorem confirm_all_same:
  assumes "text_laws R" and "rope_lines R (xe_rope ed) ls" and "subst_pattern cmd ed = Some p"
    and "C (effective_pattern T cmd p ed) = Some re" and "compiled_ok re" and "\<not> fl_report_only (sb_flags cmd)"
    and F: "F = replaced T re (sb_replacement cmd) (last_substitute_replacement ed) (fl_all (sb_flags cmd))"
    and ok: "\<forall>l \<in> set ls. valid_str (F l) \<and> plain (F l)"
  shows "\<exists>out ed1 ms ed2.
    apply_substitute R T C cmd start e ed = Some (Inr out, ed1) \<and>
    collect_substitute_matches R T C cmd start e ed = Some (Inr ms) \<and>
    apply_collected_matches R ms (replicate (length ms) True) ed = Some (so_replacements out, ed2) \<and>
    length ms = so_replacements out \<and>
    rp_text R (xe_rope ed1) = unl (subst_lines F start e ls) \<and>
    rp_text R (xe_rope ed2) = rp_text R (xe_rope ed1) \<and>
    mark_shifts (xe_calls ed2) = mark_shifts (xe_calls ed1) \<and>
    p_row (xe_cursor ed2) = p_row (xe_cursor ed1)"
proof -
  note R = assms(1) and L = assms(2) and re = assms(5)
  define f where "f = expansions T re (sb_replacement cmd) (last_substitute_replacement ed) (fl_all (sb_flags cmd))"
  define b where "b = min e (length ls - 1)"
  define seg where "seg = segment start b ls"
  define n where "n = sum_list (map (length \<circ> f) seg)"
  have b: "b < length ls" using rope_lines_pos [OF L] by (simp add: b_def min_less_iff_disj)
  have S: "subst_lines F start b ls = subst_lines F start e ls" unfolding b_def by (rule subst_lines_clamp)
  have Ff: "F l = splice_matches l 0 (f l)" for l by (simp add: F f_def replaced_expansions)
  have sub: "set seg \<subseteq> set ls" by (simp add: seg_def segment_sub)
  have ms: "collect_substitute_matches R T C cmd start e ed = Some (Inr (rows_matches f start seg))"
    using collected [where C = C and T = T and p = p, OF R L assms(3,4) re] by (simp only: f_def seg_def b_def)
  have len: "length (rows_matches f start seg) = n" by (simp add: length_rows_matches n_def)
  note run = apply_substitute_rows [where C = C and T = T and p = p, OF R L assms(3,4) re assms(6) f_def F b_def seg_def n_def ok]
  show ?thesis
  proof (cases "n = 0")
    case True
    from run(1) [OF True] obtain out ed1 where 1: "apply_substitute R T C cmd start e ed = Some (Inr out, ed1)"
      "so_replacements out = 0" "xe_view ed1 = xe_view ed" "mark_shifts (xe_calls ed1) = mark_shifts (xe_calls ed)" by blast
    have none: "rows_matches f start seg = []" using len True by simp
    have "\<forall>x \<in> set seg. F x = x" using True by (auto simp: n_def Ff)
    then have "subst_lines F start b ls = ls" using subst_lines_same [OF b] by (simp add: seg_def)
    then have "rp_text R (xe_rope ed) = unl (subst_lines F start e ls)" using L S by (simp add: rope_lines_def)
    moreover have "apply_collected_matches R [] [] ed = Some (0, ed)" by (simp add: apply_collected_matches_def)
    ultimately show ?thesis using 1 ms none by auto
  next
    case False
    then have pos: "0 < n" by simp
    have "\<forall>l \<in> set seg. line_ok l (f l)"
      using lines_ok_expansions [OF R L re] ok unfolding seg_def f_def F by blast
    moreover have "\<forall>l \<in> set seg. plain (splice_matches l 0 (f l))" using ok sub by (auto simp: Ff)
    ultimately obtain ed2 where
      2: "apply_collected_matches R (rows_matches f start seg) (replicate (length (rows_matches f start seg)) True) ed = Some (n, ed2)"
        "rewritten R (take start ls @ map F seg @ drop (Suc b) ls) start (map F seg)
          (last_changed (map (\<lambda>x. (x, length (f x))) seg)) ed ed2"
      using apply_all_collected [OF R L b seg_def n_def pos] by (auto simp: Ff [abs_def])
    from run(2) [OF pos] obtain out ed0 ed1 where
      1: "apply_substitute R T C cmd start e ed = Some (Inr out, ed1)" "so_replacements out = n"
        "mark_shifts (xe_calls ed0) = mark_shifts (xe_calls ed)"
        "rewritten R (take start ls @ map F seg @ drop (Suc b) ls) start (map F seg)
          (last_changed (map (\<lambda>x. (x, length (f x))) seg)) ed0 ed1" by blast
    have "seg \<noteq> []" using pos by (auto simp: n_def)
    then have ab: "start \<le> b" by (auto simp: seg_def segment_def)
    have "take start ls @ map F seg @ drop (Suc b) ls = subst_lines F start e ls"
      using subst_lines_split(1) [OF ab b, of F] S by (simp add: seg_def)
    then show ?thesis using 1 2 ms len
      by (intro exI [of _ out] exI [of _ ed1] exI [of _ "rows_matches f start seg"] exI [of _ ed2]) (simp add: rewritten_def)
  qed
qed

definition end_compiled :: compiled where
  "end_compiled = \<lparr>cp_regex = end_regex,
     cp_captures_at = (\<lambda>l i. map_option (\<lambda>m k. if k = 0 then Some [] else None) (re_find_at end_regex l i)),
     cp_replace = (\<lambda>all l rep. l @ rep (\<lambda>k. if k = 0 then Some [] else None))\<rparr>"

lemma end_bytes: "chars_in_bytes l (length (utf8 l)) = length l"
  using chars_in_bytes_boff [of "length l" l] by (simp add: boff_def)

lemma end_compiled_ok: "compiled_ok end_compiled"
  unfolding compiled_ok_def
  by (auto simp: end_compiled_def end_regex_laws chosen_matches_def)
     (simp_all add: end_regex_def re_find_def Let_def end_bytes)

lemma end_replaced: "replaced demo_tables end_compiled [33, 92, 114] prev all l = l @ [33, 10]"
proof -
  have m: "chosen_matches end_compiled all l = [(length (utf8 l), length (utf8 l))]"
    by (simp add: chosen_matches_def end_compiled_def end_regex_def)
  have "expand_replacement demo_tables [33, 92, 114] caps prev = [33, 10]" for caps
    by (simp add: expand_replacement_def expand_into_def escape_out_def push_cased_def case_state_new_def)
  then have "expand_at demo_tables end_compiled [33, 92, 114] prev l (length (utf8 l)) = [33, 10]"
    by (simp add: expand_at_def end_compiled_def end_regex_def Let_def)
  then show ?thesis by (simp add: replaced_def m end_bytes)
qed

theorem confirm_all_same_witness:
  "\<exists>out ed1 ms ed2. let cmd = \<lparr>sb_pattern = Some [36], sb_replacement = [33, 92, 114], sb_flags = no_flags, sb_count = None\<rparr> in
    apply_substitute flat_lines demo_tables (\<lambda>p. Some end_compiled) cmd 0 9 demo_ex = Some (Inr out, ed1) \<and>
    collect_substitute_matches flat_lines demo_tables (\<lambda>p. Some end_compiled) cmd 0 9 demo_ex = Some (Inr ms) \<and>
    apply_collected_matches flat_lines ms (replicate (length ms) True) demo_ex = Some (so_replacements out, ed2) \<and>
    rp_text flat_lines (xe_rope ed2) = [97, 98, 33, 10, 10, 99, 33, 10]"
proof -
  let ?cmd = "\<lparr>sb_pattern = Some [36], sb_replacement = [33, 92, 114], sb_flags = no_flags, sb_count = None\<rparr>"
  let ?F = "\<lambda>l :: rstring. l @ [33, 10]"
  have L: "rope_lines flat_lines (xe_rope demo_ex) [[97, 98], [99]]"
    using searched_lines [OF demo_searched] by (simp add: demo_ex_def)
  have pat: "subst_pattern ?cmd demo_ex = Some [36]" by (simp add: subst_pattern_def)
  have all: "\<not> fl_report_only (sb_flags ?cmd)" by (simp add: no_flags_def)
  have F: "?F = replaced demo_tables end_compiled (sb_replacement ?cmd) (last_substitute_replacement demo_ex) (fl_all (sb_flags ?cmd))"
    by (rule ext) (simp add: end_replaced)
  have ok: "\<forall>l \<in> set [[97, 98], [99]]. valid_str (?F l) \<and> plain (?F l)" by (simp add: scalar_ok_def is_break_def)
  have "subst_lines ?F 0 9 [[97, 98], [99]] = [[97, 98, 33, 10], [99, 33, 10]]" by (simp add: subst_lines_def)
  then show ?thesis
    using confirm_all_same [where C = "\<lambda>p. Some end_compiled" and start = 0 and e = 9, OF flat_lines_laws L pat refl end_compiled_ok all F ok]
    by (auto simp: Let_def)
qed

end
