(* ===== verification/Spec2Isabelle.thy ===== *)
theory Spec2Isabelle
  imports Prelude Layout Keymap UndoSaved EditTracking RegisterLaws GotoLine BracketLaws WordLaws MultiCursor VimGrammar PatternLaws SearchLaws RangeSyntax SubstLaws
begin

text \<open>
  hjkl is a vi-style modal editor.  This development models the core of its workspace under
  \<open>src/crates\<close>: the text of a document and its edits, the undo history and its file, folds,
  registers, the motions of the cursor, searching, ranges and substitution, selections and
  multiple cursors, what is on the screen, the layout of windows and the key maps.

  \<^bold>\<open>How the parts interact.\<close>  A key goes through the modal key map (\<open>Keymap\<close>), which answers
  with a bound action or waits for more keys; counts and the keys behind an operator go through
  a reducer (\<open>VimPending\<close>) that ends in a command for the engine.  An action of the editor (\<open>hjkl-engine\<close>) edits
  the rope of a document (\<open>Edit\<close>), which returns the inverse edit and moves folds, marks and
  jumps (\<open>Folds\<close>) and the secondary selections (\<open>Selections\<close>); deleted and yanked text goes to the registers (\<open>Registers\<close>); the history
  records the change as a delta between two ropes (\<open>RopeDelta\<close>) in a tree of states
  (\<open>UndoTree\<close>, driven by \<open>UndoSession\<close>, saved by \<open>UndoFile\<close>).  After an action the editor
  scrolls (\<open>Scroll\<close>) by the screen rows that wrap and folds leave (\<open>Screen\<close>).  Each window is
  a leaf of a tree of splits (\<open>Layout\<close>).

  \<^bold>\<open>Which theory models what.\<close>
  \<^item> \<open>Prelude\<close>: the result types, the string of code points and generic lemmas.
  \<^item> \<open>Layout\<close> (\<open>hjkl-layout/src/lib.rs\<close>): \<open>layout_tree\<close> with \<open>split_geometry\<close>, \<open>window_rects\<close>,
    \<open>neighbor_direction\<close>, \<open>replace_leaf\<close>, \<open>remove_leaf\<close>, \<open>only\<close>, the swap of siblings and the ratios.
  \<^item> \<open>Chord\<close>, \<open>Trie\<close>, \<open>Keymap\<close> (\<open>hjkl-keymap/src/\<close>): key events and their vim notation, the
    trie of bindings, the modal map with its pending keys, timeouts and replays.
  \<^item> \<open>Rope\<close>, \<open>TextLines\<close>: the interface of the crate ropey as records of operations
    (\<open>rope_ops\<close>, \<open>text_ops\<close>) with its documented laws (\<open>rope_laws\<close>, \<open>text_laws\<close>); \<open>flat_rope\<close> and
    \<open>flat_lines\<close> satisfy them.  The line helpers of \<open>hjkl-buffer/src/buffer.rs\<close>.
  \<^item> \<open>Edit\<close> (\<open>hjkl-buffer/src/edit.rs\<close>): the eight edits, \<open>apply_edit\<close> and the view.
    \<open>EditText\<close>, \<open>EditLines\<close>, \<open>EditBlocks\<close>, \<open>EditJoins\<close>, \<open>EditLaws\<close>, \<open>EditSafe\<close>: what they do to
    the text, as lists of chars and of lines.  \<open>EditProps\<close>: the locale \<open>reversible\<close> and its
    interpretation on the edits.
  \<^item> \<open>RopeDelta\<close>, \<open>UndoTree\<close>, \<open>UndoFile\<close> (\<open>hjkl-buffer/src/undo.rs\<close>): deltas, the arena of states
    with its free list, index, caches and cap, and the serialised projection.  \<open>UndoSession\<close>
    (\<open>content.rs\<close>, the history driver of \<open>hjkl-engine/src/editor.rs\<close>): groups, boundaries,
    undo, redo and the walks.  \<open>UndoSpec\<close>: the specification, a tree of full snapshots.
    \<open>UndoSim\<close>, \<open>UndoDrop\<close>, \<open>UndoClear\<close>, \<open>UndoCap\<close>: the simulation, one group of operations
    each.  \<open>UndoProps\<close>, \<open>UndoGuarantees\<close>, \<open>UndoSaved\<close>: what follows for sessions and files.  A
    session is a list of commands: pushes, edits, steps through the history, substitutions, and
    groups of commands nested in any way (\<open>:g\<close>, \<open>:normal\<close>, macros).  A command is sound
    (\<open>command_ok\<close>) unless a group edits after a step through the history that follows its first
    push, or runs a substitution without a match; there the history itself goes wrong.
  \<^item> \<open>Folds\<close>, \<open>FoldLaws\<close> (\<open>hjkl-buffer/src/folds.rs\<close>, \<open>buffer_impl.rs\<close>, \<open>editor.rs\<close>): fold lists,
    the index of hidden rows, the providers, automatic folds, and the shift of rows by an edit.
    \<open>EditTracking\<close> (\<open>editor.rs\<close>): the part of \<open>mutate_edit\<close> around an edit, which moves marks,
    jumps and folds: the row the shift begins at, the rows a join takes up, and the shift of
    the rest.
  \<^item> \<open>Registers\<close>, \<open>RegisterLaws\<close> (\<open>hjkl-engine/src/registers.rs\<close>): the bank of registers and its
    specification by the history of writes, the editor's, the host's and those of \<open>:yank\<close>.
  \<^item> \<open>Screen\<close> (\<open>wrap.rs\<close>, \<open>viewport.rs\<close>, \<open>buffer.rs\<close>, \<open>viewport_math.rs\<close>), \<open>Scroll\<close> (\<open>editor.rs\<close>):
    soft wrap, the screen rows of a folded text, the scroll after a command.  \<open>ScreenLaws\<close>,
    \<open>CursorVisible\<close>, \<open>ScrollLaws\<close>, \<open>GotoLine\<close>: their laws, up to the jump that opens folds,
    moves the cursor and scrolls.
  \<^item> \<open>Geom\<close> (\<open>geom.rs\<close>, \<open>motion.rs\<close>), \<open>Motions\<close>, \<open>WordMotions\<close>, \<open>LineMotions\<close>
    (\<open>hjkl-engine/src/motions.rs\<close>): display columns, \<open>iskeyword\<close>, and every motion over the rows
    and folds of a text.  \<open>WordLaws\<close>: what \<open>w\<close>, \<open>b\<close> and \<open>e\<close> find; \<open>BracketLaws\<close>: the match of
    a bracket as a scan over the cells of a text.
  \<^item> \<open>Selections\<close> (\<open>hjkl-buffer/src/selection.rs\<close>, \<open>hjkl-engine/src/selection_shift.rs\<close> and
    \<open>editor.rs\<close>): visual selections and the secondary selections of the editor, which every edit
    shifts.  \<open>SelectionLaws\<close>: an edit keeps a selection on its char; \<open>MultiCursor\<close>: the merge of
    overlapping selections and an edit made at every cursor.
  \<^item> \<open>VimCount\<close>, \<open>VimPending\<close> (\<open>hjkl-vim/src/count.rs\<close>, \<open>operator.rs\<close>, \<open>cmd.rs\<close>, \<open>pending.rs\<close>, and
    the driver in \<open>apps/hjkl/src/app\<close>): the count prefix, the reducer of pending chords, and the keys
    of Normal mode that begin, continue, cancel or shorten a chord.  \<open>VimGrammar\<close>: the abstract
    syntax of operator commands and its parsing, the reachable states, and that every chord ends.
  \<^item> \<open>PatternSyntax\<close>, \<open>Search\<close> (\<open>hjkl-engine/src/search.rs\<close>, \<open>buffer_impl.rs\<close>): the translation of
    vim patterns, the search state and \<open>n\<close> and \<open>N\<close>; a compiled regex is an argument (record \<open>regex\<close>)
    with the laws of leftmost matches (\<open>regex_laws\<close>).  \<open>PatternLaws\<close>: the same pattern in the
    notations of the four levels of magic; \<open>SearchLaws\<close>: which match a search finds.
  \<^item> \<open>ExRange\<close> (\<open>hjkl-ex/src/range.rs\<close>): the addresses and ranges before an ex command.
    \<open>ExRangeLaws\<close>: which lines they stand for; \<open>RangeSyntax\<close>: the abstract syntax of ranges, its
    printing and its parsing.
  \<^item> \<open>SubstCommand\<close>, \<open>Substitute\<close> (\<open>hjkl-engine/src/substitute.rs\<close>, \<open>hjkl-ex/src/builtins.rs\<close>): the
    command \<open>:s\<close>, in one go or with a confirmation, and its repetition.  \<open>SubstLaws\<close>: both ways do
    the same to the text, given the laws of the crate regex (\<open>compiled_ok\<close>).

  \<^bold>\<open>What the groups of lemmas show.\<close>  Every component has an invariant that its operations keep
  (\<open>folds_ok\<close>, \<open>view_ok\<close>, the invariant of the undo sessions, well-formed tries), a functional
  description of each operation on every branch, and, where the code has a contract, a
  specification it refines: full snapshots for the undo tree, a finite map for the trie, the
  history of writes for the registers, the scan over all folds for the index, chars of a text
  for the chunk-wise rope walks.  A panic of the source (index, \<open>unwrap\<close>, subtraction below
  zero, a signed sum out of range where overflow is checked) is \<open>None\<close>, so a result \<open>Some\<close>
  includes that no panic happens.

  \<^bold>\<open>Bounds and fuel.\<close>  No definition takes fuel.  Loops are structural or have a measure; the
  walks of the undo tree, whose links form a graph, and the walks by time are
  \<open>partial_function (option)\<close>, whose value \<open>None\<close> also stands for a loop that does not end, and
  the refinement \<open>session_refines\<close> shows that they return \<open>Some\<close> in every session.  Words keep
  their width: 16 bit for sizes of windows and cells, 32 bit for links, 64 bit for generations;
  \<open>usize\<close> counters of rows, columns and bytes are natural numbers, their values being bounded
  by the memory.  So are the positions an edit is given, whose sums the source does not check
  (\<open>usize_ok\<close> lists them), the rows and columns of \<open>Pos\<close> in \<open>Search\<close> and the \<open>foldlevelstart\<close> of
  \<open>set_auto_folds\<close>, which are \<open>u32\<close> and only compared.  Most laws of edits, selections, searches and
  ranges are about a text whose only line breaks are newlines (\<open>plain\<close>); the rope counts six others,
  and what goes wrong with those is among the findings.

  \<^bold>\<open>Not modelled.\<close>  Input and output, threads and rendering (the \<open>-tui\<close> crates, \<open>apps/hjkl\<close>,
  \<open>hjkl-clipboard\<close>, \<open>hjkl-lsp\<close>, \<open>hjkl-anvil\<close>, \<open>hjkl-fs\<close>); syntax trees (\<open>hjkl-bonsai\<close>,
  \<open>hjkl-syntax\<close>), which call tree-sitter; the modes and operators of vim behind its pending
  chords (\<open>hjkl-vim\<close>) and the ex commands (\<open>hjkl-ex\<close>) but for ranges,
  substitution and the undo group of \<open>:g\<close>.  The manifest lists each with its reason.
\<close>

end
